(* ===== verification/Prelude.thy ===== *)
theory Prelude
  imports Main "HOL-Library.Word" "HOL-Library.Monad_Syntax"
begin

text \<open>
  Shared vocabulary of the development: the byte-addressed memory that the C
  routines read and write, the C string and byte-block predicates over it, the C
  integer conversions, and the generic lemmas on lists, memory and words that
  the component theories share.

  Memory is a partial map from addresses to bytes. A load or a store outside the
  mapped addresses yields \<open>None\<close>, and so does a loop that never ends
  (\<open>partial_function (option)\<close>), so a theorem \<open>f m \<dots> = Some r\<close> says at
  once that the routine returns, that it touches mapped memory only, and that its
  result is \<open>r\<close>. Addresses are natural numbers; the null pointer is address 0.
\<close>

unbundle bit_operations_syntax

type_synonym byte = "8 word"
type_synonym addr = nat
type_synonym mem = "nat \<Rightarrow> 8 word option"

abbreviation (input) NULL :: addr where
  "NULL \<equiv> 0"

named_theorems mem_simps \<open>loads and stores through string and block predicates\<close>

section \<open>Stores\<close>

definition store :: "mem \<Rightarrow> addr \<Rightarrow> byte \<Rightarrow> mem option" where
  "store m p v = (case m p of None \<Rightarrow> None | Some _ \<Rightarrow> Some (m(p \<mapsto> v)))"

lemma store_mapped [mem_simps]: "m p = Some w \<Longrightarrow> store m p v = Some (m(p \<mapsto> v))"
  by (simp add: store_def)

lemma fold_fun_upd [simp]: "(\<lambda>a. if a = p then Some v else m a) = (m :: mem)(p \<mapsto> v)"
  by (simp add: fun_upd_def)

lemma store_eq_Some_iff: "store m p v = Some m' \<longleftrightarrow> p \<in> dom m \<and> m' = m(p \<mapsto> v)"
  by (auto simp: store_def split: option.splits)

text \<open>
  A block of C that may return early: \<open>Inl r\<close> is the value it returned, \<open>Inr x\<close> the
  locals with which control reaches its end.
\<close>

definition and_then :: "('r + 'a) option \<Rightarrow> ('a \<Rightarrow> ('r + 'b) option) \<Rightarrow> ('r + 'b) option" where
  "and_then b k = (case b of None \<Rightarrow> None | Some (Inl r) \<Rightarrow> Some (Inl r) | Some (Inr x) \<Rightarrow> k x)"

lemma and_then_simps [simp]:
  "and_then None k = None"
  "and_then (Some (Inl r)) k = Some (Inl r)"
  "and_then (Some (Inr x)) k = k x"
  by (simp_all add: and_then_def)

lemma and_then_assoc: "and_then (and_then b k) l = and_then b (\<lambda>x. and_then (k x) l)"
  by (auto simp: and_then_def split: option.splits sum.splits)

section \<open>Byte blocks and C strings in memory\<close>

fun bytes_at :: "mem \<Rightarrow> addr \<Rightarrow> byte list \<Rightarrow> bool" where
  "bytes_at m p [] = True"
| "bytes_at m p (b # bs) = (m p = Some b \<and> bytes_at m (Suc p) bs)"

fun cstr :: "mem \<Rightarrow> addr \<Rightarrow> byte list \<Rightarrow> bool" where
  "cstr m p [] = (m p = Some 0)"
| "cstr m p (c # s) = (m p = Some c \<and> c \<noteq> 0 \<and> cstr m (Suc p) s)"

text \<open>A block of mapped bytes whose contents do not matter.\<close>

definition mapped :: "mem \<Rightarrow> addr \<Rightarrow> nat \<Rightarrow> bool" where
  "mapped m p n \<longleftrightarrow> {p..<p + n} \<subseteq> dom m"

text \<open>The memory that holds the list \<open>bs\<close> from address \<open>p\<close> on and nothing else.\<close>

definition mem_of :: "addr \<Rightarrow> byte list \<Rightarrow> mem" where
  "mem_of p bs = (\<lambda>a. if p \<le> a \<and> a < p + length bs then Some (bs ! (a - p)) else None)"

lemma bytes_at_nth: "bytes_at m p bs \<longleftrightarrow> (\<forall>i<length bs. m (p + i) = Some (bs ! i))"
proof (induction bs arbitrary: p)
  case (Cons b bs)
  show ?case
    by (auto simp: Cons.IH less_Suc_eq_0_disj)
qed simp

lemma bytes_at_load [mem_simps]:
  "bytes_at m p bs \<Longrightarrow> i < length bs \<Longrightarrow> m (p + i) = Some (bs ! i)"
  by (simp add: bytes_at_nth)

lemma bytes_at_append [simp]:
  "bytes_at m p (xs @ ys) \<longleftrightarrow> bytes_at m p xs \<and> bytes_at m (p + length xs) ys"
  by (induction xs arbitrary: p) auto

lemma bytes_at_take: "bytes_at m p bs \<Longrightarrow> bytes_at m p (take n bs)"
  by (simp add: bytes_at_nth)

lemma bytes_at_drop: "bytes_at m p bs \<Longrightarrow> n \<le> length bs \<Longrightarrow> bytes_at m (p + n) (drop n bs)"
  by (simp add: bytes_at_nth add.assoc)

lemma bytes_at_mem_of [simp]: "bytes_at (mem_of p bs) p bs"
  by (simp add: bytes_at_nth mem_of_def)

lemma cstr_bytes_at: "cstr m p s \<longleftrightarrow> bytes_at m p (s @ [0]) \<and> 0 \<notin> set s"
  by (induction s arbitrary: p) auto

lemma cstr_bytes: "cstr m p s \<Longrightarrow> bytes_at m p s"
  by (simp add: cstr_bytes_at)

lemma cstr_end: "cstr m p s \<Longrightarrow> m (p + length s) = Some 0"
  by (simp add: cstr_bytes_at)

lemma cstr_load: "cstr m p s \<Longrightarrow> i < length s \<Longrightarrow> m (p + i) = Some (s ! i)"
  by (simp add: cstr_bytes_at bytes_at_nth nth_append)

lemma cstr_nonzero: "cstr m p s \<Longrightarrow> i < length s \<Longrightarrow> s ! i \<noteq> 0"
  by (auto simp: cstr_bytes_at in_set_conv_nth)

lemma cstr_append: "cstr m p (xs @ ys) \<longleftrightarrow> bytes_at m p xs \<and> 0 \<notin> set xs \<and> cstr m (p + length xs) ys"
  by (induction xs arbitrary: p) auto

lemma cstr_drop: "cstr m p s \<Longrightarrow> n \<le> length s \<Longrightarrow> cstr m (p + n) (drop n s)"
  by (metis append_take_drop_id cstr_append length_take min.absorb2)

lemma cstr_head: "cstr m p s \<Longrightarrow> \<exists>c. m p = Some c"
  by (cases s) auto

lemma cstr_unique: "cstr m p s \<Longrightarrow> cstr m p t \<Longrightarrow> s = t"
proof (induction s arbitrary: p t)
  case Nil
  then show ?case by (cases t) auto
next
  case (Cons a s)
  then show ?case by (cases t) auto
qed

section \<open>Writing a block\<close>

definition write_bytes :: "mem \<Rightarrow> addr \<Rightarrow> byte list \<Rightarrow> mem" where
  "write_bytes m p bs = (\<lambda>a. if p \<le> a \<and> a < p + length bs then Some (bs ! (a - p)) else m a)"

lemma write_bytes_Nil [simp]: "write_bytes m p [] = m"
  by (rule ext) (auto simp: write_bytes_def)

lemma write_bytes_Cons [simp]: "write_bytes m p (b # bs) = write_bytes (m(p \<mapsto> b)) (Suc p) bs"
proof
  fix a
  consider "a < p" | "a = p" | k where "a = Suc p + k"
    by (metis less_iff_Suc_add linorder_neqE_nat add_Suc)
  then show "write_bytes m p (b # bs) a = write_bytes (m(p \<mapsto> b)) (Suc p) bs a"
    by cases (simp_all add: write_bytes_def)
qed

lemma write_bytes_other: "a < p \<or> p + length bs \<le> a \<Longrightarrow> write_bytes m p bs a = m a"
  by (auto simp: write_bytes_def)

lemma write_bytes_in: "i < length bs \<Longrightarrow> write_bytes m p bs (p + i) = Some (bs ! i)"
  by (simp add: write_bytes_def)

lemma bytes_at_write [simp]: "bytes_at (write_bytes m p bs) p bs"
  by (simp add: bytes_at_nth write_bytes_in)

lemma write_bytes_append:
  "write_bytes m p (xs @ ys) = write_bytes (write_bytes m p xs) (p + length xs) ys"
  by (induction xs arbitrary: m p) auto

lemma write_bytes_update:
  "bytes_at m p xs \<Longrightarrow> i < length xs \<Longrightarrow> m(p + i \<mapsto> v) = write_bytes m p (xs[i := v])"
  by (rule ext) (auto simp: write_bytes_def bytes_at_nth nth_list_update dest: le_Suc_ex)

lemma write_bytes_same: "bytes_at m p xs \<Longrightarrow> write_bytes m p xs = m"
  by (rule ext) (auto simp: write_bytes_def bytes_at_nth dest: le_Suc_ex)

lemma write_bytes_twice:
  "length ys = length xs \<Longrightarrow> write_bytes (write_bytes m p xs) p ys = write_bytes m p ys"
  by (rule ext) (simp add: write_bytes_def)

lemma dom_write_bytes: "dom (write_bytes m p bs) = dom m \<union> {p..<p + length bs}"
  by (rule set_eqI) (auto simp: write_bytes_def dom_def)

lemma mapped_0 [simp]: "mapped m p 0"
  by (simp add: mapped_def)

lemma mapped_add: "mapped m p (i + n) \<longleftrightarrow> mapped m p i \<and> mapped m (p + i) n"
proof -
  have "{p..<p + (i + n)} = {p..<p + i} \<union> {p + i..<p + i + n}"
    by (auto simp: add.assoc)
  then show ?thesis by (simp add: mapped_def)
qed

lemma mapped_Suc: "mapped m p (Suc n) \<longleftrightarrow> p \<in> dom m \<and> mapped m (Suc p) n"
  using mapped_add [of m p 1 n] by (simp add: mapped_def)

lemma mapped_mono: "mapped m p n \<Longrightarrow> k \<le> n \<Longrightarrow> mapped m p k"
  using mapped_add [of m p k "n - k"] by simp

lemma mapped_sub: "mapped m p n \<Longrightarrow> i + k \<le> n \<Longrightarrow> mapped m (p + i) k"
  using mapped_add [of m p i k] mapped_mono [of m p n "i + k"] by simp

lemma mapped_load: "mapped m p n \<Longrightarrow> i < n \<Longrightarrow> \<exists>v. m (p + i) = Some v"
  by (drule mapped_sub [where i = i and k = 1]) (auto simp: mapped_def)

lemma mapped_upd [simp]: "mapped m p n \<Longrightarrow> mapped (m(a \<mapsto> v)) p n"
  by (auto simp: mapped_def)

lemma mapped_write [simp]: "mapped m p n \<Longrightarrow> mapped (write_bytes m q bs) p n"
  by (auto simp: mapped_def dom_write_bytes)

lemma bytes_at_mapped: "bytes_at m p bs \<Longrightarrow> mapped m p (length bs)"
  by (induction bs arbitrary: p) (auto simp: mapped_Suc)

lemma mapped_bytes_at: "mapped m p n \<Longrightarrow> \<exists>bs. length bs = n \<and> bytes_at m p bs"
proof (induction n arbitrary: p)
  case (Suc n)
  then obtain b where b: "m p = Some b" and "mapped m (Suc p) n"
    by (auto simp: mapped_Suc)
  with Suc.IH obtain bs where "length bs = n" "bytes_at m (Suc p) bs"
    by blast
  with b have "length (b # bs) = Suc n \<and> bytes_at m p (b # bs)" by simp
  then show ?case by blast
qed simp

lemma mem_of_at: "mem_of p bs a = (if p \<le> a \<and> a < p + length bs then Some (bs ! (a - p)) else None)"
  by (simp add: mem_of_def)

lemma mapped_mem_of: "mapped (mem_of p bs) a n \<longleftrightarrow> n = 0 \<or> p \<le> a \<and> a + n \<le> p + length bs"
proof -
  have "dom (mem_of p bs) = {p..<p + length bs}"
    by (auto simp: mem_of_def dom_def split: if_splits)
  then show ?thesis by (auto simp: mapped_def)
qed

text \<open>Two blocks that do not overlap.\<close>

definition disjoint :: "addr \<Rightarrow> nat \<Rightarrow> addr \<Rightarrow> nat \<Rightarrow> bool" where
  "disjoint p n q k \<longleftrightarrow> p + n \<le> q \<or> q + k \<le> p \<or> n = 0 \<or> k = 0"

text \<open>
  A byte loop that runs upwards also copies correctly onto a lower address.
\<close>

definition fwd_ok :: "addr \<Rightarrow> addr \<Rightarrow> nat \<Rightarrow> bool" where
  "fwd_ok d s n \<longleftrightarrow> d \<le> s \<or> s + n \<le> d"

lemma fwd_ok_Suc: "fwd_ok d s (Suc n) \<Longrightarrow> fwd_ok (Suc d) (Suc s) n"
  by (auto simp: fwd_ok_def)

lemma bytes_at_upd_other:
  "a < p \<or> p + length bs \<le> a \<Longrightarrow> bytes_at (m(a \<mapsto> v)) p bs = bytes_at m p bs"
  by (induction bs arbitrary: p) auto

lemma bytes_at_write_disjoint:
  assumes "disjoint p (length bs) q (length cs)"
  shows "bytes_at (write_bytes m q cs) p bs = bytes_at m p bs"
proof -
  have "write_bytes m q cs (p + i) = m (p + i)" if "i < length bs" for i
    using assms that unfolding disjoint_def by (intro write_bytes_other) linarith
  then show ?thesis by (simp add: bytes_at_nth)
qed

lemma cstr_upd_other: "a < p \<or> p + length s < a \<Longrightarrow> cstr (m(a \<mapsto> v)) p s = cstr m p s"
  by (induction s arbitrary: p) auto

lemma bytes_at_cong: "bytes_at m p s \<Longrightarrow> (\<And>a. p \<le> a \<Longrightarrow> a < p + length s \<Longrightarrow> m' a = m a) \<Longrightarrow> bytes_at m' p s"
  by (simp add: bytes_at_nth)

lemma cstr_cong: "cstr m p s \<Longrightarrow> (\<And>a. p \<le> a \<Longrightarrow> a \<le> p + length s \<Longrightarrow> m' a = m a) \<Longrightarrow> cstr m' p s"
  unfolding cstr_bytes_at by (auto elim!: bytes_at_cong)

lemma mapped_cong: "mapped m p n \<Longrightarrow> (\<And>a. p \<le> a \<Longrightarrow> a < p + n \<Longrightarrow> m' a = m a) \<Longrightarrow> mapped m' p n"
  by (auto simp: mapped_def dom_def subset_eq)

section \<open>C integers\<close>

text \<open>
  Division of C truncates towards zero. \<open>c_div\<close> and \<open>c_mod\<close> are the quotient and
  the remainder of the language.
\<close>

definition c_div :: "int \<Rightarrow> int \<Rightarrow> int" where
  "c_div a b = sgn a * sgn b * (\<bar>a\<bar> div \<bar>b\<bar>)"

definition c_mod :: "int \<Rightarrow> int \<Rightarrow> int" where
  "c_mod a b = a - c_div a b * b"

lemma c_div_nonneg: "0 \<le> a \<Longrightarrow> 0 < b \<Longrightarrow> c_div a b = a div b"
  by (cases "a = 0") (auto simp: c_div_def)

lemma c_mod_nonneg: "0 \<le> a \<Longrightarrow> 0 < b \<Longrightarrow> c_mod a b = a mod b"
  by (simp add: c_mod_def c_div_nonneg minus_div_mult_eq_mod)

text \<open>A \<open>char\<close> of the target is signed; \<open>schar\<close> is its value as an \<open>int\<close>.\<close>

definition schar :: "byte \<Rightarrow> int" where
  "schar c = sint c"

text \<open>A property of all bytes is a finite check.\<close>

definition all_bytes :: "(byte \<Rightarrow> bool) \<Rightarrow> bool" where
  "all_bytes P = list_all P (map of_nat [0..<256])"

lemma all_bytesD: "all_bytes P \<Longrightarrow> P c"
proof -
  assume "all_bytes P"
  then have "P (of_nat n)" if "n < 256" for n
    using that by (auto simp: all_bytes_def list_all_iff)
  moreover have "unat c < 256" using unsigned_less [of c, where ?'a = nat] by simp
  ultimately have "P (of_nat (unat c))" by blast
  then show "P c" by simp
qed

text \<open>The bytes of an ASCII literal.\<close>

definition asc :: "string \<Rightarrow> byte list" where
  "asc s = map (\<lambda>c. of_nat (of_char c)) s"

lemma asc_Nil [simp]: "asc [] = []" and asc_Cons: "asc (c # s) = of_nat (of_char c) # asc s"
  by (simp_all add: asc_def)

text \<open>Evaluation of the predicates on a concrete memory.\<close>

lemmas mem_of_eval = mem_of_at mapped_mem_of disjoint_def asc_Cons

end
