(* ===== verification/Str_Basic.thy ===== *)
theory Str_Basic
  imports Prelude
begin

text \<open>
  The scanning routines of \<open>libc/string\<close> that work one byte at a time:
  \<open>strspn\<close>, \<open>strcspn\<close>, \<open>strpbrk\<close>, \<open>strrchr\<close> and \<open>strcnt\<close>, each with what it
  returns on C strings.

  \<open>strlen\<close> and \<open>strchr\<close> are assembly routines in the repository
  (\<open>libc/string/x86_64\<close>). Here they are the byte loops their C contract describes;
  their instructions are not modelled.
\<close>

section \<open>The assembly routines the C code calls\<close>

partial_function (option) strlen_from :: "mem \<Rightarrow> addr \<Rightarrow> nat \<Rightarrow> nat option" where
  "strlen_from m p n = do { c \<leftarrow> m p; if c = 0 then Some n else strlen_from m (p + 1) (n + 1) }"

definition strlen :: "mem \<Rightarrow> addr \<Rightarrow> nat option" where
  "strlen m p = strlen_from m p 0"

partial_function (option) strchr :: "mem \<Rightarrow> addr \<Rightarrow> byte \<Rightarrow> addr option" where
  "strchr m s c = do {
     d \<leftarrow> m s;
     if d = c then Some s else if d = 0 then Some NULL else strchr m (s + 1) c }"

lemma strlen_from_cstr: "cstr m p s \<Longrightarrow> strlen_from m p n = Some (n + length s)"
  by (induction s arbitrary: p n) (subst strlen_from.simps, simp)+

lemma strlen_cstr [mem_simps]: "cstr m p s \<Longrightarrow> strlen m p = Some (length s)"
  by (simp add: strlen_def strlen_from_cstr)

lemma strchr_cstr:
  "cstr m p s \<Longrightarrow> c \<noteq> 0 \<Longrightarrow>
     strchr m p c = Some (if c \<in> set s then p + length (takeWhile (\<lambda>d. d \<noteq> c) s) else NULL)"
  by (induction s arbitrary: p) (subst strchr.simps, auto)+

lemma strchr_terminator: "cstr m p s \<Longrightarrow> strchr m p 0 = Some (p + length s)"
  by (induction s arbitrary: p) (subst strchr.simps, auto)+

section \<open>Spans\<close>

text \<open>\<open>for (a = accept; *a != 0; ++a) if (*p == *a) break;\<close> returns \<open>a\<close>.\<close>

partial_function (option) strspn_inner :: "mem \<Rightarrow> byte \<Rightarrow> addr \<Rightarrow> addr option" where
  "strspn_inner m pc a = do {
     ac \<leftarrow> m a;
     if ac = 0 then Some a
     else if pc = ac then Some a
     else strspn_inner m pc (a + 1) }"

partial_function (option) strspn_loop :: "mem \<Rightarrow> addr \<Rightarrow> addr \<Rightarrow> nat \<Rightarrow> nat option" where
  "strspn_loop m accept p count = do {
     pc \<leftarrow> m p;
     if pc = 0 then Some count
     else do {
       a \<leftarrow> strspn_inner m pc accept;
       ac \<leftarrow> m a;
       if ac = 0 then Some count
       else strspn_loop m accept (p + 1) (count + 1) } }"

definition strspn :: "mem \<Rightarrow> addr \<Rightarrow> addr \<Rightarrow> nat option" where
  "strspn m s accept = strspn_loop m accept s 0"

partial_function (option) strcspn_loop :: "mem \<Rightarrow> addr \<Rightarrow> addr \<Rightarrow> nat \<Rightarrow> nat option" where
  "strcspn_loop m reject s count = do {
     c \<leftarrow> m s;
     if c = 0 then Some count
     else do {
       q \<leftarrow> strchr m reject c;
       if q = NULL then strcspn_loop m reject (s + 1) (count + 1)
       else Some count } }"

definition strcspn :: "mem \<Rightarrow> addr \<Rightarrow> addr \<Rightarrow> nat option" where
  "strcspn m s reject = strcspn_loop m reject s 0"

text \<open>The inner loop of \<open>strpbrk\<close>: does \<open>*s\<close> occur in \<open>s2\<close>?\<close>

partial_function (option) strpbrk_inner :: "mem \<Rightarrow> byte \<Rightarrow> addr \<Rightarrow> bool option" where
  "strpbrk_inner m sc p = do {
     pc \<leftarrow> m p;
     if pc = 0 then Some False
     else if pc = sc then Some True
     else strpbrk_inner m sc (p + 1) }"

partial_function (option) strpbrk :: "mem \<Rightarrow> addr \<Rightarrow> addr \<Rightarrow> addr option" where
  "strpbrk m s1 s2 = do {
     sc \<leftarrow> m s1;
     if sc = 0 then Some NULL
     else do {
       hit \<leftarrow> strpbrk_inner m sc s2;
       if hit then Some s1 else strpbrk m (s1 + 1) s2 } }"

partial_function (option) strrchr_loop :: "mem \<Rightarrow> addr \<Rightarrow> byte \<Rightarrow> addr \<Rightarrow> addr option" where
  "strrchr_loop m s c found = do {
     p \<leftarrow> strchr m s c;
     if p \<noteq> NULL then strrchr_loop m (p + 1) c p else Some found }"

definition strrchr :: "mem \<Rightarrow> addr \<Rightarrow> 32 word \<Rightarrow> addr option" where
  "strrchr m s c =
     (let c = ucast c :: byte in
      if c = 0 then strchr m s 0 else strrchr_loop m s c NULL)"

partial_function (option) strcnt_loop :: "mem \<Rightarrow> addr \<Rightarrow> byte \<Rightarrow> nat \<Rightarrow> nat \<Rightarrow> nat option" where
  "strcnt_loop m str ch i iCnt = do {
     c \<leftarrow> m (str + i);
     if c = 0 then Some iCnt
     else strcnt_loop m str ch (i + 1) (if c = ch then iCnt + 1 else iCnt) }"

definition strcnt :: "mem \<Rightarrow> addr \<Rightarrow> byte \<Rightarrow> nat option" where
  "strcnt m str ch = strcnt_loop m str ch 0 0"

subsection \<open>What the spans return\<close>

lemma strspn_inner_cstr:
  "cstr m a ys \<Longrightarrow> pc \<noteq> 0 \<Longrightarrow>
     strspn_inner m pc a = Some (a + length (takeWhile (\<lambda>c. c \<noteq> pc) ys))"
  by (induction ys arbitrary: a) (subst strspn_inner.simps, auto)+

lemma cstr_load_takeWhile:
  assumes "cstr m a ys"
  shows "m (a + length (takeWhile P ys)) =
           Some (if length (takeWhile P ys) < length ys then ys ! length (takeWhile P ys) else 0)"
  using assms cstr_load [OF assms] cstr_end [OF assms] length_takeWhile_le [of P ys]
  by (auto simp: not_less)

lemma takeWhile_neq_less_iff: "length (takeWhile (\<lambda>d. d \<noteq> c) s) < length s \<longleftrightarrow> c \<in> set s"
  by (induction s) auto

lemma strspn_inner_found:
  assumes "cstr m a ys" "pc \<noteq> 0"
  shows "do { b \<leftarrow> strspn_inner m pc a; m b } = Some (if pc \<in> set ys then pc else 0)"
  using assms
proof (induction ys arbitrary: a)
  case Nil
  then show ?case by (subst strspn_inner.simps) auto
next
  case (Cons y ys)
  then show ?case by (subst strspn_inner.simps) auto
qed

lemma strspn_loop_cstr:
  assumes "cstr m accept ys"
  shows "cstr m p xs \<Longrightarrow>
    strspn_loop m accept p n = Some (n + length (takeWhile (\<lambda>c. c \<in> set ys) xs))"
proof (induction xs arbitrary: p n)
  case Nil
  then show ?case by (subst strspn_loop.simps) simp
next
  case (Cons x xs)
  have "do { b \<leftarrow> strspn_inner m x accept; ac \<leftarrow> m b; if ac = 0 then Some n
          else strspn_loop m accept (p + 1) (n + 1) }
      = (if x \<in> set ys then strspn_loop m accept (p + 1) (n + 1) else Some n)"
    using strspn_inner_found [OF assms, of x] Cons.prems
    by (auto simp: Option.bind_eq_Some_conv split: if_splits)
  then show ?case
    using Cons by (subst strspn_loop.simps) (auto split: if_splits)
qed

lemma strspn_cstr [mem_simps]:
  "cstr m s xs \<Longrightarrow> cstr m accept ys \<Longrightarrow>
     strspn m s accept = Some (length (takeWhile (\<lambda>c. c \<in> set ys) xs))"
  by (simp add: strspn_def strspn_loop_cstr)

lemma strcspn_loop_cstr:
  assumes "cstr m reject ys" "reject \<noteq> NULL"
  shows "cstr m p xs \<Longrightarrow>
    strcspn_loop m reject p n = Some (n + length (takeWhile (\<lambda>c. c \<notin> set ys) xs))"
proof (induction xs arbitrary: p n)
  case Nil
  then show ?case by (subst strcspn_loop.simps) simp
next
  case (Cons x xs)
  then show ?case
    using assms by (subst strcspn_loop.simps) (auto simp: strchr_cstr)
qed

lemma strcspn_cstr [mem_simps]:
  "cstr m s xs \<Longrightarrow> cstr m reject ys \<Longrightarrow> reject \<noteq> NULL \<Longrightarrow>
     strcspn m s reject = Some (length (takeWhile (\<lambda>c. c \<notin> set ys) xs))"
  by (simp add: strcspn_def strcspn_loop_cstr)

lemma strpbrk_inner_cstr: "cstr m p ys \<Longrightarrow> strpbrk_inner m c p = Some (c \<in> set ys)"
  by (induction ys arbitrary: p) (subst strpbrk_inner.simps, auto)+

lemma strpbrk_cstr [mem_simps]:
  assumes "cstr m s2 ys"
  shows "cstr m p xs \<Longrightarrow>
    strpbrk m p s2 = Some (if \<exists>c\<in>set xs. c \<in> set ys
                           then p + length (takeWhile (\<lambda>c. c \<notin> set ys) xs) else NULL)"
proof (induction xs arbitrary: p)
  case Nil
  then show ?case by (subst strpbrk.simps) simp
next
  case (Cons x xs)
  then show ?case
    using strpbrk_inner_cstr [OF assms] by (subst strpbrk.simps) auto
qed

lemma strrchr_loop_cstr:
  assumes "c \<noteq> 0"
  shows "cstr m p xs \<Longrightarrow> p \<noteq> NULL \<Longrightarrow>
    strrchr_loop m p c found =
      Some (if c \<in> set xs then p + length xs - Suc (length (takeWhile (\<lambda>d. d \<noteq> c) (rev xs))) else found)"
proof (induction "length xs" arbitrary: p xs found rule: less_induct)
  case less
  show ?case
  proof (cases "c \<in> set xs")
    case False
    then show ?thesis
      using less.prems assms by (subst strrchr_loop.simps) (simp add: strchr_cstr)
  next
    case True
    then obtain us vs where xs: "xs = us @ c # vs" and us: "c \<notin> set us"
      by (meson split_list_first)
    have tw: "takeWhile (\<lambda>d. d \<noteq> c) xs = us"
      unfolding xs using us by (subst takeWhile_append2) auto
    have r: "cstr m (p + Suc (length us)) vs"
      using less.prems(1) by (simp add: xs cstr_append)
    have step: "strrchr_loop m p c found = strrchr_loop m (p + Suc (length us)) c (p + length us)"
      using less.prems assms True tw by (subst strrchr_loop.simps) (simp add: strchr_cstr)
    note IH = less.hyps [OF _ r, of "p + length us"]
    show ?thesis
    proof (cases "c \<in> set vs")
      case True
      then have "takeWhile (\<lambda>d. d \<noteq> c) (rev xs) = takeWhile (\<lambda>d. d \<noteq> c) (rev vs)"
        unfolding xs by (auto intro: takeWhile_append1)
      with True IH step show ?thesis by (simp add: xs)
    next
      case False
      then have "takeWhile (\<lambda>d. d \<noteq> c) (rev xs) = rev vs"
        unfolding xs by (subst rev_append, simp, subst takeWhile_append2, auto)
      with False IH step show ?thesis by (simp add: xs)
    qed
  qed
qed

lemma strcnt_loop_cstr:
  "cstr m (str + i) xs \<Longrightarrow> strcnt_loop m str ch i n = Some (n + count_list xs ch)"
proof (induction xs arbitrary: i n)
  case (Cons x xs)
  have "cstr m (str + Suc i) xs" using Cons.prems by simp
  with Cons show ?case by (subst strcnt_loop.simps) auto
qed (subst strcnt_loop.simps, simp)

lemma strcnt_cstr [mem_simps]: "cstr m str xs \<Longrightarrow> strcnt m str ch = Some (count_list xs ch)"
  by (simp add: strcnt_def strcnt_loop_cstr)

end
