(* ===== verification/Str_Compare.thy ===== *)
theory Str_Compare
  imports Str_Basic
begin

text \<open>
  The comparison routines of \<open>libc/string\<close>: \<open>strncmp\<close> with its loop unrolled
  four times, \<open>strcasecmp\<close> and \<open>strncasecmp\<close>. The reference \<open>lex_diff\<close> compares two
  terminated strings byte by byte; the unrolled loop is shown equal to its plain
  form \<open>strncmp_tail\<close> whatever the memory holds, and the plain form to the reference.
\<close>

section \<open>Reference\<close>

fun lex_diff :: "nat \<Rightarrow> byte list \<Rightarrow> byte list \<Rightarrow> int" where
  "lex_diff 0 xs ys = 0"
| "lex_diff (Suc n) [] [] = 0"
| "lex_diff (Suc n) [] (y # ys) = - uint y"
| "lex_diff (Suc n) (x # xs) [] = uint x"
| "lex_diff (Suc n) (x # xs) (y # ys) = (if x = y then lex_diff n xs ys else uint x - uint y)"

lemma lex_diff_eq_0_iff:
  "0 \<notin> set xs \<Longrightarrow> 0 \<notin> set ys \<Longrightarrow> lex_diff n xs ys = 0 \<longleftrightarrow> take n xs = take n ys"
  by (induction n xs ys rule: lex_diff.induct) (auto simp: unsigned_eq_0_iff simp flip: word_uint_eq_iff)

lemma lex_diff_antisym: "lex_diff n ys xs = - lex_diff n xs ys"
  by (induction n xs ys rule: lex_diff.induct) auto

section \<open>strncmp\<close>

text \<open>
  The block the code repeats four times in its unrolled loop and once in its last
  loop: \<open>c1 = *s1++; c2 = *s2++; if (c1 == 0 || c1 != c2) return c1 - c2;\<close>.
\<close>

definition strncmp_step ::
    "mem \<Rightarrow> addr \<Rightarrow> addr \<Rightarrow> (int + addr \<times> addr \<times> byte \<times> byte) option" where
  "strncmp_step m s1 s2 = do {
     c1 \<leftarrow> m s1;
     c2 \<leftarrow> m s2;
     Some (if c1 = 0 \<or> c1 \<noteq> c2 then Inl (uint c1 - uint c2)
           else Inr (s1 + 1, s2 + 1, c1, c2)) }"

definition strncmp_quad ::
    "mem \<Rightarrow> addr \<Rightarrow> addr \<Rightarrow> (int + addr \<times> addr \<times> byte \<times> byte) option" where
  "strncmp_quad m s1 s2 =
     and_then (strncmp_step m s1 s2) (\<lambda>(s1, s2, _).
     and_then (strncmp_step m s1 s2) (\<lambda>(s1, s2, _).
     and_then (strncmp_step m s1 s2) (\<lambda>(s1, s2, _).
     strncmp_step m s1 s2)))"

text \<open>\<open>do { ... } while (--n4 > 0)\<close>; the code enters it with \<open>n4 > 0\<close> only.\<close>

fun strncmp_quads ::
    "mem \<Rightarrow> nat \<Rightarrow> addr \<Rightarrow> addr \<Rightarrow> (int + addr \<times> addr \<times> byte \<times> byte) option" where
  "strncmp_quads m 0 s1 s2 = None"
| "strncmp_quads m (Suc n4) s1 s2 =
     and_then (strncmp_quad m s1 s2) (\<lambda>(s1, s2, c1, c2).
       if n4 = 0 then Some (Inr (s1, s2, c1, c2)) else strncmp_quads m n4 s1 s2)"

fun strncmp_tail :: "mem \<Rightarrow> nat \<Rightarrow> addr \<Rightarrow> addr \<Rightarrow> byte \<Rightarrow> byte \<Rightarrow> int option" where
  "strncmp_tail m 0 s1 s2 c1 c2 = Some (uint c1 - uint c2)"
| "strncmp_tail m (Suc n) s1 s2 c1 c2 = do {
     r \<leftarrow> strncmp_step m s1 s2;
     case r of Inl v \<Rightarrow> Some v
     | Inr (s1, s2, c1, c2) \<Rightarrow> strncmp_tail m n s1 s2 c1 c2 }"

definition strncmp :: "mem \<Rightarrow> addr \<Rightarrow> addr \<Rightarrow> nat \<Rightarrow> int option" where
  "strncmp m s1 s2 n =
     (if 4 \<le> n then do {
        r \<leftarrow> strncmp_quads m (n div 4) s1 s2;
        case r of Inl v \<Rightarrow> Some v
        | Inr (s1, s2, c1, c2) \<Rightarrow> strncmp_tail m (n mod 4) s1 s2 c1 c2 }
      else strncmp_tail m n s1 s2 0 0)"

lemma strncmp_tail_Suc4:
  "strncmp_tail m (4 + n) s1 s2 c1 c2 = do {
     r \<leftarrow> strncmp_quad m s1 s2;
     case r of Inl v \<Rightarrow> Some v
     | Inr (s1, s2, c1, c2) \<Rightarrow> strncmp_tail m n s1 s2 c1 c2 }"
  by (auto simp: eval_nat_numeral strncmp_quad_def and_then_def
      split: option.splits sum.splits Option.bind_splits)

lemma strncmp_quads_tail:
  "0 < k \<Longrightarrow>
   do { r \<leftarrow> strncmp_quads m k s1 s2;
        case r of Inl v \<Rightarrow> Some v
        | Inr (s1, s2, c1, c2) \<Rightarrow> strncmp_tail m j s1 s2 c1 c2 }
   = strncmp_tail m (4 * k + j) s1 s2 c1 c2"
proof (induction k arbitrary: s1 s2 c1 c2)
  case (Suc k)
  have "strncmp_tail m (4 * Suc k + j) s1 s2 c1 c2 =
      do { r \<leftarrow> strncmp_quad m s1 s2;
        case r of Inl v \<Rightarrow> Some v
        | Inr (s1, s2, c1, c2) \<Rightarrow> strncmp_tail m (4 * k + j) s1 s2 c1 c2 }"
    using strncmp_tail_Suc4 [of m "4 * k + j"] by (simp add: algebra_simps)
  moreover have "strncmp_tail m (4 * k + j) a b c d =
      (if k = 0 then strncmp_tail m j a b c d else
       do { r \<leftarrow> strncmp_quads m k a b;
        case r of Inl v \<Rightarrow> Some v
        | Inr (s1, s2, c1, c2) \<Rightarrow> strncmp_tail m j s1 s2 c1 c2 })" for a b c d
    using Suc.IH by simp
  ultimately show ?case
    by (auto simp: and_then_def split: option.splits sum.splits Option.bind_splits)
qed simp

lemma strncmp_unrolled: "strncmp m s1 s2 n = strncmp_tail m n s1 s2 0 0"
proof (cases "4 \<le> n")
  case True
  then have "0 < n div 4" by simp
  from strncmp_quads_tail [OF this, of m s1 s2 "n mod 4"] True show ?thesis
    by (simp add: strncmp_def)
qed (simp add: strncmp_def)

lemma strncmp_tail_cstr:
  "cstr m s1 xs \<Longrightarrow> cstr m s2 ys \<Longrightarrow> strncmp_tail m n s1 s2 c c = Some (lex_diff n xs ys)"
proof (induction n xs ys arbitrary: s1 s2 c rule: lex_diff.induct)
  case (5 n x xs y ys)
  then show ?case by (auto simp: strncmp_step_def)
qed (auto simp: strncmp_step_def)

lemma strncmp_cstr [mem_simps]:
  "cstr m s1 xs \<Longrightarrow> cstr m s2 ys \<Longrightarrow> strncmp m s1 s2 n = Some (lex_diff n xs ys)"
  by (simp add: strncmp_unrolled strncmp_tail_cstr)

section \<open>strcasecmp and strncasecmp\<close>

definition TOLOWER :: "byte \<Rightarrow> int" where
  "TOLOWER c = uint c OR 0x20"

text \<open>
  The loop condition: \<open>(s1 == s2) || !(r = TOLOWER(*s1) - TOLOWER(*s2))\<close>, with the
  assignment to \<open>r\<close> it makes.
\<close>

definition casecmp_cond :: "mem \<Rightarrow> addr \<Rightarrow> addr \<Rightarrow> int \<Rightarrow> (bool \<times> int) option" where
  "casecmp_cond m s1 s2 r =
     (if s1 = s2 then Some (True, r)
      else do {
        a \<leftarrow> m s1;
        b \<leftarrow> m s2;
        let r = TOLOWER a - TOLOWER b in Some (r = 0, r) })"

partial_function (option) strcasecmp_loop :: "mem \<Rightarrow> addr \<Rightarrow> addr \<Rightarrow> int \<Rightarrow> int option" where
  "strcasecmp_loop m s1 s2 r = do {
     (eq, r) \<leftarrow> casecmp_cond m s1 s2 r;
     if eq then do {
       c \<leftarrow> m s1;
       if c \<noteq> 0 then strcasecmp_loop m (s1 + 1) (s2 + 1) r else Some r }
     else Some r }"

definition strcasecmp :: "mem \<Rightarrow> addr \<Rightarrow> addr \<Rightarrow> int option" where
  "strcasecmp m s1 s2 = strcasecmp_loop m s1 s2 0"

fun strncasecmp_loop :: "mem \<Rightarrow> addr \<Rightarrow> addr \<Rightarrow> nat \<Rightarrow> int \<Rightarrow> int option" where
  "strncasecmp_loop m s1 s2 0 r = Some r"
| "strncasecmp_loop m s1 s2 (Suc n) r = do {
     (eq, r) \<leftarrow> casecmp_cond m s1 s2 r;
     if eq then do {
       c \<leftarrow> m s1;
       if c \<noteq> 0 then strncasecmp_loop m (s1 + 1) (s2 + 1) n r else Some r }
     else Some r }"

definition strncasecmp :: "mem \<Rightarrow> addr \<Rightarrow> addr \<Rightarrow> nat \<Rightarrow> int option" where
  "strncasecmp m s1 s2 n = strncasecmp_loop m s1 s2 n 0"

text \<open>
  A terminator and a space fold to the same value, which is why the routine tells
  apart only strings without spaces.
\<close>

lemma TOLOWER_eq_terminator: "TOLOWER c = TOLOWER 0 \<longleftrightarrow> c = 0 \<or> c = 0x20"
proof -
  have "all_bytes (\<lambda>c. TOLOWER c = TOLOWER 0 \<longleftrightarrow> c = 0 \<or> c = 0x20)"
    by code_simp
  then show ?thesis by (rule all_bytesD)
qed

lemma casecmp_cond_loads:
  "s1 \<noteq> s2 \<Longrightarrow> m s1 = Some a \<Longrightarrow> m s2 = Some b \<Longrightarrow>
     casecmp_cond m s1 s2 r = Some (TOLOWER a = TOLOWER b, TOLOWER a - TOLOWER b)"
  by (simp add: casecmp_cond_def Let_def)

lemma TOLOWER_terminator_neq:
  "c \<noteq> 0 \<Longrightarrow> c \<noteq> 0x20 \<Longrightarrow> TOLOWER c \<noteq> TOLOWER 0 \<and> TOLOWER 0 \<noteq> TOLOWER c"
  using TOLOWER_eq_terminator [of c] by auto

lemma strcasecmp_loop_iff:
  assumes "0x20 \<notin> set xs" "0x20 \<notin> set ys"
  shows "cstr m s1 xs \<Longrightarrow> cstr m s2 ys \<Longrightarrow> s1 \<noteq> s2 \<Longrightarrow>
    \<exists>v. strcasecmp_loop m s1 s2 r = Some v \<and> (v = 0 \<longleftrightarrow> map TOLOWER xs = map TOLOWER ys)"
  using assms
proof (induction xs arbitrary: s1 s2 ys r)
  case Nil
  then show ?case
    by (subst strcasecmp_loop.simps, cases ys) (auto simp: casecmp_cond_loads TOLOWER_terminator_neq)
next
  case (Cons x xs)
  show ?case
  proof (cases ys)
    case Nil
    with Cons.prems show ?thesis
      by (subst strcasecmp_loop.simps) (auto simp: casecmp_cond_loads TOLOWER_terminator_neq)
  next
    case (Cons y ys')
    with Cons.prems Cons.IH [of "Suc s1" "Suc s2" ys' "TOLOWER x - TOLOWER y"] show ?thesis
      by (subst strcasecmp_loop.simps) (auto simp: casecmp_cond_loads)
  qed
qed

text \<open>
  A space in the second string where the first one ends is not seen: the strings
  compare equal. A space in the first string where the second one ends is taken for
  its terminator, and the loop reads past the end of the second string.
\<close>

lemma strcasecmp_loop_trailing:
  assumes "map TOLOWER xs = map TOLOWER ys"
  shows "cstr m s1 xs \<Longrightarrow> cstr m s2 (ys @ 0x20 # zs) \<Longrightarrow> s1 \<noteq> s2 \<Longrightarrow>
    strcasecmp_loop m s1 s2 r = Some 0"
  using assms
proof (induction xs arbitrary: s1 s2 ys r)
  case Nil
  then show ?case
    by (subst strcasecmp_loop.simps) (simp add: casecmp_cond_loads TOLOWER_def)
next
  case (Cons x xs)
  then obtain y ys' where "ys = y # ys'" by (cases ys) auto
  with Cons show ?case
    by (subst strcasecmp_loop.simps) (auto simp: casecmp_cond_loads)
qed

lemma strcasecmp_loop_overrun:
  assumes "map TOLOWER xs = map TOLOWER ys" "m (s2 + length ys + 1) = None"
  shows "cstr m s1 (xs @ 0x20 # zs) \<Longrightarrow> cstr m s2 ys \<Longrightarrow> s1 \<noteq> s2 \<Longrightarrow>
    strcasecmp_loop m s1 s2 r = None"
  using assms
proof (induction xs arbitrary: s1 s2 ys r)
  case Nil
  then have load: "m s1 = Some 0x20" "m s2 = Some 0" "m (Suc s2) = None" "m (Suc s1) \<noteq> None"
    using cstr_head [of m "Suc s1" zs] by auto
  have "casecmp_cond m (Suc s1) (Suc s2) 0 = None"
    using load Nil.prems(3) by (auto simp: casecmp_cond_def)
  then have "strcasecmp_loop m (Suc s1) (Suc s2) 0 = None"
    by (subst strcasecmp_loop.simps) simp
  then show ?case
    using load Nil.prems(3)
    by (subst strcasecmp_loop.simps) (simp add: casecmp_cond_loads TOLOWER_def)
next
  case (Cons x xs)
  then obtain y ys' where "ys = y # ys'" by (cases ys) auto
  with Cons show ?case
    by (subst strcasecmp_loop.simps) (auto simp: casecmp_cond_loads)
qed

lemma strncasecmp_loop_iff:
  assumes "0x20 \<notin> set xs" "0x20 \<notin> set ys"
  shows "cstr m s1 xs \<Longrightarrow> cstr m s2 ys \<Longrightarrow> s1 \<noteq> s2 \<Longrightarrow>
    \<exists>v. strncasecmp_loop m s1 s2 n 0 = Some v \<and>
        (v = 0 \<longleftrightarrow> map TOLOWER (take n xs) = map TOLOWER (take n ys))"
  using assms
proof (induction n arbitrary: s1 s2 xs ys)
  case (Suc n)
  note IH = Suc.IH [of "Suc s1" _ "Suc s2"]
  from Suc.prems show ?case
    by (cases xs; cases ys) (auto simp: casecmp_cond_loads TOLOWER_terminator_neq IH)
qed simp

section \<open>Properties\<close>

text \<open>\<open>strncmp\<close> returns the difference of the first pair of bytes, taken as unsigned
  values, at which the two strings cut at \<open>n\<close> differ; it is 0 exactly when the cut
  strings are equal, and exchanging the arguments negates it.\<close>

lemma strncmp_compares:
  assumes "cstr m s1 xs" "cstr m s2 ys"
  shows "\<exists>d. strncmp m s1 s2 n = Some d \<and> strncmp m s2 s1 n = Some (- d) \<and> d = lex_diff n xs ys \<and>
    (d = 0 \<longleftrightarrow> take n xs = take n ys)"
  using assms lex_diff_antisym [of n ys xs] lex_diff_eq_0_iff [of xs ys n]
  by (simp add: strncmp_cstr cstr_bytes_at)

theorem strncmp_compares_witness:
  "\<exists>d. strncmp (mem_of 8 (asc ''abcd'' @ [0] @ asc ''abxd'' @ [0])) 8 13 3 = Some d \<and>
     strncmp (mem_of 8 (asc ''abcd'' @ [0] @ asc ''abxd'' @ [0])) 13 8 3 = Some (- d) \<and>
     d = lex_diff 3 (asc ''abcd'') (asc ''abxd'') \<and> (d = 0 \<longleftrightarrow> take 3 (asc ''abcd'') = take 3 (asc ''abxd''))"
  by (rule strncmp_compares) (auto simp: mem_of_def asc_Cons)

text \<open>On strings without spaces \<open>strcasecmp\<close> returns, and it returns 0 exactly when they are
  equal after the fold \<open>c | 0x20\<close> of every byte. The fold maps the terminator to the
  space, so a string that goes on with a space after the other one has ended compares
  equal to it, whatever follows the space.\<close>

lemma strcasecmp_folds:
  assumes "cstr m s1 xs" "cstr m s2 ys" "s1 \<noteq> s2"
  shows "(0x20 \<notin> set xs \<and> 0x20 \<notin> set ys \<longrightarrow>
      (\<exists>v. strcasecmp m s1 s2 = Some v \<and> (v = 0 \<longleftrightarrow> map TOLOWER xs = map TOLOWER ys))) \<and>
    (\<forall>zs. ys = xs @ 0x20 # zs \<longrightarrow> strcasecmp m s1 s2 = Some 0)"
  unfolding strcasecmp_def
  using assms strcasecmp_loop_iff [OF _ _ assms] strcasecmp_loop_trailing [OF refl assms(1) _ assms(3)]
  by auto

theorem strcasecmp_folds_witness:
  "strcasecmp (mem_of 8 (asc ''a'' @ [0] @ asc ''a b'' @ [0])) 8 10 = Some 0"
proof -
  let ?m = "mem_of 8 (asc ''a'' @ [0] @ asc ''a b'' @ [0])"
  have "cstr ?m 8 (asc ''a'')" "cstr ?m 10 (asc ''a b'')" by (simp_all add: mem_of_def asc_Cons)
  from strcasecmp_folds [OF this] show ?thesis by (simp add: asc_Cons)
qed

text \<open>When the first string goes on with a space at the place where the second one ends, \<open>strcasecmp\<close>
  reads the byte behind the terminator of the second string: the comparison faults when
  that byte is not mapped.\<close>

lemma strcasecmp_reads_past_end:
  assumes "cstr m s1 (xs @ 0x20 # zs)" "cstr m s2 xs" "s1 \<noteq> s2" "m (s2 + length xs + 1) = None"
  shows "strcasecmp m s1 s2 = None"
  unfolding strcasecmp_def using assms strcasecmp_loop_overrun [OF refl, of m s2 xs s1 zs] by simp

theorem strcasecmp_reads_past_end_witness:
  "strcasecmp (mem_of 8 (asc ''a '' @ [0] @ asc ''a'' @ [0])) 8 11 = None"
  using strcasecmp_reads_past_end [of "mem_of 8 (asc ''a '' @ [0] @ asc ''a'' @ [0])" 8 "asc ''a''" "[]" 11]
  by (simp add: mem_of_def asc_Cons)

end
