(* ===== verification/Str_Copy.thy ===== *)
theory Str_Copy
  imports Str_Basic
begin

text \<open>
  The copying routines of \<open>libc/string\<close>: \<open>mempcpy\<close>, \<open>strncpy\<close> and \<open>strncat\<close> with
  their loops unrolled four times, and \<open>strreverse\<close>. Each is shown to write exactly
  one block (\<open>write_bytes\<close>) and nothing else.
\<close>

section \<open>mempcpy\<close>

fun mempcpy_loop :: "mem \<Rightarrow> addr \<Rightarrow> addr \<Rightarrow> nat \<Rightarrow> (mem \<times> addr) option" where
  "mempcpy_loop m r1 r2 0 = Some (m, r1)"
| "mempcpy_loop m r1 r2 (Suc n) = do {
     c \<leftarrow> m r2;
     m \<leftarrow> store m r1 c;
     mempcpy_loop m (r1 + 1) (r2 + 1) n }"

definition mempcpy :: "mem \<Rightarrow> addr \<Rightarrow> addr \<Rightarrow> nat \<Rightarrow> (mem \<times> addr) option" where
  "mempcpy m s1 s2 n = mempcpy_loop m s1 s2 n"

lemma mempcpy_loop_block:
  "bytes_at m s bs \<Longrightarrow> mapped m d (length bs) \<Longrightarrow> fwd_ok d s (length bs) \<Longrightarrow>
     mempcpy_loop m d s (length bs) = Some (write_bytes m d bs, d + length bs)"
proof (induction bs arbitrary: m d s)
  case (Cons b bs)
  then obtain w where w: "m d = Some w" by (auto simp: mapped_Suc)
  have "bytes_at (m(d \<mapsto> b)) (Suc s) bs"
    using Cons.prems by (subst bytes_at_upd_other) (auto simp: fwd_ok_def)
  moreover have "mapped (m(d \<mapsto> b)) (Suc d) (length bs)" "fwd_ok (Suc d) (Suc s) (length bs)"
    using Cons.prems by (auto simp: mapped_Suc intro: fwd_ok_Suc)
  ultimately have "mempcpy_loop (m(d \<mapsto> b)) (Suc d) (Suc s) (length bs) =
      Some (write_bytes (m(d \<mapsto> b)) (Suc d) bs, Suc d + length bs)"
    by (rule Cons.IH)
  then show ?case
    using Cons.prems w by (simp add: store_mapped)
qed simp

lemma mempcpy_block [mem_simps]:
  "bytes_at m s bs \<Longrightarrow> mapped m d (length bs) \<Longrightarrow> fwd_ok d s (length bs) \<Longrightarrow>
     mempcpy m d s (length bs) = Some (write_bytes m d bs, d + length bs)"
  by (simp add: mempcpy_def mempcpy_loop_block)

section \<open>strncpy\<close>

text \<open>
  \<open>c = *s2++; *++s1 = c;\<close>. The destination pointer is kept one below the next cell,
  as in the code.
\<close>

definition copy_step :: "mem \<Rightarrow> addr \<Rightarrow> addr \<Rightarrow> (mem \<times> addr \<times> addr \<times> byte) option" where
  "copy_step m s1 s2 = do {
     c \<leftarrow> m s2;
     m \<leftarrow> store m (s1 + 1) c;
     Some (m, s1 + 1, s2 + 1, c) }"

text \<open>
  One step of the unrolled loops: \<open>Inl\<close> when the byte copied was the terminator
  (\<open>break\<close> in \<open>strncpy\<close>, \<open>return\<close> in \<open>strncat\<close>).
\<close>

definition copy_or_stop ::
    "mem \<Rightarrow> addr \<Rightarrow> addr \<Rightarrow> (mem \<times> addr + mem \<times> addr \<times> addr \<times> byte) option" where
  "copy_or_stop m s1 s2 = do {
     (m, s1, s2, c) \<leftarrow> copy_step m s1 s2;
     Some (if c = 0 then Inl (m, s1) else Inr (m, s1, s2, c)) }"

definition copy_quad ::
    "mem \<Rightarrow> addr \<Rightarrow> addr \<Rightarrow> (mem \<times> addr + mem \<times> addr \<times> addr \<times> byte) option" where
  "copy_quad m s1 s2 =
     and_then (copy_or_stop m s1 s2) (\<lambda>(m, s1, s2, _).
     and_then (copy_or_stop m s1 s2) (\<lambda>(m, s1, s2, _).
     and_then (copy_or_stop m s1 s2) (\<lambda>(m, s1, s2, _).
     copy_or_stop m s1 s2)))"

text \<open>The unrolled loop, entered with \<open>n4 > 0\<close>: \<open>--n4 == 0\<close> leaves it.\<close>

fun copy_quads ::
    "mem \<Rightarrow> nat \<Rightarrow> addr \<Rightarrow> addr \<Rightarrow> (mem \<times> addr + mem \<times> addr \<times> addr \<times> byte) option" where
  "copy_quads m 0 s1 s2 = None"
| "copy_quads m (Suc n4) s1 s2 =
     and_then (copy_quad m s1 s2) (\<lambda>(m, s1, s2, c).
       if n4 = 0 then Some (Inr (m, s1, s2, c)) else copy_quads m n4 s1 s2)"

text \<open>\<open>do *++s1 = 0; while (--n > 0);\<close>, entered with \<open>n > 0\<close>.\<close>

fun zero_fill :: "mem \<Rightarrow> addr \<Rightarrow> nat \<Rightarrow> mem option" where
  "zero_fill m s1 0 = None"
| "zero_fill m s1 (Suc n) = do {
     m \<leftarrow> store m (s1 + 1) 0;
     if n = 0 then Some m else zero_fill m (s1 + 1) n }"

text \<open>\<open>do { c = *s2++; *++s1 = c; if (--n == 0) return s; } while (c != 0);\<close>, then the fill.\<close>

fun strncpy_chars :: "mem \<Rightarrow> addr \<Rightarrow> addr \<Rightarrow> nat \<Rightarrow> mem option" where
  "strncpy_chars m s1 s2 0 = None"
| "strncpy_chars m s1 s2 (Suc n) = do {
     (m, s1, s2, c) \<leftarrow> copy_step m s1 s2;
     if n = 0 then Some m
     else if c \<noteq> 0 then strncpy_chars m s1 s2 n
     else zero_fill m s1 n }"

definition strncpy_last :: "mem \<Rightarrow> addr \<Rightarrow> addr \<Rightarrow> nat \<Rightarrow> mem option" where
  "strncpy_last m s1 s2 n =
     (let n = n mod 4 in if n = 0 then Some m else strncpy_chars m s1 s2 n)"

definition strncpy :: "mem \<Rightarrow> addr \<Rightarrow> addr \<Rightarrow> nat \<Rightarrow> (mem \<times> addr) option" where
  "strncpy m s s2 n =
     (let s1 = s - 1 in
      map_option (\<lambda>m. (m, s))
       (if 4 \<le> n then do {
          r \<leftarrow> copy_quads m (n div 4) s1 s2;
          case r of
            Inl (m, s1) \<Rightarrow>
              (let n = n - (s1 - s) - 1 in
               if n = 0 then Some m else zero_fill m s1 n)
          | Inr (m, s1, s2, c) \<Rightarrow> strncpy_last m s1 s2 n }
        else strncpy_last m s1 s2 n))"

section \<open>strncat\<close>

text \<open>\<open>do c = *s1++; while (c != 0);\<close>\<close>

partial_function (option) strncat_end :: "mem \<Rightarrow> addr \<Rightarrow> addr option" where
  "strncat_end m s1 = do {
     c \<leftarrow> m s1;
     if c \<noteq> 0 then strncat_end m (s1 + 1) else Some (s1 + 1) }"

fun strncat_chars :: "mem \<Rightarrow> addr \<Rightarrow> addr \<Rightarrow> nat \<Rightarrow> byte \<Rightarrow> mem option" where
  "strncat_chars m s1 s2 0 c = (if c \<noteq> 0 then store m (s1 + 1) 0 else Some m)"
| "strncat_chars m s1 s2 (Suc n) c = do {
     (m, s1, s2, c) \<leftarrow> copy_step m s1 s2;
     if c = 0 then Some m else strncat_chars m s1 s2 n c }"

definition strncat :: "mem \<Rightarrow> addr \<Rightarrow> addr \<Rightarrow> nat \<Rightarrow> (mem \<times> addr) option" where
  "strncat m s s2 n = do {
     s1 \<leftarrow> strncat_end m s;
     let s1 = s1 - 2;
     map_option (\<lambda>m. (m, s))
      (if 4 \<le> n then do {
         r \<leftarrow> copy_quads m (n div 4) s1 s2;
         case r of
           Inl (m, s1) \<Rightarrow> Some m
         | Inr (m, s1, s2, c) \<Rightarrow> strncat_chars m s1 s2 (n mod 4) c }
       else strncat_chars m s1 s2 n 0) }"

section \<open>The unrolled loops are the plain loops\<close>

fun copy_run ::
    "mem \<Rightarrow> nat \<Rightarrow> addr \<Rightarrow> addr \<Rightarrow> byte \<Rightarrow> (mem \<times> addr + mem \<times> addr \<times> addr \<times> byte) option" where
  "copy_run m 0 s1 s2 c = Some (Inr (m, s1, s2, c))"
| "copy_run m (Suc j) s1 s2 c =
     and_then (copy_or_stop m s1 s2) (\<lambda>(m, s1, s2, c). copy_run m j s1 s2 c)"

lemma copy_run_quad:
  "copy_run m (4 + j) s1 s2 c =
     and_then (copy_quad m s1 s2) (\<lambda>(m, s1, s2, c). copy_run m j s1 s2 c)"
  by (simp add: eval_nat_numeral copy_quad_def and_then_assoc split_def)

lemma copy_quads_run: "0 < k \<Longrightarrow> copy_quads m k s1 s2 = copy_run m (4 * k) s1 s2 c"
proof (induction k arbitrary: m s1 s2 c)
  case (Suc k)
  have "copy_run m (4 * Suc k) s1 s2 c =
      and_then (copy_quad m s1 s2) (\<lambda>(m, s1, s2, c). copy_run m (4 * k) s1 s2 c)"
    using copy_run_quad [of m "4 * k"] by simp
  also have "\<dots> = and_then (copy_quad m s1 s2) (\<lambda>(m, s1, s2, c).
      if k = 0 then Some (Inr (m, s1, s2, c)) else copy_quads m k s1 s2)"
    using Suc.IH by (intro arg_cong [where f = "and_then _"] ext) (auto split: prod.splits)
  finally show ?case by simp
qed simp

lemma copy_or_stop_Inl: "copy_or_stop m s1 s2 = Some (Inl (m', s1')) \<Longrightarrow> s1' = Suc s1"
  by (auto simp: copy_or_stop_def copy_step_def bind_eq_Some_conv split: if_splits)

lemma copy_or_stop_Inr:
  "copy_or_stop m s1 s2 = Some (Inr (m', s1', s2', c)) \<Longrightarrow> s1' = Suc s1 \<and> s2' = Suc s2 \<and> c \<noteq> 0"
  by (auto simp: copy_or_stop_def copy_step_def bind_eq_Some_conv split: if_splits)

definition fill :: "mem \<Rightarrow> addr \<Rightarrow> nat \<Rightarrow> mem option" where
  "fill m s1 n = (if n = 0 then Some m else zero_fill m s1 n)"

fun strncpy_plain :: "mem \<Rightarrow> addr \<Rightarrow> addr \<Rightarrow> nat \<Rightarrow> mem option" where
  "strncpy_plain m s1 s2 0 = Some m"
| "strncpy_plain m s1 s2 (Suc n) = do {
     (m, s1, s2, c) \<leftarrow> copy_step m s1 s2;
     if c \<noteq> 0 then strncpy_plain m s1 s2 n else fill m s1 n }"

lemma strncpy_chars_plain: "0 < n \<Longrightarrow> strncpy_chars m s1 s2 n = strncpy_plain m s1 s2 n"
proof (induction n arbitrary: m s1 s2)
  case (Suc n)
  then show ?case
    by (cases n) (auto simp: fill_def copy_step_def split: Option.bind_splits)
qed simp

lemma strncpy_last_plain: "strncpy_last m s1 s2 n = strncpy_plain m s1 s2 (n mod 4)"
  by (simp add: strncpy_last_def Let_def strncpy_chars_plain)

lemma strncpy_plain_stop:
  "strncpy_plain m s1 s2 (Suc n) = (case copy_or_stop m s1 s2 of
      None \<Rightarrow> None
    | Some (Inl (m, s1)) \<Rightarrow> fill m s1 n
    | Some (Inr (m, s1, s2, c)) \<Rightarrow> strncpy_plain m s1 s2 n)"
  by (auto simp: copy_or_stop_def split: Option.bind_splits)

lemma strncpy_plain_run:
  "strncpy_plain m s1 s2 (j + n) = (case copy_run m j s1 s2 c of
      None \<Rightarrow> None
    | Some (Inl (m, s1')) \<Rightarrow> fill m s1' (j + n - (s1' - s1))
    | Some (Inr (m, s1, s2, c)) \<Rightarrow> strncpy_plain m s1 s2 n)
   \<and> (\<forall>m' s1'. copy_run m j s1 s2 c = Some (Inl (m', s1')) \<longrightarrow> s1 < s1' \<and> s1' \<le> s1 + j)"
proof (induction j arbitrary: m s1 s2 c)
  case (Suc j)
  show ?case
  proof (cases "copy_or_stop m s1 s2")
    case None
    then show ?thesis using strncpy_plain_stop [of m s1 s2 "j + n"] by simp
  next
    case (Some r)
    show ?thesis
    proof (cases r)
      case (Inl p)
      then obtain m' s1' where "r = Inl (m', s1')" by (cases p) auto
      with Some copy_or_stop_Inl [of m s1 s2 m' s1'] show ?thesis
        using strncpy_plain_stop [of m s1 s2 "j + n"] by simp
    next
      case (Inr q)
      then obtain m' s1' s2' c' where r: "r = Inr (m', s1', s2', c')" by (cases q) auto
      with Some copy_or_stop_Inr [of m s1 s2 m' s1' s2' c']
      have "s1' = Suc s1" "s2' = Suc s2" by auto
      with Some r Suc.IH [of m' s1' s2' c'] show ?thesis
        using strncpy_plain_stop [of m s1 s2 "j + n"]
        by (auto split: option.splits sum.splits)
    qed
  qed
qed simp

lemma strncpy_unrolled:
  assumes "s \<noteq> NULL"
  shows "strncpy m s s2 n = map_option (\<lambda>m. (m, s)) (strncpy_plain m (s - 1) s2 n)"
proof (cases "4 \<le> n")
  case True
  then have k: "0 < n div 4" "4 * (n div 4) + n mod 4 = n" by simp_all
  note run = strncpy_plain_run [of m "s - 1" s2 "4 * (n div 4)" "n mod 4" 0, unfolded k(2)]
  show ?thesis
    using True assms run copy_quads_run [OF k(1), of m "s - 1" s2 0]
    by (auto simp: strncpy_def Let_def fill_def strncpy_last_plain Option.bind_eq_None_conv
        split: option.splits sum.splits)
next
  case False
  then show ?thesis by (simp add: strncpy_def strncpy_last_plain)
qed

section \<open>What the copies write\<close>

lemma copy_step_mapped:
  "m s2 = Some c \<Longrightarrow> Suc s1 \<in> dom m \<Longrightarrow>
     copy_step m s1 s2 = Some (m(Suc s1 \<mapsto> c), Suc s1, Suc s2, c)"
  by (auto simp: copy_step_def store_mapped)

lemma fill_block: "mapped m (Suc s1) n \<Longrightarrow> fill m s1 n = Some (write_bytes m (Suc s1) (replicate n 0))"
proof (induction n arbitrary: m s1)
  case (Suc n)
  then have "fill m s1 (Suc n) = fill (m(Suc s1 \<mapsto> 0)) (Suc s1) n"
    by (auto simp: fill_def mapped_Suc store_mapped)
  also have "\<dots> = Some (write_bytes (m(Suc s1 \<mapsto> 0)) (Suc (Suc s1)) (replicate n 0))"
    using Suc.prems by (intro Suc.IH) (simp add: mapped_Suc)
  finally show ?case by simp
qed (simp add: fill_def)

lemma strncpy_plain_block:
  "cstr m s2 xs \<Longrightarrow> mapped m (Suc s1) n \<Longrightarrow> disjoint (Suc s1) n s2 (Suc (length xs)) \<Longrightarrow>
     strncpy_plain m s1 s2 n = Some (write_bytes m (Suc s1) (take n (xs @ replicate n 0)))"
proof (induction n arbitrary: m s1 s2 xs)
  case (Suc n)
  show ?case
  proof (cases xs)
    case Nil
    with Suc.prems fill_block [of "m(Suc s1 \<mapsto> 0)" "Suc s1" n] show ?thesis
      by (auto simp: copy_step_mapped mapped_Suc)
  next
    case (Cons x xs')
    have "cstr (m(Suc s1 \<mapsto> x)) (Suc s2) xs'"
      using Suc.prems Cons by (subst cstr_upd_other) (auto simp: disjoint_def)
    moreover have "disjoint (Suc (Suc s1)) n (Suc s2) (Suc (length xs'))"
      using Suc.prems(3) Cons by (auto simp: disjoint_def)
    moreover have "mapped (m(Suc s1 \<mapsto> x)) (Suc (Suc s1)) n"
      using Suc.prems(2) by (simp add: mapped_Suc)
    ultimately have "strncpy_plain (m(Suc s1 \<mapsto> x)) (Suc s1) (Suc s2) n =
        Some (write_bytes (m(Suc s1 \<mapsto> x)) (Suc (Suc s1)) (take n (xs' @ replicate n 0)))"
      by (intro Suc.IH)
    moreover have "xs' @ 0 # replicate n (0 :: byte) = (xs' @ replicate n 0) @ [0]"
      by (simp add: replicate_append_same)
    ultimately show ?thesis
      using Suc.prems Cons by (auto simp: copy_step_mapped mapped_Suc)
  qed
qed simp

lemma strncpy_block [mem_simps]:
  assumes "cstr m s2 xs" "s \<noteq> NULL" "mapped m s n" "disjoint s n s2 (Suc (length xs))"
  shows "strncpy m s s2 n = Some (write_bytes m s (take n (xs @ replicate n 0)), s)"
  using assms strncpy_plain_block [of m s2 xs "s - 1" n] by (simp add: strncpy_unrolled)

lemma strncat_end_cstr: "cstr m s xs \<Longrightarrow> strncat_end m s = Some (Suc (s + length xs))"
  by (induction xs arbitrary: s) (subst strncat_end.simps, simp)+

lemma strncat_chars_run:
  "strncat_chars m s1 s2 (j + n) c = (case copy_run m j s1 s2 c of
      None \<Rightarrow> None
    | Some (Inl (m, s1)) \<Rightarrow> Some m
    | Some (Inr (m, s1, s2, c)) \<Rightarrow> strncat_chars m s1 s2 n c)"
proof (induction j arbitrary: m s1 s2 c)
  case (Suc j)
  then show ?case
    by (auto simp: copy_or_stop_def and_then_def copy_step_def
        split: option.splits sum.splits Option.bind_splits)
qed simp

lemma strncat_chars_block:
  "cstr m s2 xs \<Longrightarrow> mapped m (Suc s1) (Suc n) \<Longrightarrow> disjoint (Suc s1) (Suc n) s2 (Suc (length xs)) \<Longrightarrow>
   c \<noteq> 0 \<or> m (Suc s1) = Some 0 \<Longrightarrow>
     strncat_chars m s1 s2 n c = Some (write_bytes m (Suc s1) (take n xs @ [0]))"
proof (induction n arbitrary: m s1 s2 xs c)
  case 0
  then show ?case by (auto simp: store_def mapped_Suc)
next
  case (Suc n)
  show ?case
  proof (cases xs)
    case Nil
    with Suc.prems show ?thesis by (auto simp: copy_step_mapped mapped_Suc)
  next
    case (Cons x xs')
    have "cstr (m(Suc s1 \<mapsto> x)) (Suc s2) xs'"
      using Suc.prems Cons by (subst cstr_upd_other) (auto simp: disjoint_def)
    moreover have "disjoint (Suc (Suc s1)) (Suc n) (Suc s2) (Suc (length xs'))"
      using Suc.prems(3) Cons by (auto simp: disjoint_def)
    moreover have "mapped (m(Suc s1 \<mapsto> x)) (Suc (Suc s1)) (Suc n)"
      using Suc.prems(2) by (simp add: mapped_Suc)
    moreover have "x \<noteq> 0" using Suc.prems(1) Cons by simp
    ultimately have "strncat_chars (m(Suc s1 \<mapsto> x)) (Suc s1) (Suc s2) n x =
        Some (write_bytes (m(Suc s1 \<mapsto> x)) (Suc (Suc s1)) (take n xs' @ [0]))"
      by (intro Suc.IH disjI1)
    then show ?thesis
      using Suc.prems Cons by (auto simp: copy_step_mapped mapped_Suc)
  qed
qed

lemma strncat_block [mem_simps]:
  assumes "cstr m s ds" "cstr m s2 xs" "s \<noteq> NULL"
    and "mapped m (s + length ds) (Suc n)"
    and "disjoint (s + length ds) (Suc n) s2 (Suc (length xs))"
  shows "strncat m s s2 n = Some (write_bytes m (s + length ds) (take n xs @ [0]), s)"
proof -
  let ?e = "s + length ds - 1"
  have e: "Suc (s + length ds) - 2 = ?e" "Suc ?e = s + length ds"
    using assms(3) by simp_all
  have blk: "strncat_chars m ?e s2 n 0 = Some (write_bytes m (s + length ds) (take n xs @ [0]))"
    using strncat_chars_block [OF assms(2), of ?e n 0] assms e(2) cstr_end [OF assms(1)] by simp
  show ?thesis
  proof (cases "4 \<le> n")
    case True
    then have k: "0 < n div 4" "4 * (n div 4) + n mod 4 = n" by simp_all
    note run = strncat_chars_run [of m ?e s2 "4 * (n div 4)" "n mod 4" 0, unfolded k(2) blk]
    show ?thesis
      using True run copy_quads_run [OF k(1), of m ?e s2 0]
      by (auto simp: strncat_def strncat_end_cstr [OF assms(1)] e(1) Let_def
          split: option.splits sum.splits)
  next
    case False
    then show ?thesis
      using blk by (simp add: strncat_def strncat_end_cstr [OF assms(1)] e(1) Let_def)
  qed
qed

section \<open>strreverse\<close>

fun strreverse_loop :: "mem \<Rightarrow> addr \<Rightarrow> nat \<Rightarrow> nat \<Rightarrow> nat \<Rightarrow> mem option" where
  "strreverse_loop m str len i 0 = Some m"
| "strreverse_loop m str len i (Suc k) = do {
     temp \<leftarrow> m (str + i);
     x \<leftarrow> m (str + (len - i - 1));
     m \<leftarrow> store m (str + i) x;
     m \<leftarrow> store m (str + (len - i - 1)) temp;
     strreverse_loop m str len (i + 1) k }"

text \<open>
  \<open>len\<close> is an \<open>unsigned\<close>, so the length is reduced modulo \<open>2\<close> to the 32; the loop runs
  \<open>len / 2\<close> times.
\<close>

definition strreverse :: "mem \<Rightarrow> addr \<Rightarrow> mem option" where
  "strreverse m str = do {
     l \<leftarrow> strlen m str;
     let len = l mod 2 ^ 32;
     strreverse_loop m str len 0 (len div 2) }"

text \<open>The list with everything but its first and last \<open>i\<close> elements reversed.\<close>

definition rev_mid :: "'a list \<Rightarrow> nat \<Rightarrow> 'a list" where
  "rev_mid xs i = map (\<lambda>j. if i \<le> j \<and> j < length xs - i then xs ! (length xs - 1 - j) else xs ! j)
     [0..<length xs]"

lemma rev_mid_length [simp]: "length (rev_mid xs i) = length xs"
  by (simp add: rev_mid_def)

lemma rev_mid_0: "rev_mid xs 0 = rev xs"
  by (rule nth_equalityI) (auto simp: rev_mid_def rev_nth)

lemma rev_mid_half: "length xs div 2 \<le> i \<Longrightarrow> rev_mid xs i = xs"
proof (rule nth_equalityI)
  fix j
  assume "length xs div 2 \<le> i" "j < length (rev_mid xs i)"
  then have "j = length xs - 1 - j" if "i \<le> j" "j < length xs - i"
    using that by linarith
  with \<open>j < length (rev_mid xs i)\<close> show "rev_mid xs i ! j = xs ! j"
    by (auto simp: rev_mid_def)
qed (simp add: rev_mid_def)

lemma rev_mid_swap:
  assumes "i < length xs div 2"
  shows "rev_mid (xs[i := xs ! (length xs - i - 1), length xs - i - 1 := xs ! i]) (Suc i) = rev_mid xs i"
  using assms by (intro nth_equalityI) (auto simp: rev_mid_def nth_list_update)

lemma strreverse_loop_block:
  "bytes_at m p xs \<Longrightarrow> i + k = length xs div 2 \<Longrightarrow>
     strreverse_loop m p (length xs) i k = Some (write_bytes m p (rev_mid xs i))"
proof (induction k arbitrary: m xs i)
  case 0
  then show ?case by (simp add: rev_mid_half write_bytes_same)
next
  case (Suc k)
  define j where "j = length xs - i - 1"
  let ?xs = "xs[i := xs ! j, j := xs ! i]"
  have ij: "i < length xs" "j < length xs" "i \<noteq> j" "j \<noteq> i" using Suc.prems(2) by (auto simp: j_def)
  have b1: "m(p + i \<mapsto> xs ! j) = write_bytes m p (xs[i := xs ! j])"
    using Suc.prems(1) ij(1) by (rule write_bytes_update)
  have b2: "(m(p + i \<mapsto> xs ! j))(p + j \<mapsto> xs ! i) = write_bytes m p ?xs"
    unfolding b1 using ij by (subst write_bytes_update [where xs = "xs[i := xs ! j]"])
      (use bytes_at_write [of m p "xs[i := xs ! j]"] in \<open>auto simp: write_bytes_twice\<close>)
  have "strreverse_loop m p (length xs) i (Suc k) =
      strreverse_loop (write_bytes m p ?xs) p (length ?xs) (Suc i) k"
    unfolding strreverse_loop.simps j_def [symmetric]
    using Suc.prems(1) ij b2 by (simp add: store_def bytes_at_load)
  also have "\<dots> = Some (write_bytes (write_bytes m p ?xs) p (rev_mid ?xs (Suc i)))"
    using Suc.prems(2) by (intro Suc.IH) auto
  also have "\<dots> = Some (write_bytes m p (rev_mid xs i))"
    using Suc.prems(2) rev_mid_swap [of i xs] by (simp add: j_def write_bytes_twice)
  finally show ?case .
qed

lemma strreverse_rev:
  assumes "cstr m p xs" "length xs < 2 ^ 32"
  shows "strreverse m p = Some (write_bytes m p (rev xs))"
  using assms strreverse_loop_block [of m p xs 0 "length xs div 2"]
  by (simp add: strreverse_def strlen_cstr cstr_bytes rev_mid_0 Let_def)

section \<open>Properties\<close>

text \<open>\<open>strncpy\<close> returns its destination having written exactly \<open>n\<close> bytes there: the
  source cut at \<open>n\<close> and padded with zeros, in spite of the unrolled loop, the pointer
  kept one below and the two ways out. No other byte changes.\<close>

lemma strncpy_writes_block:
  assumes "cstr m s2 xs" "s \<noteq> NULL" "mapped m s n" "disjoint s n s2 (Suc (length xs))"
  shows "strncpy m s s2 n = Some (write_bytes m s (take n (xs @ replicate n 0)), s)"
  using assms by (rule strncpy_block)

theorem strncpy_writes_block_witness:
  "strncpy (mem_of 8 (asc ''abc'' @ [0, 1, 1, 1, 1, 1, 1])) 12 8 6 =
     Some (write_bytes (mem_of 8 (asc ''abc'' @ [0, 1, 1, 1, 1, 1, 1])) 12
             (take 6 (asc ''abc'' @ replicate 6 0)), 12)"
  by (rule strncpy_writes_block)
    (simp_all add: mem_of_eval)

text \<open>\<open>strncat\<close> appends at the end of the destination string the source cut at \<open>n\<close> and
  one terminator, \<open>n + 1\<close> bytes at most, and changes nothing else.\<close>

lemma strncat_appends:
  assumes "cstr m s ds" "cstr m s2 xs" "s \<noteq> NULL"
    and "mapped m (s + length ds) (Suc n)"
    and "disjoint (s + length ds) (Suc n) s2 (Suc (length xs))"
  shows "strncat m s s2 n = Some (write_bytes m (s + length ds) (take n xs @ [0]), s)"
  using assms by (rule strncat_block)

theorem strncat_appends_witness:
  "strncat (mem_of 8 (asc ''ab'' @ [0] @ asc ''x'' @ [0, 1, 1, 1, 1, 1])) 11 8 2 =
     Some (write_bytes (mem_of 8 (asc ''ab'' @ [0] @ asc ''x'' @ [0, 1, 1, 1, 1, 1])) (11 + length (asc ''x''))
             (take 2 (asc ''ab'') @ [0]), 11)"
  by (rule strncat_appends)
    (simp_all add: mem_of_eval)

text \<open>\<open>strreverse\<close> reverses a string of fewer than \<open>2\<close> to the 32 bytes in place, and
  applied twice it gives the memory back.\<close>

lemma strreverse_involution:
  assumes "cstr m p xs" "length xs < 2 ^ 32"
  shows "strreverse m p = Some (write_bytes m p (rev xs)) \<and>
    strreverse (write_bytes m p (rev xs)) p = Some m"
proof
  show "strreverse m p = Some (write_bytes m p (rev xs))"
    using assms by (rule strreverse_rev)
  have "write_bytes m p (rev xs) (p + length xs) = Some 0"
    using cstr_end [OF assms(1)] by (simp add: write_bytes_other)
  then have "cstr (write_bytes m p (rev xs)) p (rev xs)"
    using assms(1) by (simp add: cstr_bytes_at)
  from strreverse_rev [OF this] show "strreverse (write_bytes m p (rev xs)) p = Some m"
    using assms by (simp add: write_bytes_twice write_bytes_same cstr_bytes)
qed

theorem strreverse_involution_witness:
  "strreverse (mem_of 8 (asc ''abc'' @ [0])) 8 = Some (write_bytes (mem_of 8 (asc ''abc'' @ [0])) 8 (rev (asc ''abc'')))
   \<and> strreverse (write_bytes (mem_of 8 (asc ''abc'' @ [0])) 8 (rev (asc ''abc''))) 8 = Some (mem_of 8 (asc ''abc'' @ [0]))"
  by (rule strreverse_involution)
    (simp_all add: mem_of_eval)

end
