(* ===== verification/Word_Scan.thy ===== *)
theory Word_Scan
  imports Prelude
begin

text \<open>
  The searches of \<open>libc/string\<close> that read memory eight bytes at a time: \<open>memchr\<close>,
  \<open>rawmemchr\<close>, \<open>memrchr\<close> and \<open>strnlen\<close>. A longword is the little-endian value of
  eight bytes. The two bit tests the code uses to skip a longword without looking
  at its bytes (the carry test of the three searches and the borrow test of
  \<open>strnlen\<close>) meet one contract, the locale \<open>longword_test\<close>: a longword that
  fails the test has no zero byte. The loops are proved from that contract.
\<close>

section \<open>Longwords\<close>

definition le_word :: "byte list \<Rightarrow> 64 word" where
  "le_word bs = foldr (\<lambda>b w. ucast b OR push_bit 8 w) bs 0"

definition load_long :: "mem \<Rightarrow> addr \<Rightarrow> 64 word option" where
  "load_long m p = do {
     b0 \<leftarrow> m p; b1 \<leftarrow> m (p + 1); b2 \<leftarrow> m (p + 2); b3 \<leftarrow> m (p + 3);
     b4 \<leftarrow> m (p + 4); b5 \<leftarrow> m (p + 5); b6 \<leftarrow> m (p + 6); b7 \<leftarrow> m (p + 7);
     Some (le_word [b0, b1, b2, b3, b4, b5, b6, b7]) }"

definition byte_of :: "nat \<Rightarrow> 64 word \<Rightarrow> byte" where
  "byte_of k w = ucast (drop_bit (8 * k) w)"

lemma byte_of_xor: "byte_of k (v XOR w) = byte_of k v XOR byte_of k w"
  by (rule bit_word_eqI) (simp add: byte_of_def bit_simps)

lemma bit_le_word:
  "k < length bs \<Longrightarrow> k < 8 \<Longrightarrow> j < 8 \<Longrightarrow> bit (le_word bs) (8 * k + j) \<longleftrightarrow> bit (bs ! k) j"
proof (induction bs arbitrary: k)
  case (Cons b bs)
  show ?case
  proof (cases k)
    case 0
    with Cons.prems show ?thesis
      by (simp add: le_word_def bit_simps)
  next
    case (Suc i)
    then have "bit (le_word (b # bs)) (8 * k + j) \<longleftrightarrow> bit (le_word bs) (8 * i + j)"
      using Cons.prems by (auto simp: le_word_def bit_simps dest: bit_imp_le_length)
    with Suc Cons show ?thesis by simp
  qed
qed simp

lemma byte_of_le_word: "k < length bs \<Longrightarrow> k < 8 \<Longrightarrow> byte_of k (le_word bs) = bs ! k"
  by (rule bit_word_eqI) (auto simp: byte_of_def bit_simps bit_le_word)

lemma load_long_bytes: "bytes_at m p bs \<Longrightarrow> length bs = 8 \<Longrightarrow> load_long m p = Some (le_word bs)"
  by (auto simp: load_long_def length_Suc_conv eval_nat_numeral)

lemma unat_byte_of: "unat (byte_of k w) = unat w div 2 ^ (8 * k) mod 256"
  by (simp add: byte_of_def unsigned_ucast_eq unat_drop_bit_eq take_bit_eq_mod flip: drop_bit_eq_div)

section \<open>The test for a byte\<close>

definition magic_bits :: "64 word" where
  "magic_bits = push_bit 32 0x7efefefe OR 0xfefefeff"

definition charmask :: "byte \<Rightarrow> 64 word" where
  "charmask c =
     (let cm = ucast c OR push_bit 8 (ucast c);
          cm = cm OR push_bit 16 cm
      in cm OR push_bit 32 cm)"

text \<open>The hole bits unchanged by adding \<open>magic_bits\<close>.\<close>

definition hole_test :: "64 word \<Rightarrow> bool" where
  "hole_test longword \<longleftrightarrow>
     ((longword + magic_bits) XOR NOT longword) AND NOT magic_bits \<noteq> 0"

definition himagic :: "64 word" where
  "himagic = (let h = 0x80808080 in push_bit 16 (push_bit 16 h) OR h)"

definition lomagic :: "64 word" where
  "lomagic = (let l = 0x01010101 in push_bit 16 (push_bit 16 l) OR l)"

definition borrow_test :: "64 word \<Rightarrow> bool" where
  "borrow_test longword \<longleftrightarrow> (longword - lomagic) AND himagic \<noteq> 0"

lemma magic_values:
  "magic_bits = 0x7efefefefefefeff" "himagic = 0x8080808080808080" "lomagic = 0x0101010101010101"
  by (simp_all add: magic_bits_def himagic_def lomagic_def)

lemma charmask_le_word: "charmask c = le_word (replicate 8 c)"
proof -
  have "replicate 8 c = [c, c, c, c, c, c, c, c]"
    by (simp add: eval_nat_numeral)
  then show ?thesis
    by (simp add: charmask_def le_word_def Let_def push_bit_or ac_simps)
qed

lemma byte_of_charmask: "k < 8 \<Longrightarrow> byte_of k (charmask c) = c"
  by (simp add: charmask_le_word byte_of_le_word)

lemma byte_zero_mod:
  assumes "byte_of k w = 0"
  shows "unat w mod 2 ^ (8 * k + 8) < 2 ^ (8 * k)"
proof -
  have "unat w div 2 ^ (8 * k) mod 256 = 0"
    using assms by (simp flip: unat_byte_of)
  then have "unat w mod 2 ^ (8 * k + 8) = unat w mod 2 ^ (8 * k)"
    using mod_mult2_eq [of "unat w" "2 ^ (8 * k)" "2 ^ 8"] by (simp add: power_add)
  then show ?thesis by simp
qed

lemma bit_unat: "bit (w :: 64 word) n \<longleftrightarrow> bit (unat w) n"
  by (auto simp: bit_unsigned_iff dest: bit_imp_le_length)

lemma bit_plus_no_carry:
  fixes x y :: "64 word"
  assumes "n < 64" "unat x mod 2 ^ n + unat y mod 2 ^ n < 2 ^ n"
  shows "bit (x + y) n \<longleftrightarrow> bit x n \<noteq> bit y n"
proof -
  have "bit (x + y) n \<longleftrightarrow> bit (take_bit 64 (unat x + unat y)) n"
    by (simp add: bit_unat unat_word_ariths take_bit_eq_mod)
  also have "\<dots> \<longleftrightarrow> odd ((unat x + unat y) div 2 ^ n)"
    unfolding bit_take_bit_iff using assms(1) by (simp only: bit_iff_odd simp_thms)
  also have "(unat x + unat y) div 2 ^ n = unat x div 2 ^ n + unat y div 2 ^ n"
    using assms(2) by (subst div_add1_eq) simp
  finally have "bit (x + y) n \<longleftrightarrow> odd (unat x div 2 ^ n) \<noteq> odd (unat y div 2 ^ n)"
    by (simp only: odd_add)
  then show ?thesis
    unfolding bit_unat [of x] bit_unat [of y] bit_iff_odd [where a = "unat _"] .
qed

text \<open>The hole above byte \<open>k\<close>; the last one is bit 63.\<close>

definition hole :: "nat \<Rightarrow> nat" where
  "hole k = (if k = 7 then 63 else 8 * k + 8)"

lemma magic_holes:
  "k < 8 \<Longrightarrow> unat magic_bits mod 2 ^ hole k + 2 ^ (8 * k) \<le> 2 ^ hole k \<and> \<not> bit magic_bits (hole k)"
proof -
  assume "k < 8"
  then have "k \<in> {0, 1, 2, 3, 4, 5, 6, 7}" by auto
  then show ?thesis
    by (elim insertE emptyE) (simp_all add: magic_values hole_def bit_iff_odd)
qed

lemma hole_test_zero:
  assumes "byte_of k w = 0" "k < 8"
  shows "hole_test w"
proof -
  have n: "hole k < 64" "hole k \<le> 8 * k + 8"
    using assms(2) by (auto simp: hole_def)
  have "unat w mod 2 ^ hole k \<le> unat w mod 2 ^ (8 * k + 8)"
    using n(2) by (metis le_imp_power_dvd mod_less_eq_dividend mod_mod_cancel)
  then have "unat w mod 2 ^ hole k + unat magic_bits mod 2 ^ hole k < 2 ^ hole k"
    using byte_zero_mod [OF assms(1)] magic_holes [OF assms(2)] by linarith
  then have "bit (w + magic_bits) (hole k) \<longleftrightarrow> bit w (hole k)"
    using magic_holes [OF assms(2)] bit_plus_no_carry [OF n(1)] by blast
  then have "bit (((w + magic_bits) XOR NOT w) AND NOT magic_bits) (hole k)"
    using n(1) magic_holes [OF assms(2)] by (simp add: bit_simps)
  then show ?thesis by (auto simp: hole_test_def)
qed


lemma magic_himagic:
  "k < 8 \<Longrightarrow> 2 ^ (8 * k) \<le> uint lomagic mod 2 ^ (8 * k + 8) \<and>
     uint lomagic mod 2 ^ (8 * k + 8) < 2 * 2 ^ (8 * k) \<and> bit himagic (8 * k + 7)"
proof -
  assume "k < 8"
  then have "k \<in> {0, 1, 2, 3, 4, 5, 6, 7}" by auto
  then show ?thesis
    by (elim insertE emptyE) (simp_all add: magic_values bit_iff_odd)
qed

lemma bit_top_half:
  assumes "2 ^ n \<le> uint (v :: 64 word) mod 2 ^ Suc n" "n < 64"
  shows "bit v n"
proof (rule ccontr)
  assume "\<not> bit v n"
  then have "\<not> bit (uint v) n"
    by (simp add: bit_unsigned_iff)
  then have "uint v div 2 ^ n mod 2 = 0"
    by (simp only: bit_iff_odd not_not even_iff_mod_2_eq_zero)
  then have "uint v mod 2 ^ Suc n = uint v mod 2 ^ n"
    using zmod_zmult2_eq [of 2 "uint v" "2 ^ n"] by (simp add: mult.commute)
  moreover have "uint v mod 2 ^ n < 2 ^ n" by simp
  ultimately show False using assms(1) by linarith
qed

lemma borrow_test_zero:
  assumes "byte_of k w = 0" "k < 8"
  shows "borrow_test w"
proof -
  let ?n = "8 * k + 8" and ?L = "uint lomagic"
  have L: "2 ^ (8 * k) \<le> ?L mod 2 ^ ?n" "?L mod 2 ^ ?n < 2 * 2 ^ (8 * k)" "bit himagic (8 * k + 7)"
    using magic_himagic [OF assms(2)] by simp_all
  have W: "uint w mod 2 ^ ?n < 2 ^ (8 * k)"
    using byte_zero_mod [OF assms(1), folded of_nat_less_iff [where 'a = int]]
    by (simp only: of_nat_mod of_nat_power of_nat_numeral uint_nat)
  define d where "d = uint w mod 2 ^ ?n - ?L mod 2 ^ ?n"
  have d: "- (2 * 2 ^ (8 * k)) < d" "d < 0"
    unfolding d_def using L(1,2) W by (smt (verit) pos_mod_sign zero_less_power)+
  have "uint (w - lomagic) mod 2 ^ ?n = (uint w - ?L) mod 2 ^ ?n"
    using mod_mod_cancel [of "2 ^ ?n" "2 ^ 64" "uint w - ?L"] le_imp_power_dvd [of ?n 64 "2 :: int"] assms(2)
    by (simp add: uint_word_ariths)
  also have "\<dots> = d mod 2 ^ ?n"
    by (simp only: mod_diff_eq d_def)
  also have "\<dots> = (d + 2 ^ ?n) mod 2 ^ ?n"
    by simp
  also have "\<dots> = d + 2 ^ ?n"
    using d by (intro mod_pos_pos_trivial) (simp_all add: power_add)
  finally have "2 ^ (8 * k + 7) \<le> uint (w - lomagic) mod 2 ^ Suc (8 * k + 7)"
    using d by (simp add: power_add ac_simps)
  then have "bit ((w - lomagic) AND himagic) (8 * k + 7)"
    using L(3) bit_top_half [of "8 * k + 7" "w - lomagic"] assms(2) by (simp add: bit_simps)
  then show ?thesis by (auto simp: borrow_test_def)
qed

section \<open>The contract of a longword test\<close>

text \<open>\<open>if (cp[k] == c) return &cp[k];\<close> for each \<open>k\<close> of the list in turn.\<close>

fun test_bytes :: "mem \<Rightarrow> byte \<Rightarrow> addr \<Rightarrow> nat list \<Rightarrow> addr option option" where
  "test_bytes m c cp [] = Some None"
| "test_bytes m c cp (k # ks) = do {
     b \<leftarrow> m (cp + k);
     if b = c then Some (Some (cp + k)) else test_bytes m c cp ks }"

text \<open>
  \<open>test\<close> applied to a longword xor \<open>mask\<close> decides whether its bytes are compared with
  \<open>c\<close> one by one. The law: a byte equal to \<open>c\<close> never goes unnoticed.
\<close>

locale longword_test =
  fixes test :: "64 word \<Rightarrow> bool" and mask :: "64 word" and c :: byte
  assumes test_zero: "byte_of k w = 0 \<Longrightarrow> k < 8 \<Longrightarrow> test w"
    and mask_byte: "k < 8 \<Longrightarrow> byte_of k mask = c"
begin

lemma skip:
  assumes "length bs = 8" "\<not> test (le_word bs XOR mask)"
  shows "c \<notin> set bs"
proof
  assume "c \<in> set bs"
  then obtain k where "k < 8" "bs ! k = c"
    using assms(1) by (auto simp: in_set_conv_nth)
  then have "byte_of k (le_word bs XOR mask) = 0"
    using assms(1) by (simp add: byte_of_xor byte_of_le_word mask_byte)
  with test_zero \<open>k < 8\<close> assms(2) show False by blast
qed

lemma test_bytes_miss:
  "bytes_at m p bs \<Longrightarrow> length bs = 8 \<Longrightarrow> c \<notin> set bs \<Longrightarrow> set ks \<subseteq> {..<8} \<Longrightarrow>
     test_bytes m c p ks = Some None"
  by (induction ks) (auto simp: bytes_at_load in_set_conv_nth)

lemma guarded_test_bytes:
  assumes "bytes_at m p bs" "length bs = 8" "set ks \<subseteq> {..<8}"
  shows "(if test (le_word bs XOR mask) then test_bytes m c p ks else Some None) = test_bytes m c p ks"
  using assms skip test_bytes_miss by auto

end

interpretation hole: longword_test hole_test "charmask c" c for c
  by unfold_locales (auto intro: hole_test_zero byte_of_charmask)

interpretation borrow: longword_test borrow_test 0 0
  by unfold_locales (auto intro: borrow_test_zero simp: byte_of_def)

section \<open>The searches\<close>

subsection \<open>memchr\<close>

text \<open>Bytes up to the first longword boundary.\<close>

fun memchr_head :: "mem \<Rightarrow> byte \<Rightarrow> addr \<Rightarrow> nat \<Rightarrow> (addr + addr \<times> nat) option" where
  "memchr_head m c char_ptr 0 = Some (Inr (char_ptr, 0))"
| "memchr_head m c char_ptr (Suc n) =
     (if char_ptr mod 8 = 0 then Some (Inr (char_ptr, Suc n))
      else do {
        b \<leftarrow> m char_ptr;
        if b = c then Some (Inl char_ptr) else memchr_head m c (char_ptr + 1) n })"

text \<open>\<open>while (n >= sizeof (longword))\<close>.\<close>

function memchr_words :: "mem \<Rightarrow> byte \<Rightarrow> addr \<Rightarrow> nat \<Rightarrow> (addr + addr \<times> nat) option" where
  "memchr_words m c longword_ptr n =
     (if 8 \<le> n then do {
        longword \<leftarrow> load_long m longword_ptr;
        hit \<leftarrow> (if hole_test (longword XOR charmask c)
               then test_bytes m c longword_ptr [0, 1, 2, 3, 4, 5, 6, 7] else Some None);
        case hit of
          Some q \<Rightarrow> Some (Inl q)
        | None \<Rightarrow> memchr_words m c (longword_ptr + 8) (n - 8) }
      else Some (Inr (longword_ptr, n)))"
  by pat_completeness auto
termination by (relation "measure (\<lambda>(m, c, p, n). n)") auto

declare memchr_words.simps [simp del]

fun memchr_tail :: "mem \<Rightarrow> byte \<Rightarrow> addr \<Rightarrow> nat \<Rightarrow> (addr + unit) option" where
  "memchr_tail m c char_ptr 0 = Some (Inr ())"
| "memchr_tail m c char_ptr (Suc n) = do {
     b \<leftarrow> m char_ptr;
     if b = c then Some (Inl char_ptr) else memchr_tail m c (char_ptr + 1) n }"

text \<open>A search that falls through its loops returns the null pointer.\<close>

definition or_null :: "(addr + unit) option \<Rightarrow> addr option" where
  "or_null r = map_option (\<lambda>v. case v of Inl q \<Rightarrow> q | Inr _ \<Rightarrow> NULL) r"

definition memchr :: "mem \<Rightarrow> addr \<Rightarrow> 32 word \<Rightarrow> nat \<Rightarrow> addr option" where
  "memchr m s c_in n =
     (let c = ucast c_in in
      or_null
       (and_then (memchr_head m c s n) (\<lambda>(char_ptr, n).
        and_then (memchr_words m c char_ptr n) (\<lambda>(char_ptr, n).
        memchr_tail m c char_ptr n))))"

subsection \<open>rawmemchr\<close>

partial_function (option) rawmemchr_head :: "mem \<Rightarrow> byte \<Rightarrow> addr \<Rightarrow> (addr + addr) option" where
  "rawmemchr_head m c char_ptr =
     (if char_ptr mod 8 = 0 then Some (Inr char_ptr)
      else do {
        b \<leftarrow> m char_ptr;
        if b = c then Some (Inl char_ptr) else rawmemchr_head m c (char_ptr + 1) })"

text \<open>\<open>while (1)\<close>: only a hit ends it.\<close>

partial_function (option) rawmemchr_words :: "mem \<Rightarrow> byte \<Rightarrow> addr \<Rightarrow> addr option" where
  "rawmemchr_words m c longword_ptr = do {
     longword \<leftarrow> load_long m longword_ptr;
     hit \<leftarrow> (if hole_test (longword XOR charmask c)
            then test_bytes m c longword_ptr [0, 1, 2, 3, 4, 5, 6, 7] else Some None);
     case hit of
       Some q \<Rightarrow> Some q
     | None \<Rightarrow> rawmemchr_words m c (longword_ptr + 8) }"

definition rawmemchr :: "mem \<Rightarrow> addr \<Rightarrow> 32 word \<Rightarrow> addr option" where
  "rawmemchr m s c_in =
     (let c = ucast c_in in do {
        r \<leftarrow> rawmemchr_head m c s;
        case r of Inl q \<Rightarrow> Some q | Inr char_ptr \<Rightarrow> rawmemchr_words m c char_ptr })"

subsection \<open>memrchr\<close>

fun memrchr_head :: "mem \<Rightarrow> byte \<Rightarrow> addr \<Rightarrow> nat \<Rightarrow> (addr + addr \<times> nat) option" where
  "memrchr_head m c char_ptr 0 = Some (Inr (char_ptr, 0))"
| "memrchr_head m c char_ptr (Suc n) =
     (if char_ptr mod 8 = 0 then Some (Inr (char_ptr, Suc n))
      else do {
        b \<leftarrow> m (char_ptr - 1);
        if b = c then Some (Inl (char_ptr - 1)) else memrchr_head m c (char_ptr - 1) n })"

function memrchr_words :: "mem \<Rightarrow> byte \<Rightarrow> addr \<Rightarrow> nat \<Rightarrow> (addr + addr \<times> nat) option" where
  "memrchr_words m c longword_ptr n =
     (if 8 \<le> n then do {
        let longword_ptr = longword_ptr - 8;
        longword \<leftarrow> load_long m longword_ptr;
        hit \<leftarrow> (if hole_test (longword XOR charmask c)
               then test_bytes m c longword_ptr [7, 6, 5, 4, 3, 2, 1, 0] else Some None);
        case hit of
          Some q \<Rightarrow> Some (Inl q)
        | None \<Rightarrow> memrchr_words m c longword_ptr (n - 8) }
      else Some (Inr (longword_ptr, n)))"
  by pat_completeness auto
termination by (relation "measure (\<lambda>(m, c, p, n). n)") auto

declare memrchr_words.simps [simp del]

fun memrchr_tail :: "mem \<Rightarrow> byte \<Rightarrow> addr \<Rightarrow> nat \<Rightarrow> (addr + unit) option" where
  "memrchr_tail m c char_ptr 0 = Some (Inr ())"
| "memrchr_tail m c char_ptr (Suc n) = do {
     b \<leftarrow> m (char_ptr - 1);
     if b = c then Some (Inl (char_ptr - 1)) else memrchr_tail m c (char_ptr - 1) n }"

definition memrchr :: "mem \<Rightarrow> addr \<Rightarrow> 32 word \<Rightarrow> nat \<Rightarrow> addr option" where
  "memrchr m s c_in n =
     (let c = ucast c_in in
      or_null
       (and_then (memrchr_head m c (s + n) n) (\<lambda>(char_ptr, n).
        and_then (memrchr_words m c char_ptr n) (\<lambda>(char_ptr, n).
        memrchr_tail m c char_ptr n))))"

subsection \<open>strnlen\<close>

partial_function (option) strnlen_head :: "mem \<Rightarrow> addr \<Rightarrow> (addr + addr) option" where
  "strnlen_head m char_ptr =
     (if char_ptr mod 8 = 0 then Some (Inr char_ptr)
      else do {
        b \<leftarrow> m char_ptr;
        if b = 0 then Some (Inl char_ptr) else strnlen_head m (char_ptr + 1) })"

text \<open>The value of \<open>char_ptr\<close> when the longword loop is left.\<close>

partial_function (option) strnlen_words :: "mem \<Rightarrow> addr \<Rightarrow> addr \<Rightarrow> addr \<Rightarrow> addr option" where
  "strnlen_words m end_ptr longword_ptr char_ptr =
     (if longword_ptr < end_ptr then do {
        longword \<leftarrow> load_long m longword_ptr;
        hit \<leftarrow> (if borrow_test longword
               then test_bytes m 0 longword_ptr [0, 1, 2, 3, 4, 5, 6, 7] else Some None);
        case hit of
          Some q \<Rightarrow> Some q
        | None \<Rightarrow> strnlen_words m end_ptr (longword_ptr + 8) end_ptr }
      else Some char_ptr)"

text \<open>The end of the range is a 64-bit pointer: a sum that wraps is replaced by the last address.\<close>

definition strnlen_end :: "addr \<Rightarrow> nat \<Rightarrow> addr" where
  "strnlen_end str maxlen =
     (let end_ptr = (str + maxlen) mod 2 ^ 64 in if end_ptr < str then 2 ^ 64 - 1 else end_ptr)"

definition strnlen :: "mem \<Rightarrow> addr \<Rightarrow> nat \<Rightarrow> nat option" where
  "strnlen m str maxlen =
     (if maxlen = 0 then Some 0
      else do {
        let end_ptr = strnlen_end str maxlen;
        r \<leftarrow> strnlen_head m str;
        char_ptr \<leftarrow> (case r of
            Inl q \<Rightarrow> Some q
          | Inr p \<Rightarrow> strnlen_words m end_ptr p p);
        Some ((if char_ptr > end_ptr then end_ptr else char_ptr) - str) })"

section \<open>What the searches find\<close>

fun find_first :: "addr \<Rightarrow> byte list \<Rightarrow> byte \<Rightarrow> addr option" where
  "find_first p [] c = None"
| "find_first p (b # bs) c = (if b = c then Some p else find_first (Suc p) bs c)"

fun find_last :: "addr \<Rightarrow> byte list \<Rightarrow> byte \<Rightarrow> addr option" where
  "find_last p [] c = None"
| "find_last p (b # bs) c =
     (case find_last (Suc p) bs c of Some q \<Rightarrow> Some q | None \<Rightarrow> if b = c then Some p else None)"

definition ptr_or_null :: "addr option \<Rightarrow> addr" where
  "ptr_or_null r = (case r of Some q \<Rightarrow> q | None \<Rightarrow> NULL)"

lemma find_first_append:
  "find_first p (xs @ ys) c =
     (case find_first p xs c of Some q \<Rightarrow> Some q | None \<Rightarrow> find_first (p + length xs) ys c)"
  by (induction xs arbitrary: p) (auto split: option.split)

lemma find_last_append:
  "find_last p (xs @ ys) c =
     (case find_last (p + length xs) ys c of Some q \<Rightarrow> Some q | None \<Rightarrow> find_last p xs c)"
  by (induction xs arbitrary: p) (auto split: option.splits)

lemma find_first_None: "find_first p bs c = None \<longleftrightarrow> c \<notin> set bs"
  by (induction bs arbitrary: p) auto

lemma find_first_takeWhile:
  "find_first p bs c = (if c \<in> set bs then Some (p + length (takeWhile (\<lambda>b. b \<noteq> c) bs)) else None)"
  by (induction bs arbitrary: p) auto

lemma find_first_split:
  "find_first p bs c =
     (case find_first p (take k bs) c of Some q \<Rightarrow> Some q | None \<Rightarrow> find_first (p + k) (drop k bs) c)"
  if "k \<le> length bs"
  using that find_first_append [of p "take k bs" "drop k bs" c] by (auto split: option.split)

lemma find_last_split:
  "find_last p bs c =
     (case find_last (p + k) (drop k bs) c of Some q \<Rightarrow> Some q | None \<Rightarrow> find_last p (take k bs) c)"
  if "k \<le> length bs"
  using that find_last_append [of p "take k bs" "drop k bs" c] by (auto split: option.split)

lemma length8E:
  assumes "length bs = 8"
  obtains b0 b1 b2 b3 b4 b5 b6 b7 where "bs = [b0, b1, b2, b3, b4, b5, b6, b7]"
  using assms by (auto simp: length_Suc_conv eval_nat_numeral)

lemma test_bytes_first:
  "bytes_at m p bs \<Longrightarrow> length bs = 8 \<Longrightarrow>
     test_bytes m c p [0, 1, 2, 3, 4, 5, 6, 7] = Some (find_first p bs c)"
  by (erule length8E) (simp add: eval_nat_numeral)

lemma test_bytes_last:
  "bytes_at m p bs \<Longrightarrow> length bs = 8 \<Longrightarrow>
     test_bytes m c p [7, 6, 5, 4, 3, 2, 1, 0] = Some (find_last p bs c)"
  by (erule length8E) (simp add: eval_nat_numeral)

lemma hole_first:
  "bytes_at m p bs \<Longrightarrow> length bs = 8 \<Longrightarrow>
     (if hole_test (le_word bs XOR charmask c) then test_bytes m c p [0, 1, 2, 3, 4, 5, 6, 7] else Some None) =
       Some (find_first p bs c)"
  by (subst hole.guarded_test_bytes) (auto simp only: test_bytes_first, auto)

lemma hole_last:
  "bytes_at m p bs \<Longrightarrow> length bs = 8 \<Longrightarrow>
     (if hole_test (le_word bs XOR charmask c) then test_bytes m c p [7, 6, 5, 4, 3, 2, 1, 0] else Some None) =
       Some (find_last p bs c)"
  by (subst hole.guarded_test_bytes) (auto simp only: test_bytes_last, auto)

lemma borrow_first:
  "bytes_at m p bs \<Longrightarrow> length bs = 8 \<Longrightarrow>
     (if borrow_test (le_word bs) then test_bytes m 0 p [0, 1, 2, 3, 4, 5, 6, 7] else Some None) =
       Some (find_first p bs 0)"
  by (subst borrow.guarded_test_bytes [simplified]) (auto simp only: test_bytes_first, auto)

lemmas longword_facts = load_long_bytes hole_first hole_last borrow_first

subsection \<open>memchr\<close>

lemma memchr_head_bytes:
  "bytes_at m p bs \<Longrightarrow> \<exists>j\<le>length bs. memchr_head m c p (length bs) =
     Some (case find_first p (take j bs) c of
       Some q \<Rightarrow> Inl q | None \<Rightarrow> Inr (p + j, length (drop j bs)))"
proof (induction bs arbitrary: p)
  case (Cons b bs)
  show ?case
  proof (cases "p mod 8 = 0 \<or> b = c")
    case True
    then show ?thesis
      using Cons.prems by (auto intro: exI [of _ 0] exI [of _ 1])
  next
    case False
    from Cons obtain j where "j \<le> length bs" "memchr_head m c (Suc p) (length bs) =
        Some (case find_first (Suc p) (take j bs) c of
          Some q \<Rightarrow> Inl q | None \<Rightarrow> Inr (Suc p + j, length (drop j bs)))"
      by fastforce
    then show ?thesis
      using Cons.prems False by (intro exI [of _ "Suc j"]) (simp split: option.split)
  qed
qed simp

lemma memchr_words_bytes:
  "bytes_at m p bs \<Longrightarrow> \<exists>j\<le>length bs. memchr_words m c p (length bs) =
     Some (case find_first p (take j bs) c of
       Some q \<Rightarrow> Inl q | None \<Rightarrow> Inr (p + j, length (drop j bs)))"
proof (induction "length bs" arbitrary: p bs rule: less_induct)
  case less
  show ?case
  proof (cases "8 \<le> length bs")
    case False
    then show ?thesis by (subst memchr_words.simps) (auto intro: exI [of _ 0])
  next
    case True
    have b8: "bytes_at m p (take 8 bs)" "length (take 8 bs) = 8"
      and rest: "bytes_at m (p + 8) (drop 8 bs)"
      using less.prems True by (auto simp: bytes_at_take bytes_at_drop)
    have step: "memchr_words m c p (length bs) = (case find_first p (take 8 bs) c of
        Some q \<Rightarrow> Some (Inl q) | None \<Rightarrow> memchr_words m c (p + 8) (length (drop 8 bs)))"
      using True b8 by (subst memchr_words.simps) (simp add: longword_facts del: test_bytes.simps One_nat_def split: option.split)
    show ?thesis
    proof (cases "find_first p (take 8 bs) c")
      case None
      have "length (drop 8 bs) < length bs"
        using True by (simp only: length_drop)
      from less.hyps [OF this rest] obtain j where "j \<le> length (drop 8 bs)"
        and "memchr_words m c (p + 8) (length (drop 8 bs)) =
          Some (case find_first (p + 8) (take j (drop 8 bs)) c of
            Some q \<Rightarrow> Inl q | None \<Rightarrow> Inr (p + 8 + j, length (drop j (drop 8 bs))))"
        by blast
      then show ?thesis
        using step None True find_first_append [of p "take 8 bs" "take j (drop 8 bs)" c]
        by (intro exI [of _ "8 + j"]) (auto simp: take_add split: option.split)
    next
      case (Some q)
      then show ?thesis using step True by (intro exI [of _ 8]) simp
    qed
  qed
qed

lemma memchr_tail_bytes:
  "bytes_at m p bs \<Longrightarrow> memchr_tail m c p (length bs) =
     Some (case find_first p bs c of Some q \<Rightarrow> Inl q | None \<Rightarrow> Inr ())"
  by (induction bs arbitrary: p) auto

lemma memchr_bytes [mem_simps]:
  assumes "bytes_at m s bs"
  shows "memchr m s c_in (length bs) = Some (ptr_or_null (find_first s bs (ucast c_in)))"
proof -
  let ?c = "ucast c_in :: byte"
  from memchr_head_bytes [OF assms, of ?c] obtain j where j: "j \<le> length bs"
    "memchr_head m ?c s (length bs) = Some (case find_first s (take j bs) ?c of
       Some q \<Rightarrow> Inl q | None \<Rightarrow> Inr (s + j, length (drop j bs)))"
    by blast
  let ?bs = "drop j bs"
  have b: "bytes_at m (s + j) ?bs" using assms j(1) by (rule bytes_at_drop)
  from memchr_words_bytes [OF b, of ?c] obtain i where i: "i \<le> length ?bs"
    "memchr_words m ?c (s + j) (length ?bs) = Some (case find_first (s + j) (take i ?bs) ?c of
       Some q \<Rightarrow> Inl q | None \<Rightarrow> Inr (s + j + i, length (drop i ?bs)))"
    by blast
  have "bytes_at m (s + j + i) (drop i ?bs)" using b i(1) by (rule bytes_at_drop)
  note tail = memchr_tail_bytes [OF this, of ?c]
  show ?thesis
    unfolding memchr_def Let_def j(2) find_first_split [OF j(1)] find_first_split [OF i(1)]
    using i(2) tail
    by (auto simp: or_null_def ptr_or_null_def split: option.split)
qed

subsection \<open>rawmemchr\<close>

text \<open>
  There is no length: the block ends on a longword boundary at or after the byte
  looked for.
\<close>

lemma rawmemchr_head_bytes:
  "bytes_at m p bs \<Longrightarrow> (p + length bs) mod 8 = 0 \<Longrightarrow>
     \<exists>j\<le>length bs. (find_first p (take j bs) c = None \<longrightarrow> (p + j) mod 8 = 0) \<and>
       rawmemchr_head m c p =
         Some (case find_first p (take j bs) c of Some q \<Rightarrow> Inl q | None \<Rightarrow> Inr (p + j))"
proof (induction bs arbitrary: p)
  case Nil
  then show ?case by (subst rawmemchr_head.simps) simp
next
  case (Cons b bs)
  show ?case
  proof (cases "p mod 8 = 0 \<or> b = c")
    case True
    then show ?thesis
      using Cons.prems by (subst rawmemchr_head.simps) (auto intro: exI [of _ 0] exI [of _ 1])
  next
    case False
    then have "rawmemchr_head m c p = rawmemchr_head m c (Suc p)"
      using Cons.prems by (subst rawmemchr_head.simps) simp
    moreover have "bytes_at m (Suc p) bs" "(Suc p + length bs) mod 8 = 0"
      using Cons.prems by simp_all
    from Cons.IH [OF this] obtain j where "j \<le> length bs"
      "find_first (Suc p) (take j bs) c = None \<longrightarrow> (Suc p + j) mod 8 = 0"
      "rawmemchr_head m c (Suc p) =
         Some (case find_first (Suc p) (take j bs) c of Some q \<Rightarrow> Inl q | None \<Rightarrow> Inr (Suc p + j))"
      by (elim exE conjE) (rule that)
    ultimately show ?thesis
      using False by (intro exI [of _ "Suc j"]) (auto split: option.split)
  qed
qed

lemma rawmemchr_words_bytes:
  "bytes_at m p bs \<Longrightarrow> length bs mod 8 = 0 \<Longrightarrow> c \<in> set bs \<Longrightarrow>
     rawmemchr_words m c p = find_first p bs c"
proof (induction "length bs" arbitrary: p bs rule: less_induct)
  case less
  have "8 \<le> length bs"
    using less.prems(2,3) by (cases "length bs = 0") (auto simp: mod_eq_0_iff_dvd dest: dvd_imp_le)
  then have b8: "bytes_at m p (take 8 bs)" "length (take 8 bs) = 8"
    and rest: "bytes_at m (p + 8) (drop 8 bs)" "length (drop 8 bs) mod 8 = 0"
      "length (drop 8 bs) < length bs"
    using less.prems by (simp_all add: bytes_at_take bytes_at_drop flip: le_mod_geq)
  have step: "rawmemchr_words m c p = (case find_first p (take 8 bs) c of
      Some q \<Rightarrow> Some q | None \<Rightarrow> rawmemchr_words m c (p + 8))"
    using b8 by (subst rawmemchr_words.simps)
      (simp add: longword_facts del: test_bytes.simps One_nat_def split: option.split)
  show ?case
  proof (cases "find_first p (take 8 bs) c")
    case None
    then have "c \<in> set (drop 8 bs)"
      using less.prems(3) set_append [of "take 8 bs" "drop 8 bs"] by (simp add: find_first_None)
    with less.hyps rest step None show ?thesis
      by (subst find_first_split [of 8]) (use \<open>8 \<le> length bs\<close> in auto)
  next
    case (Some q)
    with step \<open>8 \<le> length bs\<close> show ?thesis by (subst find_first_split [of 8]) auto
  qed
qed

lemma rawmemchr_bytes [mem_simps]:
  assumes "bytes_at m s bs" "(s + length bs) mod 8 = 0" "ucast c_in \<in> set bs"
  shows "rawmemchr m s c_in = find_first s bs (ucast c_in)"
proof -
  let ?c = "ucast c_in :: byte"
  from rawmemchr_head_bytes [OF assms(1,2), of ?c] obtain j where j: "j \<le> length bs"
    "find_first s (take j bs) ?c = None \<longrightarrow> (s + j) mod 8 = 0"
    "rawmemchr_head m ?c s =
       Some (case find_first s (take j bs) ?c of Some q \<Rightarrow> Inl q | None \<Rightarrow> Inr (s + j))"
    by (elim exE conjE) (rule that)
  show ?thesis
  proof (cases "find_first s (take j bs) ?c")
    case None
    have "?c \<in> set (drop j bs)"
      using None assms(3) set_append [of "take j bs" "drop j bs"] by (simp add: find_first_None)
    moreover have "length (drop j bs) mod 8 = 0"
    proof -
      have "(s + j + (length bs - j)) mod 8 = 0" using assms(2) j(1) by simp
      with None j(2) show ?thesis
        by (simp add: mod_eq_0_iff_dvd) (metis dvd_add_right_iff)
    qed
    ultimately show ?thesis
      using None j rawmemchr_words_bytes [OF bytes_at_drop [OF assms(1) j(1)], of ?c]
      by (subst find_first_split [OF j(1)]) (simp add: rawmemchr_def)
  next
    case (Some q)
    with j show ?thesis by (subst find_first_split [OF j(1)]) (simp add: rawmemchr_def)
  qed
qed

subsection \<open>memrchr\<close>

lemma memrchr_head_bytes:
  "bytes_at m p bs \<Longrightarrow> \<exists>j\<le>length bs. memrchr_head m c (p + length bs) (length bs) =
     Some (case find_last (p + j) (drop j bs) c of
       Some q \<Rightarrow> Inl q | None \<Rightarrow> Inr (p + j, j))"
proof (induction bs rule: rev_induct)
  case (snoc b bs)
  show ?case
  proof (cases "(p + Suc (length bs)) mod 8 = 0 \<or> b = c")
    case True
    then show ?thesis
      using snoc.prems by (auto intro: exI [of _ "length bs"] exI [of _ "Suc (length bs)"])
  next
    case False
    from snoc obtain j where "j \<le> length bs" "memrchr_head m c (p + length bs) (length bs) =
        Some (case find_last (p + j) (drop j bs) c of Some q \<Rightarrow> Inl q | None \<Rightarrow> Inr (p + j, j))"
      by fastforce
    then show ?thesis
      using snoc.prems False
      by (intro exI [of _ j]) (auto simp: find_last_append split: option.split)
  qed
qed simp

lemma memrchr_words_bytes:
  "bytes_at m p bs \<Longrightarrow> \<exists>j\<le>length bs. memrchr_words m c (p + length bs) (length bs) =
     Some (case find_last (p + j) (drop j bs) c of
       Some q \<Rightarrow> Inl q | None \<Rightarrow> Inr (p + j, j))"
proof (induction "length bs" arbitrary: bs rule: less_induct)
  case less
  show ?case
  proof (cases "8 \<le> length bs")
    case False
    then show ?thesis by (subst memrchr_words.simps) (auto intro: exI [of _ "length bs"])
  next
    case True
    let ?k = "length bs - 8"
    have b8: "bytes_at m (p + ?k) (drop ?k bs)" "length (drop ?k bs) = 8"
      and rest: "length (take ?k bs) < length bs" "bytes_at m p (take ?k bs)"
      using less.prems True bytes_at_drop [OF less.prems, of ?k] by (auto simp: bytes_at_take)
    have step: "memrchr_words m c (p + length bs) (length bs) =
        (case find_last (p + ?k) (drop ?k bs) c of
          Some q \<Rightarrow> Some (Inl q) | None \<Rightarrow> memrchr_words m c (p + ?k) ?k)"
      using True b8 by (subst memrchr_words.simps)
        (simp add: longword_facts Let_def del: test_bytes.simps One_nat_def split: option.split)
    from less.hyps [OF rest] obtain j where j: "j \<le> ?k"
      "memrchr_words m c (p + ?k) ?k =
        Some (case find_last (p + j) (drop j (take ?k bs)) c of Some q \<Rightarrow> Inl q | None \<Rightarrow> Inr (p + j, j))"
      by (auto simp: min_absorb2)
    have "drop j bs = drop j (take ?k bs) @ drop ?k bs"
      using j(1) by (metis append_take_drop_id diff_le_self drop_append drop_take length_take min.absorb2
          diff_is_0_eq drop_0)
    then show ?thesis
      using j step True by (intro exI [of _ j]) (auto simp: find_last_append split: option.split)
  qed
qed

lemma memrchr_tail_bytes:
  "bytes_at m p bs \<Longrightarrow> memrchr_tail m c (p + length bs) (length bs) =
     Some (case find_last p bs c of Some q \<Rightarrow> Inl q | None \<Rightarrow> Inr ())"
  by (induction bs rule: rev_induct) (auto simp: find_last_append split: option.split)

lemma memrchr_bytes [mem_simps]:
  assumes "bytes_at m s bs"
  shows "memrchr m s c_in (length bs) = Some (ptr_or_null (find_last s bs (ucast c_in)))"
proof -
  let ?c = "ucast c_in :: byte"
  from memrchr_head_bytes [OF assms, of ?c] obtain j where j: "j \<le> length bs"
    "memrchr_head m ?c (s + length bs) (length bs) = Some (case find_last (s + j) (drop j bs) ?c of
       Some q \<Rightarrow> Inl q | None \<Rightarrow> Inr (s + j, j))"
    by blast
  have lj: "length (take j bs) = j" using j(1) by simp
  from memrchr_words_bytes [OF bytes_at_take [OF assms], of j ?c] obtain i where i: "i \<le> j"
    "memrchr_words m ?c (s + j) j = Some (case find_last (s + i) (drop i (take j bs)) ?c of
       Some q \<Rightarrow> Inl q | None \<Rightarrow> Inr (s + i, i))"
    unfolding lj by blast
  have li: "length (take i (take j bs)) = i" using i(1) j(1) by simp
  note tail = memrchr_tail_bytes [OF bytes_at_take [OF bytes_at_take [OF assms]], where c = ?c,
    of i j, unfolded li]
  show ?thesis
    unfolding memrchr_def Let_def j(2) find_last_split [OF j(1)]
      find_last_split [of i "take j bs", unfolded lj, OF i(1)]
    using i(2) tail by (auto simp: or_null_def ptr_or_null_def split: option.split)
qed

subsection \<open>strnlen\<close>

lemma strnlen_head_bytes:
  "bytes_at m p bs \<Longrightarrow> (p + length bs) mod 8 = 0 \<Longrightarrow>
     \<exists>j\<le>length bs. (find_first p (take j bs) 0 = None \<longrightarrow> (p + j) mod 8 = 0) \<and>
       strnlen_head m p =
         Some (case find_first p (take j bs) 0 of Some q \<Rightarrow> Inl q | None \<Rightarrow> Inr (p + j))"
proof (induction bs arbitrary: p)
  case Nil
  then show ?case by (subst strnlen_head.simps) simp
next
  case (Cons b bs)
  show ?case
  proof (cases "p mod 8 = 0 \<or> b = 0")
    case True
    then show ?thesis
      using Cons.prems by (subst strnlen_head.simps) (auto intro: exI [of _ 0] exI [of _ 1])
  next
    case False
    then have "strnlen_head m p = strnlen_head m (Suc p)"
      using Cons.prems by (subst strnlen_head.simps) simp
    moreover have "bytes_at m (Suc p) bs" "(Suc p + length bs) mod 8 = 0"
      using Cons.prems by simp_all
    from Cons.IH [OF this] obtain j where "j \<le> length bs"
      "find_first (Suc p) (take j bs) 0 = None \<longrightarrow> (Suc p + j) mod 8 = 0"
      "strnlen_head m (Suc p) =
         Some (case find_first (Suc p) (take j bs) 0 of Some q \<Rightarrow> Inl q | None \<Rightarrow> Inr (Suc p + j))"
      by (elim exE conjE) (rule that)
    ultimately show ?thesis
      using False by (intro exI [of _ "Suc j"]) (auto split: option.split)
  qed
qed

text \<open>
  The longword loop: the first zero byte when one lies in the longwords up to
  \<open>end_ptr\<close>, else the value with which it was entered or \<open>end_ptr\<close>.
\<close>

lemma strnlen_words_bytes:
  "bytes_at m p bs \<Longrightarrow> length bs mod 8 = 0 \<Longrightarrow> e \<le> p + length bs \<or> 0 \<in> set bs \<Longrightarrow> e \<le> x \<or> p < e \<Longrightarrow>
     \<exists>q. strnlen_words m e p x = Some q \<and> min q e =
       (case find_first p bs 0 of Some z \<Rightarrow> min z e | None \<Rightarrow> e)"
proof (induction "length bs" arbitrary: p bs x rule: less_induct)
  case less
  show ?case
  proof (cases "p < e")
    case False
    have "p \<le> z" if "find_first p bs 0 = Some z" for z
      using that by (auto simp: find_first_takeWhile split: if_splits)
    with False less.prems(4) show ?thesis
      by (subst strnlen_words.simps) (fastforce split: option.split)
  next
    case True
    with less.prems(2,3) have "8 \<le> length bs"
      by (cases "length bs = 0") (auto simp: mod_eq_0_iff_dvd dest: dvd_imp_le)
    then have b8: "bytes_at m p (take 8 bs)" "length (take 8 bs) = 8"
      and rest: "length (drop 8 bs) < length bs" "bytes_at m (p + 8) (drop 8 bs)"
        "length (drop 8 bs) mod 8 = 0"
      using less.prems by (simp_all add: bytes_at_take bytes_at_drop flip: le_mod_geq)
    have step: "strnlen_words m e p x = (case find_first p (take 8 bs) 0 of
        Some q \<Rightarrow> Some q | None \<Rightarrow> strnlen_words m e (p + 8) e)"
      using b8 True by (subst strnlen_words.simps)
        (simp add: longword_facts del: test_bytes.simps One_nat_def split: option.split)
    show ?thesis
    proof (cases "find_first p (take 8 bs) 0")
      case None
      have "e \<le> p + 8 + length (drop 8 bs) \<or> 0 \<in> set (drop 8 bs)"
        using less.prems(3) None \<open>8 \<le> length bs\<close> set_append [of "take 8 bs" "drop 8 bs"]
        by (auto simp: find_first_None)
      from less.hyps [OF rest this, of e] None step show ?thesis
        by (subst find_first_split [OF \<open>8 \<le> length bs\<close>]) simp
    next
      case (Some q)
      with step show ?thesis by (subst find_first_split [OF \<open>8 \<le> length bs\<close>]) simp
    qed
  qed
qed

lemma strnlen_bytes [mem_simps]:
  assumes "bytes_at m str bs" "(str + length bs) mod 8 = 0" "str + length bs < 2 ^ 64"
    and "maxlen \<le> length bs \<or> 0 \<in> set bs" "maxlen < 2 ^ 64"
  shows "strnlen m str maxlen = Some (min maxlen (length (takeWhile (\<lambda>b. b \<noteq> 0) bs)))"
proof -
  define e where "e = strnlen_end str maxlen"
  have e: "str \<le> e" "e - str \<le> maxlen" "e = str + maxlen \<or> str + length bs \<le> e"
    using assms(3,5) unfolding e_def strnlen_end_def Let_def by (auto simp: mod_if)
  have cover: "e \<le> str + length bs \<or> 0 \<in> set bs"
    using assms(4) e by linarith
  from strnlen_head_bytes [OF assms(1,2)] obtain j where j: "j \<le> length bs"
    "find_first str (take j bs) 0 = None \<longrightarrow> (str + j) mod 8 = 0"
    "strnlen_head m str =
       Some (case find_first str (take j bs) 0 of Some q \<Rightarrow> Inl q | None \<Rightarrow> Inr (str + j))"
    by (elim exE conjE) (rule that)
  have "\<exists>q. (case find_first str (take j bs) 0 of Some q \<Rightarrow> Some q
      | None \<Rightarrow> strnlen_words m e (str + j) (str + j)) = Some q \<and>
      min q e = (case find_first str bs 0 of Some z \<Rightarrow> min z e | None \<Rightarrow> e)"
  proof (cases "find_first str (take j bs) 0")
    case None
    have "e \<le> str + j + length (drop j bs) \<or> 0 \<in> set (drop j bs)"
      using cover None j(1) set_append [of "take j bs" "drop j bs"] by (auto simp: find_first_None)
    moreover have "length (drop j bs) mod 8 = 0"
    proof -
      have "(str + j + (length bs - j)) mod 8 = 0" using assms(2) j(1) by simp
      with None j(2) show ?thesis
        by (simp add: mod_eq_0_iff_dvd) (metis dvd_add_right_iff)
    qed
    ultimately show ?thesis
      using strnlen_words_bytes [OF bytes_at_drop [OF assms(1) j(1)], of e "str + j"] None
      by (subst find_first_split [OF j(1)]) force
  next
    case (Some q)
    then show ?thesis by (subst find_first_split [OF j(1)]) simp
  qed
  then obtain q where q: "(case find_first str (take j bs) 0 of Some q \<Rightarrow> Some q
      | None \<Rightarrow> strnlen_words m e (str + j) (str + j)) = Some q"
    "min q e = (case find_first str bs 0 of Some z \<Rightarrow> min z e | None \<Rightarrow> e)"
    by (elim exE conjE) (rule that)
  have "strnlen m str maxlen = (if maxlen = 0 then Some 0 else Some (min q e - str))"
    using j(3) q(1) by (auto simp: strnlen_def Let_def min_def simp flip: e_def split: option.splits)
  moreover have "min q e - str = min maxlen (length (takeWhile (\<lambda>b. b \<noteq> 0) bs))"
  proof (cases "0 \<in> set bs")
    case True
    then have "length (takeWhile (\<lambda>b. b \<noteq> 0) bs) < length bs"
      by (induction bs) auto
    with True e show ?thesis unfolding q(2) by (auto simp: find_first_takeWhile min_def)
  next
    case False
    then have "length (takeWhile (\<lambda>b. b \<noteq> 0) bs) = length bs"
      by (induction bs) auto
    with False e assms(4) show ?thesis unfolding q(2) by (auto simp: find_first_takeWhile)
  qed
  ultimately show ?thesis by simp
qed

lemma find_last_spec:
  "case find_last p bs c of
     Some q \<Rightarrow> \<exists>i<length bs. q = p + i \<and> bs ! i = c \<and> c \<notin> set (drop (Suc i) bs)
   | None \<Rightarrow> c \<notin> set bs"
proof (induction bs arbitrary: p)
  case (Cons b bs)
  show ?case
  proof (cases "find_last (Suc p) bs c")
    case None
    then show ?thesis using Cons.IH [of "Suc p"] by auto
  next
    case (Some q)
    then obtain i where "i < length bs" "q = Suc p + i" "bs ! i = c" "c \<notin> set (drop (Suc i) bs)"
      using Cons.IH [of "Suc p"] by auto
    then show ?thesis using Some by (auto intro!: exI [of _ "Suc i"])
  qed
qed simp

section \<open>Properties\<close>

text \<open>\<open>memchr\<close>, reading longwords, returns the address of the first byte equal to \<open>c\<close>
  among the \<open>n\<close> bytes, or the null pointer when there is none. It reads no byte outside
  the block.\<close>

lemma memchr_first:
  assumes "bytes_at m s bs" "\<forall>a. a < s \<or> s + length bs \<le> a \<longrightarrow> m a = None"
  shows "memchr m s c_in (length bs) = Some (if ucast c_in \<in> set bs
    then s + length (takeWhile (\<lambda>b. b \<noteq> ucast c_in) bs) else NULL)"
  using memchr_bytes [OF assms(1)] by (simp add: find_first_takeWhile ptr_or_null_def)

theorem memchr_first_witness:
  "memchr (mem_of 5 (asc ''abcdefghijklmn'')) 5 109 (length (asc ''abcdefghijklmn'')) =
     Some (if ucast (109 :: 32 word) \<in> set (asc ''abcdefghijklmn'')
       then 5 + length (takeWhile (\<lambda>b. b \<noteq> ucast (109 :: 32 word)) (asc ''abcdefghijklmn'')) else NULL)"
  by (rule memchr_first) (simp_all add: mem_of_eval)

text \<open>\<open>memrchr\<close> returns the address of the last byte equal to \<open>c\<close> among the \<open>n\<close> bytes, or
  the null pointer; it reads nothing outside the block.\<close>

lemma memrchr_last:
  assumes "bytes_at m s bs" "\<forall>a. a < s \<or> s + length bs \<le> a \<longrightarrow> m a = None"
  shows "\<exists>r. memrchr m s c_in (length bs) = Some r \<and>
    (if ucast c_in \<in> set bs
     then \<exists>i<length bs. r = s + i \<and> bs ! i = ucast c_in \<and> ucast c_in \<notin> set (drop (Suc i) bs)
     else r = NULL)"
  using memrchr_bytes [OF assms(1), of c_in] find_last_spec [where p = s and bs = bs and c = "ucast c_in"]
  by (cases "find_last s bs (ucast c_in)") (auto simp: ptr_or_null_def dest: nth_mem)

theorem memrchr_last_witness:
  "\<exists>r. memrchr (mem_of 5 (asc ''abcdefghijklmn'')) 5 98 (length (asc ''abcdefghijklmn'')) = Some r \<and>
    (if ucast (98 :: 32 word) \<in> set (asc ''abcdefghijklmn'')
     then \<exists>i<length (asc ''abcdefghijklmn''). r = 5 + i \<and> asc ''abcdefghijklmn'' ! i = ucast (98 :: 32 word) \<and>
       ucast (98 :: 32 word) \<notin> set (drop (Suc i) (asc ''abcdefghijklmn''))
     else r = NULL)"
  by (rule memrchr_last) (simp_all add: mem_of_eval)

text \<open>\<open>strnlen\<close> returns the smaller of \<open>maxlen\<close> and the number of bytes before the first
  zero byte, also when \<open>str + maxlen\<close> wraps around the address space. It reads at most the
  longword in which the first of these two bounds lies.\<close>

lemma strnlen_min:
  assumes "bytes_at m str bs" "(str + length bs) mod 8 = 0" "str + length bs < 2 ^ 64"
    and "maxlen \<le> length bs \<or> 0 \<in> set bs" "maxlen < 2 ^ 64"
  shows "strnlen m str maxlen = Some (min maxlen (length (takeWhile (\<lambda>b. b \<noteq> 0) bs)))"
  using assms by (rule strnlen_bytes)

theorem strnlen_min_witness:
  "strnlen (mem_of 5 (asc ''abcdefg'' @ [0, 1, 1, 1])) 5 (2 ^ 64 - 2) =
     Some (min (2 ^ 64 - 2) (length (takeWhile (\<lambda>b. b \<noteq> 0) (asc ''abcdefg'' @ [0, 1, 1, 1]))))"
  by (rule strnlen_min) (simp_all add: mem_of_eval)

end
