(* ===== verification/Str_Token.thy ===== *)
theory Str_Token
  imports Str_Basic Word_Scan "HOL-Library.Sublist"
begin

text \<open>
  The tokenizers and the substring search of \<open>libc/string\<close>: \<open>strtok_m\<close> and
  \<open>strtok_c\<close>, which report each token to a callback; \<open>strtok_r\<close> and \<open>strtok\<close>, which
  cut the string in place; and \<open>strstr\<close> with its control flow of gotos. The tokens are
  specified by \<open>tokens\<close> on byte lists, an occurrence by \<open>find_sub\<close>.
\<close>

section \<open>Tokens of a list\<close>

fun split_groups :: "('a \<Rightarrow> bool) \<Rightarrow> ('a \<Rightarrow> bool) \<Rightarrow> bool \<Rightarrow> 'a list \<Rightarrow> 'a list \<Rightarrow> 'a list list" where
  "split_groups grp sep quoted cur [] = (if cur = [] then [] else [cur])"
| "split_groups grp sep quoted cur (c # s) =
     (if grp c then (if cur = [] then [] else [cur]) @ split_groups grp sep (\<not> quoted) [] s
      else if \<not> quoted \<and> sep c then (if cur = [] then [] else [cur]) @ split_groups grp sep quoted [] s
      else split_groups grp sep quoted (cur @ [c]) s)"

text \<open>The maximal runs of elements that are not separators.\<close>

function tokens :: "('a \<Rightarrow> bool) \<Rightarrow> 'a list \<Rightarrow> 'a list list" where
  "tokens sep s = (case dropWhile sep s of
      [] \<Rightarrow> []
    | t \<Rightarrow> takeWhile (\<lambda>c. \<not> sep c) t # tokens sep (dropWhile (\<lambda>c. \<not> sep c) t))"
  by pat_completeness auto
termination
proof (relation "measure (\<lambda>(sep, s). length s)", goal_cases)
  case (2 sep s c t)
  then have "\<not> sep c" using dropWhile_eq_Cons_conv [of sep s c t] by simp
  then show ?case
    using 2 length_dropWhile_le [of sep s] length_dropWhile_le [of "\<lambda>c. \<not> sep c" t] by simp
qed simp

declare tokens.simps [simp del]

lemma tokens_Nil [simp]: "tokens sep [] = []"
  by (simp add: tokens.simps)

lemma tokens_sep [simp]: "sep c \<Longrightarrow> tokens sep (c # s) = tokens sep s"
  by (subst (1 2) tokens.simps) simp

lemma tokens_run:
  "t \<noteq> [] \<Longrightarrow> \<forall>c\<in>set t. \<not> sep c \<Longrightarrow> s = [] \<or> sep (hd s) \<Longrightarrow> tokens sep (t @ s) = t # tokens sep s"
  by (cases t; cases s)
    (auto simp: tokens.simps [of sep "_ # _"] takeWhile_append dropWhile_append
      iffD2 [OF dropWhile_eq_Nil_conv])

lemma split_groups_tokens:
  "\<forall>c\<in>set cur. \<not> sep c \<Longrightarrow> split_groups (\<lambda>_. False) sep False cur s = tokens sep (cur @ s)"
proof (induction s arbitrary: cur)
  case Nil
  then show ?case using tokens_run [of cur sep "[]"] by auto
next
  case (Cons c s)
  then show ?case
    using tokens_run [of cur sep "c # s"] by (cases "cur = []") auto
qed

section \<open>The callback tokenizers\<close>

text \<open>
  A call of the copy callback: the token's number, the address of its first byte and its
  length. The tokenizers return the calls in order and the count they store in
  \<open>*iListSize\<close>. The indices are \<open>int\<close>s in the code, so the strings are shorter than
  \<open>2\<close> to the 31.
\<close>

record tok_call =
  tc_index :: nat
  tc_src :: addr
  tc_len :: nat

definition tok_emit :: "addr \<Rightarrow> nat \<Rightarrow> nat \<Rightarrow> nat \<times> tok_call list \<Rightarrow> nat \<times> tok_call list" where
  "tok_emit src iStartIndex index = (\<lambda>(iTokenIndex, calls).
     if index - iStartIndex > 0
     then (iTokenIndex + 1,
           calls @ [\<lparr>tc_index = iTokenIndex, tc_src = src + iStartIndex, tc_len = index - iStartIndex\<rparr>])
     else (iTokenIndex, calls))"

partial_function (option) strtok_m_loop ::
    "mem \<Rightarrow> addr \<Rightarrow> byte \<Rightarrow> nat \<Rightarrow> nat \<Rightarrow> nat \<times> tok_call list \<Rightarrow> (nat \<times> tok_call list) option" where
  "strtok_m_loop m src chToken index iStartIndex out = do {
     c \<leftarrow> m (src + index);
     if c = 0 then Some (tok_emit src iStartIndex index out)
     else if c = chToken
     then strtok_m_loop m src chToken (index + 1) (index + 1) (tok_emit src iStartIndex index out)
     else strtok_m_loop m src chToken (index + 1) iStartIndex out }"

definition strtok_m :: "mem \<Rightarrow> addr \<Rightarrow> byte \<Rightarrow> (nat \<times> tok_call list) option" where
  "strtok_m m src chToken = strtok_m_loop m src chToken 0 0 (0, [])"

partial_function (option) strtok_c_loop ::
    "mem \<Rightarrow> addr \<Rightarrow> (byte \<Rightarrow> bool) \<Rightarrow> (byte \<Rightarrow> bool) \<Rightarrow> nat \<Rightarrow> nat \<Rightarrow> bool \<Rightarrow> nat \<times> tok_call list \<Rightarrow>
     (nat \<times> tok_call list) option" where
  "strtok_c_loop m src tc_tok tc_group index iStartIndex bGroupStarted out = do {
     c \<leftarrow> m (src + index);
     if c = 0 then Some (tok_emit src iStartIndex index out)
     else if tc_group c
     then strtok_c_loop m src tc_tok tc_group (index + 1) (index + 1)
            (if \<not> bGroupStarted then True else False) (tok_emit src iStartIndex index out)
     else if bGroupStarted
     then strtok_c_loop m src tc_tok tc_group (index + 1) iStartIndex bGroupStarted out
     else if tc_tok c
     then strtok_c_loop m src tc_tok tc_group (index + 1) (index + 1) bGroupStarted
            (tok_emit src iStartIndex index out)
     else strtok_c_loop m src tc_tok tc_group (index + 1) iStartIndex bGroupStarted out }"

definition strtok_c ::
    "mem \<Rightarrow> addr \<Rightarrow> (byte \<Rightarrow> bool) \<Rightarrow> (byte \<Rightarrow> bool) \<Rightarrow> (nat \<times> tok_call list) option" where
  "strtok_c m src tc_tok tc_group = strtok_c_loop m src tc_tok tc_group 0 0 False (0, [])"

text \<open>The calls that report the tokens \<open>ts\<close> found in memory, numbered from \<open>k\<close>.\<close>

fun reports :: "mem \<Rightarrow> nat \<Rightarrow> tok_call list \<Rightarrow> byte list list \<Rightarrow> bool" where
  "reports m k [] [] = True"
| "reports m k (call # calls) (t # ts) =
     (tc_index call = k \<and> tc_len call = length t \<and> bytes_at m (tc_src call) t \<and> reports m (Suc k) calls ts)"
| "reports m k _ _ = False"

lemma reports_append:
  "length xs = length ts \<Longrightarrow>
     reports m k (xs @ ys) (ts @ us) \<longleftrightarrow> reports m k xs ts \<and> reports m (k + length xs) ys us"
  by (induction xs ts arbitrary: k rule: list_induct2) auto

lemma reports_length: "reports m k xs ts \<Longrightarrow> length xs = length ts"
  by (induction m k xs ts rule: reports.induct) auto

lemma tok_emit_reports:
  assumes "bytes_at m (src + st) cur" "reports m 0 calls ts"
  defines "r \<equiv> tok_emit src st (st + length cur) (length calls, calls)"
  shows "fst r = length (snd r)" "reports m 0 (snd r) (ts @ (if cur = [] then [] else [cur]))"
  using assms reports_length [OF assms(2)] by (auto simp: tok_emit_def reports_append)

lemma strtok_c_loop_cstr:
  "cstr m (src + i) s \<Longrightarrow> bytes_at m (src + st) cur \<Longrightarrow> i = st + length cur \<Longrightarrow> reports m 0 calls ts \<Longrightarrow>
     \<exists>calls'. strtok_c_loop m src tk grp i st q (length calls, calls) = Some (length calls', calls') \<and>
       reports m 0 calls' (ts @ split_groups grp tk q cur s)"
proof (induction s arbitrary: i st q calls ts cur)
  case Nil
  then show ?case
    using tok_emit_reports [OF Nil.prems(2,4)] by (subst strtok_c_loop.simps) (auto simp: prod_eq_iff)
next
  case (Cons c s)
  have c: "m (src + i) = Some c" "c \<noteq> 0" "cstr m (src + Suc i) s"
    using Cons.prems(1) by simp_all
  have out: "tok_emit src st i (length calls, calls) = (length calls', calls')
      \<and> reports m 0 calls' (ts @ (if cur = [] then [] else [cur]))"
    if "calls' = snd (tok_emit src st i (length calls, calls))" for calls'
    using tok_emit_reports [OF Cons.prems(2,4)] Cons.prems(3) that by (simp add: prod_eq_iff)
  define calls' where "calls' = snd (tok_emit src st i (length calls, calls))"
  note new = Cons.IH [OF c(3), of "Suc i" "[]" calls' "ts @ (if cur = [] then [] else [cur])"]
  have keep: "bytes_at m (src + st) (cur @ [c])" "Suc i = st + length (cur @ [c])"
    using Cons.prems(2,3) c(1) by (simp_all add: add.assoc)
  note cont = Cons.IH [OF c(3) keep Cons.prems(4)]
  show ?case
    using new [of "\<not> q"] new [of q] cont [of q] out [OF calls'_def] c
    by (subst strtok_c_loop.simps) (auto split: if_splits)
qed

lemma strtok_c_cstr:
  "cstr m src s \<Longrightarrow> \<exists>calls. strtok_c m src tk grp = Some (length calls, calls) \<and>
     reports m 0 calls (split_groups grp tk False [] s)"
  using strtok_c_loop_cstr [of m src 0 s 0 "[]" "[]" "[]" tk grp False] by (simp add: strtok_c_def)

text \<open>The one-character tokenizer is the general one without groups.\<close>

lemma strtok_m_loop_eq:
  "cstr m (src + i) s \<Longrightarrow>
     strtok_m_loop m src ch i st out = strtok_c_loop m src (\<lambda>c. c = ch) (\<lambda>_. False) i st False out"
  by (induction s arbitrary: i st out)
    (subst strtok_m_loop.simps, subst strtok_c_loop.simps, simp)+

lemma strtok_m_eq_c: "cstr m src s \<Longrightarrow> strtok_m m src ch = strtok_c m src (\<lambda>c. c = ch) (\<lambda>_. False)"
  by (simp add: strtok_m_def strtok_c_def strtok_m_loop_eq)

lemma strtok_m_cstr:
  "cstr m src s \<Longrightarrow> \<exists>calls. strtok_m m src ch = Some (length calls, calls) \<and>
     reports m 0 calls (tokens (\<lambda>c. c = ch) s)"
  using strtok_c_cstr [of m src s "\<lambda>c. c = ch" "\<lambda>_. False"]
  by (simp add: strtok_m_eq_c split_groups_tokens)

section \<open>strtok\<close>

definition strtok_r :: "mem \<Rightarrow> addr \<Rightarrow> addr \<Rightarrow> addr \<Rightarrow> (mem \<times> addr \<times> addr) option" where
  "strtok_r m s delim save_ptr =
     (let s = (if s = NULL then save_ptr else s) in do {
        k \<leftarrow> strspn m s delim;
        let s = s + k;
        c \<leftarrow> m s;
        if c = 0 then Some (m, NULL, s)
        else do {
          let token = s;
          s \<leftarrow> strpbrk m token delim;
          if s = NULL then do {
            e \<leftarrow> rawmemchr m token 0;
            Some (m, token, e) }
          else do {
            m \<leftarrow> store m s 0;
            Some (m, token, s + 1) } } })"

text \<open>\<open>strtok\<close> keeps the pointer in a static variable, threaded here as \<open>next_start\<close>.\<close>

definition strtok :: "mem \<Rightarrow> addr \<Rightarrow> addr \<Rightarrow> addr \<Rightarrow> (mem \<times> addr \<times> addr) option" where
  "strtok m next_start s1 s2 = strtok_r m s1 s2 next_start"

section \<open>strstr\<close>

text \<open>\<open>do if (!(a = *++haystack)) goto ret0; while (a != b);\<close>\<close>

partial_function (option) strstr_first :: "mem \<Rightarrow> addr \<Rightarrow> byte \<Rightarrow> addr option option" where
  "strstr_first m haystack b = do {
     a \<leftarrow> m (haystack + 1);
     if a = 0 then Some None
     else if a \<noteq> b then strstr_first m (haystack + 1) b
     else Some (Some (haystack + 1)) }"

text \<open>
  \<open>for (; a != b; a = *++haystack) \<dots>\<close>: the haystack pointer at a byte \<open>b\<close>, \<open>None\<close>
  for \<open>goto ret0\<close>.
\<close>

partial_function (option) strstr_for :: "mem \<Rightarrow> byte \<Rightarrow> addr \<Rightarrow> byte \<Rightarrow> addr option option" where
  "strstr_for m b haystack a =
     (if a = b then Some (Some haystack)
      else if a = 0 then Some None
      else do {
        a \<leftarrow> m (haystack + 1);
        if a = b then Some (Some (haystack + 1))
        else if a = 0 then Some None
        else do {
          a \<leftarrow> m (haystack + 2);
          strstr_for m b (haystack + 2) a } })"

text \<open>\<open>do for \<dots> while ((a = *++haystack) != c);\<close>\<close>

partial_function (option) strstr_do :: "mem \<Rightarrow> byte \<Rightarrow> byte \<Rightarrow> addr \<Rightarrow> byte \<Rightarrow> addr option option" where
  "strstr_do m b c haystack a = do {
     r \<leftarrow> strstr_for m b haystack a;
     case r of
       None \<Rightarrow> Some None
     | Some haystack \<Rightarrow> do {
         a \<leftarrow> m (haystack + 1);
         if a \<noteq> c then strstr_do m b c (haystack + 1) a else Some (Some (haystack + 1)) } }"

text \<open>The comparison after \<open>crest\<close>, with \<open>*rhaystack == a\<close>: does the needle end here?\<close>

partial_function (option) strstr_rest :: "mem \<Rightarrow> addr \<Rightarrow> addr \<Rightarrow> byte \<Rightarrow> bool option" where
  "strstr_rest m rhaystack needle a =
     (if a = 0 then Some True
      else do {
        x \<leftarrow> m (rhaystack + 1);
        a \<leftarrow> m (needle + 1);
        if x \<noteq> a then Some (a = 0)
        else if a = 0 then Some True
        else do {
          x \<leftarrow> m (rhaystack + 2);
          a \<leftarrow> m (needle + 2);
          if x = a then strstr_rest m (rhaystack + 2) (needle + 2) a else Some (a = 0) } })"

text \<open>The outer loop, at \<open>crest\<close>: \<open>*haystack == c\<close> and the byte before it is \<open>b\<close>.\<close>

partial_function (option) strstr_crest :: "mem \<Rightarrow> byte \<Rightarrow> byte \<Rightarrow> addr \<Rightarrow> addr \<Rightarrow> addr option" where
  "strstr_crest m b c needle haystack = do {
     x \<leftarrow> m (haystack + 1);
     a \<leftarrow> m needle;
     found \<leftarrow> (if x = a then strstr_rest m (haystack + 1) needle a else Some (a = 0));
     let haystack = haystack - 1;
     if found then Some haystack
     else do {
       a \<leftarrow> m (haystack + 1);
       r \<leftarrow> strstr_do m b c (haystack + 1) a;
       case r of None \<Rightarrow> Some NULL | Some haystack \<Rightarrow> strstr_crest m b c needle haystack } }"

definition strstr :: "mem \<Rightarrow> addr \<Rightarrow> addr \<Rightarrow> addr option" where
  "strstr m haystack needle = do {
     b \<leftarrow> m needle;
     if b = 0 then Some haystack
     else do {
       r \<leftarrow> strstr_first m (haystack - 1) b;
       case r of
         None \<Rightarrow> Some NULL
       | Some haystack \<Rightarrow> do {
           c \<leftarrow> m (needle + 1);
           if c = 0 then Some haystack
           else do {
             a \<leftarrow> m (haystack + 1);
             r \<leftarrow> (if a = c then Some (Some (haystack + 1)) else strstr_do m b c (haystack + 1) a);
             case r of None \<Rightarrow> Some NULL | Some haystack \<Rightarrow> strstr_crest m b c (needle + 2) haystack } } } }"

section \<open>What strtok does\<close>

text \<open>The longword that holds address \<open>e\<close> is mapped from \<open>e\<close> on.\<close>

definition long_mapped :: "mem \<Rightarrow> addr \<Rightarrow> bool" where
  "long_mapped m e \<longleftrightarrow> mapped m e (8 - e mod 8)"

lemma long_mapped_upd [simp]: "long_mapped m e \<Longrightarrow> long_mapped (m(a \<mapsto> v)) e"
  by (simp add: long_mapped_def)

lemma rawmemchr_cstr:
  assumes "cstr m t xs" "long_mapped m (t + length xs)"
  shows "rawmemchr m t 0 = Some (t + length xs)"
proof -
  let ?e = "t + length xs"
  obtain bs where bs: "length bs = 8 - ?e mod 8" "bytes_at m ?e bs"
    using assms(2) mapped_bytes_at unfolding long_mapped_def by blast
  then obtain b bs' where bs': "bs = b # bs'" by (cases bs) auto
  have b: "b = 0" using bs(2) bs' cstr_end [OF assms(1)] by simp
  have "bytes_at m t (xs @ bs)" using bs(2) cstr_bytes [OF assms(1)] by simp
  moreover have "(t + length (xs @ bs)) mod 8 = 0" using bs(1) by simp presburger
  moreover have "0 \<notin> set xs" using assms(1) by (simp add: cstr_bytes_at)
  ultimately show ?thesis
    using rawmemchr_bytes [of m t "xs @ bs" 0] bs' b
    by (simp add: find_first_takeWhile takeWhile_append)
qed

lemma strtok_r_end:
  assumes "cstr m p xs" "cstr m delim ds" "p = (if s = NULL then save else s)" "set xs \<subseteq> set ds"
  shows "strtok_r m s delim save = Some (m, NULL, p + length xs)"
proof -
  have "length (takeWhile (\<lambda>c. c \<in> set ds) xs) = length xs" using assms(4) by (induction xs) auto
  then show ?thesis
    unfolding strtok_r_def Let_def assms(3) [symmetric]
    using cstr_end [OF assms(1)] by (simp add: strspn_cstr [OF assms(1,2)])
qed

text \<open>
  The string is \<open>pre @ t @ r\<close>: delimiters, the token, and the rest, empty or starting
  with a delimiter.
\<close>

lemma strtok_r_token:
  assumes "cstr m p (pre @ t @ r)" "cstr m delim ds" "p = (if s = NULL then save else s)"
    and "set pre \<subseteq> set ds" "t \<noteq> []" "set t \<inter> set ds = {}" "r = [] \<or> hd r \<in> set ds"
    and "p \<noteq> NULL" "long_mapped m (p + length (pre @ t @ r))"
  defines "q \<equiv> p + length pre"
  shows "strtok_r m s delim save =
    (if r = [] then Some (m, q, q + length t) else Some (m(q + length t \<mapsto> 0), q, q + length t + 1))"
proof -
  have span: "takeWhile (\<lambda>c. c \<in> set ds) (pre @ t @ r) = pre"
    using assms(4,5,6) by (cases t) (auto simp: takeWhile_append2 subset_eq)
  have tok: "cstr m q (t @ r)"
    using assms(1) by (simp add: q_def cstr_append)
  have c: "\<exists>c. m q = Some c \<and> c \<noteq> 0"
    using tok assms(5) by (cases t) auto
  have brk: "strpbrk m q delim = Some (if r = [] then NULL else q + length t)"
  proof -
    have "takeWhile (\<lambda>c. c \<notin> set ds) (t @ r) = t"
      using assms(6,7) by (cases r) (auto simp: takeWhile_append2 disjoint_iff)
    then show ?thesis
      using strpbrk_cstr [OF assms(2) tok] assms(6,7) by (cases r) auto
  qed
  have e: "\<exists>v. m (q + length t) = Some v"
    using tok cstr_head [of m "q + length t" r] by (simp add: cstr_append)
  have nul: "r = [] \<Longrightarrow> rawmemchr m q 0 = Some (q + length t)"
    using rawmemchr_cstr [OF tok] assms(9) by (simp add: q_def add.assoc)
  have "q + length t \<noteq> NULL" using assms(8) by (simp add: q_def)
  then show ?thesis
    unfolding strtok_r_def Let_def assms(3) [symmetric] strspn_cstr [OF assms(1,2)] span
    using c e nul brk by (auto simp: store_mapped simp flip: q_def)
qed

text \<open>The rest of a \<open>strtok\<close> loop: calls with a null string until one returns null.\<close>

partial_function (option) strtok_rest :: "mem \<Rightarrow> addr \<Rightarrow> addr \<Rightarrow> (mem \<times> addr list) option" where
  "strtok_rest m delim save = do {
     (m, t, save) \<leftarrow> strtok_r m NULL delim save;
     if t = NULL then Some (m, [])
     else do {
       (m, ts) \<leftarrow> strtok_rest m delim save;
       Some (m, t # ts) } }"

lemma strtok_rest_tokens:
  assumes "cstr m p xs" "cstr m delim ds" "p \<noteq> NULL" "long_mapped m (p + length xs)"
    and "disjoint p (length xs) delim (Suc (length ds))"
  shows "\<exists>m' ts. strtok_rest m delim p = Some (m', ts) \<and>
    list_all2 (cstr m') ts (tokens (\<lambda>c. c \<in> set ds) xs) \<and> (\<forall>a. a < p \<or> p + length xs \<le> a \<longrightarrow> m' a = m a)"
  using assms
proof (induction "length xs" arbitrary: m p xs rule: less_induct)
  case less
  let ?sep = "\<lambda>c. c \<in> set ds"
  define pre t r where "pre = takeWhile ?sep xs" and "t = takeWhile (\<lambda>c. c \<notin> set ds) (dropWhile ?sep xs)"
    and "r = dropWhile (\<lambda>c. c \<notin> set ds) (dropWhile ?sep xs)"
  have xs: "xs = pre @ t @ r" by (simp add: pre_def t_def r_def)
  have pre: "set pre \<subseteq> set ds" and t: "set t \<inter> set ds = {}" and r: "r = [] \<or> hd r \<in> set ds"
    using hd_dropWhile [of "\<lambda>c. c \<notin> set ds" "dropWhile ?sep xs"]
    by (auto simp: pre_def t_def r_def dest: set_takeWhileD)
  have tk: "tokens ?sep xs = tokens ?sep (t @ r)"
    unfolding xs using pre by (induction pre) auto
  show ?case
  proof (cases "t = []")
    case True
    then have "dropWhile ?sep xs = []"
      using hd_dropWhile [of ?sep xs] by (cases "dropWhile ?sep xs") (auto simp: t_def)
    note nil = this
    have "set xs \<subseteq> set ds" using nil by auto
    moreover have "tokens ?sep xs = []"
      using tokens.simps [of ?sep xs] unfolding nil by simp
    ultimately have "set xs \<subseteq> set ds" "tokens ?sep xs = []" .
    then show ?thesis
      using strtok_r_end [OF less.prems(1,2), of NULL p] by (subst strtok_rest.simps) simp
  next
    case False
    let ?q = "p + length pre" and ?e = "p + length pre + length t"
    note step = strtok_r_token [of m p pre t r delim ds NULL p, OF _ less.prems(2) _ pre False t r less.prems(3),
        folded xs, OF less.prems(1) _ less.prems(4), simplified]
    have tc: "bytes_at m ?q t" "0 \<notin> set t" "cstr m ?e r"
      using less.prems(1) by (auto simp: xs cstr_append)
    show ?thesis
    proof (cases r)
      case Nil
      have "strtok_rest m delim ?e = Some (m, [])"
        using strtok_r_end [of m ?e "[]" delim ds NULL ?e] tc(3) less.prems(2) Nil
        by (subst strtok_rest.simps) simp
      moreover have "cstr m ?q t" using tc Nil by (simp add: cstr_bytes_at)
      ultimately show ?thesis
        using step Nil less.prems(3) tk tokens_run [OF False, of ?sep "[]"] t
        by (subst strtok_rest.simps) (auto simp: disjoint_iff)
    next
      case (Cons d r')
      let ?m = "m(?e \<mapsto> 0)"
      have len: "length xs = length pre + length t + Suc (length r')" by (simp add: xs Cons)
      have "cstr ?m (?e + 1) r'" using tc(3) Cons by (simp add: cstr_upd_other)
      moreover have "cstr ?m delim ds"
        using less.prems(2,5) len by (subst cstr_upd_other) (auto simp: disjoint_def)
      moreover have "long_mapped ?m (?e + 1 + length r')"
        using less.prems(4) len by (simp add: ac_simps)
      moreover have "disjoint (?e + 1) (length r') delim (Suc (length ds))"
        using less.prems(5) len by (auto simp: disjoint_def)
      ultimately obtain m' ts where IH: "strtok_rest ?m delim (?e + 1) = Some (m', ts)"
        "list_all2 (cstr m') ts (tokens ?sep r')"
        "\<forall>a. a < ?e + 1 \<or> ?e + 1 + length r' \<le> a \<longrightarrow> m' a = ?m a"
        using less.hyps [of r' ?m "?e + 1"] len by auto
      have "cstr ?m ?q t"
        using tc by (auto simp: cstr_bytes_at bytes_at_upd_other)
      then have "cstr m' ?q t"
        using IH(3) by (elim cstr_cong) auto
      moreover have "tokens ?sep xs = t # tokens ?sep r'"
        using tk tokens_run [OF False, of ?sep r] t r Cons by (auto simp: disjoint_iff)
      moreover have "\<forall>a. a < p \<or> p + length xs \<le> a \<longrightarrow> m' a = m a"
        using IH(3) len by auto
      ultimately show ?thesis
        using step Cons less.prems(3) IH(1,2) by (subst strtok_rest.simps) auto
    qed
  qed
qed

section \<open>What strstr finds\<close>

fun find_sub :: "addr \<Rightarrow> byte list \<Rightarrow> byte list \<Rightarrow> addr option" where
  "find_sub p ys [] = (if ys = [] then Some p else None)"
| "find_sub p ys (x # xs) = (if prefix ys (x # xs) then Some p else find_sub (Suc p) ys xs)"

lemma find_sub_Some:
  "find_sub p ys xs = Some q \<Longrightarrow>
     \<exists>i. q = p + i \<and> i \<le> length xs \<and> prefix ys (drop i xs) \<and> (\<forall>j<i. \<not> prefix ys (drop j xs))"
proof (induction xs arbitrary: p)
  case (Cons x xs)
  show ?case
  proof (cases "prefix ys (x # xs)")
    case True
    then show ?thesis using Cons.prems by (intro exI [of _ 0]) simp
  next
    case False
    then have "find_sub (Suc p) ys xs = Some q" using Cons.prems by simp
    from Cons.IH [OF this] obtain i where "q = Suc p + i" "i \<le> length xs" "prefix ys (drop i xs)"
      "\<forall>j<i. \<not> prefix ys (drop j xs)"
      by (elim exE conjE) (rule that)
    then show ?thesis
      using False by (intro exI [of _ "Suc i"]) (auto simp: less_Suc_eq_0_disj)
  qed
qed (auto split: if_splits)

lemma find_sub_None: "find_sub p ys xs = None \<Longrightarrow> i \<le> length xs \<Longrightarrow> \<not> prefix ys (drop i xs)"
proof (induction xs arbitrary: p i)
  case (Cons x xs)
  then show ?case by (cases i) (auto split: if_splits)
qed (auto split: if_splits)

lemma Cons_prefix_iff: "prefix (c # ys) zs \<longleftrightarrow> (\<exists>zs'. zs = c # zs' \<and> prefix ys zs')"
  by (cases zs) auto

text \<open>The byte at the start of a C string; 0 when it is empty.\<close>

definition hd0 :: "byte list \<Rightarrow> byte" where
  "hd0 zs = (case zs of [] \<Rightarrow> 0 | z # _ \<Rightarrow> z)"

lemma hd0_simps [simp]: "hd0 [] = 0" "hd0 (z # zs) = z"
  by (simp_all add: hd0_def)

lemma cstr_hd0: "cstr m p zs \<Longrightarrow> m p = Some (hd0 zs)"
  by (cases zs) auto

lemma cstr_hd0_zero: "cstr m p zs \<Longrightarrow> hd0 zs = 0 \<longleftrightarrow> zs = []"
  by (cases zs) auto

lemma strstr_first_cstr:
  "cstr m (Suc h) zs \<Longrightarrow> b \<noteq> 0 \<Longrightarrow> strstr_first m h b = Some (find_first (Suc h) zs b)"
proof (induction zs arbitrary: h)
  case Nil
  then show ?case by (subst strstr_first.simps) simp
next
  case (Cons z zs)
  then show ?case by (subst strstr_first.simps) simp
qed

lemma strstr_for_cstr:
  "cstr m h zs \<Longrightarrow> b \<noteq> 0 \<Longrightarrow> strstr_for m b h (hd0 zs) = Some (find_first h zs b)"
proof (induction "length zs" arbitrary: h zs rule: less_induct)
  case less
  show ?case
  proof (cases zs)
    case Nil
    then show ?thesis using less.prems by (subst strstr_for.simps) simp
  next
    case (Cons z zs1)
    show ?thesis
    proof (cases zs1)
      case Nil
      then show ?thesis using less.prems Cons by (subst strstr_for.simps) simp
    next
      case (Cons z1 zs2)
      have "m (Suc (Suc h)) = Some (hd0 zs2)"
        using less.prems(1) \<open>zs = z # zs1\<close> Cons cstr_hd0 [of m "Suc (Suc h)" zs2] by simp
      then show ?thesis
        using less.prems \<open>zs = z # zs1\<close> Cons less.hyps [of zs2 "Suc (Suc h)"]
        by (subst strstr_for.simps) simp
    qed
  qed
qed

lemma find_sub_skip:
  "find_first h zs b = Some g \<Longrightarrow>
     \<exists>ws. g = h + (length zs - length ws) \<and> length ws \<le> length zs \<and> hd0 ws = b \<and> ws \<noteq> [] \<and>
       drop (length zs - length ws) zs = ws \<and> find_sub h (b # ys) zs = find_sub g (b # ys) ws"
proof (induction zs arbitrary: h)
  case (Cons z zs)
  show ?case
  proof (cases "z = b")
    case True
    then show ?thesis using Cons.prems by (intro exI [of _ "z # zs"]) simp
  next
    case False
    with Cons obtain ws where "g = Suc h + (length zs - length ws)" "length ws \<le> length zs" "hd0 ws = b"
      "ws \<noteq> []" "drop (length zs - length ws) zs = ws"
      "find_sub (Suc h) (b # ys) zs = find_sub g (b # ys) ws"
      by fastforce
    then show ?thesis using False by (intro exI [of _ ws]) (auto simp: Suc_diff_le)
  qed
qed simp

lemma find_sub_miss: "find_first h zs b = None \<Longrightarrow> find_sub h (b # ys) zs = None"
  by (induction zs arbitrary: h) (auto split: if_splits)

lemma strstr_do_cstr:
  "cstr m h zs \<Longrightarrow> b \<noteq> 0 \<Longrightarrow> c \<noteq> 0 \<Longrightarrow>
     strstr_do m b c h (hd0 zs) = Some (map_option Suc (find_sub h [b, c] zs))"
proof (induction "length zs" arbitrary: h zs rule: less_induct)
  case less
  note loop = strstr_for_cstr [OF less.prems(1,2)]
  show ?case
  proof (cases "find_first h zs b")
    case None
    then show ?thesis
      using loop by (subst strstr_do.simps) (simp add: find_sub_miss)
  next
    case (Some g)
    then obtain ws where ws: "g = h + (length zs - length ws)" "length ws \<le> length zs" "hd0 ws = b" "ws \<noteq> []"
      "drop (length zs - length ws) zs = ws" "find_sub h [b, c] zs = find_sub g [b, c] ws"
      using find_sub_skip [of h zs b g "[c]"] by blast
    then obtain us where us: "ws = b # us" by (cases ws) auto
    have "cstr m g ws" using cstr_drop [OF less.prems(1), of "length zs - length ws"] ws by simp
    then have c: "cstr m (Suc g) us" "m (Suc g) = Some (hd0 us)"
      using us cstr_hd0 [of m "Suc g" us] by simp_all
    have hit: "prefix [b, c] ws \<longleftrightarrow> hd0 us = c"
      using us less.prems(3) by (cases us) auto
    show ?thesis
      using loop Some ws c us hit less.hyps [of us "Suc g"] less.prems(2,3)
      by (subst strstr_do.simps) auto
  qed
qed

text \<open>The comparison decides whether the rest of the needle is a prefix of what follows.\<close>

lemma strstr_rest_cstr:
  "cstr m rh zs \<Longrightarrow> cstr m nd ys \<Longrightarrow> hd0 zs = hd0 ys \<Longrightarrow>
     strstr_rest m rh nd (hd0 ys) = Some (prefix ys zs)"
proof (induction "length ys" arbitrary: rh nd zs ys rule: less_induct)
  case less
  show ?case
  proof (cases ys)
    case Nil
    then show ?thesis by (subst strstr_rest.simps) simp
  next
    case (Cons y ys1)
    then have y: "y \<noteq> 0" "cstr m (Suc nd) ys1" using less.prems(2) by simp_all
    then obtain zs1 where zs: "zs = y # zs1" "cstr m (Suc rh) zs1"
      using less.prems(1,3) Cons by (cases zs) auto
    have heads: "m (Suc rh) = Some (hd0 zs1)" "m (Suc nd) = Some (hd0 ys1)"
      using y zs cstr_hd0 by auto
    show ?thesis
    proof (cases "hd0 zs1 = hd0 ys1 \<and> ys1 \<noteq> []")
      case False
      then show ?thesis
        using y zs heads Cons cstr_hd0_zero [OF y(2)]
        by (subst strstr_rest.simps; cases zs1; cases ys1) auto
    next
      case True
      then obtain y1 ys2 zs2 where two: "ys1 = y1 # ys2" "zs1 = y1 # zs2"
        using y zs cstr_hd0_zero [OF zs(2)] by (cases ys1; cases zs1) auto
      then have c2: "cstr m (Suc (Suc rh)) zs2" "cstr m (Suc (Suc nd)) ys2" "y1 \<noteq> 0"
        using y zs by simp_all
      then have "m (rh + 2) = Some (hd0 zs2)" "m (nd + 2) = Some (hd0 ys2)"
        using cstr_hd0 by auto
      then show ?thesis
        using y zs heads Cons two c2 less.hyps [of ys2 "Suc (Suc rh)" zs2 "Suc (Suc nd)"]
          cstr_hd0_zero [OF c2(2)]
        by (subst strstr_rest.simps; cases zs2; cases ys2) auto
    qed
  qed
qed

lemma find_sub_two_None: "find_sub h [b, c] zs = None \<Longrightarrow> find_sub h (b # c # ys) zs = None"
  by (induction zs arbitrary: h) (auto simp: Cons_prefix_iff split: if_splits)

lemma find_sub_two_Some:
  "find_sub h [b, c] zs = Some g \<Longrightarrow>
     \<exists>us. length (b # c # us) \<le> length zs \<and> (cstr m h zs \<longrightarrow> cstr m g (b # c # us)) \<and>
       find_sub h (b # c # ys) zs = find_sub g (b # c # ys) (b # c # us)"
proof (induction zs arbitrary: h)
  case (Cons z zs)
  show ?case
  proof (cases "prefix [b, c] (z # zs)")
    case True
    then obtain us where "z = b" "zs = c # us" by (cases zs) auto
    with Cons.prems show ?thesis by (intro exI [of _ us]) auto
  next
    case False
    then have "\<not> prefix (b # c # ys) (z # zs)" by (cases zs) auto
    moreover from False Cons obtain us where "length (b # c # us) \<le> length zs"
      "cstr m (Suc h) zs \<longrightarrow> cstr m g (b # c # us)"
      "find_sub (Suc h) (b # c # ys) zs = find_sub g (b # c # ys) (b # c # us)"
      by fastforce
    ultimately show ?thesis by (intro exI [of _ us]) auto
  qed
qed simp

lemma strstr_crest_cstr:
  assumes nd: "cstr m nd ys" and bc: "b \<noteq> 0" "c \<noteq> 0"
  shows "cstr m g (b # c # us) \<Longrightarrow>
    strstr_crest m b c nd (Suc g) = Some (ptr_or_null (find_sub g (b # c # ys) (b # c # us)))"
proof (induction "length us" arbitrary: g us rule: less_induct)
  case less
  have us: "cstr m (Suc (Suc g)) us" "cstr m (Suc g) (c # us)" using less.prems by simp_all
  have found: "(if hd0 us = hd0 ys then strstr_rest m (Suc (Suc g)) nd (hd0 ys) else Some (hd0 ys = 0)) =
      Some (prefix ys us)"
    using strstr_rest_cstr [OF us(1) nd] cstr_hd0_zero [OF nd] by (cases us; cases ys) auto
  have next_hit: "strstr_do m b c (Suc g) c = Some (map_option Suc (find_sub (Suc g) [b, c] (c # us)))"
    using strstr_do_cstr [OF us(2) bc] by simp
  have step: "strstr_crest m b c nd (Suc g) = (if prefix ys us then Some g
      else (case find_sub (Suc g) [b, c] (c # us) of None \<Rightarrow> Some NULL
        | Some g' \<Rightarrow> strstr_crest m b c nd (Suc g')))"
    using found next_hit us cstr_hd0 [OF us(1)] cstr_hd0 [OF nd]
    by (subst strstr_crest.simps) (auto simp: Let_def split: option.split)
  show ?case
  proof (cases "find_sub (Suc g) [b, c] (c # us)")
    case None
    then show ?thesis
      using step find_sub_two_None [OF None, of ys] by (simp add: ptr_or_null_def)
  next
    case (Some g')
    then obtain us' where us': "length (b # c # us') \<le> length (c # us)"
      "cstr m (Suc g) (c # us) \<longrightarrow> cstr m g' (b # c # us')"
      "find_sub (Suc g) (b # c # ys) (c # us) = find_sub g' (b # c # ys) (b # c # us')"
      using find_sub_two_Some [OF Some, of m ys] by (elim exE conjE) (rule that)
    then have "strstr_crest m b c nd (Suc g') = Some (ptr_or_null (find_sub g' (b # c # ys) (b # c # us')))"
      using us(2) by (intro less.hyps) auto
    then show ?thesis
      using step Some us'(3) by (auto simp: ptr_or_null_def)
  qed
qed

lemma find_sub_one: "b \<noteq> 0 \<Longrightarrow> find_sub h [b] zs = find_first h zs b"
  by (induction zs arbitrary: h) auto

lemma strstr_cstr [mem_simps]:
  assumes "cstr m h xs" "cstr m nd ys" "h \<noteq> NULL"
  shows "strstr m h nd = Some (ptr_or_null (find_sub h ys xs))"
proof (cases ys)
  case Nil
  then show ?thesis
    using assms by (cases xs) (auto simp: strstr_def ptr_or_null_def)
next
  case (Cons b ys1)
  then have b: "b \<noteq> 0" "m nd = Some b" "cstr m (Suc nd) ys1" using assms(2) by simp_all
  have first: "strstr_first m (h - 1) b = Some (find_first h xs b)"
    using strstr_first_cstr [of m "h - 1" xs b] assms(1,3) b(1) by simp
  show ?thesis
  proof (cases "find_first h xs b")
    case None
    then show ?thesis
      using first b Cons by (simp add: strstr_def find_sub_miss ptr_or_null_def)
  next
    case (Some g)
    then obtain ws where ws: "g = h + (length xs - length ws)" "length ws \<le> length xs" "hd0 ws = b" "ws \<noteq> []"
      "drop (length xs - length ws) xs = ws" "find_sub h (b # ys1) xs = find_sub g (b # ys1) ws"
      using find_sub_skip [of h xs b g ys1] by blast
    then obtain us where us: "ws = b # us" by (cases ws) auto
    have "cstr m g ws" using cstr_drop [OF assms(1), of "length xs - length ws"] ws by simp
    then have g: "cstr m (Suc g) us" "m (Suc g) = Some (hd0 us)" "cstr m g (b # us)"
      using us cstr_hd0 [of m "Suc g" us] by simp_all
    show ?thesis
    proof (cases ys1)
      case Nil
      then show ?thesis
        using first b Cons Some ws us by (simp add: strstr_def ptr_or_null_def)
    next
      case (Cons c ys2)
      then have c: "c \<noteq> 0" "m (Suc nd) = Some c" "cstr m (nd + 2) ys2" using b by simp_all
      note next_hit = strstr_do_cstr [OF g(1) b(1) c(1)]
      show ?thesis
      proof (cases "hd0 us = c")
        case True
        then obtain vs where "us = c # vs" using c(1) by (cases us) auto
        then show ?thesis
          using first b c \<open>ys = b # ys1\<close> Cons Some ws us g strstr_crest_cstr [OF c(3) b(1) c(1), of g vs]
          by (simp add: strstr_def)
      next
        case False
        then have skip: "find_sub g ys ws = find_sub (Suc g) ys us"
          using us Cons \<open>ys = b # ys1\<close> by (cases us) auto
        show ?thesis
        proof (cases "find_sub (Suc g) [b, c] us")
          case None
          then show ?thesis
            using first b c \<open>ys = b # ys1\<close> Cons Some ws us g next_hit skip False
              find_sub_two_None [OF None, of ys2]
            by (simp add: strstr_def ptr_or_null_def)
        next
          case (Some g')
          then obtain vs where vs: "cstr m (Suc g) us \<longrightarrow> cstr m g' (b # c # vs)"
            "find_sub (Suc g) (b # c # ys2) us = find_sub g' (b # c # ys2) (b # c # vs)"
            using find_sub_two_Some [OF Some, of m ys2] by (elim exE conjE) (rule that)
          then show ?thesis
            using first b c \<open>ys = b # ys1\<close> Cons \<open>find_first h xs b = Some g\<close> ws us g next_hit skip False Some
              strstr_crest_cstr [OF c(3) b(1) c(1), of g' vs]
            by (simp add: strstr_def)
        qed
      qed
    qed
  qed
qed

section \<open>Properties\<close>

text \<open>C18. A loop of \<open>strtok\<close> calls over a string returns once per token and then the null
  pointer: in the memory it leaves, the pointers it returned are C strings that hold exactly
  the maximal runs of non-delimiters of the original string, in order. Bytes outside the
  string keep their values.\<close>

theorem strtok_loop_tokens:
  assumes "cstr m p xs" "cstr m delim ds" "p \<noteq> NULL" "long_mapped m (p + length xs)"
    and "disjoint p (length xs) delim (Suc (length ds))"
  shows "\<exists>m' ts. strtok_rest m delim p = Some (m', ts) \<and>
    list_all2 (cstr m') ts (tokens (\<lambda>c. c \<in> set ds) xs) \<and>
    (\<forall>a. a < p \<or> p + length xs \<le> a \<longrightarrow> m' a = m a)"
  using assms by (rule strtok_rest_tokens)

theorem strtok_loop_tokens_witness:
  "\<exists>m' ts. strtok_rest (mem_of 8 (asc ''a-b'' @ [0, 0, 0, 0, 0] @ asc ''-'' @ [0])) 16 8 = Some (m', ts) \<and>
    list_all2 (cstr m') ts (tokens (\<lambda>c. c \<in> set (asc ''-'')) (asc ''a-b'')) \<and>
    (\<forall>a. a < 8 \<or> 8 + length (asc ''a-b'') \<le> a \<longrightarrow>
      m' a = mem_of 8 (asc ''a-b'' @ [0, 0, 0, 0, 0] @ asc ''-'' @ [0]) a)"
  by (rule strtok_loop_tokens)
    (simp_all add: mem_of_eval long_mapped_def)

text \<open>\<open>strtok_m\<close> and \<open>strtok_c\<close> report to their callback, in order and numbered from 0,
  exactly the tokens of the string, and store their number: for \<open>strtok_m\<close> the maximal runs
  without the separator; for \<open>strtok_c\<close> the nonempty pieces between separators outside groups and
  group characters anywhere.\<close>

lemma strtok_callbacks_report_tokens:
  assumes "cstr m src s"
  shows "(\<exists>calls. strtok_m m src ch = Some (length calls, calls) \<and>
      reports m 0 calls (tokens (\<lambda>c. c = ch) s)) \<and>
    (\<exists>calls. strtok_c m src tk grp = Some (length calls, calls) \<and>
      reports m 0 calls (split_groups grp tk False [] s))"
  using strtok_m_cstr [OF assms, of ch] strtok_c_cstr [OF assms, of tk grp] by (rule conjI)

theorem strtok_callbacks_report_tokens_witness:
  "(\<exists>calls. strtok_m (mem_of 8 (asc ''a b'' @ [0])) 8 32 = Some (length calls, calls) \<and>
      reports (mem_of 8 (asc ''a b'' @ [0])) 0 calls (tokens (\<lambda>c. c = 32) (asc ''a b''))) \<and>
    (\<exists>calls. strtok_c (mem_of 8 (asc ''a b'' @ [0])) 8 (\<lambda>c. c = 32) (\<lambda>c. c = 34) = Some (length calls, calls) \<and>
      reports (mem_of 8 (asc ''a b'' @ [0])) 0 calls (split_groups (\<lambda>c. c = 34) (\<lambda>c. c = 32) False [] (asc ''a b'')))"
  by (rule strtok_callbacks_report_tokens) (simp add: mem_of_eval)

text \<open>C27. \<open>strstr\<close> returns the address of the first occurrence of the needle in the haystack, and
  the null pointer when the needle does not occur.\<close>

theorem strstr_first_occurrence:
  assumes "cstr m h xs" "cstr m nd ys" "h \<noteq> NULL"
  shows "\<exists>r. strstr m h nd = Some r \<and>
    ((\<exists>i\<le>length xs. r = h + i \<and> prefix ys (drop i xs) \<and> (\<forall>j<i. \<not> prefix ys (drop j xs))) \<or>
     (r = NULL \<and> (\<forall>i\<le>length xs. \<not> prefix ys (drop i xs))))"
proof (cases "find_sub h ys xs")
  case None
  then show ?thesis
    using strstr_cstr [OF assms] find_sub_None [OF None] by (simp add: ptr_or_null_def)
next
  case (Some q)
  then show ?thesis
    using strstr_cstr [OF assms] find_sub_Some [OF Some] by (auto simp: ptr_or_null_def)
qed

theorem strstr_first_occurrence_witness:
  "\<exists>r. strstr (mem_of 8 (asc ''aab'' @ [0] @ asc ''ab'' @ [0])) 8 12 = Some r \<and>
    ((\<exists>i\<le>length (asc ''aab''). r = 8 + i \<and> prefix (asc ''ab'') (drop i (asc ''aab'')) \<and>
        (\<forall>j<i. \<not> prefix (asc ''ab'') (drop j (asc ''aab'')))) \<or>
     (r = NULL \<and> (\<forall>i\<le>length (asc ''aab''). \<not> prefix (asc ''ab'') (drop i (asc ''aab'')))))"
  by (rule strstr_first_occurrence) (simp_all add: mem_of_eval)

end
