(* ===== verification/Mem_Block.thy ===== *)
theory Mem_Block
  imports Word_Scan
begin

text \<open>
  \<open>memcmp\<close> and \<open>memmove\<close> (\<open>libc/string/memcmp.c\<close>, \<open>libc/string/memmove.c\<close>) with the macros of
  \<open>libc/string/memcopy.h\<close>: a byte loop up to a longword boundary, an unrolled
  loop over longwords that a \<open>switch\<close> enters in the middle, and a byte loop for the rest. When the
  two blocks are not aligned alike, two neighbouring longwords are shifted and merged.

  The labels of an unrolled loop are a datatype and its body one recursive function of the
  label, so every \<open>goto\<close> is a call. Pointers inside the word loops are integers, because the
  \<open>switch\<close> moves them below the block before it jumps.
\<close>

section \<open>Longwords of a block\<close>

abbreviation (input) OPSIZ :: nat where "OPSIZ \<equiv> 8"
abbreviation (input) OP_T_THRES :: nat where "OP_T_THRES \<equiv> 16"

text \<open>\<open>((op_t *) p)[k]\<close>.\<close>

definition op_load :: "mem \<Rightarrow> int \<Rightarrow> nat \<Rightarrow> 64 word option" where
  "op_load m p k = load_long m (nat (p + 8 * int k))"

text \<open>\<open>((op_t *) p)[k] = w\<close>.\<close>

definition store_long :: "mem \<Rightarrow> addr \<Rightarrow> 64 word \<Rightarrow> mem option" where
  "store_long m p w = do {
     m \<leftarrow> store m p (byte_of 0 w); m \<leftarrow> store m (p + 1) (byte_of 1 w);
     m \<leftarrow> store m (p + 2) (byte_of 2 w); m \<leftarrow> store m (p + 3) (byte_of 3 w);
     m \<leftarrow> store m (p + 4) (byte_of 4 w); m \<leftarrow> store m (p + 5) (byte_of 5 w);
     m \<leftarrow> store m (p + 6) (byte_of 6 w); store m (p + 7) (byte_of 7 w) }"

definition op_store :: "mem \<Rightarrow> int \<Rightarrow> nat \<Rightarrow> 64 word \<Rightarrow> mem option" where
  "op_store m p k w = store_long m (nat (p + 8 * int k)) w"

definition MERGE :: "64 word \<Rightarrow> nat \<Rightarrow> 64 word \<Rightarrow> nat \<Rightarrow> 64 word" where
  "MERGE w0 sh_1 w1 sh_2 = drop_bit sh_1 w0 OR push_bit sh_2 w1"

section \<open>memcmp\<close>

text \<open>An \<open>op_t\<close> returned as an \<open>int\<close>.\<close>

definition op_int :: "64 word \<Rightarrow> int" where
  "op_int w = sint (ucast w :: 32 word)"

text \<open>The bytes of two longwords in memory order, from byte \<open>k\<close> on.\<close>

function memcmp_bytes :: "64 word \<Rightarrow> 64 word \<Rightarrow> nat \<Rightarrow> int option" where
  "memcmp_bytes a b k =
     (if 8 \<le> k then None
      else (let a0 = ucast (byte_of k a) :: 64 word; b0 = ucast (byte_of k b)
            in if a0 = b0 then memcmp_bytes a b (k + 1) else Some (op_int (a0 - b0))))"
  by pat_completeness auto
termination by (relation "measure (\<lambda>(a, b, k). 8 - k)") auto

declare memcmp_bytes.simps [simp del]

definition cmp_or :: "64 word \<Rightarrow> 64 word \<Rightarrow> int option \<Rightarrow> int option" where
  "cmp_or x y k = (if x \<noteq> y then memcmp_bytes x y 0 else k)"

datatype cmp_label = CTop | CDo3 | CDo2 | CDo1

partial_function (option) common_loop ::
    "mem \<Rightarrow> cmp_label \<Rightarrow> int \<Rightarrow> int \<Rightarrow> nat \<Rightarrow> 64 word \<Rightarrow> 64 word \<Rightarrow> 64 word \<Rightarrow> 64 word \<Rightarrow> int option" where
  "common_loop m l srcp1 srcp2 len a0 a1 b0 b1 =
     (case l of
        CTop \<Rightarrow> do {
          a0 \<leftarrow> op_load m srcp1 0; b0 \<leftarrow> op_load m srcp2 0;
          if a1 \<noteq> b1 then memcmp_bytes a1 b1 0
          else common_loop m CDo3 srcp1 srcp2 len a0 a1 b0 b1 }
      | CDo3 \<Rightarrow> do {
          a1 \<leftarrow> op_load m srcp1 1; b1 \<leftarrow> op_load m srcp2 1;
          if a0 \<noteq> b0 then memcmp_bytes a0 b0 0
          else common_loop m CDo2 srcp1 srcp2 len a0 a1 b0 b1 }
      | CDo2 \<Rightarrow> do {
          a0 \<leftarrow> op_load m srcp1 2; b0 \<leftarrow> op_load m srcp2 2;
          if a1 \<noteq> b1 then memcmp_bytes a1 b1 0
          else common_loop m CDo1 srcp1 srcp2 len a0 a1 b0 b1 }
      | CDo1 \<Rightarrow> do {
          a1 \<leftarrow> op_load m srcp1 3; b1 \<leftarrow> op_load m srcp2 3;
          if a0 \<noteq> b0 then memcmp_bytes a0 b0 0
          else (let len = len - 4 in
            if len \<noteq> 0 then common_loop m CTop (srcp1 + 4 * 8) (srcp2 + 4 * 8) len a0 a1 b0 b1
            else cmp_or a1 b1 (Some 0)) })"

text \<open>The registers the code leaves unset on an entry hold the parameter \<open>u\<close>.\<close>

definition memcmp_common_alignment :: "mem \<Rightarrow> 64 word \<Rightarrow> int \<Rightarrow> int \<Rightarrow> nat \<Rightarrow> int option" where
  "memcmp_common_alignment m u srcp1 srcp2 len =
     (if len mod 4 = 3 then do {
        a1 \<leftarrow> op_load m srcp1 0; b1 \<leftarrow> op_load m srcp2 0;
        common_loop m CDo2 (srcp1 - 8) (srcp2 - 8) (len + 1) u a1 u b1 }
      else if len mod 4 = 0 then
        (if len = 0 then Some 0
         else do {
           a0 \<leftarrow> op_load m srcp1 0; b0 \<leftarrow> op_load m srcp2 0;
           common_loop m CDo3 srcp1 srcp2 len a0 u b0 u })
      else if len mod 4 = 1 then do {
        a1 \<leftarrow> op_load m srcp1 0; b1 \<leftarrow> op_load m srcp2 0;
        let len = len - 1;
        if len = 0 then cmp_or a1 b1 (Some 0)
        else common_loop m CTop (srcp1 + 8) (srcp2 + 8) len u a1 u b1 }
      else do {
        a0 \<leftarrow> op_load m srcp1 0; b0 \<leftarrow> op_load m srcp2 0;
        common_loop m CDo1 (srcp1 - 2 * 8) (srcp2 - 2 * 8) (len + 2) a0 u b0 u })"

type_synonym regs = "64 word \<times> 64 word \<times> 64 word \<times> 64 word"

partial_function (option) not_common_loop ::
    "mem \<Rightarrow> nat \<Rightarrow> nat \<Rightarrow> cmp_label \<Rightarrow> int \<Rightarrow> int \<Rightarrow> nat \<Rightarrow> regs \<Rightarrow> regs \<Rightarrow> int option" where
  "not_common_loop m shl shr l srcp1 srcp2 len a b =
     (case (a, b) of ((a0, a1, a2, a3), (b0, b1, b2, b3)) \<Rightarrow>
      case l of
        CTop \<Rightarrow> do {
          a0 \<leftarrow> op_load m srcp1 0; b0 \<leftarrow> op_load m srcp2 0;
          let x = MERGE a2 shl a3 shr;
          if x \<noteq> b3 then memcmp_bytes x b3 0
          else not_common_loop m shl shr CDo3 srcp1 srcp2 len (a0, a1, a2, a3) (b0, b1, b2, b3) }
      | CDo3 \<Rightarrow> do {
          a1 \<leftarrow> op_load m srcp1 1; b1 \<leftarrow> op_load m srcp2 1;
          let x = MERGE a3 shl a0 shr;
          if x \<noteq> b0 then memcmp_bytes x b0 0
          else not_common_loop m shl shr CDo2 srcp1 srcp2 len (a0, a1, a2, a3) (b0, b1, b2, b3) }
      | CDo2 \<Rightarrow> do {
          a2 \<leftarrow> op_load m srcp1 2; b2 \<leftarrow> op_load m srcp2 2;
          let x = MERGE a0 shl a1 shr;
          if x \<noteq> b1 then memcmp_bytes x b1 0
          else not_common_loop m shl shr CDo1 srcp1 srcp2 len (a0, a1, a2, a3) (b0, b1, b2, b3) }
      | CDo1 \<Rightarrow> do {
          a3 \<leftarrow> op_load m srcp1 3; b3 \<leftarrow> op_load m srcp2 3;
          let x = MERGE a1 shl a2 shr;
          if x \<noteq> b2 then memcmp_bytes x b2 0
          else (let len = len - 4 in
            if len \<noteq> 0
            then not_common_loop m shl shr CTop (srcp1 + 4 * 8) (srcp2 + 4 * 8) len (a0, a1, a2, a3) (b0, b1, b2, b3)
            else cmp_or (MERGE a2 shl a3 shr) b3 (Some 0)) })"

definition memcmp_not_common_alignment :: "mem \<Rightarrow> 64 word \<Rightarrow> int \<Rightarrow> int \<Rightarrow> nat \<Rightarrow> int option" where
  "memcmp_not_common_alignment m u srcp1 srcp2 len =
     (let shl = 8 * nat (srcp1 mod 8); shr = 8 * 8 - shl; srcp1 = srcp1 div 8 * 8 in
      if len mod 4 = 3 then do {
        a0 \<leftarrow> op_load m srcp1 0; a1 \<leftarrow> op_load m srcp1 1; b1 \<leftarrow> op_load m srcp2 0;
        not_common_loop m shl shr CDo2 srcp1 (srcp2 - 8) (len + 1) (a0, a1, u, u) (u, b1, u, u) }
      else if len mod 4 = 0 then
        (if len = 0 then Some 0
         else do {
           a3 \<leftarrow> op_load m srcp1 0; a0 \<leftarrow> op_load m srcp1 1; b0 \<leftarrow> op_load m srcp2 0;
           not_common_loop m shl shr CDo3 (srcp1 + 8) srcp2 len (a0, u, u, a3) (b0, u, u, u) })
      else if len mod 4 = 1 then do {
        a2 \<leftarrow> op_load m srcp1 0; a3 \<leftarrow> op_load m srcp1 1; b3 \<leftarrow> op_load m srcp2 0;
        let len = len - 1;
        if len = 0 then cmp_or (MERGE a2 shl a3 shr) b3 (Some 0)
        else not_common_loop m shl shr CTop (srcp1 + 2 * 8) (srcp2 + 8) len (u, u, a2, a3) (u, u, u, b3) }
      else do {
        a1 \<leftarrow> op_load m srcp1 0; a2 \<leftarrow> op_load m srcp1 1; b2 \<leftarrow> op_load m srcp2 0;
        not_common_loop m shl shr CDo1 (srcp1 - 8) (srcp2 - 2 * 8) (len + 2) (u, a1, a2, u) (u, u, b2, u) })"

text \<open>The byte loop before the longwords, until \<open>srcp2\<close> is aligned.\<close>

partial_function (option) memcmp_head ::
    "mem \<Rightarrow> addr \<Rightarrow> addr \<Rightarrow> nat \<Rightarrow> (int + addr \<times> addr \<times> nat) option" where
  "memcmp_head m srcp1 srcp2 len =
     (if srcp2 mod OPSIZ \<noteq> 0 then do {
        a0 \<leftarrow> m srcp1; b0 \<leftarrow> m srcp2;
        let res = (ucast a0 - ucast b0 :: 64 word);
        if res \<noteq> 0 then Some (Inl (op_int res))
        else memcmp_head m (srcp1 + 1) (srcp2 + 1) (len - 1) }
      else Some (Inr (srcp1, srcp2, len)))"

fun memcmp_tail :: "mem \<Rightarrow> addr \<Rightarrow> addr \<Rightarrow> nat \<Rightarrow> int option" where
  "memcmp_tail m srcp1 srcp2 0 = Some 0"
| "memcmp_tail m srcp1 srcp2 (Suc len) = do {
     a0 \<leftarrow> m srcp1; b0 \<leftarrow> m srcp2;
     let res = (ucast a0 - ucast b0 :: 64 word);
     if res \<noteq> 0 then Some (op_int res) else memcmp_tail m (srcp1 + 1) (srcp2 + 1) len }"

definition memcmp_words ::
    "mem \<Rightarrow> 64 word \<Rightarrow> addr \<Rightarrow> addr \<Rightarrow> nat \<Rightarrow> (int + addr \<times> addr \<times> nat) option" where
  "memcmp_words m u srcp1 srcp2 len = do {
     res \<leftarrow> (if srcp1 mod OPSIZ = 0
            then memcmp_common_alignment m u (int srcp1) (int srcp2) (len div OPSIZ)
            else memcmp_not_common_alignment m u (int srcp1) (int srcp2) (len div OPSIZ));
     if res \<noteq> 0 then Some (Inl res)
     else Some (Inr (srcp1 + len div OPSIZ * OPSIZ, srcp2 + len div OPSIZ * OPSIZ, len mod OPSIZ)) }"

definition memcmp :: "mem \<Rightarrow> 64 word \<Rightarrow> addr \<Rightarrow> addr \<Rightarrow> nat \<Rightarrow> int option" where
  "memcmp m u s1 s2 len =
     (let words = (if len \<ge> OP_T_THRES
          then and_then (memcmp_head m s1 s2 len) (\<lambda>(srcp1, srcp2, len). memcmp_words m u srcp1 srcp2 len)
          else Some (Inr (s1, s2, len)))
      in case words of
           None \<Rightarrow> None
         | Some (Inl res) \<Rightarrow> Some res
         | Some (Inr (srcp1, srcp2, len)) \<Rightarrow> memcmp_tail m srcp1 srcp2 len)"

section \<open>Comparing bytes and longwords\<close>

fun bytes_diff :: "byte list \<Rightarrow> byte list \<Rightarrow> int" where
  "bytes_diff (x # xs) (y # ys) = (if x \<noteq> y then uint x - uint y else bytes_diff xs ys)"
| "bytes_diff _ _ = 0"

lemma uint_byte_eq: "uint (x :: byte) = uint y \<longleftrightarrow> x = y"
  by (simp add: word_uint_eq_iff)

lemma bytes_diff_self [simp]: "bytes_diff xs xs = 0"
  by (induction xs) auto

lemma bytes_diff_0: "length xs = length ys \<Longrightarrow> bytes_diff xs ys = 0 \<longleftrightarrow> xs = ys"
  by (induction xs ys rule: bytes_diff.induct) (auto simp: word_uint_eq_iff)

lemma bytes_diff_append:
  "length xs = length ys \<Longrightarrow>
     bytes_diff (xs @ xs') (ys @ ys') = (if xs = ys then bytes_diff xs' ys' else bytes_diff xs ys)"
  by (induction xs ys rule: bytes_diff.induct) auto

lemma bytes_diff_split:
  "n \<le> length xs \<Longrightarrow> n \<le> length ys \<Longrightarrow>
     bytes_diff xs ys = (if bytes_diff (take n xs) (take n ys) \<noteq> 0 then bytes_diff (take n xs) (take n ys)
       else bytes_diff (drop n xs) (drop n ys))"
  using bytes_diff_append [of "take n xs" "take n ys" "drop n xs" "drop n ys"]
    bytes_diff_0 [of "take n xs" "take n ys"] by auto

text \<open>The result is negative, zero or positive as the first block is lexicographically smaller, equal or greater.\<close>

lemma ucast_word_of_int: "(ucast (word_of_int k :: 64 word) :: 32 word) = word_of_int k"
  by (simp add: ucast_eq uint_word_of_int_eq word_of_int_eq_iff)

lemma op_int_diff: "op_int (ucast (x :: byte) - ucast (y :: byte)) = uint x - uint y"
proof -
  have "uint x < 256" "uint y < 256" using uint_lt2p [of x] uint_lt2p [of y] by simp_all
  then have k: "- 2147483648 \<le> uint x - uint y" "uint x - uint y < 2147483648"
    using uint_ge_0 [of x] uint_ge_0 [of y] by linarith+
  have "ucast x - ucast y = (word_of_int (uint x - uint y) :: 64 word)"
    unfolding ucast_eq wi_hom_sub ..
  then have "op_int (ucast x - ucast y) = sint (word_of_int (uint x - uint y) :: 32 word)"
    unfolding op_int_def by (simp only: ucast_word_of_int)
  also have "\<dots> = uint x - uint y"
    unfolding sint_sbintrunc' using k by (intro signed_take_bit_int_eq_self) simp_all
  finally show ?thesis .
qed

lemma ucast_byte_eq [simp]: "(ucast (x :: byte) :: 64 word) = ucast y \<longleftrightarrow> x = y"
proof
  assume "(ucast x :: 64 word) = ucast y"
  then have "uint (ucast x :: 64 word) = uint (ucast y :: 64 word)" by (rule arg_cong)
  then show "x = y"
    using uint_lt2p [of x] uint_lt2p [of y]
    by (simp add: unsigned_ucast_eq take_bit_int_eq_self word_uint_eq_iff)
qed simp

lemma memcmp_bytes_le_word:
  assumes "length xs = 8" "length ys = 8"
  shows "drop k xs \<noteq> drop k ys \<Longrightarrow>
    memcmp_bytes (le_word xs) (le_word ys) k = Some (bytes_diff (drop k xs) (drop k ys))"
proof (induction "8 - k" arbitrary: k)
  case 0
  then show ?case using assms by simp
next
  case (Suc n)
  then have k: "k < 8" by simp
  then have d: "drop k xs = xs ! k # drop (Suc k) xs" "drop k ys = ys ! k # drop (Suc k) ys"
    using assms by (simp_all add: Cons_nth_drop_Suc)
  have b: "byte_of k (le_word xs) = xs ! k" "byte_of k (le_word ys) = ys ! k"
    using assms k by (simp_all add: byte_of_le_word)
  show ?case
    using Suc.hyps(1) [of "Suc k"] Suc.hyps(2) Suc.prems k
    by (subst memcmp_bytes.simps) (simp add: b d Let_def op_int_diff)
qed

lemma le_word_inject: "length xs = 8 \<Longrightarrow> length ys = 8 \<Longrightarrow> le_word xs = le_word ys \<longleftrightarrow> xs = ys"
  by (metis byte_of_le_word nth_equalityI)

section \<open>Blocks as lists of longwords\<close>

fun words_of :: "nat \<Rightarrow> byte list \<Rightarrow> 64 word list" where
  "words_of 0 bs = []"
| "words_of (Suc n) bs = le_word (take 8 bs) # words_of n (drop 8 bs)"

fun words_at :: "mem \<Rightarrow> int \<Rightarrow> 64 word list \<Rightarrow> bool" where
  "words_at m p [] = True"
| "words_at m p (w # ws) = (load_long m (nat p) = Some w \<and> words_at m (p + 8) ws)"

lemma length_words_of [simp]: "length (words_of n bs) = n"
  by (induction n arbitrary: bs) auto

lemma words_at_words_of:
  "bytes_at m p bs \<Longrightarrow> 8 * n \<le> length bs \<Longrightarrow> words_at m (int p) (words_of n bs)"
proof (induction n arbitrary: p bs)
  case (Suc n)
  have "bytes_at m p (take 8 bs)" "bytes_at m (p + 8) (drop 8 bs)"
    using Suc.prems by (simp_all add: bytes_at_take bytes_at_drop)
  then show ?case
    using Suc.IH [of "p + 8" "drop 8 bs"] Suc.prems by (simp add: load_long_bytes add.commute)
qed simp

fun words_diff :: "64 word list \<Rightarrow> 64 word list \<Rightarrow> int option" where
  "words_diff (x # xs) (y # ys) = cmp_or x y (words_diff xs ys)"
| "words_diff _ _ = Some 0"

lemma words_diff_words_of:
  "8 * n \<le> length xs \<Longrightarrow> 8 * n \<le> length ys \<Longrightarrow>
     words_diff (words_of n xs) (words_of n ys) = Some (bytes_diff (take (8 * n) xs) (take (8 * n) ys))"
proof (induction n arbitrary: xs ys)
  case (Suc n)
  have t: "take (8 * Suc n) zs = take 8 zs @ take (8 * n) (drop 8 zs)" for zs :: "byte list"
    by (simp add: take_add)
  have l: "length (take 8 xs) = 8" "length (take 8 ys) = 8" using Suc.prems by simp_all
  have "words_diff (words_of n (drop 8 xs)) (words_of n (drop 8 ys)) =
      Some (bytes_diff (take (8 * n) (drop 8 xs)) (take (8 * n) (drop 8 ys)))"
    using Suc.prems by (intro Suc.IH) simp_all
  then show ?case
    unfolding t using memcmp_bytes_le_word [OF l, of 0] l
    by (simp add: cmp_or_def le_word_inject bytes_diff_append)
qed simp

lemma op_load_head: "words_at m q (w # ws) \<Longrightarrow> q = p + 8 * int k \<Longrightarrow> op_load m p k = Some w"
  by (simp add: op_load_def)

section \<open>The unrolled comparison\<close>

fun label_pos :: "cmp_label \<Rightarrow> nat" where
  "label_pos CTop = 0"
| "label_pos CDo3 = 1"
| "label_pos CDo2 = 2"
| "label_pos CDo1 = 3"

text \<open>
  At every label the first \<open>x\<close> of the words still to be compared is in a register, and the
  others, of which there are a multiple of 4 less the words the label skips, start at the address of
  the next load.
\<close>

lemma common_loop_words:
  assumes "words_at m (srcp1 + 8 * int (label_pos l)) ws" "words_at m (srcp2 + 8 * int (label_pos l)) vs"
    and "length vs = length ws" "ws \<noteq> []" "len = length ws + label_pos l" "len mod 4 = 0"
    and "x = (if even (label_pos l) then a1 else a0)" "y = (if even (label_pos l) then b1 else b0)"
  shows "common_loop m l srcp1 srcp2 len a0 a1 b0 b1 = words_diff (x # ws) (y # vs)"
  using assms
proof (induction ws arbitrary: l srcp1 srcp2 len a0 a1 b0 b1 x y vs)
  case (Cons w ws)
  then obtain v vs' where vs: "vs = v # vs'" by (cases vs) auto
  note IH = Cons.IH
  have load: "op_load m srcp1 (label_pos l) = Some w" "op_load m srcp2 (label_pos l) = Some v"
    using Cons.prems(1,2) by (simp_all add: vs op_load_def)
  have rest: "words_at m (srcp1 + 8 * int (label_pos l) + 8) ws" "words_at m (srcp2 + 8 * int (label_pos l) + 8) vs'"
    using Cons.prems(1,2) by (simp_all add: vs)
  show ?case
  proof (cases l)
    case CTop
    then have "ws \<noteq> []" using Cons.prems by (auto dest: dvd_imp_le)
    then have "common_loop m CDo3 srcp1 srcp2 len w a1 v b1 = words_diff (w # ws) (v # vs')"
      using CTop Cons.prems rest by (intro IH) (simp_all add: vs)
    then show ?thesis
      using CTop load Cons.prems by (subst common_loop.simps) (auto simp: vs cmp_or_def)
  next
    case CDo3
    then have "ws \<noteq> []" using Cons.prems by (auto dest: dvd_imp_le)
    then have "common_loop m CDo2 srcp1 srcp2 len a0 w b0 v = words_diff (w # ws) (v # vs')"
      using CDo3 Cons.prems rest by (intro IH) (simp_all add: vs add.assoc)
    then show ?thesis
      using CDo3 load Cons.prems by (subst common_loop.simps) (auto simp: vs cmp_or_def)
  next
    case CDo2
    then have "ws \<noteq> []" using Cons.prems by (auto dest: dvd_imp_le)
    then have "common_loop m CDo1 srcp1 srcp2 len w a1 v b1 = words_diff (w # ws) (v # vs')"
      using CDo2 Cons.prems rest by (intro IH) (simp_all add: vs add.assoc)
    then show ?thesis
      using CDo2 load Cons.prems by (subst common_loop.simps) (auto simp: vs cmp_or_def numeral_2_eq_2)
  next
    case CDo1
    have l3: "op_load m srcp1 3 = Some w" "op_load m srcp2 3 = Some v" using load CDo1 by simp_all
    show ?thesis
    proof (cases "ws = []")
      case True
      then show ?thesis
        using CDo1 l3 Cons.prems by (subst common_loop.simps) (auto simp: vs cmp_or_def)
    next
      case False
      then have "common_loop m CTop (srcp1 + 32) (srcp2 + 32) (len - 4) a0 w b0 v = words_diff (w # ws) (v # vs')"
        using CDo1 Cons.prems rest by (intro IH) (simp_all add: vs add.assoc)
      then show ?thesis
        using CDo1 l3 False Cons.prems by (subst common_loop.simps) (auto simp: vs cmp_or_def Let_def)
    qed
  qed
qed simp


lemma memcmp_common_words:
  assumes "words_at m srcp1 ws" "words_at m srcp2 vs" "length vs = length ws"
  shows "memcmp_common_alignment m u srcp1 srcp2 (length ws) = words_diff ws vs"
proof (cases ws)
  case Nil
  then show ?thesis using assms by (simp add: memcmp_common_alignment_def)
next
  case (Cons w ws')
  then obtain v vs' where vs: "vs = v # vs'" "length vs' = length ws'" using assms(3) by (cases vs) auto
  have load: "op_load m srcp1 0 = Some w" "op_load m srcp2 0 = Some v"
    using assms by (simp_all add: Cons vs op_load_def)
  have rest: "words_at m (srcp1 + 8) ws'" "words_at m (srcp2 + 8) vs'" using assms by (simp_all add: Cons vs)
  consider (r0) "length ws mod 4 = 0" | (r1) "length ws mod 4 = 1" "ws' = []" | (r1') "length ws mod 4 = 1" "ws' \<noteq> []"
    | (r2) "length ws mod 4 = 2" | (r3) "length ws mod 4 = 3" by linarith
  then show ?thesis
  proof cases
    case r0
    then have "common_loop m CDo3 srcp1 srcp2 (length ws) w u v u = words_diff (w # ws') (v # vs')"
      using rest vs by (intro common_loop_words) (auto simp: Cons dest: dvd_imp_le)
    then show ?thesis using r0 load by (auto simp: memcmp_common_alignment_def Cons vs)
  next
    case r1
    then show ?thesis using load vs by (simp add: memcmp_common_alignment_def Cons)
  next
    case r1'
    then have "common_loop m CTop (srcp1 + 8) (srcp2 + 8) (length ws - 1) u w u v = words_diff (w # ws') (v # vs')"
      using rest vs by (intro common_loop_words) (auto simp: Cons mod_Suc add.commute split: if_splits)
    then show ?thesis using r1' load by (auto simp: memcmp_common_alignment_def Cons vs Let_def)
  next
    case r2
    then have "common_loop m CDo1 (srcp1 - 16) (srcp2 - 16) (length ws + 2) w u v u = words_diff (w # ws') (v # vs')"
      using rest vs by (intro common_loop_words) (auto simp: Cons mod_Suc add.commute split: if_splits)
    then show ?thesis using r2 load by (auto simp: memcmp_common_alignment_def Cons vs)
  next
    case r3
    then have "common_loop m CDo2 (srcp1 - 8) (srcp2 - 8) (length ws + 1) u w u v = words_diff (w # ws') (v # vs')"
      using rest vs by (intro common_loop_words) (auto simp: Cons mod_Suc add.commute split: if_splits)
    then show ?thesis using r3 load by (auto simp: memcmp_common_alignment_def Cons vs)
  qed
qed

section \<open>The comparison of blocks aligned differently\<close>

fun merged :: "nat \<Rightarrow> 64 word list \<Rightarrow> 64 word list" where
  "merged s (x # y # ws) = MERGE x s y (8 * 8 - s) # merged s (y # ws)"
| "merged s _ = []"

fun pending :: "cmp_label \<Rightarrow> regs \<Rightarrow> regs \<Rightarrow> 64 word \<times> 64 word \<times> 64 word" where
  "pending CTop (a0, a1, a2, a3) (b0, b1, b2, b3) = (a2, a3, b3)"
| "pending CDo3 (a0, a1, a2, a3) (b0, b1, b2, b3) = (a3, a0, b0)"
| "pending CDo2 (a0, a1, a2, a3) (b0, b1, b2, b3) = (a0, a1, b1)"
| "pending CDo1 (a0, a1, a2, a3) (b0, b1, b2, b3) = (a1, a2, b2)"

lemma not_common_loop_words:
  assumes "words_at m (srcp1 + 8 * int (label_pos l)) ws" "words_at m (srcp2 + 8 * int (label_pos l)) vs"
    and "length vs = length ws" "ws \<noteq> []" "len = length ws + label_pos l" "len mod 4 = 0"
    and "pending l a b = (p, q, y)"
  shows "not_common_loop m s (8 * 8 - s) l srcp1 srcp2 len a b = words_diff (merged s (p # q # ws)) (y # vs)"
  using assms
proof (induction ws arbitrary: l srcp1 srcp2 len a b p q y vs)
  case (Cons w ws)
  then obtain v vs' where vs: "vs = v # vs'" by (cases vs) auto
  obtain a0 a1 a2 a3 where a: "a = (a0, a1, a2, a3)" by (cases a)
  obtain b0 b1 b2 b3 where b: "b = (b0, b1, b2, b3)" by (cases b)
  note IH = Cons.IH
  have load: "op_load m srcp1 (label_pos l) = Some w" "op_load m srcp2 (label_pos l) = Some v"
    using Cons.prems(1,2) by (simp_all add: vs op_load_def)
  have rest: "words_at m (srcp1 + 8 * int (label_pos l) + 8) ws" "words_at m (srcp2 + 8 * int (label_pos l) + 8) vs'"
    using Cons.prems(1,2) by (simp_all add: vs)
  show ?case
  proof (cases l)
    case CTop
    then have "ws \<noteq> []" using Cons.prems by (auto dest: dvd_imp_le)
    then have "not_common_loop m s (8 * 8 - s) CDo3 srcp1 srcp2 len (w, a1, a2, a3) (v, b1, b2, b3) =
        words_diff (merged s (a3 # w # ws)) (v # vs')"
      using CTop Cons.prems rest by (intro IH) (simp_all add: vs)
    then show ?thesis
      using CTop load Cons.prems unfolding a b
      by (subst not_common_loop.simps) (simp only: prod.case cmp_label.case label_pos.simps pending.simps
        prod.inject bind.bind_lunit Let_def merged.simps words_diff.simps cmp_or_def vs if_not_P simp_thms split: if_split)
  next
    case CDo3
    then have "ws \<noteq> []" using Cons.prems by (auto dest: dvd_imp_le)
    then have "not_common_loop m s (8 * 8 - s) CDo2 srcp1 srcp2 len (a0, w, a2, a3) (b0, v, b2, b3) =
        words_diff (merged s (a0 # w # ws)) (v # vs')"
      using CDo3 Cons.prems rest by (intro IH) (simp_all add: vs a b add.assoc)
    then show ?thesis
      using CDo3 load Cons.prems by (subst not_common_loop.simps) (auto simp: a b vs cmp_or_def Let_def)
  next
    case CDo2
    then have "ws \<noteq> []" using Cons.prems by (auto dest: dvd_imp_le)
    then have "not_common_loop m s (8 * 8 - s) CDo1 srcp1 srcp2 len (a0, a1, w, a3) (b0, b1, v, b3) =
        words_diff (merged s (a1 # w # ws)) (v # vs')"
      using CDo2 Cons.prems rest by (intro IH) (simp_all add: vs a b add.assoc)
    then show ?thesis
      using CDo2 load Cons.prems by (subst not_common_loop.simps) (auto simp: a b vs cmp_or_def Let_def numeral_2_eq_2)
  next
    case CDo1
    have l3: "op_load m srcp1 3 = Some w" "op_load m srcp2 3 = Some v" using load CDo1 by simp_all
    show ?thesis
    proof (cases "ws = []")
      case True
      then show ?thesis
        using CDo1 l3 Cons.prems by (subst not_common_loop.simps) (auto simp: a b vs cmp_or_def Let_def)
    next
      case False
      then have "not_common_loop m s (8 * 8 - s) CTop (srcp1 + 32) (srcp2 + 32) (len - 4) (a0, a1, a2, w) (b0, b1, b2, v) =
          words_diff (merged s (a2 # w # ws)) (v # vs')"
        using CDo1 Cons.prems rest by (intro IH) (simp_all add: vs a b add.assoc)
      then show ?thesis
        using CDo1 l3 False Cons.prems by (subst not_common_loop.simps) (auto simp: a b vs cmp_or_def Let_def)
    qed
  qed
qed simp

lemma memcmp_not_common_words:
  assumes "words_at m (srcp1 div 8 * 8) ws" "words_at m srcp2 vs" "length ws = Suc (length vs)"
  shows "memcmp_not_common_alignment m u srcp1 srcp2 (length vs) = words_diff (merged (8 * nat (srcp1 mod 8)) ws) vs"
proof (cases vs)
  case Nil
  then have "merged s ws = []" for s using assms(3) by (auto simp: length_Suc_conv)
  then show ?thesis using Nil by (simp add: memcmp_not_common_alignment_def)
next
  case (Cons v vs')
  then obtain w w' ws' where ws: "ws = w # w' # ws'" "length vs' = length ws'"
    using assms(3) by (cases ws; cases "tl ws") auto
  define P s where "P = srcp1 div 8 * 8" and "s = 8 * nat (srcp1 mod 8)"
  have load: "op_load m P 0 = Some w" "op_load m P 1 = Some w'" "op_load m srcp2 0 = Some v"
    using assms by (simp_all add: Cons ws op_load_def P_def)
  have rest: "words_at m (P + 16) ws'" "words_at m (srcp2 + 8) vs'" using assms by (simp_all add: Cons ws P_def add.commute)
  note defs = memcmp_not_common_alignment_def Let_def P_def [symmetric] s_def [symmetric]
  consider (r0) "length vs mod 4 = 0" | (r1) "length vs mod 4 = 1" "ws' = []" | (r1') "length vs mod 4 = 1" "ws' \<noteq> []"
    | (r2) "length vs mod 4 = 2" | (r3) "length vs mod 4 = 3" by linarith
  then show ?thesis
  proof cases
    case r0
    then have "not_common_loop m s (8 * 8 - s) CDo3 (P + 8) srcp2 (length vs) (w', u, u, w) (v, u, u, u) =
        words_diff (merged s (w # w' # ws')) (v # vs')"
      using rest ws by (intro not_common_loop_words) (auto simp: Cons add.commute dest: dvd_imp_le)
    then show ?thesis unfolding defs using r0 load by (auto simp: Cons ws)
  next
    case r1
    then show ?thesis using load ws unfolding defs by (simp add: Cons)
  next
    case r1'
    then have "not_common_loop m s (8 * 8 - s) CTop (P + 16) (srcp2 + 8) (length vs - 1) (u, u, w, w') (u, u, u, v) =
        words_diff (merged s (w # w' # ws')) (v # vs')"
      using rest ws by (intro not_common_loop_words) (auto simp: Cons mod_Suc split: if_splits)
    then show ?thesis unfolding defs using r1' load ws by (auto simp: Cons)
  next
    case r2
    then have "not_common_loop m s (8 * 8 - s) CDo1 (P - 8) (srcp2 - 16) (length vs + 2) (u, w, w', u) (u, u, v, u) =
        words_diff (merged s (w # w' # ws')) (v # vs')"
      using rest ws by (intro not_common_loop_words) (auto simp: Cons mod_Suc add.commute split: if_splits)
    then show ?thesis unfolding defs using r2 load by (auto simp: Cons ws)
  next
    case r3
    then have "not_common_loop m s (8 * 8 - s) CDo2 P (srcp2 - 8) (length vs + 1) (w, w', u, u) (u, v, u, u) =
        words_diff (merged s (w # w' # ws')) (v # vs')"
      using rest ws by (intro not_common_loop_words) (auto simp: Cons mod_Suc add.commute split: if_splits)
    then show ?thesis unfolding defs using r3 load by (auto simp: Cons ws)
  qed
qed

lemma MERGE_le_word:
  assumes "length xs = 8" "length ys = 8" "0 < d" "d < 8"
  shows "MERGE (le_word xs) (8 * d) (le_word ys) (8 * 8 - 8 * d) = le_word (drop d xs @ take d ys)"
proof (rule bit_word_eqI)
  fix n assume "n < LENGTH(64)"
  then have n: "n div 8 < 8" "n = 8 * (n div 8) + n mod 8" "n mod 8 < 8" by simp_all
  define k j where "k = n div 8" and "j = n mod 8"
  have kj: "k < 8" "n = 8 * k + j" "j < 8" using n by (simp_all add: k_def j_def)
  have shift: "8 * d + (8 * k + j) = 8 * (d + k) + j" by simp
  show "bit (MERGE (le_word xs) (8 * d) (le_word ys) (8 * 8 - 8 * d)) n =
      bit (le_word (drop d xs @ take d ys)) n"
  proof (cases "k < 8 - d")
    case True
    then have "\<not> 64 - 8 * d \<le> n" "d + k < 8" using kj by linarith+
    moreover from this have "bit (le_word xs) (8 * d + n) = bit (xs ! (d + k)) j"
      using bit_le_word [of "d + k" xs j] kj assms unfolding kj(2) shift by simp
    ultimately show ?thesis
      using kj assms True unfolding MERGE_def
      by (simp add: bit_simps bit_le_word nth_append)
  next
    case False
    define i where "i = k - (8 - d)"
    have i: "k = 8 - d + i" "i < d" using False kj assms by (simp_all add: i_def)
    have "64 - 8 * d \<le> n" "n - (64 - 8 * d) = 8 * i + j" "64 \<le> 8 * d + n"
      using kj i assms by auto
    moreover from this(3) have "\<not> bit (le_word xs) (8 * d + n)" using bit_imp_le_length [of "le_word xs" "8 * d + n"] by auto
    ultimately have "bit (MERGE (le_word xs) (8 * d) (le_word ys) (8 * 8 - 8 * d)) n = bit (ys ! i) j"
      using kj i assms bit_le_word [of i ys j] unfolding MERGE_def by (simp add: bit_simps)
    moreover have "(drop d xs @ take d ys) ! k = ys ! i"
      using i False assms by (simp add: nth_append)
    ultimately show ?thesis
      using bit_le_word [of k "drop d xs @ take d ys" j] kj assms by simp
  qed
qed

lemma merged_words_of:
  "8 * Suc n \<le> length zs \<Longrightarrow> 0 < d \<Longrightarrow> d < 8 \<Longrightarrow> merged (8 * d) (words_of (Suc n) zs) = words_of n (drop d zs)"
proof (induction n arbitrary: zs)
  case (Suc n)
  have "drop d (take 8 zs) @ take d (take 8 (drop 8 zs)) = take 8 (drop d zs)"
  proof -
    have "take 8 (drop d zs) = take ((8 - d) + d) (drop d zs)" using Suc.prems by simp
    also have "\<dots> = take (8 - d) (drop d zs) @ take d (drop 8 zs)"
      using Suc.prems by (simp only: take_add drop_drop) simp
    finally show ?thesis using Suc.prems by (simp add: drop_take min_def)
  qed
  then show ?case
    using Suc.IH [of "drop 8 zs"] Suc.prems MERGE_le_word [of "take 8 zs" "take 8 (drop 8 zs)" d]
    by (simp add: add.commute)
qed simp

section \<open>What memcmp returns\<close>

text \<open>Every longword boundary to boundary that holds a byte of the block is mapped.\<close>

definition words_mapped :: "mem \<Rightarrow> addr \<Rightarrow> nat \<Rightarrow> bool" where
  "words_mapped m p n \<longleftrightarrow> (\<forall>a\<in>{p..<p + n}. mapped m (a div 8 * 8) 8)"

lemma words_mapped_cover:
  assumes "words_mapped m p n" "0 < n"
  shows "mapped m (p div 8 * 8) (8 * Suc ((p + n - 1) div 8 - p div 8))"
  unfolding mapped_def
proof
  fix a assume a: "a \<in> {p div 8 * 8..<p div 8 * 8 + 8 * Suc ((p + n - 1) div 8 - p div 8)}"
  have le: "p div 8 \<le> (p + n - 1) div 8" using assms(2) by (intro div_le_mono) simp
  define q1 q2 where "q1 = p div 8" and "q2 = (p + n - 1) div 8"
  have "q1 * 8 \<le> a" "a < q1 * 8 + 8 * Suc (q2 - q1)" using a by (simp_all add: q1_def q2_def)
  moreover from this(2) le have "a < 8 * q2 + 8" unfolding q1_def [symmetric] q2_def [symmetric] by presburger
  ultimately have "q1 \<le> a div 8" "a div 8 \<le> q2" by linarith+
  then have ad: "p div 8 \<le> a div 8" "a div 8 \<le> (p + n - 1) div 8" by (simp_all add: q1_def q2_def)
  define b where "b = max p (a div 8 * 8)"
  have "b div 8 = a div 8" unfolding b_def using ad(1) by (auto simp: max_def div_le_mono antisym)
  moreover have "b \<in> {p..<p + n}" unfolding b_def using ad(2) assms(2) by (auto simp: max_def)
  ultimately have "mapped m (a div 8 * 8) 8" using assms(1) unfolding words_mapped_def by metis
  then show "a \<in> dom m" unfolding mapped_def by (rule subsetD) (auto simp: dividend_less_div_times)
qed

lemma memcmp_head_bytes:
  assumes "(s2 + h) mod 8 = 0" "h < 8" "h \<le> len" "bytes_at m s1 xs" "bytes_at m s2 ys"
    "length xs = len" "length ys = len"
  shows "memcmp_head m s1 s2 len =
    Some (if bytes_diff (take h xs) (take h ys) \<noteq> 0 then Inl (bytes_diff (take h xs) (take h ys))
      else Inr (s1 + h, s2 + h, len - h))"
  using assms
proof (induction h arbitrary: s1 s2 len xs ys)
  case 0
  then show ?case by (subst memcmp_head.simps) simp
next
  case (Suc h)
  then obtain x xs' y ys' where l: "xs = x # xs'" "ys = y # ys'"
    by (cases xs; cases ys; simp)
  have s2: "s2 mod 8 \<noteq> 0" using Suc.prems(1,2) by presburger
  have "memcmp_head m (s1 + 1) (s2 + 1) (len - 1) =
    Some (if bytes_diff (take h xs') (take h ys') \<noteq> 0 then Inl (bytes_diff (take h xs') (take h ys'))
      else Inr (s1 + 1 + h, s2 + 1 + h, len - 1 - h))"
    using Suc.prems l by (intro Suc.IH) auto
  then show ?case
    using Suc.prems s2 l
    by (subst memcmp_head.simps) (auto simp: op_int_diff uint_byte_eq Let_def split: if_splits)
qed

lemma memcmp_tail_bytes:
  "bytes_at m s1 xs \<Longrightarrow> bytes_at m s2 ys \<Longrightarrow> length ys = length xs \<Longrightarrow>
     memcmp_tail m s1 s2 (length xs) = Some (bytes_diff xs ys)"
  by (induction xs ys arbitrary: s1 s2 rule: bytes_diff.induct) (auto simp: op_int_diff uint_byte_eq Let_def)

lemma bytes_at_unique: "bytes_at m p xs \<Longrightarrow> bytes_at m p ys \<Longrightarrow> length xs = length ys \<Longrightarrow> xs = ys"
  by (rule nth_equalityI) (simp_all add: bytes_at_nth)

lemma words_not_common_bytes:
  assumes "s1 mod 8 \<noteq> 0" "bytes_at m s1 xs" "bytes_at m s2 ys" "8 * n \<le> length xs" "8 * n \<le> length ys" "0 < n"
    and "words_mapped m s1 (8 * n)"
  shows "memcmp_not_common_alignment m u (int s1) (int s2) n = Some (bytes_diff (take (8 * n) xs) (take (8 * n) ys))"
proof -
  define P d where "P = s1 div 8 * 8" and "d = s1 mod 8"
  have d: "0 < d" "d < 8" "s1 = P + d" using assms(1) by (simp_all add: P_def d_def)
  have "(s1 + 8 * n - 1) div 8 - s1 div 8 = n" using d assms(6) unfolding P_def d_def by linarith
  then have "mapped m P (8 * Suc n)" using words_mapped_cover [OF assms(7)] assms(6) by (simp add: P_def)
  then obtain zs where zs: "length zs = 8 * Suc n" "bytes_at m P zs" using mapped_bytes_at by blast
  have "bytes_at m s1 (take (8 * n) (drop d zs))" "bytes_at m s1 (take (8 * n) xs)"
    using zs d assms(2) by (simp_all add: bytes_at_take bytes_at_drop)
  then have same: "take (8 * n) (drop d zs) = take (8 * n) xs"
    using zs d assms(4) by (intro bytes_at_unique [of m s1]) simp_all
  have "int s1 div 8 * 8 = int P" "nat (int s1 mod 8) = d"
    unfolding P_def d_def by (simp_all add: zdiv_int nat_mod_distrib)
  then have "memcmp_not_common_alignment m u (int s1) (int s2) (length (words_of n ys)) =
      words_diff (merged (8 * d) (words_of (Suc n) zs)) (words_of n ys)"
    using memcmp_not_common_words [of m "int s1" "words_of (Suc n) zs" "int s2" "words_of n ys" u]
      words_at_words_of [OF zs(2), of "Suc n"] words_at_words_of [OF assms(3,5)] zs(1) by simp
  also have "\<dots> = words_diff (words_of n (drop d zs)) (words_of n ys)"
    using d zs by (subst merged_words_of) simp_all
  also have "\<dots> = Some (bytes_diff (take (8 * n) xs) (take (8 * n) ys))"
    using d zs assms(5) by (subst words_diff_words_of) (simp_all add: same)
  finally show ?thesis by simp
qed

lemma memcmp_words_bytes:
  assumes "bytes_at m s1 xs" "bytes_at m s2 ys" "length xs = len" "length ys = len" "8 \<le> len"
    and "words_mapped m s1 len"
  shows "memcmp_words m u s1 s2 len =
    (let n = 8 * (len div 8); d = bytes_diff (take n xs) (take n ys) in
     Some (if d \<noteq> 0 then Inl d else Inr (s1 + n, s2 + n, len mod 8)))"
proof -
  define n where "n = len div 8"
  have n: "0 < n" "8 * n \<le> length xs" "8 * n \<le> length ys" using assms(3-5) by (simp_all add: n_def div_greater_zero_iff)
  have sub: "words_mapped m s1 (8 * n)" using assms(3,6) n unfolding words_mapped_def by auto
  have "(if s1 mod 8 = 0 then memcmp_common_alignment m u (int s1) (int s2) n
      else memcmp_not_common_alignment m u (int s1) (int s2) n) =
    Some (bytes_diff (take (8 * n) xs) (take (8 * n) ys))"
  proof (cases "s1 mod 8 = 0")
    case True
    have "memcmp_common_alignment m u (int s1) (int s2) (length (words_of n xs)) =
        words_diff (words_of n xs) (words_of n ys)"
      using words_at_words_of [OF assms(1) n(2)] words_at_words_of [OF assms(2) n(3)]
      by (intro memcmp_common_words) simp_all
    then show ?thesis using True words_diff_words_of [OF n(2,3)] by simp
  next
    case False
    then show ?thesis using words_not_common_bytes [OF False assms(1,2) n(2,3,1) sub] by simp
  qed
  from this show ?thesis
    unfolding memcmp_words_def n_def [symmetric] Let_def by (simp only: bind.bind_lunit) (simp add: mult.commute)
qed

text \<open>The longwords of the first block that are read lie on the longword boundaries it touches.\<close>

lemma memcmp_block:
  assumes "bytes_at m s1 xs" "bytes_at m s2 ys" "length xs = len" "length ys = len"
    and "words_mapped m s1 len"
  shows "memcmp m u s1 s2 len = Some (bytes_diff xs ys)"
proof (cases "len \<ge> 16")
  case False
  then show ?thesis using memcmp_tail_bytes [OF assms(1,2)] assms(3,4) by (simp add: memcmp_def Let_def)
next
  case True
  define h where "h = (8 - s2 mod 8) mod 8"
  have "(s2 + h) mod 8 = (s2 mod 8 + (8 - s2 mod 8)) mod 8"
    unfolding h_def by (simp only: mod_add_eq mod_add_left_eq mod_add_right_eq)
  also have "s2 mod 8 + (8 - s2 mod 8) = 8" by simp
  finally have "(s2 + h) mod 8 = 0" by simp
  moreover have "h < 8" by (simp add: h_def)
  ultimately have h: "(s2 + h) mod 8 = 0" "h < 8" "h \<le> len" using True by simp_all
  define xs' ys' len' where "xs' = drop h xs" and "ys' = drop h ys" and "len' = len - h"
  have b: "bytes_at m (s1 + h) xs'" "bytes_at m (s2 + h) ys'" "length xs' = len'" "length ys' = len'" "8 \<le> len'"
    using assms h True by (simp_all add: xs'_def ys'_def len'_def bytes_at_drop)
  have w: "words_mapped m (s1 + h) len'" using assms(5) h unfolding words_mapped_def len'_def by auto
  define n where "n = 8 * (len' div 8)"
  have n: "n \<le> len'" "len' mod 8 = len' - n" by (simp_all add: n_def minus_mult_div_eq_mod)
  have "memcmp_tail m (s1 + h + n) (s2 + h + n) (length (drop n xs')) = Some (bytes_diff (drop n xs') (drop n ys'))"
    using b n by (intro memcmp_tail_bytes) (simp_all add: bytes_at_drop)
  then have tail: "memcmp_tail m (s1 + h + n) (s2 + h + n) (len' - n) = Some (bytes_diff (drop n xs') (drop n ys'))"
    using b by simp
  have s1: "bytes_diff xs ys = (if bytes_diff (take h xs) (take h ys) \<noteq> 0 then bytes_diff (take h xs) (take h ys)
      else bytes_diff xs' ys')"
    unfolding xs'_def ys'_def using h assms by (intro bytes_diff_split) simp_all
  have s2: "bytes_diff xs' ys' = (if bytes_diff (take n xs') (take n ys') \<noteq> 0 then bytes_diff (take n xs') (take n ys')
      else bytes_diff (drop n xs') (drop n ys'))"
    using n b by (intro bytes_diff_split) simp_all
  show ?thesis
    unfolding memcmp_def memcmp_head_bytes [OF h assms(1,2,3,4)] s1 s2
    using True memcmp_words_bytes [OF b w, of u] tail
    by (simp add: Let_def n_def [symmetric] n(2) len'_def [symmetric])
qed

section \<open>memmove\<close>

text \<open>\<open>BYTE_COPY_BWD\<close>: the last byte first; both pointers end at the bytes copied last.\<close>

fun BYTE_COPY_BWD :: "mem \<Rightarrow> addr \<Rightarrow> addr \<Rightarrow> nat \<Rightarrow> (mem \<times> addr \<times> addr) option" where
  "BYTE_COPY_BWD m dst_ep src_ep 0 = Some (m, dst_ep, src_ep)"
| "BYTE_COPY_BWD m dst_ep src_ep (Suc nbytes) = do {
     let src_ep = src_ep - 1;
     x \<leftarrow> m src_ep;
     let dst_ep = dst_ep - 1;
     m \<leftarrow> store m dst_ep x;
     BYTE_COPY_BWD m dst_ep src_ep nbytes }"

datatype bwd_label = Do1 | Do2 | Do3 | Do4 | Do5 | Do6 | Do7 | Do8

text \<open>The index of the longword that is loaded and stored at a label.\<close>

fun bwd_pos :: "bwd_label \<Rightarrow> nat" where
  "bwd_pos Do1 = 0"
| "bwd_pos Do2 = 1"
| "bwd_pos Do3 = 2"
| "bwd_pos Do4 = 3"
| "bwd_pos Do5 = 4"
| "bwd_pos Do6 = 5"
| "bwd_pos Do7 = 6"
| "bwd_pos Do8 = 7"

function bwd_loop ::
    "bwd_label \<Rightarrow> mem \<Rightarrow> int \<Rightarrow> int \<Rightarrow> nat \<Rightarrow> 64 word \<Rightarrow> 64 word \<Rightarrow> mem option" where
  "bwd_loop Do8 m dstp srcp len a0 a1 = do {
     a0 \<leftarrow> op_load m srcp 7; m \<leftarrow> op_store m dstp 7 a1; bwd_loop Do7 m dstp srcp len a0 a1 }"
| "bwd_loop Do7 m dstp srcp len a0 a1 = do {
     a1 \<leftarrow> op_load m srcp 6; m \<leftarrow> op_store m dstp 6 a0; bwd_loop Do6 m dstp srcp len a0 a1 }"
| "bwd_loop Do6 m dstp srcp len a0 a1 = do {
     a0 \<leftarrow> op_load m srcp 5; m \<leftarrow> op_store m dstp 5 a1; bwd_loop Do5 m dstp srcp len a0 a1 }"
| "bwd_loop Do5 m dstp srcp len a0 a1 = do {
     a1 \<leftarrow> op_load m srcp 4; m \<leftarrow> op_store m dstp 4 a0; bwd_loop Do4 m dstp srcp len a0 a1 }"
| "bwd_loop Do4 m dstp srcp len a0 a1 = do {
     a0 \<leftarrow> op_load m srcp 3; m \<leftarrow> op_store m dstp 3 a1; bwd_loop Do3 m dstp srcp len a0 a1 }"
| "bwd_loop Do3 m dstp srcp len a0 a1 = do {
     a1 \<leftarrow> op_load m srcp 2; m \<leftarrow> op_store m dstp 2 a0; bwd_loop Do2 m dstp srcp len a0 a1 }"
| "bwd_loop Do2 m dstp srcp len a0 a1 = do {
     a0 \<leftarrow> op_load m srcp 1; m \<leftarrow> op_store m dstp 1 a1; bwd_loop Do1 m dstp srcp len a0 a1 }"
| "bwd_loop Do1 m dstp srcp len a0 a1 = do {
     a1 \<leftarrow> op_load m srcp 0; m \<leftarrow> op_store m dstp 0 a0;
     let srcp = srcp - 8 * 8;
     let dstp = dstp - 8 * 8;
     let len = len - 8;
     if len \<noteq> 0 then bwd_loop Do8 m dstp srcp len a0 a1
     else op_store m dstp 7 a1 }"
  by pat_completeness auto
termination by (relation "measure (\<lambda>(l, m, d, s, len, a0, a1). 8 * len + bwd_pos l)") auto

declare bwd_loop.simps [simp del]

definition wordcopy_bwd_aligned :: "mem \<Rightarrow> int \<Rightarrow> int \<Rightarrow> nat \<Rightarrow> mem option" where
  "wordcopy_bwd_aligned m dstp srcp len =
     (let r = len mod 8 in
      if r = 2 then do {
        let srcp = srcp - 2 * 8; let dstp = dstp - 1 * 8;
        a0 \<leftarrow> op_load m srcp 1; bwd_loop Do1 m dstp srcp (len + 6) a0 0 }
      else if r = 3 then do {
        let srcp = srcp - 3 * 8; let dstp = dstp - 2 * 8;
        a1 \<leftarrow> op_load m srcp 2; bwd_loop Do2 m dstp srcp (len + 5) 0 a1 }
      else if r = 4 then do {
        let srcp = srcp - 4 * 8; let dstp = dstp - 3 * 8;
        a0 \<leftarrow> op_load m srcp 3; bwd_loop Do3 m dstp srcp (len + 4) a0 0 }
      else if r = 5 then do {
        let srcp = srcp - 5 * 8; let dstp = dstp - 4 * 8;
        a1 \<leftarrow> op_load m srcp 4; bwd_loop Do4 m dstp srcp (len + 3) 0 a1 }
      else if r = 6 then do {
        let srcp = srcp - 6 * 8; let dstp = dstp - 5 * 8;
        a0 \<leftarrow> op_load m srcp 5; bwd_loop Do5 m dstp srcp (len + 2) a0 0 }
      else if r = 7 then do {
        let srcp = srcp - 7 * 8; let dstp = dstp - 6 * 8;
        a1 \<leftarrow> op_load m srcp 6; bwd_loop Do6 m dstp srcp (len + 1) 0 a1 }
      else if r = 0 then
        (if len = 0 then Some m
         else do {
           let srcp = srcp - 8 * 8; let dstp = dstp - 7 * 8;
           a0 \<leftarrow> op_load m srcp 7; bwd_loop Do7 m dstp srcp len a0 0 })
      else do {
        let srcp = srcp - 9 * 8; let dstp = dstp - 8 * 8;
        a1 \<leftarrow> op_load m srcp 8;
        let len = len - 1;
        if len = 0 then op_store m dstp 7 a1 else bwd_loop Do8 m dstp srcp len 0 a1 })"

datatype dest_label = DDo1 | DDo2 | DDo3 | DDo4

fun dest_pos :: "dest_label \<Rightarrow> nat" where
  "dest_pos DDo1 = 0"
| "dest_pos DDo2 = 1"
| "dest_pos DDo3 = 2"
| "dest_pos DDo4 = 3"

function bwd_dest_loop ::
    "nat \<Rightarrow> nat \<Rightarrow> dest_label \<Rightarrow> mem \<Rightarrow> int \<Rightarrow> int \<Rightarrow> nat \<Rightarrow> regs \<Rightarrow> mem option" where
  "bwd_dest_loop sh_1 sh_2 DDo4 m dstp srcp len (a0, a1, a2, a3) = do {
     a3 \<leftarrow> op_load m srcp 3; m \<leftarrow> op_store m dstp 3 (MERGE a0 sh_1 a1 sh_2);
     bwd_dest_loop sh_1 sh_2 DDo3 m dstp srcp len (a0, a1, a2, a3) }"
| "bwd_dest_loop sh_1 sh_2 DDo3 m dstp srcp len (a0, a1, a2, a3) = do {
     a2 \<leftarrow> op_load m srcp 2; m \<leftarrow> op_store m dstp 2 (MERGE a3 sh_1 a0 sh_2);
     bwd_dest_loop sh_1 sh_2 DDo2 m dstp srcp len (a0, a1, a2, a3) }"
| "bwd_dest_loop sh_1 sh_2 DDo2 m dstp srcp len (a0, a1, a2, a3) = do {
     a1 \<leftarrow> op_load m srcp 1; m \<leftarrow> op_store m dstp 1 (MERGE a2 sh_1 a3 sh_2);
     bwd_dest_loop sh_1 sh_2 DDo1 m dstp srcp len (a0, a1, a2, a3) }"
| "bwd_dest_loop sh_1 sh_2 DDo1 m dstp srcp len (a0, a1, a2, a3) = do {
     a0 \<leftarrow> op_load m srcp 0; m \<leftarrow> op_store m dstp 0 (MERGE a1 sh_1 a2 sh_2);
     let srcp = srcp - 4 * 8;
     let dstp = dstp - 4 * 8;
     let len = len - 4;
     if len \<noteq> 0 then bwd_dest_loop sh_1 sh_2 DDo4 m dstp srcp len (a0, a1, a2, a3)
     else op_store m dstp 3 (MERGE a0 sh_1 a1 sh_2) }"
  by pat_completeness auto
termination by (relation "measure (\<lambda>(s1, s2, l, m, d, s, len, a). 4 * len + dest_pos l)") auto

declare bwd_dest_loop.simps [simp del]

definition wordcopy_bwd_dest_aligned :: "mem \<Rightarrow> int \<Rightarrow> int \<Rightarrow> nat \<Rightarrow> mem option" where
  "wordcopy_bwd_dest_aligned m dstp srcp len =
     (let sh_1 = 8 * nat (srcp mod 8); sh_2 = 8 * 8 - sh_1;
          srcp = srcp div 8 * 8 + 8; r = len mod 4 in
      if r = 2 then do {
        let srcp = srcp - 3 * 8; let dstp = dstp - 1 * 8;
        a2 \<leftarrow> op_load m srcp 2; a1 \<leftarrow> op_load m srcp 1;
        bwd_dest_loop sh_1 sh_2 DDo1 m dstp srcp (len + 2) (0, a1, a2, 0) }
      else if r = 3 then do {
        let srcp = srcp - 4 * 8; let dstp = dstp - 2 * 8;
        a3 \<leftarrow> op_load m srcp 3; a2 \<leftarrow> op_load m srcp 2;
        bwd_dest_loop sh_1 sh_2 DDo2 m dstp srcp (len + 1) (0, 0, a2, a3) }
      else if r = 0 then
        (if len = 0 then Some m
         else do {
           let srcp = srcp - 5 * 8; let dstp = dstp - 3 * 8;
           a0 \<leftarrow> op_load m srcp 4; a3 \<leftarrow> op_load m srcp 3;
           bwd_dest_loop sh_1 sh_2 DDo3 m dstp srcp len (a0, 0, 0, a3) })
      else do {
        let srcp = srcp - 6 * 8; let dstp = dstp - 4 * 8;
        a1 \<leftarrow> op_load m srcp 5; a0 \<leftarrow> op_load m srcp 4;
        let len = len - 1;
        if len = 0 then op_store m dstp 3 (MERGE a0 sh_1 a1 sh_2)
        else bwd_dest_loop sh_1 sh_2 DDo4 m dstp srcp len (a0, a1, 0, 0) })"

text \<open>\<open>WORD_COPY_BWD\<close>: what is left to copy afterwards.\<close>

definition WORD_COPY_BWD :: "mem \<Rightarrow> addr \<Rightarrow> addr \<Rightarrow> nat \<Rightarrow> (mem \<times> addr \<times> addr \<times> nat) option" where
  "WORD_COPY_BWD m dst_ep src_ep nbytes = do {
     m \<leftarrow> (if src_ep mod OPSIZ = 0
          then wordcopy_bwd_aligned m (int dst_ep) (int src_ep) (nbytes div OPSIZ)
          else wordcopy_bwd_dest_aligned m (int dst_ep) (int src_ep) (nbytes div OPSIZ));
     Some (m, dst_ep - nbytes div OPSIZ * OPSIZ, src_ep - nbytes div OPSIZ * OPSIZ, nbytes mod OPSIZ) }"

text \<open>
  \<open>memcpy\<close> is assembly. The test is an unsigned comparison of the wrapped difference of the
  pointers; the result is the memory, \<open>dest\<close> being returned unchanged.
\<close>

definition memmove ::
    "(mem \<Rightarrow> addr \<Rightarrow> addr \<Rightarrow> nat \<Rightarrow> mem option) \<Rightarrow> mem \<Rightarrow> addr \<Rightarrow> addr \<Rightarrow> nat \<Rightarrow> mem option" where
  "memmove memcpy m dest src len =
     (if (of_nat dest - of_nat src :: 64 word) \<ge> of_nat len then memcpy m dest src len
      else do {
        let srcp = src + len;
        let dstp = dest + len;
        (m, dstp, srcp, len) \<leftarrow>
          (if len \<ge> OP_T_THRES then do {
             let len = len - dstp mod OPSIZ;
             (m, dstp, srcp) \<leftarrow> BYTE_COPY_BWD m dstp srcp (dstp mod OPSIZ);
             WORD_COPY_BWD m dstp srcp len }
           else Some (m, dstp, srcp, len));
        (m, _, _) \<leftarrow> BYTE_COPY_BWD m dstp srcp len;
        Some m })"

section \<open>Backward copies\<close>

definition word_bytes :: "64 word \<Rightarrow> byte list" where
  "word_bytes w = [byte_of 0 w, byte_of 1 w, byte_of 2 w, byte_of 3 w, byte_of 4 w, byte_of 5 w, byte_of 6 w, byte_of 7 w]"

lemma word_bytes_le_word: "length bs = 8 \<Longrightarrow> word_bytes (le_word bs) = bs"
proof (rule nth_equalityI)
  fix k assume "length bs = 8" "k < length (word_bytes (le_word bs))"
  then have "word_bytes (le_word bs) ! k = byte_of k (le_word bs)"
    by (auto simp: word_bytes_def less_Suc_eq numeral_eq_Suc)
  then show "word_bytes (le_word bs) ! k = bs ! k"
    using \<open>length bs = 8\<close> \<open>k < _\<close> by (simp add: byte_of_le_word word_bytes_def)
qed (simp add: word_bytes_def)

lemma store_write: "a \<in> dom m \<Longrightarrow> store m a v = Some (write_bytes m a [v])"
  by (auto simp: store_def)

lemma store_long_write:
  assumes "mapped m p 8"
  shows "store_long m p w = Some (write_bytes m p (word_bytes w))"
proof -
  have "p + k \<in> dom m" if "k < 8" for k using mapped_load [OF assms that] by auto
  from this [of 0] this [of 1] this [of 2] this [of 3] this [of 4] this [of 5] this [of 6] this [of 7]
  show ?thesis
    by (simp add: store_long_def store_write word_bytes_def numeral_eq_Suc)
qed

lemma write_bytes_after: "write_bytes (write_bytes m (p + length ys) x) p ys = write_bytes m p (ys @ x)"
  by (rule ext) (auto simp: write_bytes_def nth_append)

fun bwd_next :: "bwd_label \<Rightarrow> bwd_label" where
  "bwd_next Do8 = Do7" | "bwd_next Do7 = Do6" | "bwd_next Do6 = Do5" | "bwd_next Do5 = Do4"
| "bwd_next Do4 = Do3" | "bwd_next Do3 = Do2" | "bwd_next Do2 = Do1" | "bwd_next Do1 = Do8"

lemma bwd_next_pos: "0 < bwd_pos l \<Longrightarrow> bwd_pos (bwd_next l) = bwd_pos l - 1" "bwd_pos l = 0 \<longleftrightarrow> l = Do1"
  "bwd_pos l < 8"
  by (cases l; simp)+

lemma bwd_loop_step:
  assumes "0 < bwd_pos l"
  shows "bwd_loop l m dstp srcp len a0 a1 = do {
    v \<leftarrow> op_load m srcp (bwd_pos l);
    m \<leftarrow> op_store m dstp (bwd_pos l) (if even (bwd_pos l) then a0 else a1);
    bwd_loop (bwd_next l) m dstp srcp len (if even (bwd_pos l) then a0 else v) (if even (bwd_pos l) then v else a1) }"
  using assms by (cases l) (simp_all add: bwd_loop.simps)

text \<open>
  At a label the longword \<open>x\<close> is in a register, \<open>n\<close> longwords at \<open>S\<close> are still to be loaded,
  and \<open>x\<close> belongs behind their copies.
\<close>

lemma bwd_loop_bytes:
  assumes "bytes_at m S bs" "length bs = 8 * n" "length x = 8" "mapped m D (8 * Suc n)" "S \<le> D"
    and "0 < n" "len = n + 7 - bwd_pos l" "len mod 8 = 0"
    and "srcp + 8 * int (bwd_pos l) = int S + 8 * int (n - 1)" "dstp + 8 * int (bwd_pos l) = int D + 8 * int n"
    and "(if even (bwd_pos l) then a0 else a1) = le_word x"
  shows "bwd_loop l m dstp srcp len a0 a1 = Some (write_bytes m D (bs @ x))"
  using assms
proof (induction n arbitrary: l m dstp srcp len a0 a1 bs x)
  case (Suc n)
  define ys w where "ys = take (8 * n) bs" and "w = drop (8 * n) bs"
  have bs: "bs = ys @ w" "length ys = 8 * n" "length w = 8" using Suc.prems(2) by (simp_all add: ys_def w_def)
  define m1 where "m1 = write_bytes m (D + 8 * Suc n) x"
  have "bytes_at m (S + 8 * n) w" using Suc.prems(1) bs by simp
  then have load: "op_load m srcp (bwd_pos l) = Some (le_word w)"
    using Suc.prems(9) bs by (simp add: op_load_def load_long_bytes nat_add_distrib nat_mult_distrib)
  have "nat (dstp + 8 * int (bwd_pos l)) = D + 8 * Suc n" using Suc.prems(10) by simp
  moreover have "mapped m (D + 8 * Suc n) 8" using Suc.prems(4) mapped_sub [of m D "8 * Suc (Suc n)" "8 * Suc n" 8] by simp
  ultimately have st: "op_store m dstp (bwd_pos l) (le_word x) = Some m1"
    using Suc.prems(3) by (simp add: op_store_def store_long_write word_bytes_le_word m1_def)
  have b1: "bytes_at m1 S ys"
    using Suc.prems(1,5) bs unfolding m1_def by (subst bytes_at_write_disjoint) (auto simp: disjoint_def)
  have mp: "mapped m1 D (8 * Suc n)" using Suc.prems(4) mapped_mono unfolding m1_def by (intro mapped_write) fastforce
  have fin: "write_bytes m1 D (ys @ w) = write_bytes m D (bs @ x)"
    unfolding m1_def bs(1) using bs write_bytes_after [of m D "ys @ w" x] by (simp add: add.commute)
  show ?case
  proof (cases "l = Do1")
    case False
    then have k: "0 < bwd_pos l" by (cases l) simp_all
    have n: "0 < n"
    proof (rule ccontr)
      assume "\<not> 0 < n"
      then have "len = 8 - bwd_pos l" using Suc.prems(7) by simp
      then show False using Suc.prems(8) k bwd_next_pos(3) [of l] by simp
    qed
    have "bwd_loop (bwd_next l) m1 dstp srcp len (if even (bwd_pos l) then a0 else le_word w)
        (if even (bwd_pos l) then le_word w else a1) = Some (write_bytes m1 D (ys @ w))"
      using Suc.prems(5,7-10) k n
      by (intro Suc.IH b1 bs mp) (auto simp: bwd_next_pos of_nat_diff bwd_next_pos(3) less_imp_le split: if_splits)
    then show ?thesis
      unfolding bwd_loop_step [OF k] load Suc.prems(11) fin [symmetric] by (simp add: st)
  next
    case True
    note p = Suc.prems(7-11) [unfolded True, simplified]
    show ?thesis
    proof (cases "n = 0")
      case n0: True
      have "op_store m1 (dstp - 64) 7 (le_word w) = Some (write_bytes m1 D w)"
        using p(4) n0 bs mp by (simp add: op_store_def store_long_write word_bytes_le_word)
      then show ?thesis
        using load st p True n0 bs unfolding fin [symmetric] by (simp add: bwd_loop.simps(8))
    next
      case False
      have "bwd_loop Do8 m1 (dstp - 64) (srcp - 64) (len - 8) (le_word x) (le_word w) = Some (write_bytes m1 D (ys @ w))"
        using Suc.prems(5) p False by (intro Suc.IH b1 bs mp) (auto simp: of_nat_diff mod_Suc split: if_splits)
      then show ?thesis
        using load st p True False unfolding fin [symmetric] by (simp add: bwd_loop.simps(8))
    qed
  qed
qed simp

lemma wordcopy_bwd_aligned_bytes:
  assumes "bytes_at m S bs" "length bs = 8 * n" "mapped m D (8 * n)" "S \<le> D"
  shows "wordcopy_bwd_aligned m (int (D + 8 * n)) (int (S + 8 * n)) n = Some (write_bytes m D bs)"
proof (cases n)
  case 0
  then show ?thesis using assms by (simp add: wordcopy_bwd_aligned_def)
next
  case (Suc n')
  define ys w where "ys = take (8 * n') bs" and "w = drop (8 * n') bs"
  have bs: "bs = ys @ w" "length ys = 8 * n'" "length w = 8" using assms(2) Suc by (simp_all add: ys_def w_def)
  have b: "bytes_at m S ys" "bytes_at m (S + 8 * n') w" using assms(1) bs by simp_all
  have load: "op_load m srcp k = Some (le_word w)" if "srcp + 8 * int k = int S + 8 * int n'" for srcp k
    using b bs that by (simp add: op_load_def load_long_bytes nat_add_distrib nat_mult_distrib)
  have mp: "mapped m D (8 * Suc n')" using assms(3) Suc by simp
  show ?thesis
  proof (cases "n' = 0")
    case True
    have "op_store m (int D - 56) 7 (le_word w) = Some (write_bytes m D w)"
      using bs mp True by (simp add: op_store_def store_long_write word_bytes_le_word)
    then show ?thesis
      using True Suc bs load [of "int S - 64" 8] by (simp add: wordcopy_bwd_aligned_def Let_def)
  next
    case False
    then have n': "0 < n'" by simp
    note loop = bwd_loop_bytes [OF b(1) bs(2,3) mp assms(4) n']
    have "n mod 8 < 8" by simp
    then consider "n mod 8 = 0" | "n mod 8 = 1" | "n mod 8 = 2" | "n mod 8 = 3" | "n mod 8 = 4" | "n mod 8 = 5"
      | "n mod 8 = 6" | "n mod 8 = 7" by linarith
    then show ?thesis
    proof cases
      case 1
      then have "bwd_loop Do7 m (int D + 8 * int n - 56) (int S + 8 * int n - 64) n (le_word w) 0 = Some (write_bytes m D bs)"
        unfolding bs(1) using Suc n' by (intro loop) (auto simp: of_nat_diff)
      then show ?thesis using 1 Suc load [of "int S + 8 * int n - 64" 7]
        by (simp add: wordcopy_bwd_aligned_def Let_def)
    next
      case 2
      then have "bwd_loop Do8 m (int D + 8 * int n - 64) (int S + 8 * int n - 72) (n - 1) 0 (le_word w) = Some (write_bytes m D bs)"
        unfolding bs(1) using Suc n' by (intro loop) (auto simp: of_nat_diff mod_Suc split: if_splits)
      then show ?thesis using 2 Suc n' load [of "int S + 8 * int n - 72" 8]
        by (simp add: wordcopy_bwd_aligned_def Let_def)
    next
      case 3
      then have "bwd_loop Do1 m (int D + 8 * int n - 8) (int S + 8 * int n - 16) (n + 6) (le_word w) 0 = Some (write_bytes m D bs)"
        unfolding bs(1) using Suc n' by (intro loop) (auto simp: of_nat_diff mod_Suc split: if_splits, presburger)
      then show ?thesis using 3 load [of "int S + 8 * int n - 16" 1] Suc
        by (simp add: wordcopy_bwd_aligned_def Let_def)
    next
      case 4
      then have "bwd_loop Do2 m (int D + 8 * int n - 16) (int S + 8 * int n - 24) (n + 5) 0 (le_word w) = Some (write_bytes m D bs)"
        unfolding bs(1) using Suc n' by (intro loop) (auto simp: of_nat_diff, presburger)
      then show ?thesis using 4 load [of "int S + 8 * int n - 24" 2] Suc
        by (simp add: wordcopy_bwd_aligned_def Let_def)
    next
      case 5
      then have "bwd_loop Do3 m (int D + 8 * int n - 24) (int S + 8 * int n - 32) (n + 4) (le_word w) 0 = Some (write_bytes m D bs)"
        unfolding bs(1) using Suc n' by (intro loop) (auto simp: of_nat_diff, presburger)
      then show ?thesis using 5 load [of "int S + 8 * int n - 32" 3] Suc
        by (simp add: wordcopy_bwd_aligned_def Let_def)
    next
      case 6
      then have "bwd_loop Do4 m (int D + 8 * int n - 32) (int S + 8 * int n - 40) (n + 3) 0 (le_word w) = Some (write_bytes m D bs)"
        unfolding bs(1) using Suc n' by (intro loop) (auto simp: of_nat_diff, presburger)
      then show ?thesis using 6 load [of "int S + 8 * int n - 40" 4] Suc
        by (simp add: wordcopy_bwd_aligned_def Let_def)
    next
      case 7
      then have "bwd_loop Do5 m (int D + 8 * int n - 40) (int S + 8 * int n - 48) (n + 2) (le_word w) 0 = Some (write_bytes m D bs)"
        unfolding bs(1) using Suc n' by (intro loop) (auto simp: of_nat_diff, presburger)
      then show ?thesis using 7 load [of "int S + 8 * int n - 48" 5] Suc
        by (simp add: wordcopy_bwd_aligned_def Let_def)
    next
      case 8
      then have "bwd_loop Do6 m (int D + 8 * int n - 48) (int S + 8 * int n - 56) (n + 1) 0 (le_word w) = Some (write_bytes m D bs)"
        unfolding bs(1) using Suc n' by (intro loop) (auto simp: of_nat_diff, presburger)
      then show ?thesis using 8 load [of "int S + 8 * int n - 56" 6] Suc
        by (simp add: wordcopy_bwd_aligned_def Let_def)
    qed
  qed
qed

fun dest_pending :: "dest_label \<Rightarrow> regs \<Rightarrow> 64 word \<times> 64 word" where
  "dest_pending DDo4 (a0, a1, a2, a3) = (a0, a1)"
| "dest_pending DDo3 (a0, a1, a2, a3) = (a3, a0)"
| "dest_pending DDo2 (a0, a1, a2, a3) = (a2, a3)"
| "dest_pending DDo1 (a0, a1, a2, a3) = (a1, a2)"

fun dest_next :: "dest_label \<Rightarrow> dest_label" where
  "dest_next DDo4 = DDo3" | "dest_next DDo3 = DDo2" | "dest_next DDo2 = DDo1" | "dest_next DDo1 = DDo4"

fun dest_set :: "dest_label \<Rightarrow> 64 word \<Rightarrow> regs \<Rightarrow> regs" where
  "dest_set DDo4 v (a0, a1, a2, a3) = (a0, a1, a2, v)"
| "dest_set DDo3 v (a0, a1, a2, a3) = (a0, a1, v, a3)"
| "dest_set DDo2 v (a0, a1, a2, a3) = (a0, v, a2, a3)"
| "dest_set DDo1 v (a0, a1, a2, a3) = (v, a1, a2, a3)"

lemma dest_next_facts:
  "0 < dest_pos l \<Longrightarrow> dest_pos (dest_next l) = dest_pos l - 1"
  "dest_pending l a = (u, w) \<Longrightarrow> dest_pending (dest_next l) (dest_set l v a) = (v, u)"
  "dest_pos l < 4"
  by (cases l; cases a; simp)+

lemma bwd_dest_loop_step:
  "bwd_dest_loop sh_1 sh_2 l m dstp srcp len a = do {
    v \<leftarrow> op_load m srcp (dest_pos l);
    m \<leftarrow> op_store m dstp (dest_pos l) (MERGE (fst (dest_pending l a)) sh_1 (snd (dest_pending l a)) sh_2);
    let a = dest_set l v a;
    if 0 < dest_pos l then bwd_dest_loop sh_1 sh_2 (dest_next l) m dstp srcp len a
    else if len - 4 \<noteq> 0 then bwd_dest_loop sh_1 sh_2 DDo4 m (dstp - 4 * 8) (srcp - 4 * 8) (len - 4) a
    else op_store m (dstp - 4 * 8) 3 (MERGE (fst (dest_pending DDo4 a)) sh_1 (snd (dest_pending DDo4 a)) sh_2) }"
  by (cases a; cases l; hypsubst; subst bwd_dest_loop.simps; simp add: Let_def not_le cong: if_cong)

lemma shifted_snoc:
  assumes "length xs = 8 * n" "length p = 8" "length q = 8" "d < 8"
  shows "take (8 * Suc n) (drop d (xs @ p @ q)) = take (8 * n) (drop d (xs @ p)) @ drop d p @ take d q"
proof -
  let ?L = "drop d (xs @ p @ q)"
  have split: "take (8 * Suc n) ?L = take (8 * n) ?L @ take 8 (drop (8 * n) ?L)"
    using take_add [of "8 * n" 8 ?L] by (simp only: mult_Suc_right add.commute [of 8])
  have rest: "drop (8 * n) ?L = drop d (p @ q)"
    using assms(1) by (simp only: drop_drop add.commute [of "8 * n"]) simp
  have last: "take 8 (drop d (p @ q)) = drop d p @ take d q" using assms by simp
  have front: "take (8 * n) ?L = take (8 * n) (drop d (xs @ p))"
    using assms by (cases "d \<le> 8 * n") simp_all
  show ?thesis unfolding split rest last front ..
qed

lemma bwd_dest_loop_bytes:
  assumes "bytes_at m S bs" "length bs = 8 * n" "length p = 8" "length q = 8" "mapped m D (8 * Suc n)" "S \<le> D"
    and "0 < n" "len = n + 3 - dest_pos l" "len mod 4 = 0" "0 < d" "d < 8"
    and "srcp + 8 * int (dest_pos l) = int S + 8 * int (n - 1)" "dstp + 8 * int (dest_pos l) = int D + 8 * int n"
    and "dest_pending l a = (le_word p, le_word q)"
  shows "bwd_dest_loop (8 * d) (8 * 8 - 8 * d) l m dstp srcp len a =
    Some (write_bytes m D (take (8 * Suc n) (drop d (bs @ p @ q))))"
  using assms
proof (induction n arbitrary: l m dstp srcp len a bs p q)
  case (Suc n)
  define ys w where "ys = take (8 * n) bs" and "w = drop (8 * n) bs"
  have bs: "bs = ys @ w" "length ys = 8 * n" "length w = 8" using Suc.prems(2) by (simp_all add: ys_def w_def)
  define x m1 where "x = drop d p @ take d q" and "m1 = write_bytes m (D + 8 * Suc n) x"
  have x: "length x = 8" using Suc.prems by (simp add: x_def)
  have "bytes_at m (S + 8 * n) w" using Suc.prems(1) bs by simp
  then have load: "op_load m srcp (dest_pos l) = Some (le_word w)"
    using Suc.prems(12) bs by (simp add: op_load_def load_long_bytes nat_add_distrib nat_mult_distrib)
  have "nat (dstp + 8 * int (dest_pos l)) = D + 8 * Suc n" using Suc.prems(13) by simp
  moreover have "mapped m (D + 8 * Suc n) 8" using Suc.prems(5) mapped_sub [of m D "8 * Suc (Suc n)" "8 * Suc n" 8] by simp
  moreover have merge: "MERGE (le_word p) (8 * d) (le_word q) (8 * 8 - 8 * d) = le_word x"
    unfolding x_def using Suc.prems by (intro MERGE_le_word) simp_all
  ultimately have st: "op_store m dstp (dest_pos l) (MERGE (fst (dest_pending l a)) (8 * d) (snd (dest_pending l a)) (8 * 8 - 8 * d)) = Some m1"
    unfolding Suc.prems(14) fst_conv snd_conv merge using x
    by (simp add: op_store_def store_long_write word_bytes_le_word m1_def)
  have b1: "bytes_at m1 S ys"
    using Suc.prems(1,6) bs x unfolding m1_def by (subst bytes_at_write_disjoint) (auto simp: disjoint_def)
  have mp: "mapped m1 D (8 * Suc n)" using Suc.prems(5) mapped_mono unfolding m1_def by (intro mapped_write) fastforce
  let ?z = "take (8 * Suc n) (drop d (ys @ w @ p))"
  have lz: "length ?z = 8 * Suc n" using bs Suc.prems(3,11) by simp
  have fin: "write_bytes m1 D ?z = write_bytes m D (take (8 * Suc (Suc n)) (drop d (bs @ p @ q)))"
    using shifted_snoc [of "ys @ w" "Suc n" p q d] Suc.prems(3,4,11) bs write_bytes_after [of m D ?z x]
    unfolding m1_def lz x_def by simp
  have pend: "dest_pending (dest_next l) (dest_set l (le_word w) a) = (le_word w, le_word p)"
    using dest_next_facts(2) [OF Suc.prems(14)] .
  note step = bwd_dest_loop_step [of "8 * d" "8 * 8 - 8 * d" l m dstp srcp len a,
      unfolded load st bind.bind_lunit Let_def]
  show ?case
  proof (cases "0 < dest_pos l")
    case True
    have n: "0 < n"
    proof (rule ccontr)
      assume "\<not> 0 < n"
      then have "len = 4 - dest_pos l" using Suc.prems(8) by simp
      then show False using Suc.prems(9) True dest_next_facts(3) [of l] by simp
    qed
    have "bwd_dest_loop (8 * d) (8 * 8 - 8 * d) (dest_next l) m1 dstp srcp len (dest_set l (le_word w) a) =
        Some (write_bytes m1 D ?z)"
      using Suc.prems(3,6,8-13) True n dest_next_facts(3) [of l]
      by (intro Suc.IH b1 bs mp pend) (auto simp: dest_next_facts(1) of_nat_diff)
    then show ?thesis
      unfolding fin [symmetric] step by (simp only: True if_True)
  next
    case False
    then have l: "l = DDo1" by (cases l) simp_all
    note p = Suc.prems(8-13) [unfolded l, simplified]
    have nx: "dest_next l = DDo4" using l by simp
    show ?thesis
    proof (cases "n = 0")
      case True
      have "length ?z = 8" "?z = drop d w @ take d p" using True bs Suc.prems(3,11) lz by simp_all
      then have "op_store m1 (dstp - 32) 3 (MERGE (le_word w) (8 * d) (le_word p) (8 * 8 - 8 * d)) = Some (write_bytes m1 D ?z)"
        using p(6) True mp MERGE_le_word [of w p d] bs Suc.prems(3,10,11)
        by (simp add: op_store_def store_long_write word_bytes_le_word)
      then show ?thesis
        unfolding fin [symmetric] step using pend p(1) True by (simp add: nx False)
    next
      case n: False
      have "bwd_dest_loop (8 * d) (8 * 8 - 8 * d) DDo4 m1 (dstp - 32) (srcp - 32) (len - 4) (dest_set l (le_word w) a) =
          Some (write_bytes m1 D ?z)"
        using Suc.prems(3,6,10,11) p n
        by (intro Suc.IH b1 bs mp pend [unfolded nx]) (auto simp: of_nat_diff mod_Suc split: if_splits)
      then show ?thesis
        unfolding fin [symmetric] step using p(1) n by (simp add: False)
    qed
  qed
qed simp

lemma wordcopy_bwd_dest_aligned_bytes:
  assumes "bytes_at m P zs" "length zs = 8 * Suc n" "mapped m D (8 * n)" "P \<le> D" "P mod 8 = 0" "0 < d" "d < 8"
  shows "wordcopy_bwd_dest_aligned m (int (D + 8 * n)) (int (P + d + 8 * n)) n =
    Some (write_bytes m D (take (8 * n) (drop d zs)))"
proof (cases n)
  case 0
  then show ?thesis using assms by (simp add: wordcopy_bwd_dest_aligned_def)
next
  case (Suc n')
  define ys p q where "ys = take (8 * n') zs" and "p = take 8 (drop (8 * n') zs)" and "q = drop (8 * Suc n') zs"
  have "drop (8 * n') zs = p @ q"
    unfolding p_def q_def using append_take_drop_id [of 8 "drop (8 * n') zs"] by (simp add: add.commute)
  then have zs: "zs = ys @ p @ q" unfolding ys_def by (metis append_take_drop_id)
  have len: "length ys = 8 * n'" "length p = 8" "length q = 8"
    using assms(2) Suc by (simp_all add: ys_def p_def q_def)
  have b: "bytes_at m P ys" "bytes_at m (P + 8 * n') p" "bytes_at m (P + 8 * n' + 8) q"
    using assms(1) len unfolding zs by simp_all
  have lp: "op_load m srcp k = Some (le_word p)" if "srcp + 8 * int k = int P + 8 * int n'" for srcp k
    using b(2) len that by (simp add: op_load_def load_long_bytes nat_add_distrib nat_mult_distrib)
  have lq: "op_load m srcp k = Some (le_word q)" if "srcp + 8 * int k = int P + 8 * int n' + 8" for srcp k
    using b(3) len that by (simp add: op_load_def load_long_bytes nat_add_distrib nat_mult_distrib)
  define E where "E = int P + 8 * int n"
  obtain r where r: "P = 8 * r" using assms(5) by auto
  have "(P + d + 8 * n) mod 8 = d" "(P + d + 8 * n) div 8 * 8 = P + 8 * n"
    using assms(7) unfolding r by presburger+
  then have "nat (int (P + d + 8 * n) mod 8) = d" "int ((P + d + 8 * n) div 8 * 8) = int (P + 8 * n)"
    by (simp_all add: nat_mod_as_int)
  then have srcp: "nat (int (P + d + 8 * n) mod 8) = d" "int (P + d + 8 * n) div 8 * 8 = E"
    by (simp_all add: E_def zdiv_int)
  note defs = wordcopy_bwd_dest_aligned_def srcp Let_def
  have E: "E = int P + 8 * int n' + 8" using Suc by (simp add: E_def)
  have mp: "mapped m D (8 * Suc n')" using assms(3) Suc by simp
  show ?thesis
  proof (cases "n' = 0")
    case True
    have "op_store m (int D + 8 - 32) 3 (MERGE (le_word p) (8 * d) (le_word q) (8 * 8 - 8 * d)) =
        Some (write_bytes m D (take 8 (drop d zs)))"
      using mp MERGE_le_word [OF len(2,3) assms(6,7)] len True assms(7) zs
      by (simp add: op_store_def store_long_write word_bytes_le_word)
    then show ?thesis
      using True Suc lp [of "E + 8 - 48" 4] lq [of "E + 8 - 48" 5] E unfolding defs by (simp add: algebra_simps)
  next
    case False
    then have n': "0 < n'" by simp
    note loop = bwd_dest_loop_bytes [OF b(1) len mp assms(4) n']
    consider "n mod 4 = 0" | "n mod 4 = 1" | "n mod 4 = 2" | "n mod 4 = 3" by linarith
    then show ?thesis
    proof cases
      case 1
      then have "bwd_dest_loop (8 * d) (8 * 8 - 8 * d) DDo3 m (int D + 8 * int n - 24) (E - 32) n
          (le_word q, 0, 0, le_word p) = Some (write_bytes m D (take (8 * n) (drop d zs)))"
        unfolding zs using Suc n' E assms(6,7) by (simp only: Suc) (intro loop; auto simp: of_nat_diff)
      then show ?thesis using 1 Suc lp [of "E - 32" 3] lq [of "E - 32" 4] E unfolding defs by simp
    next
      case 2
      then have "bwd_dest_loop (8 * d) (8 * 8 - 8 * d) DDo4 m (int D + 8 * int n - 32) (E - 40) (n - 1)
          (le_word p, le_word q, 0, 0) = Some (write_bytes m D (take (8 * n) (drop d zs)))"
        unfolding zs using Suc n' E assms(6,7)
        by (simp only: Suc) (intro loop; auto simp: of_nat_diff mod_Suc split: if_splits)
      then show ?thesis using 2 Suc n' lp [of "E - 40" 4] lq [of "E - 40" 5] E unfolding defs by simp
    next
      case 3
      then have "bwd_dest_loop (8 * d) (8 * 8 - 8 * d) DDo1 m (int D + 8 * int n - 8) (E - 16) (n + 2)
          (0, le_word p, le_word q, 0) = Some (write_bytes m D (take (8 * n) (drop d zs)))"
        unfolding zs using Suc n' E assms(6,7)
        by (simp only: Suc) (intro loop; auto simp: of_nat_diff mod_Suc split: if_splits)
      then show ?thesis using 3 Suc lp [of "E - 16" 1] lq [of "E - 16" 2] E unfolding defs by simp
    next
      case 4
      then have "bwd_dest_loop (8 * d) (8 * 8 - 8 * d) DDo2 m (int D + 8 * int n - 16) (E - 24) (n + 1)
          (0, 0, le_word p, le_word q) = Some (write_bytes m D (take (8 * n) (drop d zs)))"
        unfolding zs using Suc n' E assms(6,7)
        by (simp only: Suc) (intro loop; auto simp: of_nat_diff mod_Suc split: if_splits)
      then show ?thesis using 4 Suc lp [of "E - 24" 2] lq [of "E - 24" 3] E unfolding defs by simp
    qed
  qed
qed

lemma WORD_COPY_BWD_bytes:
  assumes "bytes_at m S bs" "length bs = 8 * n" "mapped m D (8 * n)" "S \<le> D" "D mod 8 = 0" "r < 8"
    and "words_mapped m S (8 * n)"
  shows "WORD_COPY_BWD m (D + 8 * n) (S + 8 * n) (8 * n + r) = Some (write_bytes m D bs, D, S, r)"
proof -
  have n: "(8 * n + r) div 8 = n" "(8 * n + r) mod 8 = r" using assms(6) by simp_all
  have "(if (S + 8 * n) mod 8 = 0 then wordcopy_bwd_aligned m (int (D + 8 * n)) (int (S + 8 * n)) n
      else wordcopy_bwd_dest_aligned m (int (D + 8 * n)) (int (S + 8 * n)) n) = Some (write_bytes m D bs)"
  proof (cases "S mod 8 = 0 \<or> n = 0")
    case True
    then show ?thesis
      using wordcopy_bwd_aligned_bytes [OF assms(1-4)] assms(2)
      by (auto simp: wordcopy_bwd_dest_aligned_def)
  next
    case False
    define P d where "P = S div 8 * 8" and "d = S mod 8"
    have d: "0 < d" "d < 8" "S = P + d" "P mod 8 = 0" using False by (simp_all add: P_def d_def)
    have "(S + 8 * n - 1) div 8 - S div 8 = n" using d False unfolding P_def d_def by linarith
    then have "mapped m P (8 * Suc n)" using words_mapped_cover [OF assms(7)] False by (simp add: P_def)
    then obtain zs where zs: "length zs = 8 * Suc n" "bytes_at m P zs" using mapped_bytes_at by blast
    have "bytes_at m S (take (8 * n) (drop d zs))"
      using zs d by (simp add: bytes_at_take bytes_at_drop)
    then have same: "take (8 * n) (drop d zs) = bs"
      using zs d assms(1,2) by (intro bytes_at_unique [of m S]) simp_all
    have "wordcopy_bwd_dest_aligned m (int (D + 8 * n)) (int (P + d + 8 * n)) n = Some (write_bytes m D bs)"
      using wordcopy_bwd_dest_aligned_bytes [OF zs(2,1) assms(3) _ d(4,1,2)] assms(4) d(3) same by simp
    then show ?thesis using d False by simp
  qed
  then show ?thesis unfolding WORD_COPY_BWD_def n by simp
qed

lemma BYTE_COPY_BWD_bytes:
  "bytes_at m S bs \<Longrightarrow> length bs = k \<Longrightarrow> mapped m D k \<Longrightarrow> S \<le> D \<Longrightarrow>
     BYTE_COPY_BWD m (D + k) (S + k) k = Some (write_bytes m D bs, D, S)"
proof (induction k arbitrary: m bs)
  case (Suc k)
  define ys y where "ys = take k bs" and "y = bs ! k"
  have bs: "bs = ys @ [y]" "length ys = k"
    using Suc.prems(2) by (simp_all add: ys_def y_def take_Suc_conv_app_nth [symmetric])
  have D: "D + k \<in> dom m" using mapped_load [OF Suc.prems(3), of k] by auto
  let ?m = "write_bytes m (D + k) [y]"
  have "bytes_at ?m S ys"
    using Suc.prems(1,4) bs by (subst bytes_at_write_disjoint) (auto simp: disjoint_def)
  moreover have "mapped ?m D k" using Suc.prems(3) mapped_mono by (intro mapped_write) fastforce
  ultimately have "BYTE_COPY_BWD ?m (D + k) (S + k) k = Some (write_bytes ?m D ys, D, S)"
    using Suc.prems(4) bs by (intro Suc.IH)
  moreover have "write_bytes ?m D ys = write_bytes m D bs"
    using write_bytes_after [of m D ys "[y]"] bs by simp
  ultimately show ?case
    using Suc.prems(1) bs D by (simp add: store_write)
qed simp

lemma memmove_test:
  assumes "src + len < 2 ^ 64" "dest + len < 2 ^ 64"
  shows "(of_nat dest - of_nat src :: 64 word) \<ge> of_nat len \<longleftrightarrow> dest < src \<or> src + len \<le> dest"
proof -
  have le: "(of_nat k :: 64 word) \<ge> of_nat len \<longleftrightarrow> len \<le> k" if "k < 2 ^ 64" for k
  proof -
    have "len < 2 ^ 64" using assms by linarith
    with that have "unat (of_nat k :: 64 word) = k" "unat (of_nat len :: 64 word) = len"
      by (simp_all add: unsigned_of_nat take_bit_nat_eq_self)
    then show ?thesis by (simp add: word_le_nat_alt)
  qed
  show ?thesis
  proof (cases "src \<le> dest")
    case True
    then have eq: "(of_nat dest - of_nat src :: 64 word) = of_nat (dest - src)" by (simp add: of_nat_diff)
    have "dest - src < 2 ^ 64" using assms by linarith
    then show ?thesis unfolding eq using le [of "dest - src"] True by auto
  next
    case False
    have "(of_nat (2 ^ 64) :: 64 word) = 0" by simp
    then have eq: "(of_nat dest - of_nat src :: 64 word) = of_nat (dest + 2 ^ 64 - src)"
      using assms by (subst of_nat_diff) (simp_all only: of_nat_add, simp)
    have "dest + 2 ^ 64 - src < 2 ^ 64" "len \<le> dest + 2 ^ 64 - src" using False assms by linarith+
    then show ?thesis unfolding eq using le [of "dest + 2 ^ 64 - src"] False by simp
  qed
qed

lemma mod8_cancel: "(x + 8 * n + k) mod 8 = k \<Longrightarrow> k < 8 \<Longrightarrow> x mod 8 = (0 :: nat)"
  by presburger

text \<open>The backward path, on blocks where the destination starts at or above the source.\<close>

lemma memmove_backward:
  assumes "bytes_at m src bs" "length bs = len" "mapped m dest len" "src \<le> dest" "dest < src + len"
    and "src + len < 2 ^ 64" "dest + len < 2 ^ 64" "words_mapped m src len"
  shows "memmove memcpy m dest src len = Some (write_bytes m dest bs)"
proof (cases "16 \<le> len")
  case False
  then show ?thesis
    using memmove_test [OF assms(6,7)] BYTE_COPY_BWD_bytes [OF assms(1-4)] assms(4,5)
    by (simp add: memmove_def Let_def)
next
  case True
  define k n r where "k = (dest + len) mod 8" and "n = (len - k) div 8" and "r = (len - k) mod 8"
  have k: "k < 8" "r < 8" by (simp_all add: k_def r_def)
  have len: "len = r + 8 * n + k" "len - k = 8 * n + r" "0 < n"
    using True k(1) unfolding n_def r_def by (simp_all add: div_greater_zero_iff)
  have "dest + len = dest + r + 8 * n + k" using len(1) by simp
  then have "(dest + r + 8 * n + k) mod 8 = k" by (metis k_def)
  then have "(dest + r) mod 8 = 0" using k(1) by (rule mod8_cancel)
  define b0 b1 b2 where "b0 = take r bs" and "b1 = take (8 * n) (drop r bs)" and "b2 = drop (r + 8 * n) bs"
  have "bs = b0 @ b1 @ b2"
    unfolding b0_def b1_def b2_def by (metis append_take_drop_id add.commute drop_drop)
  note bs = this
  have l: "length b0 = r" "length b1 = 8 * n" "length b2 = k"
    using assms(2) len by (simp_all add: b0_def b1_def b2_def)
  have at: "bytes_at m src b0" "bytes_at m (src + r) b1" "bytes_at m (src + r + 8 * n) b2"
    using assms(1) l unfolding bs by simp_all
  define m1 where "m1 = write_bytes m (dest + r + 8 * n) b2"
  define m2 where "m2 = write_bytes m1 (dest + r) b1"
  have step1: "BYTE_COPY_BWD m (dest + len) (src + len) k = Some (m1, dest + r + 8 * n, src + r + 8 * n)"
    using BYTE_COPY_BWD_bytes [OF at(3) l(3), of "dest + r + 8 * n"] mapped_sub [OF assms(3), of "r + 8 * n" k] assms(4) len(1)
    by (simp add: m1_def add.assoc)
  have "bytes_at m1 (src + r) b1"
    using at(2) assms(4) l unfolding m1_def by (subst bytes_at_write_disjoint) (auto simp: disjoint_def)
  moreover have "words_mapped m1 (src + r) (8 * n)"
    using assms(8) len(1) unfolding words_mapped_def m1_def by auto
  moreover have "mapped m1 (dest + r) (8 * n)"
    using mapped_sub [OF assms(3), of r "8 * n"] len(1) unfolding m1_def by simp
  ultimately have step2: "WORD_COPY_BWD m1 (dest + r + 8 * n) (src + r + 8 * n) (8 * n + r) = Some (m2, dest + r, src + r, r)"
    unfolding m2_def using assms(4) l(2) k(2) \<open>(dest + r) mod 8 = 0\<close> by (intro WORD_COPY_BWD_bytes) simp_all
  have "bytes_at m2 src b0"
    using at(1) assms(4) l unfolding m1_def m2_def by (subst bytes_at_write_disjoint, simp add: disjoint_def)+ 
  moreover have "mapped m2 dest r" using mapped_mono [OF assms(3), of r] len(1) unfolding m1_def m2_def by simp
  ultimately have step3: "BYTE_COPY_BWD m2 (dest + r) (src + r) r = Some (write_bytes m2 dest b0, dest, src)"
    using l(1) assms(4) by (intro BYTE_COPY_BWD_bytes)
  have "write_bytes m2 dest b0 = write_bytes m dest bs"
    using write_bytes_after [of m "dest + r" b1 b2] write_bytes_after [of m dest b0 "b1 @ b2"] l
    unfolding m1_def m2_def bs by (simp add: add.assoc)
  then show ?thesis
    using memmove_test [OF assms(6,7)] assms(4,5) True step1 step2 step3
    unfolding memmove_def k_def [symmetric] by (simp add: Let_def k_def [symmetric] len(2))
qed

text \<open>\<open>BYTE_COPY_FWD\<close>, and what \<open>memmove\<close> relies on in \<open>memcpy\<close>: that it copies forward.\<close>

fun BYTE_COPY_FWD :: "mem \<Rightarrow> addr \<Rightarrow> addr \<Rightarrow> nat \<Rightarrow> (mem \<times> addr \<times> addr) option" where
  "BYTE_COPY_FWD m dst_bp src_bp 0 = Some (m, dst_bp, src_bp)"
| "BYTE_COPY_FWD m dst_bp src_bp (Suc nbytes) = do {
     x \<leftarrow> m src_bp;
     m \<leftarrow> store m dst_bp x;
     BYTE_COPY_FWD m (dst_bp + 1) (src_bp + 1) nbytes }"

definition copies_forward :: "(mem \<Rightarrow> addr \<Rightarrow> addr \<Rightarrow> nat \<Rightarrow> mem option) \<Rightarrow> bool" where
  "copies_forward memcpy \<longleftrightarrow> (\<forall>m dest src bs.
     bytes_at m src bs \<and> mapped m dest (length bs) \<and> (dest < src \<or> src + length bs \<le> dest) \<longrightarrow>
     memcpy m dest src (length bs) = Some (write_bytes m dest bs))"

lemma BYTE_COPY_FWD_bytes:
  "bytes_at m src bs \<Longrightarrow> mapped m dest (length bs) \<Longrightarrow> dest < src \<or> src + length bs \<le> dest \<Longrightarrow>
     BYTE_COPY_FWD m dest src (length bs) = Some (write_bytes m dest bs, dest + length bs, src + length bs)"
proof (induction bs arbitrary: m dest src)
  case (Cons b bs)
  have "bytes_at (m(dest \<mapsto> b)) (Suc src) bs"
    using Cons.prems by (subst bytes_at_upd_other) auto
  moreover have "mapped (m(dest \<mapsto> b)) (Suc dest) (length bs)" "dest \<in> dom m"
    using Cons.prems(2) by (simp_all add: mapped_Suc)
  ultimately show ?case
    using Cons.prems Cons.IH [of "m(dest \<mapsto> b)" "Suc src" "Suc dest"] by (auto simp: store_def)
qed simp

lemma copies_forward_bytes: "copies_forward (\<lambda>m d s n. map_option fst (BYTE_COPY_FWD m d s n))"
  by (simp add: copies_forward_def BYTE_COPY_FWD_bytes)

lemma memmove_block:
  assumes "copies_forward memcpy" "bytes_at m src bs" "mapped m dest (length bs)" "words_mapped m src (length bs)"
    and "src + length bs < 2 ^ 64" "dest + length bs < 2 ^ 64"
  shows "memmove memcpy m dest src (length bs) = Some (write_bytes m dest bs)"
proof (cases "dest < src \<or> src + length bs \<le> dest")
  case True
  then show ?thesis
    using assms(1-3) memmove_test [OF assms(5,6)] unfolding memmove_def copies_forward_def by simp
next
  case False
  then show ?thesis using assms by (intro memmove_backward) simp_all
qed

lemma words_mapped_mem_of:
  assumes "p mod 8 = 0" "length bs mod 8 = 0" "p \<le> a" "a + n \<le> p + length bs"
  shows "words_mapped (mem_of p bs) a n"
proof -
  obtain q k where qk: "p = 8 * q" "length bs = 8 * k" using assms(1,2) by (auto elim!: dvdE)
  have "p \<le> b div 8 * 8 \<and> b div 8 * 8 + 8 \<le> p + length bs" if "a \<le> b" "b < a + n" for b
  proof -
    have "8 * q \<le> b" "b < 8 * q + 8 * k" using assms(3,4) that qk by linarith+
    then have "q \<le> b div 8" "b div 8 < q + k" by linarith+
    then show ?thesis unfolding qk by linarith
  qed
  then show ?thesis unfolding words_mapped_def by (simp add: mapped_mem_of)
qed

section \<open>Properties\<close>

text \<open>C19. The longword \<open>memcmp\<close> computes the byte by byte comparison: it returns the difference of the
  first two bytes that differ, read as unsigned, and 0 when the blocks are equal, for every
  alignment of the two blocks. It reads nothing outside the longword boundaries around the first
  block and the bytes of the second, and the values of the registers it leaves unset (\<open>u\<close>) do not matter.\<close>

theorem memcmp_compares:
  assumes "bytes_at m s1 xs" "bytes_at m s2 ys" "length xs = len" "length ys = len" "words_mapped m s1 len"
  shows "memcmp m u s1 s2 len = Some (bytes_diff xs ys)"
  using assms by (rule memcmp_block)

text \<open>Two blocks of seventeen bytes, neither of them aligned, that differ in the last one.\<close>

theorem memcmp_compares_witness:
  "memcmp (mem_of 8 (replicate 36 7 @ [9, 7, 7, 7])) 5 11 28 17 = Some (7 - 9)"
proof -
  let ?m = "mem_of 8 (replicate 36 7 @ [9, 7, 7, 7])"
  have "bytes_at ?m 11 (replicate 16 7 @ [7])" "bytes_at ?m 28 (replicate 16 7 @ [9])"
    unfolding bytes_at_nth by (auto simp: mem_of_at nth_append)
  moreover have "words_mapped ?m 11 17" by (rule words_mapped_mem_of) simp_all
  ultimately have "memcmp ?m 5 11 28 17 = Some (bytes_diff (replicate 16 7 @ [7]) (replicate 16 7 @ [9]))"
    by (intro memcmp_compares) simp_all
  then show ?thesis by (simp only: bytes_diff_append) simp
qed

text \<open>C20. \<open>memmove\<close> moves the block as if through a copy, however the two blocks overlap and are aligned: the
  destination holds the bytes the source held before, nothing else changes, and outside the blocks only
  the longwords around the source are read. The forward path is that of \<open>memcpy\<close>, of which it is asked that
  it copies a block to a lower or a disjoint address correctly.\<close>

theorem memmove_moves:
  assumes "copies_forward memcpy" "bytes_at m src bs" "mapped m dest (length bs)" "words_mapped m src (length bs)"
    and "src + length bs < 2 ^ 64" "dest + length bs < 2 ^ 64"
  shows "memmove memcpy m dest src (length bs) = Some (write_bytes m dest bs)"
  using assms by (rule memmove_block)

text \<open>Twenty-one bytes moved up by three.\<close>

theorem memmove_moves_witness:
  "memmove (\<lambda>m d s n. map_option fst (BYTE_COPY_FWD m d s n)) (mem_of 8 (map of_nat [0..<32])) 14 11 21 =
    Some (write_bytes (mem_of 8 (map of_nat [0..<32])) 14 (map of_nat [3..<24]))"
proof -
  let ?m = "mem_of 8 (map of_nat [0..<32])"
  have "bytes_at ?m (8 + 3) (take 21 (drop 3 (map of_nat [0..<32])))"
    by (intro bytes_at_take bytes_at_drop bytes_at_mem_of) simp
  then have "bytes_at ?m 11 (map of_nat [3..<24])" by (simp add: take_map drop_map)
  moreover have len: "length (map of_nat [3..<24] :: byte list) = 21" by simp
  moreover have "mapped ?m 14 21" "words_mapped ?m 11 21"
    by (simp add: mapped_mem_of, rule words_mapped_mem_of, simp_all)
  moreover have "(11 + 21 :: nat) < 2 ^ 64" "(14 + 21 :: nat) < 2 ^ 64" by simp_all
  ultimately show ?thesis
    using memmove_moves [OF copies_forward_bytes, of ?m 11 "map of_nat [3..<24]" 14] unfolding len by blast
qed

end
