(* ===== verification/Sort.thy ===== *)
theory Sort
  imports Mem_Block "HOL-Library.Multiset"
begin

text \<open>
  \<open>qsort\<close> and \<open>bsearch\<close> (\<open>libc/stdlib/stdlib.c\<close>) on byte memory. \<open>qsort\<close> is a Shell sort with the gaps
  1, 4, 13, \<open>\<dots>\<close>, and moves elements by swapping them byte by byte; its loops compute on byte
  offsets of type \<open>size_t\<close>, written with \<open>size_mod\<close> where the arithmetic may wrap. The comparison
  function is a parameter; what the two functions ask of it is the locale \<open>comparator\<close>, which
  \<open>memcmp\<close> satisfies. \<open>qsort\<close> is shown to be a refinement of a Shell sort on lists of elements.
\<close>

section \<open>The code\<close>

definition size_mod :: "nat \<Rightarrow> nat" where
  "size_mod n = n mod 2 ^ 64"

text \<open>\<open>do { tmp = *a; *a++ = *b; *b++ = tmp; } while (--k);\<close>, entered with \<open>k > 0\<close>.\<close>

fun swap_bytes :: "mem \<Rightarrow> addr \<Rightarrow> addr \<Rightarrow> nat \<Rightarrow> mem option" where
  "swap_bytes m a b 0 = None"
| "swap_bytes m a b (Suc k) = do {
     tmp \<leftarrow> m a;
     x \<leftarrow> m b;
     m \<leftarrow> store m a x;
     m \<leftarrow> store m b tmp;
     if k = 0 then Some m else swap_bytes m (a + 1) (b + 1) k }"

text \<open>\<open>do { wgap = 3 * wgap + 1; } while (wgap < (nel-1)/3);\<close>\<close>

partial_function (option) first_gap :: "nat \<Rightarrow> nat \<Rightarrow> nat option" where
  "first_gap nel wgap =
     (let wgap = size_mod (3 * wgap + 1)
      in if wgap < (nel - 1) div 3 then first_gap nel wgap else Some wgap)"

text \<open>The innermost loop. It is entered with \<open>j >= wgap\<close>, so the subtraction does not wrap.\<close>

partial_function (option) qsort_sift ::
    "(mem \<Rightarrow> addr \<Rightarrow> addr \<Rightarrow> int option) \<Rightarrow> mem \<Rightarrow> addr \<Rightarrow> nat \<Rightarrow> nat \<Rightarrow> nat \<Rightarrow> mem option" where
  "qsort_sift compar m base width wgap j =
     (let j = j - wgap; a = j + base; b = a + wgap
      in do {
        r \<leftarrow> compar m a b;
        if r \<le> 0 then Some m
        else do {
          m \<leftarrow> swap_bytes m a b width;
          if wgap \<le> j then qsort_sift compar m base width wgap j else Some m } })"

partial_function (option) qsort_pass ::
    "(mem \<Rightarrow> addr \<Rightarrow> addr \<Rightarrow> int option) \<Rightarrow> mem \<Rightarrow> addr \<Rightarrow> nat \<Rightarrow> nat \<Rightarrow> nat \<Rightarrow> nat \<Rightarrow> mem option" where
  "qsort_pass compar m base nel width wgap i = do {
     m \<leftarrow> qsort_sift compar m base width wgap i;
     let i = size_mod (i + width);
     if i < nel then qsort_pass compar m base nel width wgap i else Some m }"

partial_function (option) qsort_gaps ::
    "(mem \<Rightarrow> addr \<Rightarrow> addr \<Rightarrow> int option) \<Rightarrow> mem \<Rightarrow> addr \<Rightarrow> nat \<Rightarrow> nat \<Rightarrow> nat \<Rightarrow> mem option" where
  "qsort_gaps compar m base nel width wgap = do {
     m \<leftarrow> qsort_pass compar m base nel width wgap wgap;
     let wgap = (wgap - width) div 3;
     if wgap \<noteq> 0 then qsort_gaps compar m base nel width wgap else Some m }"

definition qsort ::
    "(mem \<Rightarrow> addr \<Rightarrow> addr \<Rightarrow> int option) \<Rightarrow> mem \<Rightarrow> addr \<Rightarrow> nat \<Rightarrow> nat \<Rightarrow> mem option" where
  "qsort compar m base nel width =
     (if 1 < nel \<and> 0 < width
      then do {
        wgap \<leftarrow> first_gap nel 0;
        qsort_gaps compar m base (size_mod (nel * width)) width (size_mod (wgap * width)) }
      else Some m)"

text \<open>\<open>while (low < high) \<dots>\<close> of \<open>bsearch\<close>; the null pointer when it ends.\<close>

partial_function (option) bsearch_loop ::
    "(mem \<Rightarrow> addr \<Rightarrow> addr \<Rightarrow> int option) \<Rightarrow> mem \<Rightarrow> addr \<Rightarrow> addr \<Rightarrow> nat \<Rightarrow> nat \<Rightarrow> nat \<Rightarrow> addr option" where
  "bsearch_loop compar m key base width low high =
     (if low < high
      then (let mid = low + (high - low) div 2; p = base + size_mod (mid * width)
        in do {
          r \<leftarrow> compar m key p;
          if 0 < r then bsearch_loop compar m key base width (mid + 1) high
          else if r < 0 then bsearch_loop compar m key base width low mid
          else Some p })
      else Some NULL)"

definition bsearch ::
    "(mem \<Rightarrow> addr \<Rightarrow> addr \<Rightarrow> int option) \<Rightarrow> mem \<Rightarrow> addr \<Rightarrow> addr \<Rightarrow> nat \<Rightarrow> nat \<Rightarrow> addr option" where
  "bsearch compar m key base high width =
     (if 0 < width then bsearch_loop compar m key base width 0 high else Some NULL)"

section \<open>The Shell sort of a list\<close>

text \<open>The same loops on a list of elements, with gaps counted in elements.\<close>

function shell_sift :: "('a \<Rightarrow> 'a \<Rightarrow> bool) \<Rightarrow> nat \<Rightarrow> 'a list \<Rightarrow> nat \<Rightarrow> 'a list" where
  "shell_sift le g xs j =
     (let i = j - g in
      if le (xs ! i) (xs ! j) then xs
      else (let ys = xs[i := xs ! j, j := xs ! i]
        in if g \<le> i \<and> 0 < g then shell_sift le g ys i else ys))"
  by pat_completeness auto
termination by (relation "measure (\<lambda>(le, g, xs, j). j)") auto

declare shell_sift.simps [simp del]

function shell_pass :: "('a \<Rightarrow> 'a \<Rightarrow> bool) \<Rightarrow> nat \<Rightarrow> 'a list \<Rightarrow> nat \<Rightarrow> 'a list" where
  "shell_pass le g xs i =
     (let ys = shell_sift le g xs i
      in if i + 1 < length xs then shell_pass le g ys (i + 1) else ys)"
  by pat_completeness auto

lemma shell_sift_length [simp]: "length (shell_sift le g xs j) = length xs"
  by (induction le g xs j rule: shell_sift.induct) (subst shell_sift.simps, simp add: Let_def)

termination shell_pass
  by (relation "measure (\<lambda>(le, g, xs, i). length xs - i)") auto

declare shell_pass.simps [simp del]

text \<open>The gaps: \<open>gap 0 = 0\<close>, \<open>gap 1 = 1\<close>, \<open>gap 2 = 4\<close>, \<open>gap 3 = 13\<close>, \<open>\<dots>\<close>\<close>

primrec gap :: "nat \<Rightarrow> nat" where
  "gap 0 = 0"
| "gap (Suc k) = 3 * gap k + 1"

text \<open>The passes with the gaps \<open>gap k, \<dots>, gap 1\<close>.\<close>

primrec shell_passes :: "('a \<Rightarrow> 'a \<Rightarrow> bool) \<Rightarrow> nat \<Rightarrow> 'a list \<Rightarrow> 'a list" where
  "shell_passes le 0 xs = xs"
| "shell_passes le (Suc k) xs = shell_passes le k (shell_pass le (gap (Suc k)) xs (gap (Suc k)))"

lemma mset_swap_elems:
  "i < length xs \<Longrightarrow> j < length xs \<Longrightarrow> mset (xs[i := xs ! j, j := xs ! i]) = mset xs"
  by (cases "i = j") (simp_all add: mset_swap list_update_swap)

lemma shell_sift_mset: "j < length xs \<Longrightarrow> mset (shell_sift le g xs j) = mset xs"
proof (induction le g xs j rule: shell_sift.induct)
  case (1 le g xs j)
  then have s: "mset (xs[j - g := xs ! j, j := xs ! (j - g)]) = mset xs"
    by (intro mset_swap_elems) simp_all
  show ?case
    using 1(1) [OF refl _ refl] 1(2) s by (subst shell_sift.simps) (simp add: Let_def)
qed

lemma shell_pass_mset: "i < length xs \<Longrightarrow> mset (shell_pass le g xs i) = mset xs"
proof (induction le g xs i rule: shell_pass.induct)
  case (1 le g xs i)
  then show ?case by (subst shell_pass.simps) (simp add: Let_def shell_sift_mset)
qed

lemma shell_pass_length [simp]: "length (shell_pass le g xs i) = length xs"
  by (induction le g xs i rule: shell_pass.induct) (subst shell_pass.simps, simp add: Let_def)

lemma gap_mono: "gap k < gap (Suc k)"
  by simp

lemma shell_passes_mset: "gap k < length xs \<Longrightarrow> mset (shell_passes le k xs) = mset xs"
proof (induction k arbitrary: xs)
  case (Suc k)
  have "mset (shell_passes le k (shell_pass le (gap (Suc k)) xs (gap (Suc k)))) =
      mset (shell_pass le (gap (Suc k)) xs (gap (Suc k)))"
    using Suc.prems by (intro Suc.IH) simp
  then show ?case using shell_pass_mset [OF Suc.prems] by simp
qed simp

lemma shell_passes_length [simp]: "length (shell_passes le k xs) = length xs"
  by (induction k arbitrary: xs) simp_all

section \<open>Sorting with gap 1\<close>

text \<open>
  The last pass is an insertion sort: the element that moves down (\<open>x\<close>) is below every element it
  has passed (\<open>bs\<close>). It needs a total preorder on the elements.
\<close>

locale total_preorder =
  fixes S :: "'a set" and le :: "'a \<Rightarrow> 'a \<Rightarrow> bool"
  assumes total: "x \<in> S \<Longrightarrow> y \<in> S \<Longrightarrow> le x y \<or> le y x"
    and trans: "x \<in> S \<Longrightarrow> y \<in> S \<Longrightarrow> z \<in> S \<Longrightarrow> le x y \<Longrightarrow> le y z \<Longrightarrow> le x z"
begin

lemma sift_inserts:
  assumes "as \<noteq> []" "sorted_wrt le (as @ bs)" "\<forall>b\<in>set bs. le x b" "set (x # as @ bs) \<subseteq> S"
  shows "\<exists>zs. shell_sift le 1 (as @ x # bs @ rest) (length as) = zs @ rest \<and> sorted_wrt le zs \<and>
    length zs = Suc (length as + length bs)"
  using assms
proof (induction as arbitrary: bs rule: rev_induct)
  case (snoc a as)
  let ?xs = "(as @ [a]) @ x # bs @ rest"
  have nth: "?xs ! length as = a" "?xs ! Suc (length as) = x" by (simp_all add: nth_append)
  have upd: "?xs[length as := x, Suc (length as) := a] = as @ x # (a # bs) @ rest"
    by (simp add: list_update_append)
  have ab: "\<forall>b\<in>set bs. le a b" "\<forall>y\<in>set as. le y a" using snoc.prems(2) by (auto simp: sorted_wrt_append)
  show ?case
  proof (cases "le a x")
    case True
    then have "\<forall>y\<in>set as. le y x"
      using ab(2) snoc.prems(4) trans [of _ a x] by auto
    then have "sorted_wrt le (as @ a # x # bs)"
      using True snoc.prems(2,3) ab by (auto simp: sorted_wrt_append)
    moreover have "shell_sift le 1 ?xs (length (as @ [a])) = (as @ a # x # bs) @ rest"
      using nth True by (subst shell_sift.simps) (simp add: Let_def)
    ultimately show ?thesis by (intro exI [where x = "as @ a # x # bs"]) simp
  next
    case False
    then have xa: "le x a" using total [of a x] snoc.prems(4) by auto
    have step: "shell_sift le 1 ?xs (length (as @ [a])) =
        (if as = [] then as @ x # (a # bs) @ rest else shell_sift le 1 (as @ x # (a # bs) @ rest) (length as))"
      using nth False upd by (subst shell_sift.simps) (simp add: Let_def Suc_le_eq)
    show ?thesis
    proof (cases "as = []")
      case True
      then have "sorted_wrt le (x # a # bs)" using xa ab snoc.prems(2,3) by simp
      then show ?thesis using step True by (intro exI [where x = "x # a # bs"]) simp
    next
      case False
      then have "\<exists>zs. shell_sift le 1 (as @ x # (a # bs) @ rest) (length as) = zs @ rest \<and> sorted_wrt le zs \<and>
          length zs = Suc (length as + length (a # bs))"
        using xa snoc.prems by (intro snoc.IH) simp_all
      then show ?thesis using step False by (auto simp del: shell_sift.simps)
    qed
  qed
qed simp

lemma sift_extends:
  assumes "sorted_wrt le (take i xs)" "0 < i" "i < length xs" "set xs \<subseteq> S"
  shows "sorted_wrt le (take (Suc i) (shell_sift le 1 xs i))"
proof -
  have xs: "xs = take i xs @ xs ! i # [] @ drop (Suc i) xs" using assms(3) by (simp add: Cons_nth_drop_Suc)
  have "set (take i xs) \<subseteq> S" "xs ! i \<in> S" using assms(3,4) by (auto dest: in_set_takeD)
  then have "\<exists>zs. shell_sift le 1 (take i xs @ xs ! i # [] @ drop (Suc i) xs) (length (take i xs)) =
      zs @ drop (Suc i) xs \<and> sorted_wrt le zs \<and> length zs = Suc (length (take i xs) + length ([] :: 'a list))"
    using assms by (intro sift_inserts) auto
  then show ?thesis using xs assms(3) by (auto simp: min_def)
qed

lemma pass_sorts:
  "sorted_wrt le (take i xs) \<Longrightarrow> 0 < i \<Longrightarrow> i < length xs \<Longrightarrow> set xs \<subseteq> S \<Longrightarrow> sorted_wrt le (shell_pass le 1 xs i)"
proof (induction "length xs - i" arbitrary: xs i)
  case (Suc n)
  let ?ys = "shell_sift le 1 xs i"
  have s: "sorted_wrt le (take (Suc i) ?ys)" using Suc.prems by (intro sift_extends)
  have set: "set ?ys = set xs" using Suc.prems(3) shell_sift_mset by (metis mset_eq_setD)
  show ?case
  proof (cases "i + 1 < length xs")
    case True
    then have "sorted_wrt le (shell_pass le 1 ?ys (Suc i))"
      using Suc.hyps(2) Suc.prems set s by (intro Suc.hyps(1)) simp_all
    then show ?thesis using True by (subst shell_pass.simps) (simp add: Let_def)
  next
    case False
    then have "take (Suc i) ?ys = ?ys" by simp
    then show ?thesis using False s by (subst shell_pass.simps) (simp add: Let_def)
  qed
qed simp

lemma passes_sort:
  "gap (Suc k) < length xs \<Longrightarrow> set xs \<subseteq> S \<Longrightarrow> sorted_wrt le (shell_passes le (Suc k) xs)"
proof (induction k arbitrary: xs)
  case 0
  then have "sorted_wrt le (take 1 xs)" by (cases xs) simp_all
  then have "sorted_wrt le (shell_pass le 1 xs 1)" using 0 by (intro pass_sorts) simp_all
  then show ?case by simp
next
  case (Suc k)
  let ?g = "gap (Suc (Suc k))"
  have "set (shell_pass le ?g xs ?g) = set xs" using Suc.prems(1) shell_pass_mset by (metis mset_eq_setD)
  then have "sorted_wrt le (shell_passes le (Suc k) (shell_pass le ?g xs ?g))"
    using Suc.prems by (intro Suc.IH) simp_all
  then show ?case by simp
qed

end

lemma first_gap_gap:
  "1 < nel \<Longrightarrow> nel < 2 ^ 64 \<Longrightarrow> k = 0 \<or> gap k < (nel - 1) div 3 \<Longrightarrow>
     \<exists>j. first_gap nel (gap k) = Some (gap (Suc j)) \<and> gap (Suc j) < nel"
proof (induction "nel - gap k" arbitrary: k rule: less_induct)
  case less
  have lt: "gap (Suc k) < nel" using less.prems(1,3) by auto
  then have sz: "size_mod (3 * gap k + 1) = gap (Suc k)" using less.prems(2) by (simp add: size_mod_def)
  show ?case
  proof (cases "gap (Suc k) < (nel - 1) div 3")
    case True
    have "nel - gap (Suc k) < nel - gap k" using lt gap_mono [of k] by linarith
    then have "\<exists>j. first_gap nel (gap (Suc k)) = Some (gap (Suc j)) \<and> gap (Suc j) < nel"
      using less.prems True by (intro less.hyps) simp_all
    then show ?thesis using True sz by (subst first_gap.simps) (simp add: Let_def)
  next
    case False
    have "first_gap nel (gap k) = Some (gap (Suc k))"
      by (subst first_gap.simps) (simp only: Let_def sz False if_False)
    then show ?thesis using lt by blast
  qed
qed

section \<open>Elements in memory\<close>

text \<open>The array: its elements one after the other, each \<open>w\<close> bytes long.\<close>

definition elems :: "nat \<Rightarrow> byte list list \<Rightarrow> bool" where
  "elems w xs \<longleftrightarrow> (\<forall>x\<in>set xs. length x = w)"

lemma elems_Cons [simp]: "elems w (x # xs) \<longleftrightarrow> length x = w \<and> elems w xs"
  by (auto simp: elems_def)

lemma elems_Nil [simp]: "elems w []"
  by (simp add: elems_def)

lemma elems_nth: "elems w xs \<Longrightarrow> i < length xs \<Longrightarrow> length (xs ! i) = w"
  by (simp add: elems_def)

lemma elems_update: "elems w xs \<Longrightarrow> length x = w \<Longrightarrow> elems w (xs[i := x])"
  using set_update_subset_insert [of xs i x] by (auto simp: elems_def)

lemma elems_mset: "elems w xs \<Longrightarrow> mset ys = mset xs \<Longrightarrow> elems w ys"
  by (auto simp: elems_def dest: mset_eq_setD)

lemma length_concat_elems: "elems w xs \<Longrightarrow> length (concat xs) = length xs * w"
  by (induction xs) simp_all

lemma length_concat_mset: "mset ys = mset xs \<Longrightarrow> length (concat ys) = length (concat xs)"
  unfolding length_concat by (metis mset_map sum_mset_sum_list)

lemma concat_elems_split:
  assumes "elems w xs" "i < length xs"
  shows "concat xs = concat (take i xs) @ xs ! i @ concat (drop (Suc i) xs) \<and> length (concat (take i xs)) = i * w"
proof
  show "concat xs = concat (take i xs) @ xs ! i @ concat (drop (Suc i) xs)"
    by (subst (1) id_take_nth_drop [OF assms(2)]) simp
  have "elems w (take i xs)" using assms(1) by (auto simp: elems_def dest: in_set_takeD)
  then show "length (concat (take i xs)) = i * w" using assms(2) by (simp add: length_concat_elems)
qed

lemma elem_bytes:
  "bytes_at m base (concat xs) \<Longrightarrow> elems w xs \<Longrightarrow> i < length xs \<Longrightarrow> bytes_at m (base + i * w) (xs ! i)"
  using concat_elems_split [of w xs i] by (metis bytes_at_append)

lemma write_elem:
  assumes "bytes_at m base (concat xs)" "elems w xs" "i < length xs" "length y = w"
  shows "write_bytes m (base + i * w) y = write_bytes m base (concat (xs[i := y]))"
proof -
  let ?us = "concat (take i xs)" and ?vs = "concat (drop (Suc i) xs)"
  have xs: "concat xs = ?us @ xs ! i @ ?vs" "length ?us = i * w"
    using concat_elems_split [OF assms(2,3)] by blast+
  have l: "length (xs ! i) = w" using assms by (simp add: elems_nth)
  have "concat (xs[i := y]) = ?us @ y @ ?vs"
    using assms(3) by (simp add: upd_conv_take_nth_drop)
  moreover have "bytes_at m base ?us" "bytes_at m (base + i * w + w) ?vs"
    using assms(1) xs l by (simp_all add: add.assoc)
  then have "write_bytes m base (?us @ y @ ?vs) = write_bytes m (base + i * w) y"
    using xs(2) assms(4)
    by (simp add: write_bytes_append write_bytes_same bytes_at_write_disjoint disjoint_def add.assoc)
  ultimately show ?thesis by simp
qed

lemma swap_bytes_blocks:
  "bytes_at m a xs \<Longrightarrow> bytes_at m b ys \<Longrightarrow> length ys = length xs \<Longrightarrow> xs \<noteq> [] \<Longrightarrow> a + length xs \<le> b \<Longrightarrow>
     swap_bytes m a b (length xs) = Some (write_bytes (write_bytes m a ys) b xs)"
proof (induction xs arbitrary: m a b ys)
  case (Cons x xs)
  then obtain y ys' where ys: "ys = y # ys'" "length ys' = length xs" by (cases ys) auto
  let ?m = "m(a \<mapsto> y, b \<mapsto> x)"
  have ab: "a < b" "Suc a + length xs \<le> b" using Cons.prems by simp_all
  have m: "m a = Some x" "m b = Some y" using Cons.prems ys by simp_all
  show ?case
  proof (cases "xs = []")
    case True
    then show ?thesis using m ab ys by (simp add: store_mapped)
  next
    case False
    have "bytes_at ?m (Suc a) xs" "bytes_at ?m (Suc b) ys'"
      using Cons.prems ys ab by (simp_all add: bytes_at_upd_other)
    then have "swap_bytes ?m (Suc a) (Suc b) (length xs) =
        Some (write_bytes (write_bytes ?m (Suc a) ys') (Suc b) xs)"
      using ys ab False by (intro Cons.IH) simp_all
    moreover have "write_bytes (m(a \<mapsto> y, b \<mapsto> x)) (Suc a) ys' = (write_bytes (m(a \<mapsto> y)) (Suc a) ys')(b \<mapsto> x)"
      using ab ys by (intro ext) (auto simp: write_bytes_def)
    ultimately show ?thesis using m ab ys False by (simp add: store_mapped)
  qed
qed simp

lemma swap_elems:
  assumes "bytes_at m base (concat xs)" "elems w xs" "i < j" "j < length xs" "0 < w"
  shows "swap_bytes m (base + i * w) (base + j * w) w =
    Some (write_bytes m base (concat (xs[i := xs ! j, j := xs ! i])))"
proof -
  let ?ys = "xs[i := xs ! j]"
  have l: "length (xs ! i) = w" "length (xs ! j) = w" using assms by (simp_all add: elems_nth)
  have y: "elems w ?ys" using assms l by (intro elems_update) simp_all
  have "base + i * w + w \<le> base + j * w" using assms(3) mult_le_mono1 [of "Suc i" j w] by simp
  then have "swap_bytes m (base + i * w) (base + j * w) (length (xs ! i)) =
      Some (write_bytes (write_bytes m (base + i * w) (xs ! j)) (base + j * w) (xs ! i))"
    using assms l by (intro swap_bytes_blocks) (auto simp: elem_bytes)
  also have "write_bytes m (base + i * w) (xs ! j) = write_bytes m base (concat ?ys)"
    using assms l by (intro write_elem) simp_all
  also have "write_bytes (write_bytes m base (concat ?ys)) (base + j * w) (xs ! i) =
      write_bytes (write_bytes m base (concat ?ys)) base (concat (?ys[j := xs ! i]))"
    using y assms l by (intro write_elem) simp_all
  also have "\<dots> = write_bytes m base (concat (?ys[j := xs ! i]))"
    using y l length_concat_elems [of w "?ys[j := xs ! i]"]
    by (intro write_bytes_twice) (simp add: length_concat_elems elems_update)
  finally show ?thesis using l by simp
qed

section \<open>The comparison function\<close>

text \<open>
  What \<open>qsort\<close> and \<open>bsearch\<close> ask of the comparison function: it returns, its result is a function
  \<open>cmp\<close> of the bytes of the two elements, and it orders the elements.
\<close>

locale comparator =
  fixes compar :: "mem \<Rightarrow> addr \<Rightarrow> addr \<Rightarrow> int option" and w :: nat and cmp :: "byte list \<Rightarrow> byte list \<Rightarrow> int"
  assumes compares: "bytes_at m a x \<Longrightarrow> bytes_at m b y \<Longrightarrow> length x = w \<Longrightarrow> length y = w \<Longrightarrow>
      compar m a b = Some (cmp x y)"
    and cmp_sgn: "length x = w \<Longrightarrow> length y = w \<Longrightarrow> sgn (cmp y x) = - sgn (cmp x y)"
    and cmp_trans: "length x = w \<Longrightarrow> length y = w \<Longrightarrow> length z = w \<Longrightarrow> cmp x y \<le> 0 \<Longrightarrow> cmp y z \<le> 0 \<Longrightarrow> cmp x z \<le> 0"

sublocale comparator \<subseteq> order: total_preorder "{x. length x = w}" "\<lambda>x y. cmp x y \<le> 0"
proof
  fix x y :: "byte list" assume "x \<in> {x. length x = w}" "y \<in> {x. length x = w}"
  then show "cmp x y \<le> 0 \<or> cmp y x \<le> 0" using cmp_sgn [of x y] by (auto simp: sgn_if split: if_splits)
qed (auto intro: cmp_trans)

context comparator
begin

abbreviation le :: "byte list \<Rightarrow> byte list \<Rightarrow> bool" where "le x y \<equiv> cmp x y \<le> 0"

lemma sift_refines:
  "bytes_at m base (concat xs) \<Longrightarrow> elems w xs \<Longrightarrow> 0 < g \<Longrightarrow> g \<le> j \<Longrightarrow> j < length xs \<Longrightarrow> 0 < w \<Longrightarrow>
     qsort_sift compar m base w (g * w) (j * w) = Some (write_bytes m base (concat (shell_sift le g xs j)))"
proof (induction j arbitrary: m xs rule: less_induct)
  case (less j)
  let ?i = "j - g" and ?ys = "xs[j - g := xs ! j, j := xs ! (j - g)]"
  have off: "j * w - g * w = ?i * w" "?i * w + g * w = j * w"
    using less.prems by (simp_all add: diff_mult_distrib)
  have ge: "g * w \<le> ?i * w \<longleftrightarrow> g \<le> ?i" using less.prems by simp
  have l: "length (xs ! ?i) = w" "length (xs ! j) = w" using less.prems by (simp_all add: elems_nth)
  have c: "compar m (base + ?i * w) (base + j * w) = Some (cmp (xs ! ?i) (xs ! j))"
    using less.prems l by (intro compares elem_bytes) simp_all
  have sw: "swap_bytes m (base + ?i * w) (base + j * w) w = Some (write_bytes m base (concat ?ys))"
    using less.prems by (intro swap_elems) simp_all
  have y: "elems w ?ys" using less.prems(2) l by (intro elems_update) simp_all
  then have ll: "length (concat (shell_sift le g ?ys ?i)) = length (concat ?ys)" if "g \<le> ?i"
    using less.prems by (intro length_concat_mset shell_sift_mset) simp
  have IH: "qsort_sift compar (write_bytes m base (concat ?ys)) base w (g * w) (?i * w) =
      Some (write_bytes (write_bytes m base (concat ?ys)) base (concat (shell_sift le g ?ys ?i)))" if "g \<le> ?i"
    using that less.prems y by (intro less.IH) simp_all
  have b: "?i * w + base = base + ?i * w" "base + ?i * w + g * w = base + j * w"
    using off(2) by simp_all
  show ?case
    using c sw IH ll less.prems
    by (subst qsort_sift.simps, subst shell_sift.simps)
      (simp add: Let_def off(1) ge b write_bytes_same write_bytes_twice)
qed

lemma pass_refines:
  "bytes_at m base (concat xs) \<Longrightarrow> elems w xs \<Longrightarrow> 0 < g \<Longrightarrow> g \<le> i \<Longrightarrow> i < length xs \<Longrightarrow> 0 < w \<Longrightarrow>
     length xs * w < 2 ^ 64 \<Longrightarrow>
     qsort_pass compar m base (length xs * w) w (g * w) (i * w) =
       Some (write_bytes m base (concat (shell_pass le g xs i)))"
proof (induction "length xs - i" arbitrary: m xs i)
  case (Suc n)
  let ?ys = "shell_sift le g xs i"
  have ms: "mset ?ys = mset xs" using Suc.prems(5) by (rule shell_sift_mset)
  then have y: "elems w ?ys" by (rule elems_mset [OF Suc.prems(2)])
  have sz: "size_mod (i * w + w) = Suc i * w"
    using Suc.prems(5,7) mult_le_mono1 [of "Suc i" "length xs" w] by (simp add: size_mod_def)
  have lt: "Suc i * w < length xs * w \<longleftrightarrow> Suc i < length xs" using Suc.prems(6) by (simp only: mult_less_cancel2 simp_thms)
  have step: "qsort_sift compar m base w (g * w) (i * w) = Some (write_bytes m base (concat ?ys))"
    using Suc.prems by (intro sift_refines)
  have IH: "qsort_pass compar (write_bytes m base (concat ?ys)) base (length ?ys * w) w (g * w) (Suc i * w) =
      Some (write_bytes (write_bytes m base (concat ?ys)) base (concat (shell_pass le g ?ys (Suc i))))"
    if "Suc i < length xs"
    using that Suc.prems Suc.hyps(2) y by (intro Suc.hyps(1)) simp_all
  have "length (concat (shell_pass le g ?ys (Suc i))) = length (concat ?ys)" if "Suc i < length xs"
    using that by (intro length_concat_mset shell_pass_mset) simp
  then show ?case
    using step IH sz lt
    by (subst qsort_pass.simps, subst shell_pass.simps) (simp add: Let_def write_bytes_twice)
qed simp

lemma gaps_refine:
  "bytes_at m base (concat xs) \<Longrightarrow> elems w xs \<Longrightarrow> gap (Suc k) < length xs \<Longrightarrow> 0 < w \<Longrightarrow> length xs * w < 2 ^ 64 \<Longrightarrow>
     qsort_gaps compar m base (length xs * w) w (gap (Suc k) * w) =
       Some (write_bytes m base (concat (shell_passes le (Suc k) xs)))"
proof (induction k arbitrary: m xs)
  case 0
  have "qsort_pass compar m base (length xs * w) w (1 * w) (1 * w) =
      Some (write_bytes m base (concat (shell_pass le 1 xs 1)))"
    using 0 by (intro pass_refines) simp_all
  then show ?case by (subst qsort_gaps.simps) simp
next
  case (Suc k)
  let ?g = "gap (Suc (Suc k))" and ?ys = "shell_pass le (gap (Suc (Suc k))) xs (gap (Suc (Suc k)))"
  have y: "elems w ?ys" by (rule elems_mset [OF Suc.prems(2) shell_pass_mset [OF Suc.prems(3)]])
  have "?g * w - w = 3 * (gap (Suc k) * w)" by (simp add: algebra_simps)
  then have g: "(?g * w - w) div 3 = gap (Suc k) * w" "gap (Suc k) * w \<noteq> 0" using Suc.prems(4) by simp_all
  have step: "qsort_pass compar m base (length xs * w) w (?g * w) (?g * w) = Some (write_bytes m base (concat ?ys))"
    using Suc.prems by (intro pass_refines) simp_all
  have IH: "qsort_gaps compar (write_bytes m base (concat ?ys)) base (length ?ys * w) w (gap (Suc k) * w) =
      Some (write_bytes (write_bytes m base (concat ?ys)) base (concat (shell_passes le (Suc k) ?ys)))"
    using Suc.prems y by (intro Suc.IH) simp_all
  have m: "mset (shell_passes le (Suc k) ?ys) = mset ?ys" using Suc.prems(3) by (intro shell_passes_mset) simp
  have "length (concat (shell_passes le (Suc k) ?ys)) = length (concat ?ys)"
    using m by (rule length_concat_mset)
  then have w2: "write_bytes (write_bytes m base (concat ?ys)) base (concat (shell_passes le (Suc k) ?ys)) =
      write_bytes m base (concat (shell_passes le (Suc (Suc k)) xs))"
    by (simp only: write_bytes_twice shell_passes.simps(2) [of le "Suc k"])
  show ?case
    by (subst qsort_gaps.simps, simp only: step bind.bind_lunit Let_def g if_True)
      (use IH w2 g in simp)
qed

text \<open>\<open>qsort\<close> is the Shell sort of the elements, from the largest gap below their number on.\<close>

lemma qsort_shell:
  assumes "bytes_at m base (concat xs)" "elems w xs" "length xs * w < 2 ^ 64" "0 < w" "1 < length xs"
  shows "\<exists>k. gap (Suc k) < length xs \<and>
    qsort compar m base (length xs) w = Some (write_bytes m base (concat (shell_passes le (Suc k) xs)))"
proof -
  have "length xs * 1 \<le> length xs * w" using assms(4) by (intro mult_le_mono2) simp
  then have n: "length xs < 2 ^ 64" using assms(3) by linarith
  obtain k where k: "first_gap (length xs) (gap 0) = Some (gap (Suc k))" "gap (Suc k) < length xs"
    using first_gap_gap [of "length xs" 0] assms(5) n by blast
  have "gap (Suc k) * w \<le> length xs * w" using k(2) by (intro mult_le_mono1) simp
  then have "size_mod (gap (Suc k) * w) = gap (Suc k) * w" "size_mod (length xs * w) = length xs * w"
    using assms(3) by (simp_all only: size_mod_def mod_less)
  then have "qsort compar m base (length xs) w = qsort_gaps compar m base (length xs * w) w (gap (Suc k) * w)"
    using assms(4,5) k(1) by (simp only: qsort_def gap.simps(1) bind.bind_lunit simp_thms if_True)
  then show ?thesis using k(2) gaps_refine [OF assms(1,2) k(2) assms(4,3)] by auto
qed

lemma qsort_elems:
  assumes "bytes_at m base (concat xs)" "elems w xs" "length xs * w < 2 ^ 64"
  shows "\<exists>ys. qsort compar m base (length xs) w = Some (write_bytes m base (concat ys)) \<and>
    mset ys = mset xs \<and> sorted_wrt le ys"
proof (cases "1 < length xs \<and> 0 < w")
  case True
  then obtain k where k: "gap (Suc k) < length xs"
      "qsort compar m base (length xs) w = Some (write_bytes m base (concat (shell_passes le (Suc k) xs)))"
    using qsort_shell [OF assms] by blast
  have "set xs \<subseteq> {x. length x = w}" using assms(2) by (auto simp: elems_def)
  then have "sorted_wrt le (shell_passes le (Suc k) xs)" by (rule order.passes_sort [OF k(1)])
  then show ?thesis using k shell_passes_mset [OF k(1)] by blast
next
  case False
  have "sorted_wrt le xs"
  proof (cases "w = 0")
    case True
    then have "xs ! i = []" if "i < length xs" for i using assms(2) elems_nth [of w xs i] that by simp
    moreover have "le x x" if "length x = w" for x using order.total [of x x] that by simp
    ultimately show ?thesis using True by (simp add: sorted_wrt_iff_nth_less)
  next
    case False
    then have "length xs \<le> 1" using \<open>\<not> (1 < length xs \<and> 0 < w)\<close> by simp
    then show ?thesis by (cases xs) auto
  qed
  then show ?thesis
    using False assms(1) by (intro exI [where x = xs]) (auto simp: qsort_def write_bytes_same)
qed

lemma cmp_pos_before:
  assumes "length k = w" "length x = w" "length y = w" "le x y" "0 < cmp k y"
  shows "0 < cmp k x"
  using assms cmp_trans [of k x y] by (meson not_le)

lemma cmp_neg_after:
  assumes "length k = w" "length x = w" "length y = w" "le x y" "cmp k x < 0"
  shows "cmp k y < 0"
proof (rule ccontr)
  assume "\<not> cmp k y < 0"
  then have "cmp y k \<le> 0" using cmp_sgn [of k y] assms by (auto simp: sgn_if split: if_splits)
  then have "cmp x k \<le> 0" using cmp_trans [of x y k] assms by blast
  then show False using cmp_sgn [of k x] assms by (auto simp: sgn_if split: if_splits)
qed

lemma bsearch_loop_elems:
  assumes "bytes_at m key k" "length k = w" "bytes_at m base (concat xs)" "elems w xs" "length xs * w < 2 ^ 64"
    and "sorted_wrt le xs"
  shows "low \<le> high \<Longrightarrow> high \<le> length xs \<Longrightarrow> \<forall>i<low. 0 < cmp k (xs ! i) \<Longrightarrow>
    \<forall>i<length xs. high \<le> i \<longrightarrow> cmp k (xs ! i) < 0 \<Longrightarrow>
    (\<exists>i<length xs. bsearch_loop compar m key base w low high = Some (base + i * w) \<and> cmp k (xs ! i) = 0) \<or>
    bsearch_loop compar m key base w low high = Some NULL \<and> (\<forall>i<length xs. cmp k (xs ! i) \<noteq> 0)"
proof (induction "high - low" arbitrary: low high rule: less_induct)
  case less
  show ?case
  proof (cases "low < high")
    case False
    then have "\<forall>i<length xs. cmp k (xs ! i) \<noteq> 0" using less.prems by (metis less_irrefl not_le order_trans)
    then show ?thesis using False by (simp add: bsearch_loop.simps)
  next
    case True
    define mid where "mid = low + (high - low) div 2"
    have mid: "low \<le> mid" "mid < high" "mid < length xs" using True less.prems by (auto simp: mid_def)
    have l: "length (xs ! i) = w" if "i < length xs" for i using assms(4) that by (rule elems_nth)
    have sz: "size_mod (mid * w) = mid * w"
      unfolding size_mod_def
      by (rule mod_less, rule order.strict_trans1 [OF _ assms(5)], rule mult_le_mono1) (use mid(3) in simp)
    have c: "compar m key (base + mid * w) = Some (cmp k (xs ! mid))"
      using assms mid l by (intro compares elem_bytes)
    have le: "le (xs ! i) (xs ! j)" if "i \<le> j" "j < length xs" for i j
      using that assms(6) order.total [of "xs ! i" "xs ! i"] l
      by (cases "i = j") (auto simp: sorted_wrt_iff_nth_less)
    have step: "bsearch_loop compar m key base w low high =
        (if 0 < cmp k (xs ! mid) then bsearch_loop compar m key base w (mid + 1) high
         else if cmp k (xs ! mid) < 0 then bsearch_loop compar m key base w low mid
         else Some (base + mid * w))"
      using True c sz by (subst bsearch_loop.simps) (simp add: mid_def [symmetric] Let_def)
    consider "0 < cmp k (xs ! mid)" | "cmp k (xs ! mid) < 0" | "cmp k (xs ! mid) = 0" by linarith
    then show ?thesis
    proof cases
      case 1
      have "0 < cmp k (xs ! i)" if "i < mid + 1" for i
        using that mid l le [of i mid] 1 assms(2) by (intro cmp_pos_before [of k "xs ! i" "xs ! mid"]) simp_all
      then show ?thesis using less.hyps [of high "mid + 1"] less.prems mid step 1 by simp
    next
      case 2
      have "cmp k (xs ! i) < 0" if "i < length xs" "mid \<le> i" for i
        using that mid l le [of mid i] 2 assms(2) by (intro cmp_neg_after [of k "xs ! mid" "xs ! i"]) simp_all
      then show ?thesis using less.hyps [of mid low] less.prems mid step 2 by simp
    next
      case 3
      then show ?thesis using mid step by auto
    qed
  qed
qed

lemma bsearch_elems:
  assumes "bytes_at m key k" "length k = w" "bytes_at m base (concat xs)" "elems w xs" "length xs * w < 2 ^ 64"
    and "sorted_wrt le xs" "0 < w"
  shows "\<exists>r. bsearch compar m key base (length xs) w = Some r \<and>
    (if \<exists>x\<in>set xs. cmp k x = 0 then \<exists>i<length xs. r = base + i * w \<and> cmp k (xs ! i) = 0 else r = NULL)"
proof -
  consider i where "i < length xs" "bsearch compar m key base (length xs) w = Some (base + i * w)" "cmp k (xs ! i) = 0"
    | "bsearch compar m key base (length xs) w = Some NULL" "\<forall>i<length xs. cmp k (xs ! i) \<noteq> 0"
    using bsearch_loop_elems [OF assms(1-6), of 0 "length xs"] assms(7) unfolding bsearch_def by auto
  then show ?thesis
  proof cases
    case 1
    moreover have "\<exists>x\<in>set xs. cmp k x = 0" using 1 nth_mem by blast
    ultimately show ?thesis by auto
  next
    case 2
    then show ?thesis by (auto simp: in_set_conv_nth)
  qed
qed

end

section \<open>memcmp as the comparison function\<close>

lemma bytes_diff_swap: "bytes_diff ys xs = - bytes_diff xs ys"
  by (induction xs ys rule: bytes_diff.induct) auto

lemma bytes_diff_trans:
  "length x = n \<Longrightarrow> length y = n \<Longrightarrow> length z = n \<Longrightarrow> bytes_diff x y \<le> 0 \<Longrightarrow> bytes_diff y z \<le> 0 \<Longrightarrow> bytes_diff x z \<le> 0"
proof (induction n arbitrary: x y z)
  case (Suc n)
  then obtain a x' b y' c z' where c: "x = a # x'" "y = b # y'" "z = c # z'"
    by (metis length_Suc_conv)
  then show ?case
    using Suc.prems Suc.IH [of x' y' z'] by (auto simp: word_uint_eq_iff split: if_splits)
qed simp

text \<open>
  Up to fifteen bytes \<open>memcmp\<close> reads the two blocks only, so it satisfies the contract for every
  such width.
\<close>

lemma memcmp_comparator:
  assumes "w < 16"
  shows "comparator (\<lambda>m a b. memcmp m u a b w) w bytes_diff"
proof
  fix m a b x y assume "bytes_at m a x" "bytes_at m b y" "length x = w" "length y = w"
  then show "memcmp m u a b w = Some (bytes_diff x y)"
    using memcmp_tail_bytes [of m a x b y] assms by (simp add: memcmp_def)
next
  fix x y :: "byte list"
  show "sgn (bytes_diff y x) = - sgn (bytes_diff x y)" by (simp add: bytes_diff_swap [of y x])
qed (rule bytes_diff_trans)

interpretation memcmp_order: comparator "\<lambda>m a b. memcmp m u a b (min w 15)" "min w 15" bytes_diff for u w
  by (rule memcmp_comparator) simp

section \<open>Properties\<close>

lemma three_sorted:
  assumes "{a, b, c} = {p, q, r}" "distinct [a, b, c]" "0 < d p q" "0 < d p r" "0 < d q r"
    and "d a b \<le> (0 :: int)" "d a c \<le> 0" "d b c \<le> 0"
  shows "a = r \<and> b = q \<and> c = p"
proof -
  have "a \<in> {p, q, r}" "b \<in> {p, q, r}" "c \<in> {p, q, r}" using assms(1) by blast+
  then show ?thesis using assms(2-) by auto
qed

text \<open>C5. \<open>qsort\<close> returns, and leaves in the array the same elements in ascending order of the
  comparison function; nothing outside the array changes. It is asked of the array that its size in
  bytes is a \<open>size_t\<close>, and of the comparison function that it compares elements by a total preorder.\<close>

theorem qsort_sorts:
  assumes "comparator compar w cmp" "bytes_at m base (concat xs)" "elems w xs" "length xs * w < 2 ^ 64"
  shows "\<exists>ys. qsort compar m base (length xs) w = Some (write_bytes m base (concat ys)) \<and>
    mset ys = mset xs \<and> sorted_wrt (\<lambda>x y. cmp x y \<le> 0) ys"
  by (rule comparator.qsort_elems [OF assms])

text \<open>Three elements of two bytes, compared by \<open>memcmp\<close>.\<close>

theorem qsort_sorts_witness:
  "qsort (\<lambda>m a b. memcmp m 0 a b 2) (mem_of 8 [3, 1, 2, 9, 2, 5]) 8 3 2 =
    Some (write_bytes (mem_of 8 [3, 1, 2, 9, 2, 5]) 8 [2, 5, 2, 9, 3, 1])"
proof -
  let ?xs = "[[3, 1], [2, 9], [2, 5 :: byte]]"
  have "comparator (\<lambda>m a b. memcmp m 0 a b 2) 2 bytes_diff" by (rule memcmp_comparator) simp
  then have "\<exists>ys. qsort (\<lambda>m a b. memcmp m 0 a b 2) (mem_of 8 (concat ?xs)) 8 (length ?xs) 2 =
      Some (write_bytes (mem_of 8 (concat ?xs)) 8 (concat ys)) \<and>
      mset ys = mset ?xs \<and> sorted_wrt (\<lambda>x y. bytes_diff x y \<le> 0) ys"
    by (rule qsort_sorts) (simp_all only: bytes_at_mem_of, simp_all)
  moreover have "length ?xs = 3" "concat ?xs = [3, 1, 2, 9, 2, 5]" by simp_all
  ultimately obtain ys where ys: "qsort (\<lambda>m a b. memcmp m 0 a b 2) (mem_of 8 [3, 1, 2, 9, 2, 5]) 8 3 2 =
      Some (write_bytes (mem_of 8 [3, 1, 2, 9, 2, 5]) 8 (concat ys))"
    and m: "mset ys = mset ?xs" and s: "sorted_wrt (\<lambda>x y. bytes_diff x y \<le> 0) ys"
    by metis
  obtain a b c where abc: "ys = [a, b, c]" using mset_eq_length [OF m] by (auto simp: length_Suc_conv)
  have "a = [2, 5] \<and> b = [2, 9] \<and> c = [3, 1]"
  proof (rule three_sorted [where d = bytes_diff])
    show "{a, b, c} = {[3, 1], [2, 9], [2, 5]}" "distinct [a, b, c]"
      using mset_eq_setD [OF m] mset_eq_imp_distinct_iff [OF m] abc by auto
    show "bytes_diff a b \<le> 0" "bytes_diff a c \<le> 0" "bytes_diff b c \<le> 0" using s abc by simp_all
  qed simp_all
  then show ?thesis using ys abc by simp
qed

text \<open>C26. The byte-wise loops of \<open>qsort\<close> refine a Shell sort of the list of elements: with \<open>gap k\<close> the
  \<open>k\<close>-th of 1, 4, 13, \<open>\<dots>\<close>, the memory they leave is that of the list after the passes with the gaps
  from \<open>gap (k + 1)\<close>, which is below the number of elements, down to 1.\<close>

theorem qsort_refines_shell:
  assumes "comparator compar w cmp" "bytes_at m base (concat xs)" "elems w xs" "length xs * w < 2 ^ 64"
    and "0 < w" "1 < length xs"
  shows "\<exists>k. gap (Suc k) < length xs \<and> qsort compar m base (length xs) w =
    Some (write_bytes m base (concat (shell_passes (\<lambda>x y. cmp x y \<le> 0) (Suc k) xs)))"
  by (rule comparator.qsort_shell [OF assms])

theorem qsort_refines_shell_witness:
  "\<exists>k. gap (Suc k) < 9 \<and> qsort (\<lambda>m a b. memcmp m 5 a b 1) (mem_of 8 [9, 8, 7, 6, 5, 4, 3, 2, 1]) 8 9 1 =
    Some (write_bytes (mem_of 8 [9, 8, 7, 6, 5, 4, 3, 2, 1]) 8
      (concat (shell_passes (\<lambda>x y. bytes_diff x y \<le> 0) (Suc k) [[9], [8], [7], [6], [5], [4], [3], [2], [1]])))"
proof -
  let ?xs = "[[9], [8], [7], [6], [5], [4], [3], [2], [1 :: byte]]"
  have "comparator (\<lambda>m a b. memcmp m 5 a b 1) 1 bytes_diff" by (rule memcmp_comparator) simp
  then have "\<exists>k. gap (Suc k) < length ?xs \<and> qsort (\<lambda>m a b. memcmp m 5 a b 1) (mem_of 8 (concat ?xs)) 8 (length ?xs) 1 =
      Some (write_bytes (mem_of 8 (concat ?xs)) 8 (concat (shell_passes (\<lambda>x y. bytes_diff x y \<le> 0) (Suc k) ?xs)))"
    by (rule qsort_refines_shell) (simp_all only: bytes_at_mem_of, simp_all)
  moreover have "length ?xs = 9" "concat ?xs = [9, 8, 7, 6, 5, 4, 3, 2, 1]" by simp_all
  ultimately show ?thesis by metis
qed

text \<open>\<open>bsearch\<close> on an array sorted by the comparison function returns, and finds an element that
  compares equal to the key exactly if there is one; otherwise its result is the null pointer.\<close>

lemma bsearch_finds:
  assumes "comparator compar w cmp" "bytes_at m key k" "length k = w" "bytes_at m base (concat xs)" "elems w xs"
    and "length xs * w < 2 ^ 64" "sorted_wrt (\<lambda>x y. cmp x y \<le> 0) xs" "0 < w"
  shows "\<exists>r. bsearch compar m key base (length xs) w = Some r \<and>
    (if \<exists>x\<in>set xs. cmp k x = 0 then \<exists>i<length xs. r = base + i * w \<and> cmp k (xs ! i) = 0 else r = NULL)"
  by (rule comparator.bsearch_elems [OF assms])

text \<open>The key is the last byte of the memory.\<close>

theorem bsearch_finds_witness:
  "bsearch (\<lambda>m a b. memcmp m 0 a b 1) (mem_of 8 [1, 3, 5, 7, 5]) 12 8 4 1 = Some 10"
proof -
  let ?m = "mem_of 8 [1, 3, 5, 7, 5]" and ?xs = "[[1], [3], [5], [7 :: byte]]"
  have "comparator (\<lambda>m a b. memcmp m 0 a b 1) 1 bytes_diff" by (rule memcmp_comparator) simp
  then have "\<exists>r. bsearch (\<lambda>m a b. memcmp m 0 a b 1) ?m 12 8 (length ?xs) 1 = Some r \<and>
      (if \<exists>x\<in>set ?xs. bytes_diff [5] x = 0
       then \<exists>i<length ?xs. r = 8 + i * 1 \<and> bytes_diff [5] (?xs ! i) = 0 else r = NULL)"
    by (rule bsearch_finds) (simp_all add: mem_of_eval)
  moreover have "length ?xs = 4" by simp
  ultimately obtain i where i: "i < 4" "bsearch (\<lambda>m a b. memcmp m 0 a b 1) ?m 12 8 4 1 = Some (8 + i)"
      "bytes_diff [5] (?xs ! i) = 0"
    by (auto simp del: list.size)
  then consider "i = 0" | "i = 1" | "i = 2" | "i = 3" by linarith
  then show ?thesis using i by cases simp_all
qed

end
