(* ===== verification/Stdlib_Num.thy ===== *)
theory Stdlib_Num
  imports Prelude "HOL-Library.Signed_Division"
begin

text \<open>
  Number parsing of \<open>libc/stdlib/stdlib.c\<close>, the character tests of
  \<open>libc/ctype/ctype.c\<close> it uses, absolute values, the division functions, and \<open>ffs\<close>.

  The two work functions \<open>_stdlib_strto_l_l\<close> and \<open>_stdlib_strto_ll_l\<close> have the same prefix and loop and
  differ in how they add a digit to a 64-bit number. The locale \<open>strto_accumulator\<close> is the
  contract of that step: it saturates. Both steps are instances, so both functions
  compute the same, the value \<open>strto_ref\<close> specifies on the bytes of the string.
\<close>

section \<open>Character tests\<close>

definition isspace :: "32 word \<Rightarrow> bool" where
  "isspace ch \<longleftrightarrow> ch = 32 \<or> ch - 9 \<le> 4"

definition iswhitespace :: "32 word \<Rightarrow> bool" where
  "iswhitespace ch \<longleftrightarrow> ch = 32 \<or> ch - 9 \<le> 4"

definition isblank :: "32 word \<Rightarrow> bool" where
  "isblank ch \<longleftrightarrow> ch = 32 \<or> ch = 9"

definition isdigit :: "32 word \<Rightarrow> bool" where
  "isdigit ch \<longleftrightarrow> ch - 48 < 10"

definition isxdigit :: "32 word \<Rightarrow> bool" where
  "isxdigit ch \<longleftrightarrow> ch - 48 < 10 \<or> (ch OR 0x20) - 97 < 6"

definition iscntrl :: "32 word \<Rightarrow> bool" where
  "iscntrl ch \<longleftrightarrow> ch < 0x20 \<or> ch = 0x7f"

definition isalpha :: "32 word \<Rightarrow> bool" where
  "isalpha ch \<longleftrightarrow> (ch OR 0x20) - 97 < 26"

definition isalnum :: "32 word \<Rightarrow> bool" where
  "isalnum ch \<longleftrightarrow> (ch OR 0x20) - 97 < 26 \<or> ch - 48 < 10"

definition isprint :: "32 word \<Rightarrow> bool" where
  "isprint ch \<longleftrightarrow> ch - 0x20 \<le> 0x7e - 0x20"

definition isgraph :: "32 word \<Rightarrow> bool" where
  "isgraph ch \<longleftrightarrow> ch - 0x21 \<le> 0x7e - 0x21"

definition toascii :: "32 word \<Rightarrow> 32 word" where
  "toascii c = c AND 0x7f"

definition tolower :: "32 word \<Rightarrow> 32 word" where
  "tolower c = (if c - 65 < 26 then c OR 0x20 else c)"

text \<open>\<open>islower\<close> is declared as a weak alias of \<open>tolower\<close>.\<close>

definition islower :: "32 word \<Rightarrow> 32 word" where
  "islower c = tolower c"

definition toupper :: "32 word \<Rightarrow> 32 word" where
  "toupper c = (if c - 97 < 26 then c XOR 0x20 else c)"

section \<open>Parsing\<close>

text \<open>A \<open>char\<close> is signed and promoted to \<open>int\<close> when it is passed to \<open>isspace\<close>.\<close>

definition char_space :: "byte \<Rightarrow> bool" where
  "char_space c = isspace (scast c)"

text \<open>The digit a character stands for, an \<open>unsigned char\<close>; 40 is no digit in any base.\<close>

definition digit_of :: "byte \<Rightarrow> byte" where
  "digit_of c = (if c - 48 \<le> 9 then c - 48
     else if sint c \<ge> 65 then (0x20 OR c) - 97 + 10 else 40)"

definition ULONG_MAX :: "64 word" where "ULONG_MAX = - 1"

type_synonym strto_acc = "64 word \<times> bool \<times> bool"

text \<open>One digit added: number, sign still to be applied, \<open>ERANGE\<close> seen.\<close>

definition strto_l_digit :: "int \<Rightarrow> bool \<Rightarrow> byte \<Rightarrow> strto_acc \<Rightarrow> strto_acc" where
  "strto_l_digit base sflag digit = (\<lambda>(number, negative, erange).
     (let cutoff_digit = ucast (ULONG_MAX mod word_of_int base) :: byte;
          cutoff = ULONG_MAX div word_of_int base
      in if number > cutoff \<or> number = cutoff \<and> digit > cutoff_digit
         then (ULONG_MAX, negative \<and> sflag, True)
         else (number * word_of_int base + ucast digit, negative, erange)))"

definition strto_ll_digit :: "int \<Rightarrow> bool \<Rightarrow> byte \<Rightarrow> strto_acc \<Rightarrow> strto_acc" where
  "strto_ll_digit base sflag digit = (\<lambda>(number, negative, erange).
     (if number \<le> drop_bit 6 ULONG_MAX
      then (number * word_of_int base + ucast digit, negative, erange)
      else
        (let n1 = ucast (ucast number :: byte) * word_of_int base + ucast digit :: 32 word;
             number = drop_bit 8 number * word_of_int base
         in if number + ucast (drop_bit 8 n1) \<le> drop_bit 8 ULONG_MAX
            then (push_bit 8 number + ucast n1, negative, erange)
            else (ULONG_MAX, negative \<and> sflag, True))))"

partial_function (option) strto_spaces :: "mem \<Rightarrow> addr \<Rightarrow> addr option" where
  "strto_spaces m str = do {
     c \<leftarrow> m str;
     if char_space c then strto_spaces m (str + 1) else Some str }"

text \<open>\<open>switch (*str) { case '-': negative = 1; case '+': ++str; }\<close>\<close>

definition strto_sign :: "mem \<Rightarrow> addr \<Rightarrow> (bool \<times> addr) option" where
  "strto_sign m str = do {
     c \<leftarrow> m str;
     Some (if c = 45 then (True, str + 1) else if c = 43 then (False, str + 1) else (False, str)) }"

text \<open>The prefix of base 16 or of a base still open: \<open>fail_char\<close>, the position and the base.\<close>

definition strto_base :: "mem \<Rightarrow> int \<Rightarrow> addr \<Rightarrow> addr \<Rightarrow> (addr \<times> addr \<times> int) option" where
  "strto_base m base fail_char str =
     (if base AND NOT 0x10 = 0 then do {
        let base = base + 10;
        c \<leftarrow> m str;
        (fail_char, str, base) \<leftarrow>
          (if c = 48 then do {
             let str = str + 1;
             let fail_char = str;
             let base = base - 2;
             c \<leftarrow> m str;
             Some (if 0x20 OR c = 120 then (fail_char, str + 1, base + base) else (fail_char, str, base)) }
           else Some (fail_char, str, base));
        Some (fail_char, str, if base > 16 then 16 else base) }
      else Some (fail_char, str, base))"

partial_function (option) strto_digits ::
    "(byte \<Rightarrow> strto_acc \<Rightarrow> strto_acc) \<Rightarrow> int \<Rightarrow> mem \<Rightarrow> addr \<Rightarrow> addr \<Rightarrow> strto_acc \<Rightarrow> (addr \<times> strto_acc) option" where
  "strto_digits add base m fail_char str acc = do {
     c \<leftarrow> m str;
     let digit = digit_of c;
     if uint digit \<ge> base then Some (fail_char, acc)
     else strto_digits add base m (str + 1) (str + 1) (add digit acc) }"

text \<open>The sign and, for the signed functions, the clamping to the range of \<open>long\<close>.\<close>

definition strto_finish :: "bool \<Rightarrow> strto_acc \<Rightarrow> 64 word \<times> bool" where
  "strto_finish sflag = (\<lambda>(number, negative, erange).
     (let tmp = (if negative then 0x7fffffffffffffff + 1 else 0x7fffffffffffffff);
          (number, erange) = (if sflag \<and> number > tmp then (tmp, True) else (number, erange))
      in (if negative then - number else number, erange)))"

definition strto_work ::
    "(int \<Rightarrow> bool \<Rightarrow> byte \<Rightarrow> strto_acc \<Rightarrow> strto_acc) \<Rightarrow> mem \<Rightarrow> addr \<Rightarrow> int \<Rightarrow> bool \<Rightarrow>
     (64 word \<times> addr \<times> bool) option" where
  "strto_work add m str base sflag = do {
     let fail_char = str;
     str \<leftarrow> strto_spaces m str;
     (negative, str) \<leftarrow> strto_sign m str;
     (fail_char, str, base) \<leftarrow> strto_base m base fail_char str;
     (fail_char, acc) \<leftarrow>
       (if (base - 2) mod 2 ^ 32 < 35
        then strto_digits (add base sflag) base m fail_char str (0, negative, False)
        else Some (fail_char, (0, negative, False)));
     let (r, erange) = strto_finish sflag acc;
     Some (r, fail_char, erange) }"

text \<open>The value returned, the pointer stored in \<open>*endptr\<close>, and whether \<open>errno\<close> is set to \<open>ERANGE\<close>.\<close>

definition stdlib_strto_l_l :: "mem \<Rightarrow> addr \<Rightarrow> int \<Rightarrow> bool \<Rightarrow> (64 word \<times> addr \<times> bool) option" where
  "stdlib_strto_l_l m str base sflag = strto_work strto_l_digit m str base sflag"

definition stdlib_strto_ll_l :: "mem \<Rightarrow> addr \<Rightarrow> int \<Rightarrow> bool \<Rightarrow> (64 word \<times> addr \<times> bool) option" where
  "stdlib_strto_ll_l m str base sflag = strto_work strto_ll_digit m str base sflag"

definition strtol :: "mem \<Rightarrow> addr \<Rightarrow> int \<Rightarrow> (64 word \<times> addr \<times> bool) option" where
  "strtol m str base = stdlib_strto_l_l m str base True"

definition strtoul :: "mem \<Rightarrow> addr \<Rightarrow> int \<Rightarrow> (64 word \<times> addr \<times> bool) option" where
  "strtoul m str base = stdlib_strto_l_l m str base False"

definition atoi :: "mem \<Rightarrow> addr \<Rightarrow> 32 word option" where
  "atoi m nptr = map_option (\<lambda>(r, _). ucast r) (strtol m nptr 10)"

text \<open>The result goes through an \<open>int\<close> on its way to \<open>long\<close>.\<close>

definition atol :: "mem \<Rightarrow> addr \<Rightarrow> 64 word option" where
  "atol m nptr = map_option (\<lambda>(r, _). scast (ucast r :: 32 word)) (strtol m nptr 10)"

section \<open>Absolute values, quotients and the first bit\<close>

definition abs_int :: "32 word \<Rightarrow> 32 word" where
  "abs_int num = (if sint num < 0 then num * - 1 else num)"

definition labs :: "64 word \<Rightarrow> 64 word" where
  "labs j = (if 0 \<le> sint j then j else - j)"

record div_t =
  quot :: "32 word"
  rem :: "32 word"

text \<open>Division by zero traps; so does the quotient \<open>2\<^sup>3\<^sup>1\<close>, which an \<open>int\<close> cannot hold.\<close>

definition div_call :: "32 word \<Rightarrow> 32 word \<Rightarrow> div_t option" where
  "div_call numer denom =
     (if denom = 0 \<or> numer = - (2 ^ 31) \<and> denom = - 1 then None
      else (let q = word_of_int (sint numer sdiv sint denom) in Some \<lparr>quot = q, rem = numer - q * denom\<rparr>))"

record ldiv_t =
  lquot :: "64 word"
  lrem :: "64 word"

definition ldiv_call :: "64 word \<Rightarrow> 64 word \<Rightarrow> ldiv_t option" where
  "ldiv_call numer denom =
     (if denom = 0 \<or> numer = - (2 ^ 63) \<and> denom = - 1 then None
      else (let r = \<lparr>lquot = word_of_int (sint numer sdiv sint denom), lrem = word_of_int (sint numer smod sint denom)\<rparr> in
            Some (if 0 \<le> sint numer \<and> sint (lrem r) < 0
                  then r\<lparr>lquot := lquot r + 1, lrem := lrem r - denom\<rparr> else r)))"

text \<open>One halving: \<open>n += k\<close> and \<open>i >>= k\<close> when the low \<open>k\<close> bits are clear.\<close>

definition ffs_step :: "nat \<Rightarrow> byte \<times> 32 word \<Rightarrow> byte \<times> 32 word" where
  "ffs_step k = (\<lambda>(n, i). if i AND mask k = 0 then (n + of_nat k, signed_drop_bit k i) else (n, i))"

definition ffs :: "32 word \<Rightarrow> 32 word" where
  "ffs i = (let (n, i) = ffs_step 2 (ffs_step 4 (ffs_step 8 (ffs_step 16 (1, i))))
            in if i \<noteq> 0 then scast n + ((i + 1) AND 1) else 0)"

section \<open>The contract of adding a digit\<close>

locale strto_accumulator =
  fixes add :: "int \<Rightarrow> bool \<Rightarrow> byte \<Rightarrow> strto_acc \<Rightarrow> strto_acc"
  assumes add_saturates: "2 \<le> base \<Longrightarrow> base \<le> 36 \<Longrightarrow> uint d < base \<Longrightarrow>
    add base sflag d (w, neg, err) =
      (if uint w * base + uint d < 2 ^ 64 then (word_of_int (uint w * base + uint d), neg, err)
       else (ULONG_MAX, neg \<and> sflag, True))"

lemma uint_ULONG_MAX: "uint ULONG_MAX = 2 ^ 64 - 1"
  by (simp add: ULONG_MAX_def unsigned_minus_1_eq_mask mask_eq_exp_minus_1)

definition digits_value :: "int \<Rightarrow> byte list \<Rightarrow> int" where
  "digits_value base ds = foldl (\<lambda>v d. v * base + uint d) 0 ds"

definition saturated :: "bool \<Rightarrow> bool \<Rightarrow> int \<Rightarrow> strto_acc" where
  "saturated sflag neg v =
     (if v < 2 ^ 64 then (word_of_int v, neg, False) else (ULONG_MAX, neg \<and> sflag, True))"

lemma digits_value_snoc: "digits_value base (ds @ [d]) = digits_value base ds * base + uint d"
  by (simp add: digits_value_def)

lemma digits_value_nonneg: "0 \<le> base \<Longrightarrow> 0 \<le> digits_value base ds"
  by (induction ds rule: rev_induct) (simp_all add: digits_value_snoc, simp add: digits_value_def)

context strto_accumulator
begin

lemma fold_saturated:
  assumes "2 \<le> base" "base \<le> 36"
  shows "\<forall>d\<in>set ds. uint d < base \<Longrightarrow>
    fold (add base sflag) ds (0, neg, False) = saturated sflag neg (digits_value base ds)"
proof (induction ds rule: rev_induct)
  case Nil
  then show ?case by (simp add: saturated_def digits_value_def)
next
  case (snoc d ds)
  let ?v = "digits_value base ds"
  have v: "0 \<le> ?v" using digits_value_nonneg [of base ds] assms by simp
  have d: "uint d < base" "0 \<le> uint d" using snoc.prems by simp_all
  show ?case
  proof (cases "?v < 2 ^ 64")
    case True
    then have "uint (word_of_int ?v :: 64 word) = ?v" using v by (simp add: uint_word_of_int_eq take_bit_int_eq_self)
    with snoc True d show ?thesis
      by (simp add: saturated_def digits_value_snoc add_saturates assms)
  next
    case False
    have "2 ^ 64 * 2 \<le> ?v * base" using False assms(1) by (intro mult_mono) auto
    then have "2 ^ 64 * 2 + 0 \<le> ?v * base + uint d" using d(2) by (rule add_mono)
    then have "\<not> ?v * base + uint d < 2 ^ 64" by simp
    moreover have "(2 ^ 64 - 1) * 2 + 0 \<le> (2 ^ 64 - 1) * base + uint d"
      using assms(1) by (intro add_mono) simp_all
    then have "\<not> (2 ^ 64 - 1) * base + uint d < 2 ^ 64" by simp
    ultimately have ovf: "\<not> ?v * base + uint d < 2 ^ 64" "\<not> (2 ^ 64 - 1) * base + uint d < 2 ^ 64"
      by simp_all
    with snoc False d show ?thesis
      by (simp add: saturated_def digits_value_snoc add_saturates assms uint_ULONG_MAX)
  qed
qed

end

lemma uint_word_of_base: "0 \<le> b \<Longrightarrow> b < 2 ^ 32 \<Longrightarrow> uint (word_of_int b :: 64 word) = b"
  by (simp add: uint_word_of_int_eq take_bit_int_eq_self)

lemma word_of_int_step:
  "word_of_int (uint (w :: 64 word) * base + uint (d :: byte)) = w * word_of_int base + ucast d"
  by simp

lemma quotient_compare:
  fixes w b d M :: int
  assumes "0 < b" "0 \<le> d" "d < b" "0 \<le> w" "0 \<le> M"
  shows "w * b + d \<le> M \<longleftrightarrow> w < M div b \<or> w = M div b \<and> d \<le> M mod b"
proof -
  have M: "M = M div b * b + M mod b" by simp
  have m: "0 \<le> M mod b" "M mod b < b" using assms by simp_all
  show ?thesis
  proof (cases w "M div b" rule: linorder_cases)
    case less
    then have "(w + 1) * b \<le> M div b * b" using assms(1) by (intro mult_right_mono) auto
    then have "w * b + b \<le> M div b * b" by (simp add: distrib_right)
    with M m assms have "w * b + d \<le> M" by linarith
    with less show ?thesis by simp
  next
    case equal
    have "M div b * b + d \<le> M \<longleftrightarrow> d \<le> M mod b" using M by linarith
    with equal show ?thesis by simp
  next
    case greater
    then have "(M div b + 1) * b \<le> w * b" using assms(1) by (intro mult_right_mono) auto
    then have "M div b * b + b \<le> w * b" by (simp add: distrib_right)
    with M m assms have "M < w * b + d" by linarith
    with greater show ?thesis by simp
  qed
qed

lemma take_bit_uint_self: "take_bit LENGTH('a) (uint (w :: 'a :: len word)) = uint w"
  by (simp add: take_bit_int_eq_self)

lemmas take_bit_uints = take_bit_uint_self [where 'a = 64, simplified] take_bit_uint_self [where 'a = 32, simplified]

interpretation strto_l: strto_accumulator strto_l_digit
proof
  fix base sflag and d :: byte and w :: "64 word" and neg err
  assume b: "2 \<le> base" "base \<le> 36" and d: "uint d < base"
  let ?M = "2 ^ 64 - 1 :: int"
  have ub: "uint (word_of_int base :: 64 word) = base" using b by (intro uint_word_of_base) auto
  have cut: "uint (ULONG_MAX div word_of_int base) = ?M div base"
    "uint (ULONG_MAX mod word_of_int base) = ?M mod base"
    using ub by (simp_all add: uint_div uint_mod uint_ULONG_MAX)
  have "?M mod base < 256" using pos_mod_bound [of base ?M] b by linarith
  then have cd: "uint (ucast (ULONG_MAX mod word_of_int base) :: byte) = ?M mod base"
    using cut(2) b by (simp add: unsigned_ucast_eq take_bit_int_eq_self)
  have "uint w * base + uint d < 2 ^ 64 \<longleftrightarrow>
      uint w < ?M div base \<or> uint w = ?M div base \<and> uint d \<le> ?M mod base"
    using quotient_compare [of base "uint d" "uint w" ?M] b d by auto
  then have "w > ULONG_MAX div word_of_int base \<or>
      w = ULONG_MAX div word_of_int base \<and> d > ucast (ULONG_MAX mod word_of_int base) \<longleftrightarrow>
      \<not> uint w * base + uint d < 2 ^ 64"
    by (auto simp: word_less_def word_uint_eq_iff cut cd)
  then show "strto_l_digit base sflag d (w, neg, err) =
      (if uint w * base + uint d < 2 ^ 64 then (word_of_int (uint w * base + uint d), neg, err)
       else (ULONG_MAX, neg \<and> sflag, True))"
    by (simp add: strto_l_digit_def Let_def)
qed

interpretation strto_ll: strto_accumulator strto_ll_digit
proof
  fix base sflag and d :: byte and w :: "64 word" and neg err
  assume b: "2 \<le> base" "base \<le> 36" and d: "uint d < base"
  show "strto_ll_digit base sflag d (w, neg, err) =
      (if uint w * base + uint d < 2 ^ 64 then (word_of_int (uint w * base + uint d), neg, err)
       else (ULONG_MAX, neg \<and> sflag, True))"
  proof (cases "w \<le> drop_bit 6 ULONG_MAX")
    case True
    have "drop_bit 6 ULONG_MAX = (0x3ffffffffffffff :: 64 word)" by (simp add: ULONG_MAX_def mask_eq_exp_minus_1)
    with True have "uint w \<le> 2 ^ 58 - 1" by (simp add: word_le_def)
    then have "uint w * base \<le> (2 ^ 58 - 1) * 36" using b by (intro mult_mono) auto
    with True d b show ?thesis by (simp add: strto_ll_digit_def)
  next
    case False
    define n1 :: "32 word" where "n1 = ucast (ucast w :: byte) * word_of_int base + ucast d"
    define v :: "64 word" where "v = drop_bit 8 w * word_of_int base"
    have ub: "uint (word_of_int base :: 64 word) = base" "uint (word_of_int base :: 32 word) = base"
      using b by (simp_all add: uint_word_of_int_eq take_bit_int_eq_self)
    have w: "0 \<le> uint w" "uint w < 2 ^ 64" using uint_lt2p [of w] by simp_all
    have low: "uint (take_bit 8 (ucast w) :: 32 word) = uint w mod 256"
      by (simp add: unsigned_take_bit_eq unsigned_ucast_eq) (simp add: take_bit_eq_mod)
    have lb: "uint w mod 256 * base \<le> 255 * 36" using b by (intro mult_mono) auto
    have "take_bit 32 (uint d) = uint d" using b d by (simp add: take_bit_int_eq_self)
    then have n1: "uint n1 = uint w mod 256 * base + uint d"
      unfolding n1_def using lb b d
      by (simp add: uint_word_ariths ub low unsigned_ucast_eq)
    have hi: "uint (drop_bit 8 w) = uint w div 256"
      by (simp add: unsigned_drop_bit_eq) (simp add: drop_bit_eq_div take_bit_uints)
    have hb: "uint w div 256 * base \<le> (2 ^ 56 - 1) * 36" using b w by (intro mult_mono) auto
    have hb0: "0 \<le> uint w div 256 * base"
      using b pos_imp_zdiv_nonneg_iff [of 256 "uint w"] by (intro mult_nonneg_nonneg) auto
    have "uint v = (uint w div 256 * base) mod 2 ^ 64"
      unfolding v_def by (simp add: uint_word_ariths ub hi)
    then have v: "uint v = uint w div 256 * base"
      using mod_pos_pos_trivial [OF hb0, of "2 ^ 64"] hb by simp
    define S where "S = uint v + uint n1 div 256"
    have n1b: "0 \<le> uint n1 div 256" "uint n1 div 256 < 2 ^ 24"
      using uint_lt2p [of n1] pos_imp_zdiv_nonneg_iff [of 256 "uint n1"] by auto
    have "uint (drop_bit 8 n1) = uint n1 div 256"
      by (simp add: unsigned_drop_bit_eq) (simp add: drop_bit_eq_div take_bit_uints)
    then have "uint (ucast (drop_bit 8 n1) :: 64 word) = uint n1 div 256"
      using n1b by (simp add: unsigned_ucast_eq take_bit_int_eq_self)
    then have sum: "uint (v + ucast (drop_bit 8 n1)) = S"
      unfolding S_def using v hb hb0 n1b by (simp add: uint_word_ariths mod_pos_pos_trivial del: zero_le_mult_iff)
    have X: "uint w * base + uint d = 256 * S + uint n1 mod 256"
    proof -
      have "uint w * base + uint d = 256 * (uint w div 256 * base) + (uint w mod 256 * base + uint d)"
        using mult_div_mod_eq [of 256 "uint w"] by (metis (no_types) add.assoc distrib_right mult.assoc)
      then show ?thesis
        unfolding S_def v n1 [symmetric] by (simp add: distrib_left)
    qed
    have lt: "uint w * base + uint d < 2 ^ 64 \<longleftrightarrow> S \<le> 2 ^ 56 - 1"
    proof -
      have "0 \<le> uint n1 mod 256" "uint n1 mod 256 < 256" by simp_all
      then have "256 * S + uint n1 mod 256 < 18446744073709551616 \<longleftrightarrow> S \<le> 72057594037927935"
        by presburger
      then show ?thesis unfolding X by simp
    qed
    have max: "drop_bit 8 ULONG_MAX = (0xffffffffffffff :: 64 word)"
      by (simp add: ULONG_MAX_def mask_eq_exp_minus_1)
    have test: "v + ucast (drop_bit 8 n1) \<le> drop_bit 8 ULONG_MAX \<longleftrightarrow> uint w * base + uint d < 2 ^ 64"
      unfolding lt by (simp add: word_le_def sum max)
    have "256 * uint v + uint n1 = uint w * base + uint d"
      unfolding X S_def by simp
    then have "word_of_int (uint w * base + uint d) = (word_of_int (256 * uint v + uint n1) :: 64 word)"
      by simp
    also have "\<dots> = push_bit 8 v + ucast n1"
      by (simp add: push_bit_eq_mult mult.commute)
    finally show ?thesis
      using False test unfolding strto_ll_digit_def Let_def split n1_def [symmetric] v_def [symmetric] by simp
  qed
qed

section \<open>What the functions compute\<close>

text \<open>
  On the bytes of a string: where the digits start, in which base, and what is left when there are
  none.
\<close>

definition strto_prefix :: "byte list \<Rightarrow> int \<Rightarrow> byte list \<Rightarrow> byte list \<times> byte list \<times> int" where
  "strto_prefix xs base r =
     (if base = 0 \<or> base = 16 then
        (case r of
           [] \<Rightarrow> (xs, r, if base = 16 then 16 else 10)
         | c # r1 \<Rightarrow>
             if c = 48 then
               (if r1 \<noteq> [] \<and> 0x20 OR hd r1 = 120 then (r1, tl r1, 16)
                else (r1, r1, if base = 16 then 16 else 8))
             else (xs, r, if base = 16 then 16 else 10))
      else (xs, r, base))"

definition clamp_long :: "int \<Rightarrow> int" where
  "clamp_long x = max (- (2 ^ 63)) (min (2 ^ 63 - 1) x)"

definition strto_result :: "bool \<Rightarrow> bool \<Rightarrow> int \<Rightarrow> 64 word \<times> bool" where
  "strto_result sflag neg v =
     (let x = (if neg then - v else v) in
      if sflag then (word_of_int (clamp_long x), x \<noteq> clamp_long x)
      else if v < 2 ^ 64 then (word_of_int x, False) else (ULONG_MAX, True))"

text \<open>A step between the code and the specification, with the digits of the code: the value, \<open>ERANGE\<close>, and the rest of the string
  at \<open>*endptr\<close>.\<close>

definition strto_run :: "byte list \<Rightarrow> int \<Rightarrow> bool \<Rightarrow> 64 word \<times> bool \<times> byte list" where
  "strto_run xs base sflag =
     (let r = dropWhile char_space xs;
          neg = (r \<noteq> [] \<and> hd r = 45);
          r = (if r \<noteq> [] \<and> (hd r = 45 \<or> hd r = 43) then tl r else r);
          (fail, r, base) = strto_prefix xs base r;
          ds = (if 2 \<le> base \<and> base \<le> 36 then takeWhile (\<lambda>c. uint (digit_of c) < base) r else []);
          (v, erange) = strto_result sflag neg (digits_value base (map digit_of ds))
      in (v, erange, if ds = [] then fail else drop (length ds) r))"

lemma base_open: "(base :: int) AND NOT 0x10 = 0 \<longleftrightarrow> base = 0 \<or> base = 16"
proof
  have b16: "bit (16 :: int) n \<longleftrightarrow> n = 4" for n
    using bit_exp_iff [of 4 n, where 'a = int] by auto
  assume "base AND NOT 0x10 = 0"
  then have "\<not> bit (base AND NOT 0x10) n" for n by simp
  then have none: "\<not> bit base n" if "n \<noteq> 4" for n
    using that unfolding bit_and_iff bit_not_iff b16 by auto
  have "base = (if bit base 4 then 16 else (0 :: int))"
  proof (rule bit_eqI)
    fix n
    show "bit base n \<longleftrightarrow> bit (if bit base 4 then 16 else (0 :: int)) n"
      using none [of n] by (cases "n = 4") (auto simp: b16)
  qed
  then show "base = 0 \<or> base = 16" by (auto split: if_splits)
qed auto

lemmas base_open_norm = base_open [simplified]

lemma base_legal:
  fixes base :: int
  assumes "- (2 ^ 31) \<le> base" "base < 2 ^ 31"
  shows "(base - 2) mod 2 ^ 32 < 35 \<longleftrightarrow> 2 \<le> base \<and> base \<le> 36"
proof (cases "base < 2")
  case True
  have "(base - 2) mod 2 ^ 32 = (base - 2 + 2 ^ 32) mod 2 ^ 32" by (simp only: mod_add_self2)
  also have "\<dots> = base - 2 + 2 ^ 32" using True assms by (intro mod_pos_pos_trivial) auto
  finally show ?thesis using True assms(1) by simp
next
  case False
  then show ?thesis using assms(2) by (auto simp: mod_pos_pos_trivial)
qed

lemma strto_finish_saturated:
  assumes "0 \<le> v"
  shows "strto_finish sflag (saturated sflag neg v) = strto_result sflag neg v"
proof (cases "v < 2 ^ 64")
  case True
  then have v: "uint (word_of_int v :: 64 word) = v"
    using assms by (simp add: uint_word_of_int_eq take_bit_int_eq_self)
  have "(word_of_int v :: 64 word) > 0x7fffffffffffffff + 1 \<longleftrightarrow> v > 2 ^ 63"
    "(word_of_int v :: 64 word) > 0x7fffffffffffffff \<longleftrightarrow> v > 2 ^ 63 - 1"
    by (simp_all add: word_less_def v)
  with True assms show ?thesis
    by (auto simp: strto_finish_def saturated_def strto_result_def clamp_long_def Let_def min_def max_def)
next
  case False
  have "ULONG_MAX > 0x7fffffffffffffff + 1" "ULONG_MAX > 0x7fffffffffffffff"
    by (simp_all add: word_less_def uint_ULONG_MAX)
  with False show ?thesis
    by (auto simp: strto_finish_def saturated_def strto_result_def clamp_long_def Let_def min_def max_def)
qed

lemma char_space_0 [simp]: "\<not> char_space 0" and digit_of_0 [simp]: "digit_of 0 = 40"
  by (simp_all add: char_space_def isspace_def digit_of_def)

lemma strto_spaces_cstr:
  "cstr m p xs \<Longrightarrow> strto_spaces m p = Some (p + length (takeWhile char_space xs))"
  by (induction xs arbitrary: p) (subst strto_spaces.simps, simp)+

lemma strto_digits_cstr:
  assumes "base \<le> 36"
  shows "cstr m p xs \<Longrightarrow> strto_digits add base m fail p acc =
    (let ds = takeWhile (\<lambda>c. uint (digit_of c) < base) xs in
     Some (if ds = [] then fail else p + length ds, fold add (map digit_of ds) acc))"
proof (induction xs arbitrary: p fail acc)
  case Nil
  then show ?case using assms by (subst strto_digits.simps) simp
next
  case (Cons c xs)
  then show ?case
    by (subst strto_digits.simps) (auto simp: Let_def not_less)
qed

text \<open>The address of the rest \<open>r\<close> of the string \<open>xs\<close> at \<open>p\<close>.\<close>

definition rest_at :: "addr \<Rightarrow> byte list \<Rightarrow> byte list \<Rightarrow> addr" where
  "rest_at p xs r = p + (length xs - length r)"

definition rest_ok :: "mem \<Rightarrow> addr \<Rightarrow> byte list \<Rightarrow> byte list \<Rightarrow> bool" where
  "rest_ok m p xs r \<longleftrightarrow> length r \<le> length xs \<and> cstr m (rest_at p xs r) r"

lemma rest_drop:
  "rest_ok m p xs r \<Longrightarrow> n \<le> length r \<Longrightarrow>
     rest_at p xs (drop n r) = rest_at p xs r + n \<and> rest_ok m p xs (drop n r)"
proof
  assume "rest_ok m p xs r" "n \<le> length r"
  then show at: "rest_at p xs (drop n r) = rest_at p xs r + n"
    by (auto simp: rest_ok_def rest_at_def)
  show "rest_ok m p xs (drop n r)"
    using cstr_drop [of m "rest_at p xs r" r n] \<open>rest_ok m p xs r\<close> \<open>n \<le> length r\<close>
    unfolding rest_ok_def at by auto
qed

lemma rest_at_self [simp]: "rest_at p xs xs = p"
  by (simp add: rest_at_def)

lemma rest_tl:
  "rest_ok m p xs (c # r) \<Longrightarrow> rest_at p xs r = rest_at p xs (c # r) + 1 \<and> rest_ok m p xs r"
  using rest_drop [of m p xs "c # r" 1] by simp

lemma rest_head: "rest_ok m p xs r \<Longrightarrow> m (rest_at p xs r) = Some (case r of [] \<Rightarrow> 0 | c # _ \<Rightarrow> c)"
  by (cases r) (auto simp: rest_ok_def)

lemma strto_sign_rest:
  assumes "rest_ok m p xs r"
  shows "strto_sign m (rest_at p xs r) =
      Some (r \<noteq> [] \<and> hd r = 45, rest_at p xs (if r \<noteq> [] \<and> (hd r = 45 \<or> hd r = 43) then tl r else r))"
    and "rest_ok m p xs (if r \<noteq> [] \<and> (hd r = 45 \<or> hd r = 43) then tl r else r)"
  using rest_head [OF assms] rest_tl [of m p xs "hd r" "tl r"] assms
  by (cases r; auto simp: strto_sign_def)+

lemma strto_base_rest:
  assumes "rest_ok m p xs r" "strto_prefix xs base r = (fail, r', base')"
  shows "strto_base m base p (rest_at p xs r) = Some (rest_at p xs fail, rest_at p xs r', base')"
    and "rest_ok m p xs r'"
proof -
  have x: "0x20 OR (0 :: byte) \<noteq> 120" by simp
  note h = rest_head [OF assms(1)]
  have "strto_base m base p (rest_at p xs r) = Some (rest_at p xs fail, rest_at p xs r', base') \<and> rest_ok m p xs r'"
  proof (cases "base = 0 \<or> base = 16")
    case False
    then show ?thesis
      using assms by (auto simp: strto_base_def strto_prefix_def base_open_norm)
  next
    case True
    then have open_base: "base AND - 17 = 0" unfolding base_open_norm .
    show ?thesis
    proof (cases r)
      case Nil
      then show ?thesis
        using assms True h open_base by (auto simp: strto_base_def strto_prefix_def)
    next
      case (Cons c r1)
      have r1: "rest_at p xs r1 = rest_at p xs r + 1" "rest_ok m p xs r1"
        using rest_tl assms(1) Cons by blast+
      note h1 = rest_head [OF r1(2)]
      show ?thesis
      proof (cases r1)
        case Nil
        then show ?thesis
          using assms True h h1 r1 Cons open_base x
          by (auto simp: strto_base_def strto_prefix_def split: if_splits)
      next
        case (Cons d r2)
        have "rest_at p xs r2 = rest_at p xs r1 + 1" "rest_ok m p xs r2"
          using rest_tl r1(2) Cons by blast+
        then show ?thesis
          using assms True h h1 r1 Cons \<open>r = c # r1\<close> open_base
          by (auto simp: strto_base_def strto_prefix_def split: if_splits)
      qed
    qed
  qed
  then show "strto_base m base p (rest_at p xs r) = Some (rest_at p xs fail, rest_at p xs r', base')"
    and "rest_ok m p xs r'" by blast+
qed

lemma strto_prefix_base:
  "strto_prefix xs base r = (fail, r', base') \<Longrightarrow> - (2 ^ 31) \<le> base \<Longrightarrow> base < 2 ^ 31 \<Longrightarrow>
     - (2 ^ 31) \<le> base' \<and> base' < 2 ^ 31"
  by (auto simp: strto_prefix_def split: if_splits list.splits)

context strto_accumulator
begin

lemma work_cstr:
  assumes s: "cstr m p xs" and base: "- (2 ^ 31) \<le> base" "base < 2 ^ 31"
  shows "strto_work add m p base sflag =
    (let (v, erange, r) = strto_run xs base sflag in Some (v, rest_at p xs r, erange))"
proof -
  define r0 where "r0 = dropWhile char_space xs"
  define neg where "neg \<longleftrightarrow> r0 \<noteq> [] \<and> hd r0 = 45"
  define r1 where "r1 = (if r0 \<noteq> [] \<and> (hd r0 = 45 \<or> hd r0 = 43) then tl r0 else r0)"
  obtain fail r2 b where pre: "strto_prefix xs base r1 = (fail, r2, b)" by (cases "strto_prefix xs base r1") auto
  have "rest_ok m p xs xs" using s by (simp add: rest_ok_def rest_at_def)
  from rest_drop [OF this, of "length (takeWhile char_space xs)"]
  have r0: "p + length (takeWhile char_space xs) = rest_at p xs r0" "rest_ok m p xs r0"
    unfolding r0_def dropWhile_eq_drop by (auto simp: rest_at_def length_takeWhile_le)
  note sign = strto_sign_rest [OF r0(2), folded neg_def r1_def]
  note prefix = strto_base_rest [OF sign(2) pre]
  have b: "- (2 ^ 31) \<le> b" "b < 2 ^ 31" using strto_prefix_base [OF pre base] by simp_all
  define ds where "ds = (if 2 \<le> b \<and> b \<le> 36 then takeWhile (\<lambda>c. uint (digit_of c) < b) r2 else [])"
  define e where "e = (if ds = [] then fail else drop (length ds) r2)"
  have digits: "(if (b - 2) mod 2 ^ 32 < 35
      then strto_digits (add b sflag) b m (rest_at p xs fail) (rest_at p xs r2) (0, neg, False)
      else Some (rest_at p xs fail, (0, neg, False))) =
    Some (rest_at p xs e, saturated sflag neg (digits_value b (map digit_of ds)))"
  proof (cases "2 \<le> b \<and> b \<le> 36")
    case False
    then have "ds = []" unfolding ds_def by (rule if_not_P)
    then have "e = fail" "saturated sflag neg (digits_value b (map digit_of ds)) = (0, neg, False)"
      by (simp_all add: e_def saturated_def digits_value_def)
    moreover have "\<not> (b - 2) mod 2 ^ 32 < 35" using False base_legal [OF b] by blast
    ultimately show ?thesis by (simp only: if_False)
  next
    case True
    have cs: "cstr m (rest_at p xs r2) r2" using prefix(2) by (simp add: rest_ok_def)
    have dt: "ds = takeWhile (\<lambda>c. uint (digit_of c) < b) r2" using True by (simp add: ds_def)
    have "\<forall>d\<in>set (map digit_of ds). uint d < b" unfolding dt by (auto dest: set_takeWhileD)
    from fold_saturated [OF _ _ this, of sflag neg] True
    have acc: "fold (add b sflag) (map digit_of ds) (0, neg, False) = saturated sflag neg (digits_value b (map digit_of ds))"
      by blast
    have "length ds \<le> length r2" by (simp add: dt length_takeWhile_le)
    from rest_drop [OF prefix(2) this]
    have e: "(if ds = [] then rest_at p xs fail else rest_at p xs r2 + length ds) = rest_at p xs e"
      by (simp add: e_def)
    have "strto_digits (add b sflag) b m (rest_at p xs fail) (rest_at p xs r2) (0, neg, False) =
        Some (if ds = [] then rest_at p xs fail else rest_at p xs r2 + length ds,
          fold (add b sflag) (map digit_of ds) (0, neg, False))"
      using strto_digits_cstr [OF _ cs, of b] True unfolding dt [symmetric] Let_def by blast
    then have "strto_digits (add b sflag) b m (rest_at p xs fail) (rest_at p xs r2) (0, neg, False) =
        Some (rest_at p xs e, saturated sflag neg (digits_value b (map digit_of ds)))"
      unfolding e acc .
    with True base_legal [OF b] show ?thesis by (simp only: if_True simp_thms)
  qed
  have nonneg: "0 \<le> digits_value b (map digit_of ds)"
  proof (cases "0 \<le> b")
    case True
    then show ?thesis by (rule digits_value_nonneg)
  next
    case False
    then have "\<not> (2 \<le> b \<and> b \<le> 36)" by simp
    then have "ds = []" unfolding ds_def by (rule if_not_P)
    then show ?thesis by (simp add: digits_value_def)
  qed
  have "strto_work add m p base sflag = (let (v, erange) =
      strto_finish sflag (saturated sflag neg (digits_value b (map digit_of ds))) in Some (v, rest_at p xs e, erange))"
    unfolding strto_work_def Let_def strto_spaces_cstr [OF s] r0(1) bind.bind_lunit sign(1) prod.case prefix(1) digits ..
  also have "\<dots> = (let (v, erange, r) = strto_run xs base sflag in Some (v, rest_at p xs r, erange))"
    unfolding strto_finish_saturated [OF nonneg] strto_run_def Let_def r0_def [symmetric] neg_def [symmetric]
      r1_def [symmetric] pre split ds_def [symmetric] e_def [symmetric]
    by (simp add: split_def)
  finally show ?thesis .
qed

end

section \<open>Quotients and the first bit\<close>

lemma word_of_sint [simp]: "word_of_int (sint (w :: 'a :: len word)) = w"
  using scast_eq [of w] by (metis scast_id scast_eq)

lemma sdiv_bounds:
  fixes n d M :: int
  assumes "- M \<le> n" "n < M" "d \<noteq> 0" "\<not> (n = - M \<and> d = - 1)"
  shows "- M \<le> n sdiv d" "n sdiv d < M"
proof -
  have r: "\<bar>n sdiv d\<bar> \<le> \<bar>n\<bar>" using sdiv_int_range [of n d] assms(3) by (auto simp: abs_le_iff)
  show "- M \<le> n sdiv d" using r assms by linarith
  show "n sdiv d < M"
  proof (rule ccontr)
    assume "\<not> n sdiv d < M"
    then have q: "n sdiv d = M" "n = - M" "0 < M" using r assms by linarith+
    have "n sdiv d = - (M div \<bar>d\<bar>) \<or> n sdiv d = M div \<bar>d\<bar> \<and> d < 0"
      using q by (cases "d < 0") (auto simp: signed_divide_int_def sgn_if split: if_splits)
    with q have dn: "M div \<bar>d\<bar> = M" "d < 0" using pos_imp_zdiv_nonneg_iff [of "\<bar>d\<bar>" M] assms(3) by auto
    have "\<bar>d\<bar> = 1" using dn q int_div_less_self [of M "\<bar>d\<bar>"] by linarith
    with dn assms(4) q show False by simp
  qed
qed

lemma smod_bounds:
  fixes n d M :: int
  assumes "- M \<le> d" "d < M" "d \<noteq> 0"
  shows "- M \<le> n smod d" "n smod d < M"
  using smod_int_range [OF assms(3), of n] assms by auto

lemma div_truncates:
  assumes "denom \<noteq> 0" "\<not> (numer = - (2 ^ 31) \<and> denom = - 1)"
  shows "\<exists>r. div_call numer denom = Some r \<and> sint (quot r) = sint numer sdiv sint denom \<and>
    sint (rem r) = sint numer smod sint denom"
proof -
  have "sint numer = - (2 ^ 31) \<Longrightarrow> numer = word_of_int (- (2 ^ 31))" "sint denom = - 1 \<Longrightarrow> denom = word_of_int (- 1)"
    by (metis word_of_sint)+
  then have no: "\<not> (sint numer = - (2 ^ 31) \<and> sint denom = - 1)" using assms(2) by auto
  have d0: "sint denom \<noteq> 0" using assms(1) by (metis signed_0 signed_word_eqI)
  have range: "- (2 ^ 31) \<le> sint numer" "sint numer < 2 ^ 31" "- (2 ^ 31) \<le> sint denom" "sint denom < 2 ^ 31"
    using sint_range_size [of numer] sint_range_size [of denom] by (simp_all add: word_size)
  note q = sdiv_bounds [OF range(1,2) d0 no] and r = smod_bounds [OF range(3,4) d0, of "sint numer"]
  let ?q = "word_of_int (sint numer sdiv sint denom) :: 32 word"
  have "numer - ?q * denom = word_of_int (sint numer - sint numer sdiv sint denom * sint denom)"
    by (metis wi_hom_mult wi_hom_sub word_of_sint)
  also have "\<dots> = word_of_int (sint numer smod sint denom)" by (simp only: minus_sdiv_mult_eq_smod)
  finally have "numer - ?q * denom = word_of_int (sint numer smod sint denom)" .
  then show ?thesis
    using q r assms by (simp add: div_call_def Let_def sint_sbintrunc' signed_take_bit_int_eq_self)
qed

lemma ldiv_truncates:
  assumes "denom \<noteq> 0" "\<not> (numer = - (2 ^ 63) \<and> denom = - 1)"
  shows "\<exists>r. ldiv_call numer denom = Some r \<and> sint (lquot r) = sint numer sdiv sint denom \<and>
    sint (lrem r) = sint numer smod sint denom"
proof -
  have "sint numer = - (2 ^ 63) \<Longrightarrow> numer = word_of_int (- (2 ^ 63))" "sint denom = - 1 \<Longrightarrow> denom = word_of_int (- 1)"
    by (metis word_of_sint)+
  then have no: "\<not> (sint numer = - (2 ^ 63) \<and> sint denom = - 1)" using assms(2) by auto
  have d0: "sint denom \<noteq> 0" using assms(1) by (metis signed_0 signed_word_eqI)
  have range: "- (2 ^ 63) \<le> sint numer" "sint numer < 2 ^ 63" "- (2 ^ 63) \<le> sint denom" "sint denom < 2 ^ 63"
    using sint_range_size [of numer] sint_range_size [of denom] by (simp_all add: word_size)
  note q = sdiv_bounds [OF range(1,2) d0 no] and r = smod_bounds [OF range(3,4) d0, of "sint numer"]
  have "0 \<le> sint numer \<Longrightarrow> 0 \<le> sint numer smod sint denom"
    using d0 smod_int_compares(2,6) [of "sint numer" "sint denom"] by linarith
  then show ?thesis
    using q r assms by (auto simp: ldiv_call_def Let_def sint_sbintrunc' signed_take_bit_int_eq_self)
qed

text \<open>The state before the remaining halvings: the lowest set bit of \<open>i\<close> is that of \<open>w\<close>, \<open>n - 1\<close> bits lower.\<close>

definition ffs_inv :: "32 word \<Rightarrow> nat \<Rightarrow> byte \<times> 32 word \<Rightarrow> bool" where
  "ffs_inv w k = (\<lambda>(n, i). \<exists>j. n = of_nat (Suc j) \<and> j \<le> 31 \<and> (\<forall>l<j. \<not> bit w l) \<and>
     (\<forall>l. l + j < 32 \<longrightarrow> bit i l = bit w (l + j)) \<and> (\<exists>l<k. l + j < 32 \<and> bit i l))"

lemma ffs_step_inv:
  assumes "ffs_inv w (2 * k) s" "k \<le> 16" "0 < k"
  shows "ffs_inv w k (ffs_step k s)"
proof -
  obtain n i where s: "s = (n, i)" by (cases s)
  then obtain j l where n: "n = of_nat (Suc j)" and j: "j \<le> 31" "\<forall>l<j. \<not> bit w l"
    and i: "\<forall>l. l + j < 32 \<longrightarrow> bit i l = bit w (l + j)" and l: "l < 2 * k" "l + j < 32" "bit i l"
    using assms(1) by (auto simp: ffs_inv_def)
  have low: "i AND mask k = 0 \<longleftrightarrow> (\<forall>l<k. \<not> bit i l)"
    using bit_imp_le_length [of i] by (auto simp: bit_eq_iff bit_and_iff bit_mask_iff)
  show ?thesis
  proof (cases "i AND mask k = 0")
    case False
    then obtain l' where l': "l' < k" "bit i l'" unfolding low by blast
    have "\<exists>l<k. l + j < 32 \<and> bit i l"
    proof (cases "l < k")
      case True
      with l show ?thesis by blast
    next
      case False
      then have "l' + j < 32" using l' l by linarith
      with l' show ?thesis by blast
    qed
    with False n j i show ?thesis by (auto simp: s ffs_inv_def ffs_step_def)
  next
    case True
    then have clear: "\<And>l. l < k \<Longrightarrow> \<not> bit i l" unfolding low by blast
    then have kl: "k \<le> l" using l(3) not_less by blast
    have bits: "bit (signed_drop_bit k i) t = bit i (k + t)" if "t + j + k < 32" for t
    proof -
      have "\<not> 32 - k \<le> t" using that by arith
      then show ?thesis unfolding bit_signed_drop_bit_iff by simp
    qed
    have "n + of_nat k = of_nat (Suc (j + k))" "j + k \<le> 31" using n kl l(2) by simp_all
    moreover have "\<forall>t<j + k. \<not> bit w t"
    proof (intro allI impI)
      fix t assume "t < j + k"
      then show "\<not> bit w t"
        using j(2) clear [of "t - j"] i kl l(2) by (cases "t < j") auto
    qed
    moreover have "\<forall>t. t + (j + k) < 32 \<longrightarrow> bit (signed_drop_bit k i) t = bit w (t + (j + k))"
      using bits i by (simp add: algebra_simps)
    moreover have "\<exists>t<k. t + (j + k) < 32 \<and> bit (signed_drop_bit k i) t"
      using bits [of "l - k"] kl l by (intro exI [of _ "l - k"]) auto
    ultimately have "ffs_inv w k (n + of_nat k, signed_drop_bit k i)"
      unfolding ffs_inv_def split by - (rule exI [of _ "j + k"], intro conjI; assumption)
    then show ?thesis using True by (simp add: s ffs_step_def)
  qed
qed

lemma ffs_least_bit:
  "ffs w = 0 \<and> w = 0 \<or> (\<exists>j<32. ffs w = of_nat (Suc j) \<and> bit w j \<and> (\<forall>l<j. \<not> bit w l))"
proof (cases "w = 0")
  case True
  then show ?thesis by (simp add: ffs_def ffs_step_def)
next
  case False
  then obtain b where b: "bit w b" by (auto simp: bit_eq_iff)
  then have b32: "b < 32" using bit_imp_le_length [of w b] by simp
  have "ffs_inv w 32 (1, w)"
    using b b32 unfolding ffs_inv_def split by (intro exI [of _ "0 :: nat"]) auto
  then have "ffs_inv w (2 * 16) (1, w)" by simp
  from ffs_step_inv [OF this] have "ffs_inv w (2 * 8) (ffs_step 16 (1, w))" by simp
  from ffs_step_inv [OF this] have "ffs_inv w (2 * 4) (ffs_step 8 (ffs_step 16 (1, w)))" by simp
  from ffs_step_inv [OF this] have "ffs_inv w (2 * 2) (ffs_step 4 (ffs_step 8 (ffs_step 16 (1, w))))" by simp
  from ffs_step_inv [OF this] have inv: "ffs_inv w 2 (ffs_step 2 (ffs_step 4 (ffs_step 8 (ffs_step 16 (1, w)))))" by simp
  obtain n i where st: "ffs_step 2 (ffs_step 4 (ffs_step 8 (ffs_step 16 (1, w)))) = (n, i)" by fastforce
  obtain j l where n: "n = of_nat (Suc j)" and j: "j \<le> 31" "\<forall>l<j. \<not> bit w l"
    and i: "\<forall>l. l + j < 32 \<longrightarrow> bit i l = bit w (l + j)" and l: "l < 2" "l + j < 32" "bit i l"
    using inv unfolding st ffs_inv_def by auto
  have "i \<noteq> 0" using l by auto
  have sn: "scast n = (of_nat (Suc j) :: 32 word)"
  proof -
    have "sint n = int (Suc j)"
      using j(1) unfolding n by (simp add: signed_of_nat signed_take_bit_int_eq_self del: of_nat_Suc)
    then show ?thesis unfolding scast_eq by simp
  qed
  have odd: "(i + 1) AND 1 = (if bit i 0 then 0 else 1)"
    by (simp add: and_one_eq bit_0 mod_2_eq_odd)
  show ?thesis
  proof (cases "bit i 0")
    case True
    then have "ffs w = of_nat (Suc j)" "bit w j"
      using \<open>i \<noteq> 0\<close> i j by (simp_all add: ffs_def st sn odd)
    with j show ?thesis by (auto intro!: exI [of _ j])
  next
    case False
    then have "l = 1" using l by (cases l) auto
    then have "ffs w = of_nat (Suc (Suc j))" "bit w (Suc j)" "Suc j < 32"
      using \<open>i \<noteq> 0\<close> i l False by (simp_all add: ffs_def st sn odd)
    moreover have "\<not> bit w j" using False i j by auto
    ultimately show ?thesis using j by (auto intro!: exI [of _ "Suc j"] simp: less_Suc_eq)
  qed
qed

section \<open>Where the parser surprises\<close>

text \<open>The character after \<open>'@'\<close> and before \<open>'a'\<close> counts as the digit 9.\<close>

lemma strtol_backquote:
  assumes "cstr m p [96]"
  shows "strtol m p 10 = Some (9, p + 1, False)"
  using strto_l.work_cstr [OF assms, of 10 True]
  by (simp add: strtol_def stdlib_strto_l_l_def strto_run_def strto_prefix_def Let_def char_space_def
      isspace_def digit_of_def digits_value_def strto_result_def clamp_long_def rest_at_def)

lemma atol_truncates:
  assumes "cstr m p [52, 50, 57, 52, 57, 54, 55, 50, 57, 54]"
  shows "strtol m p 10 = Some (2 ^ 32, p + 10, False) \<and> atol m p = Some 0"
proof -
  have "strtol m p 10 = Some (2 ^ 32, p + 10, False)"
    using strto_l.work_cstr [OF assms, of 10 True]
    by (simp add: strtol_def stdlib_strto_l_l_def strto_run_def strto_prefix_def Let_def char_space_def
        isspace_def digit_of_def digits_value_def strto_result_def clamp_long_def rest_at_def)
  then show ?thesis by (simp add: atol_def)
qed

text \<open>\<open>islower\<close> is an alias of \<open>tolower\<close>: it is true of upper case letters and digits as well.\<close>

lemma islower_always: "islower c = 0 \<longleftrightarrow> c = 0"
proof -
  have "bit (0x20 :: 32 word) 5" by simp
  then have "bit (c OR 0x20) 5" unfolding bit_or_iff by blast
  then have "c OR 0x20 \<noteq> 0" by (metis bit_0_eq bot_apply bot_bool_def)
  then show ?thesis by (auto simp: islower_def tolower_def)
qed

lemma decimal_digit:
  assumes "48 \<le> c" "c \<le> 57"
  shows "\<not> char_space c \<and> c \<noteq> 45 \<and> c \<noteq> 43 \<and> digit_of c = c - 48 \<and> uint (digit_of c) < 10"
proof -
  have "48 \<le> unat c" "unat c \<le> 57" using assms by (simp_all add: word_le_nat_alt)
  then have "unat c = 48 \<or> unat c = 49 \<or> unat c = 50 \<or> unat c = 51 \<or> unat c = 52 \<or>
      unat c = 53 \<or> unat c = 54 \<or> unat c = 55 \<or> unat c = 56 \<or> unat c = 57" by arith
  then have "c \<in> {48, 49, 50, 51, 52, 53, 54, 55, 56, 57}" by (simp add: word_unat_eq_iff)
  then show ?thesis by (auto simp: char_space_def isspace_def digit_of_def)
qed

section \<open>What the C standard asks for\<close>

text \<open>White space and digits by their tables, independent of the arithmetic of the code.\<close>

definition white_space :: "byte \<Rightarrow> bool" where
  "white_space c \<longleftrightarrow> c \<in> {9, 10, 11, 12, 13, 32}"

definition digit_value :: "byte \<Rightarrow> int option" where
  "digit_value c =
     (if 48 \<le> c \<and> c \<le> 57 then Some (uint c - 48)
      else if 65 \<le> c \<and> c \<le> 90 then Some (uint c - 65 + 10)
      else if 97 \<le> c \<and> c \<le> 122 then Some (uint c - 97 + 10)
      else None)"

definition is_digit_in :: "int \<Rightarrow> byte \<Rightarrow> bool" where
  "is_digit_in base c \<longleftrightarrow> (case digit_value c of None \<Rightarrow> False | Some d \<Rightarrow> d < base)"

primrec number_in :: "int \<Rightarrow> byte list \<Rightarrow> int" where
  "number_in base [] = 0"
| "number_in base (c # cs) = the (digit_value c) * base ^ length cs + number_in base cs"

definition starts_0x :: "byte list \<Rightarrow> bool" where
  "starts_0x r \<longleftrightarrow> (case r of c # x # t \<Rightarrow> c = 48 \<and> (x = 120 \<or> x = 88) | _ \<Rightarrow> False)"

text \<open>
  The value, whether it does not fit, and the rest of the string: white space, a sign, a prefix \<open>0x\<close> or \<open>0\<close> where the base
  leaves it open, and the longest run of digits of the base.
\<close>

definition strto_ref :: "byte list \<Rightarrow> int \<Rightarrow> bool \<Rightarrow> 64 word \<times> bool \<times> byte list" where
  "strto_ref xs base sflag =
     (let r = dropWhile white_space xs;
          neg = (r \<noteq> [] \<and> hd r = 45);
          r = (if r \<noteq> [] \<and> (hd r = 45 \<or> hd r = 43) then tl r else r);
          hex = ((base = 0 \<or> base = 16) \<and> starts_0x r);
          zero = ((base = 0 \<or> base = 16) \<and> r \<noteq> [] \<and> hd r = 48);
          fail = (if zero then tl r else xs);
          r = (if hex then tl (tl r) else if zero then tl r else r);
          b = (if base \<noteq> 0 then base else if hex then 16 else if zero then 8 else 10);
          ds = (if 2 \<le> b \<and> b \<le> 36 then takeWhile (is_digit_in b) r else []);
          (v, erange) = strto_result sflag neg (number_in b ds)
      in (v, erange, if ds = [] then fail else drop (length ds) r))"

lemma all_bytes:
  assumes "list_all (\<lambda>n. P (word_of_nat n)) [0..<256]"
  shows "P (c :: byte)"
proof -
  have "\<forall>n\<in>set [0..<256]. P (word_of_nat n)" using assms unfolding list_all_iff .
  moreover have "unat c < 2 ^ LENGTH(8)" by (rule unsigned_less)
  then have "unat c \<in> set [0..<256]" by simp
  ultimately have "P (word_of_nat (unat c))" by (rule bspec)
  then show ?thesis by simp
qed

lemma char_space_white: "char_space = white_space"
proof
  fix c
  have "char_space c \<longleftrightarrow> c \<in> {9, 10, 11, 12, 13, 32}"
    by (rule all_bytes [where P = "\<lambda>c. char_space c \<longleftrightarrow> c \<in> {9, 10, 11, 12, 13, 32}"]) code_simp
  then show "char_space c = white_space c" unfolding white_space_def .
qed

text \<open>The digits of the code are those of the table, but for the backquote.\<close>

lemma digit_table: "c = 96 \<or> (case digit_value c of None \<Rightarrow> 36 \<le> uint (digit_of c) | Some d \<Rightarrow> uint (digit_of c) = d)"
  by (rule all_bytes [where P = "\<lambda>c. c = 96 \<or> (case digit_value c of None \<Rightarrow> 36 \<le> uint (digit_of c) | Some d \<Rightarrow> uint (digit_of c) = d)"])
    code_simp

lemma digit_in_code:
  assumes "c \<noteq> 96" "base \<le> 36"
  shows "uint (digit_of c) < base \<longleftrightarrow> is_digit_in base c"
    and "is_digit_in base c \<Longrightarrow> uint (digit_of c) = the (digit_value c)"
  using digit_table [of c] assms by (auto simp: is_digit_in_def split: option.splits)

lemma digits_value_Cons: "digits_value base (d # ds) = uint d * base ^ length ds + digits_value base ds"
proof (induction ds rule: rev_induct)
  case Nil
  then show ?case by (simp add: digits_value_def)
next
  case (snoc e ds)
  have "digits_value base ((d # ds) @ [e]) = digits_value base (d # ds) * base + uint e" by (rule digits_value_snoc)
  then show ?case by (simp add: snoc digits_value_snoc algebra_simps)
qed

lemma digits_value_number:
  "\<forall>c\<in>set cs. uint (digit_of c) = the (digit_value c) \<Longrightarrow> digits_value base (map digit_of cs) = number_in base cs"
  by (induction cs) (simp_all add: digits_value_Cons, simp add: digits_value_def)

lemma letter_x: "0x20 OR c = 120 \<longleftrightarrow> c = 120 \<or> c = (88 :: byte)"
  by (rule all_bytes [where P = "\<lambda>c. 0x20 OR c = 120 \<longleftrightarrow> c = 120 \<or> c = 88"]) code_simp

lemma strto_prefix_ref:
  fixes xs r :: "byte list" and base :: int
  defines "hex \<equiv> (base = 0 \<or> base = 16) \<and> starts_0x r"
  defines "zero \<equiv> (base = 0 \<or> base = 16) \<and> r \<noteq> [] \<and> hd r = 48"
  shows "strto_prefix xs base r = (if zero then tl r else xs, if hex then tl (tl r) else if zero then tl r else r,
    if base \<noteq> 0 then base else if hex then 16 else if zero then 8 else 10)"
proof (cases r)
  case Nil
  then show ?thesis by (auto simp: strto_prefix_def hex_def zero_def starts_0x_def)
next
  case (Cons c r1)
  then show ?thesis by (cases r1) (auto simp: strto_prefix_def hex_def zero_def letter_x starts_0x_def)
qed

lemma strto_run_ref:
  assumes "96 \<notin> set xs"
  shows "strto_run xs base sflag = strto_ref xs base sflag"
proof -
  define r0 where "r0 = dropWhile white_space xs"
  define r1 where "r1 = (if r0 \<noteq> [] \<and> (hd r0 = 45 \<or> hd r0 = 43) then tl r0 else r0)"
  obtain fail r2 b where pre: "strto_prefix xs base r1 = (fail, r2, b)" by (cases "strto_prefix xs base r1") auto
  have "set r0 \<subseteq> set xs" unfolding r0_def by (auto dest: set_dropWhileD)
  moreover have tl: "set (tl ys) \<subseteq> set ys" for ys :: "byte list" by (cases ys) auto
  moreover have "set r1 \<subseteq> set r0" unfolding r1_def using tl [of r0] by simp
  moreover have "set r2 \<subseteq> set r1"
    using pre tl [of r1] tl [of "tl r1"] unfolding strto_prefix_ref by (simp split: if_splits) blast+
  ultimately have r2: "96 \<notin> set r2" using assms by blast
  have run: "takeWhile (\<lambda>c. uint (digit_of c) < b) r2 = takeWhile (is_digit_in b) r2" if "b \<le> 36"
  proof (intro takeWhile_cong refl)
    fix c
    assume "c \<in> set r2"
    with r2 have "c \<noteq> 96" by blast
    then show "uint (digit_of c) < b \<longleftrightarrow> is_digit_in b c" using \<open>b \<le> 36\<close> by (rule digit_in_code(1))
  qed
  define ds where "ds = (if 2 \<le> b \<and> b \<le> 36 then takeWhile (is_digit_in b) r2 else [])"
  have ds: "(if 2 \<le> b \<and> b \<le> 36 then takeWhile (\<lambda>c. uint (digit_of c) < b) r2 else []) = ds"
    unfolding ds_def using run by simp
  have "uint (digit_of c) = the (digit_value c)" if "c \<in> set ds" for c
  proof (rule digit_in_code(2))
    show "c \<noteq> 96" "b \<le> 36" "is_digit_in b c"
      using that r2 unfolding ds_def by (auto split: if_splits dest: set_takeWhileD)
  qed
  then have val: "digits_value b (map digit_of ds) = number_in b ds" by (intro digits_value_number) blast
  define hex where "hex \<longleftrightarrow> (base = 0 \<or> base = 16) \<and> starts_0x r1"
  define zero where "zero \<longleftrightarrow> (base = 0 \<or> base = 16) \<and> r1 \<noteq> [] \<and> hd r1 = 48"
  have e: "(if zero then tl r1 else xs) = fail" "(if hex then tl (tl r1) else if zero then tl r1 else r1) = r2"
    "(if base \<noteq> 0 then base else if hex then 16 else if zero then 8 else 10) = b"
    using pre unfolding strto_prefix_ref hex_def [symmetric] zero_def [symmetric] by simp_all
  show ?thesis
    unfolding strto_run_def strto_ref_def Let_def char_space_white r0_def [symmetric] r1_def [symmetric]
      hex_def [symmetric] zero_def [symmetric] e pre split ds val ds_def [symmetric] ..
qed

section \<open>Properties\<close>

text \<open>C21. On a C string without a backquote and any \<open>int\<close> base, both work functions, the one of \<open>strtol\<close> and \<open>strtoul\<close>
  and the one that multiplies in two halves, return what the C standard specifies (\<open>strto_ref\<close>, by its own tables of white space
  and digits): they skip the spaces, read the sign and the prefix, take the longest run of digits of the base, saturate when the
  number does not fit, and point behind the last digit, or at the start of the string when there is no number. (The backquote is
  taken for the digit 9: lemma \<open>strtol_backquote\<close>.)\<close>

theorem strto_parses:
  assumes "cstr m p xs" "- (2 ^ 31) \<le> base" "base < 2 ^ 31" "96 \<notin> set xs"
  shows "stdlib_strto_l_l m p base sflag =
      (let (v, erange, r) = strto_ref xs base sflag in Some (v, rest_at p xs r, erange)) \<and>
    stdlib_strto_ll_l m p base sflag = stdlib_strto_l_l m p base sflag"
  unfolding stdlib_strto_l_l_def stdlib_strto_ll_l_def
  using strto_l.work_cstr [OF assms(1-3)] strto_ll.work_cstr [OF assms(1-3)] strto_run_ref [OF assms(4)] by simp

text \<open>The string \<open>" -0x1F"\<close> in base 0.\<close>

theorem strto_parses_witness:
  "stdlib_strto_l_l (mem_of 8 [32, 45, 48, 120, 49, 70, 0]) 8 0 True = Some (- 31, 14, False)"
proof -
  have "cstr (mem_of 8 [32, 45, 48, 120, 49, 70, 0]) 8 [32, 45, 48, 120, 49, 70]"
    by (simp add: mem_of_eval)
  moreover have "strto_ref [32, 45, 48, 120, 49, 70] 0 True = (- 31, False, [])" by code_simp
  ultimately show ?thesis
    using strto_parses [of "mem_of 8 [32, 45, 48, 120, 49, 70, 0]" 8 "[32, 45, 48, 120, 49, 70]" 0 True]
    by (simp add: rest_at_def)
qed

text \<open>A number too large for the type saturates with \<open>ERANGE\<close>, and one that fits is returned as
  it is: on a string that is one run of decimal digits, \<open>strtol\<close> returns the value cut at
  \<open>LONG_MAX\<close>, \<open>strtoul\<close> at \<open>ULONG_MAX\<close>, and each sets \<open>ERANGE\<close> exactly when it cut.\<close>

lemma strto_saturates:
  assumes "cstr m p xs" "xs \<noteq> []" "\<forall>c\<in>set xs. 48 \<le> c \<and> c \<le> 57"
    and "v = digits_value 10 (map (\<lambda>c. c - 48) xs)"
  shows "strtol m p 10 = Some (word_of_int (min v (2 ^ 63 - 1)), p + length xs, v > 2 ^ 63 - 1) \<and>
    strtoul m p 10 = Some (word_of_int (min v (2 ^ 64 - 1)), p + length xs, v > 2 ^ 64 - 1)"
proof -
  have c: "\<not> char_space c" "c \<noteq> 45" "c \<noteq> 43" "digit_of c = c - 48" "uint (digit_of c) < 10" if "c \<in> set xs" for c
    using decimal_digit [of c] assms(3) that by blast+
  have "xs = hd xs # tl xs" "hd xs \<in> set xs" using assms(2) by simp_all
  then have start: "dropWhile char_space xs = xs" "hd xs \<noteq> 45" "hd xs \<noteq> 43"
    using c by (metis dropWhile.simps(2), blast+)
  have run: "takeWhile (\<lambda>c. uint (digit_of c) < 10) xs = xs" using c(5) by (simp add: takeWhile_eq_all_conv)
  have mp: "map digit_of xs = map (\<lambda>c. c - 48) xs" using c(4) by simp
  have ref: "strto_run xs 10 sflag = (let (v, e) = strto_result sflag False v in (v, e, []))" for sflag
    using assms(2) by (simp add: strto_run_def strto_prefix_def Let_def start run assms(4) split_def mp)
  have v: "0 \<le> v" unfolding assms(4) by (simp add: digits_value_nonneg)
  have signed: "strto_result True False v = (word_of_int (min v (2 ^ 63 - 1)), v > 2 ^ 63 - 1)"
    using v by (auto simp: strto_result_def clamp_long_def Let_def min.commute)
  have unsigned: "strto_result False False v = (word_of_int (min v (2 ^ 64 - 1)), v > 2 ^ 64 - 1)"
    using v by (auto simp: strto_result_def Let_def ULONG_MAX_def min_def)
  show ?thesis
    using strto_l.work_cstr [OF assms(1), of 10 True] strto_l.work_cstr [OF assms(1), of 10 False]
    unfolding strtol_def strtoul_def stdlib_strto_l_l_def ref signed unsigned by (simp add: rest_at_def)
qed

text \<open>Both saturate on twenty-one nines.\<close>

theorem strto_saturates_witness:
  "strtol (mem_of 8 [57, 57, 57, 57, 57, 57, 57, 57, 57, 57, 57, 57, 57, 57, 57, 57, 57, 57, 57, 57, 57, 0]) 8 10 =
     Some (2 ^ 63 - 1, 29, True) \<and>
   strtoul (mem_of 8 [57, 57, 57, 57, 57, 57, 57, 57, 57, 57, 57, 57, 57, 57, 57, 57, 57, 57, 57, 57, 57, 0]) 8 10 =
     Some (- 1, 29, True)"
proof -
  have s: "cstr (mem_of 8 [57, 57, 57, 57, 57, 57, 57, 57, 57, 57, 57, 57, 57, 57, 57, 57, 57, 57, 57, 57, 57, 0]) 8
    [57, 57, 57, 57, 57, 57, 57, 57, 57, 57, 57, 57, 57, 57, 57, 57, 57, 57, 57, 57, 57]"
    by (simp add: mem_of_eval)
  show ?thesis using strto_saturates [OF s _ _ refl] by (simp add: digits_value_def)
qed

text \<open>\<open>ffs\<close> returns the position of the lowest set bit, counted from 1, and 0 for 0.\<close>

lemma ffs_lowest_bit:
  "ffs w = 0 \<and> w = 0 \<or> (\<exists>j<32. ffs w = of_nat (Suc j) \<and> bit w j \<and> (\<forall>l<j. \<not> bit w l))"
  by (rule ffs_least_bit)

theorem ffs_lowest_bit_witness:
  "ffs 40 = 4"
proof -
  have bits: "\<not> bit (40 :: 32 word) 0" "\<not> bit (40 :: 32 word) 1" "\<not> bit (40 :: 32 word) 2" "bit (40 :: 32 word) 3"
    by simp_all
  from ffs_lowest_bit [of 40] obtain j
    where j: "ffs 40 = of_nat (Suc j)" "bit (40 :: 32 word) j" "\<forall>l<j. \<not> bit (40 :: 32 word) l" by auto
  have "j \<noteq> 0" "j \<noteq> 1" "j \<noteq> 2" using j(2) bits(1-3) by metis+
  moreover have "\<not> 3 < j" using j(3) bits(4) by blast
  ultimately have "j = 3" by simp
  then show ?thesis using j(1) by simp
qed

end
