(* ===== verification/Signal.thy ===== *)
theory Signal
  imports Prelude
begin

text \<open>
  \<open>libc/stdlib/signal.c\<close>: signal sets, four 64-bit words with one bit per signal number, and
  the functions that pass a handler to the kernel. The kernel's
  \<open>SysProcess_SetSignalAction\<close> is a parameter of \<open>signal\<close> and \<open>sigaction\<close>. A null
  pointer is \<open>None\<close>. The set operations are specified by the set of signal numbers that a
  \<open>sigset_t\<close> stands for (\<open>members\<close>).
\<close>

section \<open>Signal sets\<close>

type_synonym sigset_t = "64 word list"

definition NSIG :: int where "NSIG = 256"
definition NSIG_WORDS :: nat where "NSIG_WORDS = 4"

definition sigemptyset :: "sigset_t option \<Rightarrow> int \<times> sigset_t option" where
  "sigemptyset st = (case st of None \<Rightarrow> (-1, None) | Some _ \<Rightarrow> (0, Some (replicate NSIG_WORDS 0)))"

definition sigfillset :: "sigset_t option \<Rightarrow> int \<times> sigset_t option" where
  "sigfillset st = (case st of None \<Rightarrow> (-1, None) | Some _ \<Rightarrow> (0, Some (replicate NSIG_WORDS (- 1))))"

text \<open>The word and the bit of a signal number.\<close>

definition sig_word :: "int \<Rightarrow> nat" where "sig_word signo = nat (signo - 1) div 64"
definition sig_bit :: "int \<Rightarrow> nat" where "sig_bit signo = nat (signo - 1) mod 64"

definition sigaddset :: "sigset_t option \<Rightarrow> int \<Rightarrow> int \<times> sigset_t option" where
  "sigaddset st signo = (case st of
      None \<Rightarrow> (-1, None)
    | Some v \<Rightarrow>
        if signo \<le> 0 \<or> signo \<ge> NSIG then (-1, Some v)
        else (0, Some (v[sig_word signo := v ! sig_word signo OR push_bit (sig_bit signo) 1])))"

definition sigdelset :: "sigset_t option \<Rightarrow> int \<Rightarrow> int \<times> sigset_t option" where
  "sigdelset st signo = (case st of
      None \<Rightarrow> (-1, None)
    | Some v \<Rightarrow>
        if signo \<le> 0 \<or> signo \<ge> NSIG then (-1, Some v)
        else (0, Some (v[sig_word signo := v ! sig_word signo AND NOT (push_bit (sig_bit signo) 1)])))"

definition sigismember :: "sigset_t option \<Rightarrow> int \<Rightarrow> int" where
  "sigismember st signo = (case st of
      None \<Rightarrow> -1
    | Some v \<Rightarrow>
        if signo \<le> 0 \<or> signo \<ge> NSIG then -1
        else if v ! sig_word signo AND push_bit (sig_bit signo) 1 \<noteq> 0 then 1 else 0)"

definition sigset_ok :: "sigset_t \<Rightarrow> bool" where
  "sigset_ok v \<longleftrightarrow> length v = NSIG_WORDS"

definition members :: "sigset_t \<Rightarrow> int set" where
  "members v = {s. 0 < s \<and> s < NSIG \<and> bit (v ! sig_word s) (sig_bit s)}"

lemma sig_index:
  assumes "0 < s" "s < NSIG" "0 < t" "t < NSIG"
  shows "sig_word s < NSIG_WORDS" "sig_bit s < 64"
    and "sig_word s = sig_word t \<and> sig_bit s = sig_bit t \<longleftrightarrow> s = t"
proof -
  show "sig_word s < NSIG_WORDS" "sig_bit s < 64"
    using assms by (simp_all add: sig_word_def sig_bit_def NSIG_def NSIG_WORDS_def)
  have "nat (s - 1) = nat (t - 1)" if "sig_word s = sig_word t" "sig_bit s = sig_bit t"
    using that unfolding sig_word_def sig_bit_def by (metis div_mult_mod_eq)
  then show "sig_word s = sig_word t \<and> sig_bit s = sig_bit t \<longleftrightarrow> s = t"
    using assms by auto
qed

lemma and_push_bit_1: "(w :: 64 word) AND push_bit k 1 \<noteq> 0 \<longleftrightarrow> bit w k" if "k < 64"
  using that by (simp add: and_exp_eq_0_iff_not_bit push_bit_of_1)

lemma sigismember_members:
  "0 < s \<Longrightarrow> s < NSIG \<Longrightarrow> sigismember (Some v) s = (if s \<in> members v then 1 else 0)"
  using and_push_bit_1 [OF sig_index(2), of s s "v ! sig_word s"] by (simp add: sigismember_def members_def)

lemma members_update:
  assumes v: "sigset_ok v" and s: "0 < s" "s < NSIG"
  shows "members (v[sig_word s := v ! sig_word s OR push_bit (sig_bit s) 1]) = insert s (members v)"
    and "members (v[sig_word s := v ! sig_word s AND NOT (push_bit (sig_bit s) 1)]) = members v - {s}"
proof -
  have upd: "(t \<in> members (v[sig_word s := v ! sig_word s OR push_bit (sig_bit s) 1]) \<longleftrightarrow> t = s \<or> t \<in> members v) \<and>
      (t \<in> members (v[sig_word s := v ! sig_word s AND NOT (push_bit (sig_bit s) 1)]) \<longleftrightarrow> t \<noteq> s \<and> t \<in> members v)"
    for t
  proof (cases "0 < t \<and> t < NSIG")
    case True
    then have i: "sig_word s < length v" "sig_bit t < 64" "sig_bit s < 64"
      "sig_word t = sig_word s \<and> sig_bit t = sig_bit s \<longleftrightarrow> t = s"
      using v s sig_index [of s t] sig_index [of t s] by (auto simp: sigset_ok_def)
    then show ?thesis
      using True by (auto simp: members_def nth_list_update bit_simps)
  qed (use s in \<open>auto simp: members_def\<close>)
  show "members (v[sig_word s := v ! sig_word s OR push_bit (sig_bit s) 1]) = insert s (members v)"
    using upd by blast
  show "members (v[sig_word s := v ! sig_word s AND NOT (push_bit (sig_bit s) 1)]) = members v - {s}"
    using upd by blast
qed

lemma members_const:
  "members (replicate NSIG_WORDS 0) = {}" "members (replicate NSIG_WORDS (- 1)) = {s. 0 < s \<and> s < NSIG}"
  using sig_index by (auto simp: members_def bit_simps)

section \<open>Handlers\<close>

record sigaction =
  sa_handler :: addr
  sa_sigaction :: addr
  sa_mask :: sigset_t
  sa_flags :: "32 word"
  sa_restorer :: addr

definition zero_action :: sigaction where
  "zero_action = \<lparr>sa_handler = NULL, sa_sigaction = NULL, sa_mask = replicate NSIG_WORDS 0, sa_flags = 0,
    sa_restorer = NULL\<rparr>"

text \<open>
  \<open>set_action signo act old\<close> is the system call: the code, and what it leaves in \<open>old\<close>. The content of
  \<open>old_sa\<close> before the call is the parameter \<open>garbage\<close>: it is a local that is never
  initialised.
\<close>

definition signal ::
    "(int \<Rightarrow> sigaction \<Rightarrow> sigaction \<Rightarrow> int \<times> sigaction) \<Rightarrow> sigaction \<Rightarrow> int \<Rightarrow> addr \<Rightarrow> addr" where
  "signal set_action garbage signo handler =
     (let sa = zero_action;
          sa = sa\<lparr>sa_handler := handler\<rparr>;
          old_sa = garbage;
          sa = zero_action;
          (r, old_sa) = set_action signo sa old_sa
      in if r = 0 then sa_handler old_sa else NULL)"

definition sigaction_call ::
    "(int \<Rightarrow> sigaction option \<Rightarrow> sigaction option \<Rightarrow> int \<times> sigaction option) \<Rightarrow> addr \<Rightarrow>
     int \<Rightarrow> sigaction option \<Rightarrow> sigaction option \<Rightarrow> int \<times> sigaction option \<times> sigaction option" where
  "sigaction_call set_action signal_restorer signo act oldact =
     (let act = map_option (\<lambda>a. a\<lparr>sa_restorer := signal_restorer\<rparr>) act;
          (r, oldact) = set_action signo act oldact
      in (r, act, oldact))"

definition SA_SIGINFO :: "32 word" where "SA_SIGINFO = 4"
definition SIG_DFL :: addr where "SIG_DFL = 0"
definition SIG_IGN :: addr where "SIG_IGN = 1"

definition isignoreaction :: "sigaction option \<Rightarrow> bool" where
  "isignoreaction act = (case act of
      None \<Rightarrow> True
    | Some a \<Rightarrow>
        if sa_flags a AND SA_SIGINFO \<noteq> 0 \<and> sa_sigaction a = SIG_IGN then True
        else if \<not> (sa_flags a AND SA_SIGINFO \<noteq> 0) \<and> sa_handler a = SIG_IGN then True
        else False)"

definition isdefaultaction :: "sigaction option \<Rightarrow> bool" where
  "isdefaultaction act = (case act of
      None \<Rightarrow> True
    | Some a \<Rightarrow>
        if sa_flags a AND SA_SIGINFO \<noteq> 0 \<and> sa_sigaction a = SIG_DFL then True
        else if \<not> (sa_flags a AND SA_SIGINFO \<noteq> 0) \<and> sa_handler a = SIG_DFL then True
        else False)"

lemma action_kinds_disjoint: "\<not> (isignoreaction (Some a) \<and> isdefaultaction (Some a))"
  by (auto simp: isignoreaction_def isdefaultaction_def SIG_DFL_def SIG_IGN_def)

section \<open>Properties\<close>

text \<open>On a \<open>sigset_t\<close> of four words, \<open>sigaddset\<close>, \<open>sigdelset\<close> and \<open>sigismember\<close> are insertion, removal
  and membership on the set of signal numbers from 1 to 255 it stands for, and keep its size; any other number is refused with
  -1 and changes nothing; \<open>sigemptyset\<close> and \<open>sigfillset\<close> give the empty and the full set.\<close>

lemma sigset_operations:
  assumes "sigset_ok v"
  shows "(if 0 < s \<and> s < NSIG
      then (\<exists>w. sigaddset (Some v) s = (0, Some w) \<and> sigset_ok w \<and> members w = insert s (members v)) \<and>
        (\<exists>w. sigdelset (Some v) s = (0, Some w) \<and> sigset_ok w \<and> members w = members v - {s}) \<and>
        sigismember (Some v) s = (if s \<in> members v then 1 else 0)
      else sigaddset (Some v) s = (-1, Some v) \<and> sigdelset (Some v) s = (-1, Some v) \<and>
        sigismember (Some v) s = -1) \<and>
    (\<exists>w. sigemptyset (Some v) = (0, Some w) \<and> sigset_ok w \<and> members w = {}) \<and>
    (\<exists>w. sigfillset (Some v) = (0, Some w) \<and> sigset_ok w \<and> members w = {s. 0 < s \<and> s < NSIG})"
proof -
  have "sigset_ok (v[i := x])" for i x using assms by (simp add: sigset_ok_def)
  moreover have "sigset_ok (replicate NSIG_WORDS x)" for x by (simp add: sigset_ok_def)
  ultimately show ?thesis
    using members_update [OF assms] sigismember_members members_const
    by (auto simp: sigaddset_def sigdelset_def sigemptyset_def sigfillset_def)
      (auto simp: sigismember_def)
qed

theorem sigset_operations_witness:
  "(if 0 < (9 :: int) \<and> 9 < NSIG
      then (\<exists>w. sigaddset (Some [1, 0, 0, 0]) 9 = (0, Some w) \<and> sigset_ok w \<and>
          members w = insert 9 (members [1, 0, 0, 0])) \<and>
        (\<exists>w. sigdelset (Some [1, 0, 0, 0]) 9 = (0, Some w) \<and> sigset_ok w \<and> members w = members [1, 0, 0, 0] - {9}) \<and>
        sigismember (Some [1, 0, 0, 0]) 9 = (if 9 \<in> members [1, 0, 0, 0] then 1 else 0)
      else sigaddset (Some [1, 0, 0, 0]) 9 = (-1, Some [1, 0, 0, 0]) \<and>
        sigdelset (Some [1, 0, 0, 0]) 9 = (-1, Some [1, 0, 0, 0]) \<and> sigismember (Some [1, 0, 0, 0]) 9 = -1) \<and>
    (\<exists>w. sigemptyset (Some [1, 0, 0, 0]) = (0, Some w) \<and> sigset_ok w \<and> members w = {}) \<and>
    (\<exists>w. sigfillset (Some [1, 0, 0, 0]) = (0, Some w) \<and> sigset_ok w \<and> members w = {s. 0 < s \<and> s < NSIG})"
  by (rule sigset_operations) (simp add: sigset_ok_def NSIG_WORDS_def)

text \<open>\<open>signal\<close> never passes on the handler it was given: for any two handlers it makes the same
  system call, with an all-zero action (the default disposition), and returns the same.\<close>

lemma signal_ignores_handler:
  "signal set_action garbage signo h = signal set_action garbage signo h' \<and>
   signal set_action garbage signo h =
     (if fst (set_action signo zero_action garbage) = 0
      then sa_handler (snd (set_action signo zero_action garbage)) else NULL) \<and>
   isdefaultaction (Some zero_action)"
  by (simp add: signal_def Let_def split_def isdefaultaction_def zero_action_def SIG_DFL_def)

end
