(* ===== verification/Process_Exit.thy ===== *)
theory Process_Exit
  imports Prelude
begin

text \<open>
  Handlers that run when a process ends: \<open>atexit\<close> and \<open>exit\<close> of
  \<open>libc/stdlib/mosstd.c\<close>, \<open>__cxa_atexit\<close> and \<open>__cxa_finalize\<close> of
  \<open>libcxxrt/cxa_atexit.c\<close>. Both keep a linked list of nodes from \<open>malloc\<close>. The nodes are
  a heap of their own, a map from addresses; \<open>malloc\<close> and \<open>free\<close>, whose work the kernel does, are
  parameters. A load from an address without a node yields \<open>None\<close>. A handler is the event
  that it is called, it does not itself register handlers.

  The locale \<open>handler_list\<close> is the contract of the two registries: the last handler registered runs first.
\<close>

section \<open>The lists\<close>

record 'n handlers =
  hs_head :: addr
  hs_heap :: "addr \<Rightarrow> 'n option"

text \<open>What the code relies on: a block \<open>malloc\<close> returns is not in use, \<open>free\<close> leaves other blocks alone.\<close>

definition malloc_fresh :: "((addr \<Rightarrow> 'n option) \<Rightarrow> addr) \<Rightarrow> bool" where
  "malloc_fresh malloc \<longleftrightarrow> (\<forall>H. malloc H \<noteq> NULL \<longrightarrow> H (malloc H) = None)"

definition free_local :: "(addr \<Rightarrow> (addr \<Rightarrow> 'n option) \<Rightarrow> addr \<Rightarrow> 'n option) \<Rightarrow> bool" where
  "free_local free \<longleftrightarrow> (\<forall>a H b. b \<noteq> a \<longrightarrow> free a H b = H b)"

text \<open>The nodes of a list, from its head on.\<close>

fun chain :: "('n \<Rightarrow> addr) \<Rightarrow> (addr \<Rightarrow> 'n option) \<Rightarrow> addr \<Rightarrow> (addr \<times> 'n) list \<Rightarrow> bool" where
  "chain nx H p [] = (p = NULL)"
| "chain nx H p ((a, n) # ns) =
     (p = a \<and> a \<noteq> NULL \<and> H a = Some n \<and> a \<notin> fst ` set ns \<and> chain nx H (nx n) ns)"

lemma chain_upd: "a \<notin> fst ` set ns \<Longrightarrow> chain nx (H(a := v)) p ns = chain nx H p ns"
  by (induction nx H p ns rule: chain.induct) auto

lemma chain_cong: "(\<And>a. a \<in> fst ` set ns \<Longrightarrow> H' a = H a) \<Longrightarrow> chain nx H' p ns = chain nx H p ns"
  by (induction nx H p ns rule: chain.induct) auto

lemma chain_dom: "chain nx H p ns \<Longrightarrow> a \<in> fst ` set ns \<Longrightarrow> H a \<noteq> None"
  by (induction nx H p ns rule: chain.induct) auto

section \<open>The contract\<close>

locale handler_list =
  fixes items :: "'s \<Rightarrow> 'h list \<Rightarrow> bool"
    and valid :: "'r \<Rightarrow> bool"
    and shown :: "'r \<Rightarrow> 'h"
    and register :: "'r \<Rightarrow> 's \<Rightarrow> int \<times> 's"
    and run :: "'s \<Rightarrow> 'h list option"
  assumes register_items: "items s hs \<Longrightarrow> valid r \<Longrightarrow> register r s = (0, s') \<Longrightarrow> items s' (shown r # hs)"
    and run_items: "items s hs \<Longrightarrow> run s = Some hs"
begin

text \<open>Registrations in the order of the list, until one fails.\<close>

fun register_all :: "'r list \<Rightarrow> 's \<Rightarrow> 's option" where
  "register_all [] s = Some s"
| "register_all (r # rs) s = (let (c, s') = register r s in if c = 0 then register_all rs s' else None)"

lemma register_all_items:
  "items s gs \<Longrightarrow> \<forall>r\<in>set rs. valid r \<Longrightarrow> register_all rs s = Some s' \<Longrightarrow> items s' (map shown (rev rs) @ gs)"
proof (induction rs arbitrary: s gs)
  case (Cons r rs)
  then obtain s1 where "register r s = (0, s1)" "register_all rs s1 = Some s'"
    by (auto split: prod.splits if_splits)
  with Cons.IH [of s1 "shown r # gs"] register_items [OF Cons.prems(1), of r s1] Cons.prems(2)
  show ?case by simp
qed simp

lemma last_in_first_out:
  "items s [] \<Longrightarrow> \<forall>r\<in>set rs. valid r \<Longrightarrow> register_all rs s = Some s' \<Longrightarrow> run s' = Some (map shown (rev rs))"
  using register_all_items [of s "[]" rs s'] run_items by simp

end

section \<open>atexit and exit\<close>

record atexit_handler =
  ae_handler :: addr
  ae_next :: addr

definition atexit ::
    "((addr \<Rightarrow> atexit_handler option) \<Rightarrow> addr) \<Rightarrow> addr \<Rightarrow> atexit_handler handlers \<Rightarrow>
     int \<times> atexit_handler handlers" where
  "atexit malloc handler st =
     (let h = malloc (hs_heap st) in
      if h = NULL then (1, st)
      else (0, st\<lparr>hs_heap := (hs_heap st)(h \<mapsto> \<lparr>ae_handler = handler, ae_next = hs_head st\<rparr>),
                  hs_head := h\<rparr>))"

partial_function (option) exit_handlers ::
    "(addr \<Rightarrow> (addr \<Rightarrow> atexit_handler option) \<Rightarrow> addr \<Rightarrow> atexit_handler option) \<Rightarrow> addr \<Rightarrow>
     (addr \<Rightarrow> atexit_handler option) \<Rightarrow> addr list \<Rightarrow> addr list option" where
  "exit_handlers free h heap calls =
     (if h = NULL then Some calls
      else do {
        n \<leftarrow> heap h;
        let next = ae_next n;
        exit_handlers free next (free h heap) (calls @ [ae_handler n]) })"

datatype exit_event = HandlerCall addr | UserProcessExit | SysExit int

definition exit ::
    "(addr \<Rightarrow> (addr \<Rightarrow> atexit_handler option) \<Rightarrow> addr \<Rightarrow> atexit_handler option) \<Rightarrow> bool \<Rightarrow> int \<Rightarrow>
     atexit_handler handlers \<Rightarrow> exit_event list option" where
  "exit free isthread rv st =
     (if \<not> isthread then do {
        calls \<leftarrow> exit_handlers free (hs_head st) (hs_heap st) [];
        Some (map HandlerCall calls @ [UserProcessExit, SysExit rv]) }
      else Some [SysExit rv])"

definition atexit_items ::
    "((addr \<Rightarrow> atexit_handler option) \<Rightarrow> addr) \<Rightarrow>
     (addr \<Rightarrow> (addr \<Rightarrow> atexit_handler option) \<Rightarrow> addr \<Rightarrow> atexit_handler option) \<Rightarrow>
     atexit_handler handlers \<Rightarrow> addr list \<Rightarrow> bool" where
  "atexit_items malloc free st hs \<longleftrightarrow> malloc_fresh malloc \<and> free_local free \<and>
     (\<exists>ns. chain ae_next (hs_heap st) (hs_head st) ns \<and> hs = map (ae_handler \<circ> snd) ns)"

lemma exit_handlers_chain:
  assumes "free_local free"
  shows "chain ae_next heap h ns \<Longrightarrow>
    exit_handlers free h heap calls = Some (calls @ map (ae_handler \<circ> snd) ns)"
proof (induction ns arbitrary: h heap calls)
  case Nil
  then show ?case by (subst exit_handlers.simps) simp
next
  case (Cons x ns)
  obtain a n where x: "x = (a, n)" by (cases x)
  have "chain ae_next (free a heap) (ae_next n) ns"
    using Cons.prems x assms
    by (subst chain_cong [of ns "free a heap" heap]) (auto simp: free_local_def image_iff)
  then show ?case
    using Cons x by (subst exit_handlers.simps) simp
qed

lemma atexit_chain:
  assumes "malloc_fresh malloc" "chain ae_next (hs_heap st) (hs_head st) ns" "atexit malloc g st = (0, st')"
  shows "\<exists>a. chain ae_next (hs_heap st') (hs_head st') ((a, \<lparr>ae_handler = g, ae_next = hs_head st\<rparr>) # ns)"
proof -
  let ?h = "malloc (hs_heap st)"
  have h: "?h \<noteq> NULL" using assms(3) by (auto simp: atexit_def Let_def split: if_splits)
  then have "hs_heap st ?h = None" using assms(1) by (auto simp: malloc_fresh_def)
  with chain_dom [OF assms(2)] have "?h \<notin> fst ` set ns" by blast
  moreover have "st' = st\<lparr>hs_heap := (hs_heap st)(?h \<mapsto> \<lparr>ae_handler = g, ae_next = hs_head st\<rparr>), hs_head := ?h\<rparr>"
    using assms(3) h by (simp add: atexit_def Let_def)
  ultimately show ?thesis
    using assms(2) h by (intro exI [of _ ?h]) (simp add: chain_upd)
qed

interpretation atexit: handler_list "atexit_items malloc free" "\<lambda>_. True" "\<lambda>h. h" "atexit malloc"
  "\<lambda>st. exit_handlers free (hs_head st) (hs_heap st) []" for malloc free
proof unfold_locales
  fix st hs g st'
  assume "atexit_items malloc free st hs" "atexit malloc g st = (0, st')"
  then obtain ns where ns: "malloc_fresh malloc" "free_local free" "chain ae_next (hs_heap st) (hs_head st) ns"
    "hs = map (ae_handler \<circ> snd) ns" "atexit malloc g st = (0, st')"
    by (auto simp: atexit_items_def)
  obtain a where "chain ae_next (hs_heap st') (hs_head st') ((a, \<lparr>ae_handler = g, ae_next = hs_head st\<rparr>) # ns)"
    using atexit_chain [OF ns(1,3,5)] by blast
  then show "atexit_items malloc free st' (g # hs)"
    unfolding atexit_items_def using ns
    by (intro conjI exI [of _ "(a, \<lparr>ae_handler = g, ae_next = hs_head st\<rparr>) # ns"]) simp_all
next
  fix st hs
  assume "atexit_items malloc free st hs"
  then show "exit_handlers free (hs_head st) (hs_heap st) [] = Some hs"
    by (auto simp: atexit_items_def exit_handlers_chain)
qed

section \<open>__cxa_atexit and __cxa_finalize\<close>

record cxa_handler =
  cx_destructor :: addr
  cx_arg :: addr
  cx_dso :: addr
  cx_next :: addr

text \<open>Nothing is registered in the kernel or in a thread; the code returns 0 all the same.\<close>

definition cxa_atexit ::
    "((addr \<Rightarrow> cxa_handler option) \<Rightarrow> addr) \<Rightarrow> bool \<Rightarrow> addr \<times> addr \<times> addr \<Rightarrow>
     cxa_handler handlers \<Rightarrow> int \<times> cxa_handler handlers" where
  "cxa_atexit malloc kernel_or_thread = (\<lambda>(destructor, arg, dso) st.
     (if kernel_or_thread then (0, st)
      else
        let h = malloc (hs_heap st) in
        if h = NULL then (1, st)
        else (0, st\<lparr>hs_heap := (hs_heap st)(h \<mapsto>
                       \<lparr>cx_destructor = destructor, cx_arg = arg, cx_dso = dso, cx_next = hs_head st\<rparr>),
                    hs_head := h\<rparr>)))"

text \<open>\<open>h->destructor && (h->dso == dso || dso == NULL)\<close>\<close>

definition cxa_matches :: "addr \<Rightarrow> cxa_handler \<Rightarrow> bool" where
  "cxa_matches dso n \<longleftrightarrow> cx_destructor n \<noteq> NULL \<and> (cx_dso n = dso \<or> dso = NULL)"

text \<open>
  The loop keeps \<open>last = &head\<close> throughout: both branches store the next pointer in
  \<open>head\<close>. After the body it loads \<open>h->next\<close>, also from a node just freed.
\<close>

partial_function (option) cxa_finalize_loop ::
    "(addr \<Rightarrow> (addr \<Rightarrow> cxa_handler option) \<Rightarrow> addr \<Rightarrow> cxa_handler option) \<Rightarrow> addr \<Rightarrow> addr \<Rightarrow>
     cxa_handler handlers \<Rightarrow> (addr \<times> addr) list \<Rightarrow> (cxa_handler handlers \<times> (addr \<times> addr) list) option" where
  "cxa_finalize_loop free dso h st calls =
     (if h = NULL then Some (st, calls)
      else do {
        n \<leftarrow> hs_heap st h;
        let (st, calls) =
          (if cxa_matches dso n
           then (st\<lparr>hs_head := cx_next n, hs_heap := free h (hs_heap st)\<rparr>,
                 calls @ [(cx_destructor n, cx_arg n)])
           else (st\<lparr>hs_head := cx_next n\<rparr>, calls));
        n \<leftarrow> hs_heap st h;
        cxa_finalize_loop free dso (cx_next n) st calls })"

definition cxa_finalize ::
    "(addr \<Rightarrow> (addr \<Rightarrow> cxa_handler option) \<Rightarrow> addr \<Rightarrow> cxa_handler option) \<Rightarrow> bool \<Rightarrow> addr \<Rightarrow>
     cxa_handler handlers \<Rightarrow> (cxa_handler handlers \<times> (addr \<times> addr) list) option" where
  "cxa_finalize free kernel_or_thread dso st =
     (if kernel_or_thread then Some (st, []) else cxa_finalize_loop free dso (hs_head st) st [])"

definition cxa_calls :: "addr \<Rightarrow> (addr \<times> cxa_handler) list \<Rightarrow> (addr \<times> addr) list" where
  "cxa_calls dso ns = [(cx_destructor n, cx_arg n). (a, n) \<leftarrow> ns, cxa_matches dso n]"

text \<open>An allocator that leaves a freed block as it was, and one that takes it away.\<close>

definition free_keeps :: "addr \<Rightarrow> (addr \<Rightarrow> 'n option) \<Rightarrow> addr \<Rightarrow> 'n option" where
  "free_keeps a H = H"

definition free_unmaps :: "addr \<Rightarrow> (addr \<Rightarrow> 'n option) \<Rightarrow> addr \<Rightarrow> 'n option" where
  "free_unmaps a H = H(a := None)"

lemma free_local_models: "free_local free_keeps" "free_local free_unmaps"
  by (simp_all add: free_local_def free_keeps_def free_unmaps_def)

lemma cxa_calls_simps [simp]:
  "cxa_calls dso [] = []"
  "cxa_calls dso ((a, n) # ns) =
     (if cxa_matches dso n then (cx_destructor n, cx_arg n) # cxa_calls dso ns else cxa_calls dso ns)"
  by (simp_all add: cxa_calls_def)

lemma cxa_finalize_loop_chain:
  "chain cx_next (hs_heap st) h ns \<Longrightarrow> ns = [] \<longrightarrow> hs_head st = NULL \<Longrightarrow>
     cxa_finalize_loop free_keeps dso h st calls =
       Some (st\<lparr>hs_head := NULL\<rparr>, calls @ cxa_calls dso ns)"
proof (induction ns arbitrary: h st calls)
  case Nil
  then show ?case by (subst cxa_finalize_loop.simps) (simp add: cxa_calls_def)
next
  case (Cons x ns)
  obtain a n where x: "x = (a, n)" by (cases x)
  let ?st = "st\<lparr>hs_head := cx_next n\<rparr>"
  have "ns = [] \<longrightarrow> hs_head ?st = NULL" "chain cx_next (hs_heap ?st) (cx_next n) ns"
    using Cons.prems x by auto
  then have "cxa_finalize_loop free_keeps dso (cx_next n) ?st cs =
      Some (?st\<lparr>hs_head := NULL\<rparr>, cs @ cxa_calls dso ns)" for cs
    by (intro Cons.IH)
  moreover have "hs_heap st a = Some n" "a \<noteq> NULL" "h = a" using Cons.prems(1) x by simp_all
  ultimately show ?case
    using x by (subst cxa_finalize_loop.simps) (simp add: free_keeps_def [of a])
qed

lemma cxa_finalize_loop_fault:
  "chain cx_next (hs_heap st) h ns \<Longrightarrow> \<exists>(a, n)\<in>set ns. cxa_matches dso n \<Longrightarrow>
     cxa_finalize_loop free_unmaps dso h st calls = None"
proof (induction ns arbitrary: h st calls)
  case (Cons x ns)
  obtain a n where x: "x = (a, n)" by (cases x)
  show ?case
  proof (cases "cxa_matches dso n")
    case True
    then show ?thesis
      using Cons.prems x by (subst cxa_finalize_loop.simps) (simp add: free_unmaps_def)
  next
    case False
    with Cons.prems(2) x have "\<exists>(a, n)\<in>set ns. cxa_matches dso n" by auto
    then have "cxa_finalize_loop free_unmaps dso (cx_next n) (st\<lparr>hs_head := cx_next n\<rparr>) calls = None"
      using Cons.prems x by (intro Cons.IH) auto
    then show ?thesis
      using False Cons.prems x by (subst cxa_finalize_loop.simps) simp
  qed
qed simp

text \<open>What \<open>__cxa_finalize (NULL)\<close> on an allocator that keeps freed blocks has to call.\<close>

definition cxa_items ::
    "((addr \<Rightarrow> cxa_handler option) \<Rightarrow> addr) \<Rightarrow> cxa_handler handlers \<Rightarrow> (addr \<times> addr) list \<Rightarrow> bool" where
  "cxa_items malloc st hs \<longleftrightarrow> malloc_fresh malloc \<and>
     (\<exists>ns. chain cx_next (hs_heap st) (hs_head st) ns \<and> hs = cxa_calls NULL ns)"

lemma cxa_atexit_chain:
  assumes "malloc_fresh malloc" "chain cx_next (hs_heap st) (hs_head st) ns"
    and "cxa_atexit malloc False (d, v, so) st = (0, st')"
  shows "\<exists>a. chain cx_next (hs_heap st') (hs_head st')
    ((a, \<lparr>cx_destructor = d, cx_arg = v, cx_dso = so, cx_next = hs_head st\<rparr>) # ns)"
proof -
  let ?h = "malloc (hs_heap st)"
  have h: "?h \<noteq> NULL" using assms(3) by (auto simp: cxa_atexit_def Let_def split: if_splits)
  then have "hs_heap st ?h = None" using assms(1) by (auto simp: malloc_fresh_def)
  with chain_dom [OF assms(2)] have "?h \<notin> fst ` set ns" by blast
  moreover have "st' = st\<lparr>hs_heap := (hs_heap st)(?h \<mapsto>
      \<lparr>cx_destructor = d, cx_arg = v, cx_dso = so, cx_next = hs_head st\<rparr>), hs_head := ?h\<rparr>"
    using assms(3) h by (simp add: cxa_atexit_def Let_def)
  ultimately show ?thesis
    using assms(2) h by (intro exI [of _ ?h]) (simp add: chain_upd)
qed

interpretation cxa: handler_list "cxa_items malloc" "\<lambda>(d, v, so). d \<noteq> NULL" "\<lambda>(d, v, so). (d, v)"
  "cxa_atexit malloc False" "\<lambda>st. map_option snd (cxa_finalize free_keeps False NULL st)" for malloc
proof unfold_locales
  fix st hs and r :: "addr \<times> addr \<times> addr" and st'
  assume "cxa_items malloc st hs" "case r of (d, v, so) \<Rightarrow> d \<noteq> NULL" "cxa_atexit malloc False r st = (0, st')"
  then obtain ns d v so where ns: "malloc_fresh malloc" "chain cx_next (hs_heap st) (hs_head st) ns"
    "cxa_atexit malloc False (d, v, so) st = (0, st')" "r = (d, v, so)" "d \<noteq> NULL" "hs = cxa_calls NULL ns"
    by (auto simp: cxa_items_def split: prod.splits)
  obtain a where "chain cx_next (hs_heap st') (hs_head st')
      ((a, \<lparr>cx_destructor = d, cx_arg = v, cx_dso = so, cx_next = hs_head st\<rparr>) # ns)"
    using cxa_atexit_chain [OF ns(1-3)] by blast
  then show "cxa_items malloc st' ((case r of (d, v, so) \<Rightarrow> (d, v)) # hs)"
    unfolding cxa_items_def using ns
    by (intro conjI exI [of _ "(a, \<lparr>cx_destructor = d, cx_arg = v, cx_dso = so, cx_next = hs_head st\<rparr>) # ns"])
      (simp_all add: cxa_matches_def)
next
  fix st hs
  assume "cxa_items malloc st hs"
  then obtain ns where ns: "chain cx_next (hs_heap st) (hs_head st) ns" "hs = cxa_calls NULL ns"
    by (auto simp: cxa_items_def)
  moreover have "ns = [] \<longrightarrow> hs_head st = NULL" using ns(1) by auto
  ultimately show "map_option snd (cxa_finalize free_keeps False NULL st) = Some hs"
    by (simp add: cxa_finalize_def cxa_finalize_loop_chain)
qed

section \<open>Properties\<close>

text \<open>C31. \<open>exit\<close> of a process calls the handlers registered with \<open>atexit\<close>, each exactly once and the last registered
  first, then the clean-up of the process, then the kernel's exit with the caller's code, and it ends; it
  reads no node after freeing it. In a thread it goes to the kernel at once.\<close>

theorem exit_runs_handlers_lifo:
  assumes "malloc_fresh malloc" "free_local free" "hs_head s = NULL"
    and "atexit.register_all malloc hs s = Some s'"
  shows "exit free False rv s' = Some (map HandlerCall (rev hs) @ [UserProcessExit, SysExit rv]) \<and>
    exit free True rv s' = Some [SysExit rv]"
proof -
  have "atexit_items malloc free s []"
    using assms(1-3) unfolding atexit_items_def by (auto intro: exI [of _ "[]"])
  from atexit.last_in_first_out [OF this _ assms(4)]
  show ?thesis by (simp add: exit_def)
qed

text \<open>An allocator for the witnesses: it has room for two blocks.\<close>

definition bump :: "nat \<Rightarrow> (addr \<Rightarrow> 'n option) \<Rightarrow> addr" where
  "bump k H = (if H k = None then k else if H (Suc k) = None then Suc k else NULL)"

lemma bump_fresh: "malloc_fresh (bump k)"
  by (simp add: malloc_fresh_def bump_def)

definition no_handlers :: "'n handlers" where
  "no_handlers = \<lparr>hs_head = NULL, hs_heap = \<lambda>_. None\<rparr>"

theorem exit_runs_handlers_lifo_witness:
  "\<exists>s'. atexit.register_all (bump 4) [100, 200] no_handlers = Some s' \<and>
    exit free_unmaps False 3 s' = Some (map HandlerCall (rev [100, 200]) @ [UserProcessExit, SysExit 3]) \<and>
    exit free_unmaps True 3 s' = Some [SysExit 3]"
  using exit_runs_handlers_lifo [OF bump_fresh free_local_models(2), of no_handlers 4 "[100, 200]" _ 3]
  by (simp add: atexit.register_all.simps no_handlers_def atexit_def bump_def)

text \<open>\<open>__cxa_finalize (dso)\<close>, on an allocator that leaves freed blocks readable, calls exactly the registered
  destructors that belong to \<open>dso\<close> (all, for a null \<open>dso\<close>), newest first, and leaves the list empty:
  the handlers of every other object are dropped without being called, so a later finalisation of their
  object calls nothing.\<close>

lemma cxa_finalize_drops_others:
  assumes "chain cx_next (hs_heap st) (hs_head st) ns"
  shows "\<exists>st'. cxa_finalize free_keeps False dso st = Some (st', cxa_calls dso ns) \<and> hs_head st' = NULL \<and>
    (\<forall>dso'. cxa_finalize free_keeps False dso' st' = Some (st', []))"
proof -
  have "ns = [] \<longrightarrow> hs_head st = NULL" using assms by auto
  from cxa_finalize_loop_chain [OF assms this] show ?thesis
    by (simp add: cxa_finalize_def cxa_finalize_loop.simps [of _ _ NULL])
qed

definition two_objects :: "cxa_handler handlers" where
  "two_objects = \<lparr>hs_head = 8, hs_heap = [
     8 \<mapsto> \<lparr>cx_destructor = 70, cx_arg = 1, cx_dso = 20, cx_next = 9\<rparr>,
     9 \<mapsto> \<lparr>cx_destructor = 80, cx_arg = 2, cx_dso = 30, cx_next = NULL\<rparr>]\<rparr>"

theorem cxa_finalize_drops_others_witness:
  "\<exists>st'. cxa_finalize free_keeps False 20 two_objects = Some (st', cxa_calls 20
      [(8, \<lparr>cx_destructor = 70, cx_arg = 1, cx_dso = 20, cx_next = 9\<rparr>),
       (9, \<lparr>cx_destructor = 80, cx_arg = 2, cx_dso = 30, cx_next = NULL\<rparr>)]) \<and> hs_head st' = NULL \<and>
    (\<forall>dso'. cxa_finalize free_keeps False dso' st' = Some (st', []))"
  by (rule cxa_finalize_drops_others) (simp add: two_objects_def)

text \<open>After it has called a destructor and freed its node, \<open>__cxa_finalize\<close> loads the next pointer from the freed
  node: on an allocator whose \<open>free\<close> takes the block away, it faults as soon as one registered
  destructor belongs to \<open>dso\<close>.\<close>

lemma cxa_finalize_uses_freed_node:
  assumes "chain cx_next (hs_heap st) (hs_head st) ns" "\<exists>(a, n)\<in>set ns. cxa_matches dso n"
  shows "cxa_finalize free_unmaps False dso st = None"
  using cxa_finalize_loop_fault [OF assms] by (simp add: cxa_finalize_def)

theorem cxa_finalize_uses_freed_node_witness:
  "cxa_finalize free_unmaps False 30 two_objects = None"
  by (rule cxa_finalize_uses_freed_node [where ns =
      "[(8, \<lparr>cx_destructor = 70, cx_arg = 1, cx_dso = 20, cx_next = 9\<rparr>),
       (9, \<lparr>cx_destructor = 80, cx_arg = 2, cx_dso = 30, cx_next = NULL\<rparr>)]"])
    (simp_all add: two_objects_def cxa_matches_def)

end
