(* ===== verification/Pthread.thy ===== *)
theory Pthread
  imports Prelude
begin

text \<open>
  \<open>libupthread\<close>: the atomic operations, the recursive mutex, the spin lock and the
  condition variable identifiers.

  The operations that finish at once are functions on the structure the caller passes
  (\<open>None\<close> for a null pointer). \<open>pthread_mutex_lock\<close>, \<open>pthread_spin_lock\<close> and the two
  try-locks, called by any number of threads and interleaved with unlocks, are a step relation in
  which one step is one access to shared memory. The locale \<open>recursive_lock\<close> is the contract
  of a lock that its owner may take again; both locks are instances of it.

  \<open>getlockownerid\<close> (a system call) is a parameter: the owner identifier of each thread.
  The kernel's \<open>waitonlock\<close> is the parameter \<open>wol\<close>.
\<close>

section \<open>Atomic operations\<close>

text \<open>Each returns the value the variable had, paired with the value it gets.\<close>

definition atomic_compare_swap :: "32 word \<Rightarrow> 32 word \<Rightarrow> 32 word \<Rightarrow> 32 word \<times> 32 word" where
  "atomic_compare_swap lock oldVal newVal = (lock, if lock = oldVal then newVal else lock)"

definition atomic_swap :: "32 word \<Rightarrow> 32 word \<Rightarrow> 32 word \<times> 32 word" where
  "atomic_swap lock val = (lock, val)"

definition atomic_add :: "32 word \<Rightarrow> 32 word \<Rightarrow> 32 word \<times> 32 word" where
  "atomic_add var val = (var, var + val)"

definition atomic_get :: "32 word \<Rightarrow> 32 word" where
  "atomic_get var = var"

definition atomic_set :: "32 word \<Rightarrow> 32 word \<Rightarrow> 32 word" where
  "atomic_set var val = val"

definition atomic_bit_and :: "32 word \<Rightarrow> 32 word \<Rightarrow> 32 word \<times> 32 word" where
  "atomic_bit_and var bits = (var, var AND bits)"

definition atomic_bit_or :: "32 word \<Rightarrow> 32 word \<Rightarrow> 32 word \<times> 32 word" where
  "atomic_bit_or var bits = (var, var OR bits)"

lemmas atomic_defs = atomic_compare_swap_def atomic_swap_def atomic_add_def atomic_get_def
  atomic_set_def atomic_bit_and_def atomic_bit_or_def

section \<open>The mutex\<close>

record pthread_mutex_t =
  mtx_kind :: int
  mtx_lock_count :: int
  mtx_lock :: "32 word"

record pthread_mutexattr_t =
  mattr_kind :: int

type_synonym pthread_spinlock_t = pthread_mutex_t

definition FREE_MUTEX :: "32 word" where
  "FREE_MUTEX = - 999"

definition PTHREAD_MUTEX_DEFAULT :: int where
  "PTHREAD_MUTEX_DEFAULT = 0"

definition EBUSY :: int where
  "EBUSY = 16"

definition pthread_mutex_init ::
    "pthread_mutex_t option \<Rightarrow> pthread_mutexattr_t option \<Rightarrow> int \<times> pthread_mutex_t option" where
  "pthread_mutex_init mtx attr = (case mtx of
      None \<Rightarrow> (1, None)
    | Some x \<Rightarrow> (0, Some (x\<lparr>
        mtx_kind := (case attr of Some a \<Rightarrow> mattr_kind a | None \<Rightarrow> PTHREAD_MUTEX_DEFAULT),
        mtx_lock_count := 0,
        mtx_lock := atomic_set (mtx_lock x) FREE_MUTEX\<rparr>)))"

definition pthread_mutex_destroy :: "pthread_mutex_t option \<Rightarrow> pthread_mutex_t option" where
  "pthread_mutex_destroy mtx = snd (pthread_mutex_init mtx None)"

definition pthread_mutex_trylock ::
    "32 word \<Rightarrow> pthread_mutex_t option \<Rightarrow> int \<times> pthread_mutex_t option" where
  "pthread_mutex_trylock newVal mtx = (case mtx of
      None \<Rightarrow> (1, None)
    | Some x \<Rightarrow>
        (let (oldVal, l) = atomic_compare_swap (mtx_lock x) FREE_MUTEX newVal;
             x = x\<lparr>mtx_lock := l\<rparr>
         in if oldVal = FREE_MUTEX then (0, Some (x\<lparr>mtx_lock_count := 1\<rparr>))
            else if oldVal = newVal then (0, Some (x\<lparr>mtx_lock_count := mtx_lock_count x + 1\<rparr>))
            else (EBUSY, Some x)))"

text \<open>The body that \<open>unlock\<close> and \<open>unlock_owner\<close> have in common, for the owner \<open>val\<close>.\<close>

definition release_lock :: "32 word \<Rightarrow> pthread_mutex_t \<Rightarrow> int \<times> pthread_mutex_t" where
  "release_lock val x =
     (if atomic_get (mtx_lock x) \<noteq> val then (1, x)
      else
        (let x = (if mtx_lock_count x > 0 then x\<lparr>mtx_lock_count := mtx_lock_count x - 1\<rparr> else x);
             x = (if mtx_lock_count x = 0 then x\<lparr>mtx_lock := atomic_set (mtx_lock x) FREE_MUTEX\<rparr> else x)
         in (0, x)))"

definition pthread_mutex_unlock ::
    "32 word \<Rightarrow> pthread_mutex_t option \<Rightarrow> int \<times> pthread_mutex_t option" where
  "pthread_mutex_unlock val mtx = (case mtx of
      None \<Rightarrow> (1, None)
    | Some x \<Rightarrow> (let (r, x) = release_lock val x in (r, Some x)))"

definition pthread_mutex_unlock_owner ::
    "pthread_mutex_t option \<Rightarrow> 32 word \<Rightarrow> int \<times> pthread_mutex_t option" where
  "pthread_mutex_unlock_owner mtx owner = (case mtx of
      None \<Rightarrow> (1, None)
    | Some x \<Rightarrow> (let (r, x) = release_lock owner x in (r, Some x)))"

definition pthread_mutexattr_init :: "pthread_mutexattr_t \<Rightarrow> pthread_mutexattr_t" where
  "pthread_mutexattr_init attr = attr\<lparr>mattr_kind := 0\<rparr>\<lparr>mattr_kind := PTHREAD_MUTEX_DEFAULT\<rparr>"

definition pthread_mutexattr_settype :: "pthread_mutexattr_t \<Rightarrow> int \<Rightarrow> int \<times> pthread_mutexattr_t" where
  "pthread_mutexattr_settype attr kind = (let pv = mattr_kind attr in (pv, attr\<lparr>mattr_kind := kind\<rparr>))"

section \<open>The spin lock\<close>

definition pthread_spin_init ::
    "pthread_spinlock_t option \<Rightarrow> pthread_mutexattr_t option \<Rightarrow> int \<times> pthread_spinlock_t option" where
  "pthread_spin_init mtx attr = (case mtx of
      None \<Rightarrow> (1, None)
    | Some x \<Rightarrow> (0, Some (x\<lparr>
        mtx_kind := (case attr of Some a \<Rightarrow> mattr_kind a | None \<Rightarrow> PTHREAD_MUTEX_DEFAULT),
        mtx_lock_count := 0,
        mtx_lock := atomic_set (mtx_lock x) FREE_MUTEX\<rparr>)))"

definition pthread_spin_destroy :: "pthread_spinlock_t option \<Rightarrow> pthread_spinlock_t option" where
  "pthread_spin_destroy mtx = snd (pthread_spin_init mtx None)"

definition pthread_spin_trylock ::
    "32 word \<Rightarrow> pthread_spinlock_t option \<Rightarrow> int \<times> pthread_spinlock_t option" where
  "pthread_spin_trylock newVal mtx = (case mtx of
      None \<Rightarrow> (1, None)
    | Some x \<Rightarrow>
        (let (oldVal, l) = atomic_compare_swap (mtx_lock x) FREE_MUTEX newVal;
             x = x\<lparr>mtx_lock := l\<rparr>
         in if oldVal = FREE_MUTEX then (0, Some (x\<lparr>mtx_lock_count := 1\<rparr>))
            else if oldVal = newVal then (0, Some (x\<lparr>mtx_lock_count := mtx_lock_count x + 1\<rparr>))
            else (EBUSY, Some x)))"

definition pthread_spin_unlock ::
    "32 word \<Rightarrow> pthread_spinlock_t option \<Rightarrow> int \<times> pthread_spinlock_t option" where
  "pthread_spin_unlock val mtx = (case mtx of
      None \<Rightarrow> (1, None)
    | Some x \<Rightarrow> (let (r, x) = release_lock val x in (r, Some x)))"

definition pthread_spin_unlock_owner ::
    "pthread_spinlock_t option \<Rightarrow> 32 word \<Rightarrow> int \<times> pthread_spinlock_t option" where
  "pthread_spin_unlock_owner mtx owner = (case mtx of
      None \<Rightarrow> (1, None)
    | Some x \<Rightarrow> (let (r, x) = release_lock owner x in (r, Some x)))"

section \<open>Thread attributes and identifiers\<close>

record pthread_attr_t =
  attr_stack_size :: nat
  attr_detach_state :: int

definition pthread_attr_init :: "pthread_attr_t \<Rightarrow> pthread_attr_t" where
  "pthread_attr_init attr = attr\<lparr>attr_stack_size := 0, attr_detach_state := 0\<rparr>"

definition pthread_attr_setdetachstate :: "pthread_attr_t option \<Rightarrow> int \<Rightarrow> int \<times> pthread_attr_t option" where
  "pthread_attr_setdetachstate attr detach_state = (case attr of
      Some a \<Rightarrow>
        if detach_state = 0 \<and> detach_state = 1
        then (0, Some (a\<lparr>attr_detach_state := detach_state\<rparr>))
        else (-1, Some a)
    | None \<Rightarrow> (-1, None))"

definition pthread_equal :: "64 word \<Rightarrow> 64 word \<Rightarrow> bool" where
  "pthread_equal t1 t2 \<longleftrightarrow> t1 = t2"

section \<open>The contract of a recursive lock\<close>

locale recursive_lock =
  fixes good :: "'s \<Rightarrow> bool"
    and owner_of :: "'s \<Rightarrow> 'o option"
    and depth :: "'s \<Rightarrow> nat"
    and valid :: "'o \<Rightarrow> bool"
    and try_take :: "'o \<Rightarrow> 's \<Rightarrow> int \<times> 's"
    and release :: "'o \<Rightarrow> 's \<Rightarrow> int \<times> 's"
  assumes depth_owner: "good s \<Longrightarrow> depth s = 0 \<longleftrightarrow> owner_of s = None"
    and take_free: "good s \<Longrightarrow> valid p \<Longrightarrow> owner_of s = None \<or> owner_of s = Some p \<Longrightarrow>
      \<exists>s'. try_take p s = (0, s') \<and> good s' \<and> owner_of s' = Some p \<and> depth s' = Suc (depth s)"
    and take_busy: "good s \<Longrightarrow> valid p \<Longrightarrow> owner_of s = Some q \<Longrightarrow> p \<noteq> q \<Longrightarrow> try_take p s = (EBUSY, s)"
    and release_own: "good s \<Longrightarrow> valid p \<Longrightarrow> owner_of s = Some p \<Longrightarrow>
      \<exists>s'. release p s = (0, s') \<and> good s' \<and> depth s' = depth s - 1 \<and>
        owner_of s' = (if depth s = 1 then None else Some p)"
    and release_other: "good s \<Longrightarrow> valid p \<Longrightarrow> owner_of s \<noteq> Some p \<Longrightarrow> release p s = (1, s)"
begin

definition takes :: "'o \<Rightarrow> nat \<Rightarrow> 's \<Rightarrow> 's" where
  "takes p n = (\<lambda>s. snd (try_take p s)) ^^ n"

definition releases :: "'o \<Rightarrow> nat \<Rightarrow> 's \<Rightarrow> 's" where
  "releases p n = (\<lambda>s. snd (release p s)) ^^ n"

lemma takes_depth:
  assumes "good s" "valid p" "owner_of s = None"
  shows "good (takes p n s) \<and> depth (takes p n s) = n \<and>
    owner_of (takes p n s) = (if n = 0 then None else Some p)"
proof (induction n)
  case 0
  then show ?case using assms depth_owner [of s] by (simp add: takes_def)
next
  case (Suc n)
  then have "owner_of (takes p n s) = None \<or> owner_of (takes p n s) = Some p" by (auto split: if_splits)
  with Suc take_free [of "takes p n s" p] assms(2) show ?case
    by (auto simp: takes_def)
qed

lemma releases_depth:
  assumes "good s" "valid p" "owner_of s = Some p" "n \<le> depth s"
  shows "good (releases p n s) \<and> depth (releases p n s) = depth s - n \<and>
    owner_of (releases p n s) = (if n = depth s then None else Some p)"
  using assms(4)
proof (induction n)
  case 0
  then show ?case using assms depth_owner [of s] by (auto simp: releases_def)
next
  case (Suc n)
  then have IH: "good (releases p n s)" "depth (releases p n s) = depth s - n"
    "owner_of (releases p n s) = Some p"
    by auto
  from release_own [OF IH(1) assms(2) IH(3)] Suc.prems IH(2) show ?case
    by (auto simp: releases_def)
qed

text \<open>As many releases as takes free the lock; in between everybody else is refused.\<close>

lemma nested:
  assumes "good s" "valid p" "owner_of s = None" "k \<le> n" "0 < n"
  shows "owner_of (releases p k (takes p n s)) = (if k = n then None else Some p)"
    and "k < n \<Longrightarrow> valid q \<Longrightarrow> q \<noteq> p \<Longrightarrow>
      try_take q (releases p k (takes p n s)) = (EBUSY, releases p k (takes p n s))"
    and "k < n \<Longrightarrow> valid q \<Longrightarrow> q \<noteq> p \<Longrightarrow>
      release q (releases p k (takes p n s)) = (1, releases p k (takes p n s))"
  using takes_depth [OF assms(1-3), of n] releases_depth [of "takes p n s" p k] assms take_busy release_other
  by (auto split: if_splits)

end

definition lock_good :: "pthread_mutex_t \<Rightarrow> bool" where
  "lock_good x \<longleftrightarrow> 0 \<le> mtx_lock_count x \<and> (mtx_lock_count x = 0 \<longleftrightarrow> mtx_lock x = FREE_MUTEX)"

definition lock_owner :: "pthread_mutex_t \<Rightarrow> 32 word option" where
  "lock_owner x = (if mtx_lock x = FREE_MUTEX then None else Some (mtx_lock x))"

definition on_lock :: "(pthread_mutex_t option \<Rightarrow> int \<times> pthread_mutex_t option) \<Rightarrow> pthread_mutex_t \<Rightarrow> int \<times> pthread_mutex_t" where
  "on_lock f x = (let (r, y) = f (Some x) in (r, the y))"

lemmas lock_simps = lock_good_def lock_owner_def on_lock_def release_lock_def atomic_defs Let_def

interpretation mutex: recursive_lock lock_good lock_owner "\<lambda>x. nat (mtx_lock_count x)" "\<lambda>p. p \<noteq> FREE_MUTEX"
  "\<lambda>p. on_lock (pthread_mutex_trylock p)" "\<lambda>p. on_lock (pthread_mutex_unlock p)"
  by unfold_locales (auto simp: lock_simps pthread_mutex_trylock_def pthread_mutex_unlock_def split: if_splits)

interpretation spin: recursive_lock lock_good lock_owner "\<lambda>x. nat (mtx_lock_count x)" "\<lambda>p. p \<noteq> FREE_MUTEX"
  "\<lambda>p. on_lock (pthread_spin_trylock p)" "\<lambda>p. on_lock (pthread_spin_unlock p)"
  by unfold_locales (auto simp: lock_simps pthread_spin_trylock_def pthread_spin_unlock_def split: if_splits)

section \<open>Any number of threads on one lock\<close>

text \<open>
  Where a thread is in the code. \<open>AtCas\<close> is the compare-and-swap of \<open>pthread_mutex_lock\<close>,
  \<open>pthread_spin_lock\<close> and the try-locks; \<open>AtSet\<close> and \<open>AtInc\<close> the writes of
  \<open>_lock_count\<close> after it; \<open>AtSpin\<close> the loop that waits for the lock to look free; \<open>AtWait\<close> the
  kernel call; the last four are the accesses of an unlock.
\<close>

datatype lock_call = MutexLock | SpinLock | TryLock

datatype pc = AtIdle | AtCas lock_call | AtSet | AtInc | AtSpin lock_call | AtWait
  | AtUnlock | AtDec | AtTest | AtFree

text \<open>
  The shared lock, each thread's program counter, and a history variable the code does not
  have: how many of its calls a thread has returned from holding the lock and not yet undone.
\<close>

record 't lock_sys =
  sys_lock :: pthread_mutex_t
  sys_pc :: "'t \<Rightarrow> pc"
  sys_held :: "'t \<Rightarrow> nat"

definition goto :: "'t \<Rightarrow> pc \<Rightarrow> 't lock_sys \<Rightarrow> 't lock_sys" where
  "goto t c s = s\<lparr>sys_pc := (sys_pc s)(t := c)\<rparr>"

definition put_lock :: "32 word \<Rightarrow> 't lock_sys \<Rightarrow> 't lock_sys" where
  "put_lock l s = s\<lparr>sys_lock := (sys_lock s)\<lparr>mtx_lock := l\<rparr>\<rparr>"

definition put_count :: "int \<Rightarrow> 't lock_sys \<Rightarrow> 't lock_sys" where
  "put_count n s = s\<lparr>sys_lock := (sys_lock s)\<lparr>mtx_lock_count := n\<rparr>\<rparr>"

definition put_held :: "'t \<Rightarrow> nat \<Rightarrow> 't lock_sys \<Rightarrow> 't lock_sys" where
  "put_held t n s = s\<lparr>sys_held := (sys_held s)(t := n)\<rparr>"

lemmas sys_update_defs = goto_def put_lock_def put_count_def put_held_def

inductive lock_step ::
    "('t \<Rightarrow> 32 word) \<Rightarrow> (32 word \<Rightarrow> 32 word \<Rightarrow> 32 word \<Rightarrow> 32 word \<Rightarrow> bool) \<Rightarrow>
     't \<Rightarrow> 't lock_sys \<Rightarrow> 't lock_sys \<Rightarrow> bool"
  for own wol t where
  call: "sys_pc s t = AtIdle \<Longrightarrow> lock_step own wol t s (goto t (AtCas c) s)"
| call_unlock: "sys_pc s t = AtIdle \<Longrightarrow> lock_step own wol t s (goto t AtUnlock s)"
| cas_free: "sys_pc s t = AtCas c \<Longrightarrow>
    atomic_compare_swap (mtx_lock (sys_lock s)) FREE_MUTEX (own t) = (oldVal, l) \<Longrightarrow> oldVal = FREE_MUTEX \<Longrightarrow>
    lock_step own wol t s (goto t AtSet (put_lock l s))"
| cas_own: "sys_pc s t = AtCas c \<Longrightarrow>
    atomic_compare_swap (mtx_lock (sys_lock s)) FREE_MUTEX (own t) = (oldVal, l) \<Longrightarrow>
    oldVal \<noteq> FREE_MUTEX \<Longrightarrow> oldVal = own t \<Longrightarrow>
    lock_step own wol t s (goto t AtInc (put_lock l s))"
| cas_busy: "sys_pc s t = AtCas c \<Longrightarrow>
    atomic_compare_swap (mtx_lock (sys_lock s)) FREE_MUTEX (own t) = (oldVal, l) \<Longrightarrow>
    oldVal \<noteq> FREE_MUTEX \<Longrightarrow> oldVal \<noteq> own t \<Longrightarrow>
    lock_step own wol t s
      (goto t (case c of TryLock \<Rightarrow> AtIdle
               | SpinLock \<Rightarrow> AtSpin c
               | MutexLock \<Rightarrow> if sint (own t) < 0 then AtSpin c else AtWait) (put_lock l s))"
| spin: "sys_pc s t = AtSpin c \<Longrightarrow> atomic_get (mtx_lock (sys_lock s)) \<noteq> FREE_MUTEX \<Longrightarrow>
    lock_step own wol t s s"
| spin_end: "sys_pc s t = AtSpin c \<Longrightarrow> atomic_get (mtx_lock (sys_lock s)) = FREE_MUTEX \<Longrightarrow>
    lock_step own wol t s (goto t (AtCas c) s)"
| wait: "sys_pc s t = AtWait \<Longrightarrow> wol (mtx_lock (sys_lock s)) FREE_MUTEX (own t) l \<Longrightarrow>
    lock_step own wol t s (goto t AtSet (put_lock l s))"
| set_count: "sys_pc s t = AtSet \<Longrightarrow>
    lock_step own wol t s (goto t AtIdle (put_held t (Suc (sys_held s t)) (put_count 1 s)))"
| inc_count: "sys_pc s t = AtInc \<Longrightarrow>
    lock_step own wol t s (goto t AtIdle (put_held t (Suc (sys_held s t))
      (put_count (mtx_lock_count (sys_lock s) + 1) s)))"
| unlock_not_owner: "sys_pc s t = AtUnlock \<Longrightarrow> atomic_get (mtx_lock (sys_lock s)) \<noteq> own t \<Longrightarrow>
    lock_step own wol t s (goto t AtIdle s)"
| unlock_owner: "sys_pc s t = AtUnlock \<Longrightarrow> atomic_get (mtx_lock (sys_lock s)) = own t \<Longrightarrow>
    lock_step own wol t s (goto t AtDec s)"
| dec_count: "sys_pc s t = AtDec \<Longrightarrow> n = mtx_lock_count (sys_lock s) \<Longrightarrow>
    lock_step own wol t s (goto t AtTest (put_held t (sys_held s t - 1)
      (put_count (if n > 0 then n - 1 else n) s)))"
| test_zero: "sys_pc s t = AtTest \<Longrightarrow> mtx_lock_count (sys_lock s) = 0 \<Longrightarrow>
    lock_step own wol t s (goto t AtFree s)"
| test_more: "sys_pc s t = AtTest \<Longrightarrow> mtx_lock_count (sys_lock s) \<noteq> 0 \<Longrightarrow>
    lock_step own wol t s (goto t AtIdle s)"
| free: "sys_pc s t = AtFree \<Longrightarrow>
    lock_step own wol t s (goto t AtIdle (put_lock (atomic_set (mtx_lock (sys_lock s)) FREE_MUTEX) s))"

inductive_cases lock_stepE: "lock_step own wol t s s'"

text \<open>The reachable states: after \<open>pthread_mutex_init\<close>, no thread in a call.\<close>

inductive lock_run ::
    "('t \<Rightarrow> 32 word) \<Rightarrow> (32 word \<Rightarrow> 32 word \<Rightarrow> 32 word \<Rightarrow> 32 word \<Rightarrow> bool) \<Rightarrow> 't lock_sys \<Rightarrow> bool"
  for own wol where
  init: "pthread_mutex_init (Some x) attr = (0, Some m) \<Longrightarrow>
    lock_run own wol \<lparr>sys_lock = m, sys_pc = \<lambda>_. AtIdle, sys_held = \<lambda>_. 0\<rparr>"
| step: "lock_run own wol s \<Longrightarrow> lock_step own wol t s s' \<Longrightarrow> lock_run own wol s'"

text \<open>
  What the code relies on: owner identifiers are distinct and none is the mark of a free lock, and
  \<open>waitonlock (addr, old, new)\<close> returns when it has itself replaced \<open>old\<close> by \<open>new\<close>.
\<close>

definition owner_ids :: "('t \<Rightarrow> 32 word) \<Rightarrow> bool" where
  "owner_ids own \<longleftrightarrow> inj own \<and> (\<forall>t. own t \<noteq> FREE_MUTEX)"

definition waitonlock_swaps :: "(32 word \<Rightarrow> 32 word \<Rightarrow> 32 word \<Rightarrow> 32 word \<Rightarrow> bool) \<Rightarrow> bool" where
  "waitonlock_swaps wol \<longleftrightarrow> (\<forall>l old new l'. wol l old new l' \<longrightarrow> l = old \<and> l' = new)"

text \<open>What is true of a thread whose identifier is in the lock, and of one whose is not.\<close>

definition owner_state :: "pc \<Rightarrow> nat \<Rightarrow> int \<Rightarrow> bool" where
  "owner_state c h n \<longleftrightarrow> (case c of
      AtSet \<Rightarrow> h = 0
    | AtTest \<Rightarrow> n = int h
    | AtFree \<Rightarrow> h = 0 \<and> n = 0
    | AtSpin _ \<Rightarrow> False
    | AtWait \<Rightarrow> False
    | _ \<Rightarrow> 0 < h \<and> n = int h)"

definition other_state :: "pc \<Rightarrow> nat \<Rightarrow> bool" where
  "other_state c h \<longleftrightarrow> h = 0 \<and> c \<notin> {AtSet, AtInc, AtDec, AtTest, AtFree}"

definition lock_inv :: "('t \<Rightarrow> 32 word) \<Rightarrow> 't lock_sys \<Rightarrow> bool" where
  "lock_inv own s \<longleftrightarrow>
     (mtx_lock (sys_lock s) = FREE_MUTEX \<or> mtx_lock (sys_lock s) \<in> range own) \<and>
     (\<forall>t. if mtx_lock (sys_lock s) = own t
          then owner_state (sys_pc s t) (sys_held s t) (mtx_lock_count (sys_lock s))
          else other_state (sys_pc s t) (sys_held s t))"

lemma lock_invD:
  "lock_inv own s \<Longrightarrow> mtx_lock (sys_lock s) = own t \<Longrightarrow>
     owner_state (sys_pc s t) (sys_held s t) (mtx_lock_count (sys_lock s))"
  "lock_inv own s \<Longrightarrow> mtx_lock (sys_lock s) \<noteq> own t \<Longrightarrow> other_state (sys_pc s t) (sys_held s t)"
  unfolding lock_inv_def by (metis (full_types))+

text \<open>The state of one thread.\<close>

definition thread_ok :: "('t \<Rightarrow> 32 word) \<Rightarrow> 't lock_sys \<Rightarrow> 't \<Rightarrow> bool" where
  "thread_ok own s t \<longleftrightarrow>
     (if mtx_lock (sys_lock s) = own t
      then owner_state (sys_pc s t) (sys_held s t) (mtx_lock_count (sys_lock s))
      else other_state (sys_pc s t) (sys_held s t))"

lemma lock_inv_thread_ok: "lock_inv own s \<Longrightarrow> thread_ok own s t"
  by (simp add: lock_inv_def thread_ok_def)

text \<open>A step of \<open>t\<close> keeps the other threads' part of the invariant.\<close>

lemma lock_inv_frame:
  assumes ids: "owner_ids own" and inv: "lock_inv own s" and ok: "thread_ok own s' t"
    and others: "\<And>u. u \<noteq> t \<Longrightarrow> sys_pc s' u = sys_pc s u \<and> sys_held s' u = sys_held s u"
    and lock: "mtx_lock (sys_lock s') = mtx_lock (sys_lock s) \<and>
        (mtx_lock_count (sys_lock s') = mtx_lock_count (sys_lock s) \<or> mtx_lock (sys_lock s) = own t) \<or>
      mtx_lock (sys_lock s) \<in> {FREE_MUTEX, own t} \<and> mtx_lock (sys_lock s') \<in> {FREE_MUTEX, own t}"
  shows "lock_inv own s'"
proof -
  have own: "own u \<noteq> own t" if "u \<noteq> t" for u
    using ids that by (auto simp: owner_ids_def dest: injD)
  have free: "own u \<noteq> FREE_MUTEX" for u
    using ids by (simp add: owner_ids_def)
  have "thread_ok own s' u" for u
  proof (cases "u = t")
    case False
    then show ?thesis
      using others [OF False] own [OF False] free [of u] lock lock_inv_thread_ok [OF inv, of u]
      unfolding thread_ok_def by (elim disjE conjE) (auto split: if_splits)
  qed (use ok in simp)
  moreover have "mtx_lock (sys_lock s') = FREE_MUTEX \<or> mtx_lock (sys_lock s') \<in> range own"
    using inv lock by (auto simp: lock_inv_def)
  ultimately show ?thesis by (simp add: lock_inv_def thread_ok_def)
qed

lemma sys_update_simps [simp]:
  "sys_pc (goto t c s) = (sys_pc s)(t := c)" "sys_lock (goto t c s) = sys_lock s"
  "sys_held (goto t c s) = sys_held s"
  "sys_pc (put_lock l s) = sys_pc s" "mtx_lock (sys_lock (put_lock l s)) = l"
  "mtx_lock_count (sys_lock (put_lock l s)) = mtx_lock_count (sys_lock s)" "sys_held (put_lock l s) = sys_held s"
  "sys_pc (put_count n s) = sys_pc s" "mtx_lock (sys_lock (put_count n s)) = mtx_lock (sys_lock s)"
  "mtx_lock_count (sys_lock (put_count n s)) = n" "sys_held (put_count n s) = sys_held s"
  "sys_pc (put_held t k s) = sys_pc s" "sys_lock (put_held t k s) = sys_lock s"
  "sys_held (put_held t k s) = (sys_held s)(t := k)"
  by (simp_all add: sys_update_defs)

lemma lock_inv_step:
  assumes ids: "owner_ids own" "waitonlock_swaps wol"
    and step: "lock_step own wol t s s'" and inv: "lock_inv own s"
  shows "lock_inv own s'"
proof (rule lock_inv_frame [OF ids(1) inv])
  have me: "thread_ok own s t" using inv by (rule lock_inv_thread_ok)
  have free: "own t \<noteq> FREE_MUTEX" using ids(1) by (simp add: owner_ids_def)
  from step me free ids(2) show "thread_ok own s' t"
    by cases (auto simp: thread_ok_def atomic_defs owner_state_def other_state_def waitonlock_swaps_def
        split: if_splits lock_call.splits)
  from step show "sys_pc s' u = sys_pc s u \<and> sys_held s' u = sys_held s u" if "u \<noteq> t" for u
    using that by cases auto
  from step me free ids(2) show
    "mtx_lock (sys_lock s') = mtx_lock (sys_lock s) \<and>
        (mtx_lock_count (sys_lock s') = mtx_lock_count (sys_lock s) \<or> mtx_lock (sys_lock s) = own t) \<or>
      mtx_lock (sys_lock s) \<in> {FREE_MUTEX, own t} \<and> mtx_lock (sys_lock s') \<in> {FREE_MUTEX, own t}"
    by cases (auto simp: thread_ok_def atomic_defs other_state_def waitonlock_swaps_def split: if_splits)
qed

lemma lock_run_inv:
  assumes "owner_ids own" "waitonlock_swaps wol" "lock_run own wol s"
  shows "lock_inv own s"
  using assms(3)
proof induction
  case (init x attr m)
  then have "mtx_lock m = FREE_MUTEX" "mtx_lock_count m = 0"
    by (auto simp: pthread_mutex_init_def atomic_defs)
  moreover have "own t \<noteq> FREE_MUTEX" "FREE_MUTEX \<noteq> own t" for t
    using assms(1) by (auto simp: owner_ids_def dest: sym)
  ultimately show ?case
    by (simp add: lock_inv_def other_state_def)
next
  case (step s t s')
  show ?case by (rule lock_inv_step [OF assms(1,2) step.hyps(2) step.IH])
qed

subsection \<open>The owner can always let go\<close>

inductive thread_steps ::
    "('t \<Rightarrow> 32 word) \<Rightarrow> (32 word \<Rightarrow> 32 word \<Rightarrow> 32 word \<Rightarrow> 32 word \<Rightarrow> bool) \<Rightarrow>
     't \<Rightarrow> 't lock_sys \<Rightarrow> 't lock_sys \<Rightarrow> bool"
  for own wol t where
  ts_refl: "thread_steps own wol t s s"
| ts_step: "lock_step own wol t s s' \<Longrightarrow> thread_steps own wol t s' s'' \<Longrightarrow> thread_steps own wol t s s''"

lemma thread_steps_trans:
  "thread_steps own wol t s s' \<Longrightarrow> thread_steps own wol t s' s'' \<Longrightarrow> thread_steps own wol t s s''"
  by (induction rule: thread_steps.induct) (auto intro: ts_step)

lemma one_step: "lock_step own wol t s s' \<Longrightarrow> thread_steps own wol t s s'"
  by (auto intro: ts_refl ts_step)

lemma reach_one: "lock_step own wol t s s' \<Longrightarrow> P s' \<Longrightarrow> \<exists>r. thread_steps own wol t s r \<and> P r"
  by (blast intro: one_step)

lemma reach_step:
  "lock_step own wol t s s' \<Longrightarrow> \<exists>r. thread_steps own wol t s' r \<and> P r \<Longrightarrow> \<exists>r. thread_steps own wol t s r \<and> P r"
  by (blast intro: ts_step)

text \<open>One unlock by a thread that holds the lock and is in no call.\<close>

lemma unlock_steps:
  assumes ids: "owner_ids own" and inv: "lock_inv own s"
    and holds: "mtx_lock (sys_lock s) = own t" "sys_pc s t = AtIdle"
  shows "\<exists>s'. thread_steps own wol t s s' \<and> sys_pc s' t = AtIdle \<and> Suc (sys_held s' t) = sys_held s t \<and>
    mtx_lock_count (sys_lock s') = int (sys_held s' t) \<and>
    mtx_lock (sys_lock s') = (if sys_held s' t = 0 then FREE_MUTEX else own t)"
proof -
  obtain h where h: "sys_held s t = Suc h" and n: "mtx_lock_count (sys_lock s) = int (Suc h)"
    using lock_invD(1) [OF inv holds(1)] holds(2) by (cases "sys_held s t") (auto simp: owner_state_def)
  let ?s1 = "goto t AtUnlock s" and ?s2 = "goto t AtDec (goto t AtUnlock s)"
  have 1: "lock_step own wol t s ?s1" using holds(2) by (rule call_unlock)
  have 2: "lock_step own wol t ?s1 ?s2" using holds(1) by (intro unlock_owner) (simp_all add: atomic_get_def)
  define s3 where "s3 = goto t AtTest (put_held t (sys_held ?s2 t - 1) (put_count (int h) ?s2))"
  have "lock_step own wol t ?s2 (goto t AtTest (put_held t (sys_held ?s2 t - 1)
      (put_count (if int (Suc h) > 0 then int (Suc h) - 1 else int (Suc h)) ?s2)))"
    using n by (intro dec_count) simp_all
  then have 3: "lock_step own wol t ?s2 s3" by (simp add: s3_def)
  have s3: "sys_pc s3 t = AtTest" "sys_held s3 t = h" "mtx_lock_count (sys_lock s3) = int h"
    "mtx_lock (sys_lock s3) = own t"
    using h holds(1) by (simp_all add: s3_def)
  note start = ts_step [OF 1 ts_step [OF 2 ts_step [OF 3]]]
  show ?thesis
  proof (cases "h = 0")
    case True
    let ?s5 = "goto t AtIdle (put_lock (atomic_set (own t) FREE_MUTEX) (goto t AtFree s3))"
    have 4: "lock_step own wol t s3 (goto t AtFree s3)" using s3 True by (intro test_zero) simp_all
    have 5: "lock_step own wol t (goto t AtFree s3) ?s5"
      using free [of "goto t AtFree s3" t own wol] s3(4) by simp
    have "thread_steps own wol t s ?s5"
      by (rule start [OF ts_step [OF 4 one_step [OF 5]]])
    then show ?thesis
      using s3 h True by (intro exI [of _ ?s5]) (simp add: atomic_set_def)
  next
    case False
    have 4: "lock_step own wol t s3 (goto t AtIdle s3)" using s3 False by (intro test_more) simp_all
    have "thread_steps own wol t s (goto t AtIdle s3)"
      by (rule start [OF one_step [OF 4]])
    then show ?thesis
      using s3 h False by (intro exI [of _ "goto t AtIdle s3"]) simp
  qed
qed

lemma thread_steps_inv:
  assumes "owner_ids own" "waitonlock_swaps wol"
  shows "thread_steps own wol t s s' \<Longrightarrow> lock_inv own s \<Longrightarrow> lock_inv own s'"
  by (induction rule: thread_steps.induct) (auto intro: lock_inv_step [OF assms])

lemma idle_owner_releases:
  assumes ids: "owner_ids own" "waitonlock_swaps wol"
  shows "lock_inv own s \<Longrightarrow> mtx_lock (sys_lock s) = own t \<Longrightarrow> sys_pc s t = AtIdle \<Longrightarrow>
    \<exists>s'. thread_steps own wol t s s' \<and> mtx_lock (sys_lock s') = FREE_MUTEX"
proof (induction "sys_held s t" arbitrary: s rule: less_induct)
  case less
  from unlock_steps [OF ids(1) less.prems, of wol] obtain s' where s': "thread_steps own wol t s s'"
    "sys_pc s' t = AtIdle" "Suc (sys_held s' t) = sys_held s t"
    "mtx_lock (sys_lock s') = (if sys_held s' t = 0 then FREE_MUTEX else own t)"
    by blast
  show ?case
  proof (cases "sys_held s' t = 0")
    case True
    with s' show ?thesis by auto
  next
    case False
    with s' less.hyps [of s'] thread_steps_inv [OF ids s'(1) less.prems(1)] show ?thesis
      by (auto intro: thread_steps_trans)
  qed
qed

text \<open>From inside any call the owner comes back to an idle state that holds the lock, or frees it.\<close>

definition let_go :: "('t \<Rightarrow> 32 word) \<Rightarrow> 't \<Rightarrow> 't lock_sys \<Rightarrow> bool" where
  "let_go own t s \<longleftrightarrow>
     mtx_lock (sys_lock s) = FREE_MUTEX \<or> mtx_lock (sys_lock s) = own t \<and> sys_pc s t = AtIdle"

lemma owner_to_idle:
  assumes ids: "owner_ids own" and inv: "lock_inv own s" and holds: "mtx_lock (sys_lock s) = own t"
  shows "\<exists>s'. thread_steps own wol t s s' \<and> let_go own t s'"
proof -
  note ok = lock_invD(1) [OF inv holds, unfolded owner_state_def]
  have own: "own t \<noteq> FREE_MUTEX" using ids by (simp add: owner_ids_def)
  have inc: "\<exists>s'. thread_steps own wol t r s' \<and> let_go own t s'"
    if "sys_pc r t = AtInc" "mtx_lock (sys_lock r) = own t" for r
    by (rule reach_one [OF inc_count [OF that(1)]]) (simp add: let_go_def that)
  have test: "\<exists>s'. thread_steps own wol t r s' \<and> let_go own t s'"
    if "sys_pc r t = AtTest" "mtx_lock (sys_lock r) = own t" for r
  proof (cases "mtx_lock_count (sys_lock r) = 0")
    case True
    show ?thesis
      by (rule reach_step [OF test_zero [OF that(1) True] reach_one [OF free]])
        (simp_all add: let_go_def atomic_set_def)
  next
    case False
    show ?thesis
      by (rule reach_one [OF test_more [OF that(1) False]]) (simp add: let_go_def that)
  qed
  have dec: "\<exists>s'. thread_steps own wol t r s' \<and> let_go own t s'"
    if "sys_pc r t = AtDec" "mtx_lock (sys_lock r) = own t" for r
    by (rule reach_step [OF dec_count [OF that(1) refl] test]) (simp_all add: that)
  show ?thesis
  proof (cases "sys_pc s t")
    case AtIdle
    with holds show ?thesis by (auto simp: let_go_def intro: ts_refl)
  next
    case (AtCas c)
    have "lock_step own wol t s (goto t AtInc (put_lock (own t) s))"
      using AtCas holds own by (intro cas_own) (auto simp: atomic_compare_swap_def)
    then show ?thesis by (rule reach_step [OF _ inc]) simp_all
  next
    case AtSet
    show ?thesis by (rule reach_one [OF set_count [OF AtSet]]) (simp add: let_go_def holds)
  next
    case AtInc
    then show ?thesis using holds by (rule inc)
  next
    case AtUnlock
    have "lock_step own wol t s (goto t AtDec s)"
      using AtUnlock holds by (intro unlock_owner) (simp_all add: atomic_get_def)
    then show ?thesis by (rule reach_step [OF _ dec]) (simp_all add: holds)
  next
    case AtDec
    then show ?thesis using holds by (rule dec)
  next
    case AtTest
    then show ?thesis using holds by (rule test)
  next
    case AtFree
    show ?thesis
      by (rule reach_one [OF lock_step.free [OF AtFree]]) (simp add: let_go_def atomic_set_def)
  qed (use ok in auto)
qed

lemma owner_releases:
  assumes ids: "owner_ids own" "waitonlock_swaps wol"
    and inv: "lock_inv own s" and holds: "mtx_lock (sys_lock s) = own t"
  shows "\<exists>s'. thread_steps own wol t s s' \<and> mtx_lock (sys_lock s') = FREE_MUTEX"
proof -
  from owner_to_idle [OF ids(1) inv holds] obtain r where r: "thread_steps own wol t s r" "let_go own t r"
    by blast
  show ?thesis
  proof (cases "mtx_lock (sys_lock r) = FREE_MUTEX")
    case True
    with r(1) show ?thesis by blast
  next
    case False
    with r(2) idle_owner_releases [OF ids thread_steps_inv [OF ids r(1) inv], of t] show ?thesis
      unfolding let_go_def by (blast intro: thread_steps_trans [OF r(1)])
  qed
qed

section \<open>Properties\<close>

text \<open>C1. Mutual exclusion, the nesting count and no data race on it, for any number of threads that
  lock, spin-lock, try-lock and unlock in any interleaving: two threads never hold the lock
  at the same time, a holder's identifier is in the lock, \<open>_lock_count\<close> is the number of its
  nested lock calls whenever the holder is between two calls, and two different threads are never both
  about to access \<open>_lock_count\<close>. (The count is an integer without a bound: 2 ^ 31 nested calls,
  which overflow the \<open>int\<close> of the code, are not modelled.)\<close>

theorem lock_mutual_exclusion:
  assumes "owner_ids own" "waitonlock_swaps wol" "lock_run own wol s"
  shows "(\<forall>t u. sys_held s t > 0 \<and> sys_held s u > 0 \<longrightarrow> t = u) \<and>
    (\<forall>t. sys_held s t > 0 \<longrightarrow> mtx_lock (sys_lock s) = own t) \<and>
    (\<forall>t. sys_held s t > 0 \<and> sys_pc s t = AtIdle \<longrightarrow> mtx_lock_count (sys_lock s) = int (sys_held s t)) \<and>
    (\<forall>t u. sys_pc s t \<in> {AtSet, AtInc, AtDec, AtTest} \<and> sys_pc s u \<in> {AtSet, AtInc, AtDec, AtTest} \<longrightarrow> t = u)"
proof -
  note inv = lock_run_inv [OF assms]
  have own: "mtx_lock (sys_lock s) = own t" if "sys_held s t > 0 \<or> sys_pc s t \<in> {AtSet, AtInc, AtDec, AtTest}" for t
    by (rule ccontr) (use that lock_invD(2) [OF inv, of t] in \<open>auto simp: other_state_def\<close>)
  have eq: "t = u" if "mtx_lock (sys_lock s) = own t" "mtx_lock (sys_lock s) = own u" for t u
    using that assms(1) by (auto simp: owner_ids_def dest: injD)
  have "mtx_lock_count (sys_lock s) = int (sys_held s t)" if "sys_held s t > 0" "sys_pc s t = AtIdle" for t
  proof -
    from that(1) have holds: "mtx_lock (sys_lock s) = own t" by (simp add: own)
    from lock_invD(1) [OF inv holds] that show ?thesis by (simp add: owner_state_def)
  qed
  with own eq show ?thesis by blast
qed

definition two_threads :: "bool \<Rightarrow> 32 word" where
  "two_threads t = (if t then 7 else 8)"

definition kernel_wait :: "32 word \<Rightarrow> 32 word \<Rightarrow> 32 word \<Rightarrow> 32 word \<Rightarrow> bool" where
  "kernel_wait l old new l' \<longleftrightarrow> l = old \<and> l' = new"

lemma two_threads_ok: "owner_ids two_threads" "waitonlock_swaps kernel_wait"
  by (auto simp: owner_ids_def two_threads_def FREE_MUTEX_def waitonlock_swaps_def kernel_wait_def
      intro!: injI split: if_splits)

text \<open>The run in which thread \<open>True\<close> takes the fresh lock.\<close>

definition fresh_sys :: "bool lock_sys" where
  "fresh_sys = \<lparr>sys_lock = \<lparr>mtx_kind = 0, mtx_lock_count = 0, mtx_lock = FREE_MUTEX\<rparr>,
    sys_pc = \<lambda>_. AtIdle, sys_held = \<lambda>_. 0\<rparr>"

definition taken_sys :: "bool lock_sys" where
  "taken_sys = goto True AtIdle (put_held True 1 (put_count 1 (goto True AtSet (put_lock 7
    (goto True (AtCas MutexLock) fresh_sys)))))"

lemma taken_run: "lock_run two_threads kernel_wait taken_sys"
proof -
  let ?a = "goto True (AtCas MutexLock) fresh_sys"
  let ?b = "goto True AtSet (put_lock 7 ?a)"
  have "lock_run two_threads kernel_wait fresh_sys"
    unfolding fresh_sys_def
    by (rule lock_run.init [where x = "\<lparr>mtx_kind = 1, mtx_lock_count = 1, mtx_lock = 0\<rparr>" and attr = None])
      (simp add: pthread_mutex_init_def atomic_set_def PTHREAD_MUTEX_DEFAULT_def)
  moreover have "lock_step two_threads kernel_wait True fresh_sys ?a"
    by (rule lock_step.call) (simp add: fresh_sys_def)
  moreover have "lock_step two_threads kernel_wait True ?a ?b"
    by (rule lock_step.cas_free [of _ _ MutexLock _ FREE_MUTEX])
      (simp_all add: fresh_sys_def atomic_compare_swap_def two_threads_def)
  moreover have "lock_step two_threads kernel_wait True ?b taken_sys"
    using lock_step.set_count [of ?b True two_threads kernel_wait]
    by (simp add: taken_sys_def fresh_sys_def)
  ultimately show ?thesis by (blast intro: lock_run.step)
qed

theorem lock_mutual_exclusion_witness:
  "sys_held taken_sys True = 1 \<and> sys_held taken_sys False = 0 \<and>
   mtx_lock (sys_lock taken_sys) = two_threads True \<and> mtx_lock_count (sys_lock taken_sys) = 1"
proof -
  have held: "sys_held taken_sys True = 1" by (simp add: taken_sys_def)
  from lock_mutual_exclusion [OF two_threads_ok taken_run]
  have "\<forall>t u. sys_held taken_sys t > 0 \<and> sys_held taken_sys u > 0 \<longrightarrow> t = u"
    and "\<forall>t. sys_held taken_sys t > 0 \<longrightarrow> mtx_lock (sys_lock taken_sys) = two_threads t"
    and count: "\<forall>t. sys_held taken_sys t > 0 \<and> sys_pc taken_sys t = AtIdle \<longrightarrow>
      mtx_lock_count (sys_lock taken_sys) = int (sys_held taken_sys t)" by blast+
  moreover have "sys_pc taken_sys True = AtIdle" by (simp add: taken_sys_def)
  with count held have "mtx_lock_count (sys_lock taken_sys) = int 1" by (metis zero_less_one)
  ultimately show ?thesis using held by (metis gr0I zero_less_one of_nat_1)
qed

text \<open>In every reachable state the lock word is free or names a thread; a thread that is in no call and
  whose identifier is in the lock has locked it exactly \<open>_lock_count > 0\<close> times more often
  than it has unlocked it; and that owner, running alone, reaches a state in which the lock is free, so
  threads that wait for it are never stuck behind an owner that cannot unlock.\<close>

lemma lock_owner_can_release:
  assumes "owner_ids own" "waitonlock_swaps wol" "lock_run own wol s" "mtx_lock (sys_lock s) \<noteq> FREE_MUTEX"
  shows "\<exists>t. mtx_lock (sys_lock s) = own t \<and>
    (sys_pc s t = AtIdle \<longrightarrow> 0 < sys_held s t \<and> mtx_lock_count (sys_lock s) = int (sys_held s t)) \<and>
    (\<exists>s'. thread_steps own wol t s s' \<and> mtx_lock (sys_lock s') = FREE_MUTEX)"
proof -
  note inv = lock_run_inv [OF assms(1-3)]
  then obtain t where t: "mtx_lock (sys_lock s) = own t"
    using assms(4) by (auto simp: lock_inv_def)
  with lock_invD(1) [OF inv t] owner_releases [OF assms(1,2) inv t] show ?thesis
    by (auto simp: owner_state_def)
qed

theorem lock_owner_can_release_witness:
  "\<exists>t. mtx_lock (sys_lock taken_sys) = two_threads t \<and>
    (sys_pc taken_sys t = AtIdle \<longrightarrow> 0 < sys_held taken_sys t \<and>
      mtx_lock_count (sys_lock taken_sys) = int (sys_held taken_sys t)) \<and>
    (\<exists>s'. thread_steps two_threads kernel_wait t taken_sys s' \<and> mtx_lock (sys_lock s') = FREE_MUTEX)"
  by (rule lock_owner_can_release [OF two_threads_ok taken_run])
    (simp add: taken_sys_def FREE_MUTEX_def)

text \<open>The mutex is recursive: after \<open>n > 0\<close> try-locks by one owner on a free mutex, the owner keeps it
  until its \<open>n\<close>-th unlock, which frees it; meanwhile every other owner gets \<open>EBUSY\<close> from a
  try-lock and 1 from an unlock, and changes nothing.\<close>

lemma mutex_nested_use:
  assumes "lock_good x" "p \<noteq> FREE_MUTEX" "lock_owner x = None" "k \<le> n" "0 < n"
  defines "y \<equiv> ((\<lambda>s. snd (on_lock (pthread_mutex_unlock p) s)) ^^ k)
    (((\<lambda>s. snd (on_lock (pthread_mutex_trylock p) s)) ^^ n) x)"
  shows "lock_owner y = (if k = n then None else Some p) \<and>
    (\<forall>q. k < n \<and> q \<noteq> FREE_MUTEX \<and> q \<noteq> p \<longrightarrow>
      on_lock (pthread_mutex_trylock q) y = (EBUSY, y) \<and> on_lock (pthread_mutex_unlock q) y = (1, y))"
  using mutex.nested [OF assms(1-5)] unfolding y_def mutex.takes_def mutex.releases_def by simp

theorem mutex_nested_use_witness:
  defines "x \<equiv> \<lparr>mtx_kind = 0, mtx_lock_count = 0, mtx_lock = FREE_MUTEX\<rparr>"
  defines "y \<equiv> ((\<lambda>s. snd (on_lock (pthread_mutex_unlock 7) s)) ^^ 1)
    (((\<lambda>s. snd (on_lock (pthread_mutex_trylock 7) s)) ^^ 2) x)"
  shows "lock_owner y = Some 7 \<and> on_lock (pthread_mutex_trylock 9) y = (EBUSY, y) \<and>
    on_lock (pthread_mutex_unlock 9) y = (1, y)"
proof -
  have "lock_good x" "(7 :: 32 word) \<noteq> FREE_MUTEX" "lock_owner x = None" "(9 :: 32 word) \<noteq> FREE_MUTEX"
    by (simp_all add: x_def lock_good_def lock_owner_def FREE_MUTEX_def)
  with mutex_nested_use [of x 7 1 2] show ?thesis unfolding y_def by simp
qed

text \<open>\<open>pthread_attr_setdetachstate\<close> always fails and never changes the attributes: its guard asks the
  argument to be both detach states at once.\<close>

lemma setdetachstate_never_sets:
  "pthread_attr_setdetachstate attr st = (-1, attr)"
  by (auto simp: pthread_attr_setdetachstate_def split: option.split)

end
