(* ===== verification/Pthread_Cond.thy ===== *)
theory Pthread_Cond
  imports Pthread
begin

text \<open>
  The condition variables of \<open>libupthread/pthread_cond.c\<close>. A condition variable is an
  identifier for the kernel's wait queues, drawn from a global sequence on first use. \<open>get_cond_id\<close>
  is modelled twice: as the function it is when nothing interferes, and as steps, one per atomic
  access, that any number of threads interleave. The kernel's \<open>waitqueue\<close> and
  \<open>waitdequeue\<close> are parameters.
\<close>

section \<open>The operations\<close>

text \<open>The result of \<open>get_cond_id\<close>, the next value of the sequence and the identifier stored.\<close>

definition get_cond_id :: "32 word \<Rightarrow> 32 word \<Rightarrow> 32 word \<times> 32 word \<times> 32 word" where
  "get_cond_id seq cond_id =
     (let i = atomic_get cond_id in
      if i = 0 then
        (let (val, seq) = atomic_add seq 1;
             (prev, cond_id) = atomic_compare_swap cond_id 0 val
         in (if prev = 0 then val else prev, seq, cond_id))
      else (i, seq, cond_id))"

text \<open>The functions take the condition variable's identifier, \<open>None\<close> for a null pointer.\<close>

definition pthread_cond_init :: "32 word \<Rightarrow> 32 word option \<Rightarrow> int \<times> 32 word \<times> 32 word option" where
  "pthread_cond_init seq cond = (case cond of
      None \<Rightarrow> (1, seq, None)
    | Some c \<Rightarrow> (let (val, seq) = atomic_add seq 1 in (0, seq, Some (atomic_set c val))))"

text \<open>
  \<open>waitqueue id mtx abstime\<close> returns the kernel's code and the mutex as the kernel leaves it; \<open>lock\<close> is
  \<open>pthread_mutex_lock\<close> on it. \<open>pthread_cond_wait\<close> passes no time.
\<close>

definition pthread_cond_timedwait ::
    "(32 word \<Rightarrow> pthread_mutex_t \<Rightarrow> 'a option \<Rightarrow> int \<times> pthread_mutex_t) \<Rightarrow> (pthread_mutex_t \<Rightarrow> pthread_mutex_t) \<Rightarrow>
     32 word \<Rightarrow> 32 word option \<Rightarrow> pthread_mutex_t option \<Rightarrow> 'a option \<Rightarrow>
     int \<times> 32 word \<times> 32 word option \<times> pthread_mutex_t option" where
  "pthread_cond_timedwait waitqueue lock seq cond mtx abstime = (case (cond, mtx) of
      (Some c, Some x) \<Rightarrow>
        (let (i, seq, c) = get_cond_id seq c;
             (ret, x) = waitqueue i x abstime
         in (ret, seq, Some c, Some (lock x)))
    | _ \<Rightarrow> (1, seq, cond, mtx))"

definition pthread_cond_wait ::
    "(32 word \<Rightarrow> pthread_mutex_t \<Rightarrow> 'a option \<Rightarrow> int \<times> pthread_mutex_t) \<Rightarrow> (pthread_mutex_t \<Rightarrow> pthread_mutex_t) \<Rightarrow>
     32 word \<Rightarrow> 32 word option \<Rightarrow> pthread_mutex_t option \<Rightarrow>
     int \<times> 32 word \<times> 32 word option \<times> pthread_mutex_t option" where
  "pthread_cond_wait waitqueue lock seq cond mtx = (case (cond, mtx) of
      (Some c, Some x) \<Rightarrow>
        (let (i, seq, c) = get_cond_id seq c;
             (ret, x) = waitqueue i x None
         in (ret, seq, Some c, Some (lock x)))
    | _ \<Rightarrow> (1, seq, cond, mtx))"

text \<open>The calls of \<open>waitdequeue id all\<close> that the wake-ups make are returned as a list.\<close>

definition pthread_cond_signal ::
    "32 word \<Rightarrow> 32 word option \<Rightarrow> int \<times> 32 word \<times> 32 word option \<times> (32 word \<times> bool) list" where
  "pthread_cond_signal seq cond = (case cond of
      None \<Rightarrow> (1, seq, None, [])
    | Some c \<Rightarrow> (let (i, seq, c) = get_cond_id seq c in (0, seq, Some c, [(i, False)])))"

definition pthread_cond_broadcast ::
    "32 word \<Rightarrow> 32 word option \<Rightarrow> int \<times> 32 word \<times> 32 word option \<times> (32 word \<times> bool) list" where
  "pthread_cond_broadcast seq cond = (case cond of
      None \<Rightarrow> (1, seq, None, [])
    | Some c \<Rightarrow> (let (i, seq, c) = get_cond_id seq c in (0, seq, Some c, [(i, True)])))"

definition pthread_cond_destroy :: "32 word option \<Rightarrow> int" where
  "pthread_cond_destroy cond = (case cond of None \<Rightarrow> 1 | Some _ \<Rightarrow> 0)"

section \<open>Threads that ask for identifiers\<close>

datatype 'c cond_pc = CIdle | CGet 'c | CAdd 'c | CCas 'c "32 word" | CDone 'c "32 word"

record ('t, 'c) cond_sys =
  cv_seq :: "32 word"
  cv_id :: "'c \<Rightarrow> 32 word"
  cv_pc :: "'t \<Rightarrow> 'c cond_pc"

definition cv_goto :: "'t \<Rightarrow> 'c cond_pc \<Rightarrow> ('t, 'c) cond_sys \<Rightarrow> ('t, 'c) cond_sys" where
  "cv_goto t c s = s\<lparr>cv_pc := (cv_pc s)(t := c)\<rparr>"

text \<open>
  The runs of threads in \<open>get_cond_id\<close>, with the number of identifiers drawn so far.
\<close>

inductive cond_run :: "nat \<Rightarrow> ('t, 'c) cond_sys \<Rightarrow> bool" where
  cv_init: "cond_run 0 \<lparr>cv_seq = 1, cv_id = \<lambda>_. 0, cv_pc = \<lambda>_. CIdle\<rparr>"
| cv_call: "cond_run n s \<Longrightarrow> cv_pc s t = CIdle \<Longrightarrow> cond_run n (cv_goto t (CGet c) s)"
| cv_get: "cond_run n s \<Longrightarrow> cv_pc s t = CGet c \<Longrightarrow> i = atomic_get (cv_id s c) \<Longrightarrow>
    cond_run n (cv_goto t (if i = 0 then CAdd c else CDone c i) s)"
| cv_add: "cond_run n s \<Longrightarrow> cv_pc s t = CAdd c \<Longrightarrow> atomic_add (cv_seq s) 1 = (val, seq) \<Longrightarrow>
    cond_run (Suc n) (cv_goto t (CCas c val) (s\<lparr>cv_seq := seq\<rparr>))"
| cv_cas: "cond_run n s \<Longrightarrow> cv_pc s t = CCas c val \<Longrightarrow>
    atomic_compare_swap (cv_id s c) 0 val = (prev, i) \<Longrightarrow>
    cond_run n (cv_goto t (CDone c (if prev = 0 then val else prev)) (s\<lparr>cv_id := (cv_id s)(c := i)\<rparr>))"
| cv_return: "cond_run n s \<Longrightarrow> cv_pc s t = CDone c i \<Longrightarrow> cond_run n (cv_goto t CIdle s)"

text \<open>Identifiers drawn, in a thread's hands or stored, are pairwise distinct and at most \<open>n\<close>.\<close>

definition cond_inv :: "nat \<Rightarrow> ('t, 'c) cond_sys \<Rightarrow> bool" where
  "cond_inv n s \<longleftrightarrow> unat (cv_seq s) = Suc n \<and>
     (\<forall>c. unat (cv_id s c) \<le> n) \<and>
     (\<forall>c d. cv_id s c = cv_id s d \<and> cv_id s c \<noteq> 0 \<longrightarrow> c = d) \<and>
     (\<forall>t c v. cv_pc s t = CCas c v \<longrightarrow> v \<noteq> 0 \<and> unat v \<le> n \<and> (\<forall>d. cv_id s d \<noteq> v)) \<and>
     (\<forall>t u c d v. cv_pc s t = CCas c v \<and> cv_pc s u = CCas d v \<longrightarrow> t = u) \<and>
     (\<forall>t c i. cv_pc s t = CDone c i \<longrightarrow> cv_id s c = i \<and> i \<noteq> 0)"

lemma cond_inv_add:
  assumes inv: "cond_inv n s" and n: "Suc n < 2 ^ 32 - 1"
  shows "cond_inv (Suc n) (cv_goto t (CCas c (cv_seq s)) (s\<lparr>cv_seq := cv_seq s + 1\<rparr>))"
proof -
  have seq: "unat (cv_seq s) = Suc n" using inv by (simp add: cond_inv_def)
  then have "unat (cv_seq s + 1) = Suc (Suc n)" using n by (simp add: unat_word_ariths)
  moreover have "cv_id s d \<noteq> cv_seq s" for d
    using inv seq by (metis cond_inv_def not_less_eq_eq order_refl)
  moreover have "v \<noteq> cv_seq s" if "cv_pc s u = CCas d v" for u d v
    using inv seq that by (metis cond_inv_def not_less_eq_eq order_refl)
  moreover have "cv_seq s \<noteq> 0" using seq by auto
  ultimately show ?thesis
    using inv seq by (auto simp: cond_inv_def cv_goto_def le_Suc_eq)
qed

lemma cond_inv_cas:
  assumes inv: "cond_inv n s" and pc: "cv_pc s t = CCas c val"
  shows "cond_inv n (cv_goto t (CDone c (if cv_id s c = 0 then val else cv_id s c))
    (s\<lparr>cv_id := (cv_id s)(c := if cv_id s c = 0 then val else cv_id s c)\<rparr>))"
proof (cases "cv_id s c = 0")
  case True
  have val: "val \<noteq> 0" "unat val \<le> n" "cv_id s d \<noteq> val" for d
    using inv pc unfolding cond_inv_def by blast+
  have mine: "u = t" if "cv_pc s u = CCas d val" for u d
    using inv pc that unfolding cond_inv_def by blast
  have stored: "cv_id s d = i \<and> i \<noteq> 0" if "cv_pc s u = CDone d i" for u d i
    using inv that unfolding cond_inv_def by blast
  show ?thesis
    using inv True val mine stored unfolding cond_inv_def cv_goto_def
    by (auto split: if_splits)
next
  case False
  then show ?thesis using inv by (auto simp: cond_inv_def cv_goto_def split: if_splits)
qed

lemma cond_run_inv: "cond_run n s \<Longrightarrow> n < 2 ^ 32 - 1 \<Longrightarrow> cond_inv n s"
proof (induction rule: cond_run.induct)
  case (cv_add n s t c val seq)
  then show ?case using cond_inv_add [of n s t c] by (auto simp: atomic_add_def)
next
  case (cv_cas n s t c val prev i)
  then show ?case using cond_inv_cas [of n s t c val] by (auto simp: atomic_compare_swap_def)
next
  case (cv_get n s t c i)
  then show ?case by (auto simp: cond_inv_def cv_goto_def atomic_get_def split: if_splits)
qed (auto simp: cond_inv_def cv_goto_def split: if_splits)

section \<open>Properties\<close>

text \<open>C30. While fewer than \<open>2\<close> to the 32 minus 1 identifiers have been drawn, in any interleaving: all threads
  that have come back from \<open>get_cond_id\<close> for one condition variable hold the identifier stored in it, that
  identifier is not 0, and two condition variables never have the same one. A wait and a
  wake-up that race on a variable not yet initialised therefore meet in the same queue.\<close>

theorem cond_ids_agree:
  assumes "cond_run n s" "n < 2 ^ 32 - 1"
  shows "(\<forall>t c i. cv_pc s t = CDone c i \<longrightarrow> i = cv_id s c \<and> i \<noteq> 0) \<and>
    (\<forall>c d. cv_id s c = cv_id s d \<and> cv_id s c \<noteq> 0 \<longrightarrow> c = d)"
  using cond_run_inv [OF assms] unfolding cond_inv_def by metis

text \<open>The run in which thread \<open>True\<close> gets the identifier of the condition variable \<open>False\<close>.\<close>

definition cond_done :: "(bool, bool) cond_sys" where
  "cond_done = \<lparr>cv_seq = 2, cv_id = (\<lambda>_. 0)(False := 1), cv_pc = (\<lambda>_. CIdle)(True := CDone False 1)\<rparr>"

lemma cond_done_run: "cond_run 1 cond_done"
proof -
  let ?s = "\<lambda>q p. \<lparr>cv_seq = q, cv_id = (\<lambda>_ :: bool. 0), cv_pc = (\<lambda>_. CIdle)(True := p)\<rparr>"
  have "cond_run 0 (?s 1 (CGet False))"
    using cv_call [OF cv_init, of True False] by (simp add: cv_goto_def)
  from cv_get [OF this, of True False 0] have "cond_run 0 (?s 1 (CAdd False))"
    by (simp add: cv_goto_def atomic_get_def)
  from cv_add [OF this, of True False 1 2] have "cond_run 1 (?s 2 (CCas False 1))"
    by (simp add: cv_goto_def atomic_add_def)
  from cv_cas [OF this, of True False 1 0 1] show ?thesis
    by (simp add: cv_goto_def atomic_compare_swap_def cond_done_def)
qed

theorem cond_ids_agree_witness:
  "cv_pc cond_done True = CDone False 1 \<and> cv_id cond_done False = 1 \<and> cv_id cond_done True = 0"
proof -
  have "\<exists>n. cond_run n cond_done \<and> n < 2 ^ 32 - 1" using cond_done_run by (intro exI [of _ 1]) simp
  then obtain n where "cond_run n cond_done" "n < 2 ^ 32 - 1" by blast
  note agree = cond_ids_agree [OF this]
  have "cv_pc cond_done True = CDone False 1" by (simp add: cond_done_def)
  moreover from this agree have "cv_id cond_done False = 1" by metis
  ultimately show ?thesis by (simp add: cond_done_def)
qed

end
