(* ===== verification/Stdio_Base.thy ===== *)
theory Stdio_Base
  imports Prelude
begin

text \<open>
  The data of \<open>libc/stdio\<close>: the flags and the \<open>FILE\<close> structure of \<open>bits/uClibc_stdio.h\<close>, the
  macros of \<open>_stdio.h\<close>, and \<open>_stdio_validate_FILE\<close>, the library's own invariant.

  The library is built narrow only, with buffers, with the open list, without the \<open>getc\<close> and
  \<open>putc\<close> macros and without automatic transitions between reading and writing, so of every
  macro the model has the variant of that configuration. \<open>FILE\<close> objects live in a table by their address,
  their buffers in byte memory. The kernel (\<open>read\<close>, \<open>write\<close>, \<open>lseek\<close>, \<open>close\<close>, \<open>open\<close>) and
  \<open>malloc\<close> are the parameter \<open>host\<close>, which acts on a state \<open>world\<close> of a type of its own.
\<close>

section \<open>Flags\<close>

abbreviation (input) FLAG_READING :: "16 word" where "FLAG_READING \<equiv> 0x0001"
abbreviation (input) FLAG_UNGOT :: "16 word" where "FLAG_UNGOT \<equiv> 0x0002"
abbreviation (input) MASK_READING :: "16 word" where "MASK_READING \<equiv> 0x0003"
abbreviation (input) FLAG_EOF :: "16 word" where "FLAG_EOF \<equiv> 0x0004"
abbreviation (input) FLAG_ERROR :: "16 word" where "FLAG_ERROR \<equiv> 0x0008"
abbreviation (input) FLAG_WRITEONLY :: "16 word" where "FLAG_WRITEONLY \<equiv> 0x0010"
abbreviation (input) FLAG_READONLY :: "16 word" where "FLAG_READONLY \<equiv> 0x0020"
abbreviation (input) FLAG_WRITING :: "16 word" where "FLAG_WRITING \<equiv> 0x0040"
abbreviation (input) FLAG_NARROW :: "16 word" where "FLAG_NARROW \<equiv> 0x0080"
abbreviation (input) FLAG_LBF :: "16 word" where "FLAG_LBF \<equiv> 0x0100"
abbreviation (input) FLAG_NBF :: "16 word" where "FLAG_NBF \<equiv> 0x0200"
abbreviation (input) MASK_BUFMODE :: "16 word" where "MASK_BUFMODE \<equiv> 0x0300"
abbreviation (input) FLAG_APPEND :: "16 word" where "FLAG_APPEND \<equiv> 0x0400"
abbreviation (input) FLAG_WIDE :: "16 word" where "FLAG_WIDE \<equiv> 0x0800"
abbreviation (input) FLAG_FREEFILE :: "16 word" where "FLAG_FREEFILE \<equiv> 0x2000"
abbreviation (input) FLAG_FREEBUF :: "16 word" where "FLAG_FREEBUF \<equiv> 0x4000"

text \<open>\<open>flags & mask\<close> as a condition.\<close>

definition any_of :: "16 word \<Rightarrow> 16 word \<Rightarrow> bool" where
  "any_of flags fl \<longleftrightarrow> flags AND fl \<noteq> 0"

abbreviation (input) EOF :: int where "EOF \<equiv> - 1"
abbreviation (input) EBADF :: int where "EBADF \<equiv> 9"
abbreviation (input) EINVAL :: int where "EINVAL \<equiv> 22"
abbreviation (input) EOVERFLOW :: int where "EOVERFLOW \<equiv> 75"
abbreviation (input) SSIZE_MAX :: nat where "SSIZE_MAX \<equiv> 0x7FFFFFFFFFFFFFFF"
abbreviation (input) SIZE_MAX :: nat where "SIZE_MAX \<equiv> 0xFFFFFFFFFFFFFFFF"
abbreviation (input) BUFSIZ :: nat where "BUFSIZ \<equiv> 1024"
abbreviation (input) newline :: byte where "newline \<equiv> 10"

section \<open>Streams\<close>

record FILE =
  modeflags :: "16 word"
  ungot :: "nat \<Rightarrow> byte"
  filedes :: int
  bufstart :: addr
  bufend :: addr
  bufpos :: addr
  bufread :: addr
  nextopen :: addr
  user_locking :: int
  builtinbuf :: addr

text \<open>
  The system calls: the result of \<open>read\<close> is the bytes read and that of \<open>write\<close> their number,
  \<open>None\<close> when the call returns a negative value.
\<close>

record 'w host =
  sys_read :: "'w \<Rightarrow> int \<Rightarrow> nat \<Rightarrow> byte list option \<times> 'w"
  sys_write :: "'w \<Rightarrow> int \<Rightarrow> byte list \<Rightarrow> nat option \<times> 'w"
  sys_lseek :: "'w \<Rightarrow> int \<Rightarrow> int \<Rightarrow> int \<Rightarrow> int \<times> 'w"
  sys_close :: "'w \<Rightarrow> int \<Rightarrow> int \<times> 'w"

text \<open>
  The state of the library. \<open>local_uc\<close> is the address of the automatic variable \<open>uc\<close>
  through which unbuffered streams read and write.
\<close>

record 'w stdio =
  memory :: mem
  files :: "addr \<Rightarrow> FILE option"
  stdio_openlist :: addr
  errno :: int
  local_uc :: addr
  stdio_user_locking :: int
  world :: 'w

definition put :: "'w stdio \<Rightarrow> addr \<Rightarrow> FILE \<Rightarrow> 'w stdio" where
  "put \<sigma> f S = \<sigma>\<lparr>files := (files \<sigma>)(f \<mapsto> S)\<rparr>"

section \<open>The macros of _stdio.h\<close>

definition STREAM_IS_READING :: "FILE \<Rightarrow> bool" where "STREAM_IS_READING S = any_of (modeflags S) MASK_READING"
definition STREAM_IS_WRITING :: "FILE \<Rightarrow> bool" where "STREAM_IS_WRITING S = any_of (modeflags S) FLAG_WRITING"
definition STREAM_IS_READONLY :: "FILE \<Rightarrow> bool" where "STREAM_IS_READONLY S = any_of (modeflags S) FLAG_READONLY"
definition STREAM_IS_WRITEONLY :: "FILE \<Rightarrow> bool" where "STREAM_IS_WRITEONLY S = any_of (modeflags S) FLAG_WRITEONLY"
definition STREAM_IS_LBF :: "FILE \<Rightarrow> bool" where "STREAM_IS_LBF S = any_of (modeflags S) FLAG_LBF"
definition STREAM_IS_NBF :: "FILE \<Rightarrow> bool" where "STREAM_IS_NBF S = any_of (modeflags S) FLAG_NBF"
definition STREAM_IS_FBF :: "FILE \<Rightarrow> bool" where "STREAM_IS_FBF S = (\<not> any_of (modeflags S) MASK_BUFMODE)"
definition FEOF_UNLOCKED :: "FILE \<Rightarrow> bool" where "FEOF_UNLOCKED S = any_of (modeflags S) FLAG_EOF"
definition FERROR_UNLOCKED :: "FILE \<Rightarrow> bool" where "FERROR_UNLOCKED S = any_of (modeflags S) FLAG_ERROR"
definition STREAM_HAS_UNGOT :: "FILE \<Rightarrow> bool" where "STREAM_HAS_UNGOT S = any_of (modeflags S) FLAG_UNGOT"

definition set_flag :: "16 word \<Rightarrow> FILE \<Rightarrow> FILE" where
  "set_flag fl S = S\<lparr>modeflags := modeflags S OR fl\<rparr>"

definition clear_flag :: "16 word \<Rightarrow> FILE \<Rightarrow> FILE" where
  "clear_flag fl S = S\<lparr>modeflags := modeflags S AND NOT fl\<rparr>"

definition INIT_BUFREAD_BUFPOS :: "FILE \<Rightarrow> FILE" where
  "INIT_BUFREAD_BUFPOS S = S\<lparr>bufpos := bufstart S, bufread := bufstart S\<rparr>"

text \<open>Differences of pointers are signed.\<close>

definition BUFFER_SIZE :: "FILE \<Rightarrow> int" where "BUFFER_SIZE S = int (bufend S) - int (bufstart S)"
definition BUFFER_WAVAIL :: "FILE \<Rightarrow> int" where "BUFFER_WAVAIL S = int (bufend S) - int (bufpos S)"
definition BUFFER_WUSED :: "FILE \<Rightarrow> int" where "BUFFER_WUSED S = int (bufpos S) - int (bufstart S)"
definition BUFFER_RAVAIL :: "FILE \<Rightarrow> int" where "BUFFER_RAVAIL S = int (bufread S) - int (bufpos S)"

definition size_t :: "int \<Rightarrow> nat" where
  "size_t i = nat (i mod 2 ^ 64)"

text \<open>The pseudo descriptor of the streams that \<open>vsnprintf\<close> and \<open>vsscanf\<close> build on a string.\<close>

definition IS_FAKE :: "FILE \<Rightarrow> bool" where
  "IS_FAKE S \<longleftrightarrow> filedes S = - 2"

definition IS_STD_STREAM :: "FILE \<Rightarrow> bool" where
  "IS_STD_STREAM S \<longleftrightarrow> filedes S = 0 \<or> filedes S = 1 \<or> filedes S = 2"

text \<open>\<open>*__bufpos++ = c\<close> and \<open>*__bufpos++\<close>.\<close>

definition BUFFER_ADD :: "'w stdio \<Rightarrow> addr \<Rightarrow> byte \<Rightarrow> 'w stdio option" where
  "BUFFER_ADD \<sigma> f c = do {
     S \<leftarrow> files \<sigma> f;
     m \<leftarrow> store (memory \<sigma>) (bufpos S) c;
     Some (put (\<sigma>\<lparr>memory := m\<rparr>) f (S\<lparr>bufpos := bufpos S + 1\<rparr>)) }"

definition BUFFER_UNADD :: "FILE \<Rightarrow> FILE" where
  "BUFFER_UNADD S = S\<lparr>bufpos := bufpos S - 1\<rparr>"

definition BUFFER_GET :: "'w stdio \<Rightarrow> addr \<Rightarrow> (byte \<times> 'w stdio) option" where
  "BUFFER_GET \<sigma> f = do {
     S \<leftarrow> files \<sigma> f;
     c \<leftarrow> memory \<sigma> (bufpos S);
     Some (c, put \<sigma> f (S\<lparr>bufpos := bufpos S + 1\<rparr>)) }"

section \<open>Blocks of bytes\<close>

text \<open>A block handed to or filled by a system call, and \<open>memcpy\<close>.\<close>

fun load_bytes :: "mem \<Rightarrow> addr \<Rightarrow> nat \<Rightarrow> byte list option" where
  "load_bytes m p 0 = Some []"
| "load_bytes m p (Suc n) = do { b \<leftarrow> m p; bs \<leftarrow> load_bytes m (p + 1) n; Some (b # bs) }"

fun store_bytes :: "mem \<Rightarrow> addr \<Rightarrow> byte list \<Rightarrow> mem option" where
  "store_bytes m p [] = Some m"
| "store_bytes m p (b # bs) = do { m \<leftarrow> store m p b; store_bytes m (p + 1) bs }"

definition memcpy :: "mem \<Rightarrow> addr \<Rightarrow> addr \<Rightarrow> nat \<Rightarrow> mem option" where
  "memcpy m d s n = do { bs \<leftarrow> load_bytes m s n; store_bytes m d bs }"

lemma load_bytes_at: "bytes_at m p bs \<Longrightarrow> load_bytes m p (length bs) = Some bs"
  by (induction bs arbitrary: p) simp_all

lemma load_bytes_at' [mem_simps]: "bytes_at m p bs \<Longrightarrow> n = length bs \<Longrightarrow> load_bytes m p n = Some bs"
  by (simp add: load_bytes_at)

lemma store_bytes_mapped [mem_simps]: "mapped m p (length bs) \<Longrightarrow> store_bytes m p bs = Some (write_bytes m p bs)"
proof (induction bs arbitrary: m p)
  case (Cons b bs)
  then obtain v where "m p = Some v" by (auto simp: mapped_Suc)
  then show ?case using Cons by (simp add: store_mapped mapped_Suc)
qed simp

lemma memcpy_block [mem_simps]:
  "bytes_at m s bs \<Longrightarrow> n = length bs \<Longrightarrow> mapped m d n \<Longrightarrow> memcpy m d s n = Some (write_bytes m d bs)"
  by (simp add: memcpy_def mem_simps)

section \<open>Bits of the flags\<close>

named_theorems flag_simps \<open>tests of flags as bits\<close>

lemma any_of_bit: "any_of m (2 ^ n) \<longleftrightarrow> bit m n"
  by (simp add: any_of_def and_exp_eq_0_iff_not_bit)

lemma any_of_or: "any_of m (x OR y) \<longleftrightarrow> any_of m x \<or> any_of m y"
  by (simp add: any_of_def bit.conj_disj_distrib or_eq_0_iff)

lemma any_of_flags [flag_simps]:
  "any_of m FLAG_READING = bit m 0"
  "any_of m FLAG_UNGOT = bit m 1"
  "any_of m FLAG_EOF = bit m 2"
  "any_of m FLAG_ERROR = bit m 3"
  "any_of m FLAG_WRITEONLY = bit m 4"
  "any_of m FLAG_READONLY = bit m 5"
  "any_of m FLAG_WRITING = bit m 6"
  "any_of m FLAG_NARROW = bit m 7"
  "any_of m FLAG_LBF = bit m 8"
  "any_of m FLAG_NBF = bit m 9"
  "any_of m FLAG_APPEND = bit m 10"
  "any_of m FLAG_WIDE = bit m 11"
  "any_of m FLAG_FREEFILE = bit m 13"
  "any_of m FLAG_FREEBUF = bit m 14"
  using any_of_bit [of m 0] any_of_bit [of m 1] any_of_bit [of m 2] any_of_bit [of m 3] any_of_bit [of m 4]
    any_of_bit [of m 5] any_of_bit [of m 6] any_of_bit [of m 7] any_of_bit [of m 8] any_of_bit [of m 9]
    any_of_bit [of m 10] any_of_bit [of m 11] any_of_bit [of m 13] any_of_bit [of m 14]
  by simp_all

lemma any_of_masks [flag_simps]:
  "any_of m MASK_READING \<longleftrightarrow> bit m 0 \<or> bit m 1"
  "any_of m MASK_BUFMODE \<longleftrightarrow> bit m 8 \<or> bit m 9"
  using any_of_or [of m FLAG_READING FLAG_UNGOT] any_of_or [of m FLAG_LBF FLAG_NBF]
  by (simp_all add: any_of_flags [simplified])

lemma macro_bits [flag_simps]:
  "STREAM_IS_READING S \<longleftrightarrow> bit (modeflags S) 0 \<or> bit (modeflags S) 1"
  "STREAM_IS_WRITING S = bit (modeflags S) 6"
  "STREAM_IS_READONLY S = bit (modeflags S) 5"
  "STREAM_IS_WRITEONLY S = bit (modeflags S) 4"
  "STREAM_IS_LBF S = bit (modeflags S) 8"
  "STREAM_IS_NBF S = bit (modeflags S) 9"
  "STREAM_IS_FBF S \<longleftrightarrow> \<not> bit (modeflags S) 8 \<and> \<not> bit (modeflags S) 9"
  "FEOF_UNLOCKED S = bit (modeflags S) 2"
  "FERROR_UNLOCKED S = bit (modeflags S) 3"
  "STREAM_HAS_UNGOT S = bit (modeflags S) 1"
  unfolding STREAM_IS_READING_def STREAM_IS_WRITING_def STREAM_IS_READONLY_def STREAM_IS_WRITEONLY_def
    STREAM_IS_LBF_def STREAM_IS_NBF_def STREAM_IS_FBF_def FEOF_UNLOCKED_def FERROR_UNLOCKED_def STREAM_HAS_UNGOT_def
  by (simp_all only: flag_simps de_Morgan_disj)

text \<open>\<open>modeflags--\<close> takes a pushed back character away, \<open>++modeflags\<close> adds one.\<close>

lemma bit_consts:
  "bit (1 :: 16 word) n \<longleftrightarrow> n = 0"
  "bit (2 :: 16 word) n \<longleftrightarrow> n = 1"
  "bit (4 :: 16 word) n \<longleftrightarrow> n = 2"
  "bit (0x100 :: 16 word) n \<longleftrightarrow> n = 8"
  "bit (0x200 :: 16 word) n \<longleftrightarrow> n = 9"
  "bit (0x300 :: 16 word) n \<longleftrightarrow> n = 8 \<or> n = 9"
proof -
  have p: "bit (2 ^ k :: 16 word) n \<longleftrightarrow> n = k" if "k < 16" for k
    using that by (auto simp: bit_exp_iff)
  show "bit (1 :: 16 word) n \<longleftrightarrow> n = 0" "bit (2 :: 16 word) n \<longleftrightarrow> n = 1"
    "bit (4 :: 16 word) n \<longleftrightarrow> n = 2"
    "bit (0x100 :: 16 word) n \<longleftrightarrow> n = 8" "bit (0x200 :: 16 word) n \<longleftrightarrow> n = 9"
    using p [of 0] p [of 1] p [of 2] p [of 8] p [of 9] by simp_all
  moreover have "(0x300 :: 16 word) = 0x100 OR 0x200" by simp
  ultimately show "bit (0x300 :: 16 word) n \<longleftrightarrow> n = 8 \<or> n = 9" by (metis bit_or_iff)
qed

lemmas bit_ops16 = bit_or_iff bit_and_iff bit_not_iff bit_consts

lemma set_bit_plus:
  assumes "\<not> bit (m :: 16 word) n"
  shows "m + 2 ^ n = Bit_Operations.set_bit n m"
proof -
  have "m + 2 ^ n = m OR 2 ^ n"
    using assms by (intro disjunctive_add_eq_or) (simp add: and_exp_eq_0_iff_not_bit)
  also have "\<dots> = Bit_Operations.set_bit n m"
    by (intro bit_word_eqI) (auto simp: bit_or_iff bit_exp_iff bit_set_bit_iff)
  finally show ?thesis .
qed

lemma unset_bit_plus:
  assumes "bit (m :: 16 word) n"
  shows "unset_bit n m + 2 ^ n = m"
proof -
  have "unset_bit n m + 2 ^ n = Bit_Operations.set_bit n (unset_bit n m)"
    by (rule set_bit_plus) (simp add: bit_unset_bit_iff)
  also have "\<dots> = m"
    using assms by (intro bit_word_eqI) (auto simp: bit_set_bit_iff bit_unset_bit_iff)
  finally show ?thesis .
qed

lemma flags_dec:
  assumes "bit (m :: 16 word) 1"
  shows "m - 1 = (if bit m 0 then unset_bit 0 m else Bit_Operations.set_bit 0 (unset_bit 1 m))"
proof (cases "bit m 0")
  case True
  then show ?thesis using unset_bit_plus [OF True] by (simp add: diff_eq_eq)
next
  case False
  have "m - 1 = unset_bit 1 m + 2 ^ 0" using unset_bit_plus [OF assms] by (simp add: algebra_simps)
  also have "\<dots> = Bit_Operations.set_bit 0 (unset_bit 1 m)"
    using False by (intro set_bit_plus) (simp add: bit_unset_bit_iff)
  finally show ?thesis using False by simp
qed

lemma flags_inc:
  assumes "\<not> (bit (m :: 16 word) 0 \<and> bit m 1)"
  shows "m + 1 = (if bit m 0 then Bit_Operations.set_bit 1 (unset_bit 0 m) else Bit_Operations.set_bit 0 m)"
proof (cases "bit m 0")
  case True
  have "m + 1 = unset_bit 0 m + 2 ^ 1" using unset_bit_plus [OF True] by (simp add: algebra_simps)
  also have "\<dots> = Bit_Operations.set_bit 1 (unset_bit 0 m)"
    using True assms by (intro set_bit_plus) (simp add: bit_unset_bit_iff)
  finally show ?thesis using True by simp
next
  case False
  then show ?thesis using set_bit_plus [OF False] by simp
qed

section \<open>Components of an updated stream\<close>

lemma size_t_nat: "0 \<le> i \<Longrightarrow> i < 2 ^ 64 \<Longrightarrow> size_t i = nat i"
  by (simp add: size_t_def)

lemma put_simps [simp]:
  "files (put \<sigma> f S) = (files \<sigma>)(f \<mapsto> S)" "memory (put \<sigma> f S) = memory \<sigma>" "world (put \<sigma> f S) = world \<sigma>"
  "local_uc (put \<sigma> f S) = local_uc \<sigma>" "stdio_openlist (put \<sigma> f S) = stdio_openlist \<sigma>" "errno (put \<sigma> f S) = errno \<sigma>"
  "stdio_user_locking (put \<sigma> f S) = stdio_user_locking \<sigma>"
  by (simp_all add: put_def)

lemma put_put [simp]: "put (put \<sigma> f S) f S' = put \<sigma> f S'"
  by (simp add: put_def)

lemma set_flag_simps [simp]:
  "modeflags (set_flag fl S) = modeflags S OR fl" "ungot (set_flag fl S) = ungot S" "filedes (set_flag fl S) = filedes S"
  "bufstart (set_flag fl S) = bufstart S" "bufend (set_flag fl S) = bufend S" "bufpos (set_flag fl S) = bufpos S"
  "bufread (set_flag fl S) = bufread S" "nextopen (set_flag fl S) = nextopen S" "user_locking (set_flag fl S) = user_locking S"
  "builtinbuf (set_flag fl S) = builtinbuf S"
  by (simp_all add: set_flag_def)

lemma clear_flag_simps [simp]:
  "modeflags (clear_flag fl S) = modeflags S AND NOT fl" "ungot (clear_flag fl S) = ungot S" "filedes (clear_flag fl S) = filedes S"
  "bufstart (clear_flag fl S) = bufstart S" "bufend (clear_flag fl S) = bufend S" "bufpos (clear_flag fl S) = bufpos S"
  "bufread (clear_flag fl S) = bufread S" "nextopen (clear_flag fl S) = nextopen S" "user_locking (clear_flag fl S) = user_locking S"
  "builtinbuf (clear_flag fl S) = builtinbuf S"
  by (simp_all add: clear_flag_def)

section \<open>The invariant of a stream\<close>

text \<open>The conjunction of the assertions of \<open>_stdio_validate_FILE\<close>.\<close>

definition stdio_validate_FILE :: "FILE \<Rightarrow> bool" where
  "stdio_validate_FILE S \<longleftrightarrow>
     0 \<le> user_locking S \<and> user_locking S \<le> 2 \<and>
     - 3 \<le> filedes S \<and> filedes S \<noteq> - 3 \<and>
     (any_of (modeflags S) FLAG_READONLY \<and> any_of (modeflags S) FLAG_WRITEONLY \<longrightarrow>
        modeflags S = FLAG_READONLY OR FLAG_WRITEONLY \<and> filedes S = - 1 \<and>
        bufpos S = bufstart S \<and> bufread S = bufstart S) \<and>
     (STREAM_IS_READONLY S \<longrightarrow> \<not> STREAM_IS_WRITING S \<and>
        (STREAM_HAS_UNGOT S \<longrightarrow> ungot S 1 \<le> 1 \<and> \<not> FEOF_UNLOCKED S)) \<and>
     (STREAM_IS_WRITEONLY S \<longrightarrow> \<not> STREAM_IS_READING S \<and> \<not> STREAM_HAS_UNGOT S) \<and>
     (STREAM_IS_NBF S \<longrightarrow> BUFFER_SIZE S = 0) \<and>
     modeflags S AND MASK_BUFMODE \<le> FLAG_NBF \<and>
     bufstart S \<le> bufpos S \<and> bufpos S \<le> bufend S \<and> bufstart S \<le> bufread S \<and> bufread S \<le> bufend S \<and>
     (FEOF_UNLOCKED S \<longrightarrow> bufpos S = bufread S \<and> \<not> STREAM_HAS_UNGOT S) \<and>
     (\<not> STREAM_IS_READING S \<longrightarrow> \<not> STREAM_HAS_UNGOT S \<and> bufread S = bufstart S) \<and>
     (STREAM_IS_READING S \<longrightarrow> \<not> STREAM_IS_WRITING S \<and> bufpos S \<le> bufread S) \<and>
     (STREAM_IS_WRITING S \<longrightarrow> \<not> STREAM_IS_READING S)"

text \<open>The buffering mode is one of three.\<close>

lemma bufmode_le: "(m :: 16 word) AND MASK_BUFMODE \<le> FLAG_NBF \<longleftrightarrow> \<not> (bit m 8 \<and> bit m 9)"
proof -
  have "m AND MASK_BUFMODE = (if bit m 8 then FLAG_LBF else 0) OR (if bit m 9 then FLAG_NBF else 0)"
    by (intro bit_word_eqI) (auto simp: bit_ops16 simp del: bit_numeral_word_iff)
  then show ?thesis by simp
qed

end
