(* ===== verification/Stdio_Out.thy ===== *)
theory Stdio_Out
  imports Stdio_Base Str_Basic
begin

text \<open>
  Writing streams: \<open>__stdio_WRITE\<close>, \<open>__stdio_wcommit\<close>, \<open>__stdio_trans2w\<close>, \<open>fputc\<close>,
  \<open>__stdio_fwrite\<close>, \<open>fwrite\<close>, \<open>fputs\<close>, \<open>puts\<close> and \<open>fflush\<close>. The abstraction of a writing
  stream is the sequence of bytes the device has received followed by the bytes in the buffer, and
  every operation appends to it what it reports as written. The functions are those that run with the
  stream's lock held.
\<close>

section \<open>The code\<close>

text \<open>
  The copy of unwritten data into the buffer after an error:
  \<open>do { if (((*s = *buf) == '\n') && LBF) break; ++s; ++buf; } while (--stodo);\<close>
\<close>

fun save_unwritten :: "mem \<Rightarrow> bool \<Rightarrow> addr \<Rightarrow> addr \<Rightarrow> nat \<Rightarrow> (mem \<times> addr) option" where
  "save_unwritten m lbf s buf 0 = None"
| "save_unwritten m lbf s buf (Suc stodo) = do {
     c \<leftarrow> m buf;
     m \<leftarrow> store m s c;
     if c = newline \<and> lbf then Some (m, s)
     else if stodo = 0 then Some (m, s + 1)
     else save_unwritten m lbf (s + 1) (buf + 1) stodo }"

text \<open>\<open>do { \<dots> } while (1);\<close> of \<open>__stdio_WRITE\<close>; the result is \<open>todo\<close>.\<close>

partial_function (option) stdio_WRITE_loop ::
    "'w host \<Rightarrow> 'w stdio \<Rightarrow> addr \<Rightarrow> addr \<Rightarrow> nat \<Rightarrow> (nat \<times> 'w stdio) option" where
  "stdio_WRITE_loop h \<sigma> f buf todo =
     (if todo = 0 then Some (0, \<sigma>)
      else do {
        S \<leftarrow> files \<sigma> f;
        data \<leftarrow> load_bytes (memory \<sigma>) buf (min todo SSIZE_MAX);
        let (rv, w) = sys_write h (world \<sigma>) (filedes S) data;
        let \<sigma> = \<sigma>\<lparr>world := w\<rparr>;
        case rv of
          Some n \<Rightarrow> stdio_WRITE_loop h \<sigma> f (buf + n) (todo - n)
        | None \<Rightarrow>
            (let S = set_flag FLAG_ERROR S in
             if BUFFER_SIZE S \<noteq> 0 then do {
               (m, s) \<leftarrow> save_unwritten (memory \<sigma>) (STREAM_IS_LBF S) (bufstart S) buf
                 (min (size_t (BUFFER_SIZE S)) todo);
               Some (todo - (s - bufstart S), put (\<sigma>\<lparr>memory := m\<rparr>) f (S\<lparr>bufpos := s\<rparr>)) }
             else Some (todo, put \<sigma> f S)) })"

definition stdio_WRITE :: "'w host \<Rightarrow> 'w stdio \<Rightarrow> addr \<Rightarrow> addr \<Rightarrow> nat \<Rightarrow> (nat \<times> 'w stdio) option" where
  "stdio_WRITE h \<sigma> f buf bufsize =
     do { (todo, \<sigma>) \<leftarrow> stdio_WRITE_loop h \<sigma> f buf bufsize; Some (bufsize - todo, \<sigma>) }"

definition stdio_wcommit :: "'w host \<Rightarrow> 'w stdio \<Rightarrow> addr \<Rightarrow> (nat \<times> 'w stdio) option" where
  "stdio_wcommit h \<sigma> f = do {
     S \<leftarrow> files \<sigma> f;
     \<sigma> \<leftarrow> (if BUFFER_WUSED S \<noteq> 0
           then do {
             (_, \<sigma>) \<leftarrow> stdio_WRITE h (put \<sigma> f (S\<lparr>bufpos := bufstart S\<rparr>)) f (bufstart S) (size_t (BUFFER_WUSED S));
             Some \<sigma> }
           else Some \<sigma>);
     S \<leftarrow> files \<sigma> f;
     Some (size_t (BUFFER_WUSED S), \<sigma>) }"

definition stdio_trans2w :: "'w stdio \<Rightarrow> addr \<Rightarrow> (int \<times> 'w stdio) option" where
  "stdio_trans2w \<sigma> f = do {
     S \<leftarrow> files \<sigma> f;
     let do_ebadf = (EOF, put (\<sigma>\<lparr>errno := EBADF\<rparr>) f (set_flag FLAG_ERROR S));
     if STREAM_IS_READONLY S then Some do_ebadf
     else if STREAM_IS_READING S \<and> \<not> FEOF_UNLOCKED S then Some do_ebadf
     else (let S = (if STREAM_IS_READING S then INIT_BUFREAD_BUFPOS (clear_flag MASK_READING S) else S)
       in Some (0, put \<sigma> f (set_flag FLAG_WRITING S))) }"

text \<open>The transition that the writing functions begin with; the result is whether the stream writes.\<close>

definition ready_to_write :: "'w stdio \<Rightarrow> addr \<Rightarrow> (bool \<times> 'w stdio) option" where
  "ready_to_write \<sigma> f = do {
     S \<leftarrow> files \<sigma> f;
     if STREAM_IS_WRITING S then Some (True, \<sigma>)
     else do { (r, \<sigma>) \<leftarrow> stdio_trans2w \<sigma> f; Some (r = 0, \<sigma>) } }"

definition fputc_unlocked :: "'w host \<Rightarrow> 'w stdio \<Rightarrow> int \<Rightarrow> addr \<Rightarrow> (int \<times> 'w stdio) option" where
  "fputc_unlocked h \<sigma> c f = do {
     let uc = (word_of_int c :: byte);
     (ok, \<sigma>) \<leftarrow> ready_to_write \<sigma> f;
     if \<not> ok then Some (EOF, \<sigma>)
     else do {
       S \<leftarrow> files \<sigma> f;
       if IS_FAKE S then Some (uint uc, \<sigma>)
       else if BUFFER_SIZE S \<noteq> 0 then do {
         (pending, \<sigma>) \<leftarrow> (if BUFFER_WAVAIL S = 0 then stdio_wcommit h \<sigma> f else Some (0, \<sigma>));
         if pending \<noteq> 0 then Some (EOF, \<sigma>)
         else do {
           \<sigma> \<leftarrow> BUFFER_ADD \<sigma> f uc;
           S \<leftarrow> files \<sigma> f;
           if IS_STD_STREAM S \<or> STREAM_IS_LBF S \<and> uc = newline then do {
             (pending, \<sigma>) \<leftarrow> stdio_wcommit h \<sigma> f;
             if pending \<noteq> 0 then do {
               S \<leftarrow> files \<sigma> f;
               Some (EOF, put \<sigma> f (BUFFER_UNADD S)) }
             else Some (uint uc, \<sigma>) }
           else Some (uint uc, \<sigma>) } }
       else do {
         m \<leftarrow> store (memory \<sigma>) (local_uc \<sigma>) uc;
         (n, \<sigma>) \<leftarrow> stdio_WRITE h (\<sigma>\<lparr>memory := m\<rparr>) f (local_uc \<sigma>) 1;
         Some (if n = 0 then EOF else uint uc, \<sigma>) } } }"

text \<open>
  \<open>memrchr(buffer, '\n', bytes)\<close> and \<open>memchr(buffer, '\n', pending)\<close>: the offset of the newline.
\<close>

definition find_newline :: "mem \<Rightarrow> addr \<Rightarrow> nat \<Rightarrow> nat option option" where
  "find_newline m p n = do {
     bs \<leftarrow> load_bytes m p n;
     Some (if newline \<in> set bs then Some (length (takeWhile (\<lambda>c. c \<noteq> newline) bs)) else None) }"

text \<open>After a commit that leaves data in the buffer, the bytes from the first newline among them on are given up.\<close>

definition fwrite_commit :: "'w host \<Rightarrow> 'w stdio \<Rightarrow> addr \<Rightarrow> nat \<Rightarrow> addr \<Rightarrow> (nat \<times> 'w stdio) option" where
  "fwrite_commit h \<sigma> buffer bytes f = do {
     (pending, \<sigma>) \<leftarrow> stdio_wcommit h \<sigma> f;
     if pending > 0 then do {
       let pending = min pending bytes;
       p \<leftarrow> find_newline (memory \<sigma>) (buffer + (bytes - pending)) pending;
       case p of
         None \<Rightarrow> Some (bytes, \<sigma>)
       | Some i \<Rightarrow> do {
           S \<leftarrow> files \<sigma> f;
           let pending = pending - i;
           Some (bytes - pending, put \<sigma> f (S\<lparr>bufpos := bufpos S - pending\<rparr>)) } }
     else Some (bytes, \<sigma>) }"

text \<open>\<open>if (bytes <= WAVAIL)\<close>: the data fit the buffer.\<close>

definition fwrite_buffer :: "'w host \<Rightarrow> 'w stdio \<Rightarrow> addr \<Rightarrow> nat \<Rightarrow> addr \<Rightarrow> (nat \<times> 'w stdio) option" where
  "fwrite_buffer h \<sigma> buffer bytes f = do {
     S \<leftarrow> files \<sigma> f;
     m \<leftarrow> memcpy (memory \<sigma>) (bufpos S) buffer bytes;
     let S = S\<lparr>bufpos := bufpos S + bytes\<rparr>;
     let \<sigma> = put (\<sigma>\<lparr>memory := m\<rparr>) f S;
     commit \<leftarrow> (if IS_STD_STREAM S then Some True
               else if STREAM_IS_LBF S then map_option (\<lambda>p. p \<noteq> None) (find_newline m buffer bytes)
               else Some False);
     if commit then fwrite_commit h \<sigma> buffer bytes f else Some (bytes, \<sigma>) }"

definition stdio_fwrite :: "'w host \<Rightarrow> 'w stdio \<Rightarrow> addr \<Rightarrow> nat \<Rightarrow> addr \<Rightarrow> (nat \<times> 'w stdio) option" where
  "stdio_fwrite h \<sigma> buffer bytes f = do {
     S \<leftarrow> files \<sigma> f;
     if \<not> STREAM_IS_NBF S \<and> IS_FAKE S then do {
       let pending = min (size_t (BUFFER_WAVAIL S)) bytes;
       m \<leftarrow> memcpy (memory \<sigma>) (bufpos S) buffer pending;
       Some (bytes, put (\<sigma>\<lparr>memory := m\<rparr>) f (S\<lparr>bufpos := bufpos S + pending\<rparr>)) }
     else if \<not> STREAM_IS_NBF S \<and> bytes \<le> size_t (BUFFER_WAVAIL S) then fwrite_buffer h \<sigma> buffer bytes f
     else do {
       (pending, \<sigma>) \<leftarrow> (if \<not> STREAM_IS_NBF S \<and> BUFFER_WUSED S \<noteq> 0 then stdio_wcommit h \<sigma> f else Some (0, \<sigma>));
       if pending \<noteq> 0 then Some (0, \<sigma>)
       else stdio_WRITE h \<sigma> f buffer bytes } }"

definition fwrite_unlocked ::
    "'w host \<Rightarrow> 'w stdio \<Rightarrow> addr \<Rightarrow> nat \<Rightarrow> nat \<Rightarrow> addr \<Rightarrow> (nat \<times> 'w stdio) option" where
  "fwrite_unlocked h \<sigma> ptr sz nmemb f = do {
     (ok, \<sigma>) \<leftarrow> ready_to_write \<sigma> f;
     if ok \<and> sz \<noteq> 0 \<and> nmemb \<noteq> 0 then
       if nmemb \<le> SIZE_MAX div sz then do {
         (n, \<sigma>) \<leftarrow> stdio_fwrite h \<sigma> ptr (sz * nmemb) f;
         Some (n div sz, \<sigma>) }
       else do {
         S \<leftarrow> files \<sigma> f;
         Some (0, put (\<sigma>\<lparr>errno := EINVAL\<rparr>) f (set_flag FLAG_ERROR S)) }
     else Some (0, \<sigma>) }"

text \<open>A \<open>size_t\<close> returned as an \<open>int\<close>.\<close>

definition size_int :: "nat \<Rightarrow> int" where
  "size_int n = sint (of_nat n :: 32 word)"

definition fputs_unlocked :: "'w host \<Rightarrow> 'w stdio \<Rightarrow> addr \<Rightarrow> addr \<Rightarrow> (int \<times> 'w stdio) option" where
  "fputs_unlocked h \<sigma> s f = do {
     n \<leftarrow> strlen (memory \<sigma>) s;
     (k, \<sigma>) \<leftarrow> fwrite_unlocked h \<sigma> s 1 n f;
     Some (if k = n then size_int n else EOF, \<sigma>) }"

definition puts :: "'w host \<Rightarrow> 'w stdio \<Rightarrow> addr \<Rightarrow> addr \<Rightarrow> (int \<times> 'w stdio) option" where
  "puts h \<sigma> s stdout = do {
     (n, \<sigma>) \<leftarrow> fputs_unlocked h \<sigma> s stdout;
     if n \<noteq> EOF then do {
       (c, \<sigma>) \<leftarrow> fputc_unlocked h \<sigma> 10 stdout;
       Some (if c = EOF then EOF else n + 1, \<sigma>) }
     else Some (n, \<sigma>) }"

text \<open>
  The body of \<open>fflush\<close> for one writing stream, and the loop over the open list: with
  \<open>bufmask = LBF\<close> it flushes every stream that writes and is not unbuffered, with
  \<open>bufmask = 0\<close> the line buffered ones only.
\<close>

definition flush_stream :: "'w host \<Rightarrow> 'w stdio \<Rightarrow> addr \<Rightarrow> int \<Rightarrow> (int \<times> 'w stdio) option" where
  "flush_stream h \<sigma> f retval = do {
     (pending, \<sigma>) \<leftarrow> stdio_wcommit h \<sigma> f;
     S \<leftarrow> files \<sigma> f;
     if pending = 0 then Some (retval, put \<sigma> f (clear_flag FLAG_WRITING S))
     else Some (EOF, \<sigma>) }"

partial_function (option) flush_list ::
    "'w host \<Rightarrow> 'w stdio \<Rightarrow> 16 word \<Rightarrow> addr \<Rightarrow> int \<Rightarrow> (int \<times> 'w stdio) option" where
  "flush_list h \<sigma> bufmask stream retval =
     (if stream = NULL then Some (retval, \<sigma>)
      else do {
        S \<leftarrow> files \<sigma> stream;
        (retval, \<sigma>) \<leftarrow>
          (if \<not> any_of ((modeflags S OR bufmask) XOR (FLAG_WRITING OR FLAG_LBF)) (FLAG_WRITING OR MASK_BUFMODE)
           then flush_stream h \<sigma> stream retval else Some (retval, \<sigma>));
        S \<leftarrow> files \<sigma> stream;
        flush_list h \<sigma> bufmask (nextopen S) retval })"

definition FLUSH_LBF_STREAMS :: "'w host \<Rightarrow> 'w stdio \<Rightarrow> 'w stdio option" where
  "FLUSH_LBF_STREAMS h \<sigma> = map_option snd (flush_list h \<sigma> 0 (stdio_openlist \<sigma>) 0)"

definition fflush_unlocked :: "'w host \<Rightarrow> 'w stdio \<Rightarrow> addr \<Rightarrow> (int \<times> 'w stdio) option" where
  "fflush_unlocked h \<sigma> stream =
     (if stream = NULL then flush_list h \<sigma> FLAG_LBF (stdio_openlist \<sigma>) 0
      else do {
        S \<leftarrow> files \<sigma> stream;
        if STREAM_IS_WRITING S then flush_stream h \<sigma> stream 0 else Some (0, \<sigma>) })"

section \<open>Writing to the device\<close>

text \<open>
  What the library relies on of \<open>write\<close>: it accepts at least one byte of a block that is not empty,
  and never more than the block, or fails and accepts nothing. \<open>out w fd\<close> is what the
  descriptor \<open>fd\<close> has accepted so far.
\<close>

definition writes_ok :: "'w host \<Rightarrow> ('w \<Rightarrow> int \<Rightarrow> byte list) \<Rightarrow> bool" where
  "writes_ok h out \<longleftrightarrow> (\<forall>w fd bs. case sys_write h w fd bs of
     (Some n, w') \<Rightarrow> n \<le> length bs \<and> (bs \<noteq> [] \<longrightarrow> 0 < n) \<and> out w' = (out w)(fd := out w fd @ take n bs)
   | (None, w') \<Rightarrow> out w' = out w)"

lemma writes_ok_Some:
  "writes_ok h out \<Longrightarrow> sys_write h w fd bs = (Some n, w') \<Longrightarrow>
     n \<le> length bs \<and> (bs \<noteq> [] \<longrightarrow> 0 < n) \<and> out w' = (out w)(fd := out w fd @ take n bs)"
  unfolding writes_ok_def by (drule spec [of _ w], drule spec [of _ fd], drule spec [of _ bs]) simp

lemma writes_ok_None: "writes_ok h out \<Longrightarrow> sys_write h w fd bs = (None, w') \<Longrightarrow> out w' = out w"
  unfolding writes_ok_def by (drule spec [of _ w], drule spec [of _ fd], drule spec [of _ bs]) simp

text \<open>The last system call was a \<open>write\<close> on \<open>fd\<close> that failed, and left the world \<open>v\<close>.\<close>

definition write_failed :: "'w host \<Rightarrow> int \<Rightarrow> 'w \<Rightarrow> bool" where
  "write_failed h fd v \<longleftrightarrow> (\<exists>w bs. sys_write h w fd bs = (None, v))"

lemma write_failed_can_fail: "write_failed h fd v \<Longrightarrow> \<exists>w bs. fst (sys_write h w fd bs) = None"
  unfolding write_failed_def by (metis fst_conv)

abbreviation buflen :: "FILE \<Rightarrow> nat" where "buflen S \<equiv> bufend S - bufstart S"

text \<open>The part of unwritten data that the buffer takes up, and the state after a failed write.\<close>

definition kept_of :: "bool \<Rightarrow> byte list \<Rightarrow> byte list" where
  "kept_of lbf bs = (if lbf then takeWhile (\<lambda>c. c \<noteq> newline) bs else bs)"

definition kept :: "FILE \<Rightarrow> byte list \<Rightarrow> byte list" where
  "kept S r = kept_of (STREAM_IS_LBF S) (take (buflen S) r)"

definition after_error :: "'w stdio \<Rightarrow> addr \<Rightarrow> FILE \<Rightarrow> byte list \<Rightarrow> 'w stdio" where
  "after_error \<sigma> f S r =
     put (\<sigma>\<lparr>memory := write_bytes (memory \<sigma>) (bufstart S) (take (Suc (length (kept S r))) (take (buflen S) r))\<rparr>)
       f ((set_flag FLAG_ERROR S)\<lparr>bufpos := bufstart S + length (kept S r)\<rparr>)"

lemma kept_of_Cons [simp]:
  "kept_of lbf (b # bs) = (if b = newline \<and> lbf then [] else b # kept_of lbf bs)"
  by (simp add: kept_of_def)

lemma kept_of_Nil [simp]: "kept_of lbf [] = []"
  by (simp add: kept_of_def)

lemma save_unwritten_block:
  "bytes_at m buf bs \<Longrightarrow> bs \<noteq> [] \<Longrightarrow> mapped m s (length bs) \<Longrightarrow> fwd_ok s buf (length bs) \<Longrightarrow>
     save_unwritten m lbf s buf (length bs) =
       Some (write_bytes m s (take (Suc (length (kept_of lbf bs))) bs), s + length (kept_of lbf bs))"
proof (induction bs arbitrary: m s buf)
  case (Cons b bs)
  then obtain v where v: "m s = Some v" "mapped m (Suc s) (length bs)" by (auto simp: mapped_Suc)
  have "bytes_at (m(s \<mapsto> b)) (Suc buf) bs"
    using Cons.prems by (subst bytes_at_upd_other) (auto simp: fwd_ok_def)
  moreover have "fwd_ok (Suc s) (Suc buf) (length bs)"
    using Cons.prems by (auto intro: fwd_ok_Suc)
  ultimately have "bs \<noteq> [] \<Longrightarrow> save_unwritten (m(s \<mapsto> b)) lbf (Suc s) (Suc buf) (length bs) =
      Some (write_bytes (m(s \<mapsto> b)) (Suc s) (take (Suc (length (kept_of lbf bs))) bs), Suc s + length (kept_of lbf bs))"
    using v(2) by (intro Cons.IH) simp_all
  then show ?case using Cons.prems v(1) by (auto simp: store_mapped)
qed simp

text \<open>
  \<open>__stdio_WRITE\<close> hands some prefix of the block to the device; if that is not all of it, the
  device has failed, and what the buffer can take of the rest is in the buffer.
\<close>

lemma WRITE_loop:
  assumes ok: "writes_ok h out" and S: "files \<sigma> f = Some S"
    and bs: "bytes_at (memory \<sigma>) buf bs"
    and buffer: "bufstart S \<le> bufend S" "buflen S < 2 ^ 63" "mapped (memory \<sigma>) (bufstart S) (buflen S)"
      "fwd_ok (bufstart S) buf (length bs)" "bufpos S = bufstart S"
  shows "\<exists>k w. k \<le> length bs \<and>
    out w = (out (world \<sigma>))(filedes S := out (world \<sigma>) (filedes S) @ take k bs) \<and>
    (k < length bs \<longrightarrow> write_failed h (filedes S) w) \<and>
    stdio_WRITE_loop h \<sigma> f buf (length bs) = Some
      (if k = length bs then (0, \<sigma>\<lparr>world := w\<rparr>)
       else (length bs - k - length (kept S (drop k bs)), (after_error \<sigma> f S (drop k bs))\<lparr>world := w\<rparr>))"
  using assms
proof (induction "length bs" arbitrary: buf bs \<sigma> rule: less_induct)
  case less
  let ?fd = "filedes S" and ?L = "min (length bs) SSIZE_MAX"
  show ?case
  proof (cases "bs = []")
    case True
    then show ?thesis by (intro exI [of _ 0] exI [of _ "world \<sigma>"]) (simp add: stdio_WRITE_loop.simps)
  next
    case False
    have data: "load_bytes (memory \<sigma>) buf ?L = Some (take ?L bs)"
      using less.prems(3) by (intro load_bytes_at' bytes_at_take) simp_all
    obtain rv w1 where rv: "sys_write h (world \<sigma>) ?fd (take ?L bs) = (rv, w1)" by fastforce
    show ?thesis
    proof (cases rv)
      case None
      have o: "out w1 = out (world \<sigma>)" using writes_ok_None less.prems(1) rv None by metis
      have sz: "size_t (BUFFER_SIZE (set_flag FLAG_ERROR S)) = buflen S" "BUFFER_SIZE (set_flag FLAG_ERROR S) = int (buflen S)"
        using less.prems(4,5) by (simp_all add: BUFFER_SIZE_def size_t_nat of_nat_diff)
      have m: "min (buflen S) (length bs) = length (take (buflen S) bs)" by simp
      have lbf: "STREAM_IS_LBF (set_flag FLAG_ERROR S) = STREAM_IS_LBF S"
        by (simp add: flag_simps bit_simps)
      have sv: "save_unwritten (memory \<sigma>) (STREAM_IS_LBF S) (bufstart S) buf (min (buflen S) (length bs)) =
          Some (write_bytes (memory \<sigma>) (bufstart S) (take (Suc (length (kept S bs))) (take (buflen S) bs)),
            bufstart S + length (kept S bs))" if "buflen S \<noteq> 0"
        unfolding kept_def m
        using that False less.prems(3,6,7)
        by (intro save_unwritten_block bytes_at_take) (auto intro: mapped_mono simp: fwd_ok_def)
      have "stdio_WRITE_loop h \<sigma> f buf (length bs) =
          Some (length bs - length (kept S bs), (after_error \<sigma> f S bs)\<lparr>world := w1\<rparr>)"
      proof (cases "buflen S = 0")
        case True
        then have "kept S bs = []" by (simp add: kept_def)
        moreover have "(set_flag FLAG_ERROR S)\<lparr>bufpos := bufstart S\<rparr> = set_flag FLAG_ERROR S"
          using less.prems(8) by (cases S) (simp add: set_flag_def)
        ultimately show ?thesis
          using False less.prems(2) data rv None sz True
          by (subst stdio_WRITE_loop.simps) (simp add: Let_def after_error_def put_def)
      next
        case False
        then show ?thesis
          using \<open>bs \<noteq> []\<close> less.prems(2) data rv None sz lbf sv
          by (subst stdio_WRITE_loop.simps) (simp add: Let_def after_error_def put_def)
      qed
      moreover have "write_failed h ?fd w1" using rv None unfolding write_failed_def by blast
      ultimately show ?thesis
        using o False by (intro exI [of _ 0] exI [of _ w1]) (auto intro: exI)
    next
      case (Some n)
      let ?\<sigma> = "\<sigma>\<lparr>world := w1\<rparr>"
      have "take ?L bs \<noteq> []" using False by simp
      then have n: "0 < n" "n \<le> length bs" and o: "out w1 = (out (world \<sigma>))(?fd := out (world \<sigma>) ?fd @ take n bs)"
        using writes_ok_Some [OF less.prems(1), of "world \<sigma>" ?fd "take ?L bs" n w1] rv Some
        by (auto simp: min_def split: if_splits)
      have b: "bytes_at (memory ?\<sigma>) (buf + n) (drop n bs)"
        using bytes_at_drop [OF less.prems(3) n(2)] by simp
      have fw: "fwd_ok (bufstart S) (buf + n) (length (drop n bs))"
        using less.prems(7) n by (auto simp: fwd_ok_def)
      have lt: "length (drop n bs) < length bs" using n by simp
      have S: "files ?\<sigma> f = Some S" "mapped (memory ?\<sigma>) (bufstart S) (buflen S)" using less.prems by simp_all
      obtain k w where k: "k \<le> length (drop n bs)"
          "out w = (out (world ?\<sigma>))(?fd := out (world ?\<sigma>) ?fd @ take k (drop n bs))"
          "k < length (drop n bs) \<longrightarrow> write_failed h ?fd w"
          "stdio_WRITE_loop h ?\<sigma> f (buf + n) (length (drop n bs)) = Some
            (if k = length (drop n bs) then (0, ?\<sigma>\<lparr>world := w\<rparr>)
             else (length (drop n bs) - k - length (kept S (drop k (drop n bs))), (after_error ?\<sigma> f S (drop k (drop n bs)))\<lparr>world := w\<rparr>))"
        using less.hyps [OF lt less.prems(1) S(1) b less.prems(4,5) S(2) fw less.prems(8)] by blast
      have step: "stdio_WRITE_loop h \<sigma> f buf (length bs) = stdio_WRITE_loop h ?\<sigma> f (buf + n) (length (drop n bs))"
        using False less.prems(2) data rv Some by (subst stdio_WRITE_loop.simps) (simp add: Let_def)
      have e: "(after_error ?\<sigma> f S r)\<lparr>world := w\<rparr> = (after_error \<sigma> f S r)\<lparr>world := w\<rparr>" for r
        by (simp add: after_error_def put_def)
      have kn: "k = length (drop n bs) \<longleftrightarrow> n + k = length bs" "k < length (drop n bs) \<longleftrightarrow> n + k < length bs"
        "length (drop n bs) - k = length bs - (n + k)" "drop k (drop n bs) = drop (n + k) bs"
        using n by (auto simp: add.commute)
      have "out w = (out (world \<sigma>))(?fd := out (world \<sigma>) ?fd @ take (n + k) bs)"
        using k(2) o by (simp add: take_add)
      then show ?thesis
        using k(1,3,4) n unfolding step kn e by (intro exI [of _ "n + k"] exI [of _ w]) auto
    qed
  qed
qed

lemma WRITE_block:
  assumes "writes_ok h out" "files \<sigma> f = Some S" "bytes_at (memory \<sigma>) buf bs"
    and "bufstart S \<le> bufend S" "buflen S < 2 ^ 63" "mapped (memory \<sigma>) (bufstart S) (buflen S)"
    and "fwd_ok (bufstart S) buf (length bs)" "bufpos S = bufstart S"
  obtains k w where "k \<le> length bs"
    and "out w = (out (world \<sigma>))(filedes S := out (world \<sigma>) (filedes S) @ take k bs)"
    and "k < length bs \<Longrightarrow> write_failed h (filedes S) w"
    and "stdio_WRITE h \<sigma> f buf (length bs) = Some
      (if k = length bs then (length bs, \<sigma>\<lparr>world := w\<rparr>)
       else (k + length (kept S (drop k bs)), (after_error \<sigma> f S (drop k bs))\<lparr>world := w\<rparr>))"
proof -
  obtain k w where k: "k \<le> length bs"
    and o: "out w = (out (world \<sigma>))(filedes S := out (world \<sigma>) (filedes S) @ take k bs)"
    and e: "k < length bs \<longrightarrow> write_failed h (filedes S) w"
    and r: "stdio_WRITE_loop h \<sigma> f buf (length bs) = Some
      (if k = length bs then (0, \<sigma>\<lparr>world := w\<rparr>)
       else (length bs - k - length (kept S (drop k bs)), (after_error \<sigma> f S (drop k bs))\<lparr>world := w\<rparr>))"
    using WRITE_loop [OF assms] by blast
  have "length (kept S (drop k bs)) \<le> length bs - k"
    using length_takeWhile_le [of _ "take (buflen S) (drop k bs)"]
    by (auto simp: kept_def kept_of_def intro: order_trans)
  then have "stdio_WRITE h \<sigma> f buf (length bs) = Some
      (if k = length bs then (length bs, \<sigma>\<lparr>world := w\<rparr>)
       else (k + length (kept S (drop k bs)), (after_error \<sigma> f S (drop k bs))\<lparr>world := w\<rparr>))"
    using r k by (simp add: stdio_WRITE_def)
  then show ?thesis using that k o e by blast
qed

section \<open>The abstraction of a writing stream\<close>

text \<open>
  \<open>out_stream h out \<sigma> f xs\<close>: through the stream \<open>f\<close> the bytes \<open>xs\<close> have been written, that is, its
  device has accepted some of them and the rest is in its buffer. A line buffered stream
  loses data when the device fails (see below), so it must be unbuffered or its device must not fail.
\<close>

definition lossless :: "'w host \<Rightarrow> FILE \<Rightarrow> bool" where
  "lossless h S \<longleftrightarrow> \<not> STREAM_IS_LBF S \<or> buflen S = 0 \<or> (\<forall>w bs. fst (sys_write h w (filedes S) bs) \<noteq> None)"

definition buffer_ok :: "'w stdio \<Rightarrow> FILE \<Rightarrow> bool" where
  "buffer_ok \<sigma> S \<longleftrightarrow> bufstart S \<le> bufend S \<and> buflen S < 2 ^ 63 \<and> mapped (memory \<sigma>) (bufstart S) (buflen S) \<and>
     bufstart S \<le> bufpos S \<and> bufpos S \<le> bufend S \<and> (STREAM_IS_NBF S \<longrightarrow> buflen S = 0) \<and>
     local_uc \<sigma> \<in> dom (memory \<sigma>) \<and> (local_uc \<sigma> < bufstart S \<or> bufend S \<le> local_uc \<sigma>)"

definition pending :: "'w stdio \<Rightarrow> FILE \<Rightarrow> byte list \<Rightarrow> bool" where
  "pending \<sigma> S bs \<longleftrightarrow>
     (if STREAM_IS_WRITING S then bytes_at (memory \<sigma>) (bufstart S) bs \<and> bufpos S = bufstart S + length bs
      else bs = [] \<and> (STREAM_IS_READING S \<or> bufpos S = bufstart S))"

definition out_stream :: "'w host \<Rightarrow> ('w \<Rightarrow> int \<Rightarrow> byte list) \<Rightarrow> 'w stdio \<Rightarrow> addr \<Rightarrow> byte list \<Rightarrow> bool" where
  "out_stream h out \<sigma> f xs \<longleftrightarrow> writes_ok h out \<and>
     (\<exists>S bs. files \<sigma> f = Some S \<and> buffer_ok \<sigma> S \<and> lossless h S \<and> \<not> IS_FAKE S \<and> pending \<sigma> S bs \<and>
        xs = out (world \<sigma>) (filedes S) @ bs)"

text \<open>The same without what is assumed of the device.\<close>

definition written :: "('w \<Rightarrow> int \<Rightarrow> byte list) \<Rightarrow> 'w stdio \<Rightarrow> addr \<Rightarrow> byte list \<Rightarrow> bool" where
  "written out \<sigma> f xs \<longleftrightarrow> (\<exists>S bs. files \<sigma> f = Some S \<and> buffer_ok \<sigma> S \<and> \<not> IS_FAKE S \<and> pending \<sigma> S bs \<and>
     xs = out (world \<sigma>) (filedes S) @ bs)"

lemma out_stream_iff: "out_stream h out \<sigma> f xs \<longleftrightarrow>
    writes_ok h out \<and> written out \<sigma> f xs \<and> (\<exists>S. files \<sigma> f = Some S \<and> lossless h S)"
  unfolding out_stream_def written_def by auto

text \<open>The error flag of the stream is set, and the last system call was a failed \<open>write\<close> to its device.\<close>

definition device_failed :: "'w host \<Rightarrow> 'w stdio \<Rightarrow> FILE \<Rightarrow> bool" where
  "device_failed h \<sigma> S \<longleftrightarrow> FERROR_UNLOCKED S \<and> write_failed h (filedes S) (world \<sigma>)"

text \<open>When the functions accept to write: not on a read-only stream, and not between a read and the end of the file.\<close>

definition can_write :: "FILE \<Rightarrow> bool" where
  "can_write S \<longleftrightarrow> STREAM_IS_WRITING S \<or> \<not> STREAM_IS_READONLY S \<and> (STREAM_IS_READING S \<longrightarrow> FEOF_UNLOCKED S)"

text \<open>A step that touches nothing but the stream, its buffer and the local variable.\<close>

definition only_stream :: "addr \<Rightarrow> 'w stdio \<Rightarrow> 'w stdio \<Rightarrow> bool" where
  "only_stream f \<sigma> \<sigma>' \<longleftrightarrow> (\<exists>S S'. files \<sigma> f = Some S \<and> files \<sigma>' = (files \<sigma>)(f \<mapsto> S') \<and>
     filedes S' = filedes S \<and> bufstart S' = bufstart S \<and> bufend S' = bufend S \<and> nextopen S' = nextopen S \<and>
     stdio_openlist \<sigma>' = stdio_openlist \<sigma> \<and> local_uc \<sigma>' = local_uc \<sigma> \<and>
     (\<forall>a. (a < bufstart S \<or> bufend S \<le> a) \<and> a \<noteq> local_uc \<sigma> \<longrightarrow> memory \<sigma>' a = memory \<sigma> a))"

lemma only_stream_trans: "only_stream f \<sigma> \<sigma>1 \<Longrightarrow> only_stream f \<sigma>1 \<sigma>2 \<Longrightarrow> only_stream f \<sigma> \<sigma>2"
  unfolding only_stream_def by force

lemma only_stream_refl: "files \<sigma> f = Some S \<Longrightarrow> only_stream f \<sigma> \<sigma>"
  unfolding only_stream_def by (intro exI [of _ S]) (simp add: fun_upd_idem)

text \<open>The same for a stream in writing state, with its \<open>FILE\<close>.\<close>

definition out_writing :: "'w host \<Rightarrow> ('w \<Rightarrow> int \<Rightarrow> byte list) \<Rightarrow> 'w stdio \<Rightarrow> addr \<Rightarrow> FILE \<Rightarrow> byte list \<Rightarrow> bool" where
  "out_writing h out \<sigma> f S xs \<longleftrightarrow> writes_ok h out \<and> files \<sigma> f = Some S \<and> buffer_ok \<sigma> S \<and> lossless h S \<and>
     \<not> IS_FAKE S \<and> STREAM_IS_WRITING S \<and> (\<exists>bs. bytes_at (memory \<sigma>) (bufstart S) bs \<and>
     bufpos S = bufstart S + length bs \<and> xs = out (world \<sigma>) (filedes S) @ bs)"

lemma out_stream_writing: "out_writing h out \<sigma> f S xs \<Longrightarrow> out_stream h out \<sigma> f xs"
  by (auto simp: out_writing_def out_stream_def pending_def)

lemma lossless_cong:
  "lossless h S \<Longrightarrow> filedes S' = filedes S \<Longrightarrow> bufstart S' = bufstart S \<Longrightarrow> bufend S' = bufend S \<Longrightarrow>
     bit (modeflags S') 8 = bit (modeflags S) 8 \<Longrightarrow> lossless h S'"
  by (simp add: lossless_def flag_simps)

lemma buffer_ok_cong:
  assumes "buffer_ok \<sigma> S" "bufstart S' = bufstart S" "bufend S' = bufend S" "bufstart S \<le> bufpos S'" "bufpos S' \<le> bufend S"
    and "bit (modeflags S') 9 = bit (modeflags S) 9" "local_uc \<sigma>' = local_uc \<sigma>" "dom (memory \<sigma>) \<subseteq> dom (memory \<sigma>')"
  shows "buffer_ok \<sigma>' S'"
proof -
  have "mapped (memory \<sigma>') (bufstart S) (buflen S)"
    using assms(1,8) unfolding buffer_ok_def mapped_def by (blast intro: subset_trans)
  moreover have "local_uc \<sigma>' \<in> dom (memory \<sigma>')"
    using assms(1,7,8) unfolding buffer_ok_def by (metis subsetD)
  ultimately show ?thesis
    using assms(1-7) unfolding buffer_ok_def flag_simps by simp
qed

lemma out_writing_intro:
  assumes "writes_ok h out" "buffer_ok \<sigma> S" "lossless h S" "\<not> IS_FAKE S"
    and "files \<sigma>' f = Some S'" "STREAM_IS_WRITING S'" "filedes S' = filedes S" "bufstart S' = bufstart S" "bufend S' = bufend S"
    and "bit (modeflags S') 8 = bit (modeflags S) 8" "bit (modeflags S') 9 = bit (modeflags S) 9"
    and "local_uc \<sigma>' = local_uc \<sigma>" "dom (memory \<sigma>) \<subseteq> dom (memory \<sigma>')"
    and "bytes_at (memory \<sigma>') (bufstart S) bs" "bufpos S' = bufstart S + length bs" "length bs \<le> buflen S"
    and "xs = out (world \<sigma>') (filedes S) @ bs"
  shows "out_writing h out \<sigma>' f S' xs"
proof -
  have "bufstart S \<le> bufend S" using assms(2) by (simp add: buffer_ok_def)
  then have "buffer_ok \<sigma>' S'" using assms by (intro buffer_ok_cong [OF assms(2)]) auto
  moreover have "lossless h S'" using assms by (intro lossless_cong [OF assms(3)])
  ultimately show ?thesis using assms by (auto simp: out_writing_def IS_FAKE_def)
qed

lemma WRITE_out:
  assumes "out_writing h out \<sigma> f S xs" "bufpos S = bufstart S" "bytes_at (memory \<sigma>) buf bs"
    and "fwd_ok (bufstart S) buf (length bs)"
  obtains n \<sigma>' S' where "stdio_WRITE h \<sigma> f buf (length bs) = Some (n, \<sigma>')" "n \<le> length bs"
    and "out_writing h out \<sigma>' f S' (xs @ take n bs)" "only_stream f \<sigma> \<sigma>'" "filedes S' = filedes S"
    and "bufstart S' = bufstart S" "bufend S' = bufend S"
    and "length bs \<le> buflen S \<Longrightarrow> n = length bs" "modeflags S' = modeflags S \<or> modeflags S' = modeflags S OR FLAG_ERROR"
    and "n < length bs \<or> bufpos S' \<noteq> bufstart S' \<Longrightarrow> device_failed h \<sigma>' S'"
proof -
  note w = assms(1) [unfolded out_writing_def]
  have S: "files \<sigma> f = Some S" and b: "buffer_ok \<sigma> S" and xs: "xs = out (world \<sigma>) (filedes S)"
    and nf: "\<not> IS_FAKE S" and wr: "STREAM_IS_WRITING S" and ll: "lossless h S"
    using w assms(2) by auto
  obtain k v where k: "k \<le> length bs"
    and o: "out v = (out (world \<sigma>))(filedes S := out (world \<sigma>) (filedes S) @ take k bs)"
    and e: "k < length bs \<Longrightarrow> write_failed h (filedes S) v"
    and r: "stdio_WRITE h \<sigma> f buf (length bs) = Some
      (if k = length bs then (length bs, \<sigma>\<lparr>world := v\<rparr>)
       else (k + length (kept S (drop k bs)), (after_error \<sigma> f S (drop k bs))\<lparr>world := v\<rparr>))"
    using WRITE_block [of h out \<sigma> f S buf bs] w b assms(2-4) unfolding buffer_ok_def by metis
  show ?thesis
  proof (cases "k = length bs")
    case True
    let ?\<sigma> = "\<sigma>\<lparr>world := v\<rparr>"
    have "out_writing h out ?\<sigma> f S (xs @ bs)"
      unfolding out_writing_def using w b o xs True assms(2) by (auto simp: buffer_ok_def)
    moreover have "only_stream f \<sigma> ?\<sigma>"
      using S unfolding only_stream_def by (intro exI [of _ S]) (simp add: fun_upd_idem)
    ultimately show ?thesis using that [of "length bs" ?\<sigma> S] r True assms(2) by simp
  next
    case False
    let ?r = "take (buflen S) (drop k bs)"
    let ?S = "(set_flag FLAG_ERROR S)\<lparr>bufpos := bufstart S + length ?r\<rparr>"
    let ?\<sigma> = "(put (\<sigma>\<lparr>memory := write_bytes (memory \<sigma>) (bufstart S) ?r\<rparr>) f ?S)\<lparr>world := v\<rparr>"
    have "kept S (drop k bs) = ?r"
    proof -
      obtain w b where "fst (sys_write h w (filedes S) b) = None" using write_failed_can_fail [OF e] False k by fastforce
      then have "\<not> STREAM_IS_LBF S \<or> buflen S = 0" using ll unfolding lossless_def by metis
      then show ?thesis by (auto simp: kept_def kept_of_def)
    qed
    moreover have "take (Suc (length ?r)) ?r = ?r" by (rule take_all) simp
    ultimately have "after_error \<sigma> f S (drop k bs) = put (\<sigma>\<lparr>memory := write_bytes (memory \<sigma>) (bufstart S) ?r\<rparr>) f ?S"
      unfolding after_error_def by metis
    then have r': "stdio_WRITE h \<sigma> f buf (length bs) = Some (k + length ?r, ?\<sigma>)"
      using r False \<open>kept S (drop k bs) = ?r\<close> by simp
    have n: "xs @ take (k + length ?r) bs = out v (filedes S) @ ?r"
      using o xs by (simp add: take_add min_def)
    have "out_writing h out ?\<sigma> f ?S (out v (filedes S) @ ?r)"
      using w b wr by (intro out_writing_intro [of h out \<sigma> S, OF _ b ll nf]) (auto simp: flag_simps bit_simps dom_write_bytes)
    moreover have "only_stream f \<sigma> ?\<sigma>"
      unfolding only_stream_def by (rule exI [of _ S], rule exI [of _ ?S]) (use S b in \<open>auto simp: buffer_ok_def intro!: write_bytes_other\<close>)
    moreover have "k + length ?r \<le> length bs" "length bs \<le> buflen S \<Longrightarrow> k + length ?r = length bs"
      using k by simp_all
    moreover have "device_failed h ?\<sigma> ?S" using e False k by (simp add: device_failed_def flag_simps bit_simps)
    ultimately show ?thesis using that [of "k + length ?r" ?\<sigma> ?S] r' unfolding n by simp
  qed
qed

text \<open>Committing the buffer keeps what has been written, and empties the buffer unless the device fails.\<close>

lemma out_writing_cong:
  assumes "out_writing h out \<sigma> f S xs"
  shows "out_writing h out (put \<sigma> f (S\<lparr>bufpos := bufstart S\<rparr>)) f (S\<lparr>bufpos := bufstart S\<rparr>) (out (world \<sigma>) (filedes S))"
  using assms unfolding out_writing_def [of h out \<sigma>]
  by (intro out_writing_intro [of h out \<sigma> S _ f _ "[]"]) (auto simp: flag_simps)

lemma wused: "buffer_ok \<sigma> S \<Longrightarrow> BUFFER_WUSED S = int (bufpos S - bufstart S) \<and> size_t (BUFFER_WUSED S) = bufpos S - bufstart S"
  by (auto simp: buffer_ok_def BUFFER_WUSED_def size_t_nat of_nat_diff)

lemma wavail: "buffer_ok \<sigma> S \<Longrightarrow> BUFFER_WAVAIL S = int (bufend S - bufpos S) \<and> size_t (BUFFER_WAVAIL S) = bufend S - bufpos S"
  by (auto simp: buffer_ok_def BUFFER_WAVAIL_def size_t_nat of_nat_diff)

lemma bufsize: "buffer_ok \<sigma> S \<Longrightarrow> BUFFER_SIZE S = int (buflen S)"
  by (auto simp: buffer_ok_def BUFFER_SIZE_def)

lemma out_writing_ok: "out_writing h out \<sigma> f S xs \<Longrightarrow> buffer_ok \<sigma> S"
  by (simp add: out_writing_def)

lemma wcommit_out:
  assumes "out_writing h out \<sigma> f S xs"
  obtains n \<sigma>' S' where "stdio_wcommit h \<sigma> f = Some (n, \<sigma>')" "out_writing h out \<sigma>' f S' xs"
    and "only_stream f \<sigma> \<sigma>'" "filedes S' = filedes S" "bufstart S' = bufstart S" "bufend S' = bufend S"
    and "modeflags S' = modeflags S \<or> modeflags S' = modeflags S OR FLAG_ERROR"
    and "bufpos S' = bufstart S' + n" "n \<noteq> 0 \<longrightarrow> device_failed h \<sigma>' S'"
proof (cases "bufpos S = bufstart S")
  case True
  note w = assms [unfolded out_writing_def]
  have "stdio_wcommit h \<sigma> f = Some (0, \<sigma>)"
    using w True by (simp add: stdio_wcommit_def BUFFER_WUSED_def size_t_def)
  moreover have "only_stream f \<sigma> \<sigma>" using w by (intro only_stream_refl) simp
  ultimately show ?thesis using that [of 0 \<sigma> S] assms True by simp
next
  case False
  note w = assms [unfolded out_writing_def]
  let ?S = "S\<lparr>bufpos := bufstart S\<rparr>"
  let ?\<sigma> = "put \<sigma> f ?S"
  obtain bs where bs: "bytes_at (memory \<sigma>) (bufstart S) bs" "bufpos S = bufstart S + length bs"
      "xs = out (world \<sigma>) (filedes S) @ bs"
    using w by blast
  have u: "BUFFER_WUSED S = int (length bs)" "size_t (BUFFER_WUSED S) = length bs"
    using wused [OF out_writing_ok [OF assms]] bs(2) by (metis diff_add_inverse)+
  obtain n \<sigma>' S' where r: "stdio_WRITE h ?\<sigma> f (bufstart S) (length bs) = Some (n, \<sigma>')" "n \<le> length bs"
    and o: "out_writing h out \<sigma>' f S' (out (world \<sigma>) (filedes S) @ take n bs)" "only_stream f ?\<sigma> \<sigma>'"
    and k: "filedes S' = filedes ?S" "bufstart S' = bufstart ?S" "bufend S' = bufend ?S"
      "length bs \<le> buflen ?S \<Longrightarrow> n = length bs" "modeflags S' = modeflags ?S \<or> modeflags S' = modeflags ?S OR FLAG_ERROR"
      "n < length bs \<or> bufpos S' \<noteq> bufstart S' \<Longrightarrow> device_failed h \<sigma>' S'"
    by (rule WRITE_out [OF out_writing_cong [OF assms], of "bufstart S" bs])
      (use bs in \<open>simp_all add: fwd_ok_def\<close>)
  have "bufpos S \<le> bufend S" using out_writing_ok [OF assms] by (simp add: buffer_ok_def)
  then have "length bs \<le> buflen ?S" using bs(2) by simp
  then have n: "n = length bs" by (rule k(4))
  have S': "files \<sigma>' f = Some S'" using o(1) by (simp add: out_writing_def)
  have "stdio_wcommit h \<sigma> f = Some (size_t (BUFFER_WUSED S'), \<sigma>')"
    using w u r(1) S' False bs(2) by (simp add: stdio_wcommit_def)
  then have "stdio_wcommit h \<sigma> f = Some (bufpos S' - bufstart S', \<sigma>')"
    by (simp only: wused [OF out_writing_ok [OF o(1)], THEN conjunct2])
  moreover have "out_writing h out \<sigma>' f S' xs" using o(1) n bs(3) by simp
  moreover have "only_stream f \<sigma> ?\<sigma>"
    using w unfolding only_stream_def by (intro exI [of _ S] exI [of _ ?S]) simp
  ultimately show ?thesis
    using that [of "bufpos S' - bufstart S'" \<sigma>' S'] o(2) k out_writing_ok [OF o(1)]
    by (auto intro: only_stream_trans simp: buffer_ok_def)
qed

text \<open>The transition to writing.\<close>

lemma ready_out:
  assumes "out_stream h out \<sigma> f xs"
  obtains ok \<sigma>' where "ready_to_write \<sigma> f = Some (ok, \<sigma>')" "only_stream f \<sigma> \<sigma>'" "out_stream h out \<sigma>' f xs"
    and "ok \<Longrightarrow> \<exists>S. out_writing h out \<sigma>' f S xs" "\<And>S. files \<sigma> f = Some S \<Longrightarrow> ok \<longleftrightarrow> can_write S"
    and "\<not> ok \<Longrightarrow> \<exists>S'. files \<sigma>' f = Some S' \<and> FERROR_UNLOCKED S'"
proof -
  obtain S bs where S: "writes_ok h out" "files \<sigma> f = Some S" "buffer_ok \<sigma> S" "lossless h S" "\<not> IS_FAKE S"
      "pending \<sigma> S bs" "xs = out (world \<sigma>) (filedes S) @ bs"
    using assms by (auto simp: out_stream_def)
  show ?thesis
  proof (cases "STREAM_IS_WRITING S")
    case True
    then have "out_writing h out \<sigma> f S xs" using S by (auto simp: out_writing_def pending_def)
    then show ?thesis
      using that [of True \<sigma>] S(2) True assms by (auto simp: ready_to_write_def can_write_def intro: only_stream_refl)
  next
    case False
    have bs: "bs = []" "STREAM_IS_READING S \<or> bufpos S = bufstart S"
      using S(6) False by (simp_all add: pending_def)
    let ?R = "put (\<sigma>\<lparr>errno := EBADF\<rparr>) f (set_flag FLAG_ERROR S)"
    let ?C = "if STREAM_IS_READING S then INIT_BUFREAD_BUFPOS (clear_flag MASK_READING S) else S"
    let ?W = "put \<sigma> f (set_flag FLAG_WRITING ?C)"
    have oR: "out_stream h out ?R f xs" "only_stream f \<sigma> ?R"
    proof -
      have "buffer_ok ?R (set_flag FLAG_ERROR S)"
        using S(3) by (intro buffer_ok_cong [OF S(3)]) (auto simp: bit_simps buffer_ok_def)
      moreover have "lossless h (set_flag FLAG_ERROR S)" by (rule lossless_cong [OF S(4)]) (simp_all add: bit_simps)
      moreover have "pending ?R (set_flag FLAG_ERROR S) []"
        using bs False by (simp add: pending_def flag_simps bit_simps)
      ultimately show "out_stream h out ?R f xs"
        using S(1,5,7) bs(1) by (auto simp: out_stream_def IS_FAKE_def)
      show "only_stream f \<sigma> ?R" unfolding only_stream_def using S(2) by auto
    qed
    have C: "filedes ?C = filedes S" "bufstart ?C = bufstart S" "bufend ?C = bufend S" "bufpos ?C = bufstart S"
        "nextopen ?C = nextopen S" "bit (modeflags ?C) 8 = bit (modeflags S) 8" "bit (modeflags ?C) 9 = bit (modeflags S) 9"
      using bs by (auto simp: INIT_BUFREAD_BUFPOS_def bit_simps)
    have "out_writing h out ?W f (set_flag FLAG_WRITING ?C) xs"
      by (rule out_writing_intro [of h out \<sigma> S _ f _ "[]", OF S(1,3,4,5)])
        (use S(7) bs(1) C in \<open>simp_all add: flag_simps bit_simps\<close>)
    moreover have "only_stream f \<sigma> ?W"
      unfolding only_stream_def using S C by (intro exI [of _ S] exI [of _ "set_flag FLAG_WRITING ?C"]) simp
    moreover have rd: "ready_to_write \<sigma> f =
        Some (if STREAM_IS_READONLY S \<or> STREAM_IS_READING S \<and> \<not> FEOF_UNLOCKED S then (False, ?R) else (True, ?W))"
      using S(2) False by (simp add: ready_to_write_def stdio_trans2w_def Let_def)
    ultimately show ?thesis
    proof (cases "STREAM_IS_READONLY S \<or> STREAM_IS_READING S \<and> \<not> FEOF_UNLOCKED S")
      case True
      then have "\<not> can_write S" using \<open>\<not> STREAM_IS_WRITING S\<close> unfolding can_write_def by blast
      moreover have "FERROR_UNLOCKED (set_flag FLAG_ERROR S)" by (simp add: flag_simps bit_simps)
      moreover have "ready_to_write \<sigma> f = Some (False, ?R)" using rd True by (simp only: if_True)
      ultimately show ?thesis using oR S(2) by (intro that [of False ?R]) simp_all
    next
      case False
      then have "ready_to_write \<sigma> f = Some (True, ?W)" using rd by (simp only: if_False)
      moreover have "can_write S" using False unfolding can_write_def by blast
      moreover assume "out_writing h out ?W f (set_flag FLAG_WRITING ?C) xs" "only_stream f \<sigma> ?W"
      ultimately show ?thesis using S(2) by (intro that [of True ?W]) (auto intro: out_stream_writing)
    qed
  qed
qed

section \<open>fputc\<close>

lemma only_stream_put:
  "files \<sigma> f = Some S \<Longrightarrow> filedes S' = filedes S \<Longrightarrow> bufstart S' = bufstart S \<Longrightarrow> bufend S' = bufend S \<Longrightarrow>
     nextopen S' = nextopen S \<Longrightarrow> only_stream f \<sigma> (put \<sigma> f S')"
  unfolding only_stream_def by (intro exI [of _ S] exI [of _ S']) simp

lemma out_writing_drop:
  assumes "out_writing h out \<sigma> f S (xs @ ys)" "length ys \<le> bufpos S - bufstart S"
  shows "out_writing h out (put \<sigma> f (S\<lparr>bufpos := bufpos S - length ys\<rparr>)) f (S\<lparr>bufpos := bufpos S - length ys\<rparr>) xs"
proof -
  obtain bs where w: "writes_ok h out" "files \<sigma> f = Some S" "buffer_ok \<sigma> S" "lossless h S" "\<not> IS_FAKE S"
      "STREAM_IS_WRITING S" and bs: "bytes_at (memory \<sigma>) (bufstart S) bs" "bufpos S = bufstart S + length bs"
      "xs @ ys = out (world \<sigma>) (filedes S) @ bs"
    using assms(1) unfolding out_writing_def by blast
  have l: "length ys \<le> length bs" using assms(2) bs(2) by simp
  define cs where "cs = take (length bs - length ys) bs"
  have "xs @ ys = (out (world \<sigma>) (filedes S) @ cs) @ drop (length bs - length ys) bs"
    using bs(3) by (simp add: cs_def)
  moreover have "length ys = length (drop (length bs - length ys) bs)" using l by simp
  ultimately have "xs = out (world \<sigma>) (filedes S) @ cs" by (metis append_eq_append_conv)
  moreover have "bytes_at (memory \<sigma>) (bufstart S) cs" unfolding cs_def using bs(1) by (rule bytes_at_take)
  moreover have "bufpos S - length ys = bufstart S + length cs" using l bs(2) by (simp add: cs_def)
  moreover have "bufpos S \<le> bufend S" using w(3) by (simp add: buffer_ok_def)
  then have "length cs \<le> buflen S" using bs(2) by (simp add: cs_def)
  ultimately show ?thesis
    using w by (intro out_writing_intro [of h out \<sigma> S _ f _ cs]) (simp_all add: flag_simps)
qed

lemma ADD_out:
  assumes "out_writing h out \<sigma> f S xs" "bufpos S < bufend S"
  obtains \<sigma>' where "BUFFER_ADD \<sigma> f c = Some \<sigma>'" "only_stream f \<sigma> \<sigma>'"
    and "out_writing h out \<sigma>' f (S\<lparr>bufpos := bufpos S + 1\<rparr>) (xs @ [c])"
proof -
  obtain bs where w: "writes_ok h out" "files \<sigma> f = Some S" "buffer_ok \<sigma> S" "lossless h S" "\<not> IS_FAKE S"
      "STREAM_IS_WRITING S" and bs: "bytes_at (memory \<sigma>) (bufstart S) bs" "bufpos S = bufstart S + length bs"
      "xs = out (world \<sigma>) (filedes S) @ bs"
    using assms(1) unfolding out_writing_def by blast
  let ?S = "S\<lparr>bufpos := bufpos S + 1\<rparr>"
  let ?\<sigma> = "put (\<sigma>\<lparr>memory := (memory \<sigma>)(bufpos S \<mapsto> c)\<rparr>) f ?S"
  have "\<exists>v. memory \<sigma> (bufstart S + length bs) = Some v"
    using w(3) bs(2) assms(2) unfolding buffer_ok_def by (intro mapped_load [of _ _ "buflen S"]) auto
  then have "BUFFER_ADD \<sigma> f c = Some ?\<sigma>" using w bs(2) by (auto simp: BUFFER_ADD_def store_mapped)
  moreover have "bytes_at ((memory \<sigma>)(bufpos S \<mapsto> c)) (bufstart S) (bs @ [c])"
    using bs by (simp add: bytes_at_upd_other)
  then have "out_writing h out ?\<sigma> f ?S (xs @ [c])"
    using w bs assms(2)
    by (intro out_writing_intro [of h out \<sigma> S _ f _ "bs @ [c]"]) (auto simp: flag_simps simp del: bytes_at_append)
  moreover have "only_stream f \<sigma> ?\<sigma>"
    unfolding only_stream_def using w assms(2)
    by (intro exI [of _ S] exI [of _ ?S]) (auto simp: buffer_ok_def)
  ultimately show ?thesis using that by blast
qed

definition uchar :: "int \<Rightarrow> byte" where
  "uchar c = word_of_int c"

lemma uint_not_EOF [simp]: "uint (c :: byte) \<noteq> EOF" "EOF \<noteq> uint (c :: byte)"
  using uint_ge_0 [of c] by linarith+

text \<open>\<open>fputc\<close> on a stream in writing state.\<close>

lemma fputc_buffered:
  assumes "out_writing h out \<sigma> f S xs" "buflen S \<noteq> 0" "ready_to_write \<sigma>0 f = Some (True, \<sigma>)"
  obtains r \<sigma>' S' where "fputc_unlocked h \<sigma>0 c f = Some (r, \<sigma>')" "only_stream f \<sigma> \<sigma>'"
    and "r = EOF \<and> out_writing h out \<sigma>' f S' xs \<or> r = uint (uchar c) \<and> out_writing h out \<sigma>' f S' (xs @ [uchar c])"
proof -
  note b = out_writing_ok [OF assms(1)]
  have S: "files \<sigma> f = Some S" "\<not> IS_FAKE S" using assms(1) by (simp_all add: out_writing_def)
  have "\<exists>n \<sigma>1 S1. (if BUFFER_WAVAIL S = 0 then stdio_wcommit h \<sigma> f else Some (0, \<sigma>)) = Some (n, \<sigma>1) \<and>
      out_writing h out \<sigma>1 f S1 xs \<and> only_stream f \<sigma> \<sigma>1 \<and> (n = 0 \<longrightarrow> bufpos S1 < bufend S1)"
  proof (cases "BUFFER_WAVAIL S = 0")
    case False
    then show ?thesis
      using assms(1) b S only_stream_refl [OF S(1)] by (auto simp: buffer_ok_def BUFFER_WAVAIL_def)
  next
    case True
    obtain n \<sigma>1 S1 where "stdio_wcommit h \<sigma> f = Some (n, \<sigma>1)" "out_writing h out \<sigma>1 f S1 xs" "only_stream f \<sigma> \<sigma>1"
        "bufstart S1 = bufstart S" "bufend S1 = bufend S" "bufpos S1 = bufstart S1 + n"
      by (rule wcommit_out [OF assms(1)])
    then show ?thesis using True assms(2) by (intro exI [of _ n] exI [of _ \<sigma>1] exI [of _ S1]) auto
  qed
  then obtain n \<sigma>1 S1 where c1: "(if BUFFER_WAVAIL S = 0 then stdio_wcommit h \<sigma> f else Some (0, \<sigma>)) = Some (n, \<sigma>1)"
    and o1: "out_writing h out \<sigma>1 f S1 xs" "only_stream f \<sigma> \<sigma>1" "n = 0 \<longrightarrow> bufpos S1 < bufend S1"
    by blast
  have bsz: "BUFFER_SIZE S \<noteq> 0" using bufsize [OF b] assms(2) by simp
  show ?thesis
  proof (cases "n = 0")
    case False
    then have "fputc_unlocked h \<sigma>0 c f = Some (EOF, \<sigma>1)"
      using assms(3) S c1 bsz by (simp add: fputc_unlocked_def)
    then show ?thesis using o1 that by blast
  next
    case True
    let ?S2 = "S1\<lparr>bufpos := bufpos S1 + 1\<rparr>"
    obtain \<sigma>2 where a2: "BUFFER_ADD \<sigma>1 f (uchar c) = Some \<sigma>2" "only_stream f \<sigma>1 \<sigma>2"
        "out_writing h out \<sigma>2 f ?S2 (xs @ [uchar c])"
      using ADD_out [OF o1(1)] o1(3) True by blast
    have S2: "files \<sigma>2 f = Some ?S2" using a2(3) by (simp add: out_writing_def)
    have os2: "only_stream f \<sigma> \<sigma>2" using o1(2) a2(2) by (rule only_stream_trans)
    obtain n3 \<sigma>3 S3 where w3: "stdio_wcommit h \<sigma>2 f = Some (n3, \<sigma>3)" "out_writing h out \<sigma>3 f S3 (xs @ [uchar c])"
        "only_stream f \<sigma>2 \<sigma>3" "bufpos S3 = bufstart S3 + n3"
      by (rule wcommit_out [OF a2(3)])
    have S3: "files \<sigma>3 f = Some S3" using w3(2) by (simp add: out_writing_def)
    have os3: "only_stream f \<sigma> \<sigma>3" using os2 w3(3) by (rule only_stream_trans)
    define commit where "commit \<longleftrightarrow> IS_STD_STREAM ?S2 \<or> STREAM_IS_LBF ?S2 \<and> uchar c = newline"
    have r: "fputc_unlocked h \<sigma>0 c f =
        (if commit then if n3 \<noteq> 0 then Some (EOF, put \<sigma>3 f (BUFFER_UNADD S3)) else Some (uint (uchar c), \<sigma>3)
         else Some (uint (uchar c), \<sigma>2))"
      using assms(3) S c1 bsz True a2(1) S2 w3(1) S3
      by (simp add: fputc_unlocked_def uchar_def [symmetric] Let_def commit_def)
    consider (add) "\<not> commit" | (ok) commit "n3 = 0" | (undo) commit "n3 \<noteq> 0" by blast
    then show ?thesis
    proof cases
      case add
      then show ?thesis using r that [of "uint (uchar c)" \<sigma>2 ?S2] os2 a2(3) by simp
    next
      case ok
      then show ?thesis using r that [of "uint (uchar c)" \<sigma>3 S3] os3 w3(2) by simp
    next
      case undo
      have "out_writing h out (put \<sigma>3 f (BUFFER_UNADD S3)) f (BUFFER_UNADD S3) xs"
        using out_writing_drop [OF w3(2)] w3(4) undo(2) by (simp add: BUFFER_UNADD_def)
      moreover have "only_stream f \<sigma>3 (put \<sigma>3 f (BUFFER_UNADD S3))"
        by (rule only_stream_put [OF S3]) (simp_all add: BUFFER_UNADD_def)
      ultimately show ?thesis
        using r undo that [of EOF] only_stream_trans [OF os3] by simp
    qed
  qed
qed

lemma fputc_unbuffered:
  assumes "out_writing h out \<sigma> f S xs" "buflen S = 0" "ready_to_write \<sigma>0 f = Some (True, \<sigma>)"
  obtains r \<sigma>' S' where "fputc_unlocked h \<sigma>0 c f = Some (r, \<sigma>')" "only_stream f \<sigma> \<sigma>'"
    and "r = EOF \<and> out_writing h out \<sigma>' f S' xs \<or> r = uint (uchar c) \<and> out_writing h out \<sigma>' f S' (xs @ [uchar c])"
proof -
  note b = out_writing_ok [OF assms(1)]
  have S: "writes_ok h out" "files \<sigma> f = Some S" "lossless h S" "\<not> IS_FAKE S" "STREAM_IS_WRITING S"
    using assms(1) by (simp_all add: out_writing_def)
  obtain v where v: "memory \<sigma> (local_uc \<sigma>) = Some v" using b by (auto simp: buffer_ok_def)
  have pos: "bufpos S = bufstart S" using b assms(2) by (simp add: buffer_ok_def)
  let ?\<sigma> = "\<sigma>\<lparr>memory := (memory \<sigma>)(local_uc \<sigma> \<mapsto> uchar c)\<rparr>"
  have xs: "xs = out (world \<sigma>) (filedes S)" using assms(1) pos by (auto simp: out_writing_def)
  have o1: "out_writing h out ?\<sigma> f S xs"
    using S xs pos by (intro out_writing_intro [of h out \<sigma> S _ f _ "[]", OF S(1) b S(3,4)]) auto
  have os1: "only_stream f \<sigma> ?\<sigma>" unfolding only_stream_def using S by (intro exI [of _ S]) (simp add: fun_upd_idem)
  obtain n \<sigma>' S' where w: "stdio_WRITE h ?\<sigma> f (local_uc \<sigma>) (length [uchar c]) = Some (n, \<sigma>')" "n \<le> length [uchar c]"
      "out_writing h out \<sigma>' f S' (xs @ take n [uchar c])" "only_stream f ?\<sigma> \<sigma>'"
    by (rule WRITE_out [OF o1 pos, of "local_uc \<sigma>" "[uchar c]"]) (auto simp: fwd_ok_def)
  have "BUFFER_SIZE S = 0" using bufsize [OF b] assms(2) by simp
  then have "fputc_unlocked h \<sigma>0 c f = Some (if n = 0 then EOF else uint (uchar c), \<sigma>')"
    using assms(3) S v w(1) by (simp add: fputc_unlocked_def uchar_def [symmetric] Let_def store_mapped)
  moreover have "n = 0 \<or> n = 1" using w(2) by auto
  ultimately show ?thesis
    using that [of "if n = 0 then EOF else uint (uchar c)" \<sigma>' S'] only_stream_trans [OF os1 w(4)] w(3) by auto
qed

lemma fputc_out:
  assumes "out_stream h out \<sigma> f xs"
  shows "\<exists>r \<sigma>'. fputc_unlocked h \<sigma> c f = Some (r, \<sigma>') \<and> only_stream f \<sigma> \<sigma>' \<and>
    (r = EOF \<and> out_stream h out \<sigma>' f xs \<or> r = uint (uchar c) \<and> out_stream h out \<sigma>' f (xs @ [uchar c]))"
proof -
  obtain ok \<sigma>1 where r1: "ready_to_write \<sigma> f = Some (ok, \<sigma>1)" "only_stream f \<sigma> \<sigma>1" "out_stream h out \<sigma>1 f xs"
    and w1: "ok \<Longrightarrow> \<exists>S. out_writing h out \<sigma>1 f S xs"
    using ready_out [OF assms] by metis
  show ?thesis
  proof (cases ok)
    case False
    then have "fputc_unlocked h \<sigma> c f = Some (EOF, \<sigma>1)" using r1(1) by (simp add: fputc_unlocked_def)
    then show ?thesis using r1 by blast
  next
    case True
    then obtain S where S: "out_writing h out \<sigma>1 f S xs" using w1 by blast
    have rd: "ready_to_write \<sigma> f = Some (True, \<sigma>1)" using r1(1) True by simp
    have "\<exists>r \<sigma>' S'. fputc_unlocked h \<sigma> c f = Some (r, \<sigma>') \<and> only_stream f \<sigma>1 \<sigma>' \<and>
        (r = EOF \<and> out_writing h out \<sigma>' f S' xs \<or> r = uint (uchar c) \<and> out_writing h out \<sigma>' f S' (xs @ [uchar c]))"
    proof (cases "buflen S = 0")
      case True
      show ?thesis by (rule fputc_unbuffered [OF S True rd]) blast
    next
      case False
      show ?thesis by (rule fputc_buffered [OF S False rd]) blast
    qed
    then show ?thesis using only_stream_trans [OF r1(2)] out_stream_writing by metis
  qed
qed

section \<open>fwrite\<close>

lemma find_newline_block:
  "bytes_at m p bs \<Longrightarrow> find_newline m p (length bs) =
     Some (if newline \<in> set bs then Some (length (takeWhile (\<lambda>c. c \<noteq> newline) bs)) else None)"
  by (simp add: find_newline_def load_bytes_at)

text \<open>A block that the stream does not write to.\<close>

definition apart :: "'w stdio \<Rightarrow> addr \<Rightarrow> addr \<Rightarrow> nat \<Rightarrow> bool" where
  "apart \<sigma> f p n \<longleftrightarrow> (\<forall>S. files \<sigma> f = Some S \<longrightarrow> p + n \<le> bufstart S \<or> bufend S \<le> p) \<and>
     (local_uc \<sigma> < p \<or> p + n \<le> local_uc \<sigma>)"

lemma apart_bytes:
  assumes "only_stream f \<sigma> \<sigma>'" "apart \<sigma> f p (length bs)" "bytes_at (memory \<sigma>) p bs"
  shows "bytes_at (memory \<sigma>') p bs" and "apart \<sigma>' f p (length bs)"
proof -
  obtain S S' where S: "files \<sigma> f = Some S" "files \<sigma>' = (files \<sigma>)(f \<mapsto> S')" "bufstart S' = bufstart S" "bufend S' = bufend S"
      "local_uc \<sigma>' = local_uc \<sigma>"
    and m: "\<And>a. a < bufstart S \<or> bufend S \<le> a \<Longrightarrow> a \<noteq> local_uc \<sigma> \<Longrightarrow> memory \<sigma>' a = memory \<sigma> a"
    using assms(1) unfolding only_stream_def by blast
  show "apart \<sigma>' f p (length bs)" using assms(2) S by (simp add: apart_def)
  show "bytes_at (memory \<sigma>') p bs"
    using assms(3)
  proof (rule bytes_at_cong)
    fix a assume "p \<le> a" "a < p + length bs"
    then show "memory \<sigma>' a = memory \<sigma> a"
      using assms(2) S(1) by (intro m) (auto simp: apart_def)
  qed
qed

lemma out_writing_append:
  assumes "out_writing h out \<sigma> f S xs" "bytes_at (memory \<sigma>) p bs" "apart \<sigma> f p (length bs)"
    and "bufpos S + length bs \<le> bufend S"
  obtains m where "memcpy (memory \<sigma>) (bufpos S) p (length bs) = Some m"
    and "out_writing h out (put (\<sigma>\<lparr>memory := m\<rparr>) f (S\<lparr>bufpos := bufpos S + length bs\<rparr>)) f
      (S\<lparr>bufpos := bufpos S + length bs\<rparr>) (xs @ bs)"
    and "only_stream f \<sigma> (put (\<sigma>\<lparr>memory := m\<rparr>) f (S\<lparr>bufpos := bufpos S + length bs\<rparr>))"
proof -
  obtain cs where w: "writes_ok h out" "files \<sigma> f = Some S" "buffer_ok \<sigma> S" "lossless h S" "\<not> IS_FAKE S"
      "STREAM_IS_WRITING S" and cs: "bytes_at (memory \<sigma>) (bufstart S) cs" "bufpos S = bufstart S + length cs"
      "xs = out (world \<sigma>) (filedes S) @ cs"
    using assms(1) unfolding out_writing_def by blast
  let ?S = "S\<lparr>bufpos := bufpos S + length bs\<rparr>"
  let ?m = "write_bytes (memory \<sigma>) (bufpos S) bs"
  let ?\<sigma> = "put (\<sigma>\<lparr>memory := ?m\<rparr>) f ?S"
  have "mapped (memory \<sigma>) (bufstart S + length cs) (length bs)"
    using w(3) assms(4) cs(2) unfolding buffer_ok_def by (intro mapped_sub [of _ _ "buflen S"]) auto
  then have "memcpy (memory \<sigma>) (bufpos S) p (length bs) = Some ?m"
    using assms(2) cs(2) by (intro memcpy_block) simp_all
  moreover have "bytes_at ?m (bufstart S) (cs @ bs)"
    using cs by (simp add: bytes_at_write_disjoint disjoint_def)
  then have "out_writing h out ?\<sigma> f ?S (xs @ bs)"
    using w cs assms(4)
    by (intro out_writing_intro [of h out \<sigma> S _ f _ "cs @ bs"])
      (auto simp: flag_simps dom_write_bytes simp del: bytes_at_append)
  moreover have "only_stream f \<sigma> ?\<sigma>"
    unfolding only_stream_def
    by (rule exI [of _ S], rule exI [of _ ?S]) (use w assms(4) in \<open>auto simp: buffer_ok_def intro!: write_bytes_other\<close>)
  ultimately show ?thesis using that by blast
qed

lemma fwrite_direct:
  assumes "out_writing h out \<sigma> f S xs" "bytes_at (memory \<sigma>) p bs" "apart \<sigma> f p (length bs)" "bufpos S = bufstart S"
  shows "\<exists>n \<sigma>' S'. stdio_WRITE h \<sigma> f p (length bs) = Some (n, \<sigma>') \<and> n \<le> length bs \<and> only_stream f \<sigma> \<sigma>' \<and>
    out_writing h out \<sigma>' f S' (xs @ take n bs) \<and> (n < length bs \<longrightarrow> device_failed h \<sigma>' S')"
proof -
  have "files \<sigma> f = Some S" using assms(1) by (simp add: out_writing_def)
  then have "fwd_ok (bufstart S) p (length bs)"
    using assms(3) out_writing_ok [OF assms(1)] by (auto simp: apart_def fwd_ok_def buffer_ok_def)
  then show ?thesis using WRITE_out [OF assms(1,4,2)] by metis
qed

lemma fwrite_commit_out:
  assumes "out_writing h out \<sigma> f S (xs @ bs)" "bytes_at (memory \<sigma>) p bs" "apart \<sigma> f p (length bs)"
  shows "\<exists>n \<sigma>' S'. fwrite_commit h \<sigma> p (length bs) f = Some (n, \<sigma>') \<and> n \<le> length bs \<and> only_stream f \<sigma> \<sigma>' \<and>
    out_writing h out \<sigma>' f S' (xs @ take n bs) \<and> (n < length bs \<longrightarrow> device_failed h \<sigma>' S')"
proof -
  obtain k \<sigma>2 S2 where w2: "stdio_wcommit h \<sigma> f = Some (k, \<sigma>2)" "out_writing h out \<sigma>2 f S2 (xs @ bs)"
      "only_stream f \<sigma> \<sigma>2" "bufpos S2 = bufstart S2 + k" "k \<noteq> 0 \<longrightarrow> device_failed h \<sigma>2 S2"
    by (rule wcommit_out [OF assms(1)])
  have S2: "files \<sigma>2 f = Some S2" using w2(2) by (simp add: out_writing_def)
  define k' where "k' = min k (length bs)"
  let ?r = "drop (length bs - k') bs"
  define i where "i = length (takeWhile (\<lambda>c. c \<noteq> newline) ?r)"
  have "bytes_at (memory \<sigma>2) (p + (length bs - k')) ?r"
    using apart_bytes [OF w2(3) assms(3,2)] by (intro bytes_at_drop) simp_all
  moreover have lr: "length ?r = k'" by (simp add: k'_def)
  ultimately have fn: "find_newline (memory \<sigma>2) (p + (length bs - k')) k' = Some (if newline \<in> set ?r then Some i else None)"
    using find_newline_block by (metis i_def)
  let ?S3 = "S2\<lparr>bufpos := bufpos S2 - (k' - i)\<rparr>"
  have r: "fwrite_commit h \<sigma> p (length bs) f =
      (if 0 < k \<and> newline \<in> set ?r then Some (length bs - (k' - i), put \<sigma>2 f ?S3) else Some (length bs, \<sigma>2))"
    unfolding fwrite_commit_def using w2(1) fn S2 by (simp add: Let_def k'_def [symmetric])
  show ?thesis
  proof (cases "0 < k \<and> newline \<in> set ?r")
    case False
    then have "fwrite_commit h \<sigma> p (length bs) f = Some (length bs, \<sigma>2)" by (simp only: r if_False)
    then show ?thesis using w2 by auto
  next
    case True
    let ?n = "length bs - (k' - i)"
    have "i \<le> length ?r" unfolding i_def by (rule length_takeWhile_le)
    then have i: "i \<le> k'" using lr by simp
    have "k' \<le> length bs" by (simp add: k'_def)
    then have "length (drop ?n bs) = k' - i" by simp
    then have "out_writing h out (put \<sigma>2 f ?S3) f ?S3 (xs @ take ?n bs)"
      using out_writing_drop [of h out \<sigma>2 f S2 "xs @ take ?n bs" "drop ?n bs"] w2(2,4) by (simp add: k'_def)
    moreover have "only_stream f \<sigma>2 (put \<sigma>2 f ?S3)" by (rule only_stream_put [OF S2]) simp_all
    moreover have "fwrite_commit h \<sigma> p (length bs) f = Some (?n, put \<sigma>2 f ?S3)" using r True by (simp only: if_P)
    moreover have "device_failed h (put \<sigma>2 f ?S3) ?S3" using w2(5) True by (simp add: device_failed_def flag_simps)
    ultimately show ?thesis using only_stream_trans [OF w2(3)] diff_le_self by metis
  qed
qed

text \<open>The data fit the buffer: they are copied into it, and the buffer is committed if it must be.\<close>

lemma fwrite_buffer_out:
  assumes "out_writing h out \<sigma> f S xs" "bytes_at (memory \<sigma>) p bs" "apart \<sigma> f p (length bs)"
    and "bufpos S + length bs \<le> bufend S"
  shows "\<exists>n \<sigma>' S'. fwrite_buffer h \<sigma> p (length bs) f = Some (n, \<sigma>') \<and> n \<le> length bs \<and> only_stream f \<sigma> \<sigma>' \<and>
    out_writing h out \<sigma>' f S' (xs @ take n bs) \<and> (n < length bs \<longrightarrow> device_failed h \<sigma>' S')"
proof -
  have S: "files \<sigma> f = Some S" using assms(1) by (simp add: out_writing_def)
  let ?S1 = "S\<lparr>bufpos := bufpos S + length bs\<rparr>"
  obtain m where m: "memcpy (memory \<sigma>) (bufpos S) p (length bs) = Some m"
    and o1: "out_writing h out (put (\<sigma>\<lparr>memory := m\<rparr>) f ?S1) f ?S1 (xs @ bs)"
    and os1: "only_stream f \<sigma> (put (\<sigma>\<lparr>memory := m\<rparr>) f ?S1)"
    by (rule out_writing_append [OF assms])
  define \<sigma>1 where "\<sigma>1 = put (\<sigma>\<lparr>memory := m\<rparr>) f ?S1"
  note o1 = o1 [folded \<sigma>1_def] and os1 = os1 [folded \<sigma>1_def]
  have b1: "bytes_at (memory \<sigma>1) p bs" "apart \<sigma>1 f p (length bs)"
    using apart_bytes [OF os1 assms(3,2)] by blast+
  have m1: "memory \<sigma>1 = m" by (simp add: \<sigma>1_def)
  define commit where "commit \<longleftrightarrow> IS_STD_STREAM ?S1 \<or> STREAM_IS_LBF ?S1 \<and> newline \<in> set bs"
  have c: "(if IS_STD_STREAM ?S1 then Some True
        else if STREAM_IS_LBF ?S1 then map_option (\<lambda>p. p \<noteq> None) (find_newline m p (length bs)) else Some False) = Some commit"
    using find_newline_block [of m p bs] b1(1) m1 by (simp add: commit_def)
  have "fwrite_buffer h \<sigma> p (length bs) f =
      (if commit then fwrite_commit h \<sigma>1 p (length bs) f else Some (length bs, \<sigma>1))"
    unfolding fwrite_buffer_def using S m by (simp only: bind.bind_lunit Let_def c \<sigma>1_def)
  then show ?thesis
    using fwrite_commit_out [OF o1 b1] o1 os1 only_stream_trans [OF os1] by (cases commit) auto
qed

lemma stdio_fwrite_out:
  assumes "out_writing h out \<sigma> f S xs" "bytes_at (memory \<sigma>) p bs" "apart \<sigma> f p (length bs)"
  shows "\<exists>n \<sigma>' S'. stdio_fwrite h \<sigma> p (length bs) f = Some (n, \<sigma>') \<and> n \<le> length bs \<and> only_stream f \<sigma> \<sigma>' \<and>
    out_writing h out \<sigma>' f S' (xs @ take n bs) \<and> (n < length bs \<longrightarrow> device_failed h \<sigma>' S')"
proof -
  note b = out_writing_ok [OF assms(1)]
  have S: "files \<sigma> f = Some S" "\<not> IS_FAKE S" using assms(1) by (simp_all add: out_writing_def)
  let ?fits = "\<not> STREAM_IS_NBF S \<and> length bs \<le> size_t (BUFFER_WAVAIL S)"
  show ?thesis
  proof (cases ?fits)
    case True
    then have "length bs \<le> bufend S - bufpos S" using wavail [OF b, THEN conjunct2] by (simp only:)
    moreover have "bufpos S \<le> bufend S" using b by (simp add: buffer_ok_def)
    ultimately have "bufpos S + length bs \<le> bufend S" by simp
    moreover have "stdio_fwrite h \<sigma> p (length bs) f = fwrite_buffer h \<sigma> p (length bs) f"
      unfolding stdio_fwrite_def using S True by simp
    ultimately show ?thesis using fwrite_buffer_out [OF assms] by simp
  next
    case False
    let ?used = "\<not> STREAM_IS_NBF S \<and> BUFFER_WUSED S \<noteq> 0"
    have "\<exists>k \<sigma>1 S1. (if ?used then stdio_wcommit h \<sigma> f else Some (0, \<sigma>)) = Some (k, \<sigma>1) \<and>
        out_writing h out \<sigma>1 f S1 xs \<and> only_stream f \<sigma> \<sigma>1 \<and> (k = 0 \<longrightarrow> bufpos S1 = bufstart S1) \<and>
        (k \<noteq> 0 \<longrightarrow> device_failed h \<sigma>1 S1)"
    proof (cases ?used)
      case True
      show ?thesis
        by (rule wcommit_out [OF assms(1)]) (use True in auto)
    next
      case False
      then have "bufpos S = bufstart S" using b by (auto simp: buffer_ok_def BUFFER_WUSED_def)
      then show ?thesis using False assms(1) only_stream_refl [OF S(1)] by auto
    qed
    then obtain k \<sigma>1 S1 where c: "(if ?used then stdio_wcommit h \<sigma> f else Some (0, \<sigma>)) = Some (k, \<sigma>1)"
      and o1: "out_writing h out \<sigma>1 f S1 xs" "only_stream f \<sigma> \<sigma>1" "k = 0 \<longrightarrow> bufpos S1 = bufstart S1"
        "k \<noteq> 0 \<longrightarrow> device_failed h \<sigma>1 S1"
      by blast
    have r: "stdio_fwrite h \<sigma> p (length bs) f = (if k \<noteq> 0 then Some (0, \<sigma>1) else stdio_WRITE h \<sigma>1 f p (length bs))"
      unfolding stdio_fwrite_def by (simp only: S bind.bind_lunit simp_thms False if_False c prod.case)
    show ?thesis
    proof (cases "k = 0")
      case False
      then show ?thesis using r o1 by auto
    next
      case True
      then have "\<exists>n \<sigma>' S'. stdio_WRITE h \<sigma>1 f p (length bs) = Some (n, \<sigma>') \<and> n \<le> length bs \<and> only_stream f \<sigma>1 \<sigma>' \<and>
          out_writing h out \<sigma>' f S' (xs @ take n bs) \<and> (n < length bs \<longrightarrow> device_failed h \<sigma>' S')"
        using o1(3) apart_bytes [OF o1(2) assms(3,2)] by (intro fwrite_direct [OF o1(1)]) simp_all
      then show ?thesis using r True only_stream_trans [OF o1(2)] by auto
    qed
  qed
qed

lemma fwrite_out:
  assumes "out_stream h out \<sigma> f xs" "bytes_at (memory \<sigma>) p bs" "apart \<sigma> f p (length bs)"
    and "length bs = sz * nmemb" "sz \<noteq> 0" "nmemb \<noteq> 0" "nmemb \<le> SIZE_MAX div sz" and S: "files \<sigma> f = Some S"
  shows "\<exists>n \<sigma>' S'. fwrite_unlocked h \<sigma> p sz nmemb f = Some (n div sz, \<sigma>') \<and> n \<le> length bs \<and> only_stream f \<sigma> \<sigma>' \<and>
    files \<sigma>' f = Some S' \<and> out_stream h out \<sigma>' f (xs @ take n bs) \<and>
    (if can_write S then n < length bs \<longrightarrow> device_failed h \<sigma>' S' else n = 0 \<and> FERROR_UNLOCKED S')"
proof -
  obtain ok \<sigma>1 where r1: "ready_to_write \<sigma> f = Some (ok, \<sigma>1)" "only_stream f \<sigma> \<sigma>1" "out_stream h out \<sigma>1 f xs"
    and w1: "ok \<Longrightarrow> \<exists>S. out_writing h out \<sigma>1 f S xs" and cw: "ok \<longleftrightarrow> can_write S"
    and er: "\<not> ok \<Longrightarrow> \<exists>S'. files \<sigma>1 f = Some S' \<and> FERROR_UNLOCKED S'"
    using ready_out [OF assms(1)] S by metis
  show ?thesis
  proof (cases ok)
    case False
    then obtain S' where "files \<sigma>1 f = Some S'" "FERROR_UNLOCKED S'" using er by blast
    moreover have "fwrite_unlocked h \<sigma> p sz nmemb f = Some (0 div sz, \<sigma>1)"
      using r1(1) False by (simp add: fwrite_unlocked_def)
    ultimately show ?thesis using r1 False cw by (intro exI [of _ 0] exI [of _ \<sigma>1] exI [of _ S']) simp
  next
    case True
    then obtain S1 where S1: "out_writing h out \<sigma>1 f S1 xs" using w1 by blast
    obtain n \<sigma>' S' where w: "stdio_fwrite h \<sigma>1 p (length bs) f = Some (n, \<sigma>')" "n \<le> length bs" "only_stream f \<sigma>1 \<sigma>'"
        "out_writing h out \<sigma>' f S' (xs @ take n bs)" "n < length bs \<longrightarrow> device_failed h \<sigma>' S'"
      using stdio_fwrite_out [OF S1 apart_bytes [OF r1(2) assms(3,2)]] by blast
    have "fwrite_unlocked h \<sigma> p sz nmemb f = Some (n div sz, \<sigma>')"
      using r1(1) True w(1) assms(4-7) by (simp add: fwrite_unlocked_def)
    moreover have "files \<sigma>' f = Some S'" using w(4) by (simp add: out_writing_def)
    ultimately show ?thesis
      using w(2,5) only_stream_trans [OF r1(2) w(3)] out_stream_writing [OF w(4)] True cw
      by (intro exI [of _ n] exI [of _ \<sigma>'] exI [of _ S']) simp
  qed
qed

section \<open>fflush\<close>

lemma flush_stream_out:
  assumes "out_writing h out \<sigma> f S xs"
  obtains \<sigma>' and n :: nat where "flush_stream h \<sigma> f retval = Some (if n = 0 then retval else EOF, \<sigma>')"
    and "out_stream h out \<sigma>' f xs" "only_stream f \<sigma> \<sigma>'"
    and "n = 0 \<longrightarrow> out (world \<sigma>') (filedes S) = xs" "n \<noteq> 0 \<longrightarrow> (\<exists>S'. files \<sigma>' f = Some S' \<and> device_failed h \<sigma>' S')"
proof -
  obtain n \<sigma>1 S1 where w: "stdio_wcommit h \<sigma> f = Some (n, \<sigma>1)" "out_writing h out \<sigma>1 f S1 xs" "only_stream f \<sigma> \<sigma>1"
      "filedes S1 = filedes S" "bufpos S1 = bufstart S1 + n" "n \<noteq> 0 \<longrightarrow> device_failed h \<sigma>1 S1"
    by (rule wcommit_out [OF assms])
  have S1: "files \<sigma>1 f = Some S1" and ok: "writes_ok h out" "buffer_ok \<sigma>1 S1" "lossless h S1" "\<not> IS_FAKE S1"
    using w(2) by (simp_all add: out_writing_def)
  show ?thesis
  proof (cases "n = 0")
    case False
    then have "flush_stream h \<sigma> f retval = Some (if n = 0 then retval else EOF, \<sigma>1)"
      using w(1) S1 by (simp add: flush_stream_def)
    then show ?thesis using that [of n \<sigma>1] w(2,3,6) S1 False by (auto intro: out_stream_writing)
  next
    case True
    let ?S = "clear_flag FLAG_WRITING S1"
    let ?\<sigma> = "put \<sigma>1 f ?S"
    have xs: "xs = out (world \<sigma>1) (filedes S1)" using w(2,5) True by (auto simp: out_writing_def)
    have "buffer_ok ?\<sigma> ?S" using ok(2) by (intro buffer_ok_cong [OF ok(2)]) (auto simp: bit_simps buffer_ok_def)
    moreover have "lossless h ?S" by (rule lossless_cong [OF ok(3)]) (simp_all add: bit_simps)
    moreover have "pending ?\<sigma> ?S []" using w(5) True by (simp add: pending_def flag_simps bit_simps)
    ultimately have "out_stream h out ?\<sigma> f xs"
      using ok(1,4) xs by (auto simp: out_stream_def IS_FAKE_def)
    moreover have "flush_stream h \<sigma> f retval = Some (if n = 0 then retval else EOF, ?\<sigma>)"
      using w(1) S1 True by (simp add: flush_stream_def)
    moreover have "only_stream f \<sigma> ?\<sigma>" by (rule only_stream_trans [OF w(3) only_stream_put [OF S1]]) simp_all
    ultimately show ?thesis using that [of n ?\<sigma>] xs w(4) True by simp
  qed
qed

lemma fflush_out:
  assumes "out_stream h out \<sigma> f xs" "f \<noteq> NULL" "files \<sigma> f = Some S"
  shows "\<exists>r \<sigma>' S'. fflush_unlocked h \<sigma> f = Some (r, \<sigma>') \<and> out_stream h out \<sigma>' f xs \<and> only_stream f \<sigma> \<sigma>' \<and>
    files \<sigma>' f = Some S' \<and> (r = 0 \<and> out (world \<sigma>') (filedes S) = xs \<or> r = EOF \<and> device_failed h \<sigma>' S')"
proof (cases "STREAM_IS_WRITING S")
  case False
  then have "out (world \<sigma>) (filedes S) = xs"
    using assms(1,3) by (auto simp: out_stream_def pending_def)
  then show ?thesis
    using False assms only_stream_refl [OF assms(3)] by (simp add: fflush_unlocked_def)
next
  case True
  then have w: "out_writing h out \<sigma> f S xs"
    using assms(1,3) by (auto simp: out_stream_def out_writing_def pending_def)
  have r: "fflush_unlocked h \<sigma> f = flush_stream h \<sigma> f 0" using True assms by (simp add: fflush_unlocked_def)
  obtain \<sigma>' and n :: nat where f: "flush_stream h \<sigma> f 0 = Some (if n = 0 then 0 else EOF, \<sigma>')"
    "out_stream h out \<sigma>' f xs" "only_stream f \<sigma> \<sigma>'" "n = 0 \<longrightarrow> out (world \<sigma>') (filedes S) = xs"
    "n \<noteq> 0 \<longrightarrow> (\<exists>S'. files \<sigma>' f = Some S' \<and> device_failed h \<sigma>' S')"
    by (rule flush_stream_out [OF w])
  show ?thesis
  proof (cases "n = 0")
    case True
    moreover obtain S' where "files \<sigma>' f = Some S'" using f(2) by (auto simp: out_stream_def)
    ultimately show ?thesis using r f(1-4) by auto
  next
    case False
    then show ?thesis using r f(1-3,5) by auto
  qed
qed

section \<open>A line buffered stream whose device fails\<close>

text \<open>
  When the commit after a newline fails, \<open>__stdio_WRITE\<close> keeps the bytes before the newline, and
  \<open>fputc\<close> then takes one more byte back.
\<close>

definition dead :: "'w host \<Rightarrow> bool" where
  "dead h \<longleftrightarrow> (\<forall>w fd bs. sys_write h w fd bs = (None, w))"

definition line_stream :: "'w stdio \<Rightarrow> addr \<Rightarrow> FILE \<Rightarrow> byte list \<Rightarrow> bool" where
  "line_stream \<sigma> f S bs \<longleftrightarrow> files \<sigma> f = Some S \<and> buffer_ok \<sigma> S \<and> \<not> IS_FAKE S \<and> \<not> IS_STD_STREAM S \<and>
     STREAM_IS_WRITING S \<and> STREAM_IS_LBF S \<and> bytes_at (memory \<sigma>) (bufstart S) bs \<and>
     bufpos S = bufstart S + length bs \<and> newline \<notin> set bs"

lemma takeWhile_line: "newline \<notin> set bs \<Longrightarrow> kept_of True (bs @ [newline]) = bs"
  by (induction bs) auto

lemma dead_WRITE:
  assumes "dead h" "files \<sigma> f = Some S" "buffer_ok \<sigma> S" "STREAM_IS_LBF S" "bufpos S = bufstart S"
    and "bytes_at (memory \<sigma>) (bufstart S) (bs @ [newline])" "newline \<notin> set bs" "Suc (length bs) \<le> buflen S"
  shows "stdio_WRITE h \<sigma> f (bufstart S) (Suc (length bs)) =
    Some (length bs, put \<sigma> f ((set_flag FLAG_ERROR S)\<lparr>bufpos := bufstart S + length bs\<rparr>))"
proof -
  let ?bs = "bs @ [newline]"
  let ?S = "set_flag FLAG_ERROR S"
  have sz: "BUFFER_SIZE ?S = int (buflen S)" "size_t (int (buflen S)) = buflen S" "buflen S \<noteq> 0"
    using assms(3,8) by (auto simp: buffer_ok_def BUFFER_SIZE_def size_t_nat of_nat_diff)
  have data: "load_bytes (memory \<sigma>) (bufstart S) (min (Suc (length bs)) SSIZE_MAX) = Some (take (min (Suc (length bs)) SSIZE_MAX) ?bs)"
    by (rule load_bytes_at' [OF bytes_at_take [OF assms(6)]]) simp
  have "mapped (memory \<sigma>) (bufstart S) (Suc (length bs))"
    using assms(3,8) by (auto simp: buffer_ok_def intro: mapped_mono)
  then have sv: "save_unwritten (memory \<sigma>) True (bufstart S) (bufstart S) (Suc (length bs)) =
      Some (memory \<sigma>, bufstart S + length bs)"
    using save_unwritten_block [OF assms(6), of "bufstart S" True] takeWhile_line [OF assms(7)]
      write_bytes_same [OF assms(6)] by (simp add: fwd_ok_def)
  have "min (buflen S) (Suc (length bs)) = Suc (length bs)" "STREAM_IS_LBF ?S"
    using assms(4,8) by (simp_all add: flag_simps bit_simps min_def)
  then have "stdio_WRITE_loop h \<sigma> f (bufstart S) (Suc (length bs)) =
      Some (1, put \<sigma> f (?S\<lparr>bufpos := bufstart S + length bs\<rparr>))"
    using assms(1,2) data sz sv by (subst stdio_WRITE_loop.simps) (simp add: dead_def Let_def put_def)
  then show ?thesis by (simp add: stdio_WRITE_def)
qed

lemma fputc_newline_lost:
  assumes "dead h" "line_stream \<sigma> f S bs" "bufpos S < bufend S"
  shows "\<exists>\<sigma>'. fputc_unlocked h \<sigma> 10 f = Some (if bs = [] then 10 else EOF, \<sigma>') \<and>
    files \<sigma>' f = Some ((set_flag FLAG_ERROR S)\<lparr>bufpos := bufstart S + (length bs - 1)\<rparr>) \<and>
    bytes_at (memory \<sigma>') (bufstart S) (butlast bs)"
proof -
  have S: "files \<sigma> f = Some S" "buffer_ok \<sigma> S" "\<not> IS_FAKE S" "\<not> IS_STD_STREAM S" "STREAM_IS_WRITING S" "STREAM_IS_LBF S"
    and bs: "bytes_at (memory \<sigma>) (bufstart S) bs" "bufpos S = bufstart S + length bs" "newline \<notin> set bs"
    using assms(2) by (simp_all add: line_stream_def)
  let ?m = "(memory \<sigma>)(bufpos S \<mapsto> newline)"
  let ?S1 = "S\<lparr>bufpos := bufpos S + 1\<rparr>" and ?S2 = "S\<lparr>bufpos := bufstart S\<rparr>"
  let ?S3 = "(set_flag FLAG_ERROR S)\<lparr>bufpos := bufstart S + length bs\<rparr>"
  let ?\<sigma>1 = "put (\<sigma>\<lparr>memory := ?m\<rparr>) f ?S1" and ?\<sigma>2 = "put (\<sigma>\<lparr>memory := ?m\<rparr>) f ?S2"
    and ?\<sigma>3 = "put (\<sigma>\<lparr>memory := ?m\<rparr>) f ?S3"
  have "\<exists>v. memory \<sigma> (bufstart S + length bs) = Some v"
    using S(2) bs(2) assms(3) unfolding buffer_ok_def by (intro mapped_load [of _ _ "buflen S"]) auto
  then have add: "BUFFER_ADD \<sigma> f newline = Some ?\<sigma>1"
    using S(1) bs(2) by (auto simp: BUFFER_ADD_def store_mapped)
  have m: "bytes_at ?m (bufstart S) (bs @ [newline])" using bs by (simp add: bytes_at_upd_other)
  have "buffer_ok ?\<sigma>2 ?S2" using S(2) by (intro buffer_ok_cong [OF S(2)]) (auto simp: buffer_ok_def)
  then have W: "stdio_WRITE h ?\<sigma>2 f (bufstart S) (Suc (length bs)) =
      Some (length bs, put ?\<sigma>2 f ((set_flag FLAG_ERROR ?S2)\<lparr>bufpos := bufstart S + length bs\<rparr>))"
    using dead_WRITE [OF assms(1), of ?\<sigma>2 f ?S2 bs] S m bs assms(3) by (simp add: flag_simps)
  have u: "BUFFER_WUSED ?S1 = int (Suc (length bs))" "size_t (int (Suc (length bs))) = Suc (length bs)"
      "BUFFER_WUSED ?S3 = int (length bs)" "size_t (int (length bs)) = length bs"
    using S(2) bs(2) assms(3) by (auto simp: BUFFER_WUSED_def buffer_ok_def size_t_nat)
  have s3: "(set_flag FLAG_ERROR ?S2)\<lparr>bufpos := bufstart S + length bs\<rparr> = ?S3" by (simp add: set_flag_def)
  have "files ?\<sigma>1 f = Some ?S1" "BUFFER_WUSED ?S1 \<noteq> 0" using u(1) by simp_all
  moreover have u': "size_t (BUFFER_WUSED ?S1) = Suc (length bs)" "size_t (BUFFER_WUSED ?S3) = length bs"
    using u(2,4) unfolding u(1,3) by blast+
  ultimately have commit: "stdio_wcommit h ?\<sigma>1 f = Some (length bs, ?\<sigma>3)"
    unfolding stdio_wcommit_def using W [unfolded s3] u' by simp
  have "BUFFER_WAVAIL S \<noteq> 0" "BUFFER_SIZE S \<noteq> 0"
    using S(2) assms(3) by (auto simp: BUFFER_WAVAIL_def BUFFER_SIZE_def buffer_ok_def)
  then have "fputc_unlocked h \<sigma> 10 f =
      (if length bs \<noteq> 0 then Some (EOF, put ?\<sigma>3 f (BUFFER_UNADD ?S3)) else Some (10, ?\<sigma>3))"
    using S add commit
    by (simp add: fputc_unlocked_def ready_to_write_def Let_def flag_simps IS_STD_STREAM_def)
  moreover have "bytes_at ?m (bufstart S) (butlast bs)"
    using bytes_at_take [OF m, of "length bs - 1"] by (simp add: butlast_conv_take)
  ultimately show ?thesis by (cases bs) (auto simp: BUFFER_UNADD_def)
qed

section \<open>Properties\<close>

text \<open>
  An example: a device that accepts three bytes at a time and fails once it holds five, and a stream on
  it with a buffer of four bytes at address 100. The eight bytes from 105 on are data.
\<close>

definition slow_device :: "(int \<Rightarrow> byte list) host" where
  "slow_device = \<lparr>sys_read = \<lambda>w fd n. (Some [], w),
     sys_write = \<lambda>w fd bs. if 5 \<le> length (w fd) then (None, w) else (Some (min 3 (length bs)), w(fd := w fd @ take 3 bs)),
     sys_lseek = \<lambda>w fd off whence. (0, w), sys_close = \<lambda>w fd. (0, w)\<rparr>"

definition demo_file :: "16 word \<Rightarrow> FILE" where
  "demo_file fl = \<lparr>modeflags = fl, ungot = \<lambda>_. 0, filedes = 5, bufstart = 100, bufend = 104, bufpos = 100, bufread = 100,
     nextopen = NULL, user_locking = 0, builtinbuf = 0\<rparr>"

definition demo_state :: "16 word \<Rightarrow> (int \<Rightarrow> byte list) stdio" where
  "demo_state fl = \<lparr>memory = mem_of 100 [0, 0, 0, 0, 0, 1, 2, 3, 4, 5, 6, 7, 8], files = [1 \<mapsto> demo_file fl],
     stdio_openlist = 1, errno = 0, local_uc = 104, stdio_user_locking = 0, world = \<lambda>_. []\<rparr>"

lemma slow_device_ok: "writes_ok slow_device (\<lambda>w. w)"
  by (auto simp: writes_ok_def slow_device_def min_def fun_eq_iff)

lemma demo_buffer: "\<not> bit fl 9 \<Longrightarrow> buffer_ok (demo_state fl) (demo_file fl)"
  by (simp add: buffer_ok_def demo_state_def demo_file_def mem_of_eval dom_def flag_simps)

lemma demo_written: "written (\<lambda>w. w) (demo_state 0) 1 []"
  unfolding written_def using demo_buffer [of 0]
  by (intro conjI exI [of _ "demo_file 0"] exI [of _ "[]"])
    (simp_all add: demo_state_def demo_file_def pending_def flag_simps IS_FAKE_def)

lemma demo_out: "out_stream slow_device (\<lambda>w. w) (demo_state 0) 1 []"
  unfolding out_stream_def using slow_device_ok demo_buffer [of 0]
  by (intro conjI exI [of _ "demo_file 0"] exI [of _ "[]"])
    (simp_all add: demo_state_def demo_file_def lossless_def pending_def flag_simps IS_FAKE_def)

text \<open>\<open>fputc\<close> on a stream that is not line buffered, or whose device does not fail: it returns either the
  character, and then exactly that character has been appended to what was written through
  the stream, or \<open>EOF\<close>, and then nothing has been appended and nothing lost. \<open>out_stream\<close> counts what
  the device has accepted together with what waits in the buffer.\<close>

lemma fputc_appends:
  assumes "out_stream h out \<sigma> f xs"
  shows "\<exists>r \<sigma>'. fputc_unlocked h \<sigma> c f = Some (r, \<sigma>') \<and> only_stream f \<sigma> \<sigma>' \<and>
    (r = EOF \<and> out_stream h out \<sigma>' f xs \<or> r = uint (uchar c) \<and> out_stream h out \<sigma>' f (xs @ [uchar c]))"
  using assms by (rule fputc_out)

theorem fputc_appends_witness:
  "\<exists>r \<sigma>'. fputc_unlocked slow_device (demo_state 0) 300 1 = Some (r, \<sigma>') \<and> only_stream 1 (demo_state 0) \<sigma>' \<and>
    (r = EOF \<and> out_stream slow_device (\<lambda>w. w) \<sigma>' 1 [] \<or>
     r = uint (uchar 300) \<and> out_stream slow_device (\<lambda>w. w) \<sigma>' 1 [uchar 300])"
  using fputc_appends [OF demo_out, of 300] by simp



text \<open>C14. \<open>fflush\<close> on a stream that is not line buffered, or has no buffer, or whose device never fails, loses nothing: it
  returns 0, and then the device has accepted everything that was written through the stream, in the order in which it was
  written; or it returns \<open>EOF\<close>, and then the last system call was a failed \<open>write\<close> to the device and the error flag is set.\<close>

theorem fflush_delivers:
  assumes "writes_ok h out" "files \<sigma> f = Some S" "lossless h S" "written out \<sigma> f xs" "f \<noteq> NULL"
  shows "\<exists>r \<sigma>' S'. fflush_unlocked h \<sigma> f = Some (r, \<sigma>') \<and> written out \<sigma>' f xs \<and> only_stream f \<sigma> \<sigma>' \<and>
    files \<sigma>' f = Some S' \<and> (r = 0 \<and> out (world \<sigma>') (filedes S) = xs \<or> r = EOF \<and> device_failed h \<sigma>' S')"
proof -
  have "out_stream h out \<sigma> f xs" unfolding out_stream_iff using assms(1-4) by blast
  from fflush_out [OF this assms(5,2)] show ?thesis unfolding out_stream_iff by blast
qed

text \<open>A stream that is being written, with the bytes 7 and 8 in its buffer: the device is empty and takes them.\<close>

definition two_waiting :: "(int \<Rightarrow> byte list) stdio" where
  "two_waiting = put ((demo_state 0)\<lparr>memory := mem_of 100 [7, 8, 0, 0, 0]\<rparr>) 1 ((demo_file FLAG_WRITING)\<lparr>bufpos := 102\<rparr>)"

theorem fflush_delivers_witness:
  "\<exists>\<sigma>'. fflush_unlocked slow_device two_waiting 1 = Some (0, \<sigma>') \<and> world \<sigma>' 5 = [7, 8]"
proof -
  let ?S = "(demo_file FLAG_WRITING)\<lparr>bufpos := 102\<rparr>"
  have S: "files two_waiting 1 = Some ?S" "lossless slow_device ?S"
    by (simp_all add: two_waiting_def demo_file_def lossless_def flag_simps)
  have "written (\<lambda>w. w) two_waiting 1 [7, 8]"
    unfolding written_def
    by (intro exI [of _ ?S] exI [of _ "[7, 8]"])
      (simp add: two_waiting_def demo_state_def demo_file_def buffer_ok_def pending_def flag_simps IS_FAKE_def mem_of_eval dom_def put_def)
  from fflush_delivers [OF slow_device_ok S this] obtain r \<sigma>' S' where r: "fflush_unlocked slow_device two_waiting 1 = Some (r, \<sigma>')"
    "written (\<lambda>w. w) \<sigma>' 1 [7, 8]" "only_stream 1 two_waiting \<sigma>'" "files \<sigma>' 1 = Some S'"
    "r = 0 \<and> world \<sigma>' 5 = [7, 8] \<or> r = EOF \<and> device_failed slow_device \<sigma>' S'"
    by (auto simp: demo_file_def)
  have "\<not> device_failed slow_device \<sigma>' S'"
  proof
    assume "device_failed slow_device \<sigma>' S'"
    then have "5 \<le> length (world \<sigma>' (filedes S'))"
      by (auto simp: device_failed_def write_failed_def slow_device_def split: if_splits)
    moreover obtain bs where "[7, 8] = world \<sigma>' (filedes S') @ bs" using r(2,4) by (auto simp: written_def)
    then have "length [7, 8 :: byte] = length (world \<sigma>' (filedes S')) + length bs" by (metis length_append)
    ultimately show False by simp
  qed
  then show ?thesis using r(1,5) by blast
qed

text \<open>Line buffered streams are different: \<open>fputc\<close> of a newline on a line buffered stream whose device fails
  takes back one byte too many. With bytes waiting it returns \<open>EOF\<close> and drops the last of them, which an earlier
  \<open>fputc\<close> had accepted; with an empty buffer it reports the newline as written although it is nowhere.\<close>

lemma fputc_newline_loses:
  assumes "dead h" "line_stream \<sigma> f S bs" "bufpos S < bufend S"
  shows "\<exists>\<sigma>'. fputc_unlocked h \<sigma> 10 f = Some (if bs = [] then 10 else EOF, \<sigma>') \<and>
    files \<sigma>' f = Some ((set_flag FLAG_ERROR S)\<lparr>bufpos := bufstart S + (length bs - 1)\<rparr>) \<and>
    bytes_at (memory \<sigma>') (bufstart S) (butlast bs)"
  using assms by (rule fputc_newline_lost)

text \<open>Two bytes wait in the buffer; after the newline is refused one is left.\<close>

theorem fputc_newline_loses_witness:
  "\<exists>\<sigma>'. fputc_unlocked (slow_device\<lparr>sys_write := \<lambda>w fd bs. (None, w)\<rparr>)
      (put (demo_state 0)  1 ((demo_file (FLAG_WRITING OR FLAG_LBF))\<lparr>bufpos := 102\<rparr>)) 10 1 = Some (EOF, \<sigma>') \<and>
    map_option bufpos (files \<sigma>' 1) = Some 101"
proof -
  let ?h = "slow_device\<lparr>sys_write := \<lambda>w fd bs. (None, w)\<rparr>"
  let ?S = "(demo_file (FLAG_WRITING OR FLAG_LBF))\<lparr>bufpos := 102\<rparr>"
  let ?\<sigma> = "put (demo_state 0) 1 ?S"
  have "line_stream ?\<sigma> 1 ?S [0, 0]"
    by (simp add: line_stream_def demo_state_def demo_file_def flag_simps IS_FAKE_def IS_STD_STREAM_def buffer_ok_def
      mem_of_eval dom_def put_def)
  moreover have "dead ?h" by (simp add: dead_def)
  ultimately show ?thesis
    using fputc_newline_loses [of ?h ?\<sigma> 1 ?S "[0, 0]"] by (auto simp: demo_file_def)
qed

end
