(* ===== verification/Stdio_In.thy ===== *)
theory Stdio_In
  imports Stdio_Out
begin

text \<open>
  Reading streams: \<open>__stdio_READ\<close>, \<open>__stdio_rfill\<close>, \<open>__stdio_trans2r\<close>, \<open>fgetc\<close>, \<open>ungetc\<close>,
  \<open>fread\<close>, \<open>fgets\<close> and \<open>gets\<close>. The abstraction of a reading stream is the sequence of bytes still to
  come: the characters pushed back, the rest of the buffer, and what the device has left.
\<close>

section \<open>The code\<close>

definition stdio_READ :: "'w host \<Rightarrow> 'w stdio \<Rightarrow> addr \<Rightarrow> addr \<Rightarrow> nat \<Rightarrow> (nat \<times> 'w stdio) option" where
  "stdio_READ h \<sigma> f buf bufsize = do {
     S \<leftarrow> files \<sigma> f;
     if FEOF_UNLOCKED S then Some (0, \<sigma>)
     else do {
       let (rv, w) = sys_read h (world \<sigma>) (filedes S) (min bufsize SSIZE_MAX);
       let \<sigma> = \<sigma>\<lparr>world := w\<rparr>;
       case rv of
         None \<Rightarrow> Some (0, put \<sigma> f (set_flag FLAG_ERROR S))
       | Some bs \<Rightarrow>
           if bs = [] then Some (0, put \<sigma> f (set_flag FLAG_EOF S))
           else do {
             m \<leftarrow> store_bytes (memory \<sigma>) buf bs;
             Some (length bs, \<sigma>\<lparr>memory := m\<rparr>) } } }"

definition stdio_rfill :: "'w host \<Rightarrow> 'w stdio \<Rightarrow> addr \<Rightarrow> (nat \<times> 'w stdio) option" where
  "stdio_rfill h \<sigma> f = do {
     S \<leftarrow> files \<sigma> f;
     (rv, \<sigma>) \<leftarrow> stdio_READ h \<sigma> f (bufstart S) (size_t (BUFFER_SIZE S));
     S \<leftarrow> files \<sigma> f;
     Some (rv, put \<sigma> f (S\<lparr>bufpos := bufstart S, bufread := bufstart S + rv\<rparr>)) }"

definition stdio_trans2r :: "'w stdio \<Rightarrow> addr \<Rightarrow> (int \<times> 'w stdio) option" where
  "stdio_trans2r \<sigma> f = do {
     S \<leftarrow> files \<sigma> f;
     let do_ebadf = (EOF, put (\<sigma>\<lparr>errno := EBADF\<rparr>) f (set_flag FLAG_ERROR S));
     if STREAM_IS_WRITEONLY S then Some do_ebadf
     else if STREAM_IS_WRITING S then Some do_ebadf
     else Some (0, put \<sigma> f (set_flag FLAG_READING S)) }"

definition ready_to_read :: "'w stdio \<Rightarrow> addr \<Rightarrow> (bool \<times> 'w stdio) option" where
  "ready_to_read \<sigma> f = do {
     S \<leftarrow> files \<sigma> f;
     if STREAM_IS_READING S then Some (True, \<sigma>)
     else do { (r, \<sigma>) \<leftarrow> stdio_trans2r \<sigma> f; Some (r = 0, \<sigma>) } }"

text \<open>\<open>uc = __ungot[(__modeflags--) & 1]; __ungot[1] = 0;\<close>\<close>

definition take_ungot :: "FILE \<Rightarrow> byte \<times> FILE" where
  "take_ungot S = (ungot S (unat (modeflags S AND 1)),
     S\<lparr>modeflags := modeflags S - 1, ungot := (ungot S)(1 := 0)\<rparr>)"

definition fgetc_unlocked :: "'w host \<Rightarrow> 'w stdio \<Rightarrow> addr \<Rightarrow> (int \<times> 'w stdio) option" where
  "fgetc_unlocked h \<sigma> f = do {
     (ok, \<sigma>) \<leftarrow> ready_to_read \<sigma> f;
     if \<not> ok then Some (EOF, \<sigma>)
     else do {
       S \<leftarrow> files \<sigma> f;
       if STREAM_HAS_UNGOT S then (let (uc, S) = take_ungot S in Some (uint uc, put \<sigma> f S))
       else if BUFFER_RAVAIL S \<noteq> 0 then do { (c, \<sigma>) \<leftarrow> BUFFER_GET \<sigma> f; Some (uint c, \<sigma>) }
       else if IS_FAKE S then Some (EOF, put \<sigma> f (set_flag FLAG_EOF S))
       else do {
         \<sigma> \<leftarrow> (if STREAM_IS_FBF S then Some \<sigma> else FLUSH_LBF_STREAMS h \<sigma>);
         S \<leftarrow> files \<sigma> f;
         if BUFFER_SIZE S \<noteq> 0 then do {
           (n, \<sigma>) \<leftarrow> stdio_rfill h \<sigma> f;
           if n \<noteq> 0 then do { (c, \<sigma>) \<leftarrow> BUFFER_GET \<sigma> f; Some (uint c, \<sigma>) }
           else Some (EOF, \<sigma>) }
         else do {
           (n, \<sigma>) \<leftarrow> stdio_READ h \<sigma> f (local_uc \<sigma>) 1;
           if n \<noteq> 0 then do { c \<leftarrow> memory \<sigma> (local_uc \<sigma>); Some (uint c, \<sigma>) }
           else Some (EOF, \<sigma>) } } } }"

definition ungetc :: "'w stdio \<Rightarrow> int \<Rightarrow> addr \<Rightarrow> (int \<times> 'w stdio) option" where
  "ungetc \<sigma> c f = do {
     (ok, \<sigma>) \<leftarrow> ready_to_read \<sigma> f;
     S \<leftarrow> files \<sigma> f;
     if \<not> ok \<or> STREAM_HAS_UNGOT S \<and> (any_of (modeflags S) 1 \<or> ungot S 1 \<noteq> 0) then Some (EOF, \<sigma>)
     else if c \<noteq> EOF then do {
       let flags = modeflags S + 1;
       let u = (ungot S)(1 := 1);
       let S = S\<lparr>modeflags := flags, ungot := u(unat (flags AND 1) := word_of_int c)\<rparr>;
       Some (c, put \<sigma> f (clear_flag FLAG_EOF S)) }
     else Some (c, \<sigma>) }"

text \<open>\<open>while (__modeflags & __FLAG_UNGOT)\<close> of \<open>fread\<close>, entered with \<open>todo > 0\<close>.\<close>

partial_function (option) fread_ungots ::
    "'w stdio \<Rightarrow> addr \<Rightarrow> addr \<Rightarrow> nat \<Rightarrow> ('w stdio \<times> addr \<times> nat) option" where
  "fread_ungots \<sigma> f buffer todo = do {
     S \<leftarrow> files \<sigma> f;
     if STREAM_HAS_UNGOT S then do {
       let (uc, S) = take_ungot S;
       m \<leftarrow> store (memory \<sigma>) buffer uc;
       let \<sigma> = put (\<sigma>\<lparr>memory := m\<rparr>) f S;
       if todo - 1 = 0 then Some (\<sigma>, buffer + 1, 0)
       else fread_ungots \<sigma> f (buffer + 1) (todo - 1) }
     else Some (\<sigma>, buffer, todo) }"

text \<open>The rest of the buffer.\<close>

definition fread_buffered ::
    "'w stdio \<Rightarrow> addr \<Rightarrow> addr \<Rightarrow> nat \<Rightarrow> ('w stdio \<times> addr \<times> nat) option" where
  "fread_buffered \<sigma> f buffer todo = do {
     S \<leftarrow> files \<sigma> f;
     let avail = size_t (BUFFER_RAVAIL S);
     if avail > 0 then do {
       let avail = min avail todo;
       m \<leftarrow> memcpy (memory \<sigma>) buffer (bufpos S) avail;
       Some (put (\<sigma>\<lparr>memory := m\<rparr>) f (S\<lparr>bufpos := bufpos S + avail\<rparr>), buffer + avail, todo - avail) }
     else Some (\<sigma>, buffer, todo) }"

text \<open>\<open>while ((avail = __stdio_READ(stream, buffer, todo)) > 0)\<close>; the result is what is left of \<open>todo\<close>.\<close>

partial_function (option) fread_loop ::
    "'w host \<Rightarrow> 'w stdio \<Rightarrow> addr \<Rightarrow> addr \<Rightarrow> nat \<Rightarrow> (nat \<times> 'w stdio) option" where
  "fread_loop h \<sigma> f buffer todo = do {
     (avail, \<sigma>) \<leftarrow> stdio_READ h \<sigma> f buffer todo;
     if avail > 0 then
       if todo - avail = 0 then Some (0, \<sigma>) else fread_loop h \<sigma> f (buffer + avail) (todo - avail)
     else Some (todo, \<sigma>) }"

definition fread_bytes :: "'w host \<Rightarrow> 'w stdio \<Rightarrow> addr \<Rightarrow> nat \<Rightarrow> addr \<Rightarrow> (nat \<times> 'w stdio) option" where
  "fread_bytes h \<sigma> ptr bytes f = do {
     (\<sigma>, buffer, todo) \<leftarrow> fread_ungots \<sigma> f ptr bytes;
     if todo = 0 then Some (0, \<sigma>)
     else do {
       (\<sigma>, buffer, todo) \<leftarrow> fread_buffered \<sigma> f buffer todo;
       if todo = 0 then Some (0, \<sigma>)
       else do {
         S \<leftarrow> files \<sigma> f;
         \<sigma> \<leftarrow> (if STREAM_IS_FBF S then Some \<sigma> else FLUSH_LBF_STREAMS h \<sigma>);
         fread_loop h \<sigma> f buffer todo } } }"

definition fread_unlocked ::
    "'w host \<Rightarrow> 'w stdio \<Rightarrow> addr \<Rightarrow> nat \<Rightarrow> nat \<Rightarrow> addr \<Rightarrow> (nat \<times> 'w stdio) option" where
  "fread_unlocked h \<sigma> ptr sz nmemb f = do {
     (ok, \<sigma>) \<leftarrow> ready_to_read \<sigma> f;
     if ok \<and> sz \<noteq> 0 \<and> nmemb \<noteq> 0 then
       if nmemb \<le> SIZE_MAX div sz then do {
         (todo, \<sigma>) \<leftarrow> fread_bytes h \<sigma> ptr (sz * nmemb) f;
         Some ((sz * nmemb - todo) div sz, \<sigma>) }
       else do {
         S \<leftarrow> files \<sigma> f;
         Some (0, put (\<sigma>\<lparr>errno := EINVAL\<rparr>) f (set_flag FLAG_ERROR S)) }
     else Some (0, \<sigma>) }"

text \<open>\<open>while (--n)\<close> of \<open>fgets\<close>, entered with \<open>n > 0\<close>: \<open>None\<close> as the pointer is the jump to \<open>ERROR\<close>.\<close>

fun fgets_loop :: "'w host \<Rightarrow> 'w stdio \<Rightarrow> addr \<Rightarrow> nat \<Rightarrow> addr \<Rightarrow> (addr option \<times> 'w stdio) option" where
  "fgets_loop h \<sigma> p 0 f = Some (Some p, \<sigma>)"
| "fgets_loop h \<sigma> p (Suc n) f =
     (if n = 0 then Some (Some p, \<sigma>)
      else do {
        (c, \<sigma>) \<leftarrow> fgetc_unlocked h \<sigma> f;
        if c = EOF then do {
          S \<leftarrow> files \<sigma> f;
          Some (if FERROR_UNLOCKED S then None else Some p, \<sigma>) }
        else do {
          m \<leftarrow> store (memory \<sigma>) p (word_of_int c);
          let \<sigma> = \<sigma>\<lparr>memory := m\<rparr>;
          if (word_of_int c :: byte) = newline then Some (Some (p + 1), \<sigma>)
          else fgets_loop h \<sigma> (p + 1) n f } })"

definition fgets_unlocked :: "'w host \<Rightarrow> 'w stdio \<Rightarrow> addr \<Rightarrow> int \<Rightarrow> addr \<Rightarrow> (addr \<times> 'w stdio) option" where
  "fgets_unlocked h \<sigma> s n f =
     (if n \<le> 0 then Some (NULL, \<sigma>)
      else do {
        (p, \<sigma>) \<leftarrow> fgets_loop h \<sigma> s (nat n) f;
        case p of
          None \<Rightarrow> Some (NULL, \<sigma>)
        | Some p \<Rightarrow>
            if s < p then do { m \<leftarrow> store (memory \<sigma>) p 0; Some (s, \<sigma>\<lparr>memory := m\<rparr>) }
            else Some (NULL, \<sigma>) })"

text \<open>\<open>while (((c = getchar()) != EOF) && ((*p = c) != '\n')) ++p;\<close>, then the end of \<open>gets\<close>.\<close>

partial_function (option) gets_loop :: "'w host \<Rightarrow> 'w stdio \<Rightarrow> addr \<Rightarrow> addr \<Rightarrow> (int \<times> addr \<times> 'w stdio) option" where
  "gets_loop h \<sigma> p stdin = do {
     (c, \<sigma>) \<leftarrow> fgetc_unlocked h \<sigma> stdin;
     if c = EOF then Some (c, p, \<sigma>)
     else do {
       m \<leftarrow> store (memory \<sigma>) p (word_of_int c);
       let \<sigma> = \<sigma>\<lparr>memory := m\<rparr>;
       if (word_of_int c :: byte) = newline then Some (c, p, \<sigma>)
       else gets_loop h \<sigma> (p + 1) stdin } }"

definition gets :: "'w host \<Rightarrow> 'w stdio \<Rightarrow> addr \<Rightarrow> addr \<Rightarrow> (addr \<times> 'w stdio) option" where
  "gets h \<sigma> s stdin = do {
     (c, p, \<sigma>) \<leftarrow> gets_loop h \<sigma> s stdin;
     if c = EOF \<or> s = p then Some (NULL, \<sigma>)
     else do { m \<leftarrow> store (memory \<sigma>) p 0; Some (s, \<sigma>\<lparr>memory := m\<rparr>) } }"

section \<open>Characters pushed back\<close>

definition ungots :: "FILE \<Rightarrow> byte list" where
  "ungots S = (if bit (modeflags S) 1 then if bit (modeflags S) 0 then [ungot S 1, ungot S 0] else [ungot S 0] else [])"

lemma ungots_bufpos [simp]: "ungots (S\<lparr>bufpos := p\<rparr>) = ungots S"
  by (simp add: ungots_def)

lemma and_one16: "unat (m AND 1 :: 16 word) = (if bit m 0 then 1 else 0)"
proof -
  have "m AND 1 = (if bit m 0 then 1 else 0)" by (intro bit_word_eqI) (auto simp: bit_and_iff bit_1_iff intro: gr0I)
  then show ?thesis by simp
qed

lemma take_ungot_flags:
  assumes "bit (modeflags S) 1"
  shows "bit (modeflags (snd (take_ungot S))) k =
    (if k = 0 then \<not> bit (modeflags S) 0 else if k = 1 then bit (modeflags S) 0 else bit (modeflags S) k)"
  using assms by (auto simp: take_ungot_def flags_dec bit_simps)

lemma take_ungot_ungots:
  assumes "STREAM_HAS_UNGOT S"
  shows "ungots S = fst (take_ungot S) # ungots (snd (take_ungot S))"
proof -
  have b: "bit (modeflags S) 1" using assms by (simp add: flag_simps)
  have u: "ungot (snd (take_ungot S)) = (ungot S)(1 := 0)" "fst (take_ungot S) = ungot S (if bit (modeflags S) 0 then 1 else 0)"
    by (simp_all add: take_ungot_def and_one16)
  show ?thesis
    unfolding ungots_def take_ungot_flags [OF b] u using b by simp
qed

lemma take_ungot_simps [simp]:
  "filedes (snd (take_ungot S)) = filedes S" "bufstart (snd (take_ungot S)) = bufstart S"
  "bufend (snd (take_ungot S)) = bufend S" "bufpos (snd (take_ungot S)) = bufpos S"
  "bufread (snd (take_ungot S)) = bufread S" "nextopen (snd (take_ungot S)) = nextopen S"
  by (simp_all add: take_ungot_def)

section \<open>The open list\<close>

text \<open>The streams \<open>ps\<close> are the list that starts at \<open>p\<close>.\<close>

fun open_chain :: "'w stdio \<Rightarrow> addr \<Rightarrow> addr list \<Rightarrow> bool" where
  "open_chain \<sigma> p [] = (p = NULL)"
| "open_chain \<sigma> p (q # qs) = (p = q \<and> q \<noteq> NULL \<and> (\<exists>S. files \<sigma> q = Some S \<and> open_chain \<sigma> (nextopen S) qs))"

text \<open>No stream of the open list is line buffered and writing, so there is nothing to flush before a read.\<close>

definition line_writer :: "FILE \<Rightarrow> bool" where
  "line_writer S \<longleftrightarrow> STREAM_IS_WRITING S \<and> STREAM_IS_LBF S \<and> \<not> STREAM_IS_NBF S"

definition line_quiet :: "'w stdio \<Rightarrow> bool" where
  "line_quiet \<sigma> \<longleftrightarrow> (\<exists>ps. open_chain \<sigma> (stdio_openlist \<sigma>) ps \<and>
     (\<forall>p\<in>set ps. \<forall>S. files \<sigma> p = Some S \<longrightarrow> \<not> line_writer S))"

lemma flush_selects:
  "any_of ((m OR bufmask) XOR (FLAG_WRITING OR FLAG_LBF)) (FLAG_WRITING OR MASK_BUFMODE) \<longleftrightarrow>
     \<not> (bit (m OR bufmask) 6 \<and> bit (m OR bufmask) 8 \<and> \<not> bit (m OR bufmask) 9)"
proof -
  let ?x = "(m OR bufmask) XOR (FLAG_WRITING OR FLAG_LBF)"
  have "any_of ?x (FLAG_WRITING OR MASK_BUFMODE) \<longleftrightarrow> bit ?x 6 \<or> bit ?x 8 \<or> bit ?x 9"
    by (simp only: any_of_or flag_simps)
  then show ?thesis by (simp add: bit_simps)
qed

lemma flush_list_quiet:
  "open_chain \<sigma> p ps \<Longrightarrow> \<forall>q\<in>set ps. \<forall>S. files \<sigma> q = Some S \<longrightarrow> \<not> line_writer S \<Longrightarrow>
     flush_list h \<sigma> 0 p r = Some (r, \<sigma>)"
proof (induction ps arbitrary: p)
  case Nil
  then show ?case by (simp add: flush_list.simps)
next
  case (Cons q ps)
  then obtain S where S: "p = q" "q \<noteq> NULL" "files \<sigma> q = Some S" "open_chain \<sigma> (nextopen S) ps" by auto
  then have "\<not> line_writer S" using Cons.prems(2) by simp
  then have "any_of ((modeflags S OR 0) XOR (FLAG_WRITING OR FLAG_LBF)) (FLAG_WRITING OR MASK_BUFMODE)"
    unfolding flush_selects by (simp add: line_writer_def flag_simps)
  moreover have "flush_list h \<sigma> 0 (nextopen S) r = Some (r, \<sigma>)" using Cons S by simp
  ultimately show ?case using S(1-3) by (subst flush_list.simps) simp
qed

lemma FLUSH_quiet: "line_quiet \<sigma> \<Longrightarrow> FLUSH_LBF_STREAMS h \<sigma> = Some \<sigma>"
  using flush_list_quiet by (fastforce simp: line_quiet_def FLUSH_LBF_STREAMS_def)

lemma open_chain_cong:
  "open_chain \<sigma> p ps \<Longrightarrow> (\<And>q. map_option nextopen (files \<sigma>' q) = map_option nextopen (files \<sigma> q)) \<Longrightarrow>
     open_chain \<sigma>' p ps"
proof (induction ps arbitrary: p)
  case (Cons q ps)
  then obtain S where S: "p = q" "q \<noteq> NULL" "files \<sigma> q = Some S" "open_chain \<sigma> (nextopen S) ps" by auto
  then obtain S' where "files \<sigma>' q = Some S'" "nextopen S' = nextopen S" using Cons.prems(2) [of q] by auto
  then show ?case using S Cons by auto
qed simp

lemma line_quiet_put:
  assumes "line_quiet \<sigma>" "files \<sigma> f = Some S" "files \<sigma>' = (files \<sigma>)(f \<mapsto> S')" "nextopen S' = nextopen S"
    and "stdio_openlist \<sigma>' = stdio_openlist \<sigma>" "\<not> line_writer S'"
  shows "line_quiet \<sigma>'"
proof -
  obtain ps where ps: "open_chain \<sigma> (stdio_openlist \<sigma>) ps"
      "\<forall>p\<in>set ps. \<forall>S. files \<sigma> p = Some S \<longrightarrow> \<not> line_writer S"
    using assms(1) by (auto simp: line_quiet_def)
  have "open_chain \<sigma>' (stdio_openlist \<sigma>') ps"
    unfolding assms(5) using ps(1) by (rule open_chain_cong) (simp add: assms)
  moreover have "\<forall>p\<in>set ps. \<forall>S. files \<sigma>' p = Some S \<longrightarrow> \<not> line_writer S"
    using ps(2) assms(3,6) by auto
  ultimately show ?thesis by (auto simp: line_quiet_def)
qed

section \<open>The abstraction of a reading stream\<close>

text \<open>
  What the library relies on of \<open>read\<close>: it delivers the next bytes of the input \<open>inp w fd\<close>, at most as many as
  asked for and none only at the end of the input, or fails and takes nothing.
\<close>

definition reads_ok :: "'w host \<Rightarrow> ('w \<Rightarrow> int \<Rightarrow> byte list) \<Rightarrow> bool" where
  "reads_ok h inp \<longleftrightarrow> (\<forall>w fd n. case sys_read h w fd n of
     (Some bs, w') \<Rightarrow> length bs \<le> n \<and> inp w fd = bs @ inp w' fd \<and> (0 < n \<and> bs = [] \<longrightarrow> inp w fd = [])
   | (None, w') \<Rightarrow> inp w' fd = inp w fd)"

text \<open>The stream \<open>f\<close> is not writing and \<open>bs\<close> is the unread part of its buffer.\<close>

definition in_core :: "'w host \<Rightarrow> ('w \<Rightarrow> int \<Rightarrow> byte list) \<Rightarrow> 'w stdio \<Rightarrow> addr \<Rightarrow> FILE \<Rightarrow> byte list \<Rightarrow> bool" where
  "in_core h inp \<sigma> f S bs \<longleftrightarrow> reads_ok h inp \<and> files \<sigma> f = Some S \<and> buffer_ok \<sigma> S \<and> \<not> IS_FAKE S \<and>
     \<not> STREAM_IS_WRITING S \<and> (STREAM_IS_FBF S \<or> line_quiet \<sigma>) \<and> (STREAM_IS_READING S \<or> bs = []) \<and>
     bufread S = bufpos S + length bs \<and> bufread S \<le> bufend S \<and> bytes_at (memory \<sigma>) (bufpos S) bs \<and>
     (FEOF_UNLOCKED S \<longrightarrow> inp (world \<sigma>) (filedes S) = [])"

text \<open>\<open>xs\<close> is what can still be read through the stream.\<close>

definition in_stream :: "'w host \<Rightarrow> ('w \<Rightarrow> int \<Rightarrow> byte list) \<Rightarrow> 'w stdio \<Rightarrow> addr \<Rightarrow> byte list \<Rightarrow> bool" where
  "in_stream h inp \<sigma> f xs \<longleftrightarrow>
     (\<exists>S bs. in_core h inp \<sigma> f S bs \<and> xs = ungots S @ bs @ inp (world \<sigma>) (filedes S))"

definition has_error :: "'w stdio \<Rightarrow> addr \<Rightarrow> bool" where
  "has_error \<sigma> f \<longleftrightarrow> (\<exists>S. files \<sigma> f = Some S \<and> FERROR_UNLOCKED S)"

lemma in_core_intro:
  assumes "in_core h inp \<sigma> f S bs0"
    and "files \<sigma>' = (files \<sigma>)(f \<mapsto> S')" "filedes S' = filedes S" "bufstart S' = bufstart S" "bufend S' = bufend S"
      "nextopen S' = nextopen S"
    and "bit (modeflags S') 6 = bit (modeflags S) 6" "bit (modeflags S') 8 = bit (modeflags S) 8"
      "bit (modeflags S') 9 = bit (modeflags S) 9"
    and "local_uc \<sigma>' = local_uc \<sigma>" "stdio_openlist \<sigma>' = stdio_openlist \<sigma>" "dom (memory \<sigma>) \<subseteq> dom (memory \<sigma>')"
    and "STREAM_IS_READING S' \<or> bs = []" "bufstart S \<le> bufpos S'" "bufread S' = bufpos S' + length bs" "bufread S' \<le> bufend S"
      "bytes_at (memory \<sigma>') (bufpos S') bs"
    and "FEOF_UNLOCKED S' \<Longrightarrow> inp (world \<sigma>') (filedes S) = []"
  shows "in_core h inp \<sigma>' f S' bs"
proof -
  have b: "buffer_ok \<sigma>' S'"
  proof (rule buffer_ok_cong [OF _ assms(4,5,14) _ assms(9,10,12)])
    show "buffer_ok \<sigma> S" using assms(1) by (simp add: in_core_def)
    show "bufpos S' \<le> bufend S" using assms(15,16) by linarith
  qed
  have "STREAM_IS_FBF S' \<or> line_quiet \<sigma>'"
  proof (cases "STREAM_IS_FBF S")
    case True
    then show ?thesis using assms(8,9) by (simp add: flag_simps)
  next
    case False
    then have "line_quiet \<sigma>'"
      using assms(1-3,6,7,11) unfolding in_core_def
      by (intro line_quiet_put [of \<sigma> f S \<sigma>' S']) (auto simp: line_writer_def flag_simps)
    then show ?thesis ..
  qed
  moreover have "\<not> IS_FAKE S'" "\<not> STREAM_IS_WRITING S'" "reads_ok h inp"
    using assms(1,3,7) by (simp_all add: in_core_def IS_FAKE_def flag_simps)
  moreover have "files \<sigma>' f = Some S'" using assms(2) by simp
  moreover have "bufread S' \<le> bufend S'" using assms(5,16) by simp
  moreover have "FEOF_UNLOCKED S' \<longrightarrow> inp (world \<sigma>') (filedes S') = []" using assms(3,18) by simp
  ultimately show ?thesis
    unfolding in_core_def using b assms(13,15,17) by blast
qed

lemma in_stream_core: "in_core h inp \<sigma> f S bs \<Longrightarrow> in_stream h inp \<sigma> f (ungots S @ bs @ inp (world \<sigma>) (filedes S))"
  by (auto simp: in_stream_def)

lemma in_coreD:
  assumes "in_core h inp \<sigma> f S bs"
  shows "reads_ok h inp" "files \<sigma> f = Some S" "buffer_ok \<sigma> S" "\<not> IS_FAKE S" "\<not> STREAM_IS_WRITING S"
    "STREAM_IS_FBF S \<or> line_quiet \<sigma>" "STREAM_IS_READING S \<or> bs = []" "bufread S = bufpos S + length bs"
    "bufread S \<le> bufend S" "bytes_at (memory \<sigma>) (bufpos S) bs" "FEOF_UNLOCKED S \<longrightarrow> inp (world \<sigma>) (filedes S) = []"
    "bufstart S \<le> bufpos S"
  using assms by (auto simp: in_core_def buffer_ok_def)

lemma ungots_cong:
  "ungot S' = ungot S \<Longrightarrow> bit (modeflags S') 0 = bit (modeflags S) 0 \<Longrightarrow> bit (modeflags S') 1 = bit (modeflags S) 1 \<Longrightarrow>
     ungots S' = ungots S"
  by (simp add: ungots_def)

text \<open>Setting or clearing a flag that says nothing about the position.\<close>

lemma in_core_flag:
  assumes "in_core h inp \<sigma> f S bs" "\<sigma>1 = \<sigma>\<lparr>errno := e\<rparr> \<or> \<sigma>1 = \<sigma>"
  shows "in_core h inp (put \<sigma>1 f (set_flag FLAG_ERROR S)) f (set_flag FLAG_ERROR S) bs"
  by (rule in_core_intro [OF assms(1)]) (use in_coreD [OF assms(1)] assms(2) in \<open>auto simp: flag_simps bit_simps\<close>)

lemma ready_in:
  assumes "in_stream h inp \<sigma> f xs"
  obtains ok \<sigma>' S bs where "ready_to_read \<sigma> f = Some (ok, \<sigma>')" "only_stream f \<sigma> \<sigma>'" "in_core h inp \<sigma>' f S bs"
    and "xs = ungots S @ bs @ inp (world \<sigma>') (filedes S)" "if ok then STREAM_IS_READING S else has_error \<sigma>' f"
proof -
  obtain S bs where c: "in_core h inp \<sigma> f S bs" and xs: "xs = ungots S @ bs @ inp (world \<sigma>) (filedes S)"
    using assms by (auto simp: in_stream_def)
  note d = in_coreD [OF c]
  show ?thesis
  proof (cases "STREAM_IS_READING S")
    case True
    then have "ready_to_read \<sigma> f = Some (True, \<sigma>)" using d(2) by (simp add: ready_to_read_def)
    then show ?thesis using that [of True \<sigma> S bs] c xs True only_stream_refl [OF d(2)] by simp
  next
    case False
    then have bs: "bs = []" "ungots S = []" using d(7) by (auto simp: ungots_def flag_simps)
    show ?thesis
    proof (cases "STREAM_IS_WRITEONLY S")
      case True
      let ?S = "set_flag FLAG_ERROR S"
      let ?\<sigma> = "put (\<sigma>\<lparr>errno := EBADF\<rparr>) f ?S"
      have "ready_to_read \<sigma> f = Some (False, ?\<sigma>)"
        using d(2) False True by (simp add: ready_to_read_def stdio_trans2r_def)
      moreover have "in_core h inp ?\<sigma> f ?S bs" by (rule in_core_flag [OF c, where e = EBADF]) simp
      moreover have "only_stream f \<sigma> ?\<sigma>" unfolding only_stream_def using d(2) by auto
      moreover have "ungots ?S = []" using bs(2) by (subst ungots_cong [of _ S]) (simp_all add: bit_simps)
      moreover have "has_error ?\<sigma> f" by (simp add: has_error_def flag_simps bit_simps)
      ultimately show ?thesis using that [of False ?\<sigma> ?S bs] xs bs by simp
    next
      case nw: False
      let ?S = "set_flag FLAG_READING S"
      let ?\<sigma> = "put \<sigma> f ?S"
      have "ready_to_read \<sigma> f = Some (True, ?\<sigma>)"
        using d(2,5) False nw by (simp add: ready_to_read_def stdio_trans2r_def)
      moreover have "in_core h inp ?\<sigma> f ?S bs"
        by (rule in_core_intro [OF c]) (use d bs in \<open>auto simp: flag_simps bit_simps\<close>)
      moreover have "ungots ?S = []" using False by (simp add: ungots_def flag_simps bit_simps)
      moreover have "STREAM_IS_READING ?S" by (simp add: flag_simps bit_simps)
      moreover have "only_stream f \<sigma> ?\<sigma>" by (rule only_stream_put [OF d(2)]) simp_all
      ultimately show ?thesis using that [of True ?\<sigma> ?S bs] xs bs by simp
    qed
  qed
qed

lemma reads_okD:
  "reads_ok h inp \<Longrightarrow> sys_read h w fd n = (Some bs, w') \<Longrightarrow>
     length bs \<le> n \<and> inp w fd = bs @ inp w' fd \<and> (0 < n \<and> bs = [] \<longrightarrow> inp w fd = [])"
  "reads_ok h inp \<Longrightarrow> sys_read h w fd n = (None, w') \<Longrightarrow> inp w' fd = inp w fd"
proof -
  assume ok: "reads_ok h inp"
  note r = ok [unfolded reads_ok_def, THEN spec, of w, THEN spec, of fd, THEN spec, of n]
  show "sys_read h w fd n = (Some bs, w') \<Longrightarrow>
      length bs \<le> n \<and> inp w fd = bs @ inp w' fd \<and> (0 < n \<and> bs = [] \<longrightarrow> inp w fd = [])"
    and "sys_read h w fd n = (None, w') \<Longrightarrow> inp w' fd = inp w fd"
    using r by auto
qed

text \<open>One call of \<open>__stdio_READ\<close> when nothing is buffered.\<close>

lemma READ_block:
  assumes "reads_ok h inp" "files \<sigma> f = Some S" "FEOF_UNLOCKED S \<longrightarrow> inp (world \<sigma>) (filedes S) = []"
    and "0 < n" "mapped (memory \<sigma>) p n"
  obtains (data) bs w where "stdio_READ h \<sigma> f p n = Some (length bs, \<sigma>\<lparr>world := w, memory := write_bytes (memory \<sigma>) p bs\<rparr>)"
      "bs \<noteq> []" "length bs \<le> n" "inp (world \<sigma>) (filedes S) = bs @ inp w (filedes S)" "\<not> FEOF_UNLOCKED S"
  | (end_of_file) fl w where "stdio_READ h \<sigma> f p n = Some (0, put (\<sigma>\<lparr>world := w\<rparr>) f (set_flag fl S))" "fl = 0 \<or> fl = FLAG_EOF"
      "inp (world \<sigma>) (filedes S) = []" "inp w (filedes S) = []"
  | (error) w where "stdio_READ h \<sigma> f p n = Some (0, put (\<sigma>\<lparr>world := w\<rparr>) f (set_flag FLAG_ERROR S))"
      "inp w (filedes S) = inp (world \<sigma>) (filedes S)" "\<not> FEOF_UNLOCKED S"
proof (cases "FEOF_UNLOCKED S")
  case True
  have "put (\<sigma>\<lparr>world := world \<sigma>\<rparr>) f (set_flag 0 S) = \<sigma>"
    using assms(2) by (simp add: put_def set_flag_def fun_upd_idem)
  then have "stdio_READ h \<sigma> f p n = Some (0, put (\<sigma>\<lparr>world := world \<sigma>\<rparr>) f (set_flag 0 S))"
    using True assms(2) by (simp add: stdio_READ_def)
  then show ?thesis using end_of_file [of "world \<sigma>" 0] True assms(3) by simp
next
  case False
  obtain rv w where rv: "sys_read h (world \<sigma>) (filedes S) (min n SSIZE_MAX) = (rv, w)" by fastforce
  show ?thesis
  proof (cases rv)
    case None
    then have "stdio_READ h \<sigma> f p n = Some (0, put (\<sigma>\<lparr>world := w\<rparr>) f (set_flag FLAG_ERROR S))"
      using False assms(2) rv by (simp add: stdio_READ_def)
    then show ?thesis using error [of w] reads_okD(2) [OF assms(1)] rv None False by blast
  next
    case (Some bs)
    have l: "length bs \<le> min n SSIZE_MAX" "inp (world \<sigma>) (filedes S) = bs @ inp w (filedes S)"
        "bs = [] \<Longrightarrow> inp (world \<sigma>) (filedes S) = []"
      using reads_okD(1) [OF assms(1), of "world \<sigma>" "filedes S" "min n SSIZE_MAX" bs w] rv Some assms(4) by auto
    show ?thesis
    proof (cases "bs = []")
      case True
      then have "stdio_READ h \<sigma> f p n = Some (0, put (\<sigma>\<lparr>world := w\<rparr>) f (set_flag FLAG_EOF S))"
        using False assms(2) rv Some by (simp add: stdio_READ_def)
      then show ?thesis using end_of_file [of w FLAG_EOF] l True by simp
    next
      case ne: False
      have "mapped (memory \<sigma>) p (length bs)" using assms(5) l(1) by (auto intro: mapped_mono)
      then have "stdio_READ h \<sigma> f p n = Some (length bs, \<sigma>\<lparr>world := w, memory := write_bytes (memory \<sigma>) p bs\<rparr>)"
        using False assms(2) rv Some ne by (simp add: stdio_READ_def store_bytes_mapped)
      then show ?thesis using data [of bs w] l ne False by simp
    qed
  qed
qed

section \<open>fgetc\<close>

lemma take_ungot_core:
  assumes "in_core h inp \<sigma> f S bs" "STREAM_HAS_UNGOT S"
  shows "in_core h inp (put \<sigma> f (snd (take_ungot S))) f (snd (take_ungot S)) bs"
    and "STREAM_IS_READING (snd (take_ungot S))"
proof -
  have b: "bit (modeflags S) 1" using assms(2) by (simp add: flag_simps)
  show r: "STREAM_IS_READING (snd (take_ungot S))" by (simp add: flag_simps take_ungot_flags [OF b])
  show "in_core h inp (put \<sigma> f (snd (take_ungot S))) f (snd (take_ungot S)) bs"
    by (rule in_core_intro [OF assms(1)])
      (use in_coreD [OF assms(1)] r in \<open>simp_all add: take_ungot_flags [OF b] flag_simps\<close>)
qed

lemma GET_core:
  assumes "in_core h inp \<sigma> f S (c # bs)"
  obtains \<sigma>' where "BUFFER_GET \<sigma> f = Some (c, \<sigma>')" "only_stream f \<sigma> \<sigma>'" "world \<sigma>' = world \<sigma>"
    and "in_core h inp \<sigma>' f (S\<lparr>bufpos := bufpos S + 1\<rparr>) bs"
proof -
  note d = in_coreD [OF assms]
  let ?S = "S\<lparr>bufpos := bufpos S + 1\<rparr>"
  have "BUFFER_GET \<sigma> f = Some (c, put \<sigma> f ?S)" using d by (simp add: BUFFER_GET_def)
  moreover have "in_core h inp (put \<sigma> f ?S) f ?S bs"
    by (rule in_core_intro [OF assms]) (use d in \<open>simp_all add: flag_simps\<close>)
  moreover have "only_stream f \<sigma> (put \<sigma> f ?S)" by (rule only_stream_put [OF d(2)]) simp_all
  ultimately show ?thesis using that by simp
qed

lemma only_stream_world:
  "files \<sigma> f = Some S \<Longrightarrow> filedes S' = filedes S \<Longrightarrow> bufstart S' = bufstart S \<Longrightarrow> bufend S' = bufend S \<Longrightarrow>
     nextopen S' = nextopen S \<Longrightarrow> (\<And>a. a < bufstart S \<or> bufend S \<le> a \<Longrightarrow> a \<noteq> local_uc \<sigma> \<Longrightarrow> m a = memory \<sigma> a) \<Longrightarrow>
     only_stream f \<sigma> (put (\<sigma>\<lparr>world := w, memory := m\<rparr>) f S')"
  unfolding only_stream_def by (intro exI [of _ S] exI [of _ S']) simp

lemma rfill_core:
  assumes "in_core h inp \<sigma> f S []" "STREAM_IS_READING S" "buflen S \<noteq> 0"
  obtains (data) \<sigma>' S' bs where "stdio_rfill h \<sigma> f = Some (length bs, \<sigma>')" "only_stream f \<sigma> \<sigma>'" "in_core h inp \<sigma>' f S' bs"
      "bs \<noteq> []" "inp (world \<sigma>) (filedes S) = bs @ inp (world \<sigma>') (filedes S)" "filedes S' = filedes S" "ungots S' = ungots S"
  | (none) \<sigma>' S' where "stdio_rfill h \<sigma> f = Some (0, \<sigma>')" "only_stream f \<sigma> \<sigma>'" "in_core h inp \<sigma>' f S' []"
      "inp (world \<sigma>') (filedes S) = inp (world \<sigma>) (filedes S)" "inp (world \<sigma>) (filedes S) = [] \<or> has_error \<sigma>' f"
      "filedes S' = filedes S" "ungots S' = ungots S"
proof -
  note d = in_coreD [OF assms(1)]
  have sz: "size_t (BUFFER_SIZE S) = buflen S"
    using d(3) by (auto simp: buffer_ok_def BUFFER_SIZE_def size_t_nat of_nat_diff)
  have n: "0 < buflen S" "mapped (memory \<sigma>) (bufstart S) (buflen S)" "bufstart S \<le> bufend S"
    using d(3) assms(3) by (simp_all add: buffer_ok_def)
  show ?thesis
  proof (rule READ_block [OF d(1,2,11) n(1,2)])
    fix bs w
    assume r: "stdio_READ h \<sigma> f (bufstart S) (buflen S) = Some (length bs, \<sigma>\<lparr>world := w, memory := write_bytes (memory \<sigma>) (bufstart S) bs\<rparr>)"
        "bs \<noteq> []" "length bs \<le> buflen S" "inp (world \<sigma>) (filedes S) = bs @ inp w (filedes S)" "\<not> FEOF_UNLOCKED S"
    let ?S = "S\<lparr>bufpos := bufstart S, bufread := bufstart S + length bs\<rparr>"
    let ?\<sigma> = "put (\<sigma>\<lparr>world := w, memory := write_bytes (memory \<sigma>) (bufstart S) bs\<rparr>) f ?S"
    have "stdio_rfill h \<sigma> f = Some (length bs, ?\<sigma>)" using d(2) r(1) sz by (simp add: stdio_rfill_def)
    moreover have "in_core h inp ?\<sigma> f ?S bs"
      by (rule in_core_intro [OF assms(1)])
        (use d(2) r n assms(2) in \<open>auto simp: dom_write_bytes flag_simps\<close>)
    moreover have "only_stream f \<sigma> ?\<sigma>"
      by (rule only_stream_world [OF d(2)]) (use r(3) n in \<open>auto intro!: write_bytes_other\<close>)
    ultimately show ?thesis using data [of bs ?\<sigma> ?S] r(2,4) by (simp add: ungots_def)
  next
    fix fl w
    assume r: "stdio_READ h \<sigma> f (bufstart S) (buflen S) = Some (0, put (\<sigma>\<lparr>world := w\<rparr>) f (set_flag fl S))" "fl = 0 \<or> fl = FLAG_EOF"
        "inp (world \<sigma>) (filedes S) = []" "inp w (filedes S) = []"
    let ?S = "(set_flag fl S)\<lparr>bufpos := bufstart S, bufread := bufstart S + 0\<rparr>"
    let ?\<sigma> = "put (\<sigma>\<lparr>world := w, memory := memory \<sigma>\<rparr>) f ?S"
    have b: "bit (modeflags ?S) k = (bit (modeflags S) k \<or> k = 2 \<and> fl = FLAG_EOF)" if "k < 10" for k
      using r(2) by (auto simp: bit_or_iff bit_consts simp del: bit_numeral_word_iff)
    have "stdio_rfill h \<sigma> f = Some (0, ?\<sigma>)" using d(2) r(1) sz by (simp add: stdio_rfill_def)
    moreover have "in_core h inp ?\<sigma> f ?S []"
      by (rule in_core_intro [OF assms(1)]) (use d(2) r n assms(2) b in \<open>auto simp: flag_simps\<close>)
    moreover have "only_stream f \<sigma> ?\<sigma>" by (rule only_stream_world [OF d(2)]) simp_all
    ultimately show ?thesis using none [of ?\<sigma> ?S] r(3,4) ungots_cong [of ?S S] b by simp
  next
    fix w
    assume r: "stdio_READ h \<sigma> f (bufstart S) (buflen S) = Some (0, put (\<sigma>\<lparr>world := w\<rparr>) f (set_flag FLAG_ERROR S))"
        "inp w (filedes S) = inp (world \<sigma>) (filedes S)" "\<not> FEOF_UNLOCKED S"
    let ?S = "(set_flag FLAG_ERROR S)\<lparr>bufpos := bufstart S, bufread := bufstart S + 0\<rparr>"
    let ?\<sigma> = "put (\<sigma>\<lparr>world := w, memory := memory \<sigma>\<rparr>) f ?S"
    have "stdio_rfill h \<sigma> f = Some (0, ?\<sigma>)" using d(2) r(1) sz by (simp add: stdio_rfill_def)
    moreover have "in_core h inp ?\<sigma> f ?S []"
      by (rule in_core_intro [OF assms(1)]) (use d(2) r n assms(2) in \<open>auto simp: flag_simps bit_simps\<close>)
    moreover have "only_stream f \<sigma> ?\<sigma>" by (rule only_stream_world [OF d(2)]) simp_all
    moreover have "has_error ?\<sigma> f" by (simp add: has_error_def flag_simps bit_simps)
    ultimately show ?thesis using none [of ?\<sigma> ?S] r(2) ungots_cong [of ?S S] by (simp add: bit_simps)
  qed
qed

lemma READ_local_core:
  assumes "in_core h inp \<sigma> f S []" "STREAM_IS_READING S" "buflen S = 0"
  obtains (data) \<sigma>' c where "stdio_READ h \<sigma> f (local_uc \<sigma>) 1 = Some (1, \<sigma>')" "memory \<sigma>' (local_uc \<sigma>') = Some c"
      "only_stream f \<sigma> \<sigma>'" "in_core h inp \<sigma>' f S []" "inp (world \<sigma>) (filedes S) = c # inp (world \<sigma>') (filedes S)"
  | (none) \<sigma>' S' where "stdio_READ h \<sigma> f (local_uc \<sigma>) 1 = Some (0, \<sigma>')" "only_stream f \<sigma> \<sigma>'" "in_core h inp \<sigma>' f S' []"
      "inp (world \<sigma>') (filedes S) = inp (world \<sigma>) (filedes S)" "inp (world \<sigma>) (filedes S) = [] \<or> has_error \<sigma>' f"
      "filedes S' = filedes S" "ungots S' = ungots S"
proof -
  note d = in_coreD [OF assms(1)]
  have loc: "mapped (memory \<sigma>) (local_uc \<sigma>) 1"
    using d(3) by (auto simp: buffer_ok_def mapped_Suc)
  show ?thesis
  proof (rule READ_block [OF d(1,2,11) _ loc])
    fix bs w
    assume r: "stdio_READ h \<sigma> f (local_uc \<sigma>) 1 = Some (length bs, \<sigma>\<lparr>world := w, memory := write_bytes (memory \<sigma>) (local_uc \<sigma>) bs\<rparr>)"
        "bs \<noteq> []" "length bs \<le> 1" "inp (world \<sigma>) (filedes S) = bs @ inp w (filedes S)" "\<not> FEOF_UNLOCKED S"
    obtain c where c: "bs = [c]" using r(2,3) by (cases bs) auto
    let ?\<sigma> = "\<sigma>\<lparr>world := w, memory := write_bytes (memory \<sigma>) (local_uc \<sigma>) bs\<rparr>"
    have put: "put ?\<sigma> f S = ?\<sigma>" using d(2) by (simp add: put_def fun_upd_idem)
    have "in_core h inp (put ?\<sigma> f S) f S []"
      by (rule in_core_intro [OF assms(1)]) (use d assms(2) r(5) c in \<open>auto simp: flag_simps\<close>)
    moreover have "only_stream f \<sigma> (put ?\<sigma> f S)"
      by (rule only_stream_world [OF d(2)]) (use c in \<open>auto simp: write_bytes_def\<close>)
    ultimately show ?thesis using data [of ?\<sigma> c] r(1,4) c unfolding put by simp
  next
    fix fl w
    assume r: "stdio_READ h \<sigma> f (local_uc \<sigma>) 1 = Some (0, put (\<sigma>\<lparr>world := w\<rparr>) f (set_flag fl S))" "fl = 0 \<or> fl = FLAG_EOF"
        "inp (world \<sigma>) (filedes S) = []" "inp w (filedes S) = []"
    let ?S = "set_flag fl S"
    let ?\<sigma> = "put (\<sigma>\<lparr>world := w, memory := memory \<sigma>\<rparr>) f ?S"
    have b: "bit (modeflags ?S) k = (bit (modeflags S) k \<or> k = 2 \<and> fl = FLAG_EOF)" if "k < 10" for k
      using r(2) by (auto simp: bit_or_iff bit_consts simp del: bit_numeral_word_iff)
    have "in_core h inp ?\<sigma> f ?S []"
      by (rule in_core_intro [OF assms(1)]) (use d r assms(2) b in \<open>auto simp: flag_simps\<close>)
    moreover have "only_stream f \<sigma> ?\<sigma>" by (rule only_stream_world [OF d(2)]) simp_all
    ultimately show ?thesis using none [of ?\<sigma> ?S] r(1,3,4) ungots_cong [of ?S S] b by simp
  next
    fix w
    assume r: "stdio_READ h \<sigma> f (local_uc \<sigma>) 1 = Some (0, put (\<sigma>\<lparr>world := w\<rparr>) f (set_flag FLAG_ERROR S))"
        "inp w (filedes S) = inp (world \<sigma>) (filedes S)" "\<not> FEOF_UNLOCKED S"
    let ?S = "set_flag FLAG_ERROR S"
    let ?\<sigma> = "put (\<sigma>\<lparr>world := w, memory := memory \<sigma>\<rparr>) f ?S"
    have "in_core h inp ?\<sigma> f ?S []"
      by (rule in_core_intro [OF assms(1)]) (use d r assms(2) in \<open>auto simp: flag_simps bit_simps\<close>)
    moreover have "only_stream f \<sigma> ?\<sigma>" by (rule only_stream_world [OF d(2)]) simp_all
    moreover have "has_error ?\<sigma> f" by (simp add: has_error_def flag_simps bit_simps)
    ultimately show ?thesis using none [of ?\<sigma> ?S] r(1,2) ungots_cong [of ?S S] by (simp add: bit_simps)
  qed simp
qed

text \<open>The result of reading one character.\<close>

definition next_char :: "('w stdio \<Rightarrow> byte list \<Rightarrow> bool) \<Rightarrow> addr \<Rightarrow> byte list \<Rightarrow> int \<Rightarrow> 'w stdio \<Rightarrow> bool" where
  "next_char holds f xs r \<sigma>' \<longleftrightarrow>
     r = EOF \<and> holds \<sigma>' xs \<and> (xs = [] \<or> has_error \<sigma>' f) \<or>
     (\<exists>c ys. xs = c # ys \<and> r = uint c \<and> holds \<sigma>' ys)"

lemma fgetc_core:
  assumes c: "in_core h inp \<sigma> f S bs" "STREAM_IS_READING S" and rd: "ready_to_read \<sigma>0 f = Some (True, \<sigma>)"
  shows "\<exists>r \<sigma>'. fgetc_unlocked h \<sigma>0 f = Some (r, \<sigma>') \<and> only_stream f \<sigma> \<sigma>' \<and>
    next_char (\<lambda>\<sigma>. in_stream h inp \<sigma> f) f (ungots S @ bs @ inp (world \<sigma>) (filedes S)) r \<sigma>'"
proof -
  note d = in_coreD [OF c(1)]
  have rav: "BUFFER_RAVAIL S = int (length bs)" using d(8) by (simp add: BUFFER_RAVAIL_def)
  have bsz: "BUFFER_SIZE S = int (buflen S)" using d(3) by (auto simp: buffer_ok_def BUFFER_SIZE_def)
  have fl: "(if STREAM_IS_FBF S then Some \<sigma> else FLUSH_LBF_STREAMS h \<sigma>) = Some \<sigma>"
    using d(6) FLUSH_quiet [of \<sigma> h] by auto
  consider (ungot) "STREAM_HAS_UNGOT S" | (buffered) b ys where "\<not> STREAM_HAS_UNGOT S" "bs = b # ys"
    | (fill) "\<not> STREAM_HAS_UNGOT S" "bs = []" "buflen S \<noteq> 0" | (unbuffered) "\<not> STREAM_HAS_UNGOT S" "bs = []" "buflen S = 0"
    by (cases bs) auto
  then show ?thesis
  proof cases
    case ungot
    let ?\<sigma> = "put \<sigma> f (snd (take_ungot S))"
    have "fgetc_unlocked h \<sigma>0 f = Some (uint (fst (take_ungot S)), ?\<sigma>)"
      using rd d(2) ungot by (simp add: fgetc_unlocked_def Let_def split: prod.split)
    moreover have "in_stream h inp ?\<sigma> f (ungots (snd (take_ungot S)) @ bs @ inp (world ?\<sigma>) (filedes S))"
      using in_stream_core [OF take_ungot_core(1) [OF c(1) ungot]] by simp
    moreover have "only_stream f \<sigma> ?\<sigma>" by (rule only_stream_put [OF d(2)]) simp_all
    ultimately show ?thesis
      unfolding next_char_def take_ungot_ungots [OF ungot] by auto
  next
    case buffered
    have u: "ungots S = []" using buffered(1) by (simp add: ungots_def flag_simps)
    obtain \<sigma>' where g: "BUFFER_GET \<sigma> f = Some (b, \<sigma>')" "only_stream f \<sigma> \<sigma>'" "world \<sigma>' = world \<sigma>"
        "in_core h inp \<sigma>' f (S\<lparr>bufpos := bufpos S + 1\<rparr>) ys"
      using GET_core [of h inp \<sigma> f S b ys] c(1) buffered(2) by blast
    have "fgetc_unlocked h \<sigma>0 f = Some (uint b, \<sigma>')"
      using rd d(2) buffered rav g(1) by (simp add: fgetc_unlocked_def)
    moreover have "ungots (S\<lparr>bufpos := bufpos S + 1\<rparr>) = []"
      using buffered(1) by (simp add: ungots_def flag_simps)
    then have "in_stream h inp \<sigma>' f (ys @ inp (world \<sigma>) (filedes S))"
      using in_stream_core [OF g(4)] g(3) by simp
    ultimately show ?thesis using g(2) buffered(2) u unfolding next_char_def by auto
  next
    case fill
    have u: "ungots S = []" using fill(1) by (simp add: ungots_def flag_simps)
    show ?thesis
    proof (rule rfill_core [OF c(1) [unfolded fill(2)] c(2) fill(3)])
      fix \<sigma>1 S1 bs1
      assume r: "stdio_rfill h \<sigma> f = Some (length bs1, \<sigma>1)" "only_stream f \<sigma> \<sigma>1" "in_core h inp \<sigma>1 f S1 bs1" "bs1 \<noteq> []"
          "inp (world \<sigma>) (filedes S) = bs1 @ inp (world \<sigma>1) (filedes S)" "filedes S1 = filedes S" "ungots S1 = ungots S"
      obtain b ys where b: "bs1 = b # ys" using r(4) by (cases bs1) auto
      obtain \<sigma>' where g: "BUFFER_GET \<sigma>1 f = Some (b, \<sigma>')" "only_stream f \<sigma>1 \<sigma>'" "world \<sigma>' = world \<sigma>1"
          "in_core h inp \<sigma>' f (S1\<lparr>bufpos := bufpos S1 + 1\<rparr>) ys"
        using GET_core [of h inp \<sigma>1 f S1 b ys] r(3) b by blast
      have "fgetc_unlocked h \<sigma>0 f = Some (uint b, \<sigma>')"
        using rd d(2,4) fill rav bsz g(1) r(1) b fl by (simp add: fgetc_unlocked_def)
      moreover have "ungots (S1\<lparr>bufpos := bufpos S1 + 1\<rparr>) = []" using r(7) u by simp
      then have "in_stream h inp \<sigma>' f (ys @ inp (world \<sigma>1) (filedes S))"
        using in_stream_core [OF g(4)] g(3) r(6) by simp
      ultimately show ?thesis using only_stream_trans [OF r(2) g(2)] r(5) b fill(2) u unfolding next_char_def by auto
    next
      fix \<sigma>1 S1
      assume r: "stdio_rfill h \<sigma> f = Some (0, \<sigma>1)" "only_stream f \<sigma> \<sigma>1" "in_core h inp \<sigma>1 f S1 []"
          "inp (world \<sigma>1) (filedes S) = inp (world \<sigma>) (filedes S)" "inp (world \<sigma>) (filedes S) = [] \<or> has_error \<sigma>1 f"
          "filedes S1 = filedes S" "ungots S1 = ungots S"
      have "fgetc_unlocked h \<sigma>0 f = Some (EOF, \<sigma>1)"
        using rd d(2,4) fill rav bsz r(1) fl by (simp add: fgetc_unlocked_def)
      moreover have "in_stream h inp \<sigma>1 f (inp (world \<sigma>) (filedes S))"
        using in_stream_core [OF r(3)] r(4,6,7) u by simp
      ultimately show ?thesis using r(2,5) fill(2) u unfolding next_char_def by auto
    qed
  next
    case unbuffered
    have u: "ungots S = []" using unbuffered(1) by (simp add: ungots_def flag_simps)
    show ?thesis
    proof (rule READ_local_core [OF c(1) [unfolded unbuffered(2)] c(2) unbuffered(3)])
      fix \<sigma>1 b
      assume r: "stdio_READ h \<sigma> f (local_uc \<sigma>) 1 = Some (1, \<sigma>1)" "memory \<sigma>1 (local_uc \<sigma>1) = Some b" "only_stream f \<sigma> \<sigma>1"
          "in_core h inp \<sigma>1 f S []" "inp (world \<sigma>) (filedes S) = b # inp (world \<sigma>1) (filedes S)"
      have "fgetc_unlocked h \<sigma>0 f = Some (uint b, \<sigma>1)"
        using rd d(2,4) unbuffered rav bsz r(1,2) fl by (simp add: fgetc_unlocked_def)
      moreover have "in_stream h inp \<sigma>1 f (inp (world \<sigma>1) (filedes S))"
        using in_stream_core [OF r(4)] u by simp
      ultimately show ?thesis using r(3,5) unbuffered(2) u unfolding next_char_def by auto
    next
      fix \<sigma>1 S1
      assume r: "stdio_READ h \<sigma> f (local_uc \<sigma>) 1 = Some (0, \<sigma>1)" "only_stream f \<sigma> \<sigma>1" "in_core h inp \<sigma>1 f S1 []"
          "inp (world \<sigma>1) (filedes S) = inp (world \<sigma>) (filedes S)" "inp (world \<sigma>) (filedes S) = [] \<or> has_error \<sigma>1 f"
          "filedes S1 = filedes S" "ungots S1 = ungots S"
      have "fgetc_unlocked h \<sigma>0 f = Some (EOF, \<sigma>1)"
        using rd d(2,4) unbuffered rav bsz r(1) fl by (simp add: fgetc_unlocked_def)
      moreover have "in_stream h inp \<sigma>1 f (inp (world \<sigma>) (filedes S))"
        using in_stream_core [OF r(3)] r(4,6,7) u by simp
      ultimately show ?thesis using r(2,5) unbuffered(2) u unfolding next_char_def by auto
    qed
  qed
qed

lemma fgetc_in:
  assumes "in_stream h inp \<sigma> f xs"
  shows "\<exists>r \<sigma>'. fgetc_unlocked h \<sigma> f = Some (r, \<sigma>') \<and> only_stream f \<sigma> \<sigma>' \<and>
    next_char (\<lambda>\<sigma>. in_stream h inp \<sigma> f) f xs r \<sigma>'"
proof -
  obtain ok \<sigma>1 S bs where r: "ready_to_read \<sigma> f = Some (ok, \<sigma>1)" "only_stream f \<sigma> \<sigma>1" "in_core h inp \<sigma>1 f S bs"
    and xs: "xs = ungots S @ bs @ inp (world \<sigma>1) (filedes S)" "if ok then STREAM_IS_READING S else has_error \<sigma>1 f"
    by (rule ready_in [OF assms])
  show ?thesis
  proof (cases ok)
    case True
    then have "STREAM_IS_READING S" "ready_to_read \<sigma> f = Some (True, \<sigma>1)" using r(1) xs(2) by simp_all
    then show ?thesis using fgetc_core [OF r(3)] only_stream_trans [OF r(2)] unfolding xs(1) by metis
  next
    case False
    then have "fgetc_unlocked h \<sigma> f = Some (EOF, \<sigma>1)" using r(1) by (simp add: fgetc_unlocked_def)
    then show ?thesis using r(2) in_stream_core [OF r(3)] xs False unfolding next_char_def by auto
  qed
qed

section \<open>ungetc\<close>

text \<open>
  Pushing a character back succeeds when the stream can read and no character of \<open>ungetc\<close> is
  pushed back already; the character is then the next one to be read.
\<close>

lemma ungetc_core:
  assumes c: "in_core h inp \<sigma> f S bs" "STREAM_IS_READING S" and rd: "ready_to_read \<sigma>0 f = Some (True, \<sigma>)"
    and ch: "c \<noteq> EOF" and room: "\<not> STREAM_HAS_UNGOT S \<or> \<not> bit (modeflags S) 0 \<and> ungot S 1 = 0"
  shows "\<exists>\<sigma>'. ungetc \<sigma>0 c f = Some (c, \<sigma>') \<and> only_stream f \<sigma> \<sigma>' \<and>
    in_stream h inp \<sigma>' f (uchar c # ungots S @ bs @ inp (world \<sigma>) (filedes S)) \<and>
    (\<exists>S'. files \<sigma>' f = Some S' \<and> STREAM_HAS_UNGOT S')"
proof -
  note d = in_coreD [OF c(1)]
  have nb: "\<not> (bit (modeflags S) 0 \<and> bit (modeflags S) 1)" using room by (auto simp: flag_simps)
  define S1 where "S1 = S\<lparr>modeflags := modeflags S + 1,
    ungot := ((ungot S)(1 := 1))(unat ((modeflags S + 1) AND 1) := uchar c)\<rparr>"
  let ?S = "clear_flag FLAG_EOF S1"
  let ?\<sigma> = "put \<sigma> f ?S"
  have rdg: "bit (modeflags S) 0 \<or> bit (modeflags S) 1" using c(2) by (simp add: flag_simps)
  have b: "bit (modeflags ?S) k = (if k = 2 then False else if k = 1 then True else if k = 0 then \<not> bit (modeflags S) 0 \<and> bit (modeflags S) 1
      else bit (modeflags S) k)" if "k < 10" for k
  proof -
    have "bit (- 5 :: 16 word) k \<longleftrightarrow> k \<noteq> 2"
      using bit_not_iff [of "4 :: 16 word" k] that by (simp add: bit_consts del: bit_numeral_word_iff)
    then show ?thesis
      using that nb rdg
      by (auto simp: S1_def flags_inc bit_ops16 bit_set_bit_iff bit_unset_bit_iff simp del: bit_numeral_word_iff)
  qed
  have f1: "bit (modeflags S + 1) 0 = (\<not> bit (modeflags S) 0 \<and> bit (modeflags S) 1)"
    using nb rdg by (auto simp: flags_inc bit_set_bit_iff bit_unset_bit_iff)
  have u: "ungots ?S = uchar c # ungots S"
  proof -
    have b01: "bit (modeflags ?S) 0 = (\<not> bit (modeflags S) 0 \<and> bit (modeflags S) 1)" "bit (modeflags ?S) 1 = True"
      using b [of 0] b [of 1] by simp_all
    have u1: "ungot ?S = ((ungot S)(1 := 1))((if \<not> bit (modeflags S) 0 \<and> bit (modeflags S) 1 then 1 else 0) := uchar c)"
      by (simp add: S1_def and_one16 f1)
    show ?thesis
      unfolding ungots_def [of ?S] b01 u1 using nb rdg room by (auto simp: ungots_def flag_simps)
  qed
  have "ungetc \<sigma>0 c f = Some (c, ?\<sigma>)"
    using rd d(2) ch room nb by (auto simp: ungetc_def S1_def flag_simps Let_def uchar_def)
  moreover have "in_core h inp ?\<sigma> f ?S bs"
    by (rule in_core_intro [OF c(1)]) (use d b in \<open>simp_all add: flag_simps S1_def\<close>)
  then have "in_stream h inp ?\<sigma> f (uchar c # ungots S @ bs @ inp (world \<sigma>) (filedes S))"
    using in_stream_core [of h inp ?\<sigma> f ?S bs] u by (simp add: S1_def)
  moreover have "only_stream f \<sigma> ?\<sigma>" by (rule only_stream_put [OF d(2)]) (simp_all add: S1_def)
  moreover have "STREAM_HAS_UNGOT ?S" using b [of 1] by (simp add: flag_simps)
  then have "\<exists>S'. files ?\<sigma> f = Some S' \<and> STREAM_HAS_UNGOT S'" by simp
  ultimately show ?thesis by blast
qed

text \<open>What was pushed back is read first, and then the stream is as it was.\<close>

lemma ungetc_in:
  assumes "in_stream h inp \<sigma> f xs" "files \<sigma> f = Some S" "\<not> STREAM_IS_WRITEONLY S" "\<not> STREAM_HAS_UNGOT S" "c \<noteq> EOF"
  shows "\<exists>\<sigma>'. ungetc \<sigma> c f = Some (c, \<sigma>') \<and> only_stream f \<sigma> \<sigma>' \<and> in_stream h inp \<sigma>' f (uchar c # xs) \<and>
    (\<exists>S'. files \<sigma>' f = Some S' \<and> STREAM_HAS_UNGOT S')"
proof -
  obtain ok \<sigma>1 S1 bs where r: "ready_to_read \<sigma> f = Some (ok, \<sigma>1)" "only_stream f \<sigma> \<sigma>1" "in_core h inp \<sigma>1 f S1 bs"
    and xs: "xs = ungots S1 @ bs @ inp (world \<sigma>1) (filedes S1)" "if ok then STREAM_IS_READING S1 else has_error \<sigma>1 f"
    by (rule ready_in [OF assms(1)])
  have nw: "\<not> STREAM_IS_WRITING S" using assms(1,2) by (auto simp: in_stream_def in_core_def)
  have ok: "ok" and S1: "S1 = S \<or> S1 = set_flag FLAG_READING S"
    using r(1,3) assms(2,3) nw by (auto simp: ready_to_read_def stdio_trans2r_def in_core_def split: if_splits)
  have "\<not> STREAM_HAS_UNGOT S1" using S1 assms(4) by (auto simp: flag_simps bit_simps)
  then show ?thesis
    using ungetc_core [OF r(3) _ _ assms(5)] r(1) ok xs only_stream_trans [OF r(2)] by fastforce
qed

lemma fgetc_ungot:
  assumes "in_stream h inp \<sigma> f (c # xs)" "files \<sigma> f = Some S" "STREAM_HAS_UNGOT S"
  shows "\<exists>\<sigma>'. fgetc_unlocked h \<sigma> f = Some (uint c, \<sigma>') \<and> only_stream f \<sigma> \<sigma>' \<and> in_stream h inp \<sigma>' f xs"
proof -
  obtain bs where k: "in_core h inp \<sigma> f S bs" and xs: "c # xs = ungots S @ bs @ inp (world \<sigma>) (filedes S)"
    using assms(1,2) by (auto simp: in_stream_def in_core_def)
  let ?\<sigma> = "put \<sigma> f (snd (take_ungot S))"
  have c: "fst (take_ungot S) = c" "xs = ungots (snd (take_ungot S)) @ bs @ inp (world \<sigma>) (filedes S)"
    using xs unfolding take_ungot_ungots [OF assms(3)] by simp_all
  have "ready_to_read \<sigma> f = Some (True, \<sigma>)" using assms(2,3) by (simp add: ready_to_read_def flag_simps)
  then have "fgetc_unlocked h \<sigma> f = Some (uint c, ?\<sigma>)"
    using assms(2,3) c(1) by (simp add: fgetc_unlocked_def Let_def case_prod_unfold)
  moreover have "in_stream h inp ?\<sigma> f xs"
    using in_stream_core [OF take_ungot_core(1) [OF k assms(3)]] c(2) by simp
  moreover have "only_stream f \<sigma> ?\<sigma>" by (rule only_stream_put [OF assms(2)]) simp_all
  ultimately show ?thesis by blast
qed

section \<open>Reading into the caller's memory\<close>

text \<open>A step that touches the stream and the block of \<open>n\<close> bytes at \<open>p\<close>.\<close>

definition touches :: "addr \<Rightarrow> addr \<Rightarrow> nat \<Rightarrow> 'w stdio \<Rightarrow> 'w stdio \<Rightarrow> bool" where
  "touches f p n \<sigma> \<sigma>' \<longleftrightarrow> (\<exists>S S'. files \<sigma> f = Some S \<and> files \<sigma>' = (files \<sigma>)(f \<mapsto> S') \<and>
     filedes S' = filedes S \<and> bufstart S' = bufstart S \<and> bufend S' = bufend S \<and> nextopen S' = nextopen S \<and>
     stdio_openlist \<sigma>' = stdio_openlist \<sigma> \<and> local_uc \<sigma>' = local_uc \<sigma> \<and>
     (\<forall>a. (a < bufstart S \<or> bufend S \<le> a) \<and> a \<noteq> local_uc \<sigma> \<and> (a < p \<or> p + n \<le> a) \<longrightarrow> memory \<sigma>' a = memory \<sigma> a))"

lemma only_stream_touches: "only_stream f \<sigma> \<sigma>' \<Longrightarrow> touches f p n \<sigma> \<sigma>'"
  unfolding only_stream_def touches_def by blast

lemma touches_trans: "touches f p n \<sigma> \<sigma>1 \<Longrightarrow> touches f p n \<sigma>1 \<sigma>2 \<Longrightarrow> touches f p n \<sigma> \<sigma>2"
  unfolding touches_def by force

lemma touches_mono: "touches f q k \<sigma> \<sigma>' \<Longrightarrow> p \<le> q \<Longrightarrow> q + k \<le> p + n \<Longrightarrow> touches f p n \<sigma> \<sigma>'"
  unfolding touches_def by (elim ex_forward conj_forward) (auto simp: not_less)

lemma touches_memory:
  "files \<sigma> f = Some S \<Longrightarrow> (\<And>a. a < p \<or> p + n \<le> a \<Longrightarrow> m a = memory \<sigma> a) \<Longrightarrow> touches f p n \<sigma> (\<sigma>\<lparr>memory := m\<rparr>)"
  unfolding touches_def by (intro exI [of _ S]) (simp add: fun_upd_idem)

lemma touches_apart: "touches f p n \<sigma> \<sigma>' \<Longrightarrow> apart \<sigma> f q k \<Longrightarrow> apart \<sigma>' f q k"
  by (auto simp: touches_def apart_def)

lemma touches_same:
  assumes "touches f p n \<sigma> \<sigma>'" "apart \<sigma> f q k" "q \<le> a" "a < q + k" "a < p \<or> p + n \<le> a"
  shows "memory \<sigma>' a = memory \<sigma> a"
proof -
  obtain S where S: "files \<sigma> f = Some S"
    and m: "\<And>a. a < bufstart S \<or> bufend S \<le> a \<Longrightarrow> a \<noteq> local_uc \<sigma> \<Longrightarrow> a < p \<or> p + n \<le> a \<Longrightarrow> memory \<sigma>' a = memory \<sigma> a"
    using assms(1) unfolding touches_def by blast
  have "a < bufstart S \<or> bufend S \<le> a" "a \<noteq> local_uc \<sigma>"
    using assms(2-4) S unfolding apart_def by auto
  then show ?thesis using m assms(5) by blast
qed

lemma only_stream_mapped:
  assumes "only_stream f \<sigma> \<sigma>'" "apart \<sigma> f p n" "mapped (memory \<sigma>) p n"
  shows "mapped (memory \<sigma>') p n"
  using assms(3) touches_same [OF only_stream_touches [OF assms(1), where p = p and n = 0] assms(2)]
  by (rule mapped_cong) (simp_all add: nat_le_linear not_less)

text \<open>Storing into a block apart from the stream does not change what the stream holds.\<close>

lemma in_stream_store:
  assumes "in_stream h inp \<sigma> f xs" "apart \<sigma> f p n" "\<And>a. a < p \<or> p + n \<le> a \<Longrightarrow> m a = memory \<sigma> a" "dom (memory \<sigma>) \<subseteq> dom m"
  shows "in_stream h inp (\<sigma>\<lparr>memory := m\<rparr>) f xs"
proof -
  obtain S bs where c: "in_core h inp \<sigma> f S bs" and xs: "xs = ungots S @ bs @ inp (world \<sigma>) (filedes S)"
    using assms(1) by (auto simp: in_stream_def)
  note d = in_coreD [OF c]
  have "bytes_at m (bufpos S) bs"
    using d(10)
  proof (rule bytes_at_cong)
    fix a assume "bufpos S \<le> a" "a < bufpos S + length bs"
    then have "bufstart S \<le> a" "a < bufend S" using d(8,9,12) by linarith+
    then show "m a = memory \<sigma> a" using assms(2) d(2) by (intro assms(3)) (auto simp: apart_def)
  qed
  then have "in_core h inp (\<sigma>\<lparr>memory := m\<rparr>) f S bs"
    by (intro in_core_intro [OF c]) (use d assms(4) in \<open>simp_all add: fun_upd_idem\<close>)
  then show ?thesis using xs in_stream_core by fastforce
qed

section \<open>fgets\<close>

text \<open>The line that \<open>fgets\<close> takes: at most \<open>n\<close> bytes, up to and with the first newline.\<close>

fun line_of :: "nat \<Rightarrow> byte list \<Rightarrow> byte list" where
  "line_of 0 xs = []"
| "line_of (Suc n) [] = []"
| "line_of (Suc n) (x # xs) = (if x = newline then [x] else x # line_of n xs)"

lemma line_of_length: "length (line_of n xs) \<le> n"
  by (induction n xs rule: line_of.induct) auto

lemma line_of_prefix: "line_of n xs = take (length (line_of n xs)) xs"
  by (induction n xs rule: line_of.induct) auto

lemma word_of_uint_byte [simp]: "word_of_int (uint (c :: byte)) = c"
  by simp

definition got_line ::
    "('w stdio \<Rightarrow> byte list \<Rightarrow> bool) \<Rightarrow> addr \<Rightarrow> nat \<Rightarrow> byte list \<Rightarrow> addr \<Rightarrow> addr option \<Rightarrow> 'w stdio \<Rightarrow> bool" where
  "got_line holds f n xs p q \<sigma>' \<longleftrightarrow>
     q = None \<and> has_error \<sigma>' f \<and> (\<exists>k. holds \<sigma>' (drop k xs)) \<or>
     q = Some (p + length (line_of (n - 1) xs)) \<and> bytes_at (memory \<sigma>') p (line_of (n - 1) xs) \<and>
       holds \<sigma>' (drop (length (line_of (n - 1) xs)) xs)"

lemma fgets_loop_in:
  "in_stream h inp \<sigma> f xs \<Longrightarrow> apart \<sigma> f p n \<Longrightarrow> mapped (memory \<sigma>) p n \<Longrightarrow> 0 < n \<Longrightarrow>
     \<exists>q \<sigma>'. fgets_loop h \<sigma> p n f = Some (q, \<sigma>') \<and> touches f p n \<sigma> \<sigma>' \<and> mapped (memory \<sigma>') p n \<and>
       got_line (\<lambda>\<sigma>. in_stream h inp \<sigma> f) f n xs p q \<sigma>'"
proof (induction n arbitrary: \<sigma> p xs)
  case (Suc n)
  obtain S where S: "files \<sigma> f = Some S" using Suc.prems(1) by (auto simp: in_stream_def in_core_def)
  show ?case
  proof (cases "n = 0")
    case True
    then show ?thesis
      using Suc.prems only_stream_touches [OF only_stream_refl [OF S]] by (simp add: got_line_def)
  next
    case False
    then obtain n' where n': "n = Suc n'" by (cases n) auto
    obtain r \<sigma>1 where g: "fgetc_unlocked h \<sigma> f = Some (r, \<sigma>1)" "only_stream f \<sigma> \<sigma>1"
        "next_char (\<lambda>\<sigma>. in_stream h inp \<sigma> f) f xs r \<sigma>1"
      using fgetc_in [OF Suc.prems(1)] by blast
    have a1: "apart \<sigma>1 f p (Suc n)" "mapped (memory \<sigma>1) p (Suc n)" "touches f p (Suc n) \<sigma> \<sigma>1"
      using touches_apart [OF only_stream_touches [OF g(2)] Suc.prems(2)] only_stream_mapped [OF g(2) Suc.prems(2,3)]
        only_stream_touches [OF g(2)] by blast+
    show ?thesis
    proof (cases "r = EOF")
      case True
      then have e: "in_stream h inp \<sigma>1 f xs" "xs = [] \<or> has_error \<sigma>1 f" using g(3) by (auto simp: next_char_def)
      obtain S1 where S1: "files \<sigma>1 f = Some S1" using e(1) by (auto simp: in_stream_def in_core_def)
      have "fgets_loop h \<sigma> p (Suc n) f = Some (if FERROR_UNLOCKED S1 then None else Some p, \<sigma>1)"
        using False g(1) True S1 by simp
      moreover have "got_line (\<lambda>\<sigma>. in_stream h inp \<sigma> f) f (Suc n) xs p (if FERROR_UNLOCKED S1 then None else Some p) \<sigma>1"
      proof (cases "FERROR_UNLOCKED S1")
        case True
        then have "in_stream h inp \<sigma>1 f (drop 0 xs) \<and> has_error \<sigma>1 f" using e(1) S1 by (auto simp: has_error_def)
        then show ?thesis using True unfolding got_line_def by (metis (full_types))
      next
        case False
        then have "xs = []" using e(2) S1 by (auto simp: has_error_def)
        then show ?thesis using False e(1) n' by (simp add: got_line_def)
      qed
      ultimately show ?thesis using a1 by blast
    next
      case False
      then obtain c ys where c: "xs = c # ys" "r = uint c" "in_stream h inp \<sigma>1 f ys"
        using g(3) by (auto simp: next_char_def)
      let ?m = "(memory \<sigma>1)(p \<mapsto> c)"
      let ?\<sigma> = "\<sigma>1\<lparr>memory := ?m\<rparr>"
      obtain v where v: "memory \<sigma>1 p = Some v" using a1(2) by (auto simp: mapped_Suc)
      obtain S1 where S1: "files \<sigma>1 f = Some S1" using c(3) by (auto simp: in_stream_def in_core_def)
      have in2: "in_stream h inp ?\<sigma> f ys"
        by (rule in_stream_store [OF c(3) a1(1)]) auto
      have t2: "touches f p (Suc n) \<sigma> ?\<sigma>"
        by (rule touches_trans [OF a1(3) touches_memory [OF S1]]) auto
      have step: "fgets_loop h \<sigma> p (Suc n) f =
          (if c = newline then Some (Some (p + 1), ?\<sigma>) else fgets_loop h ?\<sigma> (p + 1) n f)"
        using \<open>n \<noteq> 0\<close> g(1) c(2) v by (simp add: store_mapped)
      show ?thesis
      proof (cases "c = newline")
        case True
        then show ?thesis
          using step in2 t2 a1(2) c(1) n' by (simp add: got_line_def)
      next
        case nl: False
        have a2: "apart ?\<sigma> f (p + 1) n" "mapped (memory ?\<sigma>) (p + 1) n"
          using a1(1,2) by (auto simp: apart_def mapped_Suc)
        obtain q \<sigma>' where r: "fgets_loop h ?\<sigma> (p + 1) n f = Some (q, \<sigma>')" "touches f (p + 1) n ?\<sigma> \<sigma>'"
            "mapped (memory \<sigma>') (p + 1) n" "got_line (\<lambda>\<sigma>. in_stream h inp \<sigma> f) f n ys (p + 1) q \<sigma>'"
          using Suc.IH [OF in2 a2] \<open>n \<noteq> 0\<close> by blast
        have "apart ?\<sigma> f p (Suc n)" using a1(1) by (simp add: apart_def)
        then have p: "memory \<sigma>' p = Some c"
          using touches_same [OF r(2), of p "Suc n" p] by simp
        have "touches f p (Suc n) \<sigma> \<sigma>'"
          by (rule touches_trans [OF t2 touches_mono [OF r(2)]]) simp_all
        moreover have "mapped (memory \<sigma>') p (Suc n)" using p r(3) by (auto simp: mapped_Suc)
        moreover have "got_line (\<lambda>\<sigma>. in_stream h inp \<sigma> f) f (Suc n) xs p q \<sigma>'"
          using r(4) p nl unfolding got_line_def c(1) n' by (auto intro: exI [of _ "Suc _"] simp: Suc_diff_1)
        ultimately show ?thesis using r(1) step nl by auto
      qed
    qed
  qed
qed simp

lemma fgets_in:
  assumes "in_stream h inp \<sigma> f xs" "apart \<sigma> f s (nat n)" "mapped (memory \<sigma>) s (nat n)" "s \<noteq> NULL" "1 < n"
  shows "\<exists>r \<sigma>'. fgets_unlocked h \<sigma> s n f = Some (r, \<sigma>') \<and> touches f s (nat n) \<sigma> \<sigma>' \<and>
    (r = s \<and> xs \<noteq> [] \<and> bytes_at (memory \<sigma>') s (line_of (nat n - 1) xs @ [0]) \<and>
        in_stream h inp \<sigma>' f (drop (length (line_of (nat n - 1) xs)) xs) \<or>
     r = NULL \<and> (xs = [] \<or> has_error \<sigma>' f) \<and> (\<exists>k. in_stream h inp \<sigma>' f (drop k xs)))"
proof -
  have n: "0 < nat n" using assms(5) by simp
  let ?l = "line_of (nat n - 1) xs"
  obtain q \<sigma>1 where r: "fgets_loop h \<sigma> s (nat n) f = Some (q, \<sigma>1)" "touches f s (nat n) \<sigma> \<sigma>1" "mapped (memory \<sigma>1) s (nat n)"
      "got_line (\<lambda>\<sigma>. in_stream h inp \<sigma> f) f (nat n) xs s q \<sigma>1"
    using fgets_loop_in [OF assms(1-3) n] by blast
  have a1: "apart \<sigma>1 f s (nat n)" by (rule touches_apart [OF r(2) assms(2)])
  show ?thesis
  proof (cases q)
    case None
    then have "fgets_unlocked h \<sigma> s n f = Some (NULL, \<sigma>1)" using r(1) assms(5) by (simp add: fgets_unlocked_def)
    then show ?thesis using r(2,4) None by (auto simp: got_line_def)
  next
    case (Some p)
    then have g: "p = s + length ?l" "bytes_at (memory \<sigma>1) s ?l" "in_stream h inp \<sigma>1 f (drop (length ?l) xs)"
      using r(4) by (auto simp: got_line_def)
    have e: "?l = [] \<longleftrightarrow> xs = []" using assms(5) by (cases "nat n - 1"; cases xs) auto
    show ?thesis
    proof (cases "xs = []")
      case True
      then have "fgets_unlocked h \<sigma> s n f = Some (NULL, \<sigma>1)"
        using r(1) assms(5) Some g(1) e by (simp add: fgets_unlocked_def)
      then show ?thesis using r(2) g(3) True by auto
    next
      case False
      let ?m = "(memory \<sigma>1)(p \<mapsto> 0)"
      have len: "length ?l < nat n" using line_of_length [of "nat n - 1" xs] n by linarith
      obtain S1 where S1: "files \<sigma>1 f = Some S1" using g(3) by (auto simp: in_stream_def in_core_def)
      obtain v where "memory \<sigma>1 p = Some v" using mapped_load [OF r(3) len] g(1) by auto
      moreover have "s < p" using e False g(1) by simp
      ultimately have "fgets_unlocked h \<sigma> s n f = Some (s, \<sigma>1\<lparr>memory := ?m\<rparr>)"
        using r(1) assms(5) Some by (simp add: fgets_unlocked_def store_mapped)
      moreover have "bytes_at ?m s (?l @ [0])" using g(1,2) by (simp add: bytes_at_upd_other)
      moreover have "in_stream h inp (\<sigma>1\<lparr>memory := ?m\<rparr>) f (drop (length ?l) xs)"
        by (rule in_stream_store [OF g(3) a1]) (use len g(1) in auto)
      moreover have "touches f s (nat n) \<sigma> (\<sigma>1\<lparr>memory := ?m\<rparr>)"
        by (rule touches_trans [OF r(2) touches_memory [OF S1]]) (use len g(1) in auto)
      ultimately show ?thesis using False by auto
    qed
  qed
qed

section \<open>fread\<close>

text \<open>The first \<open>k\<close> bytes of the stream have been moved to \<open>p\<close>.\<close>

definition taken :: "'w host \<Rightarrow> ('w \<Rightarrow> int \<Rightarrow> byte list) \<Rightarrow> addr \<Rightarrow> addr \<Rightarrow> nat \<Rightarrow> byte list \<Rightarrow> nat \<Rightarrow> 'w stdio \<Rightarrow> 'w stdio \<Rightarrow> bool" where
  "taken h inp f p n xs k \<sigma> \<sigma>' \<longleftrightarrow> k \<le> n \<and> k \<le> length xs \<and> touches f p n \<sigma> \<sigma>' \<and> mapped (memory \<sigma>') p n \<and>
     bytes_at (memory \<sigma>') p (take k xs) \<and> in_stream h inp \<sigma>' f (drop k xs)"

lemma taken_trans:
  assumes t1: "taken h inp f p n xs k \<sigma> \<sigma>1" and a: "apart \<sigma> f p n"
    and t2: "taken h inp f (p + k) (n - k) (drop k xs) j \<sigma>1 \<sigma>2"
  shows "taken h inp f p n xs (k + j) \<sigma> \<sigma>2"
proof -
  note d1 = t1 [unfolded taken_def] and d2 = t2 [unfolded taken_def]
  have a1: "apart \<sigma>1 f p n" using touches_apart [of f p n \<sigma> \<sigma>1] d1 a by blast
  have "memory \<sigma>2 b = memory \<sigma>1 b" if "p \<le> b" "b < p + k" for b
    using touches_same [of f "p + k" "n - k" \<sigma>1 \<sigma>2 p n b] d1 d2 a1 that by auto
  then have "bytes_at (memory \<sigma>2) p (take k xs)" "mapped (memory \<sigma>2) p k"
    using bytes_at_cong [of "memory \<sigma>1" p "take k xs" "memory \<sigma>2"] mapped_cong [of "memory \<sigma>1" p k "memory \<sigma>2"]
      d1 mapped_mono [of "memory \<sigma>1" p n k] by auto
  then have "bytes_at (memory \<sigma>2) p (take (k + j) xs)" "mapped (memory \<sigma>2) p n"
    using d1 d2 mapped_add [of "memory \<sigma>2" p k "n - k"] by (simp_all add: take_add)
  moreover have "touches f p n \<sigma> \<sigma>2"
    using touches_trans [of f p n \<sigma> \<sigma>1 \<sigma>2] touches_mono [of f "p + k" "n - k" \<sigma>1 \<sigma>2 p n] d1 d2 by auto
  ultimately show ?thesis using d1 d2 by (auto simp: taken_def add.commute)
qed

lemma store_core:
  assumes "in_core h inp \<sigma> f S bs" "apart \<sigma> f p n" "\<And>a. a < p \<or> p + n \<le> a \<Longrightarrow> m a = memory \<sigma> a" "dom (memory \<sigma>) \<subseteq> dom m"
  shows "in_core h inp (\<sigma>\<lparr>memory := m\<rparr>) f S bs"
proof -
  note d = in_coreD [OF assms(1)]
  have "bytes_at m (bufpos S) bs"
    using d(10)
  proof (rule bytes_at_cong)
    fix a assume "bufpos S \<le> a" "a < bufpos S + length bs"
    then have "bufstart S \<le> a" "a < bufend S" using d(8,9,12) by linarith+
    then show "m a = memory \<sigma> a" using assms(2) d(2) by (intro assms(3)) (auto simp: apart_def)
  qed
  then show ?thesis
    by (intro in_core_intro [OF assms(1)]) (use d assms(4) in \<open>simp_all add: fun_upd_idem\<close>)
qed

text \<open>The characters pushed back come first.\<close>

lemma fread_ungots_core:
  "in_core h inp \<sigma> f S bs \<Longrightarrow> STREAM_IS_READING S \<Longrightarrow> 0 < n \<Longrightarrow> apart \<sigma> f p n \<Longrightarrow> mapped (memory \<sigma>) p n \<Longrightarrow>
     \<exists>\<sigma>' S'. fread_ungots \<sigma> f p n = Some (\<sigma>', p + min n (length (ungots S)), n - length (ungots S)) \<and>
       in_core h inp \<sigma>' f S' bs \<and> STREAM_IS_READING S' \<and> filedes S' = filedes S \<and> world \<sigma>' = world \<sigma> \<and>
       ungots S' = drop n (ungots S) \<and>
       taken h inp f p n (ungots S @ bs @ inp (world \<sigma>) (filedes S)) (min n (length (ungots S))) \<sigma> \<sigma>'"
proof (induction "length (ungots S)" arbitrary: \<sigma> S p n)
  case 0
  note d = in_coreD [OF 0(2)]
  have "\<not> STREAM_HAS_UNGOT S" using 0(1) by (auto simp: ungots_def flag_simps split: if_splits)
  then have "fread_ungots \<sigma> f p n = Some (\<sigma>, p, n)" using d(2) by (simp add: fread_ungots.simps)
  then show ?case
    using 0 in_stream_core [OF 0(2)] only_stream_touches [OF only_stream_refl [OF d(2)]]
    by (intro exI [of _ \<sigma>] exI [of _ S]) (simp add: taken_def)
next
  case (Suc k)
  note c = Suc.prems(1) and d = in_coreD [OF Suc.prems(1)]
  have u: "STREAM_HAS_UNGOT S" using Suc.hyps(2) by (auto simp: ungots_def flag_simps split: if_splits)
  let ?u = "fst (take_ungot S)" and ?S = "snd (take_ungot S)"
  have us: "ungots S = ?u # ungots ?S" by (rule take_ungot_ungots [OF u])
  obtain v where v: "memory \<sigma> p = Some v" using Suc.prems(3,5) by (cases n) (auto simp: mapped_Suc)
  let ?m = "(memory \<sigma>)(p \<mapsto> ?u)"
  let ?\<sigma> = "put (\<sigma>\<lparr>memory := ?m\<rparr>) f ?S"
  have "in_core h inp (\<sigma>\<lparr>memory := ?m\<rparr>) f S bs"
    by (rule store_core [OF c Suc.prems(4)]) (use Suc.prems(3) in auto)
  then have c1: "in_core h inp ?\<sigma> f ?S bs" "STREAM_IS_READING ?S"
    using take_ungot_core [OF _ u] by blast+
  have t1: "touches f p n \<sigma> ?\<sigma>"
  proof (rule touches_trans)
    show "touches f p n \<sigma> (\<sigma>\<lparr>memory := ?m\<rparr>)" by (rule touches_memory [OF d(2)]) (use Suc.prems(3) in auto)
    show "touches f p n (\<sigma>\<lparr>memory := ?m\<rparr>) ?\<sigma>"
      by (rule only_stream_touches [OF only_stream_put]) (use d(2) in simp_all)
  qed
  have tk: "taken h inp f p n (ungots S @ bs @ inp (world \<sigma>) (filedes S)) 1 \<sigma> ?\<sigma>"
    using t1 Suc.prems(3,5) in_stream_core [OF c1(1)] us by (simp add: taken_def)
  have a1: "apart ?\<sigma> f p n" by (rule touches_apart [OF t1 Suc.prems(4)])
  show ?case
  proof (cases "n = 1")
    case True
    then have "fread_ungots \<sigma> f p n = Some (?\<sigma>, p + 1, 0)"
      using d(2) u v by (simp add: fread_ungots.simps store_mapped split: prod.split)
    then show ?thesis
      using c1 tk us True by (intro exI [of _ ?\<sigma>] exI [of _ ?S]) simp
  next
    case False
    have step: "fread_ungots \<sigma> f p n = fread_ungots ?\<sigma> f (p + 1) (n - 1)"
      using d(2) u v False Suc.prems(3) by (subst fread_ungots.simps) (simp add: store_mapped split: prod.split)
    have "k = length (ungots ?S)" "0 < n - 1" "apart ?\<sigma> f (p + 1) (n - 1)" "mapped (memory ?\<sigma>) (p + 1) (n - 1)"
      using Suc.hyps(2) us False Suc.prems(3,5) a1 mapped_sub [of "memory ?\<sigma>" p n 1 "n - 1"] by (auto simp: apart_def)
    then obtain \<sigma>' S' where r: "fread_ungots ?\<sigma> f (p + 1) (n - 1) =
          Some (\<sigma>', p + 1 + min (n - 1) (length (ungots ?S)), n - 1 - length (ungots ?S))"
        "in_core h inp \<sigma>' f S' bs" "STREAM_IS_READING S'" "filedes S' = filedes ?S" "world \<sigma>' = world ?\<sigma>"
        "ungots S' = drop (n - 1) (ungots ?S)"
        "taken h inp f (p + 1) (n - 1) (ungots ?S @ bs @ inp (world ?\<sigma>) (filedes ?S)) (min (n - 1) (length (ungots ?S))) ?\<sigma> \<sigma>'"
      using Suc.hyps(1) [OF _ c1, of "n - 1" "p + 1"] by blast
    have "1 + min (n - 1) (length (ungots ?S)) = min n (length (ungots S))"
      using us Suc.prems(3) by simp
    moreover have "taken h inp f p n (ungots S @ bs @ inp (world \<sigma>) (filedes S)) (1 + min (n - 1) (length (ungots ?S))) \<sigma> \<sigma>'"
      by (rule taken_trans [OF tk Suc.prems(4)]) (use r(7) us in simp)
    moreover have "drop (n - 1) (ungots ?S) = drop n (ungots S)" using us Suc.prems(3) by (simp add: drop_Cons')
    ultimately show ?thesis
      using r step us by (intro exI [of _ \<sigma>'] exI [of _ S']) (simp add: add.assoc [symmetric])
  qed
qed

text \<open>Then the rest of the buffer.\<close>

lemma fread_buffered_core:
  assumes c: "in_core h inp \<sigma> f S bs" "STREAM_IS_READING S" "ungots S = []"
    and p: "apart \<sigma> f p n" "mapped (memory \<sigma>) p n"
  shows "\<exists>\<sigma>' S'. fread_buffered \<sigma> f p n = Some (\<sigma>', p + min n (length bs), n - length bs) \<and>
     in_core h inp \<sigma>' f S' (drop n bs) \<and> STREAM_IS_READING S' \<and> filedes S' = filedes S \<and> world \<sigma>' = world \<sigma> \<and>
     ungots S' = [] \<and> taken h inp f p n (bs @ inp (world \<sigma>) (filedes S)) (min n (length bs)) \<sigma> \<sigma>'"
proof (cases "bs = []")
  case True
  note d = in_coreD [OF c(1)]
  have "size_t (BUFFER_RAVAIL S) = 0" using d(8) True by (simp add: BUFFER_RAVAIL_def size_t_def)
  then have "fread_buffered \<sigma> f p n = Some (\<sigma>, p, n)" using d(2) by (simp add: fread_buffered_def)
  then show ?thesis
    using c p True in_stream_core [OF c(1)] only_stream_touches [OF only_stream_refl [OF d(2)]]
    by (intro exI [of _ \<sigma>] exI [of _ S]) (simp add: taken_def)
next
  case False
  note d = in_coreD [OF c(1)]
  let ?k = "min n (length bs)"
  let ?m = "write_bytes (memory \<sigma>) p (take n bs)"
  let ?S = "S\<lparr>bufpos := bufpos S + ?k\<rparr>"
  let ?\<sigma> = "put (\<sigma>\<lparr>memory := ?m\<rparr>) f ?S"
  have "length bs < 2 ^ 64"
  proof -
    have "buflen S < 2 ^ 63" using d(3) by (simp add: buffer_ok_def)
    moreover have "length bs \<le> buflen S" using d(8,9,12) by linarith
    ultimately show ?thesis by simp
  qed
  then have ra: "size_t (BUFFER_RAVAIL S) = length bs" using d(8) by (simp add: BUFFER_RAVAIL_def size_t_nat)
  have "mapped (memory \<sigma>) p ?k" using p(2) by (rule mapped_mono) simp
  then have cp: "memcpy (memory \<sigma>) p (bufpos S) ?k = Some ?m"
    using bytes_at_take [OF d(10), of n] by (intro memcpy_block) (simp_all add: min.commute)
  have mem: "?m a = memory \<sigma> a" if "a < p \<or> p + n \<le> a" for a
    using that by (intro write_bytes_other) auto
  have "fread_buffered \<sigma> f p n = Some (?\<sigma>, p + ?k, n - ?k)"
    using d(2) ra cp False by (simp add: fread_buffered_def Let_def min.commute)
  moreover have "n - ?k = n - length bs" by simp
  moreover have c0: "in_core h inp (\<sigma>\<lparr>memory := ?m\<rparr>) f S bs"
    by (rule store_core [OF c(1) p(1) mem]) (auto simp: dom_write_bytes)
  have ci: "in_core h inp ?\<sigma> f ?S (drop n bs)"
  proof (rule in_core_intro [OF c0])
    show "bytes_at (memory ?\<sigma>) (bufpos ?S) (drop n bs)"
      using bytes_at_drop [OF in_coreD(10) [OF c0], of ?k] by (cases "n \<le> length bs") (simp_all add: min_def)
  qed (use d c(2) in \<open>auto simp: flag_simps min_def\<close>)
  moreover have t: "touches f p n \<sigma> ?\<sigma>"
  proof (rule touches_trans)
    show "touches f p n \<sigma> (\<sigma>\<lparr>memory := ?m\<rparr>)" by (rule touches_memory [OF d(2) mem])
    show "touches f p n (\<sigma>\<lparr>memory := ?m\<rparr>) ?\<sigma>"
      by (rule only_stream_touches [OF only_stream_put]) (use d(2) in simp_all)
  qed
  moreover have "in_stream h inp ?\<sigma> f (drop ?k (bs @ inp (world \<sigma>) (filedes S)))"
    using in_stream_core [OF ci] c(3) by (simp add: min_def split: if_splits)
  moreover have "bytes_at ?m p (take ?k (bs @ inp (world \<sigma>) (filedes S)))"
    using bytes_at_write [of "memory \<sigma>" p "take n bs"] by (simp add: min_def split: if_splits)
  moreover have "STREAM_IS_READING ?S" "ungots ?S = []" using c(2,3) by (simp_all add: flag_simps)
  ultimately show ?thesis
    using p(2) by (intro exI [of _ ?\<sigma>] exI [of _ ?S]) (simp add: taken_def)
qed

text \<open>And then the device, directly into the caller's block.\<close>

lemma READ_taken:
  assumes c: "in_core h inp \<sigma> f S []" "STREAM_IS_READING S" "ungots S = []"
    and p: "apart \<sigma> f p n" "mapped (memory \<sigma>) p n" "0 < n"
  obtains k \<sigma>' S' where "stdio_READ h \<sigma> f p n = Some (k, \<sigma>')" "in_core h inp \<sigma>' f S' []" "STREAM_IS_READING S'"
      "ungots S' = []" "filedes S' = filedes S" "inp (world \<sigma>') (filedes S) = drop k (inp (world \<sigma>) (filedes S))"
      "taken h inp f p n (inp (world \<sigma>) (filedes S)) k \<sigma> \<sigma>'"
      "k = 0 \<Longrightarrow> inp (world \<sigma>) (filedes S) = [] \<or> has_error \<sigma>' f"
proof -
  note d = in_coreD [OF c(1)]
  show ?thesis
  proof (rule READ_block [OF d(1,2,11) p(3,2)])
    fix bs w
    assume r: "stdio_READ h \<sigma> f p n = Some (length bs, \<sigma>\<lparr>world := w, memory := write_bytes (memory \<sigma>) p bs\<rparr>)"
        "bs \<noteq> []" "length bs \<le> n" "inp (world \<sigma>) (filedes S) = bs @ inp w (filedes S)" "\<not> FEOF_UNLOCKED S"
    let ?m = "write_bytes (memory \<sigma>) p bs"
    let ?\<sigma> = "\<sigma>\<lparr>world := w, memory := ?m\<rparr>"
    have put: "put ?\<sigma> f S = ?\<sigma>" using d(2) by (simp add: put_def fun_upd_idem)
    have "in_core h inp (put ?\<sigma> f S) f S []"
      by (rule in_core_intro [OF c(1)]) (use d c(2) r(5) in \<open>auto simp: flag_simps dom_write_bytes\<close>)
    then have ci: "in_core h inp ?\<sigma> f S []" unfolding put .
    have "touches f p n \<sigma> ?\<sigma>"
      unfolding touches_def
      by (rule exI [of _ S], rule exI [of _ S]) (use d(2) r(3) in \<open>auto simp: fun_upd_idem intro!: write_bytes_other\<close>)
    moreover have "in_stream h inp ?\<sigma> f (drop (length bs) (inp (world \<sigma>) (filedes S)))"
      using in_stream_core [OF ci] c(3) r(4) by simp
    ultimately have "taken h inp f p n (inp (world \<sigma>) (filedes S)) (length bs) \<sigma> ?\<sigma>"
      using r(3,4) p(2) by (simp add: taken_def)
    then show ?thesis using that [OF r(1) ci c(2,3)] r(2,4) by simp
  next
    fix fl w
    assume r: "stdio_READ h \<sigma> f p n = Some (0, put (\<sigma>\<lparr>world := w\<rparr>) f (set_flag fl S))" "fl = 0 \<or> fl = FLAG_EOF"
        "inp (world \<sigma>) (filedes S) = []" "inp w (filedes S) = []"
    let ?S = "set_flag fl S"
    let ?\<sigma> = "put (\<sigma>\<lparr>world := w, memory := memory \<sigma>\<rparr>) f ?S"
    have b: "bit (modeflags ?S) k = (bit (modeflags S) k \<or> k = 2 \<and> fl = FLAG_EOF)" if "k < 10" for k
      using r(2) by (auto simp: bit_or_iff bit_consts simp del: bit_numeral_word_iff)
    have ci: "in_core h inp ?\<sigma> f ?S []"
      by (rule in_core_intro [OF c(1)]) (use d r c(2) b in \<open>auto simp: flag_simps\<close>)
    moreover have u: "ungots ?S = []" "STREAM_IS_READING ?S"
      using c(2,3) ungots_cong [of ?S S] b by (simp_all add: flag_simps)
    moreover have "only_stream f \<sigma> ?\<sigma>" by (rule only_stream_world [OF d(2)]) simp_all
    then have "taken h inp f p n (inp (world \<sigma>) (filedes S)) 0 \<sigma> ?\<sigma>"
      using in_stream_core [OF ci] u r(3,4) p(2) only_stream_touches by (auto simp: taken_def)
    ultimately show ?thesis using that [of 0 ?\<sigma> ?S] r(1,3,4) by simp
  next
    fix w
    assume r: "stdio_READ h \<sigma> f p n = Some (0, put (\<sigma>\<lparr>world := w\<rparr>) f (set_flag FLAG_ERROR S))"
        "inp w (filedes S) = inp (world \<sigma>) (filedes S)" "\<not> FEOF_UNLOCKED S"
    let ?S = "set_flag FLAG_ERROR S"
    let ?\<sigma> = "put (\<sigma>\<lparr>world := w, memory := memory \<sigma>\<rparr>) f ?S"
    have ci: "in_core h inp ?\<sigma> f ?S []"
      by (rule in_core_intro [OF c(1)]) (use d r c(2) in \<open>auto simp: flag_simps bit_simps\<close>)
    moreover have u: "ungots ?S = []" "STREAM_IS_READING ?S"
      using c(2,3) ungots_cong [of ?S S] by (simp_all add: flag_simps bit_simps)
    moreover have "only_stream f \<sigma> ?\<sigma>" by (rule only_stream_world [OF d(2)]) simp_all
    then have "taken h inp f p n (inp (world \<sigma>) (filedes S)) 0 \<sigma> ?\<sigma>"
      using in_stream_core [OF ci] u r(2) p(2) only_stream_touches by (auto simp: taken_def)
    moreover have "has_error ?\<sigma> f" by (simp add: has_error_def flag_simps bit_simps)
    ultimately show ?thesis using that [of 0 ?\<sigma> ?S] r(1,2) by simp
  qed
qed

lemma fread_loop_core:
  "in_core h inp \<sigma> f S [] \<Longrightarrow> STREAM_IS_READING S \<Longrightarrow> ungots S = [] \<Longrightarrow> apart \<sigma> f p n \<Longrightarrow> mapped (memory \<sigma>) p n \<Longrightarrow> 0 < n \<Longrightarrow>
     \<exists>k \<sigma>'. fread_loop h \<sigma> f p n = Some (n - k, \<sigma>') \<and> taken h inp f p n (inp (world \<sigma>) (filedes S)) k \<sigma> \<sigma>' \<and>
       (k = n \<or> k = length (inp (world \<sigma>) (filedes S)) \<or> has_error \<sigma>' f)"
proof (induction n arbitrary: \<sigma> S p rule: less_induct)
  case (less n)
  let ?xs = "inp (world \<sigma>) (filedes S)"
  obtain k \<sigma>1 S1 where r: "stdio_READ h \<sigma> f p n = Some (k, \<sigma>1)" "in_core h inp \<sigma>1 f S1 []" "STREAM_IS_READING S1"
      "ungots S1 = []" "filedes S1 = filedes S" "inp (world \<sigma>1) (filedes S) = drop k ?xs"
      "taken h inp f p n ?xs k \<sigma> \<sigma>1" "k = 0 \<Longrightarrow> ?xs = [] \<or> has_error \<sigma>1 f"
    by (rule READ_taken [OF less.prems(1-6)]) blast
  note tk = r(7) [unfolded taken_def]
  consider "k = 0" | "0 < k" "k = n" | "0 < k" "k < n" using tk by linarith
  then show ?case
  proof cases
    case 1
    then have "fread_loop h \<sigma> f p n = Some (n - 0, \<sigma>1)" using r(1) by (simp add: fread_loop.simps)
    then show ?thesis using r(7,8) 1 by (intro exI [of _ 0] exI [of _ \<sigma>1]) auto
  next
    case 2
    then have "fread_loop h \<sigma> f p n = Some (n - n, \<sigma>1)" using r(1) by (simp add: fread_loop.simps)
    then show ?thesis using r(7) 2 by (intro exI [of _ n] exI [of _ \<sigma>1]) auto
  next
    case 3
    have a1: "apart \<sigma>1 f p n" using touches_apart [of f p n \<sigma> \<sigma>1] tk less.prems(4) by blast
    have "apart \<sigma>1 f (p + k) (n - k)" using a1 3 by (auto simp: apart_def)
    moreover have "mapped (memory \<sigma>1) (p + k) (n - k)" using tk 3 by (intro mapped_sub [of _ _ n]) auto
    moreover have "n - k < n" "0 < n - k" using 3 by auto
    ultimately obtain j \<sigma>2 where j: "fread_loop h \<sigma>1 f (p + k) (n - k) = Some (n - k - j, \<sigma>2)"
        "taken h inp f (p + k) (n - k) (inp (world \<sigma>1) (filedes S1)) j \<sigma>1 \<sigma>2"
        "j = n - k \<or> j = length (inp (world \<sigma>1) (filedes S1)) \<or> has_error \<sigma>2 f"
      using less.IH [OF _ r(2-4)] by blast
    have "fread_loop h \<sigma> f p n = Some (n - (k + j), \<sigma>2)"
      using r(1) j(1) 3 by (subst fread_loop.simps) simp
    moreover have "taken h inp f p n ?xs (k + j) \<sigma> \<sigma>2"
      by (rule taken_trans [OF r(7) less.prems(4)]) (use j(2) r(5,6) in simp)
    moreover have "k + j = n \<or> k + j = length ?xs \<or> has_error \<sigma>2 f"
      using j(3) r(5,6) 3 tk by auto
    ultimately show ?thesis by blast
  qed
qed

lemma fread_bytes_core:
  assumes c: "in_core h inp \<sigma> f S bs" "STREAM_IS_READING S"
    and p: "apart \<sigma> f p n" "mapped (memory \<sigma>) p n" "0 < n"
  shows "\<exists>k \<sigma>'. fread_bytes h \<sigma> p n f = Some (n - k, \<sigma>') \<and>
     taken h inp f p n (ungots S @ bs @ inp (world \<sigma>) (filedes S)) k \<sigma> \<sigma>' \<and>
     (k = n \<or> k = length (ungots S @ bs @ inp (world \<sigma>) (filedes S)) \<or> has_error \<sigma>' f)"
proof -
  let ?xs = "ungots S @ bs @ inp (world \<sigma>) (filedes S)"
  let ?u = "length (ungots S)"
  obtain \<sigma>1 S1 where r1: "fread_ungots \<sigma> f p n = Some (\<sigma>1, p + min n ?u, n - ?u)" "in_core h inp \<sigma>1 f S1 bs"
      "STREAM_IS_READING S1" "filedes S1 = filedes S" "world \<sigma>1 = world \<sigma>" "ungots S1 = drop n (ungots S)"
      "taken h inp f p n ?xs (min n ?u) \<sigma> \<sigma>1"
    using fread_ungots_core [OF c p(3,1,2)] by blast
  show ?thesis
  proof (cases "n \<le> ?u")
    case True
    then have "fread_bytes h \<sigma> p n f = Some (n - n, \<sigma>1)" using r1(1) by (simp add: fread_bytes_def)
    then show ?thesis using r1(7) True by (intro exI [of _ n] exI [of _ \<sigma>1]) (simp add: min_def)
  next
    case False
    let ?n1 = "n - ?u"
    have u1: "ungots S1 = []" using r1(6) False by simp
    have t1: "taken h inp f p n ?xs ?u \<sigma> \<sigma>1" using r1(7) False by (simp add: min_def)
    note tk1 = t1 [unfolded taken_def]
    have a1: "apart \<sigma>1 f p n" using touches_apart [of f p n \<sigma> \<sigma>1] tk1 p(1) by blast
    have p1: "apart \<sigma>1 f (p + ?u) ?n1" "mapped (memory \<sigma>1) (p + ?u) ?n1"
      using a1 tk1 False mapped_sub [of "memory \<sigma>1" p n ?u ?n1] by (auto simp: apart_def)
    obtain \<sigma>2 S2 where r2: "fread_buffered \<sigma>1 f (p + ?u) ?n1 = Some (\<sigma>2, p + ?u + min ?n1 (length bs), ?n1 - length bs)"
        "in_core h inp \<sigma>2 f S2 (drop ?n1 bs)" "STREAM_IS_READING S2" "filedes S2 = filedes S1" "world \<sigma>2 = world \<sigma>1" "ungots S2 = []"
        "taken h inp f (p + ?u) ?n1 (bs @ inp (world \<sigma>1) (filedes S1)) (min ?n1 (length bs)) \<sigma>1 \<sigma>2"
      using fread_buffered_core [OF r1(2,3) u1 p1] by blast
    have t2: "taken h inp f p n ?xs (?u + min ?n1 (length bs)) \<sigma> \<sigma>2"
      by (rule taken_trans [OF t1 p(1)]) (use r2(7) r1(4,5) in simp)
    note tk2 = t2 [unfolded taken_def]
    show ?thesis
    proof (cases "?n1 \<le> length bs")
      case True
      then have "fread_bytes h \<sigma> p n f = Some (n - n, \<sigma>2)" using r1(1) r2(1) False by (simp add: fread_bytes_def)
      moreover have "?u + min ?n1 (length bs) = n" using True False by simp
      ultimately show ?thesis using t2 by (intro exI [of _ n] exI [of _ \<sigma>2]) simp
    next
      case nb: False
      let ?n2 = "?n1 - length bs" and ?k2 = "?u + length bs"
      have t2': "taken h inp f p n ?xs ?k2 \<sigma> \<sigma>2" using t2 nb by (simp add: min_def)
      have c2: "in_core h inp \<sigma>2 f S2 []" using r2(2) nb by simp
      have a2: "apart \<sigma>2 f p n" using touches_apart [of f p n \<sigma> \<sigma>2] tk2 p(1) by blast
      have p2: "apart \<sigma>2 f (p + ?k2) ?n2" "mapped (memory \<sigma>2) (p + ?k2) ?n2" "0 < ?n2"
        using a2 tk2 False nb mapped_sub [of "memory \<sigma>2" p n ?k2 ?n2] by (auto simp: apart_def)
      have fl: "(if STREAM_IS_FBF S2 then Some \<sigma>2 else FLUSH_LBF_STREAMS h \<sigma>2) = Some \<sigma>2"
        using in_coreD(6) [OF c2] FLUSH_quiet [of \<sigma>2 h] by auto
      obtain k \<sigma>3 where r3: "fread_loop h \<sigma>2 f (p + ?k2) ?n2 = Some (?n2 - k, \<sigma>3)"
          "taken h inp f (p + ?k2) ?n2 (inp (world \<sigma>2) (filedes S2)) k \<sigma>2 \<sigma>3"
          "k = ?n2 \<or> k = length (inp (world \<sigma>2) (filedes S2)) \<or> has_error \<sigma>3 f"
        using fread_loop_core [OF c2 r2(3,6) p2] by blast
      have "fread_bytes h \<sigma> p n f = Some (?n2 - k, \<sigma>3)"
        using r1(1) r2(1) False nb fl r3(1) in_coreD(2) [OF c2]
        by (simp add: fread_bytes_def min_def add.assoc)
      moreover have "?n2 - k = n - (?k2 + k)" by simp
      moreover have d: "drop ?k2 ?xs = inp (world \<sigma>2) (filedes S2)" using r1(4,5) r2(4,5) by simp
      have "n - ?k2 = ?n2" by simp
      then have "taken h inp f p n ?xs (?k2 + k) \<sigma> \<sigma>3"
        using r3(2) d by (intro taken_trans [OF t2' p(1)]) simp
      moreover have "?k2 + k = n \<or> ?k2 + k = length ?xs \<or> has_error \<sigma>3 f"
        using r3(3) r1(4,5) r2(4,5) False nb by auto
      ultimately show ?thesis by metis
    qed
  qed
qed

lemma fread_in:
  assumes "in_stream h inp \<sigma> f xs" "apart \<sigma> f p (sz * nmemb)" "mapped (memory \<sigma>) p (sz * nmemb)"
    and "sz \<noteq> 0" "nmemb \<noteq> 0" "nmemb \<le> SIZE_MAX div sz"
  shows "\<exists>k \<sigma>'. fread_unlocked h \<sigma> p sz nmemb f = Some (k div sz, \<sigma>') \<and> taken h inp f p (sz * nmemb) xs k \<sigma> \<sigma>' \<and>
    (k = sz * nmemb \<or> k = length xs \<or> has_error \<sigma>' f)"
proof -
  let ?n = "sz * nmemb"
  obtain ok \<sigma>1 S bs where r: "ready_to_read \<sigma> f = Some (ok, \<sigma>1)" "only_stream f \<sigma> \<sigma>1" "in_core h inp \<sigma>1 f S bs"
    and xs: "xs = ungots S @ bs @ inp (world \<sigma>1) (filedes S)" "if ok then STREAM_IS_READING S else has_error \<sigma>1 f"
    by (rule ready_in [OF assms(1)])
  have p1: "apart \<sigma>1 f p ?n" "mapped (memory \<sigma>1) p ?n" "touches f p ?n \<sigma> \<sigma>1"
    using touches_apart [OF only_stream_touches [OF r(2)] assms(2)] only_stream_mapped [OF r(2) assms(2,3)]
      only_stream_touches [OF r(2)] by blast+
  show ?thesis
  proof (cases ok)
    case False
    then have "fread_unlocked h \<sigma> p sz nmemb f = Some (0 div sz, \<sigma>1)" using r(1) by (simp add: fread_unlocked_def)
    moreover have "taken h inp f p ?n xs 0 \<sigma> \<sigma>1" using p1 in_stream_core [OF r(3)] xs(1) by (simp add: taken_def)
    moreover have "has_error \<sigma>1 f" using xs(2) False by simp
    ultimately show ?thesis by (intro exI [of _ 0] exI [of _ \<sigma>1]) simp
  next
    case True
    then have rd: "STREAM_IS_READING S" using xs(2) by simp
    have n: "0 < ?n" using assms(4,5) by simp
    obtain k \<sigma>' where b: "fread_bytes h \<sigma>1 p ?n f = Some (?n - k, \<sigma>')" "taken h inp f p ?n xs k \<sigma>1 \<sigma>'"
        "k = ?n \<or> k = length xs \<or> has_error \<sigma>' f"
      using fread_bytes_core [OF r(3) rd p1(1,2) n] unfolding xs(1) by blast
    have "k \<le> ?n" using b(2) by (simp add: taken_def)
    then have "fread_unlocked h \<sigma> p sz nmemb f = Some (k div sz, \<sigma>')"
      using r(1) True b(1) assms(4-6) by (simp add: fread_unlocked_def)
    moreover have "taken h inp f p ?n xs k \<sigma> \<sigma>'"
      using b(2) touches_trans [OF p1(3)] by (auto simp: taken_def)
    ultimately show ?thesis using b(3) by blast
  qed
qed

section \<open>gets\<close>

text \<open>The next line is empty: its newline is taken off the stream and the result is the null pointer.\<close>

lemma gets_empty:
  assumes "in_stream h inp \<sigma> f (newline # xs)" "apart \<sigma> f s 1" "mapped (memory \<sigma>) s 1"
  shows "\<exists>\<sigma>'. gets h \<sigma> s f = Some (NULL, \<sigma>') \<and> (in_stream h inp \<sigma>' f xs \<or> has_error \<sigma>' f)"
proof -
  obtain r \<sigma>1 where g: "fgetc_unlocked h \<sigma> f = Some (r, \<sigma>1)" "only_stream f \<sigma> \<sigma>1"
      "next_char (\<lambda>\<sigma>. in_stream h inp \<sigma> f) f (newline # xs) r \<sigma>1"
    using fgetc_in [OF assms(1)] by blast
  show ?thesis
  proof (cases "r = EOF")
    case True
    then have "gets h \<sigma> s f = Some (NULL, \<sigma>1)" using g(1) by (simp add: gets_def gets_loop.simps)
    then show ?thesis using g(3) True by (auto simp: next_char_def)
  next
    case False
    then have c: "r = uint newline" "in_stream h inp \<sigma>1 f xs" using g(3) by (auto simp: next_char_def)
    have a: "apart \<sigma>1 f s 1" "mapped (memory \<sigma>1) s 1"
      using touches_apart [OF only_stream_touches [OF g(2)] assms(2)] only_stream_mapped [OF g(2) assms(2,3)] by blast+
    then obtain v where "memory \<sigma>1 s = Some v" by (auto simp: mapped_Suc)
    then have "gets h \<sigma> s f = Some (NULL, \<sigma>1\<lparr>memory := (memory \<sigma>1)(s \<mapsto> newline)\<rparr>)"
      using g(1) c(1) by (simp add: gets_def gets_loop.simps store_mapped)
    moreover have "in_stream h inp (\<sigma>1\<lparr>memory := (memory \<sigma>1)(s \<mapsto> newline)\<rparr>) f xs"
      by (rule in_stream_store [OF c(2) a(1)]) auto
    ultimately show ?thesis by blast
  qed
qed

section \<open>Properties\<close>

text \<open>An example: a device that delivers at most three bytes at a time, holding two lines.\<close>

definition slow_reader :: "(int \<Rightarrow> byte list) host" where
  "slow_reader = slow_device\<lparr>sys_read := \<lambda>w fd n. (Some (take (min 3 n) (w fd)), w(fd := drop (min 3 n) (w fd)))\<rparr>"

definition demo_input :: "byte list \<Rightarrow> (int \<Rightarrow> byte list) stdio" where
  "demo_input bs = (demo_state 0)\<lparr>world := \<lambda>_. bs\<rparr>"

lemma slow_reader_ok: "reads_ok slow_reader (\<lambda>w. w)"
  by (auto simp: reads_ok_def slow_reader_def)

lemma demo_in: "in_stream slow_reader (\<lambda>w. w) (demo_input bs) 1 bs"
proof -
  have "buffer_ok (demo_input bs) (demo_file 0)"
    using demo_buffer [of 0] by (simp add: buffer_ok_def demo_input_def)
  then have "in_core slow_reader (\<lambda>w. w) (demo_input bs) 1 (demo_file 0) []"
    using slow_reader_ok
    by (simp add: in_core_def demo_input_def demo_state_def demo_file_def flag_simps IS_FAKE_def)
  moreover have "ungots (demo_file 0) = []" by (simp add: ungots_def demo_file_def)
  ultimately show ?thesis using in_stream_core by (fastforce simp: demo_input_def demo_file_def)
qed

lemma demo_block:
  "apart (demo_input bs) 1 105 8" "mapped (memory (demo_input bs)) 105 8"
  by (simp_all add: apart_def demo_input_def demo_state_def demo_file_def mapped_mem_of)

text \<open>C25. What \<open>ungetc\<close> pushes back is what \<open>fgetc\<close> reads next, and after it the stream is as it was: \<open>in_stream\<close> holds
  the characters pushed back, the rest of the buffer and what the device still has.\<close>

theorem ungetc_fgetc:
  assumes "in_stream h inp \<sigma> f xs" "files \<sigma> f = Some S" "\<not> STREAM_IS_WRITEONLY S" "\<not> STREAM_HAS_UNGOT S" "c \<noteq> EOF"
  shows "\<exists>\<sigma>1 \<sigma>2. ungetc \<sigma> c f = Some (c, \<sigma>1) \<and> in_stream h inp \<sigma>1 f (uchar c # xs) \<and>
    fgetc_unlocked h \<sigma>1 f = Some (uint (uchar c), \<sigma>2) \<and> in_stream h inp \<sigma>2 f xs"
  using ungetc_in [OF assms] fgetc_ungot by blast

theorem ungetc_fgetc_witness:
  "\<exists>\<sigma>1 \<sigma>2. ungetc (demo_input [7]) 65 1 = Some (65, \<sigma>1) \<and> in_stream slow_reader (\<lambda>w. w) \<sigma>1 1 [uchar 65, 7] \<and>
    fgetc_unlocked slow_reader \<sigma>1 1 = Some (uint (uchar 65), \<sigma>2) \<and> in_stream slow_reader (\<lambda>w. w) \<sigma>2 1 [7]"
proof -
  have "files (demo_input [7]) 1 = Some (demo_file 0)" by (simp add: demo_input_def demo_state_def)
  then show ?thesis
    by (rule ungetc_fgetc [OF demo_in]) (simp_all add: demo_file_def flag_simps)
qed

text \<open>C24. \<open>fgets\<close> stores the bytes of the stream up to and with the first newline, at most \<open>n - 1\<close> of them, and a
  terminator, and takes exactly those bytes off the stream. It returns the null pointer only when the
  stream is at its end or has an error.\<close>

theorem fgets_line:
  assumes "in_stream h inp \<sigma> f xs" "apart \<sigma> f s (nat n)" "mapped (memory \<sigma>) s (nat n)" "s \<noteq> NULL" "1 < n"
  shows "\<exists>r \<sigma>'. fgets_unlocked h \<sigma> s n f = Some (r, \<sigma>') \<and> touches f s (nat n) \<sigma> \<sigma>' \<and>
    (r = s \<and> xs \<noteq> [] \<and> bytes_at (memory \<sigma>') s (line_of (nat n - 1) xs @ [0]) \<and>
        in_stream h inp \<sigma>' f (drop (length (line_of (nat n - 1) xs)) xs) \<or>
     r = NULL \<and> (xs = [] \<or> has_error \<sigma>' f) \<and> (\<exists>k. in_stream h inp \<sigma>' f (drop k xs)))"
  using assms by (rule fgets_in)

theorem fgets_line_witness:
  "\<exists>r \<sigma>'. fgets_unlocked slow_reader (demo_input [1, 2, 10, 3]) 105 8 1 = Some (r, \<sigma>') \<and>
    touches 1 105 8 (demo_input [1, 2, 10, 3]) \<sigma>' \<and>
    (r = 105 \<and> bytes_at (memory \<sigma>') 105 [1, 2, 10, 0] \<and> in_stream slow_reader (\<lambda>w. w) \<sigma>' 1 [3] \<or>
     r = NULL \<and> has_error \<sigma>' 1)"
proof -
  have l: "line_of (nat 8 - 1) [1, 2, 10, 3] = [1, 2, 10]" by code_simp
  show ?thesis
    using fgets_line [OF demo_in [of "[1, 2, 10, 3]"], of 105 8] demo_block [of "[1, 2, 10, 3]"]
    unfolding l by auto
qed



text \<open>\<open>gets\<close> loses an empty line: it takes the newline off the stream and returns the null pointer, the
  answer for the end of the input.\<close>

lemma gets_drops_empty_line:
  assumes "in_stream h inp \<sigma> f (newline # xs)" "apart \<sigma> f s 1" "mapped (memory \<sigma>) s 1"
  shows "\<exists>\<sigma>'. gets h \<sigma> s f = Some (NULL, \<sigma>') \<and> (in_stream h inp \<sigma>' f xs \<or> has_error \<sigma>' f)"
  using assms by (rule gets_empty)

theorem gets_drops_empty_line_witness:
  "\<exists>\<sigma>'. gets slow_reader (demo_input [10, 65, 10]) 105 1 = Some (NULL, \<sigma>') \<and>
    (in_stream slow_reader (\<lambda>w. w) \<sigma>' 1 [65, 10] \<or> has_error \<sigma>' 1)"
  using gets_drops_empty_line [OF demo_in [of "[10, 65, 10]"], of 105]
  by (simp add: apart_def demo_input_def demo_state_def demo_file_def mapped_mem_of)

end
