(* ===== verification/Stdio_Files.thy ===== *)
theory Stdio_Files
  imports Stdio_In
begin

text \<open>
  Opening, positioning, buffering and closing streams: \<open>fopen\<close>, \<open>fdopen\<close>, \<open>freopen\<close>, \<open>fclose\<close>, \<open>fseek\<close>,
  \<open>ftell\<close>, \<open>setvbuf\<close>, \<open>getdelim\<close>, the start and the end of the library, and the functions that read or set
  the flags of a stream. The position theorems relate \<open>ftell\<close> and \<open>fseek\<close> to the contents of the file; the last
  section shows which operations keep the library's own invariant.
\<close>

section \<open>Positions\<close>

text \<open>The conversions to \<open>int\<close> and to the 64 bit \<open>__offmax_t\<close>.\<close>

definition int32 :: "int \<Rightarrow> int" where "int32 i = sint (word_of_int i :: 32 word)"
definition off64 :: "int \<Rightarrow> int" where "off64 i = sint (word_of_int i :: 64 word)"

text \<open>
  \<open>lseek\<close> of this system takes and returns an \<open>int\<close>, so the position is converted. The result is the
  return value, \<open>*pos\<close> and the state.
\<close>

definition stdio_seek :: "'w host \<Rightarrow> 'w stdio \<Rightarrow> addr \<Rightarrow> int \<Rightarrow> int \<Rightarrow> (int \<times> int \<times> 'w stdio) option" where
  "stdio_seek h \<sigma> f pos whence = do {
     S \<leftarrow> files \<sigma> f;
     let (res, w) = sys_lseek h (world \<sigma>) (filedes S) (int32 pos) whence;
     let \<sigma> = \<sigma>\<lparr>world := w\<rparr>;
     Some (if 0 \<le> res then (0, res, \<sigma>) else (res, pos, \<sigma>)) }"

definition stdio_adjust_position :: "'w stdio \<Rightarrow> addr \<Rightarrow> int \<Rightarrow> (int \<times> int \<times> 'w stdio) option" where
  "stdio_adjust_position \<sigma> f pos = do {
     S \<leftarrow> files \<sigma> f;
     let corr = uint (modeflags S AND MASK_READING);
     let corr = (if corr \<noteq> 0 then corr - 1 else corr);
     let corr = int32 (corr + ((if STREAM_IS_WRITING S then int (bufstart S) else int (bufread S)) - int (bufpos S)));
     let oldpos = pos;
     let pos = off64 (pos - corr);
     let corr = (if pos > oldpos then int32 (- corr) else corr);
     Some (corr, pos, if corr < 0 then \<sigma>\<lparr>errno := EOVERFLOW\<rparr> else \<sigma>) }"

definition fseek :: "'w host \<Rightarrow> 'w stdio \<Rightarrow> addr \<Rightarrow> int \<Rightarrow> int \<Rightarrow> (int \<times> 'w stdio) option" where
  "fseek h \<sigma> f offset whence =
     (if whence < 0 \<or> 2 < whence then Some (- 1, \<sigma>\<lparr>errno := EINVAL\<rparr>)
      else do {
        S \<leftarrow> files \<sigma> f;
        (pending, \<sigma>) \<leftarrow> (if STREAM_IS_WRITING S then stdio_wcommit h \<sigma> f else Some (0, \<sigma>));
        if pending \<noteq> 0 then Some (- 1, \<sigma>)
        else do {
          (rv, pos, \<sigma>) \<leftarrow> (if whence = 1 then stdio_adjust_position \<sigma> f offset else Some (0, offset, \<sigma>));
          if rv < 0 then Some (- 1, \<sigma>)
          else do {
            (rv, pos, \<sigma>) \<leftarrow> stdio_seek h \<sigma> f pos whence;
            if rv < 0 then Some (- 1, \<sigma>)
            else do {
              S \<leftarrow> files \<sigma> f;
              Some (0, put \<sigma> f (INIT_BUFREAD_BUFPOS (clear_flag (MASK_READING OR FLAG_WRITING OR FLAG_EOF) S))) } } } })"

definition ftell :: "'w host \<Rightarrow> 'w stdio \<Rightarrow> addr \<Rightarrow> (int \<times> 'w stdio) option" where
  "ftell h \<sigma> f = do {
     (rv, pos, \<sigma>) \<leftarrow> stdio_seek h \<sigma> f 0 1;
     if rv < 0 then Some (- 1, \<sigma>)
     else do {
       (rv, pos, \<sigma>) \<leftarrow> stdio_adjust_position \<sigma> f pos;
       Some (if rv < 0 then - 1 else pos, \<sigma>) } }"

definition rewind :: "'w host \<Rightarrow> 'w stdio \<Rightarrow> addr \<Rightarrow> 'w stdio option" where
  "rewind h \<sigma> f = do {
     S \<leftarrow> files \<sigma> f;
     (_, \<sigma>) \<leftarrow> fseek h (put \<sigma> f (clear_flag FLAG_ERROR S)) f 0 0;
     Some \<sigma> }"

text \<open>The result of \<open>fgetpos\<close> is paired with the position stored through its argument.\<close>

definition fgetpos :: "'w host \<Rightarrow> 'w stdio \<Rightarrow> addr \<Rightarrow> (int \<times> int \<times> 'w stdio) option" where
  "fgetpos h \<sigma> f = do { (pos, \<sigma>) \<leftarrow> ftell h \<sigma> f; Some (if 0 \<le> pos then 0 else - 1, pos, \<sigma>) }"

definition fsetpos :: "'w host \<Rightarrow> 'w stdio \<Rightarrow> addr \<Rightarrow> int \<Rightarrow> (int \<times> 'w stdio) option" where
  "fsetpos h \<sigma> f pos = fseek h \<sigma> f pos 0"

section \<open>Flags\<close>

definition clearerr :: "FILE \<Rightarrow> FILE" where "clearerr S = clear_flag (FLAG_EOF OR FLAG_ERROR) S"
definition feof :: "FILE \<Rightarrow> int" where "feof S = uint (modeflags S AND FLAG_EOF)"
definition ferror :: "FILE \<Rightarrow> int" where "ferror S = uint (modeflags S AND FLAG_ERROR)"

definition fileno :: "'w stdio \<Rightarrow> addr \<Rightarrow> (int \<times> 'w stdio) option" where
  "fileno \<sigma> f = do {
     S \<leftarrow> files \<sigma> f;
     Some (if 0 \<le> filedes S then (filedes S, \<sigma>) else (- 1, \<sigma>\<lparr>errno := EBADF\<rparr>)) }"

definition fwide :: "FILE \<Rightarrow> int \<Rightarrow> int \<times> FILE" where
  "fwide S mode =
     (let S = (if mode \<noteq> 0 \<and> \<not> any_of (modeflags S) (FLAG_WIDE OR FLAG_NARROW)
               then set_flag (if 0 < mode then FLAG_WIDE else FLAG_NARROW) S else S)
      in (uint (modeflags S AND FLAG_WIDE) - uint (modeflags S AND FLAG_NARROW), S))"

definition fpending :: "FILE \<Rightarrow> nat" where
  "fpending S = (if STREAM_IS_WRITING S then size_t (BUFFER_WUSED S) else 0)"

definition fpurge :: "FILE \<Rightarrow> FILE" where
  "fpurge S = clear_flag (MASK_READING OR FLAG_WRITING) ((INIT_BUFREAD_BUFPOS S)\<lparr>ungot := (ungot S)(1 := 0)\<rparr>)"

definition freadable :: "FILE \<Rightarrow> bool" where "freadable S = (\<not> STREAM_IS_WRITEONLY S)"
definition fwritable :: "FILE \<Rightarrow> bool" where "fwritable S = (\<not> STREAM_IS_READONLY S)"
definition freading :: "FILE \<Rightarrow> bool" where "freading S = any_of (modeflags S) (MASK_READING OR FLAG_READONLY)"
definition fwriting :: "FILE \<Rightarrow> bool" where "fwriting S = any_of (modeflags S) (FLAG_WRITING OR FLAG_WRITEONLY)"
definition fbufsize :: "FILE \<Rightarrow> nat" where "fbufsize S = size_t (BUFFER_SIZE S)"

text \<open>\<open>FSETLOCKING_QUERY\<close> is 0, \<open>FSETLOCKING_INTERNAL\<close> 1 and \<open>FSETLOCKING_BYCALLER\<close> 2.\<close>

definition fsetlocking :: "'w stdio \<Rightarrow> addr \<Rightarrow> int \<Rightarrow> (int \<times> 'w stdio) option" where
  "fsetlocking \<sigma> f locking_mode = do {
     S \<leftarrow> files \<sigma> f;
     let current = 1 + user_locking S mod 2;
     Some (current,
       if locking_mode \<noteq> 0
       then put \<sigma> f (S\<lparr>user_locking := if locking_mode = 2 then 1 else stdio_user_locking \<sigma>\<rparr>)
       else \<sigma>) }"

section \<open>The heap and the file system\<close>

text \<open>
  What opening and closing need beside the calls of \<open>host\<close>. The file name is passed as its address and the
  memory it is in. \<open>malloc\<close> returns the memory with the new block; \<open>raw_FILE p\<close> is what a \<open>FILE\<close> at
  \<open>p\<close> contains before it is initialised, with the address of its built-in buffer.
\<close>

record 'w system =
  sys_create :: "mem \<Rightarrow> addr \<Rightarrow> 'w \<Rightarrow> int \<times> 'w"
  sys_open :: "mem \<Rightarrow> addr \<Rightarrow> 32 word \<Rightarrow> 'w \<Rightarrow> int \<times> 'w"
  sys_getomode :: "int \<Rightarrow> 'w \<Rightarrow> int \<times> 'w"
  sys_malloc :: "nat \<Rightarrow> mem \<Rightarrow> 'w \<Rightarrow> addr \<times> mem \<times> 'w"
  sys_realloc :: "addr \<Rightarrow> nat \<Rightarrow> mem \<Rightarrow> 'w \<Rightarrow> addr \<times> mem \<times> 'w"
  sys_free :: "addr \<Rightarrow> mem \<Rightarrow> 'w \<Rightarrow> mem \<times> 'w"
  sizeof_FILE :: nat
  raw_FILE :: "addr \<Rightarrow> FILE"

definition malloc :: "'w system \<Rightarrow> 'w stdio \<Rightarrow> nat \<Rightarrow> addr \<times> 'w stdio" where
  "malloc k \<sigma> n = (let (p, m, w) = sys_malloc k n (memory \<sigma>) (world \<sigma>) in (p, \<sigma>\<lparr>memory := m, world := w\<rparr>))"

definition realloc :: "'w system \<Rightarrow> 'w stdio \<Rightarrow> addr \<Rightarrow> nat \<Rightarrow> addr \<times> 'w stdio" where
  "realloc k \<sigma> p n = (let (q, m, w) = sys_realloc k p n (memory \<sigma>) (world \<sigma>) in (q, \<sigma>\<lparr>memory := m, world := w\<rparr>))"

definition free :: "'w system \<Rightarrow> 'w stdio \<Rightarrow> addr \<Rightarrow> 'w stdio" where
  "free k \<sigma> p = (let (m, w) = sys_free k p (memory \<sigma>) (world \<sigma>) in \<sigma>\<lparr>memory := m, world := w\<rparr>)"

definition STREAM_FREE_BUFFER :: "'w system \<Rightarrow> 'w stdio \<Rightarrow> FILE \<Rightarrow> 'w stdio" where
  "STREAM_FREE_BUFFER k \<sigma> S = (if any_of (modeflags S) FLAG_FREEBUF then free k \<sigma> (bufstart S) else \<sigma>)"

definition STREAM_FREE_FILE :: "'w system \<Rightarrow> 'w stdio \<Rightarrow> addr \<Rightarrow> FILE \<Rightarrow> 'w stdio" where
  "STREAM_FREE_FILE k \<sigma> f S =
     (if any_of (modeflags S) FLAG_FREEFILE then (free k \<sigma> f)\<lparr>files := (files \<sigma>)(f := None)\<rparr> else \<sigma>)"

section \<open>Buffering\<close>

definition setvbuf :: "'w system \<Rightarrow> 'w stdio \<Rightarrow> addr \<Rightarrow> addr \<Rightarrow> int \<Rightarrow> nat \<Rightarrow> (int \<times> 'w stdio) option" where
  "setvbuf k \<sigma> f buf mode sz =
     (if mode < 0 \<or> 2 < mode then Some (EOF, \<sigma>\<lparr>errno := EINVAL\<rparr>)
      else do {
        S \<leftarrow> files \<sigma> f;
        if any_of (modeflags S) (MASK_READING OR FLAG_WRITING OR FLAG_NARROW OR FLAG_WIDE OR FLAG_ERROR OR FLAG_EOF)
        then Some (EOF, \<sigma>)
        else do {
          let S = set_flag (of_int mode * FLAG_LBF) (clear_flag MASK_BUFMODE S);
          let (skip, alloc, buf, sz, \<sigma>) =
            (if mode = 2 \<or> sz = 0 then (False, False, NULL, 0, \<sigma>)
             else if buf = NULL then
               if size_t (BUFFER_SIZE S) = sz then (True, False, NULL, sz, \<sigma>)
               else (case malloc k \<sigma> sz of (p, \<sigma>) \<Rightarrow> (p = NULL, True, p, sz, \<sigma>))
             else (False, False, buf, sz, \<sigma>));
          if skip then Some (0, put \<sigma> f S)
          else do {
            let \<sigma> = STREAM_FREE_BUFFER k \<sigma> S;
            let S = clear_flag FLAG_FREEBUF S;
            let S = (if alloc then set_flag FLAG_FREEBUF S else S);
            Some (0, put \<sigma> f (INIT_BUFREAD_BUFPOS (S\<lparr>bufstart := buf, bufend := buf + sz\<rparr>))) } } })"

definition setbuf :: "'w system \<Rightarrow> 'w stdio \<Rightarrow> addr \<Rightarrow> addr \<Rightarrow> 'w stdio option" where
  "setbuf k \<sigma> f buf = map_option snd (setvbuf k \<sigma> f buf (if buf \<noteq> NULL then 0 else 2) BUFSIZ)"

definition setbuffer :: "'w system \<Rightarrow> 'w stdio \<Rightarrow> addr \<Rightarrow> addr \<Rightarrow> nat \<Rightarrow> 'w stdio option" where
  "setbuffer k \<sigma> f buf sz = map_option snd (setvbuf k \<sigma> f buf (if buf \<noteq> NULL then 0 else 2) sz)"

definition setlinebuf :: "'w system \<Rightarrow> 'w stdio \<Rightarrow> addr \<Rightarrow> 'w stdio option" where
  "setlinebuf k \<sigma> f = map_option snd (setvbuf k \<sigma> f NULL 1 0)"

section \<open>Opening\<close>

abbreviation (input) O_RDONLY :: "32 word" where "O_RDONLY \<equiv> 1"
abbreviation (input) O_WRONLY :: "32 word" where "O_WRONLY \<equiv> 2"
abbreviation (input) O_RDWR :: "32 word" where "O_RDWR \<equiv> 4"
abbreviation (input) O_APPEND :: "32 word" where "O_APPEND \<equiv> 8"
abbreviation (input) O_CREAT :: "32 word" where "O_CREAT \<equiv> 16"
abbreviation (input) O_TRUNC :: "32 word" where "O_TRUNC \<equiv> 64"

text \<open>The open mode of a mode string, the inner \<open>None\<close> for an illegal one.\<close>

definition fopen_mode :: "mem \<Rightarrow> addr \<Rightarrow> 32 word option option" where
  "fopen_mode m mode = do {
     c \<leftarrow> m mode;
     let open_mode =
       (if c = 114 then Some O_RDONLY
        else if c = 119 then Some (O_WRONLY OR O_CREAT OR O_TRUNC)
        else if c = 97 then Some (O_WRONLY OR O_CREAT OR O_APPEND)
        else None);
     case open_mode of
       None \<Rightarrow> Some None
     | Some open_mode \<Rightarrow> do {
         c \<leftarrow> m (mode + 1);
         let mode = (if c = 98 then mode + 1 else mode);
         c \<leftarrow> m (mode + 1);
         Some (Some (if c = 43 then (open_mode OR (O_RDONLY OR O_WRONLY)) + (O_RDWR - (O_RDONLY OR O_WRONLY))
                     else open_mode)) } }"

text \<open>Where \<open>_stdio_fopen\<close> goes on after it has tried to get a descriptor.\<close>

datatype outcome = Opened | Do_einval | Free_stream

text \<open>
  The descriptor: of \<open>fdopen\<close>, when the modes agree, or of \<open>create\<close> and \<open>open\<close>. \<open>fname_or_mode\<close>
  is the mode of the descriptor or the address of the file name.
\<close>

definition open_descriptor ::
    "'w system \<Rightarrow> 'w host \<Rightarrow> 'w stdio \<Rightarrow> addr \<Rightarrow> int \<Rightarrow> 32 word \<Rightarrow> int \<Rightarrow> (outcome \<times> 'w stdio) option" where
  "open_descriptor k h \<sigma> f fname_or_mode open_mode fd = do {
     S \<leftarrow> files \<sigma> f;
     if 0 \<le> fd then do {
       let \<sigma> = put \<sigma> f (S\<lparr>filedes := fd\<rparr>);
       let mode = (word_of_int fname_or_mode :: 32 word);
       let i = open_mode + 1;
       if i AND (mode + 1) \<noteq> i then Some (Do_einval, \<sigma>)
       else if open_mode AND NOT mode AND O_APPEND \<noteq> 0 then do {
         let (res, w) = sys_lseek h (world \<sigma>) fd 0 2;
         Some (if res \<noteq> 0 then Do_einval else Opened, \<sigma>\<lparr>world := w\<rparr>) }
       else Some (Opened, \<sigma>) }
     else do {
       let (rv, w) = (if open_mode AND O_CREAT \<noteq> 0 \<or> open_mode AND O_APPEND \<noteq> 0
         then sys_create k (memory \<sigma>) (nat fname_or_mode) (world \<sigma>) else (0, world \<sigma>));
       let \<sigma> = \<sigma>\<lparr>world := w\<rparr>;
       if rv < 0 then Some (Free_stream, \<sigma>)
       else do {
         let (fd, w) = sys_open k (memory \<sigma>) (nat fname_or_mode) open_mode (world \<sigma>);
         let \<sigma> = put (\<sigma>\<lparr>world := w\<rparr>) f (S\<lparr>filedes := fd\<rparr>);
         Some (if fd < 0 then Free_stream else Opened, \<sigma>) } } }"

text \<open>The buffer: the one the stream has, a new one, or the built-in one of four bytes.\<close>

definition open_buffer :: "'w system \<Rightarrow> 'w stdio \<Rightarrow> FILE \<Rightarrow> FILE \<times> 'w stdio" where
  "open_buffer k \<sigma> S =
     (if bufstart S = NULL then
        (case malloc k \<sigma> BUFSIZ of (p, \<sigma>) \<Rightarrow>
           (if p \<noteq> NULL then (set_flag FLAG_FREEBUF (S\<lparr>bufstart := p, bufend := p + BUFSIZ\<rparr>), \<sigma>)
            else (S\<lparr>bufstart := builtinbuf S, bufend := builtinbuf S + 4\<rparr>, \<sigma>)))
      else (S, \<sigma>))"

text \<open>The initialisation of an opened stream; it goes to the head of the open list.\<close>

definition open_init :: "'w system \<Rightarrow> 'w stdio \<Rightarrow> addr \<Rightarrow> 32 word \<Rightarrow> (addr \<times> 'w stdio) option" where
  "open_init k \<sigma> f open_mode = do {
     S \<leftarrow> files \<sigma> f;
     let S = S\<lparr>modeflags := (modeflags S AND FLAG_FREEFILE) OR (if open_mode AND O_APPEND \<noteq> 0 then FLAG_APPEND else 0)\<rparr>;
     let (S, \<sigma>) = open_buffer k \<sigma> S;
     let S = (INIT_BUFREAD_BUFPOS S)\<lparr>user_locking := stdio_user_locking \<sigma>, nextopen := stdio_openlist \<sigma>\<rparr>;
     Some (f, (put \<sigma> f S)\<lparr>stdio_openlist := f\<rparr>) }"

definition stdio_fopen ::
    "'w system \<Rightarrow> 'w host \<Rightarrow> 'w stdio \<Rightarrow> int \<Rightarrow> addr \<Rightarrow> addr \<Rightarrow> int \<Rightarrow> (addr \<times> 'w stdio) option" where
  "stdio_fopen k h \<sigma> fname_or_mode mode stream fd = do {
     open_mode \<leftarrow> fopen_mode (memory \<sigma>) mode;
     case open_mode of
       None \<Rightarrow> do {
         let \<sigma> = \<sigma>\<lparr>errno := EINVAL\<rparr>;
         if stream \<noteq> NULL then do { S \<leftarrow> files \<sigma> stream; Some (NULL, STREAM_FREE_FILE k \<sigma> stream S) }
         else Some (NULL, \<sigma>) }
     | Some open_mode \<Rightarrow> do {
         let (f, \<sigma>) = (if stream = NULL
           then (case malloc k \<sigma> (sizeof_FILE k) of (p, \<sigma>) \<Rightarrow>
             (p, if p = NULL then \<sigma> else put \<sigma> p ((raw_FILE k p)\<lparr>modeflags := FLAG_FREEFILE, bufstart := NULL\<rparr>)))
           else (stream, \<sigma>));
         if f = NULL then Some (NULL, \<sigma>)
         else do {
           (outcome, \<sigma>) \<leftarrow> open_descriptor k h \<sigma> f fname_or_mode open_mode fd;
           case outcome of
             Opened \<Rightarrow> open_init k \<sigma> f open_mode
           | Do_einval \<Rightarrow> do { S \<leftarrow> files \<sigma> f; Some (NULL, STREAM_FREE_FILE k (\<sigma>\<lparr>errno := EINVAL\<rparr>) f S) }
           | Free_stream \<Rightarrow> do { S \<leftarrow> files \<sigma> f; Some (NULL, STREAM_FREE_FILE k \<sigma> f S) } } } }"

definition fopen :: "'w system \<Rightarrow> 'w host \<Rightarrow> 'w stdio \<Rightarrow> addr \<Rightarrow> addr \<Rightarrow> (addr \<times> 'w stdio) option" where
  "fopen k h \<sigma> filename mode = stdio_fopen k h \<sigma> (int filename) mode NULL (- 1)"

definition fdopen :: "'w system \<Rightarrow> 'w host \<Rightarrow> 'w stdio \<Rightarrow> int \<Rightarrow> addr \<Rightarrow> (addr \<times> 'w stdio) option" where
  "fdopen k h \<sigma> fd mode = do {
     let (cur_mode, w) = sys_getomode k fd (world \<sigma>);
     let \<sigma> = \<sigma>\<lparr>world := w\<rparr>;
     if cur_mode \<noteq> - 1 then stdio_fopen k h \<sigma> cur_mode mode NULL fd else Some (NULL, \<sigma>) }"

section \<open>Closing\<close>

text \<open>The loop of \<open>fclose\<close> over the open list; the result is the stream before \<open>f\<close>, or the null pointer.\<close>

partial_function (option) unlink_loop :: "'w stdio \<Rightarrow> addr \<Rightarrow> addr \<Rightarrow> (addr \<times> 'w stdio) option" where
  "unlink_loop \<sigma> ptr f =
     (if ptr = NULL then Some (NULL, \<sigma>)
      else do {
        P \<leftarrow> files \<sigma> ptr;
        if nextopen P = f then do {
          S \<leftarrow> files \<sigma> f;
          Some (ptr, put \<sigma> ptr (P\<lparr>nextopen := nextopen S\<rparr>)) }
        else unlink_loop \<sigma> (nextopen P) f })"

definition unlink_stream :: "'w stdio \<Rightarrow> addr \<Rightarrow> (addr \<times> 'w stdio) option" where
  "unlink_stream \<sigma> f =
     (if stdio_openlist \<sigma> = f then do {
        S \<leftarrow> files \<sigma> f;
        Some (f, \<sigma>\<lparr>stdio_openlist := nextopen S\<rparr>) }
      else unlink_loop \<sigma> (stdio_openlist \<sigma>) f)"

text \<open>The flags of a closed stream.\<close>

definition disable :: "FILE \<Rightarrow> FILE" where
  "disable S = INIT_BUFREAD_BUFPOS (S\<lparr>filedes := - 1,
     modeflags := (modeflags S AND (FLAG_FREEBUF OR FLAG_FREEFILE)) OR (FLAG_READONLY OR FLAG_WRITEONLY)\<rparr>)"

definition fclose :: "'w system \<Rightarrow> 'w host \<Rightarrow> 'w stdio \<Rightarrow> addr \<Rightarrow> (int \<times> 'w stdio) option" where
  "fclose k h \<sigma> f = do {
     (ptr, \<sigma>) \<leftarrow> unlink_stream \<sigma> f;
     if ptr = NULL then Some (EOF, \<sigma>)
     else do {
       S \<leftarrow> files \<sigma> f;
       (rv, \<sigma>) \<leftarrow> (if STREAM_IS_WRITING S then fflush_unlocked h \<sigma> f else Some (0, \<sigma>));
       S \<leftarrow> files \<sigma> f;
       let (res, w) = sys_close h (world \<sigma>) (filedes S);
       let rv = (if res < 0 then EOF else rv);
       let S = disable S;
       let \<sigma> = put (\<sigma>\<lparr>world := w\<rparr>) f S;
       Some (rv, STREAM_FREE_FILE k (STREAM_FREE_BUFFER k \<sigma> S) f S) } }"

definition freopen :: "'w system \<Rightarrow> 'w host \<Rightarrow> 'w stdio \<Rightarrow> addr \<Rightarrow> addr \<Rightarrow> addr \<Rightarrow> (addr \<times> 'w stdio) option" where
  "freopen k h \<sigma> filename mode stream = do {
     S \<leftarrow> files \<sigma> stream;
     let dynmode = modeflags S AND (FLAG_FREEBUF OR FLAG_FREEFILE);
     let S = clear_flag (FLAG_FREEBUF OR FLAG_FREEFILE) S;
     let \<sigma> = put \<sigma> stream S;
     \<sigma> \<leftarrow> (if modeflags S AND (FLAG_READONLY OR FLAG_WRITEONLY) \<noteq> FLAG_READONLY OR FLAG_WRITEONLY
           then map_option snd (fclose k h \<sigma> stream) else Some \<sigma>);
     (fp, \<sigma>) \<leftarrow> stdio_fopen k h \<sigma> (int filename) mode stream (- 1);
     S \<leftarrow> files \<sigma> stream;
     Some (fp, put \<sigma> stream (set_flag dynmode S)) }"

partial_function (option) fcloseall_loop :: "'w system \<Rightarrow> 'w host \<Rightarrow> 'w stdio \<Rightarrow> int \<Rightarrow> (int \<times> 'w stdio) option" where
  "fcloseall_loop k h \<sigma> retval =
     (if stdio_openlist \<sigma> = NULL then Some (retval, \<sigma>)
      else do {
        (rv, \<sigma>) \<leftarrow> fclose k h \<sigma> (stdio_openlist \<sigma>);
        fcloseall_loop k h \<sigma> (if rv \<noteq> 0 then EOF else retval) })"

definition fcloseall :: "'w system \<Rightarrow> 'w host \<Rightarrow> 'w stdio \<Rightarrow> (int \<times> 'w stdio) option" where
  "fcloseall k h \<sigma> = fcloseall_loop k h \<sigma> 0"

section \<open>Start and end of the library\<close>

text \<open>
  \<open>_stdio_term\<close>: \<open>locked p\<close> tells that the lock of the stream at \<open>p\<close> is held. The first loop disables those streams, the
  second commits what the others have buffered.
\<close>

partial_function (option) term_locks :: "'w stdio \<Rightarrow> (addr \<Rightarrow> bool) \<Rightarrow> addr \<Rightarrow> 'w stdio option" where
  "term_locks \<sigma> locked ptr =
     (if ptr = NULL then Some \<sigma>
      else do {
        S \<leftarrow> files \<sigma> ptr;
        let S = (if locked ptr then INIT_BUFREAD_BUFPOS (S\<lparr>modeflags := FLAG_READONLY OR FLAG_WRITEONLY\<rparr>) else S);
        term_locks (put \<sigma> ptr (S\<lparr>user_locking := 1\<rparr>)) locked (nextopen S) })"

partial_function (option) term_commit :: "'w host \<Rightarrow> 'w stdio \<Rightarrow> addr \<Rightarrow> 'w stdio option" where
  "term_commit h \<sigma> ptr =
     (if ptr = NULL then Some \<sigma>
      else do {
        S \<leftarrow> files \<sigma> ptr;
        \<sigma> \<leftarrow> (if STREAM_IS_WRITING S then map_option snd (stdio_wcommit h \<sigma> ptr) else Some \<sigma>);
        S \<leftarrow> files \<sigma> ptr;
        term_commit h \<sigma> (nextopen S) })"

definition stdio_term :: "'w host \<Rightarrow> 'w stdio \<Rightarrow> (addr \<Rightarrow> bool) \<Rightarrow> 'w stdio option" where
  "stdio_term h \<sigma> locked = do {
     \<sigma> \<leftarrow> term_locks \<sigma> locked (stdio_openlist \<sigma>);
     term_commit h \<sigma> (stdio_openlist \<sigma>) }"

partial_function (option) init_loop :: "'w stdio \<Rightarrow> addr \<Rightarrow> 'w stdio option" where
  "init_loop \<sigma> stream =
     (if stream = NULL then Some \<sigma>
      else do {
        S \<leftarrow> files \<sigma> stream;
        let \<sigma> = (if user_locking S = 2 then put \<sigma> stream (S\<lparr>user_locking := 0\<rparr>) else \<sigma>);
        init_loop \<sigma> (nextopen S) })"

definition stdio_init :: "'w stdio \<Rightarrow> 'w stdio option" where
  "stdio_init \<sigma> = do {
     \<sigma> \<leftarrow> init_loop \<sigma> (stdio_openlist \<sigma>);
     Some (\<sigma>\<lparr>stdio_user_locking := 0\<rparr>) }"

section \<open>Lines of any length\<close>

text \<open>
  The loop of \<open>__getdelim\<close>. \<open>line\<close> and \<open>n\<close> are the values of \<open>*lineptr\<close> and \<open>*n\<close>; the result is the return value, the two
  values and the state. \<open>buf\<close> equals \<open>*lineptr\<close> until \<open>realloc\<close> fails.
\<close>

partial_function (option) getdelim_loop ::
    "'w system \<Rightarrow> 'w host \<Rightarrow> 'w stdio \<Rightarrow> addr \<Rightarrow> nat \<Rightarrow> int \<Rightarrow> addr \<Rightarrow> nat \<Rightarrow> (int \<times> addr \<times> nat \<times> 'w stdio) option" where
  "getdelim_loop k h \<sigma> line n delimiter f pos = do {
     let (buf, \<sigma>) = (if pos \<ge> n then realloc k \<sigma> line (n + 64) else (line, \<sigma>));
     if buf = NULL then Some (- 1, line, n, \<sigma>)
     else do {
       let n = (if pos \<ge> n then n + 64 else n);
       (c, \<sigma>) \<leftarrow> fgetc_unlocked h \<sigma> f;
       (pos, \<sigma>) \<leftarrow> (if c \<noteq> EOF
         then do { m \<leftarrow> store (memory \<sigma>) (buf + (pos - 1)) (word_of_int c); Some (pos + 1, \<sigma>\<lparr>memory := m\<rparr>) }
         else Some (pos, \<sigma>));
       if c \<noteq> EOF \<and> c \<noteq> delimiter then getdelim_loop k h \<sigma> buf n delimiter f pos
       else if 2 \<le> pos then do {
         m \<leftarrow> store (memory \<sigma>) (buf + (pos - 1)) 0;
         Some (int pos - 1, buf, n, \<sigma>\<lparr>memory := m\<rparr>) }
       else Some (int pos - 2, buf, n, \<sigma>) } }"

definition getdelim ::
    "'w system \<Rightarrow> 'w host \<Rightarrow> 'w stdio \<Rightarrow> addr option \<Rightarrow> nat option \<Rightarrow> int \<Rightarrow> addr \<Rightarrow> (int \<times> addr option \<times> nat option \<times> 'w stdio) option" where
  "getdelim k h \<sigma> lineptr n delimiter f =
     (case (lineptr, n) of
        (Some line, Some n) \<Rightarrow>
          (if f = NULL then Some (0, lineptr, Some n, \<sigma>\<lparr>errno := EINVAL\<rparr>)
           else do {
             (pos, line, n, \<sigma>) \<leftarrow> getdelim_loop k h \<sigma> line (if line = NULL then 0 else n) delimiter f 1;
             Some (pos, Some line, Some n, \<sigma>) })
      | _ \<Rightarrow> Some (0, lineptr, n, \<sigma>\<lparr>errno := EINVAL\<rparr>))"

definition getline ::
    "'w system \<Rightarrow> 'w host \<Rightarrow> 'w stdio \<Rightarrow> addr option \<Rightarrow> nat option \<Rightarrow> addr \<Rightarrow> (int \<times> addr option \<times> nat option \<times> 'w stdio) option" where
  "getline k h \<sigma> lineptr n f = getdelim k h \<sigma> lineptr n 10 f"

section \<open>Positions in a file\<close>

text \<open>
  What the library relies on of a file that can be positioned and does not change: \<open>content fd\<close> is what it holds and
  \<open>pos w fd\<close> where it is. \<open>read\<close> delivers what follows the position. \<open>lseek\<close> moves to the target and returns it when an
  \<open>int\<close> can hold it, or fails and moves nothing.
\<close>

definition seek_target :: "(int \<Rightarrow> byte list) \<Rightarrow> ('w \<Rightarrow> int \<Rightarrow> nat) \<Rightarrow> 'w \<Rightarrow> int \<Rightarrow> int \<Rightarrow> int \<Rightarrow> int" where
  "seek_target content pos w fd off whence =
     off + (if whence = 0 then 0 else if whence = 1 then int (pos w fd) else int (length (content fd)))"

definition rest :: "(int \<Rightarrow> byte list) \<Rightarrow> ('w \<Rightarrow> int \<Rightarrow> nat) \<Rightarrow> 'w \<Rightarrow> int \<Rightarrow> byte list" where
  "rest content pos w fd = drop (pos w fd) (content fd)"

definition seekable :: "'w host \<Rightarrow> (int \<Rightarrow> byte list) \<Rightarrow> ('w \<Rightarrow> int \<Rightarrow> nat) \<Rightarrow> bool" where
  "seekable h content pos \<longleftrightarrow> reads_ok h (rest content pos) \<and> (\<forall>fd. length (content fd) < 2 ^ 31) \<and>
     (\<forall>w fd off whence. 0 \<le> whence \<and> whence \<le> 2 \<longrightarrow>
       (case sys_lseek h w fd off whence of (res, w') \<Rightarrow>
         (let t = seek_target content pos w fd off whence in
          if 0 \<le> t \<and> t < 2 ^ 31 then res = t \<and> pos w' fd = nat t else res < 0 \<and> pos w' fd = pos w fd)))"

text \<open>The next character of the stream is the one at offset \<open>n\<close> of the file.\<close>

definition file_at ::
    "'w host \<Rightarrow> (int \<Rightarrow> byte list) \<Rightarrow> ('w \<Rightarrow> int \<Rightarrow> nat) \<Rightarrow> 'w stdio \<Rightarrow> addr \<Rightarrow> nat \<Rightarrow> bool" where
  "file_at h content pos \<sigma> f n \<longleftrightarrow> (\<exists>S bs. in_core h (rest content pos) \<sigma> f S bs \<and> ungots S = [] \<and>
     pos (world \<sigma>) (filedes S) = n + length bs \<and> n + length bs < 2 ^ 31 \<and>
     bs @ rest content pos (world \<sigma>) (filedes S) = drop n (content (filedes S)))"

lemma file_at_stream:
  assumes "file_at h content pos \<sigma> f n"
  shows "\<exists>S. files \<sigma> f = Some S \<and> in_stream h (rest content pos) \<sigma> f (drop n (content (filedes S)))"
proof -
  obtain S bs where S: "in_core h (rest content pos) \<sigma> f S bs" "ungots S = []"
      "bs @ rest content pos (world \<sigma>) (filedes S) = drop n (content (filedes S))"
    using assms by (auto simp: file_at_def)
  show ?thesis using in_stream_core [OF S(1)] S(2,3) in_coreD(2) [OF S(1)] by auto
qed

lemma int32_id [simp]: "- (2 ^ 31) \<le> i \<Longrightarrow> i < 2 ^ 31 \<Longrightarrow> int32 i = i"
  by (simp add: int32_def signed_take_bit_int_eq_self sint_sbintrunc')

lemma off64_id [simp]: "- (2 ^ 63) \<le> i \<Longrightarrow> i < 2 ^ 63 \<Longrightarrow> off64 i = i"
  by (simp add: off64_def signed_take_bit_int_eq_self sint_sbintrunc')

text \<open>Without characters pushed back the correction is the unread part of the buffer.\<close>

lemma ungots_none: "ungots S = [] \<Longrightarrow> \<not> bit (modeflags S) 1"
  by (auto simp: ungots_def split: if_splits)

lemma reading_bits:
  assumes "\<not> bit (m :: 16 word) 1"
  shows "uint (m AND MASK_READING) = (if bit m 0 then 1 else 0)"
proof -
  have "(3 :: 16 word) = 1 OR 2" by simp
  then have "m AND 3 = (m AND 1) OR (m AND 2)" by (simp only: bit.conj_disj_distrib)
  moreover have "m AND 2 = 0" using any_of_flags(2) [of m] assms by (simp add: any_of_def)
  ultimately have "m AND 3 = m AND 1" by simp
  then show ?thesis using and_one16 [of m] by (simp add: uint_nat)
qed

lemma adjust_reading:
  assumes "in_core h inp \<sigma> f S bs" "ungots S = []" "length bs < 2 ^ 31"
    and "- (2 ^ 62) \<le> off" "off < 2 ^ 62"
  shows "stdio_adjust_position \<sigma> f off = Some (int (length bs), off - int (length bs), \<sigma>)"
proof -
  note d = in_coreD [OF assms(1)]
  have "uint (modeflags S AND MASK_READING) = (if bit (modeflags S) 0 then 1 else 0)"
    using reading_bits ungots_none [OF assms(2)] by blast
  moreover have "int (bufread S) - int (bufpos S) = int (length bs)" using d(8) by simp
  moreover have "int32 (int (length bs)) = int (length bs)" using assms(3) by simp
  moreover have "off64 (off - int (length bs)) = off - int (length bs)" using assms(3-5) by simp
  ultimately show ?thesis
    using d(2,5) by (simp add: stdio_adjust_position_def Let_def del: int32_id off64_id)
qed

lemma seekable_lseek:
  assumes "seekable h content pos" "0 \<le> whence" "whence \<le> 2" "sys_lseek h w fd off whence = (res, w')"
  shows "if 0 \<le> seek_target content pos w fd off whence \<and> seek_target content pos w fd off whence < 2 ^ 31
    then res = seek_target content pos w fd off whence \<and> pos w' fd = nat res else res < 0 \<and> pos w' fd = pos w fd"
proof -
  have "0 \<le> whence \<and> whence \<le> 2 \<longrightarrow> (case sys_lseek h w fd off whence of (res, w') \<Rightarrow>
         (let t = seek_target content pos w fd off whence in
          if 0 \<le> t \<and> t < 2 ^ 31 then res = t \<and> pos w' fd = nat t else res < 0 \<and> pos w' fd = pos w fd))"
    by (rule assms(1) [unfolded seekable_def, THEN conjunct2, THEN conjunct2, THEN spec, THEN spec, THEN spec, THEN spec])
  then show ?thesis using assms(2-4) by (auto simp: Let_def)
qed

text \<open>The stream after a successful move: nothing is buffered and the device is at the target.\<close>

lemma reset_at:
  assumes "seekable h content pos" "in_core h (rest content pos) \<sigma> f S bs"
    and "pos w (filedes S) = n" "n < 2 ^ 31"
  shows "file_at h content pos
    (put (\<sigma>\<lparr>world := w\<rparr>) f (INIT_BUFREAD_BUFPOS (clear_flag (MASK_READING OR FLAG_WRITING OR FLAG_EOF) S))) f n"
proof -
  let ?S = "INIT_BUFREAD_BUFPOS (clear_flag (MASK_READING OR FLAG_WRITING OR FLAG_EOF) S)"
  let ?\<sigma> = "put (\<sigma>\<lparr>world := w\<rparr>) f ?S"
  note d = in_coreD [OF assms(2)]
  have b: "bit (modeflags ?S) k = (k \<noteq> 0 \<and> k \<noteq> 1 \<and> k \<noteq> 2 \<and> k \<noteq> 6 \<and> bit (modeflags S) k)" if "k < 16" for k
  proof -
    have k: "k = 0 \<or> k = 1 \<or> k = 2 \<or> k = 3 \<or> k = 4 \<or> k = 5 \<or> k = 6 \<or> k = 7 \<or> k = 8 \<or> k = 9 \<or> k = 10 \<or> k = 11 \<or> k = 12 \<or>
        k = 13 \<or> k = 14 \<or> k = 15" using that by arith
    show ?thesis
      by (rule k [THEN disjE]; (elim disjE)?) (auto simp: clear_flag_def INIT_BUFREAD_BUFPOS_def bit_simps)
  qed
  have bl: "buffer_ok \<sigma> S" "bufstart S \<le> bufend S" using d(3) by (auto simp: buffer_ok_def)
  have nw: "\<not> bit (modeflags S) 6" using d(5) by (simp add: flag_simps)
  have "in_core h (rest content pos) ?\<sigma> f ?S []"
    by (rule in_core_intro [OF assms(2)])
      (use bl nw b in \<open>auto simp: flag_simps INIT_BUFREAD_BUFPOS_def\<close>)
  moreover have "ungots ?S = []" using b [of 1] by (simp add: ungots_def)
  moreover have "filedes ?S = filedes S" by (simp add: INIT_BUFREAD_BUFPOS_def)
  ultimately show ?thesis
    unfolding file_at_def using assms(3,4) by (intro exI [of _ ?S] exI [of _ "[]"]) (simp add: rest_def)
qed

lemma fseek_core:
  assumes "seekable h content pos" "in_core h (rest content pos) \<sigma> f S bs"
    and "(if whence = 1 then stdio_adjust_position \<sigma> f offset else Some (0, offset, \<sigma>)) = Some (rv, off, \<sigma>)" "0 \<le> rv"
    and "0 \<le> whence" "whence \<le> 2" "t = seek_target content pos (world \<sigma>) (filedes S) (int32 off) whence"
  shows "\<exists>\<sigma>'. fseek h \<sigma> f offset whence = Some (if 0 \<le> t \<and> t < 2 ^ 31 then 0 else - 1, \<sigma>') \<and>
    (0 \<le> t \<and> t < 2 ^ 31 \<longrightarrow> file_at h content pos \<sigma>' f (nat t))"
proof -
  note d = in_coreD [OF assms(2)]
  obtain res w where l: "sys_lseek h (world \<sigma>) (filedes S) (int32 off) whence = (res, w)" by fastforce
  note lw = seekable_lseek [OF assms(1,5,6) l, folded assms(7)]
  have sk: "stdio_seek h \<sigma> f off whence = Some (if 0 \<le> res then (0, res, \<sigma>\<lparr>world := w\<rparr>) else (res, off, \<sigma>\<lparr>world := w\<rparr>))"
    using d(2) l by (simp add: stdio_seek_def)
  have nw: "(if STREAM_IS_WRITING S then stdio_wcommit h \<sigma> f else Some (0, \<sigma>)) = Some (0, \<sigma>)" using d(5) by simp
  show ?thesis
  proof (cases "0 \<le> t \<and> t < 2 ^ 31")
    case True
    then have r: "res = t" "pos w (filedes S) = nat t" using lw by auto
    have "nat t < 2 ^ 31" using True by (simp add: nat_less_iff)
    then show ?thesis
      using reset_at [OF assms(1,2) r(2)] True r d(2) nw sk assms(3-6)
      by (simp add: fseek_def INIT_BUFREAD_BUFPOS_def)
  next
    case False
    then have "res < 0" using lw by auto
    then have "fseek h \<sigma> f offset whence = Some (- 1, \<sigma>\<lparr>world := w\<rparr>)"
      using d(2) nw sk assms(3-6) by (simp add: fseek_def)
    then show ?thesis using False by auto
  qed
qed

lemma fseek_at:
  assumes "seekable h content pos" "file_at h content pos \<sigma> f n" "files \<sigma> f = Some S" "0 \<le> whence" "whence \<le> 2"
    and "t = off + (if whence = 0 then 0 else if whence = 1 then int n else int (length (content (filedes S))))"
    and "0 \<le> t" "t < 2 ^ 31"
  shows "\<exists>\<sigma>'. fseek h \<sigma> f off whence = Some (0, \<sigma>') \<and> file_at h content pos \<sigma>' f (nat t)"
proof -
  obtain bs where S: "in_core h (rest content pos) \<sigma> f S bs" "ungots S = []"
      "pos (world \<sigma>) (filedes S) = n + length bs" "n + length bs < 2 ^ 31"
    using assms(2,3) by (auto simp: file_at_def in_core_def)
  have len: "length (content (filedes S)) < 2 ^ 31" using assms(1) by (simp add: seekable_def)
  show ?thesis
  proof (cases "whence = 1")
    case True
    then have t: "t = off + int n" using assms(6) by simp
    have "stdio_adjust_position \<sigma> f off = Some (int (length bs), off - int (length bs), \<sigma>)"
      by (rule adjust_reading [OF S(1,2)]) (use S(4) t assms(7,8) in simp_all)
    moreover have i: "int32 (off - int (length bs)) = off - int (length bs)"
      by (rule int32_id) (use S(4) t assms(7,8) in simp_all)
    moreover have "t = seek_target content pos (world \<sigma>) (filedes S) (int32 (off - int (length bs))) whence"
      unfolding i using True S(3) t by (simp add: seek_target_def)
    ultimately show ?thesis
      using fseek_core [OF assms(1) S(1), of whence off "int (length bs)" "off - int (length bs)" t] True assms(7,8) by simp
  next
    case False
    have i: "int32 off = off" by (rule int32_id) (use False len assms(6-8) in \<open>auto split: if_splits\<close>)
    have "t = seek_target content pos (world \<sigma>) (filedes S) (int32 off) whence"
      unfolding i using False assms(6) by (simp add: seek_target_def)
    then show ?thesis using fseek_core [OF assms(1) S(1), of whence off 0 off t] False assms(4,5,7,8) by simp
  qed
qed

lemma ftell_at:
  assumes "seekable h content pos" "file_at h content pos \<sigma> f n"
  shows "\<exists>\<sigma>'. ftell h \<sigma> f = Some (int n, \<sigma>') \<and> file_at h content pos \<sigma>' f n"
proof -
  obtain S bs where S: "in_core h (rest content pos) \<sigma> f S bs" "ungots S = []"
      "pos (world \<sigma>) (filedes S) = n + length bs" "n + length bs < 2 ^ 31"
      "bs @ rest content pos (world \<sigma>) (filedes S) = drop n (content (filedes S))"
    using assms(2) by (auto simp: file_at_def)
  note d = in_coreD [OF S(1)]
  obtain res w where l: "sys_lseek h (world \<sigma>) (filedes S) (int32 0) 1 = (res, w)" by fastforce
  have "seek_target content pos (world \<sigma>) (filedes S) (int32 0) 1 = int (n + length bs)"
    using S(3) by (simp add: seek_target_def)
  then have r: "res = int (n + length bs)" "pos w (filedes S) = n + length bs"
    using seekable_lseek [OF assms(1) _ _ l] S(4) by simp_all
  let ?\<sigma> = "\<sigma>\<lparr>world := w\<rparr>"
  have rw: "rest content pos w (filedes S) = rest content pos (world \<sigma>) (filedes S)" using r(2) S(3) by (simp add: rest_def)
  have c: "in_core h (rest content pos) ?\<sigma> f S bs"
    by (rule in_core_intro [OF S(1)]) (use d rw in \<open>simp_all add: fun_upd_idem\<close>)
  have adj: "stdio_adjust_position ?\<sigma> f (int (n + length bs)) = Some (int (length bs), int (n + length bs) - int (length bs), ?\<sigma>)"
    by (rule adjust_reading [OF c S(2)]) (use S(4) in simp_all)
  have "stdio_seek h \<sigma> f 0 1 = Some (0, int (n + length bs), ?\<sigma>)"
    using d(2) l r(1) by (simp add: stdio_seek_def)
  then have "ftell h \<sigma> f = Some (int n, ?\<sigma>)" using adj by (simp add: ftell_def del: of_nat_add)
  moreover have "file_at h content pos ?\<sigma> f n"
    unfolding file_at_def using c S(2,4,5) r(2) rw by (intro exI [of _ S] exI [of _ bs]) simp
  ultimately show ?thesis by blast
qed

text \<open>The offset of a seek is cut to 32 bits.\<close>

lemma fseek_wraps:
  assumes "seekable h content pos" "file_at h content pos \<sigma> f n" "k < 2 ^ 31"
  shows "\<exists>\<sigma>'. fseek h \<sigma> f (int k + 2 ^ 32 * j) 0 = Some (0, \<sigma>') \<and> file_at h content pos \<sigma>' f k"
proof -
  obtain S bs where S: "in_core h (rest content pos) \<sigma> f S bs"
    using assms(2) by (auto simp: file_at_def)
  have "(word_of_int (int k + 2 ^ 32 * j) :: 32 word) = word_of_int (int k)"
    unfolding word_of_int_eq_iff take_bit_eq_mod by simp
  then have "int32 (int k + 2 ^ 32 * j) = int32 (int k)" by (simp add: int32_def)
  then have i: "int32 (int k + 2 ^ 32 * j) = int k" using assms(3) by simp
  have "int k = seek_target content pos (world \<sigma>) (filedes S) (int32 (int k + 2 ^ 32 * j)) 0"
    unfolding i by (simp add: seek_target_def)
  then show ?thesis
    using fseek_core [OF assms(1) S, of 0 "int k + 2 ^ 32 * j" 0 "int k + 2 ^ 32 * j" "int k"] assms(3) by simp
qed

section \<open>Properties\<close>

text \<open>An example: a file of five bytes, with the position as the state of the kernel.\<close>

definition demo_disk :: "byte list \<Rightarrow> nat host" where
  "demo_disk bs = \<lparr>sys_read = \<lambda>w fd n. (Some (take n (drop w bs)), w + length (take n (drop w bs))),
     sys_write = \<lambda>w fd bs. (None, w),
     sys_lseek = \<lambda>w fd off whence.
       (let t = off + (if whence = 0 then 0 else if whence = 1 then int w else int (length bs)) in
        if 0 \<le> t \<and> t < 2 ^ 31 then (t, nat t) else (- 1, w)),
     sys_close = \<lambda>w fd. (0, w)\<rparr>"

definition disk_state :: "nat stdio" where
  "disk_state = \<lparr>memory = mem_of 100 [0, 0, 0, 0, 0], files = [1 \<mapsto> demo_file 0], stdio_openlist = 1, errno = 0,
     local_uc = 104, stdio_user_locking = 0, world = 0\<rparr>"

abbreviation (input) five :: "byte list" where "five \<equiv> [1, 2, 3, 4, 5]"

lemma take_drop_step: "drop w bs = take n (drop w bs) @ drop (w + length (take n (drop w bs))) bs"
proof (cases "n \<le> length bs - w")
  case True
  then show ?thesis using append_take_drop_id [of n "drop w bs"] by (simp add: add.commute)
qed simp

lemma demo_seekable: "length bs < 2 ^ 31 \<Longrightarrow> seekable (demo_disk bs) (\<lambda>_. bs) (\<lambda>w _. w)"
  unfolding seekable_def
proof (intro conjI allI impI)
  show "reads_ok (demo_disk bs) (rest (\<lambda>_. bs) (\<lambda>w _. w))"
    unfolding reads_ok_def
  proof (intro allI)
    fix w n :: nat and fd :: int
    have "0 < n \<and> take n (drop w bs) = [] \<longrightarrow> drop w bs = []" unfolding take_eq_Nil by auto
    moreover have "length (take n (drop w bs)) \<le> n" by simp
    moreover note take_drop_step [of w bs n]
    ultimately show "case sys_read (demo_disk bs) w fd n of
        (Some b, w') \<Rightarrow> length b \<le> n \<and> rest (\<lambda>_. bs) (\<lambda>w _. w) w fd = b @ rest (\<lambda>_. bs) (\<lambda>w _. w) w' fd \<and>
          (0 < n \<and> b = [] \<longrightarrow> rest (\<lambda>_. bs) (\<lambda>w _. w) w fd = [])
      | (None, w') \<Rightarrow> rest (\<lambda>_. bs) (\<lambda>w _. w) w' fd = rest (\<lambda>_. bs) (\<lambda>w _. w) w fd"
      unfolding rest_def demo_disk_def host.simps prod.case option.case by blast
  qed
qed (simp_all add: demo_disk_def seek_target_def Let_def)

lemma demo_at_start: "file_at (demo_disk bs) (\<lambda>_. bs) (\<lambda>w _. w) disk_state 1 0" if "length bs < 2 ^ 31"
proof -
  have "buffer_ok disk_state (demo_file 0)"
    by (simp add: buffer_ok_def disk_state_def demo_file_def mem_of_eval dom_def flag_simps)
  then have "in_core (demo_disk bs) (rest (\<lambda>_. bs) (\<lambda>w _. w)) disk_state 1 (demo_file 0) []"
    using demo_seekable [OF that]
    by (simp add: in_core_def seekable_def disk_state_def demo_file_def flag_simps IS_FAKE_def)
  moreover have "ungots (demo_file 0) = []" by (simp add: ungots_def demo_file_def)
  ultimately show ?thesis
    unfolding file_at_def by (intro exI [of _ "demo_file 0"] exI [of _ "[]"]) (simp add: rest_def disk_state_def)
qed

text \<open>C22. Take a stream that reads a file of less than 2 ^ 31 bytes, or is idle: it is not being written and has no pushed back
  characters, and it is fully buffered or no stream of the open list has line buffered output waiting (\<open>file_at\<close>, which also
  says that what the stream delivers next is the file from offset \<open>n\<close> on, with any part of that in the buffer). \<open>ftell\<close> returns
  \<open>n\<close> and moves nothing; \<open>fseek\<close> moves the stream to the offset it is asked for, from the start, the current
  position or the end, when the target is from 0 to 2 ^ 31 - 1. (Larger offsets are cut: lemma \<open>fseek_truncates\<close>.
  Streams that are being written are covered by the output properties only: a seek commits the buffer first.)\<close>

theorem fseek_moves:
  assumes "seekable h content pos" "file_at h content pos \<sigma> f n" "files \<sigma> f = Some S" "0 \<le> whence" "whence \<le> 2"
    and "t = off + (if whence = 0 then 0 else if whence = 1 then int n else int (length (content (filedes S))))"
    and "0 \<le> t" "t < 2 ^ 31"
  shows "(\<exists>\<sigma>'. ftell h \<sigma> f = Some (int n, \<sigma>') \<and> file_at h content pos \<sigma>' f n) \<and>
    (\<exists>\<sigma>'. fseek h \<sigma> f off whence = Some (0, \<sigma>') \<and> file_at h content pos \<sigma>' f (nat t))"
  using ftell_at [OF assms(1,2)] fseek_at [OF assms] by blast

theorem fseek_moves_witness:
  "(\<exists>\<sigma>'. ftell (demo_disk five) disk_state 1 = Some (0, \<sigma>') \<and> file_at (demo_disk five) (\<lambda>_. five) (\<lambda>w _. w) \<sigma>' 1 0) \<and>
   (\<exists>\<sigma>'. fseek (demo_disk five) disk_state 1 (- 2) 2 = Some (0, \<sigma>') \<and> file_at (demo_disk five) (\<lambda>_. five) (\<lambda>w _. w) \<sigma>' 1 3)"
proof -
  have "length five < 2 ^ 31" by simp
  moreover have "files disk_state 1 = Some (demo_file 0)" by (simp add: disk_state_def)
  ultimately show ?thesis
    using fseek_moves [OF demo_seekable demo_at_start, of five "demo_file 0" 2 3 "- 2"] by simp
qed

text \<open>The offset of a seek is cut to 32 bits, because \<open>lseek\<close> takes an \<open>int\<close>: a seek to \<open>k + 2^32 * j\<close>
  reports success and the stream is at \<open>k\<close>.\<close>

lemma fseek_truncates:
  assumes "seekable h content pos" "file_at h content pos \<sigma> f n" "k < 2 ^ 31"
  shows "\<exists>\<sigma>'. fseek h \<sigma> f (int k + 2 ^ 32 * j) 0 = Some (0, \<sigma>') \<and> file_at h content pos \<sigma>' f k"
  using assms by (rule fseek_wraps)

theorem fseek_truncates_witness:
  "\<exists>\<sigma>'. fseek (demo_disk five) disk_state 1 4294967298 0 = Some (0, \<sigma>') \<and>
    file_at (demo_disk five) (\<lambda>_. five) (\<lambda>w _. w) \<sigma>' 1 2"
proof -
  have "length five < 2 ^ 31" by simp
  then show ?thesis using fseek_truncates [OF demo_seekable demo_at_start, of five 2 1] by simp
qed

end
