(* ===== verification/Stdio_Inv.thy ===== *)
theory Stdio_Inv
  imports Stdio_Files
begin

text \<open>
  The library checks every stream with \<open>_stdio_validate_FILE\<close>. This theory shows that the check holds of every stream
  that \<open>fopen\<close> or \<open>fdopen\<close> returns, and after every sequence of the reading, writing, moving and buffering operations on it,
  unless it is written to while its end-of-file flag is set.
\<close>

section \<open>The invariant\<close>

text \<open>
  The invariant of a stream that is not closed, over the bits of its flags. A character can be pushed back by \<open>ungetc\<close>
  only, as \<open>scanf\<close> is not modelled, so there is at most one.
\<close>

definition open_inv :: "FILE \<Rightarrow> bool" where
  "open_inv S \<longleftrightarrow> 0 \<le> user_locking S \<and> user_locking S \<le> 2 \<and> - 3 < filedes S \<and>
     \<not> (bit (modeflags S) 4 \<and> bit (modeflags S) 5) \<and> \<not> (bit (modeflags S) 8 \<and> bit (modeflags S) 9) \<and>
     (bit (modeflags S) 9 \<longrightarrow> bufstart S = bufend S) \<and> buflen S < 2 ^ 64 \<and>
     bufstart S \<le> bufpos S \<and> bufpos S \<le> bufend S \<and> bufstart S \<le> bufread S \<and> bufread S \<le> bufend S \<and>
     (bit (modeflags S) 2 \<longrightarrow> bufpos S = bufread S \<and> \<not> bit (modeflags S) 1) \<and>
     (\<not> bit (modeflags S) 0 \<longrightarrow> \<not> bit (modeflags S) 1 \<longrightarrow> bufread S = bufstart S) \<and>
     (\<not> bit (modeflags S) 0 \<longrightarrow> \<not> bit (modeflags S) 1 \<longrightarrow> \<not> bit (modeflags S) 6 \<longrightarrow> bufpos S = bufstart S) \<and>
     (bit (modeflags S) 0 \<or> bit (modeflags S) 1 \<longrightarrow>
        \<not> bit (modeflags S) 6 \<and> \<not> bit (modeflags S) 4 \<and> bufpos S \<le> bufread S) \<and>
     (bit (modeflags S) 6 \<longrightarrow> \<not> bit (modeflags S) 5 \<and> \<not> bit (modeflags S) 2) \<and>
     \<not> (bit (modeflags S) 0 \<and> bit (modeflags S) 1) \<and> (bit (modeflags S) 1 \<longrightarrow> ungot S 1 = 1)"

definition inv_at :: "'w stdio \<Rightarrow> addr \<Rightarrow> bool" where
  "inv_at \<sigma> f \<longleftrightarrow> (\<exists>S. files \<sigma> f = Some S \<and> open_inv S)"

lemma open_inv_validate:
  assumes "open_inv S"
  shows "stdio_validate_FILE S"
proof -
  have d: "0 \<le> user_locking S" "user_locking S \<le> 2" "- 3 < filedes S" "bufstart S \<le> bufpos S" "bufpos S \<le> bufend S"
      "bufstart S \<le> bufread S" "bufread S \<le> bufend S"
      "\<not> (bit (modeflags S) 4 \<and> bit (modeflags S) 5)" "\<not> (bit (modeflags S) 8 \<and> bit (modeflags S) 9)"
    and b: "bit (modeflags S) 9 \<longrightarrow> bufstart S = bufend S" "bit (modeflags S) 2 \<longrightarrow> bufpos S = bufread S \<and> \<not> bit (modeflags S) 1"
      "\<not> bit (modeflags S) 0 \<longrightarrow> \<not> bit (modeflags S) 1 \<longrightarrow> bufread S = bufstart S"
      "bit (modeflags S) 0 \<or> bit (modeflags S) 1 \<longrightarrow> \<not> bit (modeflags S) 6 \<and> \<not> bit (modeflags S) 4 \<and> bufpos S \<le> bufread S"
      "bit (modeflags S) 6 \<longrightarrow> \<not> bit (modeflags S) 5"
      "bit (modeflags S) 1 \<longrightarrow> ungot S 1 = 1"
    using assms unfolding open_inv_def by blast+
  have "- 3 \<le> filedes S" "filedes S \<noteq> - 3" "bit (modeflags S) 9 \<longrightarrow> BUFFER_SIZE S = 0"
      "bit (modeflags S) 1 \<longrightarrow> ungot S 1 \<le> 1"
    using d(3) b(1,6) by (simp_all add: BUFFER_SIZE_def)
  then show ?thesis
    unfolding stdio_validate_FILE_def flag_simps bufmode_le using d b by blast
qed

text \<open>An update that keeps the buffer, the descriptor and the access mode.\<close>

lemma open_inv_update:
  assumes "open_inv S"
    and "user_locking S' = user_locking S" "filedes S' = filedes S" "bufstart S' = bufstart S" "bufend S' = bufend S"
    and "bit (modeflags S') 4 = bit (modeflags S) 4" "bit (modeflags S') 5 = bit (modeflags S) 5"
      "bit (modeflags S') 8 = bit (modeflags S) 8" "bit (modeflags S') 9 = bit (modeflags S) 9"
    and "bufstart S \<le> bufpos S'" "bufpos S' \<le> bufend S" "bufstart S \<le> bufread S'" "bufread S' \<le> bufend S"
    and "bit (modeflags S') 2 \<Longrightarrow> bufpos S' = bufread S' \<and> \<not> bit (modeflags S') 1"
    and "\<not> bit (modeflags S') 0 \<Longrightarrow> \<not> bit (modeflags S') 1 \<Longrightarrow> bufread S' = bufstart S"
    and "\<not> bit (modeflags S') 0 \<Longrightarrow> \<not> bit (modeflags S') 1 \<Longrightarrow> \<not> bit (modeflags S') 6 \<Longrightarrow> bufpos S' = bufstart S"
    and "bit (modeflags S') 0 \<or> bit (modeflags S') 1 \<Longrightarrow> \<not> bit (modeflags S') 6 \<and> \<not> bit (modeflags S) 4 \<and> bufpos S' \<le> bufread S'"
    and "bit (modeflags S') 6 \<Longrightarrow> \<not> bit (modeflags S) 5 \<and> \<not> bit (modeflags S') 2"
    and "\<not> (bit (modeflags S') 0 \<and> bit (modeflags S') 1)" "bit (modeflags S') 1 \<Longrightarrow> ungot S' 1 = 1"
  shows "open_inv S'"
proof -
  have c: "0 \<le> user_locking S" "user_locking S \<le> 2" "- 3 < filedes S"
      "\<not> (bit (modeflags S) 4 \<and> bit (modeflags S) 5)" "\<not> (bit (modeflags S) 8 \<and> bit (modeflags S) 9)"
      "bit (modeflags S) 9 \<longrightarrow> bufstart S = bufend S" "buflen S < 2 ^ 64"
    using assms(1) unfolding open_inv_def by blast+
  have "bit (modeflags S') 2 \<longrightarrow> bufpos S' = bufread S' \<and> \<not> bit (modeflags S') 1"
      "\<not> bit (modeflags S') 0 \<longrightarrow> \<not> bit (modeflags S') 1 \<longrightarrow> bufread S' = bufstart S"
      "\<not> bit (modeflags S') 0 \<longrightarrow> \<not> bit (modeflags S') 1 \<longrightarrow> \<not> bit (modeflags S') 6 \<longrightarrow> bufpos S' = bufstart S"
      "bit (modeflags S') 0 \<or> bit (modeflags S') 1 \<longrightarrow> \<not> bit (modeflags S') 6 \<and> \<not> bit (modeflags S) 4 \<and> bufpos S' \<le> bufread S'"
      "bit (modeflags S') 6 \<longrightarrow> \<not> bit (modeflags S) 5 \<and> \<not> bit (modeflags S') 2" "bit (modeflags S') 1 \<longrightarrow> ungot S' 1 = 1"
    using assms(14-18,20) by blast+
  then show ?thesis
    unfolding open_inv_def assms(2-9) using c assms(10-13,19) by blast
qed

lemma open_invD:
  assumes "open_inv S"
  shows "\<not> (bit (modeflags S) 0 \<and> bit (modeflags S) 1)" "bit (modeflags S) 1 \<Longrightarrow> ungot S 1 = 1"
    "bufstart S \<le> bufpos S" "bufpos S \<le> bufend S" "bufstart S \<le> bufread S" "bufread S \<le> bufend S"
    "bit (modeflags S) 2 \<Longrightarrow> bufpos S = bufread S \<and> \<not> bit (modeflags S) 1"
    "\<not> bit (modeflags S) 0 \<Longrightarrow> \<not> bit (modeflags S) 1 \<Longrightarrow> bufread S = bufstart S"
    "bit (modeflags S) 0 \<or> bit (modeflags S) 1 \<Longrightarrow> \<not> bit (modeflags S) 6 \<and> \<not> bit (modeflags S) 4 \<and> bufpos S \<le> bufread S"
    "bit (modeflags S) 6 \<Longrightarrow> \<not> bit (modeflags S) 5 \<and> \<not> bit (modeflags S) 2" "\<not> (bit (modeflags S) 8 \<and> bit (modeflags S) 9)"
    "bit (modeflags S) 9 \<Longrightarrow> bufstart S = bufend S"
    "\<not> bit (modeflags S) 0 \<Longrightarrow> \<not> bit (modeflags S) 1 \<Longrightarrow> \<not> bit (modeflags S) 6 \<Longrightarrow> bufpos S = bufstart S"
    "buflen S < 2 ^ 64"
  using assms unfolding open_inv_def by blast+

section \<open>Operations on one FILE\<close>

lemma inv_flag:
  assumes "open_inv S" "bit (modeflags S') 6 = bit (modeflags S) 6"
    and "\<And>k. k < 10 \<Longrightarrow> k \<noteq> 3 \<Longrightarrow> bit (modeflags S') k = bit (modeflags S) k" "S' = S\<lparr>modeflags := modeflags S'\<rparr>"
  shows "open_inv S'"
proof -
  have s: "user_locking S' = user_locking S" "filedes S' = filedes S" "bufstart S' = bufstart S" "bufend S' = bufend S"
      "bufpos S' = bufpos S" "bufread S' = bufread S" "ungot S' = ungot S"
    by (subst assms(4), simp)+
  have b: "bit (modeflags S') 0 = bit (modeflags S) 0" "bit (modeflags S') 1 = bit (modeflags S) 1"
      "bit (modeflags S') 2 = bit (modeflags S) 2" "bit (modeflags S') 4 = bit (modeflags S) 4"
      "bit (modeflags S') 5 = bit (modeflags S) 5" "bit (modeflags S') 6 = bit (modeflags S) 6"
      "bit (modeflags S') 8 = bit (modeflags S) 8" "bit (modeflags S') 9 = bit (modeflags S) 9"
    using assms(2) by (simp_all add: assms(3))
  show ?thesis using assms(1) unfolding open_inv_def s b .
qed

lemma inv_error:
  assumes "open_inv S"
  shows "open_inv (set_flag FLAG_ERROR S)"
proof (rule inv_flag [OF assms])
  have "bit (2 ^ j :: 16 word) k \<longleftrightarrow> k = j" if "j < 16" for j k using that by (auto simp: bit_exp_iff)
  from this [of 3] have e: "bit (8 :: 16 word) k \<longleftrightarrow> k = 3" for k by simp
  show "bit (modeflags (set_flag FLAG_ERROR S)) k = bit (modeflags S) k" if "k < 10" "k \<noteq> 3" for k
    using that by (simp add: bit_or_iff e del: bit_numeral_word_iff)
qed (simp_all add: set_flag_def bit_simps)

lemma inv_reading:
  assumes "open_inv S" "\<not> STREAM_IS_READING S" "\<not> STREAM_IS_WRITING S" "\<not> STREAM_IS_WRITEONLY S"
  shows "open_inv (set_flag FLAG_READING S)"
proof -
  note d = open_invD [OF assms(1)]
  have n: "\<not> bit (modeflags S) 0" "\<not> bit (modeflags S) 1" "\<not> bit (modeflags S) 6" "\<not> bit (modeflags S) 4"
    using assms(2-4) by (simp_all add: flag_simps)
  have p: "bufread S = bufstart S" "bufpos S = bufstart S" using d(8,13) n by blast+
  show ?thesis by (rule open_inv_update [OF assms(1)]) (use n p d(3-6) in \<open>simp_all add: bit_simps\<close>)
qed

lemma inv_eof:
  assumes "open_inv S" "bufpos S = bufread S" "\<not> STREAM_HAS_UNGOT S" "\<not> STREAM_IS_WRITING S"
  shows "open_inv (set_flag FLAG_EOF S)"
proof -
  note d = open_invD [OF assms(1)]
  have n: "\<not> bit (modeflags S) 1" "\<not> bit (modeflags S) 6" using assms(3,4) by (simp_all add: flag_simps)
  have p: "\<not> bit (modeflags S) 0 \<Longrightarrow> bufread S = bufstart S" "bit (modeflags S) 0 \<Longrightarrow> \<not> bit (modeflags S) 4"
    using d(8,9) n by blast+
  show ?thesis by (rule open_inv_update [OF assms(1)]) (use n p assms(2) d(3-6) in \<open>simp_all add: bit_simps\<close>)
qed

lemma inv_get:
  assumes "open_inv S" "bufpos S < bufread S"
  shows "open_inv (S\<lparr>bufpos := bufpos S + 1\<rparr>)"
proof -
  note d = open_invD [OF assms(1)]
  have n: "bit (modeflags S) 0 \<or> bit (modeflags S) 1" using d(3,8) assms(2) by fastforce
  have "\<not> bit (modeflags S) 2" using d(7) assms(2) by fastforce
  then show ?thesis using d(9) [OF n] d(1,2) n
    by (intro open_inv_update [OF assms(1)]) (use assms(2) d(3-6) in auto)
qed

text \<open>The stream reads and writes nothing, and nothing is buffered.\<close>

lemma inv_idle:
  assumes "open_inv S" "modeflags S' = modeflags S AND NOT m" "any_of m 1" "any_of m 2" "any_of m 0x40"
    and "user_locking S' = user_locking S" "filedes S' = filedes S" "bufstart S' = bufstart S" "bufend S' = bufend S"
    and "bufpos S' = bufstart S" "bufread S' = bufstart S"
    and "\<not> bit m 4" "\<not> bit m 5" "\<not> bit m 8" "\<not> bit m 9"
  shows "open_inv S'"
proof -
  note d = open_invD [OF assms(1)]
  have m: "bit m 0" "bit m 1" "bit m 6" using assms(3-5) by (simp_all add: flag_simps [simplified])
  have "bufstart S \<le> bufend S" using d(3,4) by linarith
  then show ?thesis
    by (intro open_inv_update [OF assms(1,6-9)]) (use m assms(10-) in \<open>simp_all add: assms(2) bit_simps\<close>)
qed

lemma inv_reset: "open_inv S \<Longrightarrow> open_inv (INIT_BUFREAD_BUFPOS (clear_flag (MASK_READING OR FLAG_WRITING OR FLAG_EOF) S))"
  by (rule inv_idle [where m = "MASK_READING OR FLAG_WRITING OR FLAG_EOF"])
    (simp_all add: clear_flag_def INIT_BUFREAD_BUFPOS_def any_of_def)

lemma inv_fpurge: "open_inv S \<Longrightarrow> open_inv (fpurge S)"
  unfolding fpurge_def
  by (rule inv_idle [where m = "MASK_READING OR FLAG_WRITING"])
    (simp_all add: clear_flag_def INIT_BUFREAD_BUFPOS_def any_of_def)

lemma inv_clearerr:
  assumes "open_inv S"
  shows "open_inv (clearerr S)"
proof -
  note d = open_invD [OF assms]
  show ?thesis
    unfolding clearerr_def
  proof (rule open_inv_update [OF assms])
    let ?S = "clear_flag (FLAG_EOF OR FLAG_ERROR) S"
    have b: "bit (modeflags ?S) 0 = bit (modeflags S) 0" "bit (modeflags ?S) 1 = bit (modeflags S) 1"
        "bit (modeflags ?S) 2 = False" "bit (modeflags ?S) 6 = bit (modeflags S) 6"
      by (simp_all add: bit_simps)
    show "bit (modeflags ?S) 0 \<or> bit (modeflags ?S) 1 \<Longrightarrow> \<not> bit (modeflags ?S) 6 \<and> \<not> bit (modeflags S) 4 \<and> bufpos ?S \<le> bufread ?S"
      "bit (modeflags ?S) 6 \<Longrightarrow> \<not> bit (modeflags S) 5 \<and> \<not> bit (modeflags ?S) 2"
      "\<not> (bit (modeflags ?S) 0 \<and> bit (modeflags ?S) 1)" "bit (modeflags ?S) 1 \<Longrightarrow> ungot ?S 1 = 1"
      "\<not> bit (modeflags ?S) 0 \<Longrightarrow> \<not> bit (modeflags ?S) 1 \<Longrightarrow> bufread ?S = bufstart S"
      "\<not> bit (modeflags ?S) 0 \<Longrightarrow> \<not> bit (modeflags ?S) 1 \<Longrightarrow> \<not> bit (modeflags ?S) 6 \<Longrightarrow> bufpos ?S = bufstart S"
      "bit (modeflags ?S) 2 \<Longrightarrow> bufpos ?S = bufread ?S \<and> \<not> bit (modeflags ?S) 1"
      unfolding b using d(1,2,8,9,10,13) by auto
  qed (use d(3-6) in \<open>simp_all add: bit_simps\<close>)
qed

lemma inv_take_ungot:
  assumes "open_inv S" "STREAM_HAS_UNGOT S"
  shows "open_inv (snd (take_ungot S))"
proof -
  have u: "bit (modeflags S) 1" using assms(2) by (simp add: flag_simps)
  note d = open_invD [OF assms(1)]
  have k: "user_locking (snd (take_ungot S)) = user_locking S" by (simp add: take_ungot_def)
  have n: "\<not> bit (modeflags S) 0" "\<not> bit (modeflags S) 2" "\<not> bit (modeflags S) 6" "\<not> bit (modeflags S) 4" "bufpos S \<le> bufread S"
    using d(1,7,9) u by blast+
  show ?thesis
    by (rule open_inv_update [OF assms(1) k])
      (use d(3-6) n in \<open>simp_all add: take_ungot_flags [OF u]\<close>)
qed

section \<open>Writing\<close>

text \<open>What a write leaves of the stream and of the others.\<close>

lemma save_unwritten_bound:
  "save_unwritten m lbf s buf n = Some (m', s') \<Longrightarrow> s \<le> s' \<and> s' \<le> s + n"
proof (induction m lbf s buf n rule: save_unwritten.induct)
  case (2 m lbf s buf stodo)
  then show ?case by (auto split: Option.bind_splits if_splits) fastforce+
qed simp

definition writes_back :: "'w stdio \<Rightarrow> addr \<Rightarrow> 'w stdio \<Rightarrow> bool" where
  "writes_back \<sigma> f \<sigma>' \<longleftrightarrow> (\<forall>q. q \<noteq> f \<longrightarrow> files \<sigma>' q = files \<sigma> q) \<and>
     (\<forall>S. files \<sigma> f = Some S \<longrightarrow> bufstart S \<le> bufpos S \<longrightarrow> bufpos S \<le> bufend S \<longrightarrow>
        (\<exists>S' p. files \<sigma>' f = Some (S'\<lparr>bufpos := p\<rparr>) \<and> (S' = S \<or> S' = set_flag FLAG_ERROR S) \<and>
           bufstart S \<le> p \<and> p \<le> bufend S))"

lemma writes_back_same: "files \<sigma>' = files \<sigma> \<Longrightarrow> writes_back \<sigma> f \<sigma>'"
proof -
  assume f: "files \<sigma>' = files \<sigma>"
  have "files \<sigma>' f = Some (S\<lparr>bufpos := bufpos S\<rparr>)" if "files \<sigma> f = Some S" for S using f that by simp
  then show ?thesis unfolding writes_back_def f by blast
qed

lemma writes_back_cong: "writes_back \<sigma>1 f \<sigma>' \<Longrightarrow> files \<sigma>1 = files \<sigma> \<Longrightarrow> writes_back \<sigma> f \<sigma>'"
  by (simp add: writes_back_def)

lemma writes_back_error:
  assumes "files \<sigma> f = Some S" "files \<sigma>' = (files \<sigma>)(f \<mapsto> (set_flag FLAG_ERROR S)\<lparr>bufpos := p\<rparr>)"
    and "bufstart S \<le> bufpos S \<Longrightarrow> bufpos S \<le> bufend S \<Longrightarrow> bufstart S \<le> p \<and> p \<le> bufend S"
  shows "writes_back \<sigma> f \<sigma>'"
  using assms unfolding writes_back_def by auto

lemma size_t_le: "size_t (int a - int b) \<le> a - b" if "b \<le> a"
proof -
  have "size_t (int (a - b)) \<le> a - b" by (simp add: size_t_def nat_mod_as_int [symmetric] nat_mod_distrib)
  then show ?thesis using that by (simp add: of_nat_diff)
qed

lemma WRITE_loop_back:
  "stdio_WRITE_loop h \<sigma> f buf todo = Some y \<Longrightarrow> writes_back \<sigma> f (snd y)"
proof (induction rule: stdio_WRITE_loop.raw_induct [rotated 1, consumes 1, case_names step])
  case (step loop h \<sigma> f buf todo y)
  show ?case
  proof (cases "todo = 0")
    case True
    then have "files (snd y) = files \<sigma>" using step(2) by auto
    then show ?thesis by (rule writes_back_same)
  next
    case False
    obtain S data where S: "files \<sigma> f = Some S"
      and d: "load_bytes (memory \<sigma>) buf (min todo SSIZE_MAX) = Some data"
      using step(2) False by (auto split: Option.bind_splits)
    obtain rv w where w: "sys_write h (world \<sigma>) (filedes S) data = (rv, w)" by fastforce
    let ?S = "set_flag FLAG_ERROR S"
    show ?thesis
    proof (cases rv)
      case (Some n)
      then have "loop h (\<sigma>\<lparr>world := w\<rparr>) f (buf + n) (todo - n) = Some y" using step(2) False S d w by simp
      then have "writes_back (\<sigma>\<lparr>world := w\<rparr>) f (snd y)" by (rule step(1))
      then show ?thesis by (rule writes_back_cong) simp
    next
      case None
      show ?thesis
      proof (cases "BUFFER_SIZE ?S = 0")
        case True
        have "?S\<lparr>bufpos := bufpos S\<rparr> = ?S" by (simp add: set_flag_def)
        then have "files (snd y) = (files \<sigma>)(f \<mapsto> ?S\<lparr>bufpos := bufpos S\<rparr>)"
          using step(2) False S d w None True by auto
        then show ?thesis by (rule writes_back_error [OF S]) simp
      next
        case sz: False
        obtain m s where ms: "save_unwritten (memory \<sigma>) (STREAM_IS_LBF ?S) (bufstart S) buf
            (min (size_t (BUFFER_SIZE ?S)) todo) = Some (m, s)" "snd y = put (\<sigma>\<lparr>world := w, memory := m\<rparr>) f (?S\<lparr>bufpos := s\<rparr>)"
          using step(2) False S d w None sz by (auto simp: Let_def split: Option.bind_splits)
        have "bufstart S \<le> s \<and> s \<le> bufstart S + min (size_t (BUFFER_SIZE ?S)) todo"
          by (rule save_unwritten_bound [OF ms(1)])
        moreover have "size_t (BUFFER_SIZE ?S) \<le> bufend S - bufstart S" if "bufstart S \<le> bufend S"
          using size_t_le [OF that] by (simp add: BUFFER_SIZE_def)
        ultimately show ?thesis
          using ms(2) by (intro writes_back_error [OF S, where p = s]) auto
      qed
    qed
  qed
qed

lemma wcommit_back:
  assumes "stdio_wcommit h \<sigma> f = Some (n, \<sigma>')"
  shows "writes_back \<sigma> f \<sigma>'" and "\<exists>S'. files \<sigma>' f = Some S' \<and> n = size_t (BUFFER_WUSED S')"
proof -
  obtain S where S: "files \<sigma> f = Some S" using assms by (auto simp: stdio_wcommit_def split: Option.bind_splits)
  show "\<exists>S'. files \<sigma>' f = Some S' \<and> n = size_t (BUFFER_WUSED S')"
    using assms by (auto simp: stdio_wcommit_def split: Option.bind_splits if_splits)
  show "writes_back \<sigma> f \<sigma>'"
  proof (cases "BUFFER_WUSED S = 0")
    case True
    then have "files \<sigma>' = files \<sigma>" using assms S by (auto simp: stdio_wcommit_def split: Option.bind_splits)
    then show ?thesis by (rule writes_back_same)
  next
    case False
    let ?\<sigma> = "put \<sigma> f (S\<lparr>bufpos := bufstart S\<rparr>)"
    obtain r where "stdio_WRITE_loop h ?\<sigma> f (bufstart S) (size_t (BUFFER_WUSED S)) = Some (r, \<sigma>')"
      using assms S False by (auto simp: stdio_wcommit_def stdio_WRITE_def split: Option.bind_splits)
    from WRITE_loop_back [OF this] have wb: "writes_back ?\<sigma> f \<sigma>'" by simp
    show ?thesis
      unfolding writes_back_def
    proof (intro conjI allI impI)
      show "files \<sigma>' q = files \<sigma> q" if "q \<noteq> f" for q using wb that by (simp add: writes_back_def)
    next
      fix S1 assume "files \<sigma> f = Some S1" "bufstart S1 \<le> bufpos S1" "bufpos S1 \<le> bufend S1"
      then have b: "S1 = S" "bufstart S \<le> bufend S" using S by auto
      then obtain S' p where p: "files \<sigma>' f = Some (S'\<lparr>bufpos := p\<rparr>)" "bufstart S \<le> p" "p \<le> bufend S"
          "S' = S\<lparr>bufpos := bufstart S\<rparr> \<or> S' = set_flag FLAG_ERROR (S\<lparr>bufpos := bufstart S\<rparr>)"
        using wb by (auto simp: writes_back_def)
      from p(4) show "\<exists>S' p. files \<sigma>' f = Some (S'\<lparr>bufpos := p\<rparr>) \<and> (S' = S1 \<or> S' = set_flag FLAG_ERROR S1) \<and>
          bufstart S1 \<le> p \<and> p \<le> bufend S1"
      proof
        assume "S' = S\<lparr>bufpos := bufstart S\<rparr>"
        then show ?thesis using p b(1) by (intro exI [of _ S] exI [of _ p]) simp
      next
        assume "S' = set_flag FLAG_ERROR (S\<lparr>bufpos := bufstart S\<rparr>)"
        then have "S'\<lparr>bufpos := p\<rparr> = (set_flag FLAG_ERROR S)\<lparr>bufpos := p\<rparr>" by (simp add: set_flag_def)
        then show ?thesis using p b(1) by (intro exI [of _ "set_flag FLAG_ERROR S"] exI [of _ p]) simp
      qed
    qed
  qed
qed

lemma inv_written:
  assumes "open_inv S" "STREAM_IS_WRITING S" "bufstart S \<le> p" "p \<le> bufend S"
  shows "open_inv (S\<lparr>bufpos := p\<rparr>)"
proof -
  note d = open_invD [OF assms(1)]
  have w: "bit (modeflags S) 6" using assms(2) by (simp add: flag_simps)
  have n: "\<not> bit (modeflags S) 0" "\<not> bit (modeflags S) 1" "\<not> bit (modeflags S) 2" "\<not> bit (modeflags S) 5" using d(9,10) w by blast+
  then show ?thesis
    by (intro open_inv_update [OF assms(1)]) (use w assms(3,4) d(5,6) d(8) [OF n(1,2)] in simp_all)
qed

lemma inv_writing:
  assumes "open_inv S" "\<not> STREAM_IS_READING S" "\<not> STREAM_IS_READONLY S" "\<not> FEOF_UNLOCKED S"
  shows "open_inv (set_flag FLAG_WRITING S)"
proof -
  note d = open_invD [OF assms(1)]
  have n: "\<not> bit (modeflags S) 0" "\<not> bit (modeflags S) 1" "\<not> bit (modeflags S) 2" "\<not> bit (modeflags S) 5"
    using assms(2-4) by (simp_all add: flag_simps)
  then show ?thesis
    by (intro open_inv_update [OF assms(1)]) (use d(3-6) d(8) [OF n(1,2)] in \<open>simp_all add: bit_simps\<close>)
qed

lemma inv_flushed:
  assumes "open_inv S" "STREAM_IS_WRITING S" "bufpos S = bufstart S"
  shows "open_inv (clear_flag FLAG_WRITING S)"
proof -
  note d = open_invD [OF assms(1)]
  have w: "bit (modeflags S) 6" using assms(2) by (simp add: flag_simps)
  have n: "\<not> bit (modeflags S) 0" "\<not> bit (modeflags S) 1" "\<not> bit (modeflags S) 2" using d(9,10) w by blast+
  then show ?thesis
    by (intro open_inv_update [OF assms(1)]) (use assms(3) d(3-6) d(8) [OF n(1,2)] in \<open>simp_all add: bit_simps\<close>)
qed

lemma writes_back_inv:
  assumes "writes_back \<sigma> f \<sigma>'" "files \<sigma> f = Some S" "open_inv S" "STREAM_IS_WRITING S"
  shows "\<exists>S'. files \<sigma>' f = Some S' \<and> open_inv S' \<and> STREAM_IS_WRITING S' \<and> bufend S' = bufend S \<and> bufstart S' = bufstart S"
proof -
  obtain S' p where S': "files \<sigma>' f = Some (S'\<lparr>bufpos := p\<rparr>)" "S' = S \<or> S' = set_flag FLAG_ERROR S" "bufstart S \<le> p" "p \<le> bufend S"
    using assms(1,2) open_invD [OF assms(3)] by (auto simp: writes_back_def)
  then have "open_inv S'" "STREAM_IS_WRITING S'" "bufstart S' = bufstart S" "bufend S' = bufend S"
    using assms(3,4) inv_error by (auto simp: flag_simps bit_simps)
  then show ?thesis using S' inv_written [of S' p] by (simp add: flag_simps)
qed

section \<open>Flushing\<close>

lemma size_t_zero: "open_inv S \<Longrightarrow> size_t (BUFFER_WUSED S) = 0 \<Longrightarrow> bufpos S = bufstart S"
  using open_invD(3,4,14) [of S] by (auto simp: BUFFER_WUSED_def size_t_def)

lemma flush_stream_inv:
  assumes "flush_stream h \<sigma> f r = Some y" "files \<sigma> f = Some S" "open_inv S" "STREAM_IS_WRITING S"
  shows "\<exists>S'. files (snd y) f = Some S' \<and> open_inv S'"
proof -
  obtain n \<sigma>1 S1 where c: "stdio_wcommit h \<sigma> f = Some (n, \<sigma>1)" "files \<sigma>1 f = Some S1" "n = size_t (BUFFER_WUSED S1)"
    and y: "y = (if n = 0 then (r, put \<sigma>1 f (clear_flag FLAG_WRITING S1)) else (EOF, \<sigma>1))"
    using assms(1) wcommit_back(2) by (fastforce simp: flush_stream_def split: Option.bind_splits if_splits)
  obtain S2 where "files \<sigma>1 f = Some S2" "open_inv S2" "STREAM_IS_WRITING S2"
    using writes_back_inv [OF wcommit_back(1) [OF c(1)] assms(2-4)] by blast
  then show ?thesis using c(2,3) y inv_flushed size_t_zero by (cases "n = 0") auto
qed

text \<open>The loop over the open list leaves a stream alone that is not writing, and keeps the invariant of one that is.\<close>

lemma flush_stream_other: "flush_stream h \<sigma> g r = Some y \<Longrightarrow> f \<noteq> g \<Longrightarrow> files (snd y) f = files \<sigma> f"
  using wcommit_back(1) by (fastforce simp: flush_stream_def writes_back_def split: Option.bind_splits if_splits)

lemma flush_selected:
  "\<not> any_of ((m OR bufmask) XOR (FLAG_WRITING OR FLAG_LBF)) (FLAG_WRITING OR MASK_BUFMODE) \<Longrightarrow> \<not> bit bufmask 6 \<Longrightarrow> bit m 6"
  unfolding flush_selects by (auto simp: bit_or_iff)

lemma flush_list_inv:
  "flush_list h \<sigma> bufmask p r = Some y \<Longrightarrow> \<not> bit bufmask 6 \<Longrightarrow> files \<sigma> f = Some S \<Longrightarrow> open_inv S \<Longrightarrow>
     (\<exists>S'. files (snd y) f = Some S' \<and> open_inv S') \<and> (\<not> STREAM_IS_WRITING S \<longrightarrow> files (snd y) f = Some S)"
proof (induction arbitrary: S rule: flush_list.raw_induct [rotated 1, consumes 1, case_names step])
  case (step loop h \<sigma> bufmask p r y)
  show ?case
  proof (cases "p = NULL")
    case True
    then show ?thesis using step(2,4,5) by auto
  next
    case False
    obtain P where P: "files \<sigma> p = Some P" using step(2) False by (auto split: Option.bind_splits)
    let ?sel = "\<not> any_of ((modeflags P OR bufmask) XOR (FLAG_WRITING OR FLAG_LBF)) (FLAG_WRITING OR MASK_BUFMODE)"
    obtain r1 \<sigma>1 P1 where r1: "(if ?sel then flush_stream h \<sigma> p r else Some (r, \<sigma>)) = Some (r1, \<sigma>1)"
        "files \<sigma>1 p = Some P1" "loop h \<sigma>1 bufmask (nextopen P1) r1 = Some y"
    proof -
      from step(2) False obtain x where x: "(if ?sel then flush_stream h \<sigma> p r else Some (r, \<sigma>)) = Some x"
          "(case x of (r1, \<sigma>1) \<Rightarrow> files \<sigma>1 p \<bind> (\<lambda>P1. loop h \<sigma>1 bufmask (nextopen P1) r1)) = Some y"
        unfolding if_not_P [OF False] P Option.bind.bind_lunit Option.bind_eq_Some_conv by blast
      obtain r1 \<sigma>1 where "x = (r1, \<sigma>1)" by fastforce
      then show thesis using that x by (auto simp: Option.bind_eq_Some_conv simp del: any_of_flags)
    qed
    have "\<exists>S1. files \<sigma>1 f = Some S1 \<and> open_inv S1 \<and> (\<not> STREAM_IS_WRITING S \<longrightarrow> S1 = S)"
    proof (cases "?sel")
      case True
      then have fs: "flush_stream h \<sigma> p r = Some (r1, \<sigma>1)" using r1(1) by simp
      have w: "STREAM_IS_WRITING P" using flush_selected [OF True step(3)] by (simp add: flag_simps)
      show ?thesis
      proof (cases "p = f")
        case True
        then have "P = S" using P step(4) by simp
        then show ?thesis using flush_stream_inv [OF fs] True w step(4,5) by auto
      next
        case False
        then show ?thesis using flush_stream_other [OF fs, of f] step(4,5) by auto
      qed
    next
      case False
      then show ?thesis using r1(1) step(4,5) by auto
    qed
    then obtain S1 where "files \<sigma>1 f = Some S1" "open_inv S1" "\<not> STREAM_IS_WRITING S \<longrightarrow> S1 = S" by blast
    then show ?thesis using step(1) [OF r1(3) step(3), of S1] by auto
  qed
qed

lemma fflush_inv:
  assumes "fflush_unlocked h \<sigma> g = Some (r, \<sigma>')" "inv_at \<sigma> f"
  shows "inv_at \<sigma>' f"
proof -
  obtain S where S: "files \<sigma> f = Some S" "open_inv S" using assms(2) by (auto simp: inv_at_def)
  show ?thesis
  proof (cases "g = NULL")
    case True
    then have "flush_list h \<sigma> FLAG_LBF (stdio_openlist \<sigma>) 0 = Some (r, \<sigma>')" using assms(1) by (simp add: fflush_unlocked_def)
    from flush_list_inv [OF this _ S] show ?thesis by (simp add: inv_at_def)
  next
    case False
    then obtain G where G: "files \<sigma> g = Some G" "(if STREAM_IS_WRITING G then flush_stream h \<sigma> g 0 else Some (0, \<sigma>)) = Some (r, \<sigma>')"
      using assms(1) by (auto simp: fflush_unlocked_def split: Option.bind_splits)
    show ?thesis
    proof (cases "STREAM_IS_WRITING G")
      case True
      then have fs: "flush_stream h \<sigma> g 0 = Some (r, \<sigma>')" using G(2) by simp
      show ?thesis
        using flush_stream_inv [OF fs] flush_stream_other [OF fs, of f] True G(1) S by (cases "g = f") (auto simp: inv_at_def)
    next
      case False
      then show ?thesis using G(2) assms(2) by simp
    qed
  qed
qed

section \<open>Reading\<close>

text \<open>The host never delivers more than it was asked for.\<close>

definition reads_bounded :: "'w host \<Rightarrow> bool" where
  "reads_bounded h \<longleftrightarrow> (\<forall>w fd n bs w'. sys_read h w fd n = (Some bs, w') \<longrightarrow> length bs \<le> n)"

lemma ready_to_read_inv:
  assumes "ready_to_read \<sigma> f = Some (ok, \<sigma>')" "inv_at \<sigma> f"
  shows "\<exists>S. files \<sigma>' f = Some S \<and> open_inv S \<and> (ok \<longrightarrow> STREAM_IS_READING S)"
proof -
  obtain S where S: "files \<sigma> f = Some S" "open_inv S" using assms(2) by (auto simp: inv_at_def)
  then show ?thesis
    using assms(1) inv_error [OF S(2)] inv_reading [OF S(2)]
    by (auto simp: ready_to_read_def stdio_trans2r_def flag_simps bit_simps Let_def split: if_splits)
qed

lemma READ_inv:
  assumes "reads_bounded h" "stdio_READ h \<sigma> f p n = Some (k, \<sigma>')" "files \<sigma> f = Some S" "open_inv S"
    and "bufpos S = bufread S" "\<not> STREAM_HAS_UNGOT S" "STREAM_IS_READING S"
  shows "k \<le> n \<and> (\<exists>S'. files \<sigma>' f = Some S' \<and> open_inv S' \<and> bufstart S' = bufstart S \<and> bufend S' = bufend S \<and>
     bufpos S' = bufread S' \<and> STREAM_IS_READING S' \<and> \<not> STREAM_HAS_UNGOT S' \<and> (k \<noteq> 0 \<longrightarrow> \<not> FEOF_UNLOCKED S'))"
proof (cases "FEOF_UNLOCKED S")
  case True
  then show ?thesis using assms(2-) by (simp add: stdio_READ_def)
next
  case False
  obtain rv w where rv: "sys_read h (world \<sigma>) (filedes S) (min n SSIZE_MAX) = (rv, w)" by fastforce
  have nw: "\<not> STREAM_IS_WRITING S" using assms(7) open_invD(9) [OF assms(4)] by (auto simp: flag_simps)
  show ?thesis
  proof (cases rv)
    case None
    then show ?thesis
      using assms(2,3,5-7) False rv inv_error [OF assms(4)] by (auto simp: stdio_READ_def flag_simps bit_simps)
  next
    case (Some bs)
    have "length bs \<le> n" using assms(1) rv Some unfolding reads_bounded_def by fastforce
    then show ?thesis
      using assms(2-7) False rv Some inv_eof [OF assms(4-6) nw]
      by (auto simp: stdio_READ_def flag_simps bit_simps Let_def split: if_splits Option.bind_splits)
  qed
qed

lemma GET_inv:
  assumes "BUFFER_GET \<sigma> f = Some (c, \<sigma>')" "files \<sigma> f = Some S" "open_inv S" "bufpos S < bufread S"
  shows "inv_at \<sigma>' f"
  using assms inv_get by (auto simp: BUFFER_GET_def inv_at_def split: Option.bind_splits)

lemma inv_filled:
  assumes "open_inv S" "STREAM_IS_READING S" "\<not> STREAM_HAS_UNGOT S" "bufstart S + k \<le> bufend S" "k \<noteq> 0 \<longrightarrow> \<not> FEOF_UNLOCKED S"
  shows "open_inv (S\<lparr>bufpos := bufstart S, bufread := bufstart S + k\<rparr>)"
proof -
  note d = open_invD [OF assms(1)]
  have n: "bit (modeflags S) 0" "\<not> bit (modeflags S) 1" "\<not> bit (modeflags S) 6" "\<not> bit (modeflags S) 4"
    using assms(2,3) d(9) by (auto simp: flag_simps)
  have e: "k \<noteq> 0 \<longrightarrow> \<not> bit (modeflags S) 2" using assms(5) by (simp add: flag_simps)
  show ?thesis
    by (rule open_inv_update [OF assms(1)]) (use n e assms(4) d(3-6) in auto)
qed

lemma rfill_inv:
  assumes "reads_bounded h" "stdio_rfill h \<sigma> f = Some (k, \<sigma>')" "files \<sigma> f = Some S" "open_inv S"
    and "bufpos S = bufread S" "\<not> STREAM_HAS_UNGOT S" "STREAM_IS_READING S"
  shows "\<exists>S'. files \<sigma>' f = Some S' \<and> open_inv S' \<and> bufread S' = bufpos S' + k"
proof -
  note d = open_invD [OF assms(4)]
  obtain \<sigma>1 S1 where r: "stdio_READ h \<sigma> f (bufstart S) (size_t (BUFFER_SIZE S)) = Some (k, \<sigma>1)" "files \<sigma>1 f = Some S1"
      "\<sigma>' = put \<sigma>1 f (S1\<lparr>bufpos := bufstart S1, bufread := bufstart S1 + k\<rparr>)"
    using assms(2,3) by (auto simp: stdio_rfill_def split: Option.bind_splits)
  note i = READ_inv [OF assms(1) r(1) assms(3-7)]
  have "size_t (BUFFER_SIZE S) \<le> bufend S - bufstart S" unfolding BUFFER_SIZE_def using d(3,4) by (intro size_t_le) linarith
  then show ?thesis
    using i r(2,3) inv_filled [of S1 k] d(3,4) by auto
qed

lemma fgetc_inv:
  assumes "reads_bounded h" "fgetc_unlocked h \<sigma>0 f = Some (r, \<sigma>')" "inv_at \<sigma>0 f"
  shows "inv_at \<sigma>' f"
proof -
  obtain ok \<sigma> where rd: "ready_to_read \<sigma>0 f = Some (ok, \<sigma>)"
    using assms(2) by (auto simp: fgetc_unlocked_def Option.bind_eq_Some_conv)
  obtain S where S: "files \<sigma> f = Some S" "open_inv S" "ok \<longrightarrow> STREAM_IS_READING S"
    using ready_to_read_inv [OF rd assms(3)] by blast
  note d = open_invD [OF S(2)]
  consider (bad) "\<not> ok" | (ungot) "ok" "STREAM_HAS_UNGOT S" | (buffered) "ok" "\<not> STREAM_HAS_UNGOT S" "bufpos S < bufread S"
    | (fake) "ok" "\<not> STREAM_HAS_UNGOT S" "bufpos S = bufread S" "IS_FAKE S"
    | (refill) "ok" "\<not> STREAM_HAS_UNGOT S" "bufpos S = bufread S" "\<not> IS_FAKE S"
    using d(9) S(3) by (fastforce simp: flag_simps)
  then show ?thesis
  proof cases
    case bad
    then show ?thesis using assms(2) rd S by (auto simp: fgetc_unlocked_def inv_at_def)
  next
    case ungot
    then have "\<sigma>' = put \<sigma> f (snd (take_ungot S))"
      using assms(2) rd S(1) by (simp add: fgetc_unlocked_def Let_def case_prod_unfold)
    then show ?thesis using inv_take_ungot [OF S(2) ungot(2)] by (simp add: inv_at_def)
  next
    case buffered
    then have "\<exists>c. BUFFER_GET \<sigma> f = Some (c, \<sigma>')"
      using assms(2) rd S(1) by (auto simp: fgetc_unlocked_def BUFFER_RAVAIL_def Option.bind_eq_Some_conv)
    then show ?thesis using GET_inv S(1,2) buffered(3) by blast
  next
    case fake
    then have "\<sigma>' = put \<sigma> f (set_flag FLAG_EOF S)"
      using assms(2) rd S(1) by (simp add: fgetc_unlocked_def BUFFER_RAVAIL_def)
    moreover have "\<not> STREAM_IS_WRITING S" using S(3) fake(1) d(9) by (auto simp: flag_simps)
    ultimately show ?thesis using inv_eof [OF S(2) fake(3,2)] by (simp add: inv_at_def)
  next
    case refill
    have rdg: "STREAM_IS_READING S" using S(3) refill(1) by simp
    then have nw: "\<not> STREAM_IS_WRITING S" using d(9) by (auto simp: flag_simps)
    obtain \<sigma>1 where fl: "(if STREAM_IS_FBF S then Some \<sigma> else FLUSH_LBF_STREAMS h \<sigma>) = Some \<sigma>1"
      using assms(2) rd S(1) refill by (auto simp: fgetc_unlocked_def BUFFER_RAVAIL_def Option.bind_eq_Some_conv)
    have S1: "files \<sigma>1 f = Some S"
    proof (cases "STREAM_IS_FBF S")
      case True
      then show ?thesis using fl S(1) by simp
    next
      case False
      then obtain y where "flush_list h \<sigma> 0 (stdio_openlist \<sigma>) 0 = Some y" "\<sigma>1 = snd y"
        using fl by (auto simp: FLUSH_LBF_STREAMS_def)
      then show ?thesis using flush_list_inv [of h \<sigma> 0 _ _ y f S] S(1,2) nw by simp
    qed
    show ?thesis
    proof (cases "BUFFER_SIZE S = 0")
      case True
      then have "\<exists>n \<sigma>2. stdio_READ h \<sigma>1 f (local_uc \<sigma>1) 1 = Some (n, \<sigma>2) \<and> \<sigma>' = \<sigma>2"
        using assms(2) rd S(1) refill fl S1
        by (auto simp: fgetc_unlocked_def BUFFER_RAVAIL_def Option.bind_eq_Some_conv split: if_splits)
      then obtain n where "stdio_READ h \<sigma>1 f (local_uc \<sigma>1) 1 = Some (n, \<sigma>')" by blast
      from READ_inv [OF assms(1) this S1 S(2) refill(3,2) rdg] show ?thesis by (auto simp: inv_at_def)
    next
      case False
      then obtain n \<sigma>2 where n: "stdio_rfill h \<sigma>1 f = Some (n, \<sigma>2)"
          "(if n \<noteq> 0 then BUFFER_GET \<sigma>2 f \<bind> (\<lambda>(c, \<sigma>). Some (uint c, \<sigma>)) else Some (EOF, \<sigma>2)) = Some (r, \<sigma>')"
        using assms(2) rd S(1) refill fl S1
        by (auto simp: fgetc_unlocked_def BUFFER_RAVAIL_def Option.bind_eq_Some_conv)
      obtain S2 where S2: "files \<sigma>2 f = Some S2" "open_inv S2" "bufread S2 = bufpos S2 + n"
        using rfill_inv [OF assms(1) n(1) S1 S(2) refill(3,2) rdg] by blast
      show ?thesis
      proof (cases "n = 0")
        case True
        then show ?thesis using n(2) S2 by (simp add: inv_at_def)
      next
        case False
        then obtain c where "BUFFER_GET \<sigma>2 f = Some (c, \<sigma>')" using n(2) by (auto simp: Option.bind_eq_Some_conv)
        then show ?thesis by (rule GET_inv [OF _ S2(1,2)]) (use False S2(3) in simp)
      qed
    qed
  qed
qed

lemma ungetc_inv:
  assumes "ungetc \<sigma>0 c f = Some (r, \<sigma>')" "inv_at \<sigma>0 f"
  shows "inv_at \<sigma>' f"
proof -
  obtain ok \<sigma> where rd: "ready_to_read \<sigma>0 f = Some (ok, \<sigma>)"
    using assms(1) by (auto simp: ungetc_def Option.bind_eq_Some_conv)
  obtain S where S: "files \<sigma> f = Some S" "open_inv S" "ok \<longrightarrow> STREAM_IS_READING S"
    using ready_to_read_inv [OF rd assms(2)] by blast
  note d = open_invD [OF S(2)]
  show ?thesis
  proof (cases "ok \<and> \<not> STREAM_HAS_UNGOT S \<and> c \<noteq> EOF")
    case False
    have "STREAM_HAS_UNGOT S \<longrightarrow> ungot S 1 \<noteq> 0" using d(2) by (simp add: flag_simps)
    then have "\<sigma>' = \<sigma>" using assms(1) rd S(1) False by (auto simp: ungetc_def split: if_splits)
    then show ?thesis using S(1,2) by (auto simp: inv_at_def)
  next
    case True
    then have n: "bit (modeflags S) 0" "\<not> bit (modeflags S) 1" "\<not> bit (modeflags S) 6" "\<not> bit (modeflags S) 4" "bufpos S \<le> bufread S"
      using S(3) d(9) by (auto simp: flag_simps)
    let ?m = "modeflags S + 1"
    define S1 where "S1 = S\<lparr>modeflags := ?m, ungot := ((ungot S)(1 := 1))(unat (?m AND 1) := word_of_int c)\<rparr>"
    have m: "?m = Bit_Operations.set_bit 1 (unset_bit 0 (modeflags S))" using flags_inc [of "modeflags S"] n(1,2) by simp
    have u: "unat (?m AND 1) = 0" unfolding m using n(2) by (simp add: and_one16 bit_set_bit_iff bit_unset_bit_iff)
    have "\<sigma>' = put \<sigma> f (clear_flag FLAG_EOF S1)"
      using assms(1) rd S(1) True by (auto simp: ungetc_def S1_def Let_def split: if_splits)
    moreover have "open_inv (clear_flag FLAG_EOF S1)"
    proof -
      define S2 where "S2 = clear_flag FLAG_EOF S1"
      have b: "bit (modeflags S2) k =
          (if k = 0 then False else if k = 1 then True else if k = 2 then False else bit (modeflags S) k)" if "k < 10" for k
      proof -
        have "bit (- 5 :: 16 word) k \<longleftrightarrow> k \<noteq> 2"
          using bit_not_iff [of "4 :: 16 word" k] that by (simp add: bit_consts del: bit_numeral_word_iff)
        then show ?thesis
          using that by (auto simp: S2_def S1_def m bit_ops16 bit_set_bit_iff bit_unset_bit_iff simp del: bit_numeral_word_iff)
      qed
      have b1: "bit (modeflags S2) 1" using b [of 1] by simp
      have u1: "ungot S2 1 = 1" using u by (simp add: S2_def S1_def)
      have s: "user_locking S2 = user_locking S" "filedes S2 = filedes S"
          "bufstart S2 = bufstart S" "bufend S2 = bufend S"
          "bufpos S2 = bufpos S" "bufread S2 = bufread S"
        by (simp_all add: S2_def S1_def)
      have "open_inv S2"
        by (rule open_inv_update [OF S(2) s(1-4)]) (use n d(3-6) u1 b1 in \<open>simp_all add: b s\<close>)
      then show ?thesis by (simp add: S2_def)
    qed
    ultimately show ?thesis by (simp add: inv_at_def)
  qed
qed

section \<open>Blocks and lines\<close>

lemma inv_at_memory [simp]: "inv_at (\<sigma>\<lparr>memory := m\<rparr>) f = inv_at \<sigma> f"
  by (simp add: inv_at_def)

lemma inv_skip:
  assumes "open_inv S" "bufpos S + n \<le> bufread S"
  shows "open_inv (S\<lparr>bufpos := bufpos S + n\<rparr>)"
proof (cases "n = 0")
  case True
  then show ?thesis using assms(1) by simp
next
  case False
  note d = open_invD [OF assms(1)]
  have lt: "bufpos S < bufread S" using False assms(2) by linarith
  have n: "bit (modeflags S) 0 \<or> bit (modeflags S) 1" using d(3,8) lt by fastforce
  have "\<not> bit (modeflags S) 2" using d(7) lt by fastforce
  then show ?thesis using d(9) [OF n] d(1,2) n
    by (intro open_inv_update [OF assms(1)]) (use assms(2) d(3-6) in auto)
qed

lemma inv_ungot_taken:
  assumes "open_inv S" "STREAM_HAS_UNGOT S"
  shows "STREAM_IS_READING (snd (take_ungot S))"
proof -
  have b: "bit (modeflags S) 1" using assms(2) by (simp add: flag_simps)
  then have "\<not> bit (modeflags S) 0" using open_invD(1) [OF assms(1)] by blast
  then have "bit (modeflags (snd (take_ungot S))) 0" by (simp add: take_ungot_flags [OF b])
  then show ?thesis by (simp add: flag_simps)
qed

lemma fread_ungots_inv:
  "fread_ungots \<sigma> f b n = Some y \<Longrightarrow> files \<sigma> f = Some S \<Longrightarrow> open_inv S \<Longrightarrow> STREAM_IS_READING S \<Longrightarrow>
     \<exists>S'. files (fst y) f = Some S' \<and> open_inv S' \<and> STREAM_IS_READING S' \<and> (snd (snd y) \<noteq> 0 \<longrightarrow> \<not> STREAM_HAS_UNGOT S')"
proof (induction arbitrary: S rule: fread_ungots.raw_induct [rotated 1, consumes 1, case_names step])
  case (step loop \<sigma> f b n y)
  show ?case
  proof (cases "STREAM_HAS_UNGOT S")
    case False
    then have "y = (\<sigma>, b, n)" using step(2,3) by simp
    then show ?thesis using step(3-5) False by simp
  next
    case True
    let ?S = "snd (take_ungot S)"
    obtain m where m: "(let \<sigma> = put (\<sigma>\<lparr>memory := m\<rparr>) f ?S in if n - 1 = 0 then Some (\<sigma>, b + 1, 0) else loop \<sigma> f (b + 1) (n - 1)) = Some y"
      using step(2,3) True by (auto simp: Let_def case_prod_unfold Option.bind_eq_Some_conv)
    note S' = inv_take_ungot [OF step(4) True] inv_ungot_taken [OF step(4) True]
    show ?thesis
    proof (cases "n - 1 = 0")
      case True
      then have "y = (put (\<sigma>\<lparr>memory := m\<rparr>) f ?S, b + 1, 0)" using m by (simp add: Let_def)
      then show ?thesis using S' by simp
    next
      case False
      then have "loop (put (\<sigma>\<lparr>memory := m\<rparr>) f ?S) f (b + 1) (n - 1) = Some y" using m by (simp add: Let_def)
      then show ?thesis by (rule step(1)) (use S' in simp_all)
    qed
  qed
qed

lemma size_t_exact: "b \<le> a \<Longrightarrow> a - b < 2 ^ 64 \<Longrightarrow> size_t (int a - int b) = a - b"
  by (simp add: size_t_nat flip: of_nat_diff)

lemma fread_buffered_inv:
  assumes "fread_buffered \<sigma> f b n = Some (\<sigma>', b', n')" "files \<sigma> f = Some S" "open_inv S" "STREAM_IS_READING S" "\<not> STREAM_HAS_UNGOT S"
  shows "\<exists>S'. files \<sigma>' f = Some S' \<and> open_inv S' \<and> STREAM_IS_READING S' \<and> \<not> STREAM_HAS_UNGOT S' \<and>
    (n' \<noteq> 0 \<longrightarrow> bufpos S' = bufread S')"
proof -
  note d = open_invD [OF assms(3)]
  have le: "bufpos S \<le> bufread S" using d(9) assms(4) by (auto simp: flag_simps)
  have "bufread S - bufpos S < 2 ^ 64" using d(3,6,14) by linarith
  then have sz: "size_t (BUFFER_RAVAIL S) = bufread S - bufpos S" unfolding BUFFER_RAVAIL_def using le by (rule size_t_exact [rotated])
  show ?thesis
  proof (cases "bufpos S < bufread S")
    case False
    then have "\<sigma>' = \<sigma>" using assms(1,2) sz by (simp add: fread_buffered_def)
    then show ?thesis using assms(2-5) le False by simp
  next
    case True
    let ?a = "min (bufread S - bufpos S) n"
    obtain m where "\<sigma>' = put (\<sigma>\<lparr>memory := m\<rparr>) f (S\<lparr>bufpos := bufpos S + ?a\<rparr>)" "n' = n - ?a"
      using assms(1,2) sz True by (auto simp: fread_buffered_def Let_def Option.bind_eq_Some_conv)
    moreover have "open_inv (S\<lparr>bufpos := bufpos S + ?a\<rparr>)" using True by (intro inv_skip [OF assms(3)]) auto
    moreover have "n - ?a \<noteq> 0 \<longrightarrow> bufpos S + ?a = bufread S" using True by auto
    ultimately show ?thesis using assms(4,5) by (simp add: flag_simps)
  qed
qed

lemma fread_loop_inv:
  "fread_loop h \<sigma> f b n = Some y \<Longrightarrow> reads_bounded h \<Longrightarrow> files \<sigma> f = Some S \<Longrightarrow> open_inv S \<Longrightarrow> bufpos S = bufread S \<Longrightarrow>
     \<not> STREAM_HAS_UNGOT S \<Longrightarrow> STREAM_IS_READING S \<Longrightarrow> inv_at (snd y) f"
proof (induction arbitrary: S rule: fread_loop.raw_induct [rotated 1, consumes 1, case_names step])
  case (step loop h \<sigma> f b n y)
  obtain k \<sigma>1 where r: "stdio_READ h \<sigma> f b n = Some (k, \<sigma>1)"
      "(if k > 0 then if n - k = 0 then Some (0, \<sigma>1) else loop h \<sigma>1 f (b + k) (n - k) else Some (n, \<sigma>1)) = Some y"
    using step(2) by (auto simp: Option.bind_eq_Some_conv)
  obtain S' where S': "files \<sigma>1 f = Some S'" "open_inv S'" "bufpos S' = bufread S'" "STREAM_IS_READING S'" "\<not> STREAM_HAS_UNGOT S'"
    using READ_inv [OF step(3) r(1) step(4-8)] by blast
  show ?case
  proof (cases "k > 0 \<and> n - k \<noteq> 0")
    case True
    then have "loop h \<sigma>1 f (b + k) (n - k) = Some y" using r(2) by simp
    then show ?thesis by (rule step(1) [OF _ step(3) S'(1-3,5,4)])
  next
    case False
    then have "snd y = \<sigma>1" using r(2) by (auto split: if_splits)
    then show ?thesis using S'(1,2) by (auto simp: inv_at_def)
  qed
qed

lemma fread_bytes_inv:
  assumes "fread_bytes h \<sigma> p n f = Some (k, \<sigma>')" "reads_bounded h" "files \<sigma> f = Some S" "open_inv S" "STREAM_IS_READING S"
  shows "inv_at \<sigma>' f"
proof -
  obtain \<sigma>1 b1 n1 where u: "fread_ungots \<sigma> f p n = Some (\<sigma>1, b1, n1)"
    using assms(1) by (auto simp: fread_bytes_def Option.bind_eq_Some_conv)
  obtain S1 where S1: "files \<sigma>1 f = Some S1" "open_inv S1" "STREAM_IS_READING S1" "n1 \<noteq> 0 \<longrightarrow> \<not> STREAM_HAS_UNGOT S1"
    using fread_ungots_inv [OF u assms(3-5)] by auto
  show ?thesis
  proof (cases "n1 = 0")
    case True
    then show ?thesis using assms(1) u S1(1,2) by (auto simp: fread_bytes_def inv_at_def)
  next
    case n1: False
    obtain \<sigma>2 b2 n2 where v: "fread_buffered \<sigma>1 f b1 n1 = Some (\<sigma>2, b2, n2)"
      using assms(1) u n1 by (auto simp: fread_bytes_def Option.bind_eq_Some_conv)
    obtain S2 where S2: "files \<sigma>2 f = Some S2" "open_inv S2" "STREAM_IS_READING S2" "\<not> STREAM_HAS_UNGOT S2"
        "n2 \<noteq> 0 \<longrightarrow> bufpos S2 = bufread S2"
      using fread_buffered_inv [OF v S1(1-3)] S1(4) n1 by auto
    show ?thesis
    proof (cases "n2 = 0")
      case True
      then show ?thesis using assms(1) u n1 v S2(1,2) by (auto simp: fread_bytes_def inv_at_def)
    next
      case n2: False
      obtain \<sigma>3 where w: "(if STREAM_IS_FBF S2 then Some \<sigma>2 else FLUSH_LBF_STREAMS h \<sigma>2) = Some \<sigma>3"
          "fread_loop h \<sigma>3 f b2 n2 = Some (k, \<sigma>')"
        using assms(1) u n1 v n2 S2(1) by (auto simp: fread_bytes_def Option.bind_eq_Some_conv)
      have "\<not> STREAM_IS_WRITING S2" using S2(3) open_invD(9) [OF S2(2)] by (auto simp: flag_simps)
      then have "files \<sigma>3 f = Some S2"
        using w(1) S2(1,2) flush_list_inv [of h \<sigma>2 0 "stdio_openlist \<sigma>2" 0 _ f S2]
        by (cases "STREAM_IS_FBF S2") (auto simp: FLUSH_LBF_STREAMS_def)
      then show ?thesis using fread_loop_inv [OF w(2) assms(2) _ S2(2) _ S2(4,3)] S2(5) n2 by simp
    qed
  qed
qed

lemma fread_inv:
  assumes "fread_unlocked h \<sigma>0 p sz n f = Some (r, \<sigma>')" "reads_bounded h" "inv_at \<sigma>0 f"
  shows "inv_at \<sigma>' f"
proof -
  obtain ok \<sigma> where rd: "ready_to_read \<sigma>0 f = Some (ok, \<sigma>)"
    using assms(1) by (auto simp: fread_unlocked_def Option.bind_eq_Some_conv)
  obtain S where S: "files \<sigma> f = Some S" "open_inv S" "ok \<longrightarrow> STREAM_IS_READING S"
    using ready_to_read_inv [OF rd assms(3)] by blast
  consider "\<not> (ok \<and> sz \<noteq> 0 \<and> n \<noteq> 0)" | "ok \<and> sz \<noteq> 0 \<and> n \<noteq> 0" "\<not> n \<le> SIZE_MAX div sz" | "ok \<and> sz \<noteq> 0 \<and> n \<noteq> 0" "n \<le> SIZE_MAX div sz"
    by blast
  then show ?thesis
  proof cases
    case 1
    then have "\<sigma>' = \<sigma>" using assms(1) rd by (auto simp: fread_unlocked_def split: if_splits)
    then show ?thesis using S by (auto simp: inv_at_def)
  next
    case 2
    then have "files \<sigma>' f = Some (set_flag FLAG_ERROR S)" using assms(1) rd S(1) by (auto simp: fread_unlocked_def)
    then show ?thesis using inv_error [OF S(2)] by (simp add: inv_at_def)
  next
    case 3
    then obtain k where "fread_bytes h \<sigma> p (sz * n) f = Some (k, \<sigma>')"
      using assms(1) rd by (auto simp: fread_unlocked_def Option.bind_eq_Some_conv)
    then show ?thesis using assms(2) S 3(1) by (intro fread_bytes_inv) simp_all
  qed
qed

lemma fgets_loop_inv:
  "fgets_loop h \<sigma> p n f = Some (q, \<sigma>') \<Longrightarrow> reads_bounded h \<Longrightarrow> inv_at \<sigma> f \<Longrightarrow> inv_at \<sigma>' f"
proof (induction h \<sigma> p n f arbitrary: q \<sigma>' rule: fgets_loop.induct)
  case (2 h \<sigma> p n f)
  show ?case
  proof (cases "n = 0")
    case True
    then show ?thesis using 2 by simp
  next
    case False
    then obtain c \<sigma>1 where c: "fgetc_unlocked h \<sigma> f = Some (c, \<sigma>1)" using 2(2) by (auto simp: Option.bind_eq_Some_conv)
    have i: "inv_at \<sigma>1 f" by (rule fgetc_inv [OF 2(3) c 2(4)])
    show ?thesis
    proof (cases "c = EOF")
      case True
      then show ?thesis using 2(2) False c i by (auto simp: Option.bind_eq_Some_conv)
    next
      case c': False
      obtain m where m: "store (memory \<sigma>1) p (word_of_int c) = Some m"
          "(if (word_of_int c :: byte) = newline then Some (Some (p + 1), \<sigma>1\<lparr>memory := m\<rparr>)
            else fgets_loop h (\<sigma>1\<lparr>memory := m\<rparr>) (p + 1) n f) = Some (q, \<sigma>')"
        using 2(2) False c c' by (auto simp: Let_def Option.bind_eq_Some_conv)
      show ?thesis
      proof (cases "(word_of_int c :: byte) = newline")
        case True
        then show ?thesis using m(2) i by auto
      next
        case nl: False
        then have "fgets_loop h (\<sigma>1\<lparr>memory := m\<rparr>) (p + 1) n f = Some (q, \<sigma>')" using m(2) by simp
        then show ?thesis using 2(1) [OF False c refl c' m(1) refl nl] 2(3) i by simp
      qed
    qed
  qed
qed simp

lemma fgets_inv:
  assumes "fgets_unlocked h \<sigma> p n f = Some (r, \<sigma>')" "reads_bounded h" "inv_at \<sigma> f"
  shows "inv_at \<sigma>' f"
proof (cases "n \<le> 0")
  case True
  then show ?thesis using assms by (simp add: fgets_unlocked_def)
next
  case False
  then obtain q \<sigma>1 where q: "fgets_loop h \<sigma> p (nat n) f = Some (q, \<sigma>1)"
    using assms(1) by (auto simp: fgets_unlocked_def Option.bind_eq_Some_conv)
  have "inv_at \<sigma>1 f" by (rule fgets_loop_inv [OF q assms(2,3)])
  then show ?thesis
    using assms(1) False q by (auto simp: fgets_unlocked_def Option.bind_eq_Some_conv split: option.splits if_splits)
qed

section \<open>Writing a character\<close>

lemma ready_to_write_inv:
  assumes "ready_to_write \<sigma> f = Some (ok, \<sigma>')" "files \<sigma> f = Some S" "open_inv S" "\<not> FEOF_UNLOCKED S"
  shows "\<exists>S'. files \<sigma>' f = Some S' \<and> open_inv S' \<and> (ok \<longrightarrow> STREAM_IS_WRITING S')"
proof -
  consider "STREAM_IS_WRITING S" | "\<not> STREAM_IS_WRITING S" "STREAM_IS_READONLY S \<or> STREAM_IS_READING S"
    | "\<not> STREAM_IS_WRITING S" "\<not> STREAM_IS_READONLY S" "\<not> STREAM_IS_READING S" by blast
  then show ?thesis
  proof cases
    case 1
    then show ?thesis using assms by (auto simp: ready_to_write_def)
  next
    case 2
    then have "\<sigma>' = put (\<sigma>\<lparr>errno := EBADF\<rparr>) f (set_flag FLAG_ERROR S)" "\<not> ok"
      using assms by (auto simp: ready_to_write_def stdio_trans2w_def Let_def split: if_splits)
    then show ?thesis using inv_error [OF assms(3)] by simp
  next
    case 3
    then have "\<sigma>' = put \<sigma> f (set_flag FLAG_WRITING S)"
      using assms by (auto simp: ready_to_write_def stdio_trans2w_def Let_def split: if_splits)
    then show ?thesis using inv_writing [OF assms(3) 3(3,2) assms(4)] by (simp add: flag_simps bit_simps)
  qed
qed

lemma wcommit_inv:
  assumes "stdio_wcommit h \<sigma> f = Some (n, \<sigma>')" "files \<sigma> f = Some S" "open_inv S" "STREAM_IS_WRITING S"
  shows "\<exists>S'. files \<sigma>' f = Some S' \<and> open_inv S' \<and> STREAM_IS_WRITING S' \<and> bufend S' = bufend S \<and> bufstart S' = bufstart S \<and>
    (n = 0 \<longleftrightarrow> bufpos S' = bufstart S)"
proof -
  obtain S' where S': "files \<sigma>' f = Some S'" "open_inv S'" "STREAM_IS_WRITING S'" "bufend S' = bufend S" "bufstart S' = bufstart S"
    using writes_back_inv [OF wcommit_back(1) [OF assms(1)] assms(2-4)] by blast
  have n: "n = size_t (BUFFER_WUSED S')" using wcommit_back(2) [OF assms(1)] S'(1) by auto
  have "n = 0 \<longleftrightarrow> bufpos S' = bufstart S'"
    using size_t_zero [OF S'(2)] unfolding n by (auto simp: BUFFER_WUSED_def size_t_def)
  then show ?thesis using S' by auto
qed

lemma ADD_inv:
  assumes "BUFFER_ADD \<sigma> f c = Some \<sigma>'" "files \<sigma> f = Some S" "open_inv S" "STREAM_IS_WRITING S" "bufpos S < bufend S"
  shows "\<exists>S'. files \<sigma>' f = Some S' \<and> open_inv S' \<and> STREAM_IS_WRITING S'"
proof -
  have "files \<sigma>' f = Some (S\<lparr>bufpos := bufpos S + 1\<rparr>)"
    using assms(1,2) by (auto simp: BUFFER_ADD_def Option.bind_eq_Some_conv)
  moreover have "open_inv (S\<lparr>bufpos := bufpos S + 1\<rparr>)"
    using inv_written [OF assms(3,4), of "bufpos S + 1"] assms(5) open_invD(3) [OF assms(3)] by simp
  ultimately show ?thesis using assms(4) by (simp add: flag_simps)
qed

lemma commit_or_unadd_inv:
  assumes "stdio_wcommit h \<sigma> f \<bind> (\<lambda>(pending, \<sigma>).
      if pending \<noteq> 0 then files \<sigma> f \<bind> (\<lambda>S. Some (EOF, put \<sigma> f (BUFFER_UNADD S))) else Some (c, \<sigma>)) = Some (r, \<sigma>')"
    and "files \<sigma> f = Some S" "open_inv S" "STREAM_IS_WRITING S"
  shows "inv_at \<sigma>' f"
proof -
  obtain n \<sigma>1 where c: "stdio_wcommit h \<sigma> f = Some (n, \<sigma>1)" using assms(1) by (auto simp: Option.bind_eq_Some_conv)
  obtain S' where S': "files \<sigma>1 f = Some S'" "open_inv S'" "STREAM_IS_WRITING S'" "bufend S' = bufend S" "bufstart S' = bufstart S"
      "n = 0 \<longleftrightarrow> bufpos S' = bufstart S"
    using wcommit_inv [OF c assms(2-4)] by blast
  show ?thesis
  proof (cases "n = 0")
    case True
    then show ?thesis using assms(1) c S'(1,2) by (auto simp: inv_at_def)
  next
    case False
    then have "open_inv (S'\<lparr>bufpos := bufpos S' - 1\<rparr>)"
      using S' open_invD(3,4) [OF S'(2)] by (intro inv_written) auto
    then show ?thesis using assms(1) c S'(1) False by (auto simp: inv_at_def BUFFER_UNADD_def)
  qed
qed

lemma fputc_inv:
  assumes "fputc_unlocked h \<sigma>0 c f = Some (r, \<sigma>')" "files \<sigma>0 f = Some S0" "open_inv S0" "\<not> FEOF_UNLOCKED S0"
  shows "inv_at \<sigma>' f"
proof -
  let ?c = "word_of_int c :: byte"
  obtain ok \<sigma> where rd: "ready_to_write \<sigma>0 f = Some (ok, \<sigma>)"
    using assms(1) by (auto simp: fputc_unlocked_def Let_def Option.bind_eq_Some_conv)
  obtain S where S: "files \<sigma> f = Some S" "open_inv S" "ok \<longrightarrow> STREAM_IS_WRITING S"
    using ready_to_write_inv [OF rd assms(2-4)] by blast
  note d = open_invD [OF S(2)]
  consider "\<not> ok \<or> IS_FAKE S" | (unbuffered) "ok" "\<not> IS_FAKE S" "BUFFER_SIZE S = 0" | (buffered) "ok" "\<not> IS_FAKE S" "BUFFER_SIZE S \<noteq> 0"
    by blast
  then show ?thesis
  proof cases
    case 1
    then show ?thesis using assms(1) rd S by (auto simp: fputc_unlocked_def Let_def inv_at_def split: if_splits)
  next
    case unbuffered
    then obtain m n where w: "stdio_WRITE h (\<sigma>\<lparr>memory := m\<rparr>) f (local_uc \<sigma>) 1 = Some (n, \<sigma>')"
      using assms(1) rd S(1) by (auto simp: fputc_unlocked_def Let_def Option.bind_eq_Some_conv)
    then obtain t where "stdio_WRITE_loop h (\<sigma>\<lparr>memory := m\<rparr>) f (local_uc \<sigma>) 1 = Some (t, \<sigma>')"
      by (auto simp: stdio_WRITE_def Option.bind_eq_Some_conv)
    from WRITE_loop_back [OF this] have wb: "writes_back \<sigma> f \<sigma>'" by (simp add: writes_back_cong)
    show ?thesis using writes_back_inv [OF wb S(1,2)] S(3) unbuffered(1) by (auto simp: inv_at_def)
  next
    case buffered
    have w: "STREAM_IS_WRITING S" using S(3) buffered(1) by simp
    obtain n \<sigma>1 where n: "(if BUFFER_WAVAIL S = 0 then stdio_wcommit h \<sigma> f else Some (0, \<sigma>)) = Some (n, \<sigma>1)"
      using assms(1) rd S(1) buffered by (auto simp: fputc_unlocked_def Let_def Option.bind_eq_Some_conv)
    have "\<exists>S1. files \<sigma>1 f = Some S1 \<and> open_inv S1 \<and> STREAM_IS_WRITING S1 \<and> (n = 0 \<longrightarrow> bufpos S1 < bufend S1)"
    proof (cases "BUFFER_WAVAIL S = 0")
      case True
      then obtain S1 where "files \<sigma>1 f = Some S1" "open_inv S1" "STREAM_IS_WRITING S1" "bufend S1 = bufend S"
          "n = 0 \<longleftrightarrow> bufpos S1 = bufstart S"
        using wcommit_inv [OF _ S(1,2) w] n by (metis (full_types))
      moreover have "bufstart S < bufend S" using buffered(3) d(3,4) by (simp add: BUFFER_SIZE_def)
      ultimately show ?thesis by auto
    next
      case False
      then show ?thesis using n S(1,2) w d(4) by (auto simp: BUFFER_WAVAIL_def)
    qed
    then obtain S1 where S1: "files \<sigma>1 f = Some S1" "open_inv S1" "STREAM_IS_WRITING S1" "n = 0 \<longrightarrow> bufpos S1 < bufend S1" by blast
    show ?thesis
    proof (cases "n = 0")
      case False
      then show ?thesis using assms(1) rd S(1) buffered n S1 by (auto simp: fputc_unlocked_def Let_def inv_at_def)
    next
      case True
      then obtain \<sigma>2 where a: "BUFFER_ADD \<sigma>1 f ?c = Some \<sigma>2"
        using assms(1) rd S(1) buffered n by (auto simp: fputc_unlocked_def Let_def Option.bind_eq_Some_conv)
      obtain S2 where S2: "files \<sigma>2 f = Some S2" "open_inv S2" "STREAM_IS_WRITING S2"
        using ADD_inv [OF a S1(1-3)] S1(4) True by blast
      have "(if IS_STD_STREAM S2 \<or> STREAM_IS_LBF S2 \<and> ?c = newline
          then stdio_wcommit h \<sigma>2 f \<bind> (\<lambda>(pending, \<sigma>).
            if pending \<noteq> 0 then files \<sigma> f \<bind> (\<lambda>S. Some (EOF, put \<sigma> f (BUFFER_UNADD S))) else Some (uint ?c, \<sigma>))
          else Some (uint ?c, \<sigma>2)) = Some (r, \<sigma>')"
        using assms(1) rd S(1) buffered n True a S2(1) by (simp add: fputc_unlocked_def Let_def)
      then show ?thesis
        using commit_or_unadd_inv [OF _ S2] S2 by (auto simp: inv_at_def split: if_splits)
    qed
  qed
qed

section \<open>Writing a block\<close>

text \<open>The invariant of a stream in writing state.\<close>

definition writing_at :: "'w stdio \<Rightarrow> addr \<Rightarrow> bool" where
  "writing_at \<sigma> f \<longleftrightarrow> (\<exists>S. files \<sigma> f = Some S \<and> open_inv S \<and> STREAM_IS_WRITING S)"

lemma writing_atI:
  assumes "files \<sigma> f = Some (S\<lparr>bufpos := p\<rparr>)" "open_inv S" "STREAM_IS_WRITING S" "bufstart S \<le> p" "p \<le> bufend S"
  shows "writing_at \<sigma> f"
  using assms inv_written [OF assms(2-5)] by (simp add: writing_at_def flag_simps)

lemma writing_WRITE:
  assumes "stdio_WRITE h \<sigma> f b n = Some (k, \<sigma>')" "writing_at \<sigma> f"
  shows "writing_at \<sigma>' f"
proof -
  obtain t where "stdio_WRITE_loop h \<sigma> f b n = Some (t, \<sigma>')"
    using assms(1) by (auto simp: stdio_WRITE_def Option.bind_eq_Some_conv)
  from WRITE_loop_back [OF this] show ?thesis
    using writes_back_inv [of \<sigma> f \<sigma>'] assms(2) by (fastforce simp: writing_at_def)
qed

lemma fwrite_commit_inv:
  assumes "fwrite_commit h \<sigma> b n f = Some (r, \<sigma>')" "writing_at \<sigma> f"
  shows "writing_at \<sigma>' f"
proof -
  obtain S where S: "files \<sigma> f = Some S" "open_inv S" "STREAM_IS_WRITING S" using assms(2) by (auto simp: writing_at_def)
  obtain k \<sigma>1 where c: "stdio_wcommit h \<sigma> f = Some (k, \<sigma>1)"
    using assms(1) by (auto simp: fwrite_commit_def Option.bind_eq_Some_conv)
  obtain S1 where S1: "files \<sigma>1 f = Some S1" "open_inv S1" "STREAM_IS_WRITING S1" using wcommit_inv [OF c S] by blast
  note d = open_invD [OF S1(2)]
  have "k = size_t (BUFFER_WUSED S1)" using wcommit_back(2) [OF c] S1(1) by auto
  then have k: "k \<le> bufpos S1 - bufstart S1" unfolding BUFFER_WUSED_def using size_t_le [OF d(3)] by simp
  consider "\<sigma>' = \<sigma>1" | i where "\<sigma>' = put \<sigma>1 f (S1\<lparr>bufpos := bufpos S1 - (min k n - i)\<rparr>)"
    using assms(1) c S1(1) by (fastforce simp: fwrite_commit_def Let_def Option.bind_eq_Some_conv split: if_splits option.splits)
  then show ?thesis
  proof cases
    case 1
    then show ?thesis using S1 by (auto simp: writing_at_def)
  next
    case 2
    then show ?thesis
      using k d(3,4) S1(2,3) by (intro writing_atI [where S = S1 and p = "bufpos S1 - (min k n - i)"]) auto
  qed
qed

lemma fwrite_buffer_inv:
  assumes "fwrite_buffer h \<sigma> b n f = Some (r, \<sigma>')" "files \<sigma> f = Some S" "open_inv S" "STREAM_IS_WRITING S"
    and "n \<le> size_t (BUFFER_WAVAIL S)"
  shows "writing_at \<sigma>' f"
proof -
  note d = open_invD [OF assms(3)]
  have n: "bufpos S + n \<le> bufend S" using assms(5) size_t_le [OF d(4)] d(4) by (simp add: BUFFER_WAVAIL_def)
  let ?S = "S\<lparr>bufpos := bufpos S + n\<rparr>"
  obtain m where m: "memcpy (memory \<sigma>) (bufpos S) b n = Some m"
    using assms(1,2) by (auto simp: fwrite_buffer_def Option.bind_eq_Some_conv)
  define \<sigma>1 where "\<sigma>1 = put (\<sigma>\<lparr>memory := m\<rparr>) f ?S"
  have w: "writing_at \<sigma>1 f" using n d(3) assms(3,4) by (intro writing_atI [where S = S and p = "bufpos S + n"]) (simp_all add: \<sigma>1_def)
  obtain c where "(if c then fwrite_commit h \<sigma>1 b n f else Some (n, \<sigma>1)) = Some (r, \<sigma>')"
    using assms(1,2) m unfolding \<sigma>1_def fwrite_buffer_def Let_def Option.bind_eq_Some_conv by auto
  then show ?thesis using fwrite_commit_inv [OF _ w] w by (cases c) auto
qed

lemma stdio_fwrite_inv:
  assumes "stdio_fwrite h \<sigma> b n f = Some (r, \<sigma>')" "writing_at \<sigma> f"
  shows "writing_at \<sigma>' f"
proof -
  obtain S where S: "files \<sigma> f = Some S" "open_inv S" "STREAM_IS_WRITING S" using assms(2) by (auto simp: writing_at_def)
  note d = open_invD [OF S(2)]
  consider (fake) "\<not> STREAM_IS_NBF S \<and> IS_FAKE S"
    | (fits) "\<not> (\<not> STREAM_IS_NBF S \<and> IS_FAKE S)" "\<not> STREAM_IS_NBF S \<and> n \<le> size_t (BUFFER_WAVAIL S)"
    | (large) "\<not> (\<not> STREAM_IS_NBF S \<and> IS_FAKE S)" "\<not> (\<not> STREAM_IS_NBF S \<and> n \<le> size_t (BUFFER_WAVAIL S))" by blast
  then show ?thesis
  proof cases
    case fake
    then obtain m where "\<sigma>' = put (\<sigma>\<lparr>memory := m\<rparr>) f (S\<lparr>bufpos := bufpos S + min (size_t (BUFFER_WAVAIL S)) n\<rparr>)"
      using assms(1) S(1) by (auto simp: stdio_fwrite_def Let_def Option.bind_eq_Some_conv)
    moreover have "size_t (BUFFER_WAVAIL S) \<le> bufend S - bufpos S" unfolding BUFFER_WAVAIL_def by (rule size_t_le [OF d(4)])
    ultimately show ?thesis
      using d(3,4) S(2,3) by (intro writing_atI [where S = S and p = "bufpos S + min (size_t (BUFFER_WAVAIL S)) n"]) auto
  next
    case fits
    then have "fwrite_buffer h \<sigma> b n f = Some (r, \<sigma>')" using assms(1) S(1) by (simp add: stdio_fwrite_def)
    then show ?thesis by (rule fwrite_buffer_inv [OF _ S fits(2) [THEN conjunct2]])
  next
    case large
    obtain k \<sigma>1 where c: "(if \<not> STREAM_IS_NBF S \<and> BUFFER_WUSED S \<noteq> 0 then stdio_wcommit h \<sigma> f else Some (0, \<sigma>)) = Some (k, \<sigma>1)"
        "(if k \<noteq> 0 then Some (0, \<sigma>1) else stdio_WRITE h \<sigma>1 f b n) = Some (r, \<sigma>')"
      using assms(1) unfolding stdio_fwrite_def S(1) Option.bind.bind_lunit if_not_P [OF large(1)] if_not_P [OF large(2)]
      by (auto simp: Option.bind_eq_Some_conv)
    have "writing_at \<sigma>1 f"
      using c(1) wcommit_inv [OF _ S, of h k \<sigma>1] assms(2) by (auto simp: writing_at_def split: if_splits)
    then show ?thesis using c(2) writing_WRITE by (cases "k = 0") auto
  qed
qed

text \<open>A stream that is not at its end, in whichever state.\<close>

definition inv_more :: "'w stdio \<Rightarrow> addr \<Rightarrow> bool" where
  "inv_more \<sigma> f \<longleftrightarrow> (\<exists>S. files \<sigma> f = Some S \<and> open_inv S \<and> \<not> FEOF_UNLOCKED S)"

lemma writing_more: "writing_at \<sigma> f \<Longrightarrow> inv_more \<sigma> f"
  using open_invD(10) by (fastforce simp: writing_at_def inv_more_def flag_simps)

lemma more_error: "inv_more \<sigma> f \<Longrightarrow> files \<sigma> f = Some S \<Longrightarrow> files \<sigma>' f = Some (set_flag FLAG_ERROR S) \<Longrightarrow> inv_more \<sigma>' f"
  using inv_error [of S] by (simp add: inv_more_def flag_simps bit_simps)

lemma ready_to_write_more:
  assumes "ready_to_write \<sigma> f = Some (ok, \<sigma>')" "inv_more \<sigma> f"
  shows "inv_more \<sigma>' f \<and> (ok \<longrightarrow> writing_at \<sigma>' f)"
proof -
  obtain S where S: "files \<sigma> f = Some S" "open_inv S" "\<not> FEOF_UNLOCKED S" using assms(2) by (auto simp: inv_more_def)
  obtain S' where S': "files \<sigma>' f = Some S'" "open_inv S'" "ok \<longrightarrow> STREAM_IS_WRITING S'"
    using ready_to_write_inv [OF assms(1) S] by blast
  show ?thesis
  proof (cases ok)
    case True
    then show ?thesis using S' writing_more [of \<sigma>' f] by (auto simp: writing_at_def)
  next
    case False
    then have "files \<sigma>' f = Some (set_flag FLAG_ERROR S)"
      using assms(1) S(1) by (auto simp: ready_to_write_def stdio_trans2w_def Let_def split: if_splits)
    then show ?thesis using more_error [OF assms(2) S(1)] False by blast
  qed
qed

lemma fwrite_inv:
  assumes "fwrite_unlocked h \<sigma>0 b sz n f = Some (r, \<sigma>')" "inv_more \<sigma>0 f"
  shows "inv_more \<sigma>' f"
proof -
  obtain ok \<sigma> where rd: "ready_to_write \<sigma>0 f = Some (ok, \<sigma>)"
    using assms(1) by (auto simp: fwrite_unlocked_def Option.bind_eq_Some_conv)
  have i: "inv_more \<sigma> f" "ok \<longrightarrow> writing_at \<sigma> f" using ready_to_write_more [OF rd assms(2)] by blast+
  consider "\<not> (ok \<and> sz \<noteq> 0 \<and> n \<noteq> 0)" | "ok \<and> sz \<noteq> 0 \<and> n \<noteq> 0" "\<not> n \<le> SIZE_MAX div sz" | "ok \<and> sz \<noteq> 0 \<and> n \<noteq> 0" "n \<le> SIZE_MAX div sz"
    by blast
  then show ?thesis
  proof cases
    case 1
    then have "\<sigma>' = \<sigma>" using assms(1) rd by (auto simp: fwrite_unlocked_def split: if_splits)
    then show ?thesis using i(1) by simp
  next
    case 2
    obtain S where S: "files \<sigma> f = Some S" using i(1) by (auto simp: inv_more_def)
    then have "files \<sigma>' f = Some (set_flag FLAG_ERROR S)" using assms(1) rd 2 by (auto simp: fwrite_unlocked_def)
    then show ?thesis by (rule more_error [OF i(1) S])
  next
    case 3
    then obtain k where "stdio_fwrite h \<sigma> b (sz * n) f = Some (k, \<sigma>')"
      using assms(1) rd by (auto simp: fwrite_unlocked_def Option.bind_eq_Some_conv)
    then show ?thesis using stdio_fwrite_inv i(2) 3(1) writing_more by blast
  qed
qed

lemma fputs_inv: "fputs_unlocked h \<sigma> s f = Some (r, \<sigma>') \<Longrightarrow> inv_more \<sigma> f \<Longrightarrow> inv_more \<sigma>' f"
  using fwrite_inv by (fastforce simp: fputs_unlocked_def Option.bind_eq_Some_conv)

lemma inv_more_at: "inv_more \<sigma> f \<Longrightarrow> inv_at \<sigma> f"
  by (auto simp: inv_more_def inv_at_def)

lemma puts_inv:
  assumes "puts h \<sigma> s f = Some (r, \<sigma>')" "inv_more \<sigma> f"
  shows "inv_at \<sigma>' f"
proof -
  obtain n \<sigma>1 where p: "fputs_unlocked h \<sigma> s f = Some (n, \<sigma>1)" using assms(1) by (auto simp: puts_def Option.bind_eq_Some_conv)
  have i: "inv_more \<sigma>1 f" by (rule fputs_inv [OF p assms(2)])
  show ?thesis
  proof (cases "n = EOF")
    case True
    then show ?thesis using assms(1) p inv_more_at [OF i] by (simp add: puts_def)
  next
    case False
    then obtain c where "fputc_unlocked h \<sigma>1 10 f = Some (c, \<sigma>')"
      using assms(1) p by (auto simp: puts_def Option.bind_eq_Some_conv split: if_splits)
    then show ?thesis using fputc_inv i by (auto simp: inv_more_def)
  qed
qed

section \<open>Lines\<close>

lemma gets_loop_inv:
  "gets_loop h \<sigma> p f = Some y \<Longrightarrow> reads_bounded h \<Longrightarrow> inv_at \<sigma> f \<Longrightarrow> inv_at (snd (snd y)) f"
proof (induction rule: gets_loop.raw_induct [rotated 1, consumes 1, case_names step])
  case (step loop h \<sigma> p f y)
  obtain c \<sigma>1 where c: "fgetc_unlocked h \<sigma> f = Some (c, \<sigma>1)" using step(2) by (auto simp: Option.bind_eq_Some_conv)
  have i: "inv_at \<sigma>1 f" by (rule fgetc_inv [OF step(3) c step(4)])
  show ?case
  proof (cases "c = EOF")
    case True
    then show ?thesis using step(2) c i by auto
  next
    case False
    then obtain m where m: "(if (word_of_int c :: byte) = newline then Some (c, p, \<sigma>1\<lparr>memory := m\<rparr>)
        else loop h (\<sigma>1\<lparr>memory := m\<rparr>) (p + 1) f) = Some y"
      using step(2) c by (auto simp: Let_def Option.bind_eq_Some_conv)
    then show ?thesis using step(1) [of h "\<sigma>1\<lparr>memory := m\<rparr>" "p + 1" f y] step(3) i by (auto split: if_splits)
  qed
qed

lemma gets_inv:
  assumes "gets h \<sigma> s f = Some (r, \<sigma>')" "reads_bounded h" "inv_at \<sigma> f"
  shows "inv_at \<sigma>' f"
proof -
  obtain c p \<sigma>1 where g: "gets_loop h \<sigma> s f = Some (c, p, \<sigma>1)" using assms(1) by (auto simp: gets_def Option.bind_eq_Some_conv)
  have "inv_at \<sigma>1 f" using gets_loop_inv [OF g assms(2,3)] by simp
  then show ?thesis using assms(1) g by (auto simp: gets_def Option.bind_eq_Some_conv split: if_splits)
qed

lemma realloc_files: "realloc k \<sigma> p n = (q, \<sigma>') \<Longrightarrow> files \<sigma>' = files \<sigma>"
  by (auto simp: realloc_def split: prod.splits)

lemma getdelim_loop_inv:
  "getdelim_loop k h \<sigma> line n delim f pos = Some y \<Longrightarrow> reads_bounded h \<Longrightarrow> inv_at \<sigma> f \<Longrightarrow> inv_at (snd (snd (snd y))) f"
proof (induction rule: getdelim_loop.raw_induct [rotated 1, consumes 1, case_names step])
  case (step loop k h \<sigma> line n delim f pos y)
  obtain buf \<sigma>1 where b: "(if pos \<ge> n then realloc k \<sigma> line (n + 64) else (line, \<sigma>)) = (buf, \<sigma>1)" by fastforce
  have "files \<sigma>1 = files \<sigma>" using b realloc_files by (cases "pos \<ge> n") auto
  then have i: "inv_at \<sigma>1 f" using step(4) by (simp add: inv_at_def)
  show ?case
  proof (cases "buf = NULL")
    case True
    then show ?thesis using step(2) b i by auto
  next
    case buf: False
    define n' where "n' = (if pos \<ge> n then n + 64 else n)"
    obtain c \<sigma>2 where c: "fgetc_unlocked h \<sigma>1 f = Some (c, \<sigma>2)"
      using step(2) b buf by (auto simp: Let_def Option.bind_eq_Some_conv)
    have i2: "inv_at \<sigma>2 f" by (rule fgetc_inv [OF step(3) c i])
    obtain pos' \<sigma>3 where s: "(if c \<noteq> EOF
         then do { m \<leftarrow> store (memory \<sigma>2) (buf + (pos - 1)) (word_of_int c); Some (pos + 1, \<sigma>2\<lparr>memory := m\<rparr>) }
         else Some (pos, \<sigma>2)) = Some (pos', \<sigma>3)"
      "(if c \<noteq> EOF \<and> c \<noteq> delim then loop k h \<sigma>3 buf n' delim f pos'
       else if 2 \<le> pos' then do {
         m \<leftarrow> store (memory \<sigma>3) (buf + (pos' - 1)) 0;
         Some (int pos' - 1, buf, n', \<sigma>3\<lparr>memory := m\<rparr>) }
       else Some (int pos' - 2, buf, n', \<sigma>3)) = Some y"
    proof -
      have "(do { (c, \<sigma>) \<leftarrow> fgetc_unlocked h \<sigma>1 f;
          (pos, \<sigma>) \<leftarrow> (if c \<noteq> EOF
            then do { m \<leftarrow> store (memory \<sigma>) (buf + (pos - 1)) (word_of_int c); Some (pos + 1, \<sigma>\<lparr>memory := m\<rparr>) }
            else Some (pos, \<sigma>));
          if c \<noteq> EOF \<and> c \<noteq> delim then loop k h \<sigma> buf n' delim f pos
          else if 2 \<le> pos then do {
            m \<leftarrow> store (memory \<sigma>) (buf + (pos - 1)) 0;
            Some (int pos - 1, buf, n', \<sigma>\<lparr>memory := m\<rparr>) }
          else Some (int pos - 2, buf, n', \<sigma>) }) = Some y"
        using step(2) unfolding b Let_def prod.case if_not_P [OF buf] n'_def .
      then show thesis using that unfolding c Option.bind.bind_lunit prod.case Option.bind_eq_Some_conv by fast
    qed
    have i3: "inv_at \<sigma>3 f" using s(1) i2 by (cases "c = EOF") (auto simp: Option.bind_eq_Some_conv)
    show ?thesis
    proof (cases "c \<noteq> EOF \<and> c \<noteq> delim")
      case True
      then have "loop k h \<sigma>3 buf n' delim f pos' = Some y" using s(2) by simp
      then show ?thesis by (rule step(1) [OF _ step(3) i3])
    next
      case False
      then show ?thesis using s(2) i3 by (auto simp: Option.bind_eq_Some_conv split: if_splits)
    qed
  qed
qed

lemma getdelim_inv:
  assumes "getdelim k h \<sigma> lineptr n delim f = Some (r, l, n', \<sigma>')" "reads_bounded h" "inv_at \<sigma> f"
  shows "inv_at \<sigma>' f"
proof (cases "lineptr = None \<or> n = None \<or> f = NULL")
  case True
  then show ?thesis using assms(1,3) by (auto simp: getdelim_def inv_at_def split: option.splits)
next
  case False
  then obtain line m where "lineptr = Some line" "n = Some m" "f \<noteq> NULL" by auto
  then obtain q where "getdelim_loop k h \<sigma> line (if line = NULL then 0 else m) delim f 1 = Some q" "\<sigma>' = snd (snd (snd q))"
    using assms(1) by (auto simp: getdelim_def Option.bind_eq_Some_conv)
  then show ?thesis using getdelim_loop_inv [OF _ assms(2,3)] by blast
qed

section \<open>Moving and buffering\<close>

lemma fseek_inv:
  assumes "fseek h \<sigma> f off whence = Some (r, \<sigma>')" "inv_at \<sigma> f"
  shows "inv_at \<sigma>' f"
proof (cases "whence < 0 \<or> 2 < whence")
  case True
  then show ?thesis using assms by (auto simp: fseek_def inv_at_def)
next
  case False
  obtain S where S: "files \<sigma> f = Some S" "open_inv S" using assms(2) by (auto simp: inv_at_def)
  obtain n \<sigma>1 where c: "(if STREAM_IS_WRITING S then stdio_wcommit h \<sigma> f else Some (0, \<sigma>)) = Some (n, \<sigma>1)"
    using assms(1) S(1) False by (auto simp: fseek_def Option.bind_eq_Some_conv)
  have "\<exists>S1. files \<sigma>1 f = Some S1 \<and> open_inv S1"
    using c wcommit_inv [OF _ S, of h n \<sigma>1] S by (cases "STREAM_IS_WRITING S") auto
  then obtain S1 where S1: "files \<sigma>1 f = Some S1" "open_inv S1" by blast
  show ?thesis
  proof (cases "n = 0")
    case n: False
    then show ?thesis using assms(1) S(1) False c S1 by (simp add: fseek_def inv_at_def)
  next
    case n: True
    obtain rv pos \<sigma>2 where a: "(if whence = 1 then stdio_adjust_position \<sigma>1 f off else Some (0, off, \<sigma>1)) = Some (rv, pos, \<sigma>2)"
      using assms(1) S(1) False c n by (auto simp: fseek_def Option.bind_eq_Some_conv)
    have f2: "files \<sigma>2 = files \<sigma>1"
      using a by (auto simp: stdio_adjust_position_def Let_def Option.bind_eq_Some_conv split: if_splits)
    show ?thesis
    proof (cases "rv < 0")
      case True
      then show ?thesis using assms(1) S(1) False c n a S1 f2 by (simp add: fseek_def inv_at_def)
    next
      case rv: False
      obtain rv' pos' \<sigma>3 where k: "stdio_seek h \<sigma>2 f pos whence = Some (rv', pos', \<sigma>3)"
        using assms(1) S(1) False c n a rv by (auto simp: fseek_def Option.bind_eq_Some_conv)
      have f3: "files \<sigma>3 = files \<sigma>2"
        using k by (auto simp: stdio_seek_def Let_def case_prod_unfold Option.bind_eq_Some_conv split: if_splits)
      show ?thesis
      proof (cases "rv' < 0")
        case True
        then show ?thesis using assms(1) S(1) False c n a rv k S1 f2 f3 by (simp add: fseek_def inv_at_def)
      next
        case nr: False
        have "files \<sigma>3 f = Some S1" using S1(1) f2 f3 by simp
        then show ?thesis
          using assms(1) S(1) False c n a rv k nr inv_reset [OF S1(2)] by (auto simp: fseek_def inv_at_def)
      qed
    qed
  qed
qed

lemma idle_inv:
  assumes "0 \<le> user_locking S" "user_locking S \<le> 2" "- 3 < filedes S"
    and "\<not> (bit (modeflags S) 4 \<and> bit (modeflags S) 5)" "\<not> (bit (modeflags S) 8 \<and> bit (modeflags S) 9)"
    and "bit (modeflags S) 9 \<longrightarrow> bufstart S = bufend S" "buflen S < 2 ^ 64" "bufstart S \<le> bufend S"
    and "bufpos S = bufstart S" "bufread S = bufstart S"
    and "\<not> bit (modeflags S) 0" "\<not> bit (modeflags S) 1" "\<not> bit (modeflags S) 2" "\<not> bit (modeflags S) 6"
  shows "open_inv S"
  unfolding open_inv_def using assms by simp

text \<open>The flags after the new mode is set.\<close>

lemma mode_bits:
  assumes "0 \<le> mode" "mode \<le> 2" "k < 10"
  shows "bit (modeflags (set_flag (of_int mode * FLAG_LBF) (clear_flag MASK_BUFMODE S))) k =
    (if k = 8 then mode = 1 else if k = 9 then mode = 2 else bit (modeflags S) k)"
proof -
  have m: "bit (NOT 0x300 :: 16 word) k \<longleftrightarrow> k \<noteq> 8 \<and> k \<noteq> 9"
    using bit_not_iff [of "0x300 :: 16 word" k] assms(3) by (simp add: bit_consts del: bit_numeral_word_iff)
  consider "mode = 0" | "mode = 1" | "mode = 2" using assms(1,2) by linarith
  then have "bit (of_int mode * FLAG_LBF) k \<longleftrightarrow> k = 8 \<and> mode = 1 \<or> k = 9 \<and> mode = 2"
    by cases (simp_all add: bit_consts del: bit_numeral_word_iff)
  then show ?thesis using m by (auto simp: set_flag_def clear_flag_def bit_or_iff bit_and_iff simp del: bit_numeral_word_iff)
qed

lemma freebuf_bits:
  assumes "j < 10"
  shows "bit (modeflags (clear_flag FLAG_FREEBUF S)) j = bit (modeflags S) j"
    and "bit (modeflags (set_flag FLAG_FREEBUF S)) j = bit (modeflags S) j"
proof -
  have "bit (2 ^ i :: 16 word) j \<longleftrightarrow> j = i" if "i < 16" for i using that by (auto simp: bit_exp_iff)
  from this [of 14] have e: "\<not> bit (0x4000 :: 16 word) j" using assms by simp
  then have "bit (NOT 0x4000 :: 16 word) j" using bit_not_iff [of "0x4000 :: 16 word" j] assms by (simp del: bit_numeral_word_iff)
  then show "bit (modeflags (clear_flag FLAG_FREEBUF S)) j = bit (modeflags S) j"
    by (simp add: clear_flag_def bit_and_iff del: bit_numeral_word_iff)
  show "bit (modeflags (set_flag FLAG_FREEBUF S)) j = bit (modeflags S) j"
    using e by (simp add: set_flag_def bit_or_iff del: bit_numeral_word_iff)
qed

lemma setvbuf_inv:
  assumes "setvbuf k \<sigma> f buf mode sz = Some (r, \<sigma>')" "inv_at \<sigma> f" "sz < 2 ^ 64"
  shows "inv_at \<sigma>' f"
proof -
  obtain S where S: "files \<sigma> f = Some S" "open_inv S" using assms(2) by (auto simp: inv_at_def)
  let ?busy = "any_of (modeflags S) (MASK_READING OR FLAG_WRITING OR FLAG_NARROW OR FLAG_WIDE OR FLAG_ERROR OR FLAG_EOF)"
  show ?thesis
  proof (cases "mode < 0 \<or> 2 < mode \<or> ?busy")
    case True
    then show ?thesis using assms(1,2) S(1) by (auto simp: setvbuf_def inv_at_def split: if_splits)
  next
    case False
    then have mode: "0 \<le> mode" "mode \<le> 2" "\<not> mode < 0" "\<not> 2 < mode" by simp_all
    have "\<not> ?busy" using False by blast
    then have "\<not> any_of (modeflags S) MASK_READING" "\<not> any_of (modeflags S) FLAG_WRITING" "\<not> any_of (modeflags S) FLAG_EOF"
      unfolding any_of_or by blast+
    then have n: "\<not> bit (modeflags S) 0" "\<not> bit (modeflags S) 1" "\<not> bit (modeflags S) 2" "\<not> bit (modeflags S) 6"
      by (simp_all add: flag_simps)
    define S1 where "S1 = set_flag (of_int mode * FLAG_LBF) (clear_flag MASK_BUFMODE S)"
    have s1: "user_locking S1 = user_locking S" "filedes S1 = filedes S" "bufstart S1 = bufstart S" "bufend S1 = bufend S"
        "bufpos S1 = bufpos S" "bufread S1 = bufread S" by (simp_all add: S1_def)
    have b1: "bit (modeflags S1) k = (if k = 8 then mode = 1 else if k = 9 then mode = 2 else bit (modeflags S) k)" if "k < 10" for k
      unfolding S1_def by (rule mode_bits [OF mode(1,2) that])
    have o: "0 \<le> user_locking S" "user_locking S \<le> 2" "- 3 < filedes S" "\<not> (bit (modeflags S) 4 \<and> bit (modeflags S) 5)"
        "buflen S < 2 ^ 64" "bufstart S \<le> bufend S" "bufpos S = bufstart S" "bufread S = bufstart S"
      using S(2) n unfolding open_inv_def by auto
    define new where "new = (if mode = 2 \<or> sz = 0 then (False, False, NULL, 0, \<sigma>)
             else if buf = NULL then
               if size_t (BUFFER_SIZE S1) = sz then (True, False, NULL, sz, \<sigma>)
               else (case malloc k \<sigma> sz of (p, \<sigma>) \<Rightarrow> (p = NULL, True, p, sz, \<sigma>))
             else (False, False, buf, sz, \<sigma>))"
    obtain skip alloc b z \<sigma>1 where new: "new = (skip, alloc, b, z, \<sigma>1)" by (cases new) auto
    have z: "files \<sigma>1 = files \<sigma>" "z < 2 ^ 64" "mode = 2 \<Longrightarrow> z = 0 \<and> \<not> skip"
      using new assms(3) unfolding new_def by (auto simp: malloc_def split: if_splits prod.splits)
    define S2 where "S2 = (if alloc then set_flag FLAG_FREEBUF (clear_flag FLAG_FREEBUF S1) else clear_flag FLAG_FREEBUF S1)"
    have r: "\<sigma>' = (if skip then put \<sigma>1 f S1 else put (STREAM_FREE_BUFFER k \<sigma>1 S1) f (INIT_BUFREAD_BUFPOS (S2\<lparr>bufstart := b, bufend := b + z\<rparr>)))"
      using assms(1) S(1) mode(3,4) False new unfolding new_def S1_def S2_def
      by (simp add: setvbuf_def Let_def split: if_splits)
    have "open_inv S1" if "skip"
      by (rule idle_inv) (use o n z(3) that in \<open>auto simp: s1 b1\<close>)
    moreover define S3 where "S3 = INIT_BUFREAD_BUFPOS (S2\<lparr>bufstart := b, bufend := b + z\<rparr>)"
    have b3: "bit (modeflags S3) j = bit (modeflags S1) j" if "j < 10" for j
    proof -
      have "modeflags S3 = modeflags S2" by (simp add: S3_def INIT_BUFREAD_BUFPOS_def)
      then show ?thesis unfolding S2_def by (cases alloc) (simp_all only: if_True if_False freebuf_bits [OF that])
    qed
    have s3: "user_locking S3 = user_locking S" "filedes S3 = filedes S" "bufstart S3 = b" "bufend S3 = b + z"
        "bufpos S3 = b" "bufread S3 = b"
      by (simp_all add: S3_def S2_def s1 INIT_BUFREAD_BUFPOS_def)
    have "open_inv S3"
      by (rule idle_inv) (use o n z in \<open>auto simp: s3 b3 b1\<close>)
    ultimately show ?thesis
      using r z(1) by (auto simp: inv_at_def S3_def)
  qed
qed

section \<open>Positions, flags and locks\<close>

lemma seek_files: "stdio_seek h \<sigma> f pos whence = Some (r, p, \<sigma>') \<Longrightarrow> files \<sigma>' = files \<sigma>"
  by (auto simp: stdio_seek_def Let_def case_prod_unfold Option.bind_eq_Some_conv split: if_splits)

lemma adjust_files: "stdio_adjust_position \<sigma> f pos = Some (r, p, \<sigma>') \<Longrightarrow> files \<sigma>' = files \<sigma>"
  by (auto simp: stdio_adjust_position_def Let_def Option.bind_eq_Some_conv split: if_splits)

lemma ftell_files:
  assumes "ftell h \<sigma> f = Some (r, \<sigma>')"
  shows "files \<sigma>' = files \<sigma>"
proof -
  obtain rv pos \<sigma>1 where s: "stdio_seek h \<sigma> f 0 1 = Some (rv, pos, \<sigma>1)"
    using assms by (auto simp: ftell_def Option.bind_eq_Some_conv)
  show ?thesis
  proof (cases "rv < 0")
    case True
    then show ?thesis using assms s seek_files [OF s] by (simp add: ftell_def)
  next
    case False
    then obtain rv' pos' where "stdio_adjust_position \<sigma>1 f pos = Some (rv', pos', \<sigma>')"
      using assms s by (auto simp: ftell_def Option.bind_eq_Some_conv)
    then show ?thesis using adjust_files seek_files [OF s] by metis
  qed
qed

text \<open>Flags that the invariant does not look at.\<close>

lemma inv_bits:
  assumes "open_inv S" "S' = S\<lparr>modeflags := m\<rparr>" "\<And>k. k \<in> {0, 1, 2, 4, 5, 6, 8, 9} \<Longrightarrow> bit m k = bit (modeflags S) k"
  shows "open_inv S'"
proof -
  have s: "user_locking S' = user_locking S" "filedes S' = filedes S" "bufstart S' = bufstart S" "bufend S' = bufend S"
      "bufpos S' = bufpos S" "bufread S' = bufread S" "ungot S' = ungot S" "modeflags S' = m"
    by (simp_all add: assms(2))
  have b: "bit m 0 = bit (modeflags S) 0" "bit m 1 = bit (modeflags S) 1" "bit m 2 = bit (modeflags S) 2"
      "bit m 4 = bit (modeflags S) 4" "bit m 5 = bit (modeflags S) 5" "bit m 6 = bit (modeflags S) 6"
      "bit m 8 = bit (modeflags S) 8" "bit m 9 = bit (modeflags S) 9"
    by (simp_all add: assms(3))
  show ?thesis using assms(1) unfolding open_inv_def s b .
qed

lemma inv_clear_error: "open_inv S \<Longrightarrow> open_inv (clear_flag FLAG_ERROR S)"
  by (rule inv_bits [where m = "modeflags S AND NOT FLAG_ERROR"]) (auto simp: clear_flag_def bit_and_iff bit_not_iff)

lemma rewind_inv:
  assumes "rewind h \<sigma> f = Some \<sigma>'" "inv_at \<sigma> f"
  shows "inv_at \<sigma>' f"
proof -
  obtain S where S: "files \<sigma> f = Some S" "open_inv S" using assms(2) by (auto simp: inv_at_def)
  then have "inv_at (put \<sigma> f (clear_flag FLAG_ERROR S)) f" using inv_clear_error by (simp add: inv_at_def)
  then show ?thesis
    using assms(1) S(1) fseek_inv [of h "put \<sigma> f (clear_flag FLAG_ERROR S)" f 0 0] by (auto simp: rewind_def Option.bind_eq_Some_conv)
qed

lemma inv_fwide:
  assumes "open_inv S"
  shows "open_inv (snd (fwide S mode))"
proof -
  have "open_inv (set_flag FLAG_WIDE S)" "open_inv (set_flag FLAG_NARROW S)"
    by (rule inv_bits [OF assms, where m = "modeflags S OR FLAG_WIDE"]; auto simp: set_flag_def bit_or_iff)
      (rule inv_bits [OF assms, where m = "modeflags S OR FLAG_NARROW"]; auto simp: set_flag_def bit_or_iff)
  then show ?thesis using assms by (auto simp: fwide_def Let_def)
qed

lemma inv_locking: "open_inv S \<Longrightarrow> 0 \<le> l \<Longrightarrow> l \<le> 2 \<Longrightarrow> open_inv (S\<lparr>user_locking := l\<rparr>)"
  unfolding open_inv_def by simp

lemma fsetlocking_inv:
  assumes "fsetlocking \<sigma> f mode = Some (r, \<sigma>')" "inv_at \<sigma> f" "0 \<le> stdio_user_locking \<sigma>" "stdio_user_locking \<sigma> \<le> 2"
  shows "inv_at \<sigma>' f"
  using assms inv_locking by (auto simp: fsetlocking_def inv_at_def Option.bind_eq_Some_conv split: if_splits)

section \<open>Opening\<close>

lemma open_flags:
  assumes "j < 10"
  shows "\<not> bit ((m AND FLAG_FREEFILE) OR (if c then FLAG_APPEND else 0) :: 16 word) j"
proof -
  have "bit (2 ^ i :: 16 word) j \<longleftrightarrow> j = i" if "i < 16" for i using that by (auto simp: bit_exp_iff)
  from this [of 13] this [of 10] have "\<not> bit (0x2000 :: 16 word) j" "\<not> bit (0x400 :: 16 word) j" using assms by simp_all
  then show ?thesis by (simp add: bit_or_iff bit_and_iff del: bit_numeral_word_iff)
qed

lemma open_init_inv:
  assumes "open_init k \<sigma> f m = Some (g, \<sigma>')" "files \<sigma> f = Some S" "bufstart S = NULL" "0 \<le> filedes S"
    and "0 \<le> stdio_user_locking \<sigma>" "stdio_user_locking \<sigma> \<le> 2"
  shows "g = f \<and> inv_at \<sigma>' f"
proof -
  define S1 where "S1 = S\<lparr>modeflags := (modeflags S AND FLAG_FREEFILE) OR (if m AND O_APPEND \<noteq> 0 then FLAG_APPEND else 0)\<rparr>"
  obtain S2 \<sigma>1 where b: "open_buffer k \<sigma> S1 = (S2, \<sigma>1)" by fastforce
  define S3 where "S3 = (INIT_BUFREAD_BUFPOS S2)\<lparr>user_locking := stdio_user_locking \<sigma>1, nextopen := stdio_openlist \<sigma>1\<rparr>"
  have r: "g = f" "\<sigma>' = (put \<sigma>1 f S3)\<lparr>stdio_openlist := f\<rparr>"
    using assms(1,2) b by (auto simp: open_init_def S1_def S3_def Let_def)
  have s2: "filedes S2 = filedes S" "stdio_user_locking \<sigma>1 = stdio_user_locking \<sigma>"
      "bufend S2 = bufstart S2 + BUFSIZ \<or> bufend S2 = bufstart S2 + 4" "S2 = S2\<lparr>modeflags := modeflags S2\<rparr>"
    using b assms(3) unfolding open_buffer_def S1_def by (auto simp: malloc_def split: if_splits prod.splits)
  have "modeflags S2 = modeflags S1 \<or> modeflags S2 = modeflags (set_flag FLAG_FREEBUF S1)"
    using b assms(3) unfolding open_buffer_def by (auto simp: malloc_def S1_def split: if_splits prod.splits)
  then have "bit (modeflags S2) j = bit (modeflags S1) j" if "j < 10" for j
    using freebuf_bits(2) [OF that, of S1] by (elim disjE) (simp_all only:)
  moreover have "\<not> bit (modeflags S1) j" if "j < 10" for j
    using open_flags [OF that] by (simp add: S1_def)
  ultimately have b3: "\<not> bit (modeflags S3) j" if "j < 10" for j
    using that by (simp add: S3_def INIT_BUFREAD_BUFPOS_def)
  have s3: "user_locking S3 = stdio_user_locking \<sigma>" "filedes S3 = filedes S" "bufstart S3 = bufstart S2" "bufend S3 = bufend S2"
      "bufpos S3 = bufstart S2" "bufread S3 = bufstart S2"
    using s2(1,2) by (simp_all add: S3_def INIT_BUFREAD_BUFPOS_def)
  have "open_inv S3"
    by (rule idle_inv) (use s2(3) assms(4-6) in \<open>auto simp: s3 b3\<close>)
  then show ?thesis using r by (simp add: inv_at_def)
qed

lemma open_descriptor_opened:
  assumes "open_descriptor k h \<sigma> f fm m fd = Some (Opened, \<sigma>')" "files \<sigma> f = Some S"
  shows "0 \<le> filedes (the (files \<sigma>' f)) \<and> files \<sigma>' f = Some (S\<lparr>filedes := filedes (the (files \<sigma>' f))\<rparr>) \<and>
    stdio_user_locking \<sigma>' = stdio_user_locking \<sigma>"
  using assms
  by (auto simp: open_descriptor_def Let_def case_prod_unfold split: if_splits)

lemma fopen_inv:
  assumes "stdio_fopen k h \<sigma> fm mode NULL fd = Some (f, \<sigma>')" "f \<noteq> NULL"
    and "0 \<le> stdio_user_locking \<sigma>" "stdio_user_locking \<sigma> \<le> 2"
  shows "inv_at \<sigma>' f"
proof -
  obtain m where m: "fopen_mode (memory \<sigma>) mode = Some m" using assms(1) by (auto simp: stdio_fopen_def Option.bind_eq_Some_conv)
  then obtain om where om: "m = Some om" using assms(1,2) by (cases m) (auto simp: stdio_fopen_def)
  obtain p \<sigma>1 where p: "malloc k \<sigma> (sizeof_FILE k) = (p, \<sigma>1)" by fastforce
  have l: "stdio_user_locking \<sigma>1 = stdio_user_locking \<sigma>" using p by (auto simp: malloc_def split: prod.splits)
  have pn: "p \<noteq> NULL" using assms(1,2) m om p by (cases "p = NULL") (auto simp: stdio_fopen_def)
  define S0 where "S0 = (raw_FILE k p)\<lparr>modeflags := FLAG_FREEFILE, bufstart := NULL\<rparr>"
  obtain oc \<sigma>2 where oc: "open_descriptor k h (put \<sigma>1 p S0) p fm om fd = Some (oc, \<sigma>2)"
    using assms(1) m om p pn by (auto simp: stdio_fopen_def S0_def Option.bind_eq_Some_conv)
  have o: "oc = Opened" using assms(1,2) m om p pn oc by (cases oc) (auto simp: stdio_fopen_def S0_def Option.bind_eq_Some_conv)
  define fd' where "fd' = filedes (the (files \<sigma>2 p))"
  have S: "0 \<le> fd'" "files \<sigma>2 p = Some (S0\<lparr>filedes := fd'\<rparr>)" "stdio_user_locking \<sigma>2 = stdio_user_locking \<sigma>"
    using open_descriptor_opened [OF oc [unfolded o]] l by (simp_all add: fd'_def)
  have i: "open_init k \<sigma>2 p om = Some (f, \<sigma>')" using assms(1) m om p pn oc o by (simp add: stdio_fopen_def S0_def)
  show ?thesis using open_init_inv [OF i S(2)] S(1,3) assms(3,4) by (auto simp: S0_def)
qed

section \<open>All uses of a stream\<close>

definition at_eof :: "'w stdio \<Rightarrow> addr \<Rightarrow> bool" where
  "at_eof \<sigma> f \<longleftrightarrow> (\<exists>S. files \<sigma> f = Some S \<and> FEOF_UNLOCKED S)"

text \<open>The states in which the stream \<open>f\<close> has been opened and then used in any order of calls.\<close>

inductive stream_used :: "'w system \<Rightarrow> 'w host \<Rightarrow> addr \<Rightarrow> 'w stdio \<Rightarrow> bool" for k :: "'w system" and h :: "'w host" and f :: addr where
  opened: "stdio_fopen k h \<sigma>0 fname_or_mode mode NULL fd = Some (f, \<sigma>) \<Longrightarrow> f \<noteq> NULL \<Longrightarrow>
    0 \<le> stdio_user_locking \<sigma>0 \<Longrightarrow> stdio_user_locking \<sigma>0 \<le> 2 \<Longrightarrow> stream_used k h f \<sigma>"
| getc: "stream_used k h f \<sigma> \<Longrightarrow> fgetc_unlocked h \<sigma> f = Some (c, \<sigma>') \<Longrightarrow> stream_used k h f \<sigma>'"
| unget: "stream_used k h f \<sigma> \<Longrightarrow> ungetc \<sigma> c f = Some (r, \<sigma>') \<Longrightarrow> stream_used k h f \<sigma>'"
| putc: "stream_used k h f \<sigma> \<Longrightarrow> \<not> at_eof \<sigma> f \<Longrightarrow> fputc_unlocked h \<sigma> c f = Some (r, \<sigma>') \<Longrightarrow> stream_used k h f \<sigma>'"
| get_block: "stream_used k h f \<sigma> \<Longrightarrow> fread_unlocked h \<sigma> p sz n f = Some (r, \<sigma>') \<Longrightarrow> stream_used k h f \<sigma>'"
| get_line: "stream_used k h f \<sigma> \<Longrightarrow> fgets_unlocked h \<sigma> p i f = Some (r, \<sigma>') \<Longrightarrow> stream_used k h f \<sigma>'"
| get_stdin: "stream_used k h f \<sigma> \<Longrightarrow> gets h \<sigma> p f = Some (r, \<sigma>') \<Longrightarrow> stream_used k h f \<sigma>'"
| get_delimited: "stream_used k h f \<sigma> \<Longrightarrow> getdelim k h \<sigma> lp np delim f = Some (r, lp', np', \<sigma>') \<Longrightarrow> stream_used k h f \<sigma>'"
| put_block: "stream_used k h f \<sigma> \<Longrightarrow> \<not> at_eof \<sigma> f \<Longrightarrow> fwrite_unlocked h \<sigma> p sz n f = Some (r, \<sigma>') \<Longrightarrow> stream_used k h f \<sigma>'"
| put_string: "stream_used k h f \<sigma> \<Longrightarrow> \<not> at_eof \<sigma> f \<Longrightarrow> fputs_unlocked h \<sigma> p f = Some (r, \<sigma>') \<Longrightarrow> stream_used k h f \<sigma>'"
| put_stdout: "stream_used k h f \<sigma> \<Longrightarrow> \<not> at_eof \<sigma> f \<Longrightarrow> puts h \<sigma> p f = Some (r, \<sigma>') \<Longrightarrow> stream_used k h f \<sigma>'"
| flush_lines: "stream_used k h f \<sigma> \<Longrightarrow> FLUSH_LBF_STREAMS h \<sigma> = Some \<sigma>' \<Longrightarrow> stream_used k h f \<sigma>'"
| tell: "stream_used k h f \<sigma> \<Longrightarrow> ftell h \<sigma> f = Some (r, \<sigma>') \<Longrightarrow> stream_used k h f \<sigma>'"
| rewind: "stream_used k h f \<sigma> \<Longrightarrow> rewind h \<sigma> f = Some \<sigma>' \<Longrightarrow> stream_used k h f \<sigma>'"
| wide: "stream_used k h f \<sigma> \<Longrightarrow> files \<sigma> f = Some S \<Longrightarrow> stream_used k h f (put \<sigma> f (snd (fwide S i)))"
| locking: "stream_used k h f \<sigma> \<Longrightarrow> 0 \<le> stdio_user_locking \<sigma> \<Longrightarrow> stdio_user_locking \<sigma> \<le> 2 \<Longrightarrow>
    fsetlocking \<sigma> f i = Some (r, \<sigma>') \<Longrightarrow> stream_used k h f \<sigma>'"
| flush: "stream_used k h f \<sigma> \<Longrightarrow> fflush_unlocked h \<sigma> g = Some (r, \<sigma>') \<Longrightarrow> stream_used k h f \<sigma>'"
| seek: "stream_used k h f \<sigma> \<Longrightarrow> fseek h \<sigma> f off whence = Some (r, \<sigma>') \<Longrightarrow> stream_used k h f \<sigma>'"
| buffer: "stream_used k h f \<sigma> \<Longrightarrow> setvbuf k \<sigma> f buf mode sz = Some (r, \<sigma>') \<Longrightarrow> sz < 2 ^ 64 \<Longrightarrow> stream_used k h f \<sigma>'"
| purge: "stream_used k h f \<sigma> \<Longrightarrow> files \<sigma> f = Some S \<Longrightarrow> stream_used k h f (put \<sigma> f (fpurge S))"
| clear: "stream_used k h f \<sigma> \<Longrightarrow> files \<sigma> f = Some S \<Longrightarrow> stream_used k h f (put \<sigma> f (clearerr S))"
| elsewhere: "stream_used k h f \<sigma> \<Longrightarrow> files \<sigma>' f = files \<sigma> f \<Longrightarrow> stream_used k h f \<sigma>'"

lemma stream_used_inv: "stream_used k h f \<sigma> \<Longrightarrow> reads_bounded h \<Longrightarrow> inv_at \<sigma> f"
proof (induction rule: stream_used.induct)
  case (opened \<sigma>0 fname_or_mode mode fd \<sigma>)
  then show ?case by (intro fopen_inv)
next
  case (putc \<sigma> c r \<sigma>')
  then obtain S where "files \<sigma> f = Some S" "open_inv S" "\<not> FEOF_UNLOCKED S" by (auto simp: inv_at_def at_eof_def)
  then show ?case using fputc_inv [OF putc.hyps(3)] by blast
next
  case (put_block \<sigma> p sz n r \<sigma>')
  then have "inv_more \<sigma> f" by (auto simp: inv_at_def at_eof_def inv_more_def)
  then show ?case using fwrite_inv [OF put_block.hyps(3)] inv_more_at by blast
next
  case (put_string \<sigma> p r \<sigma>')
  then have "inv_more \<sigma> f" by (auto simp: inv_at_def at_eof_def inv_more_def)
  then show ?case using fputs_inv [OF put_string.hyps(3)] inv_more_at by blast
next
  case (put_stdout \<sigma> p r \<sigma>')
  then have "inv_more \<sigma> f" by (auto simp: inv_at_def at_eof_def inv_more_def)
  then show ?case using puts_inv [OF put_stdout.hyps(3)] by blast
next
  case (flush_lines \<sigma> \<sigma>')
  then obtain S where S: "files \<sigma> f = Some S" "open_inv S" by (auto simp: inv_at_def)
  obtain y where "flush_list h \<sigma> 0 (stdio_openlist \<sigma>) 0 = Some y" "\<sigma>' = snd y"
    using flush_lines.hyps(2) by (auto simp: FLUSH_LBF_STREAMS_def)
  then show ?case using flush_list_inv [OF _ _ S, of h 0 "stdio_openlist \<sigma>" 0 y] by (simp add: inv_at_def)
next
  case (tell \<sigma> r \<sigma>')
  then show ?case using ftell_files [OF tell.hyps(2)] by (simp add: inv_at_def)
next
  case (rewind \<sigma> \<sigma>')
  then show ?case using rewind_inv [OF rewind.hyps(2)] by blast
next
  case (wide \<sigma> S i)
  then show ?case using inv_fwide by (auto simp: inv_at_def)
next
  case (locking \<sigma> i r \<sigma>')
  then show ?case using fsetlocking_inv [OF locking.hyps(4)] by blast
next
  case (get_line \<sigma> p i r \<sigma>')
  then show ?case using fgets_inv [OF get_line.hyps(2)] by blast
next
  case (get_stdin \<sigma> p r \<sigma>')
  then show ?case using gets_inv [OF get_stdin.hyps(2)] by blast
next
  case (get_delimited \<sigma> lp np delim r lp' np' \<sigma>')
  then show ?case using getdelim_inv [OF get_delimited.hyps(2)] by blast
next
  case (get_block \<sigma> p sz n r \<sigma>')
  then show ?case using fread_inv [OF get_block.hyps(2)] by blast
next
  case (purge \<sigma> S)
  then show ?case using inv_fpurge by (auto simp: inv_at_def)
next
  case (clear \<sigma> S)
  then show ?case using inv_clearerr by (auto simp: inv_at_def)
next
  case (elsewhere \<sigma> \<sigma>')
  then show ?case by (simp add: inv_at_def)
next
  case (seek \<sigma> off whence r \<sigma>')
  then show ?case using fseek_inv [OF seek.hyps(2)] by blast
next
  case (buffer \<sigma> buf mode sz r \<sigma>')
  then show ?case using setvbuf_inv [OF buffer.hyps(2) _ buffer.hyps(3)] by blast
qed (use fgetc_inv ungetc_inv fflush_inv in blast)+

section \<open>Writing after the end of the file\<close>

lemma putc_after_eof:
  assumes "files \<sigma> f = Some S" "STREAM_IS_READING S" "FEOF_UNLOCKED S" "\<not> STREAM_IS_READONLY S" "\<not> STREAM_IS_WRITING S"
    and "\<not> STREAM_IS_LBF S" "\<not> IS_STD_STREAM S" "\<not> IS_FAKE S" "bufstart S < bufend S" "memory \<sigma> (bufstart S) = Some v"
  shows "\<exists>\<sigma>' S'. fputc_unlocked h \<sigma> c f = Some (uint (uchar c), \<sigma>') \<and> files \<sigma>' f = Some S' \<and> \<not> stdio_validate_FILE S'"
proof -
  define S1 where "S1 = set_flag FLAG_WRITING (INIT_BUFREAD_BUFPOS (clear_flag MASK_READING S))"
  have s1: "bufpos S1 = bufstart S" "bufread S1 = bufstart S" "bufstart S1 = bufstart S" "bufend S1 = bufend S" "filedes S1 = filedes S"
      "bit (modeflags S1) 2" "\<not> bit (modeflags S1) 8"
    using assms(3,6) by (simp_all add: S1_def INIT_BUFREAD_BUFPOS_def flag_simps bit_simps)
  have rd: "ready_to_write \<sigma> f = Some (True, put \<sigma> f S1)"
    using assms(1-5) by (simp add: ready_to_write_def stdio_trans2w_def S1_def)
  define S2 where "S2 = S1\<lparr>bufpos := bufpos S1 + 1\<rparr>"
  define \<sigma>2 where "\<sigma>2 = put (\<sigma>\<lparr>memory := (memory \<sigma>)(bufstart S \<mapsto> uchar c)\<rparr>) f S2"
  have add: "BUFFER_ADD (put \<sigma> f S1) f (uchar c) = Some \<sigma>2"
    using s1(1) assms(10) by (simp add: BUFFER_ADD_def store_mapped \<sigma>2_def S2_def)
  have "\<not> IS_FAKE S1" "\<not> IS_STD_STREAM S2" "\<not> STREAM_IS_LBF S2" "BUFFER_SIZE S1 \<noteq> 0" "BUFFER_WAVAIL S1 \<noteq> 0"
    using assms(7-9) s1 by (simp_all add: IS_FAKE_def IS_STD_STREAM_def flag_simps S2_def BUFFER_SIZE_def BUFFER_WAVAIL_def)
  moreover have "files \<sigma>2 f = Some S2" by (simp add: \<sigma>2_def)
  ultimately have "fputc_unlocked h \<sigma> c f = Some (uint (uchar c), \<sigma>2)"
    using rd add unfolding fputc_unlocked_def uchar_def by (simp add: Let_def)
  moreover have "\<not> stdio_validate_FILE S2"
  proof -
    have "FEOF_UNLOCKED S2" "bufpos S2 \<noteq> bufread S2" using s1 by (simp_all add: flag_simps S2_def)
    then show ?thesis unfolding stdio_validate_FILE_def by blast
  qed
  ultimately show ?thesis using \<open>files \<sigma>2 f = Some S2\<close> by blast
qed

section \<open>Properties\<close>

text \<open>
  An example: \<open>malloc\<close> puts the \<open>FILE\<close> at 500 and the buffer at 1000, \<open>open\<close> returns the descriptor 5, and the mode
  string at 100 is \<open>r\<close>.
\<close>

definition demo_system :: "(int \<Rightarrow> byte list) system" where
  "demo_system = \<lparr>sys_create = \<lambda>m p w. (0, w), sys_open = \<lambda>m p mode w. (5, w), sys_getomode = \<lambda>fd w. (1, w),
     sys_malloc = \<lambda>n m w. (let p = (if n = BUFSIZ then 1000 else 500) in
       (p, \<lambda>a. if p \<le> a \<and> a < p + n then Some 0 else m a, w)),
     sys_realloc = \<lambda>p n m w. (0, m, w), sys_free = \<lambda>p m w. (m, w), sizeof_FILE = 100, raw_FILE = \<lambda>p. demo_file 0xFFFF\<rparr>"

definition demo_start :: "(int \<Rightarrow> byte list) stdio" where
  "demo_start = \<lparr>memory = mem_of 100 [114, 0, 0], files = Map.empty, stdio_openlist = NULL, errno = 0,
     local_uc = 102, stdio_user_locking = 2, world = \<lambda>_. [65, 66]\<rparr>"

lemma slow_reader_bounded: "reads_bounded slow_reader"
  by (auto simp: reads_bounded_def slow_reader_def)

lemma demo_open: "\<exists>\<sigma>. fopen demo_system slow_reader demo_start 103 100 = Some (500, \<sigma>)"
  by (simp add: fopen_def stdio_fopen_def fopen_mode_def demo_start_def mem_of_at demo_system_def malloc_def
    open_descriptor_def open_init_def open_buffer_def Let_def case_prod_unfold)

text \<open>C3. A stream that \<open>fopen\<close> or \<open>fdopen\<close> has returned passes the library's own check \<open>_stdio_validate_FILE\<close> after any
  sequence of \<open>fgetc\<close>, \<open>ungetc\<close>, \<open>fread\<close>, \<open>fgets\<close>, \<open>gets\<close>, \<open>getdelim\<close>, \<open>fputc\<close>, \<open>fwrite\<close>, \<open>fputs\<close>, \<open>puts\<close>, \<open>fflush\<close>,
  \<open>fseek\<close> (and so \<open>fsetpos\<close>), \<open>rewind\<close>, \<open>ftell\<close>, \<open>setvbuf\<close>, \<open>__fpurge\<close>, \<open>clearerr\<close>, \<open>fwide\<close> and \<open>__fsetlocking\<close> on it,
  mixed with flushes of all line buffered streams and with steps that do not touch the stream, also when calls of the kernel
  fail; provided that \<open>fputc\<close>, \<open>fwrite\<close>, \<open>fputs\<close> and \<open>puts\<close> are not called while its end-of-file flag is set. \<open>fclose\<close> and
  \<open>freopen\<close> of the stream are not among the operations.\<close>

theorem used_streams_valid:
  assumes "stream_used k h f \<sigma>" "reads_bounded h"
  shows "\<exists>S. files \<sigma> f = Some S \<and> stdio_validate_FILE S"
  using stream_used_inv [OF assms] open_inv_validate by (auto simp: inv_at_def)

text \<open>The stream has been opened and one character has been pushed back.\<close>

theorem used_streams_valid_witness:
  "\<exists>\<sigma>0 \<sigma>1. fopen demo_system slow_reader demo_start 103 100 = Some (500, \<sigma>0) \<and> ungetc \<sigma>0 65 500 = Some (65, \<sigma>1) \<and>
    (\<exists>S. files \<sigma>1 500 = Some S \<and> stdio_validate_FILE S)"
proof -
  obtain \<sigma>0 where o: "fopen demo_system slow_reader demo_start 103 100 = Some (500, \<sigma>0)" using demo_open by blast
  have u: "stream_used demo_system slow_reader 500 \<sigma>0"
    by (rule stream_used.opened [OF o [unfolded fopen_def]]) (simp_all add: demo_start_def)
  have "\<exists>\<sigma>1. ungetc \<sigma>0 65 500 = Some (65, \<sigma>1)"
    using o by (auto simp: fopen_def stdio_fopen_def fopen_mode_def demo_start_def mem_of_at demo_system_def malloc_def
      open_descriptor_def open_init_def open_buffer_def Let_def case_prod_unfold ungetc_def ready_to_read_def stdio_trans2r_def
      INIT_BUFREAD_BUFPOS_def flag_simps bit_simps)
  then obtain \<sigma>1 where "ungetc \<sigma>0 65 500 = Some (65, \<sigma>1)" by blast
  then show ?thesis
    using used_streams_valid [OF stream_used.unget [OF u] slow_reader_bounded] o by blast
qed

text \<open>That condition is needed: take a stream with a buffer that is not line buffered, is none of the three standard
  streams, may be written and has been read to its end. Writing a character to it, which the C standard allows there, stores the
  character in the buffer and leaves the end-of-file flag set, a state that the check refuses.\<close>

lemma putc_after_eof_invalid:
  assumes "files \<sigma> f = Some S" "STREAM_IS_READING S" "FEOF_UNLOCKED S" "\<not> STREAM_IS_READONLY S" "\<not> STREAM_IS_WRITING S"
    and "\<not> STREAM_IS_LBF S" "\<not> IS_STD_STREAM S" "\<not> IS_FAKE S" "bufstart S < bufend S" "memory \<sigma> (bufstart S) = Some v"
  shows "\<exists>\<sigma>' S'. fputc_unlocked h \<sigma> c f = Some (uint (uchar c), \<sigma>') \<and> files \<sigma>' f = Some S' \<and> \<not> stdio_validate_FILE S'"
  using assms by (rule putc_after_eof)

lemma putc_after_eof_invalid_witness:
  "\<exists>\<sigma>' S'. fputc_unlocked slow_device (demo_state 5) 65 1 = Some (uint (uchar 65), \<sigma>') \<and> files \<sigma>' 1 = Some S' \<and>
    \<not> stdio_validate_FILE S'"
proof -
  have "files (demo_state 5) 1 = Some (demo_file 5)" by (simp add: demo_state_def)
  then show ?thesis
    by (rule putc_after_eof_invalid [where v = 0])
      (simp_all add: demo_state_def demo_file_def flag_simps IS_STD_STREAM_def IS_FAKE_def mem_of_at)
qed

end
