(* ===== verification/Rwlock.thy ===== *)
theory Rwlock
  imports Prelude
begin

text \<open>
  The readers-writer lock of \<open>libustd/mthread/rwlock.cpp\<close>. Every method runs with the mutex \<open>_m\<close> held, from a
  \<open>mutex_guard\<close>, except while it waits on the condition variable; so a method is one step up to the point where it
  waits or returns, and one more step each time it is woken. The map of readers and the queue are the map and the list
  that \<open>upan::map\<close> and \<open>upan::list\<close> stand for. The identifiers \<open>getpid\<close> returns are integers, and none is \<open>- 1\<close>.
\<close>

section \<open>The lock\<close>

definition NO_ACTIVE_WRITER :: int where
  "NO_ACTIVE_WRITER = - 1"

record rwlock =
  rw_readers :: "int \<rightharpoonup> int"
  rw_queue :: "int list"
  rw_writer :: int
  rw_count :: int

definition rwlock_init :: rwlock where
  "rwlock_init = \<lparr>rw_readers = Map.empty, rw_queue = [], rw_writer = NO_ACTIVE_WRITER, rw_count = 0\<rparr>"

definition rw_empty_readers :: "rwlock \<Rightarrow> bool" where
  "rw_empty_readers L \<longleftrightarrow> dom (rw_readers L) = {}"

text \<open>The first lines of both lock methods, and the conditions they wait for.\<close>

definition rw_enqueue :: "int \<Rightarrow> rwlock \<Rightarrow> rwlock" where
  "rw_enqueue pid L = (if pid \<in> set (rw_queue L) then L else L\<lparr>rw_queue := rw_queue L @ [pid]\<rparr>)"

definition read_condition :: "int \<Rightarrow> rwlock \<Rightarrow> bool" where
  "read_condition pid L =
     (if rw_writer L = NO_ACTIVE_WRITER \<or> rw_writer L = pid then
        (let recursiveReader = (case rw_readers L pid of None \<Rightarrow> False | Some n \<Rightarrow> n > 0)
         in rw_queue L = [] \<or> hd (rw_queue L) = pid \<or> recursiveReader \<or> rw_writer L = pid)
      else False)"

definition write_condition :: "int \<Rightarrow> rwlock \<Rightarrow> bool" where
  "write_condition pid L =
     (if rw_writer L = pid \<or> rw_writer L = NO_ACTIVE_WRITER \<and> rw_empty_readers L then
        rw_queue L = [] \<or> hd (rw_queue L) = pid \<or> rw_writer L = pid
      else False)"

text \<open>What follows the wait; the flag says that all waiting threads are notified.\<close>

definition read_acquire :: "int \<Rightarrow> rwlock \<Rightarrow> bool \<times> rwlock" where
  "read_acquire pid L =
     (let L = L\<lparr>rw_queue := remove1 pid (rw_queue L)\<rparr>;
          n = (case rw_readers L pid of None \<Rightarrow> 0 | Some n \<Rightarrow> n);
          L = L\<lparr>rw_readers := (rw_readers L)(pid \<mapsto> n + 1)\<rparr>
      in (rw_queue L \<noteq> [], L))"

definition write_acquire :: "int \<Rightarrow> rwlock \<Rightarrow> bool \<times> rwlock" where
  "write_acquire pid L =
     (False, L\<lparr>rw_queue := remove1 pid (rw_queue L), rw_writer := pid, rw_count := rw_count L + 1\<rparr>)"

text \<open>The handler for a wait that fails.\<close>

definition wait_failed :: "int \<Rightarrow> rwlock \<Rightarrow> bool \<times> rwlock" where
  "wait_failed pid L = (True, L\<lparr>rw_queue := remove1 pid (rw_queue L)\<rparr>)"

definition read_unlock :: "int \<Rightarrow> rwlock \<Rightarrow> bool \<times> rwlock" where
  "read_unlock pid L = (case rw_readers L pid of
      None \<Rightarrow> (False, L)
    | Some n \<Rightarrow>
        (let L = L\<lparr>rw_readers := (if n - 1 = 0 then (rw_readers L)(pid := None) else (rw_readers L)(pid \<mapsto> n - 1))\<rparr>
         in (rw_empty_readers L \<and> rw_writer L = NO_ACTIVE_WRITER, L)))"

definition write_unlock :: "int \<Rightarrow> rwlock \<Rightarrow> bool \<times> rwlock" where
  "write_unlock pid L =
     (if rw_writer L \<noteq> pid then (False, L)
      else
        (let L = L\<lparr>rw_count := rw_count L - 1\<rparr>
         in if rw_count L = 0 then (True, L\<lparr>rw_writer := NO_ACTIVE_WRITER\<rparr>) else (False, L)))"

section \<open>Threads\<close>

datatype rw_kind = ReadLock | WriteLock

datatype rw_pc = RwIdle | RwWaiting rw_kind | RwWoken rw_kind

definition rw_condition :: "rw_kind \<Rightarrow> int \<Rightarrow> rwlock \<Rightarrow> bool" where
  "rw_condition k pid L = (case k of ReadLock \<Rightarrow> read_condition pid L | WriteLock \<Rightarrow> write_condition pid L)"

definition rw_acquire :: "rw_kind \<Rightarrow> int \<Rightarrow> rwlock \<Rightarrow> bool \<times> rwlock" where
  "rw_acquire k pid L = (case k of ReadLock \<Rightarrow> read_acquire pid L | WriteLock \<Rightarrow> write_acquire pid L)"

text \<open>
  \<open>rw_held\<close> is history, which the code does not have: the lock calls of each thread that have returned, less its
  unlock calls.
\<close>

record rw_sys =
  rw_lock :: rwlock
  rw_at :: "int \<Rightarrow> rw_pc"
  rw_held :: "rw_kind \<Rightarrow> int \<Rightarrow> nat"

text \<open>\<open>notify_all\<close> moves every waiting thread to where it tests its condition again.\<close>

definition wake :: "rw_pc \<Rightarrow> rw_pc" where
  "wake c = (case c of RwWaiting k \<Rightarrow> RwWoken k | _ \<Rightarrow> c)"

definition rw_move :: "int \<Rightarrow> rw_pc \<Rightarrow> bool \<times> rwlock \<Rightarrow> rw_sys \<Rightarrow> rw_sys" where
  "rw_move pid c r s = (let (all, L) = r in
     s\<lparr>rw_lock := L, rw_at := (if all then wake \<circ> rw_at s else rw_at s)(pid := c)\<rparr>)"

definition rw_holds :: "rw_kind \<Rightarrow> int \<Rightarrow> nat \<Rightarrow> rw_sys \<Rightarrow> rw_sys" where
  "rw_holds k pid n s = s\<lparr>rw_held := (rw_held s)(k := (rw_held s k)(pid := n))\<rparr>"

text \<open>The test of the condition and what follows, at the call and after each wake-up.\<close>

definition rw_attempt :: "rw_kind \<Rightarrow> int \<Rightarrow> rwlock \<Rightarrow> rw_sys \<Rightarrow> rw_sys" where
  "rw_attempt k pid L s =
     (if rw_condition k pid L then
        rw_holds k pid (rw_held s k pid + 1) (rw_move pid RwIdle (rw_acquire k pid L) s)
      else rw_move pid (RwWaiting k) (False, L) s)"

datatype rw_event = RwCall rw_kind int | RwTest int | RwFail int | RwReadUnlock int | RwWriteUnlock int

inductive rw_step :: "rw_event \<Rightarrow> rw_sys \<Rightarrow> rw_sys \<Rightarrow> bool" where
  rw_call: "rw_at s pid = RwIdle \<Longrightarrow> pid \<noteq> NO_ACTIVE_WRITER \<Longrightarrow>
    rw_step (RwCall k pid) s (rw_attempt k pid (rw_enqueue pid (rw_lock s)) s)"
| rw_test: "rw_at s pid = RwWoken k \<Longrightarrow> rw_step (RwTest pid) s (rw_attempt k pid (rw_lock s) s)"
| rw_fail: "rw_at s pid = RwWaiting k \<or> rw_at s pid = RwWoken k \<Longrightarrow>
    rw_step (RwFail pid) s (rw_move pid RwIdle (wait_failed pid (rw_lock s)) s)"
| rw_read_unlock: "rw_at s pid = RwIdle \<Longrightarrow>
    rw_step (RwReadUnlock pid) s
      (rw_holds ReadLock pid (rw_held s ReadLock pid - 1) (rw_move pid RwIdle (read_unlock pid (rw_lock s)) s))"
| rw_write_unlock: "rw_at s pid = RwIdle \<Longrightarrow> pid \<noteq> NO_ACTIVE_WRITER \<Longrightarrow>
    rw_step (RwWriteUnlock pid) s
      (rw_holds WriteLock pid (rw_held s WriteLock pid - 1) (rw_move pid RwIdle (write_unlock pid (rw_lock s)) s))"

inductive_cases rw_stepE: "rw_step e s s'"

inductive rw_run :: "rw_event list \<Rightarrow> rw_sys \<Rightarrow> rw_sys \<Rightarrow> bool" where
  rw_done: "rw_run [] s s"
| rw_more: "rw_step e s s' \<Longrightarrow> rw_run es s' s'' \<Longrightarrow> rw_run (e # es) s s''"

definition rw_start :: rw_sys where
  "rw_start = \<lparr>rw_lock = rwlock_init, rw_at = \<lambda>_. RwIdle, rw_held = \<lambda>_ _. 0\<rparr>"

section \<open>The invariant\<close>

text \<open>
  Who holds the lock: counts are positive, a writer excludes every other holder. Who waits: the queue
  lists each thread in a lock method once. And nobody waits for what is already the case.
\<close>

definition rw_inv :: "rw_sys \<Rightarrow> bool" where
  "rw_inv s \<longleftrightarrow> (let L = rw_lock s in
     (\<forall>p n. rw_readers L p = Some n \<longrightarrow> 0 < n) \<and>
     (rw_writer L \<noteq> NO_ACTIVE_WRITER \<longrightarrow> dom (rw_readers L) \<subseteq> {rw_writer L} \<and> rw_at s (rw_writer L) = RwIdle) \<and>
     (rw_count L = 0 \<longleftrightarrow> rw_writer L = NO_ACTIVE_WRITER) \<and> 0 \<le> rw_count L \<and>
     distinct (rw_queue L) \<and> NO_ACTIVE_WRITER \<notin> set (rw_queue L) \<and> (\<forall>p. p \<in> set (rw_queue L) \<longleftrightarrow> rw_at s p \<noteq> RwIdle) \<and>
     (\<forall>p k. rw_at s p = RwWaiting k \<longrightarrow> \<not> rw_condition k p L))"

lemma rw_inv_holds [simp]: "rw_inv (rw_holds k p n s) = rw_inv s"
  by (simp add: rw_inv_def rw_holds_def)

lemma rw_inv_attempt:
  "rw_inv (rw_attempt k p L s) = rw_inv
     (if rw_condition k p L then rw_move p RwIdle (rw_acquire k p L) s else rw_move p (RwWaiting k) (False, L) s)"
  by (simp add: rw_attempt_def)

lemma rw_invD:
  assumes "rw_inv s"
  shows "rw_readers (rw_lock s) p = Some n \<Longrightarrow> 0 < n"
    "rw_writer (rw_lock s) \<noteq> NO_ACTIVE_WRITER \<Longrightarrow> dom (rw_readers (rw_lock s)) \<subseteq> {rw_writer (rw_lock s)}"
    "rw_writer (rw_lock s) \<noteq> NO_ACTIVE_WRITER \<Longrightarrow> rw_at s (rw_writer (rw_lock s)) = RwIdle"
    "rw_count (rw_lock s) = 0 \<longleftrightarrow> rw_writer (rw_lock s) = NO_ACTIVE_WRITER" "0 \<le> rw_count (rw_lock s)"
    "distinct (rw_queue (rw_lock s))" "p \<in> set (rw_queue (rw_lock s)) \<longleftrightarrow> rw_at s p \<noteq> RwIdle"
    "rw_at s p = RwWaiting k \<Longrightarrow> \<not> rw_condition k p (rw_lock s)"
    "NO_ACTIVE_WRITER \<notin> set (rw_queue (rw_lock s))"
  using assms by (auto simp: rw_inv_def Let_def)

lemma wake_simps [simp]: "wake c = RwIdle \<longleftrightarrow> c = RwIdle" "wake c \<noteq> RwWaiting k"
  by (auto simp: wake_def split: rw_pc.splits)

text \<open>A thread's condition depends on the writer, its own count, whether there are readers, and the front of the queue.\<close>

lemma condition_cong:
  assumes "rw_writer L' = rw_writer L" "rw_readers L' p = rw_readers L p" "rw_empty_readers L' \<Longrightarrow> rw_empty_readers L"
    "rw_queue L \<noteq> []" "rw_queue L' \<noteq> []" "hd (rw_queue L') = hd (rw_queue L)" "\<not> rw_condition k p L"
  shows "\<not> rw_condition k p L'"
  using assms by (cases k) (auto simp: rw_condition_def read_condition_def write_condition_def Let_def split: if_splits)

lemma condition_other_writer:
  "rw_writer L \<noteq> NO_ACTIVE_WRITER \<Longrightarrow> rw_writer L \<noteq> p \<Longrightarrow> \<not> rw_condition k p L"
  by (cases k) (auto simp: rw_condition_def read_condition_def write_condition_def)

lemma inv_attempt:
  assumes inv: "rw_inv s" and L: "L = rw_lock s \<or> rw_at s p = RwIdle \<and> L = rw_enqueue p (rw_lock s)"
    and p: "p \<noteq> NO_ACTIVE_WRITER" "p \<in> set (rw_queue L)"
  shows "rw_inv (rw_attempt k p L s)"
proof -
  note I = rw_invD [OF inv]
  have same: "rw_readers L = rw_readers (rw_lock s)" "rw_writer L = rw_writer (rw_lock s)" "rw_count L = rw_count (rw_lock s)"
    using L by (auto simp: rw_enqueue_def)
  have dist: "distinct (rw_queue L)" "NO_ACTIVE_WRITER \<notin> set (rw_queue L)"
    using L I(6,9) p(1) by (auto simp: rw_enqueue_def split: if_splits)
  have queue: "q \<in> set (rw_queue L) \<longleftrightarrow> rw_at s q \<noteq> RwIdle" if "q \<noteq> p" for q
    using L I(7) [of q] that by (auto simp: rw_enqueue_def split: if_splits)
  have waits: "\<not> rw_condition j q L" if "rw_at s q = RwWaiting j" for q j
  proof -
    have "q \<in> set (rw_queue (rw_lock s))" using I(7) [of q] that by simp
    then have "rw_queue (rw_lock s) \<noteq> []" "rw_queue L \<noteq> []" "hd (rw_queue L) = hd (rw_queue (rw_lock s))"
      using L by (auto simp: rw_enqueue_def hd_append split: if_splits)
    then show ?thesis
      using condition_cong [of L "rw_lock s" q j] same I(8) [OF that] by (auto simp: rw_empty_readers_def)
  qed
  have "rw_inv (if rw_condition k p L then rw_move p RwIdle (rw_acquire k p L) s else rw_move p (RwWaiting k) (False, L) s)"
  proof (cases "rw_condition k p L")
    case False
    have "rw_writer L \<noteq> p" if "rw_writer L \<noteq> NO_ACTIVE_WRITER"
      using False that p(1) by (cases k) (auto simp: rw_condition_def read_condition_def write_condition_def split: if_splits)
    with False show ?thesis
      using I(1-5) dist queue waits same p
      by (auto simp: rw_inv_def rw_move_def Let_def)
  next
    case True
    show ?thesis
    proof (cases k)
      case ReadLock
      with True have w: "rw_writer L = NO_ACTIVE_WRITER \<or> rw_writer L = p"
        by (auto simp: rw_condition_def read_condition_def split: if_splits)
      have none: "rw_at s q \<noteq> RwWaiting j" if "remove1 p (rw_queue L) = []" "q \<noteq> p" for q j
        using queue [OF that(2)] that in_set_remove1 [of q p "rw_queue L"] by auto
      have pos: "0 < (case rw_readers (rw_lock s) p of None \<Rightarrow> 0 | Some n \<Rightarrow> n) + 1"
        using I(1) [of p] by (cases "rw_readers (rw_lock s) p") (simp_all add: add_pos_pos)
      show ?thesis
        using ReadLock True I(1-5) dist queue w same p(1) none pos
        by (auto simp: rw_inv_def rw_acquire_def read_acquire_def rw_move_def Let_def)
    next
      case WriteLock
      with True have w: "rw_writer L = p \<or> rw_writer L = NO_ACTIVE_WRITER \<and> rw_empty_readers L"
        by (auto simp: rw_condition_def write_condition_def split: if_splits)
      let ?L = "L\<lparr>rw_queue := remove1 p (rw_queue L), rw_writer := p, rw_count := rw_count L + 1\<rparr>"
      have "\<not> rw_condition j q ?L" if "q \<noteq> p" for q j
        by (rule condition_other_writer) (use p(1) that in auto)
      moreover have "dom (rw_readers L) \<subseteq> {p}" using w I(2) same p(1) by (auto simp: rw_empty_readers_def)
      ultimately show ?thesis
        using WriteLock True I(1-5) dist queue same p(1)
        by (auto simp: rw_inv_def rw_acquire_def write_acquire_def rw_move_def Let_def)
    qed
  qed
  then show ?thesis unfolding rw_inv_attempt .
qed

lemma inv_fail:
  assumes inv: "rw_inv s" and p: "rw_at s p \<noteq> RwIdle"
  shows "rw_inv (rw_move p RwIdle (wait_failed p (rw_lock s)) s)"
proof -
  note I = rw_invD [OF inv]
  show ?thesis using I(1-7,9) by (auto simp: rw_inv_def wait_failed_def rw_move_def Let_def)
qed

lemma inv_read_unlock:
  assumes inv: "rw_inv s" and p: "rw_at s p = RwIdle"
  shows "rw_inv (rw_move p RwIdle (read_unlock p (rw_lock s)) s)"
proof (cases "rw_readers (rw_lock s) p")
  case None
  then have "rw_move p RwIdle (read_unlock p (rw_lock s)) s = s" using p by (simp add: read_unlock_def rw_move_def fun_upd_idem)
  then show ?thesis using inv by simp
next
  case (Some n)
  note I = rw_invD [OF inv]
  define R where "R = (if n - 1 = 0 then (rw_readers (rw_lock s))(p := None) else (rw_readers (rw_lock s))(p \<mapsto> n - 1))"
  define L where "L = (rw_lock s)\<lparr>rw_readers := R\<rparr>"
  have step: "rw_move p RwIdle (read_unlock p (rw_lock s)) s =
      rw_move p RwIdle (rw_empty_readers L \<and> rw_writer L = NO_ACTIVE_WRITER, L) s"
    using Some by (simp add: read_unlock_def R_def L_def Let_def)
  have n: "0 < n" by (rule I(1) [OF Some])
  then have "n \<noteq> 1 \<Longrightarrow> 1 < n" by linarith
  have R: "dom R \<subseteq> dom (rw_readers (rw_lock s))" "\<And>q m. R q = Some m \<Longrightarrow> 0 < m"
    "\<And>q. q \<noteq> p \<Longrightarrow> R q = rw_readers (rw_lock s) q"
    using Some n \<open>n \<noteq> 1 \<Longrightarrow> 1 < n\<close> I(1) by (auto simp: R_def split: if_splits)
  have Rw: "dom R \<subseteq> {rw_writer (rw_lock s)}" if "rw_writer (rw_lock s) \<noteq> NO_ACTIVE_WRITER"
    using R(1) I(2) [OF that] by blast
  have "\<And>x y. rw_writer (rw_lock s) \<noteq> NO_ACTIVE_WRITER \<Longrightarrow> R x = Some y \<Longrightarrow> x = rw_writer (rw_lock s)"
    using Rw by blast
  note Rw = this
  have waits: "\<not> rw_condition j q L"
    if "rw_at s q = RwWaiting j" "\<not> (rw_empty_readers L \<and> rw_writer L = NO_ACTIVE_WRITER)" for q j
  proof (cases "rw_writer L = NO_ACTIVE_WRITER")
    case True
    have "q \<noteq> p" using that(1) p by auto
    moreover have "rw_queue L \<noteq> []" using I(7) [of q] that(1) by (auto simp: L_def)
    ultimately show ?thesis
      using condition_cong [of L "rw_lock s" q j] that(2) True R(3) I(8) [OF that(1)] by (auto simp: L_def)
  next
    case False
    then have "rw_writer L \<noteq> q" using I(3) that(1) by (auto simp: L_def)
    then show ?thesis by (rule condition_other_writer [OF False])
  qed
  show ?thesis
    unfolding step using I(3-7,9) R(2) Rw p waits
    by (auto simp: rw_inv_def rw_move_def Let_def L_def)
qed

lemma inv_write_unlock:
  assumes inv: "rw_inv s" and p: "rw_at s p = RwIdle" "p \<noteq> NO_ACTIVE_WRITER"
  shows "rw_inv (rw_move p RwIdle (write_unlock p (rw_lock s)) s)"
proof (cases "rw_writer (rw_lock s) = p")
  case False
  then have "rw_move p RwIdle (write_unlock p (rw_lock s)) s = s" using p by (simp add: write_unlock_def rw_move_def fun_upd_idem)
  then show ?thesis using inv by simp
next
  case True
  note I = rw_invD [OF inv]
  have c: "0 < rw_count (rw_lock s)" using I(4,5) True p(2) by auto
  have "\<not> rw_condition j q ((rw_lock s)\<lparr>rw_count := rw_count (rw_lock s) - 1\<rparr>)" if "rw_at s q = RwWaiting j" for q j
    by (rule condition_other_writer) (use that True p in auto)
  then show ?thesis
    using I(1-7,9) True p c by (auto simp: rw_inv_def write_unlock_def rw_move_def Let_def)
qed

lemma inv_step: "rw_step e s s' \<Longrightarrow> rw_inv s \<Longrightarrow> rw_inv s'"
proof (induction rule: rw_step.induct)
  case (rw_call s pid k)
  then show ?case by (intro inv_attempt) (auto simp: rw_enqueue_def)
next
  case (rw_test s pid k)
  then have "pid \<in> set (rw_queue (rw_lock s))" using rw_invD(7) [OF rw_test.prems, of pid] by simp
  moreover have "pid \<noteq> NO_ACTIVE_WRITER" using calculation rw_invD(9) [OF rw_test.prems] by metis
  ultimately show ?case using rw_test by (intro inv_attempt) auto
qed (auto intro: inv_fail inv_read_unlock inv_write_unlock)


lemma inv_run: "rw_run es s s' \<Longrightarrow> rw_inv s \<Longrightarrow> rw_inv s'"
  by (induction rule: rw_run.induct) (auto intro: inv_step)

lemma inv_start: "rw_inv rw_start"
  by (simp add: rw_inv_def rw_start_def rwlock_init_def)

section \<open>Who holds the lock\<close>

definition rw_hist :: "rw_sys \<Rightarrow> bool" where
  "rw_hist s \<longleftrightarrow>
     (\<forall>p. rw_readers (rw_lock s) p = (if rw_held s ReadLock p = 0 then None else Some (int (rw_held s ReadLock p)))) \<and>
     (\<forall>p. p \<noteq> rw_writer (rw_lock s) \<or> rw_writer (rw_lock s) = NO_ACTIVE_WRITER \<longrightarrow> rw_held s WriteLock p = 0) \<and>
     (rw_writer (rw_lock s) \<noteq> NO_ACTIVE_WRITER \<longrightarrow> int (rw_held s WriteLock (rw_writer (rw_lock s))) = rw_count (rw_lock s))"

lemma rw_histD:
  assumes "rw_hist s"
  shows "rw_readers (rw_lock s) p = (if rw_held s ReadLock p = 0 then None else Some (int (rw_held s ReadLock p)))"
    "p \<noteq> rw_writer (rw_lock s) \<or> rw_writer (rw_lock s) = NO_ACTIVE_WRITER \<Longrightarrow> rw_held s WriteLock p = 0"
    "rw_writer (rw_lock s) \<noteq> NO_ACTIVE_WRITER \<Longrightarrow> int (rw_held s WriteLock (rw_writer (rw_lock s))) = rw_count (rw_lock s)"
  using assms by (auto simp: rw_hist_def)

lemma hist_attempt:
  assumes "rw_hist s" "rw_inv s" "rw_readers L = rw_readers (rw_lock s)" "rw_writer L = rw_writer (rw_lock s)"
    "rw_count L = rw_count (rw_lock s)" "p \<noteq> NO_ACTIVE_WRITER"
  shows "rw_hist (rw_attempt k p L s)"
proof (cases "rw_condition k p L")
  case False
  then show ?thesis using assms by (simp add: rw_hist_def rw_attempt_def rw_move_def)
next
  case True
  show ?thesis
  proof (cases k)
    case ReadLock
    then show ?thesis using True assms
      by (auto simp: rw_hist_def rw_attempt_def rw_move_def rw_holds_def rw_acquire_def read_acquire_def Let_def)
  next
    case WriteLock
    have "rw_writer L = p \<or> rw_writer L = NO_ACTIVE_WRITER"
      using True WriteLock by (auto simp: rw_condition_def write_condition_def split: if_splits)
    then show ?thesis using True WriteLock assms rw_invD(4) [OF assms(2)]
      by (auto simp: rw_hist_def rw_attempt_def rw_move_def rw_holds_def rw_acquire_def write_acquire_def)
  qed
qed

lemma hist_step: "rw_step e s s' \<Longrightarrow> rw_inv s \<Longrightarrow> rw_hist s \<Longrightarrow> rw_hist s'"
proof (induction rule: rw_step.induct)
  case (rw_call s pid k)
  then show ?case by (intro hist_attempt) (auto simp: rw_enqueue_def)
next
  case (rw_test s pid k)
  then have "pid \<in> set (rw_queue (rw_lock s))" using rw_invD(7) [OF rw_test.prems(1), of pid] by simp
  then have "pid \<noteq> NO_ACTIVE_WRITER" using rw_invD(9) [OF rw_test.prems(1)] by metis
  then show ?case using rw_test by (intro hist_attempt) auto
next
  case (rw_fail s pid k)
  then show ?case by (auto simp: rw_hist_def wait_failed_def rw_move_def)
next
  case (rw_read_unlock s pid)
  then show ?case using rw_histD(1) [OF rw_read_unlock.prems(2), of pid]
    by (auto simp: rw_hist_def read_unlock_def rw_move_def rw_holds_def Let_def split: if_splits)
next
  case (rw_write_unlock s pid)
  then have "0 < rw_count (rw_lock s)" if "rw_writer (rw_lock s) = pid"
    using rw_invD(4,5) [OF rw_write_unlock.prems(1)] that by fastforce
  then show ?case using rw_write_unlock
    by (auto simp: rw_hist_def write_unlock_def rw_move_def rw_holds_def Let_def)
qed

lemma hist_run: "rw_run es s s' \<Longrightarrow> rw_inv s \<Longrightarrow> rw_hist s \<Longrightarrow> rw_hist s'"
  by (induction rule: rw_run.induct) (auto intro: inv_step hist_step)

lemma hist_start: "rw_hist rw_start"
  by (simp add: rw_hist_def rw_start_def rwlock_init_def)

text \<open>C4.
  Whatever calls any number of threads make, in any order and with failing waits, a thread that holds the write lock
  excludes every other thread from both locks.\<close>

theorem rwlock_exclusive:
  assumes "rw_run es rw_start s" "0 < rw_held s WriteLock p" "0 < rw_held s k q"
  shows "q = p"
proof -
  have I: "rw_inv s" using inv_run [OF assms(1) inv_start] .
  have H: "rw_hist s" using hist_run [OF assms(1) inv_start hist_start] .
  have w: "rw_writer (rw_lock s) = p" "p \<noteq> NO_ACTIVE_WRITER"
    using rw_histD(2) [OF H, of p] assms(2) by auto
  show ?thesis
  proof (cases k)
    case ReadLock
    then have "q \<in> dom (rw_readers (rw_lock s))" using rw_histD(1) [OF H, of q] assms(3) by auto
    then show ?thesis using rw_invD(2) [OF I] w by auto
  next
    case WriteLock
    then show ?thesis using rw_histD(2) [OF H, of q] assms(3) w by auto
  qed
qed

text \<open>Concrete runs, for the witnesses: the state after a call.\<close>

definition after_call :: "rw_kind \<Rightarrow> int \<Rightarrow> rw_sys \<Rightarrow> rw_sys" where
  "after_call k p s = rw_attempt k p (rw_enqueue p (rw_lock s)) s"

lemma run_call: "rw_at s p = RwIdle \<Longrightarrow> p \<noteq> NO_ACTIVE_WRITER \<Longrightarrow> rw_run es (after_call k p s) s' \<Longrightarrow> rw_run (RwCall k p # es) s s'"
  unfolding after_call_def by (rule rw_more [OF rw_call])

lemmas rw_eval = after_call_def rw_attempt_def rw_enqueue_def rw_move_def rw_holds_def rw_condition_def rw_acquire_def
  read_condition_def write_condition_def read_acquire_def write_acquire_def read_unlock_def write_unlock_def
  rw_empty_readers_def rw_start_def rwlock_init_def NO_ACTIVE_WRITER_def Let_def wake_def

theorem rwlock_exclusive_witness:
  "\<exists>s. rw_run [RwCall WriteLock 1, RwCall ReadLock 2] rw_start s \<and> 0 < rw_held s WriteLock 1 \<and>
    (\<forall>k q. 0 < rw_held s k q \<longrightarrow> q = 1)"
proof -
  define s where "s = after_call ReadLock 2 (after_call WriteLock 1 rw_start)"
  have run: "rw_run [RwCall WriteLock 1, RwCall ReadLock 2] rw_start s"
    unfolding s_def by (intro run_call rw_done) (simp_all add: rw_eval)
  have "0 < rw_held s WriteLock 1" by (simp add: s_def rw_eval)
  then show ?thesis using rwlock_exclusive [OF run] run by blast
qed

text \<open>C13.
  No wake-up is lost: when nobody holds the lock and threads are in the queue, the first of them has been woken, and
  its test of the condition succeeds.\<close>

theorem rwlock_front_proceeds:
  assumes "rw_run es rw_start s" "\<forall>k p. rw_held s k p = 0" "rw_queue (rw_lock s) = p # ps"
  shows "\<exists>k. rw_at s p = RwWoken k \<and> (\<exists>s'. rw_step (RwTest p) s s' \<and> rw_held s' k p = 1)"
proof -
  have I: "rw_inv s" using inv_run [OF assms(1) inv_start] .
  have H: "rw_hist s" using hist_run [OF assms(1) inv_start hist_start] .
  have "\<forall>p. rw_readers (rw_lock s) p = None" using rw_histD(1) [OF H] assms(2) by simp
  moreover have "rw_writer (rw_lock s) = NO_ACTIVE_WRITER"
  proof (rule ccontr)
    assume w: "rw_writer (rw_lock s) \<noteq> NO_ACTIVE_WRITER"
    then have "rw_count (rw_lock s) = 0" using rw_histD(3) [OF H] assms(2) by simp
    then show False using rw_invD(4) [OF I] w by simp
  qed
  ultimately have cond: "rw_condition k p (rw_lock s)" for k
    using assms(3) by (cases k) (auto simp: rw_condition_def read_condition_def write_condition_def rw_empty_readers_def dom_def)
  have "rw_at s p \<noteq> RwIdle" using rw_invD(7) [OF I, of p] assms(3) by simp
  then obtain k where k: "rw_at s p = RwWoken k" using rw_invD(8) [OF I, of p] cond by (cases "rw_at s p") auto
  have "rw_held (rw_attempt k p (rw_lock s) s) k p = 1"
    using cond assms(2) by (simp add: rw_attempt_def rw_holds_def rw_move_def split: prod.splits)
  then show ?thesis using k rw_test [OF k] by blast
qed

theorem rwlock_front_proceeds_witness:
  "\<exists>s. rw_run [RwCall WriteLock 1, RwCall WriteLock 2, RwWriteUnlock 1] rw_start s \<and> (\<exists>k. rw_at s 2 = RwWoken k)"
proof -
  define s where "s = after_call WriteLock 2 (after_call WriteLock 1 rw_start)"
  define s' where "s' = rw_holds WriteLock 1 (rw_held s WriteLock 1 - 1) (rw_move 1 RwIdle (write_unlock 1 (rw_lock s)) s)"
  have "rw_step (RwWriteUnlock 1) s s'"
    unfolding s'_def by (rule rw_write_unlock) (simp_all add: s_def rw_eval)
  then have run: "rw_run [RwCall WriteLock 1, RwCall WriteLock 2, RwWriteUnlock 1] rw_start s'"
    using rw_more [OF _ rw_done] unfolding s_def by (intro run_call) (simp_all add: rw_eval)
  have "rw_queue (rw_lock s') = [2]" "\<forall>k p. rw_held s' k p = 0"
    by (simp_all add: s'_def s_def rw_eval)
  then show ?thesis using rwlock_front_proceeds [OF run, of 2 "[]"] run by blast
qed

text \<open>C32.
  A reader that asks for the write lock waits for itself: as long as its wait does not fail, no calls of other threads
  let it proceed.\<close>

theorem rwlock_upgrade_deadlocks:
  assumes "rw_run es rw_start s" "0 < rw_held s ReadLock p" "rw_held s WriteLock p = 0" "rw_at s p = RwIdle"
    and "p \<noteq> NO_ACTIVE_WRITER" "rw_run (RwCall WriteLock p # fs) s s'" "RwFail p \<notin> set fs"
  shows "rw_at s' p \<noteq> RwIdle \<and> rw_held s' WriteLock p = 0"
proof -
  define stuck where "stuck u \<longleftrightarrow> rw_inv u \<and> rw_hist u \<and> 0 < rw_held u ReadLock p \<and> rw_held u WriteLock p = 0 \<and>
    (rw_at u p = RwWaiting WriteLock \<or> rw_at u p = RwWoken WriteLock)" for u
  have blocked: "\<not> write_condition p L"
    if "rw_hist u" "rw_inv u" "0 < rw_held u ReadLock p" "rw_held u WriteLock p = 0"
      "rw_readers L = rw_readers (rw_lock u)" "rw_writer L = rw_writer (rw_lock u)" for u L
  proof -
    have "rw_readers L p \<noteq> None" using rw_histD(1) [OF that(1), of p] that(3,5) by simp
    then have "\<not> rw_empty_readers L" by (auto simp: rw_empty_readers_def)
    moreover have "rw_writer L \<noteq> p"
    proof
      assume "rw_writer L = p"
      then have "rw_count (rw_lock u) = 0" using rw_histD(3) [OF that(1)] that(4,6) assms(5) by simp
      then show False using rw_invD(4) [OF that(2)] \<open>rw_writer L = p\<close> that(6) assms(5) by simp
    qed
    ultimately show ?thesis by (simp add: write_condition_def)
  qed
  have keep: "stuck v" if "rw_step e u v" "stuck u" "e \<noteq> RwFail p" for e u v
  proof -
    have IH: "rw_inv v" "rw_hist v" using that inv_step hist_step by (auto simp: stuck_def)
    have u: "rw_inv u" "rw_hist u" "0 < rw_held u ReadLock p" "rw_held u WriteLock p = 0" "rw_at u p \<noteq> RwIdle"
      "rw_at u p = RwWaiting WriteLock \<or> rw_at u p = RwWoken WriteLock"
      using that(2) by (auto simp: stuck_def)
    note b = blocked [OF u(2,1,3,4)]
    show ?thesis
      using that(1)
    proof cases
      case (rw_call q k)
      then show ?thesis using IH u(3-6)
        by (auto simp: stuck_def rw_attempt_def rw_move_def rw_holds_def wake_def split: prod.splits)
    next
      case (rw_test q k)
      then show ?thesis
      proof (cases "q = p")
        case True
        then have "\<not> rw_condition k q (rw_lock u)" using rw_test u(6) b [of "rw_lock u"] by (auto simp: rw_condition_def)
        then show ?thesis using IH u rw_test True by (auto simp: stuck_def rw_attempt_def rw_move_def)
      next
        case False
        then show ?thesis using IH u(3-6) rw_test
          by (auto simp: stuck_def rw_attempt_def rw_move_def rw_holds_def wake_def split: prod.splits)
      qed
    qed (use IH u(3-6) that(3) in \<open>auto simp: stuck_def rw_move_def rw_holds_def wake_def split: prod.splits\<close>)
  qed
  obtain u where u: "rw_step (RwCall WriteLock p) s u" "rw_run fs u s'"
    using assms(6) by (auto elim: rw_run.cases)
  have I: "rw_inv s" using inv_run [OF assms(1) inv_start] .
  have H: "rw_hist s" using hist_run [OF assms(1) inv_start hist_start] .
  have "\<not> write_condition p (rw_enqueue p (rw_lock s))"
    by (rule blocked [OF H I assms(2,3)]) (auto simp: rw_enqueue_def)
  moreover have "u = rw_attempt WriteLock p (rw_enqueue p (rw_lock s)) s" using u(1) by (auto elim: rw_stepE)
  ultimately have "rw_at u p = RwWaiting WriteLock" "rw_held u = rw_held s"
    by (auto simp: rw_attempt_def rw_move_def rw_condition_def)
  then have "stuck u" using inv_step [OF u(1) I] hist_step [OF u(1) I H] assms(2,3) by (simp add: stuck_def)
  with u(2) assms(7) have "stuck s'"
    by (induction rule: rw_run.induct) (auto intro: keep)
  then show ?thesis by (auto simp: stuck_def)
qed

theorem rwlock_upgrade_deadlocks_witness:
  "\<exists>s s'. rw_run [RwCall ReadLock 1] rw_start s \<and> rw_run [RwCall WriteLock 1, RwCall ReadLock 2] s s' \<and>
    rw_at s' 1 \<noteq> RwIdle \<and> rw_held s' WriteLock 1 = 0"
proof -
  define s where "s = after_call ReadLock 1 rw_start"
  define s' where "s' = after_call ReadLock 2 (after_call WriteLock 1 s)"
  have run: "rw_run [RwCall ReadLock 1] rw_start s"
    unfolding s_def by (intro run_call rw_done) (simp_all add: rw_eval)
  have more: "rw_run [RwCall WriteLock 1, RwCall ReadLock 2] s s'"
    unfolding s'_def by (intro run_call rw_done) (simp_all add: s_def rw_eval)
  have "0 < rw_held s ReadLock 1" "rw_held s WriteLock 1 = 0" "rw_at s 1 = RwIdle" "(1::int) \<noteq> NO_ACTIVE_WRITER"
    "RwFail 1 \<notin> set [RwCall ReadLock 2]"
    by (simp_all add: s_def rw_eval)
  from rwlock_upgrade_deadlocks [OF run this(1-4) more this(5)] run more show ?thesis by blast
qed

end
