(* ===== verification/Fifo.thy ===== *)
theory Fifo
  imports Prelude
begin

text \<open>
  The contract of the first-in-first-out containers of \<open>libustd\<close>: the sequence of elements that an object holds, the
  effect of the operations on it, and what a client that only uses these laws may rely on. \<open>upan::list\<close> and
  \<open>upan::queue\<close> are shown to meet it. An operation that faults yields \<open>None\<close>; one that throws yields \<open>Inl\<close>.
\<close>

datatype 'a fifo_op = Put 'a | Take

datatype 'a fifo_outcome = Stored bool | Taken "'a option"

text \<open>A client takes an element by reading it at the front and then removing it.\<close>

fun fifo_step ::
    "('a \<Rightarrow> 's \<Rightarrow> (bool \<times> 's) option) \<Rightarrow> ('s \<Rightarrow> ('e + 'a) option) \<Rightarrow> ('s \<Rightarrow> (bool \<times> 's) option) \<Rightarrow> 'a fifo_op \<Rightarrow> 's \<Rightarrow>
     ('a fifo_outcome \<times> 's) option" where
  "fifo_step push front pop (Put v) s = do { (b, s) \<leftarrow> push v s; Some (Stored b, s) }"
| "fifo_step push front pop Take s = do {
     r \<leftarrow> front s;
     case r of Inl e \<Rightarrow> Some (Taken None, s)
     | Inr v \<Rightarrow> do { (b, s) \<leftarrow> pop s; Some (Taken (if b then Some v else None), s) } }"

fun fifo_run ::
    "('a fifo_op \<Rightarrow> 's \<Rightarrow> ('a fifo_outcome \<times> 's) option) \<Rightarrow> 'a fifo_op list \<Rightarrow> 's \<Rightarrow> ('a fifo_outcome list \<times> 's) option" where
  "fifo_run f [] s = Some ([], s)"
| "fifo_run f (c # cs) s = do { (r, s) \<leftarrow> f c s; (rs, s) \<leftarrow> fifo_run f cs s; Some (r # rs, s) }"

text \<open>The same on a list of at most \<open>cap\<close> elements.\<close>

fun list_step :: "nat \<Rightarrow> 'a fifo_op \<Rightarrow> 'a list \<Rightarrow> 'a fifo_outcome \<times> 'a list" where
  "list_step cap (Put v) xs = (if length xs < cap then (Stored True, xs @ [v]) else (Stored False, xs))"
| "list_step cap Take xs = (case xs of [] \<Rightarrow> (Taken None, []) | x # ys \<Rightarrow> (Taken (Some x), ys))"

fun list_run :: "nat \<Rightarrow> 'a fifo_op list \<Rightarrow> 'a list \<Rightarrow> 'a fifo_outcome list \<times> 'a list" where
  "list_run cap [] xs = ([], xs)"
| "list_run cap (c # cs) xs = (let (r, ys) = list_step cap c xs; (rs, zs) = list_run cap cs ys in (r # rs, zs))"

text \<open>What was accepted and what came out.\<close>

fun accepted :: "'a fifo_op list \<Rightarrow> 'a fifo_outcome list \<Rightarrow> 'a list" where
  "accepted (Put v # cs) (Stored True # rs) = v # accepted cs rs"
| "accepted (c # cs) (r # rs) = accepted cs rs"
| "accepted cs rs = []"

fun delivered :: "'a fifo_outcome list \<Rightarrow> 'a list" where
  "delivered [] = []"
| "delivered (Taken (Some v) # rs) = v # delivered rs"
| "delivered (r # rs) = delivered rs"

lemma list_run_order: "list_run cap cs xs = (rs, ys) \<Longrightarrow> delivered rs @ ys = xs @ accepted cs rs"
proof (induction cs arbitrary: xs rs)
  case (Cons c cs)
  then show ?case by (cases c) (fastforce simp: Let_def split: prod.splits if_splits list.splits)+
qed simp

locale fifo =
  fixes cap :: nat
    and repr :: "'s \<Rightarrow> 'a list \<Rightarrow> bool"
    and push :: "'a \<Rightarrow> 's \<Rightarrow> (bool \<times> 's) option"
    and front :: "'s \<Rightarrow> ('e + 'a) option"
    and pop :: "'s \<Rightarrow> (bool \<times> 's) option"
  assumes push_room: "repr s xs \<Longrightarrow> length xs < cap \<Longrightarrow> \<exists>s'. push v s = Some (True, s') \<and> repr s' (xs @ [v])"
    and front_value: "repr s (x # xs) \<Longrightarrow> front s = Some (Inr x)"
    and front_empty: "repr s [] \<Longrightarrow> \<exists>e. front s = Some (Inl e)"
    and pop_value: "repr s (x # xs) \<Longrightarrow> \<exists>s'. pop s = Some (True, s') \<and> repr s' xs"
    and pop_nothing: "repr s [] \<Longrightarrow> pop s = Some (False, s)"
begin

lemma step_repr:
  assumes "repr s xs" "length xs < cap \<or> c = Take"
  shows "\<exists>s'. fifo_step push front pop c s = Some (fst (list_step cap c xs), s') \<and> repr s' (snd (list_step cap c xs))"
proof (cases c)
  case (Put v)
  then obtain s' where "push v s = Some (True, s')" "repr s' (xs @ [v])" "length xs < cap"
    using assms push_room by blast
  then show ?thesis using Put by simp
next
  case Take
  show ?thesis
  proof (cases xs)
    case Nil
    then obtain e where "front s = Some (Inl e)" using assms(1) front_empty by blast
    then show ?thesis using assms(1) Nil Take by simp
  next
    case (Cons x ys)
    then obtain s' where "front s = Some (Inr x)" "pop s = Some (True, s')" "repr s' ys"
      using assms(1) front_value pop_value by blast
    then show ?thesis using Cons Take by simp
  qed
qed

end

text \<open>A container that refuses an element when it is full.\<close>

locale bounded_fifo = fifo +
  assumes repr_bound: "repr s xs \<Longrightarrow> length xs \<le> cap"
    and push_full: "repr s xs \<Longrightarrow> length xs = cap \<Longrightarrow> push v s = Some (False, s)"
begin

lemma bounded_step:
  assumes "repr s xs"
  shows "\<exists>s'. fifo_step push front pop c s = Some (fst (list_step cap c xs), s') \<and> repr s' (snd (list_step cap c xs))"
proof (cases "length xs < cap \<or> c = Take")
  case False
  then show ?thesis using assms repr_bound [OF assms] push_full [OF assms] by (cases c) auto
qed (rule step_repr [OF assms])

lemma run_repr:
  "repr s xs \<Longrightarrow> \<exists>s'. fifo_run (fifo_step push front pop) cs s = Some (fst (list_run cap cs xs), s') \<and>
     repr s' (snd (list_run cap cs xs))"
proof (induction cs arbitrary: s xs)
  case (Cons c cs)
  obtain r ys where l: "list_step cap c xs = (r, ys)" by (cases "list_step cap c xs") auto
  obtain s1 where s1: "fifo_step push front pop c s = Some (r, s1)" "repr s1 ys"
    using bounded_step [OF Cons.prems, of c] l by auto
  obtain rs zs where rs: "list_run cap cs ys = (rs, zs)" by (cases "list_run cap cs ys") auto
  then obtain s2 where "fifo_run (fifo_step push front pop) cs s1 = Some (rs, s2)" "repr s2 zs"
    using Cons.IH [OF s1(2)] by auto
  then show ?case using s1 l rs by (intro exI [of _ s2]) simp
qed simp

end

text \<open>A container that is open at both ends.\<close>

datatype 'a deque_op = PushBack 'a | PushFront 'a | PopFront | PopBack

fun deque_step ::
    "('a \<Rightarrow> 's \<Rightarrow> (bool \<times> 's) option) \<Rightarrow> ('s \<Rightarrow> (bool \<times> 's) option) \<Rightarrow> ('a \<Rightarrow> 's \<Rightarrow> (bool \<times> 's) option) \<Rightarrow>
     ('s \<Rightarrow> (bool \<times> 's) option) \<Rightarrow> 'a deque_op \<Rightarrow> 's \<Rightarrow> (bool \<times> 's) option" where
  "deque_step push pop push_front pop_back (PushBack v) s = push v s"
| "deque_step push pop push_front pop_back (PushFront v) s = push_front v s"
| "deque_step push pop push_front pop_back PopFront s = pop s"
| "deque_step push pop push_front pop_back PopBack s = pop_back s"

fun deque_run :: "('a deque_op \<Rightarrow> 's \<Rightarrow> (bool \<times> 's) option) \<Rightarrow> 'a deque_op list \<Rightarrow> 's \<Rightarrow> (bool list \<times> 's) option" where
  "deque_run f [] s = Some ([], s)"
| "deque_run f (c # cs) s = do { (b, s) \<leftarrow> f c s; (bs, s) \<leftarrow> deque_run f cs s; Some (b # bs, s) }"

fun on_list :: "'a deque_op \<Rightarrow> 'a list \<Rightarrow> 'a list" where
  "on_list (PushBack v) xs = xs @ [v]"
| "on_list (PushFront v) xs = v # xs"
| "on_list PopFront xs = tl xs"
| "on_list PopBack xs = butlast xs"

fun deque_flag :: "'a deque_op \<Rightarrow> 'a list \<Rightarrow> bool" where
  "deque_flag (PushBack v) xs = True"
| "deque_flag (PushFront v) xs = True"
| "deque_flag c xs = (xs \<noteq> [])"

fun deque_flags :: "'a deque_op list \<Rightarrow> 'a list \<Rightarrow> bool list" where
  "deque_flags [] xs = []"
| "deque_flags (c # cs) xs = deque_flag c xs # deque_flags cs (on_list c xs)"

locale deque = fifo cap repr push front pop
  for cap :: nat
    and repr :: "'s \<Rightarrow> 'a list \<Rightarrow> bool"
    and push :: "'a \<Rightarrow> 's \<Rightarrow> (bool \<times> 's) option"
    and front :: "'s \<Rightarrow> ('e + 'a) option"
    and pop :: "'s \<Rightarrow> (bool \<times> 's) option" +
  fixes push_front :: "'a \<Rightarrow> 's \<Rightarrow> (bool \<times> 's) option"
    and pop_back :: "'s \<Rightarrow> (bool \<times> 's) option"
  assumes push_front_room: "repr s xs \<Longrightarrow> length xs < cap \<Longrightarrow> \<exists>s'. push_front v s = Some (True, s') \<and> repr s' (v # xs)"
    and pop_back_value: "repr s (xs @ [x]) \<Longrightarrow> \<exists>s'. pop_back s = Some (True, s') \<and> repr s' xs"
    and pop_back_nothing: "repr s [] \<Longrightarrow> pop_back s = Some (False, s)"
begin

lemma deque_step_repr:
  assumes "repr s xs" "length xs < cap"
  shows "\<exists>s'. deque_step push pop push_front pop_back c s = Some (deque_flag c xs, s') \<and> repr s' (on_list c xs)"
proof (cases c)
  case PopFront
  then show ?thesis using assms pop_value pop_nothing by (cases xs) auto
next
  case PopBack
  then show ?thesis using assms pop_back_value pop_back_nothing by (cases xs rule: rev_cases) auto
qed (use assms push_room push_front_room in auto)

lemma deque_repr:
  "repr s xs \<Longrightarrow> length xs + length cs \<le> cap \<Longrightarrow>
   \<exists>s'. deque_run (deque_step push pop push_front pop_back) cs s = Some (deque_flags cs xs, s') \<and> repr s' (fold on_list cs xs)"
proof (induction cs arbitrary: s xs)
  case (Cons c cs)
  obtain s1 where s1: "deque_step push pop push_front pop_back c s = Some (deque_flag c xs, s1)" "repr s1 (on_list c xs)"
    using deque_step_repr [OF Cons.prems(1), of c] Cons.prems(2) by auto
  have "length (on_list c xs) + length cs \<le> cap" using Cons.prems(2) by (cases c) auto
  then obtain s2 where "deque_run (deque_step push pop push_front pop_back) cs s1 = Some (deque_flags cs (on_list c xs), s2)"
    "repr s2 (fold on_list cs (on_list c xs))"
    using Cons.IH [OF s1(2)] by blast
  then show ?case using s1(1) by (intro exI [of _ s2]) simp
qed simp

end

end
