(* ===== verification/Linked_List.thy ===== *)
theory Linked_List
  imports Fifo
begin

text \<open>
  \<open>upan::list\<close> (\<open>libustd/ds/list.h\<close>), a circular doubly linked list with a 32 bit counter of its elements.
  Nodes live in a heap; an access through a null or a deleted pointer yields \<open>None\<close>, and so does a loop that does not
  end. \<open>operator new\<close> is the parameter \<open>new\<close>, which names the next node; null makes the constructor fault. An
  iterator is the address of its node; the end iterator is null. The counter is an \<open>atomic::integral\<close>.
\<close>

section \<open>The code\<close>

record 'a lnode =
  ln_value :: 'a
  ln_next :: addr
  ln_prev :: addr

type_synonym 'a lheap = "addr \<Rightarrow> 'a lnode option"

record llist =
  ll_size :: "32 word"
  ll_first :: addr

datatype list_error = ListEndIterator | ListIsEmpty | ListIndexOutOfBounds

definition set_next :: "'a lheap \<Rightarrow> addr \<Rightarrow> addr \<Rightarrow> 'a lheap option" where
  "set_next h n p = do { x \<leftarrow> h n; Some (h(n \<mapsto> x\<lparr>ln_next := p\<rparr>)) }"

definition set_prev :: "'a lheap \<Rightarrow> addr \<Rightarrow> addr \<Rightarrow> 'a lheap option" where
  "set_prev h n p = do { x \<leftarrow> h n; Some (h(n \<mapsto> x\<lparr>ln_prev := p\<rparr>)) }"

definition new_lnode :: "('a lheap \<Rightarrow> addr) \<Rightarrow> 'a lheap \<Rightarrow> 'a \<Rightarrow> (addr \<times> 'a lheap) option" where
  "new_lnode new h v = (let n = new h in
     if n = NULL then None else Some (n, h(n \<mapsto> \<lparr>ln_value = v, ln_next = NULL, ln_prev = NULL\<rparr>)))"

definition free_lnode :: "'a lheap \<Rightarrow> addr \<Rightarrow> 'a lheap option" where
  "free_lnode h n = (if h n = None then None else Some (h(n := None)))"

definition ll_empty :: "llist \<Rightarrow> bool" where
  "ll_empty l \<longleftrightarrow> ll_size l = 0"

definition ll_init :: llist where
  "ll_init = \<lparr>ll_size = 0, ll_first = NULL\<rparr>"

definition ll_last :: "'a lheap \<Rightarrow> llist \<Rightarrow> addr option" where
  "ll_last h l = (if ll_first l = NULL then Some NULL else map_option ln_prev (h (ll_first l)))"

definition push_back :: "('a lheap \<Rightarrow> addr) \<Rightarrow> 'a \<Rightarrow> llist \<times> 'a lheap \<Rightarrow> (llist \<times> 'a lheap) option" where
  "push_back new v s = do {
     let (l, h) = s;
     (n, h) \<leftarrow> new_lnode new h v;
     (l, h) \<leftarrow>
       (if ll_empty l then do {
          h \<leftarrow> set_next h n n;
          h \<leftarrow> set_prev h n n;
          Some (l\<lparr>ll_first := n\<rparr>, h) }
        else do {
          z \<leftarrow> ll_last h l;
          h \<leftarrow> set_next h z n;
          h \<leftarrow> set_prev h n z;
          h \<leftarrow> set_next h n (ll_first l);
          h \<leftarrow> set_prev h (ll_first l) n;
          Some (l, h) });
     Some (l\<lparr>ll_size := ll_size l + 1\<rparr>, h) }"

definition push_front :: "('a lheap \<Rightarrow> addr) \<Rightarrow> 'a \<Rightarrow> llist \<times> 'a lheap \<Rightarrow> (llist \<times> 'a lheap) option" where
  "push_front new v s = do {
     (l, h) \<leftarrow> push_back new v s;
     x \<leftarrow> h (ll_first l);
     Some (l\<lparr>ll_first := ln_prev x\<rparr>, h) }"

definition delete_lnode :: "addr \<Rightarrow> llist \<times> 'a lheap \<Rightarrow> (bool \<times> llist \<times> 'a lheap) option" where
  "delete_lnode cur s = (let (l, h) = s in
     if ll_size l = 1 then
       if ll_first l = cur then do {
         h \<leftarrow> free_lnode h cur;
         Some (True, l\<lparr>ll_first := NULL, ll_size := ll_size l - 1\<rparr>, h) }
       else Some (False, l, h)
     else do {
       x \<leftarrow> h cur;
       h \<leftarrow> set_next h (ln_prev x) (ln_next x);
       x \<leftarrow> h cur;
       h \<leftarrow> set_prev h (ln_next x) (ln_prev x);
       x \<leftarrow> h cur;
       let l = (if cur = ll_first l then l\<lparr>ll_first := ln_next x\<rparr> else l);
       h \<leftarrow> free_lnode h cur;
       Some (True, l\<lparr>ll_size := ll_size l - 1\<rparr>, h) })"

definition erase_at :: "addr \<Rightarrow> llist \<times> 'a lheap \<Rightarrow> (bool \<times> llist \<times> 'a lheap) option" where
  "erase_at i s =
     (if i = NULL then Some (False, s)
      else if ll_empty (fst s) then Some (False, s)
      else delete_lnode i s)"

definition pop :: "bool \<Rightarrow> llist \<times> 'a lheap \<Rightarrow> (bool \<times> llist \<times> 'a lheap) option" where
  "pop front s = (let (l, h) = s in
     if ll_empty l then Some (False, l, h)
     else do {
       f \<leftarrow> h (ll_first l);
       let cur = (if front then ll_first l else ln_prev f);
       (l, h) \<leftarrow>
         (if ll_size l = 1 then Some (l\<lparr>ll_first := NULL\<rparr>, h)
          else do {
            x \<leftarrow> h cur;
            h \<leftarrow> set_next h (ln_prev x) (ln_next x);
            x \<leftarrow> h cur;
            h \<leftarrow> set_prev h (ln_next x) (ln_prev x);
            x \<leftarrow> h cur;
            Some (if front then l\<lparr>ll_first := ln_next x\<rparr> else l, h) });
       h \<leftarrow> free_lnode h cur;
       Some (True, l\<lparr>ll_size := ll_size l - 1\<rparr>, h) })"

definition pop_front :: "llist \<times> 'a lheap \<Rightarrow> (bool \<times> llist \<times> 'a lheap) option" where
  "pop_front s = pop True s"

definition pop_back :: "llist \<times> 'a lheap \<Rightarrow> (bool \<times> llist \<times> 'a lheap) option" where
  "pop_back s = pop False s"

definition ll_front :: "llist \<times> 'a lheap \<Rightarrow> (list_error + 'a) option" where
  "ll_front s = (if ll_empty (fst s) then Some (Inl ListIsEmpty)
     else do { x \<leftarrow> snd s (ll_first (fst s)); Some (Inr (ln_value x)) })"

definition ll_back :: "llist \<times> 'a lheap \<Rightarrow> (list_error + 'a) option" where
  "ll_back s = (if ll_empty (fst s) then Some (Inl ListIsEmpty)
     else do { x \<leftarrow> snd s (ll_first (fst s)); y \<leftarrow> snd s (ln_prev x); Some (Inr (ln_value y)) })"

text \<open>Iterators; incrementing the end iterator throws.\<close>

definition it_value :: "'a lheap \<Rightarrow> addr \<Rightarrow> (list_error + 'a) option" where
  "it_value h i = (if i = NULL then Some (Inl ListEndIterator) else do { x \<leftarrow> h i; Some (Inr (ln_value x)) })"

definition it_next :: "llist \<times> 'a lheap \<Rightarrow> addr \<Rightarrow> (list_error + addr) option" where
  "it_next s i = (if i = NULL then Some (Inl ListEndIterator)
     else do { x \<leftarrow> snd s i; Some (Inr (if ll_first (fst s) = ln_next x then NULL else ln_next x)) })"

definition rit_next :: "llist \<times> 'a lheap \<Rightarrow> addr \<Rightarrow> (list_error + addr) option" where
  "rit_next s i = (if i = NULL then Some (Inl ListEndIterator)
     else do {
       x \<leftarrow> snd s i;
       z \<leftarrow> ll_last (snd s) (fst s);
       Some (Inr (if z = ln_prev x then NULL else ln_prev x)) })"

text \<open>
  The loop \<open>for (; i != end(); ++i) if (P(*i)) break;\<close> of \<open>find\<close>, \<open>find_if\<close> and the sorted insertions. The two
  exceptions cannot be thrown, since \<open>i\<close> is not at the end.
\<close>

partial_function (option) find_from :: "llist \<times> 'a lheap \<Rightarrow> addr \<Rightarrow> ('a \<Rightarrow> bool) \<Rightarrow> (list_error + addr) option" where
  "find_from s i P =
     (if i = NULL then Some (Inr i)
      else do {
        v \<leftarrow> it_value (snd s) i;
        case v of Inl e \<Rightarrow> Some (Inl e)
        | Inr v \<Rightarrow>
            if P v then Some (Inr i)
            else do {
              j \<leftarrow> it_next s i;
              case j of Inl e \<Rightarrow> Some (Inl e) | Inr j \<Rightarrow> find_from s j P } })"

definition erase_value :: "'a \<Rightarrow> llist \<times> 'a lheap \<Rightarrow> (list_error + bool \<times> llist \<times> 'a lheap) option" where
  "erase_value v s = do {
     i \<leftarrow> find_from s (ll_first (fst s)) (\<lambda>w. w = v);
     case i of Inl e \<Rightarrow> Some (Inl e) | Inr i \<Rightarrow> map_option Inr (erase_at i s) }"

definition insert_before ::
    "('a lheap \<Rightarrow> addr) \<Rightarrow> addr \<Rightarrow> 'a \<Rightarrow> llist \<times> 'a lheap \<Rightarrow> (addr \<times> llist \<times> 'a lheap) option" where
  "insert_before new pos v s =
     (if pos = NULL then do {
        (l, h) \<leftarrow> push_back new v s;
        z \<leftarrow> ll_last h l;
        Some (z, l, h) }
      else if pos = ll_first (fst s) then do {
        (l, h) \<leftarrow> push_front new v s;
        Some (ll_first l, l, h) }
      else do {
        let (l, h) = s;
        let l = l\<lparr>ll_size := ll_size l + 1\<rparr>;
        (n, h) \<leftarrow> new_lnode new h v;
        x \<leftarrow> h pos;
        h \<leftarrow> set_next h (ln_prev x) n;
        x \<leftarrow> h pos;
        h \<leftarrow> set_prev h n (ln_prev x);
        h \<leftarrow> set_next h n pos;
        h \<leftarrow> set_prev h pos n;
        Some (n, l, h) })"

definition sorted_insert ::
    "('a \<Rightarrow> bool) \<Rightarrow> ('a lheap \<Rightarrow> addr) \<Rightarrow> 'a \<Rightarrow> llist \<times> 'a lheap \<Rightarrow> (list_error + addr \<times> llist \<times> 'a lheap) option" where
  "sorted_insert stop new v s = do {
     i \<leftarrow> find_from s (ll_first (fst s)) stop;
     case i of Inl e \<Rightarrow> Some (Inl e) | Inr i \<Rightarrow> map_option Inr (insert_before new i v s) }"

definition sorted_insert_asc ::
    "('a::linorder lheap \<Rightarrow> addr) \<Rightarrow> 'a \<Rightarrow> llist \<times> 'a lheap \<Rightarrow> (list_error + addr \<times> llist \<times> 'a lheap) option" where
  "sorted_insert_asc new v s = sorted_insert (\<lambda>w. v < w \<or> \<not> w < v) new v s"

definition sorted_insert_desc ::
    "('a::linorder lheap \<Rightarrow> addr) \<Rightarrow> 'a \<Rightarrow> llist \<times> 'a lheap \<Rightarrow> (list_error + addr \<times> llist \<times> 'a lheap) option" where
  "sorted_insert_desc new v s = sorted_insert (\<lambda>w. w < v \<or> \<not> v < w) new v s"

definition sorted_insert_comp ::
    "('a \<Rightarrow> 'a \<Rightarrow> bool) \<Rightarrow> ('a lheap \<Rightarrow> addr) \<Rightarrow> 'a \<Rightarrow> llist \<times> 'a lheap \<Rightarrow>
     (list_error + addr \<times> llist \<times> 'a lheap) option" where
  "sorted_insert_comp precedes new v s = sorted_insert (\<lambda>w. precedes v w) new v s"

text \<open>\<open>foreach\<close> with the elements collected, \<open>clear\<close>, and the indexing operator.\<close>

partial_function (option) list_foreach_from :: "llist \<times> 'a lheap \<Rightarrow> addr \<Rightarrow> 'a list \<Rightarrow> (list_error + 'a list) option" where
  "list_foreach_from s i seen =
     (if i = NULL then Some (Inr seen)
      else do {
        j \<leftarrow> it_next s i;
        case j of Inl e \<Rightarrow> Some (Inl e)
        | Inr j \<Rightarrow> do {
            v \<leftarrow> it_value (snd s) i;
            case v of Inl e \<Rightarrow> Some (Inl e) | Inr v \<Rightarrow> list_foreach_from s j (seen @ [v]) } })"

definition list_foreach :: "llist \<times> 'a lheap \<Rightarrow> (list_error + 'a list) option" where
  "list_foreach s = list_foreach_from s (ll_first (fst s)) []"

partial_function (option) ll_clear_from :: "llist \<Rightarrow> 'a lheap \<Rightarrow> addr \<Rightarrow> (list_error + 'a lheap) option" where
  "ll_clear_from l h i =
     (if i = NULL then Some (Inr h)
      else do {
        j \<leftarrow> it_next (l, h) i;
        case j of Inl e \<Rightarrow> Some (Inl e)
        | Inr j \<Rightarrow> do { h \<leftarrow> free_lnode h i; ll_clear_from l h j } })"

definition ll_clear :: "llist \<times> 'a lheap \<Rightarrow> (list_error + llist \<times> 'a lheap) option" where
  "ll_clear s = do {
     r \<leftarrow> ll_clear_from (fst s) (snd s) (ll_first (fst s));
     case r of Inl e \<Rightarrow> Some (Inl e) | Inr h \<Rightarrow> Some (Inr ((fst s)\<lparr>ll_first := NULL, ll_size := 0\<rparr>, h)) }"

fun it_advance :: "llist \<times> 'a lheap \<Rightarrow> nat \<Rightarrow> addr \<Rightarrow> (list_error + addr) option" where
  "it_advance s 0 i = Some (Inr i)"
| "it_advance s (Suc n) i = do {
     j \<leftarrow> it_next s i;
     case j of Inl e \<Rightarrow> Some (Inl e) | Inr j \<Rightarrow> it_advance s n j }"

definition ll_index :: "int \<Rightarrow> llist \<times> 'a lheap \<Rightarrow> (list_error + 'a) option" where
  "ll_index index s =
     (if index < 0 \<or> index \<ge> sint (ll_size (fst s)) then Some (Inl ListIndexOutOfBounds)
      else do {
        i \<leftarrow> it_advance s (nat index) (ll_first (fst s));
        case i of Inl e \<Rightarrow> Some (Inl e) | Inr i \<Rightarrow> it_value (snd s) i })"

text \<open>The constructors from an initializer list and from another list, whose elements are pushed one by one.\<close>

fun push_all :: "('a lheap \<Rightarrow> addr) \<Rightarrow> 'a list \<Rightarrow> llist \<times> 'a lheap \<Rightarrow> (llist \<times> 'a lheap) option" where
  "push_all new [] s = Some s"
| "push_all new (v # vs) s = do { s \<leftarrow> push_back new v s; push_all new vs s }"

definition ll_of_list :: "('a lheap \<Rightarrow> addr) \<Rightarrow> 'a list \<Rightarrow> 'a lheap \<Rightarrow> (llist \<times> 'a lheap) option" where
  "ll_of_list new vs h = push_all new vs (ll_init, h)"

partial_function (option) copy_from ::
    "('a lheap \<Rightarrow> addr) \<Rightarrow> llist \<Rightarrow> addr \<Rightarrow> llist \<times> 'a lheap \<Rightarrow> (list_error + llist \<times> 'a lheap) option" where
  "copy_from new rhs i s =
     (if i = NULL then Some (Inr s)
      else do {
        v \<leftarrow> it_value (snd s) i;
        case v of Inl e \<Rightarrow> Some (Inl e)
        | Inr v \<Rightarrow> do {
            s \<leftarrow> push_back new v s;
            j \<leftarrow> it_next (rhs, snd s) i;
            case j of Inl e \<Rightarrow> Some (Inl e) | Inr j \<Rightarrow> copy_from new rhs j s } })"

definition ll_copy :: "('a lheap \<Rightarrow> addr) \<Rightarrow> llist \<Rightarrow> 'a lheap \<Rightarrow> (list_error + llist \<times> 'a lheap) option" where
  "ll_copy new rhs h = copy_from new rhs (ll_first rhs) (ll_init, h)"

section \<open>The ring\<close>

text \<open>
  A segment of the ring: the nodes of \<open>cs\<close> in order, entered from \<open>p\<close> and left to \<open>n\<close>; the ring is a segment that
  is entered from its own end.
\<close>

definition first_of :: "(addr \<times> 'a) list \<Rightarrow> addr \<Rightarrow> addr" where
  "first_of cs n = (case cs of [] \<Rightarrow> n | c # _ \<Rightarrow> fst c)"

definition last_of :: "(addr \<times> 'a) list \<Rightarrow> addr \<Rightarrow> addr" where
  "last_of cs p = (if cs = [] then p else fst (last cs))"

fun seg :: "'a lheap \<Rightarrow> addr \<Rightarrow> (addr \<times> 'a) list \<Rightarrow> addr \<Rightarrow> bool" where
  "seg h p [] n = True"
| "seg h p (c # cs) n =
     (h (fst c) = Some \<lparr>ln_value = snd c, ln_next = first_of cs n, ln_prev = p\<rparr> \<and> fst c \<noteq> NULL \<and> seg h (fst c) cs n)"

definition ring :: "'a lheap \<Rightarrow> (addr \<times> 'a) list \<Rightarrow> bool" where
  "ring h cs \<longleftrightarrow> distinct (map fst cs) \<and> seg h (last_of cs NULL) cs (first_of cs NULL)"

lemma ends_simps [simp]:
  "first_of [] n = n" "first_of (c # cs) n = fst c" "first_of (cs @ ds) n = first_of cs (first_of ds n)"
  "last_of [] p = p" "last_of (cs @ [c]) p = fst c" "last_of (c # cs) p = last_of cs (fst c)"
  "last_of (cs @ ds) p = last_of ds (last_of cs p)"
  by (auto simp: first_of_def last_of_def split: list.splits)

lemma seg_append [simp]:
  "seg h p (cs @ ds) n \<longleftrightarrow> seg h p cs (first_of ds n) \<and> seg h (last_of cs p) ds n"
  by (induction cs arbitrary: p) auto

lemma seg_cong: "(\<And>a. a \<in> fst ` set cs \<Longrightarrow> h' a = h a) \<Longrightarrow> seg h' p cs n = seg h p cs n"
  by (induction cs arbitrary: p) auto

lemma seg_upd [simp]: "a \<notin> fst ` set cs \<Longrightarrow> seg (h(a := v)) p cs n = seg h p cs n"
  by (rule seg_cong) auto

lemma seg_at: "seg h p cs n \<Longrightarrow> a \<in> fst ` set cs \<Longrightarrow> a \<noteq> NULL \<and> h a \<noteq> None"
  by (induction cs arbitrary: p) auto

text \<open>A ring may be entered anywhere.\<close>

lemma ring_rotate: "ring h (cs @ ds) \<Longrightarrow> ring h (ds @ cs)"
  by (cases cs; cases ds) (auto simp: ring_def)

lemma ring_at: "ring h cs \<Longrightarrow> a \<in> fst ` set cs \<Longrightarrow> a \<noteq> NULL \<and> h a \<noteq> None"
  unfolding ring_def using seg_at by metis


text \<open>
  The four writes that link a new node \<open>n\<close> between the last node and the first one, and the two that take a node
  out, for a ring that is entered at the right place.
\<close>

lemma ring_ends:
  assumes "ring h cs" "cs \<noteq> []"
  obtains x y where "h (first_of cs NULL) = Some x" "ln_prev x = last_of cs NULL" "h (last_of cs NULL) = Some y"
    "ln_next y = first_of cs NULL" "first_of cs NULL \<noteq> NULL" "last_of cs NULL \<noteq> NULL"
proof (cases cs rule: rev_cases)
  case (snoc ds d)
  then show ?thesis using assms(1) that by (cases ds) (auto simp: ring_def)
qed (use assms in auto)

definition changed_at :: "addr set \<Rightarrow> 'a lheap \<Rightarrow> 'a lheap \<Rightarrow> bool" where
  "changed_at S h h' \<longleftrightarrow> (\<forall>a. a \<notin> S \<longrightarrow> h' a = h a)"

lemma changed_at_finite: "changed_at S h h' \<Longrightarrow> finite S \<Longrightarrow> finite (dom h) \<Longrightarrow> finite (dom h')"
proof (rule finite_subset [of _ "dom h \<union> S"])
  show "changed_at S h h' \<Longrightarrow> dom h' \<subseteq> dom h \<union> S" by (fastforce simp: changed_at_def domIff)
qed simp

lemma ring_link:
  assumes r: "ring h cs" "cs \<noteq> []" and n: "n \<noteq> NULL" "h n = None" and h0: "h0 = h(n \<mapsto> \<lparr>ln_value = v, ln_next = q, ln_prev = p\<rparr>)"
  obtains h1 h2 h3 h4 where "set_next h0 (last_of cs NULL) n = Some h1" "set_prev h1 n (last_of cs NULL) = Some h2"
    "set_next h2 n (first_of cs NULL) = Some h3" "set_prev h3 (first_of cs NULL) n = Some h4"
    "ring h4 (cs @ [(n, v)])" "changed_at (insert n (fst ` set cs)) h h4" "map_option ln_prev (h1 (first_of cs NULL)) = Some (last_of cs NULL)"
proof -
  have out: "n \<notin> fst ` set cs" using ring_at [OF r(1), of n] n(2) by blast
  show thesis
  proof (cases cs rule: rev_cases)
    case (snoc ds d)
    show thesis
    proof (cases ds)
      case Nil
      with snoc r out that show thesis by (auto simp: ring_def h0 set_next_def set_prev_def changed_at_def n)
    next
      case (Cons c es)
      with snoc r out that show thesis by (auto simp: ring_def h0 set_next_def set_prev_def changed_at_def n)
    qed
  qed (use r in simp)
qed

lemma ring_unlink:
  assumes "ring h (c # ds)" "ds \<noteq> []"
  obtains x h1 h2 where "h (fst c) = Some x" "ln_value x = snd c" "ln_prev x = last_of ds NULL" "ln_next x = first_of ds NULL"
    "set_next h (last_of ds NULL) (first_of ds NULL) = Some h1" "h1 (fst c) = Some x"
    "set_prev h1 (first_of ds NULL) (last_of ds NULL) = Some h2" "h2 (fst c) = Some x"
    "ring (h2(fst c := None)) ds" "changed_at (fst ` set (c # ds)) h h2"
proof (cases ds rule: rev_cases)
  case (snoc es d)
  show thesis
  proof (cases es)
    case Nil
    let ?y = "\<lparr>ln_value = snd d, ln_next = fst d, ln_prev = fst c\<rparr>"
    show thesis
      by (rule that [of "\<lparr>ln_value = snd c, ln_next = fst d, ln_prev = fst d\<rparr>" "h(fst d \<mapsto> ?y)" "h(fst d \<mapsto> ?y\<lparr>ln_prev := fst d\<rparr>)"])
        (use snoc Nil assms in \<open>auto simp: ring_def set_next_def set_prev_def changed_at_def\<close>)
  next
    case (Cons b bs)
    let ?y = "\<lparr>ln_value = snd d, ln_next = fst b, ln_prev = last_of bs (fst b)\<rparr>"
    let ?z = "\<lparr>ln_value = snd b, ln_next = first_of bs (fst d), ln_prev = fst d\<rparr>"
    show thesis
      by (rule that [of "\<lparr>ln_value = snd c, ln_next = fst b, ln_prev = fst d\<rparr>" "h(fst d \<mapsto> ?y)" "h(fst d \<mapsto> ?y, fst b \<mapsto> ?z)"])
        (use snoc Cons assms in \<open>auto simp: ring_def set_next_def set_prev_def changed_at_def\<close>)
  qed
qed (use assms in simp)

section \<open>The object\<close>

definition list_ok :: "llist \<times> 'a lheap \<Rightarrow> (addr \<times> 'a) list \<Rightarrow> bool" where
  "list_ok s cs \<longleftrightarrow> ring (snd s) cs \<and> ll_first (fst s) = first_of cs NULL \<and> ll_size (fst s) = of_nat (length cs) \<and>
     length cs < 2 ^ 32 \<and> finite (dom (snd s))"

definition fresh_lnodes :: "('a lheap \<Rightarrow> addr) \<Rightarrow> bool" where
  "fresh_lnodes new \<longleftrightarrow> (\<forall>h. finite (dom h) \<longrightarrow> new h \<noteq> NULL \<and> h (new h) = None)"

lemma count_inject: "m < 2 ^ 32 \<Longrightarrow> n < 2 ^ 32 \<Longrightarrow> (of_nat m :: 32 word) = of_nat n \<longleftrightarrow> m = n"
  by (simp add: word_of_nat_eq_iff take_bit_nat_eq_self)

lemmas count_eq_0 = count_inject [of _ 0, simplified]
lemmas count_eq_1 = count_inject [of _ 1, simplified]

lemma list_okD:
  assumes "list_ok (l, h) cs"
  shows "ring h cs" "ll_first l = first_of cs NULL" "ll_size l = of_nat (length cs)" "length cs < 2 ^ 32" "finite (dom h)"
    "ll_empty l \<longleftrightarrow> cs = []" "ll_size l = 1 \<longleftrightarrow> (\<exists>c. cs = [c])"
  using assms by (auto simp: list_ok_def ll_empty_def count_eq_0 count_eq_1 length_Suc_conv)

lemma list_okI:
  "ring h cs \<Longrightarrow> ll_first l = first_of cs NULL \<Longrightarrow> ll_size l = of_nat (length cs) \<Longrightarrow> length cs < 2 ^ 32 \<Longrightarrow> finite (dom h) \<Longrightarrow>
   list_ok (l, h) cs"
  by (simp add: list_ok_def)

lemma fresh_lnodesD: "fresh_lnodes new \<Longrightarrow> finite (dom h) \<Longrightarrow> new h \<noteq> NULL \<and> h (new h) = None"
  by (simp add: fresh_lnodes_def)

lemma list_ok_empty: "finite (dom h) \<Longrightarrow> list_ok (ll_init, h) []"
  by (simp add: list_ok_def ll_init_def ring_def)

lemma push_back_ok:
  assumes ok: "list_ok (l, h) cs" and new: "fresh_lnodes new" and room: "Suc (length cs) < 2 ^ 32"
  shows "\<exists>l' h'. push_back new v (l, h) = Some (l', h') \<and> list_ok (l', h') (cs @ [(new h, v)]) \<and>
    changed_at (insert (new h) (fst ` set cs)) h h'"
proof -
  note d = list_okD [OF ok]
  have n: "new h \<noteq> NULL" "h (new h) = None" using fresh_lnodesD [OF new d(5)] by auto
  show ?thesis
  proof (cases "cs = []")
    case True
    have "push_back new v (l, h) = Some (l\<lparr>ll_first := new h, ll_size := ll_size l + 1\<rparr>,
        h(new h \<mapsto> \<lparr>ln_value = v, ln_next = new h, ln_prev = new h\<rparr>))"
      using True d(6) n by (simp add: push_back_def new_lnode_def Let_def set_next_def set_prev_def)
    moreover have "list_ok (l\<lparr>ll_first := new h, ll_size := ll_size l + 1\<rparr>,
        h(new h \<mapsto> \<lparr>ln_value = v, ln_next = new h, ln_prev = new h\<rparr>)) [(new h, v)]"
      using True d n by (intro list_okI) (auto simp: ring_def)
    ultimately show ?thesis using True by (auto simp: changed_at_def)
  next
    case False
    let ?h0 = "h(new h \<mapsto> \<lparr>ln_value = v, ln_next = NULL, ln_prev = NULL\<rparr>)"
    obtain h1 h2 h3 h4 where w: "set_next ?h0 (last_of cs NULL) (new h) = Some h1"
      "set_prev h1 (new h) (last_of cs NULL) = Some h2" "set_next h2 (new h) (first_of cs NULL) = Some h3"
      "set_prev h3 (first_of cs NULL) (new h) = Some h4" "ring h4 (cs @ [(new h, v)])"
      "changed_at (insert (new h) (fst ` set cs)) h h4"
      by (rule ring_link [OF d(1) False n refl])
    obtain x where x: "h (first_of cs NULL) = Some x" "ln_prev x = last_of cs NULL" "first_of cs NULL \<noteq> NULL"
      by (rule ring_ends [OF d(1) False])
    have "first_of cs NULL \<noteq> new h" using x n by auto
    then have "ll_last ?h0 l = Some (last_of cs NULL)" using x d(2) by (simp add: ll_last_def)
    then have "push_back new v (l, h) = Some (l\<lparr>ll_size := ll_size l + 1\<rparr>, h4)"
      using False d(2,6) n w by (simp add: push_back_def new_lnode_def Let_def)
    moreover have "list_ok (l\<lparr>ll_size := ll_size l + 1\<rparr>, h4) (cs @ [(new h, v)])"
      using False d w changed_at_finite [OF w(6)] room by (intro list_okI) (cases cs; simp)+
    ultimately show ?thesis using w by blast
  qed
qed

lemma push_front_ok:
  assumes ok: "list_ok (l, h) cs" and new: "fresh_lnodes new" and room: "Suc (length cs) < 2 ^ 32"
  shows "\<exists>l' h'. push_front new v (l, h) = Some (l', h') \<and> list_ok (l', h') ((new h, v) # cs) \<and>
    changed_at (insert (new h) (fst ` set cs)) h h'"
proof -
  obtain l' h' where p: "push_back new v (l, h) = Some (l', h')" "list_ok (l', h') (cs @ [(new h, v)])"
    "changed_at (insert (new h) (fst ` set cs)) h h'" using push_back_ok [OF assms] by blast
  note d = list_okD [OF p(2)]
  obtain x where x: "h' (first_of (cs @ [(new h, v)]) NULL) = Some x" "ln_prev x = last_of (cs @ [(new h, v)]) NULL"
    by (rule ring_ends [OF d(1)]) auto
  have "push_front new v (l, h) = Some (l'\<lparr>ll_first := new h\<rparr>, h')" using p(1) x d(2) by (simp add: push_front_def)
  moreover have "list_ok (l'\<lparr>ll_first := new h\<rparr>, h') ((new h, v) # cs)"
    using d ring_rotate [of h' cs "[(new h, v)]"] by (intro list_okI) auto
  ultimately show ?thesis using p(3) by blast
qed

lemma delete_lnode_ok:
  assumes ok: "list_ok (l, h) (as @ (a, v) # bs)"
  shows "\<exists>l' h'. delete_lnode a (l, h) = Some (True, l', h') \<and> list_ok (l', h') (as @ bs) \<and>
    h' a = None \<and> changed_at (fst ` set (as @ (a, v) # bs)) h h'"
proof (cases "as @ bs = []")
  case True
  note d = list_okD [OF ok]
  have "delete_lnode a (l, h) = Some (True, l\<lparr>ll_first := NULL, ll_size := ll_size l - 1\<rparr>, h(a := None))"
    using True d(1,2,3) by (auto simp: delete_lnode_def free_lnode_def ring_def)
  moreover have "list_ok (l\<lparr>ll_first := NULL, ll_size := ll_size l - 1\<rparr>, h(a := None)) []"
    using True d by (intro list_okI) (auto simp: ring_def)
  ultimately show ?thesis using True by (auto simp: changed_at_def)
next
  case False
  note d = list_okD [OF ok]
  have r: "ring h ((a, v) # bs @ as)" using ring_rotate [of h as "(a, v) # bs"] d(1) by simp
  have ne: "bs @ as \<noteq> []" using False by auto
  obtain x h1 h2 where w: "h a = Some x" "ln_prev x = last_of (bs @ as) NULL" "ln_next x = first_of (bs @ as) NULL"
    "set_next h (last_of (bs @ as) NULL) (first_of (bs @ as) NULL) = Some h1" "h1 a = Some x"
    "set_prev h1 (first_of (bs @ as) NULL) (last_of (bs @ as) NULL) = Some h2" "h2 a = Some x"
    "ring (h2(a := None)) (bs @ as)" "changed_at (fst ` set ((a, v) # bs @ as)) h h2"
    by (rule ring_unlink [OF r ne, unfolded fst_conv])
  let ?l = "(if a = ll_first l then l\<lparr>ll_first := ln_next x\<rparr> else l)\<lparr>ll_size := ll_size l - 1\<rparr>"
  have one: "ll_size l \<noteq> 1" using d(7) False by (auto simp: append_eq_Cons_conv)
  have "delete_lnode a (l, h) = Some (True, ?l, h2(a := None))"
    using one w by (simp add: delete_lnode_def Let_def free_lnode_def)
  moreover have "list_ok (?l, h2(a := None)) (as @ bs)"
  proof (rule list_okI)
    show "ring (h2(a := None)) (as @ bs)" using ring_rotate [OF w(8)] .
    show "ll_first ?l = first_of (as @ bs) NULL" using d(1,2) w(3) False by (cases as) (auto simp: ring_def)
    show "finite (dom (h2(a := None)))" using changed_at_finite [OF w(9)] d(5) by simp
  qed (use d(3,4) in auto)
  ultimately show ?thesis using w(9) by (auto simp: changed_at_def)
qed

lemma list_at:
  assumes "list_ok (l, h) (as @ (a, v) # bs)"
  obtains x where "h a = Some x" "ln_value x = v" "ln_next x = first_of (bs @ as) a" "ln_prev x = last_of (bs @ as) a" "a \<noteq> NULL"
proof (rule that)
  show "h a = Some \<lparr>ln_value = v, ln_next = first_of (bs @ as) a, ln_prev = last_of (bs @ as) a\<rparr>"
    using list_okD(1) [OF assms] by (simp add: ring_def)
  show "a \<noteq> NULL" using list_okD(1) [OF assms] by (simp add: ring_def)
qed simp_all

lemma pop_is_delete:
  assumes ok: "list_ok (l, h) cs" and ne: "cs \<noteq> []"
  shows "pop True (l, h) = delete_lnode (first_of cs NULL) (l, h)" "pop False (l, h) = delete_lnode (last_of cs NULL) (l, h)"
proof -
  note d = list_okD [OF ok]
  obtain x where x: "h (first_of cs NULL) = Some x" "ln_prev x = last_of cs NULL" by (rule ring_ends [OF d(1) ne])
  have ends: "last_of cs NULL \<noteq> first_of cs NULL" if "ll_size l \<noteq> 1"
  proof (cases cs rule: rev_cases)
    case (snoc bs b)
    then show ?thesis using that d(1,7) by (cases bs) (auto simp: ring_def)
  qed (use ne in simp)
  show "pop True (l, h) = delete_lnode (first_of cs NULL) (l, h)"
    using x d(2,6) ne by (cases "ll_size l = 1") (simp_all add: pop_def delete_lnode_def Let_def)
  have "last_of cs NULL = first_of cs NULL" if "ll_size l = 1" using d(7) that by auto
  then show "pop False (l, h) = delete_lnode (last_of cs NULL) (l, h)"
    using x d(2,6) ne ends by (cases "ll_size l = 1") (simp_all add: pop_def delete_lnode_def Let_def)
qed

lemma pop_front_ok:
  assumes "list_ok (l, h) ((a, v) # cs)"
  shows "\<exists>l' h'. pop_front (l, h) = Some (True, l', h') \<and> list_ok (l', h') cs"
  using delete_lnode_ok [of l h "[]" a v cs] pop_is_delete(1) [OF assms] assms by (auto simp: pop_front_def)

lemma pop_back_ok:
  assumes "list_ok (l, h) (cs @ [(a, v)])"
  shows "\<exists>l' h'. pop_back (l, h) = Some (True, l', h') \<and> list_ok (l', h') cs"
  using delete_lnode_ok [of l h cs a v "[]"] pop_is_delete(2) [OF assms] assms by (auto simp: pop_back_def)

lemma pop_empty: "list_ok (l, h) [] \<Longrightarrow> pop b (l, h) = Some (False, l, h)"
  by (simp add: pop_def list_okD(6))

lemma front_back_ok:
  assumes "list_ok (l, h) cs" "cs \<noteq> []"
  shows "ll_front (l, h) = Some (Inr (snd (hd cs)))" "ll_back (l, h) = Some (Inr (snd (last cs)))"
proof -
  note d = list_okD [OF assms(1)]
  obtain c ds where c: "cs = c # ds" using assms(2) by (cases cs) auto
  then obtain x where x: "h (fst c) = Some x" "ln_value x = snd c" "ln_prev x = last_of ds (fst c)"
    using list_at [of l h "[]" "fst c" "snd c" ds] assms(1) by auto
  then show "ll_front (l, h) = Some (Inr (snd (hd cs)))" using d(2,6) c by (simp add: ll_front_def)
  obtain bs b where b: "cs = bs @ [b]" using assms(2) by (cases cs rule: rev_cases) auto
  then obtain y where "h (fst b) = Some y" "ln_value y = snd b"
    using list_at [of l h bs "fst b" "snd b" "[]"] assms(1) by auto
  moreover have "ln_prev x = fst b" using x(3) b c by (cases bs) auto
  moreover have "last cs = b" using b by simp
  ultimately show "ll_back (l, h) = Some (Inr (snd (last cs)))" using d(2,6) c x by (simp add: ll_back_def)
qed

text \<open>Iterators\<close>

lemma it_next_ok:
  assumes "list_ok (l, h) (as @ (a, v) # bs)"
  shows "it_next (l, h) a = Some (Inr (first_of bs NULL))" "it_value h a = Some (Inr v)" "a \<noteq> NULL"
proof -
  note d = list_okD [OF assms]
  obtain x where x: "h a = Some x" "ln_value x = v" "ln_next x = first_of (bs @ as) a" "a \<noteq> NULL"
    by (rule list_at [OF assms])
  show "it_next (l, h) a = Some (Inr (first_of bs NULL))"
    using x d(1,2) by (cases bs; cases as) (auto simp: it_next_def ring_def)
  show "it_value h a = Some (Inr v)" "a \<noteq> NULL" using x by (auto simp: it_value_def)
qed

lemma rit_next_ok:
  assumes "list_ok (l, h) (as @ (a, v) # bs)"
  shows "rit_next (l, h) a = Some (Inr (last_of as NULL))"
proof -
  let ?cs = "as @ (a, v) # bs"
  note d = list_okD [OF assms]
  obtain x where x: "h a = Some x" "ln_prev x = last_of (bs @ as) a" "a \<noteq> NULL"
    by (rule list_at [OF assms])
  obtain y where y: "h (first_of ?cs NULL) = Some y" "ln_prev y = last_of ?cs NULL" "first_of ?cs NULL \<noteq> NULL"
    by (rule ring_ends [OF d(1)]) auto
  have z: "ll_last h l = Some (last_of ?cs NULL)" using y d(2) by (simp add: ll_last_def)
  show ?thesis
  proof (cases as rule: rev_cases)
    case Nil
    then show ?thesis using x z by (simp add: rit_next_def)
  next
    case (snoc cs c)
    have "fst c \<noteq> last_of bs a"
      using d(1) snoc by (cases bs rule: rev_cases) (auto simp: ring_def)
    then show ?thesis using x z snoc by (simp add: rit_next_def)
  qed
qed

lemma find_from_ok:
  "list_ok (l, h) (as @ bs) \<Longrightarrow>
   find_from (l, h) (first_of bs NULL) P = Some (Inr (first_of (dropWhile (\<lambda>c. \<not> P (snd c)) bs) NULL))"
proof (induction bs arbitrary: as)
  case (Cons b bs)
  have "list_ok (l, h) (as @ (fst b, snd b) # bs)" using Cons.prems by simp
  note i = it_next_ok [OF this]
  show ?case using i Cons.IH [of "as @ [b]"] Cons.prems by (subst find_from.simps) simp
qed (simp add: find_from.simps)

lemma list_foreach_from_ok:
  "list_ok (l, h) (as @ bs) \<Longrightarrow> list_foreach_from (l, h) (first_of bs NULL) vs = Some (Inr (vs @ map snd bs))"
proof (induction bs arbitrary: as vs)
  case (Cons b bs)
  have "list_ok (l, h) (as @ (fst b, snd b) # bs)" using Cons.prems by simp
  note i = it_next_ok [OF this]
  show ?case using i Cons.IH [of "as @ [b]"] Cons.prems by (subst list_foreach_from.simps) simp
qed (simp add: list_foreach_from.simps)

lemma list_foreach_ok: "list_ok (l, h) cs \<Longrightarrow> list_foreach (l, h) = Some (Inr (map snd cs))"
  using list_foreach_from_ok [of l h "[]" cs "[]"] by (simp add: list_foreach_def list_okD(2))

lemma it_advance_ok:
  "list_ok (l, h) (as @ bs) \<Longrightarrow> n \<le> length bs \<Longrightarrow> it_advance (l, h) n (first_of bs NULL) = Some (Inr (first_of (drop n bs) NULL))"
proof (induction n arbitrary: as bs)
  case (Suc n)
  then obtain b cs where b: "bs = b # cs" by (cases bs) auto
  have "list_ok (l, h) (as @ (fst b, snd b) # cs)" using Suc.prems b by simp
  note i = it_next_ok [OF this]
  show ?case using i Suc.IH [of "as @ [b]" cs] Suc.prems b by simp
qed simp

lemma ll_index_ok:
  assumes ok: "list_ok (l, h) cs" and small: "length cs < 2 ^ 31"
  shows "ll_index i (l, h) =
    Some (if 0 \<le> i \<and> i < int (length cs) then Inr (snd (cs ! nat i)) else Inl ListIndexOutOfBounds)"
proof -
  have s: "sint (ll_size l) = int (length cs)"
    using small by (simp add: list_okD(3) [OF ok] signed_of_nat signed_take_bit_int_eq_self)
  show ?thesis
  proof (cases "0 \<le> i \<and> i < int (length cs)")
    case True
    then have n: "nat i < length cs" by auto
    have "list_ok (l, h) (take (nat i) cs @ (fst (cs ! nat i), snd (cs ! nat i)) # drop (Suc (nat i)) cs)"
      using ok n by (simp add: id_take_nth_drop [symmetric])
    note v = it_next_ok(2) [OF this]
    have "it_advance (l, h) (nat i) (ll_first l) = Some (Inr (first_of (drop (nat i) cs) NULL))"
      using it_advance_ok [of l h "[]" cs] ok n by (simp add: list_okD(2))
    moreover have "first_of (drop (nat i) cs) NULL = fst (cs ! nat i)" using n by (simp add: Cons_nth_drop_Suc [symmetric])
    ultimately show ?thesis using True s v by (simp add: ll_index_def)
  qed (auto simp: ll_index_def s)
qed

section \<open>Insertion and deletion through iterators\<close>

lemma insert_before_ok:
  assumes ok: "list_ok (l, h) (as @ bs)" and new: "fresh_lnodes new" and room: "Suc (length (as @ bs)) < 2 ^ 32"
  shows "\<exists>l' h'. insert_before new (first_of bs NULL) v (l, h) = Some (new h, l', h') \<and> list_ok (l', h') (as @ (new h, v) # bs)"
proof (cases bs)
  case Nil
  then obtain l' h' where p: "push_back new v (l, h) = Some (l', h')" "list_ok (l', h') (as @ [(new h, v)])"
    using push_back_ok [OF ok new room, of v] by auto
  note d = list_okD [OF p(2)]
  obtain y where y: "h' (first_of (as @ [(new h, v)]) NULL) = Some y" "ln_prev y = last_of (as @ [(new h, v)]) NULL"
    "first_of (as @ [(new h, v)]) NULL \<noteq> NULL" by (rule ring_ends [OF d(1)]) auto
  then have "ll_last h' l' = Some (new h)" using d(2) by (simp add: ll_last_def)
  then show ?thesis using p Nil by (simp add: insert_before_def)
next
  case (Cons b cs)
  note d = list_okD [OF ok]
  have b: "fst b \<noteq> NULL" using ring_at [OF d(1), of "fst b"] Cons by auto
  show ?thesis
  proof (cases "as = []")
    case True
    obtain l' h' where p: "push_front new v (l, h) = Some (l', h')" "list_ok (l', h') ((new h, v) # bs)"
      using push_front_ok [OF ok new room, of v] True by auto
    have "ll_first l' = new h" using list_okD(2) [OF p(2)] by simp
    moreover have "ll_first l = fst b" using d(2) True Cons by simp
    ultimately show ?thesis using p b True Cons by (simp add: insert_before_def)
  next
    case False
    have r: "ring h (b # cs @ as)" using ring_rotate [of h as bs] d(1) Cons by simp
    have n: "new h \<noteq> NULL" "h (new h) = None" using fresh_lnodesD [OF new d(5)] by auto
    let ?h0 = "h(new h \<mapsto> \<lparr>ln_value = v, ln_next = NULL, ln_prev = NULL\<rparr>)"
    obtain h1 h2 h3 h4 where w: "set_next ?h0 (last_of (b # cs @ as) NULL) (new h) = Some h1"
      "set_prev h1 (new h) (last_of (b # cs @ as) NULL) = Some h2" "set_next h2 (new h) (first_of (b # cs @ as) NULL) = Some h3"
      "set_prev h3 (first_of (b # cs @ as) NULL) (new h) = Some h4" "ring h4 ((b # cs @ as) @ [(new h, v)])"
      "changed_at (insert (new h) (fst ` set (b # cs @ as))) h h4"
      "map_option ln_prev (h1 (first_of (b # cs @ as) NULL)) = Some (last_of (b # cs @ as) NULL)"
      by (rule ring_link [OF r _ n refl]) simp
    obtain x where x: "h (fst b) = Some x" "ln_prev x = last_of (b # cs @ as) NULL" "fst b \<noteq> NULL"
      by (rule ring_ends [OF r]) auto
    obtain y where y: "h1 (fst b) = Some y" "ln_prev y = last_of (b # cs @ as) NULL" using w(7) by auto
    have "fst b \<noteq> ll_first l" using d(1,2) False Cons by (cases as) (auto simp: ring_def)
    moreover have "fst b \<noteq> new h" using x n by auto
    ultimately have "insert_before new (fst b) v (l, h) = Some (new h, l\<lparr>ll_size := ll_size l + 1\<rparr>, h4)"
      using b n x y w by (simp add: insert_before_def new_lnode_def Let_def)
    moreover have "list_ok (l\<lparr>ll_size := ll_size l + 1\<rparr>, h4) (as @ (new h, v) # bs)"
    proof (rule list_okI)
      show "ring h4 (as @ (new h, v) # bs)" using ring_rotate [of h4 bs "as @ [(new h, v)]"] w(5) Cons by simp
      show "finite (dom h4)" using changed_at_finite [OF w(6)] d(5) by simp
    qed (use d(2,3) room False in \<open>cases as; simp\<close>)+
    ultimately show ?thesis using Cons by auto
  qed
qed

lemma sorted_insert_ok:
  assumes ok: "list_ok (l, h) cs" and new: "fresh_lnodes new" and room: "Suc (length cs) < 2 ^ 32"
  shows "\<exists>l' h'. sorted_insert stop new v (l, h) = Some (Inr (new h, l', h')) \<and>
    list_ok (l', h') (takeWhile (\<lambda>c. \<not> stop (snd c)) cs @ (new h, v) # dropWhile (\<lambda>c. \<not> stop (snd c)) cs)"
proof -
  have "find_from (l, h) (ll_first l) stop = Some (Inr (first_of (dropWhile (\<lambda>c. \<not> stop (snd c)) cs) NULL))"
    using find_from_ok [of l h "[]" cs stop] ok list_okD(2) [OF ok] by simp
  moreover have "list_ok (l, h) (takeWhile (\<lambda>c. \<not> stop (snd c)) cs @ dropWhile (\<lambda>c. \<not> stop (snd c)) cs)"
    using ok by simp
  note insert_before_ok [OF this new, of v]
  ultimately show ?thesis using room by (auto simp: sorted_insert_def)
qed

lemma erase_value_ok:
  assumes ok: "list_ok (l, h) cs"
  shows "\<exists>l' h' ds. erase_value v (l, h) = Some (Inr (v \<in> snd ` set cs, l', h')) \<and> list_ok (l', h') ds \<and>
    map snd ds = remove1 v (map snd cs)"
proof -
  have f: "find_from (l, h) (ll_first l) (\<lambda>w. w = v) = Some (Inr (first_of (dropWhile (\<lambda>c. snd c \<noteq> v) cs) NULL))"
    using find_from_ok [of l h "[]" cs] ok list_okD(2) [OF ok] by simp
  show ?thesis
  proof (cases "v \<in> snd ` set cs")
    case False
    then have "dropWhile (\<lambda>c. snd c \<noteq> v) cs = []" by auto
    note f = f [unfolded this]
    have "erase_value v (l, h) = Some (Inr (False, l, h))" using f by (simp add: erase_value_def erase_at_def)
    moreover have "map snd cs = remove1 v (map snd cs)" using False by (auto simp: remove1_idem)
    moreover have "(v \<in> snd ` set cs) = False" using False by simp
    ultimately show ?thesis using ok by auto
  next
    case True
    then obtain as a bs where cs: "cs = as @ (a, v) # bs" "v \<notin> snd ` set as"
      using split_list_first_prop [of cs "\<lambda>c. snd c = v"] by force
    then have "dropWhile (\<lambda>c. snd c \<noteq> v) cs = (a, v) # bs" by (auto simp: dropWhile_append)
    moreover have "a \<noteq> NULL" "\<not> ll_empty l" using it_next_ok(3) [of l h as a v bs] list_okD(6) [OF ok] ok cs by auto
    moreover obtain l' h' where "delete_lnode a (l, h) = Some (True, l', h')" "list_ok (l', h') (as @ bs)"
      using delete_lnode_ok [of l h as a v bs] ok cs by blast
    ultimately have "erase_value v (l, h) = Some (Inr (True, l', h'))" "list_ok (l', h') (as @ bs)"
      using f by (simp_all add: erase_value_def erase_at_def)
    moreover have "map snd (as @ bs) = remove1 v (map snd cs)" using cs by (simp add: remove1_append)
    moreover have "(v \<in> snd ` set cs) = True" using True by simp
    ultimately show ?thesis by auto
  qed
qed


section \<open>Clearing and copying\<close>

lemma ll_clear_from_ok:
  "seg h p bs f \<Longrightarrow> distinct (map fst bs) \<Longrightarrow> ll_first l = f \<Longrightarrow> f \<notin> fst ` set (tl bs) \<Longrightarrow>
   ll_clear_from l h (first_of bs NULL) = Some (Inr (h |` (- fst ` set bs)))"
proof (induction bs arbitrary: h p)
  case (Cons b bs)
  have i: "it_next (l, h) (fst b) = Some (Inr (first_of bs NULL))"
    using Cons.prems by (cases bs) (auto simp: it_next_def)
  have s: "seg (h(fst b := None)) (fst b) bs f" using Cons.prems by simp
  have q: "f \<notin> fst ` set (tl bs)" using Cons.prems(4) by (cases bs) auto
  have "ll_clear_from l (h(fst b := None)) (first_of bs NULL) = Some (Inr ((h(fst b := None)) |` (- fst ` set bs)))"
    by (rule Cons.IH [OF s _ _ q]) (use Cons.prems in auto)
  moreover have "(h(fst b := None)) |` (- fst ` set bs) = h |` (- fst ` set (b # bs))"
    by (auto simp: restrict_map_def)
  ultimately show ?case
    using Cons.prems i by (subst ll_clear_from.simps) (simp add: free_lnode_def del: restrict_fun_upd)
qed (simp add: ll_clear_from.simps restrict_map_def)

lemma ll_clear_ok:
  assumes "list_ok (l, h) cs"
  shows "ll_clear (l, h) = Some (Inr (l\<lparr>ll_first := NULL, ll_size := 0\<rparr>, h |` (- fst ` set cs)))"
proof -
  note d = list_okD [OF assms]
  have "ll_clear_from l h (first_of cs NULL) = Some (Inr (h |` (- fst ` set cs)))"
  proof (rule ll_clear_from_ok)
    show "seg h (last_of cs NULL) cs (first_of cs NULL)" "distinct (map fst cs)" using d(1) by (auto simp: ring_def)
    then show "first_of cs NULL \<notin> fst ` set (tl cs)" by (cases cs) auto
  qed (rule d(2))
  then show ?thesis using d(2) by (simp add: ll_clear_def)
qed

lemma list_ok_changed:
  assumes ok: "list_ok (l, h) cs" and c: "changed_at S h h'" "S \<inter> fst ` set cs = {}" "finite (dom h')"
  shows "list_ok (l, h') cs"
proof -
  have "h' a = h a" if "a \<in> fst ` set cs" for a using c(1,2) that unfolding changed_at_def by blast
  then have "ring h' cs \<longleftrightarrow> ring h cs" using seg_cong [of cs h' h] by (simp add: ring_def)
  then show ?thesis using list_okD [OF ok] c(3) by (intro list_okI) simp_all
qed

lemma copy_from_ok:
  "list_ok (rhs, h) (as @ bs) \<Longrightarrow> list_ok (l, h) ds \<Longrightarrow> fst ` set (as @ bs) \<inter> fst ` set ds = {} \<Longrightarrow> fresh_lnodes new \<Longrightarrow>
   length ds + length bs < 2 ^ 32 \<Longrightarrow>
   \<exists>l' h' es. copy_from new rhs (first_of bs NULL) (l, h) = Some (Inr (l', h')) \<and> list_ok (l', h') (ds @ es) \<and>
     map snd es = map snd bs \<and> list_ok (rhs, h') (as @ bs) \<and> fst ` set (as @ bs) \<inter> fst ` set (ds @ es) = {}"
proof (induction bs arbitrary: as l h ds)
  case Nil
  then show ?case by (intro exI [of _ l] exI [of _ h] exI [of _ "[]"]) (simp add: copy_from.simps)
next
  case (Cons b bs)
  have b: "list_ok (rhs, h) (as @ (fst b, snd b) # bs)" using Cons.prems(1) by simp
  note i = it_next_ok [OF b]
  obtain l1 h1 where p: "push_back new (snd b) (l, h) = Some (l1, h1)" "list_ok (l1, h1) (ds @ [(new h, snd b)])"
    "changed_at (insert (new h) (fst ` set ds)) h h1"
    using push_back_ok [OF Cons.prems(2,4), of "snd b"] Cons.prems(5) by auto
  have "new h \<notin> fst ` set (as @ b # bs)"
    using ring_at [OF list_okD(1) [OF Cons.prems(1)]] fresh_lnodesD [OF Cons.prems(4) list_okD(5) [OF b]] by metis
  then have dis: "insert (new h) (fst ` set ds) \<inter> fst ` set (as @ b # bs) = {}" using Cons.prems(3) by auto
  have r: "list_ok (rhs, h1) (as @ b # bs)" by (rule list_ok_changed [OF Cons.prems(1) p(3) dis list_okD(5) [OF p(2)]])
  have "it_next (rhs, h1) (fst b) = Some (Inr (first_of bs NULL))"
    using it_next_ok(1) [of rhs h1 as "fst b" "snd b" bs] r by simp
  then have step: "copy_from new rhs (first_of (b # bs) NULL) (l, h) = copy_from new rhs (first_of bs NULL) (l1, h1)"
    using i p(1) by (subst copy_from.simps) simp
  have "\<exists>l' h' es. copy_from new rhs (first_of bs NULL) (l1, h1) = Some (Inr (l', h')) \<and>
     list_ok (l', h') ((ds @ [(new h, snd b)]) @ es) \<and> map snd es = map snd bs \<and> list_ok (rhs, h') ((as @ [b]) @ bs) \<and>
     fst ` set ((as @ [b]) @ bs) \<inter> fst ` set ((ds @ [(new h, snd b)]) @ es) = {}"
  proof (rule Cons.IH [OF _ p(2) _ Cons.prems(4)])
    show "list_ok (rhs, h1) ((as @ [b]) @ bs)" using r by simp
    show "fst ` set ((as @ [b]) @ bs) \<inter> fst ` set (ds @ [(new h, snd b)]) = {}" using dis by auto
  qed (use Cons.prems(5) in simp)
  then obtain l' h' es where "copy_from new rhs (first_of bs NULL) (l1, h1) = Some (Inr (l', h'))"
    "list_ok (l', h') (ds @ (new h, snd b) # es)" "map snd es = map snd bs" "list_ok (rhs, h') (as @ b # bs)"
    "fst ` set (as @ b # bs) \<inter> fst ` set (ds @ (new h, snd b) # es) = {}" by auto
  then show ?case unfolding step by (intro exI [of _ l'] exI [of _ h'] exI [of _ "(new h, snd b) # es"]) simp
qed

section \<open>A deque\<close>

text \<open>
  The object holds the values \<open>xs\<close>. A push always succeeds, so that its flag is true.
\<close>

definition list_holds :: "('a lheap \<Rightarrow> addr) \<Rightarrow> llist \<times> 'a lheap \<Rightarrow> 'a list \<Rightarrow> bool" where
  "list_holds new s xs \<longleftrightarrow> fresh_lnodes new \<and> (\<exists>cs. list_ok s cs \<and> map snd cs = xs)"

abbreviation back_flag :: "('a lheap \<Rightarrow> addr) \<Rightarrow> 'a \<Rightarrow> llist \<times> 'a lheap \<Rightarrow> (bool \<times> llist \<times> 'a lheap) option" where
  "back_flag new v s \<equiv> map_option (Pair True) (push_back new v s)"

abbreviation front_flag :: "('a lheap \<Rightarrow> addr) \<Rightarrow> 'a \<Rightarrow> llist \<times> 'a lheap \<Rightarrow> (bool \<times> llist \<times> 'a lheap) option" where
  "front_flag new v s \<equiv> map_option (Pair True) (push_front new v s)"

lemma list_holdsE:
  assumes "list_holds new s xs"
  obtains l h cs where "s = (l, h)" "list_ok (l, h) cs" "xs = map snd cs" "fresh_lnodes new"
  using assms by (cases s) (auto simp: list_holds_def)

lemma list_holdsI: "fresh_lnodes new \<Longrightarrow> list_ok s cs \<Longrightarrow> map snd cs = xs \<Longrightarrow> list_holds new s xs"
  by (auto simp: list_holds_def)

lemma holds_push:
  assumes "list_holds new s xs" "length xs < 2 ^ 32 - 1"
  shows "\<exists>s'. back_flag new v s = Some (True, s') \<and> list_holds new s' (xs @ [v])"
    "\<exists>s'. front_flag new v s = Some (True, s') \<and> list_holds new s' (v # xs)"
proof -
  obtain l h cs where s: "s = (l, h)" "list_ok (l, h) cs" "xs = map snd cs" "fresh_lnodes new"
    by (rule list_holdsE [OF assms(1)])
  have room: "Suc (length cs) < 2 ^ 32" using assms(2) s(3) by simp
  obtain s1 where "push_back new v s = Some s1" "list_ok s1 (cs @ [(new h, v)])"
    using push_back_ok [OF s(2,4) room, of v] s(1) by blast
  then show "\<exists>s'. back_flag new v s = Some (True, s') \<and> list_holds new s' (xs @ [v])"
    using s(3,4) by (intro exI [of _ s1]) (auto intro: list_holdsI)
  obtain s2 where "push_front new v s = Some s2" "list_ok s2 ((new h, v) # cs)"
    using push_front_ok [OF s(2,4) room, of v] s(1) by blast
  then show "\<exists>s'. front_flag new v s = Some (True, s') \<and> list_holds new s' (v # xs)"
    using s(3,4) by (intro exI [of _ s2]) (auto intro: list_holdsI)
qed

lemma holds_pop_front:
  assumes "list_holds new s (x # xs)"
  shows "\<exists>s'. pop_front s = Some (True, s') \<and> list_holds new s' xs" "ll_front s = Some (Inr x)"
proof -
  obtain l h cs where s: "s = (l, h)" "list_ok (l, h) cs" "x # xs = map snd cs" "fresh_lnodes new"
    by (rule list_holdsE [OF assms(1)])
  then obtain a ds where c: "cs = (a, x) # ds" "map snd ds = xs" by (cases cs) auto
  then show "\<exists>s'. pop_front s = Some (True, s') \<and> list_holds new s' xs"
    using pop_front_ok [of l h a x ds] s list_holdsI by blast
  show "ll_front s = Some (Inr x)" using front_back_ok(1) [OF s(2)] s(1) c by simp
qed

lemma holds_pop_back:
  assumes "list_holds new s (xs @ [x])"
  shows "\<exists>s'. pop_back s = Some (True, s') \<and> list_holds new s' xs" "ll_back s = Some (Inr x)"
proof -
  obtain l h cs where s: "s = (l, h)" "list_ok (l, h) cs" "xs @ [x] = map snd cs" "fresh_lnodes new"
    by (rule list_holdsE [OF assms(1)])
  then obtain a ds where c: "cs = ds @ [(a, x)]" "map snd ds = xs" by (cases cs rule: rev_cases) auto
  then show "\<exists>s'. pop_back s = Some (True, s') \<and> list_holds new s' xs"
    using pop_back_ok [of l h ds a x] s list_holdsI by blast
  show "ll_back s = Some (Inr x)" using front_back_ok(2) [OF s(2)] s(1) c by simp
qed

lemma holds_nothing:
  assumes "list_holds new s []"
  shows "pop_front s = Some (False, s)" "pop_back s = Some (False, s)" "ll_front s = Some (Inl ListIsEmpty)"
proof -
  obtain l h where s: "s = (l, h)" "list_ok (l, h) []" using assms by (auto elim: list_holdsE)
  then show "pop_front s = Some (False, s)" "pop_back s = Some (False, s)" "ll_front s = Some (Inl ListIsEmpty)"
    using pop_empty [OF s(2)] list_okD(6) [OF s(2)] by (auto simp: pop_front_def pop_back_def ll_front_def)
qed

interpretation linked: deque "2 ^ 32 - 1" "list_holds new" "back_flag new" ll_front pop_front "front_flag new" pop_back
proof (unfold_locales, goal_cases)
  case (1 s xs v)
  then show ?case by (rule holds_push(1))
next
  case (2 s x xs)
  then show ?case by (rule holds_pop_front(2))
next
  case (3 s)
  then show ?case using holds_nothing(3) by blast
next
  case (4 s x xs)
  then show ?case by (rule holds_pop_front(1))
next
  case (5 s)
  then show ?case by (rule holds_nothing(1))
next
  case (6 s xs v)
  then show ?case by (rule holds_push(2))
next
  case (7 s xs x)
  then show ?case by (rule holds_pop_back(1))
next
  case (8 s)
  then show ?case by (rule holds_nothing(2))
qed

lemma list_holds_empty: "fresh_lnodes new \<Longrightarrow> list_holds new (ll_init, Map.empty) []"
  by (rule list_holdsI [OF _ list_ok_empty]) auto

lemma list_holds_foreach: "list_holds new s xs \<Longrightarrow> list_foreach s = Some (Inr xs)"
  by (erule list_holdsE) (simp add: list_foreach_ok)

text \<open>An allocator for the witnesses: the first free address.\<close>

definition first_free :: "'a lheap \<Rightarrow> addr" where
  "first_free h = Suc (Max (insert 0 (dom h)))"

lemma first_free_fresh: "fresh_lnodes first_free"
  unfolding fresh_lnodes_def first_free_def
proof (intro allI impI conjI)
  fix h :: "'a lheap" assume f: "finite (dom h)"
  show "h (Suc (Max (insert 0 (dom h)))) = None"
  proof (rule ccontr)
    assume "h (Suc (Max (insert 0 (dom h)))) \<noteq> None"
    then have "Suc (Max (insert 0 (dom h))) \<le> Max (insert 0 (dom h))" using f by (intro Max_ge) auto
    then show False by simp
  qed
qed simp

text \<open>C17. From the empty list, any sequence of insertions and removals at both ends returns what it returns on a
  sequence, and leaves a list that iterates over exactly that sequence.\<close>

theorem list_refines_deque:
  assumes "fresh_lnodes new" "length cs < 2 ^ 32"
  shows "\<exists>s. deque_run (deque_step (back_flag new) pop_front (front_flag new) pop_back) cs (ll_init, Map.empty) =
      Some (deque_flags cs [], s) \<and> list_foreach s = Some (Inr (fold on_list cs []))"
  using linked.deque_repr [OF list_holds_empty [OF assms(1)], of cs] assms(2) list_holds_foreach by fastforce

lemma list_refines_deque_witness:
  "\<exists>s. deque_run (deque_step (back_flag first_free) pop_front (front_flag first_free) pop_back)
      [PushBack (1::nat), PushFront 2, PopBack, PopFront, PopFront, PushBack 3] (ll_init, Map.empty) =
      Some ([True, True, True, True, False, True], s) \<and> list_foreach s = Some (Inr [3])"
  using list_refines_deque [OF first_free_fresh, of "[PushBack (1::nat), PushFront 2, PopBack, PopFront, PopFront, PushBack 3]"]
  by simp

text \<open>\<open>sorted_insert_asc\<close> on a sorted list puts the value before the first element that is not smaller, returns an
  iterator to it, and the list iterates in sorted order afterwards.\<close>

lemma sorted_insert_sorts:
  assumes "list_ok (l, h) cs" "sorted (map snd cs)" "fresh_lnodes new" "Suc (length cs) < 2 ^ 32"
  shows "\<exists>i l' h'. sorted_insert_asc new v (l, h) = Some (Inr (i, l', h')) \<and> it_value h' i = Some (Inr v) \<and>
    list_foreach (l', h') = Some (Inr (insort v (map snd cs))) \<and> sorted (insort v (map snd cs))"
proof -
  let ?stop = "\<lambda>w. v < w \<or> \<not> w < v"
  obtain l' h' where s: "sorted_insert ?stop new v (l, h) = Some (Inr (new h, l', h'))"
    "list_ok (l', h') (takeWhile (\<lambda>c. \<not> ?stop (snd c)) cs @ (new h, v) # dropWhile (\<lambda>c. \<not> ?stop (snd c)) cs)"
    using sorted_insert_ok [OF assms(1,3,4)] by blast
  have "map snd (takeWhile (\<lambda>c. \<not> ?stop (snd c)) cs @ (new h, v) # dropWhile (\<lambda>c. \<not> ?stop (snd c)) cs) = insort v (map snd cs)"
    by (induction cs) auto
  then show ?thesis
    using s it_next_ok(2) [OF s(2)] list_foreach_ok [OF s(2)] assms(2) by (auto simp: sorted_insert_asc_def sorted_insort)
qed

lemma one_lnode_ok: "list_ok (\<lparr>ll_size = 1, ll_first = 5\<rparr>, [5 \<mapsto> \<lparr>ln_value = (v :: 'a), ln_next = 5, ln_prev = 5\<rparr>]) [(5, v)]"
  by (rule list_okI) (auto simp: ring_def)

lemma sorted_insert_sorts_witness:
  "\<exists>i l' h'. sorted_insert_asc first_free (3::nat) (\<lparr>ll_size = 1, ll_first = 5\<rparr>, [5 \<mapsto> \<lparr>ln_value = 7, ln_next = 5, ln_prev = 5\<rparr>]) =
      Some (Inr (i, l', h')) \<and> it_value h' i = Some (Inr 3) \<and> list_foreach (l', h') = Some (Inr [3, 7])"
  using sorted_insert_sorts [OF one_lnode_ok [of "7 :: nat"] _ first_free_fresh, of 3] by simp

text \<open>The copy constructor makes a list of its own nodes with the same values and leaves the original as it was.
  Assignment has no operator of its own: it copies the two fields, both objects own the same nodes, and destroying
  both accesses a deleted node.\<close>

lemma list_copy_and_assignment:
  assumes "list_ok (l, h) cs" "fresh_lnodes new" "cs \<noteq> []"
  shows "(\<exists>k h' es. ll_copy new l h = Some (Inr (k, h')) \<and> list_ok (k, h') es \<and> list_ok (l, h') cs \<and>
      map snd es = map snd cs \<and> fst ` set es \<inter> fst ` set cs = {}) \<and>
    (\<exists>k h'. ll_clear (l, h) = Some (Inr (k, h')) \<and> ll_clear (l, h') = None)"
proof
  obtain c ds where c: "cs = c # ds" using assms(3) by (cases cs) auto
  note d = list_okD [OF assms(1)]
  obtain k h' es where "copy_from new l (first_of cs NULL) (ll_init, h) = Some (Inr (k, h'))" "list_ok (k, h') ([] @ es)"
    "map snd es = map snd cs" "list_ok (l, h') ([] @ cs)" "fst ` set ([] @ cs) \<inter> fst ` set ([] @ es) = {}"
    using copy_from_ok [of l h "[]" cs ll_init "[]" new] list_ok_empty [OF d(5)] assms(1,2) d(4) by auto
  then show "\<exists>k h' es. ll_copy new l h = Some (Inr (k, h')) \<and> list_ok (k, h') es \<and> list_ok (l, h') cs \<and>
      map snd es = map snd cs \<and> fst ` set es \<inter> fst ` set cs = {}"
    using d(2) by (intro exI [of _ k] exI [of _ h'] exI [of _ es]) (auto simp: ll_copy_def)
  have "fst c \<noteq> NULL" using ring_at [OF d(1), of "fst c"] c by auto
  then have "ll_clear (l, h |` (- fst ` set cs)) = None"
    using d(2) c by (simp add: ll_clear_def ll_clear_from.simps [of _ _ "fst c"] it_next_def restrict_map_def)
  then show "\<exists>k h'. ll_clear (l, h) = Some (Inr (k, h')) \<and> ll_clear (l, h') = None"
    using ll_clear_ok [OF assms(1)] by blast
qed

lemma list_copy_and_assignment_witness:
  "\<exists>k h'. ll_clear (\<lparr>ll_size = 1, ll_first = 5\<rparr>, [5 \<mapsto> \<lparr>ln_value = 7 :: nat, ln_next = 5, ln_prev = 5\<rparr>]) = Some (Inr (k, h')) \<and>
    ll_clear (\<lparr>ll_size = 1, ll_first = 5\<rparr>, h') = None"
  using list_copy_and_assignment [OF one_lnode_ok [of "7 :: nat"] first_free_fresh] by simp

end
