(* ===== verification/Queue.thy ===== *)
theory Queue
  imports Fifo
begin

text \<open>
  \<open>upan::queue\<close> (\<open>libustd/ds/queue.h\<close>), a ring buffer of fixed size with an atomic element counter. The buffer is a list of
  \<open>size\<close> slots; an access outside it yields \<open>None\<close>. Indices and the counter are 32 bit words. The last section takes
  the methods apart into their accesses to shared fields and lets one producer and one consumer interleave.
\<close>

section \<open>The code\<close>

record 'a queue =
  q_read :: "32 word"
  q_write :: "32 word"
  q_size :: "32 word"
  q_count :: "32 word"
  q_buffer :: "'a list"

datatype queue_error = QueueIsEmpty

definition queue_init :: "32 word \<Rightarrow> 'a \<Rightarrow> 'a queue" where
  "queue_init n x0 = \<lparr>q_read = 0, q_write = 0, q_size = n, q_count = 0, q_buffer = replicate (unat n) x0\<rparr>"

definition q_empty :: "'a queue \<Rightarrow> bool" where
  "q_empty q \<longleftrightarrow> q_count q = 0"

definition q_full :: "'a queue \<Rightarrow> bool" where
  "q_full q \<longleftrightarrow> q_count q = q_size q"

definition q_available :: "'a queue \<Rightarrow> 32 word" where
  "q_available q = q_size q - q_count q"

definition slot :: "'a list \<Rightarrow> 32 word \<Rightarrow> 'a option" where
  "slot b i = (if unat i < length b then Some (b ! unat i) else None)"

definition put_slot :: "'a list \<Rightarrow> 32 word \<Rightarrow> 'a \<Rightarrow> 'a list option" where
  "put_slot b i v = (if unat i < length b then Some (b[unat i := v]) else None)"

definition q_front :: "'a queue \<Rightarrow> (queue_error + 'a) option" where
  "q_front q = (if q_empty q then Some (Inl QueueIsEmpty) else do { v \<leftarrow> slot (q_buffer q) (q_read q); Some (Inr v) })"

text \<open>\<open>(end + 1) % _size\<close>; a division by zero faults.\<close>

definition step_end :: "32 word \<Rightarrow> 32 word \<Rightarrow> 32 word option" where
  "step_end e n = (if n = 0 then None else Some ((e + 1) mod n))"

definition q_pop_front :: "'a queue \<Rightarrow> (bool \<times> 'a queue) option" where
  "q_pop_front q = (if q_empty q then Some (False, q)
     else do {
       r \<leftarrow> step_end (q_read q) (q_size q);
       Some (True, q\<lparr>q_read := r, q_count := q_count q - 1\<rparr>) })"

definition q_push_back :: "'a \<Rightarrow> 'a queue \<Rightarrow> (bool \<times> 'a queue) option" where
  "q_push_back v q = (if q_full q then Some (False, q)
     else do {
       b \<leftarrow> put_slot (q_buffer q) (q_write q) v;
       w \<leftarrow> step_end (q_write q) (q_size q);
       Some (True, q\<lparr>q_buffer := b, q_write := w, q_count := q_count q + 1\<rparr>) })"

definition q_clear :: "'a queue \<Rightarrow> 'a queue" where
  "q_clear q = q\<lparr>q_read := 0, q_write := 0, q_count := 0\<rparr>"

text \<open>
  The block operations. \<open>n\<close> is an \<open>int\<close>: negative counts are refused by the signed comparison, and the comparison with
  the counter is unsigned.
\<close>

fun read_loop :: "nat \<Rightarrow> 'a queue \<Rightarrow> ('a list \<times> 'a queue) option" where
  "read_loop 0 q = Some ([], q)"
| "read_loop (Suc n) q = do {
     v \<leftarrow> slot (q_buffer q) (q_read q);
     r \<leftarrow> step_end (q_read q) (q_size q);
     (vs, q) \<leftarrow> read_loop n (q\<lparr>q_read := r\<rparr>);
     Some (v # vs, q) }"

definition q_read_block :: "32 word \<Rightarrow> 'a queue \<Rightarrow> (32 word \<times> 'a list \<times> 'a queue) option" where
  "q_read_block n q =
     (if sint n \<le> 0 \<or> q_empty q then Some (0, [], q)
      else do {
        let n = (if q_count q < n then q_count q else n);
        (vs, q) \<leftarrow> read_loop (unat n) q;
        Some (n, vs, q\<lparr>q_count := q_count q + (- n)\<rparr>) })"

fun write_loop :: "'a list \<Rightarrow> 'a queue \<Rightarrow> 'a queue option" where
  "write_loop [] q = Some q"
| "write_loop (v # vs) q = do {
     b \<leftarrow> put_slot (q_buffer q) (q_write q) v;
     w \<leftarrow> step_end (q_write q) (q_size q);
     write_loop vs (q\<lparr>q_buffer := b, q_write := w\<rparr>) }"

definition q_write_block :: "'a list \<Rightarrow> 32 word \<Rightarrow> 'a queue \<Rightarrow> (32 word \<times> 'a queue) option" where
  "q_write_block ins n q =
     (if sint n \<le> 0 \<or> q_full q then Some (0, q)
      else do {
        let n = (if q_available q < n then q_available q else n);
        if length ins < unat n then None
        else do {
          q \<leftarrow> write_loop (take (unat n) ins) q;
          Some (n, q\<lparr>q_count := q_count q + n\<rparr>) } })"

section \<open>The sequence of elements\<close>

text \<open>The \<open>k\<close> slots from \<open>r\<close> on, around the end of the buffer.\<close>

definition slots :: "'a list \<Rightarrow> nat \<Rightarrow> nat \<Rightarrow> 'a list" where
  "slots b r k = map (\<lambda>i. b ! ((r + i) mod length b)) [0..<k]"

lemma slots_0 [simp]: "slots b r 0 = []"
  by (simp add: slots_def)

lemma length_slots [simp]: "length (slots b r k) = k"
  by (simp add: slots_def)

lemma slots_Suc: "slots b r (Suc k) = slots b r k @ [b ! ((r + k) mod length b)]"
  by (simp add: slots_def)

lemma slots_Cons: "slots b r (Suc k) = b ! (r mod length b) # slots b (Suc r mod length b) k"
proof (rule nth_equalityI)
  fix i assume "i < length (slots b r (Suc k))"
  then show "slots b r (Suc k) ! i = (b ! (r mod length b) # slots b (Suc r mod length b) k) ! i"
    by (cases i) (simp_all add: slots_def mod_add_left_eq del: upt_Suc)
qed simp

lemma mod_slot_inj:
  assumes "(i::nat) < n" "j < n" "(r + i) mod n = (r + j) mod n"
  shows "i = j"
proof -
  have "(int r + int i) mod int n = (int r + int j) mod int n" using assms(3) by (metis of_nat_add of_nat_mod)
  then have "int n dvd int i - int j" by (simp add: mod_eq_dvd_iff)
  then have "int i mod int n = int j mod int n" by (simp add: mod_eq_dvd_iff)
  then show ?thesis using assms(1,2) by simp
qed

text \<open>Writing to a slot beyond the first \<open>k\<close> leaves them alone.\<close>

lemma slots_update:
  assumes "k < length b"
  shows "slots (b[(r + k) mod length b := v]) r k = slots b r k"
proof (rule nth_equalityI)
  fix i assume i: "i < length (slots (b[(r + k) mod length b := v]) r k)"
  then have "(r + i) mod length b \<noteq> (r + k) mod length b" using assms mod_slot_inj [of i "length b" k r] by auto
  then show "slots (b[(r + k) mod length b := v]) r k ! i = slots b r k ! i" using i by (simp add: slots_def)
qed simp


lemma slots_put:
  assumes "k < length b"
  shows "slots (b[(r + k) mod length b := v]) r (Suc k) = slots b r k @ [v]"
proof -
  have "(r + k) mod length b < length b" using assms by (intro mod_less_divisor) auto
  then show ?thesis using slots_update [OF assms] by (simp add: slots_Suc)
qed

definition queue_ok :: "'a queue \<Rightarrow> 'a list \<Rightarrow> bool" where
  "queue_ok q xs \<longleftrightarrow> length (q_buffer q) = unat (q_size q) \<and> unat (q_count q) = length xs \<and> length xs \<le> unat (q_size q) \<and>
     unat (q_read q) < unat (q_size q) + (if q_size q = 0 then 1 else 0) \<and>
     unat (q_write q) = (unat (q_read q) + length xs) mod unat (q_size q) \<and>
     xs = slots (q_buffer q) (unat (q_read q)) (length xs)"

lemma queue_okD:
  assumes "queue_ok q xs"
  shows "length (q_buffer q) = unat (q_size q)" "unat (q_count q) = length xs" "length xs \<le> unat (q_size q)"
    "unat (q_write q) = (unat (q_read q) + length xs) mod unat (q_size q)" "xs = slots (q_buffer q) (unat (q_read q)) (length xs)"
    "q_size q \<noteq> 0 \<Longrightarrow> unat (q_read q) < unat (q_size q)" "q_empty q \<longleftrightarrow> xs = []" "q_full q \<longleftrightarrow> length xs = unat (q_size q)"
  using assms by (auto simp: queue_ok_def q_empty_def q_full_def word_unat_eq_iff split: if_splits)

lemma queue_init_ok: "queue_ok (queue_init n x0) []"
  by (auto simp: queue_ok_def queue_init_def unat_gt_0)

lemma word_less_2p32: "unat (n :: 32 word) < 2 ^ 32"
proof -
  have "unat n < 2 ^ LENGTH(32)" by (rule unsigned_less)
  then show ?thesis by simp
qed

lemma step_end_unat:
  assumes "unat e < unat (n :: 32 word)"
  shows "step_end e n = Some ((e + 1) mod n)" "unat ((e + 1) mod n) = Suc (unat e) mod unat n"
proof -
  have "n \<noteq> 0" using assms by auto
  then show "step_end e n = Some ((e + 1) mod n)" by (simp add: step_end_def)
  have "Suc (unat e) < 2 ^ 32" using assms word_less_2p32 [of n] by simp
  then have "unat (e + 1) = Suc (unat e)" by (simp add: unat_word_ariths)
  then show "unat ((e + 1) mod n) = Suc (unat e) mod unat n" by (simp add: unat_mod)
qed

lemma slot_at:
  assumes "queue_ok q (x # xs)"
  shows "slot (q_buffer q) (q_read q) = Some x" "q_size q \<noteq> 0"
    "xs = slots (q_buffer q) (Suc (unat (q_read q)) mod unat (q_size q)) (length xs)"
proof -
  note d = queue_okD [OF assms]
  show n: "q_size q \<noteq> 0" using d(3) by auto
  have e: "x # xs = slots (q_buffer q) (unat (q_read q)) (Suc (length xs))" using d(5) by simp
  then show "slot (q_buffer q) (q_read q) = Some x" "xs = slots (q_buffer q) (Suc (unat (q_read q)) mod unat (q_size q)) (length xs)"
    using d(1) d(6) [OF n] by (simp_all add: slots_Cons slot_def)
qed

lemma dec_unat: "unat (c :: 32 word) = Suc k \<Longrightarrow> unat (c - 1) = k"
  by (metis diff_Suc_1 unat_minus_one unat_0 nat.distinct(1))

lemma inc_unat: "unat (c :: 32 word) = k \<Longrightarrow> Suc k < 2 ^ 32 \<Longrightarrow> unat (c + 1) = Suc k"
  by (simp add: unat_word_ariths)

lemma q_front_ok: "queue_ok q (x # xs) \<Longrightarrow> q_front q = Some (Inr x)"
  using slot_at(1) queue_okD(7) by (fastforce simp: q_front_def)

lemma popped_ok:
  assumes "queue_ok q (x # xs)"
  shows "step_end (q_read q) (q_size q) = Some ((q_read q + 1) mod q_size q)"
    "queue_ok (q\<lparr>q_read := (q_read q + 1) mod q_size q, q_count := q_count q - 1\<rparr>) xs" (is "queue_ok ?q xs")
proof -
  note d = queue_okD [OF assms] and s = slot_at [OF assms]
  note e = step_end_unat [OF d(6) [OF s(2)]]
  show "step_end (q_read q) (q_size q) = Some ((q_read q + 1) mod q_size q)" by (rule e(1))
  show "queue_ok ?q xs"
    unfolding queue_ok_def
  proof (intro conjI)
    show "unat (q_count ?q) = length xs" using dec_unat d(2) by simp
    show "unat (q_write ?q) = (unat (q_read ?q) + length xs) mod unat (q_size ?q)"
      using d(4) e(2) by (simp add: mod_add_left_eq)
    show "xs = slots (q_buffer ?q) (unat (q_read ?q)) (length xs)" using s(3) e(2) by simp
    show "unat (q_read ?q) < unat (q_size ?q) + (if q_size ?q = 0 then 1 else 0)"
      using e(2) s(2) by (simp add: unat_gt_0)
  qed (use d(1,3) in auto)
qed

lemma q_pop_front_ok: "queue_ok q (x # xs) \<Longrightarrow> \<exists>q'. q_pop_front q = Some (True, q') \<and> queue_ok q' xs \<and> q_size q' = q_size q"
  using popped_ok queue_okD(7) by (fastforce simp: q_pop_front_def)

lemma put_at:
  assumes "queue_ok q xs" "length xs < unat (q_size q)"
  defines "w \<equiv> (unat (q_read q) + length xs) mod unat (q_size q)"
  shows "put_slot (q_buffer q) (q_write q) v = Some ((q_buffer q)[w := v])"
    "step_end (q_write q) (q_size q) = Some ((q_write q + 1) mod q_size q)"
    "unat ((q_write q + 1) mod q_size q) = Suc (unat (q_read q) + length xs) mod unat (q_size q)"
    "xs @ [v] = slots ((q_buffer q)[w := v]) (unat (q_read q)) (Suc (length xs))"
proof -
  note d = queue_okD [OF assms(1)]
  have "w < unat (q_size q)" unfolding w_def using assms(2) by (intro mod_less_divisor) auto
  then have b: "unat (q_write q) < unat (q_size q)" "unat (q_write q) = w" using d(4) w_def by auto
  then show "put_slot (q_buffer q) (q_write q) v = Some ((q_buffer q)[w := v])" using d(1) by (simp add: put_slot_def)
  show "step_end (q_write q) (q_size q) = Some ((q_write q + 1) mod q_size q)"
    "unat ((q_write q + 1) mod q_size q) = Suc (unat (q_read q) + length xs) mod unat (q_size q)"
    using step_end_unat [OF b(1)] b(2) w_def by (simp_all add: mod_Suc_eq)
  have "length xs < length (q_buffer q)" using assms(2) d(1) by simp
  then show "xs @ [v] = slots ((q_buffer q)[w := v]) (unat (q_read q)) (Suc (length xs))"
    using slots_put [of "length xs" "q_buffer q" "unat (q_read q)" v] d(1,5) w_def by simp
qed

lemma pushed_ok:
  assumes "queue_ok q xs" "length xs < unat (q_size q)"
  shows "put_slot (q_buffer q) (q_write q) v = Some ((q_buffer q)[(unat (q_read q) + length xs) mod unat (q_size q) := v])"
    "step_end (q_write q) (q_size q) = Some ((q_write q + 1) mod q_size q)"
    "queue_ok (q\<lparr>q_buffer := (q_buffer q)[(unat (q_read q) + length xs) mod unat (q_size q) := v],
       q_write := (q_write q + 1) mod q_size q, q_count := q_count q + 1\<rparr>) (xs @ [v])" (is "queue_ok ?q _")
proof -
  note d = queue_okD [OF assms(1)] and p = put_at [OF assms]
  show "put_slot (q_buffer q) (q_write q) v = Some ((q_buffer q)[(unat (q_read q) + length xs) mod unat (q_size q) := v])"
    "step_end (q_write q) (q_size q) = Some ((q_write q + 1) mod q_size q)" using p by auto
  show "queue_ok ?q (xs @ [v])"
    unfolding queue_ok_def
  proof (intro conjI)
    have "Suc (length xs) < 2 ^ 32" using assms(2) word_less_2p32 [of "q_size q"] by linarith
    then show "unat (q_count ?q) = length (xs @ [v])" using inc_unat [OF d(2)] by simp
    show "unat (q_write ?q) = (unat (q_read ?q) + length (xs @ [v])) mod unat (q_size ?q)" using p(3) by simp
    show "xs @ [v] = slots (q_buffer ?q) (unat (q_read ?q)) (length (xs @ [v]))" using p(4) by simp
  qed (use d(1,6) assms(2) in auto)
qed

lemma q_push_back_ok:
  assumes "queue_ok q xs" "length xs < unat (q_size q)"
  shows "\<exists>q'. q_push_back v q = Some (True, q') \<and> queue_ok q' (xs @ [v]) \<and> q_size q' = q_size q"
  using pushed_ok [OF assms] queue_okD(8) [OF assms(1)] assms(2) by (auto simp: q_push_back_def)

text \<open>The loops of the block operations, which leave the counter alone.\<close>

lemma read_loop_ok:
  "queue_ok (q\<lparr>q_count := of_nat (length xs)\<rparr>) xs \<Longrightarrow> k \<le> length xs \<Longrightarrow>
   \<exists>r. read_loop k q = Some (take k xs, q\<lparr>q_read := r\<rparr>) \<and>
     queue_ok (q\<lparr>q_read := r, q_count := of_nat (length (drop k xs))\<rparr>) (drop k xs)"
proof (induction k arbitrary: q xs)
  case 0
  then show ?case by (intro exI [of _ "q_read q"]) simp
next
  case (Suc k)
  then obtain x ys where x: "xs = x # ys" by (cases xs) auto
  note s = slot_at [OF Suc.prems(1) [unfolded x]] and p = popped_ok [OF Suc.prems(1) [unfolded x]]
  let ?q = "q\<lparr>q_read := (q_read q + 1) mod q_size q\<rparr>"
  have "queue_ok (?q\<lparr>q_count := of_nat (length ys)\<rparr>) ys" using p(2) by simp
  then obtain r where "read_loop k ?q = Some (take k ys, ?q\<lparr>q_read := r\<rparr>)"
    "queue_ok (?q\<lparr>q_read := r, q_count := of_nat (length (drop k ys))\<rparr>) (drop k ys)"
    using Suc.IH [where q = ?q and xs = ys] Suc.prems(2) x by auto
  then show ?case using s(1) p(1) x by (intro exI [of _ r]) simp
qed

lemma write_loop_ok:
  "queue_ok (q\<lparr>q_count := of_nat (length xs)\<rparr>) xs \<Longrightarrow> length xs + length vs \<le> unat (q_size q) \<Longrightarrow>
   \<exists>b w. write_loop vs q = Some (q\<lparr>q_buffer := b, q_write := w\<rparr>) \<and>
     queue_ok (q\<lparr>q_buffer := b, q_write := w, q_count := of_nat (length (xs @ vs))\<rparr>) (xs @ vs)"
proof (induction vs arbitrary: q xs)
  case Nil
  then show ?case by (intro exI [of _ "q_buffer q"] exI [of _ "q_write q"]) simp
next
  case (Cons v vs)
  have room: "length xs < unat (q_size (q\<lparr>q_count := of_nat (length xs)\<rparr>))" using Cons.prems(2) by simp
  note p = pushed_ok [OF Cons.prems(1) room]
  let ?q = "q\<lparr>q_buffer := (q_buffer q)[(unat (q_read q) + length xs) mod unat (q_size q) := v], q_write := (q_write q + 1) mod q_size q\<rparr>"
  have "queue_ok (?q\<lparr>q_count := of_nat (length (xs @ [v]))\<rparr>) (xs @ [v])" using p(3) [of v] by (simp add: add.commute)
  then obtain b w where "write_loop vs ?q = Some (?q\<lparr>q_buffer := b, q_write := w\<rparr>)"
    "queue_ok (?q\<lparr>q_buffer := b, q_write := w, q_count := of_nat (length ((xs @ [v]) @ vs))\<rparr>) ((xs @ [v]) @ vs)"
    using Cons.IH [where q = ?q and xs = "xs @ [v]"] Cons.prems(2) by auto
  then show ?case using p(1,2) by (intro exI [of _ b] exI [of _ w]) simp
qed

lemma q_count_eq: "queue_ok q xs \<Longrightarrow> q_count q = of_nat (length xs)"
  by (simp flip: queue_okD(2))

lemma queue_count: "queue_ok q xs \<Longrightarrow> q\<lparr>q_count := of_nat (length xs)\<rparr> = q"
  using q_count_eq [of q xs] by (cases q) simp

lemma q_read_block_ok:
  fixes n :: "32 word"
  assumes ok: "queue_ok q xs"
  defines "k \<equiv> if sint n \<le> 0 then 0 else min (unat n) (length xs)"
  shows "\<exists>q'. q_read_block n q = Some (of_nat k, take k xs, q') \<and> queue_ok q' (drop k xs) \<and> q_size q' = q_size q"
proof (cases "sint n \<le> 0 \<or> q_empty q")
  case True
  then have "k = 0" using queue_okD(7) [OF ok] by (auto simp: k_def)
  then show ?thesis using True ok by (intro exI [of _ q]) (auto simp: q_read_block_def)
next
  case False
  note d = queue_okD [OF ok]
  have m: "(if q_count q < n then q_count q else n) = of_nat k"
    using False d(2) by (auto simp: k_def word_less_nat_alt min_def simp flip: d(2))
  have k: "unat (of_nat k :: 32 word) = k" using d(2) word_less_2p32 [of "q_count q"] 
    by (simp add: unat_of_nat k_def)
  have kn: "k \<le> length xs" by (simp add: k_def)
  obtain r where r: "read_loop k q = Some (take k xs, q\<lparr>q_read := r\<rparr>)"
    "queue_ok (q\<lparr>q_read := r, q_count := of_nat (length (drop k xs))\<rparr>) (drop k xs)"
    using read_loop_ok [where q = q and xs = xs and k = k, unfolded queue_count [OF ok], OF ok kn] by blast
  have "q_count q + - of_nat k = of_nat (length (drop k xs))" using q_count_eq [OF ok] kn by (simp add: of_nat_diff)
  then have "q_read_block n q = Some (of_nat k, take k xs, q\<lparr>q_read := r, q_count := of_nat (length (drop k xs))\<rparr>)"
    using False m k r(1) by (simp add: q_read_block_def Let_def)
  then show ?thesis using r(2) by auto
qed

lemma q_write_block_ok:
  fixes n :: "32 word"
  assumes ok: "queue_ok q xs" and ins: "sint n \<le> 0 \<or> unat n \<le> length ins"
  defines "k \<equiv> if sint n \<le> 0 then 0 else min (unat n) (unat (q_size q) - length xs)"
  shows "\<exists>q'. q_write_block ins n q = Some (of_nat k, q') \<and> queue_ok q' (xs @ take k ins) \<and> q_size q' = q_size q"
proof (cases "sint n \<le> 0 \<or> q_full q")
  case True
  then have "k = 0" using queue_okD(8) [OF ok] by (auto simp: k_def)
  then show ?thesis using True ok by (intro exI [of _ q]) (auto simp: q_write_block_def)
next
  case False
  note d = queue_okD [OF ok]
  have "q_count q \<le> q_size q" using d(2,3) by (simp add: word_le_nat_alt)
  then have a: "unat (q_available q) = unat (q_size q) - length xs" using d(2) by (simp add: q_available_def unat_sub)
  have m: "(if q_available q < n then q_available q else n) = of_nat k"
    using False a by (auto simp: k_def word_less_nat_alt min_def simp flip: a)
  have k: "unat (of_nat k :: 32 word) = k" using word_less_2p32 [of "q_size q"]
    by (simp add: unat_of_nat k_def)
  have kn: "k \<le> length ins" "length xs + k \<le> unat (q_size q)" using ins False d(3) by (auto simp: k_def)
  obtain b w where r: "write_loop (take k ins) q = Some (q\<lparr>q_buffer := b, q_write := w\<rparr>)"
    "queue_ok (q\<lparr>q_buffer := b, q_write := w, q_count := of_nat (length (xs @ take k ins))\<rparr>) (xs @ take k ins)"
    using write_loop_ok [where q = q and xs = xs and vs = "take k ins", unfolded queue_count [OF ok], OF ok] kn by auto
  have "q_count q + of_nat k = of_nat (length (xs @ take k ins))" using q_count_eq [OF ok] kn(1) by simp
  then have "q_write_block ins n q = Some (of_nat k, q\<lparr>q_buffer := b, q_write := w, q_count := of_nat (length (xs @ take k ins))\<rparr>)"
    using False m k kn(1) r(1) by (simp add: q_write_block_def Let_def)
  then show ?thesis using r(2) by auto
qed

lemma q_clear_ok: "queue_ok q xs \<Longrightarrow> queue_ok (q_clear q) []"
  by (auto simp: queue_ok_def q_clear_def unat_gt_0)

section \<open>A bounded first-in-first-out container\<close>

definition queue_holds :: "32 word \<Rightarrow> 'a queue \<Rightarrow> 'a list \<Rightarrow> bool" where
  "queue_holds n q xs \<longleftrightarrow> q_size q = n \<and> queue_ok q xs"

interpretation ring: bounded_fifo "unat n" "queue_holds n" q_push_back q_front q_pop_front
proof (unfold_locales, goal_cases)
  case (1 s xs v)
  then show ?case using q_push_back_ok [of s xs v] by (auto simp: queue_holds_def)
next
  case (2 s x xs)
  then show ?case using q_front_ok by (auto simp: queue_holds_def)
next
  case (3 s)
  then show ?case using queue_okD(7) [of s "[]"] by (auto simp: queue_holds_def q_front_def)
next
  case (4 s x xs)
  then show ?case using q_pop_front_ok [of s x xs] by (auto simp: queue_holds_def)
next
  case (5 s)
  then show ?case using queue_okD(7) [of s "[]"] by (auto simp: queue_holds_def q_pop_front_def)
next
  case (6 s xs)
  then show ?case using queue_okD(3) by (auto simp: queue_holds_def)
next
  case (7 s xs v)
  then show ?case using queue_okD(8) by (auto simp: queue_holds_def q_push_back_def)
qed

text \<open>C16. Any sequence of insertions and removals on a queue of \<open>n\<close> slots behaves as on a list of at most \<open>n\<close> elements:
  an insertion is refused exactly when the queue is full, and the elements come out in the order in which they were
  accepted, none lost and none twice.\<close>

theorem queue_refines_fifo:
  "\<exists>q'. fifo_run (fifo_step q_push_back q_front q_pop_front) cs (queue_init n x0) = Some (fst (list_run (unat n) cs []), q') \<and>
    queue_ok q' (snd (list_run (unat n) cs [])) \<and>
    delivered (fst (list_run (unat n) cs [])) @ snd (list_run (unat n) cs []) = accepted cs (fst (list_run (unat n) cs []))"
proof -
  have "queue_holds n (queue_init n x0) []" using queue_init_ok [of n x0] by (simp add: queue_holds_def queue_init_def)
  then show ?thesis
    using ring.run_repr [of n "queue_init n x0" "[]" cs] list_run_order [of "unat n" cs "[]"] by (auto simp: queue_holds_def)
qed

text \<open>The block transfers move as many elements as asked for, but no more than the queue holds or has room for, in
  order; a negative count moves none.\<close>

lemma queue_block_transfers:
  assumes "queue_ok q xs" "sint n \<le> 0 \<or> unat n \<le> length ins"
  shows "(let k = if sint n \<le> 0 then 0 else min (unat n) (length xs) in
      \<exists>q'. q_read_block n q = Some (of_nat k, take k xs, q') \<and> queue_ok q' (drop k xs)) \<and>
    (let k = if sint n \<le> 0 then 0 else min (unat n) (unat (q_size q) - length xs) in
      \<exists>q'. q_write_block ins n q = Some (of_nat k, q') \<and> queue_ok q' (xs @ take k ins))"
  using q_read_block_ok [OF assms(1), of n] q_write_block_ok [OF assms] unfolding Let_def by blast

lemma queue_block_transfers_witness:
  "\<exists>q'. q_write_block [5, 6, 7] 3 (queue_init 2 (0::nat)) = Some (2, q') \<and> queue_ok q' [5, 6]"
  using queue_block_transfers [OF queue_init_ok [of 2 "0::nat"], of 3 "[5, 6, 7]"]
  by (simp add: queue_init_def Let_def)

end
