(* ===== verification/Queue_Channel.thy ===== *)
theory Queue_Channel
  imports Queue
begin

text \<open>
  One producer and one consumer on \<open>upan::queue\<close> without a lock. \<open>push_back\<close>, \<open>front\<close> and \<open>pop_front\<close> are taken apart
  into their accesses to shared memory, which interleave freely; the counter is read and changed by the atomic
  operations of libupthread, and the accesses take effect in program order, as on the x86-64 targets of the
  library. \<open>ch_sent\<close> and \<open>ch_got\<close> record what the producer has pushed and the consumer has popped.
\<close>

section \<open>The steps\<close>

datatype 'a producer = P_Idle | P_Store 'a | P_Move 'a | P_Inc 'a

datatype 'a consumer = C_Idle | C_Read | C_Check 'a | C_Move 'a | C_Dec

record 'a channel =
  ch_queue :: "'a queue"
  ch_producer :: "'a producer"
  ch_consumer :: "'a consumer"
  ch_sent :: "'a list"
  ch_got :: "'a list"

definition channel_init :: "32 word \<Rightarrow> 'a \<Rightarrow> 'a channel" where
  "channel_init n x0 = \<lparr>ch_queue = queue_init n x0, ch_producer = P_Idle, ch_consumer = C_Idle, ch_sent = [], ch_got = []\<rparr>"

inductive producer_step :: "'a channel \<Rightarrow> 'a channel \<Rightarrow> bool" where
  push_refused: "ch_producer s = P_Idle \<Longrightarrow> q_full (ch_queue s) \<Longrightarrow> producer_step s s"
| push_check: "ch_producer s = P_Idle \<Longrightarrow> \<not> q_full (ch_queue s) \<Longrightarrow> producer_step s (s\<lparr>ch_producer := P_Store v\<rparr>)"
| push_store: "ch_producer s = P_Store v \<Longrightarrow> put_slot (q_buffer (ch_queue s)) (q_write (ch_queue s)) v = Some b \<Longrightarrow>
    producer_step s (s\<lparr>ch_queue := ch_queue s\<lparr>q_buffer := b\<rparr>, ch_producer := P_Move v\<rparr>)"
| push_move: "ch_producer s = P_Move v \<Longrightarrow> step_end (q_write (ch_queue s)) (q_size (ch_queue s)) = Some w \<Longrightarrow>
    producer_step s (s\<lparr>ch_queue := ch_queue s\<lparr>q_write := w\<rparr>, ch_producer := P_Inc v\<rparr>)"
| push_inc: "ch_producer s = P_Inc v \<Longrightarrow>
    producer_step s (s\<lparr>ch_queue := ch_queue s\<lparr>q_count := q_count (ch_queue s) + 1\<rparr>, ch_producer := P_Idle, ch_sent := ch_sent s @ [v]\<rparr>)"

inductive consumer_step :: "'a channel \<Rightarrow> 'a channel \<Rightarrow> bool" where
  front_empty: "ch_consumer s = C_Idle \<Longrightarrow> q_empty (ch_queue s) \<Longrightarrow> consumer_step s s"
| front_check: "ch_consumer s = C_Idle \<Longrightarrow> \<not> q_empty (ch_queue s) \<Longrightarrow> consumer_step s (s\<lparr>ch_consumer := C_Read\<rparr>)"
| front_read: "ch_consumer s = C_Read \<Longrightarrow> slot (q_buffer (ch_queue s)) (q_read (ch_queue s)) = Some v \<Longrightarrow>
    consumer_step s (s\<lparr>ch_consumer := C_Check v\<rparr>)"
| pop_refused: "ch_consumer s = C_Check v \<Longrightarrow> q_empty (ch_queue s) \<Longrightarrow> consumer_step s (s\<lparr>ch_consumer := C_Idle\<rparr>)"
| pop_check: "ch_consumer s = C_Check v \<Longrightarrow> \<not> q_empty (ch_queue s) \<Longrightarrow> consumer_step s (s\<lparr>ch_consumer := C_Move v\<rparr>)"
| pop_move: "ch_consumer s = C_Move v \<Longrightarrow> step_end (q_read (ch_queue s)) (q_size (ch_queue s)) = Some r \<Longrightarrow>
    consumer_step s (s\<lparr>ch_queue := ch_queue s\<lparr>q_read := r\<rparr>, ch_consumer := C_Dec, ch_got := ch_got s @ [v]\<rparr>)"
| pop_dec: "ch_consumer s = C_Dec \<Longrightarrow>
    consumer_step s (s\<lparr>ch_queue := ch_queue s\<lparr>q_count := q_count (ch_queue s) - 1\<rparr>, ch_consumer := C_Idle\<rparr>)"

definition channel_step :: "'a channel \<Rightarrow> 'a channel \<Rightarrow> bool" where
  "channel_step s s' \<longleftrightarrow> producer_step s s' \<or> consumer_step s s'"

section \<open>The invariant\<close>

text \<open>
  Between the steps of a pending \<open>push_back\<close> the write end may be one ahead, and between those of a pending
  \<open>pop_front\<close> the counter may be one too high. \<open>xs\<close> are the elements that have been sent and not got; the slot after
  them is the producer's.
\<close>

definition pending_slot :: "'a channel \<Rightarrow> 'a list \<Rightarrow> nat" where
  "pending_slot s xs = (unat (q_read (ch_queue s)) + length xs) mod unat (q_size (ch_queue s))"

definition producer_ok :: "'a channel \<Rightarrow> 'a list \<Rightarrow> bool" where
  "producer_ok s xs \<longleftrightarrow> (let q = ch_queue s; p = pending_slot s xs in
     case ch_producer s of
       P_Idle \<Rightarrow> unat (q_write q) = p
     | P_Store v \<Rightarrow> unat (q_write q) = p \<and> \<not> q_full q
     | P_Move v \<Rightarrow> unat (q_write q) = p \<and> \<not> q_full q \<and> q_buffer q ! p = v
     | P_Inc v \<Rightarrow> unat (q_write q) = Suc p mod unat (q_size q) \<and> \<not> q_full q \<and> q_buffer q ! p = v)"

definition consumer_ok :: "'a channel \<Rightarrow> 'a list \<Rightarrow> bool" where
  "consumer_ok s xs \<longleftrightarrow> (case ch_consumer s of
       C_Idle \<Rightarrow> unat (q_count (ch_queue s)) = length xs
     | C_Read \<Rightarrow> unat (q_count (ch_queue s)) = length xs \<and> xs \<noteq> []
     | C_Check v \<Rightarrow> unat (q_count (ch_queue s)) = length xs \<and> xs \<noteq> [] \<and> v = hd xs
     | C_Move v \<Rightarrow> unat (q_count (ch_queue s)) = length xs \<and> xs \<noteq> [] \<and> v = hd xs
     | C_Dec \<Rightarrow> unat (q_count (ch_queue s)) = Suc (length xs))"

definition channel_ok :: "32 word \<Rightarrow> 'a channel \<Rightarrow> 'a list \<Rightarrow> bool" where
  "channel_ok n s xs \<longleftrightarrow> (let q = ch_queue s in
     q_size q = n \<and> n \<noteq> 0 \<and> length (q_buffer q) = unat n \<and> unat (q_read q) < unat n \<and> unat (q_count q) \<le> unat n \<and>
     slots (q_buffer q) (unat (q_read q)) (length xs) = xs \<and> ch_sent s = ch_got s @ xs \<and>
     producer_ok s xs \<and> consumer_ok s xs)"

lemma channel_init_ok: "n \<noteq> 0 \<Longrightarrow> channel_ok n (channel_init n x0) []"
  by (simp add: channel_ok_def channel_init_def queue_init_def producer_ok_def consumer_ok_def pending_slot_def unat_gt_0 Let_def)

lemma channel_okD:
  assumes "channel_ok n s xs"
  shows "q_size (ch_queue s) = n" "0 < unat n" "length (q_buffer (ch_queue s)) = unat n" "unat (q_read (ch_queue s)) < unat n"
    "unat (q_count (ch_queue s)) \<le> unat n" "slots (q_buffer (ch_queue s)) (unat (q_read (ch_queue s))) (length xs) = xs"
    "ch_sent s = ch_got s @ xs" "producer_ok s xs" "consumer_ok s xs"
    "length xs \<le> unat (q_count (ch_queue s))" "pending_slot s xs < unat n" "pending_slot s xs = (unat (q_read (ch_queue s)) + length xs) mod unat n"
    "q_full (ch_queue s) \<longleftrightarrow> unat (q_count (ch_queue s)) = unat n" "q_empty (ch_queue s) \<longleftrightarrow> unat (q_count (ch_queue s)) = 0"
proof -
  note c = assms [unfolded channel_ok_def Let_def]
  show n: "q_size (ch_queue s) = n" "0 < unat n" "length (q_buffer (ch_queue s)) = unat n" "unat (q_read (ch_queue s)) < unat n"
    "unat (q_count (ch_queue s)) \<le> unat n" "slots (q_buffer (ch_queue s)) (unat (q_read (ch_queue s))) (length xs) = xs"
    "ch_sent s = ch_got s @ xs" "producer_ok s xs" "consumer_ok s xs"
    using c by (simp_all add: unat_gt_0)
  show "length xs \<le> unat (q_count (ch_queue s))" using n(9) by (cases "ch_consumer s") (auto simp: consumer_ok_def)
  show "pending_slot s xs < unat n" "pending_slot s xs = (unat (q_read (ch_queue s)) + length xs) mod unat n"
    using n(1,2) by (simp_all add: pending_slot_def)
  show "q_full (ch_queue s) \<longleftrightarrow> unat (q_count (ch_queue s)) = unat n" "q_empty (ch_queue s) \<longleftrightarrow> unat (q_count (ch_queue s)) = 0"
    using n(1) by (auto simp: q_full_def q_empty_def word_unat_eq_iff)
qed

lemmas channel_okI = channel_ok_def [unfolded Let_def, THEN iffD2]

lemma consumer_frame:
  "consumer_ok s xs \<Longrightarrow> ch_consumer s' = ch_consumer s \<Longrightarrow> q_count (ch_queue s') = q_count (ch_queue s) \<Longrightarrow> consumer_ok s' xs"
  by (cases "ch_consumer s") (auto simp: consumer_ok_def)

text \<open>The producer's steps.\<close>

lemma producer_keeps:
  assumes ok: "channel_ok n s xs" and st: "producer_step s s'"
  shows "\<exists>ys. channel_ok n s' ys"
  using st
proof cases
  case push_refused
  then show ?thesis using ok by blast
next
  case (push_check v)
  note d = channel_okD [OF ok]
  have "producer_ok s' xs" using d(8) push_check by (simp add: producer_ok_def pending_slot_def)
  moreover have "consumer_ok s' xs" using consumer_frame [OF d(9)] push_check(1) by simp
  ultimately have "channel_ok n s' xs" using d push_check(1) by (intro channel_okI) (auto simp: unat_gt_0)
  then show ?thesis by blast
next
  case (push_store v b)
  note d = channel_okD [OF ok]
  have p: "unat (q_write (ch_queue s)) = pending_slot s xs" "\<not> q_full (ch_queue s)"
    using d(8) push_store by (auto simp: producer_ok_def Let_def)
  have b: "b = (q_buffer (ch_queue s))[pending_slot s xs := v]"
    using push_store(3) p(1) by (auto simp: put_slot_def split: if_splits)
  have "length xs < unat n" using d(5,10,13) p(2) by linarith
  then have sl: "slots b (unat (q_read (ch_queue s))) (length xs) = xs"
    using slots_update [of "length xs" "q_buffer (ch_queue s)" "unat (q_read (ch_queue s))" v] d(3,6,12) b by simp
  have "producer_ok s' xs" using p b d(3,11) push_store(1) by (simp add: producer_ok_def pending_slot_def q_full_def)
  moreover have "consumer_ok s' xs" using consumer_frame [OF d(9)] push_store(1) by simp
  ultimately have "channel_ok n s' xs" using d push_store(1) sl b by (intro channel_okI) (auto simp: unat_gt_0)
  then show ?thesis by blast
next
  case (push_move v w)
  note d = channel_okD [OF ok]
  have p: "unat (q_write (ch_queue s)) = pending_slot s xs" "\<not> q_full (ch_queue s)" "q_buffer (ch_queue s) ! pending_slot s xs = v"
    using d(8) push_move by (auto simp: producer_ok_def Let_def)
  have "unat w = Suc (pending_slot s xs) mod unat n"
    using step_end_unat [of "q_write (ch_queue s)" n] p(1) d(1,11) push_move(3) by simp
  then have "producer_ok s' xs" using p d(1) push_move(1) by (simp add: producer_ok_def pending_slot_def q_full_def)
  moreover have "consumer_ok s' xs" using consumer_frame [OF d(9)] push_move(1) by simp
  ultimately have "channel_ok n s' xs" using d push_move(1) by (intro channel_okI) (auto simp: unat_gt_0)
  then show ?thesis by blast
next
  case (push_inc v)
  note d = channel_okD [OF ok]
  have p: "unat (q_write (ch_queue s)) = Suc (pending_slot s xs) mod unat n" "\<not> q_full (ch_queue s)" "q_buffer (ch_queue s) ! pending_slot s xs = v"
    using d(1,8) push_inc by (auto simp: producer_ok_def Let_def)
  have "Suc (unat (q_count (ch_queue s))) \<le> unat n" using d(5,13) p(2) by linarith
  then have c: "unat (q_count (ch_queue s) + 1) = Suc (unat (q_count (ch_queue s)))" "Suc (unat (q_count (ch_queue s))) \<le> unat n"
    using inc_unat [OF refl, of "q_count (ch_queue s)"] word_less_2p32 [of n] by auto
  have sl: "slots (q_buffer (ch_queue s)) (unat (q_read (ch_queue s))) (Suc (length xs)) = xs @ [v]"
    using d(3,6,12) p(3) by (simp add: slots_Suc)
  have w: "unat (q_write (ch_queue s)) = (unat (q_read (ch_queue s)) + Suc (length xs)) mod unat n"
    using p(1) d(12) by (simp add: mod_Suc_eq)
  have "consumer_ok s' (xs @ [v])" using d(9) c(1) push_inc(1) by (auto simp: consumer_ok_def split: consumer.splits)
  then have "channel_ok n s' (xs @ [v])"
    using d(1-5,7) push_inc(1) c w sl by (intro channel_okI) (auto simp: producer_ok_def pending_slot_def unat_gt_0)
  then show ?thesis by blast
qed

text \<open>The consumer's steps.\<close>

lemma producer_frame:
  "producer_ok s xs \<Longrightarrow> ch_producer s' = ch_producer s \<Longrightarrow> q_write (ch_queue s') = q_write (ch_queue s) \<Longrightarrow>
   q_size (ch_queue s') = q_size (ch_queue s) \<Longrightarrow> q_buffer (ch_queue s') = q_buffer (ch_queue s) \<Longrightarrow>
   pending_slot s' ys = pending_slot s xs \<Longrightarrow> (\<not> q_full (ch_queue s) \<Longrightarrow> \<not> q_full (ch_queue s')) \<Longrightarrow> producer_ok s' ys"
  by (cases "ch_producer s") (auto simp: producer_ok_def Let_def)

lemma head_slot:
  assumes "channel_ok n s (x # xs)"
  shows "slot (q_buffer (ch_queue s)) (q_read (ch_queue s)) = Some x"
    "slots (q_buffer (ch_queue s)) (Suc (unat (q_read (ch_queue s))) mod unat n) (length xs) = xs"
  using channel_okD(3,4,6) [OF assms] by (auto simp: slots_Cons slot_def)

lemma consumer_keeps:
  assumes ok: "channel_ok n s xs" and st: "consumer_step s s'"
  shows "\<exists>ys. channel_ok n s' ys"
  using st
proof cases
  case front_empty
  then show ?thesis using ok by blast
next
  case front_check
  note d = channel_okD [OF ok]
  have "consumer_ok s' xs" using d(9,14) front_check by (auto simp: consumer_ok_def)
  moreover have "producer_ok s' xs" by (rule producer_frame [OF d(8)]) (use front_check in \<open>simp_all add: pending_slot_def\<close>)
  ultimately have "channel_ok n s' xs" using d front_check(1) by (intro channel_okI) (auto simp: unat_gt_0)
  then show ?thesis by blast
next
  case (front_read v)
  note d = channel_okD [OF ok]
  obtain x ys where x: "xs = x # ys" using d(9) front_read(2) by (cases xs) (auto simp: consumer_ok_def)
  then have "consumer_ok s' xs" using d(9) front_read head_slot(1) [OF ok [unfolded x]] by (auto simp: consumer_ok_def)
  moreover have "producer_ok s' xs" by (rule producer_frame [OF d(8)]) (use front_read in \<open>simp_all add: pending_slot_def\<close>)
  ultimately have "channel_ok n s' xs" using d front_read(1) by (intro channel_okI) (auto simp: unat_gt_0)
  then show ?thesis by blast
next
  case (pop_refused v)
  then show ?thesis using channel_okD(9,14) [OF ok] by (auto simp: consumer_ok_def)
next
  case (pop_check v)
  note d = channel_okD [OF ok]
  have "consumer_ok s' xs" using d(9) pop_check by (auto simp: consumer_ok_def)
  moreover have "producer_ok s' xs" by (rule producer_frame [OF d(8)]) (use pop_check in \<open>simp_all add: pending_slot_def\<close>)
  ultimately have "channel_ok n s' xs" using d pop_check(1) by (intro channel_okI) (auto simp: unat_gt_0)
  then show ?thesis by blast
next
  case (pop_move v r)
  note d = channel_okD [OF ok]
  obtain x ys where x: "xs = x # ys" "v = x" using d(9) pop_move(2) by (cases xs) (auto simp: consumer_ok_def)
  have r: "unat r = Suc (unat (q_read (ch_queue s))) mod unat n"
    using step_end_unat [of "q_read (ch_queue s)" n] d(1,4) pop_move(3) by simp
  have "consumer_ok s' ys" using d(9) pop_move(1,2) x by (auto simp: consumer_ok_def)
  moreover have "producer_ok s' ys"
  proof (rule producer_frame [OF d(8)])
    show "pending_slot s' ys = pending_slot s xs"
      using r x d(1) pop_move(1) by (simp add: pending_slot_def mod_add_left_eq)
  qed (use pop_move(1) in \<open>simp_all add: q_full_def\<close>)
  moreover have "slots (q_buffer (ch_queue s')) (unat (q_read (ch_queue s'))) (length ys) = ys"
    using head_slot(2) [OF ok [unfolded x(1)]] r pop_move(1) by simp
  ultimately have "channel_ok n s' ys" using d(1-5,7) r x pop_move(1) by (intro channel_okI) (auto simp: unat_gt_0)
  then show ?thesis by blast
next
  case pop_dec
  note d = channel_okD [OF ok]
  have c: "unat (q_count (ch_queue s)) = Suc (length xs)" using d(9) pop_dec by (simp add: consumer_ok_def)
  then have c': "unat (q_count (ch_queue s) - 1) = length xs" by (rule dec_unat)
  have "consumer_ok s' xs" using c' pop_dec(1) by (auto simp: consumer_ok_def)
  moreover have "producer_ok s' xs"
  proof (rule producer_frame [OF d(8)])
    show "\<not> q_full (ch_queue s')" if "\<not> q_full (ch_queue s)"
    proof
      assume "q_full (ch_queue s')"
      then have "unat n = length xs" using c' d(1) pop_dec(1) by (auto simp: q_full_def)
      then show False using d(5) c by simp
    qed
  qed (use pop_dec in \<open>simp_all add: pending_slot_def\<close>)
  ultimately have "channel_ok n s' xs" using d c c' pop_dec(1) by (intro channel_okI) (auto simp: unat_gt_0)
  then show ?thesis by blast
qed

lemma channel_reachable:
  "channel_step\<^sup>*\<^sup>* (channel_init n x0) s \<Longrightarrow> n \<noteq> 0 \<Longrightarrow> \<exists>xs. channel_ok n s xs"
proof (induction rule: rtranclp_induct)
  case base
  show ?case by (rule exI, rule channel_init_ok [OF base])
next
  case (step s s')
  obtain xs where ok: "channel_ok n s xs" using step.IH [OF step.prems] by blast
  from step.hyps(2) show ?case unfolding channel_step_def by (elim disjE producer_keeps [OF ok] consumer_keeps [OF ok])
qed

text \<open>Neither side can be stuck: the slots that it touches exist.\<close>

lemma producer_proceeds: "channel_ok n s xs \<Longrightarrow> \<exists>s'. producer_step s s'"
proof (cases "ch_producer s")
  case P_Idle
  then show ?thesis by (cases "q_full (ch_queue s)") (blast intro: producer_step.intros)+
next
  case (P_Store v)
  assume "channel_ok n s xs"
  note d = channel_okD [OF this]
  have "unat (q_write (ch_queue s)) < length (q_buffer (ch_queue s))" using d(3,8,11) P_Store by (simp add: producer_ok_def Let_def)
  then show ?thesis using push_store [OF P_Store, where b = "(q_buffer (ch_queue s))[unat (q_write (ch_queue s)) := v]"]
    by (auto simp: put_slot_def)
next
  case (P_Move v)
  assume "channel_ok n s xs"
  note d = channel_okD [OF this]
  have "step_end (q_write (ch_queue s)) (q_size (ch_queue s)) = Some ((q_write (ch_queue s) + 1) mod n)"
    using step_end_unat(1) [of "q_write (ch_queue s)" n] d(1,8,11) P_Move by (simp add: producer_ok_def Let_def)
  then show ?thesis using push_move [OF P_Move] by blast
next
  case (P_Inc v)
  then show ?thesis by (blast intro: push_inc)
qed

lemma consumer_proceeds: "channel_ok n s xs \<Longrightarrow> \<exists>s'. consumer_step s s'"
proof (cases "ch_consumer s")
  case C_Idle
  then show ?thesis by (cases "q_empty (ch_queue s)") (blast intro: consumer_step.intros)+
next
  case C_Read
  assume ok: "channel_ok n s xs"
  obtain x ys where x: "xs = x # ys" using channel_okD(9) [OF ok] C_Read by (cases xs) (auto simp: consumer_ok_def)
  show ?thesis by (rule exI, rule front_read [OF C_Read head_slot(1) [OF ok [unfolded x]]])
next
  case (C_Check v)
  then show ?thesis by (cases "q_empty (ch_queue s)") (blast intro: consumer_step.intros)+
next
  case (C_Move v)
  assume "channel_ok n s xs"
  note d = channel_okD [OF this]
  have "step_end (q_read (ch_queue s)) (q_size (ch_queue s)) = Some ((q_read (ch_queue s) + 1) mod n)"
    using step_end_unat(1) [of "q_read (ch_queue s)" n] d(1,4) by simp
  then show ?thesis using pop_move [OF C_Move] by blast
next
  case C_Dec
  then show ?thesis by (blast intro: pop_dec)
qed

text \<open>C7. One producer and one consumer need no lock: under every interleaving of their accesses to the queue, what the
  consumer has popped is a prefix of what the producer has pushed, at most \<open>n\<close> elements are under way, neither side
  ever touches a slot outside the buffer, and when both are idle the queue holds exactly the elements under way.\<close>

theorem one_producer_one_consumer:
  assumes "channel_step\<^sup>*\<^sup>* (channel_init n x0) s" "n \<noteq> 0"
  shows "(\<exists>xs. ch_sent s = ch_got s @ xs \<and> length xs \<le> unat n \<and>
      (ch_producer s = P_Idle \<and> ch_consumer s = C_Idle \<longrightarrow> queue_ok (ch_queue s) xs)) \<and>
    (\<exists>s'. producer_step s s') \<and> (\<exists>s'. consumer_step s s')"
proof -
  obtain xs where ok: "channel_ok n s xs" using channel_reachable [OF assms] by blast
  note d = channel_okD [OF ok]
  have "queue_ok (ch_queue s) xs" if "ch_producer s = P_Idle" "ch_consumer s = C_Idle"
    using that d by (auto simp: queue_ok_def producer_ok_def consumer_ok_def Let_def)
  moreover have "length xs \<le> unat n" using d(5,10) by linarith
  ultimately show ?thesis using d(7) producer_proceeds [OF ok] consumer_proceeds [OF ok] by blast
qed

lemma one_producer_one_consumer_witness:
  "\<exists>s'. producer_step ((channel_init 1 (0::nat))\<lparr>ch_producer := P_Store 7\<rparr>) s'"
proof -
  have "channel_step (channel_init 1 (0::nat)) ((channel_init 1 0)\<lparr>ch_producer := P_Store 7\<rparr>)"
    unfolding channel_step_def by (intro disjI1 push_check) (simp_all add: channel_init_def queue_init_def q_full_def)
  then have "channel_step\<^sup>*\<^sup>* (channel_init 1 (0::nat)) ((channel_init 1 0)\<lparr>ch_producer := P_Store 7\<rparr>)" by blast
  then show ?thesis using one_producer_one_consumer by fastforce
qed

end
