(* ===== verification/Lifo.thy ===== *)
theory Lifo
  imports Fifo
begin

text \<open>
  The contract of the last-in-first-out containers of \<open>libustd\<close>, and the first of them: the bounded \<open>Stack\<close> of
  \<open>libustd/ds/Stack.h\<close>, an array of fixed size with an index to its first free slot.
\<close>

section \<open>The contract\<close>

fun lifo_step ::
    "('a \<Rightarrow> 's \<Rightarrow> (bool \<times> 's) option) \<Rightarrow> ('s \<Rightarrow> ('a option \<times> 's) option) \<Rightarrow> 'a fifo_op \<Rightarrow> 's \<Rightarrow> ('a fifo_outcome \<times> 's) option" where
  "lifo_step push pop (Put v) s = do { (b, s) \<leftarrow> push v s; Some (Stored b, s) }"
| "lifo_step push pop Take s = do { (r, s) \<leftarrow> pop s; Some (Taken r, s) }"

fun stack_step :: "nat \<Rightarrow> 'a fifo_op \<Rightarrow> 'a list \<Rightarrow> 'a fifo_outcome \<times> 'a list" where
  "stack_step cap (Put v) xs = (if length xs < cap then (Stored True, xs @ [v]) else (Stored False, xs))"
| "stack_step cap Take xs = (if xs = [] then (Taken None, []) else (Taken (Some (last xs)), butlast xs))"

fun stack_run :: "nat \<Rightarrow> 'a fifo_op list \<Rightarrow> 'a list \<Rightarrow> 'a fifo_outcome list \<times> 'a list" where
  "stack_run cap [] xs = ([], xs)"
| "stack_run cap (c # cs) xs = (let (r, ys) = stack_step cap c xs; (rs, zs) = stack_run cap cs ys in (r # rs, zs))"

locale lifo =
  fixes cap :: nat
    and repr :: "'s \<Rightarrow> 'a list \<Rightarrow> bool"
    and push :: "'a \<Rightarrow> 's \<Rightarrow> (bool \<times> 's) option"
    and pop :: "'s \<Rightarrow> ('a option \<times> 's) option"
  assumes push_room: "repr s xs \<Longrightarrow> length xs < cap \<Longrightarrow> \<exists>s'. push v s = Some (True, s') \<and> repr s' (xs @ [v])"
    and pop_value: "repr s (xs @ [x]) \<Longrightarrow> \<exists>s'. pop s = Some (Some x, s') \<and> repr s' xs"
    and pop_nothing: "repr s [] \<Longrightarrow> pop s = Some (None, s)"
begin

lemma step_repr:
  assumes "repr s xs" "length xs < cap \<or> c = Take"
  shows "\<exists>s'. lifo_step push pop c s = Some (fst (stack_step cap c xs), s') \<and> repr s' (snd (stack_step cap c xs))"
proof (cases c)
  case (Put v)
  then obtain s' where "push v s = Some (True, s')" "repr s' (xs @ [v])" "length xs < cap"
    using assms push_room by blast
  then show ?thesis using Put by simp
next
  case Take
  show ?thesis
  proof (cases xs rule: rev_cases)
    case Nil
    then show ?thesis using assms(1) pop_nothing Take by simp
  next
    case (snoc ys x)
    then obtain s' where "pop s = Some (Some x, s')" "repr s' ys" using assms(1) pop_value by blast
    then show ?thesis using snoc Take by simp
  qed
qed

text \<open>A sequence that cannot fill the container.\<close>

lemma run_within:
  "repr s xs \<Longrightarrow> length xs + length cs \<le> cap \<Longrightarrow>
   \<exists>s'. fifo_run (lifo_step push pop) cs s = Some (fst (stack_run cap cs xs), s') \<and> repr s' (snd (stack_run cap cs xs))"
proof (induction cs arbitrary: s xs)
  case (Cons c cs)
  obtain r ys where l: "stack_step cap c xs = (r, ys)" by (cases "stack_step cap c xs") auto
  obtain s1 where s1: "lifo_step push pop c s = Some (r, s1)" "repr s1 ys"
    using step_repr [OF Cons.prems(1), of c] Cons.prems(2) l by auto
  have "length ys + length cs \<le> cap" using l Cons.prems(2) by (cases c) (auto split: if_splits)
  then obtain rs zs s2 where "stack_run cap cs ys = (rs, zs)" "fifo_run (lifo_step push pop) cs s1 = Some (rs, s2)" "repr s2 zs"
    using Cons.IH [OF s1(2)] by (cases "stack_run cap cs ys") auto
  then show ?case using s1 l by (intro exI [of _ s2]) simp
qed simp

end

locale bounded_lifo = lifo +
  assumes repr_bound: "repr s xs \<Longrightarrow> length xs \<le> cap"
    and push_full: "repr s xs \<Longrightarrow> length xs = cap \<Longrightarrow> push v s = Some (False, s)"
begin

lemma bounded_step:
  assumes "repr s xs"
  shows "\<exists>s'. lifo_step push pop c s = Some (fst (stack_step cap c xs), s') \<and> repr s' (snd (stack_step cap c xs))"
proof (cases "length xs < cap \<or> c = Take")
  case False
  then show ?thesis using assms repr_bound [OF assms] push_full [OF assms] by (cases c) auto
qed (rule step_repr [OF assms])

lemma run_repr:
  "repr s xs \<Longrightarrow> \<exists>s'. fifo_run (lifo_step push pop) cs s = Some (fst (stack_run cap cs xs), s') \<and> repr s' (snd (stack_run cap cs xs))"
proof (induction cs arbitrary: s xs)
  case (Cons c cs)
  obtain r ys where l: "stack_step cap c xs = (r, ys)" by (cases "stack_step cap c xs") auto
  obtain s1 where s1: "lifo_step push pop c s = Some (r, s1)" "repr s1 ys"
    using bounded_step [OF Cons.prems, of c] l by auto
  then obtain rs zs s2 where "stack_run cap cs ys = (rs, zs)" "fifo_run (lifo_step push pop) cs s1 = Some (rs, s2)" "repr s2 zs"
    using Cons.IH [OF s1(2)] by (cases "stack_run cap cs ys") auto
  then show ?case using s1 l by (intro exI [of _ s2]) simp
qed simp

end

section \<open>The bounded stack\<close>

record 'a Stack =
  MAX_ELEMENTS :: int
  m_iTop :: int
  m_tArray :: "'a list"

definition stack_init :: "nat \<Rightarrow> 'a \<Rightarrow> 'a Stack" where
  "stack_init n x0 = \<lparr>MAX_ELEMENTS = int n, m_iTop = 0, m_tArray = replicate n x0\<rparr>"

definition stack_IsFull :: "'a Stack \<Rightarrow> bool" where
  "stack_IsFull s \<longleftrightarrow> m_iTop s = MAX_ELEMENTS s"

definition stack_IsEmpty :: "'a Stack \<Rightarrow> bool" where
  "stack_IsEmpty s \<longleftrightarrow> m_iTop s = 0"

definition stack_Push :: "'a \<Rightarrow> 'a Stack \<Rightarrow> (bool \<times> 'a Stack) option" where
  "stack_Push a s =
     (if m_iTop s = MAX_ELEMENTS s then Some (False, s)
      else if 0 \<le> m_iTop s \<and> m_iTop s < int (length (m_tArray s)) then
        Some (True, s\<lparr>m_tArray := (m_tArray s)[nat (m_iTop s) := a], m_iTop := m_iTop s + 1\<rparr>)
      else None)"

definition stack_Pop :: "'a Stack \<Rightarrow> ('a option \<times> 'a Stack) option" where
  "stack_Pop s =
     (if m_iTop s = 0 then Some (None, s)
      else let i = m_iTop s - 1 in
        if 0 \<le> i \<and> i < int (length (m_tArray s)) then Some (Some (m_tArray s ! nat i), s\<lparr>m_iTop := i\<rparr>) else None)"

definition stack_ok :: "nat \<Rightarrow> 'a Stack \<Rightarrow> 'a list \<Rightarrow> bool" where
  "stack_ok n s xs \<longleftrightarrow> MAX_ELEMENTS s = int n \<and> length (m_tArray s) = n \<and> m_iTop s = int (length xs) \<and> length xs \<le> n \<and>
     take (length xs) (m_tArray s) = xs"

interpretation array_stack: bounded_lifo n "stack_ok n" stack_Push stack_Pop
proof (unfold_locales, goal_cases)
  case (1 s xs v)
  then have "take (Suc (length xs)) ((m_tArray s)[length xs := v]) = xs @ [v]"
    by (simp add: stack_ok_def take_Suc_conv_app_nth)
  then show ?case using 1 by (simp add: stack_ok_def stack_Push_def)
next
  case (2 s xs x)
  then have "take (length xs) (m_tArray s) = xs" "m_tArray s ! length xs = x"
    by (auto simp: stack_ok_def take_Suc_conv_app_nth)
  then show ?case using 2 by (simp add: stack_ok_def stack_Pop_def)
qed (auto simp: stack_ok_def stack_Pop_def stack_Push_def)

text \<open>Any sequence of calls behaves as on a list that is used at its end and holds at most \<open>n\<close> elements.\<close>

lemma stack_refines_list:
  "\<exists>s. fifo_run (lifo_step stack_Push stack_Pop) cs (stack_init n x0) = Some (fst (stack_run n cs []), s) \<and>
    stack_ok n s (snd (stack_run n cs []))"
proof -
  have "stack_ok n (stack_init n x0) []" by (simp add: stack_ok_def stack_init_def)
  then show ?thesis by (rule array_stack.run_repr)
qed

end
