(* ===== verification/Vector.thy ===== *)
theory Vector
  imports Lifo
begin

text \<open>
  \<open>upan::vector\<close> (\<open>libustd/ds/vector.h\<close>). Buffers are blocks of cells in a heap; a cell is raw storage (\<open>None\<close>) or holds a
  constructed element. Reading, assigning and destroying an element need a constructed cell, construction in place
  needs a cell of a live buffer; anything else is a fault and yields \<open>None\<close>, as does a signed overflow. \<open>esize\<close> is
  \<open>sizeof(T)\<close>; a buffer of \<open>n\<close> bytes has \<open>n div esize\<close> cells. The copy constructor of the elements does not throw. \<open>operator new\<close> is
  the parameter \<open>new\<close>, which names the next buffer. An iterator is its index.
\<close>

section \<open>The code\<close>

type_synonym 'a vheap = "addr \<Rightarrow> 'a option list option"

record vec =
  v_size :: int
  v_capacity :: int
  v_buffer :: addr

datatype vec_error = VecIndex | VecIterator | VecEnd | VecReserve | VecInsert | VecErase

type_synonym ('a, 'r) vec_result = "((vec_error + 'r) \<times> vec \<times> 'a vheap) option"

definition c_int :: "int \<Rightarrow> int option" where
  "c_int i = (if - (2 ^ 31) \<le> i \<and> i < 2 ^ 31 then Some i else None)"

definition to_int32 :: "int \<Rightarrow> int" where
  "to_int32 i = signed_take_bit 31 i"

definition v_read :: "'a vheap \<Rightarrow> addr \<Rightarrow> int \<Rightarrow> 'a option" where
  "v_read h b i = do { cs \<leftarrow> h b; if 0 \<le> i \<and> i < int (length cs) then cs ! nat i else None }"

definition v_construct :: "'a vheap \<Rightarrow> addr \<Rightarrow> int \<Rightarrow> 'a \<Rightarrow> 'a vheap option" where
  "v_construct h b i x = do { cs \<leftarrow> h b;
     if 0 \<le> i \<and> i < int (length cs) then Some (h(b \<mapsto> cs[nat i := Some x])) else None }"

definition v_assign :: "'a vheap \<Rightarrow> addr \<Rightarrow> int \<Rightarrow> 'a \<Rightarrow> 'a vheap option" where
  "v_assign h b i x = do { _ \<leftarrow> v_read h b i; v_construct h b i x }"

definition v_destruct :: "'a vheap \<Rightarrow> addr \<Rightarrow> int \<Rightarrow> 'a vheap option" where
  "v_destruct h b i = do { _ \<leftarrow> v_read h b i; cs \<leftarrow> h b; Some (h(b \<mapsto> cs[nat i := None])) }"

definition new_buffer :: "int \<Rightarrow> ('a vheap \<Rightarrow> addr) \<Rightarrow> int \<Rightarrow> 'a vheap \<Rightarrow> addr \<times> 'a vheap" where
  "new_buffer esize new bytes h = (let b = new h in
     (b, if b = NULL then h else h(b \<mapsto> replicate (nat (bytes div esize)) None)))"

definition delete_buffer :: "'a vheap \<Rightarrow> addr \<Rightarrow> 'a vheap option" where
  "delete_buffer h b = (if b = NULL then Some h else if h b = None then None else Some (h(b := None)))"

definition vec_init :: vec where
  "vec_init = \<lparr>v_size = 0, v_capacity = 0, v_buffer = NULL\<rparr>"

definition vec_reserve :: "int \<Rightarrow> ('a vheap \<Rightarrow> addr) \<Rightarrow> int \<Rightarrow> 'a vheap \<Rightarrow> (vec_error + vec) \<times> 'a vheap" where
  "vec_reserve esize new reserve h =
     (if reserve < 0 then (Inl VecReserve, h)
      else if reserve > 0 then
        let cap = to_int32 (esize * reserve); (b, h) = new_buffer esize new cap h
        in (Inr \<lparr>v_size = 0, v_capacity = cap, v_buffer = b\<rparr>, h)
      else (Inr vec_init, h))"

text \<open>Loops over the cells from \<open>i\<close> on: destruction, and copying to another buffer.\<close>

fun destroy_cells :: "'a vheap \<Rightarrow> addr \<Rightarrow> int \<Rightarrow> nat \<Rightarrow> 'a vheap option" where
  "destroy_cells h b i 0 = Some h"
| "destroy_cells h b i (Suc n) = do { h \<leftarrow> v_destruct h b i; destroy_cells h b (i + 1) n }"

fun copy_cells :: "'a vheap \<Rightarrow> addr \<Rightarrow> addr \<Rightarrow> int \<Rightarrow> nat \<Rightarrow> 'a vheap option" where
  "copy_cells h b t i 0 = Some h"
| "copy_cells h b t i (Suc n) = do { x \<leftarrow> v_read h b i; h \<leftarrow> v_construct h t i x; copy_cells h b t (i + 1) n }"

definition vec_clear :: "vec \<times> 'a vheap \<Rightarrow> (vec \<times> 'a vheap) option" where
  "vec_clear s = do {
     h \<leftarrow> destroy_cells (snd s) (v_buffer (fst s)) 0 (nat (v_size (fst s)));
     Some ((fst s)\<lparr>v_size := 0\<rparr>, h) }"

definition vec_destroy :: "vec \<times> 'a vheap \<Rightarrow> (vec \<times> 'a vheap) option" where
  "vec_destroy s = do {
     (v, h) \<leftarrow> vec_clear s;
     h \<leftarrow> delete_buffer h (v_buffer v);
     Some (v, h) }"

definition expand_if_needed :: "int \<Rightarrow> ('a vheap \<Rightarrow> addr) \<Rightarrow> vec \<times> 'a vheap \<Rightarrow> (vec \<times> 'a vheap) option" where
  "expand_if_needed esize new s = do {
     let (v, h) = s;
     used \<leftarrow> c_int (v_size v * to_int32 esize);
     if used \<ge> v_capacity v then do {
       n \<leftarrow> (if v_size v \<le> 1 then Some 2 else c_int (v_size v * 3 div 2));
       let cap = take_bit 32 (esize * n);
       let (t, h) = new_buffer esize new cap h;
       h \<leftarrow> copy_cells h (v_buffer v) t 0 (nat (v_size v));
       let k = v_size v;
       (v, h) \<leftarrow> vec_destroy (v, h);
       Some (v\<lparr>v_size := k, v_buffer := t, v_capacity := to_int32 cap\<rparr>, h) }
     else Some (v, h) }"

text \<open>\<open>for (i = index + k; i > index; --i) buffer[i] = buffer[i - 1]\<close>\<close>

fun shift_up :: "'a vheap \<Rightarrow> addr \<Rightarrow> int \<Rightarrow> nat \<Rightarrow> 'a vheap option" where
  "shift_up h b index 0 = Some h"
| "shift_up h b index (Suc k) = do {
     x \<leftarrow> v_read h b (index + int k);
     h \<leftarrow> v_assign h b (index + int k + 1) x;
     shift_up h b index k }"

definition vec_insert :: "int \<Rightarrow> ('a vheap \<Rightarrow> addr) \<Rightarrow> int \<Rightarrow> 'a \<Rightarrow> vec \<times> 'a vheap \<Rightarrow> ('a, unit) vec_result" where
  "vec_insert esize new index x s = do {
     (v, h) \<leftarrow> expand_if_needed esize new s;
     if index < 0 \<or> index > v_size v then Some (Inl VecInsert, v, h)
     else if index = v_size v then do {
       h \<leftarrow> v_construct h (v_buffer v) index x;
       Some (Inr (), v\<lparr>v_size := v_size v + 1\<rparr>, h) }
     else do {
       y \<leftarrow> v_read h (v_buffer v) (v_size v - 1);
       h \<leftarrow> v_construct h (v_buffer v) (v_size v) y;
       let v = v\<lparr>v_size := v_size v + 1\<rparr>;
       h \<leftarrow> shift_up h (v_buffer v) index (nat (v_size v - 2 - index));
       h \<leftarrow> v_assign h (v_buffer v) index x;
       Some (Inr (), v, h) } }"

definition vec_push_back :: "int \<Rightarrow> ('a vheap \<Rightarrow> addr) \<Rightarrow> 'a \<Rightarrow> vec \<times> 'a vheap \<Rightarrow> ('a, unit) vec_result" where
  "vec_push_back esize new x s = vec_insert esize new (v_size (fst s)) x s"

text \<open>\<open>for (i = i; i < size; ++i) buffer[i - count] = buffer[i]\<close>\<close>

fun shift_down :: "'a vheap \<Rightarrow> addr \<Rightarrow> int \<Rightarrow> int \<Rightarrow> nat \<Rightarrow> 'a vheap option" where
  "shift_down h b i count 0 = Some h"
| "shift_down h b i count (Suc n) = do {
     x \<leftarrow> v_read h b i;
     h \<leftarrow> v_assign h b (i - count) x;
     shift_down h b (i + 1) count n }"

text \<open>\<open>for (i = new + n; i > new; --i) buffer[i - 1].~T()\<close>\<close>

fun destroy_back :: "'a vheap \<Rightarrow> addr \<Rightarrow> int \<Rightarrow> nat \<Rightarrow> 'a vheap option" where
  "destroy_back h b new 0 = Some h"
| "destroy_back h b new (Suc n) = do { h \<leftarrow> v_destruct h b (new + int n); destroy_back h b new n }"

definition erase_range :: "int \<Rightarrow> int \<Rightarrow> vec \<times> 'a vheap \<Rightarrow> ('a, int) vec_result" where
  "erase_range lo hi s = do {
     let (v, h) = s;
     if lo < 0 \<or> hi < lo \<or> hi > v_size v then Some (Inl VecErase, v, h)
     else do {
       let count = hi - lo;
       if count = 0 then Some (Inr lo, v, h)
       else do {
         h \<leftarrow> shift_down h (v_buffer v) hi count (nat (v_size v - hi));
         let k = v_size v - count;
         h \<leftarrow> destroy_back h (v_buffer v) k (nat count);
         Some (Inr lo, v\<lparr>v_size := k\<rparr>, h) } } }"

text \<open>Iterators: moving beyond the ends throws, and so does reading the end.\<close>

definition viter_at :: "vec \<Rightarrow> int \<Rightarrow> vec_error + int" where
  "viter_at v i = (if i < 0 \<or> i > v_size v then Inl VecIterator else Inr i)"

definition vec_at :: "int \<Rightarrow> vec \<times> 'a vheap \<Rightarrow> (vec_error + 'a) option" where
  "vec_at i s = (if i < 0 \<or> i \<ge> v_size (fst s) then Some (Inl VecIndex)
     else do { x \<leftarrow> v_read (snd s) (v_buffer (fst s)) i; Some (Inr x) })"

definition viter_value :: "int \<Rightarrow> vec \<times> 'a vheap \<Rightarrow> (vec_error + 'a) option" where
  "viter_value i s = (if i = v_size (fst s) then Some (Inl VecEnd) else vec_at i s)"

definition erase_iter :: "int \<Rightarrow> vec \<times> 'a vheap \<Rightarrow> ('a, int) vec_result" where
  "erase_iter i s = (case viter_at (fst s) (i + 1) of
     Inl e \<Rightarrow> Some (Inl e, s) | Inr j \<Rightarrow> erase_range i j s)"

definition vec_pop_back :: "vec \<times> 'a vheap \<Rightarrow> ('a, int) vec_result" where
  "vec_pop_back s = (case viter_at (fst s) (v_size (fst s) - 1) of
     Inl e \<Rightarrow> Some (Inl e, s) | Inr i \<Rightarrow> erase_iter i s)"

text \<open>\<open>find\<close> from index \<open>i\<close> on, with \<open>n\<close> elements left; an exception cannot occur before the end.\<close>

fun vec_find :: "vec \<times> 'a vheap \<Rightarrow> 'a \<Rightarrow> int \<Rightarrow> nat \<Rightarrow> (vec_error + int) option" where
  "vec_find s x i 0 = Some (Inr i)"
| "vec_find s x i (Suc n) = do {
     r \<leftarrow> viter_value i s;
     case r of Inl e \<Rightarrow> Some (Inl e)
     | Inr y \<Rightarrow> if y = x then Some (Inr i) else vec_find s x (i + 1) n }"

definition vec_erase_value :: "'a \<Rightarrow> vec \<times> 'a vheap \<Rightarrow> ('a, int) vec_result" where
  "vec_erase_value x s = do {
     r \<leftarrow> vec_find s x 0 (nat (v_size (fst s)));
     case r of Inl e \<Rightarrow> Some (Inl e, s) | Inr i \<Rightarrow> erase_iter i s }"

text \<open>Copying and moving.\<close>

fun copy_elements :: "vec \<Rightarrow> int \<Rightarrow> nat \<Rightarrow> vec \<times> 'a vheap \<Rightarrow> (vec_error + vec \<times> 'a vheap) option" where
  "copy_elements rhs i 0 s = Some (Inr s)"
| "copy_elements rhs i (Suc n) s = do {
     r \<leftarrow> vec_at i (rhs, snd s);
     case r of Inl e \<Rightarrow> Some (Inl e)
     | Inr x \<Rightarrow> do {
         h \<leftarrow> v_construct (snd s) (v_buffer (fst s)) i x;
         copy_elements rhs (i + 1) n ((fst s)\<lparr>v_size := i + 1\<rparr>, h) } }"

definition vec_copy :: "int \<Rightarrow> ('a vheap \<Rightarrow> addr) \<Rightarrow> vec \<Rightarrow> 'a vheap \<Rightarrow> (vec_error + vec \<times> 'a vheap) option" where
  "vec_copy esize new rhs h =
     (let v = \<lparr>v_size = 0, v_capacity = v_capacity rhs, v_buffer = NULL\<rparr> in
      if v_capacity v = 0 then Some (Inr (v, h))
      else let (b, h) = new_buffer esize new (v_capacity v) h
           in copy_elements rhs 0 (nat (v_size rhs)) (v\<lparr>v_buffer := b\<rparr>, h))"

definition vec_assign ::
    "int \<Rightarrow> ('a vheap \<Rightarrow> addr) \<Rightarrow> vec \<Rightarrow> vec \<Rightarrow> 'a vheap \<Rightarrow> (vec_error + vec \<times> 'a vheap) option" where
  "vec_assign esize new rhs v h = do {
     r \<leftarrow> vec_copy esize new rhs h;
     case r of Inl e \<Rightarrow> Some (Inl e)
     | Inr (temp, h) \<Rightarrow> do {
         (_, h) \<leftarrow> vec_destroy (v, h);
         Some (Inr (temp, h)) } }"

definition vec_move_assign :: "vec \<Rightarrow> vec \<Rightarrow> 'a vheap \<Rightarrow> (vec \<times> vec \<times> 'a vheap) option" where
  "vec_move_assign rhs v h = do {
     (_, h) \<leftarrow> vec_destroy (v, h);
     Some (rhs, vec_init, h) }"


definition vec_move :: "vec \<Rightarrow> vec \<times> vec" where
  "vec_move rhs = (rhs, vec_init)"

definition vec_swap :: "vec \<Rightarrow> vec \<Rightarrow> vec \<times> vec" where
  "vec_swap v other = (other, v)"

definition viter_inc :: "vec \<Rightarrow> int \<Rightarrow> vec_error + int" where
  "viter_inc v i = viter_at v (i + 1)"

definition viter_dec :: "vec \<Rightarrow> int \<Rightarrow> vec_error + int" where
  "viter_dec v i = viter_at v (i - 1)"

text \<open>The constructor from an initializer list.\<close>

fun vec_push_all :: "int \<Rightarrow> ('a vheap \<Rightarrow> addr) \<Rightarrow> 'a list \<Rightarrow> vec \<times> 'a vheap \<Rightarrow> ('a, unit) vec_result" where
  "vec_push_all esize new [] s = Some (Inr (), s)"
| "vec_push_all esize new (x # xs) s = do {
     (r, s) \<leftarrow> vec_push_back esize new x s;
     case r of Inl e \<Rightarrow> Some (Inl e, s) | Inr _ \<Rightarrow> vec_push_all esize new xs s }"

definition vec_of_list :: "int \<Rightarrow> ('a vheap \<Rightarrow> addr) \<Rightarrow> 'a list \<Rightarrow> 'a vheap \<Rightarrow> ('a, unit) vec_result" where
  "vec_of_list esize new xs h = vec_push_all esize new xs (vec_init, h)"

section \<open>Blocks of cells\<close>

text \<open>A buffer holds the cells \<open>cs\<close>; the operations on cells become operations on lists.\<close>

lemma v_read_at: "h b = Some cs \<Longrightarrow> n < length cs \<Longrightarrow> v_read h b (int n) = cs ! n"
  by (simp add: v_read_def)

lemma v_construct_at: "h b = Some cs \<Longrightarrow> n < length cs \<Longrightarrow> v_construct h b (int n) x = Some (h(b \<mapsto> cs[n := Some x]))"
  by (simp add: v_construct_def)

lemma v_assign_at: "h b = Some cs \<Longrightarrow> n < length cs \<Longrightarrow> cs ! n = Some y \<Longrightarrow> v_assign h b (int n) x = Some (h(b \<mapsto> cs[n := Some x]))"
  by (simp add: v_assign_def v_read_at v_construct_at)

lemma v_destruct_at: "h b = Some cs \<Longrightarrow> n < length cs \<Longrightarrow> cs ! n = Some y \<Longrightarrow> v_destruct h b (int n) = Some (h(b \<mapsto> cs[n := None]))"
  by (simp add: v_destruct_def v_read_at)

lemma destroy_cells_at:
  "h b = Some (ds @ map Some xs @ es) \<Longrightarrow>
   destroy_cells h b (int (length ds)) (length xs) = Some (h(b \<mapsto> ds @ replicate (length xs) None @ es))"
proof (induction xs arbitrary: h ds)
  case Nil
  then show ?case by (simp add: fun_upd_idem)
next
  case (Cons x xs)
  let ?h = "h(b \<mapsto> ds @ None # map Some xs @ es)"
  have "v_destruct h b (int (length ds)) = Some ?h"
    using v_destruct_at [of h b "ds @ map Some (x # xs) @ es" "length ds" x] Cons.prems by simp
  moreover have "destroy_cells ?h b (int (length (ds @ [None]))) (length xs) =
      Some (?h(b \<mapsto> (ds @ [None]) @ replicate (length xs) None @ es))"
    by (rule Cons.IH) simp
  ultimately show ?case by (simp add: add.commute fun_eq_iff)
qed

lemma copy_cells_at:
  "h b = Some (ds @ map Some xs @ es) \<Longrightarrow> h t = Some (map Some ys @ replicate (length xs + k) None) \<Longrightarrow> b \<noteq> t \<Longrightarrow>
   length ys = length ds \<Longrightarrow>
   copy_cells h b t (int (length ds)) (length xs) = Some (h(t \<mapsto> map Some (ys @ xs) @ replicate k None))"
proof (induction xs arbitrary: h ds ys)
  case Nil
  then show ?case by (simp add: fun_upd_idem)
next
  case (Cons x xs)
  let ?h = "h(t \<mapsto> map Some (ys @ [x]) @ replicate (length xs + k) None)"
  have "v_read h b (int (length ds)) = Some x"
    using v_read_at [of h b "ds @ map Some (x # xs) @ es" "length ds"] Cons.prems(1) by simp
  moreover have "v_construct h t (int (length ds)) x = Some ?h"
    using v_construct_at [of h t "map Some ys @ replicate (length (x # xs) + k) None" "length ds" x] Cons.prems(2,4)
    by (simp add: list_update_append)
  moreover have "copy_cells ?h b t (int (length (ds @ [Some x]))) (length xs) =
      Some (?h(t \<mapsto> map Some ((ys @ [x]) @ xs) @ replicate k None))"
    by (rule Cons.IH) (use Cons.prems in auto)
  ultimately show ?case by (simp add: add.commute fun_eq_iff)
qed

lemma shift_up_at:
  "h b = Some (map Some (ps @ ys @ [z]) @ R) \<Longrightarrow>
   shift_up h b (int (length ps)) (length ys) = Some (h(b \<mapsto> map Some (ps @ hd (ys @ [z]) # ys) @ R))"
proof (induction ys arbitrary: h z R rule: rev_induct)
  case Nil
  then show ?case by (simp add: fun_upd_idem)
next
  case (snoc y ys)
  let ?cs = "map Some (ps @ (ys @ [y]) @ [z]) @ R"
  let ?h = "h(b \<mapsto> map Some (ps @ ys @ [y]) @ Some y # R)"
  have i: "int (length ps) + int (length ys) = int (length (ps @ ys))"
    "int (length ps) + int (length ys) + 1 = int (length (ps @ ys @ [y]))" by simp_all
  have "v_read h b (int (length ps) + int (length ys)) = Some y"
    unfolding i using v_read_at [of h b ?cs "length (ps @ ys)"] snoc.prems by (simp add: nth_append)
  moreover have "v_assign h b (int (length ps) + int (length ys) + 1) y = Some ?h"
    unfolding i(2) using v_assign_at [of h b ?cs "length (ps @ ys @ [y])" z y] snoc.prems
    by (simp add: nth_append list_update_append add_ac)
  moreover have "shift_up ?h b (int (length ps)) (length ys) = Some (?h(b \<mapsto> map Some (ps @ hd (ys @ [y]) # ys) @ Some y # R))"
    by (rule snoc.IH) simp
  ultimately show ?case by (cases ys) (simp_all add: fun_eq_iff)
qed

lemma shift_down_at:
  "h b = Some (map Some (ps @ gs @ zs) @ R) \<Longrightarrow> gs \<noteq> [] \<Longrightarrow>
   shift_down h b (int (length ps) + int (length gs)) (int (length gs)) (length zs) =
     Some (h(b \<mapsto> map Some (ps @ zs @ drop (length zs) (gs @ zs)) @ R))"
proof (induction zs arbitrary: h ps gs)
  case Nil
  then show ?case by (simp add: fun_upd_idem)
next
  case (Cons z zs)
  obtain g gs' where g: "gs = g # gs'" using Cons.prems(2) by (cases gs) auto
  let ?cs = "map Some (ps @ gs @ z # zs) @ R"
  let ?h = "h(b \<mapsto> map Some ((ps @ [z]) @ (gs' @ [z]) @ zs) @ R)"
  have i: "int (length ps) + int (length gs) = int (length (ps @ gs))" by simp
  have "v_read h b (int (length ps) + int (length gs)) = Some z"
    unfolding i using v_read_at [of h b ?cs "length (ps @ gs)"] Cons.prems by (simp add: nth_append)
  moreover have "v_assign h b (int (length ps)) z = Some ?h"
    using v_assign_at [of h b ?cs "length ps" g z] Cons.prems g by (simp add: nth_append list_update_append)
  moreover have "shift_down ?h b (int (length (ps @ [z])) + int (length (gs' @ [z]))) (int (length (gs' @ [z]))) (length zs) =
      Some (?h(b \<mapsto> map Some ((ps @ [z]) @ zs @ drop (length zs) ((gs' @ [z]) @ zs)) @ R))"
    by (rule Cons.IH) simp_all
  ultimately show ?case using g by (simp add: fun_eq_iff algebra_simps)
qed

lemma destroy_back_at:
  "h b = Some (map Some (xs @ ys) @ R) \<Longrightarrow>
   destroy_back h b (int (length xs)) (length ys) = Some (h(b \<mapsto> map Some xs @ replicate (length ys) None @ R))"
proof (induction ys arbitrary: h R rule: rev_induct)
  case Nil
  then show ?case by (simp add: fun_upd_idem)
next
  case (snoc y ys)
  let ?cs = "map Some (xs @ ys @ [y]) @ R"
  let ?h = "h(b \<mapsto> map Some (xs @ ys) @ None # R)"
  have i: "int (length xs) + int (length ys) = int (length (xs @ ys))" by simp
  have "v_destruct h b (int (length xs) + int (length ys)) = Some ?h"
    unfolding i using v_destruct_at [of h b ?cs "length (xs @ ys)" y] snoc.prems by (simp add: nth_append list_update_append)
  moreover have "destroy_back ?h b (int (length xs)) (length ys) = Some (?h(b \<mapsto> map Some xs @ replicate (length ys) None @ None # R))"
    by (rule snoc.IH) simp
  ultimately show ?case by (simp add: fun_eq_iff replicate_app_Cons_same)
qed

section \<open>The object\<close>

text \<open>
  The vector owns a buffer whose first cells hold the elements \<open>xs\<close> and whose others are raw. \<open>esize\<close> is a possible
  size of a type, and the elements and one growth fit the 32 bit arithmetic.
\<close>

definition vec_ok :: "int \<Rightarrow> vec \<times> 'a vheap \<Rightarrow> 'a list \<Rightarrow> bool" where
  "vec_ok esize s xs \<longleftrightarrow> (case s of (v, h) \<Rightarrow>
     v_size v = int (length xs) \<and> finite (dom h) \<and>
     (if v_buffer v = NULL then xs = [] \<and> v_capacity v = 0
      else \<exists>k. h (v_buffer v) = Some (map Some xs @ replicate k None) \<and> v_capacity v = esize * int (length xs + k)))"

definition new_vbuffer :: "('a vheap \<Rightarrow> addr) \<Rightarrow> bool" where
  "new_vbuffer new \<longleftrightarrow> (\<forall>h. finite (dom h) \<longrightarrow> new h \<noteq> NULL \<and> h (new h) = None)"

definition fits :: "int \<Rightarrow> nat \<Rightarrow> bool" where
  "fits esize n \<longleftrightarrow> 0 < esize \<and> esize * (2 * int n + 2) < 2 ^ 31"

lemma vec_init_ok: "finite (dom h) \<Longrightarrow> vec_ok esize (vec_init, h) []"
  by (simp add: vec_ok_def vec_init_def)

lemma c_int_in: "0 \<le> i \<Longrightarrow> i < 2 ^ 31 \<Longrightarrow> c_int i = Some i"
  unfolding c_int_def by (rule if_P) linarith

lemma fitsD:
  assumes "fits esize n"
  shows "to_int32 esize = esize" "c_int (int n * esize) = Some (int n * esize)" "c_int (int n * 3 div 2) = Some (int n * 3 div 2)"
    "0 \<le> m \<Longrightarrow> m \<le> 2 * int n + 2 \<Longrightarrow> take_bit 32 (esize * m) = esize * m \<and> to_int32 (esize * m) = esize * m" "0 < esize"
proof -
  have e: "0 < esize" "esize * (2 * int n + 2) < 2 ^ 31" using assms by (auto simp: fits_def)
  have le: "esize * m \<le> esize * (2 * int n + 2)" if "m \<le> 2 * int n + 2" for m using that e(1) by (simp add: mult_left_mono)
  have small: "esize * m < 2 ^ 31" if "m \<le> 2 * int n + 2" for m using le [OF that] e(2) by linarith
  have nn: "0 \<le> esize * m" if "0 \<le> m" for m using that e(1) by simp
  show "0 < esize" by (rule e(1))
  show "take_bit 32 (esize * m) = esize * m \<and> to_int32 (esize * m) = esize * m" if "0 \<le> m" "m \<le> 2 * int n + 2"
    using small [OF that(2)] nn [OF that(1)] by (simp add: to_int32_def take_bit_int_eq_self signed_take_bit_int_eq_self)
  show "to_int32 esize = esize" using small [of 1] e(1) by (simp add: to_int32_def signed_take_bit_int_eq_self)
  have "int n * esize < 2 ^ 31" using small [of "int n"] by (simp add: mult.commute)
  moreover have "0 \<le> int n * esize" using e(1) by simp
  ultimately show "c_int (int n * esize) = Some (int n * esize)" by (intro c_int_in)
  have "2 * int n + 2 \<le> esize * (2 * int n + 2)" using e(1) by (simp add: mult_le_cancel_right1 [of 1, simplified])
  then have "2 * int n + 2 < 2 ^ 31" using e(2) by linarith
  then show "c_int (int n * 3 div 2) = Some (int n * 3 div 2)" by (intro c_int_in) linarith+
qed

lemma vec_okE:
  assumes "vec_ok esize (v, h) xs"
  obtains (null) "v_buffer v = NULL" "xs = []" "v_capacity v = 0" "v_size v = 0" "finite (dom h)"
  | (cells) k where "v_buffer v \<noteq> NULL" "h (v_buffer v) = Some (map Some xs @ replicate k None)"
    "v_capacity v = esize * int (length xs + k)" "v_size v = int (length xs)" "finite (dom h)"
  using assms by (auto simp: vec_ok_def split: if_splits)

lemma vec_okI:
  "v_buffer v \<noteq> NULL \<Longrightarrow> h (v_buffer v) = Some (map Some xs @ replicate k None) \<Longrightarrow> v_capacity v = esize * int (length xs + k) \<Longrightarrow>
   v_size v = int (length xs) \<Longrightarrow> finite (dom h) \<Longrightarrow> vec_ok esize (v, h) xs"
  by (auto simp: vec_ok_def)

lemma vec_ok_size: "vec_ok esize (v, h) xs \<Longrightarrow> v_size v = int (length xs) \<and> finite (dom h)"
  by (simp add: vec_ok_def)

lemma vec_clear_ok:
  assumes "vec_ok esize (v, h) xs"
  shows "\<exists>h'. vec_clear (v, h) = Some (v\<lparr>v_size := 0\<rparr>, h') \<and> vec_ok esize (v\<lparr>v_size := 0\<rparr>, h') [] \<and>
    (\<forall>b. b \<noteq> v_buffer v \<longrightarrow> h' b = h b) \<and> (v_buffer v \<noteq> NULL \<longrightarrow> h' (v_buffer v) \<noteq> None)"
  using assms
proof (cases rule: vec_okE)
  case null
  then show ?thesis using assms by (simp add: vec_clear_def vec_ok_def)
next
  case (cells k)
  have "destroy_cells h (v_buffer v) 0 (length xs) = Some (h(v_buffer v \<mapsto> replicate (length xs + k) None))"
    using destroy_cells_at [of h "v_buffer v" "[]" xs "replicate k None"] cells(2) by (simp add: replicate_add)
  then show ?thesis using cells by (simp add: vec_clear_def vec_ok_def)
qed

lemma vec_destroy_ok:
  assumes "vec_ok esize (v, h) xs"
  shows "\<exists>h'. vec_destroy (v, h) = Some (v\<lparr>v_size := 0\<rparr>, h') \<and> (\<forall>b. b \<noteq> v_buffer v \<longrightarrow> h' b = h b) \<and>
    (v_buffer v \<noteq> NULL \<longrightarrow> h' (v_buffer v) = None) \<and> finite (dom h')"
proof -
  obtain h1 where h1: "vec_clear (v, h) = Some (v\<lparr>v_size := 0\<rparr>, h1)" "vec_ok esize (v\<lparr>v_size := 0\<rparr>, h1) []"
    "\<forall>b. b \<noteq> v_buffer v \<longrightarrow> h1 b = h b" "v_buffer v \<noteq> NULL \<longrightarrow> h1 (v_buffer v) \<noteq> None"
    using vec_clear_ok [OF assms] by blast
  then show ?thesis using vec_ok_size [OF h1(2)] by (cases "v_buffer v = NULL") (auto simp: vec_destroy_def delete_buffer_def)
qed

text \<open>The live buffers that the vector does not own; no operation touches them, and none leaks a buffer of its own.\<close>

definition others :: "vec \<times> 'a vheap \<Rightarrow> 'a vheap" where
  "others s = (\<lambda>b. if b = v_buffer (fst s) \<or> b = NULL then None else snd s b)"

lemma others_upd [simp]: "others (v, h(v_buffer v := c)) = others (v, h)"
  by (auto simp: others_def)

lemma others_size [simp]: "others (v\<lparr>v_size := n\<rparr>, h) = others (v, h)"
  by (auto simp: others_def)

text \<open>Afterwards there is a raw cell behind the elements.\<close>

lemma expand_ok:
  assumes ok: "vec_ok esize (v, h) xs" and fit: "fits esize (length xs)" and new: "new_vbuffer new"
  obtains v' h' k where "expand_if_needed esize new (v, h) = Some (v', h')" "v_buffer v' \<noteq> NULL"
    "h' (v_buffer v') = Some (map Some xs @ replicate (Suc k) None)" "v_capacity v' = esize * int (length xs + Suc k)"
    "v_size v' = int (length xs)" "finite (dom h')" "others (v', h') = others (v, h)"
proof -
  note f = fitsD [OF fit] and s = vec_ok_size [OF ok]
  have n: "new h \<noteq> NULL" "h (new h) = None" using new s by (auto simp: new_vbuffer_def)
  have used: "c_int (v_size v * to_int32 esize) = Some (int (length xs) * esize)" using f(1,2) s by simp
  show thesis
  proof (cases "int (length xs) * esize \<ge> v_capacity v")
    case False
    then show thesis
    proof (cases rule: vec_okE [OF ok])
      case 2
      fix k assume c: "v_buffer v \<noteq> NULL" "h (v_buffer v) = Some (map Some xs @ replicate k None)"
        "v_capacity v = esize * int (length xs + k)"
      have "k \<noteq> 0"
      proof
        assume "k = 0"
        then show False using False c(3) by (simp add: mult.commute)
      qed
      then obtain j where "k = Suc j" by (cases k) auto
      then show thesis using that [of v h j] False c s used by (simp add: expand_if_needed_def)
    qed simp
  next
    case True
    define m where "m = (if length xs \<le> 1 then 2 else length xs * 3 div 2)"
    have "length xs < m" by (simp add: m_def) arith
    then obtain j where m: "m = length xs + Suc j" using less_imp_Suc_add [of "length xs" m] by auto
    have m2: "int m \<le> 2 * int (length xs) + 2" unfolding m_def by (simp; arith)
    have cap: "take_bit 32 (esize * int m) = esize * int m" "to_int32 (esize * int m) = esize * int m"
      using f(4) [of "int m"] m2 by auto
    have grow: "(if v_size v \<le> 1 then Some 2 else c_int (v_size v * 3 div 2)) = Some (int m)"
      using f(3) s by (auto simp: m_def zdiv_int)
    let ?h = "h(new h \<mapsto> replicate m None)"
    have nb: "new_buffer esize new (esize * int m) h = (new h, ?h)" using n(1) f(5) by (simp add: new_buffer_def Let_def)
    define h2 where "h2 = h(new h \<mapsto> map Some xs @ replicate (Suc j) None)"
    have neq: "v_buffer v \<noteq> new h" if "xs \<noteq> []" using ok n that by (auto elim!: vec_okE)
    have cp: "copy_cells ?h (v_buffer v) (new h) 0 (nat (v_size v)) = Some h2"
    proof (cases rule: vec_okE [OF ok])
      case 1
      then show ?thesis using m by (simp add: h2_def)
    next
      case (2 k)
      have "v_buffer v \<noteq> new h" using 2(2) n(2) by auto
      then have "copy_cells ?h (v_buffer v) (new h) (int (length ([] :: 'a option list))) (length xs) =
          Some (?h(new h \<mapsto> map Some ([] @ xs) @ replicate (Suc j) None))"
        using 2(2) m by (intro copy_cells_at [where es = "replicate k None" and ys = "[]"]) auto
      then show ?thesis using s by (simp add: h2_def)
    qed
    have "vec_ok esize (v, h2) xs"
    proof (cases rule: vec_okE [OF ok])
      case 1
      then show ?thesis using s by (simp add: vec_ok_def h2_def)
    next
      case (2 k)
      moreover have "v_buffer v \<noteq> new h" using 2(2) n(2) by auto
      ultimately show ?thesis by (intro vec_okI) (auto simp: h2_def)
    qed
    then obtain h3 where h3: "vec_destroy (v, h2) = Some (v\<lparr>v_size := 0\<rparr>, h3)" "\<forall>b. b \<noteq> v_buffer v \<longrightarrow> h3 b = h2 b" "finite (dom h3)"
      "v_buffer v \<noteq> NULL \<longrightarrow> h3 (v_buffer v) = None"
      using vec_destroy_ok by blast
    have "v_buffer v \<noteq> new h" using n by (cases rule: vec_okE [OF ok]) auto
    then have c: "h3 (new h) = Some (map Some xs @ replicate (Suc j) None)" using h3(2) by (simp add: h2_def)
    let ?v = "v\<lparr>v_size := v_size v, v_buffer := new h, v_capacity := esize * int m\<rparr>"
    have "expand_if_needed esize new (v, h) = Some (?v, h3)"
      using True used grow nb cap cp h3(1) by (simp add: expand_if_needed_def Let_def)
    moreover have "others (?v, h3) = others (v, h)"
      using h3(2,4) n ok by (auto simp: others_def h2_def fun_eq_iff vec_ok_def)
    ultimately show thesis using that [of ?v h3 j] c n(1) h3(3) m s by simp
  qed
qed

lemma vec_insert_ok:
  assumes ok: "vec_ok esize (v, h) xs" and fit: "fits esize (length xs)" and new: "new_vbuffer new"
  shows "\<exists>v' h'. vec_insert esize new i x (v, h) =
      Some (if 0 \<le> i \<and> i \<le> int (length xs) then Inr () else Inl VecInsert, v', h') \<and>
    vec_ok esize (v', h') (if 0 \<le> i \<and> i \<le> int (length xs) then take (nat i) xs @ x # drop (nat i) xs else xs) \<and>
    others (v', h') = others (v, h)"
proof -
  obtain v1 h1 k where e: "expand_if_needed esize new (v, h) = Some (v1, h1)" "v_buffer v1 \<noteq> NULL"
    "h1 (v_buffer v1) = Some (map Some xs @ replicate (Suc k) None)" "v_capacity v1 = esize * int (length xs + Suc k)"
    "v_size v1 = int (length xs)" "finite (dom h1)" "others (v1, h1) = others (v, h)"
    by (rule expand_ok [OF assms])
  consider "\<not> (0 \<le> i \<and> i \<le> int (length xs))" | "i = int (length xs)" | "0 \<le> i" "i < int (length xs)" by linarith
  then show ?thesis
  proof cases
    case 1
    moreover have "vec_ok esize (v1, h1) xs" using e(2-6) by (rule vec_okI)
    ultimately show ?thesis using e(1,5,7) by (simp add: vec_insert_def not_le)
  next
    case 2
    let ?h = "h1(v_buffer v1 \<mapsto> map Some (xs @ [x]) @ replicate k None)"
    have "v_construct h1 (v_buffer v1) (int (length xs)) x = Some ?h"
      using v_construct_at [of h1 "v_buffer v1" "map Some xs @ replicate (Suc k) None" "length xs" x] e(3) by (simp add: list_update_append)
    then have "vec_insert esize new i x (v, h) = Some (Inr (), v1\<lparr>v_size := v_size v1 + 1\<rparr>, ?h)"
      using 2 e(1,5) by (simp add: vec_insert_def)
    moreover have "vec_ok esize (v1\<lparr>v_size := v_size v1 + 1\<rparr>, ?h) (xs @ [x])"
      by (rule vec_okI [where k = k]) (use e(1-6) in auto)
    ultimately show ?thesis using 2 e(2,7) by auto
  next
    case 3
    obtain n where n: "i = int n" "n < length xs" using 3 by (metis nonneg_int_cases of_nat_less_iff)
    define ps ws where "ps = take n xs" and "ws = drop n xs"
    have ws: "ws \<noteq> []" "xs = ps @ ws" "length ps = n" using n by (auto simp: ps_def ws_def)
    define y where "y = last ws"
    have "last xs = last ws" unfolding ws(2) using ws(1) by simp
    moreover have "xs \<noteq> []" using n(2) by auto
    ultimately have y: "xs ! (length xs - 1) = y" using last_conv_nth [of xs] by (simp add: y_def)
    have "length xs - 1 < length xs" using n(2) by simp
    note y' = y this
    let ?h2 = "h1(v_buffer v1 \<mapsto> map Some (ps @ ws @ [y]) @ replicate k None)"
    let ?h3 = "h1(v_buffer v1 \<mapsto> map Some (ps @ hd ws # ws) @ replicate k None)"
    let ?h4 = "h1(v_buffer v1 \<mapsto> map Some (ps @ x # ws) @ replicate k None)"
    have l: "v_size v1 - 1 = int (length xs - 1)" using e(5) n by simp
    have "v_read h1 (v_buffer v1) (v_size v1 - 1) = Some y"
      unfolding l using v_read_at [of h1 "v_buffer v1" "map Some xs @ replicate (Suc k) None" "length xs - 1"] e(3) y'
      by (simp add: nth_append)
    moreover have "v_construct h1 (v_buffer v1) (int (length xs)) y = Some ?h2"
      using v_construct_at [of h1 "v_buffer v1" "map Some xs @ replicate (Suc k) None" "length xs" y] e(3) ws(2)
      by (simp add: list_update_append)
    moreover have "shift_up ?h2 (v_buffer v1) (int n) (length ws - 1) = Some ?h3"
    proof -
      have b: "butlast ws @ [y] = ws" using ws(1) by (simp add: y_def)
      have "shift_up ?h2 (v_buffer v1) (int (length ps)) (length (butlast ws)) =
          Some (?h2(v_buffer v1 \<mapsto> map Some (ps @ hd (butlast ws @ [y]) # butlast ws) @ Some y # replicate k None))"
      proof (rule shift_up_at)
        have "map Some (ps @ ws @ [y]) = map Some (ps @ (butlast ws @ [y]) @ [y])" unfolding b ..
        then show "?h2 (v_buffer v1) = Some (map Some (ps @ butlast ws @ [y]) @ Some y # replicate k None)" by simp
      qed
      moreover have "map Some (ps @ hd (butlast ws @ [y]) # butlast ws) @ Some y # replicate k None =
          map Some (ps @ hd ws # ws) @ replicate k None"
      proof -
        have "map Some (butlast ws @ [y]) = map Some ws" unfolding b ..
        then have "map Some (butlast ws) @ [Some y] = map Some ws" by simp
        then show ?thesis by (simp add: b)
      qed
      ultimately show ?thesis by (simp only: fun_upd_upd ws(3) length_butlast)
    qed
    moreover have "v_assign ?h3 (v_buffer v1) (int n) x = Some ?h4"
      using v_assign_at [of ?h3 "v_buffer v1" "map Some (ps @ hd ws # ws) @ replicate k None" n "hd ws" x] ws(3)
      by (simp add: nth_append list_update_append)
    moreover have "nat (v_size v1 + 1 - 2 - i) = length ws - 1" using e(5) n ws by simp
    ultimately have "vec_insert esize new i x (v, h) = Some (Inr (), v1\<lparr>v_size := v_size v1 + 1\<rparr>, ?h4)"
      using 3 n(1) e(1,5) by (simp add: vec_insert_def Let_def)
    moreover have "vec_ok esize (v1\<lparr>v_size := v_size v1 + 1\<rparr>, ?h4) (ps @ x # ws)"
      by (rule vec_okI [where k = k]) (use e(1-6) ws in auto)
    ultimately show ?thesis using 3 n ps_def ws_def e(2,7) by auto
  qed
qed

lemma erase_range_ok:
  assumes ok: "vec_ok esize (v, h) xs"
  shows "\<exists>v' h'. erase_range i j (v, h) = Some (if 0 \<le> i \<and> i \<le> j \<and> j \<le> int (length xs) then Inr i else Inl VecErase, v', h') \<and>
    vec_ok esize (v', h') (if 0 \<le> i \<and> i \<le> j \<and> j \<le> int (length xs) then take (nat i) xs @ drop (nat j) xs else xs) \<and>
    others (v', h') = others (v, h)"
proof -
  note s = vec_ok_size [OF ok]
  consider "\<not> (0 \<le> i \<and> i \<le> j \<and> j \<le> int (length xs))" | "0 \<le> i" "i = j" "j \<le> int (length xs)" | "0 \<le> i" "i < j" "j \<le> int (length xs)"
    by linarith
  then show ?thesis
  proof cases
    case 1
    then have "i < 0 \<or> j < i \<or> v_size v < j" using s by linarith
    then have "erase_range i j (v, h) = Some (Inl VecErase, v, h)" by (simp add: erase_range_def)
    then show ?thesis using 1 ok by auto
  next
    case 2
    then have "erase_range i j (v, h) = Some (Inr i, v, h)" using s by (simp add: erase_range_def)
    then show ?thesis using 2 ok by auto
  next
    case 3
    obtain m n where mn: "i = int m" "j = int n" "m < n" "n \<le> length xs"
      using 3 by (metis nonneg_int_cases of_nat_less_iff of_nat_le_iff order_less_imp_le order_trans)
    define ps gs zs where "ps = take m xs" and "gs = drop m (take n xs)" and "zs = drop n xs"
    have "take m xs @ drop m (take n xs) = take n xs" using mn(3) by (metis append_take_drop_id min.absorb3 take_take)
    then have xs: "xs = ps @ gs @ zs" by (metis append_assoc append_take_drop_id gs_def ps_def zs_def)
    have len: "length ps = m" "length gs = n - m" "length zs = length xs - n" using mn by (auto simp: ps_def gs_def zs_def)
    obtain k where c: "v_buffer v \<noteq> NULL" "h (v_buffer v) = Some (map Some xs @ replicate k None)"
      "v_capacity v = esize * int (length xs + k)" "finite (dom h)"
      using ok mn by (cases rule: vec_okE) auto
    define ts where "ts = drop (length zs) (gs @ zs)"
    let ?h1 = "h(v_buffer v \<mapsto> map Some ((ps @ zs) @ ts) @ replicate k None)"
    have "shift_down h (v_buffer v) (int (length ps) + int (length gs)) (int (length gs)) (length zs) =
        Some (h(v_buffer v \<mapsto> map Some (ps @ zs @ ts) @ replicate k None))"
      unfolding ts_def using c(2) xs len mn by (intro shift_down_at) auto
    then have sd: "shift_down h (v_buffer v) j (j - i) (nat (v_size v - j)) = Some ?h1"
      using mn len s by (simp add: of_nat_diff nat_diff_distrib)
    have lt: "length ts = length gs" by (simp add: ts_def)
    have "destroy_back ?h1 (v_buffer v) (int (length (ps @ zs))) (length ts) =
        Some (?h1(v_buffer v \<mapsto> map Some (ps @ zs) @ replicate (length ts) None @ replicate k None))"
      by (rule destroy_back_at) simp
    moreover have "v_size v - (j - i) = int (length (ps @ zs))" "nat (j - i) = length ts"
      using mn len s lt by (simp_all add: of_nat_diff)
    ultimately have db: "destroy_back ?h1 (v_buffer v) (v_size v - (j - i)) (nat (j - i)) =
        Some (h(v_buffer v \<mapsto> map Some (ps @ zs) @ replicate (length gs + k) None))"
      unfolding lt by (simp add: replicate_add)
    have "erase_range i j (v, h) =
        Some (Inr i, v\<lparr>v_size := v_size v - (j - i)\<rparr>, h(v_buffer v \<mapsto> map Some (ps @ zs) @ replicate (length gs + k) None))"
      using 3 s sd db by (simp add: erase_range_def Let_def)
    moreover have "vec_ok esize (v\<lparr>v_size := v_size v - (j - i)\<rparr>, h(v_buffer v \<mapsto> map Some (ps @ zs) @ replicate (length gs + k) None)) (ps @ zs)"
      by (rule vec_okI [where k = "length gs + k"]) (use c len s mn in \<open>auto simp: of_nat_diff\<close>)
    ultimately show ?thesis using 3 mn c(1) by (auto simp: ps_def zs_def)
  qed
qed

lemma vec_at_ok:
  assumes "vec_ok esize (v, h) xs"
  shows "vec_at i (v, h) = Some (if 0 \<le> i \<and> i < int (length xs) then Inr (xs ! nat i) else Inl VecIndex)"
proof (cases "0 \<le> i \<and> i < int (length xs)")
  case True
  then obtain n where n: "i = int n" "n < length xs" by (metis nonneg_int_cases of_nat_less_iff)
  from assms show ?thesis
  proof (cases rule: vec_okE)
    case (cells k)
    then show ?thesis using n v_read_at [of h "v_buffer v" "map Some xs @ replicate k None" n] by (simp add: vec_at_def nth_append)
  qed (use n in simp)
qed (use vec_ok_size [OF assms] in \<open>auto simp: vec_at_def\<close>)

lemma erase_iter_ok:
  assumes ok: "vec_ok esize (v, h) (xs @ x # ys)"
  shows "\<exists>v' h'. erase_iter (int (length xs)) (v, h) = Some (Inr (int (length xs)), v', h') \<and> vec_ok esize (v', h') (xs @ ys) \<and>
    others (v', h') = others (v, h)"
proof -
  have "viter_at v (int (length xs) + 1) = Inr (int (Suc (length xs)))"
    using vec_ok_size [OF ok] by (simp add: viter_at_def)
  then show ?thesis
    using erase_range_ok [OF ok, of "int (length xs)" "int (Suc (length xs))"] by (simp add: erase_iter_def del: of_nat_Suc)
qed

lemma erase_iter_end: "vec_ok esize (v, h) xs \<Longrightarrow> erase_iter (int (length xs)) (v, h) = Some (Inl VecIterator, v, h)"
  using vec_ok_size [of esize v h xs] by (simp add: erase_iter_def viter_at_def)

lemma vec_pop_back_ok:
  assumes ok: "vec_ok esize (v, h) (xs @ [x])"
  shows "\<exists>v' h'. vec_pop_back (v, h) = Some (Inr (int (length xs)), v', h') \<and> vec_ok esize (v', h') xs \<and>
    others (v', h') = others (v, h)"
proof -
  have "viter_at v (v_size v - 1) = Inr (int (length xs))" using vec_ok_size [OF ok] by (simp add: viter_at_def)
  then show ?thesis using erase_iter_ok [OF ok] by (simp add: vec_pop_back_def)
qed

lemma vec_pop_back_empty: "vec_ok esize (v, h) [] \<Longrightarrow> vec_pop_back (v, h) = Some (Inl VecIterator, v, h)"
  using vec_ok_size [of esize v h "[]"] by (simp add: vec_pop_back_def viter_at_def)

lemma vec_find_ok:
  assumes ok: "vec_ok esize (v, h) (xs @ ys)"
  shows "vec_find (v, h) x (int (length xs)) (length ys) = Some (Inr (int (length xs + length (takeWhile (\<lambda>y. y \<noteq> x) ys))))"
  using ok
proof (induction ys arbitrary: xs)
  case (Cons y ys)
  have "viter_value (int (length xs)) (v, h) = Some (Inr y)"
    using vec_at_ok [OF Cons.prems, of "int (length xs)"] vec_ok_size [OF Cons.prems] by (simp add: viter_value_def)
  moreover have "vec_find (v, h) x (int (length (xs @ [y]))) (length ys) =
      Some (Inr (int (length (xs @ [y]) + length (takeWhile (\<lambda>y. y \<noteq> x) ys))))"
    by (rule Cons.IH) (use Cons.prems in simp)
  ultimately show ?case by (simp add: add.commute)
qed simp

text \<open>\<open>erase\<close> of a value that is not in the vector throws, since it moves the end iterator.\<close>

lemma vec_erase_value_ok:
  assumes ok: "vec_ok esize (v, h) xs"
  shows "if x \<in> set xs then \<exists>i v' h'. vec_erase_value x (v, h) = Some (Inr i, v', h') \<and> vec_ok esize (v', h') (remove1 x xs)
    else vec_erase_value x (v, h) = Some (Inl VecIterator, v, h)"
proof -
  define n where "n = length (takeWhile (\<lambda>y. y \<noteq> x) xs)"
  have f: "vec_find (v, h) x 0 (nat (v_size v)) = Some (Inr (int n))"
    using vec_find_ok [of esize v h "[]" xs x] ok vec_ok_size [OF ok] by (simp add: n_def)
  show ?thesis
  proof (cases "x \<in> set xs")
    case True
    then obtain as bs where xs: "xs = as @ x # bs" "x \<notin> set as" using split_list_first by metis
    have "n = length as" using xs by (auto simp: n_def takeWhile_append)
    then show ?thesis
      using f erase_iter_ok [of esize v h as x bs] ok xs by (auto simp: vec_erase_value_def remove1_append)
  next
    case False
    then have "takeWhile (\<lambda>y. y \<noteq> x) xs = xs" by (auto simp: takeWhile_eq_all_conv)
    then have "n = length xs" by (simp only: n_def)
    then show ?thesis using f False erase_iter_end [OF ok] by (simp add: vec_erase_value_def)
  qed
qed

section \<open>Copies\<close>

lemma vec_ok_other: "vec_ok esize (v, h) xs \<Longrightarrow> b \<noteq> v_buffer v \<Longrightarrow> vec_ok esize (v, h(b \<mapsto> cs)) xs"
  by (auto simp: vec_ok_def)

lemma copy_elements_at:
  "vec_ok esize (rhs, h) (ds @ xs) \<Longrightarrow> v_buffer v \<noteq> NULL \<Longrightarrow> v_buffer v \<noteq> v_buffer rhs \<Longrightarrow>
   h (v_buffer v) = Some (map Some ds @ replicate (length xs + k) None) \<Longrightarrow> v_size v = int (length ds) \<Longrightarrow>
   copy_elements rhs (int (length ds)) (length xs) (v, h) =
     Some (Inr (v\<lparr>v_size := int (length (ds @ xs))\<rparr>, h(v_buffer v \<mapsto> map Some (ds @ xs) @ replicate k None)))"
proof (induction xs arbitrary: v h ds)
  case Nil
  then show ?case by (simp add: fun_upd_idem)
next
  case (Cons x xs)
  let ?v = "v\<lparr>v_size := int (length ds) + 1\<rparr>"
  let ?h = "h(v_buffer v \<mapsto> map Some (ds @ [x]) @ replicate (length xs + k) None)"
  have "vec_at (int (length ds)) (rhs, h) = Some (Inr x)" using vec_at_ok [OF Cons.prems(1), of "int (length ds)"] by simp
  moreover have "v_construct h (v_buffer v) (int (length ds)) x = Some ?h"
    using v_construct_at [of h "v_buffer v" "map Some ds @ replicate (length (x # xs) + k) None" "length ds" x] Cons.prems(4)
    by (simp add: list_update_append)
  moreover have "copy_elements rhs (int (length (ds @ [x]))) (length xs) (?v, ?h) =
      Some (Inr (?v\<lparr>v_size := int (length ((ds @ [x]) @ xs))\<rparr>, ?h(v_buffer ?v \<mapsto> map Some ((ds @ [x]) @ xs) @ replicate k None)))"
  proof (rule Cons.IH)
    show "vec_ok esize (rhs, ?h) ((ds @ [x]) @ xs)" using vec_ok_other [OF Cons.prems(1)] Cons.prems(3) by simp
  qed (use Cons.prems in auto)
  ultimately show ?case by (simp add: add.commute fun_eq_iff)
qed

lemma vec_copy_ok:
  fixes h :: "'a vheap"
  assumes ok: "vec_ok esize (rhs, h) xs" and new: "new_vbuffer new" and e: "0 < esize"
  shows "\<exists>v h'. vec_copy esize new rhs h = Some (Inr (v, h')) \<and> vec_ok esize (v, h') xs \<and> vec_ok esize (rhs, h') xs \<and>
    (v_buffer v = NULL \<or> v_buffer v = new h) \<and> others (v, h') = others (vec_init, h)"
proof (cases "v_capacity rhs = 0")
  case True
  have "xs = []" using ok
  proof (cases rule: vec_okE)
    case (cells k)
    then have "int (length xs + k) = 0" using True e by simp
    then have "length xs = 0" by linarith
    then show ?thesis by simp
  qed
  then show ?thesis using True ok vec_ok_size [OF ok] by (auto simp: vec_copy_def vec_ok_def others_def vec_init_def)
next
  case False
  have n: "new h \<noteq> NULL" "h (new h) = None" using new vec_ok_size [OF ok] by (auto simp: new_vbuffer_def)
  from ok show ?thesis
  proof (cases rule: vec_okE)
    case (cells k)
    have neq: "new h \<noteq> v_buffer rhs" using cells(2) n(2) by auto
    have div: "nat (v_capacity rhs div esize) = length xs + k" using cells(3) e by simp
    let ?h = "h(new h \<mapsto> replicate (length xs + k) None)"
    let ?v = "\<lparr>v_size = 0, v_capacity = v_capacity rhs, v_buffer = new h\<rparr>"
    let ?h' = "h(new h \<mapsto> map Some xs @ replicate k None)"
    have "copy_elements rhs (int (length ([] :: 'a list))) (length xs) (?v, ?h) =
        Some (Inr (?v\<lparr>v_size := int (length ([] @ xs))\<rparr>, ?h(v_buffer ?v \<mapsto> map Some ([] @ xs) @ replicate k None)))"
    proof (rule copy_elements_at)
      show "vec_ok esize (rhs, ?h) ([] @ xs)" using vec_ok_other [OF ok] neq by simp
    qed (use n neq in auto)
    then have "vec_copy esize new rhs h = Some (Inr (?v\<lparr>v_size := int (length xs)\<rparr>, ?h'))"
      using False n div cells(4) by (simp add: vec_copy_def new_buffer_def Let_def)
    moreover have "vec_ok esize (?v\<lparr>v_size := int (length xs)\<rparr>, ?h') xs" by (rule vec_okI [where k = k]) (use cells n in auto)
    moreover have "vec_ok esize (rhs, ?h') xs" by (rule vec_okI [where k = k]) (use cells neq in auto)
    ultimately show ?thesis using n by (auto simp: others_def vec_init_def)
  qed (use False in simp)
qed

text \<open>Copy assignment gives the target its own buffer, frees the old one, and leaves the source alone.\<close>

lemma vec_assign_ok:
  assumes ok: "vec_ok esize (rhs, h) xs" "vec_ok esize (v, h) ys" and new: "new_vbuffer new" "0 < esize"
    and dis: "v_buffer v \<noteq> v_buffer rhs \<or> v_buffer v = NULL"
  shows "\<exists>t h'. vec_assign esize new rhs v h = Some (Inr (t, h')) \<and> vec_ok esize (t, h') xs \<and> vec_ok esize (rhs, h') xs \<and>
    (v_buffer t \<noteq> v_buffer rhs \<or> v_buffer t = NULL) \<and> (v_buffer v \<noteq> NULL \<longrightarrow> h' (v_buffer v) = None)"
proof -
  obtain t h1 where c: "vec_copy esize new rhs h = Some (Inr (t, h1))" "vec_ok esize (t, h1) xs" "vec_ok esize (rhs, h1) xs"
    "v_buffer t = NULL \<or> v_buffer t = new h" "others (t, h1) = others (vec_init, h)"
    using vec_copy_ok [OF ok(1) new] by blast
  have n: "new h \<noteq> NULL" "h (new h) = None" using new(1) vec_ok_size [OF ok(1)] by (auto simp: new_vbuffer_def)
  have live: "v_buffer w \<noteq> new h" if "vec_ok esize (w, h) zs" for w and zs :: "'a list"
    using that n by (cases rule: vec_okE) auto
  have same: "h1 b = h b" if "b \<noteq> NULL" "b \<noteq> new h" for b
    using c(4,5) that unfolding others_def fun_eq_iff vec_init_def by (metis fst_conv snd_conv vec.select_convs(3))
  have v1: "vec_ok esize (v, h1) ys"
    using ok(2)
  proof (cases rule: vec_okE)
    case null
    then show ?thesis using vec_ok_size [OF c(3)] by (simp add: vec_ok_def)
  next
    case (cells k)
    then show ?thesis using same [of "v_buffer v"] live [OF ok(2)] vec_ok_size [OF c(3)] by (intro vec_okI) auto
  qed
  obtain h2 where h2: "vec_destroy (v, h1) = Some (v\<lparr>v_size := 0\<rparr>, h2)" "\<forall>b. b \<noteq> v_buffer v \<longrightarrow> h2 b = h1 b"
    "v_buffer v \<noteq> NULL \<longrightarrow> h2 (v_buffer v) = None" "finite (dom h2)"
    using vec_destroy_ok [OF v1] by blast
  have keep: "vec_ok esize (w, h2) xs" if "vec_ok esize (w, h1) xs" "v_buffer w \<noteq> v_buffer v \<or> v_buffer v = NULL" for w
    using that(1)
  proof (cases rule: vec_okE)
    case null
    then show ?thesis using h2(4) by (simp add: vec_ok_def)
  next
    case (cells k)
    then show ?thesis using that(2) h2(2,4) by (intro vec_okI) auto
  qed
  have "v_buffer t \<noteq> v_buffer v \<or> v_buffer v = NULL" using c(4) live [OF ok(2)] n(1) by auto
  then have "vec_ok esize (t, h2) xs" "vec_ok esize (rhs, h2) xs" using keep c(2,3) dis by auto
  moreover have "v_buffer t \<noteq> v_buffer rhs \<or> v_buffer t = NULL" using c(4) live [OF ok(1)] by auto
  moreover have "vec_assign esize new rhs v h = Some (Inr (t, h2))" using c(1) h2(1) by (simp add: vec_assign_def)
  ultimately show ?thesis using h2(3) by blast
qed

lemma vec_reserve_ok:
  assumes "0 < r" "fits esize (nat r)" "new_vbuffer new" "finite (dom h)"
  shows "\<exists>v h'. vec_reserve esize new r h = (Inr v, h') \<and> vec_ok esize (v, h') []"
proof -
  note f = fitsD [OF assms(2)]
  have n: "new h \<noteq> NULL" using assms(3,4) by (auto simp: new_vbuffer_def)
  have "to_int32 (esize * r) = esize * r" using f(4) [of r] assms(1) by simp
  then have "vec_reserve esize new r h =
      (Inr \<lparr>v_size = 0, v_capacity = esize * r, v_buffer = new h\<rparr>, h(new h \<mapsto> replicate (nat r) None))"
    using assms(1) n f(5) by (simp add: vec_reserve_def new_buffer_def Let_def)
  moreover have "vec_ok esize (\<lparr>v_size = 0, v_capacity = esize * r, v_buffer = new h\<rparr>, h(new h \<mapsto> replicate (nat r) None)) []"
    by (rule vec_okI [where k = "nat r"]) (use assms n in auto)
  ultimately show ?thesis by blast
qed

section \<open>A stack\<close>

definition vec_push :: "int \<Rightarrow> ('a vheap \<Rightarrow> addr) \<Rightarrow> 'a \<Rightarrow> vec \<times> 'a vheap \<Rightarrow> (bool \<times> vec \<times> 'a vheap) option" where
  "vec_push esize new x s = do { (r, s) \<leftarrow> vec_push_back esize new x s; Some (case r of Inl e \<Rightarrow> False | Inr _ \<Rightarrow> True, s) }"

text \<open>\<open>x = v[v.size() - 1]; v.pop_back()\<close>\<close>

definition vec_take :: "vec \<times> 'a vheap \<Rightarrow> ('a option \<times> vec \<times> 'a vheap) option" where
  "vec_take s = do {
     r \<leftarrow> vec_at (v_size (fst s) - 1) s;
     case r of Inl e \<Rightarrow> Some (None, s) | Inr x \<Rightarrow> do { (_, s) \<leftarrow> vec_pop_back s; Some (Some x, s) } }"

definition vec_holds :: "int \<Rightarrow> ('a vheap \<Rightarrow> addr) \<Rightarrow> nat \<Rightarrow> vec \<times> 'a vheap \<Rightarrow> 'a list \<Rightarrow> bool" where
  "vec_holds esize new cap s xs \<longleftrightarrow> new_vbuffer new \<and> fits esize cap \<and> vec_ok esize s xs"

lemma fits_mono: "fits esize n \<Longrightarrow> m \<le> n \<Longrightarrow> fits esize m"
proof -
  assume a: "fits esize n" "m \<le> n"
  have "esize * (2 * int m + 2) \<le> esize * (2 * int n + 2)" using a by (auto simp: fits_def intro: mult_left_mono)
  then show ?thesis using a unfolding fits_def by linarith
qed

lemma vec_push_back_ok:
  assumes "vec_ok esize (v, h) xs" "fits esize (length xs)" "new_vbuffer new"
  shows "\<exists>v' h'. vec_push_back esize new x (v, h) = Some (Inr (), v', h') \<and> vec_ok esize (v', h') (xs @ [x]) \<and>
    others (v', h') = others (v, h)"
  using vec_insert_ok [OF assms, of "v_size v" x] vec_ok_size [OF assms(1)] by (auto simp: vec_push_back_def)

lemma vec_push_all_ok:
  "vec_ok esize (v, h) ys \<Longrightarrow> fits esize (length ys + length xs) \<Longrightarrow> new_vbuffer new \<Longrightarrow>
   \<exists>v' h'. vec_push_all esize new xs (v, h) = Some (Inr (), v', h') \<and> vec_ok esize (v', h') (ys @ xs)"
proof (induction xs arbitrary: v h ys)
  case (Cons x xs)
  have "fits esize (length ys)" by (rule fits_mono [OF Cons.prems(2)]) simp
  then obtain v1 h1 where s: "vec_push_back esize new x (v, h) = Some (Inr (), v1, h1)" "vec_ok esize (v1, h1) (ys @ [x])"
    using vec_push_back_ok [OF Cons.prems(1) _ Cons.prems(3), of x] by blast
  have "fits esize (length (ys @ [x]) + length xs)" using Cons.prems(2) by simp
  then obtain v2 h2 where "vec_push_all esize new xs (v1, h1) = Some (Inr (), v2, h2)" "vec_ok esize (v2, h2) ((ys @ [x]) @ xs)"
    using Cons.IH [OF s(2) _ Cons.prems(3)] by blast
  then show ?case using s(1) by auto
qed auto

lemma vec_of_list_ok:
  "finite (dom h) \<Longrightarrow> fits esize (length xs) \<Longrightarrow> new_vbuffer new \<Longrightarrow>
   \<exists>v' h'. vec_of_list esize new xs h = Some (Inr (), v', h') \<and> vec_ok esize (v', h') xs"
  using vec_push_all_ok [OF vec_init_ok [of h esize], of xs new] by (simp add: vec_of_list_def)

lemma vec_holds_push:
  assumes "vec_holds esize new cap s xs" "length xs < cap"
  shows "\<exists>s'. vec_push esize new x s = Some (True, s') \<and> vec_holds esize new cap s' (xs @ [x])"
proof -
  obtain v h where s: "s = (v, h)" "vec_ok esize (v, h) xs" "new_vbuffer new" "fits esize cap"
    using assms(1) by (cases s) (auto simp: vec_holds_def)
  have "fits esize (length xs)" using fits_mono [OF s(4)] assms(2) by simp
  then show ?thesis using vec_push_back_ok [OF s(2) _ s(3), of x] s by (auto simp: vec_push_def vec_holds_def)
qed

lemma vec_holds_take:
  assumes "vec_holds esize new cap s (xs @ [x])"
  shows "\<exists>s'. vec_take s = Some (Some x, s') \<and> vec_holds esize new cap s' xs"
proof -
  obtain v h where s: "s = (v, h)" "vec_ok esize (v, h) (xs @ [x])" "new_vbuffer new" "fits esize cap"
    using assms by (cases s) (auto simp: vec_holds_def)
  have "vec_at (v_size v - 1) (v, h) = Some (Inr x)" using vec_at_ok [OF s(2), of "v_size v - 1"] vec_ok_size [OF s(2)] by simp
  then show ?thesis using vec_pop_back_ok [OF s(2)] s by (auto simp: vec_take_def vec_holds_def)
qed

interpretation vector_stack: lifo cap "vec_holds esize new cap" "vec_push esize new" vec_take
proof (unfold_locales, goal_cases)
  case (1 s xs x)
  then show ?case by (rule vec_holds_push)
next
  case (2 s xs x)
  then show ?case by (rule vec_holds_take)
next
  case (3 s)
  then have "vec_at (v_size (fst s) - 1) s = Some (Inl VecIndex)"
    using vec_at_ok [of esize "fst s" "snd s" "[]"] by (simp add: vec_holds_def)
  then show ?case by (simp add: vec_take_def)
qed

section \<open>A list\<close>

datatype 'a vec_op = VInsert int 'a | VPush 'a | VErase int int | VPop

text \<open>Calls one after the other; the flag tells whether the call returned and did not throw.\<close>

fun vec_step :: "int \<Rightarrow> ('a vheap \<Rightarrow> addr) \<Rightarrow> 'a vec_op \<Rightarrow> vec \<times> 'a vheap \<Rightarrow> (bool \<times> vec \<times> 'a vheap) option" where
  "vec_step esize new (VInsert i x) s = do { (r, s) \<leftarrow> vec_insert esize new i x s; Some (case r of Inl e \<Rightarrow> False | Inr _ \<Rightarrow> True, s) }"
| "vec_step esize new (VPush x) s = vec_push esize new x s"
| "vec_step esize new (VErase i j) s = do { (r, s) \<leftarrow> erase_range i j s; Some (case r of Inl e \<Rightarrow> False | Inr _ \<Rightarrow> True, s) }"
| "vec_step esize new VPop s = do { (r, s) \<leftarrow> vec_pop_back s; Some (case r of Inl e \<Rightarrow> False | Inr _ \<Rightarrow> True, s) }"

fun vec_run :: "int \<Rightarrow> ('a vheap \<Rightarrow> addr) \<Rightarrow> 'a vec_op list \<Rightarrow> vec \<times> 'a vheap \<Rightarrow> (bool list \<times> vec \<times> 'a vheap) option" where
  "vec_run esize new [] s = Some ([], s)"
| "vec_run esize new (c # cs) s = do { (b, s) \<leftarrow> vec_step esize new c s; (bs, s) \<leftarrow> vec_run esize new cs s; Some (b # bs, s) }"

fun vec_allowed :: "'a vec_op \<Rightarrow> 'a list \<Rightarrow> bool" where
  "vec_allowed (VInsert i x) xs \<longleftrightarrow> 0 \<le> i \<and> i \<le> int (length xs)"
| "vec_allowed (VPush x) xs \<longleftrightarrow> True"
| "vec_allowed (VErase i j) xs \<longleftrightarrow> 0 \<le> i \<and> i \<le> j \<and> j \<le> int (length xs)"
| "vec_allowed VPop xs \<longleftrightarrow> xs \<noteq> []"

fun vec_effect :: "'a vec_op \<Rightarrow> 'a list \<Rightarrow> 'a list" where
  "vec_effect (VInsert i x) xs = (if 0 \<le> i \<and> i \<le> int (length xs) then take (nat i) xs @ x # drop (nat i) xs else xs)"
| "vec_effect (VPush x) xs = xs @ [x]"
| "vec_effect (VErase i j) xs = (if 0 \<le> i \<and> i \<le> j \<and> j \<le> int (length xs) then take (nat i) xs @ drop (nat j) xs else xs)"
| "vec_effect VPop xs = butlast xs"

fun vec_flags :: "'a vec_op list \<Rightarrow> 'a list \<Rightarrow> bool list" where
  "vec_flags [] xs = []"
| "vec_flags (c # cs) xs = vec_allowed c xs # vec_flags cs (vec_effect c xs)"

lemma vec_step_ok:
  assumes "vec_ok esize s xs" "fits esize (length xs)" "new_vbuffer new"
  shows "\<exists>s'. vec_step esize new c s = Some (vec_allowed c xs, s') \<and> vec_ok esize s' (vec_effect c xs) \<and> others s' = others s"
proof -
  obtain v h where s: "s = (v, h)" by (cases s) auto
  note ok = assms [unfolded s]
  show ?thesis
  proof (cases c)
    case (VInsert i x)
    then show ?thesis using vec_insert_ok [OF ok, of i x] s by (auto split: if_splits)
  next
    case (VPush x)
    then show ?thesis using vec_push_back_ok [OF ok, of x] s by (auto simp: vec_push_def)
  next
    case (VErase i j)
    then show ?thesis using erase_range_ok [OF ok(1), of i j] s by (auto split: if_splits)
  next
    case VPop
    show ?thesis
    proof (cases xs rule: rev_cases)
      case Nil
      then show ?thesis using vec_pop_back_empty [of esize v h] ok VPop s by simp
    next
      case (snoc ys y)
      then show ?thesis using vec_pop_back_ok [of esize v h ys y] ok VPop s by auto
    qed
  qed
qed

lemma vec_effect_length: "length (vec_effect c xs) \<le> Suc (length xs)"
  by (cases c) auto

lemma vec_run_ok:
  "vec_ok esize s xs \<Longrightarrow> fits esize (length xs + length cs) \<Longrightarrow> new_vbuffer new \<Longrightarrow>
   \<exists>s'. vec_run esize new cs s = Some (vec_flags cs xs, s') \<and> vec_ok esize s' (fold vec_effect cs xs) \<and> others s' = others s"
proof (induction cs arbitrary: s xs)
  case (Cons c cs)
  have "fits esize (length xs)" using fits_mono [OF Cons.prems(2)] by simp
  then obtain s1 where s1: "vec_step esize new c s = Some (vec_allowed c xs, s1)" "vec_ok esize s1 (vec_effect c xs)" "others s1 = others s"
    using vec_step_ok [OF Cons.prems(1) _ Cons.prems(3)] by blast
  have "fits esize (length (vec_effect c xs) + length cs)"
    using fits_mono [OF Cons.prems(2)] vec_effect_length [of c xs] by simp
  then obtain s2 where "vec_run esize new cs s1 = Some (vec_flags cs (vec_effect c xs), s2)"
    "vec_ok esize s2 (fold vec_effect cs (vec_effect c xs))" "others s2 = others s1"
    using Cons.IH [OF s1(2) _ Cons.prems(3)] by blast
  then show ?case using s1 by (intro exI [of _ s2]) simp
qed simp

text \<open>C10. Any sequence of insertions, removals of ranges, pushes and pops on an empty vector behaves as on a list: a call
  throws exactly when its index or range is not valid, indexing then reads the list, and the only live buffer is the
  vector's own, so that growing leaks nothing. No raw cell is ever read or destroyed.\<close>

theorem vector_refines_list:
  assumes "new_vbuffer new" "fits esize (length cs)"
  shows "\<exists>s. vec_run esize new cs (vec_init, Map.empty) = Some (vec_flags cs [], s) \<and>
    (\<forall>i. vec_at i s = Some (if 0 \<le> i \<and> i < int (length (fold vec_effect cs [])) then Inr (fold vec_effect cs [] ! nat i)
      else Inl VecIndex)) \<and>
    others s = Map.empty"
proof -
  obtain s where s: "vec_run esize new cs (vec_init, Map.empty) = Some (vec_flags cs [], s)"
    "vec_ok esize s (fold vec_effect cs [])" "others s = others (vec_init, Map.empty :: 'a vheap)"
    using vec_run_ok [OF vec_init_ok [of "Map.empty :: 'a vheap"], of esize cs new] assms by auto
  moreover have "others (vec_init, Map.empty :: 'a vheap) = Map.empty" by (auto simp: others_def)
  ultimately show ?thesis using vec_at_ok [of esize "fst s" "snd s"] by auto
qed

definition first_buffer :: "'a vheap \<Rightarrow> addr" where
  "first_buffer h = Suc (Max (insert 0 (dom h)))"

lemma first_buffer_fresh: "new_vbuffer first_buffer"
  unfolding new_vbuffer_def first_buffer_def
proof (intro allI impI conjI)
  fix h :: "'a vheap" assume f: "finite (dom h)"
  show "h (Suc (Max (insert 0 (dom h)))) = None"
  proof (rule ccontr)
    assume "h (Suc (Max (insert 0 (dom h)))) \<noteq> None"
    then have "Suc (Max (insert 0 (dom h))) \<le> Max (insert 0 (dom h))" using f by (intro Max_ge) auto
    then show False by simp
  qed
qed simp

lemma vector_refines_list_witness:
  "\<exists>s. vec_run 4 first_buffer [VPush (1::nat), VPush 2, VInsert 1 3, VInsert 7 9, VErase 0 1, VPop, VPop, VPop] (vec_init, Map.empty) =
      Some ([True, True, True, False, True, True, True, False], s) \<and> others s = Map.empty"
  using vector_refines_list [OF first_buffer_fresh, of 4 "[VPush (1::nat), VPush 2, VInsert 1 3, VInsert 7 9, VErase 0 1, VPop, VPop, VPop]"]
  by (auto simp: fits_def)

end
