(* ===== verification/Tree_Code.thy ===== *)
theory Tree_Code
  imports Prelude
begin

text \<open>
  The search tree under \<open>upan::map\<close> and \<open>upan::set\<close> (\<open>libustd/ds/_tree.h\<close>), an AVL tree with parent
  pointers. Nodes live in a heap, a map from addresses. An access through a null or a deleted pointer yields
  \<open>None\<close>, and so does a loop that never ends. \<open>operator new\<close> is the parameter \<open>new\<close>: the address of the next
  node, given the heap. It returns null when the kernel has no memory (\<open>newalloc.cpp\<close> does not throw), and the
  constructor then writes through the null pointer. The keys' \<open>operator<\<close> is a linear order. An iterator is the address of its node.

  This theory holds the code, the next ones its meaning: \<open>Tree_Spec\<close> the trees that the heap represents and the
  balanced search trees among them, \<open>Tree_Heap\<close> the proof that every function on the heap computes its
  counterpart on those trees.
\<close>

section \<open>Nodes\<close>

record 'e tnode =
  tn_element :: 'e
  tn_height :: int
  tn_parent :: addr
  tn_left :: addr
  tn_right :: addr

type_synonym 'e theap = "addr \<Rightarrow> 'e tnode option"

definition new_tnode :: "'e \<Rightarrow> 'e tnode" where
  "new_tnode e = \<lparr>tn_element = e, tn_height = 1, tn_parent = NULL, tn_left = NULL, tn_right = NULL\<rparr>"

definition set_parent :: "'e theap \<Rightarrow> addr \<Rightarrow> addr \<Rightarrow> 'e theap option" where
  "set_parent h n p = do { x \<leftarrow> h n; Some (h(n \<mapsto> x\<lparr>tn_parent := p\<rparr>)) }"

definition set_left :: "'e theap \<Rightarrow> addr \<Rightarrow> addr \<Rightarrow> 'e theap option" where
  "set_left h n l = do {
     x \<leftarrow> h n;
     let h = h(n \<mapsto> x\<lparr>tn_left := l\<rparr>);
     if l \<noteq> NULL then set_parent h l n else Some h }"

definition set_right :: "'e theap \<Rightarrow> addr \<Rightarrow> addr \<Rightarrow> 'e theap option" where
  "set_right h n r = do {
     x \<leftarrow> h n;
     let h = h(n \<mapsto> x\<lparr>tn_right := r\<rparr>);
     if r \<noteq> NULL then set_parent h r n else Some h }"

definition node_height :: "'e theap \<Rightarrow> addr \<Rightarrow> int option" where
  "node_height h n = (if n = NULL then Some 0 else map_option tn_height (h n))"

definition balance_factor :: "'e theap \<Rightarrow> addr \<Rightarrow> int option" where
  "balance_factor h n = do {
     x \<leftarrow> h n;
     a \<leftarrow> node_height h (tn_left x);
     b \<leftarrow> node_height h (tn_right x);
     Some (a - b) }"

definition update_height :: "'e theap \<Rightarrow> addr \<Rightarrow> 'e theap option" where
  "update_height h n = do {
     x \<leftarrow> h n;
     a \<leftarrow> node_height h (tn_left x);
     b \<leftarrow> node_height h (tn_right x);
     Some (h(n \<mapsto> x\<lparr>tn_height := max a b + 1\<rparr>)) }"

section \<open>Walking\<close>

partial_function (option) leftmost :: "'e theap \<Rightarrow> addr \<Rightarrow> addr option" where
  "leftmost h cur = do {
     x \<leftarrow> h cur;
     if tn_left x \<noteq> NULL then leftmost h (tn_left x) else Some cur }"

partial_function (option) rightmost :: "'e theap \<Rightarrow> addr \<Rightarrow> addr option" where
  "rightmost h cur = do {
     x \<leftarrow> h cur;
     if tn_right x \<noteq> NULL then rightmost h (tn_right x) else Some cur }"

partial_function (option) climb_right :: "'e theap \<Rightarrow> addr \<Rightarrow> addr \<Rightarrow> addr option" where
  "climb_right h p c =
     (if p = NULL then Some p
      else do {
        x \<leftarrow> h p;
        if tn_right x = c then climb_right h (tn_parent x) p else Some p })"

partial_function (option) climb_left :: "'e theap \<Rightarrow> addr \<Rightarrow> addr \<Rightarrow> addr option" where
  "climb_left h p c =
     (if p = NULL then Some p
      else do {
        x \<leftarrow> h p;
        if tn_left x = c then climb_left h (tn_parent x) p else Some p })"

definition successor :: "'e theap \<Rightarrow> addr \<Rightarrow> addr option" where
  "successor h n = do {
     x \<leftarrow> h n;
     if tn_right x \<noteq> NULL then leftmost h (tn_right x) else climb_right h (tn_parent x) n }"

definition predecessor :: "'e theap \<Rightarrow> addr \<Rightarrow> addr option" where
  "predecessor h n = do {
     x \<leftarrow> h n;
     if tn_left x \<noteq> NULL then rightmost h (tn_left x) else climb_left h (tn_parent x) n }"

definition first_node :: "'e theap \<Rightarrow> addr \<Rightarrow> addr option" where
  "first_node h root = (if root = NULL then Some NULL else leftmost h root)"

text \<open>\<open>Inl\<close> is the exception an iterator at the end throws.\<close>

datatype tree_error = AccessingEndIterator

definition iter_value :: "'e theap \<Rightarrow> addr \<Rightarrow> (tree_error + 'e) option" where
  "iter_value h i = (if i = NULL then Some (Inl AccessingEndIterator)
     else do { x \<leftarrow> h i; Some (Inr (tn_element x)) })"

definition pre_inc :: "'e theap \<Rightarrow> addr \<Rightarrow> (tree_error + addr) option" where
  "pre_inc h i = (if i = NULL then Some (Inl AccessingEndIterator)
     else do { j \<leftarrow> successor h i; Some (Inr j) })"

definition pre_dec :: "'e theap \<Rightarrow> addr \<Rightarrow> (tree_error + addr) option" where
  "pre_dec h i = (if i = NULL then Some (Inl AccessingEndIterator)
     else do { j \<leftarrow> predecessor h i; Some (Inr j) })"

text \<open>The second component is the iterator the postfix operator returns.\<close>

definition post_inc :: "'e theap \<Rightarrow> addr \<Rightarrow> (tree_error + addr \<times> addr) option" where
  "post_inc h i = do { r \<leftarrow> pre_inc h i; Some (case r of Inl e \<Rightarrow> Inl e | Inr j \<Rightarrow> Inr (j, i)) }"

definition post_dec :: "'e theap \<Rightarrow> addr \<Rightarrow> (tree_error + addr \<times> addr) option" where
  "post_dec h i = do { r \<leftarrow> pre_dec h i; Some (case r of Inl e \<Rightarrow> Inl e | Inr j \<Rightarrow> Inr (j, i)) }"

text \<open>\<open>foreach\<close>, with the elements it hands to the function collected in a list.\<close>

partial_function (option) foreach_from :: "'e theap \<Rightarrow> addr \<Rightarrow> 'e list \<Rightarrow> (tree_error + 'e list) option" where
  "foreach_from h i seen =
     (if i = NULL then Some (Inr seen)
      else do {
        v \<leftarrow> iter_value h i;
        case v of Inl e \<Rightarrow> Some (Inl e)
        | Inr v \<Rightarrow> do {
            j \<leftarrow> pre_inc h i;
            case j of Inl e \<Rightarrow> Some (Inl e) | Inr j \<Rightarrow> foreach_from h j (seen @ [v]) } })"

definition foreach :: "'e theap \<Rightarrow> addr \<Rightarrow> (tree_error + 'e list) option" where
  "foreach h root = do { i \<leftarrow> first_node h root; foreach_from h i [] }"

section \<open>Searching\<close>

partial_function (option) find_node :: "('e \<Rightarrow> 'k::linorder) \<Rightarrow> 'e theap \<Rightarrow> addr \<Rightarrow> 'k \<Rightarrow> addr option" where
  "find_node key h cur k =
     (if cur = NULL then Some NULL
      else do {
        x \<leftarrow> h cur;
        if k < key (tn_element x) then find_node key h (tn_left x) k
        else if key (tn_element x) < k then find_node key h (tn_right x) k
        else Some cur })"

partial_function (option) lower_bound_loop ::
    "('e \<Rightarrow> 'k::linorder) \<Rightarrow> 'e theap \<Rightarrow> addr \<Rightarrow> 'k \<Rightarrow> addr \<Rightarrow> addr option" where
  "lower_bound_loop key h cur k result =
     (if cur = NULL then Some result
      else do {
        x \<leftarrow> h cur;
        if \<not> key (tn_element x) < k then lower_bound_loop key h (tn_left x) k cur
        else lower_bound_loop key h (tn_right x) k result })"

definition lower_bound_node :: "('e \<Rightarrow> 'k::linorder) \<Rightarrow> 'e theap \<Rightarrow> addr \<Rightarrow> 'k \<Rightarrow> addr option" where
  "lower_bound_node key h root k = lower_bound_loop key h root k NULL"

partial_function (option) upper_bound_loop ::
    "('e \<Rightarrow> 'k::linorder) \<Rightarrow> 'e theap \<Rightarrow> addr \<Rightarrow> 'k \<Rightarrow> addr \<Rightarrow> addr option" where
  "upper_bound_loop key h cur k result =
     (if cur = NULL then Some result
      else do {
        x \<leftarrow> h cur;
        if k < key (tn_element x) then upper_bound_loop key h (tn_left x) k cur
        else upper_bound_loop key h (tn_right x) k result })"

definition upper_bound_node :: "('e \<Rightarrow> 'k::linorder) \<Rightarrow> 'e theap \<Rightarrow> addr \<Rightarrow> 'k \<Rightarrow> addr option" where
  "upper_bound_node key h root k = upper_bound_loop key h root k NULL"

section \<open>Rebalancing\<close>

definition rotate_left :: "'e theap \<Rightarrow> addr \<Rightarrow> (addr \<times> 'e theap) option" where
  "rotate_left h n = do {
     x \<leftarrow> h n;
     let r = tn_right x;
     y \<leftarrow> h r;
     h \<leftarrow> set_right h n (tn_left y);
     h \<leftarrow> set_left h r n;
     h \<leftarrow> update_height h n;
     h \<leftarrow> update_height h r;
     Some (r, h) }"

definition rotate_right :: "'e theap \<Rightarrow> addr \<Rightarrow> (addr \<times> 'e theap) option" where
  "rotate_right h n = do {
     x \<leftarrow> h n;
     let l = tn_left x;
     y \<leftarrow> h l;
     h \<leftarrow> set_left h n (tn_right y);
     h \<leftarrow> set_right h l n;
     h \<leftarrow> update_height h n;
     h \<leftarrow> update_height h l;
     Some (l, h) }"

definition rebalance :: "'e theap \<Rightarrow> addr \<Rightarrow> (addr \<times> 'e theap) option" where
  "rebalance h n =
     (if n = NULL then Some (n, h)
      else do {
        h \<leftarrow> update_height h n;
        bf \<leftarrow> balance_factor h n;
        x \<leftarrow> h n;
        lbf \<leftarrow> (if bf > 1 then balance_factor h (tn_left x) else Some 0);
        rbf \<leftarrow> (if bf < - 1 then balance_factor h (tn_right x) else Some 0);
        if bf > 1 \<and> lbf \<ge> 0 then rotate_right h n
        else if bf < - 1 \<and> rbf \<le> 0 then rotate_left h n
        else if bf > 1 \<and> lbf < 0 then do {
          (l, h) \<leftarrow> rotate_left h (tn_left x);
          h \<leftarrow> set_left h n l;
          rotate_right h n }
        else if bf < - 1 \<and> rbf > 0 then do {
          (r, h) \<leftarrow> rotate_right h (tn_right x);
          h \<leftarrow> set_right h n r;
          rotate_left h n }
        else Some (n, h) })"

section \<open>Insertion and deletion\<close>

text \<open>The second component is the \<open>insert_result_t\<close>: the iterator and whether a node was made.\<close>

partial_function (option) insert_node ::
    "('e \<Rightarrow> 'k::linorder) \<Rightarrow> ('e theap \<Rightarrow> addr) \<Rightarrow> 'e theap \<Rightarrow> addr \<Rightarrow> 'e \<Rightarrow> (addr \<times> (addr \<times> bool) \<times> 'e theap) option" where
  "insert_node key new h n e =
     (if n = NULL then (let nw = new h in
        if nw = NULL then None else Some (nw, (nw, True), h(nw \<mapsto> new_tnode e)))
      else do {
        x \<leftarrow> h n;
        (r, h) \<leftarrow>
          (if key e < key (tn_element x) then do {
             (l, r, h) \<leftarrow> insert_node key new h (tn_left x) e;
             h \<leftarrow> set_left h n l;
             Some (r, h) }
           else if key (tn_element x) < key e then do {
             (rt, r, h) \<leftarrow> insert_node key new h (tn_right x) e;
             h \<leftarrow> set_right h n rt;
             Some (r, h) }
           else Some ((n, False), h));
        if \<not> snd r then Some (n, r, h)
        else do { (n, h) \<leftarrow> rebalance h n; Some (n, r, h) } })"

definition delete_node :: "'e theap \<Rightarrow> addr \<Rightarrow> 'e theap option" where
  "delete_node h n = (if h n = None then None else Some (h(n := None)))"

partial_function (option) erase_node ::
    "('e \<Rightarrow> 'k::linorder) \<Rightarrow> 'e theap \<Rightarrow> addr \<Rightarrow> 'k \<Rightarrow> (addr \<times> bool \<times> 'e theap) option" where
  "erase_node key h n k =
     (if n = NULL then Some (n, False, h)
      else do {
        x \<leftarrow> h n;
        if k < key (tn_element x) then do {
          (l, deleted, h) \<leftarrow> erase_node key h (tn_left x) k;
          h \<leftarrow> set_left h n l;
          if \<not> deleted then Some (n, deleted, h) else do { (n, h) \<leftarrow> rebalance h n; Some (n, deleted, h) } }
        else if key (tn_element x) < k then do {
          (r, deleted, h) \<leftarrow> erase_node key h (tn_right x) k;
          h \<leftarrow> set_right h n r;
          if \<not> deleted then Some (n, deleted, h) else do { (n, h) \<leftarrow> rebalance h n; Some (n, deleted, h) } }
        else if tn_left x = NULL \<or> tn_right x = NULL then do {
          let c = (if tn_left x \<noteq> NULL then tn_left x else tn_right x);
          h \<leftarrow> delete_node h n;
          Some (c, True, h) }
        else do {
          s \<leftarrow> successor h n;
          y \<leftarrow> h s;
          if s = tn_right x then do {
            h \<leftarrow> set_left h s (tn_left x);
            h \<leftarrow> delete_node h n;
            (n, h) \<leftarrow> rebalance h s;
            Some (n, True, h) }
          else do {
            h \<leftarrow> set_left h s (tn_left x);
            h \<leftarrow> set_right h s (tn_right x);
            z \<leftarrow> h s;
            h \<leftarrow> set_left h (tn_parent z) n;
            h \<leftarrow> set_left h n (tn_left y);
            h \<leftarrow> set_right h n (tn_right y);
            w \<leftarrow> h s;
            m \<leftarrow> h n;
            (r, deleted, h) \<leftarrow> erase_node key h (tn_right w) (key (tn_element m));
            h \<leftarrow> set_right h s r;
            if \<not> deleted then Some (s, deleted, h)
            else do { (n, h) \<leftarrow> rebalance h s; Some (n, deleted, h) } } } })"

partial_function (option) clear_nodes :: "'e theap \<Rightarrow> addr \<Rightarrow> 'e theap option" where
  "clear_nodes h n =
     (if n = NULL then Some h
      else do {
        x \<leftarrow> h n;
        h \<leftarrow> clear_nodes h (tn_left x);
        x \<leftarrow> h n;
        h \<leftarrow> clear_nodes h (tn_right x);
        delete_node h n })"

section \<open>The tree object\<close>

record tree =
  tr_root :: addr
  tr_size :: int

definition empty_tree :: tree where
  "empty_tree = \<lparr>tr_root = NULL, tr_size = 0\<rparr>"

definition detach_root :: "'e theap \<Rightarrow> addr \<Rightarrow> 'e theap option" where
  "detach_root h root = (if root \<noteq> NULL then set_parent h root NULL else Some h)"

definition tree_insert ::
    "('e \<Rightarrow> 'k::linorder) \<Rightarrow> ('e theap \<Rightarrow> addr) \<Rightarrow> 'e \<Rightarrow> tree \<times> 'e theap \<Rightarrow> ((addr \<times> bool) \<times> tree \<times> 'e theap) option" where
  "tree_insert key new e s = do {
     let (t, h) = s;
     (root, r, h) \<leftarrow> insert_node key new h (tr_root t) e;
     h \<leftarrow> detach_root h root;
     Some (r, \<lparr>tr_root = root, tr_size = (if snd r then tr_size t + 1 else tr_size t)\<rparr>, h) }"

definition tree_erase ::
    "('e \<Rightarrow> 'k::linorder) \<Rightarrow> 'k \<Rightarrow> tree \<times> 'e theap \<Rightarrow> (bool \<times> tree \<times> 'e theap) option" where
  "tree_erase key k s = do {
     let (t, h) = s;
     (root, deleted, h) \<leftarrow> erase_node key h (tr_root t) k;
     h \<leftarrow> detach_root h root;
     Some (deleted, \<lparr>tr_root = root, tr_size = (if deleted then tr_size t - 1 else tr_size t)\<rparr>, h) }"

definition tree_erase_at ::
    "('e \<Rightarrow> 'k::linorder) \<Rightarrow> addr \<Rightarrow> tree \<times> 'e theap \<Rightarrow> (tree_error + bool \<times> tree \<times> 'e theap) option" where
  "tree_erase_at key i s = do {
     v \<leftarrow> iter_value (snd s) i;
     case v of Inl e \<Rightarrow> Some (Inl e) | Inr v \<Rightarrow> map_option Inr (tree_erase key (key v) s) }"

definition tree_find :: "('e \<Rightarrow> 'k::linorder) \<Rightarrow> 'k \<Rightarrow> tree \<times> 'e theap \<Rightarrow> addr option" where
  "tree_find key k s = find_node key (snd s) (tr_root (fst s)) k"

definition tree_exists :: "('e \<Rightarrow> 'k::linorder) \<Rightarrow> 'k \<Rightarrow> tree \<times> 'e theap \<Rightarrow> bool option" where
  "tree_exists key k s = do { n \<leftarrow> find_node key (snd s) (tr_root (fst s)) k; Some (n \<noteq> NULL) }"

definition tree_clear :: "tree \<times> 'e theap \<Rightarrow> (tree \<times> 'e theap) option" where
  "tree_clear s = do {
     let (t, h) = s;
     h \<leftarrow> clear_nodes h (tr_root t);
     Some (\<lparr>tr_root = NULL, tr_size = 0\<rparr>, h) }"

text \<open>
  The copy assignment; \<open>i\<close> walks the other tree in the same heap, \<open>same\<close> says that an object is assigned to itself.
\<close>

partial_function (option) tree_copy_from ::
    "('e \<Rightarrow> 'k::linorder) \<Rightarrow> ('e theap \<Rightarrow> addr) \<Rightarrow> addr \<Rightarrow> tree \<times> 'e theap \<Rightarrow> (tree_error + tree \<times> 'e theap) option" where
  "tree_copy_from key new i s =
     (if i = NULL then Some (Inr s)
      else do {
        v \<leftarrow> iter_value (snd s) i;
        case v of Inl e \<Rightarrow> Some (Inl e)
        | Inr v \<Rightarrow> do {
            (r, s) \<leftarrow> tree_insert key new v s;
            j \<leftarrow> pre_inc (snd s) i;
            case j of Inl e \<Rightarrow> Some (Inl e) | Inr j \<Rightarrow> tree_copy_from key new j s } })"

definition tree_assign ::
    "('e \<Rightarrow> 'k::linorder) \<Rightarrow> ('e theap \<Rightarrow> addr) \<Rightarrow> bool \<Rightarrow> tree \<Rightarrow> tree \<times> 'e theap \<Rightarrow>
     (tree_error + tree \<times> 'e theap) option" where
  "tree_assign key new same other s =
     (if \<not> same then do {
        s \<leftarrow> tree_clear s;
        i \<leftarrow> first_node (snd s) (tr_root other);
        tree_copy_from key new i s }
      else Some (Inr s))"

text \<open>The move constructor leaves the other tree as it was.\<close>

definition tree_move :: "tree \<Rightarrow> tree \<times> tree" where
  "tree_move other = (\<lparr>tr_root = tr_root other, tr_size = tr_size other\<rparr>, other)"

partial_function (option) verify_from :: "'e theap \<Rightarrow> addr \<Rightarrow> (tree_error + bool) option" where
  "verify_from h i =
     (if i = NULL then Some (Inr True)
      else do {
        bf \<leftarrow> balance_factor h i;
        x \<leftarrow> h i;
        a \<leftarrow> node_height h (tn_left x);
        b \<leftarrow> node_height h (tn_right x);
        if bf \<noteq> a - b then Some (Inr False)
        else do {
          j \<leftarrow> pre_inc h i;
          case j of Inl e \<Rightarrow> Some (Inl e) | Inr j \<Rightarrow> verify_from h j } })"

definition verify_balance_factor :: "tree \<times> 'e theap \<Rightarrow> (tree_error + bool) option" where
  "verify_balance_factor s = do { i \<leftarrow> first_node (snd s) (tr_root (fst s)); verify_from (snd s) i }"

text \<open>\<open>operator[]\<close> of a map inserts the default value under a new key and returns the element's node.\<close>

definition map_at ::
    "('k::linorder \<times> 'v \<Rightarrow> 'k) \<Rightarrow> (('k \<times> 'v) theap \<Rightarrow> addr) \<Rightarrow> 'v \<Rightarrow> 'k \<Rightarrow> tree \<times> ('k \<times> 'v) theap \<Rightarrow>
     (addr \<times> tree \<times> ('k \<times> 'v) theap) option" where
  "map_at key new dflt k s = do { (r, s) \<leftarrow> tree_insert key new (k, dflt) s; Some (fst r, s) }"

end
