(* ===== verification/Tree_Spec.thy ===== *)
theory Tree_Spec
  imports Tree_Code
begin

text \<open>
  The trees that a heap of \<open>_tree\<close> nodes represents, with the functions of \<open>Tree_Code\<close> as functions on them,
  and what those functions do: they keep a balanced search tree one, and act on its sequence of elements as
  insertion and removal act on a sorted list.
\<close>

section \<open>Trees of addresses\<close>

datatype 'e gtree = Tip | Nd (nd_addr: addr) (nd_height: int) (nd_elem: 'e) (nd_left: "'e gtree") (nd_right: "'e gtree")

primrec root_of :: "'e gtree \<Rightarrow> addr" where
  "root_of Tip = NULL"
| "root_of (Nd a _ _ _ _) = a"

text \<open>The nodes in order, each with its address; the order of the keys is on the elements.\<close>

primrec cells :: "'e gtree \<Rightarrow> (addr \<times> 'e) list" where
  "cells Tip = []"
| "cells (Nd a _ e l r) = cells l @ (a, e) # cells r"

abbreviation elems :: "'e gtree \<Rightarrow> 'e list" where
  "elems t \<equiv> map snd (cells t)"

abbreviation addrs :: "'e gtree \<Rightarrow> addr list" where
  "addrs t \<equiv> map fst (cells t)"

text \<open>The height stored in the root, the real one, and when every stored height is right.\<close>

primrec ht :: "'e gtree \<Rightarrow> int" where
  "ht Tip = 0"
| "ht (Nd _ n _ _ _) = n"

primrec real_height :: "'e gtree \<Rightarrow> nat" where
  "real_height Tip = 0"
| "real_height (Nd _ _ _ l r) = Suc (max (real_height l) (real_height r))"

definition mk :: "addr \<Rightarrow> 'e \<Rightarrow> 'e gtree \<Rightarrow> 'e gtree \<Rightarrow> 'e gtree" where
  "mk a e l r = Nd a (max (ht l) (ht r) + 1) e l r"

primrec avl :: "'e gtree \<Rightarrow> bool" where
  "avl Tip = True"
| "avl (Nd _ n _ l r) = (n = max (ht l) (ht r) + 1 \<and> \<bar>ht l - ht r\<bar> \<le> 1 \<and> avl l \<and> avl r)"

lemma avl_ht: "avl t \<Longrightarrow> 0 \<le> ht t \<and> (ht t = 0 \<longleftrightarrow> t = Tip)"
  by (induction t) auto

lemma avl_real_height: "avl t \<Longrightarrow> ht t = int (real_height t)"
  by (induction t) auto

text \<open>A tree of height \<open>2 k\<close> has at least \<open>2 ^ k - 1\<close> elements: lookups take logarithmic time.\<close>

lemma avl_size: "avl t \<Longrightarrow> 2 ^ (real_height t div 2) \<le> length (cells t) + 1"
proof (induction t)
  case (Nd a n e l r)
  then have bal: "\<bar>int (real_height l) - int (real_height r)\<bar> \<le> 1"
    using avl_real_height [of l] avl_real_height [of r] by auto
  define m where "m = max (real_height l) (real_height r)"
  have "m - 1 \<le> real_height l" "m - 1 \<le> real_height r" using bal by (auto simp: m_def)
  then have le: "(2::nat) ^ ((m - 1) div 2) \<le> 2 ^ (real_height l div 2)" "(2::nat) ^ ((m - 1) div 2) \<le> 2 ^ (real_height r div 2)"
    by (auto intro!: power_increasing div_le_mono)
  show ?case
  proof (cases "m = 0")
    case False
    then have "Suc m div 2 = Suc ((m - 1) div 2)" by (cases m) auto
    moreover have "2 ^ ((m - 1) div 2) \<le> length (cells l) + 1"
      by (rule order_trans [OF le(1)]) (use Nd in simp)
    moreover have "2 ^ ((m - 1) div 2) \<le> length (cells r) + 1"
      by (rule order_trans [OF le(2)]) (use Nd in simp)
    ultimately show ?thesis by (simp add: m_def [symmetric])
  qed (simp add: m_def)
qed simp

section \<open>The functions on trees\<close>

fun g_rotate_left :: "'e gtree \<Rightarrow> 'e gtree" where
  "g_rotate_left (Nd a _ e l (Nd b _ f rl rr)) = mk b f (mk a e l rl) rr"
| "g_rotate_left t = t"

fun g_rotate_right :: "'e gtree \<Rightarrow> 'e gtree" where
  "g_rotate_right (Nd a _ e (Nd b _ f ll lr) r) = mk b f ll (mk a e lr r)"
| "g_rotate_right t = t"

primrec g_balance :: "'e gtree \<Rightarrow> int" where
  "g_balance Tip = 0"
| "g_balance (Nd _ _ _ l r) = ht l - ht r"

definition g_rebalance :: "addr \<Rightarrow> 'e \<Rightarrow> 'e gtree \<Rightarrow> 'e gtree \<Rightarrow> 'e gtree" where
  "g_rebalance a e l r =
     (let bf = ht l - ht r in
      if bf > 1 \<and> g_balance l \<ge> 0 then g_rotate_right (mk a e l r)
      else if bf < - 1 \<and> g_balance r \<le> 0 then g_rotate_left (mk a e l r)
      else if bf > 1 then g_rotate_right (mk a e (g_rotate_left l) r)
      else if bf < - 1 then g_rotate_left (mk a e l (g_rotate_right r))
      else mk a e l r)"

fun g_insert :: "('e \<Rightarrow> 'k::linorder) \<Rightarrow> addr \<Rightarrow> 'e \<Rightarrow> 'e gtree \<Rightarrow> 'e gtree" where
  "g_insert key nw e Tip = Nd nw 1 e Tip Tip"
| "g_insert key nw e (Nd a n f l r) =
     (if key e < key f then
        if key e \<in> key ` set (elems l) then Nd a n f l r else g_rebalance a f (g_insert key nw e l) r
      else if key f < key e then
        if key e \<in> key ` set (elems r) then Nd a n f l r else g_rebalance a f l (g_insert key nw e r)
      else Nd a n f l r)"

text \<open>The leftmost node, and the tree without it.\<close>

fun g_first :: "'e gtree \<Rightarrow> addr \<times> 'e" where
  "g_first Tip = undefined"
| "g_first (Nd a n e l r) = (if l = Tip then (a, e) else g_first l)"

fun g_del_first :: "'e gtree \<Rightarrow> 'e gtree" where
  "g_del_first Tip = Tip"
| "g_del_first (Nd a n e l r) = (if l = Tip then r else g_rebalance a e (g_del_first l) r)"

fun g_erase :: "('e \<Rightarrow> 'k::linorder) \<Rightarrow> 'k \<Rightarrow> 'e gtree \<Rightarrow> 'e gtree" where
  "g_erase key k Tip = Tip"
| "g_erase key k (Nd a n f l r) =
     (if k < key f then
        if k \<in> key ` set (elems l) then g_rebalance a f (g_erase key k l) r else Nd a n f l r
      else if key f < k then
        if k \<in> key ` set (elems r) then g_rebalance a f l (g_erase key k r) else Nd a n f l r
      else if l = Tip then r
      else if r = Tip then l
      else (let (s, e) = g_first r in g_rebalance s e l (g_del_first r)))"

section \<open>Elements\<close>

lemma mk_sel [simp]:
  "cells (mk a e l r) = cells l @ (a, e) # cells r" "root_of (mk a e l r) = a"
  "ht (mk a e l r) = max (ht l) (ht r) + 1" "mk a e l r \<noteq> Tip"
  by (simp_all add: mk_def)

lemma rotate_cells [simp]: "cells (g_rotate_left t) = cells t" "cells (g_rotate_right t) = cells t"
  using g_rotate_left.cases [of t "cells (g_rotate_left t) = cells t"]
    g_rotate_right.cases [of t "cells (g_rotate_right t) = cells t"]
  by auto

lemma rebalance_cells [simp]: "cells (g_rebalance a e l r) = cells l @ (a, e) # cells r"
  by (simp add: g_rebalance_def Let_def)

lemma del_first_cells: "t \<noteq> Tip \<Longrightarrow> cells t = g_first t # cells (g_del_first t)"
  by (induction t) auto

lemma cells_Tip [simp]: "cells t = [] \<longleftrightarrow> t = Tip"
  by (cases t) auto

lemma root_in_addrs: "t \<noteq> Tip \<Longrightarrow> root_of t \<in> set (addrs t)"
  by (cases t) auto

section \<open>Balance\<close>

text \<open>The heights a rebalanced node can have when a subtree is off by two.\<close>

lemma avl_rebalance:
  assumes "avl l" "avl r" "\<bar>ht l - ht r\<bar> \<le> 2"
  shows "avl (g_rebalance a e l r) \<and>
    (ht (g_rebalance a e l r) = max (ht l) (ht r) + 1 \<or>
     \<bar>ht l - ht r\<bar> = 2 \<and> ht (g_rebalance a e l r) = max (ht l) (ht r))"
proof -
  consider "ht l = ht r + 2" | "ht r = ht l + 2" | "\<bar>ht l - ht r\<bar> \<le> 1" using assms(3) by linarith
  then show ?thesis
  proof cases
    case 1
    then obtain b n f ll lr where l: "l = Nd b n f ll lr" using assms avl_ht [of r] by (cases l) auto
    show ?thesis
    proof (cases "ht lr \<le> ht ll")
      case True
      then show ?thesis using assms 1 l by (auto simp: g_rebalance_def mk_def)
    next
      case False
      then obtain c m g x y where "lr = Nd c m g x y" using assms avl_ht [of ll] l by (cases lr) auto
      then show ?thesis using assms 1 l False by (auto simp: g_rebalance_def mk_def)
    qed
  next
    case 2
    then obtain b n f rl rr where r: "r = Nd b n f rl rr" using assms avl_ht [of l] by (cases r) auto
    show ?thesis
    proof (cases "ht rl \<le> ht rr")
      case True
      then show ?thesis using assms 2 r by (auto simp: g_rebalance_def mk_def)
    next
      case False
      then obtain c m g x y where "rl = Nd c m g x y" using assms avl_ht [of rr] r by (cases rl) auto
      then show ?thesis using assms 2 r False by (auto simp: g_rebalance_def mk_def)
    qed
  next
    case 3
    then have "g_rebalance a e l r = mk a e l r" by (auto simp: g_rebalance_def Let_def)
    then show ?thesis using assms 3 by (simp add: mk_def)
  qed
qed

text \<open>One subtree has got higher, or lower, by at most one.\<close>

lemma avl_rebalance_taller:
  assumes "avl l" "avl r" "\<bar>hl - hr\<bar> \<le> 1" "ht l = hl \<and> (ht r = hr \<or> ht r = hr + 1) \<or> ht r = hr \<and> (ht l = hl \<or> ht l = hl + 1)"
    and "n = max hl hr + 1"
  shows "avl (g_rebalance a e l r) \<and>
    (ht (g_rebalance a e l r) = n \<or> ht (g_rebalance a e l r) = n + 1)"
proof -
  have "\<bar>ht l - ht r\<bar> \<le> 2" using assms(3,4) by linarith
  from avl_rebalance [OF assms(1,2) this, of a e] show ?thesis using assms(3,4,5) by linarith
qed

lemma avl_rebalance_shorter:
  assumes "avl l" "avl r" "\<bar>hl - hr\<bar> \<le> 1" "ht l = hl \<and> (ht r = hr \<or> ht r = hr - 1) \<or> ht r = hr \<and> (ht l = hl \<or> ht l = hl - 1)"
  shows "avl (g_rebalance a e l r) \<and>
    (ht (g_rebalance a e l r) = max hl hr + 1 \<or> ht (g_rebalance a e l r) = max hl hr)"
proof -
  have "\<bar>ht l - ht r\<bar> \<le> 2" using assms(3,4) by linarith
  from avl_rebalance [OF assms(1,2) this, of a e] show ?thesis using assms(3,4) by linarith
qed

lemma avl_g_insert:
  "avl t \<Longrightarrow> avl (g_insert key nw e t) \<and> (ht (g_insert key nw e t) = ht t \<or> ht (g_insert key nw e t) = ht t + 1)"
proof (induction t)
  case (Nd a n f l r)
  then have l: "avl (g_insert key nw e l)" "ht (g_insert key nw e l) = ht l \<or> ht (g_insert key nw e l) = ht l + 1"
    and r: "avl (g_insert key nw e r)" "ht (g_insert key nw e r) = ht r \<or> ht (g_insert key nw e r) = ht r + 1"
    and bal: "avl l" "avl r" "\<bar>ht l - ht r\<bar> \<le> 1" "n = max (ht l) (ht r) + 1"
    by simp_all
  have "avl (g_rebalance a f (g_insert key nw e l) r) \<and>
    (ht (g_rebalance a f (g_insert key nw e l) r) = n \<or> ht (g_rebalance a f (g_insert key nw e l) r) = n + 1)"
    using avl_rebalance_taller [OF l(1) bal(2,3) _ bal(4), of a f] l(2) by blast
  moreover have "avl (g_rebalance a f l (g_insert key nw e r)) \<and>
    (ht (g_rebalance a f l (g_insert key nw e r)) = n \<or> ht (g_rebalance a f l (g_insert key nw e r)) = n + 1)"
    using avl_rebalance_taller [OF bal(1) r(1) bal(3) _ bal(4), of a f] r(2) by blast
  ultimately show ?case using Nd.prems by auto
qed simp

lemma avl_g_del_first:
  "avl t \<Longrightarrow> t \<noteq> Tip \<Longrightarrow> avl (g_del_first t) \<and> (ht (g_del_first t) = ht t \<or> ht (g_del_first t) = ht t - 1)"
proof (induction t)
  case (Nd a n f l r)
  then have bal: "avl l" "avl r" "\<bar>ht l - ht r\<bar> \<le> 1" "n = max (ht l) (ht r) + 1" by simp_all
  show ?case
  proof (cases "l = Tip")
    case True
    then show ?thesis using bal avl_ht [OF bal(2)] by simp
  next
    case False
    with Nd have l: "avl (g_del_first l)" "ht (g_del_first l) = ht l \<or> ht (g_del_first l) = ht l - 1"
      by simp_all
    show ?thesis using False avl_rebalance_shorter [OF l(1) bal(2,3), of a f] l(2) bal(4) by simp
  qed
qed simp

lemma avl_g_erase:
  "avl t \<Longrightarrow> avl (g_erase key k t) \<and> (ht (g_erase key k t) = ht t \<or> ht (g_erase key k t) = ht t - 1)"
proof (induction t)
  case (Nd a n f l r)
  then have l: "avl (g_erase key k l)" "ht (g_erase key k l) = ht l \<or> ht (g_erase key k l) = ht l - 1"
    and r: "avl (g_erase key k r)" "ht (g_erase key k r) = ht r \<or> ht (g_erase key k r) = ht r - 1"
    and bal: "avl l" "avl r" "\<bar>ht l - ht r\<bar> \<le> 1" "n = max (ht l) (ht r) + 1"
    by simp_all
  consider "k < key f" | "key f < k" | "k = key f" "l = Tip \<or> r = Tip" | "k = key f" "l \<noteq> Tip" "r \<noteq> Tip"
    by fastforce
  then show ?case
  proof cases
    case 1
    then show ?thesis using avl_rebalance_shorter [OF l(1) bal(2,3), of a f] l(2) bal(4) Nd.prems by simp
  next
    case 2
    then show ?thesis using avl_rebalance_shorter [OF bal(1) r(1) bal(3), of a f] r(2) bal(4) Nd.prems less_imp_not_less [OF 2] by simp
  next
    case 3
    then show ?thesis using bal avl_ht [OF bal(1)] avl_ht [OF bal(2)] by auto
  next
    case 4
    obtain s e where "g_first r = (s, e)" by fastforce
    then show ?thesis
      using 4 bal(4) avl_g_del_first [OF bal(2) 4(3)] avl_rebalance_shorter [OF bal(1) _ bal(3), of "g_del_first r" s e]
      by simp
  qed
qed simp

section \<open>Search trees\<close>

definition sorted_keys :: "('e \<Rightarrow> 'k::linorder) \<Rightarrow> 'e list \<Rightarrow> bool" where
  "sorted_keys key es \<longleftrightarrow> sorted_wrt (<) (map key es)"

lemma sorted_keys_simps [simp]:
  "sorted_keys key []"
  "sorted_keys key (e # es) \<longleftrightarrow> (\<forall>x\<in>set es. key e < key x) \<and> sorted_keys key es"
  "sorted_keys key (es @ fs) \<longleftrightarrow> sorted_keys key es \<and> sorted_keys key fs \<and> (\<forall>x\<in>set es. \<forall>y\<in>set fs. key x < key y)"
  by (simp_all add: sorted_keys_def sorted_wrt_append)

text \<open>Insertion into and removal from a sorted list.\<close>

definition add_key :: "('e \<Rightarrow> 'k::linorder) \<Rightarrow> 'e \<Rightarrow> 'e list \<Rightarrow> 'e list" where
  "add_key key e es =
     (if key e \<in> key ` set es then es
      else filter (\<lambda>x. key x < key e) es @ e # filter (\<lambda>x. key e < key x) es)"

definition del_key :: "('e \<Rightarrow> 'k::linorder) \<Rightarrow> 'k \<Rightarrow> 'e list \<Rightarrow> 'e list" where
  "del_key key k es = filter (\<lambda>x. key x \<noteq> k) es"

lemma filter_all: "(\<And>x. x \<in> set xs \<Longrightarrow> P x) \<Longrightarrow> filter P xs = xs"
  by (simp add: filter_id_conv)

lemma filter_none: "(\<And>x. x \<in> set xs \<Longrightarrow> \<not> P x) \<Longrightarrow> filter P xs = []"
  by simp

lemma cells_g_insert:
  "sorted_keys (key \<circ> snd) (cells t) \<Longrightarrow> cells (g_insert key nw e t) = add_key (key \<circ> snd) (nw, e) (cells t)"
proof (induction t)
  case (Nd a n f l r)
  consider "key e < key f" | "key f < key e" | "key e = key f" by fastforce
  then show ?case
  proof cases
    case 1
    with Nd.prems have lt: "\<forall>x\<in>set (cells r). key e < key (snd x)" by fastforce
    then have "filter (\<lambda>x. key (snd x) < key e) (cells r) = []"
      "filter (\<lambda>x. key e < key (snd x)) (cells r) = cells r" "key e \<notin> key ` set (elems r)"
      by (auto intro!: filter_all simp: not_less less_imp_le)
    then show ?thesis using 1 Nd by (auto simp: add_key_def image_iff)
  next
    case 2
    with Nd.prems have lt: "\<forall>x\<in>set (cells l). key (snd x) < key e" by fastforce
    then have "filter (\<lambda>x. key e < key (snd x)) (cells l) = []"
      "filter (\<lambda>x. key (snd x) < key e) (cells l) = cells l" "key e \<notin> key ` set (elems l)"
      by (auto intro!: filter_all simp: not_less less_imp_le)
    then show ?thesis using 2 Nd by (auto simp: add_key_def image_iff)
  next
    case 3
    then show ?thesis by (simp add: add_key_def)
  qed
qed (simp add: add_key_def)

lemma cells_g_erase:
  "sorted_keys (key \<circ> snd) (cells t) \<Longrightarrow> cells (g_erase key k t) = del_key (key \<circ> snd) k (cells t)"
proof (induction t)
  case (Nd a n f l r)
  consider "k < key f" | "key f < k" | "k = key f" by fastforce
  then show ?case
  proof cases
    case 1
    with Nd.prems have "\<forall>x\<in>set (cells r). k < key (snd x)" by fastforce
    then have "filter (\<lambda>x. key (snd x) \<noteq> k) (cells r) = cells r" by (auto intro!: filter_all)
    moreover have "k \<notin> key ` set (elems l) \<Longrightarrow> filter (\<lambda>x. key (snd x) \<noteq> k) (cells l) = cells l"
      by (auto intro!: filter_all)
    ultimately show ?thesis using 1 Nd by (auto simp: del_key_def)
  next
    case 2
    with Nd.prems have "\<forall>x\<in>set (cells l). key (snd x) < k" by fastforce
    then have "filter (\<lambda>x. key (snd x) \<noteq> k) (cells l) = cells l" by (auto intro!: filter_all)
    moreover have "k \<notin> key ` set (elems r) \<Longrightarrow> filter (\<lambda>x. key (snd x) \<noteq> k) (cells r) = cells r"
      by (auto intro!: filter_all)
    ultimately show ?thesis using 2 Nd by (auto simp: del_key_def)
  next
    case 3
    with Nd.prems have "filter (\<lambda>x. key (snd x) \<noteq> k) (cells l) = cells l" "filter (\<lambda>x. key (snd x) \<noteq> k) (cells r) = cells r"
      by (auto intro!: filter_all)
    then show ?thesis using 3 del_first_cells [of r] by (auto simp: del_key_def split: prod.splits)
  qed
qed (simp add: del_key_def)

text \<open>The addresses do not matter to the order.\<close>

lemma sorted_keys_snd: "sorted_keys (key \<circ> snd) cs = sorted_keys key (map snd cs)"
  by (simp add: sorted_keys_def)

lemma map_snd_add_key: "map snd (add_key (key \<circ> snd) c cs) = add_key key (snd c) (map snd cs)"
  by (simp add: add_key_def filter_map comp_def image_image)

lemma map_snd_del_key: "map snd (del_key (key \<circ> snd) k cs) = del_key key k (map snd cs)"
  by (simp add: del_key_def filter_map comp_def)

lemma sorted_add_key: "sorted_keys key es \<Longrightarrow> sorted_keys key (add_key key e es)"
  by (auto simp: add_key_def sorted_keys_def sorted_wrt_append sorted_wrt_map intro: sorted_wrt_filter)

lemma sorted_del_key: "sorted_keys key es \<Longrightarrow> sorted_keys key (del_key key k es)"
  by (auto simp: del_key_def sorted_keys_def sorted_wrt_map intro: sorted_wrt_filter)

lemma length_del_key:
  "sorted_keys key es \<Longrightarrow> length (del_key key k es) = (if k \<in> key ` set es then length es - 1 else length es)"
proof (induction es)
  case (Cons e es)
  then show ?case
  proof (cases "key e = k")
    case True
    with Cons.prems have "filter (\<lambda>x. key x \<noteq> k) es = es" by (auto intro!: filter_all)
    then show ?thesis using True by (simp add: del_key_def)
  next
    case False
    then show ?thesis using Cons by (cases es) (auto simp: del_key_def)
  qed
qed (simp add: del_key_def)

lemma length_add_key:
  assumes "sorted_keys key es"
  shows "length (add_key key e es) = (if key e \<in> key ` set es then length es else Suc (length es))"
proof -
  have "length (filter (\<lambda>x. key x < key e) es) + length (filter (\<lambda>x. key e < key x) es) = length es"
    if "key e \<notin> key ` set es"
    using that by (induction es) (auto simp: not_less_iff_gr_or_eq image_iff)
  then show ?thesis by (simp add: add_key_def)
qed

lemma set_add_key:
  "sorted_keys key es \<Longrightarrow> key ` set (add_key key e es) = insert (key e) (key ` set es)"
  by (auto simp: add_key_def image_iff)

lemma set_del_key: "key ` set (del_key key k es) = key ` set es - {k}"
  by (auto simp: del_key_def)

end
