(* ===== verification/Tree_Heap.thy ===== *)
theory Tree_Heap
  imports Tree_Spec
begin

text \<open>
  Every function of \<open>Tree_Code\<close>, run on a heap that holds a tree, computes its counterpart of \<open>Tree_Spec\<close>
  on that tree and changes no other node of the heap. The predicate \<open>holds h p t\<close> ties the tree \<open>t\<close> to the heap
  with all its pointers, \<open>p\<close> being the parent pointer of its root. The recursive functions hand back a root whose
  parent pointer the caller still has to set, so their results hold a tree for some parent.
\<close>

section \<open>A tree in the heap\<close>

primrec holds :: "'e theap \<Rightarrow> addr \<Rightarrow> 'e gtree \<Rightarrow> bool" where
  "holds h p Tip = True"
| "holds h p (Nd a n e l r) =
     (a \<noteq> NULL \<and> holds h a l \<and> holds h a r \<and>
      h a = Some \<lparr>tn_element = e, tn_height = n, tn_parent = p, tn_left = root_of l, tn_right = root_of r\<rparr>)"

definition unchanged :: "addr set \<Rightarrow> 'e theap \<Rightarrow> 'e theap \<Rightarrow> bool" where
  "unchanged S h h' \<longleftrightarrow> (\<forall>b. b \<notin> S \<longrightarrow> h' b = h b)"

lemma unchangedD: "unchanged S h h' \<Longrightarrow> b \<notin> S \<Longrightarrow> h' b = h b"
  by (simp add: unchanged_def)

lemma unchanged_trans: "unchanged S h h1 \<Longrightarrow> unchanged T h1 h2 \<Longrightarrow> S \<subseteq> U \<Longrightarrow> T \<subseteq> U \<Longrightarrow> unchanged U h h2"
  by (auto simp: unchanged_def subset_iff) metis

lemma unchanged_refl [simp]: "unchanged S h h"
  by (simp add: unchanged_def)

lemma unchanged_mono: "unchanged S h h' \<Longrightarrow> S \<subseteq> T \<Longrightarrow> unchanged T h h'"
  by (auto simp: unchanged_def)

lemma holds_cong: "(\<And>b. b \<in> set (addrs t) \<Longrightarrow> h' b = h b) \<Longrightarrow> holds h' p t = holds h p t"
  by (induction t arbitrary: p) auto

lemma holds_unchanged: "unchanged S h h' \<Longrightarrow> S \<inter> set (addrs t) = {} \<Longrightarrow> holds h p t \<Longrightarrow> holds h' p t"
  by (subst holds_cong [where h = h]) (auto simp: unchanged_def disjoint_iff)

lemma holds_upd: "a \<notin> set (addrs t) \<Longrightarrow> holds (h(a := v)) p t = holds h p t"
  by (rule holds_cong) auto

lemma holds_dom: "holds h p t \<Longrightarrow> b \<in> set (addrs t) \<Longrightarrow> h b \<noteq> None \<and> b \<noteq> NULL"
proof (induction t arbitrary: p)
  case (Nd a n e l r)
  then show ?case by (cases "b = a") (fastforce simp del: not_None_eq)+
qed simp

lemma holds_root: "holds h p t \<Longrightarrow> root_of t = NULL \<longleftrightarrow> t = Tip"
  by (cases t) auto

lemma holds_node_height: "holds h p t \<Longrightarrow> node_height h (root_of t) = Some (ht t)"
  by (cases t) (auto simp: node_height_def)

lemma holds_cell: "holds h p t \<Longrightarrow> (a, e) \<in> set (cells t) \<Longrightarrow> \<exists>x. h a = Some x \<and> tn_element x = e"
  by (induction t arbitrary: p) auto

section \<open>Setting children\<close>

lemma set_parent_holds:
  assumes "holds h p t" "t \<noteq> Tip" "distinct (addrs t)"
  shows "\<exists>h'. set_parent h (root_of t) q = Some h' \<and> holds h' q t \<and> unchanged {root_of t} h h'"
  using assms by (cases t) (auto simp: set_parent_def holds_upd unchanged_def)

text \<open>\<open>linked h a S h'\<close>: \<open>h'\<close> has the node \<open>x\<close> at \<open>a\<close>, the tree \<open>t\<close> below \<open>a\<close>, and is otherwise \<open>h\<close>.\<close>

lemma set_left_holds:
  assumes "h a = Some x" "holds h q t" "distinct (addrs t)" "a \<notin> set (addrs t)"
  obtains h' where "set_left h a (root_of t) = Some h'" "holds h' a t" "h' a = Some (x\<lparr>tn_left := root_of t\<rparr>)"
    "unchanged (insert a (set (addrs t))) h h'"
proof (cases "t = Tip")
  case True
  then show ?thesis using assms that [of "h(a \<mapsto> x\<lparr>tn_left := NULL\<rparr>)"] by (simp add: set_left_def unchanged_def)
next
  case False
  let ?h = "h(a \<mapsto> x\<lparr>tn_left := root_of t\<rparr>)"
  have "holds ?h q t" using assms by (simp add: holds_upd)
  from set_parent_holds [OF this False assms(3), of a] obtain h' where
    h': "set_parent ?h (root_of t) a = Some h'" "holds h' a t" "unchanged {root_of t} ?h h'" by blast
  have "root_of t \<in> set (addrs t)" using root_in_addrs [OF False] .
  then have "root_of t \<noteq> a" using assms(4) by metis
  moreover have "root_of t \<noteq> NULL" using assms(2) False by (simp add: holds_root)
  moreover have "unchanged (insert a (set (addrs t))) h h'"
    unfolding unchanged_def
  proof (intro allI impI)
    fix c
    assume "c \<notin> insert a (set (addrs t))"
    then have "c \<noteq> a" "c \<notin> {root_of t}" using \<open>root_of t \<in> set (addrs t)\<close> by blast+
    then show "h' c = h c" using unchangedD [OF h'(3)] by simp
  qed
  ultimately show ?thesis
    using h' assms by (intro that [of h']) (auto simp: set_left_def unchanged_def)
qed

lemma set_right_holds:
  assumes "h a = Some x" "holds h q t" "distinct (addrs t)" "a \<notin> set (addrs t)"
  obtains h' where "set_right h a (root_of t) = Some h'" "holds h' a t" "h' a = Some (x\<lparr>tn_right := root_of t\<rparr>)"
    "unchanged (insert a (set (addrs t))) h h'"
proof (cases "t = Tip")
  case True
  then show ?thesis using assms that [of "h(a \<mapsto> x\<lparr>tn_right := NULL\<rparr>)"] by (simp add: set_right_def unchanged_def)
next
  case False
  let ?h = "h(a \<mapsto> x\<lparr>tn_right := root_of t\<rparr>)"
  have "holds ?h q t" using assms by (simp add: holds_upd)
  from set_parent_holds [OF this False assms(3), of a] obtain h' where
    h': "set_parent ?h (root_of t) a = Some h'" "holds h' a t" "unchanged {root_of t} ?h h'" by blast
  have "root_of t \<in> set (addrs t)" using root_in_addrs [OF False] .
  then have "root_of t \<noteq> a" using assms(4) by metis
  moreover have "root_of t \<noteq> NULL" using assms(2) False by (simp add: holds_root)
  moreover have "unchanged (insert a (set (addrs t))) h h'"
    unfolding unchanged_def
  proof (intro allI impI)
    fix c
    assume "c \<notin> insert a (set (addrs t))"
    then have "c \<noteq> a" "c \<notin> {root_of t}" using \<open>root_of t \<in> set (addrs t)\<close> by blast+
    then show "h' c = h c" using unchangedD [OF h'(3)] by simp
  qed
  ultimately show ?thesis
    using h' assms by (intro that [of h']) (auto simp: set_right_def unchanged_def)
qed

text \<open>The same, for a node whose other child is a tree that holds.\<close>

lemma set_left_node:
  assumes "h a = Some x" "a \<noteq> NULL" "holds h a r" "root_of r = tn_right x"
    "holds h q l" "distinct (addrs l @ a # addrs r)"
  obtains h' where "set_left h a (root_of l) = Some h'"
    "holds h' (tn_parent x) (Nd a (tn_height x) (tn_element x) l r)" "unchanged (insert a (set (addrs l))) h h'"
proof -
  obtain h' where h': "set_left h a (root_of l) = Some h'" "holds h' a l" "h' a = Some (x\<lparr>tn_left := root_of l\<rparr>)"
    "unchanged (insert a (set (addrs l))) h h'"
    by (rule set_left_holds [of h a x q l]) (use assms in auto)
  have "holds h' a r" by (rule holds_unchanged [OF h'(4)]) (use assms in auto)
  then show ?thesis using h' assms by (intro that [of h']) auto
qed

lemma set_right_node:
  assumes "h a = Some x" "a \<noteq> NULL" "holds h a l" "root_of l = tn_left x"
    "holds h q r" "distinct (addrs l @ a # addrs r)"
  obtains h' where "set_right h a (root_of r) = Some h'"
    "holds h' (tn_parent x) (Nd a (tn_height x) (tn_element x) l r)" "unchanged (insert a (set (addrs r))) h h'"
proof -
  obtain h' where h': "set_right h a (root_of r) = Some h'" "holds h' a r" "h' a = Some (x\<lparr>tn_right := root_of r\<rparr>)"
    "unchanged (insert a (set (addrs r))) h h'"
    by (rule set_right_holds [of h a x q r]) (use assms in auto)
  have "holds h' a l" by (rule holds_unchanged [OF h'(4)]) (use assms in auto)
  then show ?thesis using h' assms by (intro that [of h']) auto
qed

lemma update_height_holds:
  assumes "holds h p (Nd a n e l r)" "distinct (addrs (Nd a n e l r))"
  obtains h' where "update_height h a = Some h'" "holds h' p (mk a e l r)" "unchanged {a} h h'"
proof
  let ?x = "\<lparr>tn_element = e, tn_height = max (ht l) (ht r) + 1, tn_parent = p, tn_left = root_of l, tn_right = root_of r\<rparr>"
  show "update_height h a = Some (h(a \<mapsto> ?x))"
    using assms by (auto simp: update_height_def holds_node_height)
  show "holds (h(a \<mapsto> ?x)) p (mk a e l r)" using assms by (auto simp: mk_def holds_upd)
  show "unchanged {a} h (h(a \<mapsto> ?x))" by (simp add: unchanged_def)
qed

section \<open>Rotations and rebalancing\<close>

text \<open>The result of an operation on a node: the root and the heap hold the tree, the nodes outside are as before.\<close>

definition becomes :: "addr set \<Rightarrow> 'e theap \<Rightarrow> addr \<Rightarrow> 'e theap \<Rightarrow> 'e gtree \<Rightarrow> bool" where
  "becomes S h n h' t \<longleftrightarrow> n = root_of t \<and> (\<exists>p. holds h' p t) \<and> unchanged S h h'"

lemma rotate_left_holds:
  assumes "holds h p (Nd a n e l (Nd b m f rl rr))" "distinct (addrs (Nd a n e l (Nd b m f rl rr)))"
  obtains h' where "rotate_left h a = Some (b, h')"
    "becomes (set (addrs (Nd a n e l (Nd b m f rl rr)))) h b h' (mk b f (mk a e l rl) rr)"
proof -
  let ?S = "set (addrs (Nd a n e l (Nd b m f rl rr)))"
  let ?x = "\<lparr>tn_element = e, tn_height = n, tn_parent = p, tn_left = root_of l, tn_right = b\<rparr>"
  let ?y = "\<lparr>tn_element = f, tn_height = m, tn_parent = a, tn_left = root_of rl, tn_right = root_of rr\<rparr>"
  obtain h1 where h1: "set_right h a (root_of rl) = Some h1" "holds h1 p (Nd a n e l rl)"
    "unchanged (insert a (set (addrs rl))) h h1"
    by (rule set_right_node [of h a ?x l b rl]) (use assms in auto)
  have y: "h1 b = Some ?y" using unchangedD [OF h1(3), of b] assms by auto
  have rr: "holds h1 b rr" by (rule holds_unchanged [OF h1(3)]) (use assms in auto)
  obtain h2 where h2: "set_left h1 b (root_of (Nd a n e l rl)) = Some h2" "holds h2 a (Nd b m f (Nd a n e l rl) rr)"
    "unchanged (insert b (set (addrs (Nd a n e l rl)))) h1 h2"
    by (rule set_left_node [of h1 b ?y rr p "Nd a n e l rl"]) (use assms y rr h1(2) in auto)
  obtain h3 where h3: "update_height h2 a = Some h3" "holds h3 b (mk a e l rl)" "unchanged {a} h2 h3"
    by (rule update_height_holds [of h2 b a n e l rl]) (use h2(2) assms(2) in auto)
  have "holds h3 a (Nd b m f (mk a e l rl) rr)"
    using h3 h2(2) assms(2) by (auto intro!: holds_unchanged [OF h3(3)] simp: unchangedD [OF h3(3)])
  note m3 = this
  obtain h4 where h4: "update_height h3 b = Some h4" "holds h4 a (mk b f (mk a e l rl) rr)" "unchanged {b} h3 h4"
    by (rule update_height_holds [of h3 a b m f "mk a e l rl" rr]) (use m3 assms(2) in auto)
  have "unchanged ?S h h4"
    using h1(3) h2(3) h3(3) h4(3) by (auto simp: unchanged_def)
  moreover have "rotate_left h a = Some (b, h4)"
    using assms(1) h1(1) h2(1) h3(1) h4(1) by (simp add: rotate_left_def)
  ultimately show ?thesis using h4(2) by (intro that [of h4]) (auto simp: becomes_def)
qed

lemma rotate_right_holds:
  assumes "holds h p (Nd a n e (Nd b m f ll lr) r)" "distinct (addrs (Nd a n e (Nd b m f ll lr) r))"
  obtains h' where "rotate_right h a = Some (b, h')"
    "becomes (set (addrs (Nd a n e (Nd b m f ll lr) r))) h b h' (mk b f ll (mk a e lr r))"
proof -
  let ?S = "set (addrs (Nd a n e (Nd b m f ll lr) r))"
  let ?x = "\<lparr>tn_element = e, tn_height = n, tn_parent = p, tn_left = b, tn_right = root_of r\<rparr>"
  let ?y = "\<lparr>tn_element = f, tn_height = m, tn_parent = a, tn_left = root_of ll, tn_right = root_of lr\<rparr>"
  obtain h1 where h1: "set_left h a (root_of lr) = Some h1" "holds h1 p (Nd a n e lr r)"
    "unchanged (insert a (set (addrs lr))) h h1"
    by (rule set_left_node [of h a ?x r b lr]) (use assms in auto)
  have y: "h1 b = Some ?y" using unchangedD [OF h1(3), of b] assms by auto
  have ll: "holds h1 b ll" by (rule holds_unchanged [OF h1(3)]) (use assms in auto)
  obtain h2 where h2: "set_right h1 b (root_of (Nd a n e lr r)) = Some h2" "holds h2 a (Nd b m f ll (Nd a n e lr r))"
    "unchanged (insert b (set (addrs (Nd a n e lr r)))) h1 h2"
    by (rule set_right_node [of h1 b ?y ll p "Nd a n e lr r"]) (use assms y ll h1(2) in auto)
  obtain h3 where h3: "update_height h2 a = Some h3" "holds h3 b (mk a e lr r)" "unchanged {a} h2 h3"
    by (rule update_height_holds [of h2 b a n e lr r]) (use h2(2) assms(2) in auto)
  have "holds h3 a (Nd b m f ll (mk a e lr r))"
    using h3 h2(2) assms(2) by (auto intro!: holds_unchanged [OF h3(3)] simp: unchangedD [OF h3(3)])
  note m3 = this
  obtain h4 where h4: "update_height h3 b = Some h4" "holds h4 a (mk b f ll (mk a e lr r))" "unchanged {b} h3 h4"
    by (rule update_height_holds [of h3 a b m f ll "mk a e lr r"]) (use m3 assms(2) in auto)
  have "unchanged ?S h h4"
    using h1(3) h2(3) h3(3) h4(3) by (auto simp: unchanged_def)
  moreover have "rotate_right h a = Some (b, h4)"
    using assms(1) h1(1) h2(1) h3(1) h4(1) by (simp add: rotate_right_def)
  ultimately show ?thesis using h4(2) by (intro that [of h4]) (auto simp: becomes_def)
qed

lemma balance_factor_holds: "holds h p t \<Longrightarrow> t \<noteq> Tip \<Longrightarrow> balance_factor h (root_of t) = Some (g_balance t)"
  by (cases t) (auto simp: balance_factor_def holds_node_height)

lemma mk_conv: "mk a e l r = Nd a (max (ht l) (ht r) + 1) e l r"
  by (simp add: mk_def)

text \<open>The left-right case: rotate the left child, link it, rotate the node.\<close>

lemma rotate_left_right_holds:
  assumes h: "holds h p (Nd a n e (Nd b m f ll (Nd c k g x y)) r)"
    and d: "distinct (addrs (Nd a n e (Nd b m f ll (Nd c k g x y)) r))"
  obtains h1 h2 h3 where "rotate_left h b = Some (c, h1)" "set_left h1 a c = Some h2" "rotate_right h2 a = Some (c, h3)"
    "becomes (set (addrs (Nd a n e (Nd b m f ll (Nd c k g x y)) r))) h c h3 (mk c g (mk b f ll x) (mk a e y r))"
proof -
  obtain h1 where h1: "rotate_left h b = Some (c, h1)"
    "becomes (set (addrs (Nd b m f ll (Nd c k g x y)))) h c h1 (mk c g (mk b f ll x) y)"
    by (rule rotate_left_holds [of h a b m f ll c k g x y]) (use h d in auto)
  then obtain q where q: "holds h1 q (mk c g (mk b f ll x) y)"
    "unchanged (set (addrs (Nd b m f ll (Nd c k g x y)))) h h1"
    by (auto simp: becomes_def)
  have a: "h1 a = h a" using unchangedD [OF q(2), of a] d by auto
  have r: "holds h1 a r" by (rule holds_unchanged [OF q(2)]) (use h d in auto)
  obtain h2 where h2: "set_left h1 a (root_of (mk c g (mk b f ll x) y)) = Some h2"
    "holds h2 p (Nd a n e (mk c g (mk b f ll x) y) r)" "unchanged (insert a (set (addrs (mk c g (mk b f ll x) y)))) h1 h2"
    by (rule set_left_node [of h1 a _ r q "mk c g (mk b f ll x) y"]) (use h d a r q in auto)
  obtain h3 where h3: "rotate_right h2 a = Some (c, h3)"
    "becomes (set (addrs (Nd a n e (mk c g (mk b f ll x) y) r))) h2 c h3 (mk c g (mk b f ll x) (mk a e y r))"
    using h2(2) d unfolding mk_conv
    by - (rule rotate_right_holds [of h2 p a n e c _ g "mk b f ll x" y r, unfolded mk_conv], auto)
  have "unchanged (set (addrs (Nd a n e (Nd b m f ll (Nd c k g x y)) r))) h h3"
    using q(2) h2(3) h3(2) by (auto simp: becomes_def unchanged_def)
  then show ?thesis using h1(1) h2(1) h3 by (intro that [of h1 h2 h3]) (auto simp: becomes_def)
qed

lemma rotate_right_left_holds:
  assumes h: "holds h p (Nd a n e l (Nd b m f (Nd c k g x y) rr))"
    and d: "distinct (addrs (Nd a n e l (Nd b m f (Nd c k g x y) rr)))"
  obtains h1 h2 h3 where "rotate_right h b = Some (c, h1)" "set_right h1 a c = Some h2" "rotate_left h2 a = Some (c, h3)"
    "becomes (set (addrs (Nd a n e l (Nd b m f (Nd c k g x y) rr)))) h c h3 (mk c g (mk a e l x) (mk b f y rr))"
proof -
  obtain h1 where h1: "rotate_right h b = Some (c, h1)"
    "becomes (set (addrs (Nd b m f (Nd c k g x y) rr))) h c h1 (mk c g x (mk b f y rr))"
    by (rule rotate_right_holds [of h a b m f c k g x y rr]) (use h d in auto)
  then obtain q where q: "holds h1 q (mk c g x (mk b f y rr))"
    "unchanged (set (addrs (Nd b m f (Nd c k g x y) rr))) h h1"
    by (auto simp: becomes_def)
  have a: "h1 a = h a" using unchangedD [OF q(2), of a] d by auto
  have l: "holds h1 a l" by (rule holds_unchanged [OF q(2)]) (use h d in auto)
  obtain h2 where h2: "set_right h1 a (root_of (mk c g x (mk b f y rr))) = Some h2"
    "holds h2 p (Nd a n e l (mk c g x (mk b f y rr)))" "unchanged (insert a (set (addrs (mk c g x (mk b f y rr))))) h1 h2"
    by (rule set_right_node [of h1 a _ l q "mk c g x (mk b f y rr)"]) (use h d a l q in auto)
  obtain h3 where h3: "rotate_left h2 a = Some (c, h3)"
    "becomes (set (addrs (Nd a n e l (mk c g x (mk b f y rr))))) h2 c h3 (mk c g (mk a e l x) (mk b f y rr))"
    using h2(2) d unfolding mk_conv
    by - (rule rotate_left_holds [of h2 p a n e l c _ g x "mk b f y rr", unfolded mk_conv], auto)
  have "unchanged (set (addrs (Nd a n e l (Nd b m f (Nd c k g x y) rr)))) h h3"
    using q(2) h2(3) h3(2) by (auto simp: becomes_def unchanged_def)
  then show ?thesis using h1(1) h2(1) h3 by (intro that [of h1 h2 h3]) (auto simp: becomes_def)
qed

lemma becomes_unchanged: "unchanged T h h1 \<Longrightarrow> becomes S h1 n h2 t \<Longrightarrow> T \<subseteq> S \<Longrightarrow> becomes S h n h2 t"
  unfolding becomes_def using unchanged_trans [of T h h1 S h2 S] by blast

lemma rebalance_holds:
  assumes h: "holds h p (Nd a n e l r)" and d: "distinct (addrs (Nd a n e l r))" and bal: "avl l" "avl r"
  obtains c h' where "rebalance h a = Some (c, h')" "becomes (set (addrs (Nd a n e l r))) h c h' (g_rebalance a e l r)"
proof -
  define N where "N = max (ht l) (ht r) + 1"
  obtain h1 where h1: "update_height h a = Some h1" "holds h1 p (Nd a N e l r)" "unchanged {a} h h1"
    by (rule update_height_holds [OF h d]) (auto simp: mk_def N_def)
  have a: "a \<noteq> NULL" and x: "h1 a = Some \<lparr>tn_element = e, tn_height = N, tn_parent = p, tn_left = root_of l, tn_right = root_of r\<rparr>"
    and bf: "balance_factor h1 a = Some (ht l - ht r)"
    using h1(2) balance_factor_holds [OF h1(2)] by auto
  have hl: "holds h1 a l" and hr: "holds h1 a r" using h1(2) by auto
  note nonneg = avl_ht [OF bal(1)] avl_ht [OF bal(2)]
  define S where "S = set (addrs (Nd a n e l r))"
  have S: "set (addrs (Nd a N e l r)) = S" "a \<in> S" unfolding S_def by simp_all
  note fin = becomes_unchanged [OF h1(3), of S] and that = that [folded S_def]
  note unf = rebalance_def g_rebalance_def Let_def
  consider (LL) "ht l - ht r > 1" "g_balance l \<ge> 0" | (RR) "ht l - ht r < - 1" "g_balance r \<le> 0"
    | (LR) "ht l - ht r > 1" "g_balance l < 0" | (RL) "ht l - ht r < - 1" "g_balance r > 0"
    | (same) "\<bar>ht l - ht r\<bar> \<le> 1"
    by linarith
  then show ?thesis
  proof cases
    case LL
    then obtain b m f ll lr where l: "l = Nd b m f ll lr" using nonneg by (cases l) auto
    obtain h2 where h2: "rotate_right h1 a = Some (b, h2)"
      "becomes (set (addrs (Nd a N e l r))) h1 b h2 (mk b f ll (mk a e lr r))"
      by (rule rotate_right_holds [of h1 p a N e b m f ll lr r]) (use h1(2) d l in auto)
    then show ?thesis
      using LL h1(1) a x bf balance_factor_holds [OF hl] l fin [OF h2(2) [unfolded S]] S(2)
      by (intro that [of b h2]) (simp_all add: unf mk_def)
  next
    case RR
    then obtain b m f rl rr where r: "r = Nd b m f rl rr" using nonneg by (cases r) auto
    obtain h2 where h2: "rotate_left h1 a = Some (b, h2)"
      "becomes (set (addrs (Nd a N e l r))) h1 b h2 (mk b f (mk a e l rl) rr)"
      by (rule rotate_left_holds [of h1 p a N e l b m f rl rr]) (use h1(2) d r in auto)
    then show ?thesis
      using RR h1(1) a x bf balance_factor_holds [OF hr] r fin [OF h2(2) [unfolded S]] S(2)
      by (intro that [of b h2]) (simp_all add: unf mk_def)
  next
    case LR
    then obtain b m f ll lr where l: "l = Nd b m f ll lr" using nonneg by (cases l) auto
    then obtain c k g u v where lr: "lr = Nd c k g u v" using LR bal avl_ht [of ll] by (cases lr) auto
    obtain h2 h3 h4 where s: "rotate_left h1 b = Some (c, h2)" "set_left h2 a c = Some h3" "rotate_right h3 a = Some (c, h4)"
      "becomes (set (addrs (Nd a N e l r))) h1 c h4 (mk c g (mk b f ll u) (mk a e v r))"
      by (rule rotate_left_right_holds [of h1 p a N e b m f ll c k g u v r]) (use h1(2) d l lr in auto)
    then show ?thesis
      using LR h1(1) a x bf balance_factor_holds [OF hl] l lr fin [OF s(4) [unfolded S]] S(2)
      by (intro that [of c h4]) (simp_all add: unf mk_def)
  next
    case RL
    then obtain b m f rl rr where r: "r = Nd b m f rl rr" using nonneg by (cases r) auto
    then obtain c k g u v where rl: "rl = Nd c k g u v" using RL bal avl_ht [of rr] by (cases rl) auto
    obtain h2 h3 h4 where s: "rotate_right h1 b = Some (c, h2)" "set_right h2 a c = Some h3" "rotate_left h3 a = Some (c, h4)"
      "becomes (set (addrs (Nd a N e l r))) h1 c h4 (mk c g (mk a e l u) (mk b f v rr))"
      by (rule rotate_right_left_holds [of h1 p a N e l b m f c k g u v rr]) (use h1(2) d r rl in auto)
    then show ?thesis
      using RL h1(1) a x bf balance_factor_holds [OF hr] r rl fin [OF s(4) [unfolded S]] S(2)
      by (intro that [of c h4]) (simp_all add: unf mk_def)
  next
    case same
    have "becomes S h a h1 (mk a e l r)"
      using h1 S(2) unchanged_mono [OF h1(3), of S] by (auto simp: becomes_def mk_def N_def)
    then show ?thesis
      using same h1(1) a x bf by (intro that [of a h1]) (auto simp: unf)
  qed
qed

end
