(* ===== verification/Tree_Ops.thy ===== *)
theory Tree_Ops
  imports Tree_Heap
begin

text \<open>
  Insertion, deletion, search and iteration on the heap compute their counterparts on trees, and the tree object
  built from them is an ordered set of elements whose iterators stay valid.
\<close>

section \<open>Insertion\<close>

lemma new_not_in: "h nw = None \<Longrightarrow> holds h p t \<Longrightarrow> nw \<notin> set (addrs t)"
  using holds_dom [of h p t nw] by auto

lemma sorted_node:
  assumes "sorted_keys (key \<circ> snd) (cells (Nd a n f l r))"
  shows "sorted_keys (key \<circ> snd) (cells l)" "sorted_keys (key \<circ> snd) (cells r)"
    "\<And>c. c \<in> set (cells l) \<Longrightarrow> key (snd c) < key f" "\<And>c. c \<in> set (cells r) \<Longrightarrow> key f < key (snd c)"
  using assms by auto

text \<open>The iterator an insertion returns is at the element with the key.\<close>

definition at_key :: "('e \<Rightarrow> 'k) \<Rightarrow> 'e gtree \<Rightarrow> addr \<Rightarrow> 'k \<Rightarrow> bool" where
  "at_key key t i k \<longleftrightarrow> (\<exists>e. (i, e) \<in> set (cells t) \<and> key e = k)"

lemma distinct_g_insert:
  assumes "sorted_keys (key \<circ> snd) (cells t)" "distinct (addrs t)" "nw \<notin> set (addrs t)"
  shows "distinct (addrs (g_insert key nw e t))" "set (addrs (g_insert key nw e t)) \<subseteq> insert nw (set (addrs t))"
proof -
  have "distinct (map fst (filter P (cells t)))" for P
    using assms(2) by (simp add: distinct_map_filter)
  moreover have "c = d" if "(a, c) \<in> set (cells t)" "(a, d) \<in> set (cells t)" for a c d
    using that eq_key_imp_eq_value [OF assms(2)] by blast
  ultimately show "distinct (addrs (g_insert key nw e t))"
    unfolding cells_g_insert [OF assms(1)] add_key_def using assms(2,3)
    by (auto simp: disjoint_iff) (metis less_asym)
  show "set (addrs (g_insert key nw e t)) \<subseteq> insert nw (set (addrs t))"
    using assms by (auto simp: cells_g_insert add_key_def)
qed

lemma g_insert_same:
  "sorted_keys (key \<circ> snd) (cells t) \<Longrightarrow> key e \<in> key ` set (elems t) \<Longrightarrow> g_insert key nw e t = t"
proof (cases t)
  case (Nd a n f l r)
  assume s: "sorted_keys (key \<circ> snd) (cells t)" and e: "key e \<in> key ` set (elems t)"
  note srt = sorted_node [OF s [unfolded Nd]]
  have "key e < key f \<Longrightarrow> key e \<in> key ` set (elems l)" using e srt(4) by (fastforce simp: Nd)
  moreover have "key f < key e \<Longrightarrow> key e \<in> key ` set (elems r)" using e srt(3) by (fastforce simp: Nd)
  ultimately show ?thesis by (simp add: Nd)
qed simp

text \<open>A subtree is replaced by the tree an operation has made of it, and the node rebalanced.\<close>

lemma relink_left:
  assumes h: "holds h p (Nd a n f l r)" and d: "distinct (addrs r)" "a \<notin> set (addrs r)"
    and sub: "becomes T h m h1 l'" "distinct (addrs l')" "set (addrs l') \<subseteq> T" "a \<notin> T" "T \<inter> set (addrs r) = {}"
  obtains h2 where "set_left h1 a m = Some h2" "holds h2 p (Nd a n f l' r)" "unchanged (insert a T) h h2"
    "distinct (addrs (Nd a n f l' r))" "unchanged (insert a (set (addrs l'))) h1 h2"
proof -
  let ?x = "\<lparr>tn_element = f, tn_height = n, tn_parent = p, tn_left = root_of l, tn_right = root_of r\<rparr>"
  obtain q where q: "holds h1 q l'" "unchanged T h h1" and m: "m = root_of l'"
    using sub(1) by (auto simp: becomes_def)
  have x: "h1 a = Some ?x" using unchangedD [OF q(2), of a] h sub(4) by auto
  have r: "holds h1 a r" by (rule holds_unchanged [OF q(2)]) (use h sub(5) in auto)
  have "set (addrs l') \<inter> set (addrs r) = {}" "a \<notin> set (addrs l')" using sub(3-5) by blast+
  then have dist: "distinct (addrs l' @ a # addrs r)" using d sub(2) by simp
  obtain h2 where h2: "set_left h1 a m = Some h2" "holds h2 p (Nd a n f l' r)"
      "unchanged (insert a (set (addrs l'))) h1 h2"
    unfolding m by (rule set_left_node [OF x _ r _ q(1) dist]) (use h in auto)
  moreover have "unchanged (insert a T) h h2"
    by (rule unchanged_trans [OF q(2) h2(3)]) (use sub(3) in auto)
  ultimately show ?thesis using dist by (intro that [of h2]) auto
qed

lemma relink_right:
  assumes h: "holds h p (Nd a n f l r)" and d: "distinct (addrs l)" "a \<notin> set (addrs l)"
    and sub: "becomes T h m h1 r'" "distinct (addrs r')" "set (addrs r') \<subseteq> T" "a \<notin> T" "T \<inter> set (addrs l) = {}"
  obtains h2 where "set_right h1 a m = Some h2" "holds h2 p (Nd a n f l r')" "unchanged (insert a T) h h2"
    "distinct (addrs (Nd a n f l r'))" "unchanged (insert a (set (addrs r'))) h1 h2"
proof -
  let ?x = "\<lparr>tn_element = f, tn_height = n, tn_parent = p, tn_left = root_of l, tn_right = root_of r\<rparr>"
  obtain q where q: "holds h1 q r'" "unchanged T h h1" and m: "m = root_of r'"
    using sub(1) by (auto simp: becomes_def)
  have x: "h1 a = Some ?x" using unchangedD [OF q(2), of a] h sub(4) by auto
  have l: "holds h1 a l" by (rule holds_unchanged [OF q(2)]) (use h sub(5) in auto)
  have "set (addrs l) \<inter> set (addrs r') = {}" "a \<notin> set (addrs r')" using sub(3-5) by blast+
  then have dist: "distinct (addrs l @ a # addrs r')" using d sub(2) by simp
  obtain h2 where h2: "set_right h1 a m = Some h2" "holds h2 p (Nd a n f l r')"
      "unchanged (insert a (set (addrs r'))) h1 h2"
    unfolding m by (rule set_right_node [OF x _ l _ q(1) dist]) (use h in auto)
  moreover have "unchanged (insert a T) h h2"
    by (rule unchanged_trans [OF q(2) h2(3)]) (use sub(3) in auto)
  ultimately show ?thesis using dist by (intro that [of h2]) auto
qed

lemma rebalance_becomes:
  assumes "holds h2 p (Nd a n f l r)" "distinct (addrs (Nd a n f l r))" "avl l" "avl r"
    "unchanged S h h2" "set (addrs (Nd a n f l r)) \<subseteq> S"
  obtains c h3 where "rebalance h2 a = Some (c, h3)" "becomes S h c h3 (g_rebalance a f l r)"
    "unchanged (set (addrs (Nd a n f l r))) h2 h3"
proof -
  obtain c h3 where c: "rebalance h2 a = Some (c, h3)" "becomes (set (addrs (Nd a n f l r))) h2 c h3 (g_rebalance a f l r)"
    using rebalance_holds [OF assms(1-4)] .
  then have "unchanged S h h3" unfolding becomes_def by (meson assms(5,6) unchanged_trans order_refl)
  then show ?thesis using c by (intro that [of c h3]) (auto simp: becomes_def)
qed

lemma insert_node_holds:
  assumes new: "new h \<noteq> NULL" "h (new h) = None"
  shows "holds h p t \<Longrightarrow> distinct (addrs t) \<Longrightarrow> avl t \<Longrightarrow> sorted_keys (key \<circ> snd) (cells t) \<Longrightarrow>
    \<exists>n i h'. insert_node key new h (root_of t) e = Some (n, (i, key e \<notin> key ` set (elems t)), h') \<and>
      becomes (set (addrs t) \<union> set (addrs (g_insert key (new h) e t))) h n h' (g_insert key (new h) e t) \<and>
      at_key key (g_insert key (new h) e t) i (key e)"
proof (induction t arbitrary: p)
  case Tip
  then show ?case using new
    by (subst insert_node.simps)
      (auto simp: Let_def becomes_def at_key_def new_tnode_def unchanged_def)
next
  case (Nd a n f l r)
  let ?x = "\<lparr>tn_element = f, tn_height = n, tn_parent = p, tn_left = root_of l, tn_right = root_of r\<rparr>"
  define S where "S = set (addrs (Nd a n f l r)) \<union> set (addrs (g_insert key (new h) e (Nd a n f l r)))"
  have x: "a \<noteq> NULL" "h a = Some ?x" and hl: "holds h a l" and hr: "holds h a r" using Nd.prems(1) by auto
  have bal: "avl l" "avl r" using Nd.prems(3) by auto
  have d: "distinct (addrs l)" "distinct (addrs r)" "a \<notin> set (addrs l)" "a \<notin> set (addrs r)"
    "set (addrs l) \<inter> set (addrs r) = {}" using Nd.prems(2) by auto
  note srt = sorted_node [OF Nd.prems(4)]
  have nw: "new h \<notin> set (addrs l)" "new h \<notin> set (addrs r)" "new h \<noteq> a"
    using new_not_in [OF new(2) Nd.prems(1)] by auto
  consider (less) "key e < key f" | (greater) "key f < key e" | (equal) "key e = key f" by fastforce
  then show ?case
  proof cases
    case less
    let ?l = "g_insert key (new h) e l" and ?T = "set (addrs l) \<union> set (addrs (g_insert key (new h) e l))"
    obtain m i h1 where IH: "insert_node key new h (root_of l) e = Some (m, (i, key e \<notin> key ` set (elems l)), h1)"
      "becomes ?T h m h1 ?l" "at_key key ?l i (key e)"
      using Nd.IH(1) [OF hl d(1) bal(1) srt(1)] by blast
    have T: "set (addrs ?l) \<subseteq> ?T" "a \<notin> ?T" "?T \<inter> set (addrs r) = {}"
      using distinct_g_insert(2) [OF srt(1) d(1) nw(1), of e] nw d by blast+
    obtain h2 where h2: "set_left h1 a m = Some h2" "holds h2 p (Nd a n f ?l r)" "unchanged (insert a ?T) h h2"
      "distinct (addrs (Nd a n f ?l r))"
      by (rule relink_left [OF Nd.prems(1) d(2,4) IH(2) distinct_g_insert(1) [OF srt(1) d(1) nw(1)] T])
    have notr: "key e \<notin> key ` set (elems r)" using srt(4) less by fastforce
    show ?thesis
    proof (cases "key e \<in> key ` set (elems l)")
      case True
      then have l: "?l = l" by (rule g_insert_same [OF srt(1)])
      have un: "unchanged S h h2" by (rule unchanged_mono [OF h2(3)]) (auto simp: S_def l)
      then show ?thesis using l less True IH h2 x un unfolding S_def [symmetric]
        by (subst insert_node.simps) (auto simp: becomes_def at_key_def)
    next
      case False
      then have g: "g_insert key (new h) e (Nd a n f l r) = g_rebalance a f ?l r" using less by simp
      have sub: "set (addrs (Nd a n f ?l r)) \<subseteq> S" unfolding S_def g by auto
      have un: "unchanged S h h2" by (rule unchanged_mono [OF h2(3)]) (use S_def [unfolded g] in auto)
      obtain c h3 where c: "rebalance h2 a = Some (c, h3)" "becomes S h c h3 (g_rebalance a f ?l r)"
        by (rule rebalance_becomes [OF h2(2,4) _ bal(2) un sub]) (use avl_g_insert [OF bal(1)] in blast)
      then show ?thesis using less False notr IH h2(1) x unfolding S_def [symmetric]
        by (subst insert_node.simps) (auto simp: at_key_def)
    qed
  next
    case greater
    let ?r = "g_insert key (new h) e r" and ?T = "set (addrs r) \<union> set (addrs (g_insert key (new h) e r))"
    obtain m i h1 where IH: "insert_node key new h (root_of r) e = Some (m, (i, key e \<notin> key ` set (elems r)), h1)"
      "becomes ?T h m h1 ?r" "at_key key ?r i (key e)"
      using Nd.IH(2) [OF hr d(2) bal(2) srt(2)] by blast
    have T: "set (addrs ?r) \<subseteq> ?T" "a \<notin> ?T" "?T \<inter> set (addrs l) = {}"
      using distinct_g_insert(2) [OF srt(2) d(2) nw(2), of e] nw d by blast+
    obtain h2 where h2: "set_right h1 a m = Some h2" "holds h2 p (Nd a n f l ?r)" "unchanged (insert a ?T) h h2"
      "distinct (addrs (Nd a n f l ?r))"
      by (rule relink_right [OF Nd.prems(1) d(1,3) IH(2) distinct_g_insert(1) [OF srt(2) d(2) nw(2)] T])
    have notl: "key e \<notin> key ` set (elems l)" using srt(3) greater by fastforce
    show ?thesis
    proof (cases "key e \<in> key ` set (elems r)")
      case True
      then have r: "?r = r" by (rule g_insert_same [OF srt(2)])
      have un: "unchanged S h h2" by (rule unchanged_mono [OF h2(3)]) (auto simp: S_def r)
      then show ?thesis using r greater less_imp_not_less [OF greater] True IH h2 x un unfolding S_def [symmetric]
        by (subst insert_node.simps) (auto simp: becomes_def at_key_def)
    next
      case False
      then have g: "g_insert key (new h) e (Nd a n f l r) = g_rebalance a f l ?r"
        using greater less_imp_not_less [OF greater] by simp
      have sub: "set (addrs (Nd a n f l ?r)) \<subseteq> S" unfolding S_def g by auto
      have un: "unchanged S h h2" by (rule unchanged_mono [OF h2(3)]) (use S_def [unfolded g] in auto)
      obtain c h3 where c: "rebalance h2 a = Some (c, h3)" "becomes S h c h3 (g_rebalance a f l ?r)"
        by (rule rebalance_becomes [OF h2(2,4) bal(1) _ un sub]) (use avl_g_insert [OF bal(2)] in blast)
      then show ?thesis using greater less_imp_not_less [OF greater] False notl IH h2(1) x unfolding S_def [symmetric]
        by (subst insert_node.simps) (auto simp: at_key_def)
    qed
  next
    case equal
    then show ?thesis using x hl hr
      by (subst insert_node.simps) (auto simp: becomes_def at_key_def)
  qed
qed

section \<open>Deletion\<close>

text \<open>The first node replaced by another one, and its right subtree.\<close>

fun g_put_first :: "int \<Rightarrow> addr \<times> 'e \<Rightarrow> 'e gtree \<Rightarrow> 'e gtree" where
  "g_put_first n c Tip = Tip"
| "g_put_first n c (Nd b m f l r) =
     (if l = Tip then Nd (fst c) n (snd c) Tip r else Nd b m f (g_put_first n c l) r)"

fun g_first_right :: "'e gtree \<Rightarrow> 'e gtree" where
  "g_first_right Tip = Tip"
| "g_first_right (Nd b m f l r) = (if l = Tip then r else g_first_right l)"

lemma cells_put_first: "t \<noteq> Tip \<Longrightarrow> cells (g_put_first n c t) = c # cells (g_del_first t)"
  by (induction t) auto

lemma put_first_Tip [simp]: "g_put_first n c t = Tip \<longleftrightarrow> t = Tip"
  by (cases t) auto

lemma root_put_first [simp]: "nd_left t \<noteq> Tip \<Longrightarrow> t \<noteq> Tip \<Longrightarrow> root_of (g_put_first n c t) = root_of t"
  by (cases t) auto

lemma first_in_cells: "t \<noteq> Tip \<Longrightarrow> g_first t \<in> set (cells t)"
  by (simp add: del_first_cells)

lemma leftmost_holds: "holds h p t \<Longrightarrow> t \<noteq> Tip \<Longrightarrow> leftmost h (root_of t) = Some (fst (g_first t))"
proof (induction t arbitrary: p)
  case (Nd a n e l r)
  then show ?case by (subst leftmost.simps) (auto simp: holds_root)
qed simp

lemma holds_first:
  assumes "holds h p t" "t \<noteq> Tip" "g_first t = (s, e)"
  shows "\<exists>n q. h s = Some \<lparr>tn_element = e, tn_height = n, tn_parent = q, tn_left = NULL, tn_right = root_of (g_first_right t)\<rparr>"
  using assms by (induction t arbitrary: p) (auto split: if_splits)

text \<open>Erasing the node that has been put first, with a key below all others.\<close>

lemma erase_put_first:
  "t \<noteq> Tip \<Longrightarrow> holds h p (g_put_first n (a, e) t) \<Longrightarrow> distinct (addrs (g_put_first n (a, e) t)) \<Longrightarrow> avl t \<Longrightarrow>
   \<forall>c\<in>set (cells t). key e < key (snd c) \<Longrightarrow>
   \<exists>m h'. erase_node key h (root_of (g_put_first n (a, e) t)) (key e) = Some (m, True, h') \<and>
     becomes (insert a (set (addrs (g_del_first t)))) h m h' (g_del_first t) \<and> h' a = None"
proof (induction t arbitrary: p)
  case (Nd b m f l r)
  show ?case
  proof (cases "l = Tip")
    case True
    with Nd.prems have "holds (h(a := None)) a r" by (auto simp: holds_upd)
    with True Nd.prems show ?thesis
      by (subst erase_node.simps) (auto simp: delete_node_def becomes_def unchanged_def)
  next
    case False
    let ?l = "g_del_first l" and ?T = "insert a (set (addrs (g_del_first l)))"
    have c: "cells (g_put_first n (a, e) l) = (a, e) # cells ?l" by (rule cells_put_first [OF False])
    have h: "holds h p (Nd b m f (g_put_first n (a, e) l) r)" using Nd.prems(2) False by simp
    have bal: "avl l" "avl r" using Nd.prems(4) by auto
    have d: "a \<notin> set (addrs ?l)" "distinct (addrs ?l)" "b \<notin> set (addrs ?l)" "a \<noteq> b" "distinct (addrs r)" "b \<notin> set (addrs r)"
      "a \<notin> set (addrs r)" "set (addrs ?l) \<inter> set (addrs r) = {}"
      using Nd.prems(3) False c by auto
    have "holds h b (g_put_first n (a, e) l)" "distinct (addrs (g_put_first n (a, e) l))"
      "\<forall>c\<in>set (cells l). key e < key (snd c)"
      using h d c Nd.prems(5) by auto
    from Nd.IH(1) [OF False this(1,2) bal(1) this(3)] obtain k h1 where
      k: "erase_node key h (root_of (g_put_first n (a, e) l)) (key e) = Some (k, True, h1)"
      "becomes ?T h k h1 ?l" "h1 a = None"
      by blast
    obtain h2 where h2: "set_left h1 b k = Some h2" "holds h2 p (Nd b m f ?l r)" "unchanged (insert b ?T) h h2"
      "distinct (addrs (Nd b m f ?l r))" "unchanged (insert b (set (addrs ?l))) h1 h2"
      by (rule relink_left [OF h d(5,6) k(2)]) (use d in auto)
    define S where "S = insert a (set (addrs (Nd b m f ?l r)))"
    have un: "unchanged S h h2" by (rule unchanged_mono [OF h2(3)]) (auto simp: S_def)
    obtain c h3 where h3: "rebalance h2 b = Some (c, h3)" "becomes S h c h3 (g_rebalance b f ?l r)"
      "unchanged (set (addrs (Nd b m f ?l r))) h2 h3"
      by (rule rebalance_becomes [OF h2(2,4) _ bal(2) un]) (use avl_g_del_first [OF bal(1) False] S_def in auto)
    have "h3 a = None" using unchangedD [OF h3(3), of a] unchangedD [OF h2(5), of a] k(3) d by auto
    moreover have "insert a (set (addrs (g_del_first (Nd b m f l r)))) = S"
      using False by (auto simp: S_def)
    ultimately show ?thesis
      using False h Nd.prems(5) k(1) h2(1) h3(1,2) by (subst erase_node.simps) simp
  qed
qed simp

text \<open>The first node of the right subtree leaves its place to another node.\<close>

primrec holds_but_first :: "'e theap \<Rightarrow> addr \<Rightarrow> 'e gtree \<Rightarrow> bool" where
  "holds_but_first h p Tip = False"
| "holds_but_first h p (Nd a n e l r) =
     (a \<noteq> NULL \<and> holds h a r \<and>
      (if l = Tip then \<exists>y. h a = Some y \<and> tn_parent y = p
       else holds_but_first h a l \<and>
         h a = Some \<lparr>tn_element = e, tn_height = n, tn_parent = p, tn_left = root_of l, tn_right = root_of r\<rparr>))"

lemma holds_but_first_cong:
  "(\<And>b. b \<in> set (addrs t) \<Longrightarrow> h' b = h b) \<Longrightarrow> holds_but_first h p t \<Longrightarrow> holds_but_first h' p t"
proof (induction t arbitrary: p)
  case (Nd a n e l r)
  then have "holds h' a r = holds h a r" by (intro holds_cong) auto
  then show ?case using Nd by auto
qed simp

lemma holds_but_firstI:
  "holds h p t \<Longrightarrow> t \<noteq> Tip \<Longrightarrow> distinct (addrs t) \<Longrightarrow> (\<And>b. b \<in> set (addrs t) \<Longrightarrow> b \<noteq> fst (g_first t) \<Longrightarrow> h' b = h b) \<Longrightarrow>
   \<exists>y z. h (fst (g_first t)) = Some y \<and> h' (fst (g_first t)) = Some z \<and> tn_parent z = tn_parent y \<Longrightarrow>
   holds_but_first h' p t"
proof (induction t arbitrary: p)
  case (Nd a n e l r)
  show ?case
  proof (cases "l = Tip")
    case True
    then have "holds h' a r = holds h a r" using Nd.prems by (intro holds_cong) auto
    then show ?thesis using True Nd.prems by auto
  next
    case False
    have s: "fst (g_first l) \<in> set (addrs l)" using first_in_cells [OF False] by simp
    have "holds h' a r = holds h a r"
    proof (rule holds_cong)
      fix b
      assume b: "b \<in> set (addrs r)"
      moreover have "set (addrs l) \<inter> set (addrs r) = {}" using Nd.prems(3) by simp
      ultimately have "b \<noteq> fst (g_first l)" using s by blast
      then show "h' b = h b" using Nd.prems(4) [of b] b False by auto
    qed
    moreover have "a \<noteq> fst (g_first l)" using s Nd.prems(3) by fastforce
    then have "h' a = h a" using Nd.prems(4) [of a] False by auto
    moreover have "holds_but_first h' a l" by (rule Nd.IH(1)) (use Nd.prems False in auto)
    ultimately show ?thesis using False Nd.prems by auto
  qed
qed simp

lemma holds_but_first_root:
  assumes "holds_but_first h p t" "nd_left t \<noteq> Tip" "t \<noteq> Tip" "distinct (addrs t)"
  shows "\<exists>h'. set_parent h (root_of t) q = Some h' \<and> holds_but_first h' q t \<and> unchanged {root_of t} h h'"
proof -
  obtain a n e l r where t: "t = Nd a n e l r" using assms(3) by (cases t) auto
  let ?h = "h(a \<mapsto> \<lparr>tn_element = e, tn_height = n, tn_parent = q, tn_left = root_of l, tn_right = root_of r\<rparr>)"
  have "holds_but_first ?h a l"
    by (rule holds_but_first_cong [where h = h]) (use assms t in auto)
  then have "holds_but_first ?h q t" using assms t by (auto simp: holds_upd)
  then show ?thesis using assms t by (intro exI [of _ ?h]) (auto simp: set_parent_def unchanged_def)
qed

lemma replace_first:
  assumes a: "h a = Some x" "a \<noteq> NULL"
  shows "holds_but_first h p t \<Longrightarrow> t \<noteq> Tip \<Longrightarrow> nd_left t \<noteq> Tip \<Longrightarrow> distinct (addrs t) \<Longrightarrow> a \<notin> set (addrs t) \<Longrightarrow>
    \<exists>z h3 h4 h5. h (fst (g_first t)) = Some z \<and> set_left h (tn_parent z) a = Some h3 \<and> set_left h3 a NULL = Some h4 \<and>
      set_right h4 a (root_of (g_first_right t)) = Some h5 \<and>
      holds h5 p (g_put_first (tn_height x) (a, tn_element x) t) \<and>
      unchanged (insert a (set (addrs t) - {fst (g_first t)})) h h5"
proof (induction t arbitrary: p)
  case (Nd b m f l r)
  let ?b = "\<lparr>tn_element = f, tn_height = m, tn_parent = p, tn_left = root_of l, tn_right = root_of r\<rparr>"
  have l: "l \<noteq> Tip" and b: "h b = Some ?b" "b \<noteq> NULL" and r: "holds h b r" and hl: "holds_but_first h b l"
    using Nd.prems by (auto split: if_splits)
  have d: "distinct (addrs l)" "distinct (addrs r)" "b \<notin> set (addrs l)" "b \<notin> set (addrs r)" "a \<noteq> b"
    "a \<notin> set (addrs l)" "a \<notin> set (addrs r)" "set (addrs l) \<inter> set (addrs r) = {}"
    using Nd.prems by auto
  show ?case
  proof (cases "nd_left l = Tip")
    case True
    then obtain s k g sr where s: "l = Nd s k g Tip sr" using l by (cases l) auto
    obtain z where z: "h s = Some z" "tn_parent z = b" and sr: "holds h s sr" using hl s by auto
    define h3 where "h3 = h(b \<mapsto> ?b\<lparr>tn_left := a\<rparr>, a \<mapsto> x\<lparr>tn_parent := b\<rparr>)"
    define h4 where "h4 = h3(a \<mapsto> x\<lparr>tn_parent := b, tn_left := NULL\<rparr>)"
    have h34: "set_left h b a = Some h3" "set_left h3 a NULL = Some h4"
      using a b d by (auto simp: set_left_def set_parent_def h3_def h4_def)
    have h4: "h4 a = Some (x\<lparr>tn_parent := b, tn_left := NULL\<rparr>)" "h4 b = Some (?b\<lparr>tn_left := a\<rparr>)"
      "unchanged {a, b} h h4"
      using d by (auto simp: h3_def h4_def unchanged_def)
    have sr4: "holds h4 s sr" by (rule holds_unchanged [OF h4(3)]) (use sr d s in auto)
    obtain h5 where h5: "set_right h4 a (root_of sr) = Some h5"
      "holds h5 b (Nd a (tn_height x) (tn_element x) Tip sr)" "unchanged (insert a (set (addrs sr))) h4 h5"
      by (rule set_right_node [of h4 a "x\<lparr>tn_parent := b, tn_left := NULL\<rparr>" Tip s sr])
        (use h4 a(2) sr4 d s in auto)
    have "h5 b = Some (?b\<lparr>tn_left := a\<rparr>)" using unchangedD [OF h5(3), of b] h4(2) d s by auto
    moreover have "holds h4 b r" by (rule holds_unchanged [OF h4(3)]) (use r d s in auto)
    then have "holds h5 b r" by (rule holds_unchanged [OF h5(3), rotated]) (use d s in auto)
    moreover have "unchanged (insert a (set (addrs (Nd b m f l r)) - {s})) h h5"
      by (rule unchanged_trans [OF h4(3) h5(3)]) (use s d in auto)
    ultimately show ?thesis
      using z h34 h5 b(2) s by - (rule exI [of _ z], rule exI [of _ h3], rule exI [of _ h4], rule exI [of _ h5], simp)
  next
    case False
    from Nd.IH(1) [OF hl l False d(1,6)] obtain z h3 h4 h5 where
      z: "h (fst (g_first l)) = Some z" "set_left h (tn_parent z) a = Some h3" "set_left h3 a NULL = Some h4"
      "set_right h4 a (root_of (g_first_right l)) = Some h5" "holds h5 b (g_put_first (tn_height x) (a, tn_element x) l)"
      and un: "unchanged (insert a (set (addrs l) - {fst (g_first l)})) h h5"
      by blast
    have s: "fst (g_first l) \<in> set (addrs l)" using first_in_cells [OF l] by simp
    have "h5 b = Some ?b" using unchangedD [OF un, of b] b d by auto
    moreover have "holds h5 b r" by (rule holds_unchanged [OF un]) (use r d in auto)
    ultimately have "holds h5 p (g_put_first (tn_height x) (a, tn_element x) (Nd b m f l r))"
      using z(5) b(2) l False by simp
    moreover have "unchanged (insert a (set (addrs (Nd b m f l r)) - {fst (g_first l)})) h h5"
      by (rule unchanged_mono [OF un]) auto
    ultimately show ?thesis using z l by simp
  qed
qed simp

text \<open>Erasing a node with two children: its successor takes its place.\<close>

lemma erase_successor_child:
  assumes h: "holds h p (Nd a n e l (Nd b m f Tip rr))" and d: "distinct (addrs (Nd a n e l (Nd b m f Tip rr)))"
    and bal: "avl l" "avl rr" and l: "l \<noteq> Tip"
  shows "\<exists>c h'. erase_node key h a (key e) = Some (c, True, h') \<and>
    becomes (set (addrs (Nd a n e l (Nd b m f Tip rr)))) h c h' (g_rebalance b f l rr) \<and> h' a = None"
proof -
  let ?S = "set (addrs (Nd a n e l (Nd b m f Tip rr)))"
  let ?x = "\<lparr>tn_element = e, tn_height = n, tn_parent = p, tn_left = root_of l, tn_right = b\<rparr>"
  let ?y = "\<lparr>tn_element = f, tn_height = m, tn_parent = a, tn_left = NULL, tn_right = root_of rr\<rparr>"
  have x: "h a = Some ?x" "a \<noteq> NULL" and y: "h b = Some ?y" "b \<noteq> NULL" and hl: "holds h a l" and hr: "holds h b rr"
    using h by auto
  have suc: "successor h a = Some b" using x y by (subst successor_def) (simp add: leftmost.simps)
  have dist: "distinct (addrs l @ b # addrs rr)" "a \<noteq> b" "a \<notin> set (addrs l)" "a \<notin> set (addrs rr)" using d by auto
  obtain h1 where h1: "set_left h b (root_of l) = Some h1" "holds h1 a (Nd b m f l rr)" "unchanged (insert b (set (addrs l))) h h1"
    by (rule set_left_node [OF y(1,2) hr _ hl dist(1)]) auto
  have a1: "h1 a = Some ?x" using unchangedD [OF h1(3), of a] x dist by auto
  let ?h2 = "h1(a := None)"
  have h2: "holds ?h2 a (Nd b m f l rr)" using h1(2) dist by (subst holds_upd) auto
  have un: "unchanged ?S h ?h2" using h1(3) by (auto simp: unchanged_def)
  obtain c h3 where c: "rebalance ?h2 b = Some (c, h3)" "becomes ?S h c h3 (g_rebalance b f l rr)"
    "unchanged (set (addrs (Nd b m f l rr))) ?h2 h3"
    by (rule rebalance_becomes [OF h2 _ bal un]) (use dist in auto)
  have "h3 a = None" using unchangedD [OF c(3), of a] dist by auto
  moreover have "erase_node key h a (key e) = Some (c, True, h3)"
    using x y suc h1(1) a1 c(1) hl l holds_root [OF hl]
    by (subst erase_node.simps) (simp add: delete_node_def)
  ultimately show ?thesis using c(2) by blast
qed

lemma erase_successor_deep:
  assumes h: "holds h p (Nd a n e l r)" and d: "distinct (addrs (Nd a n e l r))"
    and bal: "avl l" "avl r" and ne: "l \<noteq> Tip" "r \<noteq> Tip" "nd_left r \<noteq> Tip" and s: "g_first r = (s, f)"
    and less: "\<forall>c\<in>set (cells r). key e < key (snd c)"
  shows "\<exists>c h'. erase_node key h a (key e) = Some (c, True, h') \<and>
    becomes (set (addrs (Nd a n e l r))) h c h' (g_rebalance s f l (g_del_first r)) \<and> h' a = None"
proof -
  let ?S = "set (addrs (Nd a n e l r))" and ?r = "g_put_first n (a, e) r"
  let ?x = "\<lparr>tn_element = e, tn_height = n, tn_parent = p, tn_left = root_of l, tn_right = root_of r\<rparr>"
  have x: "h a = Some ?x" "a \<noteq> NULL" and hl: "holds h a l" and hr: "holds h a r" using h by auto
  have suc: "successor h a = Some s"
    using x leftmost_holds [OF hr ne(2)] holds_root [OF hr] ne(2) s by (simp add: successor_def)
  obtain k q where y: "h s = Some \<lparr>tn_element = f, tn_height = k, tn_parent = q, tn_left = NULL, tn_right = root_of (g_first_right r)\<rparr>"
    using holds_first [OF hr ne(2) s] by blast
  have cr: "cells r = (s, f) # cells (g_del_first r)" using del_first_cells [OF ne(2)] s by simp
  then have sr: "s \<in> set (addrs r)" by simp
  have "root_of r \<in> set (addrs (g_del_first r)) \<union> {s}" using root_in_addrs [OF ne(2)] cr by auto
  have sroot: "s \<noteq> root_of r"
  proof -
    obtain b m g rl rr where r: "r = Nd b m g rl rr" using ne(2) by (cases r) auto
    then have "s \<in> set (addrs rl)" using ne(3) s first_in_cells [of rl] by force
    then show ?thesis using d r by auto
  qed
  have d': "distinct (addrs l)" "distinct (addrs r)" "a \<notin> set (addrs l)" "a \<notin> set (addrs r)"
    "set (addrs l) \<inter> set (addrs r) = {}" using d by auto
  have sl: "s \<notin> set (addrs l)" using d' sr by auto
  have sa: "s \<noteq> a" using d' sr by auto
  have snull: "s \<noteq> NULL" using holds_dom [OF hr sr] by blast
  have rr: "root_of r \<noteq> NULL" using holds_root [OF hr] ne by auto
  \<comment> \<open>the successor takes the node's children\<close>
  let ?y = "\<lparr>tn_element = f, tn_height = k, tn_parent = q, tn_left = NULL, tn_right = root_of (g_first_right r)\<rparr>"
  obtain h1 where h1: "set_left h s (root_of l) = Some h1" "holds h1 s l" "h1 s = Some (?y\<lparr>tn_left := root_of l\<rparr>)"
    "unchanged (insert s (set (addrs l))) h h1"
    by (rule set_left_holds [OF y hl d'(1) sl])
  let ?z = "?y\<lparr>tn_left := root_of l, tn_right := root_of r\<rparr>"
  let ?h1 = "h1(s \<mapsto> ?z)"
  have "holds_but_first ?h1 a r"
  proof (rule holds_but_firstI [OF hr ne(2) d'(2)])
    fix b
    assume "b \<in> set (addrs r)" "b \<noteq> fst (g_first r)"
    then show "?h1 b = h b" using s unchangedD [OF h1(4), of b] d'(5) by auto
  qed (use s y in auto)
  from holds_but_first_root [OF this ne(3,2) d'(2), of s] obtain h2 where
    h2: "set_parent ?h1 (root_of r) s = Some h2" "holds_but_first h2 s r" "unchanged {root_of r} ?h1 h2" by blast
  have sr2: "set_right h1 s (root_of r) = Some h2" using h1(3) h2(1) rr by (simp add: set_right_def)
  have s2: "h2 s = Some ?z" using unchangedD [OF h2(3), of s] sroot by simp
  have rl: "root_of r \<notin> set (addrs l)" using root_in_addrs [OF ne(2)] d'(5) by auto
  have l2: "holds h2 s l"
    by (rule holds_unchanged [OF h2(3)]) (use h1(2) sl rl in \<open>auto simp: holds_upd\<close>)
  have a1: "h1 a = Some ?x" using unchangedD [OF h1(4), of a] x sa d' by auto
  have ar: "a \<noteq> root_of r" using root_in_addrs [OF ne(2)] d'(4) by metis
  have a2: "h2 a = Some ?x" using unchangedD [OF h2(3), of a] a1 ar sa by auto
  have un2: "unchanged (insert s (set (addrs l) \<union> {root_of r})) h h2"
    using h1(4) h2(3) by (auto simp: unchanged_def)
  \<comment> \<open>the node takes the successor's place\<close>
  obtain z h3 h4 h5 where z: "h2 s = Some z" "set_left h2 (tn_parent z) a = Some h3" "set_left h3 a NULL = Some h4"
    "set_right h4 a (root_of (g_first_right r)) = Some h5" "holds h5 s ?r" "unchanged (insert a (set (addrs r) - {s})) h2 h5"
    using replace_first [OF a2 x(2) h2(2) ne(2,3) d'(2,4)] s by auto
  have s5: "h5 s = Some ?z" using unchangedD [OF z(6), of s] s2 sa by auto
  obtain w where a5: "h5 a = Some w" "tn_element w = e"
    using holds_cell [OF z(5), of a e] cells_put_first [OF ne(2)] by auto
  have l5: "holds h5 s l" by (rule holds_unchanged [OF z(6) _ l2]) (use d' in auto)
  have node: "holds h5 q (Nd s k f l ?r)" using snull l5 z(5) s5 ne(2,3) by simp
  \<comment> \<open>and is erased there\<close>
  have cp: "cells ?r = (a, e) # cells (g_del_first r)" by (rule cells_put_first [OF ne(2)])
  have dp: "distinct (addrs ?r)" using d' cr cp by auto
  obtain m h6 where m: "erase_node key h5 (root_of ?r) (key e) = Some (m, True, h6)"
    "becomes (insert a (set (addrs (g_del_first r)))) h5 m h6 (g_del_first r)" "h6 a = None"
    using erase_put_first [OF ne(2) z(5) dp bal(2) less] by blast
  have ds: "s \<notin> set (addrs (g_del_first r))" "distinct (addrs (g_del_first r))" "a \<notin> set (addrs (g_del_first r))"
    "set (addrs (g_del_first r)) \<inter> set (addrs l) = {}"
    using d' cr by auto
  obtain h7 where h7: "set_right h6 s m = Some h7" "holds h7 q (Nd s k f l (g_del_first r))"
    "unchanged (insert s (insert a (set (addrs (g_del_first r))))) h5 h7" "distinct (addrs (Nd s k f l (g_del_first r)))"
    "unchanged (insert s (set (addrs (g_del_first r)))) h6 h7"
    by (rule relink_right [OF node d'(1) sl m(2)]) (use ds sa d' in auto)
  have "unchanged ?S h h5"
    by (rule unchanged_trans [OF un2 z(6)]) (use sr root_in_addrs [OF ne(2)] in auto)
  then have un: "unchanged ?S h h7"
    by (rule unchanged_trans [OF _ h7(3)]) (use sr cr in auto)
  obtain c h8 where c: "rebalance h7 s = Some (c, h8)" "becomes ?S h c h8 (g_rebalance s f l (g_del_first r))"
    "unchanged (set (addrs (Nd s k f l (g_del_first r)))) h7 h8"
    by (rule rebalance_becomes [OF h7(2,4) bal(1) _ un]) (use avl_g_del_first [OF bal(2) ne(2)] cr in auto)
  have "h7 a = None" using unchangedD [OF h7(5), of a] m(3) sa ds by auto
  then have "h8 a = None" using unchangedD [OF c(3), of a] sa ds d' by auto
  moreover have "erase_node key h a (key e) = Some (c, True, h8)"
  proof -
    have "root_of ?r = root_of r" using ne by simp
    then have m': "erase_node key h5 (root_of r) (key e) = Some (m, True, h6)" using m(1) by simp
    have "root_of l \<noteq> NULL" using holds_root [OF hl] ne by auto
    then show ?thesis using x(2) rr sroot a5 z(1-4)
      by (subst erase_node.simps) (simp add: x(1) suc y h1(1) sr2 s5 m' h7(1) c(1))
  qed
  ultimately show ?thesis using c(2) by blast
qed

lemma g_erase_addrs:
  assumes "sorted_keys (key \<circ> snd) (cells t)" "distinct (addrs t)"
  shows "distinct (addrs (g_erase key k t))" "set (addrs (g_erase key k t)) \<subseteq> set (addrs t)"
  using assms by (auto simp: cells_g_erase del_key_def distinct_map_filter)

lemma g_erase_same:
  assumes "sorted_keys (key \<circ> snd) (cells t)" "k \<notin> key ` set (elems t)"
  shows "g_erase key k t = t"
  using assms(2) by (cases t) auto

lemma erase_node_holds:
  "holds h p t \<Longrightarrow> distinct (addrs t) \<Longrightarrow> avl t \<Longrightarrow> sorted_keys (key \<circ> snd) (cells t) \<Longrightarrow>
    \<exists>n h'. erase_node key h (root_of t) k = Some (n, k \<in> key ` set (elems t), h') \<and>
      becomes (set (addrs t)) h n h' (g_erase key k t) \<and>
      (\<forall>b. b \<in> set (addrs t) \<longrightarrow> b \<notin> set (addrs (g_erase key k t)) \<longrightarrow> h' b = None)"
proof (induction t arbitrary: p)
  case Tip
  then show ?case by (subst erase_node.simps) (simp add: becomes_def)
next
  case (Nd a n f l r)
  let ?x = "\<lparr>tn_element = f, tn_height = n, tn_parent = p, tn_left = root_of l, tn_right = root_of r\<rparr>"
  define S where "S = set (addrs (Nd a n f l r))"
  have x: "a \<noteq> NULL" "h a = Some ?x" and hl: "holds h a l" and hr: "holds h a r" using Nd.prems(1) by auto
  have bal: "avl l" "avl r" using Nd.prems(3) by auto
  have d: "distinct (addrs l)" "distinct (addrs r)" "a \<notin> set (addrs l)" "a \<notin> set (addrs r)"
    "set (addrs l) \<inter> set (addrs r) = {}" using Nd.prems(2) by auto
  note srt = sorted_node [OF Nd.prems(4)]
  consider (less) "k < key f" | (greater) "key f < k" | (leaf) "k = key f" "l = Tip \<or> r = Tip"
    | (child) "k = key f" "l \<noteq> Tip" "r \<noteq> Tip" "nd_left r = Tip" | (deep) "k = key f" "l \<noteq> Tip" "r \<noteq> Tip" "nd_left r \<noteq> Tip"
    by fastforce
  then show ?case
  proof cases
    case less
    let ?l = "g_erase key k l"
    have notr: "k \<notin> key ` set (elems r)" using srt(4) less by fastforce
    obtain m h1 where IH: "erase_node key h (root_of l) k = Some (m, k \<in> key ` set (elems l), h1)"
      "becomes (set (addrs l)) h m h1 ?l" "\<And>b. b \<in> set (addrs l) \<Longrightarrow> b \<notin> set (addrs ?l) \<Longrightarrow> h1 b = None"
      using Nd.IH(1) [OF hl d(1) bal(1) srt(1)] by blast
    obtain h2 where h2: "set_left h1 a m = Some h2" "holds h2 p (Nd a n f ?l r)" "unchanged (insert a (set (addrs l))) h h2"
      "distinct (addrs (Nd a n f ?l r))" "unchanged (insert a (set (addrs ?l))) h1 h2"
      by (rule relink_left [OF Nd.prems(1) d(2,4) IH(2)]) (use g_erase_addrs [OF srt(1) d(1)] d in auto)
    have un: "unchanged S h h2" by (rule unchanged_mono [OF h2(3)]) (auto simp: S_def)
    show ?thesis
    proof (cases "k \<in> key ` set (elems l)")
      case False
      then have "?l = l" by (rule g_erase_same [OF srt(1)])
      then show ?thesis using less False IH h2 x un notr unfolding S_def [symmetric]
        by (subst erase_node.simps) (auto simp: becomes_def S_def)
    next
      case True
      have sub: "set (addrs (Nd a n f ?l r)) \<subseteq> S" using g_erase_addrs(2) [OF srt(1) d(1), of k] by (auto simp: S_def)
      obtain c h3 where c: "rebalance h2 a = Some (c, h3)" "becomes S h c h3 (g_rebalance a f ?l r)"
        "unchanged (set (addrs (Nd a n f ?l r))) h2 h3"
        by (rule rebalance_becomes [OF h2(2,4) _ bal(2) un sub]) (use avl_g_erase [OF bal(1)] in blast)
      have "h3 b = None" if "b \<in> S" "b \<notin> set (addrs (g_rebalance a f ?l r))" for b
        using that IH(3) [of b] unchangedD [OF h2(5), of b] unchangedD [OF c(3), of b] by (auto simp: S_def)
      then show ?thesis using less True IH(1) h2(1) x c(1,2) unfolding S_def [symmetric]
        by (subst erase_node.simps) (auto simp: S_def)
    qed
  next
    case greater
    let ?r = "g_erase key k r"
    have notl: "k \<notin> key ` set (elems l)" using srt(3) greater by fastforce
    obtain m h1 where IH: "erase_node key h (root_of r) k = Some (m, k \<in> key ` set (elems r), h1)"
      "becomes (set (addrs r)) h m h1 ?r" "\<And>b. b \<in> set (addrs r) \<Longrightarrow> b \<notin> set (addrs ?r) \<Longrightarrow> h1 b = None"
      using Nd.IH(2) [OF hr d(2) bal(2) srt(2)] by blast
    obtain h2 where h2: "set_right h1 a m = Some h2" "holds h2 p (Nd a n f l ?r)" "unchanged (insert a (set (addrs r))) h h2"
      "distinct (addrs (Nd a n f l ?r))" "unchanged (insert a (set (addrs ?r))) h1 h2"
      by (rule relink_right [OF Nd.prems(1) d(1,3) IH(2)]) (use g_erase_addrs [OF srt(2) d(2)] d in auto)
    have un: "unchanged S h h2" by (rule unchanged_mono [OF h2(3)]) (auto simp: S_def)
    note gt = greater less_imp_not_less [OF greater]
    show ?thesis
    proof (cases "k \<in> key ` set (elems r)")
      case False
      then have "?r = r" by (rule g_erase_same [OF srt(2)])
      then show ?thesis using gt False IH h2 x un notl unfolding S_def [symmetric]
        by (subst erase_node.simps) (auto simp: becomes_def S_def)
    next
      case True
      have sub: "set (addrs (Nd a n f l ?r)) \<subseteq> S" using g_erase_addrs(2) [OF srt(2) d(2), of k] by (auto simp: S_def)
      obtain c h3 where c: "rebalance h2 a = Some (c, h3)" "becomes S h c h3 (g_rebalance a f l ?r)"
        "unchanged (set (addrs (Nd a n f l ?r))) h2 h3"
        by (rule rebalance_becomes [OF h2(2,4) bal(1) _ un sub]) (use avl_g_erase [OF bal(2)] in blast)
      have "h3 b = None" if "b \<in> S" "b \<notin> set (addrs (g_rebalance a f l ?r))" for b
        using that IH(3) [of b] unchangedD [OF h2(5), of b] unchangedD [OF c(3), of b] by (auto simp: S_def)
      then show ?thesis using gt True IH(1) h2(1) x c(1,2) unfolding S_def [symmetric]
        by (subst erase_node.simps) (auto simp: S_def)
    qed
  next
    case leaf
    have "holds (h(a := None)) a l" "holds (h(a := None)) a r" using hl hr d by (auto simp: holds_upd)
    moreover have "unchanged (set (addrs (Nd a n f l r))) h (h(a := None))" by (simp add: unchanged_def)
    ultimately show ?thesis using leaf x holds_root [OF hl] holds_root [OF hr]
      by (subst erase_node.simps) (auto simp: becomes_def delete_node_def)
  next
    case child
    then obtain b m g rr where r: "r = Nd b m g Tip rr" by (cases r) auto
    with erase_successor_child [of h p a n f l b m g rr key] Nd.prems bal child show ?thesis
      by fastforce
  next
    case deep
    obtain s g where s: "g_first r = (s, g)" by fastforce
    have "cells r = (s, g) # cells (g_del_first r)" using del_first_cells [OF deep(3)] s by simp
    then show ?thesis
      using erase_successor_deep [OF Nd.prems(1,2) bal deep(2-4) s, of key] srt(4) deep s by fastforce
  qed
qed

end
