(* ===== verification/Tree_Walk.thy ===== *)
theory Tree_Walk
  imports Tree_Heap
begin

text \<open>
  Reading a tree: the iterators of \<open>_tree\<close> walk the nodes in the order of their elements, the search functions
  find what they name, and \<open>clear\<close> frees every node once.
\<close>

section \<open>Iteration\<close>

text \<open>The address at which a list of nodes starts, the end iterator if there is none.\<close>

definition start :: "(addr \<times> 'e) list \<Rightarrow> addr \<Rightarrow> addr" where
  "start cs d = (case cs of [] \<Rightarrow> d | c # _ \<Rightarrow> fst c)"

lemma start_simps [simp]: "start [] d = d" "start (c # cs) d = fst c" "start (cs @ ds) d = start cs (start ds d)"
  by (auto simp: start_def split: list.splits)

lemma leftmost_start: "holds h p t \<Longrightarrow> t \<noteq> Tip \<Longrightarrow> leftmost h (root_of t) = Some (start (cells t) d)"
proof (induction t arbitrary: p d)
  case (Nd a n e l r)
  then show ?case by (cases "l = Tip"; subst leftmost.simps) (auto simp: holds_root)
qed simp

lemma first_node_start: "holds h p t \<Longrightarrow> first_node h (root_of t) = Some (start (cells t) NULL)"
  using leftmost_start [of h p t NULL] holds_root [of h p t] by (cases t) (auto simp: first_node_def)

lemma climb_NULL [simp]: "climb_right h NULL c = Some NULL" "climb_left h NULL c = Some NULL"
  by (simp_all add: climb_right.simps climb_left.simps)

lemma roots_differ:
  assumes "holds h a l" "holds h a r" "set (addrs l) \<inter> set (addrs r) = {}" "l \<noteq> Tip \<or> r \<noteq> Tip"
  shows "root_of l \<noteq> root_of r"
proof
  assume eq: "root_of l = root_of r"
  then have "l \<noteq> Tip" "r \<noteq> Tip" using assms(1,2,4) holds_root by metis+
  then have "root_of l \<in> set (addrs l)" "root_of l \<in> set (addrs r)" using root_in_addrs eq by metis+
  with assms(3) show False by blast
qed

text \<open>The successor of a node is the next one; that of the last node is where the climb out of the tree ends.\<close>

lemma successor_holds:
  "holds h p t \<Longrightarrow> distinct (addrs t) \<Longrightarrow> cells t = xs @ (a, e) # ys \<Longrightarrow>
   successor h a = (if ys = [] then climb_right h p (root_of t) else Some (fst (hd ys)))"
proof (induction t arbitrary: p xs ys)
  case (Nd b n f l r)
  have b: "h b = Some \<lparr>tn_element = f, tn_height = n, tn_parent = p, tn_left = root_of l, tn_right = root_of r\<rparr>"
    "b \<noteq> NULL" and hl: "holds h b l" and hr: "holds h b r"
    and d: "distinct (addrs l)" "distinct (addrs r)" "set (addrs l) \<inter> set (addrs r) = {}"
    using Nd.prems(1,2) by auto
  have eq: "cells l @ (b, f) # cells r = xs @ (a, e) # ys" using Nd.prems(3) by simp
  then consider (root) "xs = cells l" "a = b" "ys = cells r"
    | (left) zs where "cells l = xs @ (a, e) # zs" "ys = zs @ (b, f) # cells r"
    | (right) zs where "cells r = zs @ (a, e) # ys"
    by (auto simp: append_eq_append_conv2 Cons_eq_append_conv append_eq_Cons_conv)
  then show ?case
  proof cases
    case root
    then show ?thesis
      using b leftmost_start [OF hr] holds_root [OF hr] by (cases "cells r") (auto simp: successor_def)
  next
    case left
    show ?thesis
    proof (cases "zs = []")
      case True
      then have "root_of r \<noteq> root_of l" using roots_differ [OF hl hr d(3)] left by (cases l) auto
      then have "climb_right h b (root_of l) = Some b" using b by (subst climb_right.simps) simp
      then show ?thesis using Nd.IH(1) [OF hl d(1) left(1)] True left(2) by simp
    next
      case False
      then show ?thesis using Nd.IH(1) [OF hl d(1) left(1)] left(2) by simp
    qed
  next
    case right
    have "climb_right h b (root_of r) = climb_right h p b" using b by (subst climb_right.simps) simp
    then show ?thesis using Nd.IH(2) [OF hr d(2) right] by simp
  qed
qed simp

lemma rightmost_last: "holds h p t \<Longrightarrow> t \<noteq> Tip \<Longrightarrow> rightmost h (root_of t) = Some (fst (last (cells t)))"
proof (induction t arbitrary: p)
  case (Nd a n e l r)
  then show ?case by (subst rightmost.simps) (auto simp: holds_root)
qed simp

lemma predecessor_holds:
  "holds h p t \<Longrightarrow> distinct (addrs t) \<Longrightarrow> cells t = xs @ (a, e) # ys \<Longrightarrow>
   predecessor h a = (if xs = [] then climb_left h p (root_of t) else Some (fst (last xs)))"
proof (induction t arbitrary: p xs ys)
  case (Nd b n f l r)
  have b: "h b = Some \<lparr>tn_element = f, tn_height = n, tn_parent = p, tn_left = root_of l, tn_right = root_of r\<rparr>"
    "b \<noteq> NULL" and hl: "holds h b l" and hr: "holds h b r"
    and d: "distinct (addrs l)" "distinct (addrs r)" "set (addrs l) \<inter> set (addrs r) = {}"
    using Nd.prems(1,2) by auto
  have eq: "cells l @ (b, f) # cells r = xs @ (a, e) # ys" using Nd.prems(3) by simp
  then consider (root) "xs = cells l" "a = b" "ys = cells r"
    | (left) zs where "cells l = xs @ (a, e) # zs"
    | (right) zs where "cells r = zs @ (a, e) # ys" "xs = cells l @ (b, f) # zs"
    by (auto simp: append_eq_append_conv2 Cons_eq_append_conv append_eq_Cons_conv)
  then show ?case
  proof cases
    case root
    then show ?thesis
      using b rightmost_last [OF hl] holds_root [OF hl] by (cases "l = Tip") (auto simp: predecessor_def)
  next
    case left
    have "climb_left h b (root_of l) = climb_left h p b" using b by (subst climb_left.simps) simp
    then show ?thesis using Nd.IH(1) [OF hl d(1) left] by simp
  next
    case right
    show ?thesis
    proof (cases "zs = []")
      case True
      then have "root_of l \<noteq> root_of r" using roots_differ [OF hl hr d(3)] right by (cases r) auto
      then have "climb_left h b (root_of r) = Some b" using b by (subst climb_left.simps) simp
      then show ?thesis using Nd.IH(2) [OF hr d(2) right(1)] True right(2) by simp
    next
      case False
      then show ?thesis using Nd.IH(2) [OF hr d(2) right(1)] right(2) by simp
    qed
  qed
qed simp

lemma pre_inc_holds:
  assumes "holds h NULL t" "distinct (addrs t)" "cells t = xs @ (a, e) # ys"
  shows "pre_inc h a = Some (Inr (start ys NULL))"
proof -
  have "a \<noteq> NULL" using holds_dom [OF assms(1), of a] assms(3) by auto
  then show ?thesis using successor_holds [OF assms] by (cases ys) (auto simp: pre_inc_def)
qed

lemma iter_value_holds: "holds h p t \<Longrightarrow> (a, e) \<in> set (cells t) \<Longrightarrow> iter_value h a = Some (Inr e)"
  using holds_dom [of h p t a] holds_cell [of h p t a e] by (force simp: iter_value_def)

lemma foreach_from_holds:
  assumes "holds h NULL t" "distinct (addrs t)"
  shows "cells t = xs @ ys \<Longrightarrow> foreach_from h (start ys NULL) seen = Some (Inr (seen @ map snd ys))"
proof (induction ys arbitrary: xs seen)
  case Nil
  then show ?case by (subst foreach_from.simps) simp
next
  case (Cons y ys)
  obtain a e where y: "y = (a, e)" by fastforce
  have "a \<noteq> NULL" using holds_dom [OF assms(1), of a] Cons.prems y by auto
  moreover have "iter_value h a = Some (Inr e)"
    by (rule iter_value_holds [OF assms(1)]) (use Cons.prems y in simp)
  moreover have "pre_inc h a = Some (Inr (start ys NULL))"
    using pre_inc_holds [OF assms, of xs a e ys] Cons.prems y by simp
  ultimately show ?case
    using Cons.IH [of "xs @ [y]" "seen @ [e]"] Cons.prems y by (subst foreach_from.simps) simp
qed

lemma foreach_holds: "holds h NULL t \<Longrightarrow> distinct (addrs t) \<Longrightarrow> foreach h (root_of t) = Some (Inr (elems t))"
  using foreach_from_holds [of h t "[]" "cells t"] first_node_start [of h NULL t] by (simp add: foreach_def)

text \<open>The self-test compares the balance factor of a node with its own definition.\<close>

lemma holds_children:
  "holds h p t \<Longrightarrow> (a, e) \<in> set (cells t) \<Longrightarrow>
   \<exists>x hl hr. h a = Some x \<and> node_height h (tn_left x) = Some hl \<and> node_height h (tn_right x) = Some hr \<and> a \<noteq> NULL"
  by (induction t arbitrary: p) (auto, (blast intro: holds_node_height)+)

lemma verify_from_holds:
  assumes "holds h NULL t" "distinct (addrs t)"
  shows "cells t = xs @ ys \<Longrightarrow> verify_from h (start ys NULL) = Some (Inr True)"
proof (induction ys arbitrary: xs)
  case Nil
  then show ?case by (subst verify_from.simps) simp
next
  case (Cons y ys)
  obtain a e where y: "y = (a, e)" by fastforce
  have "(a, e) \<in> set (cells t)" using Cons.prems y by simp
  from holds_children [OF assms(1) this] obtain x hl hr where "h a = Some x"
    "node_height h (tn_left x) = Some hl" "node_height h (tn_right x) = Some hr" "a \<noteq> NULL" by blast
  moreover have "pre_inc h a = Some (Inr (start ys NULL))"
    using pre_inc_holds [OF assms, of xs a e ys] Cons.prems y by simp
  ultimately show ?case
    using Cons.IH [of "xs @ [y]"] Cons.prems y by (subst verify_from.simps) (simp add: balance_factor_def)
qed

section \<open>Search\<close>

lemma find_node_holds:
  "holds h p t \<Longrightarrow> sorted_keys (key \<circ> snd) (cells t) \<Longrightarrow>
   find_node key h (root_of t) k = Some (start (filter (\<lambda>c. key (snd c) = k) (cells t)) NULL)"
proof (induction t arbitrary: p)
  case Tip
  then show ?case by (subst find_node.simps) simp
next
  case (Nd a n e l r)
  consider "k < key e" | "key e < k" | "k = key e" by fastforce
  then show ?case
  proof cases
    case 1
    then have "filter (\<lambda>c. key (snd c) = k) (cells r) = []" using Nd.prems(2) by (fastforce simp: filter_empty_conv)
    then show ?thesis using 1 Nd by (subst find_node.simps) auto
  next
    case 2
    then have "filter (\<lambda>c. key (snd c) = k) (cells l) = []" using Nd.prems(2) by (fastforce simp: filter_empty_conv)
    then show ?thesis using 2 less_imp_not_less [OF 2] Nd by (subst find_node.simps) auto
  next
    case 3
    then have "filter (\<lambda>c. key (snd c) = k) (cells l) = []" using Nd.prems(2) by (fastforce simp: filter_empty_conv)
    then show ?thesis using 3 Nd.prems by (subst find_node.simps) auto
  qed
qed

lemma lower_bound_loop_holds:
  "holds h p t \<Longrightarrow> sorted_keys (key \<circ> snd) (cells t) \<Longrightarrow>
   lower_bound_loop key h (root_of t) k d = Some (start (filter (\<lambda>c. k \<le> key (snd c)) (cells t)) d)"
proof (induction t arbitrary: p d)
  case Tip
  then show ?case by (subst lower_bound_loop.simps) simp
next
  case (Nd a n e l r)
  show ?case
  proof (cases "k \<le> key e")
    case True
    then show ?thesis using Nd by (subst lower_bound_loop.simps) (auto simp: not_less)
  next
    case False
    then have "filter (\<lambda>c. k \<le> key (snd c)) (cells l) = []" using Nd.prems(2) by (fastforce simp: filter_empty_conv)
    then show ?thesis using False Nd by (subst lower_bound_loop.simps) (auto simp: not_less)
  qed
qed

lemma upper_bound_loop_holds:
  "holds h p t \<Longrightarrow> sorted_keys (key \<circ> snd) (cells t) \<Longrightarrow>
   upper_bound_loop key h (root_of t) k d = Some (start (filter (\<lambda>c. k < key (snd c)) (cells t)) d)"
proof (induction t arbitrary: p d)
  case Tip
  then show ?case by (subst upper_bound_loop.simps) simp
next
  case (Nd a n e l r)
  show ?case
  proof (cases "k < key e")
    case True
    then show ?thesis using Nd by (subst upper_bound_loop.simps) auto
  next
    case False
    then have "filter (\<lambda>c. k < key (snd c)) (cells l) = []" using Nd.prems(2) by (fastforce simp: filter_empty_conv)
    then show ?thesis using False Nd by (subst upper_bound_loop.simps) auto
  qed
qed

section \<open>Freeing\<close>

lemma clear_nodes_holds:
  "holds h p t \<Longrightarrow> distinct (addrs t) \<Longrightarrow>
   \<exists>h'. clear_nodes h (root_of t) = Some h' \<and> unchanged (set (addrs t)) h h' \<and> (\<forall>b\<in>set (addrs t). h' b = None)"
proof (induction t arbitrary: h p)
  case Tip
  then show ?case by (subst clear_nodes.simps) simp
next
  case (Nd a n e l r)
  let ?x = "\<lparr>tn_element = e, tn_height = n, tn_parent = p, tn_left = root_of l, tn_right = root_of r\<rparr>"
  have d: "distinct (addrs l)" "distinct (addrs r)" "a \<notin> set (addrs l)" "a \<notin> set (addrs r)"
    "set (addrs l) \<inter> set (addrs r) = {}" using Nd.prems(2) by auto
  have x: "h a = Some ?x" "a \<noteq> NULL" and hl: "holds h a l" and hr: "holds h a r" using Nd.prems(1) by auto
  obtain h1 where h1: "clear_nodes h (root_of l) = Some h1" "unchanged (set (addrs l)) h h1" "\<forall>b\<in>set (addrs l). h1 b = None"
    using Nd.IH(1) [OF hl d(1)] by blast
  have a1: "h1 a = Some ?x" using unchangedD [OF h1(2) d(3)] x by simp
  have "holds h1 a r" by (rule holds_unchanged [OF h1(2) d(5) hr])
  from Nd.IH(2) [OF this d(2)] obtain h2 where h2: "clear_nodes h1 (root_of r) = Some h2"
    "unchanged (set (addrs r)) h1 h2" "\<forall>b\<in>set (addrs r). h2 b = None" by blast
  have a2: "h2 a = Some ?x" using unchangedD [OF h2(2) d(4)] a1 by simp
  have l2: "h2 b = None" if "b \<in> set (addrs l)" for b
    using that h1(3) unchangedD [OF h2(2), of b] d(5) by (metis disjoint_iff)
  let ?h = "h2(a := None)" and ?S = "set (addrs (Nd a n e l r))"
  have "clear_nodes h a = Some ?h"
    using x h1(1) h2(1) a1 a2 by (subst clear_nodes.simps) (simp add: delete_node_def)
  moreover have "unchanged ?S h ?h" using h1(2) h2(2) by (auto simp: unchanged_def)
  moreover have "?h b = None" if "b \<in> ?S" for b
  proof -
    consider "b = a" | "b \<in> set (addrs l)" | "b \<in> set (addrs r)" using \<open>b \<in> ?S\<close> by auto
    then show ?thesis using l2 h2(3) by cases auto
  qed
  ultimately show ?case unfolding root_of.simps by blast
qed

end
