(* ===== verification/Tree_Object.thy ===== *)
theory Tree_Object
  imports Tree_Ops Tree_Walk
begin

text \<open>
  The tree object as its users (\<open>upan::map\<close>, \<open>upan::set\<close>) see it. The locale \<open>ordered_container\<close> is the
  contract: a container with a sequence of elements, sorted by key, on which insertion and removal act as on a sorted
  list. The tree meets it, so every sequence of calls yields what the same calls yield on sorted lists; its nodes
  stay where they are, its height stays logarithmic, and nothing but its own nodes is written.
\<close>

section \<open>The contract\<close>

datatype ('e, 'k) set_op = Insert 'e | Erase 'k

text \<open>Calls one after the other, with the flags they return.\<close>

fun run_ops ::
    "('e \<Rightarrow> 's \<Rightarrow> (bool \<times> 's) option) \<Rightarrow> ('k \<Rightarrow> 's \<Rightarrow> (bool \<times> 's) option) \<Rightarrow> ('e, 'k) set_op list \<Rightarrow> 's \<Rightarrow>
     (bool list \<times> 's) option" where
  "run_ops ins del [] s = Some ([], s)"
| "run_ops ins del (c # cs) s = do {
     (b, s) \<leftarrow> (case c of Insert e \<Rightarrow> ins e s | Erase k \<Rightarrow> del k s);
     (bs, s) \<leftarrow> run_ops ins del cs s;
     Some (b # bs, s) }"

fun list_op :: "('e \<Rightarrow> 'k::linorder) \<Rightarrow> ('e, 'k) set_op \<Rightarrow> 'e list \<Rightarrow> 'e list" where
  "list_op key (Insert e) es = add_key key e es"
| "list_op key (Erase k) es = del_key key k es"

fun op_flag :: "('e \<Rightarrow> 'k) \<Rightarrow> ('e, 'k) set_op \<Rightarrow> 'e list \<Rightarrow> bool" where
  "op_flag key (Insert e) es = (key e \<notin> key ` set es)"
| "op_flag key (Erase k) es = (k \<in> key ` set es)"

fun op_flags :: "('e \<Rightarrow> 'k::linorder) \<Rightarrow> ('e, 'k) set_op list \<Rightarrow> 'e list \<Rightarrow> bool list" where
  "op_flags key [] es = []"
| "op_flags key (c # cs) es = op_flag key c es # op_flags key cs (list_op key c es)"

locale ordered_container =
  fixes key :: "'e \<Rightarrow> 'k::linorder"
    and repr :: "'s \<Rightarrow> 'e list \<Rightarrow> bool"
    and ins :: "'e \<Rightarrow> 's \<Rightarrow> (bool \<times> 's) option"
    and del :: "'k \<Rightarrow> 's \<Rightarrow> (bool \<times> 's) option"
    and exists :: "'k \<Rightarrow> 's \<Rightarrow> bool option"
  assumes repr_sorted: "repr s es \<Longrightarrow> sorted_keys key es"
    and ins_repr: "repr s es \<Longrightarrow> \<exists>s'. ins e s = Some (key e \<notin> key ` set es, s') \<and> repr s' (add_key key e es)"
    and del_repr: "repr s es \<Longrightarrow> \<exists>s'. del k s = Some (k \<in> key ` set es, s') \<and> repr s' (del_key key k es)"
    and exists_repr: "repr s es \<Longrightarrow> exists k s = Some (k \<in> key ` set es)"
begin

lemma op_repr:
  assumes "repr s es"
  shows "\<exists>s'. (case c of Insert e \<Rightarrow> ins e s | Erase k \<Rightarrow> del k s) = Some (op_flag key c es, s') \<and> repr s' (list_op key c es)"
  using ins_repr [OF assms] del_repr [OF assms] by (cases c) auto

lemma run_repr: "repr s es \<Longrightarrow> \<exists>s'. run_ops ins del cs s = Some (op_flags key cs es, s') \<and> repr s' (fold (list_op key) cs es)"
proof (induction cs arbitrary: s es)
  case (Cons c cs)
  obtain s1 where s1: "(case c of Insert e \<Rightarrow> ins e s | Erase k \<Rightarrow> del k s) = Some (op_flag key c es, s1)"
    "repr s1 (list_op key c es)"
    using op_repr [OF Cons.prems] by blast
  obtain s2 where "run_ops ins del cs s1 = Some (op_flags key cs (list_op key c es), s2)"
    "repr s2 (fold (list_op key) cs (list_op key c es))"
    using Cons.IH [OF s1(2)] by blast
  then show ?case using s1(1) by (intro exI [of _ s2]) simp
qed auto

lemma exists_after_insert:
  assumes "repr s es" "ins e s = Some (b, s')"
  shows "exists k s' = Some (k = key e \<or> the (exists k s))"
proof -
  have "repr s' (add_key key e es)" using ins_repr [OF assms(1), of e] assms(2) by auto
  then show ?thesis
    using exists_repr [OF assms(1), of k] exists_repr [of s' _ k] set_add_key [OF repr_sorted [OF assms(1)], of e] by simp
qed

lemma exists_after_erase:
  assumes "repr s es" "del k s = Some (b, s')"
  shows "exists j s' = Some (j \<noteq> k \<and> the (exists j s))" "b = the (exists k s)"
proof -
  have "repr s' (del_key key k es)" "b = (k \<in> key ` set es)" using del_repr [OF assms(1), of k] assms(2) by auto
  then show "exists j s' = Some (j \<noteq> k \<and> the (exists j s))" "b = the (exists k s)"
    using exists_repr [OF assms(1)] exists_repr [of s' _ j] set_del_key [of key k es] by auto
qed

end

section \<open>The tree meets it\<close>

text \<open>
  The object represents the tree \<open>t\<close>: root and size, the heap, order and balance. The heap has finitely many
  nodes, so that there is always an address left.
\<close>

definition tree_ok :: "('e \<Rightarrow> 'k::linorder) \<Rightarrow> tree \<times> 'e theap \<Rightarrow> 'e gtree \<Rightarrow> bool" where
  "tree_ok key s t \<longleftrightarrow> tr_root (fst s) = root_of t \<and> tr_size (fst s) = int (length (cells t)) \<and>
     holds (snd s) NULL t \<and> distinct (addrs t) \<and> avl t \<and> sorted_keys (key \<circ> snd) (cells t) \<and> finite (dom (snd s))"

definition new_fresh :: "('e theap \<Rightarrow> addr) \<Rightarrow> bool" where
  "new_fresh new \<longleftrightarrow> (\<forall>h. finite (dom h) \<longrightarrow> new h \<noteq> NULL \<and> h (new h) = None)"

lemma unchanged_finite: "unchanged S h h' \<Longrightarrow> finite S \<Longrightarrow> finite (dom h) \<Longrightarrow> finite (dom h')"
proof (rule finite_subset [of _ "dom h \<union> S"])
  show "unchanged S h h' \<Longrightarrow> dom h' \<subseteq> dom h \<union> S" using unchangedD by fastforce
qed simp

lemma tree_ok_empty [simp]: "finite (dom h) \<Longrightarrow> tree_ok key (empty_tree, h) Tip"
  by (simp add: tree_ok_def empty_tree_def)

text \<open>After the recursion the root's parent pointer is cleared.\<close>

lemma detach_root_holds:
  assumes "becomes S h n h1 t" "distinct (addrs t)" "set (addrs t) \<subseteq> S"
  shows "\<exists>h2. detach_root h1 n = Some h2 \<and> holds h2 NULL t \<and> unchanged S h h2 \<and> unchanged (set (addrs t)) h1 h2"
proof (cases "t = Tip")
  case True
  then show ?thesis using assms by (auto simp: becomes_def detach_root_def)
next
  case False
  obtain p where p: "holds h1 p t" "unchanged S h h1" "n = root_of t" using assms(1) by (auto simp: becomes_def)
  obtain h2 where h2: "set_parent h1 (root_of t) NULL = Some h2" "holds h2 NULL t" "unchanged {root_of t} h1 h2"
    using set_parent_holds [OF p(1) False assms(2)] by blast
  have r: "root_of t \<in> set (addrs t)" by (rule root_in_addrs [OF False])
  have "unchanged S h h2" by (rule unchanged_trans [OF p(2) h2(3)]) (use r assms(3) in blast)+
  moreover have "unchanged (set (addrs t)) h1 h2" by (rule unchanged_mono [OF h2(3)]) (use r in blast)
  moreover have "n \<noteq> NULL" using p False holds_root by metis
  ultimately show ?thesis using h2 p(3) by (intro exI [of _ h2]) (simp add: detach_root_def)
qed

lemma tree_insert_ok:
  assumes "tree_ok key (tr, h) t" "new_fresh new"
  shows "\<exists>i tr' h'. tree_insert key new e (tr, h) = Some ((i, key e \<notin> key ` set (elems t)), tr', h') \<and>
    tree_ok key (tr', h') (g_insert key (new h) e t) \<and> unchanged (set (addrs t) \<union> set (addrs (g_insert key (new h) e t))) h h' \<and>
    at_key key (g_insert key (new h) e t) i (key e)"
proof -
  let ?t = "g_insert key (new h) e t" and ?S = "set (addrs t) \<union> set (addrs (g_insert key (new h) e t))"
  have ok: "tr_root tr = root_of t" "tr_size tr = int (length (cells t))" "holds h NULL t" "distinct (addrs t)" "avl t"
    "sorted_keys (key \<circ> snd) (cells t)" "finite (dom h)"
    using assms(1) by (auto simp: tree_ok_def)
  have new: "new h \<noteq> NULL" "h (new h) = None" using assms(2) ok(7) by (auto simp: new_fresh_def)
  obtain n i h1 where h1: "insert_node key new h (root_of t) e = Some (n, (i, key e \<notin> key ` set (elems t)), h1)"
    "becomes ?S h n h1 ?t" "at_key key ?t i (key e)"
    using insert_node_holds [of new h NULL t key e, OF new ok(3-6)] by blast
  note dist = distinct_g_insert [OF ok(6,4) new_not_in [OF new(2) ok(3)], of e]
  obtain h2 where h2: "detach_root h1 n = Some h2" "holds h2 NULL ?t" "unchanged ?S h h2"
    using detach_root_holds [OF h1(2) dist(1)] by blast
  have "finite (dom h2)" by (rule unchanged_finite [OF h2(3) _ ok(7)]) simp
  moreover have "length (cells ?t) = (if key e \<in> key ` set (elems t) then length (cells t) else Suc (length (cells t)))"
    using length_add_key [OF ok(6), of "(new h, e)"] by (simp add: cells_g_insert [OF ok(6)] image_image)
  moreover have "sorted_keys (key \<circ> snd) (cells ?t)"
    unfolding cells_g_insert [OF ok(6)] by (rule sorted_add_key [OF ok(6)])
  moreover have "n = root_of ?t" using h1(2) by (simp add: becomes_def)
  ultimately show ?thesis
    using h1(1,3) h2 ok dist(1) avl_g_insert [OF ok(5), of key "new h" e]
    by (simp add: tree_insert_def tree_ok_def)
qed

lemma tree_erase_ok:
  assumes "tree_ok key (tr, h) t"
  shows "\<exists>tr' h'. tree_erase key k (tr, h) = Some (k \<in> key ` set (elems t), tr', h') \<and>
    tree_ok key (tr', h') (g_erase key k t) \<and> unchanged (set (addrs t)) h h' \<and>
    (\<forall>b. b \<in> set (addrs t) \<longrightarrow> b \<notin> set (addrs (g_erase key k t)) \<longrightarrow> h' b = None)"
proof -
  let ?t = "g_erase key k t" and ?S = "set (addrs t)"
  have ok: "tr_root tr = root_of t" "tr_size tr = int (length (cells t))" "holds h NULL t" "distinct (addrs t)" "avl t"
    "sorted_keys (key \<circ> snd) (cells t)" "finite (dom h)"
    using assms(1) by (auto simp: tree_ok_def)
  obtain n h1 where h1: "erase_node key h (root_of t) k = Some (n, k \<in> key ` set (elems t), h1)"
    "becomes ?S h n h1 ?t" "\<And>b. b \<in> ?S \<Longrightarrow> b \<notin> set (addrs ?t) \<Longrightarrow> h1 b = None"
    using erase_node_holds [OF ok(3-6), of k] by blast
  note dist = g_erase_addrs [OF ok(6,4), of k]
  obtain h2 where h2: "detach_root h1 n = Some h2" "holds h2 NULL ?t" "unchanged ?S h h2" "unchanged (set (addrs ?t)) h1 h2"
    using detach_root_holds [OF h1(2) dist] by blast
  have "finite (dom h2)" by (rule unchanged_finite [OF h2(3) _ ok(7)]) simp
  moreover have "int (length (cells ?t)) = (if k \<in> key ` set (elems t) then int (length (cells t)) - 1 else int (length (cells t)))"
    using length_del_key [OF ok(6), of k] by (cases "cells t") (auto simp: cells_g_erase [OF ok(6)] image_image)
  moreover have "sorted_keys (key \<circ> snd) (cells ?t)"
    unfolding cells_g_erase [OF ok(6)] by (rule sorted_del_key [OF ok(6)])
  moreover have "n = root_of ?t" using h1(2) by (simp add: becomes_def)
  moreover have "h2 b = None" if "b \<in> ?S" "b \<notin> set (addrs ?t)" for b
    using h1(3) [OF that] unchangedD [OF h2(4) that(2)] by simp
  ultimately show ?thesis
    using h1(1) h2 ok dist(1) avl_g_erase [OF ok(5), of key k]
    by (simp add: tree_erase_def tree_ok_def)
qed

lemma tree_exists_ok: "tree_ok key s t \<Longrightarrow> tree_exists key k s = Some (k \<in> key ` set (elems t))"
proof -
  assume ok: "tree_ok key s t"
  then have "tree_find key k s = Some (start (filter (\<lambda>c. key (snd c) = k) (cells t)) NULL)"
    using find_node_holds [of "snd s" NULL t key k] by (simp add: tree_ok_def tree_find_def)
  moreover have "(start (filter (\<lambda>c. key (snd c) = k) (cells t)) NULL \<noteq> NULL) = (k \<in> key ` set (elems t))"
  proof (cases "filter (\<lambda>c. key (snd c) = k) (cells t)")
    case Nil
    then show ?thesis by (auto simp: filter_empty_conv)
  next
    case (Cons c cs)
    then have "c \<in> set (filter (\<lambda>c. key (snd c) = k) (cells t))" by simp
    then have c: "c \<in> set (cells t)" "key (snd c) = k" by simp_all
    then have "fst c \<noteq> NULL" using holds_dom [of "snd s" NULL t "fst c"] ok by (auto simp: tree_ok_def)
    then show ?thesis using Cons c by force
  qed
  ultimately show ?thesis by (simp add: tree_exists_def tree_find_def)
qed

text \<open>The same when the heap has the tree's nodes and no others.\<close>

definition tree_owns :: "('e \<Rightarrow> 'k::linorder) \<Rightarrow> tree \<times> 'e theap \<Rightarrow> 'e gtree \<Rightarrow> bool" where
  "tree_owns key s t \<longleftrightarrow> tree_ok key s t \<and> dom (snd s) = set (addrs t)"

lemma dom_tree:
  assumes "holds h p t" "unchanged (S \<union> set (addrs t)) h0 h" "dom h0 = S" "\<And>b. b \<in> S \<Longrightarrow> b \<notin> set (addrs t) \<Longrightarrow> h b = None"
  shows "dom h = set (addrs t)"
proof
  show "dom h \<subseteq> set (addrs t)"
  proof
    fix b
    assume b: "b \<in> dom h"
    show "b \<in> set (addrs t)"
    proof (rule ccontr)
      assume "b \<notin> set (addrs t)"
      moreover from this have "h b = h0 b" if "b \<notin> S" using that unchangedD [OF assms(2), of b] by auto
      ultimately show False using assms(3) assms(4) [of b] b by (cases "b \<in> S") auto
    qed
  qed
  show "set (addrs t) \<subseteq> dom h" using holds_dom [OF assms(1)] by auto
qed

lemma add_key_mono: "set es \<subseteq> set (add_key key e es)"
proof
  fix x
  assume x: "x \<in> set es"
  show "x \<in> set (add_key key e es)"
  proof (cases "key e \<in> key ` set es")
    case False
    then have "key x < key e \<or> key e < key x" using x by (metis image_eqI linorder_neqE)
    then show ?thesis using x False by (auto simp: add_key_def)
  qed (use x in \<open>simp add: add_key_def\<close>)
qed

definition insert_flag ::
    "('e \<Rightarrow> 'k::linorder) \<Rightarrow> ('e theap \<Rightarrow> addr) \<Rightarrow> 'e \<Rightarrow> tree \<times> 'e theap \<Rightarrow> (bool \<times> tree \<times> 'e theap) option" where
  "insert_flag key new e s = map_option (\<lambda>(r, s). (snd r, s)) (tree_insert key new e s)"

definition owned_elems :: "('e \<Rightarrow> 'k::linorder) \<Rightarrow> ('e theap \<Rightarrow> addr) \<Rightarrow> tree \<times> 'e theap \<Rightarrow> 'e list \<Rightarrow> bool" where
  "owned_elems key new s es \<longleftrightarrow> new_fresh new \<and> (\<exists>t. tree_owns key s t \<and> es = elems t)"

interpretation tree: ordered_container key "owned_elems key new" "insert_flag key new" "tree_erase key" "tree_exists key"
  for key :: "'e \<Rightarrow> 'k::linorder" and new
proof unfold_locales
  fix s es
  assume "owned_elems key new s es"
  then show "sorted_keys key es" by (auto simp: owned_elems_def tree_owns_def tree_ok_def sorted_keys_snd)
next
  fix s es e
  assume "owned_elems key new s es"
  then obtain tr h t where t: "new_fresh new" "s = (tr, h)" "tree_ok key (tr, h) t" "dom h = set (addrs t)" "es = elems t"
    by (cases s) (auto simp: owned_elems_def tree_owns_def)
  let ?t = "g_insert key (new h) e t"
  obtain i tr' h' where i: "tree_insert key new e (tr, h) = Some ((i, key e \<notin> key ` set (elems t)), tr', h')"
    "tree_ok key (tr', h') ?t" "unchanged (set (addrs t) \<union> set (addrs ?t)) h h'"
    using tree_insert_ok [where e = e, OF t(3,1)] by blast
  have srt: "sorted_keys (key \<circ> snd) (cells t)" using t(3) by (simp add: tree_ok_def)
  have "set (addrs t) \<subseteq> set (addrs ?t)" 
    using image_mono [OF add_key_mono, of fst] by (simp add: cells_g_insert [OF srt])
  then have "dom h' = set (addrs ?t)"
    using i(2,3) t(4) by (intro dom_tree [of h' NULL ?t "set (addrs t)" h]) (auto simp: tree_ok_def)
  moreover have "elems ?t = add_key key e es"
    using map_snd_add_key [where key = key and c = "(new h, e)" and cs = "cells t"] by (simp add: cells_g_insert [OF srt] t(5))
  ultimately show "\<exists>s'. insert_flag key new e s = Some (key e \<notin> key ` set es, s') \<and> owned_elems key new s' (add_key key e es)"
    using i(1,2) t by (auto simp: insert_flag_def owned_elems_def tree_owns_def intro!: exI [of _ ?t])
next
  fix s es k
  assume "owned_elems key new s es"
  then obtain tr h t where t: "new_fresh new" "s = (tr, h)" "tree_ok key (tr, h) t" "dom h = set (addrs t)" "es = elems t"
    by (cases s) (auto simp: owned_elems_def tree_owns_def)
  let ?t = "g_erase key k t"
  obtain tr' h' where i: "tree_erase key k (tr, h) = Some (k \<in> key ` set (elems t), tr', h')"
    "tree_ok key (tr', h') ?t" "unchanged (set (addrs t)) h h'"
    "\<And>b. b \<in> set (addrs t) \<Longrightarrow> b \<notin> set (addrs ?t) \<Longrightarrow> h' b = None"
    using tree_erase_ok [OF t(3), of k] by blast
  have srt: "sorted_keys (key \<circ> snd) (cells t)" using t(3) by (simp add: tree_ok_def)
  have "dom h' = set (addrs ?t)"
    using i(2-4) t(4) unchanged_mono [OF i(3)] by (intro dom_tree [of h' NULL ?t "set (addrs t)" h]) (auto simp: tree_ok_def)
  moreover have "elems ?t = del_key key k es"
    using map_snd_del_key [where key = key and k = k and cs = "cells t"] by (simp add: cells_g_erase [OF srt] t(5))
  ultimately show "\<exists>s'. tree_erase key k s = Some (k \<in> key ` set es, s') \<and> owned_elems key new s' (del_key key k es)"
    using i(1,2) t by (auto simp: owned_elems_def tree_owns_def intro!: exI [of _ ?t])
next
  fix s es k
  assume "owned_elems key new s es"
  then obtain t where "tree_ok key s t" "es = elems t" by (auto simp: owned_elems_def tree_owns_def)
  then show "tree_exists key k s = Some (k \<in> key ` set es)" using tree_exists_ok [of key s t k] by simp
qed

section \<open>Properties\<close>

lemma owned_empty: "new_fresh new \<Longrightarrow> owned_elems key new (empty_tree, Map.empty) []"
  unfolding owned_elems_def tree_owns_def by (intro conjI exI [of _ Tip]) simp_all

lemma owned_foreach: "owned_elems key new s es \<Longrightarrow> foreach (snd s) (tr_root (fst s)) = Some (Inr es)"
  using foreach_holds by (auto simp: owned_elems_def tree_owns_def tree_ok_def)

lemma owned_size:
  assumes "owned_elems key new s es"
  shows "tr_size (fst s) = int (length es)" "card (dom (snd s)) = length es"
proof -
  obtain t where "tree_ok key s t" "dom (snd s) = set (addrs t)" "es = elems t"
    using assms by (auto simp: owned_elems_def tree_owns_def)
  then show "tr_size (fst s) = int (length es)" "card (dom (snd s)) = length es"
    using distinct_card [of "addrs t"] by (auto simp: tree_ok_def)
qed

text \<open>The height of what hangs below an address, by the child pointers alone: no stored height is looked at. There is a height only
  where the pointers do not run in a circle, and then one.\<close>

inductive heap_height :: "'e theap \<Rightarrow> addr \<Rightarrow> nat \<Rightarrow> bool" for h :: "'e theap" where
  null: "heap_height h NULL 0"
| node: "a \<noteq> NULL \<Longrightarrow> h a = Some x \<Longrightarrow> heap_height h (tn_left x) m \<Longrightarrow> heap_height h (tn_right x) n \<Longrightarrow>
    heap_height h a (Suc (max m n))"

inductive_cases heap_height_elim: "heap_height h a n"

lemma heap_height_unique: "heap_height h a m \<Longrightarrow> heap_height h a n \<Longrightarrow> m = n"
proof (induction arbitrary: n rule: heap_height.induct)
  case null
  then show ?case by (auto elim: heap_height_elim)
next
  case (node a x l r)
  from node.prems node.hyps(1,2) obtain l' r' where "n = Suc (max l' r')" "heap_height h (tn_left x) l'" "heap_height h (tn_right x) r'"
    by (auto elim: heap_height_elim)
  with node.IH show ?case by blast
qed

lemma holds_heap_height: "holds h p t \<Longrightarrow> heap_height h (root_of t) (real_height t)"
proof (induction t arbitrary: p)
  case (Nd a n e l r)
  let ?x = "\<lparr>tn_element = e, tn_height = n, tn_parent = p, tn_left = root_of l, tn_right = root_of r\<rparr>"
  have "a \<noteq> NULL" "h a = Some ?x" "heap_height h (tn_left ?x) (real_height l)" "heap_height h (tn_right ?x) (real_height r)"
    using Nd by auto
  then show ?case unfolding root_of.simps real_height.simps by (rule heap_height.node)
qed (simp add: heap_height.null)

text \<open>A node is in balance: its children have heights, which differ by one at most, and its stored height is its height.\<close>

definition in_balance :: "'e theap \<Rightarrow> addr \<Rightarrow> bool" where
  "in_balance h a \<longleftrightarrow> (\<exists>x m n. h a = Some x \<and> heap_height h (tn_left x) m \<and> heap_height h (tn_right x) n \<and>
     m \<le> n + 1 \<and> n \<le> m + 1 \<and> tn_height x = 1 + int (max m n))"

lemma holds_in_balance: "holds h p t \<Longrightarrow> avl t \<Longrightarrow> a \<in> set (addrs t) \<Longrightarrow> in_balance h a"
proof (induction t arbitrary: p)
  case (Nd b n e l r)
  then consider "a = b" | "a \<in> set (addrs l)" | "a \<in> set (addrs r)" by auto
  then show ?case
  proof cases
    case 1
    then have "heap_height h (root_of l) (real_height l)" "heap_height h (root_of r) (real_height r)"
      using Nd.prems(1) holds_heap_height by auto
    moreover have "n = max (int (real_height l)) (int (real_height r)) + 1" "\<bar>int (real_height l) - int (real_height r)\<bar> \<le> 1"
      using Nd.prems(2) avl_real_height [of l] avl_real_height [of r] by auto
    ultimately show ?thesis unfolding in_balance_def using 1 Nd.prems(1) by fastforce
  qed (use Nd in auto)
qed simp

text \<open>A concrete allocator, for the witnesses: the lowest address not in use.\<close>

definition first_fit :: "'e theap \<Rightarrow> addr" where
  "first_fit h = (LEAST a. a \<noteq> NULL \<and> h a = None)"

lemma first_fit_fresh: "new_fresh first_fit"
  unfolding new_fresh_def
proof (intro allI impI)
  fix h :: "'e theap"
  assume "finite (dom h)"
  then obtain a where "a \<notin> insert NULL (dom h)" using ex_new_if_finite [OF infinite_UNIV_nat] by (metis finite_insert)
  then have "a \<noteq> NULL \<and> h a = None" by (auto simp: dom_def)
  then show "first_fit h \<noteq> NULL \<and> h (first_fit h) = None" unfolding first_fit_def by (rule LeastI)
qed

text \<open>C2.
  Every sequence of insertions and deletions on an empty tree runs without touching a deleted node or looping, returns
  what the same sequence returns on a sorted list, and leaves a tree that iterates over exactly that list, in order,
  finds exactly its keys, and reports its length.\<close>

theorem tree_refines_sorted_list:
  assumes "new_fresh new"
  shows "\<exists>s. run_ops (insert_flag key new) (tree_erase key) ops (empty_tree, Map.empty) = Some (op_flags key ops [], s) \<and>
    foreach (snd s) (tr_root (fst s)) = Some (Inr (fold (list_op key) ops [])) \<and>
    tr_size (fst s) = int (length (fold (list_op key) ops [])) \<and>
    (\<forall>k. tree_exists key k s = Some (k \<in> key ` set (fold (list_op key) ops [])))"
proof -
  obtain s where "run_ops (insert_flag key new) (tree_erase key) ops (empty_tree, Map.empty) = Some (op_flags key ops [], s)"
    and s: "owned_elems key new s (fold (list_op key) ops [])"
    using tree.run_repr [OF owned_empty [OF assms]] by blast
  then show ?thesis using owned_foreach [OF s] owned_size [OF s] tree.exists_repr [OF s] by blast
qed

definition demo_ops :: "(nat, nat) set_op list" where
  "demo_ops = [Insert 5, Insert 2, Insert 9, Insert 2, Erase 5, Erase 7]"

lemma demo_ops_eval:
  "op_flags id demo_ops [] = [True, True, True, False, True, False]"
  "fold (list_op id) demo_ops [] = [2, 9]"
  by (simp_all add: demo_ops_def add_key_def del_key_def)

theorem tree_refines_sorted_list_witness:
  "\<exists>s. run_ops (insert_flag id first_fit) (tree_erase id) demo_ops (empty_tree, Map.empty) =
      Some ([True, True, True, False, True, False], s) \<and>
    foreach (snd s) (tr_root (fst s)) = Some (Inr [2, 9]) \<and> tr_size (fst s) = 2"
  using tree_refines_sorted_list [OF first_fit_fresh, of id demo_ops] unfolding demo_ops_eval by fastforce

text \<open>C9.
  The tree stays balanced and leaks nothing: after any sequence of insertions and deletions there are as many allocated nodes
  as elements; at each of them the heights of the two subtrees, measured along the child pointers, differ by one at most, and the
  stored height is the height of the node; and the height of the whole tree is at most twice the logarithm of its size.\<close>

theorem tree_stays_balanced:
  assumes "new_fresh new" "run_ops (insert_flag key new) (tree_erase key) ops (empty_tree, Map.empty) = Some (bs, s)"
  shows "card (dom (snd s)) = nat (tr_size (fst s)) \<and> (\<forall>a\<in>dom (snd s). in_balance (snd s) a) \<and>
    (\<exists>n. heap_height (snd s) (tr_root (fst s)) n \<and> 2 ^ (n div 2) \<le> tr_size (fst s) + 1)"
proof -
  have o: "owned_elems key new s (fold (list_op key) ops [])"
    using tree.run_repr [OF owned_empty [OF assms(1)], where cs = ops and key = key] assms(2) by auto
  then obtain t where t: "tree_ok key s t" "dom (snd s) = set (addrs t)"
    by (auto simp: owned_elems_def tree_owns_def)
  then have h: "holds (snd s) NULL t" "avl t" "tr_root (fst s) = root_of t" "tr_size (fst s) = int (length (cells t))"
    by (auto simp: tree_ok_def)
  have "int (2 ^ (real_height t div 2)) \<le> int (length (cells t) + 1)"
    using avl_size [OF h(2)] by (rule zle_int [THEN iffD2])
  then have "2 ^ (real_height t div 2) \<le> tr_size (fst s) + 1" using h(4) by simp
  moreover have "heap_height (snd s) (tr_root (fst s)) (real_height t)" using holds_heap_height [OF h(1)] h(3) by simp
  moreover have "card (dom (snd s)) = nat (tr_size (fst s))" using owned_size [OF o] by simp
  moreover have "\<forall>a\<in>dom (snd s). in_balance (snd s) a"
    unfolding t(2) using holds_in_balance [OF h(1,2)] by blast
  ultimately show ?thesis by blast
qed

theorem tree_stays_balanced_witness:
  "\<exists>s bs. run_ops (insert_flag id first_fit) (tree_erase id) demo_ops (empty_tree, Map.empty) = Some (bs, s) \<and>
    (\<forall>a\<in>dom (snd s). in_balance (snd s) a)"
proof -
  obtain s where "run_ops (insert_flag id first_fit) (tree_erase id) demo_ops (empty_tree, Map.empty) = Some (op_flags id demo_ops [], s)"
    using tree.run_repr [OF owned_empty [OF first_fit_fresh], where key = id and cs = demo_ops] by blast
  then show ?thesis using tree_stays_balanced [OF first_fit_fresh, of id demo_ops] by blast
qed

text \<open>C23.
  Deletion invalidates no iterator but the one to the deleted element: every other node keeps its address and its element,
  even the one that takes the deleted node's place in the tree, and incrementing it reaches the next remaining element.\<close>

theorem erase_keeps_iterators:
  assumes "tree_ok key (tr, h) t" "tree_erase key k (tr, h) = Some (b, tr', h')"
    and "filter (\<lambda>c. key (snd c) \<noteq> k) (cells t) = xs @ (i, e) # ys"
  shows "iter_value h' i = Some (Inr e) \<and> pre_inc h' i = Some (Inr (start ys NULL))"
proof -
  have t': "tree_ok key (tr', h') (g_erase key k t)" using tree_erase_ok [OF assms(1), of k] assms(2) by auto
  have "cells (g_erase key k t) = xs @ (i, e) # ys"
    using cells_g_erase [of key t k] assms(1,3) by (simp add: tree_ok_def del_key_def)
  then show ?thesis
    using t' pre_inc_holds [of h' "g_erase key k t" xs i e ys] iter_value_holds [of h' NULL "g_erase key k t" i e]
    by (auto simp: tree_ok_def)
qed

definition demo_tree :: "nat gtree" where
  "demo_tree = Nd 1 2 10 Tip (Nd 2 1 20 Tip Tip)"

definition demo_heap :: "nat theap" where
  "demo_heap = [1 \<mapsto> \<lparr>tn_element = 10, tn_height = 2, tn_parent = 0, tn_left = 0, tn_right = 2\<rparr>,
     2 \<mapsto> \<lparr>tn_element = 20, tn_height = 1, tn_parent = 1, tn_left = 0, tn_right = 0\<rparr>]"

lemma demo_tree_ok: "tree_ok id (\<lparr>tr_root = 1, tr_size = 2\<rparr>, demo_heap) demo_tree"
  by (simp add: tree_ok_def demo_tree_def demo_heap_def)

theorem erase_keeps_iterators_witness:
  "\<exists>tr' h'. tree_erase id 10 (\<lparr>tr_root = 1, tr_size = 2\<rparr>, demo_heap) = Some (True, tr', h') \<and>
    iter_value h' 2 = Some (Inr 20) \<and> pre_inc h' 2 = Some (Inr NULL)"
proof -
  obtain tr' h' where e: "tree_erase id 10 (\<lparr>tr_root = 1, tr_size = 2\<rparr>, demo_heap) = Some (True, tr', h')"
    using tree_erase_ok [OF demo_tree_ok, of 10] by (auto simp: demo_tree_def)
  show ?thesis
    using erase_keeps_iterators [OF demo_tree_ok e, of "[]" 2 20 "[]"] e by (auto simp: demo_tree_def)
qed

section \<open>Copies\<close>

lemma tree_clear_ok:
  assumes "tree_ok key (tr, h) t"
  shows "\<exists>h'. tree_clear (tr, h) = Some (empty_tree, h') \<and> tree_ok key (empty_tree, h') Tip \<and>
    unchanged (set (addrs t)) h h' \<and> (\<forall>b\<in>set (addrs t). h' b = None)"
proof -
  have ok: "tr_root tr = root_of t" "holds h NULL t" "distinct (addrs t)" "finite (dom h)"
    using assms by (auto simp: tree_ok_def)
  obtain h' where h': "clear_nodes h (root_of t) = Some h'" "unchanged (set (addrs t)) h h'" "\<forall>b\<in>set (addrs t). h' b = None"
    using clear_nodes_holds [OF ok(2,3)] by blast
  have "finite (dom h')" by (rule unchanged_finite [OF h'(2) _ ok(4)]) simp
  then have "tree_ok key (empty_tree, h') Tip" by simp
  then show ?thesis using h' ok(1) by (auto simp: tree_clear_def empty_tree_def)
qed

lemma add_key_last: "\<forall>x\<in>set es. key x < key e \<Longrightarrow> add_key key e es = es @ [e]"
  by (auto simp: add_key_def filter_id_conv filter_empty_conv not_less less_imp_le)

lemma tree_copy_from_ok:
  assumes new: "new_fresh new" and d: "distinct (addrs u)" and s: "sorted_keys (key \<circ> snd) (cells u)"
  shows "cells u = xs @ ys \<Longrightarrow> holds h NULL u \<Longrightarrow> tree_ok key (tr, h) t \<Longrightarrow> set (addrs t) \<inter> set (addrs u) = {} \<Longrightarrow>
    elems t = map snd xs \<Longrightarrow>
    \<exists>tr' h' t'. tree_copy_from key new (start ys NULL) (tr, h) = Some (Inr (tr', h')) \<and> tree_ok key (tr', h') t' \<and>
      elems t' = elems u \<and> holds h' NULL u \<and> set (addrs t') \<inter> set (addrs u) = {}"
proof (induction ys arbitrary: xs tr h t)
  case Nil
  then show ?case by (subst tree_copy_from.simps) auto
next
  case (Cons y ys)
  obtain a e where y: "y = (a, e)" by fastforce
  have mem: "(a, e) \<in> set (cells u)" using Cons.prems(1) y by simp
  have a: "a \<noteq> NULL" using holds_dom [OF Cons.prems(2), of a] mem by force
  let ?t = "g_insert key (new h) e t"
  obtain i tr1 h1 where i: "tree_insert key new e (tr, h) = Some ((i, key e \<notin> key ` set (elems t)), tr1, h1)"
    "tree_ok key (tr1, h1) ?t" "unchanged (set (addrs t) \<union> set (addrs ?t)) h h1"
    using tree_insert_ok [where e = e, OF Cons.prems(3) new] by blast
  have srt: "sorted_keys (key \<circ> snd) (cells t)" and fin: "finite (dom h)" using Cons.prems(3) by (auto simp: tree_ok_def)
  have "new h \<notin> set (addrs u)" using new_not_in [OF _ Cons.prems(2), of "new h"] new fin by (auto simp: new_fresh_def)
  moreover have "set (addrs ?t) \<subseteq> insert (new h) (set (addrs t))" by (auto simp: cells_g_insert [OF srt] add_key_def)
  ultimately have dis: "set (addrs ?t) \<inter> set (addrs u) = {}" using Cons.prems(4) by blast
  have u: "holds h1 NULL u" by (rule holds_unchanged [OF i(3) _ Cons.prems(2)]) (use dis Cons.prems(4) in blast)
  have "\<forall>x\<in>set (map snd xs). key x < key e" using s Cons.prems(1) y by auto
  then have "elems ?t = map snd (xs @ [y])"
    using map_snd_add_key [where key = key and c = "(new h, e)" and cs = "cells t"] add_key_last [of "map snd xs" key e] y
    by (simp add: cells_g_insert [OF srt] Cons.prems(5))
  from Cons.IH [OF _ u i(2) dis this] Cons.prems(1) obtain tr' h' t' where
    c: "tree_copy_from key new (start ys NULL) (tr1, h1) = Some (Inr (tr', h'))" "tree_ok key (tr', h') t'"
      "elems t' = elems u" "holds h' NULL u" "set (addrs t') \<inter> set (addrs u) = {}"
    by auto
  moreover have "pre_inc h1 a = Some (Inr (start ys NULL))" by (rule pre_inc_holds [OF u d]) (use Cons.prems(1) y in simp)
  ultimately have "tree_copy_from key new (start (y # ys) NULL) (tr, h) = Some (Inr (tr', h'))"
    using i(1) a y iter_value_holds [OF Cons.prems(2) mem] by (subst tree_copy_from.simps) simp
  with c(2-5) show ?case by blast
qed

text \<open>
  Copy assignment frees the target's nodes and fills it with new nodes for the elements of the source; the source is
  left as it was, the two trees share no node, and both hold the same elements in the same order.\<close>

lemma tree_assign_copies:
  assumes "new_fresh new" "tree_ok key (other, h) u" "tree_ok key (tr, h) t" "set (addrs t) \<inter> set (addrs u) = {}"
  shows "\<exists>tr' h' t'. tree_assign key new False other (tr, h) = Some (Inr (tr', h')) \<and>
    tree_ok key (tr', h') t' \<and> tree_ok key (other, h') u \<and> elems t' = elems u \<and> set (addrs t') \<inter> set (addrs u) = {}"
proof -
  have u: "tr_root other = root_of u" "holds h NULL u" "distinct (addrs u)" "sorted_keys (key \<circ> snd) (cells u)"
    using assms(2) by (auto simp: tree_ok_def)
  obtain h1 where h1: "tree_clear (tr, h) = Some (empty_tree, h1)" "tree_ok key (empty_tree, h1) Tip"
    "unchanged (set (addrs t)) h h1"
    using tree_clear_ok [OF assms(3)] by blast
  have u1: "holds h1 NULL u" by (rule holds_unchanged [OF h1(3) assms(4) u(2)])
  obtain tr' h' t' where c: "tree_copy_from key new (start (cells u) NULL) (empty_tree, h1) = Some (Inr (tr', h'))"
    "tree_ok key (tr', h') t'" "elems t' = elems u" "holds h' NULL u" "set (addrs t') \<inter> set (addrs u) = {}"
    using tree_copy_from_ok [OF assms(1) u(3,4), of "[]" "cells u" h1 empty_tree Tip] u1 h1(2) by auto
  have "tree_ok key (other, h') u" using assms(2) c(2,4) by (simp add: tree_ok_def)
  moreover have "tree_assign key new False other (tr, h) = Some (Inr (tr', h'))"
    using h1(1) c(1) first_node_start [OF u1] u(1) by (simp add: tree_assign_def)
  ultimately show ?thesis using c(2,3,5) by blast
qed

lemma tree_assign_copies_witness:
  "\<exists>tr' h' t'. tree_assign id first_fit False \<lparr>tr_root = 1, tr_size = 2\<rparr> (empty_tree, demo_heap) = Some (Inr (tr', h')) \<and>
    tree_ok id (tr', h') t' \<and> elems t' = [10, 20]"
proof -
  have t: "tree_ok id (empty_tree, demo_heap) Tip" "set (addrs (Tip :: nat gtree)) \<inter> set (addrs demo_tree) = {}"
    by (simp_all add: demo_heap_def)
  have "elems demo_tree = [10, 20]" by (simp add: demo_tree_def)
  with tree_assign_copies [OF first_fit_fresh demo_tree_ok t] show ?thesis by metis
qed

text \<open>The move constructor copies the root pointer and leaves it in the source as well: when both objects are destroyed, the
  second destructor works on nodes the first has freed.\<close>

lemma tree_move_double_free:
  assumes "tree_ok key (tr, h) t" "t \<noteq> Tip"
  shows "\<exists>h'. tree_clear (fst (tree_move tr), h) = Some (empty_tree, h') \<and> tree_clear (snd (tree_move tr), h') = None"
proof -
  obtain h' where h': "tree_clear (tr, h) = Some (empty_tree, h')" "\<forall>b\<in>set (addrs t). h' b = None"
    using tree_clear_ok [OF assms(1)] by blast
  have "tr_root tr = root_of t" "root_of t \<noteq> NULL" using assms holds_root [of h NULL t] by (auto simp: tree_ok_def)
  moreover have "h' (root_of t) = None" using h'(2) root_in_addrs [OF assms(2)] by blast
  ultimately have "clear_nodes h' (tr_root tr) = None" by (subst clear_nodes.simps) simp
  then show ?thesis using h'(1) by (simp add: tree_move_def tree_clear_def)
qed

theorem tree_move_double_free_witness:
  "\<exists>h'. tree_clear (fst (tree_move \<lparr>tr_root = 1, tr_size = 2\<rparr>), demo_heap) = Some (empty_tree, h') \<and>
    tree_clear (snd (tree_move \<lparr>tr_root = 1, tr_size = 2\<rparr>), h') = None"
  using tree_move_double_free [OF demo_tree_ok] by (simp add: demo_tree_def)

text \<open>The self-test of the tree accepts every tree, balanced or not: it compares a value with its own definition.\<close>

lemma verify_balance_factor_vacuous:
  "holds h NULL t \<Longrightarrow> distinct (addrs t) \<Longrightarrow> tr_root tr = root_of t \<Longrightarrow> verify_balance_factor (tr, h) = Some (Inr True)"
  using verify_from_holds [of h t "[]" "cells t"] first_node_start [of h NULL t] by (simp add: verify_balance_factor_def)

end
