(* ===== verification/Mem_Pool.thy ===== *)
theory Mem_Pool
  imports Vector Tree_Object
begin

text \<open>
  \<open>MemPool\<close> (\<open>libustd/mem/MemPool.h\<close>): objects of a fixed size cut out of chunks that come from \<open>malloc\<close>. The free slots are a
  vector used as a stack, the slots in use a set; both are the models of the containers themselves. The live blocks of
  \<open>malloc\<close> are a list of addresses and lengths; \<open>malloc\<close> is a parameter that picks the address of the next one. \<open>sz\<close> is
  \<open>sizeof(T)\<close>, and a pointer has eight bytes. Constructor and destructor of the objects are not part of the pool.
\<close>

section \<open>The code\<close>

type_synonym blocks = "(addr \<times> nat) list"

record pool =
  mp_maxElements :: int
  mp_chunkSize :: int
  mp_maxChunks :: int
  mp_free :: "vec \<times> addr vheap"
  mp_allocated :: "tree \<times> addr theap"
  mp_chunkCount :: int
  mp_chunks :: "vec \<times> addr vheap"

datatype pool_error = PoolReserve | PoolSize | PoolRelease

definition pool_new :: "(addr vheap \<Rightarrow> addr) \<Rightarrow> int \<Rightarrow> int \<Rightarrow> (pool_error + pool) option" where
  "pool_new newv maxElements chunkSize =
     (if chunkSize = 0 then None
      else case vec_reserve 8 newv maxElements Map.empty of
        (Inl e, h) \<Rightarrow> Some (Inl PoolReserve)
      | (Inr v, h) \<Rightarrow>
          if c_mod maxElements chunkSize \<noteq> 0 then Some (Inl PoolSize)
          else Some (Inr \<lparr>mp_maxElements = maxElements, mp_chunkSize = chunkSize,
            mp_maxChunks = take_bit 32 (c_div maxElements chunkSize), mp_free = (v, h), mp_allocated = (empty_tree, Map.empty),
            mp_chunkCount = 0, mp_chunks = (vec_init, Map.empty)\<rparr>))"

text \<open>\<open>for (i = 0; i < chunkSize; i++) freePool.push_back(address + i * sizeof(T))\<close>; the vector does not throw.\<close>

fun push_slots :: "(addr vheap \<Rightarrow> addr) \<Rightarrow> addr \<Rightarrow> nat \<Rightarrow> nat \<Rightarrow> vec \<times> addr vheap \<Rightarrow> (vec \<times> addr vheap) option" where
  "push_slots newv a sz 0 s = Some s"
| "push_slots newv a sz (Suc n) s = do {
     (b, s) \<leftarrow> vec_push 8 newv a s;
     push_slots newv (a + sz) sz n s }"

definition allocate_chunk ::
    "(addr vheap \<Rightarrow> addr) \<Rightarrow> (nat \<Rightarrow> blocks \<Rightarrow> addr) \<Rightarrow> nat \<Rightarrow> pool \<times> blocks \<Rightarrow> (bool \<times> pool \<times> blocks) option" where
  "allocate_chunk newv malloc sz s = do {
     let (p, m) = s;
     if mp_maxElements p > 0 \<and> mp_chunkCount p = mp_maxChunks p then Some (False, p, m)
     else do {
       let n = nat (mp_chunkSize p) * sz;
       let address = malloc n m;
       let m = (if address = NULL then m else (address, n) # m);
       (_, c) \<leftarrow> vec_push 8 newv address (mp_chunks p);
       f \<leftarrow> push_slots newv address sz (nat (mp_chunkSize p)) (mp_free p);
       Some (True, p\<lparr>mp_chunks := c, mp_free := f, mp_chunkCount := take_bit 32 (mp_chunkCount p + 1)\<rparr>, m) } }"

definition pool_allocate ::
    "(addr vheap \<Rightarrow> addr) \<Rightarrow> (addr theap \<Rightarrow> addr) \<Rightarrow> (nat \<Rightarrow> blocks \<Rightarrow> addr) \<Rightarrow> nat \<Rightarrow> pool \<times> blocks \<Rightarrow>
     (addr option \<times> pool \<times> blocks) option" where
  "pool_allocate newv newt malloc sz s = do {
     (_, p, m) \<leftarrow> (if v_size (fst (mp_free (fst s))) = 0 then allocate_chunk newv malloc sz s else Some (False, s));
     if v_size (fst (mp_free p)) = 0 then Some (None, p, m)
     else do {
       r \<leftarrow> vec_at (v_size (fst (mp_free p)) - 1) (mp_free p);
       case r of Inl e \<Rightarrow> None
       | Inr a \<Rightarrow> do {
           (_, f) \<leftarrow> vec_pop_back (mp_free p);
           (_, t) \<leftarrow> tree_insert id newt a (mp_allocated p);
           Some (Some a, p\<lparr>mp_free := f, mp_allocated := t\<rparr>, m) } } }"

definition pool_release ::
    "(addr vheap \<Rightarrow> addr) \<Rightarrow> addr \<Rightarrow> pool \<Rightarrow> ((pool_error + unit) \<times> pool) option" where
  "pool_release newv address p = do {
     (b, t) \<leftarrow> tree_erase id address (mp_allocated p);
     if \<not> b then Some (Inl PoolRelease, p\<lparr>mp_allocated := t\<rparr>)
     else do {
       (_, f) \<leftarrow> vec_push 8 newv address (mp_free p);
       Some (Inr (), p\<lparr>mp_allocated := t, mp_free := f\<rparr>) } }"

text \<open>The destructor frees every chunk; freeing what is not a live block is a fault, freeing null does nothing.\<close>

definition free_block :: "addr \<Rightarrow> blocks \<Rightarrow> blocks option" where
  "free_block a m = (if a = NULL then Some m else if a \<notin> fst ` set m then None else Some (filter (\<lambda>b. fst b \<noteq> a) m))"

fun free_chunks :: "vec \<times> addr vheap \<Rightarrow> int \<Rightarrow> nat \<Rightarrow> blocks \<Rightarrow> blocks option" where
  "free_chunks c i 0 m = Some m"
| "free_chunks c i (Suc n) m = do {
     r \<leftarrow> viter_value i c;
     case r of Inl e \<Rightarrow> None
     | Inr a \<Rightarrow> do { m \<leftarrow> free_block a m; free_chunks c (i + 1) n m } }"

definition pool_destroy :: "pool \<Rightarrow> blocks \<Rightarrow> blocks option" where
  "pool_destroy p m = free_chunks (mp_chunks p) 0 (nat (v_size (fst (mp_chunks p)))) m"

section \<open>The invariant\<close>

definition apart :: "nat \<Rightarrow> addr \<Rightarrow> addr \<Rightarrow> bool" where
  "apart sz a b \<longleftrightarrow> a + sz \<le> b \<or> b + sz \<le> a"

text \<open>\<open>malloc\<close> returns the null pointer or a block that overlaps no live one.\<close>

definition malloc_ok :: "(nat \<Rightarrow> blocks \<Rightarrow> addr) \<Rightarrow> bool" where
  "malloc_ok malloc \<longleftrightarrow> (\<forall>n m. malloc n m = NULL \<or> malloc n m \<notin> fst ` set m \<and>
     (\<forall>(b, k) \<in> set m. malloc n m + n \<le> b \<or> b + k \<le> malloc n m))"

text \<open>An allocation now does not call \<open>malloc\<close>, because a slot is free or the pool is full, or the call succeeds.\<close>

definition chunk_served :: "(nat \<Rightarrow> blocks \<Rightarrow> addr) \<Rightarrow> nat \<Rightarrow> pool \<times> blocks \<Rightarrow> bool" where
  "chunk_served malloc sz s \<longleftrightarrow> v_size (fst (mp_free (fst s))) \<noteq> 0 \<or>
     mp_maxElements (fst s) > 0 \<and> mp_chunkCount (fst s) = mp_maxChunks (fst s) \<or>
     malloc (nat (mp_chunkSize (fst s)) * sz) (snd s) \<noteq> NULL"

text \<open>
  The slots are those of the free list and those in use. They are apart, lie in the chunks, and there are as many as the
  chunks have room for.
\<close>

definition pool_inv ::
    "(addr vheap \<Rightarrow> addr) \<Rightarrow> (addr theap \<Rightarrow> addr) \<Rightarrow> nat \<Rightarrow> blocks \<Rightarrow> pool \<Rightarrow> blocks \<Rightarrow> addr list \<Rightarrow> addr list \<Rightarrow> addr list \<Rightarrow> bool" where
  "pool_inv newv newt sz m0 p m fs es cs \<longleftrightarrow>
     vec_holds 8 newv (nat (mp_maxElements p)) (mp_free p) fs \<and> owned_elems id newt (mp_allocated p) es \<and>
     vec_holds 8 newv (nat (mp_maxElements p)) (mp_chunks p) cs \<and>
     0 < sz \<and> 0 < mp_chunkSize p \<and> 0 < mp_maxElements p \<and> mp_maxElements p = mp_maxChunks p * mp_chunkSize p \<and>
     mp_chunkCount p = int (length cs) \<and> mp_chunkCount p \<le> mp_maxChunks p \<and> mp_maxChunks p < 2 ^ 32 \<and>
     m = map (\<lambda>c. (c, nat (mp_chunkSize p) * sz)) (rev cs) @ m0 \<and> distinct cs \<and> fst ` set m0 \<inter> set cs = {} \<and> NULL \<notin> set cs \<and>
     distinct (fs @ es) \<and> (\<forall>a \<in> set (fs @ es). \<forall>b \<in> set (fs @ es). a \<noteq> b \<longrightarrow> apart sz a b) \<and>
     (\<forall>a \<in> set (fs @ es). \<exists>c \<in> set cs. c \<le> a \<and> a + sz \<le> c + nat (mp_chunkSize p) * sz) \<and>
     length (fs @ es) = length cs * nat (mp_chunkSize p)"

definition pool_ok ::
    "(addr vheap \<Rightarrow> addr) \<Rightarrow> (addr theap \<Rightarrow> addr) \<Rightarrow> nat \<Rightarrow> blocks \<Rightarrow> pool \<times> blocks \<Rightarrow> addr set \<Rightarrow> bool" where
  "pool_ok newv newt sz m0 s live \<longleftrightarrow> (\<exists>fs es cs. pool_inv newv newt sz m0 (fst s) (snd s) fs es cs \<and> live = set es)"

lemma owned_distinct: "owned_elems id newt s es \<Longrightarrow> distinct es"
  using tree.repr_sorted [of id newt s es] by (simp add: sorted_keys_def strict_sorted_iff)

lemma owned_insert:
  assumes "owned_elems id newt s es" "a \<notin> set es"
  shows "\<exists>r s' es'. tree_insert id newt a s = Some (r, s') \<and> owned_elems id newt s' es' \<and> set es' = insert a (set es) \<and>
    length es' = Suc (length es)"
proof -
  obtain s' where i: "insert_flag id newt a s = Some (True, s')" "owned_elems id newt s' (add_key id a es)"
    using tree.ins_repr [OF assms(1), of a] assms(2) by auto
  have st: "set (add_key id a es) = insert a (set es)"
    using set_add_key [OF tree.repr_sorted [OF assms(1)], of a] by simp
  have "length (add_key id a es) = card (insert a (set es))"
    using distinct_card [OF owned_distinct [OF i(2)]] st by simp
  then have "length (add_key id a es) = Suc (length es)"
    using assms(2) distinct_card [OF owned_distinct [OF assms(1)]] by simp
  then show ?thesis using i st by (auto simp: insert_flag_def)
qed

lemma owned_erase:
  assumes "owned_elems id newt s es"
  shows "\<exists>s' es'. tree_erase id a s = Some (a \<in> set es, s') \<and> owned_elems id newt s' es' \<and> set es' = set es - {a} \<and>
    length es' = (if a \<in> set es then length es - 1 else length es)"
proof -
  obtain s' where e: "tree_erase id a s = Some (a \<in> set es, s')" "owned_elems id newt s' (del_key id a es)"
    using tree.del_repr [OF assms, of a] by auto
  have st: "set (del_key id a es) = set es - {a}" using set_del_key [of id a es] by simp
  have "length (del_key id a es) = card (set es - {a})" using distinct_card [OF owned_distinct [OF e(2)]] st by simp
  then have "length (del_key id a es) = (if a \<in> set es then length es - 1 else length es)"
    using distinct_card [OF owned_distinct [OF assms]] by (simp add: card_Diff_singleton_if)
  then show ?thesis using e st by blast
qed

lemma vec_holds_size: "vec_holds e newv cap s xs \<Longrightarrow> v_size (fst s) = int (length xs)"
  using vec_ok_size [of e "fst s" "snd s"] by (simp add: vec_holds_def)

lemma vec_top:
  assumes "vec_holds e newv cap s (xs @ [x])"
  shows "\<exists>r s'. vec_at (v_size (fst s) - 1) s = Some (Inr x) \<and> vec_pop_back s = Some (r, s') \<and> vec_holds e newv cap s' xs"
proof -
  obtain s' where "vec_take s = Some (Some x, s')" "vec_holds e newv cap s' xs"
    using vector_stack.pop_value [OF assms] by blast
  then show ?thesis
    by (cases "vec_at (v_size (fst s) - 1) s") (auto simp: vec_take_def bind_eq_Some_conv split: sum.splits)
qed

lemma push_slots_ok:
  "vec_holds 8 newv cap s xs \<Longrightarrow> length xs + n \<le> cap \<Longrightarrow>
   \<exists>s'. push_slots newv a sz n s = Some s' \<and> vec_holds 8 newv cap s' (xs @ map (\<lambda>i. a + i * sz) [0..<n])"
proof (induction n arbitrary: a s xs)
  case (Suc n)
  obtain s1 where s1: "vec_push 8 newv a s = Some (True, s1)" "vec_holds 8 newv cap s1 (xs @ [a])"
    using vector_stack.push_room [OF Suc.prems(1), of a] Suc.prems(2) by auto
  obtain s2 where s2: "push_slots newv (a + sz) sz n s1 = Some s2"
    "vec_holds 8 newv cap s2 ((xs @ [a]) @ map (\<lambda>i. (a + sz) + i * sz) [0..<n])"
    using Suc.IH [OF s1(2), of "a + sz"] Suc.prems(2) by auto
  have "map (\<lambda>i. a + i * sz) [0..<Suc n] = a # map (\<lambda>i. (a + sz) + i * sz) [0..<n]"
    by (simp add: upt_conv_Cons map_Suc_upt [symmetric] comp_def add.assoc del: upt_Suc)
  then show ?case using s1(1) s2 by simp
qed simp

text \<open>The slots of a new chunk.\<close>

lemma chunk_slots:
  assumes "0 < sz"
  defines "ss \<equiv> \<lambda>c n. map (\<lambda>i. c + i * sz) [0..<n]"
  shows "distinct (ss c n)" "\<And>a b. a \<in> set (ss c n) \<Longrightarrow> b \<in> set (ss c n) \<Longrightarrow> a \<noteq> b \<Longrightarrow> apart sz a b"
    "\<And>a. a \<in> set (ss c n) \<Longrightarrow> c \<le> a \<and> a + sz \<le> c + n * sz"
proof -
  show "distinct (ss c n)" using assms(1) by (auto simp: ss_def distinct_map inj_on_def)
  show "apart sz a b" if ab: "a \<in> set (ss c n)" "b \<in> set (ss c n)" "a \<noteq> b" for a b
  proof -
    obtain i j where "a = c + i * sz" "b = c + j * sz" using ab by (auto simp: ss_def)
    moreover from this have "Suc i \<le> j \<or> Suc j \<le> i" using ab(3) by (cases "i = j") auto
    then have "Suc i * sz \<le> j * sz \<or> Suc j * sz \<le> i * sz" using mult_le_mono1 by blast
    ultimately show ?thesis by (auto simp: apart_def)
  qed
  show "c \<le> a \<and> a + sz \<le> c + n * sz" if m: "a \<in> set (ss c n)" for a
  proof -
    obtain i where i: "a = c + i * sz" "Suc i \<le> n" using m assms(1) by (auto simp: ss_def Suc_le_eq)
    have "Suc i * sz \<le> n * sz" by (rule mult_le_mono1 [OF i(2)])
    then show ?thesis using i by simp
  qed
qed

lemma pool_invD:
  assumes "pool_inv newv newt sz m0 p m fs es cs"
  shows "vec_holds 8 newv (nat (mp_maxElements p)) (mp_free p) fs" "owned_elems id newt (mp_allocated p) es"
    "vec_holds 8 newv (nat (mp_maxElements p)) (mp_chunks p) cs" "0 < sz" "0 < mp_chunkSize p" "0 < mp_maxElements p"
    "mp_maxElements p = mp_maxChunks p * mp_chunkSize p" "mp_chunkCount p = int (length cs)" "mp_chunkCount p \<le> mp_maxChunks p"
    "mp_maxChunks p < 2 ^ 32" "m = map (\<lambda>c. (c, nat (mp_chunkSize p) * sz)) (rev cs) @ m0" "distinct cs" "fst ` set m0 \<inter> set cs = {}"
    "NULL \<notin> set cs" "distinct (fs @ es)" "\<And>a b. a \<in> set (fs @ es) \<Longrightarrow> b \<in> set (fs @ es) \<Longrightarrow> a \<noteq> b \<Longrightarrow> apart sz a b"
    "\<And>a. a \<in> set (fs @ es) \<Longrightarrow> \<exists>c \<in> set cs. c \<le> a \<and> a + sz \<le> c + nat (mp_chunkSize p) * sz"
    "length (fs @ es) = length cs * nat (mp_chunkSize p)" "length (fs @ es) \<le> nat (mp_maxElements p)" "length cs \<le> nat (mp_maxElements p)"
proof -
  note i = assms [unfolded pool_inv_def]
  show "vec_holds 8 newv (nat (mp_maxElements p)) (mp_free p) fs" "owned_elems id newt (mp_allocated p) es"
    "vec_holds 8 newv (nat (mp_maxElements p)) (mp_chunks p) cs" "0 < sz" and cp: "0 < mp_chunkSize p" and "0 < mp_maxElements p" and
    mx: "mp_maxElements p = mp_maxChunks p * mp_chunkSize p" and ct: "mp_chunkCount p = int (length cs)" and le: "mp_chunkCount p \<le> mp_maxChunks p" and
    "mp_maxChunks p < 2 ^ 32" "m = map (\<lambda>c. (c, nat (mp_chunkSize p) * sz)) (rev cs) @ m0" "distinct cs" "fst ` set m0 \<inter> set cs = {}"
    "NULL \<notin> set cs" "distinct (fs @ es)" and ln: "length (fs @ es) = length cs * nat (mp_chunkSize p)"
    using i by blast+
  show "apart sz a b" if "a \<in> set (fs @ es)" "b \<in> set (fs @ es)" "a \<noteq> b" for a b using i that by blast
  show "\<exists>c \<in> set cs. c \<le> a \<and> a + sz \<le> c + nat (mp_chunkSize p) * sz" if "a \<in> set (fs @ es)" for a using i that by blast
  have "int (length cs) * mp_chunkSize p \<le> mp_maxElements p" unfolding mx using le ct cp by (simp add: mult_right_mono)
  then have "int (length cs * nat (mp_chunkSize p)) \<le> mp_maxElements p" using cp by simp
  then have a: "length cs * nat (mp_chunkSize p) \<le> nat (mp_maxElements p)" by linarith
  then show "length (fs @ es) \<le> nat (mp_maxElements p)" using ln by linarith
  have "length cs * 1 \<le> length cs * nat (mp_chunkSize p)" using cp by (intro mult_le_mono2) simp
  then show "length cs \<le> nat (mp_maxElements p)" using a by linarith
qed

lemma allocate_chunk_ok:
  assumes inv: "pool_inv newv newt sz m0 p m [] es cs" and mal: "malloc_ok malloc" "chunk_served malloc sz (p, m)"
  shows "if mp_chunkCount p = mp_maxChunks p then allocate_chunk newv malloc sz (p, m) = Some (False, p, m)
    else \<exists>p' m' fs c. allocate_chunk newv malloc sz (p, m) = Some (True, p', m') \<and> fs \<noteq> [] \<and> pool_inv newv newt sz m0 p' m' fs es (cs @ [c]) \<and>
      mp_maxElements p' = mp_maxElements p \<and> mp_allocated p' = mp_allocated p"
proof (cases "mp_chunkCount p = mp_maxChunks p")
  case True
  then show ?thesis using pool_invD(6) [OF inv] by (simp add: allocate_chunk_def)
next
  case False
  note d = pool_invD [OF inv]
  define k where "k = nat (mp_chunkSize p)"
  define c where "c = malloc (k * sz) m"
  have k: "0 < k" "mp_chunkSize p = int k" using d(5) by (auto simp: k_def)
  have cn: "c \<noteq> NULL"
    using mal(2) False vec_holds_size [OF d(1)] by (simp add: chunk_served_def c_def k_def)
  then have "c \<notin> fst ` set m \<and> (\<forall>(b, l) \<in> set m. c + k * sz \<le> b \<or> b + l \<le> c)"
    using mal(1) [unfolded malloc_ok_def, THEN spec, THEN spec, of "k * sz" m] by (simp add: c_def)
  with cn have cn: "c \<noteq> NULL" "c \<notin> fst ` set m" "\<forall>(b, l) \<in> set m. c + k * sz \<le> b \<or> b + l \<le> c" by blast+
  let ?ss = "map (\<lambda>i. c + i * sz) [0..<k]"
  have count: "length cs < nat (mp_maxChunks p)" using False d(8,9) by linarith
  have "mp_maxChunks p * 1 \<le> mp_maxChunks p * mp_chunkSize p" using d(5) count by (intro mult_left_mono) linarith+
  then have "nat (mp_maxChunks p) \<le> nat (mp_maxElements p)" unfolding d(7) by linarith
  then obtain ch where ch: "vec_push 8 newv c (mp_chunks p) = Some (True, ch)"
    "vec_holds 8 newv (nat (mp_maxElements p)) ch (cs @ [c])"
    using vector_stack.push_room [OF d(3), of c] count by auto
  have "Suc (length cs) * k \<le> nat (mp_maxChunks p) * k" using count by (intro mult_le_mono1) simp
  also have "\<dots> = nat (mp_maxElements p)" using d(7) k nat_mult_distrib [of "mp_maxChunks p" "int k"] count by simp
  finally have room: "length es + k \<le> nat (mp_maxElements p)" using d(18) by (simp add: k_def)
  obtain f where f: "push_slots newv c sz k (mp_free p) = Some f" "vec_holds 8 newv (nat (mp_maxElements p)) f ?ss"
    using push_slots_ok [OF d(1), of k c sz] room by auto
  define p' where "p' = p\<lparr>mp_chunks := ch, mp_free := f, mp_chunkCount := mp_chunkCount p + 1\<rparr>"
  have "take_bit 32 (mp_chunkCount p + 1) = mp_chunkCount p + 1"
    using False d(8,9,10) by (intro take_bit_int_eq_self) linarith+
  then have step: "allocate_chunk newv malloc sz (p, m) = Some (True, p', (c, k * sz) # m)"
    using False ch(1) f(1) cn(1) by (simp add: allocate_chunk_def Let_def p'_def flip: k_def c_def)
  have mcs: "set m = (\<lambda>c. (c, k * sz)) ` set cs \<union> set m0" using d(11) by (simp add: k_def)
  then have cnew: "c \<notin> set cs" "c \<notin> fst ` set m0" using cn(2) by force+
  have away: "apart sz a b" if a: "a \<in> set ?ss" and b: "b \<in> set es" for a b
  proof -
    obtain e where e: "e \<in> set cs" "e \<le> b" "b + sz \<le> e + k * sz" using d(17) b by (auto simp: k_def)
    then have "c + k * sz \<le> e \<or> e + k * sz \<le> c" using cn(3) mcs by fastforce
    moreover have "c \<le> a" "a + sz \<le> c + k * sz" using chunk_slots(3) [OF d(4) a] by auto
    ultimately show ?thesis using e unfolding apart_def by linarith
  qed
  have sym: "apart sz a b = apart sz b a" for a b by (auto simp: apart_def)
  have irrefl: "\<not> apart sz a a" for a using d(4) by (auto simp: apart_def)
  then have disj: "set ?ss \<inter> set es = {}" using away by blast
  have "pool_inv newv newt sz m0 p' ((c, k * sz) # m) ?ss es (cs @ [c])"
    unfolding pool_inv_def
  proof (intro conjI)
    show "distinct (?ss @ es)"
      using chunk_slots(1) [OF d(4), of c k] d(15) disj by (simp only: distinct_append)
    show "\<forall>a\<in>set (?ss @ es). \<forall>b\<in>set (?ss @ es). a \<noteq> b \<longrightarrow> apart sz a b"
      using chunk_slots(2) [OF d(4)] d(16) away sym by (metis Un_iff append_Nil set_append)
    show "\<forall>a\<in>set (?ss @ es). \<exists>e\<in>set (cs @ [c]). e \<le> a \<and> a + sz \<le> e + nat (mp_chunkSize p') * sz"
    proof
      fix a assume "a \<in> set (?ss @ es)"
      then consider "a \<in> set ?ss" | "a \<in> set es" by auto
      then show "\<exists>e\<in>set (cs @ [c]). e \<le> a \<and> a + sz \<le> e + nat (mp_chunkSize p') * sz"
      proof cases
        case 1
        then show ?thesis using chunk_slots(3) [OF d(4) 1] by (simp add: p'_def flip: k_def)
      next
        case 2
        then show ?thesis using d(17) [of a] by (auto simp: p'_def)
      qed
    qed
    show "length (?ss @ es) = length (cs @ [c]) * nat (mp_chunkSize p')" using d(18) by (simp add: p'_def flip: k_def)
    show "(c, k * sz) # m = map (\<lambda>c. (c, nat (mp_chunkSize p') * sz)) (rev (cs @ [c])) @ m0"
      using d(11) by (simp add: p'_def flip: k_def)
    show "mp_chunkCount p' \<le> mp_maxChunks p'" using False d(9) by (simp add: p'_def)
  qed (use d f ch cn cnew in \<open>simp_all add: p'_def\<close>)
  moreover have "?ss \<noteq> []" using k(1) by simp
  moreover have "mp_maxElements p' = mp_maxElements p \<and> mp_allocated p' = mp_allocated p" by (simp add: p'_def)
  ultimately show ?thesis unfolding if_not_P [OF False] using step by blast
qed

lemma pool_take_ok:
  assumes inv: "pool_inv newv newt sz m0 p m (fs @ [a]) es cs"
  shows "\<exists>p'. (if v_size (fst (mp_free p)) = 0 then Some (None, p, m)
     else do {
       r \<leftarrow> vec_at (v_size (fst (mp_free p)) - 1) (mp_free p);
       case r of Inl e \<Rightarrow> None
       | Inr a \<Rightarrow> do {
           (_, f) \<leftarrow> vec_pop_back (mp_free p);
           (_, t) \<leftarrow> tree_insert id newt a (mp_allocated p);
           Some (Some a, p\<lparr>mp_free := f, mp_allocated := t\<rparr>, m) } }) = Some (Some a, p', m) \<and>
    (\<exists>es'. pool_inv newv newt sz m0 p' m fs es' cs \<and> set es' = insert a (set es)) \<and> mp_maxElements p' = mp_maxElements p"
proof -
  note d = pool_invD [OF inv]
  obtain r f where f: "vec_at (v_size (fst (mp_free p)) - 1) (mp_free p) = Some (Inr a)" "vec_pop_back (mp_free p) = Some (r, f)"
    "vec_holds 8 newv (nat (mp_maxElements p)) f fs" using vec_top [OF d(1)] by blast
  have "a \<notin> set es" using d(15) by auto
  then obtain q t es' where t: "tree_insert id newt a (mp_allocated p) = Some (q, t)" "owned_elems id newt t es'"
    "set es' = insert a (set es)" "length es' = Suc (length es)" using owned_insert [OF d(2)] by blast
  define p' where "p' = p\<lparr>mp_free := f, mp_allocated := t\<rparr>"
  have sets: "set (fs @ es') = set ((fs @ [a]) @ es)" using t(3) by auto
  have "pool_inv newv newt sz m0 p' m fs es' cs"
    unfolding pool_inv_def sets
  proof (intro conjI)
    show "distinct (fs @ es')" using d(15) owned_distinct [OF t(2)] t(3) by auto
    show "\<forall>x\<in>set ((fs @ [a]) @ es). \<forall>y\<in>set ((fs @ [a]) @ es). x \<noteq> y \<longrightarrow> apart sz x y" using d(16) by blast
    show "\<forall>x\<in>set ((fs @ [a]) @ es). \<exists>c\<in>set cs. c \<le> x \<and> x + sz \<le> c + nat (mp_chunkSize p') * sz"
      using d(17) by (simp add: p'_def)
    show "length (fs @ es') = length cs * nat (mp_chunkSize p')" using d(18) t(4) by (simp add: p'_def)
  qed (use d(3-14) f(3) t(2) in \<open>simp_all add: p'_def\<close>)
  moreover have "v_size (fst (mp_free p)) \<noteq> 0" using vec_holds_size [OF d(1)] by simp
  ultimately show ?thesis using f t by (auto simp: p'_def)
qed

lemma pool_allocate_ok:
  assumes inv: "pool_inv newv newt sz m0 p m fs es cs" and mal: "malloc_ok malloc" "chunk_served malloc sz (p, m)"
  shows "\<exists>r p' m' fs' es' cs'. pool_allocate newv newt malloc sz (p, m) = Some (r, p', m') \<and>
    pool_inv newv newt sz m0 p' m' fs' es' cs' \<and> mp_maxElements p' = mp_maxElements p \<and>
    (case r of None \<Rightarrow> int (length es) = mp_maxElements p \<and> set es' = set es
      | Some a \<Rightarrow> a \<notin> set es \<and> set es' = insert a (set es))"
proof (cases fs rule: rev_cases)
  case (snoc gs a)
  have sz: "v_size (fst (mp_free p)) \<noteq> 0" using vec_holds_size [OF pool_invD(1) [OF inv]] snoc by simp
  obtain p' es' where "pool_allocate newv newt malloc sz (p, m) = Some (Some a, p', m)" "pool_inv newv newt sz m0 p' m gs es' cs"
    "set es' = insert a (set es)" "mp_maxElements p' = mp_maxElements p"
    using pool_take_ok [OF inv [unfolded snoc]] sz by (auto simp: pool_allocate_def)
  moreover have "a \<notin> set es" using pool_invD(15) [OF inv] snoc by auto
  ultimately show ?thesis by force
next
  case Nil
  note inv = inv [unfolded Nil] and d = pool_invD [OF inv [unfolded Nil]]
  have sz: "v_size (fst (mp_free p)) = 0" using vec_holds_size [OF d(1)] by simp
  show ?thesis
  proof (cases "mp_chunkCount p = mp_maxChunks p")
    case True
    then have "allocate_chunk newv malloc sz (p, m) = Some (False, p, m)" using allocate_chunk_ok [OF inv mal] by simp
    then have "pool_allocate newv newt malloc sz (p, m) = Some (None, p, m)" using sz by (simp add: pool_allocate_def)
    moreover have "int (length es) = mp_maxElements p" using d(5,7,8,18) True by simp
    ultimately show ?thesis using inv by auto
  next
    case False
    then obtain p1 m1 gs c where c: "allocate_chunk newv malloc sz (p, m) = Some (True, p1, m1)" "gs \<noteq> []"
      "pool_inv newv newt sz m0 p1 m1 gs es (cs @ [c])" "mp_maxElements p1 = mp_maxElements p"
      using allocate_chunk_ok [OF inv mal] by auto
    obtain hs a where gs: "gs = hs @ [a]" using c(2) by (cases gs rule: rev_cases) auto
    obtain p' es' where "pool_allocate newv newt malloc sz (p, m) = Some (Some a, p', m1)"
      "pool_inv newv newt sz m0 p' m1 hs es' (cs @ [c])" "set es' = insert a (set es)" "mp_maxElements p' = mp_maxElements p1"
      using pool_take_ok [OF c(3) [unfolded gs]] sz c(1) by (auto simp: pool_allocate_def)
    moreover have "a \<notin> set es" using pool_invD(15) [OF c(3)] gs by auto
    ultimately show ?thesis using c(4) by force
  qed
qed

lemma pool_release_ok:
  assumes inv: "pool_inv newv newt sz m0 p m fs es cs"
  shows "\<exists>p' fs' es'. pool_release newv a p = Some (if a \<in> set es then Inr () else Inl PoolRelease, p') \<and>
    pool_inv newv newt sz m0 p' m fs' es' cs \<and> set es' = set es - {a} \<and> mp_maxElements p' = mp_maxElements p"
proof -
  note d = pool_invD [OF inv]
  obtain t es' where t: "tree_erase id a (mp_allocated p) = Some (a \<in> set es, t)" "owned_elems id newt t es'"
    "set es' = set es - {a}" "length es' = (if a \<in> set es then length es - 1 else length es)"
    using owned_erase [OF d(2)] by blast
  show ?thesis
  proof (cases "a \<in> set es")
    case False
    then have "set es' = set es" using t(3) by auto
    then have "pool_inv newv newt sz m0 (p\<lparr>mp_allocated := t\<rparr>) m fs es' cs"
      using inv t(2,4) False owned_distinct [OF t(2)] by (auto simp: pool_inv_def)
    then show ?thesis using t False by (auto simp: pool_release_def)
  next
    case True
    have ne: "0 < length es" using True by (cases es) auto
    then have "length fs < nat (mp_maxElements p)" using d(19) unfolding length_append by linarith
    then obtain f where f: "vec_push 8 newv a (mp_free p) = Some (True, f)" "vec_holds 8 newv (nat (mp_maxElements p)) f (fs @ [a])"
      using vector_stack.push_room [OF d(1), of a] by auto
    define p' where "p' = p\<lparr>mp_allocated := t, mp_free := f\<rparr>"
    have sets: "set ((fs @ [a]) @ es') = set (fs @ es)" using t(3) True by auto
    have "pool_inv newv newt sz m0 p' m (fs @ [a]) es' cs"
      unfolding pool_inv_def sets
    proof (intro conjI)
      show "distinct ((fs @ [a]) @ es')" using d(15) owned_distinct [OF t(2)] t(3) True by auto
      show "\<forall>x\<in>set (fs @ es). \<forall>y\<in>set (fs @ es). x \<noteq> y \<longrightarrow> apart sz x y" using d(16) by blast
      show "\<forall>x\<in>set (fs @ es). \<exists>c\<in>set cs. c \<le> x \<and> x + sz \<le> c + nat (mp_chunkSize p') * sz"
        using d(17) by (simp add: p'_def)
      show "length ((fs @ [a]) @ es') = length cs * nat (mp_chunkSize p')" using d(18) t(4) True ne by (simp add: p'_def)
    qed (use d(3-14) f(2) t(2) in \<open>simp_all add: p'_def\<close>)
    moreover have "pool_release newv a p = Some (Inr (), p')" using t(1) True f(1) by (simp add: pool_release_def p'_def)
    ultimately show ?thesis using True t(3) by (auto simp: p'_def)
  qed
qed

section \<open>A client\<close>

lemma pool_new_ok:
  assumes "0 < maxElements" "0 < chunkSize" "maxElements mod chunkSize = 0" "fits 8 (nat maxElements)" "new_vbuffer newv"
    "new_fresh newt" "0 < sz"
  shows "\<exists>p. pool_new newv maxElements chunkSize = Some (Inr p) \<and> pool_inv newv newt sz m0 p m0 [] [] [] \<and>
    mp_maxElements p = maxElements \<and> mp_chunkSize p = chunkSize \<and> mp_chunkCount p < mp_maxChunks p"
proof -
  obtain v h where v: "vec_reserve 8 newv maxElements Map.empty = (Inr v, h)" "vec_ok 8 (v, h) []"
    using vec_reserve_ok [OF assms(1,4,5), of Map.empty] by auto
  have small: "maxElements < 2 ^ 31" using assms(4) assms(1) by (simp add: fits_def)
  have q: "maxElements = maxElements div chunkSize * chunkSize" using assms(3) by auto
  have pos: "0 < maxElements div chunkSize"
  proof (rule ccontr)
    assume "\<not> 0 < maxElements div chunkSize"
    then have "maxElements div chunkSize * chunkSize \<le> 0" using assms(2) by (simp add: mult_nonpos_nonneg not_less)
    then show False using q assms(1) by linarith
  qed
  have "maxElements div chunkSize * 1 \<le> maxElements div chunkSize * chunkSize"
    using assms(2) pos by (intro mult_left_mono) linarith+
  then have le: "maxElements div chunkSize \<le> maxElements" using q by linarith
  then have tb: "take_bit 32 (maxElements div chunkSize) = maxElements div chunkSize"
    using pos small by (intro take_bit_int_eq_self) simp_all
  define p where "p = \<lparr>mp_maxElements = maxElements, mp_chunkSize = chunkSize, mp_maxChunks = maxElements div chunkSize,
    mp_free = (v, h), mp_allocated = (empty_tree, Map.empty), mp_chunkCount = 0, mp_chunks = (vec_init, Map.empty)\<rparr>"
  have "pool_new newv maxElements chunkSize = Some (Inr p)"
    using assms(1-3) v(1) tb by (simp add: pool_new_def c_mod_nonneg c_div_nonneg p_def)
  moreover have "pool_inv newv newt sz m0 p m0 [] [] []"
    using assms v(2) q pos small le vec_init_ok [of "Map.empty :: addr vheap"] owned_empty [OF assms(6)]
    by (auto simp: pool_inv_def p_def vec_holds_def)
  ultimately show ?thesis using pos by (auto simp: p_def)
qed

lemma free_chunks_ok:
  "vec_holds 8 newv cap c (as @ bs) \<Longrightarrow> distinct bs \<Longrightarrow> fst ` set m0 \<inter> set bs = {} \<Longrightarrow> NULL \<notin> set bs \<Longrightarrow>
   free_chunks c (int (length as)) (length bs) (map (\<lambda>a. (a, n)) (rev bs) @ m0) = Some m0"
proof (induction bs arbitrary: as)
  case (Cons b bs)
  have ok: "vec_ok 8 (fst c, snd c) (as @ b # bs)" using Cons.prems(1) by (simp add: vec_holds_def)
  have "viter_value (int (length as)) c = Some (Inr b)"
    using vec_at_ok [OF ok, of "int (length as)"] vec_ok_size [OF ok] by (simp add: viter_value_def)
  moreover have "filter (\<lambda>x. fst x \<noteq> b) m0 = m0" "filter (\<lambda>x. fst x \<noteq> b) (map (\<lambda>a. (a, n)) (rev bs)) = map (\<lambda>a. (a, n)) (rev bs)"
    using Cons.prems(2,3) by (auto simp: filter_id_conv)
  then have "free_block b (map (\<lambda>a. (a, n)) (rev (b # bs)) @ m0) = Some (map (\<lambda>a. (a, n)) (rev bs) @ m0)"
    using Cons.prems(4) by (simp add: free_block_def)
  moreover have "free_chunks c (int (length (as @ [b]))) (length bs) (map (\<lambda>a. (a, n)) (rev bs) @ m0) = Some m0"
    by (rule Cons.IH) (use Cons.prems in auto)
  ultimately show ?case by (simp add: add.commute)
qed simp

lemma pool_destroy_ok: "pool_inv newv newt sz m0 p m fs es cs \<Longrightarrow> pool_destroy p m = Some m0"
  using free_chunks_ok [of newv "nat (mp_maxElements p)" "mp_chunks p" "[]" cs m0] pool_invD(3,11-14)
  by (fastforce simp: pool_destroy_def vec_holds_size)

datatype pool_op = Allocate | Release addr

datatype pool_answer = Got "addr option" | Released bool

fun pool_run ::
    "(addr vheap \<Rightarrow> addr) \<Rightarrow> (addr theap \<Rightarrow> addr) \<Rightarrow> (nat \<Rightarrow> blocks \<Rightarrow> addr) \<Rightarrow> nat \<Rightarrow> pool_op list \<Rightarrow> pool \<times> blocks \<Rightarrow>
     (pool_answer list \<times> pool \<times> blocks) option" where
  "pool_run newv newt malloc sz [] s = Some ([], s)"
| "pool_run newv newt malloc sz (Allocate # cs) s = do {
     (r, s) \<leftarrow> pool_allocate newv newt malloc sz s;
     (rs, s) \<leftarrow> pool_run newv newt malloc sz cs s;
     Some (Got r # rs, s) }"
| "pool_run newv newt malloc sz (Release a # cs) s = do {
     (r, p) \<leftarrow> pool_release newv a (fst s);
     (rs, s) \<leftarrow> pool_run newv newt malloc sz cs (p, snd s);
     Some (Released (r = Inr ()) # rs, s) }"

text \<open>No call of \<open>malloc\<close> in the run fails.\<close>

fun run_served ::
    "(addr vheap \<Rightarrow> addr) \<Rightarrow> (addr theap \<Rightarrow> addr) \<Rightarrow> (nat \<Rightarrow> blocks \<Rightarrow> addr) \<Rightarrow> nat \<Rightarrow> pool_op list \<Rightarrow> pool \<times> blocks \<Rightarrow> bool" where
  "run_served newv newt malloc sz [] s = True"
| "run_served newv newt malloc sz (Allocate # cs) s = (chunk_served malloc sz s \<and>
     (case pool_allocate newv newt malloc sz s of None \<Rightarrow> True | Some (r, s) \<Rightarrow> run_served newv newt malloc sz cs s))"
| "run_served newv newt malloc sz (Release a # cs) s =
     (case pool_release newv a (fst s) of None \<Rightarrow> True | Some (r, p) \<Rightarrow> run_served newv newt malloc sz cs (p, snd s))"

lemma run_served_always: "(\<And>n m. malloc n m \<noteq> NULL) \<Longrightarrow> run_served newv newt malloc sz cs s"
  by (induction newv newt malloc sz cs s rule: run_served.induct) (auto simp: chunk_served_def split: option.split)

text \<open>The answers fit the objects \<open>live\<close>: a new object overlaps none of them, and only a full pool refuses.\<close>

fun answers_ok :: "nat \<Rightarrow> int \<Rightarrow> pool_op list \<Rightarrow> pool_answer list \<Rightarrow> addr set \<Rightarrow> bool" where
  "answers_ok sz maxElements [] [] live = True"
| "answers_ok sz maxElements (Allocate # cs) (Got None # rs) live =
     (int (card live) = maxElements \<and> answers_ok sz maxElements cs rs live)"
| "answers_ok sz maxElements (Allocate # cs) (Got (Some a) # rs) live =
     (a \<noteq> NULL \<and> a \<notin> live \<and> (\<forall>b \<in> live. apart sz a b) \<and> answers_ok sz maxElements cs rs (insert a live))"
| "answers_ok sz maxElements (Release a # cs) (Released b # rs) live =
     (b = (a \<in> live) \<and> answers_ok sz maxElements cs rs (live - {a}))"
| "answers_ok sz maxElements cs rs live = False"

lemma pool_slot_ok:
  assumes "pool_inv newv newt sz m0 p m fs es cs" "a \<in> set es"
  shows "a \<noteq> NULL" "\<And>b. b \<in> set es \<Longrightarrow> b \<noteq> a \<Longrightarrow> apart sz a b"
proof -
  note d = pool_invD [OF assms(1)]
  obtain c where "c \<in> set cs" "c \<le> a" using d(17) [of a] assms(2) by auto
  then show "a \<noteq> NULL" using d(14) by (cases "c = 0") auto
  show "\<And>b. b \<in> set es \<Longrightarrow> b \<noteq> a \<Longrightarrow> apart sz a b" using d(16) [of a] assms(2) by auto
qed

lemma pool_run_ok:
  "pool_inv newv newt sz m0 p m fs es cs \<Longrightarrow> malloc_ok malloc \<Longrightarrow> run_served newv newt malloc sz ops (p, m) \<Longrightarrow>
   \<exists>rs p' m' fs' es' cs'. pool_run newv newt malloc sz ops (p, m) = Some (rs, p', m') \<and>
     pool_inv newv newt sz m0 p' m' fs' es' cs' \<and> answers_ok sz (mp_maxElements p) ops rs (set es)"
proof (induction ops arbitrary: p m fs es cs)
  case Nil
  then show ?case by auto
next
  case (Cons c ops)
  show ?case
  proof (cases c)
    case Allocate
    obtain r p1 m1 fs1 es1 cs1 where s: "pool_allocate newv newt malloc sz (p, m) = Some (r, p1, m1)"
      "pool_inv newv newt sz m0 p1 m1 fs1 es1 cs1" "mp_maxElements p1 = mp_maxElements p"
      "case r of None \<Rightarrow> int (length es) = mp_maxElements p \<and> set es1 = set es | Some a \<Rightarrow> a \<notin> set es \<and> set es1 = insert a (set es)"
      using pool_allocate_ok [OF Cons.prems(1,2)] Cons.prems(3) Allocate by auto
    obtain rs p2 m2 fs2 es2 cs2 where t: "pool_run newv newt malloc sz ops (p1, m1) = Some (rs, p2, m2)"
      "pool_inv newv newt sz m0 p2 m2 fs2 es2 cs2" "answers_ok sz (mp_maxElements p1) ops rs (set es1)"
      using Cons.IH [OF s(2) Cons.prems(2)] Cons.prems(3) Allocate s(1) by auto
    have "answers_ok sz (mp_maxElements p) (c # ops) (Got r # rs) (set es)"
    proof (cases r)
      case None
      then show ?thesis
        using s(3,4) t(3) Allocate distinct_card [OF owned_distinct [OF pool_invD(2) [OF Cons.prems(1)]]] by simp
    next
      case (Some a)
      then have a: "a \<notin> set es" "set es1 = insert a (set es)" using s(4) by auto
      then have "a \<noteq> NULL" "\<forall>b \<in> set es. apart sz a b" using pool_slot_ok [OF s(2), of a] by auto
      then show ?thesis using a Some s(3) t(3) Allocate by simp
    qed
    then show ?thesis using s(1) t(1,2) Allocate by (auto intro!: exI)
  next
    case (Release a)
    obtain p1 fs1 es1 where s: "pool_release newv a p = Some (if a \<in> set es then Inr () else Inl PoolRelease, p1)"
      "pool_inv newv newt sz m0 p1 m fs1 es1 cs" "set es1 = set es - {a}" "mp_maxElements p1 = mp_maxElements p"
      using pool_release_ok [OF Cons.prems(1), of a] by blast
    obtain rs p2 m2 fs2 es2 cs2 where t: "pool_run newv newt malloc sz ops (p1, m) = Some (rs, p2, m2)"
      "pool_inv newv newt sz m0 p2 m2 fs2 es2 cs2" "answers_ok sz (mp_maxElements p1) ops rs (set es1)"
      using Cons.IH [OF s(2) Cons.prems(2)] Cons.prems(3) Release s(1) by auto
    have "answers_ok sz (mp_maxElements p) (c # ops) (Released (a \<in> set es) # rs) (set es)"
      using s(3,4) t(3) Release by simp
    then show ?thesis using s(1) t(1,2) Release by (auto intro!: exI)
  qed
qed

text \<open>C8. A pool of \<open>maxElements\<close> objects serves any sequence of allocations and releases in which no call of \<open>malloc\<close>
  fails: an allocation yields storage that is not null and overlaps no live object, and is refused only when
  \<open>maxElements\<close> objects are live; a release succeeds exactly for a live object. The destructor frees every chunk and nothing
  else. (What the pool does when \<open>malloc\<close> fails is the next property.)\<close>

theorem pool_serves_objects:
  assumes "0 < maxElements" "0 < chunkSize" "maxElements mod chunkSize = 0" "fits 8 (nat maxElements)" "0 < sz"
    and "new_vbuffer newv" "new_fresh newt" "malloc_ok malloc"
  shows "\<exists>p. pool_new newv maxElements chunkSize = Some (Inr p) \<and> (run_served newv newt malloc sz ops (p, m0) \<longrightarrow>
    (\<exists>rs p' m'. pool_run newv newt malloc sz ops (p, m0) = Some (rs, p', m') \<and> answers_ok sz maxElements ops rs {} \<and>
      pool_destroy p' m' = Some m0))"
proof -
  obtain p where p: "pool_new newv maxElements chunkSize = Some (Inr p)" "pool_inv newv newt sz m0 p m0 [] [] []"
    "mp_maxElements p = maxElements" using pool_new_ok [OF assms(1-4,6,7,5)] by blast
  have "\<exists>rs p' m'. pool_run newv newt malloc sz ops (p, m0) = Some (rs, p', m') \<and> answers_ok sz maxElements ops rs {} \<and>
      pool_destroy p' m' = Some m0" if served: "run_served newv newt malloc sz ops (p, m0)"
  proof -
    obtain rs p' m' fs es cs where "pool_run newv newt malloc sz ops (p, m0) = Some (rs, p', m')"
      "pool_inv newv newt sz m0 p' m' fs es cs" "answers_ok sz (mp_maxElements p) ops rs (set [])"
      using pool_run_ok [OF p(2) assms(8) served] by blast
    then show ?thesis using p(3) pool_destroy_ok by fastforce
  qed
  then show ?thesis using p(1) by blast
qed

definition above_all :: "nat \<Rightarrow> blocks \<Rightarrow> addr" where
  "above_all n m = Suc (Max (insert 0 ((\<lambda>(b, k). b + k) ` set m)))"

lemma above_all_ok: "malloc_ok above_all"
proof -
  have le: "b + k < above_all n m" if "(b, k) \<in> set m" for b k n m
    unfolding above_all_def less_Suc_eq_le using that by (intro Max_ge) force+
  then have "above_all n m \<notin> fst ` set m" for n m by fastforce
  moreover have "\<forall>(b, k)\<in>set m. above_all n m + n \<le> b \<or> b + k \<le> above_all n m" for n m using le by (fastforce intro: less_imp_le)
  ultimately show ?thesis unfolding malloc_ok_def by (simp add: above_all_def)
qed

lemma pool_serves_objects_witness:
  "\<exists>p rs p' m'. pool_new first_buffer 4 2 = Some (Inr p) \<and>
    pool_run first_buffer first_fit above_all 24 [Allocate, Allocate, Allocate, Release 1, Allocate] (p, [(100, 8)]) = Some (rs, p', m') \<and>
    answers_ok 24 4 [Allocate, Allocate, Allocate, Release 1, Allocate] rs {} \<and> pool_destroy p' m' = Some [(100, 8)]"
proof -
  have "above_all n m \<noteq> NULL" for n m by (simp add: above_all_def)
  then have served: "run_served first_buffer first_fit above_all 24 ops s" for ops s by (rule run_served_always)
  obtain p where "pool_new first_buffer 4 2 = Some (Inr p)"
    "run_served first_buffer first_fit above_all 24 [Allocate, Allocate, Allocate, Release 1, Allocate] (p, [(100, 8)]) \<longrightarrow>
      (\<exists>rs p' m'. pool_run first_buffer first_fit above_all 24 [Allocate, Allocate, Allocate, Release 1, Allocate] (p, [(100, 8)]) = Some (rs, p', m') \<and>
        answers_ok 24 4 [Allocate, Allocate, Allocate, Release 1, Allocate] rs {} \<and> pool_destroy p' m' = Some [(100, 8)])"
    using pool_serves_objects [OF _ _ _ _ _ first_buffer_fresh first_fit_fresh above_all_ok, of 4 2 24
      "[Allocate, Allocate, Allocate, Release 1, Allocate]" "[(100, 8)]"] unfolding fits_def by auto
  then show ?thesis using served by blast
qed

text \<open>C29. When \<open>malloc\<close> fails, the pool cuts its objects out of the null pointer: the first allocation yields the last slot of a
  chunk that starts at address 0.\<close>

theorem pool_hands_out_null:
  assumes "0 < maxElements" "0 < chunkSize" "maxElements mod chunkSize = 0" "fits 8 (nat maxElements)" "0 < sz"
    and "new_vbuffer newv" "new_fresh newt" "\<And>n m. malloc n m = NULL"
  shows "\<exists>p p' m'. pool_new newv maxElements chunkSize = Some (Inr p) \<and>
    pool_allocate newv newt malloc sz (p, m0) = Some (Some ((nat chunkSize - 1) * sz), p', m')"
proof -
  obtain p where p: "pool_new newv maxElements chunkSize = Some (Inr p)" "pool_inv newv newt sz m0 p m0 [] [] []"
    "mp_maxElements p = maxElements" "mp_chunkSize p = chunkSize" "mp_chunkCount p < mp_maxChunks p"
    using pool_new_ok [OF assms(1-4,6,7,5)] by blast
  note d = pool_invD [OF p(2)]
  define k where "k = nat chunkSize"
  have k: "0 < k" "chunkSize = int k" using assms(2) by (auto simp: k_def)
  have "chunkSize \<le> maxElements" using assms(1-3) by (simp add: zdvd_imp_le mod_0_imp_dvd)
  then have room: "k \<le> nat (mp_maxElements p)" using p(3) k by simp
  obtain ch where ch: "vec_push 8 newv NULL (mp_chunks p) = Some (True, ch)"
    using vector_stack.push_room [OF d(3), of NULL] d(6) by auto
  obtain f where f: "push_slots newv NULL sz k (mp_free p) = Some f" "vec_holds 8 newv (nat (mp_maxElements p)) f (map (\<lambda>i. i * sz) [0..<k])"
    using push_slots_ok [OF d(1), of k NULL sz] room by auto
  define p1 where "p1 = p\<lparr>mp_chunks := ch, mp_free := f, mp_chunkCount := take_bit 32 (mp_chunkCount p + 1)\<rparr>"
  have c: "allocate_chunk newv malloc sz (p, m0) = Some (True, p1, m0)"
    using p(4,5) ch f(1) assms(8) k by (simp add: allocate_chunk_def Let_def p1_def)
  have "map (\<lambda>i. i * sz) [0..<k] = map (\<lambda>i. i * sz) [0..<k - 1] @ [(k - 1) * sz]"
    using k(1) by (cases k) auto
  then obtain r g where g: "vec_at (v_size (fst (mp_free p1)) - 1) (mp_free p1) = Some (Inr ((k - 1) * sz))" "vec_pop_back (mp_free p1) = Some (r, g)"
    using vec_top [of 8 newv "nat (mp_maxElements p)" f "map (\<lambda>i. i * sz) [0..<k - 1]" "(k - 1) * sz"] f(2) by (auto simp: p1_def)
  obtain q t where t: "tree_insert id newt ((k - 1) * sz) (mp_allocated p1) = Some (q, t)"
    using owned_insert [OF d(2), of "(k - 1) * sz"] by (auto simp: p1_def)
  have "v_size (fst (mp_free p)) = 0" "v_size (fst (mp_free p1)) \<noteq> 0"
    using vec_holds_size [OF d(1)] vec_holds_size [OF f(2)] k(1) by (auto simp: p1_def)
  then have "pool_allocate newv newt malloc sz (p, m0) = Some (Some ((k - 1) * sz), p1\<lparr>mp_free := g, mp_allocated := t\<rparr>, m0)"
    using c g t by (simp add: pool_allocate_def)
  then show ?thesis using p(1) by (auto simp: k_def)
qed

lemma pool_hands_out_null_witness:
  "\<exists>p p' m'. pool_new first_buffer 4 2 = Some (Inr p) \<and>
    pool_allocate first_buffer first_fit (\<lambda>n m. NULL) 24 (p, []) = Some (Some 24, p', m')"
  using pool_hands_out_null [OF _ _ _ _ _ first_buffer_fresh first_fit_fresh, of 4 2 24 "\<lambda>n m. NULL" "[]"] by (simp add: fits_def)

end
