(* ===== verification/Calendar.thy ===== *)
theory Calendar
  imports Prelude
begin

text \<open>
  The clock and the calendar of \<open>libc/stdlib/dtime.c\<close>. Times are counted in seconds from the start of 1970. The loops of
  \<open>gmtime_r\<close> work on integers: the years that they count stay far below the range of an \<open>int\<close> for every time that the
  theorems speak of. The system calls are parameters. The second section defines the Gregorian calendar.
\<close>

section \<open>The code\<close>

record tm =
  tm_sec :: int
  tm_min :: int
  tm_hour :: int
  tm_wday :: int
  tm_mday :: int
  tm_mon :: int
  tm_year :: int
  tm_yday :: int

definition SECONDS_IN_NON_LEAP_YEAR :: int where "SECONDS_IN_NON_LEAP_YEAR = 31536000"
definition SECONDS_IN_LEAP_YEAR :: int where "SECONDS_IN_LEAP_YEAR = 31622400"
definition SECONDS_IN_DAY :: int where "SECONDS_IN_DAY = 86400"

definition DAYS_IN_A_MONTH :: "int list" where
  "DAYS_IN_A_MONTH = [31, 28, 31, 30, 31, 30, 31, 31, 30, 31, 30, 31]"

definition is_leap :: "int \<Rightarrow> bool" where
  "is_leap year \<longleftrightarrow> c_mod year 4 = 0"

definition seconds_in_year :: "int \<Rightarrow> int" where
  "seconds_in_year year = (if is_leap year then SECONDS_IN_LEAP_YEAR else SECONDS_IN_NON_LEAP_YEAR)"

function year_loop :: "bool \<Rightarrow> int \<Rightarrow> int \<Rightarrow> int \<Rightarrow> int \<times> int \<times> int" where
  "year_loop negativeTime t year totalDays =
     (if is_leap year \<and> t < SECONDS_IN_LEAP_YEAR \<or> \<not> is_leap year \<and> t < SECONDS_IN_NON_LEAP_YEAR then (t, year, totalDays)
      else year_loop negativeTime (t - seconds_in_year year) (if negativeTime then year - 1 else year + 1)
        (totalDays + (if is_leap year then 366 else 365)))"
  by pat_completeness auto
termination
  by (relation "measure (\<lambda>(n, t, y, d). nat t)")
    (auto simp: seconds_in_year_def SECONDS_IN_LEAP_YEAR_def SECONDS_IN_NON_LEAP_YEAR_def split: if_splits)

definition month_days :: "bool \<Rightarrow> nat \<Rightarrow> int" where
  "month_days isLeapYear month = DAYS_IN_A_MONTH ! month + (if isLeapYear \<and> month = 1 then 1 else 0)"

function month_loop :: "bool \<Rightarrow> nat \<Rightarrow> int \<Rightarrow> int \<Rightarrow> nat \<times> int \<times> int" where
  "month_loop isLeapYear month t dayOfTheYear =
     (if month < 12 then
        let days = month_days isLeapYear month; secondsInMonth = days * SECONDS_IN_DAY in
        if t < secondsInMonth then (month, t, dayOfTheYear)
        else month_loop isLeapYear (month + 1) (t - secondsInMonth) (dayOfTheYear + days)
      else (month, t, dayOfTheYear))"
  by pat_completeness auto
termination by (relation "measure (\<lambda>(l, m, t, d). 12 - m)") auto

function day_loop :: "int \<Rightarrow> int \<Rightarrow> int \<Rightarrow> int \<times> int \<times> int" where
  "day_loop t dayOfTheMonth dayOfTheYear =
     (if t \<ge> SECONDS_IN_DAY then day_loop (t - SECONDS_IN_DAY) (dayOfTheMonth + 1) (dayOfTheYear + 1)
      else (t, dayOfTheMonth, dayOfTheYear))"
  by pat_completeness auto
termination by (relation "measure (\<lambda>(t, m, y). nat t)") (auto simp: SECONDS_IN_DAY_def)

declare year_loop.simps [simp del] month_loop.simps [simp del] day_loop.simps [simp del]

definition gmtime :: "int \<Rightarrow> tm" where
  "gmtime t =
     (let negativeTime = t < 0;
        (t, year) = (if negativeTime then (- t, 1969) else (t, 1970));
        (t, year, totalDays) = year_loop negativeTime t year 0;
        isLeapYear = is_leap year;
        t = (if negativeTime then seconds_in_year year - t else t);
        (month, t, dayOfTheYear) = month_loop isLeapYear 0 t 0;
        (t, dayOfTheMonth, dayOfTheYear) = day_loop t 1 dayOfTheYear;
        totalDays = totalDays + (if negativeTime then (if isLeapYear then 366 else 365) - dayOfTheYear else dayOfTheYear);
        w = c_mod (4 - totalDays) 7
      in \<lparr>tm_sec = c_mod t 60, tm_min = c_div (c_mod t 3600) 60, tm_hour = c_div t 3600,
          tm_wday = (if negativeTime then if w < 0 then w + 7 else w else c_mod (totalDays + 4) 7),
          tm_mday = dayOfTheMonth, tm_mon = int month, tm_year = year - 1900, tm_yday = dayOfTheYear\<rparr>)"

definition gmtime_r :: "int option \<Rightarrow> addr \<Rightarrow> tm option" where
  "gmtime_r timep result = (if result = NULL then None else map_option gmtime timep)"

text \<open>The clock, and the sleeping calls; \<open>sys\<close> takes microseconds and returns what is left of them.\<close>

definition time_of :: "int \<times> int \<Rightarrow> int" where
  "time_of tv = (if fst tv \<noteq> 0 then - 1 else snd tv)"

definition microsleep :: "(int \<Rightarrow> int) \<Rightarrow> 64 word \<Rightarrow> int" where
  "microsleep sys t = sys (uint t)"

definition sleep :: "(int \<Rightarrow> int) \<Rightarrow> 32 word \<Rightarrow> int" where
  "sleep sys s = c_div (sys (uint (s * 1000000))) 1000000"

definition millisleep :: "(int \<Rightarrow> int) \<Rightarrow> 32 word \<Rightarrow> int" where
  "millisleep sys t = c_div (sys (uint (t * 1000))) 1000"

definition nanosleep :: "(int \<Rightarrow> int) \<Rightarrow> (int \<times> int) option \<Rightarrow> bool \<Rightarrow> int \<times> (int \<times> int) option" where
  "nanosleep sys req rem = (case req of None \<Rightarrow> (0, None)
     | Some (tv_sec, tv_nsec) \<Rightarrow>
         let ms = tv_sec * 1000000 + c_div tv_nsec 1000; r = microsleep sys (of_int ms) in
         (if r \<ge> 0 then 0 else - 1, if r \<noteq> 0 \<and> rem then Some (c_div r 1000000, c_mod r 1000000 * 1000) else None))"

section \<open>The Gregorian calendar\<close>

definition gregorian_leap :: "int \<Rightarrow> bool" where
  "gregorian_leap y \<longleftrightarrow> 4 dvd y \<and> (\<not> 100 dvd y \<or> 400 dvd y)"

definition days_in_month :: "bool \<Rightarrow> nat \<Rightarrow> int" where
  "days_in_month leap m = (if m = 1 then if leap then 29 else 28 else if m \<in> {3, 5, 8, 10} then 30 else 31)"

text \<open>Days from the start of 1970 to the start of a year, and from the start of a year to the start of a month.\<close>

definition year_start :: "int \<Rightarrow> int" where
  "year_start y = 365 * (y - 1970) + (y - 1) div 4 - (y - 1) div 100 + (y - 1) div 400 - 477"

definition month_start :: "bool \<Rightarrow> nat \<Rightarrow> int" where
  "month_start leap m = (\<Sum>i<m. days_in_month leap i)"

definition civil_days :: "int \<Rightarrow> nat \<Rightarrow> int \<Rightarrow> int" where
  "civil_days y m d = year_start y + month_start (gregorian_leap y) m + d - 1"

definition civil_seconds :: "tm \<Rightarrow> int" where
  "civil_seconds x = civil_days (tm_year x + 1900) (nat (tm_mon x)) (tm_mday x) * 86400 + tm_hour x * 3600 + tm_min x * 60 + tm_sec x"

definition valid_tm :: "tm \<Rightarrow> bool" where
  "valid_tm x \<longleftrightarrow> 0 \<le> tm_mon x \<and> tm_mon x < 12 \<and>
     1 \<le> tm_mday x \<and> tm_mday x \<le> days_in_month (gregorian_leap (tm_year x + 1900)) (nat (tm_mon x)) \<and>
     0 \<le> tm_hour x \<and> tm_hour x < 24 \<and> 0 \<le> tm_min x \<and> tm_min x < 60 \<and> 0 \<le> tm_sec x \<and> tm_sec x < 60"

lemma leap_days:
  fixes a b c y :: int
  assumes "Q \<Longrightarrow> P" "R \<Longrightarrow> Q"
  shows "365 * (y + 1 - 1970) + (a + (if P then 1 else 0)) - (b + (if Q then 1 else 0)) + (c + (if R then 1 else 0)) - 477 =
    365 * (y - 1970) + a - b + c - 477 + (if P \<and> (\<not> Q \<or> R) then 366 else 365)"
  using assms by (cases P; cases Q; cases R) simp_all

lemma year_start_step: "year_start (y + 1) = year_start y + (if gregorian_leap y then 366 else 365)"
proof -
  have d: "y div n = (y - 1) div n + (if n dvd y then 1 else 0)" if "0 < n" for n :: int
  proof (cases "n dvd y")
    case True
    then obtain k where "y = n * k" by auto
    moreover have "n * k - 1 = n * (k - 1) + (n - 1)" by (simp add: right_diff_distrib)
    then have "(n * k - 1) div n = k - 1" by (rule int_div_pos_eq) (use that in linarith)+
    ultimately show ?thesis using that by simp
  next
    case False
    then have "0 < y mod n" using that by (simp add: dvd_eq_mod_eq_0 order_less_le)
    moreover have "y - 1 = n * (y div n) + (y mod n - 1)" using mult_div_mod_eq [of n y] by linarith
    then have "(y - 1) div n = y div n"
      by (rule int_div_pos_eq) (use calculation pos_mod_bound [OF that, of y] in linarith)+
    then show ?thesis using False by simp
  qed
  have q: "y div 4 = (y - 1) div 4 + (if 4 dvd y then 1 else 0)" "y div 100 = (y - 1) div 100 + (if 100 dvd y then 1 else 0)"
    "y div 400 = (y - 1) div 400 + (if 400 dvd y then 1 else 0)" by (rule d, simp)+
  have "4 dvd y" if "100 dvd y" by (rule dvd_trans [OF _ that]) simp
  moreover have "100 dvd y" if "400 dvd y" by (rule dvd_trans [OF _ that]) simp
  ultimately show ?thesis unfolding year_start_def gregorian_leap_def add_diff_cancel_right' q by (rule leap_days)
qed

section \<open>The loops\<close>

text \<open>The calendar of the code has a leap day every four years.\<close>

definition julian_start :: "int \<Rightarrow> int" where
  "julian_start y = 365 * (y - 1970) + (y - 1) div 4 - 492"

lemma is_leap_dvd: "is_leap y \<longleftrightarrow> 4 dvd y"
proof -
  have "sgn y * (\<bar>y\<bar> div 4) * 4 = y \<longleftrightarrow> 4 dvd y"
  proof
    assume "4 dvd y"
    then obtain k where "y = 4 * k" by auto
    then show "sgn y * (\<bar>y\<bar> div 4) * 4 = y" by (simp add: abs_mult sgn_mult mult_sgn_abs)
  next
    assume "sgn y * (\<bar>y\<bar> div 4) * 4 = y"
    then show "4 dvd y" by (metis dvd_triv_right)
  qed
  then show ?thesis by (auto simp: is_leap_def c_mod_def c_div_def)
qed

lemma julian_start_step: "julian_start (y + 1) = julian_start y + (if is_leap y then 366 else 365)"
proof -
  have "y div 4 = (y - 1) div 4 + (if 4 dvd y then 1 else 0)" by presburger
  then show ?thesis by (simp add: julian_start_def is_leap_dvd)
qed

text \<open>The two calendars agree from 1901 to the end of 2100, but for the last year's leap day.\<close>

lemma julian_gregorian:
  assumes "1901 \<le> y" "y \<le> 2100"
  shows "julian_start y = year_start y"
proof (cases "y \<le> 2000")
  case True
  have "(y - 1) div 100 = 19" by (rule int_div_pos_eq [of _ _ _ "y - 1901"]) (use True assms in auto)
  moreover have "(y - 1) div 400 = 4" by (rule int_div_pos_eq [of _ _ _ "y - 1601"]) (use True assms in auto)
  ultimately  show ?thesis unfolding julian_start_def year_start_def by simp
next
  case False
  have "(y - 1) div 100 = 20" by (rule int_div_pos_eq [of _ _ _ "y - 2001"]) (use False assms in auto)
  moreover have "(y - 1) div 400 = 5" by (rule int_div_pos_eq [of _ _ _ "y - 2001"]) (use False assms in auto)
  ultimately show ?thesis unfolding julian_start_def year_start_def by simp
qed

lemma leap_gregorian:
  assumes "1901 \<le> y" "y \<le> 2099"
  shows "gregorian_leap y = is_leap y"
  using julian_start_step [of y] year_start_step [of y] julian_gregorian [of y] julian_gregorian [of "y + 1"] assms
  by (auto split: if_splits)

lemma seconds_in_year_eq: "seconds_in_year y = (julian_start (y + 1) - julian_start y) * 86400"
  by (simp add: julian_start_step seconds_in_year_def SECONDS_IN_LEAP_YEAR_def SECONDS_IN_NON_LEAP_YEAR_def)

lemma year_loop_eq:
  "year_loop n t y d = (if t < seconds_in_year y then (t, y, d)
     else year_loop n (t - seconds_in_year y) (if n then y - 1 else y + 1) (d + (julian_start (y + 1) - julian_start y)))"
  by (subst year_loop.simps) (simp add: seconds_in_year_def julian_start_step)

lemma year_loop_up:
  "0 \<le> t \<Longrightarrow> \<exists>t' y'. year_loop False t y d = (t', y', d + julian_start y' - julian_start y) \<and> y \<le> y' \<and>
     0 \<le> t' \<and> t' < seconds_in_year y' \<and> t = t' + (julian_start y' - julian_start y) * 86400"
proof (induction "False" t y d rule: year_loop.induct)
  case (1 t y d)
  show ?case
  proof (cases "t < seconds_in_year y")
    case True
    then have "year_loop False t y d = (t, y, d + julian_start y - julian_start y)" by (subst year_loop_eq) simp
    then show ?thesis using True 1(2) by (intro exI [of _ t] exI [of _ y]) simp
  next
    case False
    let ?l = "julian_start (y + 1) - julian_start y"
    have stop: "\<not> (is_leap y \<and> t < SECONDS_IN_LEAP_YEAR \<or> \<not> is_leap y \<and> t < SECONDS_IN_NON_LEAP_YEAR)"
      using False by (auto simp: seconds_in_year_def)
    have l: "(if is_leap y then 366 else 365) = ?l" by (simp add: julian_start_step)
    obtain t' y' where "year_loop False (t - seconds_in_year y) (y + 1) (d + ?l) = (t', y', d + ?l + julian_start y' - julian_start (y + 1))"
      "y + 1 \<le> y'" "0 \<le> t'" "t' < seconds_in_year y'" "t - seconds_in_year y = t' + (julian_start y' - julian_start (y + 1)) * 86400"
      using 1(1) [OF stop] False unfolding l by auto
    then show ?thesis using False
      by (subst year_loop_eq, intro exI [of _ t'] exI [of _ y']) (simp add: seconds_in_year_eq algebra_simps)
  qed
qed

lemma year_loop_down:
  "0 \<le> t \<Longrightarrow> \<exists>t' y'. year_loop True t y d = (t', y', d + julian_start (y + 1) - julian_start (y' + 1)) \<and> y' \<le> y \<and>
     0 \<le> t' \<and> t' < seconds_in_year y' \<and> t = t' + (julian_start (y + 1) - julian_start (y' + 1)) * 86400"
proof (induction "True" t y d rule: year_loop.induct)
  case (1 t y d)
  show ?case
  proof (cases "t < seconds_in_year y")
    case True
    then have "year_loop True t y d = (t, y, d + julian_start (y + 1) - julian_start (y + 1))" by (subst year_loop_eq) simp
    then show ?thesis using True 1(2) by (intro exI [of _ t] exI [of _ y]) simp
  next
    case False
    let ?l = "julian_start (y + 1) - julian_start y"
    have stop: "\<not> (is_leap y \<and> t < SECONDS_IN_LEAP_YEAR \<or> \<not> is_leap y \<and> t < SECONDS_IN_NON_LEAP_YEAR)"
      using False by (auto simp: seconds_in_year_def)
    have l: "(if is_leap y then 366 else 365) = ?l" by (simp add: julian_start_step)
    obtain t' y' where "year_loop True (t - seconds_in_year y) (y - 1) (d + ?l) = (t', y', d + ?l + julian_start y - julian_start (y' + 1))"
      "y' \<le> y - 1" "0 \<le> t'" "t' < seconds_in_year y'" "t - seconds_in_year y = t' + (julian_start y - julian_start (y' + 1)) * 86400"
      using 1(1) [OF stop] False unfolding l by auto
    then show ?thesis using False
      by (subst year_loop_eq, intro exI [of _ t'] exI [of _ y']) (simp add: seconds_in_year_eq algebra_simps)
  qed
qed

lemma month_days_eq: "m < 12 \<Longrightarrow> month_days l m = days_in_month l m"
  by (auto simp: month_days_def DAYS_IN_A_MONTH_def days_in_month_def nth_Cons' split: if_splits)

lemma month_start_Suc: "month_start l (Suc m) = month_start l m + days_in_month l m"
  by (simp add: month_start_def)

lemma month_start_0 [simp]: "month_start l 0 = 0"
  by (simp add: month_start_def)

lemma month_start_12: "month_start l 12 = (if l then 366 else 365)"
  by (simp add: month_start_def days_in_month_def eval_nat_numeral)

lemma month_loop_ok:
  "0 \<le> t \<Longrightarrow> m \<le> 12 \<Longrightarrow> \<exists>m' t'. month_loop l m t d = (m', t', d + month_start l m' - month_start l m) \<and> m' \<le> 12 \<and>
     0 \<le> t' \<and> t = t' + (month_start l m' - month_start l m) * 86400 \<and> (m' < 12 \<longrightarrow> t' < month_days l m' * 86400)"
proof (induction l m t d rule: month_loop.induct)
  case (1 l m t d)
  show ?case
  proof (cases "m < 12 \<and> t \<ge> month_days l m * SECONDS_IN_DAY")
    case False
    then have "month_loop l m t d = (m, t, d + month_start l m - month_start l m)"
      by (subst month_loop.simps) (auto simp: Let_def)
    then show ?thesis using False 1(2,3) by (intro exI [of _ m] exI [of _ t]) (auto simp: SECONDS_IN_DAY_def)
  next
    case True
    obtain m' t' where r: "month_loop l (m + 1) (t - month_days l m * SECONDS_IN_DAY) (d + month_days l m) =
        (m', t', d + month_days l m + month_start l m' - month_start l (m + 1))" "m' \<le> 12" "0 \<le> t'"
      "t - month_days l m * SECONDS_IN_DAY = t' + (month_start l m' - month_start l (m + 1)) * 86400"
      "m' < 12 \<longrightarrow> t' < month_days l m' * 86400"
      using 1(1) [of "month_days l m" "month_days l m * SECONDS_IN_DAY"] True by auto
    have "month_loop l m t d = month_loop l (m + 1) (t - month_days l m * SECONDS_IN_DAY) (d + month_days l m)"
      using True by (subst month_loop.simps) (simp add: Let_def)
    then show ?thesis using r month_days_eq [of m l] True by (intro exI [of _ m'] exI [of _ t']) (simp add: month_start_Suc month_days_eq SECONDS_IN_DAY_def algebra_simps)
  qed
qed

lemma day_loop_ok: "0 \<le> t \<Longrightarrow> day_loop t m y = (t mod 86400, m + t div 86400, y + t div 86400)"
proof (induction t m y rule: day_loop.induct)
  case (1 t m y)
  show ?case
  proof (cases "t \<ge> SECONDS_IN_DAY")
    case True
    have "(t - 86400) div 86400 = t div 86400 - 1" "(t - 86400) mod 86400 = t mod 86400" by (simp_all add: minus_mod_self2)
    then show ?thesis using 1(1) [OF True] True by (subst day_loop.simps) (simp add: SECONDS_IN_DAY_def)
  next
    case False
    then have "t div 86400 = 0" "t mod 86400 = t" using 1(2) by (simp_all add: SECONDS_IN_DAY_def)
    then show ?thesis using False by (subst day_loop.simps) simp
  qed
qed

section \<open>The fields\<close>

lemma julian_1970 [simp]: "julian_start 1970 = 0"
  by (simp add: julian_start_def)

lemma julian_mono: "x < y \<Longrightarrow> julian_start x < julian_start y"
  using zdiv_mono1 [of "x - 1" "y - 1" 4] by (simp add: julian_start_def)

lemma julian_less_iff: "julian_start x < julian_start y \<longleftrightarrow> x < y"
  using julian_mono [of x y] julian_mono [of y x] by (cases x y rule: linorder_cases) auto

lemma c_mod_wrap: "(if c_mod a 7 < 0 then c_mod a 7 + 7 else c_mod a 7) = a mod 7"
proof (cases "0 \<le> a")
  case True
  then show ?thesis by (simp add: c_mod_nonneg)
next
  case False
  then obtain b where b: "a = - b" "0 < b" by (metis add.inverse_inverse neg_less_0_iff_less not_le)
  have "c_mod a 7 = - (b mod 7)" using b by (simp add: c_mod_def c_div_def minus_div_mult_eq_mod [symmetric])
  moreover have "0 \<le> b mod 7" "b mod 7 < 7" by simp_all
  ultimately show ?thesis using b(1) by (auto simp: zmod_zminus1_eq_if)
qed

lemma month_start_mono: "m \<le> n \<Longrightarrow> n \<le> 12 \<Longrightarrow> month_start l m \<le> month_start l n"
proof (induction n)
  case (Suc n)
  have "0 \<le> days_in_month l n" by (simp add: days_in_month_def)
  then show ?case using Suc by (cases "m = Suc n") (auto simp: month_start_Suc)
qed simp

text \<open>
  The time \<open>r\<close> within the year \<open>y\<close> of the code's calendar; before 1970 it is counted back from the end of the year, so that
  it may be the whole year.
\<close>

definition fields :: "int \<Rightarrow> nat \<Rightarrow> int \<Rightarrow> tm" where
  "fields y m s = (let yday = month_start (is_leap y) m + s div 86400; r = s mod 86400 in
     \<lparr>tm_sec = r mod 60, tm_min = r mod 3600 div 60, tm_hour = r div 3600, tm_wday = (julian_start y + yday + 4) mod 7,
      tm_mday = 1 + s div 86400, tm_mon = int m, tm_year = y - 1900, tm_yday = yday\<rparr>)"

lemma gmtime_fields:
  obtains y m s r where "gmtime t = fields y m s" "t = julian_start y * 86400 + r"
    "r = s + month_start (is_leap y) m * 86400" "0 \<le> s" "m \<le> 12" "m < 12 \<longrightarrow> s < month_days (is_leap y) m * 86400"
    "t < 0 \<longrightarrow> 0 < r \<and> r \<le> seconds_in_year y \<and> y \<le> 1969" "0 \<le> t \<longrightarrow> 0 \<le> r \<and> r < seconds_in_year y \<and> 1970 \<le> y"
proof -
  have nn: "0 \<le> s \<Longrightarrow> c_mod (s mod 86400) 60 = (s mod 86400) mod 60" "0 \<le> s \<Longrightarrow> c_mod (s mod 86400) 3600 = (s mod 86400) mod 3600"
    "0 \<le> s \<Longrightarrow> c_div (s mod 86400) 3600 = (s mod 86400) div 3600" "c_div (s mod 86400 mod 3600) 60 = s mod 86400 mod 3600 div 60" for s :: int
    by (simp_all add: c_mod_nonneg c_div_nonneg)
  show thesis
  proof (cases "t < 0")
    case False
    obtain t1 y where y: "year_loop False t 1970 0 = (t1, y, julian_start y)" "1970 \<le> y" "0 \<le> t1" "t1 < seconds_in_year y"
      "t = t1 + julian_start y * 86400" using year_loop_up [of t 1970 0] False by auto
    obtain m s where m: "month_loop (is_leap y) 0 t1 0 = (m, s, month_start (is_leap y) m)" "m \<le> 12" "0 \<le> s"
      "t1 = s + month_start (is_leap y) m * 86400" "m < 12 \<longrightarrow> s < month_days (is_leap y) m * 86400"
      using month_loop_ok [of t1 0 "is_leap y" 0] y(3) by auto
    let ?D = "month_start (is_leap y) m + s div 86400"
    have "0 \<le> julian_start y" using julian_less_iff [of y 1970] y(2) by simp
    moreover have "0 \<le> month_start (is_leap y) m" using month_start_mono [of 0 m] m(2) by simp
    moreover have "0 \<le> s div 86400" using m(3) by simp
    ultimately have "c_mod (julian_start y + ?D + 4) 7 = (julian_start y + ?D + 4) mod 7" by (intro c_mod_nonneg) auto
    then have "gmtime t = fields y m s"
      using False y(1) m(1,3) day_loop_ok [OF m(3)] nn by (simp add: gmtime_def fields_def Let_def)
    then show thesis using y m False by (intro that [of y m s t1]) auto
  next
    case True
    obtain t1 y where y: "year_loop True (- t) 1969 0 = (t1, y, - julian_start (y + 1))" "y \<le> 1969" "0 \<le> t1" "t1 < seconds_in_year y"
      "- t = t1 - julian_start (y + 1) * 86400" using year_loop_down [of "- t" 1969 0] True by auto
    define r where "r = seconds_in_year y - t1"
    have r: "0 < r" "r \<le> seconds_in_year y" using y(3,4) by (auto simp: r_def)
    obtain m s where m: "month_loop (is_leap y) 0 r 0 = (m, s, month_start (is_leap y) m)" "m \<le> 12" "0 \<le> s"
      "r = s + month_start (is_leap y) m * 86400" "m < 12 \<longrightarrow> s < month_days (is_leap y) m * 86400"
      using month_loop_ok [of r 0 "is_leap y" 0] r(1) by auto
    let ?D = "month_start (is_leap y) m + s div 86400"
    define X where "X = - julian_start (y + 1) + ((if is_leap y then 366 else 365) - ?D)"
    have X: "4 - X = julian_start y + ?D + 4" by (simp add: X_def julian_start_step)
    have "gmtime t = (fields y m s)\<lparr>tm_wday := if c_mod (4 - X) 7 < 0 then c_mod (4 - X) 7 + 7 else c_mod (4 - X) 7\<rparr>"
      using True y(1) m(1,3) day_loop_ok [OF m(3)] nn
      by (simp add: gmtime_def fields_def Let_def X_def flip: r_def split del: if_split cong: if_cong)
    then have "gmtime t = fields y m s" unfolding X c_mod_wrap by (simp add: fields_def Let_def)
    moreover have "t = julian_start y * 86400 + r"
      using y(5) by (simp add: r_def seconds_in_year_eq algebra_simps)
    ultimately show thesis using y(2) m r True by (intro that [of y m s r]) auto
  qed
qed

lemma year_bounds:
  assumes "t = julian_start y * 86400 + r" "0 \<le> r" "r \<le> seconds_in_year y"
  shows "julian_start a * 86400 < t \<Longrightarrow> a \<le> y" "t < julian_start b * 86400 \<Longrightarrow> y < b"
proof -
  have "t \<le> julian_start (y + 1) * 86400" using assms(1,3) by (simp add: seconds_in_year_eq algebra_simps)
  then show "a \<le> y" if "julian_start a * 86400 < t" using that julian_less_iff [of a "y + 1"] by simp
  show "y < b" if "t < julian_start b * 86400" using that assms(1,2) julian_less_iff [of y b] by simp
qed

lemma fields_parts:
  assumes "0 \<le> s"
  shows "tm_hour (fields y m s) * 3600 + tm_min (fields y m s) * 60 + tm_sec (fields y m s) = s mod 86400"
    "0 \<le> tm_hour (fields y m s)" "tm_hour (fields y m s) < 24" "0 \<le> tm_min (fields y m s)" "tm_min (fields y m s) < 60"
    "0 \<le> tm_sec (fields y m s)" "tm_sec (fields y m s) < 60"
proof -
  define q where "q = s mod 86400"
  have q: "0 \<le> q" "q < 86400" by (simp_all add: q_def)
  have f: "tm_hour (fields y m s) = q div 3600" "tm_min (fields y m s) = q mod 3600 div 60" "tm_sec (fields y m s) = q mod 60"
    by (simp_all add: fields_def Let_def q_def)
  have "q mod 60 = q mod 3600 mod 60" by (rule mod_mod_cancel [symmetric]) simp
  moreover have "q div 3600 * 3600 + q mod 3600 = q" "q mod 3600 div 60 * 60 + q mod 3600 mod 60 = q mod 3600"
    by (rule div_mult_mod_eq)+
  ultimately show "tm_hour (fields y m s) * 3600 + tm_min (fields y m s) * 60 + tm_sec (fields y m s) = s mod 86400"
    unfolding f q_def [symmetric] by linarith
  show "0 \<le> tm_hour (fields y m s)" "tm_hour (fields y m s) < 24" "0 \<le> tm_min (fields y m s)" "tm_min (fields y m s) < 60"
    "0 \<le> tm_sec (fields y m s)" "tm_sec (fields y m s) < 60"
    unfolding f using q by (simp_all add: pos_imp_zdiv_nonneg_iff div_less_iff_less_mult)
qed

lemma year_end:
  assumes "r = s + month_start l m * 86400" "0 \<le> s" "m \<le> 12" "m < 12 \<longrightarrow> s < month_days l m * 86400"
    "r \<le> (if l then 366 else 365) * 86400"
  shows "m = 12 \<longleftrightarrow> r = (if l then 366 else 365) * 86400" "m = 12 \<Longrightarrow> s = 0"
proof -
  have "r < month_start l 12 * 86400" if "m < 12"
  proof -
    have "r < month_start l (Suc m) * 86400" using assms(1,4) that by (simp add: month_start_Suc month_days_eq algebra_simps)
    moreover have "month_start l (Suc m) \<le> month_start l 12" using that by (intro month_start_mono) auto
    ultimately show ?thesis by linarith
  qed
  then show "m = 12 \<longleftrightarrow> r = (if l then 366 else 365) * 86400" "m = 12 \<Longrightarrow> s = 0"
    using assms(1,2,3,5) by (cases "m < 12"; auto simp: month_start_12 split: if_splits)+
qed

lemma seconds_in_year_days: "seconds_in_year y = (if is_leap y then 366 else 365) * 86400"
  by (simp add: seconds_in_year_eq julian_start_step)

lemma seconds_sum:
  fixes a b c h i q r s t w x :: int
  assumes "c = (a + b + (1 + q) - 1) * 86400 + h * 3600 + i * 60 + x" "h * 3600 + i * 60 + x = w" "86400 * q + w = s"
    "t = a * 86400 + r" "r = s + b * 86400"
  shows "c = t"
proof -
  have "(a + b + (1 + q) - 1) * 86400 = a * 86400 + b * 86400 + 86400 * q" by (simp add: algebra_simps)
  then show ?thesis using assms by linarith
qed

text \<open>C15. \<open>gmtime_r\<close> is right from 1901 to 2099: the fields it fills in are in their ranges, the moment they name in the
  Gregorian calendar is the given time, the day of the week is that of the day (the first day of 1970 is a Thursday), and
  the day of the year counts from its start. Before 1970 the theorem asks that the time is not the start of a year.\<close>

theorem gmtime_calendar:
  assumes "- 2177452800 < t" "t < 4102444800" and "0 \<le> t \<or> (\<forall>y. t \<noteq> year_start y * 86400)"
  shows "valid_tm (gmtime t) \<and> civil_seconds (gmtime t) = t \<and> tm_wday (gmtime t) = (t div 86400 + 4) mod 7 \<and>
    tm_yday (gmtime t) = t div 86400 - year_start (tm_year (gmtime t) + 1900)"
proof -
  obtain y m s r where g: "gmtime t = fields y m s" and t: "t = julian_start y * 86400 + r"
    and r: "r = s + month_start (is_leap y) m * 86400" and s: "0 \<le> s" "m \<le> 12" "m < 12 \<longrightarrow> s < month_days (is_leap y) m * 86400"
    and neg: "t < 0 \<longrightarrow> 0 < r \<and> r \<le> seconds_in_year y \<and> y \<le> 1969"
    and pos: "0 \<le> t \<longrightarrow> 0 \<le> r \<and> r < seconds_in_year y \<and> 1970 \<le> y"
    by (rule gmtime_fields [of t])
  have b: "0 \<le> r" "r \<le> seconds_in_year y" using neg pos by (cases "t < 0"; simp)+
  have y: "1901 \<le> y" "y \<le> 2099"
    using year_bounds(1) [OF t b, of 1901] year_bounds(2) [OF t b, of 2100] assms(1,2) by (auto simp: julian_start_def)
  note [simp] = leap_gregorian [OF y]
  have ys: "julian_start y = year_start y" using y by (intro julian_gregorian) auto
  have "m \<noteq> 12"
  proof
    assume "m = 12"
    then have "r = seconds_in_year y" using year_end(1) [OF r s] b(2) by (simp add: seconds_in_year_days)
    then have "t < 0" "t = julian_start (y + 1) * 86400" using pos t by (force, simp add: seconds_in_year_eq algebra_simps)
    then show False using assms(3) julian_gregorian [of "y + 1"] y by auto
  qed
  then have m: "m < 12" using s(2) by simp
  have f: "tm_mon (fields y m s) = int m" "tm_year (fields y m s) + 1900 = y" "tm_mday (fields y m s) = 1 + s div 86400"
    "tm_yday (fields y m s) = month_start (is_leap y) m + s div 86400"
    "tm_wday (fields y m s) = (julian_start y + (month_start (is_leap y) m + s div 86400) + 4) mod 7"
    by (simp_all add: fields_def Let_def)
  have "t = (julian_start y + month_start (is_leap y) m) * 86400 + s" using t r by (simp add: algebra_simps)
  then have td: "t div 86400 = julian_start y + (month_start (is_leap y) m + s div 86400)" by simp
  have "s div 86400 < days_in_month (is_leap y) m" using s(3) m by (simp add: month_days_eq div_less_iff_less_mult)
  moreover have "0 \<le> s div 86400" using s(1) by simp
  ultimately have "valid_tm (fields y m s)" using fields_parts [OF s(1), of y m] m by (simp add: valid_tm_def f)
  moreover have "civil_seconds (fields y m s) = (year_start y + month_start (is_leap y) m + (1 + s div 86400) - 1) * 86400 +
      tm_hour (fields y m s) * 3600 + tm_min (fields y m s) * 60 + tm_sec (fields y m s)"
    by (simp add: civil_seconds_def civil_days_def f)
  then have "civil_seconds (fields y m s) = t"
    by (rule seconds_sum [OF _ fields_parts(1) [OF s(1)] mult_div_mod_eq t [unfolded ys] r])
  ultimately show ?thesis unfolding g td f ys by simp
qed

theorem gmtime_calendar_witness:
  "valid_tm (gmtime (- 1)) \<and> civil_seconds (gmtime (- 1)) = - 1 \<and> tm_wday (gmtime (- 1)) = (- 1 div 86400 + 4) mod 7 \<and>
    tm_yday (gmtime (- 1)) = - 1 div 86400 - year_start (tm_year (gmtime (- 1)) + 1900)"
proof (rule gmtime_calendar)
  have "(- 1 :: int) \<noteq> x * 86400" for x by (cases "0 \<le> x") linarith+
  then show "0 \<le> (- 1 :: int) \<or> (\<forall>y. - 1 \<noteq> year_start y * 86400)" by (intro disjI2 allI)
qed simp_all

text \<open>C28. At the first second of each of the years from 1901 to 1969 \<open>gmtime_r\<close> fills in a month that does not exist: the
  year before, month 12 (January being 0), day 1. (Further back the leap rule of the code, every fourth year, parts from the
  calendar, and the first second of a calendar year is no longer that of a year of the code.) The backward count leaves a whole year, and the loop over the months runs to its end.\<close>

theorem gmtime_month_13:
  assumes "1901 \<le> y" "y \<le> 1969"
  shows "tm_mon (gmtime (year_start y * 86400)) = 12 \<and> tm_mday (gmtime (year_start y * 86400)) = 1 \<and>
    tm_year (gmtime (year_start y * 86400)) = y - 1 - 1900 \<and> \<not> valid_tm (gmtime (year_start y * 86400))"
proof -
  let ?t = "year_start y * 86400"
  have js: "julian_start y = year_start y" using assms by (intro julian_gregorian) auto
  then have "?t < 0" using julian_less_iff [of y 1970] assms by simp
  obtain x m s r where g: "gmtime ?t = fields x m s" and t: "?t = julian_start x * 86400 + r"
    and r: "r = s + month_start (is_leap x) m * 86400" and s: "0 \<le> s" "m \<le> 12" "m < 12 \<longrightarrow> s < month_days (is_leap x) m * 86400"
    and neg: "?t < 0 \<longrightarrow> 0 < r \<and> r \<le> seconds_in_year x \<and> x \<le> 1969"
    by (rule gmtime_fields [of ?t])
  have b: "0 < r" "r \<le> seconds_in_year x" using neg \<open>?t < 0\<close> by blast+
  have "julian_start x < julian_start y" using t b(1) by (simp add: js)
  moreover have "julian_start y \<le> julian_start (x + 1)" using t b(2) by (simp add: js seconds_in_year_eq algebra_simps)
  then have "\<not> julian_start (x + 1) < julian_start y" by simp
  ultimately have x: "x = y - 1" unfolding julian_less_iff by simp
  then have "r = seconds_in_year x" using t by (simp add: js [symmetric] seconds_in_year_eq algebra_simps)
  then have "m = 12" using year_end(1) [OF r s] by (simp add: seconds_in_year_days)
  moreover have "s = 0" using year_end(2) [OF r s _ \<open>m = 12\<close>] b(2) by (simp add: seconds_in_year_days)
  ultimately show ?thesis by (simp add: g x fields_def Let_def valid_tm_def)
qed

theorem gmtime_month_13_witness:
  "tm_mon (gmtime (year_start 1969 * 86400)) = 12 \<and> tm_mday (gmtime (year_start 1969 * 86400)) = 1 \<and>
    tm_year (gmtime (year_start 1969 * 86400)) = 1969 - 1 - 1900 \<and> \<not> valid_tm (gmtime (year_start 1969 * 86400))"
  by (rule gmtime_month_13) simp_all

text \<open>The first of March of 2100 comes out as a 29th of February, a day that the year does not have.\<close>

lemma gmtime_feb_29_2100: "gmtime 4107542400 = fields 2100 1 2419200 \<and> \<not> valid_tm (gmtime 4107542400)"
  by code_simp

text \<open>The argument of \<open>sleep\<close> is multiplied by a million in 32 bits: a sleep of 4295 seconds asks for 32704 microseconds.\<close>

lemma sleep_wraps: "sleep (\<lambda>us. us) 4295 = 0 \<and> uint (4295 * 1000000 :: 32 word) = 32704"
  by code_simp

lemma sleep_short: "uint s < 4295 \<Longrightarrow> sleep sys s = c_div (sys (uint s * 1000000)) 1000000"
  by (simp add: sleep_def uint_mult_lem uint_word_ariths)

lemma nanosleep_none: "nanosleep (\<lambda>us. 0) (Some (s, n)) rem = (0, None)"
  by (simp add: nanosleep_def microsleep_def)

end
