(* ===== verification/Shared_Ptr.thy ===== *)
theory Shared_Ptr
  imports Prelude
begin

text \<open>
  The reference counted pointers of \<open>libustd/infra/shared_ptr.h\<close>. A program has variables of the type \<open>shared_ptr\<close>, and
  objects on the heap that have such pointers as members; the destructor of an object destroys its members, from the
  last to the first. A pointer is at a location: a variable, or a member of an object. Using a location that is
  gone, deleting twice and counting in a deleted counter are faults. The counters are integers: to wrap one takes
  \<open>2 ^ 32\<close> pointers, which occupy 64 GiB. \<open>new\<close> is the address of the next counter.
\<close>

section \<open>The code\<close>

record sptr =
  sp_ptr :: addr
  sp_refCount :: addr

datatype sloc = V nat | F addr nat

record sstate =
  ss_vars :: "nat \<Rightarrow> sptr option"
  ss_objects :: "addr \<Rightarrow> sptr list option"
  ss_counts :: "addr \<Rightarrow> int option"

definition null_sptr :: sptr where
  "null_sptr = \<lparr>sp_ptr = NULL, sp_refCount = NULL\<rparr>"

definition sget :: "sstate \<Rightarrow> sloc \<Rightarrow> sptr option" where
  "sget s l = (case l of V v \<Rightarrow> ss_vars s v
     | F p i \<Rightarrow> (case ss_objects s p of None \<Rightarrow> None | Some ms \<Rightarrow> if i < length ms then Some (ms ! i) else None))"

definition sput :: "sstate \<Rightarrow> sloc \<Rightarrow> sptr \<Rightarrow> sstate option" where
  "sput s l x = (if sget s l = None then None else
     Some (case l of V v \<Rightarrow> s\<lparr>ss_vars := (ss_vars s)(v \<mapsto> x)\<rparr>
       | F p i \<Rightarrow> s\<lparr>ss_objects := (ss_objects s)(p \<mapsto> (the (ss_objects s p))[i := x])\<rparr>))"

definition set_count :: "sstate \<Rightarrow> addr \<Rightarrow> int \<Rightarrow> sstate" where
  "set_count s c n = s\<lparr>ss_counts := (ss_counts s)(c \<mapsto> n)\<rparr>"

definition free_count :: "sstate \<Rightarrow> addr \<Rightarrow> sstate option" where
  "free_count s c = (if ss_counts s c = None then None else Some (s\<lparr>ss_counts := (ss_counts s)(c := None)\<rparr>))"

definition free_object :: "sstate \<Rightarrow> addr \<Rightarrow> sstate option" where
  "free_object s p = (if ss_objects s p = None then None else Some (s\<lparr>ss_objects := (ss_objects s)(p := None)\<rparr>))"

text \<open>\<open>destroy\<close>, for a list of pointers in turn: those that are members of an object are destroyed by its destructor.\<close>

partial_function (option) sp_destroy :: "sstate \<Rightarrow> sloc list \<Rightarrow> sstate option" where
  "sp_destroy s ls = (case ls of [] \<Rightarrow> Some s
     | l # ls \<Rightarrow> do {
         x \<leftarrow> sget s l;
         s \<leftarrow> (if sp_refCount x = NULL then Some s
           else do {
             n \<leftarrow> ss_counts s (sp_refCount x);
             let s = set_count s (sp_refCount x) (n - 1);
             if n \<noteq> 1 then Some s
             else do {
               s \<leftarrow> (if sp_ptr x = NULL then Some s
                 else do {
                   ms \<leftarrow> ss_objects s (sp_ptr x);
                   s \<leftarrow> sp_destroy s (map (F (sp_ptr x)) (rev [0..<length ms]));
                   free_object s (sp_ptr x) });
               s \<leftarrow> sput s l (x\<lparr>sp_ptr := NULL\<rparr>);
               s \<leftarrow> free_count s (sp_refCount x);
               sput s l null_sptr }});
         sp_destroy s ls })"

definition sp_inc :: "sstate \<Rightarrow> addr \<Rightarrow> sstate option" where
  "sp_inc s c = (if c = NULL then Some s else do { n \<leftarrow> ss_counts s c; Some (set_count s c (n + 1)) })"

definition new_count :: "(sstate \<Rightarrow> addr) \<Rightarrow> sstate \<Rightarrow> addr \<Rightarrow> sstate \<times> sptr" where
  "new_count new s p = (if p = NULL then (s, null_sptr) else (set_count s (new s) 1, \<lparr>sp_ptr = p, sp_refCount = new s\<rparr>))"

definition new_var :: "sstate \<Rightarrow> nat \<Rightarrow> sptr \<Rightarrow> sstate" where
  "new_var s v x = s\<lparr>ss_vars := (ss_vars s)(v \<mapsto> x)\<rparr>"

definition sp_construct :: "(sstate \<Rightarrow> addr) \<Rightarrow> sstate \<Rightarrow> nat \<Rightarrow> addr \<Rightarrow> sstate option" where
  "sp_construct new s v p = (case new_count new s p of (s, x) \<Rightarrow> Some (new_var s v x))"

definition sp_default :: "sstate \<Rightarrow> nat \<Rightarrow> sstate option" where
  "sp_default s v = Some (new_var s v null_sptr)"

definition sp_copy :: "sstate \<Rightarrow> nat \<Rightarrow> sloc \<Rightarrow> sstate option" where
  "sp_copy s v r = do { x \<leftarrow> sget s r; sp_inc (new_var s v x) (sp_refCount x) }"

definition sp_move :: "sstate \<Rightarrow> nat \<Rightarrow> sloc \<Rightarrow> sstate option" where
  "sp_move s v r = do { x \<leftarrow> sget s r; sput (new_var s v x) r null_sptr }"

definition sp_assign :: "sstate \<Rightarrow> sloc \<Rightarrow> sloc \<Rightarrow> sstate option" where
  "sp_assign s l r = (if l = r then Some s
     else do {
       s \<leftarrow> sp_destroy s [l];
       x \<leftarrow> sget s r;
       s \<leftarrow> sput s l x;
       sp_inc s (sp_refCount x) })"

definition sp_move_assign :: "sstate \<Rightarrow> sloc \<Rightarrow> sloc \<Rightarrow> sstate option" where
  "sp_move_assign s l r = do {
     s \<leftarrow> sp_destroy s [l];
     x \<leftarrow> sget s r;
     s \<leftarrow> sput s l x;
     sput s r null_sptr }"

definition sp_reset :: "(sstate \<Rightarrow> addr) \<Rightarrow> sstate \<Rightarrow> sloc \<Rightarrow> addr \<Rightarrow> sstate option" where
  "sp_reset new s l p = do {
     x \<leftarrow> sget s l;
     if sp_ptr x = p then Some s
     else do {
       s \<leftarrow> sp_destroy s [l];
       case new_count new s p of (s, x) \<Rightarrow> sput s l x }}"

definition sp_drop :: "sstate \<Rightarrow> nat \<Rightarrow> sstate option" where
  "sp_drop s v = do { s \<leftarrow> sp_destroy s [V v]; Some (s\<lparr>ss_vars := (ss_vars s)(v := None)\<rparr>) }"

section \<open>Programs\<close>

text \<open>A statement names a pointer by a variable, or by a member of the object that a variable points to.\<close>

datatype splace = Var nat | Member nat nat

definition splace :: "sstate \<Rightarrow> splace \<Rightarrow> sloc option" where
  "splace s a = (case a of Var v \<Rightarrow> if ss_vars s v = None then None else Some (V v)
     | Member v i \<Rightarrow> do { x \<leftarrow> ss_vars s v; if sget s (F (sp_ptr x) i) = None then None else Some (F (sp_ptr x) i) })"

datatype scmd =
    New_Object addr nat | Construct nat addr | Default nat | Copy nat splace | Move nat splace
  | Assign splace splace | Move_Assign splace splace | Reset splace addr | Drop nat

fun sp_step :: "(sstate \<Rightarrow> addr) \<Rightarrow> sstate \<Rightarrow> scmd \<Rightarrow> sstate option" where
  "sp_step new s (New_Object p k) = Some (s\<lparr>ss_objects := (ss_objects s)(p \<mapsto> replicate k null_sptr)\<rparr>)"
| "sp_step new s (Construct v p) = sp_construct new s v p"
| "sp_step new s (Default v) = sp_default s v"
| "sp_step new s (Copy v b) = do { r \<leftarrow> splace s b; sp_copy s v r }"
| "sp_step new s (Move v b) = do { r \<leftarrow> splace s b; sp_move s v r }"
| "sp_step new s (Assign a b) = do { l \<leftarrow> splace s a; r \<leftarrow> splace s b; sp_assign s l r }"
| "sp_step new s (Move_Assign a b) = do { l \<leftarrow> splace s a; r \<leftarrow> splace s b; sp_move_assign s l r }"
| "sp_step new s (Reset a p) = do { l \<leftarrow> splace s a; sp_reset new s l p }"
| "sp_step new s (Drop v) = sp_drop s v"

definition sp_empty :: sstate where
  "sp_empty = \<lparr>ss_vars = Map.empty, ss_objects = Map.empty, ss_counts = Map.empty\<rparr>"

fun sp_run :: "(sstate \<Rightarrow> addr) \<Rightarrow> sstate \<Rightarrow> scmd list \<Rightarrow> sstate option" where
  "sp_run new s [] = Some s"
| "sp_run new s (c # cs) = do { s \<leftarrow> sp_step new s c; sp_run new s cs }"

section \<open>The counts\<close>

definition srefs :: "sstate \<Rightarrow> sloc set \<Rightarrow> addr \<Rightarrow> sloc set" where
  "srefs s X c = {l. l \<notin> X \<and> map_option sp_refCount (sget s l) = Some c}"

text \<open>
  \<open>g\<close> tells which object a counter belongs to. The pointers in \<open>X\<close> have been destroyed and do not count any more; a counter
  at zero belongs to an object whose destructor is running.
\<close>

definition sp_ok :: "(addr \<Rightarrow> addr) \<Rightarrow> sstate \<Rightarrow> sloc set \<Rightarrow> bool" where
  "sp_ok g s X \<longleftrightarrow> finite (dom (ss_counts s)) \<and> finite {l. sget s l \<noteq> None} \<and> inj_on g (dom (ss_counts s)) \<and>
     ss_counts s NULL = None \<and> ss_objects s NULL = None \<and>
     (\<forall>c n. ss_counts s c = Some n \<longrightarrow> n = int (card (srefs s X c)) \<and> ss_objects s (g c) \<noteq> None) \<and>
     (\<forall>l x. l \<notin> X \<longrightarrow> sget s l = Some x \<longrightarrow> x = null_sptr \<or> sp_refCount x \<in> dom (ss_counts s) \<and> sp_ptr x = g (sp_refCount x))"

definition held :: "(addr \<Rightarrow> addr) \<Rightarrow> sstate \<Rightarrow> sloc set \<Rightarrow> addr \<Rightarrow> bool" where
  "held g s Y p \<longleftrightarrow> (\<forall>c n. ss_counts s c = Some n \<longrightarrow> g c = p \<longrightarrow> n = 0 \<or> (\<exists>v. V v \<in> srefs s Y c))"

definition destroyed :: "(addr \<Rightarrow> addr) \<Rightarrow> sstate \<Rightarrow> sloc set \<Rightarrow> sloc set \<Rightarrow> sstate \<Rightarrow> bool" where
  "destroyed g s X L s' \<longleftrightarrow> sp_ok g s' (X \<union> L) \<and> dom (ss_counts s') \<subseteq> dom (ss_counts s) \<and>
     (\<forall>c. ss_counts s' c = Some 0 \<longleftrightarrow> ss_counts s c = Some 0) \<and>
     (\<forall>p. ss_objects s' p = None \<longleftrightarrow> ss_objects s p = None \<or> p \<in> g ` (dom (ss_counts s) - dom (ss_counts s'))) \<and>
     (\<forall>l. sget s' l = None \<longleftrightarrow> sget s l = None \<or> (\<exists>c i. c \<in> dom (ss_counts s) - dom (ss_counts s') \<and> l = F (g c) i)) \<and>
     (\<forall>l. l \<notin> L \<longrightarrow> sget s' l = None \<or> sget s' l = sget s l)"

lemma sp_destroy_Nil [simp]: "sp_destroy s [] = Some s"
  by (simp add: sp_destroy.simps)

lemma sp_destroy_Cons: "sp_destroy s (l # ls) = do { s \<leftarrow> sp_destroy s [l]; sp_destroy s ls }"
  by (subst (1 2) sp_destroy.simps) (simp add: Option.bind_assoc)

lemma sp_destroy_single:
  "sp_destroy s [l] = do {
     x \<leftarrow> sget s l;
     if sp_refCount x = NULL then Some s
     else do {
       n \<leftarrow> ss_counts s (sp_refCount x);
       let s = set_count s (sp_refCount x) (n - 1);
       if n \<noteq> 1 then Some s
       else do {
         s \<leftarrow> (if sp_ptr x = NULL then Some s
           else do {
             ms \<leftarrow> ss_objects s (sp_ptr x);
             s \<leftarrow> sp_destroy s (map (F (sp_ptr x)) (rev [0..<length ms]));
             free_object s (sp_ptr x) });
         s \<leftarrow> sput s l (x\<lparr>sp_ptr := NULL\<rparr>);
         s \<leftarrow> free_count s (sp_refCount x);
         sput s l null_sptr }}}"
  by (subst sp_destroy.simps) (simp add: Option.bind_assoc)

lemma null_sptr_simps [simp]: "sp_ptr null_sptr = NULL" "sp_refCount null_sptr = NULL"
  by (simp_all add: null_sptr_def)

lemma sget_set_count [simp]: "sget (set_count s c n) l = sget s l"
  by (simp add: sget_def set_count_def split: sloc.split)

lemma set_count_simps [simp]: "ss_counts (set_count s c n) = (ss_counts s)(c \<mapsto> n)" "ss_objects (set_count s c n) = ss_objects s"
  "ss_vars (set_count s c n) = ss_vars s"
  by (simp_all add: set_count_def)

lemma sget_F: "sget s (F p i) = (case ss_objects s p of None \<Rightarrow> None | Some ms \<Rightarrow> if i < length ms then Some (ms ! i) else None)"
  by (simp add: sget_def)

lemma sget_V [simp]: "sget s (V v) = ss_vars s v"
  by (simp add: sget_def)

lemma sput_Some:
  assumes "sget s l \<noteq> None"
  obtains t where "sput s l x = Some t" "ss_counts t = ss_counts s" "\<And>p. ss_objects t p = None \<longleftrightarrow> ss_objects s p = None"
    "\<And>l'. sget t l' = (if l' = l then Some x else sget s l')"
proof (cases l)
  case (V v)
  then show thesis using assms
    by (intro that [of "s\<lparr>ss_vars := (ss_vars s)(v \<mapsto> x)\<rparr>"]) (auto simp: sput_def sget_def split: sloc.splits)
next
  case (F p i)
  then obtain ms where "ss_objects s p = Some ms" "i < length ms" using assms by (auto simp: sget_F split: option.splits if_splits)
  then show thesis using F assms
    by (intro that [of "s\<lparr>ss_objects := (ss_objects s)(p \<mapsto> ms[i := x])\<rparr>"])
      (auto simp: sput_def sget_def nth_list_update split: sloc.splits option.splits)
qed

lemma sp_okD:
  assumes "sp_ok g s X"
  shows "ss_counts s c = Some n \<Longrightarrow> 0 < c" "ss_counts s c = Some n \<Longrightarrow> n = int (card (srefs s X c))"
    "ss_counts s c = Some n \<Longrightarrow> ss_objects s (g c) \<noteq> None" "ss_objects s p \<noteq> None \<Longrightarrow> 0 < p"
    "l \<notin> X \<Longrightarrow> sget s l = Some x \<Longrightarrow> x = null_sptr \<or> sp_refCount x \<in> dom (ss_counts s) \<and> sp_ptr x = g (sp_refCount x)"
    "inj_on g (dom (ss_counts s))" "finite (dom (ss_counts s))" "finite {l. sget s l \<noteq> None}"
  using assms unfolding sp_ok_def by (cases c; cases p; simp)+

lemma sp_okI:
  assumes "inj_on g (dom (ss_counts s))" "finite (dom (ss_counts s))" "finite {l. sget s l \<noteq> None}"
    "ss_counts s NULL = None" "ss_objects s NULL = None"
    "\<And>c n. ss_counts s c = Some n \<Longrightarrow> n = int (card (srefs s X c))" "\<And>c n. ss_counts s c = Some n \<Longrightarrow> ss_objects s (g c) \<noteq> None"
    "\<And>l x. l \<notin> X \<Longrightarrow> sget s l = Some x \<Longrightarrow> x = null_sptr \<or> sp_refCount x \<in> dom (ss_counts s) \<and> sp_ptr x = g (sp_refCount x)"
  shows "sp_ok g s X"
  using assms unfolding sp_ok_def by blast

lemma sp_ok_NULL: "sp_ok g s X \<Longrightarrow> ss_counts s NULL = None" "sp_ok g s X \<Longrightarrow> ss_objects s NULL = None"
  by (simp_all add: sp_ok_def)

lemma srefs_finite: "sp_ok g s X \<Longrightarrow> finite (srefs s Y c)"
  by (rule finite_subset [of _ "{l. sget s l \<noteq> None}"]) (auto simp: srefs_def sp_ok_def)

lemma destroyed_var: "destroyed g s X L s' \<Longrightarrow> ss_vars s' v = None \<longleftrightarrow> ss_vars s v = None"
  unfolding destroyed_def sget_V [symmetric] by (simp del: sget_V)

lemma destroyed_same: "destroyed g s X L s' \<Longrightarrow> l \<notin> L \<Longrightarrow> sget s' l = None \<or> sget s' l = sget s l"
  unfolding destroyed_def by blast

lemma destroyedI:
  assumes "sp_ok g s' (X \<union> L)" "dom (ss_counts s') \<subseteq> dom (ss_counts s)" "\<And>c. ss_counts s' c = Some 0 \<longleftrightarrow> ss_counts s c = Some 0"
    "\<And>p. ss_objects s' p = None \<longleftrightarrow> ss_objects s p = None \<or> p \<in> g ` (dom (ss_counts s) - dom (ss_counts s'))"
    "\<And>l. sget s' l = None \<longleftrightarrow> sget s l = None \<or> (\<exists>c i. c \<in> dom (ss_counts s) - dom (ss_counts s') \<and> l = F (g c) i)"
    "\<And>l. l \<notin> L \<Longrightarrow> sget s' l = None \<or> sget s' l = sget s l"
  shows "destroyed g s X L s'"
  unfolding destroyed_def by (intro conjI allI impI assms)

lemma destroyed_gone: "destroyed g s X L s' \<Longrightarrow>
    sget s' l = None \<longleftrightarrow> sget s l = None \<or> (\<exists>c i. c \<in> dom (ss_counts s) - dom (ss_counts s') \<and> l = F (g c) i)"
  unfolding destroyed_def by (elim conjE) (simp only:)

lemma held_alive:
  assumes ok: "sp_ok g s X" and d: "destroyed g s X L s'" and h: "held g s Y p" and "X \<union> L \<subseteq> Y"
  shows "p \<notin> g ` (dom (ss_counts s) - dom (ss_counts s'))" "held g s' Y p"
proof -
  have keep: "V v \<in> srefs s' Y c" if "V v \<in> srefs s Y c" for v c
  proof -
    have v: "V v \<notin> Y" "V v \<notin> L" "sget s (V v) \<noteq> None" using that assms(4) by (auto simp: srefs_def)
    then have "sget s' (V v) = sget s (V v)" using destroyed_var [OF d, of v] destroyed_same [OF d v(2)] by auto
    then show ?thesis using that by (simp add: srefs_def)
  qed
  have live: "c \<in> dom (ss_counts s')" if "V v \<in> srefs s Y c" "c \<in> dom (ss_counts s)" for v c
  proof -
    have "V v \<in> srefs s' Y c" using keep that by blast
    then obtain x where x: "sget s' (V v) = Some x" "sp_refCount x = c" "V v \<notin> X \<union> L" using assms(4) by (auto simp: srefs_def)
    have "c \<noteq> NULL" using that(2) sp_okD(1) [OF ok] by auto
    have "sp_ok g s' (X \<union> L)" using d by (simp add: destroyed_def)
    then have "x = null_sptr \<or> sp_refCount x \<in> dom (ss_counts s')" using x(1,3) by (auto dest: sp_okD(5))
    then show ?thesis using x(2) \<open>c \<noteq> NULL\<close> by auto
  qed
  have zero: "ss_counts s' c = Some 0" if "ss_counts s c = Some 0" for c using that d by (simp add: destroyed_def)
  show "p \<notin> g ` (dom (ss_counts s) - dom (ss_counts s'))"
  proof
    assume "p \<in> g ` (dom (ss_counts s) - dom (ss_counts s'))"
    then obtain c n where c: "g c = p" "ss_counts s c = Some n" "ss_counts s' c = None" by auto
    then have "n = 0 \<or> (\<exists>v. V v \<in> srefs s Y c)" using h by (auto simp: held_def)
    then show False using c(2,3) live zero [of c] by auto
  qed
  show "held g s' Y p"
    unfolding held_def
  proof (intro allI impI)
    fix c n assume c: "ss_counts s' c = Some n" "g c = p"
    then obtain m where m: "ss_counts s c = Some m" using d by (auto simp: destroyed_def)
    then have "m = 0 \<or> (\<exists>v. V v \<in> srefs s Y c)" using h c(2) by (auto simp: held_def)
    then show "n = 0 \<or> (\<exists>v. V v \<in> srefs s' Y c)"
    proof
      assume "m = 0" then have "ss_counts s' c = Some 0" using m d by (simp add: destroyed_def)
      then show ?thesis using c by simp
    qed (use keep in blast)
  qed
qed

definition destroyable :: "(addr \<Rightarrow> addr) \<Rightarrow> sstate \<Rightarrow> sloc set \<Rightarrow> sloc list \<Rightarrow> bool" where
  "destroyable g s X ls \<longleftrightarrow> sp_ok g s X \<and> distinct ls \<and> set ls \<inter> X = {} \<and> (\<forall>l\<in>set ls. sget s l \<noteq> None) \<and>
     (\<forall>p i. F p i \<in> X \<union> set ls \<longrightarrow> held g s (X \<union> set ls) p)"

definition counting :: "sstate \<Rightarrow> addr set" where
  "counting s = {c. ss_counts s c \<noteq> None \<and> ss_counts s c \<noteq> Some 0}"

lemma counting_finite: "sp_ok g s X \<Longrightarrow> finite (counting s)"
  by (rule finite_subset [of _ "dom (ss_counts s)"]) (auto simp: counting_def sp_okD)

lemma srefs_set_count [simp]: "srefs (set_count s c n) X c' = srefs s X c'"
  by (simp add: srefs_def)

lemma srefs_insert: "srefs s (insert l X) c = srefs s X c - {l}"
  by (auto simp: srefs_def)

lemma srefs_mem: "sget s l = Some x \<Longrightarrow> l \<in> srefs s X c \<longleftrightarrow> l \<notin> X \<and> sp_refCount x = c"
  by (simp add: srefs_def)

lemma destroy_null:
  assumes ok: "sp_ok g s X" and l: "sget s l = Some x" "sp_refCount x = NULL"
  shows "destroyed g s X {l} s"
proof -
  have "srefs s (insert l X) c = srefs s X c" if "c \<noteq> NULL" for c using l that by (auto simp: srefs_insert srefs_mem)
  then have "sp_ok g s (insert l X)"
    using ok unfolding sp_ok_def by (metis insertCI option.distinct(1))
  then show ?thesis by (simp add: destroyed_def)
qed

lemma destroy_count:
  assumes ok: "sp_ok g s X" and l: "l \<notin> X" "sget s l = Some x" "sp_refCount x = c" and c: "ss_counts s c = Some n"
  shows "sp_ok g (set_count s c (n - 1)) (insert l X)" "0 < n"
proof -
  have mem: "l \<in> srefs s X c" using l by (simp add: srefs_mem)
  have fin: "finite (srefs s X c)" by (rule srefs_finite [OF ok])
  have n: "n = int (card (srefs s X c))" by (rule sp_okD(2) [OF ok c])
  then show "0 < n" using mem fin by (auto simp: card_gt_0_iff)
  have "int (card (srefs s (insert l X) c)) = n - 1"
    using mem fin n card_Suc_Diff1 [OF fin mem] by (simp add: srefs_insert)
  moreover have "srefs s (insert l X) c' = srefs s X c'" if "c' \<noteq> c" for c'
    using l that by (auto simp: srefs_insert srefs_mem)
  moreover have dom: "dom (ss_counts (set_count s c (n - 1))) = dom (ss_counts s)" using c by auto
  moreover have "0 < c" using sp_okD(1) [OF ok c] .
  ultimately show "sp_ok g (set_count s c (n - 1)) (insert l X)"
    using sp_okD(6-8) [OF ok] sp_ok_NULL [OF ok] sp_okD(2,3) [OF ok] sp_okD(5) [OF ok] c
    by (intro sp_okI) (simp_all add: dom split: if_splits, blast)
qed

lemma destroyed_count:
  assumes "sp_ok g (set_count s c (n - 1)) (insert l X)" "ss_counts s c = Some n" "n \<noteq> 0" "n \<noteq> 1"
  shows "destroyed g s X {l} (set_count s c (n - 1))"
  using assms unfolding destroyed_def by (auto split: if_splits)

abbreviation members :: "addr \<Rightarrow> sptr list \<Rightarrow> sloc list" where
  "members p ms \<equiv> map (F p) (rev [0..<length ms])"

lemma srefs_only:
  assumes ok: "sp_ok g s X" and l: "l \<notin> X" "sget s l = Some x" and c: "ss_counts s (sp_refCount x) = Some 1"
  shows "srefs s X (sp_refCount x) = {l}"
proof -
  have "card (srefs s X (sp_refCount x)) = 1" using sp_okD(2) [OF ok c] by simp
  then obtain k where "srefs s X (sp_refCount x) = {k}" by (rule card_1_singletonE)
  moreover have "l \<in> srefs s X (sp_refCount x)" using l by (simp add: srefs_mem)
  ultimately show ?thesis by simp
qed

lemma destroy_last_pre:
  assumes d: "destroyable g s X [l]" and l: "sget s l = Some x" and c: "ss_counts s (sp_refCount x) = Some 1"
  obtains ms where "ss_objects s (sp_ptr x) = Some ms" "sp_ptr x = g (sp_refCount x)" "0 < sp_ptr x"
    "destroyable g (set_count s (sp_refCount x) 0) (insert l X) (members (sp_ptr x) ms)"
    "card (counting (set_count s (sp_refCount x) 0)) < card (counting s)" "\<And>i. l \<noteq> F (sp_ptr x) i"
proof -
  let ?c = "sp_refCount x" and ?p = "sp_ptr x"
  have ok: "sp_ok g s X" and lX: "l \<notin> X" and held: "F q i \<in> insert l X \<Longrightarrow> held g s (insert l X) q" for q i
    using d by (auto simp: destroyable_def)
  have "x \<noteq> null_sptr" using sp_okD(1) [OF ok c] by auto
  then have p: "?p = g ?c" using sp_okD(5) [OF ok lX l] by blast
  then obtain ms where ms: "ss_objects s ?p = Some ms" using sp_okD(3) [OF ok c] by auto
  then have p0: "0 < ?p" using sp_okD(4) [OF ok, of ?p] by simp
  have only: "srefs s (insert l X) ?c = {}" using srefs_only [OF ok lX l c] by (simp add: srefs_insert)
  have fresh: "F ?p i \<notin> insert l X" for i
  proof
    assume "F ?p i \<in> insert l X"
    then have "\<exists>v. V v \<in> srefs s (insert l X) ?c" using held c p by (fastforce simp: held_def)
    then show False using only by simp
  qed
  have ok1: "sp_ok g (set_count s ?c 0) (insert l X)" using destroy_count(1) [OF ok lX l refl c] by simp
  have "held g (set_count s ?c 0) (insert l X \<union> set (members ?p ms)) q" if "F q i \<in> insert l X \<union> set (members ?p ms)" for q i
    unfolding held_def
  proof (intro allI impI)
    fix c' n assume c': "ss_counts (set_count s ?c 0) c' = Some n" "g c' = q"
    show "n = 0 \<or> (\<exists>v. V v \<in> srefs (set_count s ?c 0) (insert l X \<union> set (members ?p ms)) c')"
    proof (cases "c' = ?c")
      case False
      then have n: "ss_counts s c' = Some n" using c'(1) by simp
      have "q \<noteq> ?p" using inj_onD [OF sp_okD(6) [OF ok], of c' ?c] False n c c'(2) p by auto
      then have "n = 0 \<or> (\<exists>v. V v \<in> srefs s (insert l X) c')" using that held n c'(2) by (fastforce simp: held_def)
      then show ?thesis by (auto simp: srefs_def)
    qed (use c'(1) in simp)
  qed
  moreover have "distinct (members ?p ms)" by (simp add: distinct_map inj_on_def)
  moreover have "set (members ?p ms) \<inter> insert l X = {}" using fresh by auto
  moreover have "\<forall>k\<in>set (members ?p ms). sget (set_count s ?c 0) k \<noteq> None" using ms by (auto simp: sget_F)
  ultimately have "destroyable g (set_count s ?c 0) (insert l X) (members ?p ms)" using ok1 unfolding destroyable_def by blast
  moreover have "counting (set_count s ?c 0) = counting s - {?c}" by (auto simp: counting_def)
  then have "card (counting (set_count s ?c 0)) < card (counting s)"
    using card_Diff1_less [OF counting_finite [OF ok], of ?c] c by (simp add: counting_def)
  moreover have "l \<noteq> F ?p i" for i using fresh [of i] by auto
  ultimately show thesis using that ms p p0 by blast
qed

lemma destroy_last_post:
  assumes d: "destroyable g s X [l]" and l: "sget s l = Some x" and c: "ss_counts s (sp_refCount x) = Some 1"
    and ms: "ss_objects s (sp_ptr x) = Some ms" "sp_ptr x = g (sp_refCount x)" "\<And>i. l \<noteq> F (sp_ptr x) i"
    and d1: "destroyable g (set_count s (sp_refCount x) 0) (insert l X) (members (sp_ptr x) ms)"
    and s2: "destroyed g (set_count s (sp_refCount x) 0) (insert l X) (set (members (sp_ptr x) ms)) s2"
  shows "\<exists>s'. do { s \<leftarrow> free_object s2 (sp_ptr x); s \<leftarrow> sput s l (x\<lparr>sp_ptr := NULL\<rparr>); s \<leftarrow> free_count s (sp_refCount x); sput s l null_sptr }
      = Some s' \<and> destroyed g s X {l} s'"
proof -
  let ?c = "sp_refCount x" and ?p = "sp_ptr x"
  let ?s1 = "set_count s ?c 0" and ?L = "set (members ?p ms)"
  have ok1: "sp_ok g ?s1 (insert l X)" and ok2: "sp_ok g s2 (insert l X \<union> ?L)" using d1 s2 by (auto simp: destroyable_def destroyed_def)
  have c2: "ss_counts s2 ?c = Some 0" using s2 by (simp add: destroyed_def)
  have dom2: "dom (ss_counts s2) \<subseteq> dom (ss_counts s)" using s2 c by (auto simp: destroyed_def)
  have dom1: "dom (ss_counts ?s1) = dom (ss_counts s)" using c by auto
  have objs: "ss_objects s2 q = None \<longleftrightarrow> ss_objects s q = None \<or> q \<in> g ` (dom (ss_counts s) - dom (ss_counts s2))" for q
    using s2 unfolding destroyed_def dom1 by simp
  have gone: "sget s2 k = None \<longleftrightarrow> sget s k = None \<or> (\<exists>c i. c \<in> dom (ss_counts s) - dom (ss_counts s2) \<and> k = F (g c) i)" for k
    using s2 unfolding destroyed_def dom1 by simp
  have inj: "inj_on g (dom (ss_counts s))" using sp_okD(6) [OF ok1] unfolding dom1 .
  have "k = ?c" if "k \<in> dom (ss_counts s)" "?p = g k" for k using inj_onD [OF inj, of k ?c] that ms(2) c by auto
  then have "?p \<notin> g ` (dom (ss_counts s) - dom (ss_counts s2))" using c2 by blast
  then have p2: "ss_objects s2 ?p \<noteq> None" using objs ms(1) by simp
  have l2: "sget s2 l \<noteq> None"
  proof (cases l)
    case (V v)
    then show ?thesis using destroyed_var [OF s2, of v] l by simp
  next
    case (F q i)
    then have "held g ?s1 (insert l X \<union> ?L) q" using d1 unfolding destroyable_def by blast
    then have "q \<notin> g ` (dom (ss_counts ?s1) - dom (ss_counts s2))" by (rule held_alive(1) [OF ok1 s2]) simp
    then show ?thesis using gone [of l] l F unfolding dom1 by auto
  qed
  define s3 where "s3 = s2\<lparr>ss_objects := (ss_objects s2)(?p := None)\<rparr>"
  have g3: "sget s3 k = (if \<exists>i. k = F ?p i then None else sget s2 k)" for k
    by (auto simp: s3_def sget_def split: sloc.split)
  have "sget s3 l \<noteq> None" using l2 ms(3) by (auto simp: g3)
  then obtain s4 where s4: "sput s3 l (x\<lparr>sp_ptr := NULL\<rparr>) = Some s4" "ss_counts s4 = ss_counts s3"
    "\<And>q. ss_objects s4 q = None \<longleftrightarrow> ss_objects s3 q = None" "\<And>k. sget s4 k = (if k = l then Some (x\<lparr>sp_ptr := NULL\<rparr>) else sget s3 k)"
    by (rule sput_Some) blast
  define s5 where "s5 = s4\<lparr>ss_counts := (ss_counts s4)(?c := None)\<rparr>"
  have g5: "sget s5 k = sget s4 k" for k by (simp add: s5_def sget_def split: sloc.split)
  have "sget s5 l \<noteq> None" by (simp add: g5 s4(4))
  then obtain s6 where s6: "sput s5 l null_sptr = Some s6" "ss_counts s6 = ss_counts s5"
    "\<And>q. ss_objects s6 q = None \<longleftrightarrow> ss_objects s5 q = None" "\<And>k. sget s6 k = (if k = l then Some null_sptr else sget s5 k)"
    by (rule sput_Some) blast
  have counts: "ss_counts s6 = (ss_counts s2)(?c := None)" by (simp add: s6(2) s5_def s4(2) s3_def)
  have objs6: "ss_objects s6 q = None \<longleftrightarrow> q = ?p \<or> ss_objects s2 q = None" for q
  proof -
    have "ss_objects s5 q = ss_objects s4 q" by (simp add: s5_def)
    then show ?thesis by (simp add: s6(3) s4(3)) (simp add: s3_def)
  qed
  have g6: "sget s6 k = (if k = l then Some null_sptr else if \<exists>i. k = F ?p i then None else sget s2 k)" for k
    by (simp add: s6(4) g5 s4(4) g3)
  have "do { s \<leftarrow> free_object s2 ?p; s \<leftarrow> sput s l (x\<lparr>sp_ptr := NULL\<rparr>); s \<leftarrow> free_count s ?c; sput s l null_sptr } = Some s6"
  proof -
    have "free_object s2 ?p = Some s3" using p2 by (auto simp: free_object_def s3_def)
    moreover have "free_count s4 ?c = Some s5" using c2 by (simp add: free_count_def s5_def s4(2) s3_def)
    ultimately show ?thesis using s4(1) s6(1) by simp
  qed
  moreover have "destroyed g s X {l} s6"
  proof -
    have outside: "sget s2 (F ?p i) = None" if "F ?p i \<notin> ?L" for i
    proof -
      have "length ms \<le> i" using that by auto
      then have "sget s (F ?p i) = None" using ms(1) by (simp add: sget_F)
      then show ?thesis by (simp add: gone)
    qed
    have refs: "srefs s6 (insert l X) c' = srefs s2 (insert l X \<union> ?L) c'" for c'
    proof (rule set_eqI)
      fix k
      show "k \<in> srefs s6 (insert l X) c' \<longleftrightarrow> k \<in> srefs s2 (insert l X \<union> ?L) c'"
        using outside by (cases "\<exists>i. k = F ?p i") (auto simp: srefs_def g6)
    qed
    have "sp_ok g s6 (insert l X)"
    proof (rule sp_okI)
      show "inj_on g (dom (ss_counts s6))" by (rule inj_on_subset [OF inj]) (use dom2 in \<open>auto simp: counts split: if_splits\<close>)
      show "finite (dom (ss_counts s6))" using sp_okD(7) [OF ok2] by (simp add: counts)
      have "{k. sget s6 k \<noteq> None} \<subseteq> insert l {k. sget s2 k \<noteq> None}" by (auto simp: g6)
      then show "finite {k. sget s6 k \<noteq> None}" by (rule finite_subset) (use sp_okD(8) [OF ok2] in simp)
      show "ss_counts s6 NULL = None" "ss_objects s6 NULL = None" using sp_ok_NULL [OF ok2] by (simp_all add: counts objs6)
      show "n = int (card (srefs s6 (insert l X) c'))" if "ss_counts s6 c' = Some n" for c' n
        using that sp_okD(2) [OF ok2, of c' n] by (simp add: counts refs split: if_splits)
      show "ss_objects s6 (g c') \<noteq> None" if "ss_counts s6 c' = Some n" for c' n
      proof -
        have c': "c' \<noteq> ?c" "ss_counts s2 c' = Some n" using that by (auto simp: counts split: if_splits)
        then have "g c' \<noteq> ?p" using inj_onD [OF inj, of c' ?c] ms(2) c dom2 by auto
        then show ?thesis using sp_okD(3) [OF ok2 c'(2)] by (simp add: objs6)
      qed
      show "y = null_sptr \<or> sp_refCount y \<in> dom (ss_counts s6) \<and> sp_ptr y = g (sp_refCount y)"
        if k: "k \<notin> insert l X" "sget s6 k = Some y" for k y
      proof -
        have y: "sget s2 k = Some y" "\<not> (\<exists>i. k = F ?p i)" using k by (auto simp: g6 split: if_splits)
        then have kL: "k \<notin> insert l X \<union> ?L" using k(1) by auto
        have "?c \<noteq> sp_refCount y"
        proof
          assume "?c = sp_refCount y"
          then have "k \<in> srefs s2 (insert l X \<union> ?L) ?c" using y(1) kL by (simp add: srefs_mem)
          then show False using sp_okD(2) [OF ok2 c2] srefs_finite [OF ok2, of "insert l X \<union> ?L" ?c] by auto
        qed
        then show ?thesis using sp_okD(5) [OF ok2 kL y(1)] by (auto simp: counts)
      qed
    qed
    moreover have "dom (ss_counts s6) \<subseteq> dom (ss_counts s)" using dom2 by (auto simp: counts split: if_splits)
    moreover have "ss_counts s6 c' = Some 0 \<longleftrightarrow> ss_counts s c' = Some 0" for c'
      using s2 c by (simp add: destroyed_def counts)
    moreover have cells: "dom (ss_counts s) - dom (ss_counts s6) = insert ?c (dom (ss_counts s) - dom (ss_counts s2))"
      using c c2 by (auto simp: counts split: if_splits)
    have "ss_objects s6 q = None \<longleftrightarrow> ss_objects s q = None \<or> q \<in> g ` (dom (ss_counts s) - dom (ss_counts s6))" for q
      unfolding cells objs6 objs using ms(2) by auto
    moreover have "sget s6 k = None \<longleftrightarrow> sget s k = None \<or> (\<exists>c i. c \<in> dom (ss_counts s) - dom (ss_counts s6) \<and> k = F (g c) i)" for k
      using l l2 gone [of l] ms(2,3) unfolding cells by (auto simp: g6 gone)
    moreover have "sget s6 k = None \<or> sget s6 k = sget s k" if "k \<notin> {l}" for k
      using that destroyed_same [OF s2, of k] by (auto simp: g6)
    ultimately show ?thesis unfolding destroyed_def by simp
  qed
  ultimately show ?thesis by blast
qed

lemma held_mono: "held g s Y p \<Longrightarrow> Z \<subseteq> Y \<Longrightarrow> held g s Z p"
  by (fastforce simp: held_def srefs_def)

lemma destroyed_alive:
  assumes ok: "sp_ok g s X" and d: "destroyed g s X L s'" and k: "sget s k \<noteq> None" and h: "\<And>q i. k = F q i \<Longrightarrow> held g s (X \<union> L) q"
  shows "sget s' k \<noteq> None"
proof (cases k)
  case (V v)
  then show ?thesis using destroyed_var [OF d, of v] k by simp
next
  case (F q i)
  have "q \<notin> g ` (dom (ss_counts s) - dom (ss_counts s'))" by (rule held_alive(1) [OF ok d h [OF F]]) simp
  then have "\<not> (\<exists>c i. c \<in> dom (ss_counts s) - dom (ss_counts s') \<and> k = F (g c) i)" using F by auto
  then show ?thesis unfolding destroyed_gone [OF d, of k] using k by simp
qed

lemma destroyed_trans:
  assumes a: "destroyed g s X K s1" and b: "destroyed g s1 (X \<union> K) L s2"
  shows "destroyed g s X (K \<union> L) s2"
proof -
  let ?D = "dom (ss_counts s)" and ?D1 = "dom (ss_counts s1)" and ?D2 = "dom (ss_counts s2)"
  have sub: "?D1 \<subseteq> ?D" "?D2 \<subseteq> ?D1" using a b by (simp_all add: destroyed_def)
  then have D: "?D - ?D2 = (?D - ?D1) \<union> (?D1 - ?D2)" by blast
  have "sp_ok g s2 (X \<union> (K \<union> L))" using b by (simp add: destroyed_def Un_assoc)
  moreover have "?D2 \<subseteq> ?D" using sub by blast
  moreover have "ss_counts s2 c = Some 0 \<longleftrightarrow> ss_counts s c = Some 0" for c using a b by (simp add: destroyed_def)
  moreover have "ss_objects s2 p = None \<longleftrightarrow> ss_objects s p = None \<or> p \<in> g ` (?D - ?D2)" for p
  proof -
    have "ss_objects s2 p = None \<longleftrightarrow> ss_objects s1 p = None \<or> p \<in> g ` (?D1 - ?D2)" "ss_objects s1 p = None \<longleftrightarrow> ss_objects s p = None \<or> p \<in> g ` (?D - ?D1)"
      using a b by (simp_all add: destroyed_def)
    then show ?thesis unfolding D image_Un by auto
  qed
  moreover have "sget s2 k = None \<longleftrightarrow> sget s k = None \<or> (\<exists>c i. c \<in> ?D - ?D2 \<and> k = F (g c) i)" for k
  proof -
    show ?thesis unfolding D destroyed_gone [OF b, of k] destroyed_gone [OF a, of k] by blast
  qed
  moreover have "sget s2 k = None \<or> sget s2 k = sget s k" if k: "k \<notin> K \<union> L" for k
  proof -
    have "sget s1 k = None \<or> sget s1 k = sget s k" using destroyed_same [OF a] k by blast
    moreover have "sget s2 k = None \<or> sget s2 k = sget s1 k" using destroyed_same [OF b] k by blast
    ultimately show ?thesis by auto
  qed
  ultimately show ?thesis by (rule destroyedI)
qed

lemma destroyable_Cons:
  assumes d: "destroyable g s X (l # ls)"
  shows "destroyable g s X [l]" "destroyed g s X {l} s1 \<Longrightarrow> destroyable g s1 (X \<union> {l}) ls"
proof -
  have ok: "sp_ok g s X" and h: "F q i \<in> X \<union> set (l # ls) \<Longrightarrow> held g s (X \<union> set (l # ls)) q" for q i
    using d unfolding destroyable_def by blast+
  have "held g s (X \<union> {l}) q" if "F q i \<in> X \<union> {l}" for q i using that by (intro held_mono [OF h]) auto
  then show "destroyable g s X [l]" using d by (auto simp: destroyable_def)
  show "destroyable g s1 (X \<union> {l}) ls" if s1: "destroyed g s X {l} s1"
  proof -
    have "held g s1 (X \<union> {l} \<union> set ls) q" if "F q i \<in> X \<union> {l} \<union> set ls" for q i
      using that by (intro held_alive(2) [OF ok s1] held_mono [OF h]) auto
    moreover have "sget s1 k \<noteq> None" if "k \<in> set ls" for k
      using that d by (intro destroyed_alive [OF ok s1] held_mono [OF h]) (auto simp: destroyable_def)
    moreover have "sp_ok g s1 (X \<union> {l})" using s1 by (simp add: destroyed_def)
    ultimately show ?thesis using d by (auto simp: destroyable_def)
  qed
qed

lemma destroyed_counting: "destroyed g s X L s' \<Longrightarrow> sp_ok g s X \<Longrightarrow> card (counting s') \<le> card (counting s)"
  by (rule card_mono [OF counting_finite]) (auto simp: counting_def destroyed_def)

lemma sp_destroy_ok: "destroyable g s X ls \<Longrightarrow> \<exists>s'. sp_destroy s ls = Some s' \<and> destroyed g s X (set ls) s'"
proof (induction "card (counting s)" arbitrary: s X ls rule: less_induct)
  case less
  have single: "\<exists>t'. sp_destroy t [l] = Some t' \<and> destroyed g t Y {l} t'"
    if t: "destroyable g t Y [l]" "card (counting t) \<le> card (counting s)" for t Y l
  proof -
    have ok: "sp_ok g t Y" and l: "l \<notin> Y" using t(1) by (simp_all add: destroyable_def)
    obtain x where x: "sget t l = Some x" using t(1) by (auto simp: destroyable_def)
    show ?thesis
    proof (cases "sp_refCount x = NULL")
      case True
      then show ?thesis using x destroy_null [OF ok x] by (simp add: sp_destroy_single)
    next
      case False
      then have "sp_refCount x \<in> dom (ss_counts t)" using sp_okD(5) [OF ok l x] by auto
      then obtain n where n: "ss_counts t (sp_refCount x) = Some n" by auto
      note d = destroy_count [OF ok l x refl n]
      show ?thesis
      proof (cases "n = 1")
        case False
        then show ?thesis using destroyed_count [OF d(1) n] d(2) x n \<open>sp_refCount x \<noteq> NULL\<close> by (simp add: sp_destroy_single Let_def)
      next
        case True
        then have n: "ss_counts t (sp_refCount x) = Some 1" using n by simp
        obtain ms where ms: "ss_objects t (sp_ptr x) = Some ms" "sp_ptr x = g (sp_refCount x)" "0 < sp_ptr x"
          "destroyable g (set_count t (sp_refCount x) 0) (insert l Y) (members (sp_ptr x) ms)"
          "card (counting (set_count t (sp_refCount x) 0)) < card (counting t)" "\<And>i. l \<noteq> F (sp_ptr x) i"
          by (rule destroy_last_pre [OF t(1) x n]) blast
        obtain s2 where s2: "sp_destroy (set_count t (sp_refCount x) 0) (members (sp_ptr x) ms) = Some s2"
          "destroyed g (set_count t (sp_refCount x) 0) (insert l Y) (set (members (sp_ptr x) ms)) s2"
          using less.hyps [OF _ ms(4)] ms(5) t(2) by auto
        then show ?thesis
          using destroy_last_post [OF t(1) x n ms(1,2,6,4) s2(2)] ms(1,3) x n \<open>sp_refCount x \<noteq> NULL\<close>
          by (simp add: sp_destroy_single Let_def)
      qed
    qed
  qed
  have "card (counting t) \<le> card (counting s) \<Longrightarrow> destroyable g t Y ls \<Longrightarrow> \<exists>t'. sp_destroy t ls = Some t' \<and> destroyed g t Y (set ls) t'" for t Y
  proof (induction ls arbitrary: t Y)
    case Nil
    then show ?case by (auto simp: destroyable_def destroyed_def)
  next
    case (Cons l ls)
    note d = destroyable_Cons [OF Cons.prems(2)]
    obtain t1 where t1: "sp_destroy t [l] = Some t1" "destroyed g t Y {l} t1" using single [OF d(1) Cons.prems(1)] by blast
    have "card (counting t1) \<le> card (counting s)"
      using destroyed_counting [OF t1(2)] Cons.prems by (simp add: destroyable_def)
    then obtain t2 where t2: "sp_destroy t1 ls = Some t2" "destroyed g t1 (Y \<union> {l}) (set ls) t2" using Cons.IH d(2) [OF t1(2)] by blast
    then show ?case using t1(1) destroyed_trans [OF t1(2) t2(2)] by (subst sp_destroy_Cons) simp
  qed
  then show ?case using less.prems by blast
qed

section \<open>The operations\<close>

lemma sp_ok_fill:
  assumes ok: "sp_ok g s {l}" and obj: "\<And>p. ss_objects t p = None \<longleftrightarrow> ss_objects s p = None"
    and get: "\<And>k. sget t k = (if k = l then Some x else sget s k)"
    and x: "x = null_sptr \<and> ss_counts t = ss_counts s \<or>
      ss_counts s (sp_refCount x) = Some n \<and> sp_ptr x = g (sp_refCount x) \<and> ss_counts t = (ss_counts s)(sp_refCount x \<mapsto> n + 1)"
  shows "sp_ok g t {}"
proof (rule sp_okI)
  have dom: "dom (ss_counts t) = dom (ss_counts s)" using x by (auto split: if_splits)
  have refs: "srefs t {} c = (if sp_refCount x = c then insert l (srefs s {l} c) else srefs s {l} c)" for c
    by (auto simp: srefs_def get)
  show "inj_on g (dom (ss_counts t))" "finite (dom (ss_counts t))" using sp_okD(6,7) [OF ok] unfolding dom .
  have "{k. sget t k \<noteq> None} \<subseteq> insert l {k. sget s k \<noteq> None}" by (auto simp: get)
  then show "finite {k. sget t k \<noteq> None}" by (rule finite_subset) (use sp_okD(8) [OF ok] in simp)
  show "ss_objects t NULL = None" using sp_ok_NULL [OF ok] obj by simp
  show "ss_counts t NULL = None" using sp_ok_NULL [OF ok] dom by (metis domIff)
  show "ss_objects t (g c) \<noteq> None" if "ss_counts t c = Some m" for c m
    using that sp_okD(3) [OF ok] dom obj by (metis domIff option.distinct(1) not_None_eq)
  show "m = int (card (srefs t {} c))" if "ss_counts t c = Some m" for c m
  proof (cases "sp_refCount x = c")
    case True
    have "x \<noteq> null_sptr" using that True x sp_ok_NULL [OF ok] by auto
    then have "m = n + 1" "n = int (card (srefs s {l} c))" using that True x sp_okD(2) [OF ok] by auto
    moreover have "l \<notin> srefs s {l} c" by (simp add: srefs_def)
    ultimately show ?thesis using srefs_finite [OF ok, of "{l}" c] True by (simp add: refs)
  next
    case False
    then have "ss_counts s c = Some m" using that x by auto
    then show ?thesis using sp_okD(2) [OF ok] False by (simp add: refs)
  qed
  show "y = null_sptr \<or> sp_refCount y \<in> dom (ss_counts t) \<and> sp_ptr y = g (sp_refCount y)" if "sget t k = Some y" for k y
  proof (cases "k = l")
    case True
    then show ?thesis using that x by (auto simp: get)
  next
    case False
    then show ?thesis using sp_okD(5) [OF ok, of k y] that unfolding dom by (simp add: get)
  qed
qed

lemma sp_ok_new:
  assumes ok: "sp_ok g s {l}" and obj: "\<And>q. ss_objects t q = None \<longleftrightarrow> ss_objects s q = None"
    and get: "\<And>k. sget t k = (if k = l then Some \<lparr>sp_ptr = p, sp_refCount = c\<rparr> else sget s k)"
    and p: "p \<notin> g ` dom (ss_counts s)" "ss_objects s p \<noteq> None" and c: "ss_counts s c = None" "0 < c"
    and counts: "ss_counts t = (ss_counts s)(c \<mapsto> 1)"
  shows "sp_ok (g(c := p)) t {}"
proof (rule sp_okI)
  have ref: "sget s k = Some y \<Longrightarrow> k \<noteq> l \<Longrightarrow> sp_refCount y \<noteq> c" for k y using sp_okD(5) [OF ok, of k y] c by auto
  have refs: "srefs t {} k = (if k = c then {l} else srefs s {l} k)" for k
    using ref by (auto simp: srefs_def get)
  have dom: "dom (ss_counts t) = insert c (dom (ss_counts s))" by (simp add: counts)
  have cn: "c \<notin> dom (ss_counts s)" using c(1) by auto
  have "inj_on (g(c := p)) (dom (ss_counts s))" using inj_on_fun_updI [OF sp_okD(6) [OF ok] p(1)] .
  moreover have "(g(c := p)) ` (dom (ss_counts s)) = g ` dom (ss_counts s)" using cn by (intro image_cong) auto
  ultimately show "inj_on (g(c := p)) (dom (ss_counts t))" using p(1) cn by (simp add: dom)
  show "finite (dom (ss_counts t))" using sp_okD(7) [OF ok] by (simp add: dom)
  have "{k. sget t k \<noteq> None} \<subseteq> insert l {k. sget s k \<noteq> None}" by (auto simp: get)
  then show "finite {k. sget t k \<noteq> None}" by (rule finite_subset) (use sp_okD(8) [OF ok] in simp)
  show "ss_objects t NULL = None" "ss_counts t NULL = None" using sp_ok_NULL [OF ok] obj c by (simp_all add: counts)
  show "m = int (card (srefs t {} k))" if "ss_counts t k = Some m" for k m
    using that sp_okD(2) [OF ok, of k m] by (auto simp: counts refs split: if_splits)
  show "ss_objects t ((g(c := p)) k) \<noteq> None" if "ss_counts t k = Some m" for k m
    using that sp_okD(3) [OF ok, of k] p(2) obj by (auto simp: counts split: if_splits)
  show "y = null_sptr \<or> sp_refCount y \<in> dom (ss_counts t) \<and> sp_ptr y = (g(c := p)) (sp_refCount y)" if "sget t k = Some y" for k y
  proof (cases "k = l")
    case True
    then show ?thesis using that by (auto simp: get counts)
  next
    case False
    then have "sget s k = Some y" using that by (simp add: get)
    then show ?thesis using sp_okD(5) [OF ok, of k y] ref [of k y] False by (auto simp: dom)
  qed
qed

lemma sp_ok_swap:
  assumes ok: "sp_ok g s {l}" and obj: "\<And>p. ss_objects t p = None \<longleftrightarrow> ss_objects s p = None" and r: "r \<noteq> l" "sget s r = Some x"
    and get: "\<And>k. sget t k = (if k = r then Some null_sptr else if k = l then Some x else sget s k)"
    and counts: "ss_counts t = ss_counts s"
  shows "sp_ok g t {}"
proof (rule sp_okI)
  have refs: "srefs t {} c = (if sp_refCount x = c then insert l (srefs s {l} c - {r}) else srefs s {l} c)" if "0 < c" for c
    using r that by (auto simp: srefs_def get)
  show "inj_on g (dom (ss_counts t))" "finite (dom (ss_counts t))" using sp_okD(6,7) [OF ok] unfolding counts .
  have "{k. sget t k \<noteq> None} \<subseteq> insert l {k. sget s k \<noteq> None}" using r by (auto simp: get)
  then show "finite {k. sget t k \<noteq> None}" by (rule finite_subset) (use sp_okD(8) [OF ok] in simp)
  show "ss_objects t NULL = None" "ss_counts t NULL = None" using sp_ok_NULL [OF ok] obj by (simp_all add: counts)
  show "ss_objects t (g c) \<noteq> None" if "ss_counts t c = Some m" for c m
    using that sp_okD(3) [OF ok] obj by (simp add: counts)
  show "m = int (card (srefs t {} c))" if "ss_counts t c = Some m" for c m
  proof -
    have c: "ss_counts s c = Some m" "0 < c" using that sp_okD(1) [OF ok] by (auto simp: counts)
    have m: "m = int (card (srefs s {l} c))" by (rule sp_okD(2) [OF ok c(1)])
    show ?thesis
    proof (cases "sp_refCount x = c")
      case True
      then have "r \<in> srefs s {l} c" using r by (simp add: srefs_mem)
      moreover have "l \<notin> srefs s {l} c" by (simp add: srefs_def)
      ultimately show ?thesis using srefs_finite [OF ok, of "{l}" c] True c(2) m
        by (simp add: refs card_Suc_Diff1 del: card_Diff_insert)
    qed (use m c(2) refs in simp)
  qed
  show "y = null_sptr \<or> sp_refCount y \<in> dom (ss_counts t) \<and> sp_ptr y = g (sp_refCount y)" if "sget t k = Some y" for k y
    using that sp_okD(5) [OF ok, of k y] sp_okD(5) [OF ok, of r x] r by (auto simp: get counts split: if_splits)
qed

lemma sp_ok_new_var: "sp_ok g s {} \<Longrightarrow> ss_vars s v = None \<Longrightarrow> sp_ok g (new_var s v y) {V v}"
proof -
  assume ok: "sp_ok g s {}" and v: "ss_vars s v = None"
  have get: "sget (new_var s v y) k = (if k = V v then Some y else sget s k)" for k
    by (auto simp: new_var_def sget_def split: sloc.split)
  have refs: "srefs (new_var s v y) {V v} c = srefs s {} c" for c using v by (auto simp: srefs_def get)
  have "{k. sget (new_var s v y) k \<noteq> None} \<subseteq> insert (V v) {k. sget s k \<noteq> None}" by (auto simp: get)
  then have "finite {k. sget (new_var s v y) k \<noteq> None}" by (rule finite_subset) (use sp_okD(8) [OF ok] in simp)
  then show ?thesis
    using sp_okD(2,3,5,6,7) [OF ok] sp_ok_NULL [OF ok]
    by (intro sp_okI) (simp_all add: refs get, simp_all add: new_var_def)
qed

section \<open>Legal statements\<close>

text \<open>
  A program uses the variables that exist, gives a pointer only objects that no pointer owns, and dereferences no null
  pointer. It does not assign to a variable from a member of the object that this variable points to.
\<close>

definition unowned :: "sstate \<Rightarrow> addr \<Rightarrow> bool" where
  "unowned s p \<longleftrightarrow> ss_objects s p \<noteq> None \<and> (\<forall>l x. sget s l = Some x \<longrightarrow> sp_ptr x \<noteq> p)"

fun own_member :: "splace \<Rightarrow> splace \<Rightarrow> bool" where
  "own_member (Var v) (Member w i) = (v = w)"
| "own_member _ _ = False"

fun sp_legal :: "sstate \<Rightarrow> scmd \<Rightarrow> bool" where
  "sp_legal s (New_Object p k) = (p \<noteq> NULL \<and> ss_objects s p = None)"
| "sp_legal s (Construct v p) = (ss_vars s v = None \<and> (p = NULL \<or> unowned s p))"
| "sp_legal s (Default v) = (ss_vars s v = None)"
| "sp_legal s (Copy v b) = (ss_vars s v = None \<and> splace s b \<noteq> None)"
| "sp_legal s (Move v b) = (ss_vars s v = None \<and> splace s b \<noteq> None)"
| "sp_legal s (Assign a b) = (splace s a \<noteq> None \<and> splace s b \<noteq> None \<and> \<not> own_member a b)"
| "sp_legal s (Move_Assign a b) = (splace s a \<noteq> None \<and> splace s b \<noteq> None \<and> \<not> own_member a b)"
| "sp_legal s (Reset a p) = (splace s a \<noteq> None \<and> (p = NULL \<or> unowned s p))"
| "sp_legal s (Drop v) = (ss_vars s v \<noteq> None)"

fun sp_legal_run :: "(sstate \<Rightarrow> addr) \<Rightarrow> sstate \<Rightarrow> scmd list \<Rightarrow> bool" where
  "sp_legal_run new s [] = True"
| "sp_legal_run new s (c # cs) = (sp_legal s c \<and> (case sp_step new s c of None \<Rightarrow> True | Some s \<Rightarrow> sp_legal_run new s cs))"

definition sp_inv :: "(addr \<Rightarrow> addr) \<Rightarrow> sstate \<Rightarrow> bool" where
  "sp_inv g s \<longleftrightarrow> sp_ok g s {} \<and> (\<forall>c. ss_counts s c \<noteq> Some 0)"

lemma splace_get: "splace s a = Some l \<Longrightarrow> sget s l \<noteq> None"
  by (auto simp: splace_def split: splace.splits if_splits bind_splits)

lemma var_held:
  assumes ok: "sp_ok g s {}" and v: "ss_vars s v = Some x" "V v \<notin> Y"
  shows "held g s Y (sp_ptr x)"
  unfolding held_def
proof (intro allI impI)
  fix c n assume c: "ss_counts s c = Some n" "g c = sp_ptr x"
  have "x \<noteq> null_sptr"
    using sp_okD(4) [OF ok, of "g c"] sp_okD(3) [OF ok c(1)] c(2) by auto
  then have "sp_refCount x \<in> dom (ss_counts s)" "g (sp_refCount x) = g c" using sp_okD(5) [OF ok, of "V v" x] v(1) c(2) by auto
  then have "sp_refCount x = c" using inj_onD [OF sp_okD(6) [OF ok], of "sp_refCount x" c] c(1) by blast
  then show "n = 0 \<or> (\<exists>v. V v \<in> srefs s Y c)" using v by (auto simp: srefs_def)
qed

lemma splace_held:
  assumes "sp_ok g s {}" "splace s b = Some (F q i)" "\<And>v j. b = Member v j \<Longrightarrow> V v \<notin> Y"
  shows "held g s Y q"
  using assms var_held [OF assms(1)] by (auto simp: splace_def split: splace.splits if_splits bind_splits)

lemma sp_destroy_place:
  assumes inv: "sp_inv g s" and a: "splace s a = Some l"
  obtains s' where "sp_destroy s [l] = Some s'" "destroyed g s {} {l} s'" "sp_ok g s' {l}" "\<And>c. ss_counts s' c \<noteq> Some 0" "sget s' l \<noteq> None"
proof -
  have ok: "sp_ok g s {}" using inv by (simp add: sp_inv_def)
  have h: "held g s ({} \<union> {l}) q" if "l = F q i" for q i
    by (rule splace_held [OF ok a [unfolded that]]) (simp add: that)
  have "\<forall>q i. F q i \<in> {} \<union> set [l] \<longrightarrow> held g s ({} \<union> set [l]) q"
  proof (intro allI impI)
    fix q i assume "F q i \<in> {} \<union> set [l]"
    then show "held g s ({} \<union> set [l]) q" using h [of q i] by simp
  qed
  then have "destroyable g s {} [l]" unfolding destroyable_def using ok splace_get [OF a] by simp
  then obtain s' where s': "sp_destroy s [l] = Some s'" "destroyed g s {} {l} s'" using sp_destroy_ok by fastforce
  moreover have "sget s' l \<noteq> None" by (rule destroyed_alive [OF ok s'(2) splace_get [OF a] h])
  moreover have "sp_ok g s' {l}" using s'(2) by (simp add: destroyed_def)
  moreover have "ss_counts s' c \<noteq> Some 0" for c using s'(2) inv by (simp add: destroyed_def sp_inv_def)
  ultimately show thesis by (intro that)
qed

lemma destroyed_source:
  assumes inv: "sp_inv g s" and d: "destroyed g s {} {l} s'" and a: "splace s a = Some l" and b: "splace s b = Some r"
    and "\<not> own_member a b" "r \<noteq> l"
  shows "sget s' r = sget s r" "sget s r \<noteq> None"
proof -
  have ok: "sp_ok g s {}" using inv by (simp add: sp_inv_def)
  have "held g s ({} \<union> {l}) q" if "r = F q i" for q i
  proof (rule splace_held [OF ok b [unfolded that]])
    fix v j assume "b = Member v j"
    then show "V v \<notin> {} \<union> {l}" using a assms(5) by (cases a) (auto simp: splace_def split: if_splits bind_splits)
  qed
  then have "sget s' r \<noteq> None" by (intro destroyed_alive [OF ok d splace_get [OF b]])
  then show "sget s' r = sget s r" using destroyed_same [OF d, of r] assms(6) by auto
  show "sget s r \<noteq> None" by (rule splace_get [OF b])
qed

definition owned :: "(addr \<Rightarrow> addr) \<Rightarrow> sstate \<Rightarrow> addr set" where
  "owned g s = g ` dom (ss_counts s)"

definition extends :: "(addr \<Rightarrow> addr) \<Rightarrow> sstate \<Rightarrow> (addr \<Rightarrow> addr) \<Rightarrow> sstate \<Rightarrow> bool" where
  "extends g s h t \<longleftrightarrow> sp_inv h t \<and> owned g s \<subseteq> owned h t \<and> (\<forall>p. ss_objects s p = None \<longrightarrow> ss_objects t p = None)"

text \<open>A pointer at \<open>l\<close> that has been destroyed gets a new value: null, a reference more to \<open>x\<close>, or the reference of another pointer.\<close>

lemma put_null:
  assumes "sp_ok g s {l}" "\<And>c. ss_counts s c \<noteq> Some 0" "sget s l \<noteq> None"
  shows "\<exists>t. sput s l null_sptr = Some t \<and> extends g s g t"
proof -
  obtain t where t: "sput s l null_sptr = Some t" "ss_counts t = ss_counts s" "\<And>p. ss_objects t p = None \<longleftrightarrow> ss_objects s p = None"
    "\<And>k. sget t k = (if k = l then Some null_sptr else sget s k)" by (rule sput_Some [OF assms(3)]) blast
  then have "sp_ok g t {}" by (intro sp_ok_fill [OF assms(1), where x = null_sptr]) auto
  then show ?thesis using t(1-3) assms(2) by (simp add: extends_def sp_inv_def owned_def)
qed

lemma put_inc:
  assumes ok: "sp_ok g s {l}" and z: "\<And>c. ss_counts s c \<noteq> Some 0" and l: "sget s l \<noteq> None" and x: "sget s r = Some x" "r \<noteq> l"
  shows "\<exists>t. do { t \<leftarrow> sput s l x; sp_inc t (sp_refCount x) } = Some t \<and> extends g s g t"
proof -
  obtain t where t: "sput s l x = Some t" "ss_counts t = ss_counts s" "\<And>p. ss_objects t p = None \<longleftrightarrow> ss_objects s p = None"
    "\<And>k. sget t k = (if k = l then Some x else sget s k)" by (rule sput_Some [OF l]) blast
  have "x = null_sptr \<or> sp_refCount x \<in> dom (ss_counts s) \<and> sp_ptr x = g (sp_refCount x)" using sp_okD(5) [OF ok _ x(1)] x(2) by simp
  then show ?thesis
  proof (elim disjE conjE)
    assume "x = null_sptr"
    moreover from this have "sp_ok g t {}" using t by (intro sp_ok_fill [OF ok, where x = x]) auto
    ultimately show ?thesis using t z by (auto simp: sp_inc_def extends_def sp_inv_def owned_def)
  next
    let ?c = "sp_refCount x"
    assume p: "sp_ptr x = g ?c" and "?c \<in> dom (ss_counts s)"
    then obtain n where n: "ss_counts s ?c = Some n" by auto
    then have "0 < ?c" using sp_okD(1) [OF ok] by blast
    moreover have "sp_ok g (set_count t ?c (n + 1)) {}" using t p n by (intro sp_ok_fill [OF ok, where x = x and n = n]) auto
    moreover have "0 \<le> n" using sp_okD(2) [OF ok n] by simp
    then have "ss_counts (set_count t ?c (n + 1)) c \<noteq> Some 0" for c using z t(2) by simp
    ultimately show ?thesis using t n by (auto simp: sp_inc_def extends_def sp_inv_def owned_def)
  qed
qed

lemma put_swap:
  assumes ok: "sp_ok g s {l}" and z: "\<And>c. ss_counts s c \<noteq> Some 0" and l: "sget s l \<noteq> None" and x: "sget s r = Some x" "r \<noteq> l"
  shows "\<exists>t. do { t \<leftarrow> sput s l x; sput t r null_sptr } = Some t \<and> extends g s g t"
proof -
  obtain t where t: "sput s l x = Some t" "ss_counts t = ss_counts s" "\<And>p. ss_objects t p = None \<longleftrightarrow> ss_objects s p = None"
    "\<And>k. sget t k = (if k = l then Some x else sget s k)" by (rule sput_Some [OF l]) blast
  then have "sget t r \<noteq> None" using x by simp
  then obtain u where u: "sput t r null_sptr = Some u" "ss_counts u = ss_counts t" "\<And>p. ss_objects u p = None \<longleftrightarrow> ss_objects t p = None"
    "\<And>k. sget u k = (if k = r then Some null_sptr else sget t k)" by (rule sput_Some) blast
  have "sp_ok g u {}" using t u x by (intro sp_ok_swap [OF ok _ x(2,1)]) auto
  then show ?thesis using t(1-3) u(1-3) z by (simp add: extends_def sp_inv_def owned_def)
qed

lemma put_new:
  assumes ok: "sp_ok g s {l}" and z: "\<And>c. ss_counts s c \<noteq> Some 0" and l: "sget s l \<noteq> None"
    and p: "p = NULL \<or> p \<notin> g ` dom (ss_counts s) \<and> ss_objects s p \<noteq> None" and new: "0 < new s" "ss_counts s (new s) = None"
  shows "\<exists>t h. (case new_count new s p of (s, x) \<Rightarrow> sput s l x) = Some t \<and> extends g s h t"
proof (cases "p = NULL")
  case True
  then show ?thesis using put_null [OF ok z l] by (auto simp: new_count_def)
next
  case False
  let ?x = "\<lparr>sp_ptr = p, sp_refCount = new s\<rparr>" and ?s = "set_count s (new s) 1"
  have "sget ?s l \<noteq> None" using l by simp
  then obtain t where t: "sput ?s l ?x = Some t" "ss_counts t = ss_counts ?s" "\<And>p. ss_objects t p = None \<longleftrightarrow> ss_objects ?s p = None"
    "\<And>k. sget t k = (if k = l then Some ?x else sget ?s k)" by (rule sput_Some) blast
  then have "sp_ok (g(new s := p)) t {}" using p False new by (intro sp_ok_new [OF ok]) auto
  moreover have "owned g s \<subseteq> owned (g(new s := p)) t" using new(2) t(2) by (auto simp: owned_def image_iff)
  ultimately show ?thesis using t False z by (auto simp: new_count_def extends_def sp_inv_def)
qed

lemma unowned_fresh:
  assumes inv: "sp_inv g s" and p: "unowned s p"
  shows "p \<notin> g ` dom (ss_counts s)"
proof
  assume "p \<in> g ` dom (ss_counts s)"
  then obtain c n where c: "ss_counts s c = Some n" "g c = p" by auto
  have ok: "sp_ok g s {}" using inv by (simp add: sp_inv_def)
  have "n \<noteq> 0" using inv c(1) by (auto simp: sp_inv_def)
  then have "srefs s {} c \<noteq> {}" using sp_okD(2) [OF ok c(1)] by auto
  then obtain l x where l: "sget s l = Some x" "sp_refCount x = c" by (auto simp: srefs_def)
  then have "sp_ptr x = p" using sp_okD(5) [OF ok _ l(1)] sp_okD(1) [OF ok c(1)] c(2) by auto
  then show False using p l(1) by (auto simp: unowned_def)
qed

lemma owned_iff:
  assumes inv: "sp_inv g s"
  shows "p \<in> owned g s \<longleftrightarrow> p \<noteq> NULL \<and> (\<exists>l x. sget s l = Some x \<and> sp_ptr x = p)"
proof
  have ok: "sp_ok g s {}" using inv by (simp add: sp_inv_def)
  {
    assume "p \<in> owned g s"
    then obtain c n where c: "ss_counts s c = Some n" "g c = p" by (auto simp: owned_def)
    have "\<not> unowned s p" using unowned_fresh [OF inv, of p] c by blast
    then show "p \<noteq> NULL \<and> (\<exists>l x. sget s l = Some x \<and> sp_ptr x = p)"
      using sp_okD(3,4) [OF ok, of c] c sp_okD(4) [OF ok, of p] by (auto simp: unowned_def)
  next
    assume "p \<noteq> NULL \<and> (\<exists>l x. sget s l = Some x \<and> sp_ptr x = p)"
    then obtain l x where "sget s l = Some x" "sp_ptr x = p" "p \<noteq> NULL" by blast
    moreover from this have "x \<noteq> null_sptr" by auto
    ultimately show "p \<in> owned g s" using sp_okD(5) [OF ok, of l x] by (auto simp: owned_def)
  }
qed

definition fresh_counter :: "(sstate \<Rightarrow> addr) \<Rightarrow> bool" where
  "fresh_counter new \<longleftrightarrow> (\<forall>s. finite (dom (ss_counts s)) \<longrightarrow> new s \<noteq> NULL \<and> ss_counts s (new s) = None)"

lemma destroyed_owned:
  assumes "destroyed g s {} {l} s'" "p \<in> owned g s"
  shows "ss_objects s' p = None \<or> p \<in> owned g s'"
proof -
  obtain c where c: "c \<in> dom (ss_counts s)" "g c = p" using assms(2) by (auto simp: owned_def)
  show ?thesis
  proof (cases "c \<in> dom (ss_counts s')")
    case True
    then show ?thesis using c(2) by (auto simp: owned_def)
  next
    case False
    then have "p \<in> g ` (dom (ss_counts s) - dom (ss_counts s'))" using c by blast
    then show ?thesis using assms(1) by (simp add: destroyed_def)
  qed
qed

definition step_ok :: "(addr \<Rightarrow> addr) \<Rightarrow> sstate \<Rightarrow> sstate option \<Rightarrow> bool" where
  "step_ok g s r \<longleftrightarrow> (\<exists>s' h. r = Some s' \<and> sp_inv h s' \<and> (\<forall>p\<in>owned g s. ss_objects s' p = None \<or> p \<in> owned h s'))"

lemma step_okI:
  assumes "r = Some s'" "sp_inv h s'" "\<And>p. p \<in> owned g s \<Longrightarrow> ss_objects s' p = None \<or> p \<in> owned h s'"
  shows "step_ok g s r"
  using assms by (auto simp: step_ok_def)

lemma sput_new_var: "sput (new_var s v y) (V v) x = Some (new_var s v x)"
  by (simp add: sput_def new_var_def)

lemma sget_new_var: "sget (new_var s v y) k = (if k = V v then Some y else sget s k)"
  by (auto simp: new_var_def sget_def split: sloc.split)

lemma sp_inv_empty: "sp_inv g sp_empty"
proof -
  have "sget sp_empty l = None" for l by (cases l) (simp_all add: sp_empty_def sget_def)
  moreover have "ss_counts sp_empty = Map.empty" "ss_objects sp_empty = Map.empty" by (simp_all add: sp_empty_def)
  ultimately show ?thesis by (simp add: sp_inv_def sp_ok_def)
qed

lemma extends_step: "r = Some t \<Longrightarrow> extends g s h t \<Longrightarrow> step_ok g s r"
  by (auto simp: step_ok_def extends_def)

lemma extends_destroyed:
  assumes "destroyed g s {} {l} s1" "r = Some t" "extends g s1 h t"
  shows "step_ok g s r"
  using assms(2)
proof (rule step_okI)
  show "sp_inv h t" using assms(3) by (simp add: extends_def)
  show "ss_objects t p = None \<or> p \<in> owned h t" if "p \<in> owned g s" for p
    using destroyed_owned [OF assms(1) that] assms(3) by (auto simp: extends_def)
qed

lemma extends_new_var:
  assumes "sp_inv g s" "ss_vars s v = None"
  shows "sp_ok g (new_var s v y) {V v}" "ss_counts (new_var s v y) = ss_counts s" "ss_objects (new_var s v y) = ss_objects s"
    "sget (new_var s v y) (V v) \<noteq> None" "\<And>c. ss_counts (new_var s v y) c \<noteq> Some 0"
    "extends g (new_var s v y) h t \<Longrightarrow> extends g s h t"
  using assms by (auto simp: sp_inv_def sp_ok_new_var) (simp_all add: new_var_def extends_def owned_def)

lemma sp_assign_ok:
  assumes inv: "sp_inv g s" and a: "splace s a = Some l" and b: "splace s b = Some r" and own: "\<not> own_member a b"
  shows "step_ok g s (sp_assign s l r)" "step_ok g s (sp_move_assign s l r)"
proof -
  obtain s1 where s1: "sp_destroy s [l] = Some s1" "destroyed g s {} {l} s1" "sp_ok g s1 {l}" "\<And>c. ss_counts s1 c \<noteq> Some 0" "sget s1 l \<noteq> None"
    by (rule sp_destroy_place [OF inv a]) blast
  show "step_ok g s (sp_assign s l r)"
  proof (cases "l = r")
    case True
    have "extends g s g s" using inv by (simp add: extends_def)
    then show ?thesis using True by (intro extends_step) (simp_all add: sp_assign_def)
  next
    case False
    then obtain x where x: "sget s1 r = Some x" using destroyed_source [OF inv s1(2) a b own] by force
    show ?thesis using put_inc [OF s1(3-5) x] False s1(1) x extends_destroyed [OF s1(2)] by (auto simp: sp_assign_def)
  qed
  show "step_ok g s (sp_move_assign s l r)"
  proof (cases "l = r")
    case False
    then obtain x where x: "sget s1 r = Some x" using destroyed_source [OF inv s1(2) a b own] by force
    show ?thesis using put_swap [OF s1(3-5) x] False s1(1) x extends_destroyed [OF s1(2)] by (auto simp: sp_move_assign_def)
  next
    case True
    obtain x where x: "sget s1 l = Some x" using s1(5) by blast
    obtain t where t: "sput s1 l x = Some t" "ss_counts t = ss_counts s1" "\<And>p. ss_objects t p = None \<longleftrightarrow> ss_objects s1 p = None"
      "\<And>k. sget t k = (if k = l then Some x else sget s1 k)" by (rule sput_Some [OF s1(5)]) blast
    have "srefs t {l} c = srefs s1 {l} c" for c by (auto simp: srefs_def t(4))
    moreover have "sget t k = sget s1 k" for k using x by (simp add: t(4))
    ultimately have "sp_ok g t {l}" using s1(3) by (simp add: sp_ok_def t(2,3))
    moreover have "sget t l \<noteq> None" by (simp add: t(4))
    ultimately obtain u where u: "sput t l null_sptr = Some u" "extends g t g u" using put_null [of g t l] s1(4) t(2) by auto
    then have "extends g s1 g u" using t(2,3) by (simp add: extends_def owned_def)
    then show ?thesis using extends_destroyed [OF s1(2)] True s1(1) x t(1) u(1) by (simp add: sp_move_assign_def)
  qed
qed

lemma sp_reset_ok:
  assumes inv: "sp_inv g s" and a: "splace s a = Some l" and p: "p = NULL \<or> unowned s p" and new: "fresh_counter new"
  shows "step_ok g s (sp_reset new s l p)"
proof -
  obtain s1 where s1: "sp_destroy s [l] = Some s1" "destroyed g s {} {l} s1" "sp_ok g s1 {l}" "\<And>c. ss_counts s1 c \<noteq> Some 0" "sget s1 l \<noteq> None"
    by (rule sp_destroy_place [OF inv a]) blast
  obtain x where x: "sget s l = Some x" using splace_get [OF a] by blast
  show ?thesis
  proof (cases "sp_ptr x = p")
    case True
    have "extends g s g s" using inv by (simp add: extends_def)
    then show ?thesis using True x by (intro extends_step) (simp_all add: sp_reset_def)
  next
    case False
    have dom: "dom (ss_counts s1) \<subseteq> dom (ss_counts s)" using s1(2) by (simp add: destroyed_def)
    have "p \<notin> g ` dom (ss_counts s1) \<and> ss_objects s1 p \<noteq> None" if "p \<noteq> NULL"
    proof -
      have u: "unowned s p" using p that by simp
      then have f: "p \<notin> g ` dom (ss_counts s)" by (rule unowned_fresh [OF inv])
      then have "ss_objects s1 p \<noteq> None" using s1(2) u by (auto simp: destroyed_def unowned_def)
      then show ?thesis using f dom by blast
    qed
    then have "p = NULL \<or> p \<notin> g ` dom (ss_counts s1) \<and> ss_objects s1 p \<noteq> None" by blast
    moreover have "0 < new s1" "ss_counts s1 (new s1) = None" using new sp_okD(7) [OF s1(3)] by (auto simp: fresh_counter_def)
    ultimately have "\<exists>t h. (case new_count new s1 p of (s, x) \<Rightarrow> sput s l x) = Some t \<and> extends g s1 h t" by (rule put_new [OF s1(3-5)])
    then show ?thesis using extends_destroyed [OF s1(2)] x s1(1) False by (auto simp: sp_reset_def)
  qed
qed

lemma sp_construct_ok:
  assumes inv: "sp_inv g s" and v: "ss_vars s v = None"
  shows "step_ok g s (sp_default s v)" "splace s b = Some r \<Longrightarrow> step_ok g s (sp_copy s v r)" "splace s b = Some r \<Longrightarrow> step_ok g s (sp_move s v r)"
    "p = NULL \<or> unowned s p \<Longrightarrow> fresh_counter new \<Longrightarrow> step_ok g s (sp_construct new s v p)"
proof -
  note w = extends_new_var [OF inv v, of null_sptr]
  let ?s = "new_var s v null_sptr"
  show "step_ok g s (sp_default s v)"
    using put_null [OF w(1,5,4)] extends_step [OF _ w(6)] by (auto simp: sput_new_var sp_default_def)
  {
    assume r: "splace s b = Some r"
    obtain x where x: "sget s r = Some x" using splace_get [OF r] by blast
    then have r: "r \<noteq> V v" "sget ?s r = Some x" using v by (auto simp: sget_new_var)
    show "step_ok g s (sp_copy s v r)"
      using put_inc [OF w(1,5,4) r(2,1)] extends_step [OF _ w(6)] x by (auto simp: sput_new_var sp_copy_def)
    show "step_ok g s (sp_move s v r)"
      using put_swap [OF w(1,5,4) r(2,1)] extends_step [OF _ w(6)] x by (auto simp: sput_new_var sp_move_def)
  next
    assume p: "p = NULL \<or> unowned s p" and new: "fresh_counter new"
    define n where "n = (\<lambda>_ :: sstate. new s)"
    have "p = NULL \<or> p \<notin> g ` dom (ss_counts ?s) \<and> ss_objects ?s p \<noteq> None"
      using p unowned_fresh [OF inv, of p] by (auto simp: w(2,3) unowned_def)
    moreover have "finite (dom (ss_counts s))" using inv by (simp add: sp_inv_def sp_ok_def)
    then have "0 < n ?s" "ss_counts ?s (n ?s) = None" using new by (auto simp: n_def w(2) fresh_counter_def)
    ultimately obtain t h where t: "(case new_count n ?s p of (s, x) \<Rightarrow> sput s (V v) x) = Some t" "extends g ?s h t"
      using put_new [OF w(1,5,4)] by blast
    have "sp_construct new s v p = Some t"
      using t(1) by (auto simp: sp_construct_def new_count_def n_def sput_new_var)
        (auto simp: new_var_def set_count_def sput_def sget_def split: if_splits)
    then show "step_ok g s (sp_construct new s v p)" by (rule extends_step [OF _ w(6) [OF t(2)]])
  }
qed

lemma sp_new_object_ok:
  assumes inv: "sp_inv g s" and p: "p \<noteq> NULL" "ss_objects s p = None"
  shows "sp_inv g (s\<lparr>ss_objects := (ss_objects s)(p \<mapsto> replicate k null_sptr)\<rparr>)"
proof -
  let ?t = "s\<lparr>ss_objects := (ss_objects s)(p \<mapsto> replicate k null_sptr)\<rparr>"
  have ok: "sp_ok g s {}" using inv by (simp add: sp_inv_def)
  have get: "sget ?t l = (if \<exists>i<k. l = F p i then Some null_sptr else sget s l)" for l
    using p(2) by (cases l) (auto simp: sget_def)
  have refs: "srefs ?t {} c = srefs s {} c" if "0 < c" for c
    using that p(2) by (auto simp: srefs_def get sget_F)
  have "{l. sget ?t l \<noteq> None} \<subseteq> F p ` {..<k} \<union> {l. sget s l \<noteq> None}" by (auto simp: get)
  then have fin: "finite {l. sget ?t l \<noteq> None}" by (rule finite_subset) (use sp_okD(8) [OF ok] in simp)
  have "sp_ok g ?t {}"
  proof (rule sp_okI)
    show "n = int (card (srefs ?t {} c))" if "ss_counts ?t c = Some n" for c n
    proof -
      have c: "ss_counts s c = Some n" using that by simp
      show ?thesis unfolding refs [OF sp_okD(1) [OF ok c]] by (rule sp_okD(2) [OF ok c])
    qed
    show "ss_objects ?t (g c) \<noteq> None" if "ss_counts ?t c = Some n" for c n using that sp_okD(3) [OF ok, of c] by simp
    show "x = null_sptr \<or> sp_refCount x \<in> dom (ss_counts ?t) \<and> sp_ptr x = g (sp_refCount x)" if "sget ?t l = Some x" for l x
      using that sp_okD(5) [OF ok, of l x] by (auto simp: get split: if_splits)
  qed (use fin sp_okD(6,7) [OF ok] sp_ok_NULL [OF ok] p in simp_all)
  then show ?thesis using inv by (simp add: sp_inv_def)
qed

lemma sp_drop_ok:
  assumes inv: "sp_inv g s" and v: "ss_vars s v \<noteq> None"
  shows "step_ok g s (sp_drop s v)"
proof -
  have a: "splace s (Var v) = Some (V v)" using v by (simp add: splace_def)
  obtain s1 where s1: "sp_destroy s [V v] = Some s1" "destroyed g s {} {V v} s1" "sp_ok g s1 {V v}" "\<And>c. ss_counts s1 c \<noteq> Some 0"
    by (rule sp_destroy_place [OF inv a]) blast
  let ?t = "s1\<lparr>ss_vars := (ss_vars s1)(v := None)\<rparr>"
  have get: "sget ?t l = (if l = V v then None else sget s1 l)" for l by (auto simp: sget_def split: sloc.split)
  have refs: "srefs ?t {} c = srefs s1 {V v} c" for c by (auto simp: srefs_def get)
  have "{l. sget ?t l \<noteq> None} \<subseteq> {l. sget s1 l \<noteq> None}" by (auto simp: get)
  then have fin: "finite {l. sget ?t l \<noteq> None}" by (rule finite_subset) (rule sp_okD(8) [OF s1(3)])
  have "sp_ok g ?t {}"
  proof (rule sp_okI)
    show "n = int (card (srefs ?t {} c))" if "ss_counts ?t c = Some n" for c n
      using that sp_okD(2) [OF s1(3), of c n] unfolding refs by simp
    show "ss_objects ?t (g c) \<noteq> None" if "ss_counts ?t c = Some n" for c n using that sp_okD(3) [OF s1(3), of c] by simp
    show "x = null_sptr \<or> sp_refCount x \<in> dom (ss_counts ?t) \<and> sp_ptr x = g (sp_refCount x)" if "sget ?t l = Some x" for l x
      using that sp_okD(5) [OF s1(3), of l x] by (auto simp: get split: if_splits)
  qed (use fin sp_okD(6,7) [OF s1(3)] sp_ok_NULL [OF s1(3)] in simp_all)
  then have "extends g s1 g ?t" using s1(4) by (simp add: extends_def sp_inv_def owned_def)
  then show ?thesis by (intro extends_destroyed [OF s1(2)]) (simp_all add: sp_drop_def s1(1))
qed

lemma sp_step_ok:
  assumes inv: "sp_inv g s" and legal: "sp_legal s c" and new: "fresh_counter new"
  shows "step_ok g s (sp_step new s c)"
proof (cases c)
  case (New_Object p k)
  then have "sp_inv g (s\<lparr>ss_objects := (ss_objects s)(p \<mapsto> replicate k null_sptr)\<rparr>)"
    using sp_new_object_ok [OF inv] legal by simp
  then show ?thesis using New_Object by (auto simp: step_ok_def owned_def)
qed (use legal sp_construct_ok [OF inv] sp_assign_ok [OF inv] sp_reset_ok [OF inv] sp_drop_ok [OF inv] new in auto)

lemma sp_run_ok: "sp_inv g s \<Longrightarrow> sp_legal_run new s cs \<Longrightarrow> fresh_counter new \<Longrightarrow> \<exists>s' h. sp_run new s cs = Some s' \<and> sp_inv h s'"
proof (induction cs arbitrary: g s)
  case (Cons c cs)
  then have "step_ok g s (sp_step new s c)" by (intro sp_step_ok) auto
  then obtain s1 h where "sp_step new s c = Some s1" "sp_inv h s1" by (auto simp: step_ok_def)
  then show ?case using Cons.IH [of h s1] Cons.prems by simp
qed auto

section \<open>Programs with shared pointers\<close>

lemma same_object:
  assumes inv: "sp_inv g s" and x: "sget s l = Some x" "x \<noteq> null_sptr"
  shows "{k. \<exists>y. sget s k = Some y \<and> sp_ptr y = sp_ptr x} = srefs s {} (sp_refCount x)"
proof -
  have ok: "sp_ok g s {}" using inv by (simp add: sp_inv_def)
  have p: "sp_refCount x \<in> dom (ss_counts s)" "sp_ptr x = g (sp_refCount x)" using sp_okD(5) [OF ok _ x(1)] x(2) by auto
  then have "ss_objects s (sp_ptr x) \<noteq> None" "0 < sp_refCount x" using sp_okD(1,3) [OF ok] by auto
  then have nn: "sp_ptr x \<noteq> NULL" "sp_refCount x \<noteq> NULL" using sp_okD(4) [OF ok] by auto
  have "sp_ptr y = sp_ptr x \<longleftrightarrow> sp_refCount y = sp_refCount x" if "sget s k = Some y" for k y
  proof (cases "y = null_sptr")
    case True
    then show ?thesis using nn by simp
  next
    case False
    then have "sp_refCount y \<in> dom (ss_counts s)" "sp_ptr y = g (sp_refCount y)" using sp_okD(5) [OF ok _ that] by auto
    then show ?thesis using p inj_onD [OF sp_okD(6) [OF ok]] by metis
  qed
  then show ?thesis by (auto simp: srefs_def)
qed

definition next_counter :: "sstate \<Rightarrow> addr" where
  "next_counter s = Suc (Max (insert 0 (dom (ss_counts s))))"

lemma fresh_next_counter: "fresh_counter next_counter"
  unfolding fresh_counter_def
proof (intro allI impI)
  fix s :: sstate assume "finite (dom (ss_counts s))"
  then have "k \<le> Max (insert 0 (dom (ss_counts s)))" if "k \<in> dom (ss_counts s)" for k using that by (intro Max_ge) auto
  then have "next_counter s \<notin> dom (ss_counts s)" unfolding next_counter_def by (metis not_less_eq_eq order_refl)
  then show "next_counter s \<noteq> NULL \<and> ss_counts s (next_counter s) = None" by (auto simp: next_counter_def)
qed

text \<open>C33. Whatever a legal program does with its pointers, it never uses or deletes a deleted object, nor a deleted counter: every
  pointer that is not null leads to a live object, and the counter it carries is the number of pointers to that object.\<close>

theorem shared_ptr_counts:
  assumes "fresh_counter new" and "sp_legal_run new sp_empty cs"
  shows "\<exists>s. sp_run new sp_empty cs = Some s \<and>
    (\<forall>l x. sget s l = Some x \<longrightarrow> x = null_sptr \<or> ss_objects s (sp_ptr x) \<noteq> None \<and>
       ss_counts s (sp_refCount x) = Some (int (card {k. \<exists>y. sget s k = Some y \<and> sp_ptr y = sp_ptr x})))"
proof -
  obtain s h where s: "sp_run new sp_empty cs = Some s" "sp_inv h s" using sp_run_ok [OF sp_inv_empty assms(2,1)] by blast
  then have ok: "sp_ok h s {}" by (simp add: sp_inv_def)
  have "ss_objects s (sp_ptr x) \<noteq> None \<and> ss_counts s (sp_refCount x) = Some (int (card {k. \<exists>y. sget s k = Some y \<and> sp_ptr y = sp_ptr x}))"
    if x: "sget s l = Some x" "x \<noteq> null_sptr" for l x
  proof -
    obtain n where "ss_counts s (sp_refCount x) = Some n" "sp_ptr x = h (sp_refCount x)" using sp_okD(5) [OF ok _ x(1)] x(2) by auto
    then show ?thesis using sp_okD(2,3) [OF ok] same_object [OF s(2) x] by simp
  qed
  then show ?thesis using s(1) by blast
qed

lemma sample_run: "sp_legal_run next_counter sp_empty [New_Object 100 1, Construct 0 100]"
  "sp_run next_counter sp_empty [New_Object 100 1, Construct 0 100] = Some \<lparr>ss_vars = [0 \<mapsto> \<lparr>sp_ptr = 100, sp_refCount = 1\<rparr>],
     ss_objects = [100 \<mapsto> [null_sptr]], ss_counts = [1 \<mapsto> 1]\<rparr>"
  by (simp_all add: sp_empty_def sp_construct_def new_count_def set_count_def new_var_def next_counter_def unowned_def sget_def
      split: sloc.split)

theorem shared_ptr_counts_witness:
  "\<exists>s. sp_run next_counter sp_empty [New_Object 100 1, Construct 0 100] = Some s \<and>
    (\<forall>l x. sget s l = Some x \<longrightarrow> x = null_sptr \<or> ss_objects s (sp_ptr x) \<noteq> None \<and>
       ss_counts s (sp_refCount x) = Some (int (card {k. \<exists>y. sget s k = Some y \<and> sp_ptr y = sp_ptr x})))"
  by (rule shared_ptr_counts [OF fresh_next_counter sample_run(1)])

text \<open>C34. An object that has been given to a pointer lives exactly as long as a pointer leads to it: after every further
  statement of the program it has been deleted if and only if no pointer to it is left.\<close>

theorem shared_ptr_deletes:
  assumes "fresh_counter new" and "sp_legal_run new sp_empty cs" and "sp_run new sp_empty cs = Some s" and "sp_legal s c"
    and "sget s l = Some x" "sp_ptr x = p" "p \<noteq> NULL"
  shows "\<exists>s'. sp_step new s c = Some s' \<and> (ss_objects s' p = None \<longleftrightarrow> \<not> (\<exists>k y. sget s' k = Some y \<and> sp_ptr y = p))"
proof -
  obtain g where g: "sp_inv g s" using sp_run_ok [OF sp_inv_empty assms(2,1)] assms(3) by auto
  obtain s' h where s': "sp_step new s c = Some s'" "sp_inv h s'" "\<forall>p\<in>owned g s. ss_objects s' p = None \<or> p \<in> owned h s'"
    using sp_step_ok [OF g assms(4,1)] by (auto simp: step_ok_def)
  have "p \<in> owned g s" using owned_iff [OF g] assms(5-7) by blast
  then have "ss_objects s' p = None \<or> p \<in> owned h s'" using s'(3) by blast
  moreover have "ss_objects s' p \<noteq> None" if "p \<in> owned h s'"
    using that sp_okD(3) [of h s' "{}"] s'(2) by (auto simp: sp_inv_def owned_def)
  moreover have "p \<in> owned h s' \<longleftrightarrow> (\<exists>k y. sget s' k = Some y \<and> sp_ptr y = p)" using owned_iff [OF s'(2), of p] assms(7) by simp
  ultimately have "ss_objects s' p = None \<longleftrightarrow> \<not> (\<exists>k y. sget s' k = Some y \<and> sp_ptr y = p)" by argo
  then show ?thesis using s'(1) by simp
qed

theorem shared_ptr_deletes_witness:
  "\<exists>s'. sp_step next_counter \<lparr>ss_vars = [0 \<mapsto> \<lparr>sp_ptr = 100, sp_refCount = 1\<rparr>], ss_objects = [100 \<mapsto> [null_sptr]], ss_counts = [1 \<mapsto> 1]\<rparr>
     (Drop 0) = Some s' \<and> (ss_objects s' 100 = None \<longleftrightarrow> \<not> (\<exists>k y. sget s' k = Some y \<and> sp_ptr y = 100))"
  by (rule shared_ptr_deletes [OF fresh_next_counter sample_run, where l = "V 0" and x = "\<lparr>sp_ptr = 100, sp_refCount = 1\<rparr>"]) simp_all

text \<open>C35. Walking a list of shared pointers with \<open>p = p->next\<close> reads freed memory when \<open>p\<close> is the only pointer to its object:
  the assignment deletes the object, and with it its member \<open>next\<close>, before it reads that member.\<close>

theorem own_member_faults:
  assumes "fresh_counter new" and "sp_legal_run new sp_empty cs" and "sp_run new sp_empty cs = Some s"
    and v: "ss_vars s v = Some x" "ss_counts s (sp_refCount x) = Some 1" "splace s (Member v i) \<noteq> None"
  shows "sp_step new s (Assign (Var v) (Member v i)) = None \<and> sp_step new s (Move_Assign (Var v) (Member v i)) = None"
proof -
  obtain g where g: "sp_inv g s" using sp_run_ok [OF sp_inv_empty assms(2,1)] assms(3) by auto
  then have ok: "sp_ok g s {}" by (simp add: sp_inv_def)
  let ?c = "sp_refCount x"
  have a: "splace s (Var v) = Some (V v)" using v(1) by (simp add: splace_def)
  obtain s1 where s1: "sp_destroy s [V v] = Some s1" "destroyed g s {} {V v} s1" "sp_ok g s1 {V v}" "\<And>c. ss_counts s1 c \<noteq> Some 0"
    by (rule sp_destroy_place [OF g a]) blast
  have "x \<noteq> null_sptr" using sp_okD(1) [OF ok v(2)] by auto
  then have p: "sp_ptr x = g ?c" using sp_okD(5) [OF ok, of "V v" x] v(1) by simp
  have "srefs s {} ?c = {V v}" using srefs_only [OF ok, of "V v" x] v(1,2) by simp
  moreover have "srefs s1 {V v} ?c \<subseteq> srefs s {} ?c - {V v}"
  proof
    fix k assume k: "k \<in> srefs s1 {V v} ?c"
    then have "sget s1 k = sget s k" using destroyed_same [OF s1(2), of k] by (auto simp: srefs_def)
    then show "k \<in> srefs s {} ?c - {V v}" using k by (auto simp: srefs_def)
  qed
  ultimately have none: "srefs s1 {V v} ?c = {}" by blast
  have "ss_counts s1 ?c = None"
  proof (cases "ss_counts s1 ?c")
    case (Some n)
    then have "n = 0" using sp_okD(2) [OF s1(3) Some] none by simp
    then show ?thesis using Some s1(4) [of ?c] by simp
  qed
  then have "?c \<in> dom (ss_counts s) - dom (ss_counts s1)" using v(2) by auto
  then have "sget s1 (F (sp_ptr x) j) = None" for j using destroyed_gone [OF s1(2), of "F (sp_ptr x) j"] p by auto
  moreover have "splace s (Member v i) = Some (F (sp_ptr x) i)" using v(1,3) by (auto simp: splace_def split: if_splits)
  ultimately show ?thesis using a s1(1) by (simp add: sp_assign_def sp_move_assign_def)
qed

theorem own_member_faults_witness:
  "sp_step next_counter \<lparr>ss_vars = [0 \<mapsto> \<lparr>sp_ptr = 100, sp_refCount = 1\<rparr>], ss_objects = [100 \<mapsto> [null_sptr]], ss_counts = [1 \<mapsto> 1]\<rparr>
     (Assign (Var 0) (Member 0 0)) = None \<and>
   sp_step next_counter \<lparr>ss_vars = [0 \<mapsto> \<lparr>sp_ptr = 100, sp_refCount = 1\<rparr>], ss_objects = [100 \<mapsto> [null_sptr]], ss_counts = [1 \<mapsto> 1]\<rparr>
     (Move_Assign (Var 0) (Member 0 0)) = None"
  by (rule own_member_faults [OF fresh_next_counter sample_run, where x = "\<lparr>sp_ptr = 100, sp_refCount = 1\<rparr>"])
    (simp_all add: splace_def sget_def)

text \<open>Without a cycle of pointers nothing is leaked: when the last variable is gone, no counter is left.\<close>

lemma no_leak:
  assumes inv: "sp_inv g s" and vars: "ss_vars s = Map.empty"
    and acyclic: "\<And>p ms q. ss_objects s p = Some ms \<Longrightarrow> q \<in> sp_ptr ` set ms \<Longrightarrow> q \<noteq> NULL \<Longrightarrow> rank q < (rank p :: nat)"
    and own: "\<And>p. ss_objects s p \<noteq> None \<Longrightarrow> p \<in> owned g s"
  shows "ss_counts s = Map.empty"
proof (rule ccontr)
  assume "ss_counts s \<noteq> Map.empty"
  then have ne: "owned g s \<noteq> {}" by (auto simp: owned_def)
  have ok: "sp_ok g s {}" using inv by (simp add: sp_inv_def)
  have "finite (owned g s)" using sp_okD(7) [OF ok] by (simp add: owned_def)
  then have "Max (rank ` owned g s) \<in> rank ` owned g s" using ne by (intro Max_in) auto
  then obtain p where p: "p \<in> owned g s" "rank p = Max (rank ` owned g s)" by auto
  have max: "rank q \<le> rank p" if "q \<in> owned g s" for q unfolding p(2) using that \<open>finite (owned g s)\<close> by (intro Max_ge) auto
  obtain l x where l: "sget s l = Some x" "sp_ptr x = p" "p \<noteq> NULL" using p(1) owned_iff [OF inv, of p] by blast
  then obtain q i ms where q: "l = F q i" "ss_objects s q = Some ms" "x \<in> set ms"
    using vars by (cases l) (auto simp: sget_F split: option.splits if_splits)
  then have "rank p < rank q" using acyclic [OF q(2), of p] l by auto
  moreover have "q \<in> owned g s" using own q(2) by simp
  ultimately show False using max [of q] by simp
qed

end
