(* ===== verification/Alloc.thy ===== *)
theory Alloc
  imports Stdio_Base
begin

text \<open>
  The allocation functions of \<open>libc/stdlib/alloc.c\<close>. The kernel keeps the blocks and is a parameter: \<open>k_alloc\<close>, \<open>k_free\<close>
  and \<open>k_size\<close> are \<open>SysMemory_AlignedAlloc\<close>, \<open>SysMemory_Free\<close> and \<open>SysMemory_GetAllocSize\<close>. \<open>kernel_ok\<close> says
  what is relied on. \<open>memset\<close> is assembly.
\<close>

section \<open>The code\<close>

record aheap =
  ah_mem :: mem
  ah_blocks :: "addr \<Rightarrow> nat option"

record kernel =
  k_alloc :: "aheap \<Rightarrow> 32 word \<Rightarrow> 32 word \<Rightarrow> int \<times> addr \<times> aheap"
  k_free :: "aheap \<Rightarrow> addr \<Rightarrow> aheap"
  k_size :: "aheap \<Rightarrow> addr \<Rightarrow> int \<times> 64 word"

definition memset :: "mem \<Rightarrow> addr \<Rightarrow> byte \<Rightarrow> nat \<Rightarrow> mem option" where
  "memset m p b n = store_bytes m p (replicate n b)"

definition aligned_alloc :: "kernel \<Rightarrow> aheap \<Rightarrow> 64 word \<Rightarrow> 64 word \<Rightarrow> addr \<times> aheap" where
  "aligned_alloc K h alignment sizeInBytes =
     (if sizeInBytes = 0 then (NULL, h)
      else case k_alloc K h (ucast alignment) (ucast sizeInBytes) of (r, addr, h) \<Rightarrow> if r < 0 then (NULL, h) else (addr, h))"

definition malloc :: "kernel \<Rightarrow> aheap \<Rightarrow> 64 word \<Rightarrow> addr \<times> aheap" where
  "malloc K h sizeInBytes = aligned_alloc K h 0 sizeInBytes"

definition free :: "kernel \<Rightarrow> aheap \<Rightarrow> addr \<Rightarrow> aheap" where
  "free K h address = k_free K h address"

definition get_alloc_size :: "kernel \<Rightarrow> aheap \<Rightarrow> addr \<Rightarrow> int \<times> 64 word" where
  "get_alloc_size K h address = k_size K h address"

definition calloc :: "kernel \<Rightarrow> aheap \<Rightarrow> 64 word \<Rightarrow> 64 word \<Rightarrow> (addr \<times> aheap) option" where
  "calloc K h n s = (case malloc K h (n * s) of (a, h) \<Rightarrow> do {
     m \<leftarrow> memset (ah_mem h) a 0 (unat (n * s));
     Some (a, h\<lparr>ah_mem := m\<rparr>) })"

definition realloc :: "kernel \<Rightarrow> aheap \<Rightarrow> addr \<Rightarrow> 64 word \<Rightarrow> (addr \<times> aheap) option" where
  "realloc K h ptr s =
     (if s = 0 then Some (NULL, free K h ptr)
      else case malloc K h s of (new_ptr, h) \<Rightarrow>
        if ptr = NULL then Some (new_ptr, h)
        else case get_alloc_size K h ptr of (r, old_size) \<Rightarrow>
          if r < 0 then Some (NULL, h)
          else do {
            let copy_size = (if old_size < s then old_size else s);
            m \<leftarrow> memcpy (ah_mem h) new_ptr ptr (unat copy_size);
            Some (new_ptr, free K (h\<lparr>ah_mem := m\<rparr>) ptr) })"

section \<open>The kernel\<close>

text \<open>
  A successful allocation hands out a new block of the size asked for, with bytes that were not mapped before; a failed
  one changes nothing. Freeing a block unmaps it, freeing the null pointer does nothing. The sizes are those of the blocks.
\<close>

definition block :: "addr \<Rightarrow> nat \<Rightarrow> addr set" where
  "block p n = {p..<p + n}"

definition heap_ok :: "aheap \<Rightarrow> bool" where
  "heap_ok h \<longleftrightarrow> ah_mem h NULL = None \<and> ah_blocks h NULL = None \<and> (\<forall>p n. ah_blocks h p = Some n \<longrightarrow> n < 2 ^ 64 \<and> block p n \<subseteq> dom (ah_mem h)) \<and>
     (\<forall>p q n k. ah_blocks h p = Some n \<longrightarrow> ah_blocks h q = Some k \<longrightarrow> p \<noteq> q \<longrightarrow> block p n \<inter> block q k = {})"

definition allocated :: "aheap \<Rightarrow> addr \<Rightarrow> nat \<Rightarrow> aheap \<Rightarrow> bool" where
  "allocated h p n h' \<longleftrightarrow> p \<noteq> NULL \<and> NULL \<notin> block p n \<and> ah_blocks h p = None \<and> block p n \<inter> dom (ah_mem h) = {} \<and>
     ah_blocks h' = (ah_blocks h)(p \<mapsto> n) \<and> dom (ah_mem h') = dom (ah_mem h) \<union> block p n \<and>
     (\<forall>a\<in>dom (ah_mem h). ah_mem h' a = ah_mem h a)"

definition freed :: "aheap \<Rightarrow> addr \<Rightarrow> nat \<Rightarrow> aheap" where
  "freed h p n = \<lparr>ah_mem = (\<lambda>a. if a \<in> block p n then None else ah_mem h a), ah_blocks = (ah_blocks h)(p := None)\<rparr>"

definition kernel_ok :: "kernel \<Rightarrow> bool" where
  "kernel_ok K \<longleftrightarrow>
     (\<forall>h alignment size. heap_ok h \<longrightarrow> (case k_alloc K h alignment size of (r, p, h') \<Rightarrow>
        if r < 0 then h' = h else allocated h p (unat size) h')) \<and>
     (\<forall>h p n. heap_ok h \<longrightarrow> ah_blocks h p = Some n \<longrightarrow> k_free K h p = freed h p n \<and> k_size K h p = (0, of_nat n)) \<and>
     (\<forall>h. k_free K h NULL = h)"

lemma heap_okD:
  assumes "heap_ok h"
  shows "ah_mem h NULL = None" "ah_blocks h NULL = None" "ah_blocks h p = Some n \<Longrightarrow> n < 2 ^ 64"
    "ah_blocks h p = Some n \<Longrightarrow> block p n \<subseteq> dom (ah_mem h)"
    "ah_blocks h p = Some n \<Longrightarrow> ah_blocks h q = Some k \<Longrightarrow> p \<noteq> q \<Longrightarrow> block p n \<inter> block q k = {}"
  using assms unfolding heap_ok_def by blast+

lemma heap_okI:
  assumes "ah_mem h NULL = None" "ah_blocks h NULL = None" "\<And>p n. ah_blocks h p = Some n \<Longrightarrow> n < 2 ^ 64"
    "\<And>p n. ah_blocks h p = Some n \<Longrightarrow> block p n \<subseteq> dom (ah_mem h)"
    "\<And>p q n k. ah_blocks h p = Some n \<Longrightarrow> ah_blocks h q = Some k \<Longrightarrow> p \<noteq> q \<Longrightarrow> block p n \<inter> block q k = {}"
  shows "heap_ok h"
  unfolding heap_ok_def by (intro conjI allI impI assms)

lemma allocated_ok:
  assumes h: "heap_ok h" and a: "allocated h p n h'" and n: "n < 2 ^ 64"
  shows "heap_ok h'"
proof -
  have b: "ah_blocks h' q = Some k \<Longrightarrow> q = p \<and> k = n \<or> q \<noteq> p \<and> ah_blocks h q = Some k" for q k
    using a by (auto simp: allocated_def split: if_splits)
  have "block q k \<inter> block p n = {}" if "ah_blocks h q = Some k" for q k
    using heap_okD(4) [OF h that] a by (auto simp: allocated_def)
  then have "block q k \<inter> block q' k' = {}" if "ah_blocks h' q = Some k" "ah_blocks h' q' = Some k'" "q \<noteq> q'" for q k q' k'
    using b [OF that(1)] b [OF that(2)] that(3) heap_okD(5) [OF h] by (metis inf_commute)
  moreover have "k < 2 ^ 64 \<and> block q k \<subseteq> dom (ah_mem h')" if "ah_blocks h' q = Some k" for q k
    using b [OF that] heap_okD(3,4) [OF h, of q k] n a by (auto simp: allocated_def)
  moreover have "ah_blocks h' NULL = None" using heap_okD(2) [OF h] a by (simp add: allocated_def)
  moreover have "NULL \<notin> dom (ah_mem h')" using heap_okD(1) [OF h] a by (auto simp: allocated_def)
  then have "ah_mem h' NULL = None" by (simp add: domIff)
  ultimately show ?thesis unfolding heap_ok_def by blast
qed

lemma freed_ok:
  assumes h: "heap_ok h" and p: "ah_blocks h p = Some n"
  shows "heap_ok (freed h p n)"
proof -
  have b: "ah_blocks (freed h p n) q = Some k \<Longrightarrow> q \<noteq> p \<and> ah_blocks h q = Some k" for q k
    by (simp add: freed_def split: if_splits)
  have "block q k \<subseteq> dom (ah_mem (freed h p n))" if "ah_blocks (freed h p n) q = Some k" for q k
  proof -
    have "block q k \<inter> block p n = {}" "block q k \<subseteq> dom (ah_mem h)" 
      using b [OF that] heap_okD(4) [OF h, of q k] heap_okD(5) [OF h, of q k p n] p by simp_all
    then show ?thesis by (auto simp: freed_def)
  qed
  moreover have "ah_mem (freed h p n) NULL = None" "ah_blocks (freed h p n) NULL = None"
    using heap_okD(1,2) [OF h] by (simp_all add: freed_def)
  moreover have "k < 2 ^ 64" if "ah_blocks (freed h p n) q = Some k" for q k using b [OF that] heap_okD(3) [OF h] by blast
  moreover have "block q k \<inter> block q' k' = {}" if "ah_blocks (freed h p n) q = Some k" "ah_blocks (freed h p n) q' = Some k'" "q \<noteq> q'" for q k q' k'
    using b [OF that(1)] b [OF that(2)] that(3) heap_okD(5) [OF h] by blast
  ultimately show ?thesis by (intro heap_okI)
qed

lemma heap_ok_write:
  assumes "heap_ok h" "dom m = dom (ah_mem h)"
  shows "heap_ok (h\<lparr>ah_mem := m\<rparr>)"
  using assms unfolding heap_ok_def by (auto simp: domIff)

lemma k_alloc_ok:
  assumes "kernel_ok K" "heap_ok h" "k_alloc K h al n = (r, p, h')"
  shows "if r < 0 then h' = h else allocated h p (unat n) h'"
proof -
  have "case k_alloc K h al n of (r, p, h') \<Rightarrow> if r < 0 then h' = h else allocated h p (unat n) h'"
    using assms(1,2) unfolding kernel_ok_def by simp
  then show ?thesis by (simp add: assms(3))
qed

lemma malloc_ok:
  assumes K: "kernel_ok K" and h: "heap_ok h" and m: "malloc K h s = (p, h')"
  shows "p \<noteq> NULL \<Longrightarrow> allocated h p (unat (ucast s :: 32 word)) h' \<and> heap_ok h'" "p = NULL \<Longrightarrow> h' = h"
proof -
  obtain r a k where k: "k_alloc K h 0 (ucast s) = (r, a, k)" by (cases "k_alloc K h 0 (ucast s)")
  then have ok: "if r < 0 then k = h else allocated h a (unat (ucast s :: 32 word)) k"
    by (rule k_alloc_ok [OF K h])
  have bound: "unat (ucast s :: 32 word) < 2 ^ 64" by (rule order.strict_trans [OF unsigned_less]) simp
  show "p \<noteq> NULL \<Longrightarrow> allocated h p (unat (ucast s :: 32 word)) h' \<and> heap_ok h'"
    using m k ok allocated_ok [OF h _ bound] by (auto simp: malloc_def aligned_alloc_def split: if_splits)
  show "p = NULL \<Longrightarrow> h' = h"
    using m k ok by (auto simp: malloc_def aligned_alloc_def allocated_def split: if_splits)
qed

text \<open>The size is cut to 32 bits on its way to the kernel, so a block of 4 GiB or more comes out too small.\<close>

lemma malloc_truncates:
  assumes "kernel_ok K" "heap_ok h" "malloc K h s = (p, h')" "p \<noteq> NULL"
  shows "ah_blocks h' p = Some (unat s mod 2 ^ 32)"
  using malloc_ok(1) [OF assms] by (simp add: allocated_def unsigned_ucast_eq take_bit_eq_mod)

lemma small_size: "unat s < 2 ^ 32 \<Longrightarrow> unat (ucast s :: 32 word) = unat s" for s :: "64 word"
  by (simp add: unsigned_ucast_eq take_bit_eq_mod)

section \<open>Moving a block\<close>

lemma block_mapped: "block p n \<subseteq> dom m \<longleftrightarrow> mapped m p n"
  by (simp add: block_def mapped_def)

text \<open>C36. \<open>realloc\<close> moves a block: when the size asked for is neither 0 nor 4 GiB or more (such a size is cut to 32 bits
  on the way to the kernel) and the kernel has memory for it, the new block has that size and starts with the bytes
  of the old one, as many as fit; the old block is free, and all other blocks and their bytes are as before.\<close>

theorem realloc_keeps:
  assumes K: "kernel_ok K" and h: "heap_ok h" and ptr: "ah_blocks h ptr = Some (length bs)" "bytes_at (ah_mem h) ptr bs"
    and s: "s \<noteq> 0" "unat s < 2 ^ 32" and m: "malloc K h s = (p, h1)" "p \<noteq> NULL"
  shows "\<exists>h'. realloc K h ptr s = Some (p, h') \<and> heap_ok h' \<and> ah_blocks h' = (ah_blocks h)(p \<mapsto> unat s, ptr := None) \<and>
    bytes_at (ah_mem h') p (take (unat s) bs) \<and>
    (\<forall>q n. ah_blocks h q = Some n \<longrightarrow> q \<noteq> ptr \<longrightarrow> (\<forall>a\<in>block q n. ah_mem h' a = ah_mem h a))"
proof -
  have a: "allocated h p (unat s) h1" and h1: "heap_ok h1" using malloc_ok(1) [OF K h m] small_size [OF s(2)] by simp_all
  have pp: "p \<noteq> ptr" using a ptr(1) by (auto simp: allocated_def)
  then have b1: "ah_blocks h1 ptr = Some (length bs)" "ah_blocks h1 p = Some (unat s)" using a ptr(1) by (simp_all add: allocated_def)
  have len: "unat (of_nat (length bs) :: 64 word) = length bs"
    using heap_okD(3) [OF h ptr(1)] by (simp add: unat_of_nat)
  let ?old = "of_nat (length bs) :: 64 word"
  have n: "unat (if ?old < s then ?old else s) = min (length bs) (unat s)"
    using len by (simp add: word_less_nat_alt min_def)
  let ?bs = "take (unat s) bs"
  have bytes: "bytes_at (ah_mem h1) ptr ?bs"
  proof -
    have "a \<in> dom (ah_mem h)" if "a \<in> block ptr (length bs)" for a using heap_okD(4) [OF h ptr(1)] that by blast
    then have "ah_mem h1 (ptr + i) = ah_mem h (ptr + i)" if "i < length bs" for i using a that by (simp add: allocated_def block_def)
    then have "bytes_at (ah_mem h1) ptr bs" using ptr(2) by (simp add: bytes_at_nth)
    then show ?thesis by (rule bytes_at_take)
  qed
  have mp: "mapped (ah_mem h1) p (length ?bs)"
    using heap_okD(4) [OF h1 b1(2)] unfolding block_mapped by (rule mapped_mono) simp
  define h2 where "h2 = h1\<lparr>ah_mem := write_bytes (ah_mem h1) p ?bs\<rparr>"
  have "dom (write_bytes (ah_mem h1) p ?bs) = dom (ah_mem h1)" using mp by (auto simp: dom_write_bytes mapped_def)
  then have h2: "heap_ok h2" unfolding h2_def by (rule heap_ok_write [OF h1])
  have b2: "ah_blocks h2 = ah_blocks h1" by (simp add: h2_def)
  have free: "free K h2 ptr = freed h2 ptr (length bs)" using K h2 b1(1) unfolding kernel_ok_def free_def b2 [symmetric] by blast
  have "k_size K h1 ptr = (0, ?old)" using K h1 b1(1) unfolding kernel_ok_def by blast
  moreover have "memcpy (ah_mem h1) p ptr (unat (if ?old < s then ?old else s)) = Some (write_bytes (ah_mem h1) p ?bs)"
    using mp by (intro memcpy_block [OF bytes]) (simp_all add: n min.commute)
  moreover have "ptr \<noteq> NULL" using ptr(1) heap_okD(2) [OF h] by (cases ptr) auto
  ultimately have "realloc K h ptr s = Some (p, freed h2 ptr (length bs))"
    using s(1) m(1) by (simp add: realloc_def get_alloc_size_def free flip: h2_def)
  moreover have "heap_ok (freed h2 ptr (length bs))" using b1(1) by (intro freed_ok [OF h2]) (simp add: b2)
  moreover have "ah_blocks (freed h2 ptr (length bs)) = (ah_blocks h)(p \<mapsto> unat s, ptr := None)"
    using a by (simp add: freed_def b2 allocated_def)
  moreover have "bytes_at (ah_mem (freed h2 ptr (length bs))) p ?bs"
  proof -
    have "block p (unat s) \<inter> block ptr (length bs) = {}" using heap_okD(5) [OF h1 b1(2,1) pp] .
    then have "p + i \<notin> block ptr (length bs)" if "i < length ?bs" for i using that by (auto simp: block_def)
    then show ?thesis by (simp add: bytes_at_nth freed_def h2_def write_bytes_def)
  qed
  moreover have "ah_mem (freed h2 ptr (length bs)) x = ah_mem h x" if q: "ah_blocks h q = Some k" "q \<noteq> ptr" "x \<in> block q k" for q k x
  proof -
    have "x \<in> dom (ah_mem h)" "x \<notin> block ptr (length bs)" using heap_okD(4) [OF h q(1)] heap_okD(5) [OF h q(1) ptr(1) q(2)] q(3) by auto
    moreover from this have "x \<notin> block p (unat s)" "ah_mem h1 x = ah_mem h x" using a by (auto simp: allocated_def)
    ultimately show ?thesis by (auto simp: freed_def h2_def write_bytes_def block_def)
  qed
  ultimately show ?thesis by blast
qed

text \<open>A kernel that puts every new block behind all others, and one that has no memory at all.\<close>

definition arena :: kernel where
  "arena = \<lparr>
     k_alloc = (\<lambda>h _ n. let A = insert 0 (dom (ah_mem h) \<union> dom (ah_blocks h)); p = Suc (Max A) in
       if finite A then (0, p, \<lparr>ah_mem = (\<lambda>a. if a \<in> block p (unat n) then Some 0 else ah_mem h a), ah_blocks = (ah_blocks h)(p \<mapsto> unat n)\<rparr>)
       else (- 1, NULL, h)),
     k_free = (\<lambda>h p. case ah_blocks h p of None \<Rightarrow> h | Some n \<Rightarrow> if p = NULL then h else freed h p n),
     k_size = (\<lambda>h p. case ah_blocks h p of None \<Rightarrow> (- 1, 0) | Some n \<Rightarrow> (0, of_nat n))\<rparr>"

definition full_kernel :: kernel where
  "full_kernel = arena\<lparr>k_alloc := \<lambda>h _ _. (- 1, NULL, h)\<rparr>"

lemma arena_free_size:
  assumes "heap_ok h" "ah_blocks h p = Some n"
  shows "k_free arena h p = freed h p n \<and> k_size arena h p = (0, of_nat n)"
  using assms heap_okD(2) [OF assms(1)] by (cases p) (simp_all add: arena_def)

lemma arena_ok: "kernel_ok arena"
proof -
  have "case k_alloc arena h al n of (r, p, h') \<Rightarrow> if r < 0 then h' = h else allocated h p (unat n) h'" for h al and n :: "32 word"
  proof -
    let ?A = "insert 0 (dom (ah_mem h) \<union> dom (ah_blocks h))"
    show ?thesis
    proof (cases "finite ?A")
      case True
      then have A: "x \<le> Max ?A" if "x \<in> ?A" for x using that by (intro Max_ge) auto
      then have "x \<notin> dom (ah_mem h)" if "Max ?A < x" for x using that by (metis UnCI insertCI not_le)
      moreover have "ah_blocks h (Suc (Max ?A)) = None" using A [of "Suc (Max ?A)"] by (cases "ah_blocks h (Suc (Max ?A))") auto
      ultimately have "allocated h (Suc (Max ?A)) (unat n)
          \<lparr>ah_mem = (\<lambda>a. if a \<in> block (Suc (Max ?A)) (unat n) then Some 0 else ah_mem h a), ah_blocks = (ah_blocks h)(Suc (Max ?A) \<mapsto> unat n)\<rparr>"
        unfolding allocated_def by (auto simp: block_def domIff)
      then show ?thesis using True by (simp add: arena_def Let_def)
    next
      case False
      then show ?thesis by (auto simp: arena_def Let_def)
    qed
  qed
  moreover have "k_free arena h NULL = h" for h by (simp add: arena_def split: option.split)
  ultimately show ?thesis unfolding kernel_ok_def using arena_free_size by simp
qed

lemma full_kernel_ok: "kernel_ok full_kernel"
  using arena_ok unfolding kernel_ok_def by (simp add: full_kernel_def)

definition small_heap :: aheap where
  "small_heap = \<lparr>ah_mem = mem_of 16 [1, 2, 3], ah_blocks = [16 \<mapsto> 3]\<rparr>"

lemma small_heap_ok: "heap_ok small_heap"
  by (intro heap_okI) (auto simp: small_heap_def mem_of_def block_def split: if_splits)

lemma small_heap_malloc: "fst (malloc arena small_heap 2) \<noteq> NULL"
proof -
  have "dom (mem_of 16 [1, 2, 3]) \<subseteq> {16..<19}" by (auto simp: mem_of_def split: if_splits)
  then have "finite (dom (mem_of 16 [1, 2, 3]))" by (rule finite_subset) simp
  then show ?thesis by (simp add: malloc_def aligned_alloc_def arena_def small_heap_def Let_def)
qed

theorem realloc_keeps_witness:
  "\<exists>h'. realloc arena small_heap 16 2 = Some (fst (malloc arena small_heap 2), h') \<and> heap_ok h' \<and>
    ah_blocks h' = (ah_blocks small_heap)(fst (malloc arena small_heap 2) \<mapsto> unat (2 :: 64 word), 16 := None) \<and>
    bytes_at (ah_mem h') (fst (malloc arena small_heap 2)) (take (unat (2 :: 64 word)) [1, 2, 3]) \<and>
    (\<forall>q n. ah_blocks small_heap q = Some n \<longrightarrow> q \<noteq> 16 \<longrightarrow> (\<forall>a\<in>block q n. ah_mem h' a = ah_mem small_heap a))"
  by (rule realloc_keeps [OF arena_ok small_heap_ok _ _ _ _ prod.collapse [symmetric] small_heap_malloc])
    (simp_all add: small_heap_def mem_of_def)

text \<open>C37. When the kernel has no memory, \<open>calloc\<close> and \<open>realloc\<close> do not return a null pointer, as \<open>malloc\<close> does: they
  write through it.\<close>

theorem out_of_memory_faults:
  assumes K: "kernel_ok K" and h: "heap_ok h" and none: "\<And>size. fst (k_alloc K h 0 size) < 0"
    and "n * s \<noteq> 0" "t \<noteq> 0" and ptr: "ah_blocks h ptr = Some k" "0 < k"
  shows "malloc K h t = (NULL, h) \<and> calloc K h n s = None \<and> realloc K h ptr t = None"
proof -
  have m: "malloc K h u = (NULL, h)" for u
  proof -
    obtain r a h' where r: "k_alloc K h 0 (ucast u) = (r, a, h')" by (cases "k_alloc K h 0 (ucast u)")
    then have "h' = h" using k_alloc_ok [OF K h r] none [of "ucast u"] by simp
    then show ?thesis using r none [of "ucast u"] by (simp add: malloc_def aligned_alloc_def)
  qed
  have store: "store (ah_mem h) NULL b = None" for b using heap_okD(1) [OF h] by (simp add: store_def)
  obtain i where i: "unat (n * s) = Suc i" using assms(4) by (metis not0_implies_Suc unat_eq_zero)
  then have "calloc K h n s = None" by (simp add: calloc_def m memset_def store)
  moreover have "realloc K h ptr t = None"
  proof -
    have kk: "k < 2 ^ 64" using heap_okD(3) [OF h ptr(1)] .
    let ?c = "if (of_nat k :: 64 word) < t then of_nat k else t"
    have "unat (of_nat k :: 64 word) = k" using kk by (simp add: unat_of_nat)
    then have "(of_nat k :: 64 word) \<noteq> 0" using ptr(2) by (metis less_numeral_extra(3) unsigned_0)
    then have "unat ?c \<noteq> 0" using assms(5) by (simp add: unat_eq_zero)
    then obtain j where j: "unat ?c = Suc j" by (cases "unat ?c") auto
    have "memcpy (ah_mem h) NULL ptr (Suc j) = None"
      by (cases "load_bytes (ah_mem h) ptr (Suc j)") (auto simp: memcpy_def store split: bind_splits)
    moreover have "k_size K h ptr = (0, of_nat k)" using K h ptr(1) unfolding kernel_ok_def by blast
    moreover have "ptr \<noteq> NULL" using ptr(1) heap_okD(2) [OF h] by (cases ptr) auto
    ultimately show ?thesis using assms(5) j by (simp add: realloc_def m get_alloc_size_def)
  qed
  ultimately show ?thesis using m by simp
qed

theorem out_of_memory_faults_witness:
  "malloc full_kernel small_heap 2 = (NULL, small_heap) \<and> calloc full_kernel small_heap 2 3 = None \<and> realloc full_kernel small_heap 16 2 = None"
  by (rule out_of_memory_faults [OF full_kernel_ok small_heap_ok, where k = 3]) (simp_all add: full_kernel_def small_heap_def)

text \<open>\<open>calloc\<close> clears its block, but does not see that the product of its arguments wraps around.\<close>

lemma calloc_clears:
  assumes K: "kernel_ok K" and h: "heap_ok h" and m: "malloc K h (n * s) = (p, h1)" "p \<noteq> NULL" and small: "unat (n * s) < 2 ^ 32"
  shows "\<exists>h'. calloc K h n s = Some (p, h') \<and> bytes_at (ah_mem h') p (replicate (unat (n * s)) 0) \<and> ah_blocks h' p = Some (unat (n * s))"
proof -
  have a: "allocated h p (unat (n * s)) h1" and h1: "heap_ok h1" using malloc_ok(1) [OF K h m] small_size [OF small] by simp_all
  then have "ah_blocks h1 p = Some (unat (n * s))" by (simp add: allocated_def)
  moreover from this have "mapped (ah_mem h1) p (unat (n * s))" using heap_okD(4) [OF h1] by (simp add: block_mapped)
  ultimately show ?thesis by (simp add: calloc_def m(1) memset_def store_bytes_mapped)
qed

lemma calloc_wraps: "malloc K h ((2 ^ 32) * (2 ^ 32)) = (NULL, h)"
  by (simp add: malloc_def aligned_alloc_def)

end
