(* ===== verification/Bitset.thy ===== *)
theory Bitset
  imports Prelude
begin

text \<open>
  The bit set of \<open>libustd/ds/bitset.h\<close>, an array of 64 bit words. Indices are C integers: an index outside the array of words,
  or a shift by a negative amount or beyond the width of the operand is undefined and yields \<open>None\<close>, where the code
  does not test for it. The compiler turns \<open>1 << 31\<close> into the least \<open>int\<close>.
\<close>

section \<open>The code\<close>

type_synonym bitset = "64 word list"

datatype bitset_error = NoFreePorts

definition BIT_ARRAY_SIZE :: "int \<Rightarrow> int" where
  "BIT_ARRAY_SIZE SIZE = c_div (SIZE + 64 - 1) 64"

definition bitset_init :: "int \<Rightarrow> bitset" where
  "bitset_init SIZE = replicate (nat (BIT_ARRAY_SIZE SIZE)) 0"

definition bitset_of :: "int \<Rightarrow> 64 word \<Rightarrow> bitset" where
  "bitset_of SIZE val = (let b = bitset_init SIZE in if 0 < length b then b[0 := val] else b)"

definition bits_get :: "bitset \<Rightarrow> int \<Rightarrow> 64 word option" where
  "bits_get b i = (if 0 \<le> i \<and> i < int (length b) then Some (b ! nat i) else None)"

definition bits_put :: "bitset \<Rightarrow> int \<Rightarrow> 64 word \<Rightarrow> bitset option" where
  "bits_put b i w = (if 0 \<le> i \<and> i < int (length b) then Some (b[nat i := w]) else None)"

definition bitset_set :: "bitset \<Rightarrow> int \<Rightarrow> bool \<Rightarrow> bitset option" where
  "bitset_set b i v = (let array_index = c_div i 64; bit_pos = c_mod i 64 in
     if array_index < int (length b) then
       if bit_pos < 0 then None
       else do {
         let val = push_bit (nat bit_pos) 1;
         w \<leftarrow> bits_get b array_index;
         bits_put b array_index (if v then w OR val else w AND NOT val) }
     else Some b)"

definition bitset_set1 :: "bitset \<Rightarrow> int \<Rightarrow> bitset option" where
  "bitset_set1 b i = bitset_set b i True"

definition bitset_reset_all :: "bitset \<Rightarrow> bitset" where
  "bitset_reset_all b = replicate (length b) 0"

definition bitset_reset :: "bitset \<Rightarrow> int \<Rightarrow> bitset option" where
  "bitset_reset b i = bitset_set b i False"

definition bitset_flip_all :: "bitset \<Rightarrow> bitset" where
  "bitset_flip_all b = map NOT b"

definition bitset_test :: "bitset \<Rightarrow> int \<Rightarrow> bool option" where
  "bitset_test b i = (let array_index = c_div i 64; bit_pos = c_mod i 64 in
     if array_index < int (length b) then
       if bit_pos < 0 then None
       else do { w \<leftarrow> bits_get b array_index; Some (drop_bit (nat bit_pos) w AND 1 \<noteq> 0) }
     else Some False)"

definition bitset_flip :: "bitset \<Rightarrow> int \<Rightarrow> bitset option" where
  "bitset_flip b i = do { t \<leftarrow> bitset_test b i; bitset_set b i (\<not> t) }"

fun bitset_none :: "bitset \<Rightarrow> bool" where
  "bitset_none [] = True"
| "bitset_none (w # b) = (if w \<noteq> 0 then False else bitset_none b)"

definition bitset_any :: "bitset \<Rightarrow> bool" where
  "bitset_any b = (\<not> bitset_none b)"

fun bitset_all :: "bitset \<Rightarrow> bool" where
  "bitset_all [] = True"
| "bitset_all (w # b) = (if w \<noteq> - 1 then False else bitset_all b)"

text \<open>\<open>1 << j\<close>, an \<open>int\<close>, as the 64 bit operand of \<open>|=\<close>.\<close>

definition int_one_shift :: "int \<Rightarrow> 64 word option" where
  "int_one_shift j = (if 0 \<le> j \<and> j < 32 then Some (scast (push_bit (nat j) 1 :: 32 word)) else None)"

function alloc_bit :: "64 word \<Rightarrow> int \<Rightarrow> int \<Rightarrow> int option option" where
  "alloc_bit v j j_end =
     (if j \<le> j_end then
        if j < 0 \<or> 64 \<le> j then None
        else if drop_bit (nat j) v AND 1 = 0 then Some (Some j)
        else alloc_bit v (j + 1) j_end
      else Some None)"
  by pat_completeness auto
termination by (relation "measure (\<lambda>(v, j, e). nat (e + 1 - j))") auto

function alloc_loop :: "bitset \<Rightarrow> int \<Rightarrow> int \<Rightarrow> int \<Rightarrow> int \<Rightarrow> int \<Rightarrow> ((bitset_error + int) \<times> bitset) option" where
  "alloc_loop b i start_array_index start_bit_pos end_array_index end_bit_pos =
     (if i < int (length b) \<and> i \<le> end_array_index then do {
        v \<leftarrow> bits_get b i;
        r \<leftarrow> (if v \<noteq> - 1 then
               alloc_bit v (if i = start_array_index then start_bit_pos else 0) (if i = end_array_index then end_bit_pos else 63)
             else Some None);
        case r of
          Some j \<Rightarrow> do { m \<leftarrow> int_one_shift j; b \<leftarrow> bits_put b i (v OR m); Some (Inr (i * 64 + j), b) }
        | None \<Rightarrow> alloc_loop b (i + 1) start_array_index start_bit_pos end_array_index end_bit_pos }
      else Some (Inl NoFreePorts, b))"
  by pat_completeness auto
termination by (relation "measure (\<lambda>(b, i, s, sb, e, eb). nat (e + 1 - i))") auto

declare alloc_bit.simps [simp del] alloc_loop.simps [simp del]

definition bitset_allocate_range :: "bitset \<Rightarrow> int \<Rightarrow> int \<Rightarrow> ((bitset_error + int) \<times> bitset) option" where
  "bitset_allocate_range b start end = alloc_loop b (c_div start 64) (c_div start 64) (c_mod start 64) (c_div end 64) (c_mod end 64)"

definition bitset_allocate :: "int \<Rightarrow> bitset \<Rightarrow> ((bitset_error + int) \<times> bitset) option" where
  "bitset_allocate SIZE b = bitset_allocate_range b 0 (SIZE - 1)"

section \<open>The set of the bits\<close>

definition bset :: "bitset \<Rightarrow> nat set" where
  "bset b = {k. k < 64 * length b \<and> bit (b ! (k div 64)) (k mod 64)}"

lemma index_split [simp]: "c_div (int k) 64 = int (k div 64)" "c_mod (int k) 64 = int (k mod 64)"
  by (simp_all add: c_div_nonneg c_mod_nonneg zdiv_int zmod_int)

lemma index_div: "k < 64 * n \<longleftrightarrow> k div 64 < n" for k n :: nat
  by (simp add: div_less_iff_less_mult mult.commute)

lemma bits_get_put [simp]:
  "bits_get b (int i) = (if i < length b then Some (b ! i) else None)"
  "bits_put b (int i) w = (if i < length b then Some (b[i := w]) else None)"
  by (simp_all add: bits_get_def bits_put_def)

lemma same_index: "m div 64 = k div 64 \<Longrightarrow> m mod 64 = k mod 64 \<longleftrightarrow> m = k" for m k :: nat
  by (metis div_mult_mod_eq)

lemma bset_update:
  assumes "i < length b"
  shows "bset (b[i := w]) = {k \<in> bset b. k div 64 \<noteq> i} \<union> {k. k div 64 = i \<and> bit w (k mod 64)}"
  using assms by (auto simp: bset_def nth_list_update index_div)

lemma bset_bound: "k \<in> bset b \<Longrightarrow> k < 64 * length b"
  by (simp add: bset_def)

lemma one_bit: "bit (2 ^ n :: 64 word) m \<longleftrightarrow> m = n \<and> n < 64"
  by (auto simp: bit_exp_iff)

lemma set_in:
  assumes "k < 64 * length b"
  shows "\<exists>b'. bitset_set b (int k) v = Some b' \<and> length b' = length b \<and> bset b' = (if v then insert k (bset b) else bset b - {k})"
proof -
  have i: "k div 64 < length b" using assms by (simp add: index_div)
  have b: "m \<in> bset b \<longleftrightarrow> bit (b ! (k div 64)) (m mod 64)" if "m div 64 = k div 64" for m
    using that i by (simp add: bset_def index_div)
  let ?w = "if v then (b ! (k div 64)) OR push_bit (k mod 64) 1 else (b ! (k div 64)) AND NOT (push_bit (k mod 64) 1)"
  have "bitset_set b (int k) v = Some (b[k div 64 := ?w])" using i by (simp add: bitset_set_def)
  moreover have "bset (b[k div 64 := ?w]) = (if v then insert k (bset b) else bset b - {k})"
    unfolding bset_update [OF i]
    by (rule set_eqI) (auto simp: b bit_or_iff bit_and_iff bit_not_iff one_bit same_index)
  ultimately show ?thesis by simp
qed

lemma test_in: "k < 64 * length b \<Longrightarrow> bitset_test b (int k) = Some (k \<in> bset b)"
  by (simp add: bitset_test_def index_div bset_def and_one_eq bit_iff_odd_drop_bit mod_2_eq_odd)

lemma outside:
  assumes "64 * length b \<le> k"
  shows "bitset_set b (int k) v = Some b" "bitset_test b (int k) = Some False"
proof -
  have "\<not> k div 64 < length b" using assms by (simp add: index_div [symmetric])
  then show "bitset_set b (int k) v = Some b" "bitset_test b (int k) = Some False"
    by (simp_all add: bitset_set_def bitset_test_def)
qed

lemma bset_flip: "bset (bitset_flip_all b) = {..<64 * length b} - bset b"
  by (auto simp: bset_def bitset_flip_all_def index_div bit_not_iff)

lemma bset_reset: "bset (bitset_reset_all b) = {}"
  by (auto simp: bset_def bitset_reset_all_def index_div)

lemma none_iff: "bitset_none b \<longleftrightarrow> (\<forall>w\<in>set b. w = 0)"
  by (induction b) auto

lemma all_iff: "bitset_all b \<longleftrightarrow> (\<forall>w\<in>set b. w = - 1)"
  by (induction b) auto

lemma bset_word: "i < length b \<Longrightarrow> n < 64 \<Longrightarrow> 64 * i + n \<in> bset b \<longleftrightarrow> bit (b ! i) n"
  by (simp add: bset_def index_div)

lemma none_empty: "bitset_none b \<longleftrightarrow> bset b = {}"
proof
  assume "bset b = {}"
  then have "\<not> bit (b ! i) n" if "i < length b" "n < 64" for i n using bset_word [OF that] by blast
  then have "b ! i = 0" if "i < length b" for i using that by (intro bit_word_eqI) auto
  then show "bitset_none b" by (auto simp: none_iff in_set_conv_nth)
qed (auto simp: none_iff bset_def index_div all_set_conv_all_nth)

lemma all_full: "bitset_all b \<longleftrightarrow> bset b = {..<64 * length b}"
proof
  assume "bset b = {..<64 * length b}"
  moreover have "64 * i + n < 64 * length b" if "i < length b" "n < 64" for i n using that by (simp add: index_div)
  ultimately have "bit (b ! i) n" if "i < length b" "n < 64" for i n using bset_word [OF that] that by blast
  then have "b ! i = - 1" if "i < length b" for i using that by (intro bit_word_eqI) auto
  then show "bitset_all b" by (auto simp: all_iff in_set_conv_nth)
qed (auto simp: all_iff bset_def index_div all_set_conv_all_nth)

section \<open>Sequences of operations\<close>

datatype bop = B_Set nat | B_Reset nat | B_Flip nat | B_Reset_All | B_Flip_All | B_Test nat | B_None | B_Any | B_All

fun bitset_step :: "bitset \<Rightarrow> bop \<Rightarrow> (bool option \<times> bitset) option" where
  "bitset_step b (B_Set k) = map_option (Pair None) (bitset_set1 b (int k))"
| "bitset_step b (B_Reset k) = map_option (Pair None) (bitset_reset b (int k))"
| "bitset_step b (B_Flip k) = map_option (Pair None) (bitset_flip b (int k))"
| "bitset_step b B_Reset_All = Some (None, bitset_reset_all b)"
| "bitset_step b B_Flip_All = Some (None, bitset_flip_all b)"
| "bitset_step b (B_Test k) = map_option (\<lambda>t. (Some t, b)) (bitset_test b (int k))"
| "bitset_step b B_None = Some (Some (bitset_none b), b)"
| "bitset_step b B_Any = Some (Some (bitset_any b), b)"
| "bitset_step b B_All = Some (Some (bitset_all b), b)"

fun bitset_run :: "bitset \<Rightarrow> bop list \<Rightarrow> (bool option list \<times> bitset) option" where
  "bitset_run b [] = Some ([], b)"
| "bitset_run b (c # cs) = do { (r, b) \<leftarrow> bitset_step b c; (rs, b) \<leftarrow> bitset_run b cs; Some (r # rs, b) }"

text \<open>The same operations on a set of numbers below \<open>n\<close>.\<close>

fun set_step :: "nat \<Rightarrow> nat set \<Rightarrow> bop \<Rightarrow> bool option \<times> nat set" where
  "set_step n A (B_Set k) = (None, if k < n then insert k A else A)"
| "set_step n A (B_Reset k) = (None, A - {k})"
| "set_step n A (B_Flip k) = (None, if k \<in> A then A - {k} else if k < n then insert k A else A)"
| "set_step n A B_Reset_All = (None, {})"
| "set_step n A B_Flip_All = (None, {..<n} - A)"
| "set_step n A (B_Test k) = (Some (k \<in> A), A)"
| "set_step n A B_None = (Some (A = {}), A)"
| "set_step n A B_Any = (Some (A \<noteq> {}), A)"
| "set_step n A B_All = (Some (A = {..<n}), A)"

fun set_run :: "nat \<Rightarrow> nat set \<Rightarrow> bop list \<Rightarrow> bool option list \<times> nat set" where
  "set_run n A [] = ([], A)"
| "set_run n A (c # cs) = (case set_step n A c of (r, A) \<Rightarrow> case set_run n A cs of (rs, A) \<Rightarrow> (r # rs, A))"

lemma bitset_step_refines:
  "\<exists>b'. bitset_step b c = Some (fst (set_step (64 * length b) (bset b) c), b') \<and> length b' = length b \<and>
     bset b' = snd (set_step (64 * length b) (bset b) c)"
proof (cases c)
  case (B_Set k)
  then show ?thesis using set_in [of k b True] outside(1) [of b k True] by (cases "k < 64 * length b") (auto simp: bitset_set1_def)
next
  case (B_Reset k)
  then show ?thesis using set_in [of k b False] outside(1) [of b k False] bset_bound [of k b]
    by (cases "k < 64 * length b") (auto simp: bitset_reset_def)
next
  case (B_Flip k)
  then show ?thesis
    using set_in [of k b "k \<notin> bset b"] test_in [of k b] outside [of b k] bset_bound [of k b]
    by (cases "k < 64 * length b") (auto simp: bitset_flip_def)
next
  case (B_Test k)
  then show ?thesis using test_in [of k b] outside(2) [of b k] bset_bound [of k b] by (cases "k < 64 * length b") auto
qed (simp_all add: bset_reset bset_flip none_empty all_full bitset_any_def, simp_all add: bitset_reset_all_def bitset_flip_all_def)

text \<open>C38. On indices that are not negative a bit set behaves as a set of numbers below the bits of its words: the bits set and
  reset, one or all, and the tests of one bit, of all and of none; what is beyond is ignored and tests false. The size of
  the template is only used to the next multiple of 64.\<close>

theorem bitset_refines_set:
  "\<exists>b'. bitset_run b cs = Some (fst (set_run (64 * length b) (bset b) cs), b') \<and> bset b' = snd (set_run (64 * length b) (bset b) cs)"
proof (induction cs arbitrary: b)
  case (Cons c cs)
  obtain b1 where b1: "bitset_step b c = Some (fst (set_step (64 * length b) (bset b) c), b1)" "length b1 = length b"
    "bset b1 = snd (set_step (64 * length b) (bset b) c)" using bitset_step_refines by blast
  then show ?case using Cons.IH [of b1] by (auto simp: split_beta)
qed simp

section \<open>Allocation\<close>

lemma alloc_bit_none: "j + n = Suc e \<Longrightarrow> e < 64 \<Longrightarrow> (\<And>m. j \<le> m \<Longrightarrow> m \<le> e \<Longrightarrow> bit v m) \<Longrightarrow> alloc_bit v (int j) (int e) = Some None"
proof (induction n arbitrary: j)
  case (Suc n)
  have "bit v j" using Suc.prems by simp
  moreover have "alloc_bit v (1 + int j) (int e) = Some None" using Suc.IH [of "Suc j"] Suc.prems by simp
  ultimately show ?case
    using Suc.prems by (subst alloc_bit.simps) (simp add: and_one_eq bit_iff_odd_drop_bit mod_2_eq_odd add.commute)
qed (simp add: alloc_bit.simps)

lemma alloc_bit_some:
  "j + n = m \<Longrightarrow> m \<le> e \<Longrightarrow> e < 64 \<Longrightarrow> \<not> bit v m \<Longrightarrow> (\<And>i. j \<le> i \<Longrightarrow> i < m \<Longrightarrow> bit v i) \<Longrightarrow> alloc_bit v (int j) (int e) = Some (Some (int m))"
proof (induction n arbitrary: j)
  case 0
  then show ?case by (subst alloc_bit.simps) (simp add: and_one_eq bit_iff_odd_drop_bit mod_2_eq_odd)
next
  case (Suc n)
  have "bit v j" using Suc.prems by simp
  moreover have "alloc_bit v (1 + int j) (int e) = Some (Some (int m))" using Suc.IH [of "Suc j"] Suc.prems by simp
  ultimately show ?case
    using Suc.prems by (subst alloc_bit.simps) (simp add: and_one_eq bit_iff_odd_drop_bit mod_2_eq_odd add.commute)
qed

text \<open>The positions of word \<open>i\<close> that the loop looks at.\<close>

definition from_bit :: "nat \<Rightarrow> nat \<Rightarrow> nat" where
  "from_bit s i = (if i = s div 64 then s mod 64 else 0)"

definition to_bit :: "nat \<Rightarrow> nat \<Rightarrow> nat" where
  "to_bit e i = (if i = e div 64 then e mod 64 else 63)"

lemma alloc_loop_step:
  "i < length b \<Longrightarrow> i \<le> e div 64 \<Longrightarrow>
   alloc_loop b (int i) (int (s div 64)) (int (s mod 64)) (int (e div 64)) (int (e mod 64)) = do {
     r \<leftarrow> (if b ! i \<noteq> - 1 then alloc_bit (b ! i) (int (from_bit s i)) (int (to_bit e i)) else Some None);
     case r of
       Some j \<Rightarrow> do { m \<leftarrow> int_one_shift j; Some (Inr (int i * 64 + j), b[i := (b ! i) OR m]) }
     | None \<Rightarrow> alloc_loop b (int (Suc i)) (int (s div 64)) (int (s mod 64)) (int (e div 64)) (int (e mod 64)) }"
  by (subst alloc_loop.simps)
    (simp add: from_bit_def to_bit_def add.commute zdiv_int [symmetric] zmod_int [symmetric] cong: if_cong option.case_cong)

lemma mod_le_same: "s div 64 = k div 64 \<Longrightarrow> s \<le> k \<Longrightarrow> s mod 64 \<le> k mod 64" for s k :: nat
  by (metis add_le_cancel_left mult_div_mod_eq)

lemma from_bit_le: "s div 64 \<le> i \<Longrightarrow> from_bit s i \<le> m \<Longrightarrow> s \<le> 64 * i + m"
  and to_bit_le: "i \<le> e div 64 \<Longrightarrow> m \<le> to_bit e i \<Longrightarrow> 64 * i + m \<le> e"
  and to_bit_less: "to_bit e i < 64"
proof -
  have s: "64 * (s div 64) + s mod 64 = s" "s mod 64 < 64" and e: "64 * (e div 64) + e mod 64 = e" "e mod 64 < 64" by simp_all
  show "s \<le> 64 * i + m" if "s div 64 \<le> i" "from_bit s i \<le> m"
  proof (cases "i = s div 64")
    case True
    then have "s mod 64 \<le> m" using that by (simp add: from_bit_def)
    then show ?thesis using s True by linarith
  next
    case False
    then have "Suc (s div 64) \<le> i" using that by simp
    then show ?thesis using s by linarith
  qed
  show "64 * i + m \<le> e" if "i \<le> e div 64" "m \<le> to_bit e i"
  proof (cases "i = e div 64")
    case True
    then have "m \<le> e mod 64" using that by (simp add: to_bit_def)
    then show ?thesis using e True by linarith
  next
    case False
    then have "Suc i \<le> e div 64" "m \<le> 63" using that by (simp_all add: to_bit_def)
    then show ?thesis using e by linarith
  qed
  show "to_bit e i < 64" using e by (simp add: to_bit_def)
qed

lemma word_full:
  assumes i: "i < length b" "s div 64 \<le> i" "i \<le> e div 64" and full: "\<And>n. s \<le> n \<Longrightarrow> n \<le> e \<Longrightarrow> n div 64 = i \<Longrightarrow> n \<in> bset b"
    and se: "s \<le> e"
  shows "(if b ! i \<noteq> - 1 then alloc_bit (b ! i) (int (from_bit s i)) (int (to_bit e i)) else Some None) = Some None"
proof -
  have "bit (b ! i) m" if "from_bit s i \<le> m" "m \<le> to_bit e i" for m
  proof -
    have m: "m < 64" using that(2) to_bit_less [of e i] by linarith
    have "64 * i + m \<in> bset b" using from_bit_le [OF i(2) that(1)] to_bit_le [OF i(3) that(2)] m by (intro full) auto
    then show ?thesis using bset_word [OF i(1) m] by simp
  qed
  moreover have "from_bit s i \<le> Suc (to_bit e i)"
  proof (cases "s div 64 = e div 64")
    case True
    then have "s mod 64 \<le> e mod 64" using se by (rule mod_le_same)
    then show ?thesis using True i by (simp add: from_bit_def to_bit_def)
  next
    case False
    then show ?thesis using i mod_less_divisor [of 64 s] by (auto simp: from_bit_def to_bit_def)
  qed
  ultimately have "alloc_bit (b ! i) (int (from_bit s i)) (int (to_bit e i)) = Some None"
    by (intro alloc_bit_none [where n = "Suc (to_bit e i) - from_bit s i"]) (auto simp: to_bit_less)
  then show ?thesis by simp
qed

lemma alloc_loop_full:
  assumes "s \<le> e" "\<And>n. s \<le> n \<Longrightarrow> n \<le> e \<Longrightarrow> n < 64 * length b \<Longrightarrow> n \<in> bset b"
  shows "s div 64 \<le> i \<Longrightarrow> alloc_loop b (int i) (int (s div 64)) (int (s mod 64)) (int (e div 64)) (int (e mod 64)) = Some (Inl NoFreePorts, b)"
proof (induction "Suc (e div 64) - i" arbitrary: i)
  case (Suc n)
  then have i: "i \<le> e div 64" by simp
  show ?case
  proof (cases "i < length b")
    case True
    have "(if b ! i \<noteq> - 1 then alloc_bit (b ! i) (int (from_bit s i)) (int (to_bit e i)) else Some None) = Some None"
      using True by (intro word_full Suc.prems i assms) (auto simp: index_div)
    moreover have "alloc_loop b (int (Suc i)) (int (s div 64)) (int (s mod 64)) (int (e div 64)) (int (e mod 64)) = Some (Inl NoFreePorts, b)"
      by (rule Suc.hyps(1)) (use Suc.hyps(2) Suc.prems i in auto)
    ultimately show ?thesis by (subst alloc_loop_step [OF True i]) simp
  qed (subst alloc_loop.simps, simp)
qed (subst alloc_loop.simps, simp)

lemma alloc_loop_found:
  assumes k: "s \<le> k" "k \<le> e" "k < 64 * length b" "k \<notin> bset b" and below: "\<And>n. s \<le> n \<Longrightarrow> n < k \<Longrightarrow> n \<in> bset b"
  shows "s div 64 \<le> i \<Longrightarrow> i \<le> k div 64 \<Longrightarrow>
    alloc_loop b (int i) (int (s div 64)) (int (s mod 64)) (int (e div 64)) (int (e mod 64)) =
    do { m \<leftarrow> int_one_shift (int (k mod 64)); Some (Inr (int k), b[k div 64 := (b ! (k div 64)) OR m]) }"
proof (induction "k div 64 - i" arbitrary: i)
  case 0
  then have i: "i = k div 64" by simp
  have len: "k div 64 < length b" and e: "k div 64 \<le> e div 64" using k(2,3) by (simp_all add: index_div div_le_mono)
  have kk: "64 * (k div 64) + k mod 64 = k" by simp
  have nb: "\<not> bit (b ! (k div 64)) (k mod 64)" using k(4) bset_word [OF len, of "k mod 64"] by simp
  have "bit (b ! (k div 64)) m" if "from_bit s (k div 64) \<le> m" "m < k mod 64" for m
  proof -
    have m: "m < 64" using that(2) mod_less_divisor [of 64 k] by linarith
    have "s \<le> 64 * (k div 64) + m" by (rule from_bit_le) (use that k in \<open>auto intro: div_le_mono\<close>)
    then have "64 * (k div 64) + m \<in> bset b" using that(2) kk by (intro below) linarith+
    then show ?thesis using bset_word [OF len m] by simp
  qed
  moreover have "from_bit s (k div 64) \<le> k mod 64"
  proof (cases "k div 64 = s div 64")
    case True
    then show ?thesis using mod_le_same [of s k] k(1) by (simp add: from_bit_def)
  qed (simp add: from_bit_def)
  moreover have "k mod 64 \<le> to_bit e (k div 64)"
  proof (cases "k div 64 = e div 64")
    case True
    then show ?thesis using mod_le_same [of k e] k(2) by (simp add: to_bit_def)
  qed (use mod_less_divisor [of 64 k] in \<open>simp add: to_bit_def\<close>)
  ultimately have "alloc_bit (b ! (k div 64)) (int (from_bit s (k div 64))) (int (to_bit e (k div 64))) = Some (Some (int (k mod 64)))"
    by (intro alloc_bit_some [where n = "k mod 64 - from_bit s (k div 64)"] nb to_bit_less) auto
  moreover have "b ! (k div 64) \<noteq> - 1" using nb by auto
  moreover have "int (k div 64) * 64 + int (k mod 64) = int k" using kk by (metis mult.commute of_nat_add of_nat_mult of_nat_numeral)
  ultimately show ?case unfolding i by (subst alloc_loop_step [OF len e]) simp
next
  case (Suc n)
  then have i: "i < k div 64" by simp
  have len: "i < length b" and e: "i \<le> e div 64" using i k(3) div_le_mono [OF k(2), of 64] by (auto simp: index_div)
  have "(if b ! i \<noteq> - 1 then alloc_bit (b ! i) (int (from_bit s i)) (int (to_bit e i)) else Some None) = Some None"
  proof (rule word_full [OF len Suc.prems(1) e])
    show "n \<in> bset b" if "s \<le> n" "n div 64 = i" for n
    proof (rule below [OF that(1)])
      show "n < k" using i that(2) div_le_mono [of k n 64] by linarith
    qed
  qed (use k in linarith)
  moreover have "alloc_loop b (int (Suc i)) (int (s div 64)) (int (s mod 64)) (int (e div 64)) (int (e mod 64)) =
      do { m \<leftarrow> int_one_shift (int (k mod 64)); Some (Inr (int k), b[k div 64 := (b ! (k div 64)) OR m]) }"
    by (rule Suc.hyps(1)) (use Suc.hyps(2) Suc.prems i in auto)
  ultimately show ?case by (subst alloc_loop_step [OF len e]) simp
qed

lemma shift_mask:
  assumes "n < 32"
  obtains m where "int_one_shift (int n) = Some m" "\<And>i. bit m i \<longleftrightarrow> i < 64 \<and> (i = n \<or> n = 31 \<and> 32 \<le> i)"
proof
  show "int_one_shift (int n) = Some (scast (push_bit n 1 :: 32 word))" using assms by (simp add: int_one_shift_def)
  show "bit (scast (push_bit n 1 :: 32 word) :: 64 word) i \<longleftrightarrow> i < 64 \<and> (i = n \<or> n = 31 \<and> 32 \<le> i)" for i
    using assms by (auto simp: bit_word_scast_iff bit_exp_iff)
qed

lemma allocate_range_found:
  assumes k: "s \<le> k" "k \<le> e" "k < 64 * length b" "k \<notin> bset b" "\<And>n. s \<le> n \<Longrightarrow> n < k \<Longrightarrow> n \<in> bset b"
  shows "bitset_allocate_range b (int s) (int e) =
    do { m \<leftarrow> int_one_shift (int (k mod 64)); Some (Inr (int k), b[k div 64 := (b ! (k div 64)) OR m]) }"
  unfolding bitset_allocate_range_def index_split by (rule alloc_loop_found [OF k]) (use k in \<open>auto intro: div_le_mono\<close>)

lemma bset_mask:
  assumes k: "k < 64 * length b" and m: "\<And>i. bit m i \<longleftrightarrow> i < 64 \<and> (i = k mod 64 \<or> k mod 64 = 31 \<and> 32 \<le> i)"
  shows "bset (b[k div 64 := (b ! (k div 64)) OR m]) = bset b \<union> {k} \<union> {n. k mod 64 = 31 \<and> n div 64 = k div 64 \<and> 32 \<le> n mod 64}"
proof -
  have i: "k div 64 < length b" using k by (simp add: index_div)
  have "n \<in> bset b \<longleftrightarrow> bit (b ! (k div 64)) (n mod 64)" if "n div 64 = k div 64" for n
    using that i by (simp add: bset_def index_div)
  then show ?thesis unfolding bset_update [OF i] by (rule_tac set_eqI) (auto simp: bit_or_iff m same_index)
qed

text \<open>C39. Allocation takes the lowest free number of the range, as long as this is one of the first 31 of its word, and marks
  that number alone.\<close>

theorem bitset_allocate_lowest:
  assumes k: "s \<le> k" "k \<le> e" "k < 64 * length b" "k \<notin> bset b" "\<And>n. s \<le> n \<Longrightarrow> n < k \<Longrightarrow> n \<in> bset b" and "k mod 64 < 31"
  shows "\<exists>b'. bitset_allocate_range b (int s) (int e) = Some (Inr (int k), b') \<and> length b' = length b \<and> bset b' = insert k (bset b)"
proof -
  have "k mod 64 < 32" using assms(6) by linarith
  then obtain m where m: "int_one_shift (int (k mod 64)) = Some m" "\<And>i. bit m i \<longleftrightarrow> i < 64 \<and> (i = k mod 64 \<or> k mod 64 = 31 \<and> 32 \<le> i)"
    by (rule shift_mask) blast
  have "bitset_allocate_range b (int s) (int e) = Some (Inr (int k), b[k div 64 := (b ! (k div 64)) OR m])"
    by (rule trans [OF allocate_range_found [OF k]]) (simp_all add: m(1))
  moreover have "bset (b[k div 64 := (b ! (k div 64)) OR m]) = insert k (bset b)" using bset_mask [OF k(3) m(2)] assms(6) by auto
  ultimately show ?thesis by simp
qed

theorem bitset_allocate_lowest_witness:
  "\<exists>b'. bitset_allocate_range [3] (int 0) (int 63) = Some (Inr (int 2), b') \<and> length b' = length [3 :: 64 word] \<and> bset b' = insert 2 (bset [3])"
proof (rule bitset_allocate_lowest)
  show "n \<in> bset [3]" if "n < 2" for n using that less_2_cases [of n] by (auto simp: bset_def)
qed (simp_all add: bset_def)

text \<open>C40. The mask of the bit to mark is computed as an \<open>int\<close>. When the lowest free number of the range is the 32nd of its
  word, allocation marks all the numbers of the word behind it too, so that they are never handed out; when it comes
  later in the word, the shift is undefined.\<close>

theorem bitset_allocate_shift:
  assumes k: "s \<le> k" "k \<le> e" "k < 64 * length b" "k \<notin> bset b" "\<And>n. s \<le> n \<Longrightarrow> n < k \<Longrightarrow> n \<in> bset b" and "31 \<le> k mod 64"
  shows "if k mod 64 = 31 then
      \<exists>b'. bitset_allocate_range b (int s) (int e) = Some (Inr (int k), b') \<and> bset b' = bset b \<union> {k..<k + 33}
    else bitset_allocate_range b (int s) (int e) = None"
proof (cases "k mod 64 = 31")
  case True
  then have "k mod 64 < 32" by simp
  then obtain m where m: "int_one_shift (int (k mod 64)) = Some m" "\<And>i. bit m i \<longleftrightarrow> i < 64 \<and> (i = k mod 64 \<or> k mod 64 = 31 \<and> 32 \<le> i)"
    by (rule shift_mask) blast
  have "bitset_allocate_range b (int s) (int e) = Some (Inr (int k), b[k div 64 := (b ! (k div 64)) OR m])"
    by (rule trans [OF allocate_range_found [OF k]]) (simp_all add: m(1))
  moreover have "{k} \<union> {n. k mod 64 = 31 \<and> n div 64 = k div 64 \<and> 32 \<le> n mod 64} = {k..<k + 33}"
  proof (rule set_eqI)
    fix n :: nat
    have d: "64 * (k div 64) + k mod 64 = k" "64 * (n div 64) + n mod 64 = n" "n mod 64 < 64" by simp_all
    have "n \<in> {k..<k + 33} \<longleftrightarrow> n = k \<or> n div 64 = k div 64 \<and> 32 \<le> n mod 64"
    proof
      assume "n \<in> {k..<k + 33}"
      then have n: "k \<le> n" "n < k + 33" by simp_all
      have "n div 64 < Suc (k div 64)" using d n(2) True by linarith
      moreover have "k div 64 \<le> n div 64" using n(1) by (rule div_le_mono)
      ultimately have "n div 64 = k div 64" by linarith
      then show "n = k \<or> n div 64 = k div 64 \<and> 32 \<le> n mod 64" using d n(1) True by linarith
    next
      assume "n = k \<or> n div 64 = k div 64 \<and> 32 \<le> n mod 64"
      then have "k \<le> n \<and> n < k + 33" using d True by linarith
      then show "n \<in> {k..<k + 33}" by simp
    qed
    then show "n \<in> {k} \<union> {n. k mod 64 = 31 \<and> n div 64 = k div 64 \<and> 32 \<le> n mod 64} \<longleftrightarrow> n \<in> {k..<k + 33}" using True by auto
  qed
  then have "bset (b[k div 64 := (b ! (k div 64)) OR m]) = bset b \<union> {k..<k + 33}" using bset_mask [OF k(3) m(2)] by (simp only: Un_assoc)
  ultimately show ?thesis using True by simp
next
  case False
  then have "32 \<le> k mod 64" using assms(6) by linarith
  then have "int_one_shift (int (k mod 64)) = None" by (simp add: int_one_shift_def)
  then have "bitset_allocate_range b (int s) (int e) = None" by (intro trans [OF allocate_range_found [OF k]]) simp_all
  then show ?thesis using False by simp
qed

theorem bitset_allocate_shift_witness:
  "if (31 :: nat) mod 64 = 31 then
      \<exists>b'. bitset_allocate_range [2147483647] (int 0) (int 63) = Some (Inr (int 31), b') \<and> bset b' = bset [2147483647] \<union> {31..<31 + 33}
    else bitset_allocate_range [2147483647] (int 0) (int 63) = None"
proof (rule bitset_allocate_shift)
  have m: "(2147483647 :: 64 word) = mask 31" by (simp add: mask_eq_exp_minus_1)
  show "n \<in> bset [2147483647]" if "n < 31" for n unfolding m using that by (simp add: bset_def bit_mask_iff)
  show "31 \<notin> bset [2147483647]" unfolding m by (simp add: bset_def bit_mask_iff)
qed simp_all

text \<open>When the range is taken the allocation throws and changes nothing.\<close>

lemma bitset_allocate_full:
  "s \<le> e \<Longrightarrow> (\<And>n. s \<le> n \<Longrightarrow> n \<le> e \<Longrightarrow> n < 64 * length b \<Longrightarrow> n \<in> bset b) \<Longrightarrow> bitset_allocate_range b (int s) (int e) = Some (Inl NoFreePorts, b)"
  unfolding bitset_allocate_range_def index_split by (rule alloc_loop_full) auto

end
