(* ===== verification/BTree_Code.thy ===== *)
theory BTree_Code
  imports Prelude
begin

text \<open>
  The B-tree of \<open>libustd/ds/BTree.cpp\<close> and \<open>BTree.h\<close>. Nodes and elements live in two heaps. An access through a null or a
  deleted pointer, an index outside the array of a node and a loop that does not end yield \<open>None\<close>. \<open>new\<close> is the address
  of the next node; \<open>alloc\<close> is that of the next element, which comes from the memory pool of the tree (\<open>Mem_Pool\<close>), or
  \<open>None\<close> when the pool is exhausted. Keys are values of a linear order and not pointers to them; the callback that
  destroys keys and values does not touch the tree and is left out.
\<close>

section \<open>Nodes and elements\<close>

abbreviation (input) MAX_ELEMENTS_PER_NODE :: nat where "MAX_ELEMENTS_PER_NODE \<equiv> 32"
abbreviation (input) m_iMinElementsPerNode :: nat where "m_iMinElementsPerNode \<equiv> 16"

record ('k, 'v) belement =
  be_key :: 'k
  be_value :: 'v
  be_left :: addr
  be_right :: addr

record bnode =
  bn_count :: nat
  bn_parent :: addr
  bn_list :: "addr list"

record ('k, 'v) bheap =
  bh_nodes :: "addr \<Rightarrow> bnode option"
  bh_elems :: "addr \<Rightarrow> ('k, 'v) belement option"

definition new_bnode :: bnode where
  "new_bnode = \<lparr>bn_count = 0, bn_parent = NULL, bn_list = replicate (MAX_ELEMENTS_PER_NODE + 1) NULL\<rparr>"

definition put_node :: "addr \<Rightarrow> bnode \<Rightarrow> ('k, 'v) bheap \<Rightarrow> ('k, 'v) bheap" where
  "put_node n x h = h\<lparr>bh_nodes := (bh_nodes h)(n \<mapsto> x)\<rparr>"

definition put_elem :: "addr \<Rightarrow> ('k, 'v) belement \<Rightarrow> ('k, 'v) bheap \<Rightarrow> ('k, 'v) bheap" where
  "put_elem e y h = h\<lparr>bh_elems := (bh_elems h)(e \<mapsto> y)\<rparr>"

definition delete_bnode :: "addr \<Rightarrow> ('k, 'v) bheap \<Rightarrow> ('k, 'v) bheap option" where
  "delete_bnode n h = (if bh_nodes h n = None then None else Some (h\<lparr>bh_nodes := (bh_nodes h)(n := None)\<rparr>))"

definition destroy_element :: "addr \<Rightarrow> ('k, 'v) bheap \<Rightarrow> ('k, 'v) bheap option" where
  "destroy_element e h = (if bh_elems h e = None then None else Some (h\<lparr>bh_elems := (bh_elems h)(e := None)\<rparr>))"

definition node_count :: "('k, 'v) bheap \<Rightarrow> addr \<Rightarrow> nat option" where
  "node_count h n = map_option bn_count (bh_nodes h n)"

definition set_node_count :: "addr \<Rightarrow> nat \<Rightarrow> ('k, 'v) bheap \<Rightarrow> ('k, 'v) bheap option" where
  "set_node_count n c h = map_option (\<lambda>x. put_node n (x\<lparr>bn_count := c\<rparr>) h) (bh_nodes h n)"

definition set_parent_node :: "addr \<Rightarrow> addr \<Rightarrow> ('k, 'v) bheap \<Rightarrow> ('k, 'v) bheap option" where
  "set_parent_node n p h = map_option (\<lambda>x. put_node n (x\<lparr>bn_parent := p\<rparr>) h) (bh_nodes h n)"

definition bnode_slot :: "('k, 'v) bheap \<Rightarrow> addr \<Rightarrow> nat \<Rightarrow> addr option" where
  "bnode_slot h n i = do { x \<leftarrow> bh_nodes h n; if i < length (bn_list x) then Some (bn_list x ! i) else None }"

definition set_slot :: "addr \<Rightarrow> nat \<Rightarrow> addr \<Rightarrow> ('k, 'v) bheap \<Rightarrow> ('k, 'v) bheap option" where
  "set_slot n i e h = do {
     x \<leftarrow> bh_nodes h n;
     if i < length (bn_list x) then Some (put_node n (x\<lparr>bn_list := (bn_list x)[i := e]\<rparr>) h) else None }"

definition elem_at :: "('k, 'v) bheap \<Rightarrow> addr \<Rightarrow> nat \<Rightarrow> ('k, 'v) belement option" where
  "elem_at h n i = do { e \<leftarrow> bnode_slot h n i; bh_elems h e }"

definition set_left_node :: "addr \<Rightarrow> addr \<Rightarrow> ('k, 'v) bheap \<Rightarrow> ('k, 'v) bheap option" where
  "set_left_node e n h = map_option (\<lambda>y. put_elem e (y\<lparr>be_left := n\<rparr>) h) (bh_elems h e)"

definition set_right_node :: "addr \<Rightarrow> addr \<Rightarrow> ('k, 'v) bheap \<Rightarrow> ('k, 'v) bheap option" where
  "set_right_node e n h = map_option (\<lambda>y. put_elem e (y\<lparr>be_right := n\<rparr>) h) (bh_elems h e)"

definition swap_element :: "addr \<Rightarrow> addr \<Rightarrow> ('k, 'v) bheap \<Rightarrow> ('k, 'v) bheap option" where
  "swap_element e1 e2 h = do {
     y1 \<leftarrow> bh_elems h e1;
     y2 \<leftarrow> bh_elems h e2;
     let h = put_elem e1 (y1\<lparr>be_key := be_key y2, be_value := be_value y2\<rparr>) h;
     z2 \<leftarrow> bh_elems h e2;
     Some (put_elem e2 (z2\<lparr>be_key := be_key y1, be_value := be_value y1\<rparr>) h) }"

section \<open>Operations of a node\<close>

text \<open>\<open>IsLeaf\<close>, from index \<open>i\<close> on.\<close>

fun is_leaf_from :: "('k, 'v) bheap \<Rightarrow> addr \<Rightarrow> nat \<Rightarrow> nat \<Rightarrow> bool option" where
  "is_leaf_from h n i 0 = Some True"
| "is_leaf_from h n i (Suc k) = do {
     y \<leftarrow> elem_at h n i;
     if k = 0 \<and> be_right y \<noteq> NULL then Some False
     else if be_left y \<noteq> NULL then Some False
     else is_leaf_from h n (i + 1) k }"

definition is_leaf :: "('k, 'v) bheap \<Rightarrow> addr \<Rightarrow> bool option" where
  "is_leaf h n = do { c \<leftarrow> node_count h n; is_leaf_from h n 0 c }"

text \<open>\<open>for (j = m; j > i; j--) list[j] = list[j - 1]\<close>, and \<open>for (; i < m; i++) list[i] = list[i + 1]\<close>.\<close>

fun slots_up :: "addr \<Rightarrow> nat \<Rightarrow> nat \<Rightarrow> ('k, 'v) bheap \<Rightarrow> ('k, 'v) bheap option" where
  "slots_up n i 0 h = Some h"
| "slots_up n i (Suc j) h = (if Suc j > i then do { e \<leftarrow> bnode_slot h n j; h \<leftarrow> set_slot n (Suc j) e h; slots_up n i j h } else Some h)"

fun slots_down :: "addr \<Rightarrow> nat \<Rightarrow> nat \<Rightarrow> ('k, 'v) bheap \<Rightarrow> ('k, 'v) bheap option" where
  "slots_down n i 0 h = Some h"
| "slots_down n i (Suc k) h = do { e \<leftarrow> bnode_slot h n (i + 1); h \<leftarrow> set_slot n i e h; slots_down n (i + 1) k h }"

text \<open>The loop of \<open>Insert\<close> that looks for the first larger key; -2 when there is none.\<close>

fun insert_at :: "('k::linorder) \<Rightarrow> addr \<Rightarrow> addr \<Rightarrow> nat \<Rightarrow> nat \<Rightarrow> nat \<Rightarrow> ('k, 'v) bheap \<Rightarrow> (int \<times> ('k, 'v) bheap) option" where
  "insert_at inKey n e m i 0 h = Some (- 2, h)"
| "insert_at inKey n e m i (Suc k) h = do {
     y \<leftarrow> elem_at h n i;
     if inKey < be_key y then do {
       h \<leftarrow> slots_up n i m h;
       h \<leftarrow> set_slot n i e h;
       h \<leftarrow> (if i > 0 then do { p \<leftarrow> bnode_slot h n (i - 1); z \<leftarrow> bh_elems h e; set_right_node p (be_left z) h } else Some h);
       h \<leftarrow> (if i < m then do { q \<leftarrow> bnode_slot h n (i + 1); z \<leftarrow> bh_elems h e; set_left_node q (be_right z) h } else Some h);
       h \<leftarrow> set_node_count n (m + 1) h;
       Some (int i, h) }
     else insert_at inKey n e m (i + 1) k h }"

definition node_insert :: "addr \<Rightarrow> addr \<Rightarrow> (('k::linorder), 'v) bheap \<Rightarrow> (int \<times> ('k, 'v) bheap) option" where
  "node_insert n e h = do {
     m \<leftarrow> node_count h n;
     if m = MAX_ELEMENTS_PER_NODE + 1 then Some (- 1, h)
     else if m = 0 then do { h \<leftarrow> set_slot n 0 e h; h \<leftarrow> set_node_count n 1 h; Some (0, h) }
     else do {
       y \<leftarrow> elem_at h n (m - 1);
       z \<leftarrow> bh_elems h e;
       if be_key y < be_key z \<or> be_key y = be_key z then do {
         h \<leftarrow> set_slot n m e h;
         p \<leftarrow> bnode_slot h n (m - 1);
         h \<leftarrow> set_right_node p (be_left z) h;
         h \<leftarrow> set_node_count n (m + 1) h;
         Some (int m, h) }
       else insert_at (be_key z) n e m 0 m h }}"

fun remove_from :: "('k::linorder) \<Rightarrow> addr \<Rightarrow> nat \<Rightarrow> nat \<Rightarrow> ('k, 'v) bheap \<Rightarrow> (addr \<times> ('k, 'v) bheap) option" where
  "remove_from rKey n i 0 h = Some (NULL, h)"
| "remove_from rKey n i (Suc k) h = do {
     y \<leftarrow> elem_at h n i;
     if rKey = be_key y then do {
       e \<leftarrow> bnode_slot h n i;
       h \<leftarrow> slots_down n i k h;
       h \<leftarrow> set_node_count n (i + k) h;
       Some (e, h) }
     else remove_from rKey n (i + 1) k h }"

definition node_remove :: "addr \<Rightarrow> ('k::linorder) \<Rightarrow> ('k, 'v) bheap \<Rightarrow> (addr \<times> ('k, 'v) bheap) option" where
  "node_remove n rKey h = do {
     m \<leftarrow> node_count h n;
     if m > 0 then do {
       a \<leftarrow> elem_at h n 0;
       b \<leftarrow> elem_at h n (m - 1);
       if rKey < be_key a \<or> be_key b < rKey then Some (NULL, h) else remove_from rKey n 0 m h }
     else Some (NULL, h) }"

definition remove_by_index :: "addr \<Rightarrow> nat \<Rightarrow> ('k, 'v) bheap \<Rightarrow> (addr \<times> ('k, 'v) bheap) option" where
  "remove_by_index n i h = do {
     m \<leftarrow> node_count h n;
     if i \<ge> m then Some (NULL, h)
     else do {
       e \<leftarrow> bnode_slot h n i;
       h \<leftarrow> slots_down n i (m - 1 - i) h;
       h \<leftarrow> set_node_count n (m - 1) h;
       Some (e, h) }}"

fun insertion_child :: "('k, 'v) bheap \<Rightarrow> addr \<Rightarrow> ('k::linorder) \<Rightarrow> nat \<Rightarrow> nat \<Rightarrow> addr option" where
  "insertion_child h n rKey i 0 = Some NULL"
| "insertion_child h n rKey i (Suc k) = do {
     y \<leftarrow> elem_at h n i;
     if rKey < be_key y then Some (be_left y) else insertion_child h n rKey (i + 1) k }"

definition get_insertion_node :: "('k, 'v) bheap \<Rightarrow> addr \<Rightarrow> ('k::linorder) \<Rightarrow> addr option" where
  "get_insertion_node h n rKey = do {
     l \<leftarrow> is_leaf h n;
     if l then Some n
     else do {
       m \<leftarrow> node_count h n;
       y \<leftarrow> elem_at h n (m - 1);
       if be_key y < rKey \<or> be_key y = rKey then Some (be_right y) else insertion_child h n rKey 0 m }}"

fun has_element_from :: "('k, 'v) bheap \<Rightarrow> addr \<Rightarrow> ('k::linorder) \<Rightarrow> nat \<Rightarrow> nat \<Rightarrow> addr option" where
  "has_element_from h n rKey i 0 = Some NULL"
| "has_element_from h n rKey i (Suc k) = do {
     y \<leftarrow> elem_at h n i;
     if be_key y = rKey then bnode_slot h n i else has_element_from h n rKey (i + 1) k }"

definition has_element :: "('k, 'v) bheap \<Rightarrow> addr \<Rightarrow> ('k::linorder) \<Rightarrow> addr option" where
  "has_element h n rKey = do { m \<leftarrow> node_count h n; has_element_from h n rKey 0 m }"

text \<open>\<open>Search\<close>: the element and the direction, 0 found, 1 left, 2 right.\<close>

function node_search :: "('k, 'v) bheap \<Rightarrow> addr \<Rightarrow> ('k::linorder) \<Rightarrow> nat \<Rightarrow> nat \<Rightarrow> (addr \<times> nat) option" where
  "node_search h n rKey iStart iEnd =
     (if iStart = iEnd then do {
        e \<leftarrow> bnode_slot h n iStart;
        y \<leftarrow> bh_elems h e;
        Some (e, if rKey = be_key y then 0 else if rKey < be_key y then 1 else 2) }
      else if iStart < iEnd then
        (let iMid = iStart + (iEnd - iStart) div 2 in do {
           e \<leftarrow> bnode_slot h n iMid;
           y \<leftarrow> bh_elems h e;
           if rKey = be_key y then Some (e, 0)
           else if be_key y < rKey then node_search h n rKey (if iMid < iEnd then iMid + 1 else iMid) iEnd
           else node_search h n rKey iStart (if iStart < iMid then iMid - 1 else iMid) })
      else Some (NULL, 0))"
  by pat_completeness auto
termination
proof (relation "measure (\<lambda>(h, n, k, s, e). e - s)", goal_cases)
  case (2 h n rKey s e x a y)
  have "(e - s) div 2 < e - s" using 2(2) by simp
  then have "x < e" "s \<le> x" using 2(2,3) by linarith+
  then show ?case by simp
next
  case (3 h n rKey s e x a y)
  have "(e - s) div 2 < e - s" using 3(2) by simp
  then have "x < e" "s \<le> x" using 3(2,3) by linarith+
  then show ?case using 3(2) by (cases "s < x") auto
qed simp

declare node_search.simps [simp del]

fun move_slots :: "addr \<Rightarrow> addr \<Rightarrow> nat \<Rightarrow> nat \<Rightarrow> nat \<Rightarrow> ('k, 'v) bheap \<Rightarrow> ('k, 'v) bheap option" where
  "move_slots src dst j i 0 h = Some h"
| "move_slots src dst j i (Suc k) h = do { e \<leftarrow> bnode_slot h src j; h \<leftarrow> set_slot dst i e h; move_slots src dst (j + 1) (i + 1) k h }"

text \<open>The children of the elements from \<open>i\<close> on get the parent \<open>p\<close>.\<close>

definition set_parent_if :: "addr \<Rightarrow> addr \<Rightarrow> ('k, 'v) bheap \<Rightarrow> ('k, 'v) bheap option" where
  "set_parent_if c p h = (if c \<noteq> NULL then set_parent_node c p h else Some h)"

fun adopt :: "addr \<Rightarrow> addr \<Rightarrow> nat \<Rightarrow> nat \<Rightarrow> ('k, 'v) bheap \<Rightarrow> ('k, 'v) bheap option" where
  "adopt n p i 0 h = Some h"
| "adopt n p i (Suc k) h = do {
     y \<leftarrow> elem_at h n i;
     h \<leftarrow> set_parent_if (be_left y) p h;
     h \<leftarrow> (if k = 0 then do { y \<leftarrow> elem_at h n i; set_parent_if (be_right y) p h } else Some h);
     adopt n p (i + 1) k h }"

definition split_node :: "(('k, 'v) bheap \<Rightarrow> addr) \<Rightarrow> addr \<Rightarrow> addr \<Rightarrow> (('k::linorder), 'v) bheap \<Rightarrow> (addr \<times> addr \<times> ('k, 'v) bheap) option" where
  "split_node new n e h = do {
     (r, h) \<leftarrow> node_insert n e h;
     if r < 0 then Some (NULL, NULL, h)
     else do {
       let newNode = new h;
       h \<leftarrow> (if newNode = NULL then None else Some (put_node newNode new_bnode h));
       m \<leftarrow> node_count h n;
       let iMid = m div 2;
       mid \<leftarrow> bnode_slot h n iMid;
       h \<leftarrow> move_slots n newNode (iMid + 1) 0 (m - (iMid + 1)) h;
       h \<leftarrow> set_node_count newNode (m - iMid - 1) h;
       h \<leftarrow> set_left_node mid n h;
       h \<leftarrow> set_right_node mid newNode h;
       x \<leftarrow> bh_nodes h n;
       h \<leftarrow> set_parent_node newNode (bn_parent x) h;
       h \<leftarrow> adopt newNode newNode 0 (m - iMid - 1) h;
       h \<leftarrow> set_node_count n iMid h;
       Some (mid, newNode, h) }}"

section \<open>Operations of the tree\<close>

record ('k, 'v) btree =
  bt_root :: addr
  bt_total :: int
  bt_max :: int
  bt_leftDeletion :: bool
  bt_heap :: "('k, 'v) bheap"

datatype btree_error = ElementPoolExhausted

type_synonym ('k, 'v) node_alloc = "('k, 'v) bheap \<Rightarrow> addr"

definition new_node :: "('k, 'v) node_alloc \<Rightarrow> ('k, 'v) bheap \<Rightarrow> (addr \<times> ('k, 'v) bheap) option" where
  "new_node new h = (if new h = NULL then None else Some (new h, put_node (new h) new_bnode h))"

definition with_heap :: "('k, 'v) btree \<Rightarrow> ('k, 'v) bheap \<Rightarrow> ('k, 'v) btree" where
  "with_heap T h = T\<lparr>bt_heap := h\<rparr>"

definition bt_create :: "('k, 'v) node_alloc \<Rightarrow> int \<Rightarrow> ('k, 'v) btree option" where
  "bt_create new iMaxElements = do {
     (n, h) \<leftarrow> new_node new \<lparr>bh_nodes = Map.empty, bh_elems = Map.empty\<rparr>;
     Some \<lparr>bt_root = n, bt_total = 0, bt_max = iMaxElements, bt_leftDeletion = True, bt_heap = h\<rparr> }"

definition set_max_elements :: "int \<Rightarrow> ('k, 'v) btree \<Rightarrow> ('k, 'v) btree" where
  "set_max_elements iSize T = (if iSize > 0 then T\<lparr>bt_max := iSize\<rparr> else T)"

fun destroy_elements :: "addr \<Rightarrow> nat \<Rightarrow> nat \<Rightarrow> ('k, 'v) bheap \<Rightarrow> ('k, 'v) bheap option" where
  "destroy_elements n i 0 h = Some h"
| "destroy_elements n i (Suc k) h = do { e \<leftarrow> bnode_slot h n i; h \<leftarrow> destroy_element e h; destroy_elements n (i + 1) k h }"

text \<open>\<open>DestroyTree\<close>, in its loop at element \<open>i\<close>.\<close>

partial_function (option) destroy_tree :: "addr \<Rightarrow> nat \<Rightarrow> ('k, 'v) bheap \<Rightarrow> ('k, 'v) bheap option" where
  "destroy_tree n i h =
     (if n = NULL then Some h
      else do {
        m \<leftarrow> node_count h n;
        if i < m then do { y \<leftarrow> elem_at h n i; h \<leftarrow> destroy_tree (be_left y) 0 h; destroy_tree n (i + 1) h }
        else do {
          h \<leftarrow> (if i > 0 then do { y \<leftarrow> elem_at h n (i - 1); destroy_tree (be_right y) 0 h } else Some h);
          m \<leftarrow> node_count h n;
          h \<leftarrow> destroy_elements n 0 m h;
          delete_bnode n h }})"

definition bt_destroy :: "('k, 'v) btree \<Rightarrow> ('k, 'v) bheap option" where
  "bt_destroy T = destroy_tree (bt_root T) 0 (bt_heap T)"

definition create_element ::
    "(('k, 'v) bheap \<Rightarrow> addr option) \<Rightarrow> 'k \<Rightarrow> 'v \<Rightarrow> ('k, 'v) bheap \<Rightarrow> btree_error + addr \<times> ('k, 'v) bheap" where
  "create_element alloc key val h = (case alloc h of None \<Rightarrow> Inl ElementPoolExhausted
     | Some e \<Rightarrow> Inr (e, put_elem e \<lparr>be_key = key, be_value = val, be_left = NULL, be_right = NULL\<rparr> h))"

partial_function (option) find_element :: "('k, 'v) bheap \<Rightarrow> addr \<Rightarrow> ('k::linorder) \<Rightarrow> (addr \<times> addr) option" where
  "find_element h n rKey =
     (if n = NULL then Some (NULL, NULL)
      else do {
        m \<leftarrow> node_count h n;
        if m = 0 then Some (NULL, NULL)
        else do {
          (e, iDirection) \<leftarrow> node_search h n rKey 0 (m - 1);
          if e = NULL then Some (NULL, NULL)
          else if iDirection = 0 then Some (n, e)
          else do {
            y \<leftarrow> bh_elems h e;
            if iDirection = 1 then find_element h (be_left y) rKey else find_element h (be_right y) rKey }}})"

definition bt_find :: "('k::linorder) \<Rightarrow> ('k, 'v) btree \<Rightarrow> 'v option option" where
  "bt_find rKey T = do {
     (n, e) \<leftarrow> find_element (bt_heap T) (bt_root T) rKey;
     if e \<noteq> NULL then map_option (\<lambda>y. Some (be_value y)) (bh_elems (bt_heap T) e) else Some None }"

definition set_value :: "('k::linorder) \<Rightarrow> 'v \<Rightarrow> ('k, 'v) btree \<Rightarrow> (bool \<times> ('k, 'v) btree) option" where
  "set_value rKey v T = do {
     (n, e) \<leftarrow> find_element (bt_heap T) (bt_root T) rKey;
     if e \<noteq> NULL then do { y \<leftarrow> bh_elems (bt_heap T) e; Some (True, with_heap T (put_elem e (y\<lparr>be_value := v\<rparr>) (bt_heap T))) }
     else Some (False, T) }"

definition validate_tree_size :: "('k, 'v) btree \<Rightarrow> bool" where
  "validate_tree_size T = (if bt_max T < 0 then True else bt_total T < bt_max T)"

partial_function (option) insert_element ::
    "('k, 'v) node_alloc \<Rightarrow> addr \<Rightarrow> addr \<Rightarrow> (('k::linorder), 'v) btree \<Rightarrow> (bool \<times> ('k, 'v) btree) option" where
  "insert_element new n e T =
     (if n = NULL then Some (False, T)
      else do {
        m \<leftarrow> node_count (bt_heap T) n;
        if m < MAX_ELEMENTS_PER_NODE then do {
          (r, h) \<leftarrow> node_insert n e (bt_heap T);
          Some (r \<ge> 0, with_heap T h) }
        else do {
          (mid, newNode, h) \<leftarrow> split_node new n e (bt_heap T);
          x \<leftarrow> bh_nodes h n;
          T \<leftarrow> (if bn_parent x = NULL then do {
                 (r, h) \<leftarrow> new_node new h;
                 h \<leftarrow> set_parent_node n r h;
                 h \<leftarrow> set_parent_node newNode r h;
                 Some ((with_heap T h)\<lparr>bt_root := r\<rparr>) }
               else Some (with_heap T h));
          x \<leftarrow> bh_nodes (bt_heap T) n;
          insert_element new (bn_parent x) mid T }})"

partial_function (option) insertion_leaf :: "('k, 'v) bheap \<Rightarrow> addr \<Rightarrow> ('k::linorder) \<Rightarrow> addr option" where
  "insertion_leaf h n rKey = do {
     l \<leftarrow> is_leaf h n;
     if l then Some n else do { c \<leftarrow> get_insertion_node h n rKey; insertion_leaf h c rKey }}"

definition bt_insert ::
    "('k, 'v) node_alloc \<Rightarrow> (('k, 'v) bheap \<Rightarrow> addr option) \<Rightarrow> 'k \<Rightarrow> 'v \<Rightarrow> (('k::linorder), 'v) btree \<Rightarrow>
     (btree_error + bool \<times> ('k, 'v) btree) option" where
  "bt_insert new alloc key val T =
     (if \<not> validate_tree_size T then Some (Inr (False, T))
      else case create_element alloc key val (bt_heap T) of
        Inl x \<Rightarrow> Some (Inl x)
      | Inr (e, h) \<Rightarrow> do {
          n \<leftarrow> insertion_leaf h (bt_root T) key;
          (r, T) \<leftarrow> insert_element new n e (with_heap T h);
          Some (Inr (if r then (True, T\<lparr>bt_total := bt_total T + 1\<rparr>) else (False, T))) })"

partial_function (option) bt_highest :: "('k, 'v) bheap \<Rightarrow> addr \<Rightarrow> (addr \<times> addr) option" where
  "bt_highest h n =
     (if n = NULL then Some (NULL, NULL)
      else do {
        m \<leftarrow> node_count h n;
        if m = 0 then Some (NULL, NULL)
        else do {
          e \<leftarrow> bnode_slot h n (m - 1);
          y \<leftarrow> bh_elems h e;
          if be_right y \<noteq> NULL then bt_highest h (be_right y)
          else do { l \<leftarrow> is_leaf h n; Some (if l then (n, e) else (NULL, NULL)) }}})"

partial_function (option) bt_lowest :: "('k, 'v) bheap \<Rightarrow> addr \<Rightarrow> (addr \<times> addr) option" where
  "bt_lowest h n =
     (if n = NULL then Some (NULL, NULL)
      else do {
        m \<leftarrow> node_count h n;
        if m = 0 then Some (NULL, NULL)
        else do {
          e \<leftarrow> bnode_slot h n 0;
          y \<leftarrow> bh_elems h e;
          if be_left y \<noteq> NULL then bt_lowest h (be_left y)
          else do { l \<leftarrow> is_leaf h n; Some (if l then (n, e) else (NULL, NULL)) }}})"

text \<open>The index of the element of \<open>p\<close> next to its child \<open>n\<close>, and whether \<open>n\<close> is the left child of it.\<close>

fun parent_index :: "('k, 'v) bheap \<Rightarrow> addr \<Rightarrow> addr \<Rightarrow> nat \<Rightarrow> nat \<Rightarrow> (nat \<times> bool) option" where
  "parent_index h p n i 0 = Some (i, True)"
| "parent_index h p n i (Suc k) = do {
     y \<leftarrow> elem_at h p i;
     if be_left y = n then Some (i, True)
     else if k = 0 \<and> be_right y = n then Some (i, False)
     else parent_index h p n (i + 1) k }"

definition borrow_from_right :: "addr \<Rightarrow> addr \<Rightarrow> addr \<Rightarrow> ('k, 'v) bheap \<Rightarrow> ('k, 'v) bheap option" where
  "borrow_from_right leftNode rightNode parentElement h = do {
     (r, h) \<leftarrow> remove_by_index rightNode 0 h;
     h \<leftarrow> swap_element parentElement r h;
     c \<leftarrow> node_count h leftNode;
     h \<leftarrow> set_slot leftNode c r h;
     y \<leftarrow> bh_elems h r;
     h \<leftarrow> set_right_node r (be_left y) h;
     z \<leftarrow> (if c = 0 then None else elem_at h leftNode (c - 1));
     h \<leftarrow> set_left_node r (be_right z) h;
     h \<leftarrow> set_node_count leftNode (c + 1) h;
     y \<leftarrow> bh_elems h r;
     set_parent_if (be_right y) leftNode h }"

definition borrow_from_left :: "addr \<Rightarrow> addr \<Rightarrow> addr \<Rightarrow> ('k, 'v) bheap \<Rightarrow> ('k, 'v) bheap option" where
  "borrow_from_left leftNode rightNode parentElement h = do {
     c \<leftarrow> node_count h leftNode;
     (l, h) \<leftarrow> remove_by_index leftNode (c - 1) h;
     h \<leftarrow> swap_element parentElement l h;
     c \<leftarrow> node_count h rightNode;
     h \<leftarrow> slots_up rightNode 0 c h;
     h \<leftarrow> set_slot rightNode 0 l h;
     y \<leftarrow> bh_elems h l;
     h \<leftarrow> set_left_node l (be_right y) h;
     z \<leftarrow> elem_at h rightNode 1;
     h \<leftarrow> set_right_node l (be_left z) h;
     h \<leftarrow> set_node_count rightNode (c + 1) h;
     y \<leftarrow> bh_elems h l;
     set_parent_if (be_left y) rightNode h }"

fun append_slots :: "addr \<Rightarrow> addr \<Rightarrow> nat \<Rightarrow> nat \<Rightarrow> nat \<Rightarrow> ('k, 'v) bheap \<Rightarrow> ('k, 'v) bheap option" where
  "append_slots leftNode rightNode i j 0 h = Some h"
| "append_slots leftNode rightNode i j (Suc k) h = do {
     e \<leftarrow> bnode_slot h rightNode j;
     h \<leftarrow> set_slot leftNode i e h;
     y \<leftarrow> bh_elems h e;
     h \<leftarrow> set_parent_if (be_left y) leftNode h;
     h \<leftarrow> (if k = 0 then do { y \<leftarrow> bh_elems h e; set_parent_if (be_right y) leftNode h } else Some h);
     append_slots leftNode rightNode (i + 1) (j + 1) k h }"

definition merge_nodes :: "addr \<Rightarrow> addr \<Rightarrow> addr \<Rightarrow> ('k, 'v) bheap \<Rightarrow> ('k, 'v) bheap option" where
  "merge_nodes leftNode rightNode parentElement h = do {
     c \<leftarrow> node_count h leftNode;
     h \<leftarrow> set_slot leftNode c parentElement h;
     d \<leftarrow> node_count h rightNode;
     h \<leftarrow> append_slots leftNode rightNode (c + 1) 0 d h;
     z \<leftarrow> (if c = 0 then None else elem_at h leftNode (c - 1));
     h \<leftarrow> set_left_node parentElement (be_right z) h;
     z \<leftarrow> elem_at h leftNode (c + 1);
     h \<leftarrow> set_right_node parentElement (be_left z) h;
     d \<leftarrow> node_count h rightNode;
     set_node_count leftNode (c + d + 1) h }"

partial_function (option) bt_rebalance :: "addr \<Rightarrow> ('k, 'v) btree \<Rightarrow> (bool \<times> ('k, 'v) btree) option" where
  "bt_rebalance n T =
     (if n = bt_root T then Some (True, T)
      else do {
        x \<leftarrow> bh_nodes (bt_heap T) n;
        if bn_count x \<ge> m_iMinElementsPerNode then Some (True, T)
        else do {
          let parent = bn_parent x;
          pc \<leftarrow> node_count (bt_heap T) parent;
          (i, bLeftChild) \<leftarrow> parent_index (bt_heap T) parent n 0 pc;
          if i = pc then Some (False, T)
          else do {
            pe \<leftarrow> bnode_slot (bt_heap T) parent i;
            y \<leftarrow> bh_elems (bt_heap T) pe;
            if bLeftChild then do {
              let rightNode = be_right y;
              d \<leftarrow> node_count (bt_heap T) rightNode;
              if d > m_iMinElementsPerNode then do {
                h \<leftarrow> borrow_from_right n rightNode pe (bt_heap T);
                Some (True, with_heap T h) }
              else do {
                h \<leftarrow> merge_nodes n rightNode pe (bt_heap T);
                h \<leftarrow> slots_down parent i (pc - 1 - i) h;
                h \<leftarrow> set_node_count parent (pc - 1) h;
                if pc - 1 = 0 then do {
                  h \<leftarrow> delete_bnode rightNode h;
                  Some (True, (with_heap T h)\<lparr>bt_root := n\<rparr>) }
                else do {
                  h \<leftarrow> (if i \<noteq> pc - 1 then do { e \<leftarrow> bnode_slot h parent i; set_left_node e n h } else Some h);
                  h \<leftarrow> delete_bnode rightNode h;
                  bt_rebalance parent (with_heap T h) }}}
            else do {
              let leftNode = be_left y;
              c \<leftarrow> node_count (bt_heap T) leftNode;
              if c > m_iMinElementsPerNode then do {
                h \<leftarrow> borrow_from_left leftNode n pe (bt_heap T);
                Some (True, with_heap T h) }
              else do {
                h \<leftarrow> merge_nodes leftNode n pe (bt_heap T);
                h \<leftarrow> set_node_count parent (pc - 1) h;
                if pc - 1 = 0 then do {
                  h \<leftarrow> delete_bnode n h;
                  Some (True, (with_heap T h)\<lparr>bt_root := n\<rparr>) }
                else if i \<noteq> pc - 1 then Some (False, with_heap T h)
                else do {
                  h \<leftarrow> delete_bnode n h;
                  bt_rebalance parent (with_heap T h) }}}}}})"

definition delete_from_leaf :: "addr \<Rightarrow> ('k::linorder) \<Rightarrow> ('k, 'v) btree \<Rightarrow> (bool \<times> ('k, 'v) btree) option" where
  "delete_from_leaf n rKey T =
     (if n = NULL then Some (False, T)
      else do {
        l \<leftarrow> is_leaf (bt_heap T) n;
        if \<not> l then Some (False, T)
        else do {
          (e, h) \<leftarrow> node_remove n rKey (bt_heap T);
          if e = NULL then Some (False, with_heap T h)
          else do {
            h \<leftarrow> destroy_element e h;
            bt_rebalance n ((with_heap T h)\<lparr>bt_total := bt_total T - 1\<rparr>) }}})"

definition bt_delete :: "('k::linorder) \<Rightarrow> ('k, 'v) btree \<Rightarrow> (bool \<times> ('k, 'v) btree) option" where
  "bt_delete rKey T = do {
     (n, e) \<leftarrow> find_element (bt_heap T) (bt_root T) rKey;
     if e = NULL then Some (False, T)
     else do {
       l \<leftarrow> is_leaf (bt_heap T) n;
       if l then delete_from_leaf n rKey T
       else do {
         y \<leftarrow> bh_elems (bt_heap T) e;
         ((m, f), T) \<leftarrow> (if bt_leftDeletion T then do { c \<leftarrow> bt_highest (bt_heap T) (be_left y); Some (c, T\<lparr>bt_leftDeletion := False\<rparr>) }
           else do { c \<leftarrow> bt_lowest (bt_heap T) (be_right y); Some (c, T\<lparr>bt_leftDeletion := True\<rparr>) });
         if m = NULL \<or> f = NULL then Some (False, T)
         else do {
           h \<leftarrow> swap_element e f (bt_heap T);
           delete_from_leaf m rKey (with_heap T h) }}}}"

text \<open>\<open>InOrderTraverse\<close>, in its loop at element \<open>i\<close>. The visitor is a state with a test and a step.\<close>

partial_function (option) in_order_traverse ::
    "('k, 'v) bheap \<Rightarrow> ('s \<Rightarrow> bool) \<Rightarrow> ('k \<Rightarrow> 'v \<Rightarrow> 's \<Rightarrow> 's) \<Rightarrow> addr \<Rightarrow> nat \<Rightarrow> 's \<Rightarrow> 's option" where
  "in_order_traverse h Abort visitor n i s =
     (if i = 0 \<and> Abort s then Some s
      else if n = NULL then Some s
      else do {
        m \<leftarrow> node_count h n;
        if i < m then do {
          y \<leftarrow> elem_at h n i;
          s \<leftarrow> in_order_traverse h Abort visitor (be_left y) 0 s;
          if Abort s then Some s
          else do {
            let s = visitor (be_key y) (be_value y) s;
            s \<leftarrow> (if i = m - 1 then in_order_traverse h Abort visitor (be_right y) 0 s else Some s);
            in_order_traverse h Abort visitor n (i + 1) s }}
        else Some s })"

end
