(* ===== verification/BTree_Rep.thy ===== *)
theory BTree_Rep
  imports BTree_Code
begin

text \<open>
  The trees that the two heaps of a B-tree represent. A tree has the addresses of its node and its elements and its
  subtrees; \<open>D\<close> gives the key and the value of an element. A place in a tree is a path of frames from the place up to the root.
\<close>

section \<open>Trees\<close>

datatype gtree = GN (gaddr: addr) "addr list" "gtree list"

text \<open>The lists \<open>ts\<close> and the elements \<open>es\<close> between them; a leaf has no lists.\<close>

fun weave :: "'a list list \<Rightarrow> 'a list \<Rightarrow> 'a list" where
  "weave [] es = es"
| "weave (t # ts) [] = t"
| "weave (t # ts) (e # es) = t @ e # weave ts es"

primrec gin :: "gtree \<Rightarrow> addr list" where
  "gin (GN n es ts) = weave (map gin ts) es"

primrec gnodes :: "gtree \<Rightarrow> addr list" where
  "gnodes (GN n es ts) = n # concat (map gnodes ts)"

lemma gaddr_in_gnodes [simp]: "gaddr t \<in> set (gnodes t)"
  by (cases t) simp

lemma weave_mid: "length ts1 = Suc (length es1) \<Longrightarrow> weave (ts1 @ ts2) (es1 @ m # es2) = weave ts1 es1 @ m # weave ts2 es2"
proof (induction es1 arbitrary: ts1)
  case Nil
  then obtain t where "ts1 = [t]" by (auto simp: length_Suc_conv)
  then show ?case by simp
next
  case (Cons e es1)
  then obtain t ts where "ts1 = t # ts" "length ts = Suc (length es1)" by (auto simp: length_Suc_conv)
  then show ?case using Cons.IH by simp
qed

definition weave_before :: "'a list list \<Rightarrow> 'a list \<Rightarrow> 'a list" where
  "weave_before ts es = concat (map2 (\<lambda>t e. t @ [e]) ts es)"

lemma weave_before: "length ts1 = length es1 \<Longrightarrow> weave (ts1 @ t # ts2) (es1 @ es2) = weave_before ts1 es1 @ weave (t # ts2) es2"
  by (induction ts1 es1 rule: list_induct2) (simp_all add: weave_before_def)

definition weave_after :: "'a list \<Rightarrow> 'a list list \<Rightarrow> 'a list" where
  "weave_after es ts = concat (map2 (\<lambda>e t. e # t) es ts)"

lemma weave_after: "length ts = length es \<Longrightarrow> weave (t # ts) es = t @ weave_after es ts"
  by (induction ts es arbitrary: t rule: list_induct2) (simp_all add: weave_after_def)

lemma weave_around:
  "length ts1 = length es1 \<Longrightarrow> length ts2 = length es2 \<Longrightarrow>
    weave (ts1 @ t # ts2) (es1 @ es2) = weave_before ts1 es1 @ t @ weave_after es2 ts2"
  by (simp add: weave_before weave_after)

lemma set_weave: "ts = [] \<or> length ts = Suc (length es) \<Longrightarrow> set (weave ts es) = \<Union>(set ` set ts) \<union> set es"
proof (induction ts es rule: weave.induct)
  case (3 t ts e es)
  then show ?case by (cases ts) auto
qed auto

section \<open>Frames\<close>

type_synonym frame = "addr \<times> addr list \<times> gtree list \<times> addr list \<times> gtree list"

fun plug :: "frame list \<Rightarrow> gtree \<Rightarrow> gtree" where
  "plug [] t = t"
| "plug ((n, es1, ts1, es2, ts2) # fs) t = plug fs (GN n (es1 @ es2) (ts1 @ t # ts2))"

fun in_before :: "frame list \<Rightarrow> addr list" where
  "in_before [] = []"
| "in_before ((n, es1, ts1, es2, ts2) # fs) = in_before fs @ weave_before (map gin ts1) es1"

fun in_after :: "frame list \<Rightarrow> addr list" where
  "in_after [] = []"
| "in_after ((n, es1, ts1, es2, ts2) # fs) = weave_after es2 (map gin ts2) @ in_after fs"

fun nodes_before :: "frame list \<Rightarrow> addr list" where
  "nodes_before [] = []"
| "nodes_before ((n, es1, ts1, es2, ts2) # fs) = nodes_before fs @ n # concat (map gnodes ts1)"

fun nodes_after :: "frame list \<Rightarrow> addr list" where
  "nodes_after [] = []"
| "nodes_after ((n, es1, ts1, es2, ts2) # fs) = concat (map gnodes ts2) @ nodes_after fs"

fun frames_ok :: "frame list \<Rightarrow> bool" where
  "frames_ok [] = True"
| "frames_ok ((n, es1, ts1, es2, ts2) # fs) = (length ts1 = length es1 \<and> length ts2 = length es2 \<and> frames_ok fs)"

lemma gin_plug: "frames_ok fs \<Longrightarrow> gin (plug fs t) = in_before fs @ gin t @ in_after fs"
  by (induction fs t rule: plug.induct) (simp_all add: weave_around)

lemma gnodes_plug: "gnodes (plug fs t) = nodes_before fs @ gnodes t @ nodes_after fs"
  by (induction fs t rule: plug.induct) simp_all

lemma gaddr_plug: "gaddr (plug fs t) = (if fs = [] then gaddr t else fst (last fs))"
  by (induction fs t rule: plug.induct) auto

section \<open>Representation\<close>

definition node_ok :: "('k, 'v) bheap \<Rightarrow> addr \<Rightarrow> addr \<Rightarrow> addr list \<Rightarrow> bool" where
  "node_ok h p n es \<longleftrightarrow> (\<exists>l. bh_nodes h n = Some \<lparr>bn_count = length es, bn_parent = p, bn_list = es @ l\<rparr> \<and> length (es @ l) = 33)"

definition elem_of :: "(addr \<Rightarrow> 'k \<times> 'v) \<Rightarrow> addr \<Rightarrow> addr \<Rightarrow> addr \<Rightarrow> ('k, 'v) belement" where
  "elem_of D e l r = \<lparr>be_key = fst (D e), be_value = snd (D e), be_left = l, be_right = r\<rparr>"

lemma elem_of_simps [simp]: "be_key (elem_of D e l r) = fst (D e)" "be_value (elem_of D e l r) = snd (D e)"
  "be_left (elem_of D e l r) = l" "be_right (elem_of D e l r) = r"
  "(elem_of D e l r)\<lparr>be_left := l'\<rparr> = elem_of D e l' r" "(elem_of D e l r)\<lparr>be_right := r'\<rparr> = elem_of D e l r'"
  by (simp_all add: elem_of_def)

definition links_ok :: "('k, 'v) bheap \<Rightarrow> (addr \<Rightarrow> 'k \<times> 'v) \<Rightarrow> addr list \<Rightarrow> addr list \<Rightarrow> bool" where
  "links_ok h D es cs \<longleftrightarrow> length cs = Suc (length es) \<and> NULL \<notin> set es \<and>
     (\<forall>i<length es. bh_elems h (es ! i) = Some (elem_of D (es ! i) (cs ! i) (cs ! Suc i)))"

definition kid_addrs :: "addr list \<Rightarrow> gtree list \<Rightarrow> addr list" where
  "kid_addrs es ts = (if ts = [] then replicate (Suc (length es)) NULL else map gaddr ts)"

fun rep :: "('k, 'v) bheap \<Rightarrow> (addr \<Rightarrow> 'k \<times> 'v) \<Rightarrow> addr \<Rightarrow> gtree \<Rightarrow> bool" where
  "rep h D p (GN n es ts) = (n \<noteq> NULL \<and> node_ok h p n es \<and> links_ok h D es (kid_addrs es ts) \<and> (\<forall>t\<in>set ts. rep h D n t))"

text \<open>The tree around a place whose node is \<open>a\<close> and has the parent \<open>q\<close>.\<close>

fun rep_ctx :: "('k, 'v) bheap \<Rightarrow> (addr \<Rightarrow> 'k \<times> 'v) \<Rightarrow> frame list \<Rightarrow> addr \<Rightarrow> addr \<Rightarrow> bool" where
  "rep_ctx h D [] q a = (q = NULL)"
| "rep_ctx h D ((n, es1, ts1, es2, ts2) # fs) q a = (q = n \<and> n \<noteq> NULL \<and> links_ok h D (es1 @ es2) (map gaddr ts1 @ a # map gaddr ts2) \<and>
     (\<forall>t\<in>set ts1 \<union> set ts2. rep h D n t) \<and> (\<exists>p. node_ok h p n (es1 @ es2) \<and> rep_ctx h D fs p n))"

lemma rep_plug: "rep h D NULL (plug fs t) \<longleftrightarrow> (\<exists>q. rep_ctx h D fs q (gaddr t) \<and> rep h D q t)"
  by (induction fs t rule: plug.induct) (auto simp: kid_addrs_def)

lemma rep_kids_length: "rep h D p (GN n es ts) \<Longrightarrow> ts = [] \<or> length ts = Suc (length es)"
  by (auto simp: links_ok_def kid_addrs_def split: if_splits)

lemma set_gin: "rep h D p (GN n es ts) \<Longrightarrow> set (gin (GN n es ts)) = \<Union>(set ` gin ` set ts) \<union> set es"
proof -
  assume "rep h D p (GN n es ts)"
  then have "map gin ts = [] \<or> length (map gin ts) = Suc (length es)" by (auto dest: rep_kids_length simp del: rep.simps)
  then show ?thesis unfolding gin.simps by (subst set_weave) auto
qed

lemma gaddr_not_NULL: "rep h D p t \<Longrightarrow> gaddr t \<noteq> NULL"
  by (cases t) simp

text \<open>The representation only depends on the nodes and the elements of the tree.\<close>

lemma node_ok_cong: "bh_nodes h' n = bh_nodes h n \<Longrightarrow> node_ok h' p n es = node_ok h p n es"
  by (simp add: node_ok_def)

lemma links_ok_cong: "(\<And>e. e \<in> set es \<Longrightarrow> bh_elems h' e = bh_elems h e \<and> D' e = D e) \<Longrightarrow> links_ok h' D' es cs = links_ok h D es cs"
  by (auto simp: links_ok_def elem_of_def)

lemma rep_cong:
  "rep h D p t \<Longrightarrow> (\<And>n. n \<in> set (gnodes t) \<Longrightarrow> bh_nodes h' n = bh_nodes h n) \<Longrightarrow>
   (\<And>e. e \<in> set (gin t) \<Longrightarrow> bh_elems h' e = bh_elems h e \<and> D' e = D e) \<Longrightarrow> rep h' D' p t"
proof (induction t arbitrary: p)
  case (GN n es ts)
  note s = set_gin [OF GN.prems(1)]
  have "rep h' D' n t" if t: "t \<in> set ts" for t
  proof (rule GN.IH [OF t])
    show "rep h D n t" using GN.prems(1) t by simp
    show "bh_nodes h' m = bh_nodes h m" if "m \<in> set (gnodes t)" for m using GN.prems(2) t that by auto
    show "bh_elems h' e = bh_elems h e \<and> D' e = D e" if "e \<in> set (gin t)" for e using GN.prems(3) t that unfolding s by auto
  qed
  moreover have "node_ok h' p n es" using GN.prems(1,2) by (simp add: node_ok_def)
  moreover have "links_ok h' D' es (kid_addrs es ts) = links_ok h D es (kid_addrs es ts)"
    by (rule links_ok_cong, rule GN.prems(3)) (simp only: s UnI2)
  ultimately show ?case using GN.prems(1) by simp
qed

lemma gnodes_not_NULL: "rep h D p t \<Longrightarrow> NULL \<notin> set (gnodes t)"
  by (induction t arbitrary: p) auto

lemma gin_not_NULL: "rep h D p t \<Longrightarrow> NULL \<notin> set (gin t)"
proof (induction t arbitrary: p)
  case (GN n es ts)
  then show ?case unfolding set_gin [OF GN.prems] by (auto simp: links_ok_def)
qed

end
