(* ===== verification/BTree_Find.thy ===== *)
theory BTree_Find
  imports BTree_Rep
begin

text \<open>
  Searching a B-tree: the binary search in a node, the descent, and the traversal in order. Sizes and depths of nodes are as
  in the definition of a B-tree; the keys are sorted.
\<close>

section \<open>Well-formed trees\<close>

fun kids_ok :: "nat \<Rightarrow> addr list \<Rightarrow> gtree list \<Rightarrow> (nat \<Rightarrow> gtree \<Rightarrow> bool) \<Rightarrow> bool" where
  "kids_ok 0 es ts P = (ts = [])"
| "kids_ok (Suc d) es ts P = (length ts = Suc (length es) \<and> (\<forall>t\<in>set ts. P d t))"

fun tree_ok :: "nat \<Rightarrow> gtree \<Rightarrow> bool" where
  "tree_ok 0 (GN n es ts) = (16 \<le> length es \<and> length es \<le> 32 \<and> ts = [])"
| "tree_ok (Suc d) (GN n es ts) = (16 \<le> length es \<and> length es \<le> 32 \<and> length ts = Suc (length es) \<and> (\<forall>t\<in>set ts. tree_ok d t))"

text \<open>A subtree of depth \<open>d\<close> whose root node may have another number of elements.\<close>

definition top_ok :: "nat \<Rightarrow> gtree \<Rightarrow> bool" where
  "top_ok d t = (case t of GN n es ts \<Rightarrow> (case d of 0 \<Rightarrow> ts = [] | Suc d \<Rightarrow> length ts = Suc (length es) \<and> (\<forall>t\<in>set ts. tree_ok d t)))"

definition root_ok :: "nat \<Rightarrow> gtree \<Rightarrow> bool" where
  "root_ok d t = (case t of GN n es ts \<Rightarrow> length es \<le> 32 \<and> (0 < d \<longrightarrow> es \<noteq> []) \<and> top_ok d t)"

lemma tree_ok_iff: "tree_ok d (GN n es ts) \<longleftrightarrow> 16 \<le> length es \<and> length es \<le> 32 \<and> top_ok d (GN n es ts)"
  by (cases d) (auto simp: top_ok_def)

lemma tree_root_ok: "tree_ok d t \<Longrightarrow> root_ok d t"
  by (cases t) (auto simp: root_ok_def tree_ok_iff)

lemma top_ok_kids: "top_ok d (GN n es ts) \<Longrightarrow> ts = [] \<or> length ts = Suc (length es)"
  by (auto simp: top_ok_def split: nat.splits)

lemma top_ok_Suc: "top_ok d (GN n es ts) \<Longrightarrow> t \<in> set ts \<Longrightarrow> \<exists>d'. d = Suc d' \<and> tree_ok d' t"
  by (auto simp: top_ok_def split: nat.splits)

section \<open>One node\<close>

lemma node_ok_count [simp]: "node_ok h p n es \<Longrightarrow> node_count h n = Some (length es)"
  by (auto simp: node_ok_def node_count_def)

lemma node_ok_slot [simp]: "node_ok h p n es \<Longrightarrow> i < length es \<Longrightarrow> bnode_slot h n i = Some (es ! i)"
  by (auto simp: node_ok_def bnode_slot_def nth_append)

lemma links_ok_elem [simp]: "links_ok h D es cs \<Longrightarrow> i < length es \<Longrightarrow> bh_elems h (es ! i) = Some (elem_of D (es ! i) (cs ! i) (cs ! Suc i))"
  by (simp add: links_ok_def)

lemma node_ok_elem_at [simp]:
  "node_ok h p n es \<Longrightarrow> links_ok h D es cs \<Longrightarrow> i < length es \<Longrightarrow> elem_at h n i = Some (elem_of D (es ! i) (cs ! i) (cs ! Suc i))"
  by (simp add: elem_at_def)

lemma node_ok_parent: "node_ok h p n es \<Longrightarrow> \<exists>x. bh_nodes h n = Some x \<and> bn_parent x = p \<and> bn_count x = length es"
  by (auto simp: node_ok_def)

lemma is_leaf_from_leaf:
  "node_ok h p n es \<Longrightarrow> links_ok h D es (replicate (Suc (length es)) NULL) \<Longrightarrow> i + k = length es \<Longrightarrow> is_leaf_from h n i k = Some True"
  by (induction k arbitrary: i) (auto simp del: replicate_Suc)

lemma is_leaf_ok:
  assumes "rep h D p (GN n es ts)" "es = [] \<Longrightarrow> ts = []"
  shows "is_leaf h n = Some (ts = [])"
proof (cases "ts = []")
  case True
  then have "node_ok h p n es" "links_ok h D es (replicate (Suc (length es)) NULL)" using assms(1) by (simp_all add: kid_addrs_def)
  then show ?thesis using True is_leaf_from_leaf [of h p n es D 0 "length es"] by (simp add: is_leaf_def)
next
  case False
  then have es: "es \<noteq> []" using assms(2) by blast
  then obtain k where k: "length es = Suc k" by (cases es) auto
  have n: "node_ok h p n es" "links_ok h D es (map gaddr ts)" using assms(1) False by (simp_all add: kid_addrs_def)
  then have "elem_at h n 0 = Some (elem_of D (es ! 0) (map gaddr ts ! 0) (map gaddr ts ! 1))" using es by simp
  moreover have "map gaddr ts ! 0 \<noteq> NULL"
    using assms(1) False gaddr_not_NULL [of h D n "ts ! 0"] by (cases ts) auto
  ultimately show ?thesis using n(1) False k by (simp add: is_leaf_def)
qed

abbreviation key_of :: "(addr \<Rightarrow> 'k \<times> 'v) \<Rightarrow> addr \<Rightarrow> 'k" where
  "key_of D e \<equiv> fst (D e)"

text \<open>\<open>Search\<close> finds the key, or the child to go on with: the one before the element for direction 1, behind it for 2.\<close>

lemma node_search_ok:
  fixes rKey :: "'k::linorder"
  assumes n: "node_ok h p n es" "links_ok h D es cs" and sorted: "sorted_wrt (<) (map (key_of D) es)"
  shows "s \<le> t \<Longrightarrow> t < length es \<Longrightarrow> (\<And>i. i < s \<Longrightarrow> key_of D (es ! i) < rKey) \<Longrightarrow> (\<And>i. t < i \<Longrightarrow> i < length es \<Longrightarrow> rKey < key_of D (es ! i)) \<Longrightarrow>
    \<exists>j dir. node_search h n rKey s t = Some (es ! j, dir) \<and> j < length es \<and>
      (dir = 0 \<and> key_of D (es ! j) = rKey \<or>
       (\<exists>c. (dir = 1 \<and> c = j \<or> dir = 2 \<and> c = Suc j) \<and>
         (\<forall>i<c. key_of D (es ! i) < rKey) \<and> (\<forall>i. c \<le> i \<longrightarrow> i < length es \<longrightarrow> rKey < key_of D (es ! i))))"
proof (induction "t - s" arbitrary: s t rule: less_induct)
  case less
  have mono: "key_of D (es ! i) < key_of D (es ! j)" if "i < j" "j < length es" for i j
    using sorted that by (auto simp: sorted_wrt_iff_nth_less)
  show ?case
  proof (cases "s = t")
    case True
    let ?e = "es ! s"
    have r: "node_search h n rKey s t = Some (?e, if rKey = key_of D ?e then 0 else if rKey < key_of D ?e then 1 else 2)"
      using True less.prems(2) n by (subst node_search.simps) simp
    consider "rKey = key_of D ?e" | "rKey < key_of D ?e" | "key_of D ?e < rKey" by (rule linorder_cases)
    then show ?thesis
    proof cases
      case 1
      then show ?thesis using r True less.prems(2) by (rule_tac exI [of _ s], rule_tac exI [of _ 0]) simp
    next
      case 2
      have "rKey < key_of D (es ! i)" if "s \<le> i" "i < length es" for i
        using that 2 less.prems(4) [of i] True by (cases "i = s") auto
      then show ?thesis using 2 r True less.prems(2,3) by (rule_tac exI [of _ s], rule_tac exI [of _ 1]) auto
    next
      case 3
      have "key_of D (es ! i) < rKey" if "i < Suc s" for i using that 3 less.prems(3) [of i] by (cases "i = s") auto
      moreover have "node_search h n rKey s t = Some (?e, 2)" using r 3 by auto
      ultimately show ?thesis using True less.prems(2,4) by (rule_tac exI [of _ s], rule_tac exI [of _ 2]) auto
    qed
  next
    case False
    define m where "m = s + (t - s) div 2"
    have "(t - s) div 2 < t - s" using False less.prems(1) by simp
    then have m: "s \<le> m" "m < t" using less.prems(1) unfolding m_def by linarith+
    let ?e = "es ! m"
    have r: "node_search h n rKey s t =
        (if rKey = key_of D ?e then Some (?e, 0)
         else if key_of D ?e < rKey then node_search h n rKey (m + 1) t
         else node_search h n rKey s (if s < m then m - 1 else m))"
      using False less.prems(1,2) m n by (subst node_search.simps) (simp add: m_def Let_def)
    consider "rKey = key_of D ?e" | "rKey < key_of D ?e" | "key_of D ?e < rKey" by (rule linorder_cases)
    then show ?thesis
    proof cases
      case 1
      then show ?thesis using r m less.prems(2) by (rule_tac exI [of _ m], rule_tac exI [of _ 0]) simp
    next
      case 3
      have "key_of D (es ! i) < rKey" if "i < m + 1" for i
        using that 3 mono [of i m] m less.prems(2) by (cases "i = m") auto
      then have "\<exists>j dir. node_search h n rKey (m + 1) t = Some (es ! j, dir) \<and> j < length es \<and>
          (dir = 0 \<and> key_of D (es ! j) = rKey \<or>
           (\<exists>c. (dir = 1 \<and> c = j \<or> dir = 2 \<and> c = Suc j) \<and>
             (\<forall>i<c. key_of D (es ! i) < rKey) \<and> (\<forall>i. c \<le> i \<longrightarrow> i < length es \<longrightarrow> rKey < key_of D (es ! i))))"
        using m less.prems(2,4) by (intro less.hyps) auto
      then show ?thesis using 3 r by (simp add: less_imp_neq [THEN not_sym])
    next
      case 2
      let ?t = "if s < m then m - 1 else m"
      have "rKey < key_of D (es ! i)" if "?t < i" "i < length es" for i
      proof -
        have "m \<le> i" using that(1) by (auto split: if_splits)
        then show ?thesis using that(2) 2 mono [of m i] by (cases "i = m") auto
      qed
      then have "\<exists>j dir. node_search h n rKey s ?t = Some (es ! j, dir) \<and> j < length es \<and>
          (dir = 0 \<and> key_of D (es ! j) = rKey \<or>
           (\<exists>c. (dir = 1 \<and> c = j \<or> dir = 2 \<and> c = Suc j) \<and>
             (\<forall>i<c. key_of D (es ! i) < rKey) \<and> (\<forall>i. c \<le> i \<longrightarrow> i < length es \<longrightarrow> rKey < key_of D (es ! i))))"
        using m less.prems(2,3) by (intro less.hyps) auto
      then show ?thesis using 2 r by (simp add: less_imp_neq)
    qed
  qed
qed

section \<open>The order\<close>

definition ordered :: "(addr \<Rightarrow> ('k::linorder) \<times> 'v) \<Rightarrow> addr list \<Rightarrow> bool" where
  "ordered D es \<longleftrightarrow> sorted_wrt (\<lambda>e f. key_of D e < key_of D f) es"

lemma ordered_map: "ordered D es \<longleftrightarrow> sorted_wrt (<) (map (key_of D) es)"
  by (simp add: ordered_def sorted_wrt_map)

lemma ordered_append: "ordered D (xs @ ys) \<longleftrightarrow> ordered D xs \<and> ordered D ys \<and> (\<forall>x\<in>set xs. \<forall>y\<in>set ys. key_of D x < key_of D y)"
  by (simp add: ordered_def sorted_wrt_append)

lemma ordered_Cons: "ordered D (x # ys) \<longleftrightarrow> ordered D ys \<and> (\<forall>y\<in>set ys. key_of D x < key_of D y)"
  by (auto simp: ordered_def)

lemma ordered_Nil [simp]: "ordered D []"
  by (simp add: ordered_def)

lemma ordered_weave:
  "ts = [] \<or> length ts = Suc (length es) \<Longrightarrow> ordered D (weave ts es) \<Longrightarrow> ordered D es \<and> (\<forall>t\<in>set ts. ordered D t)"
proof (induction ts es rule: weave.induct)
  case (3 t ts e es)
  then show ?case by (cases ts) (auto simp: ordered_append ordered_Cons set_weave)
qed auto

lemma ordered_distinct: "ordered D es \<Longrightarrow> distinct es"
  by (induction es) (auto simp: ordered_Cons)

lemma weave_before_last: "length ts = length es \<Longrightarrow> es \<noteq> [] \<Longrightarrow> \<exists>xs. weave_before ts es = xs @ [last es]"
  by (induction ts es rule: list_induct2) (force simp: weave_before_def)+

lemma weave_after_hd: "length ts = length es \<Longrightarrow> es \<noteq> [] \<Longrightarrow> \<exists>xs. weave_after es ts = hd es # xs"
  by (cases es; cases ts) (simp_all add: weave_after_def)

text \<open>A key that lies between two neighbouring elements of a node can only be in the subtree between them.\<close>

lemma between:
  assumes o: "ordered D (weave (ts1 @ t # ts2) (es1 @ es2))" and l: "length ts1 = length es1" "length ts2 = length es2"
    and k: "\<And>e. e \<in> set es1 \<Longrightarrow> key_of D e < k" "\<And>e. e \<in> set es2 \<Longrightarrow> k < key_of D e"
  shows "\<And>e. e \<in> set (weave_before ts1 es1) \<Longrightarrow> key_of D e < k" "\<And>e. e \<in> set (weave_after es2 ts2) \<Longrightarrow> k < key_of D e"
proof -
  have o: "ordered D (weave_before ts1 es1)" "ordered D (weave_after es2 ts2)"
    using o unfolding weave_around [OF l] by (simp_all add: ordered_append)
  show "key_of D e < k" if "e \<in> set (weave_before ts1 es1)" for e
  proof (cases "es1 = []")
    case True
    then show ?thesis using that l by (simp add: weave_before_def)
  next
    case False
    then obtain xs where xs: "weave_before ts1 es1 = xs @ [last es1]" using weave_before_last l(1) by blast
    have "key_of D e \<le> key_of D (last es1)" using that o(1) unfolding xs by (auto simp: ordered_append)
    then show ?thesis using k(1) [of "last es1"] False by (auto intro: le_less_trans)
  qed
  show "k < key_of D e" if "e \<in> set (weave_after es2 ts2)" for e
  proof (cases "es2 = []")
    case True
    then show ?thesis using that l by (simp add: weave_after_def)
  next
    case False
    then obtain xs where xs: "weave_after es2 ts2 = hd es2 # xs" using weave_after_hd l(2) by blast
    have "key_of D (hd es2) \<le> key_of D e" using that o(2) unfolding xs by (auto simp: ordered_Cons)
    then show ?thesis using k(2) [of "hd es2"] False by (auto intro: less_le_trans)
  qed
qed

lemma between_mem:
  assumes "ordered D (weave (ts1 @ t # ts2) (es1 @ es2))" "length ts1 = length es1" "length ts2 = length es2"
    and "\<And>e. e \<in> set es1 \<Longrightarrow> key_of D e < k" "\<And>e. e \<in> set es2 \<Longrightarrow> k < key_of D e"
  shows "k \<in> key_of D ` set (weave (ts1 @ t # ts2) (es1 @ es2)) \<longleftrightarrow> k \<in> key_of D ` set t"
  unfolding weave_around [OF assms(2,3)] using between [OF assms] by fastforce

section \<open>Finding a key\<close>

lemma find_element_NULL [simp]: "find_element h NULL k = Some (NULL, NULL)"
  by (simp add: find_element.simps)

lemma find_element_empty: "node_ok h p n [] \<Longrightarrow> find_element h n k = Some (NULL, NULL)"
  by (subst find_element.simps) simp

lemma find_element_node:
  assumes n: "n \<noteq> NULL" "node_ok h p n es" "links_ok h D es cs" and o: "ordered D es" "es \<noteq> []"
  obtains e where "e \<in> set es" "key_of D e = k" "find_element h n k = Some (n, e)"
  | es1 es2 where "es = es1 @ es2" "\<And>e. e \<in> set es1 \<Longrightarrow> key_of D e < k" "\<And>e. e \<in> set es2 \<Longrightarrow> k < key_of D e"
      "find_element h n k = find_element h (cs ! length es1) k"
proof -
  obtain m where m: "length es = Suc m" using o(2) by (cases es) auto
  obtain j dir where s: "node_search h n k 0 m = Some (es ! j, dir)" "j < length es"
    and dir: "dir = 0 \<and> key_of D (es ! j) = k \<or>
       (\<exists>c. (dir = 1 \<and> c = j \<or> dir = 2 \<and> c = Suc j) \<and>
         (\<forall>i<c. key_of D (es ! i) < k) \<and> (\<forall>i. c \<le> i \<longrightarrow> i < length es \<longrightarrow> k < key_of D (es ! i)))"
    using node_search_ok [OF n(2,3) o(1) [unfolded ordered_map], of 0 m k] m by auto
  have nn: "es ! j \<noteq> NULL" using n(3) s(2) by (metis links_ok_def nth_mem)
  have y: "bh_elems h (es ! j) = Some (elem_of D (es ! j) (cs ! j) (cs ! Suc j))" using n(3) s(2) by simp
  have f: "find_element h n k = (if dir = 0 then Some (n, es ! j) else if dir = 1 then find_element h (cs ! j) k else find_element h (cs ! Suc j) k)"
    using n(1,2) s(1) m nn y by (subst find_element.simps) simp
  from dir show thesis
  proof (elim disjE exE conjE)
    assume "dir = 0" "key_of D (es ! j) = k"
    then show thesis using that(1) [of "es ! j"] f s(2) by simp
  next
    fix c assume c: "dir = 1" "c = j" "\<forall>i<c. key_of D (es ! i) < k" "\<forall>i. c \<le> i \<longrightarrow> i < length es \<longrightarrow> k < key_of D (es ! i)"
    show thesis
    proof (rule that(2) [of "take j es" "drop j es"])
      show "key_of D e < k" if "e \<in> set (take j es)" for e using that c s(2) by (auto simp: in_set_conv_nth)
      show "k < key_of D e" if "e \<in> set (drop j es)" for e using that c s(2) by (auto simp: in_set_conv_nth)
    qed (use f c s(2) in auto)
  next
    fix c assume c: "dir = 2" "c = Suc j" "\<forall>i<c. key_of D (es ! i) < k" "\<forall>i. c \<le> i \<longrightarrow> i < length es \<longrightarrow> k < key_of D (es ! i)"
    show thesis
    proof (rule that(2) [of "take (Suc j) es" "drop (Suc j) es"])
      show "key_of D e < k" if "e \<in> set (take (Suc j) es)" for e using that c s(2) by (auto simp: in_set_conv_nth less_Suc_eq_le)
      show "k < key_of D e" if "e \<in> set (drop (Suc j) es)" for e using that c s(2) by (auto simp: in_set_conv_nth)
    qed (use f c s(2) in auto)
  qed
qed

text \<open>The way down from a node: the kids around the place where a key would be.\<close>

lemma split_kids:
  assumes "length ts = Suc (length (es1 @ es2))"
  obtains ts1 t ts2 where "ts = ts1 @ t # ts2" "length ts1 = length es1" "length ts2 = length es2" "map gaddr ts ! length es1 = gaddr t"
proof
  show "ts = take (length es1) ts @ ts ! length es1 # drop (Suc (length es1)) ts" using assms by (simp add: id_take_nth_drop)
qed (use assms in auto)

lemma find_element_ok:
  assumes "rep h D p t" "ordered D (gin t)" "root_ok d t"
  shows "\<exists>n e. find_element h (gaddr t) k = Some (n, e) \<and>
    (if k \<in> key_of D ` set (gin t) then e \<in> set (gin t) \<and> key_of D e = k else e = NULL)"
  using assms
proof (induction t arbitrary: p d)
  case (GN n es ts)
  have l: "ts = [] \<or> length ts = Suc (length es)" using GN.prems(1) by (rule rep_kids_length)
  have o: "ordered D es" "\<And>t. t \<in> set ts \<Longrightarrow> ordered D (gin t)" using ordered_weave [of "map gin ts" es D] l GN.prems(2) by auto
  have n: "n \<noteq> NULL" "node_ok h p n es" "links_ok h D es (kid_addrs es ts)" using GN.prems(1) by auto
  note set = set_gin [OF GN.prems(1)]
  show ?case
  proof (cases "es = []")
    case True
    then have "ts = []" using GN.prems(3) by (auto simp: root_ok_def top_ok_def split: nat.splits)
    then show ?thesis using True find_element_empty [of h p n] n by simp
  next
    case False
    show ?thesis
    proof (rule find_element_node [OF n o(1) False, where k = k])
      fix e assume e: "e \<in> set es" "key_of D e = k" "find_element h n k = Some (n, e)"
      then have "e \<in> set (gin (GN n es ts))" unfolding set by blast
      then show ?thesis using e by auto
    next
      fix es1 es2 assume es: "es = es1 @ es2" "\<And>e. e \<in> set es1 \<Longrightarrow> key_of D e < k" "\<And>e. e \<in> set es2 \<Longrightarrow> k < key_of D e"
        and f: "find_element h n k = find_element h (kid_addrs es ts ! length es1) k"
      show ?thesis
      proof (cases "ts = []")
        case True
        have "kid_addrs es ts ! length es1 = NULL" using True es(1) by (simp add: kid_addrs_def del: replicate_Suc)
        moreover have "k \<notin> key_of D ` set (gin (GN n es ts))" using True es by auto
        ultimately show ?thesis using f by auto
      next
        case False
        then have "length ts = Suc (length (es1 @ es2))" using l es(1) by simp
        then obtain ts1 t ts2 where ts: "ts = ts1 @ t # ts2" "length ts1 = length es1" "length ts2 = length es2"
          "map gaddr ts ! length es1 = gaddr t" by (rule split_kids)
        obtain d' where "tree_ok d' t" using top_ok_Suc [of d n es ts t] GN.prems(3) ts(1) by (auto simp: root_ok_def)
        then have "\<exists>m e. find_element h (gaddr t) k = Some (m, e) \<and>
            (if k \<in> key_of D ` set (gin t) then e \<in> set (gin t) \<and> key_of D e = k else e = NULL)"
          using GN.IH [of t n d'] GN.prems(1) o(2) ts(1) tree_root_ok by auto
        moreover have "k \<in> key_of D ` set (gin (GN n es ts)) \<longleftrightarrow> k \<in> key_of D ` set (gin t)"
          using between_mem [of D "map gin ts1" "gin t" "map gin ts2" es1 es2 k] GN.prems(2) ts es by simp
        moreover have "set (gin t) \<subseteq> set (gin (GN n es ts))" unfolding set using ts(1) by auto
        moreover have "kid_addrs es ts ! length es1 = gaddr t" using ts(4) False by (simp add: kid_addrs_def)
        ultimately show ?thesis using f by (simp del: gin.simps) (metis subsetD)
      qed
    qed
  qed
qed

section \<open>Traversal\<close>

fun visits :: "('s \<Rightarrow> bool) \<Rightarrow> ('k \<Rightarrow> 'v \<Rightarrow> 's \<Rightarrow> 's) \<Rightarrow> ('k \<times> 'v) list \<Rightarrow> 's \<Rightarrow> 's" where
  "visits A v [] s = s"
| "visits A v (x # xs) s = (if A s then s else visits A v xs (v (fst x) (snd x) s))"

lemma visits_aborted: "A s \<Longrightarrow> visits A v xs s = s"
  by (cases xs) simp_all

lemma visits_append: "visits A v (xs @ ys) s = visits A v ys (visits A v xs s)"
  by (induction xs arbitrary: s) (auto simp: visits_aborted)

lemma traverse_NULL [simp]: "in_order_traverse h A v NULL i s = Some s"
  by (simp add: in_order_traverse.simps)

lemma traverse_loop:
  fixes h :: "('k, 'v) bheap" and v :: "'k \<Rightarrow> 'v \<Rightarrow> 's \<Rightarrow> 's"
  assumes r: "rep h D p (GN n es ts)"
    and kids: "\<And>t s. t \<in> set ts \<Longrightarrow> in_order_traverse h A v (gaddr t) 0 s = Some (visits A v (map D (gin t)) s)"
  shows "i + k = length es \<Longrightarrow> 0 < k \<Longrightarrow>
    in_order_traverse h A v n i s = Some (visits A v (map D (weave (drop i (map gin ts)) (drop i es))) s)"
proof (induction k arbitrary: i s)
  case (Suc k)
  have n: "n \<noteq> NULL" "node_ok h p n es" "links_ok h D es (kid_addrs es ts)" using r by simp_all
  have l: "ts = [] \<or> length ts = Suc (length es)" using r by (rule rep_kids_length)
  have i: "i < length es" using Suc.prems by simp
  let ?y = "elem_of D (es ! i) (kid_addrs es ts ! i) (kid_addrs es ts ! Suc i)"
  let ?sub = "\<lambda>j. if ts = [] then [] else gin (ts ! j)"
  have child: "in_order_traverse h A v (kid_addrs es ts ! j) 0 s = Some (visits A v (map D (?sub j)) s)" if "j \<le> length es" for j s
    using kids [of "ts ! j"] that l by (auto simp: kid_addrs_def simp del: replicate_Suc)
  have dr: "drop i es = es ! i # drop (Suc i) es" using i by (simp add: Cons_nth_drop_Suc)
  have dt: "ts \<noteq> [] \<Longrightarrow> drop i (map gin ts) = gin (ts ! i) # drop (Suc i) (map gin ts)" using i l by (auto simp: Cons_nth_drop_Suc [symmetric])
  have w: "weave (drop i (map gin ts)) (drop i es) = ?sub i @ es ! i # weave (drop (Suc i) (map gin ts)) (drop (Suc i) es)"
    using dr dt by (cases "ts = []") simp_all
  have e: "bh_elems h (es ! i) = Some ?y" "bnode_slot h n i = Some (es ! i)" using n i by simp_all
  define s1 where "s1 = visits A v (map D (?sub i)) s"
  show ?case
  proof (cases "A s1")
    case True
    have "in_order_traverse h A v n i s = Some s1"
      using True n i e child [of i] visits_aborted [of A s v] by (subst in_order_traverse.simps) (auto simp: elem_at_def s1_def)
    then show ?thesis unfolding w by (simp add: visits_append flip: s1_def) (simp add: True visits_aborted)
  next
    case False
    then have s: "\<not> A s" using visits_aborted [of A s v] by (auto simp: s1_def)
    define s2 where "s2 = v (fst (D (es ! i))) (snd (D (es ! i))) s1"
    have step: "in_order_traverse h A v n i s = do {
        s \<leftarrow> (if i = length es - 1 then in_order_traverse h A v (kid_addrs es ts ! Suc i) 0 s2 else Some s2);
        in_order_traverse h A v n (i + 1) s }"
      using False s n i e child [of i] by (subst in_order_traverse.simps) (simp add: elem_at_def s2_def flip: s1_def)
    have goal: "visits A v (map D (weave (drop i (map gin ts)) (drop i es))) s =
        visits A v (map D (weave (drop (Suc i) (map gin ts)) (drop (Suc i) es))) s2"
      unfolding w using False by (simp add: visits_append s2_def flip: s1_def)
    show ?thesis
    proof (cases "k = 0")
      case True
      then have m: "length es = Suc i" using Suc.prems by simp
      have "weave (drop (Suc i) (map gin ts)) (drop (Suc i) es) = ?sub (Suc i)"
      proof (cases "ts = []")
        case False
        then have "length (map gin ts) = Suc (Suc i)" using l m by simp
        then have "drop (Suc i) (map gin ts) = [map gin ts ! Suc i]" using Cons_nth_drop_Suc [of "Suc i" "map gin ts"] by simp
        then show ?thesis using False m l by simp
      qed (use m in simp)
      moreover have "in_order_traverse h A v n (Suc i) s = Some s" for s
        using n m by (subst in_order_traverse.simps) simp
      ultimately show ?thesis unfolding goal using step child [of "Suc i"] m by simp
    next
      case False
      then have "in_order_traverse h A v n (Suc i) s2 = Some (visits A v (map D (weave (drop (Suc i) (map gin ts)) (drop (Suc i) es))) s2)"
        using Suc.prems by (intro Suc.IH) auto
      moreover have "i \<noteq> length es - 1" using False Suc.prems by simp
      ultimately show ?thesis unfolding goal using step by simp
    qed
  qed
qed simp

lemma traverse_ok:
  assumes "rep h D p t" "root_ok d t"
  shows "in_order_traverse h A v (gaddr t) 0 s = Some (visits A v (map D (gin t)) s)"
  using assms
proof (induction t arbitrary: p d s)
  case (GN n es ts)
  show ?case
  proof (cases "es = []")
    case True
    then have "ts = []" using GN.prems(2) by (auto simp: root_ok_def top_ok_def split: nat.splits)
    moreover have "node_ok h p n []" using True GN.prems(1) by simp
    ultimately show ?thesis using True unfolding gtree.sel by (subst in_order_traverse.simps) simp
  next
    case False
    have "in_order_traverse h A v (gaddr t) 0 s = Some (visits A v (map D (gin t)) s)" if t: "t \<in> set ts" for t s
    proof -
      obtain d' where "tree_ok d' t" using top_ok_Suc [of d n es ts t] GN.prems(2) t by (auto simp: root_ok_def)
      then show ?thesis using GN.IH [OF t, of n d'] GN.prems(1) t tree_root_ok by auto
    qed
    then show ?thesis using traverse_loop [OF GN.prems(1), of A v 0 "length es" s] False by simp
  qed
qed

end
