(* ===== verification/BTree_Insert.thy ===== *)
theory BTree_Insert
  imports BTree_Find
begin

text \<open>
  Insertion into a B-tree: the insertion of an element into a node, the split of a full node, and the way up to the root.
\<close>

section \<open>Links\<close>

declare links_ok_elem [simp del] node_ok_elem_at [simp del]

lemma links_Nil: "links_ok h D [] cs \<longleftrightarrow> (\<exists>c. cs = [c])"
proof -
  have "length cs = Suc 0 \<longleftrightarrow> (\<exists>c. cs = [c])" by (cases cs) auto
  then show ?thesis by (simp add: links_ok_def)
qed

lemma links_Cons: "links_ok h D (e # es) (c # c' # cs) \<longleftrightarrow>
    e \<noteq> NULL \<and> bh_elems h e = Some (elem_of D e c c') \<and> links_ok h D es (c' # cs)"
proof -
  have "(\<forall>i<length (e # es). P i) \<longleftrightarrow> P 0 \<and> (\<forall>i<length es. P (Suc i))" for P
    unfolding list.size add_Suc_right add_0_right by (rule All_less_Suc2)
  then show ?thesis unfolding links_ok_def by simp blast
qed

lemma links_append:
  "length cs1 = length es1 \<Longrightarrow> links_ok h D (es1 @ es2) (cs1 @ a # cs2) \<longleftrightarrow> links_ok h D es1 (cs1 @ [a]) \<and> links_ok h D es2 (a # cs2)"
proof (induction cs1 es1 rule: list_induct2)
  case Nil
  then show ?case by (auto simp: links_Nil)
next
  case (Cons c cs1 e es1)
  then show ?case
  proof (cases cs1)
    case Nil
    then have "es1 = []" using Cons.hyps by simp
    then show ?thesis using Nil by (simp add: links_Cons links_Nil)
  next
    case (Cons c' cs)
    then show ?thesis using Cons.IH by (simp add: links_Cons)
  qed
qed

lemma links_ok_mem: "links_ok h D es cs \<Longrightarrow> e \<in> set es \<Longrightarrow> bh_elems h e \<noteq> None"
  by (auto simp: in_set_conv_nth links_ok_elem)

lemma put_node_simps [simp]:
  "bh_nodes (put_node n x h) = (bh_nodes h)(n \<mapsto> x)" "bh_elems (put_node n x h) = bh_elems h"
  "put_node n x (put_node n y h) = put_node n x h"
  by (simp_all add: put_node_def)

lemma put_elem_simps [simp]:
  "bh_elems (put_elem e y h) = (bh_elems h)(e \<mapsto> y)" "bh_nodes (put_elem e y h) = bh_nodes h"
  by (simp_all add: put_elem_def)

lemma put_elem_put_elem [simp]: "put_elem e y (put_elem e z h) = put_elem e y h"
  by (simp add: put_elem_def)

lemma put_node_put_elem: "put_node n x (put_elem e y h) = put_elem e y (put_node n x h)"
  by (simp add: put_elem_def put_node_def)

lemma put_elem_same: "bh_elems h e = Some y \<Longrightarrow> put_elem e y h = h"
  by (simp add: put_elem_def fun_upd_idem)

lemma slot_node [simp]: "bh_nodes h n = Some x \<Longrightarrow> bnode_slot h n i = (if i < length (bn_list x) then Some (bn_list x ! i) else None)"
  by (simp add: bnode_slot_def)

lemma set_slot_node [simp]:
  "bh_nodes h n = Some x \<Longrightarrow> set_slot n i e h = (if i < length (bn_list x) then Some (put_node n (x\<lparr>bn_list := (bn_list x)[i := e]\<rparr>) h) else None)"
  by (simp add: set_slot_def)

section \<open>Insertion into a node\<close>

lemma slots_up_insert:
  "bh_nodes h n = Some \<lparr>bn_count = c, bn_parent = p, bn_list = xs @ ys @ z # zs\<rparr> \<Longrightarrow>
    do { h \<leftarrow> slots_up n (length xs) (length xs + length ys) h; set_slot n (length xs) e h } =
      Some (put_node n \<lparr>bn_count = c, bn_parent = p, bn_list = xs @ e # ys @ zs\<rparr> h)"
proof (induction ys arbitrary: z zs h rule: rev_induct)
  case Nil
  then show ?case by (cases xs rule: rev_cases) (simp_all add: list_update_append)
next
  case (snoc y ys)
  let ?h = "put_node n \<lparr>bn_count = c, bn_parent = p, bn_list = xs @ ys @ y # y # zs\<rparr> h"
  have "slots_up n (length xs) (length xs + length (ys @ [y])) h = slots_up n (length xs) (length xs + length ys) ?h"
    using snoc.prems by (simp add: nth_append list_update_append)
  then show ?case using snoc.IH [of ?h y "y # zs"] by simp
qed

lemma insert_at_skip:
  "node_ok h p n es \<Longrightarrow> links_ok h D es cs \<Longrightarrow> (\<And>j. i \<le> j \<Longrightarrow> j < i + m \<Longrightarrow> \<not> inKey < key_of D (es ! j)) \<Longrightarrow> i + m \<le> length es \<Longrightarrow>
    insert_at inKey n e c i (m + k) h = insert_at inKey n e c (i + m) k h"
proof (induction m arbitrary: i)
  case (Suc m)
  have "insert_at inKey n e c (i + 1) (m + k) h = insert_at inKey n e c (i + 1 + m) k h"
    using Suc.prems by (intro Suc.IH) auto
  then show ?case using Suc.prems(3) [of i] Suc.prems(4) node_ok_elem_at [OF Suc.prems(1,2), of i] by simp
qed simp

lemma node_insert_ok:
  fixes h :: "(('k::linorder), 'v) bheap"
  assumes n: "node_ok h p n (es1 @ es2)" "links_ok h D (es1 @ es2) (cs1 @ a # cs2)" and l: "length cs1 = length es1" "length cs2 = length es2"
    and small: "length (es1 @ es2) \<le> 32" and e: "bh_elems h e = Some (elem_of D e a b)" "e \<noteq> NULL" "e \<notin> set (es1 @ es2)" "distinct (es1 @ es2)"
    and key: "\<And>f. f \<in> set es1 \<Longrightarrow> key_of D f < key_of D e" "\<And>f. f \<in> set es2 \<Longrightarrow> key_of D e < key_of D f"
  shows "\<exists>h'. node_insert n e h = Some (int (length es1), h') \<and> node_ok h' p n (es1 @ e # es2) \<and>
    links_ok h' D (es1 @ e # es2) (cs1 @ a # b # cs2) \<and> (\<forall>m. m \<noteq> n \<longrightarrow> bh_nodes h' m = bh_nodes h m) \<and>
    (\<forall>f. f \<notin> set es2 \<longrightarrow> bh_elems h' f = bh_elems h f) \<and> dom (bh_nodes h') = dom (bh_nodes h) \<and> dom (bh_elems h') = dom (bh_elems h)"
proof -
  obtain z zs where x: "bh_nodes h n = Some \<lparr>bn_count = length (es1 @ es2), bn_parent = p, bn_list = es1 @ es2 @ z # zs\<rparr>"
    "length (es1 @ es2 @ z # zs) = 33"
  proof -
    obtain l where "bh_nodes h n = Some \<lparr>bn_count = length (es1 @ es2), bn_parent = p, bn_list = es1 @ es2 @ l\<rparr>" "length (es1 @ es2 @ l) = 33"
      using n(1) by (auto simp: node_ok_def)
    then show thesis using that small by (cases l) auto
  qed
  have links: "links_ok h D es1 (cs1 @ [a])" "links_ok h D es2 (a # cs2)" using n(2) links_append [OF l(1), of h D es2 a cs2] by simp_all
  have right: "set_right_node (last es1) a h' = Some h'" if "es1 \<noteq> []" "bh_elems h' (last es1) = bh_elems h (last es1)" for h'
  proof -
    note es1 = that(1)
    obtain f fs where f: "es1 = fs @ [f]" using es1 by (cases es1 rule: rev_cases) auto
    obtain c cs where c: "cs1 = cs @ [c]" "length cs = length fs" using l(1) f by (cases cs1 rule: rev_cases) auto
    have "links_ok h D [f] [c, a]" using links(1) links_append [of cs fs h D "[f]" c "[a]"] f c by simp
    then have "bh_elems h' (last es1) = Some (elem_of D f c a)" using that f by (simp add: links_Cons)
    then show ?thesis using f by (simp add: set_right_node_def put_elem_same)
  qed
  let ?node = "\<lparr>bn_count = Suc (length (es1 @ es2)), bn_parent = p, bn_list = es1 @ e # es2 @ zs\<rparr>"
  have nok: "node_ok h' p n (es1 @ e # es2)" if "bh_nodes h' n = Some ?node" for h' :: "('k, 'v) bheap"
    using that x(2) by (auto simp: node_ok_def)
  show ?thesis
  proof (cases es2)
    case Nil
    let ?h = "put_node n ?node h"
    have "node_insert n e h = Some (int (length es1), ?h)"
    proof (cases "es1 = []")
      case True
      then show ?thesis using x Nil by (simp add: node_insert_def node_count_def set_node_count_def)
    next
      case False
      have "elem_at h n (length es1 - 1) = Some (elem_of D (es1 ! (length es1 - 1)) ((cs1 @ [a]) ! (length es1 - 1)) ((cs1 @ [a]) ! Suc (length es1 - 1)))"
        using n(1) links(1) False Nil by (intro node_ok_elem_at) auto
      moreover have "key_of D (es1 ! (length es1 - 1)) < key_of D e" using key(1) [of "es1 ! (length es1 - 1)"] False by simp
      moreover have "(es1 @ e # zs) ! (length es1 - 1) = last es1" using False by (simp add: nth_append last_conv_nth)
      moreover note right [of "put_node n \<lparr>bn_count = length es1, bn_parent = p, bn_list = es1 @ e # zs\<rparr> h"]
      moreover have "length es1 \<le> 32" "length es1 + length zs = 32" using small x(2) Nil by simp_all
      ultimately show ?thesis
        using x Nil False e(1) by (simp add: node_insert_def node_count_def set_node_count_def list_update_append)
    qed
    moreover have "links_ok ?h D (es1 @ e # es2) (cs1 @ a # b # cs2)"
    proof -
      have "cs2 = []" using l(2) Nil by simp
      moreover have "links_ok ?h D es1 (cs1 @ [a])" using links(1) by (simp add: links_ok_def)
      ultimately show ?thesis using Nil e by (subst links_append [OF l(1)]) (simp add: links_Cons links_Nil)
    qed
    moreover have "n \<in> dom (bh_nodes h)" using x(1) by auto
    ultimately show ?thesis using nok [of ?h] by (auto simp: Nil)
  next
    case (Cons f fs)
    obtain c cs where c: "cs2 = c # cs" using l(2) Cons by (cases cs2) auto
    have f: "bh_elems h f = Some (elem_of D f a c)" "links_ok h D fs (c # cs)" "f \<noteq> NULL" using links(2) Cons c by (simp_all add: links_Cons)
    let ?h = "put_elem f (elem_of D f b c) (put_node n ?node h)"
    have "elem_at h n (length (es1 @ es2) - 1) =
        Some (elem_of D ((es1 @ es2) ! (length (es1 @ es2) - 1)) ((cs1 @ a # cs2) ! (length (es1 @ es2) - 1)) ((cs1 @ a # cs2) ! Suc (length (es1 @ es2) - 1)))"
      using n Cons by (intro node_ok_elem_at) auto
    moreover have "(es1 @ es2) ! (length (es1 @ es2) - 1) = last es2" using Cons by (simp add: last_conv_nth nth_append)
    moreover have "key_of D e < key_of D (last es2)" using key(2) Cons by simp
    then have "\<not> (key_of D (last es2) < key_of D e \<or> key_of D (last es2) = key_of D e)" by auto
    ultimately have 1: "node_insert n e h = insert_at (key_of D e) n e (length (es1 @ es2)) 0 (length (es1 @ es2)) h"
      using n(1) e(1) small Cons by (simp add: node_insert_def)
    have 2: "insert_at (key_of D e) n e (length (es1 @ es2)) 0 (length es1 + length es2) h =
        insert_at (key_of D e) n e (length (es1 @ es2)) (0 + length es1) (length es2) h"
    proof (rule insert_at_skip [OF n])
      show "\<not> key_of D e < key_of D ((es1 @ es2) ! j)" if "j < 0 + length es1" for j
        using that key(1) [of "es1 ! j"] by (auto simp: nth_append)
    qed simp
    have elem: "elem_at h n (length es1) = Some (elem_of D f a c)"
      using node_ok_elem_at [OF n, of "length es1"] Cons c l by (simp add: nth_append)
    have shift: "do { h \<leftarrow> slots_up n (length es1) (length (es1 @ es2)) h; set_slot n (length es1) e h } =
        Some (put_node n \<lparr>bn_count = length (es1 @ es2), bn_parent = p, bn_list = es1 @ e # es2 @ zs\<rparr> h)"
      using slots_up_insert [OF x(1)] by simp
    let ?h1 = "put_node n \<lparr>bn_count = length (es1 @ es2), bn_parent = p, bn_list = es1 @ e # es2 @ zs\<rparr> h"
    have prev: "es1 \<noteq> [] \<Longrightarrow> (es1 @ e # es2 @ zs) ! (length es1 - 1) = last es1" by (simp add: nth_append last_conv_nth)
    have 3: "insert_at (key_of D e) n e (length (es1 @ es2)) (length es1) (Suc (length fs)) h = do {
        h \<leftarrow> do { h \<leftarrow> slots_up n (length es1) (length (es1 @ es2)) h; set_slot n (length es1) e h };
        h \<leftarrow> (if length es1 > 0 then do { p \<leftarrow> bnode_slot h n (length es1 - 1); z \<leftarrow> bh_elems h e; set_right_node p (be_left z) h } else Some h);
        h \<leftarrow> (if length es1 < length (es1 @ es2) then do { q \<leftarrow> bnode_slot h n (length es1 + 1); z \<leftarrow> bh_elems h e; set_left_node q (be_right z) h } else Some h);
        h \<leftarrow> set_node_count n (length (es1 @ es2) + 1) h;
        Some (int (length es1), h) }"
      using elem key(2) [of f] Cons by (simp add: Option.bind_assoc)
    have 4: "(if length es1 > 0 then do { p \<leftarrow> bnode_slot ?h1 n (length es1 - 1); z \<leftarrow> bh_elems ?h1 e; set_right_node p (be_left z) ?h1 } else Some ?h1) = Some ?h1"
      using right [of ?h1] prev e(1) x(2) by (cases "es1 = []") simp_all
    have 5: "(if length es1 < length (es1 @ es2) then do { q \<leftarrow> bnode_slot ?h1 n (length es1 + 1); z \<leftarrow> bh_elems ?h1 e; set_left_node q (be_right z) ?h1 } else Some ?h1) =
        Some (put_elem f (elem_of D f b c) ?h1)"
      using x(2) Cons e(1) f(1) by (simp add: nth_append set_left_node_def)
    have 6: "set_node_count n (length (es1 @ es2) + 1) (put_elem f (elem_of D f b c) ?h1) = Some ?h"
      by (simp add: set_node_count_def put_elem_def put_node_def)
    have "node_insert n e h = insert_at (key_of D e) n e (length (es1 @ es2)) 0 (length es1 + length es2) h" using 1 by simp
    also have "\<dots> = insert_at (key_of D e) n e (length (es1 @ es2)) (length es1) (Suc (length fs)) h" unfolding 2 using Cons by simp
    also have "\<dots> = Some (int (length es1), ?h)"
      unfolding 3 shift Option.bind.bind_lunit 4 5 6 ..
    finally have "node_insert n e h = Some (int (length es1), ?h)" .
    moreover have "links_ok ?h D (es1 @ e # es2) (cs1 @ a # b # cs2)"
    proof -
      have d: "f \<notin> set es1" "f \<notin> set fs" "e \<noteq> f" using e(3,4) Cons by auto
      have "links_ok ?h D es1 (cs1 @ [a]) = links_ok h D es1 (cs1 @ [a])" "links_ok ?h D fs (c # cs) = links_ok h D fs (c # cs)"
        by (rule links_ok_cong; use d in auto)+
      then show ?thesis using links(1) f(2,3) e d Cons c by (subst links_append [OF l(1)]) (simp add: links_Cons)
    qed
    moreover have "n \<in> dom (bh_nodes h)" "f \<in> dom (bh_elems h)" using x(1) f(1) by auto
    ultimately show ?thesis using nok [of ?h] by (auto simp: Cons)
  qed
qed

section \<open>Splitting a node\<close>

lemma rep_dom: "rep h D p t \<Longrightarrow> set (gnodes t) \<subseteq> dom (bh_nodes h)"
  by (induction t arbitrary: p) (auto simp: node_ok_def)

lemma move_slots_ok:
  "bh_nodes h src = Some x \<Longrightarrow> bh_nodes h dst = Some y \<Longrightarrow> src \<noteq> dst \<Longrightarrow> j + k \<le> length (bn_list x) \<Longrightarrow> i + k \<le> length (bn_list y) \<Longrightarrow>
    move_slots src dst j i k h = Some (put_node dst (y\<lparr>bn_list := take i (bn_list y) @ take k (drop j (bn_list x)) @ drop (i + k) (bn_list y)\<rparr>) h)"
proof (induction k arbitrary: i j h y)
  case 0
  then have "put_node dst (y\<lparr>bn_list := bn_list y\<rparr>) h = h" by (simp add: put_node_def fun_upd_idem)
  then show ?case by simp
next
  case (Suc k)
  let ?y = "y\<lparr>bn_list := (bn_list y)[i := bn_list x ! j]\<rparr>"
  have "move_slots src dst (j + 1) (i + 1) k (put_node dst ?y h) =
      Some (put_node dst (?y\<lparr>bn_list := take (i + 1) (bn_list ?y) @ take k (drop (j + 1) (bn_list x)) @ drop (i + 1 + k) (bn_list ?y)\<rparr>) (put_node dst ?y h))"
    using Suc.prems by (intro Suc.IH) auto
  moreover have "take (Suc k) (drop j (bn_list x)) = bn_list x ! j # take k (drop (Suc j) (bn_list x))"
    using Suc.prems(4) Cons_nth_drop_Suc [of j "bn_list x"] by (metis Suc_le_lessD add_leD1 add_Suc_right add_Suc take_Suc_Cons)
  moreover have "take (Suc i) ((bn_list y)[i := bn_list x ! j]) = take i (bn_list y) @ [bn_list x ! j]"
    using Suc.prems(5) by (simp add: take_Suc_conv_app_nth)
  ultimately show ?case using Suc.prems by simp
qed

definition reparent :: "addr set \<Rightarrow> addr \<Rightarrow> ('k, 'v) bheap \<Rightarrow> ('k, 'v) bheap" where
  "reparent S p h = h\<lparr>bh_nodes := \<lambda>a. if a \<in> S then map_option (\<lambda>x. x\<lparr>bn_parent := p\<rparr>) (bh_nodes h a) else bh_nodes h a\<rparr>"

lemma reparent_simps [simp]:
  "bh_elems (reparent S p h) = bh_elems h" "dom (bh_nodes (reparent S p h)) = dom (bh_nodes h)"
  "a \<notin> S \<Longrightarrow> bh_nodes (reparent S p h) a = bh_nodes h a" "reparent {} p h = h"
  by (auto simp: reparent_def split: if_splits)

lemma reparent_reparent: "reparent S p (reparent S' p h) = reparent (S \<union> S') p h"
  by (auto simp: reparent_def option.map_comp comp_def fun_eq_iff)

lemma set_parent_if_ok: "c = NULL \<or> c \<in> dom (bh_nodes h) \<Longrightarrow> set_parent_if c p h = Some (reparent ({c} - {NULL}) p h)"
  by (auto simp: set_parent_if_def set_parent_node_def reparent_def put_node_def fun_eq_iff)

lemma adopt_ok:
  "node_ok h q n es \<Longrightarrow> links_ok h D es cs \<Longrightarrow> i + k = length es \<Longrightarrow> n \<notin> set cs \<Longrightarrow> set cs - {NULL} \<subseteq> dom (bh_nodes h) \<Longrightarrow>
    adopt n p i k h = Some (reparent (if k = 0 then {} else set (drop i cs) - {NULL}) p h)"
proof (induction k arbitrary: i h)
  case (Suc k)
  have len: "length cs = Suc (length es)" using Suc.prems(2) by (simp add: links_ok_def)
  have i: "i < length es" "cs ! i \<in> set cs" "cs ! Suc i \<in> set cs" using Suc.prems(3) len by auto
  let ?h = "reparent ({cs ! i} - {NULL}) p h"
  have e: "elem_at h n i = Some (elem_of D (es ! i) (cs ! i) (cs ! Suc i))" using Suc.prems i by (intro node_ok_elem_at)
  have "n \<noteq> cs ! i" using i(2) Suc.prems(4) by auto
  then have n: "node_ok ?h q n es" "links_ok ?h D es cs" using Suc.prems by (simp_all add: node_ok_def links_ok_def)
  then have e': "elem_at ?h n i = Some (elem_of D (es ! i) (cs ! i) (cs ! Suc i))" using i by (intro node_ok_elem_at)
  have 1: "set_parent_if (cs ! i) p h = Some ?h" using i(2) Suc.prems(5) by (intro set_parent_if_ok) auto
  have dr: "drop i cs = cs ! i # drop (Suc i) cs" using i len by (simp add: Cons_nth_drop_Suc)
  show ?case
  proof (cases "k = 0")
    case True
    have "set_parent_if (cs ! Suc i) p ?h = Some (reparent ({cs ! Suc i} - {NULL}) p ?h)" using i(3) Suc.prems(5) by (intro set_parent_if_ok) auto
    moreover have "drop (Suc i) cs = [cs ! Suc i]" using Cons_nth_drop_Suc [of "Suc i" cs] True Suc.prems(3) len by simp
    then have "({cs ! Suc i} - {NULL}) \<union> ({cs ! i} - {NULL}) = set (drop i cs) - {NULL}" using dr by auto
    ultimately show ?thesis using True e 1 e' by (simp add: reparent_reparent)
  next
    case False
    have "adopt n p (i + 1) k ?h = Some (reparent (set (drop (i + 1) cs) - {NULL}) p ?h)"
      using Suc.IH [OF n, of "i + 1"] Suc.prems(3-5) False by simp
    moreover have "(set (drop (Suc i) cs) - {NULL}) \<union> ({cs ! i} - {NULL}) = set (drop i cs) - {NULL}" unfolding dr by auto
    ultimately show ?thesis using False e 1 by (simp add: reparent_reparent)
  qed
qed simp

lemma rep_reparent:
  assumes "rep h D q t" "gaddr t \<in> S" "distinct (gnodes t)" "S \<inter> set (gnodes t) = {gaddr t}"
  shows "rep (reparent S p h) D p t"
proof (cases t)
  case (GN n es ts)
  have "rep (reparent S p h) D n t'" if t': "t' \<in> set ts" for t'
  proof (rule rep_cong [of h D n t'])
    show "rep h D n t'" using assms(1) GN t' by simp
    show "bh_nodes (reparent S p h) a = bh_nodes h a" if a: "a \<in> set (gnodes t')" for a
    proof -
      have "a \<noteq> n" "a \<in> set (gnodes t)" using assms(3) GN t' a by auto
      moreover have "a \<in> S \<Longrightarrow> a \<in> set (gnodes t) \<Longrightarrow> a \<in> {gaddr t}" unfolding assms(4) [symmetric] by (rule IntI)
      ultimately have "a \<notin> S" using GN by auto
      then show ?thesis by simp
    qed
  qed simp
  moreover have "node_ok (reparent S p h) p n es" using assms(1,2) GN by (auto simp: node_ok_def reparent_def)
  moreover have "links_ok (reparent S p h) D es (kid_addrs es ts)" using assms(1) GN by (simp add: links_ok_def)
  ultimately show ?thesis using assms(1) GN by simp
qed

lemma links_ok_upd: "links_ok h D es cs \<Longrightarrow> (\<And>e. e \<in> set es \<Longrightarrow> bh_elems h' e = bh_elems h e) \<Longrightarrow> links_ok h' D es cs"
  by (simp add: links_ok_def)

lemma distinct_kids:
  "distinct (concat (map gnodes ts)) \<Longrightarrow> t \<in> set ts \<Longrightarrow> distinct (gnodes t) \<and> gaddr ` set ts \<inter> set (gnodes t) = {gaddr t}"
proof (induction ts)
  case (Cons u ts)
  have d: "distinct (gnodes u)" "distinct (concat (map gnodes ts))" "set (gnodes u) \<inter> (\<Union>v\<in>set ts. set (gnodes v)) = {}" using Cons.prems(1) by auto
  show ?case
  proof (cases "t = u")
    case True
    have "gaddr ` set ts \<inter> set (gnodes u) = {}" using d(3) gaddr_in_gnodes by blast
    then show ?thesis using d(1) True by auto
  next
    case False
    then have t: "t \<in> set ts" using Cons.prems(2) by simp
    then have "gaddr u \<notin> set (gnodes t)" using d(3) gaddr_in_gnodes [of u] by blast
    then show ?thesis using Cons.IH [OF d(2) t] by auto
  qed
qed simp

lemma kid_addrs_split:
  "ts1 = [] \<and> ts2 = [] \<or> ts1 \<noteq> [] \<and> ts2 \<noteq> [] \<Longrightarrow> kid_addrs (l @ m # r) (ts1 @ ts2) = kid_addrs l ts1 @ kid_addrs r ts2"
  by (auto simp: kid_addrs_def replicate_add [symmetric] simp flip: replicate_Suc)

lemma distinct_weave:
  "distinct (weave ts es) \<Longrightarrow> ts = [] \<or> length ts = Suc (length es) \<Longrightarrow> distinct es \<and> (\<forall>t\<in>set ts. distinct t \<and> set t \<inter> set es = {})"
proof (induction ts es rule: weave.induct)
  case (3 t ts e es)
  have "set (weave ts es) = \<Union>(set ` set ts) \<union> set es" using 3(3) by (intro set_weave) auto
  moreover have "distinct es \<and> (\<forall>t\<in>set ts. distinct t \<and> set t \<inter> set es = {})" using 3 by simp
  ultimately show ?case using 3(2) by auto
qed auto

lemma length_kid_addrs: "ts = [] \<or> length ts = Suc (length es) \<Longrightarrow> length (kid_addrs es ts) = Suc (length es)"
  by (auto simp: kid_addrs_def)

lemma split_ok:
  assumes ins: "node_insert n e h0 = Some (i, h)" "0 \<le> i"
    and G: "rep h D p (GN n (l @ m # r) (ts1 @ ts2))" "distinct (gnodes (GN n (l @ m # r) (ts1 @ ts2)))" "distinct (gin (GN n (l @ m # r) (ts1 @ ts2)))"
    and len: "length l = 16" "length r = 16" and ts: "ts1 = [] \<and> ts2 = [] \<or> length ts1 = Suc (length l) \<and> length ts2 = Suc (length r)"
    and nw: "new h \<notin> dom (bh_nodes h)" "new h \<noteq> NULL"
  shows "\<exists>h'. split_node new n e h0 = Some (m, new h, h') \<and> rep h' D p (GN n l ts1) \<and> rep h' D p (GN (new h) r ts2) \<and>
    bh_elems h' = (bh_elems h)(m \<mapsto> elem_of D m n (new h)) \<and> (\<forall>a. a \<notin> set (gnodes (GN n (l @ m # r) (ts1 @ ts2))) \<union> {new h} \<longrightarrow> bh_nodes h' a = bh_nodes h a) \<and>
    dom (bh_nodes h') = insert (new h) (dom (bh_nodes h))"
proof -
  define nw where "nw = new h"
  define cl cr where "cl = kid_addrs l ts1" and "cr = kid_addrs r ts2"
  have c: "kid_addrs (l @ m # r) (ts1 @ ts2) = cl @ cr" "length cl = Suc (length l)" "length cr = Suc (length r)"
  proof -
    have "ts1 = [] \<and> ts2 = [] \<or> ts1 \<noteq> [] \<and> ts2 \<noteq> []" using ts by auto
    then show "kid_addrs (l @ m # r) (ts1 @ ts2) = cl @ cr" unfolding cl_def cr_def by (rule kid_addrs_split)
    show "length cl = Suc (length l)" "length cr = Suc (length r)" using ts unfolding cl_def cr_def by (auto intro!: length_kid_addrs)
  qed
  have n: "n \<noteq> NULL" "node_ok h p n (l @ m # r)" "links_ok h D (l @ m # r) (cl @ cr)" "\<And>t. t \<in> set ts1 \<union> set ts2 \<Longrightarrow> rep h D n t"
    using G(1) c(1) by auto
  have x: "bh_nodes h n = Some \<lparr>bn_count = 33, bn_parent = p, bn_list = l @ m # r\<rparr>" using n(2) len by (auto simp: node_ok_def)
  have nn: "nw \<noteq> n" "nw \<notin> set (gnodes (GN n (l @ m # r) (ts1 @ ts2)))" using nw(1) x rep_dom [OF G(1)] by (auto simp: nw_def)
  obtain a ca where ca: "cl = ca @ [a]" "length ca = length l" using c(2) by (cases cl rule: rev_cases) auto
  obtain b cb where cb: "cr = b # cb" "length cb = length r" using c(3) by (cases cr) auto
  have links: "links_ok h D l cl" "links_ok h D r cr" "bh_elems h m = Some (elem_of D m a b)" "m \<noteq> NULL"
  proof -
    have "links_ok h D l (ca @ [a]) \<and> links_ok h D (m # r) (a # b # cb)" using n(3) links_append [OF ca(2), of h D "m # r" a "b # cb"] ca cb by simp
    then show "links_ok h D l cl" "links_ok h D r cr" "bh_elems h m = Some (elem_of D m a b)" "m \<noteq> NULL" using ca cb by (simp_all add: links_Cons)
  qed
  have kids: "set cr - {NULL} = gaddr ` set ts2" "set cl - {NULL} = gaddr ` set ts1"
  proof -
    have "NULL \<notin> gaddr ` (set ts1 \<union> set ts2)" using n(4) gaddr_not_NULL by force
    then show "set cr - {NULL} = gaddr ` set ts2" "set cl - {NULL} = gaddr ` set ts1"
      by (auto simp: cl_def cr_def kid_addrs_def simp del: replicate_Suc)
  qed
  let ?h1 = "put_node nw new_bnode h"
  let ?h2 = "put_node nw \<lparr>bn_count = 16, bn_parent = NULL, bn_list = r @ replicate 17 NULL\<rparr> h"
  let ?h3 = "put_elem m (elem_of D m n nw) ?h2"
  let ?h4 = "put_elem m (elem_of D m n nw) (put_node nw \<lparr>bn_count = 16, bn_parent = p, bn_list = r @ replicate 17 NULL\<rparr> h)"
  let ?h5 = "reparent (gaddr ` set ts2) nw ?h4"
  let ?h6 = "put_node n \<lparr>bn_count = 16, bn_parent = p, bn_list = l @ m # r\<rparr> ?h5"
  have d: "distinct (l @ m # r)" "\<And>t. t \<in> set ts1 \<union> set ts2 \<Longrightarrow> m \<notin> set (gin t)"
  proof -
    have "map gin (ts1 @ ts2) = [] \<or> length (map gin (ts1 @ ts2)) = Suc (length (l @ m # r))" using ts by auto
    from distinct_weave [OF G(3) [unfolded gin.simps] this]
    show "distinct (l @ m # r)" "\<And>t. t \<in> set ts1 \<union> set ts2 \<Longrightarrow> m \<notin> set (gin t)" by auto
  qed
  have kid: "gaddr t \<noteq> n \<and> gaddr t \<noteq> nw \<and> gaddr t \<in> dom (bh_nodes h)" if "t \<in> set ts1 \<union> set ts2" for t
  proof -
    have "gaddr t \<in> dom (bh_nodes h)" by (rule subsetD [OF rep_dom [OF n(4) [OF that]] gaddr_in_gnodes])
    then show ?thesis using that nn(2) G(2) gaddr_in_gnodes [of t] by auto
  qed
  have run: "split_node new n e h0 = Some (m, nw, ?h6)"
  proof -
    have 1: "move_slots n nw 17 0 16 ?h1 = Some (put_node nw \<lparr>bn_count = 0, bn_parent = NULL, bn_list = r @ replicate 17 NULL\<rparr> h)"
      using move_slots_ok [of ?h1 n "\<lparr>bn_count = 33, bn_parent = p, bn_list = l @ m # r\<rparr>" nw new_bnode 17 16 0] x nn(1) len
      by (simp add: new_bnode_def)
    have "adopt nw nw 0 16 ?h4 = Some (reparent (if (16::nat) = 0 then {} else set (drop 0 cr) - {NULL}) nw ?h4)"
    proof (rule adopt_ok)
      show "node_ok ?h4 p nw r" using len by (simp add: node_ok_def)
      show "links_ok ?h4 D r cr" by (rule links_ok_upd [OF links(2)]) (use d(1) in auto)
      have "nw \<notin> set cr - {NULL}" unfolding kids(1) using kid by auto
      then show "nw \<notin> set cr" using nw(2) by (simp add: nw_def)
      show "set cr - {NULL} \<subseteq> dom (bh_nodes ?h4)" unfolding kids(1) using kid by auto
    qed (use len in simp)
    then have 2: "adopt nw nw 0 16 ?h4 = Some ?h5" using kids(1) by simp
    have "bh_nodes ?h5 n = Some \<lparr>bn_count = 33, bn_parent = p, bn_list = l @ m # r\<rparr>" using x kid nn(1) by (subst reparent_simps) auto
    moreover have "(l @ m # r) ! 16 = m" using len by (simp add: nth_append)
    ultimately show ?thesis
      using ins nw(2) x nn(1) 1 2 len links(3)
      by (simp add: put_node_put_elem split_node_def node_count_def set_node_count_def set_left_node_def set_right_node_def set_parent_node_def flip: nw_def)
  qed
  have nodes: "bh_nodes ?h6 a = bh_nodes h a" if "a \<noteq> n" "a \<noteq> nw" "a \<notin> gaddr ` set ts2" for a using that by simp
  have disj: "set (gnodes t) \<inter> {n, nw} = {}" if "t \<in> set ts1 \<union> set ts2" for t using that nn(2) G(2) by auto
  have "rep ?h6 D p (GN n l ts1)"
  proof -
    have "rep ?h6 D n t" if t: "t \<in> set ts1" for t
    proof (rule rep_cong [OF n(4)])
      show "t \<in> set ts1 \<union> set ts2" using t by simp
      show "bh_nodes ?h6 a = bh_nodes h a" if a: "a \<in> set (gnodes t)" for a
      proof (rule nodes)
        show "a \<noteq> n" "a \<noteq> nw" using a disj [of t] t by auto
        have "set (gnodes t) \<inter> (\<Union>u\<in>set ts2. set (gnodes u)) = {}" using G(2) t by auto
        then show "a \<notin> gaddr ` set ts2" using a gaddr_in_gnodes by blast
      qed
      show "bh_elems ?h6 e = bh_elems h e \<and> D e = D e" if "e \<in> set (gin t)" for e using that d(2) [of t] t by auto
    qed
    moreover have "node_ok ?h6 p n l" using len by (simp add: node_ok_def)
    moreover have "links_ok ?h6 D l cl" by (rule links_ok_upd [OF links(1)]) (use d(1) in auto)
    ultimately show ?thesis using n(1) by (simp add: cl_def)
  qed
  moreover have "rep ?h6 D p (GN nw r ts2)"
  proof -
    have "rep ?h6 D nw t" if t: "t \<in> set ts2" for t
    proof -
      have 1: "rep h D n t" using n(4) t by simp
      have "distinct (concat (map gnodes ts2))" using G(2) by simp
      note 2 = distinct_kids [OF this t]
      have "rep (reparent (gaddr ` set ts2) nw h) D nw t" using 1 2 t by (intro rep_reparent) auto
      then show ?thesis
      proof (rule rep_cong)
        show "bh_nodes ?h6 a = bh_nodes (reparent (gaddr ` set ts2) nw h) a" if "a \<in> set (gnodes t)" for a
          using disj [of t] t that by (auto simp: reparent_def)
        show "bh_elems ?h6 e = bh_elems (reparent (gaddr ` set ts2) nw h) e \<and> D e = D e" if "e \<in> set (gin t)" for e using that d(2) [of t] t by auto
      qed
    qed
    moreover have "node_ok ?h6 p nw r"
    proof -
      have "nw \<notin> gaddr ` set ts2" using kid by auto
      then show ?thesis using len nn(1) by (simp add: node_ok_def)
    qed
    moreover have "links_ok ?h6 D r cr" by (rule links_ok_upd [OF links(2)]) (use d(1) in auto)
    ultimately show ?thesis using nw(2) by (simp add: cr_def nw_def)
  qed
  moreover have "bh_nodes ?h6 a = bh_nodes h a" if "a \<notin> set (gnodes (GN n (l @ m # r) (ts1 @ ts2))) \<union> {nw}" for a
    using that by (intro nodes) auto
  moreover have "dom (bh_nodes ?h6) = insert nw (dom (bh_nodes h))" using x by auto
  ultimately show ?thesis using run unfolding nw_def [symmetric] by (intro exI [of _ ?h6]) simp
qed

end
