(* ===== verification/BTree_Grow.thy ===== *)
theory BTree_Grow
  imports BTree_Insert
begin

text \<open>
  The way up of an insertion: an element with its two subtrees is put into a node, and while the node is full, it is split and
  its middle element goes on to the parent.
\<close>

section \<open>Contexts\<close>

lemma set_weave_before: "length ts = length es \<Longrightarrow> set (weave_before ts es) = \<Union>(set ` set ts) \<union> set es"
  by (induction ts es rule: list_induct2) (auto simp: weave_before_def)

lemma set_weave_after: "length ts = length es \<Longrightarrow> set (weave_after es ts) = \<Union>(set ` set ts) \<union> set es"
  by (induction ts es rule: list_induct2) (auto simp: weave_after_def)

text \<open>The shape of the tree around a place of depth \<open>k\<close>.\<close>

fun ctx_ok :: "nat \<Rightarrow> frame list \<Rightarrow> bool" where
  "ctx_ok k [] = True"
| "ctx_ok k ((n, es1, ts1, es2, ts2) # fs) = (length ts1 = length es1 \<and> length ts2 = length es2 \<and> (\<forall>t\<in>set ts1 \<union> set ts2. tree_ok k t) \<and>
     length (es1 @ es2) \<le> 32 \<and> es1 @ es2 \<noteq> [] \<and> (fs \<noteq> [] \<longrightarrow> 16 \<le> length (es1 @ es2)) \<and> ctx_ok (Suc k) fs)"

lemma ctx_frames_ok: "ctx_ok k fs \<Longrightarrow> frames_ok fs"
  by (induction k fs rule: ctx_ok.induct) auto

lemma root_ok_plug: "ctx_ok k fs \<Longrightarrow> (if fs = [] then root_ok k t else tree_ok k t) \<Longrightarrow> root_ok (k + length fs) (plug fs t)"
proof (induction k fs arbitrary: t rule: ctx_ok.induct)
  case (2 k n es1 ts1 es2 ts2 fs)
  let ?t = "GN n (es1 @ es2) (ts1 @ t # ts2)"
  have t: "top_ok (Suc k) ?t" using 2(2,3) by (auto simp: top_ok_def)
  have "if fs = [] then root_ok (Suc k) ?t else tree_ok (Suc k) ?t"
    using 2(2) t unfolding tree_ok_iff by (auto simp: root_ok_def)
  then have "root_ok (Suc k + length fs) (plug fs ?t)" using 2(2) by (intro 2(1)) auto
  then show ?case by simp
qed simp

lemma rep_ctx_cong:
  "rep_ctx h D fs q a \<Longrightarrow> frames_ok fs \<Longrightarrow> (\<And>n. n \<in> set (nodes_before fs) \<union> set (nodes_after fs) \<Longrightarrow> bh_nodes h' n = bh_nodes h n) \<Longrightarrow>
   (\<And>e. e \<in> set (in_before fs) \<union> set (in_after fs) \<Longrightarrow> bh_elems h' e = bh_elems h e \<and> D' e = D e) \<Longrightarrow> rep_ctx h' D' fs q a"
proof (induction h D fs q a rule: rep_ctx.induct)
  case (2 h D n es1 ts1 es2 ts2 fs q a)
  from 2(2) obtain p where p: "node_ok h p n (es1 @ es2)" "rep_ctx h D fs p n" by auto
  have es: "set es1 \<subseteq> set (weave_before (map gin ts1) es1)" "set es2 \<subseteq> set (weave_after es2 (map gin ts2))"
    "\<And>t. t \<in> set ts1 \<Longrightarrow> set (gin t) \<subseteq> set (weave_before (map gin ts1) es1)" "\<And>t. t \<in> set ts2 \<Longrightarrow> set (gin t) \<subseteq> set (weave_after es2 (map gin ts2))"
    using 2(3) by (auto simp: set_weave_before set_weave_after)
  have "rep_ctx h' D' fs p n" using p(2) 2(3-5) by (intro 2(1)) auto
  moreover have "node_ok h' p n (es1 @ es2)" using p(1) 2(4) [of n] by (simp add: node_ok_def)
  moreover have "links_ok h' D' (es1 @ es2) (map gaddr ts1 @ a # map gaddr ts2)"
    using 2(2) 2(5) es links_ok_cong [of "es1 @ es2" h' h D' D "map gaddr ts1 @ a # map gaddr ts2"] by auto
  moreover have "rep h' D' n t" if t: "t \<in> set ts1 \<union> set ts2" for t
  proof (rule rep_cong [of h D n t])
    show "rep h D n t" using 2(2) t by auto
    show "bh_nodes h' m = bh_nodes h m" if "m \<in> set (gnodes t)" for m using t that by (intro 2(4)) auto
    show "bh_elems h' e = bh_elems h e \<and> D' e = D e" if "e \<in> set (gin t)" for e using t that es(3,4) [of t] by (intro 2(5)) auto
  qed
  ultimately show ?case using 2(2) by auto
qed simp

section \<open>A pending element\<close>

text \<open>
  \<open>e\<close> is to be put between \<open>es1\<close> and \<open>es2\<close> of the node \<open>n\<close> at the end of the path \<open>fs\<close>; \<open>ts\<close> are the children of the node afterwards.\<close>

definition pending_elem :: "('k, 'v) bheap \<Rightarrow> (addr \<Rightarrow> 'k \<times> 'v) \<Rightarrow> frame list \<Rightarrow> addr \<Rightarrow> addr list \<Rightarrow> addr \<Rightarrow> addr list \<Rightarrow> gtree list \<Rightarrow> bool" where
  "pending_elem h D fs n es1 e es2 ts \<longleftrightarrow> n \<noteq> NULL \<and> e \<noteq> NULL \<and> (\<forall>t\<in>set ts. rep h D n t) \<and>
     (\<exists>p. rep_ctx h D fs p n \<and> node_ok h p n (es1 @ es2)) \<and>
     (\<exists>cs1 a b cs2. kid_addrs (es1 @ e # es2) ts = cs1 @ a # b # cs2 \<and> length cs1 = length es1 \<and> length cs2 = length es2 \<and>
       links_ok h D (es1 @ es2) (cs1 @ a # cs2) \<and> bh_elems h e = Some (elem_of D e a b))"

definition target :: "frame list \<Rightarrow> addr \<Rightarrow> addr list \<Rightarrow> addr \<Rightarrow> addr list \<Rightarrow> gtree list \<Rightarrow> gtree" where
  "target fs n es1 e es2 ts = plug fs (GN n (es1 @ e # es2) ts)"

lemma insert_here:
  fixes D :: "addr \<Rightarrow> ('k::linorder) \<times> 'v"
  assumes p: "pending_elem h D fs n es1 e es2 ts" and o: "ordered D (gin (target fs n es1 e es2 ts))" and d: "distinct (gnodes (target fs n es1 e es2 ts))"
    and f: "frames_ok fs" and small: "length (es1 @ es2) \<le> 32" and ts: "ts = [] \<or> length ts = Suc (length (es1 @ e # es2))"
  shows "\<exists>h'. node_insert n e h = Some (int (length es1), h') \<and> rep h' D NULL (target fs n es1 e es2 ts) \<and>
    dom (bh_nodes h') = dom (bh_nodes h) \<and> dom (bh_elems h') = dom (bh_elems h)"
proof -
  let ?G = "GN n (es1 @ e # es2) ts"
  obtain q where q: "rep_ctx h D fs q n" "node_ok h q n (es1 @ es2)" using p by (auto simp: pending_elem_def)
  obtain cs1 a b cs2 where cs: "kid_addrs (es1 @ e # es2) ts = cs1 @ a # b # cs2" "length cs1 = length es1" "length cs2 = length es2"
    "links_ok h D (es1 @ es2) (cs1 @ a # cs2)" "bh_elems h e = Some (elem_of D e a b)" using p by (auto simp: pending_elem_def)
  have g: "gin (target fs n es1 e es2 ts) = in_before fs @ gin ?G @ in_after fs" "gnodes (target fs n es1 e es2 ts) = nodes_before fs @ gnodes ?G @ nodes_after fs"
    using gin_plug [OF f] gnodes_plug by (simp_all add: target_def)
  have oG: "ordered D (gin ?G)" using o unfolding g by (simp add: ordered_append del: gin.simps)
  have w: "map gin ts = [] \<or> length (map gin ts) = Suc (length (es1 @ e # es2))" using ts by auto
  have oes: "ordered D (es1 @ e # es2)" using ordered_weave [of "map gin ts" "es1 @ e # es2" D] w oG by simp
  have dG: "distinct (gin (target fs n es1 e es2 ts))" using o by (rule ordered_distinct)
  have des: "distinct (es1 @ e # es2)" "\<And>t. t \<in> set ts \<Longrightarrow> set (gin t) \<inter> set (es1 @ e # es2) = {}"
    using distinct_weave [OF _ w] dG unfolding g gin.simps by auto
  have "set (es1 @ e # es2) \<subseteq> set (gin ?G)" unfolding gin.simps using set_weave [OF w] by auto
  then have out: "set es2 \<inter> (set (in_before fs) \<union> set (in_after fs)) = {}" using dG unfolding g by auto
  have nout: "n \<notin> set (nodes_before fs) \<union> set (nodes_after fs)" "\<And>t. t \<in> set ts \<Longrightarrow> n \<notin> set (gnodes t)" using d unfolding g by auto
  have "\<exists>h'. node_insert n e h = Some (int (length es1), h') \<and> node_ok h' q n (es1 @ e # es2) \<and>
    links_ok h' D (es1 @ e # es2) (cs1 @ a # b # cs2) \<and> (\<forall>m. m \<noteq> n \<longrightarrow> bh_nodes h' m = bh_nodes h m) \<and>
    (\<forall>f. f \<notin> set es2 \<longrightarrow> bh_elems h' f = bh_elems h f) \<and> dom (bh_nodes h') = dom (bh_nodes h) \<and> dom (bh_elems h') = dom (bh_elems h)"
  proof (rule node_insert_ok [OF q(2) cs(4,2,3) small cs(5)])
    show "e \<noteq> NULL" using p by (simp add: pending_elem_def)
    show "e \<notin> set (es1 @ es2)" "distinct (es1 @ es2)" using des(1) by auto
    show "key_of D f < key_of D e" if "f \<in> set es1" for f using that oes by (simp add: ordered_append ordered_Cons)
    show "key_of D e < key_of D f" if "f \<in> set es2" for f using that oes by (simp add: ordered_append ordered_Cons)
  qed
  then obtain h' where h': "node_insert n e h = Some (int (length es1), h')" "node_ok h' q n (es1 @ e # es2)"
    "links_ok h' D (es1 @ e # es2) (cs1 @ a # b # cs2)" "\<And>m. m \<noteq> n \<Longrightarrow> bh_nodes h' m = bh_nodes h m"
    "\<And>f. f \<notin> set es2 \<Longrightarrow> bh_elems h' f = bh_elems h f" "dom (bh_nodes h') = dom (bh_nodes h)" "dom (bh_elems h') = dom (bh_elems h)" by blast
  have "rep_ctx h' D fs q n"
  proof (rule rep_ctx_cong [OF q(1) f])
    show "bh_nodes h' m = bh_nodes h m" if "m \<in> set (nodes_before fs) \<union> set (nodes_after fs)" for m
    proof (rule h'(4))
      show "m \<noteq> n" using that nout(1) by blast
    qed
    show "bh_elems h' m = bh_elems h m \<and> D m = D m" if "m \<in> set (in_before fs) \<union> set (in_after fs)" for m
      using that out h'(5) [of m] by blast
  qed
  moreover have "rep h' D n t" if t: "t \<in> set ts" for t
  proof (rule rep_cong [of h D n t])
    show "rep h D n t" using p t by (simp add: pending_elem_def)
    show "bh_nodes h' m = bh_nodes h m" if "m \<in> set (gnodes t)" for m
    proof (rule h'(4))
      show "m \<noteq> n" using that t nout(2) by blast
    qed
    show "bh_elems h' m = bh_elems h m \<and> D m = D m" if "m \<in> set (gin t)" for m
    proof -
      have "m \<notin> set es2" using that des(2) [OF t] by auto
      then show ?thesis using h'(5) by simp
    qed
  qed
  moreover have "n \<noteq> NULL" using p by (simp add: pending_elem_def)
  ultimately have "rep_ctx h' D fs q (gaddr ?G) \<and> rep h' D q ?G" using h'(2,3) cs(1) by simp
  then show ?thesis using h' unfolding target_def rep_plug by blast
qed

section \<open>The way up\<close>

text \<open>What is known of the tree in which the element is already put.\<close>

definition target_ok :: "('k, 'v) bheap \<Rightarrow> (addr \<Rightarrow> ('k::linorder) \<times> 'v) \<Rightarrow> nat \<Rightarrow> frame list \<Rightarrow> addr \<Rightarrow> addr list \<Rightarrow> addr \<Rightarrow> addr list \<Rightarrow> gtree list \<Rightarrow> bool" where
  "target_ok h D k fs n es1 e es2 ts \<longleftrightarrow> ordered D (gin (target fs n es1 e es2 ts)) \<and> distinct (gnodes (target fs n es1 e es2 ts)) \<and>
     dom (bh_nodes h) = set (gnodes (target fs n es1 e es2 ts)) \<and> ctx_ok k fs \<and> top_ok k (GN n (es1 @ e # es2) ts) \<and>
     length (es1 @ es2) \<le> 32 \<and> (fs \<noteq> [] \<longrightarrow> 16 \<le> length (es1 @ es2))"

definition grown :: "('k, 'v) bheap \<Rightarrow> (addr \<Rightarrow> ('k::linorder) \<times> 'v) \<Rightarrow> addr list \<Rightarrow> ('k, 'v) bheap \<Rightarrow> gtree \<Rightarrow> bool" where
  "grown h D es h' u \<longleftrightarrow> rep h' D NULL u \<and> (\<exists>d. root_ok d u) \<and> gin u = es \<and> distinct (gnodes u) \<and>
     dom (bh_nodes h') = set (gnodes u) \<and> dom (bh_elems h') = dom (bh_elems h)"

lemma insert_small:
  fixes T :: "('k::linorder, 'v) btree"
  assumes p: "pending_elem (bt_heap T) D fs n es1 e es2 ts" and t: "target_ok (bt_heap T) D k fs n es1 e es2 ts" and small: "length (es1 @ es2) < 32"
    and root: "bt_root T = gaddr (target fs n es1 e es2 ts)"
  shows "\<exists>u h'. insert_element new n e T = Some (True, T\<lparr>bt_root := gaddr u, bt_heap := h'\<rparr>) \<and>
    grown (bt_heap T) D (gin (target fs n es1 e es2 ts)) h' u"
proof -
  let ?G = "GN n (es1 @ e # es2) ts" and ?u = "target fs n es1 e es2 ts"
  note t = t [unfolded target_ok_def]
  have ts: "ts = [] \<or> length ts = Suc (length (es1 @ e # es2))" using t top_ok_kids by blast
  have f: "frames_ok fs" using t ctx_frames_ok by blast
  obtain h' where h': "node_insert n e (bt_heap T) = Some (int (length es1), h')" "rep h' D NULL ?u"
    "dom (bh_nodes h') = dom (bh_nodes (bt_heap T))" "dom (bh_elems h') = dom (bh_elems (bt_heap T))"
    using insert_here [OF p _ _ f _ ts] t by blast
  have "if fs = [] then root_ok k ?G else tree_ok k ?G" unfolding tree_ok_iff root_ok_def using t small by auto
  then have "root_ok (k + length fs) ?u" unfolding target_def using t by (intro root_ok_plug) auto
  then have "grown (bt_heap T) D (gin ?u) h' ?u" unfolding grown_def using h' t by metis
  moreover have "n \<noteq> NULL" "node_count (bt_heap T) n = Some (length (es1 @ es2))" using p by (auto simp: pending_elem_def)
  then have "insert_element new n e T = Some (True, T\<lparr>bt_root := gaddr ?u, bt_heap := h'\<rparr>)"
    using small h'(1) by (subst insert_element.simps) (simp add: with_heap_def flip: root)
  ultimately show ?thesis by blast
qed

definition fresh_nodes :: "('k, 'v) node_alloc \<Rightarrow> bool" where
  "fresh_nodes new \<longleftrightarrow> (\<forall>h. finite (dom (bh_nodes h)) \<longrightarrow> new h \<notin> dom (bh_nodes h) \<and> new h \<noteq> NULL)"

text \<open>A full node is cut into two, each with its half of the elements and the children.\<close>

definition cut :: "addr list \<Rightarrow> gtree list \<Rightarrow> addr list \<Rightarrow> addr \<Rightarrow> addr list \<Rightarrow> gtree list \<Rightarrow> gtree list \<Rightarrow> bool" where
  "cut es ts l m r ts1 ts2 \<longleftrightarrow> es = l @ m # r \<and> ts = ts1 @ ts2 \<and> length l = 16 \<and> length r = 16 \<and>
     (ts1 = [] \<and> ts2 = [] \<or> length ts1 = Suc (length l) \<and> length ts2 = Suc (length r))"

lemma cut_exists:
  assumes "length es = 33" "ts = [] \<or> length ts = Suc (length es)"
  shows "\<exists>l m r ts1 ts2. cut es ts l m r ts1 ts2"
proof (intro exI)
  show "cut es ts (take 16 es) (es ! 16) (drop 17 es) (take 17 ts) (drop 17 ts)"
    using assms id_take_nth_drop [of 16 es] by (auto simp: cut_def)
qed

lemma cut_top_ok:
  assumes "cut es ts l m r ts1 ts2" "top_ok k (GN n es ts)"
  shows "tree_ok k (GN n l ts1)" "tree_ok k (GN n' r ts2)"
  using assms by (cases k; auto simp: cut_def top_ok_def)+

lemma cut_gin: "cut es ts l m r ts1 ts2 \<Longrightarrow> gin (GN n es ts) = gin (GN n l ts1) @ m # gin (GN n' r ts2)"
  by (auto simp: cut_def weave_mid)

lemma split_up:
  fixes D :: "addr \<Rightarrow> ('k::linorder) \<times> 'v"
  assumes p: "pending_elem h D fs n es1 e es2 ts" and t: "target_ok h D k fs n es1 e es2 ts" and full: "length (es1 @ es2) = 32" and new: "fresh_nodes new"
  shows "\<exists>l m r ts1 ts2 nw q h'. cut (es1 @ e # es2) ts l m r ts1 ts2 \<and> split_node new n e h = Some (m, nw, h') \<and>
    nw \<noteq> NULL \<and> nw \<notin> dom (bh_nodes h) \<and> rep_ctx h' D fs q n \<and> rep h' D q (GN n l ts1) \<and> rep h' D q (GN nw r ts2) \<and>
    m \<noteq> NULL \<and> bh_elems h' m = Some (elem_of D m n nw) \<and> dom (bh_nodes h') = insert nw (dom (bh_nodes h)) \<and> dom (bh_elems h') = dom (bh_elems h)"
proof -
  let ?G = "GN n (es1 @ e # es2) ts" and ?u = "target fs n es1 e es2 ts"
  note t = t [unfolded target_ok_def]
  have ts: "ts = [] \<or> length ts = Suc (length (es1 @ e # es2))" using t top_ok_kids by blast
  have f: "frames_ok fs" using t ctx_frames_ok by blast
  obtain h1 where h1: "node_insert n e h = Some (int (length es1), h1)" "rep h1 D NULL ?u" "dom (bh_nodes h1) = dom (bh_nodes h)" "dom (bh_elems h1) = dom (bh_elems h)"
    using insert_here [OF p _ _ f _ ts] t by blast
  obtain q where q: "rep_ctx h1 D fs q n" "rep h1 D q ?G" using h1(2) unfolding target_def rep_plug by auto
  obtain l m r ts1 ts2 where c: "cut (es1 @ e # es2) ts l m r ts1 ts2" using cut_exists [of "es1 @ e # es2" ts] full ts by auto
  have G: "?G = GN n (l @ m # r) (ts1 @ ts2)" using c by (simp add: cut_def)
  have gin: "gin ?u = in_before fs @ gin ?G @ in_after fs" using gin_plug [OF f] by (simp add: target_def)
  have gn: "gnodes ?u = nodes_before fs @ gnodes ?G @ nodes_after fs" using gnodes_plug by (simp add: target_def)
  have dg: "distinct (gin ?u)" using t by (blast intro: ordered_distinct)
  have "finite (dom (bh_nodes h1))" using h1(3) t by simp
  then have nw: "new h1 \<notin> dom (bh_nodes h1)" "new h1 \<noteq> NULL" using new by (auto simp: fresh_nodes_def)
  have m: "m \<in> set (gin ?G)" using cut_gin [OF c, of n] by simp
  have "\<exists>h'. split_node new n e h = Some (m, new h1, h') \<and> rep h' D q (GN n l ts1) \<and> rep h' D q (GN (new h1) r ts2) \<and>
    bh_elems h' = (bh_elems h1)(m \<mapsto> elem_of D m n (new h1)) \<and> (\<forall>a. a \<notin> set (gnodes (GN n (l @ m # r) (ts1 @ ts2))) \<union> {new h1} \<longrightarrow> bh_nodes h' a = bh_nodes h1 a) \<and>
    dom (bh_nodes h') = insert (new h1) (dom (bh_nodes h1))"
  proof (rule split_ok [OF h1(1)])
    show "rep h1 D q (GN n (l @ m # r) (ts1 @ ts2))" "distinct (gnodes (GN n (l @ m # r) (ts1 @ ts2)))" "distinct (gin (GN n (l @ m # r) (ts1 @ ts2)))"
      using q(2) t dg unfolding gin gn G by auto
  qed (use c nw in \<open>auto simp: cut_def\<close>)
  then obtain h' where h': "split_node new n e h = Some (m, new h1, h')" "rep h' D q (GN n l ts1)" "rep h' D q (GN (new h1) r ts2)"
    "bh_elems h' = (bh_elems h1)(m \<mapsto> elem_of D m n (new h1))" "\<And>a. a \<notin> set (gnodes ?G) \<union> {new h1} \<Longrightarrow> bh_nodes h' a = bh_nodes h1 a"
    "dom (bh_nodes h') = insert (new h1) (dom (bh_nodes h1))" unfolding G by blast
  have "rep_ctx h' D fs q n"
  proof (rule rep_ctx_cong [OF q(1) f])
    show "bh_nodes h' a = bh_nodes h1 a" if a: "a \<in> set (nodes_before fs) \<union> set (nodes_after fs)" for a
    proof (rule h'(5))
      have "a \<in> dom (bh_nodes h1)" using a t h1(3) unfolding gn by auto
      moreover have "a \<notin> set (gnodes ?G)" using a t unfolding gn by auto
      ultimately show "a \<notin> set (gnodes ?G) \<union> {new h1}" using nw by auto
    qed
    show "bh_elems h' a = bh_elems h1 a \<and> D a = D a" if a: "a \<in> set (in_before fs) \<union> set (in_after fs)" for a
    proof -
      have "a \<noteq> m" using a m dg unfolding gin by auto
      then show ?thesis using h'(4) by simp
    qed
  qed
  moreover have "m \<noteq> NULL" using gin_not_NULL [OF q(2)] m by metis
  moreover have "m \<in> dom (bh_elems h1)"
  proof -
    have "links_ok h1 D (l @ m # r) (kid_addrs (l @ m # r) (ts1 @ ts2))" using q(2) unfolding G by simp
    then show ?thesis using links_ok_mem [of h1 D "l @ m # r" _ m] by auto
  qed
  then have "dom (bh_elems h') = dom (bh_elems h)" unfolding h'(4) h1(4) [symmetric] by auto
  moreover have "bh_elems h' m = Some (elem_of D m n (new h1))" unfolding h'(4) by simp
  moreover have "dom (bh_nodes h') = insert (new h1) (dom (bh_nodes h))" unfolding h'(6) h1(3) ..
  moreover have "new h1 \<notin> dom (bh_nodes h)" using nw(1) unfolding h1(3) .
  moreover note nw(2) h'(1-3) c
  ultimately show ?thesis by blast
qed

lemma pending_elem_parent:
  fixes D :: "addr \<Rightarrow> ('k::linorder) \<times> 'v"
  assumes c: "cut (es1 @ e # es2) ts l m r ts1 ts2" and ctx: "rep_ctx h' D ((f, fe1, ft1, fe2, ft2) # fs) q n"
    and LR: "rep h' D q (GN n l ts1)" "rep h' D q (GN nw r ts2)" and m: "m \<noteq> NULL" "bh_elems h' m = Some (elem_of D m n nw)"
    and t: "target_ok h D k ((f, fe1, ft1, fe2, ft2) # fs) n es1 e es2 ts" and nw: "nw \<notin> dom (bh_nodes h)" "dom (bh_nodes h') = insert nw (dom (bh_nodes h))"
  defines "kids \<equiv> ft1 @ GN n l ts1 # GN nw r ts2 # ft2"
  shows "pending_elem h' D fs f fe1 m fe2 kids" "target_ok h' D (Suc k) fs f fe1 m fe2 kids"
    "gin (target fs f fe1 m fe2 kids) = gin (target ((f, fe1, ft1, fe2, ft2) # fs) n es1 e es2 ts)"
proof -
  note t = t [unfolded target_ok_def]
  have len: "length ft1 = length fe1" "length ft2 = length fe2" using t by auto
  have f: "frames_ok fs" using t ctx_frames_ok [of "Suc k" fs] by auto
  show "pending_elem h' D fs f fe1 m fe2 kids"
    unfolding pending_elem_def
  proof (intro conjI ballI)
    show "rep h' D f t" if "t \<in> set kids" for t using that ctx LR unfolding kids_def by auto
    show "\<exists>p. rep_ctx h' D fs p f \<and> node_ok h' p f (fe1 @ fe2)" using ctx by auto
    have "kid_addrs (fe1 @ m # fe2) kids = map gaddr ft1 @ n # nw # map gaddr ft2" by (simp add: kid_addrs_def kids_def)
    moreover have "links_ok h' D (fe1 @ fe2) (map gaddr ft1 @ n # map gaddr ft2)" using ctx by simp
    ultimately show "\<exists>cs1 a b cs2. kid_addrs (fe1 @ m # fe2) kids = cs1 @ a # b # cs2 \<and> length cs1 = length fe1 \<and> length cs2 = length fe2 \<and>
        links_ok h' D (fe1 @ fe2) (cs1 @ a # cs2) \<and> bh_elems h' m = Some (elem_of D m a b)"
      using len m(2) by (metis length_map)
  qed (use ctx m in auto)
  have "gin (GN f (fe1 @ m # fe2) kids) = gin (GN f (fe1 @ fe2) (ft1 @ GN n (es1 @ e # es2) ts # ft2))"
    using cut_gin [OF c, of n nw] len unfolding kids_def
    by (simp add: weave_before weave_after weave_after_def del: weave.simps(3))
  then show g: "gin (target fs f fe1 m fe2 kids) = gin (target ((f, fe1, ft1, fe2, ft2) # fs) n es1 e es2 ts)"
    by (simp add: target_def gin_plug [OF f] del: gin.simps)
  have k: "tree_ok k (GN n l ts1)" "tree_ok k (GN nw r ts2)" using cut_top_ok [OF c] t by blast+
  show "target_ok h' D (Suc k) fs f fe1 m fe2 kids"
    unfolding target_ok_def g
  proof (intro conjI)
    have gn: "gnodes (target fs f fe1 m fe2 kids) = nodes_before fs @ (f # concat (map gnodes ft1) @ (n # concat (map gnodes ts1) @ nw # concat (map gnodes ts2)) @ concat (map gnodes ft2)) @ nodes_after fs"
      by (simp add: target_def gnodes_plug kids_def)
    have gn': "gnodes (target ((f, fe1, ft1, fe2, ft2) # fs) n es1 e es2 ts) =
        nodes_before fs @ (f # concat (map gnodes ft1) @ (n # concat (map gnodes ts1) @ concat (map gnodes ts2)) @ concat (map gnodes ft2)) @ nodes_after fs"
      using c by (simp add: target_def gnodes_plug cut_def)
    have dom: "dom (bh_nodes h) = set (gnodes (target ((f, fe1, ft1, fe2, ft2) # fs) n es1 e es2 ts))" using t by blast
    have dis: "distinct (gnodes (target ((f, fe1, ft1, fe2, ft2) # fs) n es1 e es2 ts))" using t by blast
    show "distinct (gnodes (target fs f fe1 m fe2 kids))" using dis nw(1) unfolding dom gn gn' by auto
    show "dom (bh_nodes h') = set (gnodes (target fs f fe1 m fe2 kids))" unfolding nw(2) dom gn gn' by auto
    show "ctx_ok (Suc k) fs" "length (fe1 @ fe2) \<le> 32" "fs \<noteq> [] \<longrightarrow> 16 \<le> length (fe1 @ fe2)" using t by auto
    show "top_ok (Suc k) (GN f (fe1 @ m # fe2) kids)" using t len k by (auto simp: top_ok_def kids_def)
  qed (use t in blast)
qed

lemma pending_elem_root:
  fixes D :: "addr \<Rightarrow> ('k::linorder) \<times> 'v"
  assumes c: "cut (es1 @ e # es2) ts l m r ts1 ts2"
    and LR: "rep h' D q (GN n l ts1)" "rep h' D q (GN nw r ts2)" and m: "m \<noteq> NULL" "bh_elems h' m = Some (elem_of D m n nw)"
    and t: "target_ok h D k [] n es1 e es2 ts" and nw: "nw \<notin> dom (bh_nodes h)" "dom (bh_nodes h') = insert nw (dom (bh_nodes h))"
    and root: "root \<notin> dom (bh_nodes h')" "root \<noteq> NULL"
  defines "kids \<equiv> [GN n l ts1, GN nw r ts2]" and "h2 \<equiv> reparent {n, nw} root (put_node root new_bnode h')"
  shows "pending_elem h2 D [] root [] m [] kids" "target_ok h2 D (Suc k) [] root [] m [] kids"
    "gin (target [] root [] m [] kids) = gin (target [] n es1 e es2 ts)"
proof -
  note t = t [unfolded target_ok_def target_def plug.simps]
  have gn: "gnodes (GN n (es1 @ e # es2) ts) = n # concat (map gnodes ts1) @ concat (map gnodes ts2)" using c by (simp add: cut_def)
  have dom: "dom (bh_nodes h) = set (n # concat (map gnodes ts1) @ concat (map gnodes ts2))" and dis: "distinct (n # concat (map gnodes ts1) @ concat (map gnodes ts2))"
    using t unfolding gn by auto
  have out: "nw \<noteq> n" "root \<noteq> n" "root \<noteq> nw" "nw \<notin> set (concat (map gnodes ts1) @ concat (map gnodes ts2))" "root \<notin> set (concat (map gnodes ts1) @ concat (map gnodes ts2))"
    using nw root(1) unfolding nw(2) dom by auto
  have rep: "rep h2 D root u" if u: "u \<in> set kids" for u
  proof -
    have "rep (put_node root new_bnode h') D q u"
    proof (rule rep_cong [of h' D q u])
      show "rep h' D q u" using u LR by (auto simp: kids_def)
      have "root \<notin> set (gnodes u)" using u out by (auto simp: kids_def)
      then show "bh_nodes (put_node root new_bnode h') a = bh_nodes h' a" if "a \<in> set (gnodes u)" for a using that by auto
    qed simp
    then show ?thesis unfolding h2_def
    proof (rule rep_reparent)
      show "gaddr u \<in> {n, nw}" "distinct (gnodes u)" using u dis out(4) by (auto simp: kids_def)
      show "{n, nw} \<inter> set (gnodes u) = {gaddr u}" using u dis out by (auto simp: kids_def)
    qed
  qed
  show "pending_elem h2 D [] root [] m [] kids"
    unfolding pending_elem_def
  proof (intro conjI ballI)
    show "\<exists>p. rep_ctx h2 D [] p root \<and> node_ok h2 p root ([] @ [])"
      using out by (simp add: node_ok_def h2_def new_bnode_def)
    show "\<exists>cs1 a b cs2. kid_addrs ([] @ m # []) kids = cs1 @ a # b # cs2 \<and> length cs1 = length ([] :: addr list) \<and> length cs2 = length ([] :: addr list) \<and>
        links_ok h2 D ([] @ []) (cs1 @ a # cs2) \<and> bh_elems h2 m = Some (elem_of D m a b)"
      using m(2) by (simp add: kid_addrs_def kids_def links_Nil h2_def)
  qed (use rep root m in auto)
  show g: "gin (target [] root [] m [] kids) = gin (target [] n es1 e es2 ts)"
    using cut_gin [OF c, of n nw] by (simp add: target_def kids_def)
  have k: "tree_ok k (GN n l ts1)" "tree_ok k (GN nw r ts2)" using cut_top_ok [OF c] t by blast+
  show "target_ok h2 D (Suc k) [] root [] m [] kids"
    unfolding target_ok_def g
  proof (intro conjI)
    have gn: "gnodes (target [] root [] m [] kids) = root # (n # concat (map gnodes ts1)) @ nw # concat (map gnodes ts2)"
      by (simp add: target_def kids_def)
    show "distinct (gnodes (target [] root [] m [] kids))" unfolding gn using dis out by auto
    show "dom (bh_nodes h2) = set (gnodes (target [] root [] m [] kids))" unfolding gn h2_def reparent_simps put_node_simps using nw(2) dom by auto
    show "top_ok (Suc k) (GN root ([] @ m # []) kids)" using k by (auto simp: top_ok_def kids_def)
  qed (use t in \<open>auto simp: target_def\<close>)
qed

lemma grown_trans: "dom (bh_elems h') = dom (bh_elems h) \<Longrightarrow> grown h' D es h'' u \<Longrightarrow> grown h D es h'' u"
  by (simp add: grown_def)

lemma insert_element_ok:
  fixes T :: "('k::linorder, 'v) btree"
  assumes new: "fresh_nodes new"
  shows "pending_elem (bt_heap T) D fs n es1 e es2 ts \<Longrightarrow> target_ok (bt_heap T) D k fs n es1 e es2 ts \<Longrightarrow> bt_root T = gaddr (target fs n es1 e es2 ts) \<Longrightarrow>
    \<exists>u h'. insert_element new n e T = Some (True, T\<lparr>bt_root := gaddr u, bt_heap := h'\<rparr>) \<and>
      grown (bt_heap T) D (gin (target fs n es1 e es2 ts)) h' u"
proof (induction fs arbitrary: T k n es1 e es2 ts)
  case Nil
  show ?case
  proof (cases "length (es1 @ es2) < 32")
    case True
    then show ?thesis using Nil insert_small by blast
  next
    case False
    then have full: "length (es1 @ es2) = 32" using Nil.prems(2) by (auto simp: target_ok_def)
    obtain l m r ts1 ts2 nw q h1 where c: "cut (es1 @ e # es2) ts l m r ts1 ts2"
      and s: "split_node new n e (bt_heap T) = Some (m, nw, h1)" "nw \<noteq> NULL" "nw \<notin> dom (bh_nodes (bt_heap T))" "rep_ctx h1 D [] q n"
      "rep h1 D q (GN n l ts1)" "rep h1 D q (GN nw r ts2)" "m \<noteq> NULL" "bh_elems h1 m = Some (elem_of D m n nw)"
      "dom (bh_nodes h1) = insert nw (dom (bh_nodes (bt_heap T)))" "dom (bh_elems h1) = dom (bh_elems (bt_heap T))"
      using split_up [OF Nil.prems(1,2) full new] by blast
    have "finite (dom (bh_nodes h1))" unfolding s(9) using Nil.prems(2) by (simp add: target_ok_def)
    then have r: "new h1 \<notin> dom (bh_nodes h1)" "new h1 \<noteq> NULL" using new by (auto simp: fresh_nodes_def)
    define h2 where "h2 = reparent {n, nw} (new h1) (put_node (new h1) new_bnode h1)"
    define T2 where "T2 = T\<lparr>bt_heap := h2, bt_root := new h1\<rparr>"
    note up = pending_elem_root [OF c s(5-8) Nil.prems(2) s(3,9) r, folded h2_def]
    have n: "n \<noteq> NULL" "node_count (bt_heap T) n = Some 32" using Nil.prems(1) full by (auto simp: pending_elem_def)
    have q: "q = NULL" using s(4) by simp
    obtain x1 x2 where x: "bh_nodes h1 n = Some x1" "bn_parent x1 = NULL" "bh_nodes h1 nw = Some x2"
      using node_ok_parent s(5,6) q by (metis rep.simps)
    have d: "n \<noteq> new h1" "nw \<noteq> new h1" "n \<noteq> nw" using r x s(3) n(2) by (auto simp: node_count_def)
    have h2: "put_node nw (x2\<lparr>bn_parent := new h1\<rparr>) (put_node n (x1\<lparr>bn_parent := new h1\<rparr>) (put_node (new h1) new_bnode h1)) = h2"
      using x d by (auto simp: h2_def reparent_def put_node_def fun_eq_iff)
    have "insert_element new n e T = insert_element new (new h1) m T2"
      using n s(1) x d r(2) h2 by (subst insert_element.simps) (simp add: new_node_def set_parent_node_def with_heap_def T2_def flip: h2)
    moreover obtain u h' where u: "insert_element new (new h1) m T2 = Some (True, T2\<lparr>bt_root := gaddr u, bt_heap := h'\<rparr>)"
        "grown h2 D (gin (target [] n es1 e es2 ts)) h' u"
      using insert_small [of T2 D "[]" "new h1" "[]" m "[]" "[GN n l ts1, GN nw r ts2]" "Suc k" new] up by (auto simp: T2_def target_def)
    moreover have "dom (bh_elems h2) = dom (bh_elems (bt_heap T))" using s(10) by (simp add: h2_def)
    moreover have "T2\<lparr>bt_root := gaddr u, bt_heap := h'\<rparr> = T\<lparr>bt_root := gaddr u, bt_heap := h'\<rparr>" by (simp add: T2_def)
    ultimately show ?thesis using grown_trans [of h2 "bt_heap T" D _ h' u] by metis
  qed
next
  case (Cons fr fs)
  obtain f fe1 ft1 fe2 ft2 where fr: "fr = (f, fe1, ft1, fe2, ft2)" by (cases fr)
  show ?case
  proof (cases "length (es1 @ es2) < 32")
    case True
    then show ?thesis using Cons.prems insert_small by blast
  next
    case False
    then have full: "length (es1 @ es2) = 32" using Cons.prems(2) by (auto simp: target_ok_def)
    obtain l m r ts1 ts2 nw q h1 where c: "cut (es1 @ e # es2) ts l m r ts1 ts2"
      and s: "split_node new n e (bt_heap T) = Some (m, nw, h1)" "nw \<noteq> NULL" "nw \<notin> dom (bh_nodes (bt_heap T))" "rep_ctx h1 D (fr # fs) q n"
      "rep h1 D q (GN n l ts1)" "rep h1 D q (GN nw r ts2)" "m \<noteq> NULL" "bh_elems h1 m = Some (elem_of D m n nw)"
      "dom (bh_nodes h1) = insert nw (dom (bh_nodes (bt_heap T)))" "dom (bh_elems h1) = dom (bh_elems (bt_heap T))"
      using split_up [OF Cons.prems(1,2) full new] by blast
    note up = pending_elem_parent [OF c s(4) [unfolded fr] s(5-8) Cons.prems(2) [unfolded fr] s(3,9), folded fr]
    define T2 where "T2 = T\<lparr>bt_heap := h1\<rparr>"
    have n: "n \<noteq> NULL" "node_count (bt_heap T) n = Some 32" using Cons.prems(1) full by (auto simp: pending_elem_def)
    have q: "q = f" "f \<noteq> NULL" using s(4) fr by auto
    obtain x1 where x: "bh_nodes h1 n = Some x1" "bn_parent x1 = f" using node_ok_parent s(5) q by (metis rep.simps)
    have "insert_element new n e T = insert_element new f m T2"
      using n s(1) x q(2) by (subst insert_element.simps) (simp add: with_heap_def T2_def)
    moreover obtain u h' where u: "insert_element new f m T2 = Some (True, T2\<lparr>bt_root := gaddr u, bt_heap := h'\<rparr>)"
        "grown h1 D (gin (target (fr # fs) n es1 e es2 ts)) h' u"
    proof -
      have "bt_root T2 = gaddr (target fs f fe1 m fe2 (ft1 @ GN n l ts1 # GN nw r ts2 # ft2))"
        using Cons.prems(3) by (simp add: T2_def target_def gaddr_plug fr)
      with Cons.IH [of T2 f fe1 m fe2 "ft1 @ GN n l ts1 # GN nw r ts2 # ft2" "Suc k"] up show thesis
        using that by (auto simp: T2_def)
    qed
    moreover have "T2\<lparr>bt_root := gaddr u, bt_heap := h'\<rparr> = T\<lparr>bt_root := gaddr u, bt_heap := h'\<rparr>" by (simp add: T2_def)
    ultimately show ?thesis using grown_trans [OF s(10), of D _ h' u] by metis
  qed
qed

end
