(* ===== verification/BTree_Destroy.thy ===== *)
theory BTree_Destroy
  imports BTree_Grow
begin

text \<open>
  The destruction of a B-tree: \<open>DestroyTree\<close> deletes every node and gives every element back once, the subtrees first.
\<close>

definition removed :: "addr set \<Rightarrow> addr set \<Rightarrow> ('k, 'v) bheap \<Rightarrow> ('k, 'v) bheap" where
  "removed N E h = h\<lparr>bh_nodes := (bh_nodes h) |` (- N), bh_elems := (bh_elems h) |` (- E)\<rparr>"

lemma removed_simps [simp]:
  "n \<notin> N \<Longrightarrow> bh_nodes (removed N E h) n = bh_nodes h n" "e \<notin> E \<Longrightarrow> bh_elems (removed N E h) e = bh_elems h e"
  by (simp_all add: removed_def)

lemma removed_none [simp]: "removed {} {} h = h"
  by (simp add: removed_def restrict_map_def)

lemma removed_removed: "removed N E (removed N' E' h) = removed (N' \<union> N) (E' \<union> E) h"
  by (simp add: removed_def)

lemma node_ok_removed: "node_ok h p n es \<Longrightarrow> n \<notin> N \<Longrightarrow> node_ok (removed N E h) p n es"
  by (simp add: node_ok_def)

lemma destroy_element_removed:
  assumes "e \<notin> E" "bh_elems h e \<noteq> None"
  shows "destroy_element e (removed N E h) = Some (removed N (insert e E) h)"
proof -
  have "(\<lambda>x. if x = e then None else (bh_elems h |` (- E)) x) = bh_elems h |` (- insert e E)"
    by (auto simp: fun_eq_iff restrict_map_def)
  then show ?thesis using assms by (simp add: destroy_element_def removed_def fun_upd_def)
qed

lemma delete_bnode_removed:
  assumes "n \<notin> N" "bh_nodes h n \<noteq> None"
  shows "delete_bnode n (removed N E h) = Some (removed (insert n N) E h)"
proof -
  have "(\<lambda>x. if x = n then None else (bh_nodes h |` (- N)) x) = bh_nodes h |` (- insert n N)"
    by (auto simp: fun_eq_iff restrict_map_def)
  then show ?thesis using assms by (simp add: delete_bnode_def removed_def fun_upd_def)
qed

lemma destroy_elements_ok:
  assumes n: "node_ok h p n es" "n \<notin> N" and es: "distinct es" "set es \<inter> E = {}" "\<And>e. e \<in> set es \<Longrightarrow> bh_elems h e \<noteq> None"
  shows "i + k = length es \<Longrightarrow> destroy_elements n i k (removed N (E \<union> set (take i es)) h) = Some (removed N (E \<union> set es) h)"
proof (induction k arbitrary: i)
  case (Suc k)
  have i: "i < length es" using Suc.prems by simp
  have "es ! i \<notin> set (take i es)" using es(1) i by (metis distinct_take id_take_nth_drop not_distinct_conv_prefix take_Suc_conv_app_nth)
  then have new: "es ! i \<notin> E \<union> set (take i es)" using es(2) i nth_mem by blast
  have slot: "bnode_slot (removed N (E \<union> set (take i es)) h) n i = Some (es ! i)"
    by (rule node_ok_slot [OF node_ok_removed [OF n] i])
  have "destroy_element (es ! i) (removed N (E \<union> set (take i es)) h) = Some (removed N (insert (es ! i) (E \<union> set (take i es))) h)"
    by (rule destroy_element_removed [OF new es(3)]) (use i in simp)
  moreover have "insert (es ! i) (E \<union> set (take i es)) = E \<union> set (take (i + 1) es)" using i by (auto simp: take_Suc_conv_app_nth)
  ultimately show ?case using slot Suc.IH [of "i + 1"] Suc.prems by simp
qed simp

lemma destroy_NULL [simp]: "destroy_tree NULL i h = Some h"
  by (simp add: destroy_tree.simps)

lemma distinct_weave_concat: "distinct (weave ts es) \<Longrightarrow> ts = [] \<or> length ts = Suc (length es) \<Longrightarrow> distinct (concat ts)"
proof (induction ts es rule: weave.induct)
  case (3 t ts e es)
  have "set (weave ts es) = \<Union>(set ` set ts) \<union> set es" using 3(3) by (intro set_weave) auto
  then show ?case using 3 by auto
qed auto

lemma take_disjoint:
  assumes "distinct (concat (map f ts))" "i < length ts"
  shows "set (f (ts ! i)) \<inter> \<Union>(set ` f ` set (take i ts)) = {}"
proof -
  have "ts = take i ts @ ts ! i # drop (Suc i) ts" using assms(2) by (rule id_take_nth_drop)
  then have "distinct (concat (map f (take i ts @ ts ! i # drop (Suc i) ts)))" using assms(1) by simp
  then show ?thesis by auto
qed

abbreviation nodes_of :: "gtree list \<Rightarrow> addr set" where "nodes_of ts \<equiv> \<Union>(set ` gnodes ` set ts)"
abbreviation elems_of :: "gtree list \<Rightarrow> addr set" where "elems_of ts \<equiv> \<Union>(set ` gin ` set ts)"

lemma destroy_kid:
  assumes r: "rep h D p (GN n es ts)" and dn: "distinct (concat (map gnodes ts))" and de: "distinct (concat (map gin ts))" and i: "i \<le> length es"
    and kids: "\<And>t h'. t \<in> set ts \<Longrightarrow> rep h' D n t \<Longrightarrow> destroy_tree (gaddr t) 0 h' = Some (removed (set (gnodes t)) (set (gin t)) h')"
  shows "destroy_tree (kid_addrs es ts ! i) 0 (removed (nodes_of (take i ts)) (elems_of (take i ts)) h) =
    Some (removed (nodes_of (take (Suc i) ts)) (elems_of (take (Suc i) ts)) h)"
proof (cases "ts = []")
  case True
  then show ?thesis using i by (simp add: kid_addrs_def del: replicate_Suc)
next
  case False
  then have lt: "i < length ts" using rep_kids_length [OF r] i by simp
  let ?h = "removed (nodes_of (take i ts)) (elems_of (take i ts)) h"
  have "rep h D n (ts ! i)" using r lt by simp
  then have "rep ?h D n (ts ! i)"
  proof (rule rep_cong)
    show "bh_nodes ?h m = bh_nodes h m" if "m \<in> set (gnodes (ts ! i))" for m
      using that take_disjoint [OF dn lt] by (intro removed_simps(1)) blast
    show "bh_elems ?h e = bh_elems h e \<and> D e = D e" if "e \<in> set (gin (ts ! i))" for e
      using that take_disjoint [OF de lt] by (intro conjI removed_simps(2) refl) blast
  qed
  then have "destroy_tree (gaddr (ts ! i)) 0 ?h = Some (removed (set (gnodes (ts ! i))) (set (gin (ts ! i))) ?h)"
    using lt by (intro kids) simp_all
  moreover have "nodes_of (take i ts) \<union> set (gnodes (ts ! i)) = nodes_of (take (Suc i) ts)"
    "elems_of (take i ts) \<union> set (gin (ts ! i)) = elems_of (take (Suc i) ts)"
    using lt by (auto simp: take_Suc_conv_app_nth)
  ultimately show ?thesis using False lt by (simp add: removed_removed kid_addrs_def)
qed

lemma destroy_loop:
  assumes r: "rep h D p (GN n es ts)" and dn: "distinct (gnodes (GN n es ts))" and de: "distinct (gin (GN n es ts))" and ne: "es = [] \<Longrightarrow> ts = []"
    and kids: "\<And>t h'. t \<in> set ts \<Longrightarrow> rep h' D n t \<Longrightarrow> destroy_tree (gaddr t) 0 h' = Some (removed (set (gnodes t)) (set (gin t)) h')"
  shows "i + k = length es \<Longrightarrow> destroy_tree n i (removed (nodes_of (take i ts)) (elems_of (take i ts)) h) =
    Some (removed (set (gnodes (GN n es ts))) (set (gin (GN n es ts))) h)"
proof (induction k arbitrary: i)
  have l: "ts = [] \<or> length ts = Suc (length es)" using r by (rule rep_kids_length)
  have w: "distinct (concat (map gin ts))" "distinct es" "\<And>t. t \<in> set ts \<Longrightarrow> set (gin t) \<inter> set es = {}"
    using distinct_weave_concat [of "map gin ts" es] distinct_weave [of "map gin ts" es] de l by auto
  have g: "distinct (concat (map gnodes ts))" "n \<notin> nodes_of ts" using dn by auto
  have nk: "n \<noteq> NULL" "node_ok h p n es" "links_ok h D es (kid_addrs es ts)" using r by simp_all
  note kid = destroy_kid [OF r g(1) w(1) _ kids]
  have sub: "nodes_of (take j ts) \<subseteq> nodes_of ts" "elems_of (take j ts) \<subseteq> elems_of ts" for j by (auto dest: in_set_takeD)
  have at: "node_ok (removed (nodes_of (take j ts)) (elems_of (take j ts)) h) p n es" for j
    using g(2) sub(1) by (intro node_ok_removed [OF nk(2)]) blast
  have el: "elem_at (removed (nodes_of (take j ts)) (elems_of (take j ts)) h) n i =
      Some (elem_of D (es ! i) (kid_addrs es ts ! i) (kid_addrs es ts ! Suc i))" if "i < length es" for i j
  proof -
    have "es ! i \<notin> elems_of (take j ts)" using w(3) sub(2) [of j] that nth_mem by blast
    then show ?thesis using node_ok_slot [OF at that, of j] links_ok_elem [OF nk(3) that] by (simp add: elem_at_def)
  qed
  {
    case 0
    let ?m = "length es"
    let ?h = "removed (nodes_of (take ?m ts)) (elems_of (take ?m ts)) h"
    let ?k = "removed (nodes_of ts) (elems_of ts) h"
    have last: "(if ?m > 0 then do { y \<leftarrow> elem_at ?h n (?m - 1); destroy_tree (be_right y) 0 ?h } else Some ?h) = Some ?k"
    proof (cases "es = []")
      case True
      then show ?thesis using ne by simp
    next
      case False
      then have "destroy_tree (kid_addrs es ts ! ?m) 0 ?h = Some ?k" using kid [of ?m] l by auto
      then show ?thesis using False el [of "?m - 1" ?m] by simp
    qed
    have "node_ok ?k p n es" using g(2) by (intro node_ok_removed [OF nk(2)])
    then have count: "node_count ?k n = Some ?m" by simp
    have "bh_elems h e \<noteq> None" if "e \<in> set es" for e using links_ok_elem [OF nk(3)] that by (auto simp: in_set_conv_nth)
    then have "destroy_elements n 0 ?m (removed (nodes_of ts) (elems_of ts \<union> set (take 0 es)) h) = Some (removed (nodes_of ts) (elems_of ts \<union> set es) h)"
      using w(3) by (intro destroy_elements_ok [OF nk(2) g(2) w(2)]) auto
    then have elems: "destroy_elements n 0 ?m ?k = Some (removed (nodes_of ts) (elems_of ts \<union> set es) h)" by simp
    have node: "delete_bnode n (removed (nodes_of ts) (elems_of ts \<union> set es) h) = Some (removed (insert n (nodes_of ts)) (elems_of ts \<union> set es) h)"
      using nk(2) by (intro delete_bnode_removed [OF g(2)]) (auto simp: node_ok_def)
    have "node_count ?h n = Some ?m" using at [of ?m] by simp
    then have "destroy_tree n ?m ?h = do {
        h \<leftarrow> (if ?m > 0 then do { y \<leftarrow> elem_at ?h n (?m - 1); destroy_tree (be_right y) 0 ?h } else Some ?h);
        m \<leftarrow> node_count h n;
        h \<leftarrow> destroy_elements n 0 m h;
        delete_bnode n h }"
      using nk(1) by (subst destroy_tree.simps) (simp only: Option.bind.simps if_False less_irrefl refl simp_thms bind_eq_Some_conv)
    also have "\<dots> = Some (removed (insert n (nodes_of ts)) (elems_of ts \<union> set es) h)"
      unfolding last by (simp only: bind.bind_lunit count elems node)
    also have "insert n (nodes_of ts) = set (gnodes (GN n es ts))" by simp
    also have "elems_of ts \<union> set es = set (gin (GN n es ts))" using set_gin [OF r] by auto
    finally show ?case using 0 by simp
  next
    case (Suc k)
    then have i: "i < length es" by simp
    then show ?case using Suc nk(1) at [of i] el [OF i, of i] kid [of i] by (subst destroy_tree.simps) simp
  }
qed

lemma destroy_tree_ok:
  "rep h D p t \<Longrightarrow> root_ok d t \<Longrightarrow> distinct (gnodes t) \<Longrightarrow> distinct (gin t) \<Longrightarrow>
    destroy_tree (gaddr t) 0 h = Some (removed (set (gnodes t)) (set (gin t)) h)"
proof (induction t arbitrary: h p d)
  case (GN n es ts)
  have l: "ts = [] \<or> length ts = Suc (length es)" using GN.prems(1) by (rule rep_kids_length)
  have top: "top_ok d (GN n es ts)" "es = [] \<Longrightarrow> ts = []" using GN.prems(2) unfolding root_ok_def by (auto simp: top_ok_def split: nat.splits)
  have "destroy_tree (gaddr t) 0 h' = Some (removed (set (gnodes t)) (set (gin t)) h')" if t: "t \<in> set ts" and h': "rep h' D n t" for t h'
  proof -
    obtain d' where "tree_ok d' t" using top(1) t by (auto simp: top_ok_def split: nat.splits)
    then have "root_ok d' t" by (rule tree_root_ok)
    moreover have "distinct (gnodes t)" "distinct (gin t)"
      using distinct_kids [of ts t] distinct_weave [of "map gin ts" es] GN.prems(3,4) l t by auto
    ultimately show ?thesis by (rule GN.IH [OF t h'])
  qed
  then show ?case using destroy_loop [OF GN.prems(1,3,4) top(2), of 0 "length es"] by simp
qed

end
