(* ===== verification/BTree_Object.thy ===== *)
theory BTree_Object
  imports BTree_Destroy
begin

text \<open>
  The B-tree as a map: the way down to the leaf of a new key, insertion, search, traversal and destruction of whole trees.
\<close>

section \<open>The way down\<close>

lemma insertion_child_skip:
  "node_ok h p n es \<Longrightarrow> links_ok h D es cs \<Longrightarrow> (\<And>j. i \<le> j \<Longrightarrow> j < i + m \<Longrightarrow> \<not> key < key_of D (es ! j)) \<Longrightarrow> i + m \<le> length es \<Longrightarrow>
    insertion_child h n key i (m + k) = insertion_child h n key (i + m) k"
proof (induction m arbitrary: i)
  case (Suc m)
  have "insertion_child h n key (i + 1) (m + k) = insertion_child h n key (i + 1 + m) k"
    using Suc.prems by (intro Suc.IH) auto
  then show ?case using Suc.prems(3) [of i] Suc.prems(4) node_ok_elem_at [OF Suc.prems(1,2), of i] by simp
qed simp

lemma get_insertion_node_ok:
  assumes n: "node_ok h p n (es1 @ es2)" "links_ok h D (es1 @ es2) cs" "is_leaf h n = Some False" and ne: "es1 @ es2 \<noteq> []"
    and k: "\<And>e. e \<in> set es1 \<Longrightarrow> key_of D e < k" "\<And>e. e \<in> set es2 \<Longrightarrow> k < key_of D e"
  shows "get_insertion_node h n k = Some (cs ! length es1)"
proof -
  let ?m = "length (es1 @ es2)"
  have m: "?m - 1 < ?m" "Suc (?m - 1) = ?m" using ne by (cases "es1 @ es2"; simp)+
  have last: "elem_at h n (?m - 1) = Some (elem_of D ((es1 @ es2) ! (?m - 1)) (cs ! (?m - 1)) (cs ! ?m))"
    using node_ok_elem_at [OF n(1,2) m(1)] unfolding m(2) .
  show ?thesis
  proof (cases es2)
    case Nil
    then have "key_of D ((es1 @ es2) ! (?m - 1)) < k" using k(1) ne by simp
    then show ?thesis using n last Nil by (simp add: get_insertion_node_def)
  next
    case (Cons e es)
    have "(es1 @ es2) ! (?m - 1) \<in> set es2" using Cons ne by (metis last_conv_nth last_in_set last_appendR list.distinct(1))
    then have "\<not> (key_of D ((es1 @ es2) ! (?m - 1)) < k \<or> key_of D ((es1 @ es2) ! (?m - 1)) = k)" using k(2) by force
    then have "get_insertion_node h n k = insertion_child h n k 0 (length es1 + length es2)"
      using n last by (simp add: get_insertion_node_def)
    also have "\<dots> = insertion_child h n k (0 + length es1) (length es2)"
    proof (rule insertion_child_skip [OF n(1,2)])
      show "\<not> k < key_of D ((es1 @ es2) ! j)" if "j < 0 + length es1" for j
        using that k(1) [of "es1 ! j"] by (auto simp: nth_append)
    qed simp
    also have "\<dots> = Some (cs ! length es1)"
      using node_ok_elem_at [OF n(1,2), of "length es1"] k(2) [of e] Cons by (simp add: nth_append)
    finally show ?thesis .
  qed
qed

lemma split_at_key:
  assumes "ordered D es" "k \<notin> key_of D ` set es"
  obtains es1 es2 where "es = es1 @ es2" "\<And>e. e \<in> set es1 \<Longrightarrow> key_of D e < k" "\<And>e. e \<in> set es2 \<Longrightarrow> k < key_of D e"
  using assms
proof (induction es arbitrary: thesis)
  case (Cons e es)
  show ?case
  proof (cases "k < key_of D e")
    case True
    then have "k < key_of D f" if "f \<in> set (e # es)" for f using that Cons.prems(2) by (auto simp: ordered_Cons)
    then show ?thesis using Cons.prems(1) [of "[]" "e # es"] by simp
  next
    case False
    then have "key_of D e < k" using Cons.prems(3) by (auto simp: not_less le_less)
    moreover obtain es1 es2 where "es = es1 @ es2" "\<And>e. e \<in> set es1 \<Longrightarrow> key_of D e < k" "\<And>e. e \<in> set es2 \<Longrightarrow> k < key_of D e"
      using Cons.IH Cons.prems(2,3) by (auto simp: ordered_Cons)
    ultimately show ?thesis using Cons.prems(1) [of "e # es1" es2] by auto
  qed
qed simp

lemma insertion_leaf_ok:
  fixes D :: "addr \<Rightarrow> ('k::linorder) \<times> 'v"
  assumes "rep h D p t" "ordered D (gin t)" "k \<notin> key_of D ` set (gin t)" "ctx_ok d gs" "if gs = [] then root_ok d t else tree_ok d t"
    and "\<And>e. e \<in> set (in_before gs) \<Longrightarrow> key_of D e < k" "\<And>e. e \<in> set (in_after gs) \<Longrightarrow> k < key_of D e"
  shows "\<exists>fs n es1 es2. insertion_leaf h (gaddr t) k = Some n \<and> plug gs t = plug fs (GN n (es1 @ es2) []) \<and> ctx_ok 0 fs \<and>
    length (es1 @ es2) \<le> 32 \<and> (fs \<noteq> [] \<longrightarrow> 16 \<le> length (es1 @ es2)) \<and>
    (\<forall>e\<in>set (in_before fs) \<union> set es1. key_of D e < k) \<and> (\<forall>e\<in>set es2 \<union> set (in_after fs). k < key_of D e)"
  using assms
proof (induction t arbitrary: p d gs)
  case (GN n es ts)
  have l: "ts = [] \<or> length ts = Suc (length es)" using GN.prems(1) by (rule rep_kids_length)
  have o: "ordered D es" "\<And>t. t \<in> set ts \<Longrightarrow> ordered D (gin t)" using ordered_weave [of "map gin ts" es D] l GN.prems(2) by auto
  note set = set_gin [OF GN.prems(1)]
  have root: "root_ok d (GN n es ts)" using GN.prems(5) tree_root_ok by (auto split: if_splits)
  have top: "top_ok d (GN n es ts)" "es = [] \<Longrightarrow> ts = []" "length es \<le> 32" "gs \<noteq> [] \<Longrightarrow> 16 \<le> length es"
    using root GN.prems(5) unfolding root_ok_def tree_ok_iff by (auto simp: top_ok_def split: nat.splits)
  have leaf: "is_leaf h n = Some (ts = [])" using GN.prems(1) top(2) by (rule is_leaf_ok)
  have "k \<notin> key_of D ` set es" using GN.prems(3) unfolding set by blast
  then obtain es1 es2 where es: "es = es1 @ es2" "\<And>e. e \<in> set es1 \<Longrightarrow> key_of D e < k" "\<And>e. e \<in> set es2 \<Longrightarrow> k < key_of D e"
    using split_at_key [OF o(1)] by blast
  show ?case
  proof (cases "ts = []")
    case True
    then have "d = 0" using top(1) by (auto simp: top_ok_def split: nat.splits)
    moreover have "insertion_leaf h n k = Some n" using leaf True by (subst insertion_leaf.simps) simp
    ultimately show ?thesis using True es top(3,4) GN.prems(4,6,7)
      by (intro exI [of _ gs] exI [of _ n] exI [of _ es1] exI [of _ es2]) auto
  next
    case False
    then have "length ts = Suc (length (es1 @ es2))" using l es(1) by simp
    then obtain ts1 t ts2 where ts: "ts = ts1 @ t # ts2" "length ts1 = length es1" "length ts2 = length es2"
      "map gaddr ts ! length es1 = gaddr t" by (rule split_kids)
    obtain d' where d: "d = Suc d'" "\<And>t. t \<in> set ts \<Longrightarrow> tree_ok d' t" using top(1) False by (auto simp: top_ok_def split: nat.splits)
    have nk: "node_ok h p n (es1 @ es2)" "links_ok h D (es1 @ es2) (map gaddr ts)" using GN.prems(1) False es(1) by (simp_all add: kid_addrs_def)
    have "get_insertion_node h n k = Some (map gaddr ts ! length es1)"
      by (rule get_insertion_node_ok [OF nk]) (use leaf False top(2) es in auto)
    then have run: "insertion_leaf h n k = insertion_leaf h (gaddr t) k" using leaf False ts(4) by (subst insertion_leaf.simps) simp
    have ord: "ordered D (weave (map gin ts1 @ gin t # map gin ts2) (es1 @ es2))" using GN.prems(2) ts(1) es(1) by simp
    note bet = between [OF ord _ _ es(2,3)]
    let ?gs = "(n, es1, ts1, es2, ts2) # gs"
    have "\<exists>fs n es1 es2. insertion_leaf h (gaddr t) k = Some n \<and> plug ?gs t = plug fs (GN n (es1 @ es2) []) \<and> ctx_ok 0 fs \<and>
      length (es1 @ es2) \<le> 32 \<and> (fs \<noteq> [] \<longrightarrow> 16 \<le> length (es1 @ es2)) \<and>
      (\<forall>e\<in>set (in_before fs) \<union> set es1. key_of D e < k) \<and> (\<forall>e\<in>set es2 \<union> set (in_after fs). k < key_of D e)"
    proof (rule GN.IH [of t n d'])
      show "t \<in> set ts" "rep h D n t" "ordered D (gin t)" using ts(1) GN.prems(1) o(2) by auto
      show "k \<notin> key_of D ` set (gin t)" using GN.prems(3) ts(1) unfolding set by auto
      have "es1 @ es2 \<noteq> []" using top(2) False es(1) by blast
      then show "ctx_ok d' ?gs" using GN.prems(4) d ts es(1) top(3,4) by auto
      show "if ?gs = [] then root_ok d' t else tree_ok d' t" using d(2) ts(1) by simp
      show "key_of D e < k" if "e \<in> set (in_before ?gs)" for e using that GN.prems(6) bet(1) ts(2,3) by auto
      show "k < key_of D e" if "e \<in> set (in_after ?gs)" for e using that GN.prems(7) bet(2) ts(2,3) by auto
    qed
    then show ?thesis using run ts(1) es(1) by simp
  qed
qed

section \<open>Whole trees\<close>

definition bt_ok :: "(('k::linorder), 'v) btree \<Rightarrow> (addr \<Rightarrow> 'k \<times> 'v) \<Rightarrow> gtree \<Rightarrow> bool" where
  "bt_ok T D u \<longleftrightarrow> rep (bt_heap T) D NULL u \<and> bt_root T = gaddr u \<and> (\<exists>d. root_ok d u) \<and> ordered D (gin u) \<and> distinct (gnodes u) \<and>
     dom (bh_nodes (bt_heap T)) = set (gnodes u) \<and> dom (bh_elems (bt_heap T)) = set (gin u) \<and> bt_total T = int (length (gin u))"

text \<open>The entries of the tree in their order, and as a map.\<close>

definition entries :: "(addr \<Rightarrow> 'k \<times> 'v) \<Rightarrow> gtree \<Rightarrow> ('k \<times> 'v) list" where
  "entries D u = map D (gin u)"

definition bt_holds :: "(('k::linorder), 'v) btree \<Rightarrow> ('k \<Rightarrow> 'v option) \<Rightarrow> bool" where
  "bt_holds T m \<longleftrightarrow> (\<exists>D u. bt_ok T D u \<and> map_of (entries D u) = m)"

lemma entries_distinct: "ordered D (gin u) \<Longrightarrow> distinct (map fst (entries D u))"
  by (simp add: entries_def ordered_map strict_sorted_iff comp_def)

lemma map_of_entries: "ordered D (gin u) \<Longrightarrow> e \<in> set (gin u) \<Longrightarrow> map_of (entries D u) (key_of D e) = Some (snd (D e))"
  by (rule map_of_is_SomeI [OF entries_distinct]) (auto simp: entries_def)

lemma map_of_entries_None: "k \<notin> key_of D ` set (gin u) \<Longrightarrow> map_of (entries D u) k = None"
  by (auto simp: entries_def map_of_eq_None_iff image_image)

lemma dom_map_of_entries: "dom (map_of (entries D u)) = key_of D ` set (gin u)"
  by (auto simp: entries_def dom_map_of_conv_image_fst)

lemma card_entries: "ordered D (gin u) \<Longrightarrow> card (dom (map_of (entries D u))) = length (gin u)"
  using entries_distinct [of D u] by (simp add: dom_map_of_conv_image_fst distinct_card entries_def flip: set_map)

lemma bt_holds_card: "bt_ok T D u \<Longrightarrow> map_of (entries D u) = m \<Longrightarrow> card (dom (bh_elems (bt_heap T))) = card (dom m) \<and> bt_total T = int (card (dom m)) \<and> finite (dom m)"
  using card_entries [of D u] ordered_distinct [of D "gin u"] distinct_card [of "gin u"]
  by (auto simp: bt_ok_def dom_map_of_entries)

lemma bt_create_holds:
  assumes "fresh_nodes new"
  shows "\<exists>T. bt_create new N = Some T \<and> bt_holds T Map.empty \<and> bt_max T = N"
proof -
  let ?h0 = "\<lparr>bh_nodes = Map.empty, bh_elems = Map.empty\<rparr> :: ('a, 'b) bheap"
  let ?n = "new ?h0" and ?h = "put_node (new ?h0) new_bnode ?h0"
  let ?T = "\<lparr>bt_root = ?n, bt_total = 0, bt_max = N, bt_leftDeletion = True, bt_heap = ?h\<rparr>"
  have n: "?n \<noteq> NULL" using assms by (auto simp: fresh_nodes_def)
  have "rep ?h D NULL (GN ?n [] [])" for D using n by (simp add: node_ok_def links_Nil kid_addrs_def new_bnode_def)
  then have "bt_ok ?T D (GN ?n [] [])" for D by (auto simp: bt_ok_def root_ok_def top_ok_def intro!: exI [of _ 0])
  then have "bt_holds ?T Map.empty" unfolding bt_holds_def by (intro exI [of _ undefined] exI [of _ "GN ?n [] []"]) (simp add: entries_def)
  then show ?thesis using n by (simp add: bt_create_def new_node_def)
qed

lemma rep_elem: "rep h D p t \<Longrightarrow> e \<in> set (gin t) \<Longrightarrow> \<exists>l r. bh_elems h e = Some (elem_of D e l r)"
proof (induction t arbitrary: p)
  case (GN n es ts)
  show ?case
  proof (cases "e \<in> set es")
    case True
    then show ?thesis using GN.prems(1) by (auto simp: links_ok_def in_set_conv_nth)
  next
    case False
    then obtain t where "t \<in> set ts" "e \<in> set (gin t)" using GN.prems(2) set_gin [OF GN.prems(1)] by auto
    then show ?thesis using GN by auto
  qed
qed

lemma bt_find_holds: "bt_holds T m \<Longrightarrow> bt_find k T = Some (m k)"
proof -
  assume "bt_holds T m"
  then obtain D u where u: "bt_ok T D u" "map_of (entries D u) = m" by (auto simp: bt_holds_def)
  note b = u(1) [unfolded bt_ok_def]
  obtain d n e where f: "root_ok d u" "find_element (bt_heap T) (gaddr u) k = Some (n, e)"
    "if k \<in> key_of D ` set (gin u) then e \<in> set (gin u) \<and> key_of D e = k else e = NULL"
    using b find_element_ok by blast
  show ?thesis
  proof (cases "k \<in> key_of D ` set (gin u)")
    case True
    then have e: "e \<in> set (gin u)" "key_of D e = k" using f(3) by auto
    then have "e \<noteq> NULL" "m k = Some (snd (D e))" using b gin_not_NULL map_of_entries u(2) by metis+
    moreover obtain l r where "bh_elems (bt_heap T) e = Some (elem_of D e l r)" using rep_elem b e(1) by blast
    ultimately show ?thesis using f(2) b by (simp add: bt_find_def)
  next
    case False
    then have "e = NULL" "m k = None" using f(3) map_of_entries_None u(2) by (auto split: if_splits)
    then show ?thesis using f(2) b by (simp add: bt_find_def)
  qed
qed

lemma links_set_value:
  "links_ok h D es cs \<Longrightarrow> bh_elems h e = Some y \<Longrightarrow> links_ok (put_elem e (y\<lparr>be_value := v\<rparr>) h) (D(e := (key_of D e, v))) es cs"
  by (auto simp: links_ok_def elem_of_def)

lemma rep_set_value:
  "rep h D p t \<Longrightarrow> bh_elems h e = Some y \<Longrightarrow> rep (put_elem e (y\<lparr>be_value := v\<rparr>) h) (D(e := (key_of D e, v))) p t"
proof (induction t arbitrary: p)
  case (GN n es ts)
  then have "links_ok (put_elem e (y\<lparr>be_value := v\<rparr>) h) (D(e := (key_of D e, v))) es (kid_addrs es ts)" by (intro links_set_value) auto
  moreover have "node_ok (put_elem e (y\<lparr>be_value := v\<rparr>) h) p n es" using GN.prems(1) by (simp add: node_ok_def)
  ultimately show ?case using GN by (simp del: fun_upd_apply)
qed

lemma map_of_update:
  "distinct (map (key_of D) es) \<Longrightarrow> e \<in> set es \<Longrightarrow> map_of (map (D(e := (key_of D e, v))) es) = (map_of (map D es))(key_of D e \<mapsto> v)"
proof (induction es)
  case (Cons f es)
  show ?case
  proof (cases "f = e")
    case True
    then have "e \<notin> set es" using Cons.prems(1) by auto
    then have "map_of (map (D(e := (key_of D e, v))) es) = map_of (map D es)" by (intro arg_cong [where f = map_of]) auto
    then show ?thesis unfolding list.map True map_of.simps by (cases "D e") (simp del: fun_upd_apply, simp)
  next
    case False
    then have e: "e \<in> set es" "key_of D f \<noteq> key_of D e" using Cons.prems by auto
    have "map_of (map (D(e := (key_of D e, v))) es) = (map_of (map D es))(key_of D e \<mapsto> v)" using Cons e by (simp del: fun_upd_apply)
    then show ?thesis using False e(2) by (cases "D f") (simp add: fun_upd_other fun_upd_twist del: fun_upd_apply)
  qed
qed simp

lemma set_value_holds:
  assumes "bt_holds T m"
  shows "\<exists>T'. set_value k v T = Some (k \<in> dom m, T') \<and> bt_holds T' (if k \<in> dom m then m(k \<mapsto> v) else m) \<and> bt_max T' = bt_max T"
proof -
  obtain D u where u: "bt_ok T D u" "map_of (entries D u) = m" using assms by (auto simp: bt_holds_def)
  note b = u(1) [unfolded bt_ok_def]
  obtain n e where f: "find_element (bt_heap T) (gaddr u) k = Some (n, e)"
    "if k \<in> key_of D ` set (gin u) then e \<in> set (gin u) \<and> key_of D e = k else e = NULL"
    using b find_element_ok by blast
  have dom: "dom m = key_of D ` set (gin u)" unfolding u(2) [symmetric] by (rule dom_map_of_entries)
  show ?thesis
  proof (cases "k \<in> dom m")
    case True
    then have e: "e \<in> set (gin u)" "key_of D e = k" using f(2) unfolding dom by auto
    have e0: "e \<noteq> NULL" using b e(1) gin_not_NULL by metis
    obtain y where y: "bh_elems (bt_heap T) e = Some y" using b e(1) rep_elem by blast
    let ?T = "with_heap T (put_elem e (y\<lparr>be_value := v\<rparr>) (bt_heap T))" and ?D = "D(e := (key_of D e, v))"
    have "set_value k v T = Some (True, ?T)" using f(1) b e0 y by (simp add: set_value_def)
    moreover have "bt_ok ?T ?D u" unfolding bt_ok_def
    proof (intro conjI)
      show "rep (bt_heap ?T) ?D NULL u" using b y by (simp add: with_heap_def rep_set_value)
      show "ordered ?D (gin u)"
      proof -
        have "map (key_of ?D) (gin u) = map (key_of D) (gin u)" by simp
        then show ?thesis using b unfolding ordered_map by metis
      qed
      show "dom (bh_elems (bt_heap ?T)) = set (gin u)" using b e(1) by (auto simp: with_heap_def)
    qed (use b in \<open>auto simp: with_heap_def\<close>)
    moreover have "map_of (entries ?D u) = m(k \<mapsto> v)"
      using map_of_update [of D "gin u" e v] b e u(2) by (simp add: entries_def ordered_map strict_sorted_iff)
    ultimately show ?thesis using True unfolding bt_holds_def by (auto simp: with_heap_def)
  next
    case False
    then have "e = NULL" using f(2) unfolding dom by auto
    then show ?thesis using f(1) b assms False by (auto simp: set_value_def)
  qed
qed

lemma traverse_holds:
  assumes "bt_holds T m"
  shows "in_order_traverse (bt_heap T) A v (bt_root T) 0 s = Some (visits A v (map (\<lambda>k. (k, the (m k))) (sorted_list_of_set (dom m))) s)"
proof -
  obtain D u where u: "bt_ok T D u" "map_of (entries D u) = m" using assms by (auto simp: bt_holds_def)
  note b = u(1) [unfolded bt_ok_def]
  obtain d where "root_ok d u" using b by blast
  then have t: "in_order_traverse (bt_heap T) A v (bt_root T) 0 s = Some (visits A v (map D (gin u)) s)" using traverse_ok b by metis
  have "sorted_list_of_set (dom m) = map (key_of D) (gin u)"
    using b dom_map_of_entries [of D u] unfolding u(2) ordered_map strict_sorted_iff
    by (simp add: sorted_list_of_set.idem_if_sorted_distinct flip: set_map)
  moreover have "(key_of D e, the (m (key_of D e))) = D e" if "e \<in> set (gin u)" for e
    using map_of_entries [of D u e] b that u(2) by simp
  ultimately have "map (\<lambda>k. (k, the (m k))) (sorted_list_of_set (dom m)) = map D (gin u)" by simp
  then show ?thesis using t by simp
qed

section \<open>Insertion of a new key\<close>

text \<open>The pool of the elements serves as long as there are fewer than \<open>M\<close> of them, as \<open>Mem_Pool\<close> proves of the pool of the tree.\<close>

definition element_pool :: "(('k, 'v) bheap \<Rightarrow> addr option) \<Rightarrow> nat \<Rightarrow> bool" where
  "element_pool alloc M \<longleftrightarrow> (\<forall>h. finite (dom (bh_elems h)) \<longrightarrow>
     (case alloc h of None \<Rightarrow> M \<le> card (dom (bh_elems h)) | Some e \<Rightarrow> card (dom (bh_elems h)) < M \<and> e \<notin> dom (bh_elems h) \<and> e \<noteq> NULL))"

lemma map_of_insert:
  "distinct (map fst (xs @ (k, v) # ys)) \<Longrightarrow> map_of (xs @ (k, v) # ys) = (map_of (xs @ ys))(k \<mapsto> v)"
  by (induction xs) (auto simp: fun_eq_iff)

lemma grow_tree:
  fixes T :: "('k::linorder, 'v) btree" and k :: 'k and v :: 'v
  assumes new: "fresh_nodes new" and b: "bt_ok T D u" "k \<notin> key_of D ` set (gin u)" and e: "e \<notin> dom (bh_elems (bt_heap T))" "e \<noteq> NULL"
  defines "h1 \<equiv> put_elem e \<lparr>be_key = k, be_value = v, be_left = NULL, be_right = NULL\<rparr> (bt_heap T)" and "D1 \<equiv> D(e := (k, v))"
  shows "\<exists>n u' h' A B. insertion_leaf h1 (bt_root T) k = Some n \<and> gin u = A @ B \<and> ordered D1 (A @ e # B) \<and>
    insert_element new n e (with_heap T h1) = Some (True, T\<lparr>bt_root := gaddr u', bt_heap := h'\<rparr>) \<and> grown h1 D1 (A @ e # B) h' u'"
proof -
  note b' = b(1) [unfolded bt_ok_def]
  have eu: "e \<notin> set (gin u)" using b' e(1) by simp
  have rep: "rep h1 D1 NULL u"
  proof (rule rep_cong [of "bt_heap T" D NULL u])
    show "bh_elems h1 f = bh_elems (bt_heap T) f \<and> D1 f = D f" if "f \<in> set (gin u)" for f using that eu by (auto simp: h1_def D1_def)
  qed (use b' in \<open>simp_all add: h1_def\<close>)
  have D1: "map (key_of D1) es = map (key_of D) es" if "e \<notin> set es" for es using that by (auto simp: D1_def)
  then have o: "ordered D1 (gin u)" using b' eu unfolding ordered_map by metis
  have k: "k \<notin> key_of D1 ` set (gin u)" using b(2) D1 [OF eu] by (metis set_map)
  obtain d where d: "root_ok d u" using b' by blast
  have "\<exists>fs n es1 es2. insertion_leaf h1 (gaddr u) k = Some n \<and> plug [] u = plug fs (GN n (es1 @ es2) []) \<and> ctx_ok 0 fs \<and>
    length (es1 @ es2) \<le> 32 \<and> (fs \<noteq> [] \<longrightarrow> 16 \<le> length (es1 @ es2)) \<and>
    (\<forall>e\<in>set (in_before fs) \<union> set es1. key_of D1 e < k) \<and> (\<forall>e\<in>set es2 \<union> set (in_after fs). k < key_of D1 e)"
    by (rule insertion_leaf_ok [OF rep o k]) (use d in auto)
  then obtain fs n es1 es2 where l: "insertion_leaf h1 (gaddr u) k = Some n" "u = plug fs (GN n (es1 @ es2) [])" "ctx_ok 0 fs"
    "length (es1 @ es2) \<le> 32" "fs \<noteq> [] \<longrightarrow> 16 \<le> length (es1 @ es2)"
    "\<forall>e\<in>set (in_before fs) \<union> set es1. key_of D1 e < k" "\<forall>e\<in>set es2 \<union> set (in_after fs). k < key_of D1 e" by auto
  have f: "frames_ok fs" using l(3) by (rule ctx_frames_ok)
  define A B where "A = in_before fs @ es1" and "B = es2 @ in_after fs"
  have AB: "gin u = A @ B" "gin (target fs n es1 e es2 []) = A @ e # B" unfolding l(2) target_def gin_plug [OF f] by (simp_all add: A_def B_def)
  have ord: "ordered D1 (A @ e # B)"
  proof -
    have "key_of D1 e = k" by (simp add: D1_def)
    moreover have "\<forall>a\<in>set A. key_of D1 a < k" "\<forall>b\<in>set B. k < key_of D1 b" using l(6,7) by (auto simp: A_def B_def)
    ultimately show ?thesis using o unfolding AB(1) ordered_append ordered_Cons by (auto intro: less_trans)
  qed
  obtain q where q: "rep_ctx h1 D1 fs q n" "rep h1 D1 q (GN n (es1 @ es2) [])" using rep unfolding l(2) rep_plug by auto
  have pend: "pending_elem h1 D1 fs n es1 e es2 []"
    unfolding pending_elem_def
  proof (intro conjI)
    have r: "replicate (Suc (length (es1 @ x))) NULL = replicate (length es1) NULL @ NULL # replicate (length x) NULL" for x :: "addr list"
      using replicate_add [of "length es1" "Suc (length x)" NULL] by simp
    have "kid_addrs (es1 @ e # es2) [] = replicate (length es1) NULL @ NULL # NULL # replicate (length es2) NULL"
      using r [of "e # es2"] by (simp add: kid_addrs_def)
    moreover have "links_ok h1 D1 (es1 @ es2) (replicate (length es1) NULL @ NULL # replicate (length es2) NULL)"
      using q(2) r [of es2] by (simp add: kid_addrs_def)
    moreover have "bh_elems h1 e = Some (elem_of D1 e NULL NULL)" by (simp add: h1_def elem_of_def D1_def)
    ultimately show "\<exists>cs1 a b cs2. kid_addrs (es1 @ e # es2) [] = cs1 @ a # b # cs2 \<and> length cs1 = length es1 \<and> length cs2 = length es2 \<and>
       links_ok h1 D1 (es1 @ es2) (cs1 @ a # cs2) \<and> bh_elems h1 e = Some (elem_of D1 e a b)" by (metis length_replicate)
  qed (use q e(2) in auto)
  have gn: "gnodes (target fs n es1 e es2 []) = gnodes u" unfolding l(2) target_def gnodes_plug by simp
  have tgt: "target_ok h1 D1 0 fs n es1 e es2 []"
    unfolding target_ok_def gn AB(2) using ord b' l(3-5) by (simp add: h1_def top_ok_def)
  have root: "bt_root (with_heap T h1) = gaddr (target fs n es1 e es2 [])"
    using b' unfolding l(2) target_def by (simp add: with_heap_def gaddr_plug)
  have "\<exists>u' h'. insert_element new n e (with_heap T h1) = Some (True, (with_heap T h1)\<lparr>bt_root := gaddr u', bt_heap := h'\<rparr>) \<and>
      grown (bt_heap (with_heap T h1)) D1 (gin (target fs n es1 e es2 [])) h' u'"
    by (rule insert_element_ok [OF new _ _ root]) (use pend tgt in \<open>simp_all add: with_heap_def\<close>)
  then obtain u' h' where "insert_element new n e (with_heap T h1) = Some (True, T\<lparr>bt_root := gaddr u', bt_heap := h'\<rparr>)"
    "grown h1 D1 (A @ e # B) h' u'" unfolding AB(2) by (auto simp: with_heap_def)
  then show ?thesis using l(1) AB(1) ord b' by metis
qed

lemma bt_insert_holds:
  fixes T :: "('k::linorder, 'v) btree"
  assumes new: "fresh_nodes new" and pool: "element_pool alloc M" and T: "bt_holds T m" "m k = None"
  shows "\<exists>x. bt_insert new alloc k v T = Some x \<and>
    (if 0 \<le> bt_max T \<and> bt_max T \<le> int (card (dom m)) then x = Inr (False, T)
     else if M \<le> card (dom m) then x = Inl ElementPoolExhausted
     else \<exists>T'. x = Inr (True, T') \<and> bt_holds T' (m(k \<mapsto> v)) \<and> bt_max T' = bt_max T)"
proof -
  obtain D u where u: "bt_ok T D u" "map_of (entries D u) = m" using T(1) by (auto simp: bt_holds_def)
  note b = u(1) [unfolded bt_ok_def]
  note card = bt_holds_card [OF u]
  have valid: "validate_tree_size T \<longleftrightarrow> \<not> (0 \<le> bt_max T \<and> bt_max T \<le> int (card (dom m)))" using card by (auto simp: validate_tree_size_def)
  have fin: "finite (dom (bh_elems (bt_heap T)))" using b by simp
  note pool = pool [unfolded element_pool_def, rule_format, OF fin]
  show ?thesis
  proof (cases "validate_tree_size T \<and> card (dom m) < M")
    case True
    then obtain e where e: "alloc (bt_heap T) = Some e" "e \<notin> dom (bh_elems (bt_heap T))" "e \<noteq> NULL"
      using pool card by (auto split: option.splits)
    define h1 where "h1 = put_elem e \<lparr>be_key = k, be_value = v, be_left = NULL, be_right = NULL\<rparr> (bt_heap T)"
    define D1 where "D1 = D(e := (k, v))"
    have k: "k \<notin> key_of D ` set (gin u)" using T(2) dom_map_of_entries [of D u] u(2) by auto
    obtain n u' h' A B where g: "insertion_leaf h1 (bt_root T) k = Some n" "gin u = A @ B" "ordered D1 (A @ e # B)"
      "insert_element new n e (with_heap T h1) = Some (True, T\<lparr>bt_root := gaddr u', bt_heap := h'\<rparr>)" "grown h1 D1 (A @ e # B) h' u'"
      using grow_tree [OF new u(1) k e(2,3), where v = v] unfolding h1_def D1_def by blast
    let ?T = "T\<lparr>bt_root := gaddr u', bt_total := bt_total T + 1, bt_heap := h'\<rparr>"
    have "bt_insert new alloc k v T = Some (Inr (True, ?T))"
      using True e(1) g(1,4) by (simp add: bt_insert_def create_element_def flip: h1_def)
    moreover have gu: "gin u' = A @ e # B" using g(5) by (simp add: grown_def)
    have dom1: "dom (bh_elems h1) = insert e (set (gin u))" using b by (simp add: h1_def)
    have "bt_ok ?T D1 u'" unfolding bt_ok_def gu using g(3,5) b dom1 unfolding grown_def g(2) by auto
    moreover have "map_of (entries D1 u') = m(k \<mapsto> v)"
    proof -
      have "e \<notin> set (A @ B)" using e(2) b unfolding g(2) by metis
      then have 1: "map D1 A = map D A" "map D1 B = map D B" by (auto simp: D1_def)
      have "D1 e = (k, v)" by (simp add: D1_def)
      then have 2: "map D1 (A @ e # B) = map D A @ (k, v) # map D B" using 1 by simp
      have "distinct (map fst (map D1 (A @ e # B)))" using g(3) by (simp add: ordered_map strict_sorted_iff comp_def)
      then have "map_of (map D A @ (k, v) # map D B) = (map_of (map D A @ map D B))(k \<mapsto> v)"
        unfolding 2 by (rule map_of_insert)
      then show ?thesis unfolding entries_def gu u(2) [symmetric] g(2) 2 by simp
    qed
    ultimately have "bt_insert new alloc k v T = Some (Inr (True, ?T)) \<and> bt_holds ?T (m(k \<mapsto> v)) \<and> bt_max ?T = bt_max T"
      unfolding bt_holds_def by auto
    moreover have lim: "\<not> (0 \<le> bt_max T \<and> bt_max T \<le> int (card (dom m)))" "\<not> M \<le> card (dom m)" using True unfolding valid by simp_all
    ultimately show ?thesis unfolding if_not_P [OF lim(1)] if_not_P [OF lim(2)] by blast
  next
    case False
    show ?thesis
    proof (cases "validate_tree_size T")
      case True
      then have M: "M \<le> card (dom m)" using False by simp
      have "alloc (bt_heap T) = None"
      proof (cases "alloc (bt_heap T)")
        case (Some e)
        then have "card (dom m) < M" using pool card by simp
        then show ?thesis using M by simp
      qed
      then have "bt_insert new alloc k v T = Some (Inl ElementPoolExhausted)" using True by (simp add: bt_insert_def create_element_def)
      then show ?thesis using True M unfolding valid by simp
    next
      case False
      then have "bt_insert new alloc k v T = Some (Inr (False, T))" by (simp add: bt_insert_def)
      then show ?thesis using False unfolding valid by simp
    qed
  qed
qed

lemma removed_all: "removed (dom (bh_nodes h)) (dom (bh_elems h)) h = \<lparr>bh_nodes = Map.empty, bh_elems = Map.empty\<rparr>"
  by (cases h) (auto simp: removed_def restrict_map_def fun_eq_iff)

lemma bt_destroy_holds:
  assumes "bt_holds T m"
  shows "bt_destroy T = Some \<lparr>bh_nodes = Map.empty, bh_elems = Map.empty\<rparr>"
proof -
  obtain D u where u: "bt_ok T D u" using assms by (auto simp: bt_holds_def)
  note b = u [unfolded bt_ok_def]
  obtain d where "root_ok d u" using b by blast
  then have "bt_destroy T = Some (removed (set (gnodes u)) (set (gin u)) (bt_heap T))"
    using b ordered_distinct [of D "gin u"] destroy_tree_ok unfolding bt_destroy_def by metis
  then show ?thesis using b removed_all [of "bt_heap T"] by simp
qed

section \<open>Any use of the tree\<close>

datatype ('k, 'v) bt_op = Insert 'k 'v | Assign 'k 'v | Lookup 'k | Limit int

datatype 'v bt_answer = Inserted bool | Exhausted | Assigned bool | Found "'v option" | Done

definition bt_step ::
    "('k, 'v) node_alloc \<Rightarrow> (('k, 'v) bheap \<Rightarrow> addr option) \<Rightarrow> ('k::linorder, 'v) bt_op \<Rightarrow> ('k, 'v) btree \<Rightarrow>
     ('v bt_answer \<times> ('k, 'v) btree) option" where
  "bt_step new alloc c T = (case c of
     Insert k v \<Rightarrow> map_option (\<lambda>x. case x of Inl _ \<Rightarrow> (Exhausted, T) | Inr (b, T') \<Rightarrow> (Inserted b, T')) (bt_insert new alloc k v T)
   | Assign k v \<Rightarrow> map_option (\<lambda>(b, T'). (Assigned b, T')) (set_value k v T)
   | Lookup k \<Rightarrow> map_option (\<lambda>r. (Found r, T)) (bt_find k T)
   | Limit i \<Rightarrow> Some (Done, set_max_elements i T))"

text \<open>The same on a finite map: a negative limit is none, and the pool of the elements has room for \<open>M\<close>.\<close>

definition map_step :: "nat \<Rightarrow> ('k, 'v) bt_op \<Rightarrow> ('k \<rightharpoonup> 'v) \<times> int \<Rightarrow> 'v bt_answer \<times> ('k \<rightharpoonup> 'v) \<times> int" where
  "map_step M c s = (case s of (m, limit) \<Rightarrow> (case c of
     Insert k v \<Rightarrow>
       (if 0 \<le> limit \<and> limit \<le> int (card (dom m)) then (Inserted False, m, limit)
        else if M \<le> card (dom m) then (Exhausted, m, limit)
        else (Inserted True, m(k \<mapsto> v), limit))
   | Assign k v \<Rightarrow> (Assigned (k \<in> dom m), if k \<in> dom m then m(k \<mapsto> v) else m, limit)
   | Lookup k \<Rightarrow> (Found (m k), m, limit)
   | Limit i \<Rightarrow> (Done, m, if i > 0 then i else limit)))"

primrec bt_run ::
    "('k, 'v) node_alloc \<Rightarrow> (('k, 'v) bheap \<Rightarrow> addr option) \<Rightarrow> ('k::linorder, 'v) bt_op list \<Rightarrow> ('k, 'v) btree \<Rightarrow>
     ('v bt_answer list \<times> ('k, 'v) btree) option" where
  "bt_run new alloc [] T = Some ([], T)"
| "bt_run new alloc (c # cs) T = do {
     (r, T) \<leftarrow> bt_step new alloc c T;
     (rs, T) \<leftarrow> bt_run new alloc cs T;
     Some (r # rs, T) }"

primrec map_run :: "nat \<Rightarrow> ('k, 'v) bt_op list \<Rightarrow> ('k \<rightharpoonup> 'v) \<times> int \<Rightarrow> 'v bt_answer list \<times> ('k \<rightharpoonup> 'v) \<times> int" where
  "map_run M [] s = ([], s)"
| "map_run M (c # cs) s = (let (r, s) = map_step M c s; (rs, s) = map_run M cs s in (r # rs, s))"

text \<open>Every key is inserted when the map does not have it; the tree does not look for a key that is there.\<close>

primrec new_keys :: "nat \<Rightarrow> ('k, 'v) bt_op list \<Rightarrow> ('k \<rightharpoonup> 'v) \<times> int \<Rightarrow> bool" where
  "new_keys M [] s = True"
| "new_keys M (c # cs) s = ((case c of Insert k v \<Rightarrow> fst s k = None | _ \<Rightarrow> True) \<and> new_keys M cs (snd (map_step M c s)))"

lemma set_max_holds: "bt_holds T m \<Longrightarrow> bt_holds (T\<lparr>bt_max := i\<rparr>) m"
  unfolding bt_holds_def bt_ok_def by simp

lemma bt_step_ok:
  assumes new: "fresh_nodes new" and pool: "element_pool alloc M" and T: "bt_holds T m"
    and key: "case c of Insert k v \<Rightarrow> m k = None | _ \<Rightarrow> True"
  shows "\<exists>T'. bt_step new alloc c T = Some (fst (map_step M c (m, bt_max T)), T') \<and>
    bt_holds T' (fst (snd (map_step M c (m, bt_max T)))) \<and> bt_max T' = snd (snd (map_step M c (m, bt_max T)))"
proof (cases c)
  case (Insert k v)
  then have k: "m k = None" using key by simp
  obtain x where x: "bt_insert new alloc k v T = Some x"
    "if 0 \<le> bt_max T \<and> bt_max T \<le> int (card (dom m)) then x = Inr (False, T)
     else if M \<le> card (dom m) then x = Inl ElementPoolExhausted
     else \<exists>T'. x = Inr (True, T') \<and> bt_holds T' (m(k \<mapsto> v)) \<and> bt_max T' = bt_max T"
    using bt_insert_holds [OF new pool T k] by blast
  consider (full) "0 \<le> bt_max T \<and> bt_max T \<le> int (card (dom m))" "x = Inr (False, T)"
    | (out) "\<not> (0 \<le> bt_max T \<and> bt_max T \<le> int (card (dom m)))" "M \<le> card (dom m)" "x = Inl ElementPoolExhausted"
    | (room) T' where "\<not> (0 \<le> bt_max T \<and> bt_max T \<le> int (card (dom m)))" "\<not> M \<le> card (dom m)" "x = Inr (True, T')"
        "bt_holds T' (m(k \<mapsto> v))" "bt_max T' = bt_max T"
    using x(2) by (auto split: if_splits)
  then show ?thesis
    using x(1) T by cases (simp_all only: Insert bt_step_def map_step_def bt_op.case prod.case if_P if_not_P, auto)
next
  case (Assign k v)
  then show ?thesis using set_value_holds [OF T, of k v] by (auto simp: bt_step_def map_step_def)
next
  case (Lookup k)
  then show ?thesis using bt_find_holds [OF T, of k] T by (auto simp: bt_step_def map_step_def)
next
  case (Limit i)
  then show ?thesis using T set_max_holds [OF T] by (auto simp: bt_step_def map_step_def set_max_elements_def)
qed

lemma bt_run_ok:
  assumes "fresh_nodes new" "element_pool alloc M"
  shows "bt_holds T m \<Longrightarrow> new_keys M cs (m, bt_max T) \<Longrightarrow>
    \<exists>T'. bt_run new alloc cs T = Some (fst (map_run M cs (m, bt_max T)), T') \<and> bt_holds T' (fst (snd (map_run M cs (m, bt_max T))))"
proof (induction cs arbitrary: T m)
  case (Cons c cs)
  obtain r m1 l1 where s: "map_step M c (m, bt_max T) = (r, m1, l1)" by (cases "map_step M c (m, bt_max T)") auto
  have "case c of Insert k v \<Rightarrow> m k = None | _ \<Rightarrow> True" using Cons.prems(2) by (simp split: bt_op.splits)
  then obtain T1 where T1: "bt_step new alloc c T = Some (r, T1)" "bt_holds T1 m1" "bt_max T1 = l1"
    using bt_step_ok [OF assms Cons.prems(1), of c] s by auto
  then obtain T2 where "bt_run new alloc cs T1 = Some (fst (map_run M cs (m1, l1)), T2)" "bt_holds T2 (fst (snd (map_run M cs (m1, l1))))"
    using Cons.IH [OF T1(2)] Cons.prems(2) s by auto
  then show ?case using T1(1) s by (simp add: case_prod_unfold Let_def)
qed simp

section \<open>Properties\<close>

text \<open>C6. A B-tree is a sorted map. Any sequence of insertions of keys that are not in the tree, assignments, searches and changes of
  the limit, from a new tree, runs without touching a node or an element that does not exist and without looping, however the
  nodes split, and answers as a finite map does: an insertion returns false when the limit is reached, throws when the pool has
  given out its \<open>M\<close> elements, and else returns true; an assignment tells whether the key was there; a search returns its value.
  Afterwards the traversal visits exactly the entries of the map, in ascending order of their keys, until it is told to stop, and
  the destruction deletes every node and gives back every element once. The pool that the constructor makes has as many elements
  as the limit it is given, or 1024 when that is below 1. Counts are unbounded integers here.\<close>

theorem btree_refines_map:
  assumes "fresh_nodes new" "element_pool alloc M" "new_keys M ops (Map.empty, limit)"
    and "map_run M ops (Map.empty, limit) = (answers, m, limit')"
  shows "\<exists>T0 T. bt_create new limit = Some T0 \<and> bt_run new alloc ops T0 = Some (answers, T) \<and>
    (\<forall>stop visit s. in_order_traverse (bt_heap T) stop visit (bt_root T) 0 s =
       Some (visits stop visit (map (\<lambda>k. (k, the (m k))) (sorted_list_of_set (dom m))) s)) \<and>
    bt_destroy T = Some \<lparr>bh_nodes = Map.empty, bh_elems = Map.empty\<rparr>"
proof -
  obtain T0 where T0: "bt_create new limit = Some T0" "bt_holds T0 Map.empty" "bt_max T0 = limit"
    using bt_create_holds [OF assms(1)] by blast
  then obtain T where "bt_run new alloc ops T0 = Some (answers, T)" "bt_holds T m"
    using bt_run_ok [OF assms(1,2) T0(2), of ops] assms(3,4) by auto
  then show ?thesis using T0(1) by (intro exI [of _ T0] exI [of _ T] conjI allI traverse_holds bt_destroy_holds)
qed

text \<open>Addresses above all those in use, and a pool of 1024 elements.\<close>

definition above_nodes :: "('k, 'v) node_alloc" where
  "above_nodes h = Suc (Max (insert 0 (dom (bh_nodes h))))"

definition above_elems :: "('k, 'v) bheap \<Rightarrow> addr option" where
  "above_elems h = (if 1024 \<le> card (dom (bh_elems h)) then None else Some (Suc (Max (insert 0 (dom (bh_elems h))))))"

lemma above_fresh: "finite A \<Longrightarrow> Suc (Max (insert 0 A)) \<notin> A" for A :: "nat set"
proof
  assume "finite A" "Suc (Max (insert 0 A)) \<in> A"
  then have "Suc (Max (insert 0 A)) \<le> Max (insert 0 A)" by (intro Max_ge) auto
  then show False by simp
qed

lemma above_nodes_ok: "fresh_nodes above_nodes"
  by (simp add: fresh_nodes_def above_nodes_def above_fresh)

lemma above_elems_ok: "element_pool above_elems 1024"
  by (simp add: element_pool_def above_elems_def above_fresh)

theorem btree_refines_map_witness:
  "\<exists>T0 T. bt_create above_nodes (- 1) = Some (T0 :: (nat, nat) btree) \<and>
    bt_run above_nodes above_elems [Insert 7 1, Insert 5 2, Lookup 7, Assign 5 3, Limit 2, Insert 6 4, Lookup 6] T0 =
      Some ([Inserted True, Inserted True, Found (Some 1), Assigned True, Done, Inserted False, Found None], T) \<and>
    in_order_traverse (bt_heap T) (\<lambda>s. False) (\<lambda>k v s. s @ [(k, v)]) (bt_root T) 0 [] = Some [(5, 3), (7, 1)] \<and>
    bt_destroy T = Some \<lparr>bh_nodes = Map.empty, bh_elems = Map.empty\<rparr>"
proof -
  let ?ops = "[Insert 7 1, Insert 5 2, Lookup 7, Assign 5 3, Limit 2, Insert 6 4, Lookup 6] :: (nat, nat) bt_op list"
  have r: "map_run 1024 ?ops (Map.empty, - 1) =
    ([Inserted True, Inserted True, Found (Some 1), Assigned True, Done, Inserted False, Found None], [7 \<mapsto> 1, 5 \<mapsto> 3], 2)"
    by (simp add: map_step_def fun_eq_iff)
  have k: "new_keys 1024 ?ops (Map.empty, - 1)" by (simp add: map_step_def)
  obtain T0 T where T: "bt_create above_nodes (- 1) = Some (T0 :: (nat, nat) btree)" "bt_run above_nodes above_elems ?ops T0 =
      Some ([Inserted True, Inserted True, Found (Some 1), Assigned True, Done, Inserted False, Found None], T)"
    "\<forall>stop visit (s :: (nat \<times> nat) list). in_order_traverse (bt_heap T) stop visit (bt_root T) 0 s =
       Some (visits stop visit (map (\<lambda>k. (k, the ([7 \<mapsto> 1, 5 \<mapsto> 3 :: nat] k))) (sorted_list_of_set (dom [7 \<mapsto> 1, 5 \<mapsto> 3 :: nat]))) s)"
    "bt_destroy T = Some \<lparr>bh_nodes = Map.empty, bh_elems = Map.empty\<rparr>"
    using btree_refines_map [OF above_nodes_ok above_elems_ok k r] by blast
  have "sorted_list_of_set (dom [7 \<mapsto> 1, 5 \<mapsto> 3 :: nat]) = [5, 7 :: nat]" by simp
  then have "in_order_traverse (bt_heap T) (\<lambda>s. False) (\<lambda>k v s. s @ [(k, v)]) (bt_root T) 0 [] = Some [(5, 3), (7, 1)]"
    by (simp add: T(3))
  then show ?thesis using T(1,2,4) by blast
qed

end
