(* ===== verification/Spec2Isabelle.thy ===== *)
theory Spec2Isabelle
  imports Str_Basic Str_Compare Str_Copy Str_Token Word_Scan Mem_Block Sort Stdlib_Num Signal Process_Exit Pthread
    Pthread_Cond Stdio_Inv Rwlock Linked_List Queue_Channel Mem_Pool Calendar
    Shared_Ptr Alloc Bitset BTree_Object
begin

text \<open>
  \<^bold>\<open>The program.\<close> upanlibs holds the user space libraries of the Upanix operating system: a C library (\<open>libc\<close>, with
  sources from uClibc and newlib), a thread library (\<open>libupthread\<close>), the C++ run time (\<open>libcxxrt\<close>), a C++ container and
  concurrency library (\<open>libustd\<close>) and a user interface library (\<open>libupanui\<close>). Programs call \<open>libc\<close> and \<open>libustd\<close>;
  \<open>libustd\<close> takes memory from \<open>libc\<close> and its mutexes, condition variables and atomic counters from \<open>libupthread\<close>; the
  streams of \<open>libc\<close> take a lock of \<open>libupthread\<close> around each operation; everything ends in system calls of the kernel,
  which is not part of the repository.

  \<^bold>\<open>The development.\<close> Definitions carry the names of the functions they model. Every theory starts with the code, in
  the order of the source, and goes on to what it is proved to do.

  \<^item> \<open>Prelude\<close>: byte-addressed memory as a partial map, zero-terminated strings, C division and the signed reading of bytes.

  \<^item> \<open>Str_Basic\<close>, \<open>Str_Compare\<close>, \<open>Str_Copy\<close>, \<open>Str_Token\<close>: \<open>libc/string\<close> and \<open>libc/ctype\<close>. Each routine is related to the
  list of bytes before the terminator: copies, comparisons, first occurrence of a substring, tokens of a string.

  \<^item> \<open>Word_Scan\<close>, \<open>Mem_Block\<close>: the routines that read or write eight bytes at a time. They agree with the byte-wise
  specification for every alignment, and never touch a byte outside the block except within the longword that holds
  its last byte.

  \<^item> \<open>Sort\<close>: \<open>qsort\<close> and \<open>bsearch\<close> of \<open>libc/stdlib/stdlib.c\<close>. The byte-wise code refines a Shell sort of the list of
  elements; the result is sorted and has the same elements, for every order that meets the locale \<open>comparator\<close>.

  \<^item> \<open>Stdlib_Num\<close>, \<open>Signal\<close>, \<open>Process_Exit\<close>: numbers and their parsing, signal sets, \<open>exit\<close> with its two lists of handlers.

  \<^item> \<open>Calendar\<close>, \<open>Alloc\<close>: the conversion of a time to a date of \<open>libc/stdlib/dtime.c\<close>, against the Gregorian calendar, and the
  allocation functions of \<open>libc/stdlib/alloc.c\<close> over the blocks of the kernel.

  \<^item> \<open>Pthread\<close>, \<open>Pthread_Cond\<close>: \<open>libupthread\<close>. The lock functions are sequences of atomic steps of any number of
  threads; mutual exclusion is an invariant of all interleavings.

  \<^item> \<open>Stdio_Base\<close>, \<open>Stdio_Out\<close>, \<open>Stdio_In\<close>, \<open>Stdio_Files\<close>, \<open>Stdio_Inv\<close>: the narrow streams of \<open>libc/stdio\<close>, their buffers and
  modes over a host record of system calls. Writing and reading are related to sequences of bytes, and every sequence
  of the operations of \<open>stream_used\<close> keeps a stream valid in the sense of \<open>_stdio_validate_FILE\<close>. Writing to a stream that was
  read to its end is not among them: \<open>putc_after_eof\<close> shows that it breaks the check. Closing and reopening are left out too.

  \<^item> \<open>Tree_Code\<close>, \<open>Tree_Spec\<close>, \<open>Tree_Heap\<close>, \<open>Tree_Ops\<close>, \<open>Tree_Walk\<close>, \<open>Tree_Object\<close>: the balanced search tree behind \<open>upan::map\<close>
  and \<open>upan::set\<close> (\<open>libustd/ds/_tree.h\<close>). \<open>Tree_Code\<close> is the code on a heap of nodes; \<open>Tree_Spec\<close> the abstract tree;
  the others prove that the heap always holds a balanced tree that behaves as a sorted list (locale
  \<open>ordered_container\<close>).

  \<^item> \<open>Fifo\<close>, \<open>Linked_List\<close>, \<open>Queue\<close>, \<open>Queue_Channel\<close>: the contracts \<open>fifo\<close>, \<open>bounded_fifo\<close> and \<open>deque\<close>, and the containers of
  \<open>libustd/ds/list.h\<close> and \<open>libustd/ds/queue.h\<close> that meet them. \<open>Queue_Channel\<close> interleaves a producer and a consumer on the
  ring buffer without a lock.

  \<^item> \<open>Lifo\<close>, \<open>Vector\<close>, \<open>Mem_Pool\<close>: the contract \<open>bounded_lifo\<close>, the bounded stack and the vector of \<open>libustd/ds\<close>, and the memory pool of
  \<open>libustd/mem/MemPool.h\<close>, which keeps its free list in a vector and its live objects in a search tree. \<open>Bitset\<close>: the bit
  set of \<open>libustd/ds/bitset.h\<close> as a set of numbers, and its allocation of numbers. \<open>Shared_Ptr\<close>: the counted pointers of
  \<open>libustd/infra/shared_ptr.h\<close>, over any sequence of statements on variables and members.

  \<^item> \<open>BTree_Code\<close>, \<open>BTree_Rep\<close>, \<open>BTree_Find\<close>, \<open>BTree_Insert\<close>, \<open>BTree_Grow\<close>, \<open>BTree_Destroy\<close>, \<open>BTree_Object\<close>: the B-tree of
  \<open>libustd/ds/BTree.cpp\<close> on its two heaps of nodes and elements and the tree that the heaps represent; search and traversal;
  insertion into a node, the split and the way up to the root; destruction; and the whole as a finite map. Deletion is
  modelled, and nothing is proved of it.

  \<^item> \<open>Rwlock\<close>: the recursive readers-writer lock of \<open>libustd/mthread/rwlock.cpp\<close> as a step relation, with exclusion and the
  absence of lost wake-ups as invariants.

  \<^bold>\<open>Conventions.\<close> A fault (an access outside the allocated memory, through a null or a freed pointer, or undefined
  behaviour) is \<open>None\<close>; an exception or error return is a value of a sum or record. Loops are structural recursion, or
  \<open>partial_function (option)\<close> when the source does not bound them: then a loop that does not end is \<open>None\<close> as well, and
  the theorems state that the result is \<open>Some\<close>, so that they include termination and the absence of faults. No fuel is
  used. Machine integers are words of their width where they can wrap, and integers with the bound in the theorem
  elsewhere.

  \<^bold>\<open>Configuration.\<close> The headers of the repository fix it: 64 bit little-endian target, signed \<open>char\<close>, threads with
  locking, narrow streams with buffers of 1024 bytes, no automatic transition between reading and writing, and an
  \<open>assert\<close> macro whose body is commented out, so that assertions do not stop the program.

  \<^bold>\<open>Parameters.\<close> System calls and allocation (\<open>read\<close>, \<open>write\<close>, \<open>lseek\<close>, \<open>open\<close>, \<open>close\<close>, \<open>malloc\<close>, \<open>free\<close>, \<open>operator new\<close>, the wait
  queues of the kernel), the routines written in assembly (\<open>memcpy\<close>, \<open>strlen\<close>, \<open>strchr\<close>), comparison functions and
  callbacks are arguments of the definitions. What is assumed of them is a named hypothesis, and a witness instantiates
  it.

  \<^bold>\<open>Not modelled.\<close> Formatted input and output and \<open>strtod\<close> (\<open>vfprintf.c\<close>, \<open>scanf.c\<close>, \<open>_fpmaxtostr.c\<close>, \<open>strtod.c\<close>), which need a
  model of floating point and of variadic arguments; \<open>libm\<close>, for the same reason; \<open>libcxxrt\<close> except its exit handlers and
  \<open>libgcceh\<close>, which unwind the machine stack; \<open>libgccucore/zlib\<close> and the demangler, which are third-party code; the pixel
  code of \<open>libupanui\<close>; wrappers that only forward to a system call; and of \<open>libustd\<close> the strings, which call the C string
  routines on a buffer, the value wrappers \<open>option\<close>, \<open>result\<close> and \<open>uniq_ptr\<close>, for which the types of HOL stand, and the
  logger, file streams, configuration files and threads, which consist of input and output. In \<open>list.h\<close> the insertion
  through a reverse iterator does not compile when it is used and is left out.
\<close>

end
